(* ===== verification/Prelude.thy ===== *)
theory Prelude
  imports Main "HOL-Library.Word"
begin

text \<open>
  Shared automation of the development: the collections of rewrite rules the components
  feed and use, generic facts on lists, partial maps and arithmetic with the block and
  segment sizes, and the option-returning iteration used wherever the code may call
  \<^verbatim>\<open>exit\<close> in the middle of a loop.
\<close>

unbundle bit_operations_syntax

named_theorems nvm_simps \<open>effects of the persistent-memory primitives, per location\<close>
named_theorems geometry \<open>numeric values of the compile-time constants\<close>
named_theorems frame \<open>fields an operation leaves alone\<close>

type_synonym u8 = "8 word"
type_synonym u32 = "32 word"
type_synonym u64 = "64 word"

subsection \<open>Lists and folds\<close>

lemma fold_invariant:
  assumes "P s" and "\<And>x s. x \<in> set xs \<Longrightarrow> P s \<Longrightarrow> P (f x s)"
  shows "P (fold f xs s)"
  using assms by (induction xs arbitrary: s) auto

lemma fold_frame:
  assumes "\<And>x s. x \<in> set xs \<Longrightarrow> g (f x s) = g s"
  shows "g (fold f xs s) = g s"
  using assms by (induction xs arbitrary: s) auto

lemma filter_upt_Suc_first:
  assumes "i < n" and "P i" and "\<And>j. j < i \<Longrightarrow> \<not> P j"
  shows "filter P [0..<n] = i # filter P [Suc i..<n]"
proof -
  have split: "[0..<n] = [0..<i] @ i # [Suc i..<n]"
    using assms(1) by (metis le_add_diff_inverse less_imp_le upt_add_eq_append upt_conv_Cons zero_le add_0)
  have "filter P [0..<i] = []"
    using assms(3) by (auto simp: filter_empty_conv)
  then show ?thesis
    using assms(2) by (simp add: split)
qed

subsection \<open>Iteration that may stop the process\<close>

text \<open>\<open>None\<close> is the process having called \<^verbatim>\<open>exit(EXIT_FAILURE)\<close>.\<close>

fun foldM :: "('a \<Rightarrow> 's \<Rightarrow> 's option) \<Rightarrow> 'a list \<Rightarrow> 's \<Rightarrow> 's option" where
  "foldM f [] s = Some s"
| "foldM f (x # xs) s = (case f x s of None \<Rightarrow> None | Some t \<Rightarrow> foldM f xs t)"

lemma foldM_append:
  "foldM f (xs @ ys) s = (case foldM f xs s of None \<Rightarrow> None | Some t \<Rightarrow> foldM f ys t)"
  by (induction xs arbitrary: s) (auto split: option.splits)

lemma foldM_total:
  assumes "P s" and "\<And>x s. x \<in> set xs \<Longrightarrow> P s \<Longrightarrow> f x s = Some (g x s) \<and> P (g x s)"
  shows "foldM f xs s = Some (fold g xs s) \<and> P (fold g xs s)"
  using assms by (induction xs arbitrary: s) auto

subsection \<open>Arithmetic of nested blocks\<close>

lemma div_mult_range:
  fixes n k i :: nat
  assumes "0 < n"
  shows "(k * n \<le> i \<and> i < k * n + n) \<longleftrightarrow> i div n = k"
proof
  assume "k * n \<le> i \<and> i < k * n + n"
  then show "i div n = k"
    by (intro div_nat_eqI) (auto simp: algebra_simps)
next
  assume "i div n = k"
  then have "i = k * n + i mod n"
    using div_mult_mod_eq [of i n] by simp
  moreover have "i mod n < n"
    using assms by simp
  ultimately show "k * n \<le> i \<and> i < k * n + n"
    by (metis add_less_cancel_left le_add1)
qed

lemma div_lt_mult_iff:
  fixes n k i :: nat
  assumes "0 < n"
  shows "i div n < k \<longleftrightarrow> i < k * n"
  using assms by (simp add: less_mult_imp_div_less mult.commute div_less_iff_less_mult)

subsection \<open>Words\<close>

lemma bit_two_power [simp]:
  "bit (2 ^ i :: 'a::len word) j \<longleftrightarrow> i = j \<and> j < LENGTH('a)"
  by (auto simp: bit_exp_iff)

lemma word_nonzero_bit:
  fixes w :: "'a::len word"
  assumes "w \<noteq> 0"
  shows "\<exists>i<LENGTH('a). bit w i"
  using assms by (metis bit_imp_le_length bit_eqI bit_0_eq bot_apply bot_bool_def)

end
