(* ===== verification/Nvm.thy ===== *)
theory Nvm
  imports Prelude
begin

text \<open>
  The persistent memory the engines run on, as \<^verbatim>\<open>runtime/include/internal/common.h\<close> uses
  it: cached stores, non-temporal stores (\<^verbatim>\<open>NTStore\<close>, \<^verbatim>\<open>NTStore32\<close>,
  \<^verbatim>\<open>NonTemporalCopy64\<close>, \<^verbatim>\<open>NonTemporalCopy256\<close>), cache-line write-back
  (\<^verbatim>\<open>Flush\<close>, \<^verbatim>\<open>WriteBackAndInvalidate\<close>) and \<^verbatim>\<open>StoreFence\<close>.

  For every cell the state keeps the value loads see (\<open>cur\<close>), the set of values the medium
  may hold if the machine stops now (\<open>dur\<close>), and, for a cell with a write-back or a
  non-temporal store in flight, the values it may hold after the next fence (\<open>pend\<close>).
  A cached line may be evicted at any moment, so a store only adds to \<open>dur\<close>; only a fence
  shrinks it. \<open>hist\<close> records \<open>dur\<close> as it was just before every fence: between two
  fences \<open>dur\<close> only grows, so these are all the points at which a crash has to be examined.
  The last part of the theory shows that this is complete for an operational model with explicit
  evictions.
\<close>

record ('l, 'v) nvm =
  cur :: "'l \<Rightarrow> 'v"
  dur :: "'l \<Rightarrow> 'v set"
  pend :: "'l \<Rightarrow> 'v set option"
  hist :: "('l \<Rightarrow> 'v set) list"

definition nv_init :: "('l \<Rightarrow> 'v) \<Rightarrow> ('l, 'v) nvm" where
  "nv_init pm = \<lparr>cur = pm, dur = (\<lambda>l. {pm l}), pend = (\<lambda>_. None), hist = []\<rparr>"

text \<open>Plain stores of a set of cells (an assignment, a \<^verbatim>\<open>memset\<close>).\<close>

definition nv_store :: "('l \<rightharpoonup> 'v) \<Rightarrow> ('l, 'v) nvm \<Rightarrow> ('l, 'v) nvm" where
  "nv_store f m = m\<lparr>
     cur := (\<lambda>l. case f l of Some v \<Rightarrow> v | None \<Rightarrow> cur m l),
     dur := (\<lambda>l. case f l of Some v \<Rightarrow> insert v (dur m l) | None \<Rightarrow> dur m l),
     pend := (\<lambda>l. case f l of Some v \<Rightarrow> map_option (insert v) (pend m l) | None \<Rightarrow> pend m l)\<rparr>"

text \<open>Non-temporal stores: durable at the next fence, possibly earlier.\<close>

definition nv_nt :: "('l \<rightharpoonup> 'v) \<Rightarrow> ('l, 'v) nvm \<Rightarrow> ('l, 'v) nvm" where
  "nv_nt f m = m\<lparr>
     cur := (\<lambda>l. case f l of Some v \<Rightarrow> v | None \<Rightarrow> cur m l),
     dur := (\<lambda>l. case f l of Some v \<Rightarrow> insert v (dur m l) | None \<Rightarrow> dur m l),
     pend := (\<lambda>l. case f l of Some v \<Rightarrow> Some {v} | None \<Rightarrow> pend m l)\<rparr>"

definition nv_flush :: "('l \<Rightarrow> bool) \<Rightarrow> ('l, 'v) nvm \<Rightarrow> ('l, 'v) nvm" where
  "nv_flush A m = m\<lparr>pend := (\<lambda>l. if A l then Some {cur m l} else pend m l)\<rparr>"

definition nv_fence :: "('l, 'v) nvm \<Rightarrow> ('l, 'v) nvm" where
  "nv_fence m = m\<lparr>
     dur := (\<lambda>l. case pend m l of Some S \<Rightarrow> S | None \<Rightarrow> dur m l),
     pend := (\<lambda>_. None),
     hist := dur m # hist m\<rparr>"

text \<open>Starting a new operation: earlier crash points are dropped.\<close>

definition nv_begin :: "('l, 'v) nvm \<Rightarrow> ('l, 'v) nvm" where
  "nv_begin m = m\<lparr>hist := []\<rparr>"

subsection \<open>Effects per location\<close>

lemma nv_init_simps [simp]:
  "cur (nv_init pm) = pm" "dur (nv_init pm) = (\<lambda>l. {pm l})" "pend (nv_init pm) = (\<lambda>_. None)"
  "hist (nv_init pm) = []"
  by (simp_all add: nv_init_def)

lemma nv_store_simps [simp]:
  "cur (nv_store f m) l = (case f l of Some v \<Rightarrow> v | None \<Rightarrow> cur m l)"
  "dur (nv_store f m) l = (case f l of Some v \<Rightarrow> insert v (dur m l) | None \<Rightarrow> dur m l)"
  "pend (nv_store f m) l = (case f l of Some v \<Rightarrow> map_option (insert v) (pend m l) | None \<Rightarrow> pend m l)"
  "hist (nv_store f m) = hist m"
  by (simp_all add: nv_store_def)

lemma nv_nt_simps [simp]:
  "cur (nv_nt f m) l = (case f l of Some v \<Rightarrow> v | None \<Rightarrow> cur m l)"
  "dur (nv_nt f m) l = (case f l of Some v \<Rightarrow> insert v (dur m l) | None \<Rightarrow> dur m l)"
  "pend (nv_nt f m) l = (case f l of Some v \<Rightarrow> Some {v} | None \<Rightarrow> pend m l)"
  "hist (nv_nt f m) = hist m"
  by (simp_all add: nv_nt_def)

lemma nv_flush_simps [simp]:
  "cur (nv_flush A m) = cur m"
  "dur (nv_flush A m) = dur m"
  "pend (nv_flush A m) l = (if A l then Some {cur m l} else pend m l)"
  "hist (nv_flush A m) = hist m"
  by (simp_all add: nv_flush_def)

lemma nv_fence_simps [simp]:
  "cur (nv_fence m) = cur m"
  "dur (nv_fence m) l = (case pend m l of Some S \<Rightarrow> S | None \<Rightarrow> dur m l)"
  "pend (nv_fence m) = (\<lambda>_. None)"
  "hist (nv_fence m) = dur m # hist m"
  by (simp_all add: nv_fence_def)

lemma nv_begin_simps [simp]:
  "cur (nv_begin m) = cur m" "dur (nv_begin m) = dur m" "pend (nv_begin m) = pend m"
  "hist (nv_begin m) = []"
  by (simp_all add: nv_begin_def)

lemma nvm_eqI:
  fixes m m' :: "('l, 'v) nvm"
  assumes "\<And>l. cur m l = cur m' l" and "\<And>l. dur m l = dur m' l"
    and "\<And>l. pend m l = pend m' l" and "hist m = hist m'"
  shows "m = m'"
  by (rule nvm.equality) (simp_all add: assms fun_eq_iff)

subsection \<open>Durable, settled and crash images\<close>

text \<open>
  A cell is durable when the medium can only hold its current value, and settled when the next
  fence makes it so.
\<close>

definition durable :: "('l, 'v) nvm \<Rightarrow> 'l \<Rightarrow> bool" where
  "durable m l \<longleftrightarrow> dur m l = {cur m l}"

definition settled :: "('l, 'v) nvm \<Rightarrow> 'l \<Rightarrow> bool" where
  "settled m l \<longleftrightarrow> (case pend m l of Some S \<Rightarrow> S = {cur m l} | None \<Rightarrow> dur m l = {cur m l})"

text \<open>
  \<open>quiet\<close>: durable with nothing in flight that could change it, so durable whatever fences
  follow until the next store to the cell.
\<close>

definition quiet :: "('l, 'v) nvm \<Rightarrow> 'l \<Rightarrow> bool" where
  "quiet m l \<longleftrightarrow> durable m l \<and> settled m l"

definition crash_points :: "('l, 'v) nvm \<Rightarrow> ('l \<Rightarrow> 'v set) set" where
  "crash_points m = insert (dur m) (set (hist m))"

definition crash_images :: "('l, 'v) nvm \<Rightarrow> ('l \<Rightarrow> 'v) set" where
  "crash_images m = {pm. \<exists>d \<in> crash_points m. \<forall>l. pm l \<in> d l}"

lemma quiet_iff:
  "quiet m l \<longleftrightarrow> dur m l = {cur m l} \<and> (pend m l = None \<or> pend m l = Some {cur m l})"
  by (auto simp: quiet_def durable_def settled_def split: option.splits)

lemma settled_iff:
  "settled m l \<longleftrightarrow> pend m l = Some {cur m l} \<or> pend m l = None \<and> dur m l = {cur m l}"
  by (auto simp: settled_def split: option.splits)

lemma quiet_init [simp]: "quiet (nv_init pm) l"
  by (simp add: quiet_iff)

lemma quiet_settled: "quiet m l \<Longrightarrow> settled m l"
  by (simp add: quiet_def)

lemma quiet_durable: "quiet m l \<Longrightarrow> dur m l = {cur m l}"
  by (simp add: quiet_def durable_def)

lemma quiet_store [simp]: "f l = None \<Longrightarrow> quiet (nv_store f m) l = quiet m l"
  by (simp add: quiet_iff)

lemma quiet_nt [simp]: "f l = None \<Longrightarrow> quiet (nv_nt f m) l = quiet m l"
  by (simp add: quiet_iff)

lemma settled_store [simp]: "f l = None \<Longrightarrow> settled (nv_store f m) l = settled m l"
  by (simp add: settled_iff)

lemma settled_nt [simp]: "f l = None \<Longrightarrow> settled (nv_nt f m) l = settled m l"
  by (simp add: settled_iff)

lemma settled_nt_Some [simp]: "f l = Some v \<Longrightarrow> settled (nv_nt f m) l"
  by (simp add: settled_iff)

lemma settled_flush [simp]: "settled (nv_flush A m) l \<longleftrightarrow> A l \<or> settled m l"
  by (auto simp: settled_iff)

lemma quiet_flush [simp]: "quiet m l \<Longrightarrow> quiet (nv_flush A m) l"
  by (auto simp: quiet_iff)

lemma quiet_fence [simp]: "quiet (nv_fence m) l \<longleftrightarrow> settled m l"
  by (auto simp: quiet_iff settled_iff split: option.splits)

lemma settled_fence [simp]: "settled (nv_fence m) l \<longleftrightarrow> settled m l"
  by (auto simp: settled_iff split: option.splits)

lemma quiet_begin [simp]: "quiet (nv_begin m) l = quiet m l"
  and settled_begin [simp]: "settled (nv_begin m) l = settled m l"
  by (simp_all add: quiet_iff settled_iff)

subsection \<open>Safety of all crash points\<close>

text \<open>
  \<open>crash_safe P m\<close>: every durable image the machine could have been left with since the
  operation began satisfies \<open>P\<close>.
\<close>

definition crash_safe :: "(('l \<Rightarrow> 'v) \<Rightarrow> bool) \<Rightarrow> ('l, 'v) nvm \<Rightarrow> bool" where
  "crash_safe P m \<longleftrightarrow> (\<forall>pm \<in> crash_images m. P pm)"

definition dur_sat :: "(('l \<Rightarrow> 'v) \<Rightarrow> bool) \<Rightarrow> ('l \<Rightarrow> 'v set) \<Rightarrow> bool" where
  "dur_sat P d \<longleftrightarrow> (\<forall>pm. (\<forall>l. pm l \<in> d l) \<longrightarrow> P pm)"

lemma crash_safe_iff:
  "crash_safe P m \<longleftrightarrow> dur_sat P (dur m) \<and> (\<forall>d \<in> set (hist m). dur_sat P d)"
  by (auto simp: crash_safe_def crash_images_def crash_points_def dur_sat_def)

lemma crash_safe_mono: "crash_safe P m \<Longrightarrow> (\<And>pm. P pm \<Longrightarrow> Q pm) \<Longrightarrow> crash_safe Q m"
  by (auto simp: crash_safe_def)

lemma crash_safe_fence:
  "crash_safe P (nv_fence m) \<longleftrightarrow> crash_safe P m \<and> dur_sat P (dur (nv_fence m))"
  by (auto simp: crash_safe_iff)

lemma dur_sat_mono: "dur_sat P d \<Longrightarrow> (\<And>l. d' l \<subseteq> d l) \<Longrightarrow> dur_sat P d'"
  unfolding dur_sat_def by blast

lemma crash_safe_flush [simp]: "crash_safe P (nv_flush A m) = crash_safe P m"
  by (simp add: crash_safe_iff)

lemma crash_safe_begin: "crash_safe P (nv_begin m) \<longleftrightarrow> dur_sat P (dur m)"
  by (simp add: crash_safe_iff)

lemma crash_safe_step:
  assumes "crash_safe P m" and "hist m' = hist m" and "dur_sat P (dur m')"
  shows "crash_safe P m'"
  using assms by (simp add: crash_safe_iff)

subsection \<open>Cells an operation leaves alone\<close>

text \<open>
  \<open>keeps A m m'\<close>: the cells in \<open>A\<close> keep a durable value through every fence between
  \<open>m\<close> and \<open>m'\<close>. \<open>evolves P V m m'\<close> describes a sequence of write-backs, fences and
  non-temporal stores: \<open>V\<close> are the cells it overwrites and \<open>P\<close> further cells it writes back.
\<close>

text \<open>
  \<open>visible\<close>: the value loads see is one the medium may end up with, so every crash point
  has an image.
\<close>

definition visible :: "('l, 'v) nvm \<Rightarrow> bool" where
  "visible m \<longleftrightarrow> (\<forall>l. cur m l \<in> dur m l \<and> (\<forall>S. pend m l = Some S \<longrightarrow> cur m l \<in> S))"

lemma visible_ops [simp]:
  "visible (nv_init pm)" "visible m \<Longrightarrow> visible (nv_store f m)" "visible m \<Longrightarrow> visible (nv_nt f m)"
  "visible m \<Longrightarrow> visible (nv_flush A m)" "visible m \<Longrightarrow> visible (nv_fence m)"
  "visible (nv_begin m) = visible m"
  by (auto simp: visible_def split: option.splits)

lemma visible_crash_image: "visible m \<Longrightarrow> cur m \<in> crash_images m"
  by (auto simp: visible_def crash_images_def crash_points_def)

definition keeps :: "('l \<Rightarrow> bool) \<Rightarrow> ('l, 'v) nvm \<Rightarrow> ('l, 'v) nvm \<Rightarrow> bool" where
  "keeps A m m' \<longleftrightarrow> (\<forall>l. A l \<longrightarrow> quiet m' l \<and> cur m' l = cur m l) \<and>
     (\<exists>hs. hist m' = hs @ hist m \<and> (\<forall>d \<in> set hs. \<forall>l. A l \<longrightarrow> d l = {cur m l}))"

definition evolves :: "('l \<Rightarrow> bool) \<Rightarrow> ('l \<rightharpoonup> 'v) \<Rightarrow> ('l, 'v) nvm \<Rightarrow> ('l, 'v) nvm \<Rightarrow> bool" where
  "evolves P V m m' \<longleftrightarrow>
     (\<forall>l. cur m' l = (case V l of Some v \<Rightarrow> v | None \<Rightarrow> cur m l)) \<and>
     (\<forall>l. settled m l \<or> P l \<or> V l \<noteq> None \<longrightarrow> settled m' l) \<and> (visible m \<longrightarrow> visible m') \<and>
     (\<forall>A. (\<forall>l. A l \<longrightarrow> quiet m l \<and> V l = None) \<longrightarrow> keeps A m m')"

lemma keepsD: "keeps A m m' \<Longrightarrow> A l \<Longrightarrow> quiet m' l \<and> cur m' l = cur m l"
  by (simp add: keeps_def)

lemma keeps_hist:
  "keeps A m m' \<Longrightarrow> \<exists>hs. hist m' = hs @ hist m \<and> (\<forall>d \<in> set hs. \<forall>l. A l \<longrightarrow> d l = {cur m l})"
  by (simp add: keeps_def)

lemma keepsI:
  assumes "\<And>l. A l \<Longrightarrow> quiet m' l \<and> cur m' l = cur m l"
    and "hist m' = hs @ hist m" and "\<And>d l. d \<in> set hs \<Longrightarrow> A l \<Longrightarrow> d l = {cur m l}"
  shows "keeps A m m'"
  using assms by (simp add: keeps_def)

lemma evolves_keeps: "evolves P V m m' \<Longrightarrow> (\<And>l. A l \<Longrightarrow> quiet m l \<and> V l = None) \<Longrightarrow> keeps A m m'"
  by (simp add: evolves_def)

lemma keeps_refl: "(\<And>l. A l \<Longrightarrow> quiet m l) \<Longrightarrow> keeps A m m"
  by (simp add: keeps_def)

lemma keeps_trans:
  assumes 1: "keeps A m m'" and 2: "keeps A m' m''"
  shows "keeps A m m''"
proof -
  obtain hs where hs: "hist m' = hs @ hist m" "\<forall>d \<in> set hs. \<forall>l. A l \<longrightarrow> d l = {cur m l}"
    using keeps_hist [OF 1] by blast
  obtain hs' where hs': "hist m'' = hs' @ hist m'" "\<forall>d \<in> set hs'. \<forall>l. A l \<longrightarrow> d l = {cur m' l}"
    using keeps_hist [OF 2] by blast
  have c: "cur m' l = cur m l" "quiet m'' l \<and> cur m'' l = cur m l" if "A l" for l
    using keepsD [OF 1 that] keepsD [OF 2 that] by simp_all
  show ?thesis
  proof (rule keepsI [where hs = "hs' @ hs"])
    fix d l assume d: "d \<in> set (hs' @ hs)" and l: "A l"
    from d consider "d \<in> set hs" | "d \<in> set hs'" by auto
    then show "d l = {cur m l}"
    proof cases
      case 1
      from bspec [OF hs(2) this] l show ?thesis by simp
    next
      case 2
      from bspec [OF hs'(2) this] l have "d l = {cur m' l}" by simp
      then show ?thesis using c(1) [OF l] by simp
    qed
  qed (simp_all add: c hs hs')
qed

lemma keeps_crash_safe:
  assumes "keeps A m m'" and "crash_safe P m"
    and "\<And>pm. (\<And>l. A l \<Longrightarrow> pm l = cur m l) \<Longrightarrow> P pm"
  shows "crash_safe P m'"
proof -
  obtain hs where hs: "hist m' = hs @ hist m" "\<forall>d \<in> set hs. \<forall>l. A l \<longrightarrow> d l = {cur m l}"
    using keeps_hist [OF assms(1)] by blast
  have d: "dur m' l = {cur m l}" if "A l" for l
    using keepsD [OF assms(1) that] by (simp add: quiet_durable)
  have sat: "dur_sat P d" if "\<And>l. A l \<Longrightarrow> d l = {cur m l}" for d
    unfolding dur_sat_def
  proof (intro allI impI)
    fix pm assume pm: "\<forall>l. pm l \<in> d l"
    have "pm l = cur m l" if "A l" for l using spec [OF pm, of l] \<open>A l \<Longrightarrow> d l = {cur m l}\<close> that by simp
    then show "P pm" by (rule assms(3))
  qed
  have "dur_sat P (dur m')" by (rule sat) (rule d)
  moreover have "dur_sat P d" if "d \<in> set hs" for d
  proof (rule sat)
    fix l assume "A l"
    with bspec [OF hs(2) that] show "d l = {cur m l}" by simp
  qed
  ultimately show ?thesis using assms(2) by (auto simp: crash_safe_iff hs(1))
qed

lemma nv_flush_flush: "nv_flush A (nv_flush B m) = nv_flush (\<lambda>l. A l \<or> B l) m"
  by (simp add: nv_flush_def fun_eq_iff)

lemma nv_flush_none [simp]: "nv_flush (\<lambda>_. False) m = m"
  by (simp add: nv_flush_def)

lemma nv_flush_fold: "fold (\<lambda>b. nv_flush (F b)) bs m = nv_flush (\<lambda>l. \<exists>b \<in> set bs. F b l) m"
proof (induction bs arbitrary: m)
  case Nil
  then show ?case by simp
next
  case (Cons b bs)
  have "(\<lambda>l. (\<exists>b \<in> set bs. F b l) \<or> F b l) = (\<lambda>l. \<exists>b \<in> set (b # bs). F b l)" by auto
  then show ?case by (simp add: Cons.IH nv_flush_flush)
qed

lemma nv_flush_fold': "fold (\<lambda>b. nv_flush (F b)) bs = nv_flush (\<lambda>l. \<exists>b \<in> set bs. F b l)"
  by (rule ext) (rule nv_flush_fold)

lemma keeps_store: "(\<And>l. A l \<Longrightarrow> quiet m l \<and> f l = None) \<Longrightarrow> keeps A m (nv_store f m)"
  by (auto simp: keeps_def)

text \<open>
  \<^verbatim>\<open>for (id = tid; id < limit; id += nr_threads)\<close>: the threads of a phase partition
  the indices by their remainder.
\<close>

definition share :: "nat \<Rightarrow> nat \<Rightarrow> nat \<Rightarrow> nat list" where
  "share n tid limit = filter (\<lambda>i. i mod n = tid) [0..<limit]"

lemma set_shares: "0 < n \<Longrightarrow> set (concat (map (\<lambda>tid. share n tid limit) [0..<n])) = {..<limit}"
  by (auto simp: share_def)

lemma distinct_shares: "distinct (concat (map (\<lambda>tid. share n tid limit) [0..<k]))"
  by (induction k) (auto simp: share_def)

text \<open>
  Switching one cell durably, by a non-temporal store or by a store and a write-back, while the
  cells that matter are quiet: a crash sees the old or the new value and nothing else changed.
\<close>

lemma crash_safe_switch:
  assumes "crash_safe P m" and "\<And>l. A l \<Longrightarrow> quiet m l \<and> l \<noteq> h" and "quiet m h"
    and "\<And>pm. (\<And>l. A l \<Longrightarrow> pm l = cur m l) \<Longrightarrow> pm h = cur m h \<or> pm h = v \<Longrightarrow> P pm"
  shows "crash_safe P (nv_fence (nv_nt [h \<mapsto> v] m))"
    and "B h \<Longrightarrow> crash_safe P (nv_fence (nv_flush B (nv_store [h \<mapsto> v] m)))"
proof -
  have d: "dur m l = {cur m l}" if "A l \<or> l = h" for l
    using assms(2,3) that by (auto simp: quiet_durable)
  have sat: "dur_sat P d" if "\<And>l. A l \<Longrightarrow> d l = {cur m l}" "d h \<subseteq> {cur m h, v}" for d
    unfolding dur_sat_def
  proof (intro allI impI)
    fix pm assume pm: "\<forall>l. pm l \<in> d l"
    show "P pm"
    proof (rule assms(4))
      show "pm l = cur m l" if "A l" for l using spec [OF pm, of l] that(1) \<open>\<And>l. A l \<Longrightarrow> d l = {cur m l}\<close> by auto
      show "pm h = cur m h \<or> pm h = v" using spec [OF pm, of h] that(2) by auto
    qed
  qed
  have n: "dur (nv_nt [h \<mapsto> v] m) l = {cur m l}" "dur (nv_store [h \<mapsto> v] m) l = {cur m l}"
    "dur (nv_fence (nv_nt [h \<mapsto> v] m)) l = {cur m l}"
    "dur (nv_fence (nv_flush B (nv_store [h \<mapsto> v] m))) l = {cur m l}" if "A l" for l
  proof -
    have l: "quiet m l" "l \<noteq> h" using assms(2) [OF that] by simp_all
    then have "quiet (nv_fence (nv_nt [h \<mapsto> v] m)) l" "quiet (nv_fence (nv_flush B (nv_store [h \<mapsto> v] m))) l"
      by (simp_all add: quiet_settled)
    from this [THEN quiet_durable] l
    show "dur (nv_fence (nv_nt [h \<mapsto> v] m)) l = {cur m l}"
      "dur (nv_fence (nv_flush B (nv_store [h \<mapsto> v] m))) l = {cur m l}" by simp_all
    show "dur (nv_nt [h \<mapsto> v] m) l = {cur m l}" "dur (nv_store [h \<mapsto> v] m) l = {cur m l}"
      using l by (simp_all add: quiet_durable)
  qed
  have "crash_safe P (nv_nt [h \<mapsto> v] m)" "crash_safe P (nv_store [h \<mapsto> v] m)"
    by (rule crash_safe_step [OF assms(1)], simp, rule sat, rule n, assumption, simp add: d)+
  moreover have "dur_sat P (dur (nv_fence (nv_nt [h \<mapsto> v] m)))"
    by (rule sat, rule n(3), assumption) simp
  moreover have "B h \<Longrightarrow> dur_sat P (dur (nv_fence (nv_flush B (nv_store [h \<mapsto> v] m))))"
    by (rule sat, rule n(4), assumption) simp
  ultimately show "crash_safe P (nv_fence (nv_nt [h \<mapsto> v] m))"
    "B h \<Longrightarrow> crash_safe P (nv_fence (nv_flush B (nv_store [h \<mapsto> v] m)))"
    by (simp_all add: crash_safe_fence)
qed

text \<open>Storing to a set of cells and writing them back: a crash sees any mixture.\<close>

lemma crash_safe_stores:
  assumes "crash_safe P m" and "\<And>l. A l \<Longrightarrow> quiet m l" and "\<And>l. f l \<noteq> None \<Longrightarrow> B l"
    and "\<And>pm. (\<And>l. A l \<Longrightarrow> pm l = cur m l \<or> f l = Some (pm l)) \<Longrightarrow> P pm"
  shows "crash_safe P (nv_fence (nv_flush B (nv_store f m)))"
proof -
  have sat: "dur_sat P d" if "\<And>l. A l \<Longrightarrow> d l \<subseteq> {cur m l} \<union> {v. f l = Some v}" for d
    unfolding dur_sat_def
  proof (intro allI impI)
    fix pm assume pm: "\<forall>l. pm l \<in> d l"
    show "P pm"
    proof (rule assms(4))
      fix l assume "A l"
      from \<open>\<And>l. A l \<Longrightarrow> d l \<subseteq> {cur m l} \<union> {v. f l = Some v}\<close> [OF this] spec [OF pm, of l]
      show "pm l = cur m l \<or> f l = Some (pm l)" by auto
    qed
  qed
  have s: "crash_safe P (nv_store f m)"
  proof (rule crash_safe_step [OF assms(1)])
    show "dur_sat P (dur (nv_store f m))"
    proof (rule sat)
      fix l assume "A l"
      from quiet_durable [OF assms(2) [OF this]]
      show "dur (nv_store f m) l \<subseteq> {cur m l} \<union> {v. f l = Some v}" by (cases "f l") auto
    qed
  qed simp
  have "dur_sat P (dur (nv_fence (nv_flush B (nv_store f m))))"
  proof (rule sat)
    fix l assume "A l"
    then have "quiet m l" by (rule assms(2))
    then have "quiet (nv_fence m) l" by (simp add: quiet_settled)
    from quiet_durable [OF this] have q: "dur (nv_fence m) l = {cur m l}" by simp
    show "dur (nv_fence (nv_flush B (nv_store f m))) l \<subseteq> {cur m l} \<union> {v. f l = Some v}"
    proof (cases "B l")
      case True
      then show ?thesis by (cases "f l") simp_all
    next
      case False
      then have "f l = None" using assms(3) by blast
      then show ?thesis using False q by (simp split: option.splits)
    qed
  qed
  with s show ?thesis by (simp add: crash_safe_fence)
qed

lemma evolves_refl: "evolves (\<lambda>_. False) Map.empty m m"
  by (simp add: evolves_def keeps_refl)

lemma evolves_flush: "evolves B Map.empty m (nv_flush B m)"
  by (auto simp: evolves_def keeps_def)

lemma evolves_fence: "evolves (\<lambda>_. False) Map.empty m (nv_fence m)"
  by (auto simp: evolves_def keeps_def quiet_settled quiet_durable)

lemma evolves_nt: "evolves (\<lambda>_. False) V m (nv_nt V m)"
  by (auto simp: evolves_def keeps_def settled_iff split: option.splits)

lemma evolves_trans:
  assumes 1: "evolves P V m m'" and 2: "evolves Q W m' m''"
  shows "evolves (\<lambda>l. P l \<or> Q l) (V ++ W) m m''"
  unfolding evolves_def
proof (intro conjI allI impI)
  fix l
  show "cur m'' l = (case (V ++ W) l of Some v \<Rightarrow> v | None \<Rightarrow> cur m l)"
    using 1 2 by (auto simp: evolves_def map_add_def split: option.splits)
  show "settled m'' l" if "settled m l \<or> (P l \<or> Q l) \<or> (V ++ W) l \<noteq> None"
    using 1 2 that by (auto simp: evolves_def map_add_def split: option.splits)
  show "visible m''" if "visible m" using 1 2 that by (simp add: evolves_def)
next
  fix A assume A: "\<forall>l. A l \<longrightarrow> quiet m l \<and> (V ++ W) l = None"
  have V: "\<forall>l. A l \<longrightarrow> quiet m l \<and> V l = None" and W: "\<And>l. A l \<Longrightarrow> W l = None"
    using A by auto
  have k: "keeps A m m'" using 1 V by (simp add: evolves_def)
  then have "\<forall>l. A l \<longrightarrow> quiet m' l \<and> W l = None" using W by (simp add: keeps_def)
  then have "keeps A m' m''" using 2 by (simp add: evolves_def)
  with k show "keeps A m m''" by (rule keeps_trans)
qed

lemma evolves_visible: "evolves P V m m' \<Longrightarrow> visible m \<Longrightarrow> visible m'"
  by (simp add: evolves_def)

lemma evolves_simps:
  assumes "evolves P V m m'"
  shows "V l = None \<Longrightarrow> cur m' l = cur m l" "V l = Some v \<Longrightarrow> cur m' l = v"
    "settled m l \<Longrightarrow> settled m' l" "P l \<Longrightarrow> settled m' l" "V l = Some v \<Longrightarrow> settled m' l"
    "quiet m l \<Longrightarrow> V l = None \<Longrightarrow> quiet m' l"
proof -
  show "quiet m l \<Longrightarrow> V l = None \<Longrightarrow> quiet m' l"
  proof -
    assume "quiet m l" "V l = None"
    then have "keeps (\<lambda>l'. l' = l) m m'" by (intro evolves_keeps [OF assms]) simp
    then show "quiet m' l" by (simp add: keeps_def)
  qed
  have c: "cur m' l = (case V l of Some v \<Rightarrow> v | None \<Rightarrow> cur m l)"
    and st: "settled m l \<or> P l \<or> V l \<noteq> None \<longrightarrow> settled m' l"
    using assms unfolding evolves_def by blast+
  show "V l = None \<Longrightarrow> cur m' l = cur m l" "V l = Some v \<Longrightarrow> cur m' l = v" using c by simp_all
  show "settled m l \<Longrightarrow> settled m' l" "P l \<Longrightarrow> settled m' l" "V l = Some v \<Longrightarrow> settled m' l"
    using st by simp_all
qed

text \<open>The threads of a flush phase, each writing its share back and fencing.\<close>

lemma flush_threads:
  "evolves (\<lambda>l. \<exists>tid \<in> set tids. F tid l) Map.empty m (fold (\<lambda>tid m. nv_fence (nv_flush (F tid) m)) tids m) \<and>
   (tids \<noteq> [] \<longrightarrow> (\<forall>l. settled (fold (\<lambda>tid m. nv_fence (nv_flush (F tid) m)) tids m) l \<longrightarrow>
       quiet (fold (\<lambda>tid m. nv_fence (nv_flush (F tid) m)) tids m) l))"
proof (induction tids arbitrary: m)
  case Nil
  then show ?case using evolves_refl by simp
next
  case (Cons tid tids)
  define m1 where "m1 = nv_fence (nv_flush (F tid) m)"
  have e1: "evolves (\<lambda>l. F tid l \<or> False) (Map.empty ++ Map.empty) m m1"
    unfolding m1_def by (rule evolves_trans [OF evolves_flush evolves_fence])
  note ih = Cons.IH [of m1]
  show ?case
    using evolves_trans [OF e1 ih [THEN conjunct1]] ih
    by (cases "tids = []") (simp_all add: m1_def [symmetric], simp add: m1_def)
qed

lemma settled_quiet: "pend m l = None \<Longrightarrow> settled m l \<Longrightarrow> quiet m l"
  by (simp add: settled_iff quiet_iff)

subsection \<open>The operational model with explicit evictions\<close>

text \<open>
  The same primitives one cell at a time, over a machine with a cache (\<open>vis\<close>), a medium
  (\<open>med\<close>) and a queue of values on their way to the medium (\<open>wpq\<close>). Between any two
  instructions the hardware may write a cached value back or drain a queued one.
\<close>

datatype ('l, 'v) mop = MStore 'l 'v | MNT 'l 'v | MFlush 'l | MFence

record ('l, 'v) machine =
  vis :: "'l \<Rightarrow> 'v"
  med :: "'l \<Rightarrow> 'v"
  wpq :: "'l \<Rightarrow> 'v option"

fun mexec :: "('l, 'v) mop \<Rightarrow> ('l, 'v) machine \<Rightarrow> ('l, 'v) machine" where
  "mexec (MStore l v) c = c\<lparr>vis := (vis c)(l := v)\<rparr>"
| "mexec (MNT l v) c = c\<lparr>vis := (vis c)(l := v), wpq := (wpq c)(l \<mapsto> v)\<rparr>"
| "mexec (MFlush l) c = c\<lparr>wpq := (wpq c)(l \<mapsto> vis c l)\<rparr>"
| "mexec MFence c = c\<lparr>med := (\<lambda>l. case wpq c l of Some v \<Rightarrow> v | None \<Rightarrow> med c l), wpq := Map.empty\<rparr>"

inductive hw_step :: "('l, 'v) machine \<Rightarrow> ('l, 'v) machine \<Rightarrow> bool" where
  evict: "hw_step c (c\<lparr>med := (med c)(l := vis c l), wpq := (wpq c)(l := None)\<rparr>)"
| drain: "wpq c l = Some v \<Longrightarrow> hw_step c (c\<lparr>med := (med c)(l := v), wpq := (wpq c)(l := None)\<rparr>)"

text \<open>Runs of a prefix of a program, with hardware steps anywhere.\<close>

inductive mrun :: "('l, 'v) mop list \<Rightarrow> ('l, 'v) machine \<Rightarrow> ('l, 'v) machine \<Rightarrow> bool" where
  stop: "mrun ops c c"
| hw: "hw_step c c' \<Longrightarrow> mrun ops c' c'' \<Longrightarrow> mrun ops c c''"
| instr: "mrun ops (mexec i c) c'' \<Longrightarrow> mrun (i # ops) c c''"

fun nexec :: "('l, 'v) mop \<Rightarrow> ('l, 'v) nvm \<Rightarrow> ('l, 'v) nvm" where
  "nexec (MStore l v) m = nv_store [l \<mapsto> v] m"
| "nexec (MNT l v) m = nv_nt [l \<mapsto> v] m"
| "nexec (MFlush l) m = nv_flush (\<lambda>l'. l' = l) m"
| "nexec MFence m = nv_fence m"

definition simulates :: "('l, 'v) nvm \<Rightarrow> ('l, 'v) machine \<Rightarrow> bool" where
  "simulates m c \<longleftrightarrow> vis c = cur m \<and>
     (\<forall>l. med c l \<in> dur m l \<and> cur m l \<in> dur m l \<and>
          (\<forall>S. pend m l = Some S \<longrightarrow> cur m l \<in> S \<and> S \<subseteq> dur m l \<and>
             (case wpq c l of Some v \<Rightarrow> v \<in> S | None \<Rightarrow> med c l \<in> S)) \<and>
          (pend m l = None \<longrightarrow> wpq c l = None))"

lemma simulates_init: "simulates (nv_init pm) \<lparr>vis = pm, med = pm, wpq = Map.empty\<rparr>"
  by (simp add: simulates_def)

lemma simulates_hw: "hw_step c c' \<Longrightarrow> simulates m c \<Longrightarrow> simulates m c'"
  by (induction rule: hw_step.induct) (fastforce simp: simulates_def split: option.splits)+

lemma simulates_instr: "simulates m c \<Longrightarrow> simulates (nexec i m) (mexec i c)"
  by (cases i) (fastforce simp: simulates_def split: option.splits if_splits)+

lemma nexec_dur_grows:
  "i \<noteq> MFence \<Longrightarrow> dur m l \<subseteq> dur (nexec i m) l \<and> hist (nexec i m) = hist m"
  by (cases i) (auto split: option.splits)

lemma crash_points_grow:
  assumes "d \<in> crash_points m"
  shows "\<exists>d' \<in> crash_points (fold nexec ops m). \<forall>l. d l \<subseteq> d' l"
  using assms
proof (induction ops arbitrary: m d)
  case Nil
  then show ?case by auto
next
  case (Cons i ops)
  have "\<exists>d' \<in> crash_points (nexec i m). \<forall>l. d l \<subseteq> d' l"
  proof (cases "i = MFence")
    case True
    with Cons.prems show ?thesis by (auto simp: crash_points_def)
  next
    case False
    then have g: "\<forall>l. dur m l \<subseteq> dur (nexec i m) l" and h: "hist (nexec i m) = hist m"
      using nexec_dur_grows [of i m] by auto
    show ?thesis
      using Cons.prems g h by (auto simp: crash_points_def)
  qed
  then obtain d1 where "d1 \<in> crash_points (nexec i m)" "\<forall>l. d l \<subseteq> d1 l" by blast
  with Cons.IH [of d1 "nexec i m"] show ?case
    by (metis fold_simps(2) subset_trans)
qed

lemma mrun_covered:
  assumes "mrun ops c c'" and "simulates m c"
  shows "med c' \<in> crash_images (fold nexec ops m)"
  using assms
proof (induction arbitrary: m rule: mrun.induct)
  case (stop ops c)
  then have "\<forall>l. med c l \<in> dur m l" by (simp add: simulates_def)
  moreover obtain d where "d \<in> crash_points (fold nexec ops m)" "\<forall>l. dur m l \<subseteq> d l"
    using crash_points_grow [of "dur m" m ops] by (auto simp: crash_points_def)
  ultimately show ?case by (auto simp: crash_images_def)
next
  case (hw c c' ops c'')
  then show ?case by (blast intro: simulates_hw)
next
  case (instr ops i c c'')
  then show ?case by (simp add: simulates_instr)
qed

lemma mrun_stop_eq: "c = c' \<Longrightarrow> mrun ops c c'"
  by (simp add: mrun.stop)



end
