(* ===== verification/Common.thy ===== *)
theory Common
  imports Nvm
begin

text \<open>
  \<^verbatim>\<open>runtime/include/internal/common.h\<close> and \<^verbatim>\<open>runtime/src/common.cpp\<close>: the
  compile-time constants with their default shifts, \<^verbatim>\<open>RoundUp\<close>, the cache-line loop of
  \<^verbatim>\<open>FlushRegion\<close>, \<^verbatim>\<open>AtomicBitSet\<close> and the scan over the set bits of a word that
  the engines repeat. Sizes and indices are naturals; the 64-bit wrap-around of
  \<^verbatim>\<open>RoundUp\<close> is written out.
\<close>

subsection \<open>Constants\<close>

definition kCacheLineSize :: nat where "kCacheLineSize = 64"
definition kPageSize :: nat where "kPageSize = 4096"
definition kHugePageSize :: nat where "kHugePageSize = 2097152"
definition kBlockSize :: nat where "kBlockSize = 256"
definition kSegmentSize :: nat where "kSegmentSize = 2097152"
definition kParitySize :: nat where "kParitySize = 16384"
definition kMaxFlushBlocks :: nat where "kMaxFlushBlocks = 131072"
definition kBlocksPerSegment :: nat where "kBlocksPerSegment = 8192"
definition kMinContainerSize :: nat where "kMinContainerSize = 16777216"
definition kMaxThreads :: nat where "kMaxThreads = 256"
definition kSegmentLocks :: nat where "kSegmentLocks = 1024"
definition kAddressListCapacity :: nat where "kAddressListCapacity = 256"
definition kAttributeHasSnapshot :: nat where "kAttributeHasSnapshot = 16"
definition kNullSegmentIndex :: nat where "kNullSegmentIndex = 18446744073709551615"
definition kMetadataV1Magic :: nat where "kMetadataV1Magic = 0x6f6f0101"
definition kMetadataV2Magic :: nat where "kMetadataV2Magic = 0x6f6f0202"
definition kBitWidth :: nat where "kBitWidth = 64"

lemmas constants [geometry] =
  kCacheLineSize_def kPageSize_def kHugePageSize_def kBlockSize_def kSegmentSize_def
  kParitySize_def kMaxFlushBlocks_def kBlocksPerSegment_def kMinContainerSize_def
  kMaxThreads_def kSegmentLocks_def kAddressListCapacity_def kAttributeHasSnapshot_def
  kNullSegmentIndex_def kMetadataV1Magic_def kMetadataV2Magic_def kBitWidth_def

lemma segment_is_blocks: "kSegmentSize = kBlocksPerSegment * kBlockSize"
  by (simp add: geometry)

lemma segment_of_block: "o' div kBlockSize div kBlocksPerSegment = o' div kSegmentSize"
  by (simp add: geometry div_mult2_eq [symmetric])

subsection \<open>RoundUp\<close>

definition RoundUp :: "nat \<Rightarrow> nat \<Rightarrow> nat" where
  "RoundUp a b = (let md = a mod b in if md \<noteq> 0 then (a - md + b) mod 2 ^ 64 else a)"

lemma RoundUp_least:
  assumes "0 < b" and "a + b \<le> 2 ^ 64"
  shows "b dvd RoundUp a b" and "a \<le> RoundUp a b" and "RoundUp a b < a + b"
    and "\<And>c. b dvd c \<Longrightarrow> a \<le> c \<Longrightarrow> RoundUp a b \<le> c"
proof -
  have md: "a mod b < b" "a mod b \<le> a" using assms(1) by auto
  have eq: "RoundUp a b = (if a mod b = 0 then a else a - a mod b + b)"
    using md assms(2) by (auto simp: RoundUp_def Let_def)
  have dv: "b dvd a - a mod b" by (simp add: dvd_minus_mod)
  have "b dvd a - a mod b + b" using dv by (rule dvd_add) simp
  then show "b dvd RoundUp a b" using dv by (auto simp: eq)
  show "a \<le> RoundUp a b" using md by (auto simp: eq)
  show "RoundUp a b < a + b" using md assms(1) by (auto simp: eq)
  show "RoundUp a b \<le> c" if c: "b dvd c" "a \<le> c" for c
  proof (cases "a mod b = 0")
    case True
    with c show ?thesis by (simp add: eq)
  next
    case False
    then have "a - a mod b < c" using c md by (metis diff_less le_less_trans less_le_trans not_gr0 diff_le_self le_neq_implies_less dvd_minus_mod dvd_imp_mod_0)
    moreover have "b dvd c - (a - a mod b)" by (rule dvd_diff_nat [OF c(1) dv])
    ultimately have "b \<le> c - (a - a mod b)" by (simp add: dvd_imp_le)
    with \<open>a - a mod b < c\<close> False show ?thesis by (simp add: eq)
  qed
qed

subsection \<open>FlushRegion\<close>

text \<open>
  \<^verbatim>\<open>for (ptr = addr & ~kCacheLineMask; ptr < addr + len; ptr += kCacheLineSize) Flush(ptr)\<close>:
  the start addresses of the lines written back.
\<close>

function flush_lines :: "nat \<Rightarrow> nat \<Rightarrow> nat list" where
  "flush_lines ptr stop =
     (if ptr < stop then ptr # flush_lines (ptr + kCacheLineSize) stop else [])"
  by pat_completeness auto
termination
  by (relation "measure (\<lambda>(ptr, stop). stop - ptr)") (auto simp: geometry)

declare flush_lines.simps [simp del]

definition FlushRegion :: "nat \<Rightarrow> nat \<Rightarrow> nat list" where
  "FlushRegion addr len = flush_lines (addr - addr mod kCacheLineSize) (addr + len)"

text \<open>The bytes those lines hold.\<close>

definition lines_cover :: "nat list \<Rightarrow> nat \<Rightarrow> bool" where
  "lines_cover ls x \<longleftrightarrow> list_ex (\<lambda>l. l \<le> x \<and> x < l + kCacheLineSize) ls"

lemma set_flush_lines:
  "set (flush_lines ptr stop) = {p. \<exists>k. p = ptr + k * kCacheLineSize \<and> p < stop}"
proof (induction ptr stop rule: flush_lines.induct)
  case (1 ptr stop)
  show ?case
  proof (cases "ptr < stop")
    case True
    have "set (flush_lines ptr stop) = insert ptr (set (flush_lines (ptr + kCacheLineSize) stop))"
      using True by (simp add: flush_lines.simps [of ptr stop])
    also have "\<dots> = {p. \<exists>k. p = ptr + k * kCacheLineSize \<and> p < stop}" (is "?l = ?r")
    proof
      show "?l \<subseteq> ?r"
      proof
        fix p assume "p \<in> ?l"
        then consider "p = ptr" | k where "p = ptr + kCacheLineSize + k * kCacheLineSize" "p < stop"
          using 1 [OF True] by auto
        then show "p \<in> ?r"
        proof cases
          case 1
          then show ?thesis using True by (auto intro: exI [of _ 0])
        next
          case 2
          then show ?thesis by (auto intro!: exI [of _ "Suc k"])
        qed
      qed
      show "?r \<subseteq> ?l"
      proof
        fix p assume "p \<in> ?r"
        then obtain k where k: "p = ptr + k * kCacheLineSize" "p < stop" by auto
        then show "p \<in> ?l"
          using 1 [OF True] by (cases k) (auto simp: add.assoc)
      qed
    qed
    finally show ?thesis .
  next
    case False
    then show ?thesis by (auto simp: flush_lines.simps [of ptr stop])
  qed
qed

lemma FlushRegion_lines:
  "set (FlushRegion addr len) =
     {p. kCacheLineSize dvd p \<and> addr < p + kCacheLineSize \<and> p < addr + len}"
proof -
  define b where "b = addr - addr mod kCacheLineSize"
  have b: "kCacheLineSize dvd b" "b \<le> addr" "addr < b + kCacheLineSize"
    by (auto simp: b_def geometry dvd_minus_mod)
  show ?thesis
    unfolding FlushRegion_def b_def [symmetric] set_flush_lines
  proof (intro equalityI subsetI)
    fix p assume "p \<in> {p. \<exists>k. p = b + k * kCacheLineSize \<and> p < addr + len}"
    then show "p \<in> {p. kCacheLineSize dvd p \<and> addr < p + kCacheLineSize \<and> p < addr + len}"
      using b by auto
  next
    fix p assume "p \<in> {p. kCacheLineSize dvd p \<and> addr < p + kCacheLineSize \<and> p < addr + len}"
    then have p: "kCacheLineSize dvd p" "addr < p + kCacheLineSize" "p < addr + len" by auto
    from p(1) b(1) obtain q a where qa: "p = kCacheLineSize * q" "b = kCacheLineSize * a"
      by (auto elim!: dvdE)
    have "a \<le> q" using p(2) b(2) by (auto simp: qa geometry)
    then have "p = b + (q - a) * kCacheLineSize"
      by (simp add: qa diff_mult_distrib2 mult.commute)
    then show "p \<in> {p. \<exists>k. p = b + k * kCacheLineSize \<and> p < addr + len}"
      using p(3) by blast
  qed
qed

lemma FlushRegion_covers:
  assumes "addr \<le> x" and "x < addr + len"
  shows "lines_cover (FlushRegion addr len) x"
proof -
  define p where "p = x - x mod kCacheLineSize"
  have p: "kCacheLineSize dvd p" "p \<le> x" "x < p + kCacheLineSize"
    by (auto simp: p_def geometry dvd_minus_mod)
  then have "p \<in> set (FlushRegion addr len)"
    using assms by (auto simp: FlushRegion_lines)
  with p show ?thesis by (auto simp: lines_cover_def list_ex_iff)
qed

text \<open>On a region made of whole lines exactly its bytes are written back.\<close>

lemma FlushRegion_aligned:
  assumes "kCacheLineSize dvd addr" and "kCacheLineSize dvd len"
  shows "lines_cover (FlushRegion addr len) x \<longleftrightarrow> addr \<le> x \<and> x < addr + len"
proof
  assume "lines_cover (FlushRegion addr len) x"
  then obtain p where p: "kCacheLineSize dvd p" "addr < p + kCacheLineSize" "p < addr + len"
      "p \<le> x" "x < p + kCacheLineSize"
    by (auto simp: lines_cover_def list_ex_iff FlushRegion_lines)
  from assms p(1) obtain a l q where
    "addr = 64 * a" "len = 64 * l" "p = 64 * q"
    by (auto simp: geometry elim!: dvdE)
  note eqs = this
  have "a \<le> q" "q < a + l" using p by (auto simp: eqs geometry)
  then show "addr \<le> x \<and> x < addr + len" using p by (auto simp: eqs geometry)
qed (auto intro: FlushRegion_covers)


subsection \<open>AtomicBitSet\<close>

text \<open>
  The buffer is an array of 64-bit words, indexed here by all naturals; \<open>nr_words\<close> is the
  number of words \<^verbatim>\<open>allocate\<close> reserves, and \<open>word_index_in_bounds\<close> shows that
  every index below \<open>nr_bits\<close> stays inside it.
\<close>

record bitset =
  is_allocated :: bool
  nr_bits :: nat
  buf :: "nat \<Rightarrow> u64"

definition bs_new :: bitset where
  "bs_new = \<lparr>is_allocated = False, nr_bits = 0, buf = (\<lambda>_. 0)\<rparr>"

definition nr_words :: "nat \<Rightarrow> nat" where
  "nr_words n = n div kBitWidth + (if n mod kBitWidth \<noteq> 0 then 1 else 0)"

definition bs_allocate :: "nat \<Rightarrow> bitset \<Rightarrow> bitset option" where
  "bs_allocate n b =
     (if is_allocated b then None
      else Some (b\<lparr>nr_bits := n, buf := (\<lambda>_. 0), is_allocated := True\<rparr>))"

definition bs_set :: "nat \<Rightarrow> bitset \<Rightarrow> bitset" where
  "bs_set idx b = (let w = idx div 64 in
     b\<lparr>buf := (buf b)(w := buf b w OR push_bit (idx mod 64) 1)\<rparr>)"

definition bs_test :: "nat \<Rightarrow> bitset \<Rightarrow> bool" where
  "bs_test idx b = (buf b (idx div 64) AND push_bit (idx mod 64) 1 \<noteq> 0)"

definition bs_clear :: "nat \<Rightarrow> bitset \<Rightarrow> bitset" where
  "bs_clear idx b = (let w = idx div 64 in
     b\<lparr>buf := (buf b)(w := buf b w AND NOT (push_bit (idx mod 64) 1))\<rparr>)"

definition bs_test_all :: "nat \<Rightarrow> bitset \<Rightarrow> u64" where
  "bs_test_all idx b = buf b (idx div 64)"

definition bs_clear_all :: "nat \<Rightarrow> bitset \<Rightarrow> bitset" where
  "bs_clear_all idx b = b\<lparr>buf := (buf b)(idx div 64 := 0)\<rparr>"

definition bs_clear_region :: "nat \<Rightarrow> nat \<Rightarrow> bitset \<Rightarrow> bitset" where
  "bs_clear_region s e b =
     fold (\<lambda>w b. b\<lparr>buf := (buf b)(w := 0)\<rparr>) [s div 64..<e div 64] b"

lemma word_index_in_bounds: "i < n \<Longrightarrow> i div 64 < nr_words n"
proof -
  assume i: "i < n"
  show ?thesis
  proof (cases "n mod 64 = 0")
    case True
    then have "n = n div 64 * 64" by (metis add.right_neutral div_mult_mod_eq)
    with i have "i < n div 64 * 64" by simp
    then have "i div 64 < n div 64" by (rule less_mult_imp_div_less)
    then show ?thesis by (simp add: nr_words_def geometry)
  next
    case False
    have "n < (n div 64 + 1) * 64"
      using dividend_less_div_times [of 64 n] by simp
    with i have "i < (n div 64 + 1) * 64" by linarith
    then have "i div 64 < n div 64 + 1" by (rule less_mult_imp_div_less)
    with False show ?thesis by (simp add: nr_words_def geometry)
  qed
qed

lemma and_exp_nonzero: "(w AND 2 ^ i \<noteq> 0) \<longleftrightarrow> bit w i" if "i < LENGTH('a)" for w :: "'a::len word"
proof -
  have "w AND 2 ^ i = (if bit w i then 2 ^ i else 0)"
    by (rule bit_eqI) (auto simp: bit_and_iff)
  moreover have "bit (2 ^ i :: 'a word) i" using that by simp
  then have "2 ^ i \<noteq> (0 :: 'a word)" by (metis bit_0_eq bot_apply bot_bool_def)
  ultimately show ?thesis by simp
qed

lemma bs_test_bit: "bs_test i b = bit (buf b (i div 64)) (i mod 64)"
  by (simp add: bs_test_def and_exp_nonzero)

lemma div_mod_64_eq_iff: "(i div 64 = j div 64 \<and> i mod 64 = j mod 64) \<longleftrightarrow> i = (j::nat)"
  by (metis div_mult_mod_eq)

lemma bs_test_set [simp]: "bs_test j (bs_set i b) \<longleftrightarrow> j = i \<or> bs_test j b"
  using div_mod_64_eq_iff [of i j]
  by (auto simp: bs_test_bit bs_set_def Let_def bit_or_iff)

lemma bs_test_clear [simp]: "bs_test j (bs_clear i b) \<longleftrightarrow> j \<noteq> i \<and> bs_test j b"
  using div_mod_64_eq_iff [of i j]
  by (auto simp: bs_test_bit bs_clear_def Let_def bit_and_iff bit_not_iff)

lemma bs_test_clear_all [simp]: "bs_test j (bs_clear_all i b) \<longleftrightarrow> j div 64 \<noteq> i div 64 \<and> bs_test j b"
  by (simp add: bs_test_bit bs_clear_all_def)

lemma bs_test_all_bit: "bit (bs_test_all i b) k \<longleftrightarrow> k < 64 \<and> bs_test (i div 64 * 64 + k) b"
  using bit_imp_le_length [of "buf b (i div 64)" k]
  by (cases "k < 64") (auto simp: bs_test_bit bs_test_all_def)

lemma fold_clear_words:
  "buf (fold (\<lambda>w b. b\<lparr>buf := (buf b)(w := 0)\<rparr>) ws b) w = (if w \<in> set ws then 0 else buf b w)"
  by (induction ws arbitrary: b) auto

text \<open>
  \<^verbatim>\<open>clear_region\<close> works on whole words and rounds its end down: a final partial word
  is not cleared.
\<close>

lemma bs_test_clear_region:
  "bs_test j (bs_clear_region s e b) \<longleftrightarrow> bs_test j b \<and> \<not> (s div 64 \<le> j div 64 \<and> j div 64 < e div 64)"
  by (auto simp: bs_test_bit bs_clear_region_def fold_clear_words)

lemma bs_test_clear_region_aligned:
  assumes "64 dvd e"
  shows "bs_test j (bs_clear_region 0 e b) \<longleftrightarrow> bs_test j b \<and> e \<le> j"
proof -
  have "j div 64 < e div 64 \<longleftrightarrow> j < e" using assms by (auto elim!: dvdE simp: div_less_iff_less_mult)
  then show ?thesis by (auto simp: bs_test_clear_region)
qed

lemma bs_test_new [simp]: "\<not> bs_test i bs_new"
  by (simp add: bs_test_bit bs_new_def)

lemma bs_allocate_new: "bs_allocate n bs_new = Some b \<Longrightarrow> \<not> bs_test i b \<and> nr_bits b = n"
  by (auto simp: bs_allocate_def bs_new_def bs_test_bit)

subsection \<open>Scanning the set bits of a word\<close>

text \<open>
  The loop the engines write as
  \<^verbatim>\<open>while (bitset != 0) { t = bitset & -bitset; i = ctz(bitset); bitset ^= t; ... }\<close>.
  \<open>ctz\<close> is \<^verbatim>\<open>__builtin_ctzll\<close>, undefined on 0 and never called there.
\<close>

definition ctz :: "u64 \<Rightarrow> nat" where
  "ctz w = length (takeWhile (\<lambda>i. \<not> bit w i) [0..<64])"

lemma ctz_least:
  assumes "w \<noteq> 0"
  shows "ctz w < 64" and "bit w (ctz w)" and "\<And>j. j < ctz w \<Longrightarrow> \<not> bit w j"
proof -
  obtain i where i: "i < 64" "bit w i" using word_nonzero_bit [OF assms] by auto
  have tw: "takeWhile (\<lambda>i. \<not> bit w i) [0..<64] \<noteq> [0..<64]"
    using i by (auto simp: takeWhile_eq_all_conv)
  have len: "ctz w \<le> 64"
    using length_takeWhile_le [of "\<lambda>i. \<not> bit w i" "[0..<64]"] by (simp add: ctz_def)
  have ne: "ctz w \<noteq> 64"
    using tw takeWhile_eq_take [of "\<lambda>i. \<not> bit w i" "[0..<64]"] by (auto simp: ctz_def)
  with len show lt: "ctz w < 64" by simp
  then show "bit w (ctz w)"
    using nth_length_takeWhile [of "\<lambda>i. \<not> bit w i" "[0..<64]"] by (simp add: ctz_def)
  show "\<not> bit w j" if "j < ctz w" for j
    using that takeWhile_nth [of j "\<lambda>i. \<not> bit w i" "[0..<64]"] lt
      nth_mem [of j "takeWhile (\<lambda>i. \<not> bit w i) [0..<64]"]
    by (auto simp: ctz_def dest: set_takeWhileD)
qed


lemma odd_and_minus: "odd u \<Longrightarrow> u AND - u = (1 :: u64)"
proof -
  assume odd: "odd u"
  then have "u - 1 = u XOR 1" by (simp add: xor_one_eq)
  then have "- u = NOT (u XOR 1)" by (simp add: minus_eq_not_minus_1)
  with odd show ?thesis
    by (auto intro!: bit_eqI simp: bit_and_iff bit_not_iff bit_xor_iff bit_1_iff bit_0 even_and_iff even_not_iff even_xor_iff)
qed

lemma lowest_set_bit:
  assumes "w \<noteq> (0 :: u64)"
  shows "w AND - w = 2 ^ ctz w"
proof -
  note least = ctz_least [OF assms]
  define u where "u = drop_bit (ctz w) w"
  have w: "w = push_bit (ctz w) u"
  proof (rule bit_eqI)
    fix n
    have "bit w n \<Longrightarrow> ctz w \<le> n" using least(3) by (meson leI)
    then show "bit w n = bit (push_bit (ctz w) u) n"
      by (auto simp: u_def bit_simps dest: bit_imp_le_length)
  qed
  have "odd u" using least(2) by (simp add: u_def bit_drop_bit_eq flip: bit_0)
  then have "u AND - u = 1" by (rule odd_and_minus)
  moreover have "w AND - w = push_bit (ctz w) (u AND - u)"
    by (subst (1 2) w) (simp only: push_bit_and push_bit_minus)
  ultimately show ?thesis by simp
qed

lemma bit_clear_lowest:
  "w \<noteq> (0 :: u64) \<Longrightarrow> bit (w XOR (w AND - w)) i \<longleftrightarrow> bit w i \<and> i \<noteq> ctz w"
  using ctz_least(2) [of w] by (auto simp: lowest_set_bit bit_xor_iff dest: bit_imp_le_length)

function scan_bits :: "u64 \<Rightarrow> nat list" where
  "scan_bits w = (if w = 0 then [] else ctz w # scan_bits (w XOR (w AND - w)))"
  by pat_completeness auto
termination
proof (relation "measure (\<lambda>w. card {i. bit w i})")
  fix w :: u64 assume nz: "w \<noteq> 0"
  have "{i. bit w i} \<subseteq> {..<64}" by (auto dest: bit_imp_le_length)
  then have fin: "finite {i. bit w i}" by (rule finite_subset) simp
  have "{i. bit (w XOR (w AND - w)) i} \<subset> {i. bit w i}"
    using ctz_least(2) [OF nz] by (auto simp: bit_clear_lowest nz)
  with fin show "(w XOR (w AND - w), w) \<in> measure (\<lambda>w. card {i. bit w i})"
    by (simp add: psubset_card_mono)
qed simp

declare scan_bits.simps [simp del]

text \<open>The scan visits exactly the set bits, in increasing order.\<close>

lemma scan_bits_from:
  assumes "\<And>i. i < k \<Longrightarrow> \<not> bit w i"
  shows "scan_bits w = filter (bit w) [k..<64]"
  using assms
proof (induction w arbitrary: k rule: scan_bits.induct)
  case (1 w)
  show ?case
  proof (cases "w = 0")
    case True
    then show ?thesis by (simp add: scan_bits.simps)
  next
    case False
    note least = ctz_least [OF False]
    have k: "k \<le> ctz w" using 1(2) least(2) by (meson leI)
    have split: "[k..<64] = [k..<ctz w] @ ctz w # [Suc (ctz w)..<64]"
      using least(1) k by (metis le_Suc_ex less_imp_le upt_add_eq_append upt_conv_Cons)
    have none: "filter (bit w) [k..<ctz w] = []"
      using least(3) by (auto simp: filter_empty_conv)
    have rest: "scan_bits (w XOR (w AND - w)) = filter (bit (w XOR (w AND - w))) [Suc (ctz w)..<64]"
      by (rule 1(1) [OF False]) (use least(3) False in \<open>auto simp: bit_clear_lowest less_Suc_eq\<close>)
    have "filter (bit (w XOR (w AND - w))) [Suc (ctz w)..<64] = filter (bit w) [Suc (ctz w)..<64]"
      by (rule filter_cong) (auto simp: bit_clear_lowest False)
    then show ?thesis
      using False least(2) by (simp add: scan_bits.simps [of w] rest split none)
  qed
qed

lemma scan_bits_filter: "scan_bits w = filter (bit w) [0..<64]"
  by (rule scan_bits_from) simp

lemma set_scan_bits: "set (scan_bits w) = {i. bit w i}"
  by (auto simp: scan_bits_filter dest: bit_imp_le_length)

text \<open>
  The indices a double loop over a range of a bit set visits:
  \<^verbatim>\<open>for (id = start; id < stop; id += 64)\<close> and the scan of \<^verbatim>\<open>test_all(id)\<close>.
\<close>

definition scan_range :: "nat \<Rightarrow> nat \<Rightarrow> bitset \<Rightarrow> nat list" where
  "scan_range start stop b =
     concat (map (\<lambda>k. map (\<lambda>i. start + 64 * k + i) (scan_bits (bs_test_all (start + 64 * k) b)))
       [0..<(stop - start + 63) div 64])"

lemma set_scan_range:
  assumes "64 dvd start" and "64 dvd stop"
  shows "set (scan_range start stop b) = {i. start \<le> i \<and> i < stop \<and> bs_test i b}"
proof -
  from assms obtain a e where ae: "start = 64 * a" "stop = 64 * e" by (auto elim!: dvdE)
  have len: "(stop - start + 63) div 64 = e - a" by (simp add: ae flip: diff_mult_distrib2)
  have bits: "set (map (\<lambda>i. start + 64 * k + i) (scan_bits (bs_test_all (start + 64 * k) b)))
      = {i. i div 64 = a + k \<and> bs_test i b}" for k
  proof -
    have base: "(start + 64 * k) div 64 * 64 = start + 64 * k" "(start + 64 * k) div 64 = a + k"
      by (simp_all add: ae)
    show ?thesis
    proof (intro set_eqI iffI)
      fix x assume "x \<in> {i. i div 64 = a + k \<and> bs_test i b}"
      then have x: "x div 64 = a + k" "bs_test x b" by auto
      then have "start + 64 * k \<le> x" "x - (start + 64 * k) < 64"
        using div_mult_range [of 64 "a + k" x] by (auto simp: ae algebra_simps)
      with x show "x \<in> set (map (\<lambda>i. start + 64 * k + i) (scan_bits (bs_test_all (start + 64 * k) b)))"
        by (auto simp: set_scan_bits bs_test_all_bit base image_iff ae mult.commute [of a] intro!: exI [of _ "x - (start + 64 * k)"])
    next
      fix x assume "x \<in> set (map (\<lambda>i. start + 64 * k + i) (scan_bits (bs_test_all (start + 64 * k) b)))"
      then show "x \<in> {i. i div 64 = a + k \<and> bs_test i b}"
        by (auto simp: set_scan_bits bs_test_all_bit base ae mult.commute)
    qed
  qed
  have "set (scan_range start stop b) = (\<Union>k\<in>{0..<e - a}. {i. i div 64 = a + k \<and> bs_test i b})"
    by (simp add: scan_range_def len) (use bits in simp)
  also have "\<dots> = {i. a \<le> i div 64 \<and> i div 64 < e \<and> bs_test i b}"
  proof (intro set_eqI iffI)
    fix x assume "x \<in> {i. a \<le> i div 64 \<and> i div 64 < e \<and> bs_test i b}"
    then have "x div 64 - a \<in> {0..<e - a}" "x div 64 = a + (x div 64 - a)" "bs_test x b" by auto
    then show "x \<in> (\<Union>k\<in>{0..<e - a}. {i. i div 64 = a + k \<and> bs_test i b})" by blast
  qed auto
  also have "\<dots> = {i. start \<le> i \<and> i < stop \<and> bs_test i b}"
    by (auto simp: ae less_eq_div_iff_mult_less_eq div_less_iff_less_mult mult.commute)
  finally show ?thesis .
qed


subsection \<open>Non-temporal copies\<close>

text \<open>
  \<^verbatim>\<open>NonTemporalCopy64\<close> and \<^verbatim>\<open>NonTemporalCopy256\<close> differ only in how many
  64-byte lines one iteration moves. The destination is given by \<open>at\<close>, which tells the index
  of a cell in it; the source by its cells. All loads of a copy see the memory before it, because
  the engines never copy between overlapping regions. The variant with write elimination leaves
  a line alone when source and destination already agree on all of its bytes.
\<close>

definition NonTemporalCopy ::
  "('l \<Rightarrow> nat option) \<Rightarrow> (nat \<Rightarrow> 'l) \<Rightarrow> nat \<Rightarrow> ('l, 'v) nvm \<Rightarrow> ('l, 'v) nvm" where
  "NonTemporalCopy at src len m = nv_nt (\<lambda>l. case at l of
       Some i \<Rightarrow> if i < len then Some (cur m (src i)) else None
     | None \<Rightarrow> None) m"

text \<open>The blocks a range of bytes meets: \<open>[d div n, (d + len + n - 1) div n)\<close>.\<close>

lemma block_span_single:
  assumes "0 < len" and "d mod kBlockSize + len \<le> kBlockSize"
  shows "(d + len + (kBlockSize - 1)) div kBlockSize = Suc (d div kBlockSize)"
proof -
  have "(d + len + 255) div 256 = Suc (d div 256)"
  proof (rule div_nat_eqI)
    show "256 * Suc (d div 256) \<le> d + len + 255"
      using assms(1) mult_div_mod_eq [of 256 d] by simp
    have "256 * (d div 256) + d mod 256 = d" "d mod 256 + len \<le> 256" using assms(2) by (simp_all add: geometry)
    then have "d + len < 256 * (d div 256) + 257" by linarith
    then show "d + len + 255 < 256 * Suc (Suc (d div 256))" by simp
  qed
  then show ?thesis by (simp add: geometry)
qed

lemma block_span_bound:
  assumes "d + len \<le> blocks * kBlockSize"
  shows "(d + len + (kBlockSize - 1)) div kBlockSize \<le> blocks"
proof -
  have "(d + len + 255) div 256 \<le> (blocks * 256 + 255) div 256"
    using assms by (intro div_le_mono) (simp add: geometry)
  then show ?thesis by (simp add: geometry)
qed

lemma block_span_blocks:
  "d + len \<le> blocks * kBlockSize \<Longrightarrow>
   \<forall>b \<in> set [d div kBlockSize..<(d + len + (kBlockSize - 1)) div kBlockSize]. b < blocks"
  by (rule ballI) (erule less_le_trans [OF _ block_span_bound, rotated], simp)

lemma aligned_mod: "n dvd (base :: nat) \<Longrightarrow> base \<le> addr \<Longrightarrow> addr mod n = (addr - base) mod n"
  by (auto elim!: dvdE) (metis le_add_diff_inverse mod_mult_self4)

text \<open>The offset of a byte in its block.\<close>

lemma block_offset: "b * kBlockSize \<le> x \<Longrightarrow> x - b * kBlockSize < kBlockSize \<Longrightarrow> x div kBlockSize = b"
  by (rule div_nat_eqI) (simp_all add: geometry)

lemma block_offset_conv: "b * kBlockSize \<le> x \<and> x - b * kBlockSize < kBlockSize \<longleftrightarrow> x div kBlockSize = b"
proof
  assume "x div kBlockSize = b"
  then show "b * kBlockSize \<le> x \<and> x - b * kBlockSize < kBlockSize"
    by (auto simp: geometry)
qed (simp add: block_offset)

definition line_differs :: "(nat \<Rightarrow> 'l) \<Rightarrow> (nat \<Rightarrow> 'l) \<Rightarrow> ('l, 'v) nvm \<Rightarrow> nat \<Rightarrow> bool" where
  "line_differs dst src m i = list_ex (\<lambda>k. cur m (dst (i - i mod 64 + k)) \<noteq> cur m (src (i - i mod 64 + k))) [0..<64]"

definition NonTemporalCopyWithWriteElimination ::
  "('l \<Rightarrow> nat option) \<Rightarrow> (nat \<Rightarrow> 'l) \<Rightarrow> (nat \<Rightarrow> 'l) \<Rightarrow> nat \<Rightarrow> ('l, 'v) nvm \<Rightarrow> ('l, 'v) nvm" where
  "NonTemporalCopyWithWriteElimination at dst src len m = nv_nt (\<lambda>l. case at l of
       Some i \<Rightarrow> if i < len \<and> line_differs dst src m i then Some (cur m (src i)) else None
     | None \<Rightarrow> None) m"

lemma line_differs_self: "cur m (dst i) \<noteq> cur m (src i) \<Longrightarrow> line_differs dst src m i"
  by (auto simp: line_differs_def list_ex_iff intro!: bexI [of _ "i mod 64"])

lemma NonTemporalCopy_simps [simp]:
  "cur (NonTemporalCopy at src len m) l =
     (case at l of Some i \<Rightarrow> if i < len then cur m (src i) else cur m l | None \<Rightarrow> cur m l)"
  "hist (NonTemporalCopy at src len m) = hist m"
  by (auto simp: NonTemporalCopy_def split: option.splits)

text \<open>Both copies leave the same visible contents; elimination writes no more cells.\<close>

lemma write_elimination_cur:
  assumes "\<And>l i. at l = Some i \<Longrightarrow> dst i = l"
  shows "cur (NonTemporalCopyWithWriteElimination at dst src len m) = cur (NonTemporalCopy at src len m)"
proof
  fix l
  show "cur (NonTemporalCopyWithWriteElimination at dst src len m) l = cur (NonTemporalCopy at src len m) l"
  proof (cases "at l")
    case None
    then show ?thesis by (simp add: NonTemporalCopyWithWriteElimination_def)
  next
    case (Some i)
    then have "dst i = l" by (rule assms)
    then show ?thesis
      using line_differs_self [of m dst i src] Some
      by (auto simp: NonTemporalCopyWithWriteElimination_def)
  qed
qed

lemma write_elimination_frame:
  assumes "\<And>i. at l = Some i \<Longrightarrow> \<not> i < len"
  shows "cur (NonTemporalCopyWithWriteElimination at dst src len m) l = cur m l"
    and "dur (NonTemporalCopyWithWriteElimination at dst src len m) l = dur m l"
    and "pend (NonTemporalCopyWithWriteElimination at dst src len m) l = pend m l"
  using assms by (auto simp: NonTemporalCopyWithWriteElimination_def split: option.splits)

lemma write_elimination_hist [simp]:
  "hist (NonTemporalCopyWithWriteElimination at dst src len m) = hist m"
  by (simp add: NonTemporalCopyWithWriteElimination_def)

text \<open>A cell of the destination that was quiet is settled on the copied value.\<close>

lemma write_elimination_settled:
  assumes "\<And>l i. at l = Some i \<Longrightarrow> dst i = l" and "quiet m l"
  shows "settled (NonTemporalCopyWithWriteElimination at dst src len m) l"
    and "dur (NonTemporalCopyWithWriteElimination at dst src len m) l
         \<subseteq> {cur m l, cur (NonTemporalCopyWithWriteElimination at dst src len m) l}"
    and "cur (NonTemporalCopyWithWriteElimination at dst src len m) l
         \<in> dur (NonTemporalCopyWithWriteElimination at dst src len m) l"
  using assms(2)
  by (auto simp: NonTemporalCopyWithWriteElimination_def quiet_iff settled_iff split: option.splits)

subsection \<open>Properties\<close>

lemma scan_words_filter:
  assumes "64 dvd start"
  shows "concat (map (\<lambda>k. map (\<lambda>i. start + 64 * k + i) (scan_bits (bs_test_all (start + 64 * k) b))) [0..<n])
    = filter (\<lambda>i. bs_test i b) [start..<start + 64 * n]"
proof (induction n)
  case 0
  then show ?case by simp
next
  case (Suc n)
  from assms obtain a where a: "start = 64 * a" by (auto elim: dvdE)
  have seg: "[start..<start + 64 * Suc n] = [start..<start + 64 * n] @ map (\<lambda>i. start + 64 * n + i) [0..<64]"
    using upt_add_eq_append [of start "start + 64 * n" 64] map_add_upt [of "start + 64 * n" 64]
    by (simp add: algebra_simps)
  have "bs_test (start + 64 * n + i) b \<longleftrightarrow> bit (bs_test_all (start + 64 * n) b) i" if "i < 64" for i
    using that by (simp add: bs_test_all_bit a mult.commute)
  then have "filter (\<lambda>i. bs_test i b) (map (\<lambda>i. start + 64 * n + i) [0..<64])
      = map (\<lambda>i. start + 64 * n + i) (filter (bit (bs_test_all (start + 64 * n) b)) [0..<64])"
    by (auto simp: filter_map o_def intro!: arg_cong [where f = "map _"] filter_cong)
  moreover have "[0..<Suc n] = [0..<n] @ [n]" by simp
  ultimately show ?case using Suc by (simp only: seg scan_bits_filter map_append concat_append filter_append) simp
qed

text \<open>
  The scan the engines use to walk a bit set, word by word and lowest set bit first, visits
  exactly the indices that are set in the range, once each and in increasing order.
\<close>

lemma scan_range_filter:
  assumes "64 dvd start" and "64 dvd stop"
  shows "scan_range start stop b = filter (\<lambda>i. bs_test i b) [start..<stop]"
proof (cases "start \<le> stop")
  case True
  from assms obtain a e where ae: "start = 64 * a" "stop = 64 * e" by (auto elim!: dvdE)
  have "(stop - start + 63) div 64 = e - a" by (simp add: ae flip: diff_mult_distrib2)
  moreover have "start + 64 * (e - a) = stop" using True by (simp add: ae diff_mult_distrib2)
  ultimately show ?thesis
    using scan_words_filter [OF assms(1), of b "e - a"] by (simp add: scan_range_def)
next
  case False
  then show ?thesis by (simp add: scan_range_def)
qed

text \<open>
  \<^verbatim>\<open>AtomicBitSet::clear_region\<close> clears whole words: from the word that holds its
  first index up to, but without, the word that holds its end. An end inside a word leaves that
  word's bits set, so clearing a set of eight bits clears nothing.
\<close>

theorem clear_region_words:
  "(bs_test j (bs_clear_region s e b) \<longleftrightarrow> bs_test j b \<and> \<not> (s div 64 \<le> j div 64 \<and> j div 64 < e div 64)) \<and>
   bs_test 3 (bs_clear_region 0 8 (bs_set 3 bs_new))"
  by (simp add: bs_test_clear_region)

text \<open>
  The copy with write elimination leaves the same contents as the plain copy and every
  destination cell settled: the next fence makes the copy durable, whether or not its line was
  written.
\<close>

theorem write_elimination_correct:
  assumes "\<forall>l i. at l = Some i \<longrightarrow> dst i = l" and "\<forall>l. at l \<noteq> None \<longrightarrow> quiet m l"
  shows "cur (NonTemporalCopyWithWriteElimination at dst src len m) = cur (NonTemporalCopy at src len m) \<and>
    (\<forall>l i. at l = Some i \<and> i < len \<longrightarrow>
       cur (NonTemporalCopyWithWriteElimination at dst src len m) l = cur m (src i) \<and>
       quiet (nv_fence (NonTemporalCopyWithWriteElimination at dst src len m)) l)"
proof -
  have d: "\<And>l i. at l = Some i \<Longrightarrow> dst i = l" using assms(1) by blast
  note c = write_elimination_cur [of at dst src len m, OF d]
  have "settled (NonTemporalCopyWithWriteElimination at dst src len m) l" if "at l = Some i" for l i
    by (rule write_elimination_settled(1) [OF d]) (use assms(2) that in auto)
  with c show ?thesis by simp
qed

theorem write_elimination_correct_witness:
  "cur (NonTemporalCopyWithWriteElimination (\<lambda>l. if 1000 \<le> l then Some (l - 1000) else None) (\<lambda>i. 1000 + i) (\<lambda>i. i) 64
     (nv_init (\<lambda>l. l + 1))) 1003 = (4 :: nat)"
proof -
  have "\<forall>l i. (if 1000 \<le> l then Some (l - 1000) else None) = Some i \<longrightarrow> (1000 :: nat) + i = l" by auto
  from write_elimination_correct [of "\<lambda>l. if 1000 \<le> l then Some (l - 1000) else None" "\<lambda>i. 1000 + i"
      "nv_init (\<lambda>l. l + 1)" "\<lambda>i. i" 64, OF this]
  show ?thesis by simp
qed

end
