(* ===== verification/Checkpoint.thy ===== *)
theory Checkpoint
  imports Common
begin

text \<open>
  \<^verbatim>\<open>CheckpointImage\<close> (\<^verbatim>\<open>runtime/include/internal/checkpoint.h\<close>,
  \<^verbatim>\<open>runtime/src/checkpoint.cpp\<close>): the persistent image with its header, two copies of the
  segment-state array selected by the parity of the committed epoch, the binding of back segments
  to main segments, the main and the back memory, and the operations on them.
\<close>

subsection \<open>Segment states and cells of the image\<close>

definition SS_Initial :: nat where "SS_Initial = 0"
definition SS_Main :: nat where "SS_Main = 1"
definition SS_Back :: nat where "SS_Back = 2"
definition SS_Identical :: nat where "SS_Identical = 3"

lemmas SS_defs [geometry] = SS_Initial_def SS_Main_def SS_Back_def SS_Identical_def

lemma SS_distinct [simp]:
  "SS_Initial \<noteq> SS_Main" "SS_Initial \<noteq> SS_Back" "SS_Main \<noteq> SS_Back" "SS_Main \<noteq> SS_Initial"
  "SS_Back \<noteq> SS_Initial" "SS_Back \<noteq> SS_Main" "SS_Identical \<noteq> SS_Main" "SS_Identical \<noteq> SS_Back"
  "SS_Identical \<noteq> SS_Initial" "SS_Main \<noteq> SS_Identical" "SS_Back \<noteq> SS_Identical" "SS_Initial \<noteq> SS_Identical"
  by (simp_all add: SS_defs)

text \<open>
  The cells of the file. \<open>SegSt c s\<close> is entry \<open>s\<close> of \<^verbatim>\<open>segment_state[c]\<close>,
  \<open>B2M i\<close> is \<^verbatim>\<open>back_to_main[i]\<close>, \<open>MainB o\<close> and \<open>BackB o\<close> are the
  bytes at offset \<open>o\<close> of the main and the back memory.
\<close>

datatype iloc =
    HMagic | HAttr | HNrMain | HNrBack | HEpoch | HMediaErr
  | SegSt nat nat | B2M nat | MainB nat | BackB nat

type_synonym imem = "(iloc, nat) nvm"

subsection \<open>Layout of the file\<close>

text \<open>\<^verbatim>\<open>sizeof(Header)\<close>: two 32-bit and four 64-bit fields.\<close>

definition sizeof_Header :: nat where "sizeof_Header = 40"

definition CalculateHeaderSize :: "nat \<Rightarrow> nat \<Rightarrow> nat" where
  "CalculateHeaderSize nr_main nr_back =
     (let header_size = RoundUp sizeof_Header kCacheLineSize
                        + RoundUp nr_main kCacheLineSize * 2
                        + RoundUp (8 * nr_back) kCacheLineSize
      in RoundUp header_size kHugePageSize * 2)"

definition CalculateFileSize :: "nat \<Rightarrow> nat \<Rightarrow> nat" where
  "CalculateFileSize nr_main nr_back =
     CalculateHeaderSize nr_main nr_back + (nr_main + nr_back) * kSegmentSize
       + (nr_main + nr_back) * kParitySize"

record layout =
  lo_state0 :: nat
  lo_state1 :: nat
  lo_b2m :: nat
  lo_header_size :: nat
  lo_main :: nat
  lo_back :: nat
  lo_parity :: nat

text \<open>The running \<^verbatim>\<open>offset\<close> of \<^verbatim>\<open>Open\<close>, the same in both of its branches.\<close>

definition image_layout :: "nat \<Rightarrow> nat \<Rightarrow> layout" where
  "image_layout nr_main nr_back =
     (let o0 = RoundUp sizeof_Header kCacheLineSize;
          o1 = o0 + RoundUp nr_main kCacheLineSize;
          o2 = o1 + RoundUp nr_main kCacheLineSize;
          o3 = o2 + RoundUp (8 * nr_back) kCacheLineSize;
          o4 = RoundUp o3 kHugePageSize;
          o5 = o4 * 2;
          o6 = o5 + nr_main * kSegmentSize;
          o7 = o6 + nr_back * kSegmentSize
      in \<lparr>lo_state0 = o0, lo_state1 = o1, lo_b2m = o2, lo_header_size = o4,
          lo_main = o5, lo_back = o6, lo_parity = o7\<rparr>)"

fun loc_offset :: "layout \<Rightarrow> iloc \<Rightarrow> nat" where
  "loc_offset _ HMagic = 0"
| "loc_offset _ HAttr = 4"
| "loc_offset _ HNrMain = 8"
| "loc_offset _ HNrBack = 16"
| "loc_offset _ HEpoch = 24"
| "loc_offset _ HMediaErr = 32"
| "loc_offset L (SegSt c s) = (if c = 0 then lo_state0 L else lo_state1 L) + s"
| "loc_offset L (B2M i) = lo_b2m L + 8 * i"
| "loc_offset L (MainB x) = lo_main L + x"
| "loc_offset L (BackB x) = lo_back L + x"

fun loc_size :: "iloc \<Rightarrow> nat" where
  "loc_size HMagic = 4"
| "loc_size HAttr = 4"
| "loc_size (SegSt _ _) = 1"
| "loc_size (MainB _) = 1"
| "loc_size (BackB _) = 1"
| "loc_size _ = 8"

fun loc_valid :: "nat \<Rightarrow> nat \<Rightarrow> iloc \<Rightarrow> bool" where
  "loc_valid nm nb (SegSt c s) = (c < 2 \<and> s < nm)"
| "loc_valid nm nb (B2M i) = (i < nb)"
| "loc_valid nm nb (MainB x) = (x < nm * kSegmentSize)"
| "loc_valid nm nb (BackB x) = (x < nb * kSegmentSize)"
| "loc_valid _ _ _ = True"

text \<open>
  The offsets in order: with sizes that do not wrap, every array ends before the next begins,
  and \<^verbatim>\<open>Open\<close> agrees with \<^verbatim>\<open>CalculateHeaderSize\<close> on where the data starts.
\<close>

lemma image_layout_order:
  assumes "nm \<le> 2 ^ 40" and "nb \<le> 2 ^ 40"
  defines "L \<equiv> image_layout nm nb"
  shows "lo_state0 L = 64" "lo_state0 L + nm \<le> lo_state1 L" "lo_state1 L + nm \<le> lo_b2m L"
    "lo_b2m L + 8 * nb \<le> lo_header_size L" "lo_main L = 2 * lo_header_size L"
    "lo_back L = lo_main L + nm * kSegmentSize" "lo_parity L = lo_back L + nb * kSegmentSize"
    "lo_main L = CalculateHeaderSize nm nb"
proof -
  have r1: "RoundUp sizeof_Header kCacheLineSize = 64"
    by (simp add: RoundUp_def sizeof_Header_def geometry)
  have n: "nm \<le> RoundUp nm kCacheLineSize" "RoundUp nm kCacheLineSize < nm + 64"
    using RoundUp_least [of kCacheLineSize nm] assms(1) by (auto simp: geometry)
  have b: "8 * nb \<le> RoundUp (8 * nb) kCacheLineSize" "RoundUp (8 * nb) kCacheLineSize < 8 * nb + 64"
    using RoundUp_least [of kCacheLineSize "8 * nb"] assms(2) by (auto simp: geometry)
  define o3 where "o3 = 64 + RoundUp nm kCacheLineSize * 2 + RoundUp (8 * nb) kCacheLineSize"
  have "o3 + kHugePageSize \<le> 2 ^ 64"
    using n b assms(1,2) by (simp add: o3_def geometry)
  then have h: "o3 \<le> RoundUp o3 kHugePageSize"
    using RoundUp_least [of kHugePageSize o3] by (auto simp: geometry)
  have hs: "lo_header_size L = RoundUp o3 kHugePageSize"
    by (simp add: L_def image_layout_def Let_def r1 o3_def algebra_simps)
  show "lo_state0 L = 64" "lo_state0 L + nm \<le> lo_state1 L" "lo_state1 L + nm \<le> lo_b2m L"
    using n by (simp_all add: L_def image_layout_def Let_def r1)
  have "lo_b2m L + RoundUp (8 * nb) kCacheLineSize = o3"
    by (simp add: L_def image_layout_def Let_def r1 o3_def)
  with h b show "lo_b2m L + 8 * nb \<le> lo_header_size L" by (simp add: hs)
  show "lo_main L = 2 * lo_header_size L" "lo_back L = lo_main L + nm * kSegmentSize"
    "lo_parity L = lo_back L + nb * kSegmentSize"
    by (simp_all add: L_def image_layout_def Let_def)
  then show "lo_main L = CalculateHeaderSize nm nb"
    by (simp add: hs CalculateHeaderSize_def Let_def r1 o3_def algebra_simps)
qed

lemma loc_fits:
  assumes "nm \<le> 2 ^ 40" and "nb \<le> 2 ^ 40" and "loc_valid nm nb l"
  shows "loc_offset (image_layout nm nb) l + loc_size l \<le> CalculateFileSize nm nb"
  using image_layout_order [OF assms(1,2)] assms(3)
  by (cases l) (auto simp: CalculateFileSize_def distrib_right)

lemma loc_disjoint:
  assumes "nm \<le> 2 ^ 40" and "nb \<le> 2 ^ 40"
    and "loc_valid nm nb l" and "loc_valid nm nb l'" and "l \<noteq> l'"
  defines "L \<equiv> image_layout nm nb"
  shows "loc_offset L l + loc_size l \<le> loc_offset L l' \<or> loc_offset L l' + loc_size l' \<le> loc_offset L l"
  using image_layout_order [OF assms(1,2), folded L_def] assms(3-5)
  by (cases l; cases l') (auto simp: less_2_cases_iff)


subsection \<open>The object and its accessors\<close>

text \<open>
  \<open>nv\<close> is the mapped file; the other fields are in DRAM. \<open>state_update\<close> is the
  thread-local \<^verbatim>\<open>segment_state_update\<close>.
\<close>

record image =
  nv :: imem
  main_to_back :: "nat \<Rightarrow> nat"
  segment_state_dirty :: "nat \<Rightarrow> bool"
  state_update :: bool

definition rd :: "image \<Rightarrow> iloc \<Rightarrow> nat" where
  "rd im l = cur (nv im) l"

definition nv_upd :: "(imem \<Rightarrow> imem) \<Rightarrow> image \<Rightarrow> image" where
  "nv_upd f im = im\<lparr>nv := f (nv im)\<rparr>"

lemma nv_upd_simps [simp]:
  "nv (nv_upd f im) = f (nv im)"
  "main_to_back (nv_upd f im) = main_to_back im"
  "segment_state_dirty (nv_upd f im) = segment_state_dirty im"
  "state_update (nv_upd f im) = state_update im"
  by (simp_all add: nv_upd_def)

definition get_nr_main_segments :: "image \<Rightarrow> nat" where "get_nr_main_segments im = rd im HNrMain"
definition get_nr_back_segments :: "image \<Rightarrow> nat" where "get_nr_back_segments im = rd im HNrBack"
definition get_committed_epoch :: "image \<Rightarrow> nat" where "get_committed_epoch im = rd im HEpoch"
definition get_attributes :: "image \<Rightarrow> nat" where "get_attributes im = rd im HAttr"
definition get_back_to_main :: "image \<Rightarrow> nat \<Rightarrow> nat" where "get_back_to_main im b = rd im (B2M b)"
definition get_main_to_back :: "image \<Rightarrow> nat \<Rightarrow> nat" where "get_main_to_back im s = main_to_back im s"

definition get_segment_state :: "image \<Rightarrow> nat \<Rightarrow> nat" where
  "get_segment_state im s = (let bi_epoch = rd im HEpoch mod 2 in rd im (SegSt bi_epoch s))"

text \<open>Destination index and cells of the two memories, from a base offset.\<close>

fun main_at :: "nat \<Rightarrow> iloc \<Rightarrow> nat option" where
  "main_at base (MainB x) = (if base \<le> x then Some (x - base) else None)"
| "main_at base _ = None"

fun back_at :: "nat \<Rightarrow> iloc \<Rightarrow> nat option" where
  "back_at base (BackB x) = (if base \<le> x then Some (x - base) else None)"
| "back_at base _ = None"

definition main_cell :: "nat \<Rightarrow> nat \<Rightarrow> iloc" where "main_cell base i = MainB (base + i)"
definition back_cell :: "nat \<Rightarrow> nat \<Rightarrow> iloc" where "back_cell base i = BackB (base + i)"

definition get_main_segment :: "nat \<Rightarrow> nat" where "get_main_segment s = s * kSegmentSize"
definition get_back_segment :: "nat \<Rightarrow> nat" where "get_back_segment s = s * kSegmentSize"
definition get_main_block :: "nat \<Rightarrow> nat" where "get_main_block b = b * kBlockSize"
definition get_back_block :: "nat \<Rightarrow> nat" where "get_back_block b = b * kBlockSize"

text \<open>\<^verbatim>\<open>1 - bi_epoch\<close>: the copy that is not current.\<close>

definition other :: "nat \<Rightarrow> nat" where "other c = 1 - c"

lemma other_cases: "c < 2 \<Longrightarrow> c = 0 \<and> other c = 1 \<or> c = 1 \<and> other c = 0"
  by (auto simp: other_def)

lemma other_simps [simp]:
  "other (c mod 2) \<noteq> c mod 2" "c mod 2 \<noteq> other (c mod 2)" "other (other (c mod 2)) = c mod 2"
  "other (c mod 2) < 2"
  using other_cases [of "c mod 2"] by (auto simp: other_def)

text \<open>The cache line of a segment-state entry.\<close>

fun state_line :: "nat \<Rightarrow> nat \<Rightarrow> iloc \<Rightarrow> bool" where
  "state_line c s (SegSt c' s') = (c' = c \<and> s' div 64 = s div 64)"
| "state_line _ _ _ = False"

subsection \<open>Attributes, epoch and binding\<close>

definition set_attributes :: "nat \<Rightarrow> image \<Rightarrow> image" where
  "set_attributes v im = nv_upd nv_fence (nv_upd (nv_nt [HAttr \<mapsto> v]) im)"

definition reset_committed_epoch :: "nat \<Rightarrow> image \<Rightarrow> image" where
  "reset_committed_epoch e im = nv_upd nv_fence (nv_upd (nv_nt [HEpoch \<mapsto> e]) im)"

definition bind_back_segment :: "nat \<Rightarrow> nat \<Rightarrow> image \<Rightarrow> image" where
  "bind_back_segment main_id back_id im =
     (let old = rd im (B2M back_id);
          im1 = (if old \<noteq> kNullSegmentIndex
                 then im\<lparr>main_to_back := (main_to_back im)(old := kNullSegmentIndex)\<rparr> else im);
          im2 = nv_upd (nv_nt [B2M back_id \<mapsto> main_id]) im1;
          im3 = im2\<lparr>main_to_back := (main_to_back im2)(main_id := back_id)\<rparr>
      in nv_upd nv_fence im3)"

subsection \<open>Segment states and their atomic commit\<close>

definition set_segment_state_atomic :: "nat \<Rightarrow> nat \<Rightarrow> image \<Rightarrow> image" where
  "set_segment_state_atomic s st im =
     (let bi = rd im HEpoch mod 2;
          im1 = nv_upd (nv_store [SegSt bi s \<mapsto> st]) im;
          im2 = nv_upd nv_fence (nv_upd (nv_flush (state_line bi s)) im1);
          im3 = nv_upd (nv_store [SegSt (other bi) s \<mapsto> st]) im2
      in nv_upd (nv_flush (state_line (other bi) s)) im3)"

definition begin_segment_state_update :: "image \<Rightarrow> image" where
  "begin_segment_state_update im = im\<lparr>state_update := True\<rparr>"

definition set_segment_state :: "nat \<Rightarrow> nat \<Rightarrow> image \<Rightarrow> image option" where
  "set_segment_state s st im =
     (if \<not> state_update im then None
      else let bi = rd im HEpoch mod 2; slot = SegSt (other bi) s in
        if rd im slot \<noteq> st
        then Some ((nv_upd (nv_store [slot \<mapsto> st]) im)
                     \<lparr>segment_state_dirty := (segment_state_dirty im)(s div 64 := True)\<rparr>)
        else Some im)"

text \<open>The cache-line numbers of \<^verbatim>\<open>for (i = 0; i < nr_main_segments; i += 64)\<close>.\<close>

definition state_lines :: "image \<Rightarrow> nat list" where
  "state_lines im = [0..<(rd im HNrMain + 63) div 64]"

definition flush_dirty_line :: "nat \<Rightarrow> nat \<Rightarrow> image \<Rightarrow> image" where
  "flush_dirty_line bi k im =
     (if segment_state_dirty im k then nv_upd (nv_flush (state_line bi (64 * k))) im else im)"

fun state_line_at :: "nat \<Rightarrow> nat \<Rightarrow> iloc \<Rightarrow> nat option" where
  "state_line_at c base (SegSt c' s) = (if c' = c \<and> base \<le> s then Some (s - base) else None)"
| "state_line_at _ _ _ = None"

definition copy_dirty_line :: "nat \<Rightarrow> nat \<Rightarrow> image \<Rightarrow> image" where
  "copy_dirty_line bi k im =
     (if segment_state_dirty im k
      then (nv_upd (NonTemporalCopy (state_line_at (other bi) (64 * k)) (\<lambda>i. SegSt bi (64 * k + i)) 64) im)
             \<lparr>segment_state_dirty := (segment_state_dirty im)(k := False)\<rparr>
      else im)"

text \<open>\<^verbatim>\<open>next_epoch\<close> is a \<^verbatim>\<open>uint32_t\<close>.\<close>

definition next_epoch :: "nat \<Rightarrow> nat" where
  "next_epoch e = (e + 1) mod 2 ^ 32"

text \<open>The first half of the commit, up to the fence that makes the new epoch durable.\<close>

definition commit_epoch :: "image \<Rightarrow> image" where
  "commit_epoch im =
     (let ne = next_epoch (rd im HEpoch); bi = ne mod 2;
          im1 = fold (flush_dirty_line bi) (state_lines im) im;
          im2 = nv_upd nv_fence im1;
          im3 = nv_upd (nv_nt [HEpoch \<mapsto> ne]) im2
      in nv_upd nv_fence im3)"

definition copy_dirty_lines :: "image \<Rightarrow> image" where
  "copy_dirty_lines im = fold (copy_dirty_line (rd im HEpoch mod 2)) (state_lines im) im"

definition commit_segment_state_update :: "image \<Rightarrow> image" where
  "commit_segment_state_update im =
     (copy_dirty_lines (commit_epoch im))\<lparr>state_update := False\<rparr>"

subsection \<open>Open\<close>

definition is_header_cell :: "iloc \<Rightarrow> bool" where
  "is_header_cell l = (case l of MainB _ \<Rightarrow> False | BackB _ \<Rightarrow> False | _ \<Rightarrow> True)"

text \<open>The DRAM tables both branches of \<^verbatim>\<open>Open\<close> build.\<close>

definition bind_table :: "imem \<Rightarrow> nat \<Rightarrow> (nat \<Rightarrow> nat) \<Rightarrow> (nat \<Rightarrow> nat)" where
  "bind_table m i tab = (if cur m (B2M i) \<noteq> kNullSegmentIndex then tab(cur m (B2M i) := i) else tab)"

definition attach :: "imem \<Rightarrow> image" where
  "attach m = \<lparr>nv = m,
     main_to_back = fold (bind_table m) [0..<cur m HNrBack] (\<lambda>_. kNullSegmentIndex),
     segment_state_dirty = (\<lambda>_. False), state_update = False\<rparr>"

definition Open_initialize :: "nat \<Rightarrow> nat \<Rightarrow> imem \<Rightarrow> image" where
  "Open_initialize nr_main nr_back m0 =
     (let m1 = nv_store (\<lambda>l. if l \<in> {HMagic, HAttr, HNrMain, HNrBack, HEpoch, HMediaErr} then Some 0 else None) m0;
          m2 = nv_store [HMagic \<mapsto> kMetadataV2Magic, HNrMain \<mapsto> nr_main, HNrBack \<mapsto> nr_back] m1;
          m3 = nv_store (\<lambda>l. case l of SegSt c s \<Rightarrow> if c < 2 \<and> s < nr_main then Some SS_Initial else None
                              | _ \<Rightarrow> None) m2;
          m4 = nv_store (\<lambda>l. case l of B2M i \<Rightarrow> if i < nr_back then Some i else None | _ \<Rightarrow> None) m3
      in attach (nv_fence (nv_flush is_header_cell m4)))"

text \<open>Opening an existing file; \<open>None\<close> is the null pointer after a magic mismatch.\<close>

definition Open_existing :: "imem \<Rightarrow> image option" where
  "Open_existing m = (if cur m HMagic \<noteq> kMetadataV2Magic then None else Some (attach m))"

subsection \<open>recovery\<close>

definition recover_segment :: "nat \<Rightarrow> nat \<Rightarrow> image \<Rightarrow> image option" where
  "recover_segment to_state back_id im =
     (let bi = rd im HEpoch mod 2;
          main_id = get_back_to_main im back_id;
          st = rd im (SegSt bi main_id);
          mb = get_main_segment main_id; bb = get_back_segment back_id
      in if main_id = kNullSegmentIndex \<or> st = SS_Initial then Some im
         else
           let im1 = (if st = SS_Main
                      then nv_upd (NonTemporalCopyWithWriteElimination (back_at bb) (back_cell bb) (main_cell mb) kSegmentSize) im
                      else if st = SS_Back
                      then nv_upd (NonTemporalCopyWithWriteElimination (main_at mb) (main_cell mb) (back_cell bb) kSegmentSize) im
                      else im)
           in if to_state \<noteq> st then set_segment_state main_id to_state im1 else Some im1)"

definition recovery :: "nat \<Rightarrow> image \<Rightarrow> image option" where
  "recovery to_state im =
     (case foldM (recover_segment to_state) [0..<get_nr_back_segments im] (begin_segment_state_update im)
      of None \<Rightarrow> None | Some im1 \<Rightarrow> Some (commit_segment_state_update im1))"

text \<open>What a restart on a durable image does: map the file, \<^verbatim>\<open>Open\<close>, \<^verbatim>\<open>recovery\<close>.\<close>

definition restart :: "nat \<Rightarrow> (iloc \<Rightarrow> nat) \<Rightarrow> image option" where
  "restart to_state pm =
     (case Open_existing (nv_init pm) of None \<Rightarrow> None | Some im \<Rightarrow> recovery to_state im)"

text \<open>
  The layout of a checkpoint file of at most \<open>2 ^ 40\<close> segments: the header fields, the two
  state arrays, the binding table and both memories lie inside the file and no two of them
  overlap, and the main memory starts where the file-size computation expects it.
\<close>

theorem image_layout_sound:
  assumes "nm \<le> 2 ^ 40" and "nb \<le> 2 ^ 40" and "loc_valid nm nb l" and "loc_valid nm nb l'" and "l \<noteq> l'"
  shows "loc_offset (image_layout nm nb) l + loc_size l \<le> CalculateFileSize nm nb \<and>
    (loc_offset (image_layout nm nb) l + loc_size l \<le> loc_offset (image_layout nm nb) l' \<or>
     loc_offset (image_layout nm nb) l' + loc_size l' \<le> loc_offset (image_layout nm nb) l) \<and>
    lo_main (image_layout nm nb) = CalculateHeaderSize nm nb"
  using loc_fits [OF assms(1-3)] loc_disjoint [OF assms] image_layout_order(8) [OF assms(1,2)] by blast

theorem image_layout_sound_witness:
  "loc_offset (image_layout 8 8) (MainB 3) + 1 \<le> CalculateFileSize 8 8"
  using image_layout_sound [of 8 8 "MainB 3" HEpoch] by (simp add: geometry)

end
