(* ===== verification/Commit.thy ===== *)
theory Commit
  imports Checkpoint
begin

text \<open>
  The commit protocol of the segment states. The epoch selects one of two copies of the state
  array; an update writes the other copy, and \<^verbatim>\<open>commit_segment_state_update\<close> makes it
  current by one 8-byte store. The central fact is that at every crash point the states read
  through the durable epoch are all old or all new.
\<close>

subsection \<open>Bulk form of the two line loops\<close>

lemma nv_nt_nt_disjoint:
  assumes "dom F \<inter> dom G = {}"
  shows "nv_nt F (nv_nt G m) = nv_nt (G ++ F) m"
proof -
  have h: "F l = None \<or> G l = None" for l using assms by blast
  show ?thesis
  proof (rule nvm_eqI)
    fix l
    show "cur (nv_nt F (nv_nt G m)) l = cur (nv_nt (G ++ F) m) l"
      and "dur (nv_nt F (nv_nt G m)) l = dur (nv_nt (G ++ F) m) l"
      and "pend (nv_nt F (nv_nt G m)) l = pend (nv_nt (G ++ F) m) l"
      using h [of l] by (auto simp: map_add_def split: option.splits)
  qed simp
qed

lemma nv_nt_empty [simp]: "nv_nt Map.empty m = m"
  by (simp add: nv_nt_def)

definition dirty_flush :: "nat \<Rightarrow> (nat \<Rightarrow> bool) \<Rightarrow> iloc \<Rightarrow> bool" where
  "dirty_flush bi D l = (case l of SegSt c s \<Rightarrow> c = bi \<and> D (s div 64) | _ \<Rightarrow> False)"

definition dirty_copy :: "imem \<Rightarrow> nat \<Rightarrow> (nat \<Rightarrow> bool) \<Rightarrow> iloc \<rightharpoonup> nat" where
  "dirty_copy m bi D l = (case l of
       SegSt c s \<Rightarrow> if c = other bi \<and> D (s div 64) then Some (cur m (SegSt bi s)) else None
     | _ \<Rightarrow> None)"

lemma dirty_flush_none [simp]: "dirty_flush bi (\<lambda>_. False) = (\<lambda>_. False)"
  by (auto simp: dirty_flush_def fun_eq_iff split: iloc.splits)

lemma dirty_copy_none [simp]: "dirty_copy m bi (\<lambda>_. False) = Map.empty"
  by (auto simp: dirty_copy_def fun_eq_iff split: iloc.splits)

lemma fold_flush_dirty_line:
  "fold (flush_dirty_line bi) ks im =
     nv_upd (nv_flush (dirty_flush bi (\<lambda>k. k \<in> set ks \<and> segment_state_dirty im k))) im"
proof (induction ks arbitrary: im)
  case Nil
  then show ?case by (simp add: nv_upd_def)
next
  case (Cons k ks)
  have "nv (flush_dirty_line bi k im) = nv_flush (dirty_flush bi (\<lambda>j. j = k \<and> segment_state_dirty im k)) (nv im)"
    by (auto simp: flush_dirty_line_def dirty_flush_def nv_flush_def fun_eq_iff split: iloc.splits)
  moreover have "flush_dirty_line bi k im = im\<lparr>nv := nv (flush_dirty_line bi k im)\<rparr>"
    by (simp add: flush_dirty_line_def nv_upd_def)
  ultimately have step: "flush_dirty_line bi k im =
      nv_upd (nv_flush (dirty_flush bi (\<lambda>j. j = k \<and> segment_state_dirty im k))) im"
    by (simp add: nv_upd_def)
  have union: "(\<lambda>l. dirty_flush bi (\<lambda>j. j \<in> set ks \<and> segment_state_dirty im j) l \<or>
          dirty_flush bi (\<lambda>j. j = k \<and> segment_state_dirty im k) l)
      = dirty_flush bi (\<lambda>j. j \<in> set (k # ks) \<and> segment_state_dirty im j)"
    by (auto simp: dirty_flush_def fun_eq_iff split: iloc.splits)
  show ?case
    unfolding fold_simps step Cons.IH
    by (simp add: nv_upd_def nv_flush_flush union del: list.set)
qed

lemma copy_dirty_line_bulk:
  assumes "bi < 2"
  shows "copy_dirty_line bi k im =
    (nv_upd (nv_nt (dirty_copy (nv im) bi (\<lambda>j. j = k \<and> segment_state_dirty im k))) im)
      \<lparr>segment_state_dirty := (\<lambda>j. segment_state_dirty im j \<and> j \<noteq> k)\<rparr>"
proof (cases "segment_state_dirty im k")
  case True
  have eq: "(\<lambda>l. case state_line_at (other bi) (64 * k) l of None \<Rightarrow> None
          | Some i \<Rightarrow> if i < 64 then Some (cur (nv im) (SegSt bi (64 * k + i))) else None)
        = dirty_copy (nv im) bi (\<lambda>j. j = k \<and> segment_state_dirty im k)"
  proof
    fix l
    have "64 * k \<le> s \<and> s - 64 * k < 64 \<longleftrightarrow> s div 64 = k" for s
      using div_mult_range [of 64 k s] by (auto simp: algebra_simps)
    then show "(case state_line_at (other bi) (64 * k) l of None \<Rightarrow> None
          | Some i \<Rightarrow> if i < 64 then Some (cur (nv im) (SegSt bi (64 * k + i))) else None)
        = dirty_copy (nv im) bi (\<lambda>j. j = k \<and> segment_state_dirty im k) l"
      using True by (cases l) (auto simp: dirty_copy_def)
  qed
  have "(segment_state_dirty im)(k := False) = (\<lambda>j. segment_state_dirty im j \<and> j \<noteq> k)"
    by (auto simp: fun_eq_iff)
  with True show ?thesis
    unfolding copy_dirty_line_def NonTemporalCopy_def nv_upd_def eq by simp
next
  case False
  then have "(\<lambda>j. segment_state_dirty im j \<and> j \<noteq> k) = segment_state_dirty im" by auto
  with False show ?thesis by (simp add: copy_dirty_line_def nv_upd_def)
qed

lemma fold_copy_dirty_line:
  assumes "bi < 2" and "distinct ks"
  shows "fold (copy_dirty_line bi) ks im =
    (nv_upd (nv_nt (dirty_copy (nv im) bi (\<lambda>k. k \<in> set ks \<and> segment_state_dirty im k))) im)
      \<lparr>segment_state_dirty := (\<lambda>k. segment_state_dirty im k \<and> k \<notin> set ks)\<rparr>"
  using assms(2)
proof (induction ks arbitrary: im)
  case Nil
  then show ?case by (simp add: nv_upd_def)
next
  case (Cons k ks)
  let ?D = "segment_state_dirty im"
  let ?A = "\<lambda>j. j = k \<and> ?D k" and ?B = "\<lambda>j. j \<in> set ks \<and> (?D j \<and> j \<noteq> k)"
  have cur_same: "dirty_copy (nv_nt (dirty_copy (nv im) bi ?A) (nv im)) bi ?B = dirty_copy (nv im) bi ?B"
    using assms(1) by (auto simp: dirty_copy_def fun_eq_iff other_def less_2_cases_iff split: iloc.splits)
  have disj: "dom (dirty_copy (nv im) bi ?B) \<inter> dom (dirty_copy (nv im) bi ?A) = {}"
    by (auto simp: dirty_copy_def split: iloc.splits if_splits)
  have union: "dirty_copy (nv im) bi ?A ++ dirty_copy (nv im) bi ?B
      = dirty_copy (nv im) bi (\<lambda>j. j \<in> set (k # ks) \<and> ?D j)"
    using Cons.prems by (auto simp: dirty_copy_def map_add_def fun_eq_iff split: iloc.splits option.splits)
  show ?case
    using Cons.prems
    by (simp add: copy_dirty_line_bulk [OF assms(1), of k im] Cons.IH cur_same
        nv_nt_nt_disjoint [OF disj] union nv_upd_def conj_assoc)
qed

subsection \<open>The commit in one equation\<close>

definition valid_dirty :: "image \<Rightarrow> nat \<Rightarrow> bool" where
  "valid_dirty im k \<longleftrightarrow> k < (rd im HNrMain + 63) div 64 \<and> segment_state_dirty im k"

lemma commit_epoch_eq:
  "commit_epoch im = nv_upd (\<lambda>m. nv_fence (nv_nt [HEpoch \<mapsto> next_epoch (rd im HEpoch)]
      (nv_fence (nv_flush (dirty_flush (next_epoch (rd im HEpoch) mod 2) (valid_dirty im)) m)))) im"
  by (simp add: commit_epoch_def Let_def fold_flush_dirty_line state_lines_def nv_upd_def
      valid_dirty_def [abs_def] atLeast0LessThan)

lemma commit_segment_state_update_eq:
  "commit_segment_state_update im =
    (let ne = next_epoch (rd im HEpoch); bi = ne mod 2;
         m1 = nv_fence (nv_nt [HEpoch \<mapsto> ne] (nv_fence (nv_flush (dirty_flush bi (valid_dirty im)) (nv im))))
     in im\<lparr>nv := nv_nt (dirty_copy m1 bi (valid_dirty im)) m1,
           segment_state_dirty := (\<lambda>k. segment_state_dirty im k \<and> \<not> valid_dirty im k),
           state_update := False\<rparr>)"
proof -
  define ne where "ne = next_epoch (rd im HEpoch)"
  define m1 where "m1 = nv_fence (nv_nt [HEpoch \<mapsto> ne]
      (nv_fence (nv_flush (dirty_flush (ne mod 2) (valid_dirty im)) (nv im))))"
  have ce: "commit_epoch im = im\<lparr>nv := m1\<rparr>"
    by (simp add: commit_epoch_eq m1_def ne_def nv_upd_def)
  have ep: "rd (im\<lparr>nv := m1\<rparr>) HEpoch = ne" and nm: "rd (im\<lparr>nv := m1\<rparr>) HNrMain = rd im HNrMain"
    by (simp_all add: rd_def m1_def)
  have vd: "(\<lambda>k. k \<in> set (state_lines (im\<lparr>nv := m1\<rparr>)) \<and> segment_state_dirty im k) = valid_dirty im"
    by (simp add: state_lines_def nm valid_dirty_def fun_eq_iff)
  have "(\<lambda>k. segment_state_dirty im k \<and> k \<notin> set (state_lines (im\<lparr>nv := m1\<rparr>)))
      = (\<lambda>k. segment_state_dirty im k \<and> \<not> valid_dirty im k)"
    by (auto simp: state_lines_def nm valid_dirty_def fun_eq_iff)
  moreover have "ne mod 2 < 2" "distinct (state_lines (im\<lparr>nv := m1\<rparr>))"
    by (simp_all add: state_lines_def)
  ultimately show ?thesis
    by (simp add: commit_segment_state_update_def copy_dirty_lines_def ce ep fold_copy_dirty_line vd
        nv_upd_def Let_def flip: ne_def m1_def)
qed


subsection \<open>Invariants of the header and of the two copies\<close>

definition active :: "image \<Rightarrow> nat" where
  "active im = rd im HEpoch mod 2"

definition hdr_ok :: "image \<Rightarrow> bool" where
  "hdr_ok im \<longleftrightarrow> rd im HEpoch < 2 ^ 32 \<and> quiet (nv im) HEpoch \<and> quiet (nv im) HMagic
     \<and> quiet (nv im) HNrMain \<and> quiet (nv im) HNrBack \<and> (\<forall>i. quiet (nv im) (B2M i))"

text \<open>
  \<open>upd_ok im tgt\<close>: the current copy is durable, the other copy reads \<open>tgt\<close>, and its
  entries not covered by a dirty line will be durable after the next fence.
\<close>

definition upd_ok :: "image \<Rightarrow> (nat \<Rightarrow> nat) \<Rightarrow> bool" where
  "upd_ok im tgt \<longleftrightarrow>
     (\<forall>s < rd im HNrMain. quiet (nv im) (SegSt (active im) s) \<and>
        rd im (SegSt (other (active im)) s) = tgt s \<and>
        (segment_state_dirty im (s div 64) \<or> settled (nv im) (SegSt (other (active im)) s))) \<and>
     (\<forall>k. segment_state_dirty im k \<longrightarrow> k < (rd im HNrMain + 63) div 64)"

definition synced :: "image \<Rightarrow> bool" where
  "synced im \<longleftrightarrow> upd_ok im (get_segment_state im) \<and> (\<forall>k. \<not> segment_state_dirty im k)"

text \<open>The segment state read from a durable image.\<close>

definition pst :: "(iloc \<Rightarrow> nat) \<Rightarrow> nat \<Rightarrow> nat" where
  "pst pm s = pm (SegSt (pm HEpoch mod 2) s)"

fun is_data_cell :: "iloc \<Rightarrow> bool" where
  "is_data_cell (MainB _) = True"
| "is_data_cell (BackB _) = True"
| "is_data_cell _ = False"

fun is_state_cell :: "iloc \<Rightarrow> bool" where
  "is_state_cell (SegSt _ _) = True"
| "is_state_cell HEpoch = True"
| "is_state_cell _ = False"

lemma active_lt: "active im < 2"
  by (simp add: active_def)

lemma active_neq [simp]: "other (active im) \<noteq> active im" "active im \<noteq> other (active im)"
  "other (other (active im)) = active im" "other (active im) < 2"
  by (simp_all add: active_def)

lemma get_segment_state_active: "get_segment_state im s = rd im (SegSt (active im) s)"
  by (simp add: get_segment_state_def active_def)

lemma next_epoch_parity: "e < 2 ^ 32 \<Longrightarrow> next_epoch e mod 2 = other (e mod 2)"
  unfolding next_epoch_def other_def by (simp add: mod_mod_cancel) presburger

lemma next_epoch_lt [simp]: "next_epoch e < 4294967296"
  by (simp add: next_epoch_def)

lemma set_segment_state_ok:
  assumes "state_update im" and "upd_ok im tgt" and "s < rd im HNrMain"
  obtains im' where "set_segment_state s st im = Some im'" "state_update im'" "upd_ok im' (tgt(s := st))"
    "main_to_back im' = main_to_back im" "hist (nv im') = hist (nv im)"
    "\<And>l. l \<noteq> SegSt (other (active im)) s \<Longrightarrow> rd im' l = rd im l \<and> dur (nv im') l = dur (nv im) l
            \<and> pend (nv im') l = pend (nv im) l"
proof (cases "rd im (SegSt (other (active im)) s) = st")
  case True
  then have same: "tgt(s := st) = tgt" using assms(2,3) by (auto simp: upd_ok_def)
  show ?thesis
    using True assms by (intro that [of im]) (auto simp: set_segment_state_def active_def same)
next
  case False
  define im' where "im' = (nv_upd (nv_store [SegSt (other (active im)) s \<mapsto> st]) im)
      \<lparr>segment_state_dirty := (segment_state_dirty im)(s div 64 := True)\<rparr>"
  have rds: "rd im' l = (if l = SegSt (other (active im)) s then st else rd im l)" for l
    by (simp add: im'_def rd_def)
  then have act: "active im' = active im" by (simp add: active_def)
  have nm: "rd im' HNrMain = rd im HNrMain" by (simp add: rds)
  have "s div 64 < (rd im HNrMain + 63) div 64" using assms(3) by simp
  then have "upd_ok im' (tgt(s := st))"
    using assms(2) unfolding upd_ok_def act nm rds by (auto simp: im'_def)
  then show ?thesis
    using False assms(1)
    by (intro that [of im']) (auto simp: set_segment_state_def im'_def rd_def active_def)
qed


text \<open>Entries in clean lines agree with the current copy; false only after a restart.\<close>

definition mirrored :: "image \<Rightarrow> (nat \<Rightarrow> nat) \<Rightarrow> bool" where
  "mirrored im tgt \<longleftrightarrow> (\<forall>s < rd im HNrMain. segment_state_dirty im (s div 64) \<or> tgt s = get_segment_state im s)"

lemma mirrored_set:
  assumes "mirrored im tgt" and "upd_ok im tgt" and "s < rd im HNrMain"
    and "set_segment_state s st im = Some im'"
  shows "mirrored im' (tgt(s := st))"
proof (cases "rd im (SegSt (other (active im)) s) = st")
  case True
  then have "tgt(s := st) = tgt" using assms(2,3) by (auto simp: upd_ok_def)
  with True assms show ?thesis
    by (auto simp: set_segment_state_def active_def Let_def split: if_splits)
next
  case False
  then have im': "im' = (nv_upd (nv_store [SegSt (other (active im)) s \<mapsto> st]) im)
      \<lparr>segment_state_dirty := (segment_state_dirty im)(s div 64 := True)\<rparr>"
    using assms(4) by (auto simp: set_segment_state_def active_def Let_def split: if_splits)
  have "rd im' l = (if l = SegSt (other (active im)) s then st else rd im l)" for l
    by (simp add: im' rd_def)
  moreover from this have "active im' = active im" by (simp add: active_def)
  ultimately show ?thesis
    using assms(1) by (auto simp: mirrored_def get_segment_state_active im')
qed

lemma begin_ok:
  assumes "synced im"
  shows "upd_ok (begin_segment_state_update im) (get_segment_state im)"
    and "mirrored (begin_segment_state_update im) (get_segment_state im)"
    and "state_update (begin_segment_state_update im)"
  using assms
  by (auto simp add: synced_def begin_segment_state_update_def upd_ok_def mirrored_def active_def
      rd_def get_segment_state_def)

subsection \<open>What the commit does\<close>

lemma commit_frame:
  assumes "\<not> is_state_cell l"
  shows "rd (commit_segment_state_update im) l = rd im l"
    and "settled (nv im) l \<Longrightarrow> quiet (nv (commit_segment_state_update im)) l"
  using assms
  by (cases l; simp add: commit_segment_state_update_eq Let_def rd_def dirty_copy_def dirty_flush_def)+

lemma commit_main_to_back [simp]:
  "main_to_back (commit_segment_state_update im) = main_to_back im"
  "state_update (commit_segment_state_update im) = False"
  by (simp_all add: commit_segment_state_update_eq Let_def)

lemma commit_epoch_cells:
  assumes "hdr_ok im"
  shows "rd (commit_segment_state_update im) HEpoch = next_epoch (rd im HEpoch)"
    and "active (commit_segment_state_update im) = other (active im)"
    and "hdr_ok (commit_segment_state_update im)"
proof -
  show ep: "rd (commit_segment_state_update im) HEpoch = next_epoch (rd im HEpoch)"
    by (simp add: commit_segment_state_update_eq Let_def rd_def dirty_copy_def)
  then show "active (commit_segment_state_update im) = other (active im)"
    using assms by (simp add: active_def hdr_ok_def next_epoch_parity)
  have "quiet (nv (commit_segment_state_update im)) HEpoch"
    by (simp add: commit_segment_state_update_eq Let_def dirty_copy_def)
  then show "hdr_ok (commit_segment_state_update im)"
    using assms ep by (auto simp: hdr_ok_def quiet_settled intro!: commit_frame(2))
qed

text \<open>The new states are current and durable; with mirrored entries both copies agree again.\<close>

lemma commit_states:
  assumes hdr: "hdr_ok im" and upd: "upd_ok im tgt" and s: "s < rd im HNrMain"
  defines "c \<equiv> commit_segment_state_update im"
  shows "get_segment_state c s = tgt s"
    and "quiet (nv c) (SegSt (active c) s)" and "settled (nv c) (SegSt (other (active c)) s)"
    and "mirrored im tgt \<Longrightarrow> rd c (SegSt (other (active c)) s) = tgt s"
proof -
  note act = commit_epoch_cells(2) [OF hdr, folded c_def]
  have bi: "next_epoch (rd im HEpoch) mod 2 = other (active im)"
    using hdr by (simp add: active_def hdr_ok_def next_epoch_parity)
  have line: "segment_state_dirty im (s div 64) \<Longrightarrow> valid_dirty im (s div 64)"
    using s by (simp add: valid_dirty_def)
  have u: "quiet (nv im) (SegSt (active im) s)" "rd im (SegSt (other (active im)) s) = tgt s"
    "segment_state_dirty im (s div 64) \<or> settled (nv im) (SegSt (other (active im)) s)"
    using upd s by (auto simp: upd_ok_def valid_dirty_def)
  show "get_segment_state c s = tgt s"
    using u(2) unfolding get_segment_state_active act
    by (simp add: c_def commit_segment_state_update_eq Let_def rd_def dirty_copy_def bi bi [unfolded rd_def])
  show "quiet (nv c) (SegSt (active c) s)"
    using u(3) line unfolding act
    by (auto simp add: c_def commit_segment_state_update_eq Let_def dirty_copy_def dirty_flush_def bi)
  show "settled (nv c) (SegSt (other (active c)) s)"
    using u(1) unfolding act
    by (cases "valid_dirty im (s div 64)")
       (auto simp add: c_def commit_segment_state_update_eq Let_def dirty_copy_def dirty_flush_def bi quiet_settled)
  show "rd c (SegSt (other (active c)) s) = tgt s" if "mirrored im tgt"
    using that u(2) s line unfolding act mirrored_def get_segment_state_active
    by (auto simp add: c_def commit_segment_state_update_eq Let_def rd_def dirty_copy_def bi bi [unfolded rd_def])
qed

lemma commit_clean: "upd_ok im tgt \<Longrightarrow> \<not> segment_state_dirty (commit_segment_state_update im) k"
  by (auto simp: upd_ok_def valid_dirty_def commit_segment_state_update_eq Let_def)

lemma commit_synced:
  assumes "hdr_ok im" and "upd_ok im tgt" and "mirrored im tgt"
  shows "synced (commit_segment_state_update im)"
proof -
  have nm: "rd (commit_segment_state_update im) HNrMain = rd im HNrMain"
    by (rule commit_frame) simp
  show ?thesis
    using commit_states [OF assms(1,2)] commit_clean [OF assms(2)] assms(3)
    by (auto simp: synced_def upd_ok_def nm)
qed

subsection \<open>Atomicity\<close>

text \<open>
  Every image a crash inside the commit can leave is one from before the commit began, or reads
  either the old states everywhere or the new states everywhere, with all settled data durable.
\<close>

lemma commit_atomic:
  assumes hdr: "hdr_ok im" and upd: "upd_ok im tgt"
    and pm: "pm \<in> crash_images (nv (commit_segment_state_update im))"
    and s: "s < rd im HNrMain"
  shows "pm \<in> crash_images (nv im) \<or>
     (pm HEpoch = rd im HEpoch \<and> (\<forall>s < rd im HNrMain. pst pm s = get_segment_state im s) \<or>
      pm HEpoch = next_epoch (rd im HEpoch) \<and> (\<forall>s < rd im HNrMain. pst pm s = tgt s)) \<and>
     (\<forall>l. \<not> is_state_cell l \<longrightarrow> pm l \<in> dur (nv_fence (nv im)) l)"
proof -
  define m0 where "m0 = nv_flush (dirty_flush (other (active im)) (valid_dirty im)) (nv im)"
  define m1 where "m1 = nv_fence m0"
  define m2 where "m2 = nv_nt [HEpoch \<mapsto> next_epoch (rd im HEpoch)] m1"
  define m3 where "m3 = nv_fence m2"
  define m4 where "m4 = nv_nt (dirty_copy m3 (other (active im)) (valid_dirty im)) m3"
  have bi: "next_epoch (rd im HEpoch) mod 2 = other (active im)"
    using hdr by (simp add: active_def hdr_ok_def next_epoch_parity)
  have nv4: "nv (commit_segment_state_update im) = m4"
    by (simp add: commit_segment_state_update_eq Let_def bi m0_def m1_def m2_def m3_def m4_def)
  have hist4: "hist m4 = dur m2 # dur m0 # hist (nv im)"
    by (simp add: m0_def m1_def m2_def m3_def m4_def)
  have cur1: "cur m1 = cur (nv im)" by (simp add: m1_def m0_def)
  have old1: "dur m1 (SegSt (active im) s) = {get_segment_state im s}"
    and new1: "dur m1 (SegSt (other (active im)) s) = {tgt s}" if "s < rd im HNrMain" for s
  proof -
    have u: "quiet (nv im) (SegSt (active im) s)" "rd im (SegSt (other (active im)) s) = tgt s"
      "segment_state_dirty im (s div 64) \<or> settled (nv im) (SegSt (other (active im)) s)"
      using upd that by (auto simp: upd_ok_def)
    have "quiet m1 (SegSt (active im) s)"
      using u(1) by (auto simp: m1_def m0_def dirty_flush_def quiet_settled)
    then show "dur m1 (SegSt (active im) s) = {get_segment_state im s}"
      by (simp add: quiet_durable cur1 get_segment_state_active rd_def)
    have "quiet m1 (SegSt (other (active im)) s)"
      using u(3) that by (auto simp: m1_def m0_def dirty_flush_def valid_dirty_def)
    then show "dur m1 (SegSt (other (active im)) s) = {tgt s}"
      using u(2) by (simp add: quiet_durable cur1 rd_def)
  qed
  have ep1: "dur m1 HEpoch = {rd im HEpoch}"
  proof -
    have "quiet m1 HEpoch" using hdr by (simp add: m1_def m0_def dirty_flush_def hdr_ok_def quiet_settled)
    then show ?thesis by (simp add: quiet_durable cur1 rd_def)
  qed
  have data: "dur m4 l = dur (nv_fence (nv im)) l" "dur m2 l = dur (nv_fence (nv im)) l" if "\<not> is_state_cell l" for l
  proof -
    have l: "l \<noteq> HEpoch" "\<not> dirty_flush bi D l" "dirty_copy m bi D l = None" for bi D m
      using that by (cases l; simp add: dirty_flush_def dirty_copy_def)+
    show "dur m2 l = dur (nv_fence (nv im)) l"
      by (simp add: m0_def m1_def m2_def l split: option.splits)
    moreover have "pend m2 l = None" by (simp add: m2_def m1_def l)
    ultimately show "dur m4 l = dur (nv_fence (nv im)) l"
      by (simp add: m3_def m4_def l)
  qed
  have m4st: "dur m4 (SegSt (other (active im)) s) = dur m1 (SegSt (other (active im)) s)" for s
    by (simp add: m2_def m3_def m4_def dirty_copy_def m1_def)
  have m2st: "dur m2 (SegSt c s) = dur m1 (SegSt c s)" for c s
    by (simp add: m2_def)
  have "dur m0 = dur (nv im)" by (simp add: m0_def)
  with pm hist4 consider "\<forall>l. pm l \<in> dur m4 l" | "\<forall>l. pm l \<in> dur m2 l" | "pm \<in> crash_images (nv im)"
    unfolding nv4 crash_images_def crash_points_def by (simp del: iloc.simps) blast
  then show ?thesis
  proof cases
    case 1
    have "dur m4 HEpoch = {next_epoch (rd im HEpoch)}"
      by (simp add: m2_def m3_def m4_def dirty_copy_def)
    with 1 have ep: "pm HEpoch = next_epoch (rd im HEpoch)" by auto
    have "\<forall>s < rd im HNrMain. pst pm s = tgt s"
    proof (intro allI impI)
      fix s assume "s < rd im HNrMain"
      with 1 m4st new1 have "pm (SegSt (other (active im)) s) = tgt s" by (metis singletonD)
      then show "pst pm s = tgt s" by (simp add: pst_def ep bi)
    qed
    with ep 1 data(1) show ?thesis by metis
  next
    case 2
    have "dur m2 HEpoch = {rd im HEpoch, next_epoch (rd im HEpoch)}"
      by (auto simp: m2_def ep1)
    with 2 have "pm HEpoch = rd im HEpoch \<or> pm HEpoch = next_epoch (rd im HEpoch)" by auto
    moreover have "pm (SegSt (other (active im)) s) = tgt s" "pm (SegSt (active im) s) = get_segment_state im s"
      if "s < rd im HNrMain" for s
      using 2 m2st old1 [OF that] new1 [OF that] by (metis singletonD)+
    ultimately have "pm HEpoch = rd im HEpoch \<and> (\<forall>s < rd im HNrMain. pst pm s = get_segment_state im s) \<or>
      pm HEpoch = next_epoch (rd im HEpoch) \<and> (\<forall>s < rd im HNrMain. pst pm s = tgt s)"
      by (auto simp: pst_def bi active_def [symmetric])
    with 2 data(2) show ?thesis by metis
  qed simp
qed


subsection \<open>The single-segment update\<close>

lemma set_segment_state_atomic_frame:
  fixes im :: image and s st :: nat
  defines "im' \<equiv> set_segment_state_atomic s st im"
  shows "main_to_back im' = main_to_back im" "segment_state_dirty im' = segment_state_dirty im"
    "state_update im' = state_update im"
    "(\<forall>c. l \<noteq> SegSt c s) \<Longrightarrow> rd im' l = rd im l"
    "(\<forall>c j. l \<noteq> SegSt c j) \<Longrightarrow> settled (nv im) l \<Longrightarrow> quiet (nv im') l"
  by (cases l; simp add: im'_def set_segment_state_atomic_def Let_def rd_def nv_upd_def)+

lemma set_segment_state_atomic_ok:
  fixes st :: nat
  assumes hdr: "hdr_ok im" and syn: "synced im" and s: "s < rd im HNrMain"
  defines "im' \<equiv> set_segment_state_atomic s st im"
  shows "hdr_ok im'" and "synced im'" and "get_segment_state im' = (get_segment_state im)(s := st)"
proof -
  let ?a = "active im" and ?b = "other (active im)"
  have rds: "rd im' l = (if l = SegSt ?a s \<or> l = SegSt ?b s then st else rd im l)" for l
    by (auto simp: im'_def set_segment_state_atomic_def Let_def rd_def nv_upd_def active_def)
  have act: "active im' = ?a" by (simp add: active_def rds)
  show hdr': "hdr_ok im'"
    using hdr unfolding hdr_ok_def rds
    by (auto simp: quiet_settled im'_def intro!: set_segment_state_atomic_frame(5))
  show gs: "get_segment_state im' = (get_segment_state im)(s := st)"
    by (auto simp: fun_eq_iff get_segment_state_active act rds)
  have q: "quiet (nv im) (SegSt ?a j)" "settled (nv im) (SegSt ?b j)"
      "rd im (SegSt ?b j) = get_segment_state im j" if "j < rd im HNrMain" for j
    using syn that by (auto simp: synced_def upd_ok_def)
  have "quiet (nv im') (SegSt ?a j)" "settled (nv im') (SegSt ?b j)" if "j < rd im HNrMain" for j
  proof -
    have e: "cur (nv im) HEpoch mod 2 = ?a" by (simp add: active_def rd_def)
    show "quiet (nv im') (SegSt ?a j)"
      using q(1) [OF that] by (cases "j = s")
        (auto simp: im'_def set_segment_state_atomic_def Let_def rd_def nv_upd_def e quiet_settled)
    show "settled (nv im') (SegSt ?b j)"
      using q(2) [OF that] by (cases "j = s")
        (auto simp: im'_def set_segment_state_atomic_def Let_def rd_def nv_upd_def e)
  qed
  moreover have "rd im' (SegSt ?b j) = get_segment_state im' j" if "j < rd im HNrMain" for j
    using q(3) [OF that] by (auto simp: rds gs)
  moreover have "segment_state_dirty im' = segment_state_dirty im"
    by (simp add: im'_def set_segment_state_atomic_frame)
  ultimately show "synced im'"
    using syn by (auto simp: synced_def upd_ok_def act rds)
qed

text \<open>A crash during the update sees the old or the new state of that segment and no other change.\<close>

lemma set_segment_state_atomic_crash:
  assumes hdr: "hdr_ok im" and syn: "synced im"
    and pm: "pm \<in> crash_images (nv (set_segment_state_atomic s st im))"
  shows "pm \<in> crash_images (nv im) \<or>
    pm HEpoch = rd im HEpoch \<and>
    (\<forall>j < rd im HNrMain. pst pm j = get_segment_state im j \<or> j = s \<and> pst pm j = st) \<and>
    (\<forall>l. \<not> is_state_cell l \<longrightarrow> pm l \<in> dur (nv im) l \<or> pm l \<in> dur (nv_fence (nv im)) l)"
proof -
  let ?a = "active im" and ?b = "other (active im)"
  have e: "cur (nv im) HEpoch mod 2 = ?a" by (simp add: active_def rd_def)
  define m1 where "m1 = nv_store [SegSt ?a s \<mapsto> st] (nv im)"
  define m2 where "m2 = nv_fence (nv_flush (state_line ?a s) m1)"
  define m3 where "m3 = nv_flush (state_line ?b s) (nv_store [SegSt ?b s \<mapsto> st] m2)"
  have nv3: "nv (set_segment_state_atomic s st im) = m3"
    by (simp add: set_segment_state_atomic_def Let_def rd_def nv_upd_def e m1_def m2_def m3_def)
  have hist3: "hist m3 = dur m1 # hist (nv im)"
    by (simp add: m1_def m2_def m3_def)
  have ep: "dur m1 HEpoch = {rd im HEpoch}" "dur m3 HEpoch = {rd im HEpoch}"
    using hdr by (auto simp: m1_def m2_def m3_def hdr_ok_def quiet_iff rd_def split: option.splits)
  have qa: "dur (nv im) (SegSt ?a j) = {get_segment_state im j}"
      "pend (nv im) (SegSt ?a j) = None \<or> pend (nv im) (SegSt ?a j) = Some {get_segment_state im j}"
    if "j < rd im HNrMain" for j
    using syn that by (auto simp: synced_def upd_ok_def quiet_iff get_segment_state_active rd_def)
  have st1: "dur m1 (SegSt ?a j) \<subseteq> {get_segment_state im j} \<union> (if j = s then {st} else {})"
    if "j < rd im HNrMain" for j
    using qa [OF that] by (auto simp: m1_def)
  have st3: "dur m3 (SegSt ?a j) \<subseteq> {get_segment_state im j} \<union> (if j = s then {st} else {})"
    if "j < rd im HNrMain" for j
  proof -
    have "quiet (nv im) (SegSt ?a j)" using syn that by (auto simp: synced_def upd_ok_def)
    then have "quiet m2 (SegSt ?a j)"
      by (cases "j = s") (simp_all add: m2_def m1_def quiet_settled)
    then have "dur m2 (SegSt ?a j) = {cur m2 (SegSt ?a j)}" by (rule quiet_durable)
    moreover have "dur m3 (SegSt ?a j) = dur m2 (SegSt ?a j)" by (simp add: m3_def)
    moreover have "cur m2 (SegSt ?a j) = (if j = s then st else get_segment_state im j)"
      by (simp add: m2_def m1_def get_segment_state_active rd_def)
    ultimately show ?thesis by simp
  qed
  have data1: "dur m1 l = dur (nv im) l" and data3: "dur m3 l = dur (nv_fence (nv im)) l"
    if "\<not> is_state_cell l" for l
    using that by (cases l; simp add: m1_def m2_def m3_def split: option.splits)+
  have key: "pm HEpoch = rd im HEpoch \<and>
      (\<forall>j < rd im HNrMain. pst pm j = get_segment_state im j \<or> j = s \<and> pst pm j = st)"
    if pd: "\<forall>l. pm l \<in> d l" and de: "d HEpoch = {rd im HEpoch}"
      and sub: "\<And>j. j < rd im HNrMain \<Longrightarrow> d (SegSt ?a j) \<subseteq> {get_segment_state im j} \<union> (if j = s then {st} else {})" for d
  proof -
    from spec [OF pd, of HEpoch] de have ep: "pm HEpoch = rd im HEpoch" by simp
    have "pst pm j = get_segment_state im j \<or> j = s \<and> pst pm j = st" if "j < rd im HNrMain" for j
    proof -
      have "pm (SegSt ?a j) \<in> {get_segment_state im j} \<union> (if j = s then {st} else {})"
        using spec [OF pd, of "SegSt ?a j"] sub [OF that] by blast
      then show ?thesis by (simp add: pst_def ep flip: active_def split: if_splits)
    qed
    with ep show ?thesis by blast
  qed
  from pm hist3 consider "\<forall>l. pm l \<in> dur m3 l" | "\<forall>l. pm l \<in> dur m1 l" | "pm \<in> crash_images (nv im)"
    unfolding nv3 crash_images_def crash_points_def by (simp del: iloc.simps) blast
  then show ?thesis
  proof cases
    case 1
    with key [OF 1 ep(2) st3] data3 show ?thesis by metis
  next
    case 2
    with key [OF 2 ep(1) st1] data1 show ?thesis by metis
  qed simp
qed

subsection \<open>Visibility\<close>

lemma commit_visible: "visible (nv im) \<Longrightarrow> visible (nv (commit_segment_state_update im))"
  by (simp add: commit_segment_state_update_eq Let_def)

lemma set_segment_state_visible:
  "set_segment_state s st im = Some im' \<Longrightarrow> visible (nv im) \<Longrightarrow> visible (nv im')"
  by (auto simp: set_segment_state_def Let_def split: if_splits)

lemma set_segment_state_atomic_visible: "visible (nv im) \<Longrightarrow> visible (nv (set_segment_state_atomic s st im))"
  by (simp add: set_segment_state_atomic_def Let_def)

end
