(* ===== verification/Recovery.thy ===== *)
theory Recovery
  imports Commit
begin

text \<open>
  What a restart restores. \<open>recovered_main\<close> is the specification: the main memory a
  durable image stands for, read from the back segment where the state of a bound segment says
  so. \<^verbatim>\<open>CheckpointImage::recovery\<close> produces exactly that memory, and a crash during
  the recovery itself loses nothing.
\<close>

subsection \<open>Offsets within a segment\<close>

lemma kSegmentSize_pos [simp]: "0 < kSegmentSize"
  by (simp add: geometry)

lemma segment_range:
  "n * kSegmentSize \<le> x \<and> x - n * kSegmentSize < kSegmentSize \<longleftrightarrow> x div kSegmentSize = n"
proof -
  have "n * kSegmentSize \<le> x \<and> x - n * kSegmentSize < kSegmentSize
      \<longleftrightarrow> n * kSegmentSize \<le> x \<and> x < n * kSegmentSize + kSegmentSize" by auto
  then show ?thesis by (simp add: div_mult_range)
qed

lemma segment_offset: "x div kSegmentSize = n \<Longrightarrow> x - n * kSegmentSize = x mod kSegmentSize"
  by (metis minus_div_mult_eq_mod)

lemma segment_join [simp]:
  "(n * kSegmentSize + x mod kSegmentSize) div kSegmentSize = n"
  "(n * kSegmentSize + x mod kSegmentSize) mod kSegmentSize = x mod kSegmentSize"
  by simp_all

subsection \<open>The memory a durable image stands for\<close>

definition bound_upto :: "nat \<Rightarrow> (iloc \<Rightarrow> nat) \<Rightarrow> nat \<Rightarrow> nat option" where
  "bound_upto n pm s = List.find (\<lambda>b. pm (B2M b) = s) [0..<n]"

definition main_upto :: "nat \<Rightarrow> (iloc \<Rightarrow> nat) \<Rightarrow> nat \<Rightarrow> nat" where
  "main_upto n pm x =
     (let s = x div kSegmentSize in
      if pst pm s = SS_Back
      then (case bound_upto n pm s of
              Some b \<Rightarrow> pm (BackB (b * kSegmentSize + x mod kSegmentSize))
            | None \<Rightarrow> pm (MainB x))
      else pm (MainB x))"

definition recovered_main :: "(iloc \<Rightarrow> nat) \<Rightarrow> nat \<Rightarrow> nat" where
  "recovered_main pm = main_upto (pm HNrBack) pm"

definition back_upto :: "nat \<Rightarrow> (iloc \<Rightarrow> nat) \<Rightarrow> nat \<Rightarrow> nat" where
  "back_upto n pm x =
     (let b = x div kSegmentSize; s = pm (B2M b) in
      if b < n \<and> s \<noteq> kNullSegmentIndex \<and> pst pm s = SS_Main
      then pm (MainB (s * kSegmentSize + x mod kSegmentSize)) else pm (BackB x))"

definition img_valid :: "(iloc \<Rightarrow> nat) \<Rightarrow> bool" where
  "img_valid pm \<longleftrightarrow> pm HMagic = kMetadataV2Magic \<and> pm HEpoch < 2 ^ 32 \<and> pm HNrMain < kNullSegmentIndex
     \<and> (\<forall>b < pm HNrBack. pm (B2M b) = kNullSegmentIndex \<or> pm (B2M b) < pm HNrMain)
     \<and> (\<forall>b < pm HNrBack. \<forall>b' < pm HNrBack. pm (B2M b) = pm (B2M b') \<and> pm (B2M b) \<noteq> kNullSegmentIndex \<longrightarrow> b = b')"

lemma find_append: "List.find P (xs @ ys) = (case List.find P xs of None \<Rightarrow> List.find P ys | Some x \<Rightarrow> Some x)"
  by (induction xs) auto

lemma bound_upto_Suc:
  "bound_upto (Suc n) pm s =
     (case bound_upto n pm s of None \<Rightarrow> if pm (B2M n) = s then Some n else None | Some b \<Rightarrow> Some b)"
  by (simp add: bound_upto_def find_append split: option.splits)

lemma bound_upto_Some: "bound_upto n pm s = Some b \<Longrightarrow> b < n \<and> pm (B2M b) = s"
  by (auto simp: bound_upto_def find_Some_iff)

lemma bound_upto_None: "bound_upto n pm s = None \<longleftrightarrow> (\<forall>b < n. pm (B2M b) \<noteq> s)"
  by (auto simp: bound_upto_def find_None_iff)

lemma bound_unique:
  assumes "img_valid pm" and "n \<le> pm HNrBack" and "b < n" and "pm (B2M b) = s" and "s \<noteq> kNullSegmentIndex"
  shows "bound_upto n pm s = Some b"
proof -
  have "bound_upto n pm s \<noteq> None" using assms(3,4) by (auto simp: bound_upto_None)
  then obtain b' where b': "bound_upto n pm s = Some b'" by blast
  then have "b' < n" "pm (B2M b') = s" using bound_upto_Some by auto
  moreover have "b < pm HNrBack" "b' < pm HNrBack" using assms(2,3) \<open>b' < n\<close> by auto
  ultimately have "b' = b" using assms(1,4,5) unfolding img_valid_def by metis
  with b' show ?thesis by simp
qed

lemma main_upto_0 [simp]: "main_upto 0 pm x = pm (MainB x)"
  by (simp add: main_upto_def Let_def bound_upto_def)

lemma back_upto_0 [simp]: "back_upto 0 pm x = pm (BackB x)"
  by (simp add: back_upto_def Let_def)

lemma main_upto_Suc:
  assumes "img_valid pm" and "n < pm HNrBack" and "x div kSegmentSize \<noteq> kNullSegmentIndex"
  shows "main_upto (Suc n) pm x =
    (if pm (B2M n) = x div kSegmentSize \<and> pst pm (x div kSegmentSize) = SS_Back
     then pm (BackB (n * kSegmentSize + x mod kSegmentSize)) else main_upto n pm x)"
proof (cases "pm (B2M n) = x div kSegmentSize")
  case True
  then have "bound_upto (Suc n) pm (x div kSegmentSize) = Some n"
    using bound_unique [OF assms(1), of "Suc n" n "x div kSegmentSize"] assms(2,3) by simp
  with True show ?thesis by (auto simp: main_upto_def Let_def)
next
  case False
  then show ?thesis by (auto simp: main_upto_def Let_def bound_upto_Suc split: option.splits)
qed

text \<open>A segment not bound below \<open>n\<close> still shows the main memory of the image.\<close>

lemma main_upto_fresh:
  assumes "img_valid pm" and "n < pm HNrBack" and "pm (B2M n) = x div kSegmentSize"
    and "x div kSegmentSize \<noteq> kNullSegmentIndex"
  shows "main_upto n pm x = pm (MainB x)"
proof -
  have "pm (B2M b) \<noteq> x div kSegmentSize" if "b < n" for b
    using assms that unfolding img_valid_def by (metis less_trans less_irrefl)
  then have "bound_upto n pm (x div kSegmentSize) = None" by (auto simp: bound_upto_None)
  then show ?thesis by (simp add: main_upto_def Let_def)
qed

lemma back_upto_Suc:
  "back_upto (Suc n) pm x =
    (if x div kSegmentSize = n \<and> pm (B2M n) \<noteq> kNullSegmentIndex \<and> pst pm (pm (B2M n)) = SS_Main
     then pm (MainB (pm (B2M n) * kSegmentSize + x mod kSegmentSize)) else back_upto n pm x)"
  by (auto simp: back_upto_def Let_def less_Suc_eq)

subsection \<open>The recovery loop\<close>

text \<open>The segment states \<^verbatim>\<open>recovery\<close> writes while it has handled \<open>n\<close> back segments.\<close>

fun rec_states :: "nat \<Rightarrow> nat \<Rightarrow> (iloc \<Rightarrow> nat) \<Rightarrow> nat \<Rightarrow> nat" where
  "rec_states to_state 0 pm s = pm (SegSt (other (pm HEpoch mod 2)) s)"
| "rec_states to_state (Suc n) pm s =
     (if pm (B2M n) = s \<and> s \<noteq> kNullSegmentIndex \<and> pst pm s \<noteq> SS_Initial \<and> pst pm s \<noteq> to_state
      then to_state else rec_states to_state n pm s)"

definition rec_hdr :: "nat \<Rightarrow> (iloc \<Rightarrow> nat) \<Rightarrow> nat \<Rightarrow> image \<Rightarrow> bool" where
  "rec_hdr to_state pm n im \<longleftrightarrow> state_update im \<and> hist (nv im) = [] \<and> upd_ok im (rec_states to_state n pm) \<and>
     (\<forall>l. \<not> is_data_cell l \<and> (\<forall>s. l \<noteq> SegSt (other (pm HEpoch mod 2)) s) \<longrightarrow> rd im l = pm l \<and> quiet (nv im) l)"

definition rec_data :: "(iloc \<Rightarrow> nat) \<Rightarrow> nat \<Rightarrow> image \<Rightarrow> bool" where
  "rec_data pm n im \<longleftrightarrow>
     (\<forall>x < pm HNrMain * kSegmentSize. rd im (MainB x) = main_upto n pm x) \<and>
     (\<forall>x. rd im (BackB x) = back_upto n pm x) \<and>
     (\<forall>l. is_data_cell l \<longrightarrow> settled (nv im) l \<and> rd im l \<in> dur (nv im) l \<and> dur (nv im) l \<subseteq> {pm l, rd im l})"

definition same_cells :: "(iloc \<Rightarrow> bool) \<Rightarrow> image \<Rightarrow> image \<Rightarrow> bool" where
  "same_cells A im im' \<longleftrightarrow> (\<forall>l. A l \<longrightarrow> rd im' l = rd im l \<and> dur (nv im') l = dur (nv im) l \<and> pend (nv im') l = pend (nv im) l)"

lemma same_cells_quiet:
  assumes "same_cells A im im'" and "A l"
  shows "rd im' l = rd im l" "quiet (nv im') l = quiet (nv im) l" "settled (nv im') l = settled (nv im) l"
  using assms by (auto simp: same_cells_def quiet_iff settled_iff rd_def)

lemma upd_ok_cong:
  assumes "same_cells (\<lambda>l. \<not> is_data_cell l) im im'" and "segment_state_dirty im' = segment_state_dirty im"
  shows "upd_ok im' tgt = upd_ok im tgt"
proof -
  note c = same_cells_quiet [OF assms(1)]
  show ?thesis by (simp add: upd_ok_def active_def c assms(2))
qed

lemma rec_hdr_cong:
  assumes "same_cells (\<lambda>l. \<not> is_data_cell l) im im'" and "segment_state_dirty im' = segment_state_dirty im"
    and "state_update im' = state_update im" and "hist (nv im') = hist (nv im)"
  shows "rec_hdr to_state pm n im' = rec_hdr to_state pm n im"
  using upd_ok_cong [OF assms(1,2)] same_cells_quiet [OF assms(1)] assms(3,4)
  by (auto simp: rec_hdr_def)

text \<open>The two copies of \<^verbatim>\<open>recovery\<close>, cell by cell.\<close>

definition copy_main_to_back :: "nat \<Rightarrow> nat \<Rightarrow> image \<Rightarrow> image" where
  "copy_main_to_back s b im = nv_upd (NonTemporalCopyWithWriteElimination
     (back_at (get_back_segment b)) (back_cell (get_back_segment b)) (main_cell (get_main_segment s)) kSegmentSize) im"

definition copy_back_to_main :: "nat \<Rightarrow> nat \<Rightarrow> image \<Rightarrow> image" where
  "copy_back_to_main s b im = nv_upd (NonTemporalCopyWithWriteElimination
     (main_at (get_main_segment s)) (main_cell (get_main_segment s)) (back_cell (get_back_segment b)) kSegmentSize) im"

lemma at_cells:
  "main_at base l = Some i \<Longrightarrow> main_cell base i = l" "back_at base l = Some i \<Longrightarrow> back_cell base i = l"
  by (cases l; auto simp: main_cell_def back_cell_def split: if_splits)+

lemma copy_main_to_back_cells:
  fixes im :: image and s b :: nat
  defines "im' \<equiv> copy_main_to_back s b im"
  shows "same_cells (\<lambda>l. \<forall>x. l \<noteq> BackB x \<or> x div kSegmentSize \<noteq> b) im im'"
    and "x div kSegmentSize = b \<Longrightarrow> rd im' (BackB x) = rd im (MainB (s * kSegmentSize + x mod kSegmentSize))"
    and "quiet (nv im) l \<Longrightarrow> settled (nv im') l \<and> rd im' l \<in> dur (nv im') l \<and> dur (nv im') l \<subseteq> {rd im l, rd im' l}"
    and "segment_state_dirty im' = segment_state_dirty im" "state_update im' = state_update im"
    and "main_to_back im' = main_to_back im" "hist (nv im') = hist (nv im)"
proof -
  show "same_cells (\<lambda>l. \<forall>x. l \<noteq> BackB x \<or> x div kSegmentSize \<noteq> b) im im'"
    unfolding same_cells_def
  proof (intro allI impI)
    fix l assume l: "\<forall>x. l \<noteq> BackB x \<or> x div kSegmentSize \<noteq> b"
    have "\<not> i < kSegmentSize" if "back_at (get_back_segment b) l = Some i" for i
      using l that segment_range [of b] by (cases l) (auto simp: get_back_segment_def split: if_splits)
    note fr = write_elimination_frame [where at = "back_at (get_back_segment b)" and l = l and len = kSegmentSize
        and m = "nv im", OF this]
    show "rd im' l = rd im l \<and> dur (nv im') l = dur (nv im) l \<and> pend (nv im') l = pend (nv im) l"
      unfolding im'_def copy_main_to_back_def rd_def nv_upd_simps by (intro conjI fr)
  qed
  show "rd im' (BackB x) = rd im (MainB (s * kSegmentSize + x mod kSegmentSize))" if "x div kSegmentSize = b"
    using that segment_range [of b x] segment_offset [of x b]
    by (simp add: im'_def copy_main_to_back_def rd_def write_elimination_cur [OF at_cells(2)]
        get_back_segment_def get_main_segment_def main_cell_def)
  show "settled (nv im') l \<and> rd im' l \<in> dur (nv im') l \<and> dur (nv im') l \<subseteq> {rd im l, rd im' l}"
    if "quiet (nv im) l"
    using write_elimination_settled [OF at_cells(2) that, where src = "main_cell (get_main_segment s)"]
    by (simp add: im'_def copy_main_to_back_def rd_def)
qed (simp_all add: im'_def copy_main_to_back_def)

lemma copy_back_to_main_cells:
  fixes im :: image and s b :: nat
  defines "im' \<equiv> copy_back_to_main s b im"
  shows "same_cells (\<lambda>l. \<forall>x. l \<noteq> MainB x \<or> x div kSegmentSize \<noteq> s) im im'"
    and "x div kSegmentSize = s \<Longrightarrow> rd im' (MainB x) = rd im (BackB (b * kSegmentSize + x mod kSegmentSize))"
    and "quiet (nv im) l \<Longrightarrow> settled (nv im') l \<and> rd im' l \<in> dur (nv im') l \<and> dur (nv im') l \<subseteq> {rd im l, rd im' l}"
    and "segment_state_dirty im' = segment_state_dirty im" "state_update im' = state_update im"
    and "main_to_back im' = main_to_back im" "hist (nv im') = hist (nv im)"
proof -
  show "same_cells (\<lambda>l. \<forall>x. l \<noteq> MainB x \<or> x div kSegmentSize \<noteq> s) im im'"
    unfolding same_cells_def
  proof (intro allI impI)
    fix l assume l: "\<forall>x. l \<noteq> MainB x \<or> x div kSegmentSize \<noteq> s"
    have "\<not> i < kSegmentSize" if "main_at (get_main_segment s) l = Some i" for i
      using l that segment_range [of s] by (cases l) (auto simp: get_main_segment_def split: if_splits)
    note fr = write_elimination_frame [where at = "main_at (get_main_segment s)" and l = l and len = kSegmentSize
        and m = "nv im", OF this]
    show "rd im' l = rd im l \<and> dur (nv im') l = dur (nv im) l \<and> pend (nv im') l = pend (nv im) l"
      unfolding im'_def copy_back_to_main_def rd_def nv_upd_simps by (intro conjI fr)
  qed
  show "rd im' (MainB x) = rd im (BackB (b * kSegmentSize + x mod kSegmentSize))" if "x div kSegmentSize = s"
    using that segment_range [of s x] segment_offset [of x s]
    by (simp add: im'_def copy_back_to_main_def rd_def write_elimination_cur [OF at_cells(1)]
        get_back_segment_def get_main_segment_def back_cell_def)
  show "settled (nv im') l \<and> rd im' l \<in> dur (nv im') l \<and> dur (nv im') l \<subseteq> {rd im l, rd im' l}"
    if "quiet (nv im) l"
    using write_elimination_settled [OF at_cells(1) that, where src = "back_cell (get_back_segment b)"]
    by (simp add: im'_def copy_back_to_main_def rd_def)
qed (simp_all add: im'_def copy_back_to_main_def)

lemma recover_segment_eq:
  "recover_segment to_state n im =
     (let s = rd im (B2M n); st = get_segment_state im s in
      if s = kNullSegmentIndex \<or> st = SS_Initial then Some im
      else let im1 = (if st = SS_Main then copy_main_to_back s n im
                      else if st = SS_Back then copy_back_to_main s n im else im)
           in if to_state \<noteq> st then set_segment_state s to_state im1 else Some im1)"
  by (simp add: recover_segment_def Let_def get_back_to_main_def get_segment_state_def
      copy_main_to_back_def copy_back_to_main_def)

text \<open>The copies of step \<open>n\<close>: from the state after \<open>n\<close> back segments to the one after \<open>n + 1\<close>.\<close>

lemma rec_data_frame:
  assumes "rec_data pm n im" and "same_cells is_data_cell im im'"
    and "\<And>x. x < pm HNrMain * kSegmentSize \<Longrightarrow> main_upto (Suc n) pm x = main_upto n pm x"
    and "\<And>x. back_upto (Suc n) pm x = back_upto n pm x"
  shows "rec_data pm (Suc n) im'"
  using assms by (simp add: rec_data_def same_cells_def settled_iff rd_def)

lemma rec_data_quiet:
  assumes "rec_data pm n im" and "is_data_cell l" and "rd im l = pm l"
  shows "quiet (nv im) l"
proof -
  have "settled (nv im) l" "pm l \<in> dur (nv im) l" "dur (nv im) l \<subseteq> {pm l}"
    using assms by (auto simp: rec_data_def)
  then show ?thesis using assms(3) by (auto simp: quiet_iff settled_iff rd_def)
qed

lemma div_lt_segments: "x < nm * kSegmentSize \<longleftrightarrow> x div kSegmentSize < nm"
  by (simp add: div_lt_mult_iff)

lemma step_main_to_back:
  assumes val: "img_valid pm" and n: "n < pm HNrBack" and dat: "rec_data pm n im"
    and s: "pm (B2M n) = s" "s \<noteq> kNullSegmentIndex" "pst pm s = SS_Main"
  shows "rec_data pm (Suc n) (copy_main_to_back s n im)"
proof -
  note c = copy_main_to_back_cells [where im = im and s = s and b = n]
  let ?im' = "copy_main_to_back s n im"
  have sn: "s < pm HNrMain" using val n s by (auto simp: img_valid_def)
  have fr: "rd ?im' l = rd im l \<and> settled (nv ?im') l = settled (nv im) l \<and> dur (nv ?im') l = dur (nv im) l"
    if "\<forall>x. l \<noteq> BackB x \<or> x div kSegmentSize \<noteq> n" for l
    using that c(1) same_cells_quiet [OF c(1), of l] by (simp add: same_cells_def)
  have m: "rd ?im' (MainB x) = main_upto (Suc n) pm x" if "x < pm HNrMain * kSegmentSize" for x
  proof -
    have "x div kSegmentSize \<noteq> kNullSegmentIndex"
      using that val by (auto simp: div_lt_segments img_valid_def)
    then have "main_upto (Suc n) pm x = main_upto n pm x"
      using main_upto_Suc [OF val n] s by auto
    with that dat fr [of "MainB x"] show ?thesis by (simp add: rec_data_def)
  qed
  have b: "rd ?im' (BackB x) = back_upto (Suc n) pm x" for x
  proof (cases "x div kSegmentSize = n")
    case True
    let ?y = "s * kSegmentSize + x mod kSegmentSize"
    have "main_upto n pm ?y = pm (MainB ?y)"
      using main_upto_fresh [OF val n] s by simp
    moreover have "?y < pm HNrMain * kSegmentSize" using sn by (simp add: div_lt_segments)
    ultimately show ?thesis
      using True s c(2) [OF True] dat by (simp add: back_upto_Suc rec_data_def)
  next
    case False
    then show ?thesis using fr [of "BackB x"] dat by (simp add: back_upto_Suc rec_data_def)
  qed
  have "settled (nv ?im') l \<and> rd ?im' l \<in> dur (nv ?im') l \<and> dur (nv ?im') l \<subseteq> {pm l, rd ?im' l}"
    if l: "is_data_cell l" for l
  proof (cases "\<exists>x. l = BackB x \<and> x div kSegmentSize = n")
    case True
    then obtain x where x: "l = BackB x" "x div kSegmentSize = n" by blast
    have "rd im l = pm l" using dat x by (simp add: rec_data_def back_upto_def Let_def)
    then show ?thesis using c(3) [OF rec_data_quiet [OF dat l]] by simp
  next
    case False
    then show ?thesis using fr [of l] dat l by (auto simp: rec_data_def)
  qed
  with m b show ?thesis by (simp add: rec_data_def)
qed

lemma step_back_to_main:
  assumes val: "img_valid pm" and n: "n < pm HNrBack" and dat: "rec_data pm n im"
    and s: "pm (B2M n) = s" "s \<noteq> kNullSegmentIndex" "pst pm s = SS_Back"
  shows "rec_data pm (Suc n) (copy_back_to_main s n im)"
proof -
  note c = copy_back_to_main_cells [where im = im and s = s and b = n]
  let ?im' = "copy_back_to_main s n im"
  have sn: "s < pm HNrMain" using val n s by (auto simp: img_valid_def)
  have fr: "rd ?im' l = rd im l \<and> settled (nv ?im') l = settled (nv im) l \<and> dur (nv ?im') l = dur (nv im) l"
    if "\<forall>x. l \<noteq> MainB x \<or> x div kSegmentSize \<noteq> s" for l
    using that c(1) same_cells_quiet [OF c(1), of l] by (simp add: same_cells_def)
  have m: "rd ?im' (MainB x) = main_upto (Suc n) pm x" if x: "x < pm HNrMain * kSegmentSize" for x
  proof -
    have nn: "x div kSegmentSize \<noteq> kNullSegmentIndex"
      using x val by (auto simp: div_lt_segments img_valid_def)
    show ?thesis
    proof (cases "x div kSegmentSize = s")
      case True
      then have "rd ?im' (MainB x) = back_upto n pm (n * kSegmentSize + x mod kSegmentSize)"
        using c(2) dat by (simp add: rec_data_def)
      also have "\<dots> = pm (BackB (n * kSegmentSize + x mod kSegmentSize))"
        by (simp add: back_upto_def Let_def)
      finally show ?thesis using True s main_upto_Suc [OF val n nn] by simp
    next
      case False
      then have "main_upto (Suc n) pm x = main_upto n pm x" using main_upto_Suc [OF val n nn] s by auto
      with False x dat fr [of "MainB x"] show ?thesis by (simp add: rec_data_def)
    qed
  qed
  have b: "rd ?im' (BackB x) = back_upto (Suc n) pm x" for x
    using fr [of "BackB x"] dat s by (simp add: back_upto_Suc rec_data_def)
  have "settled (nv ?im') l \<and> rd ?im' l \<in> dur (nv ?im') l \<and> dur (nv ?im') l \<subseteq> {pm l, rd ?im' l}"
    if l: "is_data_cell l" for l
  proof (cases "\<exists>x. l = MainB x \<and> x div kSegmentSize = s")
    case True
    then obtain x where x: "l = MainB x" "x div kSegmentSize = s" by blast
    have "main_upto n pm x = pm (MainB x)"
      using main_upto_fresh [OF val n] s x by simp
    then have "rd im l = pm l" using dat x sn by (simp add: rec_data_def div_lt_segments)
    then show ?thesis using c(3) [OF rec_data_quiet [OF dat l]] by simp
  next
    case False
    then show ?thesis using fr [of l] dat l by (auto simp: rec_data_def)
  qed
  with m b show ?thesis by (simp add: rec_data_def)
qed

lemma same_cells_mono: "same_cells A im im' \<Longrightarrow> (\<And>l. B l \<Longrightarrow> A l) \<Longrightarrow> same_cells B im im'"
  by (simp add: same_cells_def)

lemma copy_same_header:
  "same_cells (\<lambda>l. \<not> is_data_cell l) im (copy_main_to_back s n im)"
  "same_cells (\<lambda>l. \<not> is_data_cell l) im (copy_back_to_main s n im)"
  by (rule same_cells_mono [OF copy_main_to_back_cells(1)] same_cells_mono [OF copy_back_to_main_cells(1)]; auto)+

lemma rec_hdr_states: "rec_states t (Suc n) pm = rec_states t n pm \<Longrightarrow> rec_hdr t pm (Suc n) im = rec_hdr t pm n im"
  by (simp only: rec_hdr_def)

lemma rec_hdr_copy:
  "rec_hdr t pm n (copy_main_to_back s b im) = rec_hdr t pm n im"
  "rec_hdr t pm n (copy_back_to_main s b im) = rec_hdr t pm n im"
  by (rule rec_hdr_cong; simp add: copy_same_header copy_main_to_back_cells copy_back_to_main_cells)+

lemma rec_hdr_rd:
  assumes "rec_hdr t pm n im" and "\<not> is_data_cell l" and "\<And>s. l \<noteq> SegSt (other (pm HEpoch mod 2)) s"
  shows "rd im l = pm l" and "quiet (nv im) l"
  using assms by (auto simp: rec_hdr_def)

lemma rec_hdr_get:
  assumes "rec_hdr t pm n im"
  shows "rd im (B2M b) = pm (B2M b)" "rd im HNrMain = pm HNrMain" "rd im HNrBack = pm HNrBack"
    "rd im HEpoch = pm HEpoch" "rd im HMagic = pm HMagic" "active im = pm HEpoch mod 2"
    "get_segment_state im s = pst pm s" "hdr_ok im \<longleftrightarrow> pm HEpoch < 2 ^ 32"
  using rec_hdr_rd [OF assms] by (simp_all add: active_def get_segment_state_def Let_def pst_def hdr_ok_def)

lemma rec_hdr_set_state:
  assumes hdr: "rec_hdr t pm n im" and s: "s = pm (B2M n)" "s < pm HNrMain" "s \<noteq> kNullSegmentIndex"
    and st: "pst pm s \<noteq> SS_Initial" "pst pm s \<noteq> t"
  obtains im' where "set_segment_state s t im = Some im'" "rec_hdr t pm (Suc n) im'"
    "same_cells is_data_cell im im'"
proof -
  note g = rec_hdr_get [OF hdr]
  have "state_update im" "upd_ok im (rec_states t n pm)" "s < rd im HNrMain"
    using hdr s g by (auto simp: rec_hdr_def)
  then obtain im' where im': "set_segment_state s t im = Some im'" "state_update im'"
      "upd_ok im' ((rec_states t n pm)(s := t))" "main_to_back im' = main_to_back im" "hist (nv im') = hist (nv im)"
    and fr: "\<And>l. l \<noteq> SegSt (other (active im)) s \<Longrightarrow> rd im' l = rd im l \<and> dur (nv im') l = dur (nv im) l
            \<and> pend (nv im') l = pend (nv im) l"
    by (rule set_segment_state_ok [where st = t]) blast
  have tgt: "(rec_states t n pm)(s := t) = rec_states t (Suc n) pm"
    using s st by (auto simp: fun_eq_iff)
  have sc: "same_cells (\<lambda>l. l \<noteq> SegSt (other (active im)) s) im im'"
    using fr by (simp add: same_cells_def)
  note q = same_cells_quiet [OF this]
  have "rec_hdr t pm (Suc n) im'"
    using hdr im' q g(6) unfolding rec_hdr_def tgt by auto
  moreover have "same_cells is_data_cell im im'"
    by (rule same_cells_mono [OF sc]) auto
  ultimately show ?thesis using im'(1) that by blast
qed

lemma recover_segment_step:
  assumes val: "img_valid pm" and n: "n < pm HNrBack"
    and hdr: "rec_hdr t pm n im" and dat: "rec_data pm n im"
  obtains im' where "recover_segment t n im = Some im'" "rec_hdr t pm (Suc n) im'" "rec_data pm (Suc n) im'"
proof -
  note g = rec_hdr_get [OF hdr]
  define s where "s = pm (B2M n)"
  define st where "st = pst pm s"
  show ?thesis
  proof (cases "s = kNullSegmentIndex \<or> st = SS_Initial")
    case True
    have "recover_segment t n im = Some im"
      using True by (simp add: recover_segment_eq Let_def g s_def st_def)
    moreover have "rec_hdr t pm (Suc n) im"
    proof -
      have "rec_states t (Suc n) pm = rec_states t n pm"
        using True by (auto simp: fun_eq_iff s_def st_def)
      with hdr show ?thesis by (simp only: rec_hdr_states)
    qed
    moreover have "rec_data pm (Suc n) im"
    proof (rule rec_data_frame [OF dat])
      fix x assume "x < pm HNrMain * kSegmentSize"
      then have "x div kSegmentSize \<noteq> kNullSegmentIndex"
        using val by (auto simp: div_lt_segments img_valid_def)
      then show "main_upto (Suc n) pm x = main_upto n pm x"
        using True main_upto_Suc [OF val n] by (auto simp: s_def st_def)
    next
      show "back_upto (Suc n) pm x = back_upto n pm x" for x
        using True by (auto simp: back_upto_Suc s_def st_def)
    qed (simp add: same_cells_def)
    ultimately show ?thesis by (rule that)
  next
    case False
    then have s: "s \<noteq> kNullSegmentIndex" "st \<noteq> SS_Initial" "s < pm HNrMain"
      using val n by (auto simp: img_valid_def s_def)
    define im1 where "im1 = (if st = SS_Main then copy_main_to_back s n im
                      else if st = SS_Back then copy_back_to_main s n im else im)"
    have hdr1: "rec_hdr t pm n im1" using hdr by (simp add: im1_def rec_hdr_copy)
    have dat1: "rec_data pm (Suc n) im1"
    proof (cases "st = SS_Main \<or> st = SS_Back")
      case True
      then show ?thesis
        using step_main_to_back [OF val n dat, of s] step_back_to_main [OF val n dat, of s] s
        by (auto simp: im1_def s_def st_def)
    next
      case False
      have "rec_data pm (Suc n) im"
      proof (rule rec_data_frame [OF dat])
        fix x assume "x < pm HNrMain * kSegmentSize"
        then have "x div kSegmentSize \<noteq> kNullSegmentIndex"
          using val by (auto simp: div_lt_segments img_valid_def)
        then show "main_upto (Suc n) pm x = main_upto n pm x"
          using False main_upto_Suc [OF val n] by (auto simp: s_def st_def)
      next
        show "back_upto (Suc n) pm x = back_upto n pm x" for x
          using False by (auto simp: back_upto_Suc s_def st_def)
      qed (simp add: same_cells_def)
      with False show ?thesis by (simp add: im1_def)
    qed
    have rs: "recover_segment t n im = (if t \<noteq> st then set_segment_state s t im1 else Some im1)"
      using s by (simp add: recover_segment_eq Let_def g s_def st_def im1_def)
    show ?thesis
    proof (cases "t = st")
      case True
      have "rec_states t (Suc n) pm = rec_states t n pm"
        using True by (auto simp: fun_eq_iff s_def st_def)
      with hdr1 have "rec_hdr t pm (Suc n) im1" by (simp only: rec_hdr_states)
      with True rs dat1 show ?thesis by (intro that [of im1]) simp_all
    next
      case False
      obtain im' where im': "set_segment_state s t im1 = Some im'" "rec_hdr t pm (Suc n) im'"
          "same_cells is_data_cell im1 im'"
        using rec_hdr_set_state [OF hdr1 s_def s(3,1)] s(2) False unfolding st_def by metis
      have "rec_data pm (Suc n) im'"
        using dat1 im'(3) by (simp add: rec_data_def same_cells_def settled_iff rd_def)
      with False rs im' show ?thesis by (intro that [of im']) simp_all
    qed
  qed
qed

lemma recover_loop:
  assumes val: "img_valid pm" and n: "n \<le> pm HNrBack"
    and hdr: "rec_hdr t pm 0 im" and dat: "rec_data pm 0 im"
  shows "\<exists>im'. foldM (recover_segment t) [0..<n] im = Some im' \<and> rec_hdr t pm n im' \<and> rec_data pm n im'"
  using n
proof (induction n)
  case 0
  then show ?case using hdr dat by simp
next
  case (Suc n)
  then obtain im1 where im1: "foldM (recover_segment t) [0..<n] im = Some im1" "rec_hdr t pm n im1" "rec_data pm n im1"
    by auto
  obtain im' where "recover_segment t n im1 = Some im'" "rec_hdr t pm (Suc n) im'" "rec_data pm (Suc n) im'"
    using recover_segment_step [OF val _ im1(2,3)] Suc.prems by auto
  with im1(1) show ?case by (auto simp: foldM_append)
qed

lemma rec_start:
  assumes "img_valid pm"
  shows "rec_hdr t pm 0 (begin_segment_state_update (attach (nv_init pm)))"
    and "rec_data pm 0 (begin_segment_state_update (attach (nv_init pm)))"
  by (simp_all add: rec_hdr_def rec_data_def upd_ok_def begin_segment_state_update_def attach_def rd_def
      active_def quiet_settled [OF quiet_init])

subsection \<open>Correctness of recovery\<close>

lemma restart_eq:
  assumes "img_valid pm"
  obtains im1 where "restart t pm = Some (commit_segment_state_update im1)"
    "rec_hdr t pm (pm HNrBack) im1" "rec_data pm (pm HNrBack) im1"
proof -
  have "get_nr_back_segments (attach (nv_init pm)) = pm HNrBack"
    by (simp add: get_nr_back_segments_def attach_def rd_def)
  moreover obtain im1 where im1:
      "foldM (recover_segment t) [0..<pm HNrBack] (begin_segment_state_update (attach (nv_init pm))) = Some im1"
      "rec_hdr t pm (pm HNrBack) im1" "rec_data pm (pm HNrBack) im1"
    using recover_loop [OF assms order_refl rec_start [OF assms]] by blast
  ultimately have "restart t pm = Some (commit_segment_state_update im1)"
    using assms by (simp add: restart_def Open_existing_def recovery_def img_valid_def)
  with im1(2,3) that show ?thesis by blast
qed

lemma data_not_state: "is_data_cell l \<Longrightarrow> \<not> is_state_cell l"
  by (cases l) auto

lemma recovery_correct:
  assumes val: "img_valid pm" and re: "restart t pm = Some im"
  shows "x < pm HNrMain * kSegmentSize \<Longrightarrow> rd im (MainB x) = recovered_main pm x"
    and "rd im (BackB x) = back_upto (pm HNrBack) pm x"
    and "is_data_cell l \<Longrightarrow> quiet (nv im) l"
    and "hdr_ok im" and "rd im HNrMain = pm HNrMain" and "rd im HNrBack = pm HNrBack"
    and "rd im (B2M b) = pm (B2M b)"
    and "s < pm HNrMain \<Longrightarrow> get_segment_state im s = rec_states t (pm HNrBack) pm s"
    and "\<not> segment_state_dirty im k"
proof -
  obtain im1 where im1: "restart t pm = Some (commit_segment_state_update im1)"
      "rec_hdr t pm (pm HNrBack) im1" "rec_data pm (pm HNrBack) im1"
    by (rule restart_eq [OF val])
  then have im: "im = commit_segment_state_update im1" using re by simp
  note g = rec_hdr_get [OF im1(2)]
  have upd: "upd_ok im1 (rec_states t (pm HNrBack) pm)" using im1(2) by (simp add: rec_hdr_def)
  have hdr1: "hdr_ok im1" using g val by (simp add: img_valid_def)
  have d: "rd im l = rd im1 l" "settled (nv im1) l \<Longrightarrow> quiet (nv im) l" if "\<not> is_state_cell l" for l
    using commit_frame [OF that] by (simp_all add: im)
  show "x < pm HNrMain * kSegmentSize \<Longrightarrow> rd im (MainB x) = recovered_main pm x"
    using im1(3) d by (simp add: rec_data_def recovered_main_def)
  show "rd im (BackB x) = back_upto (pm HNrBack) pm x"
    using im1(3) d by (simp add: rec_data_def)
  show "is_data_cell l \<Longrightarrow> quiet (nv im) l"
    using im1(3) d data_not_state by (simp add: rec_data_def)
  show "hdr_ok im" using commit_epoch_cells(3) [OF hdr1] by (simp add: im)
  show "rd im HNrMain = pm HNrMain" "rd im HNrBack = pm HNrBack" "rd im (B2M b) = pm (B2M b)"
    using d g by simp_all
  show "s < pm HNrMain \<Longrightarrow> get_segment_state im s = rec_states t (pm HNrBack) pm s"
    using commit_states(1) [OF hdr1 upd] g by (simp add: im)
  show "\<not> segment_state_dirty im k" using commit_clean [OF upd] by (simp add: im)
qed

text \<open>Every bound segment that had a checkpointed copy ends with equal main and back memory.\<close>

lemma recovery_main_eq_back:
  assumes val: "img_valid pm" and re: "restart t pm = Some im"
    and b: "b < pm HNrBack" "pm (B2M b) = s" "s \<noteq> kNullSegmentIndex"
    and st: "pst pm s = SS_Main \<or> pst pm s = SS_Back" and i: "i < kSegmentSize"
  shows "rd im (MainB (s * kSegmentSize + i)) = rd im (BackB (b * kSegmentSize + i))"
proof -
  have s: "s < pm HNrMain" using val b by (auto simp: img_valid_def)
  have bu: "bound_upto (pm HNrBack) pm s = Some b" using bound_unique [OF val _ b(1)] b by simp
  have im: "i mod kSegmentSize = i" using i by simp
  have dm: "(s * kSegmentSize + i) div kSegmentSize = s" "(s * kSegmentSize + i) mod kSegmentSize = i"
    "(b * kSegmentSize + i) div kSegmentSize = b" "(b * kSegmentSize + i) mod kSegmentSize = i"
    using i by simp_all
  have "s * kSegmentSize + i < pm HNrMain * kSegmentSize"
    using s dm by (simp add: div_lt_segments)
  then show ?thesis
    using st b s by (auto simp: recovery_correct(1,2) [OF val re] recovered_main_def main_upto_def
        back_upto_def Let_def dm bu im)
qed

text \<open>
  A crash during the recovery leaves an image that stands for the same memory, on every segment
  that has a checkpointed copy.
\<close>

lemma recovered_main_stable:
  assumes val: "img_valid pm" and x: "x < pm HNrMain * kSegmentSize"
    and st: "pst pm (x div kSegmentSize) = SS_Main \<or> pst pm (x div kSegmentSize) = SS_Back"
    and hd: "pm' HNrBack = pm HNrBack" "\<And>b. pm' (B2M b) = pm (B2M b)"
    and m: "pm' (MainB x) \<in> {pm (MainB x), recovered_main pm x}"
    and b: "\<And>y. pm' (BackB y) \<in> {pm (BackB y), back_upto (pm HNrBack) pm y}"
    and nw: "pst pm' (x div kSegmentSize) = pst pm (x div kSegmentSize) \<or>
      pm' (MainB x) = recovered_main pm x \<and> (\<forall>y. pm' (BackB y) = back_upto (pm HNrBack) pm y)"
  shows "recovered_main pm' x = recovered_main pm x"
proof -
  define s where "s = x div kSegmentSize"
  have nn: "s \<noteq> kNullSegmentIndex" using x val by (auto simp: s_def div_lt_segments img_valid_def)
  have bu: "bound_upto n pm' r = bound_upto n pm r" for n r by (simp add: bound_upto_def hd)
  have bk: "back_upto (pm HNrBack) pm (c * kSegmentSize + x mod kSegmentSize) =
      (if pst pm s = SS_Main then pm (MainB x) else pm (BackB (c * kSegmentSize + x mod kSegmentSize)))"
    if "bound_upto (pm HNrBack) pm s = Some c" for c
    using bound_upto_Some [OF that] nn by (auto simp: back_upto_def Let_def s_def)
  show ?thesis
  proof (cases "bound_upto (pm HNrBack) pm s")
    case None
    then show ?thesis
      using m unfolding recovered_main_def main_upto_def Let_def hd bu s_def [symmetric] by auto
  next
    case (Some c)
    note bc = b [of "c * kSegmentSize + x mod kSegmentSize", unfolded bk [OF Some]]
    show ?thesis
      using st m nw bc bk [OF Some] Some unfolding recovered_main_def main_upto_def Let_def hd bu s_def [symmetric]
      by (auto split: if_splits)
  qed
qed

lemma recovery_crash:
  assumes val: "img_valid pm" and re: "restart t pm = Some im"
    and pm': "pm' \<in> crash_images (nv im)" and x: "x < pm HNrMain * kSegmentSize"
    and st: "pst pm (x div kSegmentSize) = SS_Main \<or> pst pm (x div kSegmentSize) = SS_Back"
  shows "img_valid pm'" and "recovered_main pm' x = recovered_main pm x"
proof -
  obtain im1 where im1: "restart t pm = Some (commit_segment_state_update im1)"
      "rec_hdr t pm (pm HNrBack) im1" "rec_data pm (pm HNrBack) im1"
    by (rule restart_eq [OF val])
  then have im: "im = commit_segment_state_update im1" using re by simp
  note g = rec_hdr_get [OF im1(2)] and h = rec_hdr_rd [OF im1(2)]
  have upd: "upd_ok im1 (rec_states t (pm HNrBack) pm)" using im1(2) by (simp add: rec_hdr_def)
  have hdr1: "hdr_ok im1" using g val by (simp add: img_valid_def)
  have sn: "x div kSegmentSize < pm HNrMain" using x by (simp add: div_lt_segments)
  have quiet_pm: "dur (nv im1) l = {pm l}" "dur (nv_fence (nv im1)) l = {pm l}"
    if "\<not> is_data_cell l" "\<And>s. l \<noteq> SegSt (other (pm HEpoch mod 2)) s" for l
  proof -
    have q: "quiet (nv im1) l" "cur (nv im1) l = pm l" using h [OF that] by (simp_all add: rd_def)
    then show "dur (nv im1) l = {pm l}" by (simp add: quiet_durable)
    have "quiet (nv_fence (nv im1)) l" using q by (simp add: quiet_settled)
    then show "dur (nv_fence (nv im1)) l = {pm l}" using quiet_durable [of "nv_fence (nv im1)" l] q(2) by simp
  qed
  have dat: "dur (nv im1) l \<subseteq> {pm l, rd im1 l}" "dur (nv_fence (nv im1)) l = {rd im1 l}"
    if "is_data_cell l" for l
  proof -
    show "dur (nv im1) l \<subseteq> {pm l, rd im1 l}" using im1(3) that by (simp add: rec_data_def)
    have "quiet (nv_fence (nv im1)) l" using im1(3) that by (simp add: rec_data_def)
    then show "dur (nv_fence (nv im1)) l = {rd im1 l}"
      using quiet_durable [of "nv_fence (nv im1)" l] by (simp add: rd_def)
  qed
  have mb: "rd im1 (MainB x) = recovered_main pm x" "\<And>y. rd im1 (BackB y) = back_upto (pm HNrBack) pm y"
    using im1(3) x by (simp_all add: rec_data_def recovered_main_def)
  consider (before) "\<forall>l. pm' l \<in> dur (nv im1) l"
    | (after) "pm' HEpoch = pm HEpoch \<and> (\<forall>s < pm HNrMain. pst pm' s = pst pm s) \<or>
        pm' HEpoch = next_epoch (pm HEpoch)" "\<forall>l. \<not> is_state_cell l \<longrightarrow> pm' l \<in> dur (nv_fence (nv im1)) l"
  proof -
    have "pm' \<in> crash_images (nv im1) \<Longrightarrow> \<forall>l. pm' l \<in> dur (nv im1) l"
      using im1(2) by (simp add: rec_hdr_def crash_images_def crash_points_def)
    moreover have "x div kSegmentSize < rd im1 HNrMain" using sn g by simp
    note commit_atomic [OF hdr1 upd pm' [unfolded im] this]
    ultimately show ?thesis using that unfolding g by blast
  qed
  then have *: "img_valid pm' \<and> recovered_main pm' x = recovered_main pm x"
  proof cases
    case before
    have hd: "pm' l = pm l" if "\<not> is_data_cell l" "\<And>s. l \<noteq> SegSt (other (pm HEpoch mod 2)) s" for l
      using before quiet_pm(1) [OF that] by (metis singletonD)
    have "pst pm' s = pst pm s" for s by (simp add: pst_def hd)
    moreover have dc: "pm' l \<in> {pm l, rd im1 l}" if "is_data_cell l" for l using before dat(1) [OF that] by blast
    moreover have "pm' (MainB x) \<in> {pm (MainB x), recovered_main pm x}" using dc [of "MainB x"] mb by simp
    moreover have "pm' (BackB y) \<in> {pm (BackB y), back_upto (pm HNrBack) pm y}" for y
      using dc [of "BackB y"] mb by simp
    ultimately have "recovered_main pm' x = recovered_main pm x"
      by (intro recovered_main_stable [OF val x st]) (simp_all add: hd)
    then show ?thesis using val by (simp add: img_valid_def hd)
  next
    case after
    have hd: "pm' l = pm l" if "\<not> is_data_cell l" "\<not> is_state_cell l" for l
      using after(2) quiet_pm(2) [of l] that by (cases l) auto
    have "pm' l = rd im1 l" if "is_data_cell l" for l
      using after(2) dat(2) [OF that] data_not_state [OF that] by auto
    then have "recovered_main pm' x = recovered_main pm x"
      using mb by (intro recovered_main_stable [OF val x st]) (auto simp: hd)
    moreover have "pm' HEpoch < 2 ^ 32" using after(1) val by (auto simp: img_valid_def)
    ultimately show ?thesis using val by (simp add: img_valid_def hd)
  qed
  from * show "img_valid pm'" "recovered_main pm' x = recovered_main pm x" by simp_all
qed

end
