(* ===== verification/NvmInst.thy ===== *)
theory NvmInst
  imports Recovery
begin

text \<open>
  \<^verbatim>\<open>NvmInstEngine\<close> (\<^verbatim>\<open>runtime/src/engines/nvm_inst_engine.cpp\<close>): the engine that
  keeps the working memory in persistent memory, copies a segment to its back segment before its
  first modification in an epoch, and commits by flipping segment states. One call of a hook, one
  round of the cleaner thread and one checkpoint are each one function on the engine state; the
  phases of a checkpoint run for the participating threads in the order of their ids.
  \<open>None\<close> stands for the process having called \<^verbatim>\<open>exit\<close>. The traffic and latency
  counters are not part of the state.
\<close>

subsection \<open>State\<close>

datatype cleaner_state = WB_STARTED | WB_RUNNING | WB_IDLE

datatype flush_mode = FMODE_NO_ACTION | FMODE_USE_FLUSH_BLOCKS | FMODE_WBINVD

text \<open>
  \<open>cleaner_segment\<close> is the local \<^verbatim>\<open>segment_id\<close> of the cleaner thread, \<open>held\<close>
  the slot of \<^verbatim>\<open>segment_locks\<close> the running thread holds; \<open>flush_blocks t\<close> has the
  first \<^verbatim>\<open>flush_blocks_count[t]\<close> entries of the bucket of thread \<open>t\<close>, and
  \<open>address_buffer t\<close> the first \<^verbatim>\<open>length\<close> entries of its address buffer.
\<close>

record engine =
  eimg :: image
  nr_segments :: nat
  nr_back_segments :: nat
  nr_blocks :: nat
  capacity :: nat
  address_first :: nat
  has_snapshot :: bool
  skip_copy_on_write :: bool
  segment_dirty :: bitset
  block_dirty :: bitset
  cleaner_st :: cleaner_state
  cleaner_segment :: nat
  checkpoint_in_progress :: bool
  flush_blocks :: "nat \<Rightarrow> nat list"
  mode :: flush_mode
  next_back_id :: nat
  held :: "nat option"
  address_buffer :: "nat \<Rightarrow> nat list"

definition map_img :: "(image \<Rightarrow> image) \<Rightarrow> engine \<Rightarrow> engine" where
  "map_img f e = e\<lparr>eimg := f (eimg e)\<rparr>"

definition map_nv :: "(imem \<Rightarrow> imem) \<Rightarrow> engine \<Rightarrow> engine" where
  "map_nv f e = map_img (nv_upd f) e"

lemma map_img_simps [simp]:
  "eimg (map_img f e) = f (eimg e)" "nr_segments (map_img f e) = nr_segments e"
  "nr_back_segments (map_img f e) = nr_back_segments e" "nr_blocks (map_img f e) = nr_blocks e"
  "capacity (map_img f e) = capacity e" "address_first (map_img f e) = address_first e"
  "has_snapshot (map_img f e) = has_snapshot e" "skip_copy_on_write (map_img f e) = skip_copy_on_write e"
  "segment_dirty (map_img f e) = segment_dirty e" "block_dirty (map_img f e) = block_dirty e"
  "cleaner_st (map_img f e) = cleaner_st e" "cleaner_segment (map_img f e) = cleaner_segment e"
  "checkpoint_in_progress (map_img f e) = checkpoint_in_progress e"
  "flush_blocks (map_img f e) = flush_blocks e" "mode (map_img f e) = mode e"
  "next_back_id (map_img f e) = next_back_id e" "held (map_img f e) = held e"
  "address_buffer (map_img f e) = address_buffer e"
  by (simp_all add: map_img_def)

subsection \<open>Opening\<close>

definition round_capacity :: "nat \<Rightarrow> nat" where
  "round_capacity c0 =
     (let c = max c0 kMinContainerSize in
      if c mod kSegmentSize \<noteq> 0 then c - c mod kSegmentSize + kSegmentSize else c)"

definition new_engine :: "image \<Rightarrow> nat \<Rightarrow> nat \<Rightarrow> nat \<Rightarrow> nat \<Rightarrow> nat \<Rightarrow> bool \<Rightarrow> engine option" where
  "new_engine im ns nbs nblk cap base snap =
     (case (bs_allocate ns bs_new, bs_allocate nblk bs_new) of
        (Some sd, Some bd) \<Rightarrow> Some
          \<lparr>eimg = im, nr_segments = ns, nr_back_segments = nbs, nr_blocks = nblk, capacity = cap,
           address_first = base, has_snapshot = snap, skip_copy_on_write = False,
           segment_dirty = sd, block_dirty = bd, cleaner_st = WB_IDLE, cleaner_segment = 0,
           checkpoint_in_progress = False, flush_blocks = (\<lambda>_. []), mode = FMODE_NO_ACTION,
           next_back_id = 0, held = None, address_buffer = (\<lambda>_. [])\<rparr>
      | _ \<Rightarrow> None)"

text \<open>
  \<open>nbs\<close> is \<^verbatim>\<open>nr_segments * option.shadow_capacity_factor\<close>, a product with a floating
  point option; \<open>m\<close> is the memory the file system maps.
\<close>

definition create_engine :: "nat \<Rightarrow> nat \<Rightarrow> nat \<Rightarrow> imem \<Rightarrow> engine option" where
  "create_engine user_capacity nbs base m =
     (let cap = round_capacity user_capacity; ns = cap div kSegmentSize
      in new_engine (Open_initialize ns nbs m) ns nbs (cap div kBlockSize) cap base False)"

definition exist_snapshot :: "image \<Rightarrow> bool" where
  "exist_snapshot im = bit (get_attributes im) (4 :: nat)"

definition open_engine :: "nat \<Rightarrow> imem \<Rightarrow> engine option" where
  "open_engine base m =
     (case Open_existing m of None \<Rightarrow> None
      | Some im0 \<Rightarrow> (case recovery SS_Back im0 of None \<Rightarrow> None
          | Some im \<Rightarrow>
              (let ns = get_nr_main_segments im0
               in new_engine im ns (get_nr_back_segments im0) (ns * kBlocksPerSegment)
                    (ns * kSegmentSize) base (exist_snapshot im))))"

subsection \<open>Back segments\<close>

definition advance_next_back_segment :: "engine \<Rightarrow> engine" where
  "advance_next_back_segment e =
     e\<lparr>next_back_id := (next_back_id e + 1) mod get_nr_back_segments (eimg e)\<rparr>"

definition bind_next :: "nat \<Rightarrow> engine \<Rightarrow> engine" where
  "bind_next main_id e = advance_next_back_segment (map_img (bind_back_segment main_id (next_back_id e)) e)"

text \<open>
  The search loop; the first argument is \<^verbatim>\<open>kNumBackSegments - loop_count\<close>. Falling out
  of it leaves the segment unbound, which \<^verbatim>\<open>find_back_segment\<close> turns into an exit.
\<close>

fun allocate_loop :: "nat \<Rightarrow> nat \<Rightarrow> engine \<Rightarrow> engine" where
  "allocate_loop 0 main_id e = e"
| "allocate_loop (Suc n) main_id e =
     (let old_main_id = get_back_to_main (eimg e) (next_back_id e) in
      if old_main_id = kNullSegmentIndex then bind_next main_id e
      else if checkpoint_in_progress e
      then (if bs_test old_main_id (segment_dirty e)
            then allocate_loop n main_id (advance_next_back_segment e)
            else bind_next main_id e)
      else (if held e = Some (old_main_id mod kSegmentLocks)
            then allocate_loop n main_id (advance_next_back_segment e)
            else if bs_test old_main_id (segment_dirty e)
            then allocate_loop n main_id (advance_next_back_segment e)
            else bind_next main_id e))"

definition allocate_back_segment :: "nat \<Rightarrow> engine \<Rightarrow> engine" where
  "allocate_back_segment main_id e = allocate_loop (get_nr_back_segments (eimg e)) main_id e"

definition find_back_segment :: "nat \<Rightarrow> engine \<Rightarrow> (nat \<times> bool \<times> engine) option" where
  "find_back_segment segment_id e =
     (let b = get_main_to_back (eimg e) segment_id in
      if b \<noteq> kNullSegmentIndex then Some (b, False, e)
      else let e1 = allocate_back_segment segment_id e;
               b1 = get_main_to_back (eimg e1) segment_id
           in if b1 = kNullSegmentIndex then None else Some (b1, True, e1))"

definition find_back_block :: "nat \<Rightarrow> engine \<Rightarrow> (nat \<times> bool \<times> engine) option" where
  "find_back_block block_id e =
     (case find_back_segment (block_id div kBlocksPerSegment) e of None \<Rightarrow> None
      | Some (b, created, e1) \<Rightarrow> Some (b * kBlocksPerSegment + block_id mod kBlocksPerSegment, created, e1))"

subsection \<open>Copy on write\<close>

text \<open>
  The list of addresses a loop collects and drains whenever it reaches its capacity, and once
  more after the loop.
\<close>

fun batch_loop :: "nat \<Rightarrow> ('a \<Rightarrow> 's \<Rightarrow> 's) \<Rightarrow> 'a list \<Rightarrow> 'a list \<Rightarrow> 's \<Rightarrow> 'a list \<times> 's" where
  "batch_loop cap f [] pending s = (pending, s)"
| "batch_loop cap f (x # xs) pending s =
     (let pending' = pending @ [x] in
      if length pending' = cap then batch_loop cap f xs [] (fold f pending' s)
      else batch_loop cap f xs pending' s)"

definition batched :: "nat \<Rightarrow> ('a \<Rightarrow> 's \<Rightarrow> 's) \<Rightarrow> 'a list \<Rightarrow> 's \<Rightarrow> 's" where
  "batched cap f xs s = (case batch_loop cap f xs [] s of (pending, s') \<Rightarrow> fold f pending s')"

text \<open>
  \<^verbatim>\<open>NonTemporalCopy256(addr + delta, addr, len)\<close> with offsets from the start of the main
  memory; the back memory begins \<^verbatim>\<open>capacity\<close> bytes after it.
\<close>

definition copy_delta :: "nat \<Rightarrow> nat \<Rightarrow> nat \<Rightarrow> nat \<Rightarrow> engine \<Rightarrow> engine" where
  "copy_delta delta len cap addr e =
     map_nv (NonTemporalCopy (back_at (addr + delta - cap)) (main_cell addr) len) e"

definition lazy_write_back :: "nat \<Rightarrow> bool \<Rightarrow> engine \<Rightarrow> (engine \<times> bool) option" where
  "lazy_write_back segment_id on_demand e0 =
     (let e = e0\<lparr>held := Some (segment_id mod kSegmentLocks)\<rparr>;
          attribute = get_segment_state (eimg e) segment_id;
          b0 = get_main_to_back (eimg e) segment_id;
          mark = (\<lambda>e. if on_demand then e\<lparr>segment_dirty := bs_set segment_id (segment_dirty e)\<rparr> else e);
          release = (\<lambda>e. e\<lparr>held := None\<rparr>)
      in if attribute \<noteq> SS_Main \<and> b0 \<noteq> kNullSegmentIndex then Some (release (mark e), False)
      else
        let start_block_id = segment_id * kBlocksPerSegment;
            stop_block_id = min (nr_blocks e) (start_block_id + kBlocksPerSegment)
        in if b0 = kNullSegmentIndex \<and> \<not> on_demand then Some (release e, False)
        else case (if b0 = kNullSegmentIndex then find_back_segment segment_id e else Some (b0, False, e)) of
          None \<Rightarrow> None
        | Some (b, created, e1) \<Rightarrow>
            (let delta = capacity e1 + b * kSegmentSize - segment_id * kSegmentSize;
                 e2 = (if created
                       then (if attribute \<noteq> SS_Initial
                             then copy_delta delta kSegmentSize (capacity e1) (start_block_id * kBlockSize) e1
                             else e1)
                       else batched kAddressListCapacity
                              (\<lambda>blk. copy_delta delta kBlockSize (capacity e1) (blk * kBlockSize))
                              (scan_range start_block_id stop_block_id (block_dirty e1)) e1);
                 e3 = map_nv nv_fence e2;
                 e4 = map_img (set_segment_state_atomic segment_id SS_Back) e3;
                 e5 = e4\<lparr>block_dirty := bs_clear_region start_block_id stop_block_id (block_dirty e4)\<rparr>
             in Some (release (mark e5), True)))"

definition cow_segment :: "nat \<Rightarrow> engine \<Rightarrow> engine option" where
  "cow_segment segment_id e =
     (if bs_test segment_id (segment_dirty e) then Some e
      else if skip_copy_on_write e then Some (e\<lparr>segment_dirty := bs_set segment_id (segment_dirty e)\<rparr>)
      else map_option fst (lazy_write_back segment_id True e))"

definition hook_copy_on_write_routine :: "nat \<Rightarrow> engine \<Rightarrow> engine option" where
  "hook_copy_on_write_routine addr e = cow_segment ((addr - address_first e) div kSegmentSize) e"

definition hook_copy_on_write_routine_range :: "nat \<Rightarrow> nat \<Rightarrow> engine \<Rightarrow> engine option" where
  "hook_copy_on_write_routine_range addr len e =
     (let delta = addr - address_first e;
          start_segment_id = delta div kSegmentSize;
          end_segment_id = (delta + len + (kSegmentSize - 1)) div kSegmentSize
      in foldM cow_segment [start_segment_id..<end_segment_id] e)"

subsection \<open>Dirty tracking\<close>

definition track_block :: "nat \<Rightarrow> nat \<Rightarrow> engine \<Rightarrow> engine" where
  "track_block tid block_id e =
     (if bs_test block_id (block_dirty e) then e
      else let e1 = e\<lparr>block_dirty := bs_set block_id (block_dirty e)\<rparr> in
        if length (flush_blocks e1 tid) \<noteq> kMaxFlushBlocks
        then e1\<lparr>flush_blocks := (flush_blocks e1)(tid := flush_blocks e1 tid @ [block_id])\<rparr>
        else e1)"

definition hook_routine :: "nat \<Rightarrow> nat \<Rightarrow> engine \<Rightarrow> engine" where
  "hook_routine tid addr e = track_block tid ((addr - address_first e) div kBlockSize) e"

function hook_loop :: "nat \<Rightarrow> nat \<Rightarrow> nat \<Rightarrow> engine \<Rightarrow> engine" where
  "hook_loop tid ptr stop e =
     (if ptr < stop
      then hook_loop tid (ptr + kBlockSize) stop (hook_routine tid (address_first e + ptr) e)
      else e)"
  by pat_completeness auto
termination
  by (relation "measure (\<lambda>(tid, ptr, stop, e). stop - ptr)") (auto simp: geometry)

declare hook_loop.simps [simp del]

definition hook_routine_range :: "nat \<Rightarrow> nat \<Rightarrow> nat \<Rightarrow> engine \<Rightarrow> engine" where
  "hook_routine_range tid addr len e =
     (let delta = addr - address_first e
      in hook_loop tid (delta - delta mod kBlockSize) (delta + len) e)"

text \<open>
  The address buffers of \<^verbatim>\<open>__crpm_hook_rt_store\<close>. Whoever drains a buffer records the
  blocks in its own bucket: \<open>tid\<close> is the caller of \<^verbatim>\<open>address_buffer_clear\<close>,
  \<open>i\<close> the buffer.
\<close>

definition kNumBufferedAddresses :: nat where "kNumBufferedAddresses = 120"

definition in_range :: "engine \<Rightarrow> nat \<Rightarrow> bool" where
  "in_range e addr \<longleftrightarrow> address_first e \<le> addr \<and> addr < address_first e + capacity e"

definition hook_buffered :: "nat \<Rightarrow> nat \<Rightarrow> engine \<Rightarrow> engine" where
  "hook_buffered tid addr e = (if in_range e addr then hook_routine tid addr e else e)"

definition address_buffer_clear :: "nat \<Rightarrow> nat \<Rightarrow> engine \<Rightarrow> engine" where
  "address_buffer_clear tid i e =
     (let e1 = fold (hook_buffered tid) (address_buffer e i) e
      in e1\<lparr>address_buffer := (address_buffer e1)(i := [])\<rparr>)"

definition address_buffer_clear_all :: "nat \<Rightarrow> engine \<Rightarrow> engine" where
  "address_buffer_clear_all tid e = fold (address_buffer_clear tid) [0..<kMaxThreads] e"

text \<open>\<^verbatim>\<open>Registry::hook_copy_on_write_routine\<close> with one registered engine.\<close>

definition registry_cow :: "nat \<Rightarrow> engine \<Rightarrow> engine option" where
  "registry_cow addr e = (if in_range e addr then hook_copy_on_write_routine addr e else Some e)"

definition hook_rt_store :: "nat \<Rightarrow> nat \<Rightarrow> engine \<Rightarrow> engine option" where
  "hook_rt_store tid addr e =
     (case registry_cow addr e of None \<Rightarrow> None
      | Some e1 \<Rightarrow>
          (let e2 = e1\<lparr>address_buffer := (address_buffer e1)(tid := address_buffer e1 tid @ [addr])\<rparr>
           in Some (if length (address_buffer e2 tid) = kNumBufferedAddresses
                    then address_buffer_clear tid tid e2 else e2)))"

definition hook_rt_range_store :: "nat \<Rightarrow> nat \<Rightarrow> nat \<Rightarrow> engine \<Rightarrow> engine option" where
  "hook_rt_range_store tid addr len e =
     (if addr mod kBlockSize + len \<le> kBlockSize then hook_rt_store tid addr e
      else if in_range e addr
      then map_option (hook_routine_range tid addr len) (hook_copy_on_write_routine_range addr len e)
      else Some e)"

subsection \<open>Checkpoint\<close>

definition all_buckets :: "engine \<Rightarrow> nat list" where
  "all_buckets e = concat (map (flush_blocks e) [0..<kMaxThreads])"

text \<open>The loop overwrites \<^verbatim>\<open>total_blocks\<close>, so a full bucket is one at its capacity.\<close>

definition determine_flush_mode :: "engine \<Rightarrow> engine" where
  "determine_flush_mode e =
     (let sizes = map (\<lambda>i. length (flush_blocks e i)) [0..<kMaxThreads];
          all_empty = list_all (\<lambda>n. n = 0) sizes;
          has_full = list_ex (\<lambda>n. n \<ge> kMaxFlushBlocks) sizes
      in e\<lparr>mode := if all_empty then FMODE_NO_ACTION
                   else if has_full then FMODE_WBINVD else FMODE_USE_FLUSH_BLOCKS\<rparr>)"

text \<open>The buckets thread \<open>tid\<close> of \<open>n\<close> serves: \<^verbatim>\<open>id = tid; id < kMaxThreads; id += n\<close>.\<close>

definition my_buckets :: "nat \<Rightarrow> nat \<Rightarrow> nat list" where
  "my_buckets tid n = filter (\<lambda>id. id mod n = tid) [0..<kMaxThreads]"

fun in_block :: "nat \<Rightarrow> iloc \<Rightarrow> bool" where
  "in_block b (MainB x) = (x div kBlockSize = b)"
| "in_block _ _ = False"

text \<open>\<^verbatim>\<open>FlushRegion\<close> on a block: whole lines, so exactly its bytes.\<close>

definition flush_block :: "nat \<Rightarrow> engine \<Rightarrow> engine" where
  "flush_block b e = map_nv (nv_flush (in_block b)) e"

definition flush_bucket :: "nat \<Rightarrow> engine \<Rightarrow> engine" where
  "flush_bucket i e = fold flush_block (flush_blocks e i) e"

definition flush_parallel :: "nat \<Rightarrow> nat \<Rightarrow> engine \<Rightarrow> engine" where
  "flush_parallel n tid e =
     (let e1 = (if mode e = FMODE_WBINVD
                then (if tid = 0 then map_nv (nv_flush (\<lambda>_. True)) e else e)
                else fold flush_bucket (my_buckets tid n) e)
      in map_nv nv_fence e1)"

definition set_state_e :: "nat \<Rightarrow> nat \<Rightarrow> engine \<Rightarrow> engine option" where
  "set_state_e st s e = map_option (\<lambda>im. e\<lparr>eimg := im\<rparr>) (set_segment_state s st (eimg e))"

definition commit_layout_state :: "nat \<Rightarrow> engine \<Rightarrow> engine option" where
  "commit_layout_state st e =
     (let e1 = map_img begin_segment_state_update e;
          segs = (if mode e = FMODE_WBINVD then scan_range 0 (nr_segments e) (segment_dirty e)
                  else map (\<lambda>b. b div kBlocksPerSegment) (all_buckets e))
      in map_option (map_img commit_segment_state_update) (foldM (set_state_e st) segs e1))"

definition copy_block :: "nat \<Rightarrow> nat \<Rightarrow> engine \<Rightarrow> engine" where
  "copy_block main_block back_block e =
     map_nv (NonTemporalCopy (back_at (get_back_block back_block)) (main_cell (get_main_block main_block)) kBlockSize) e"

definition copy_segment :: "nat \<Rightarrow> nat \<Rightarrow> engine \<Rightarrow> engine" where
  "copy_segment main_seg back_seg e =
     map_nv (NonTemporalCopy (back_at (get_back_segment back_seg)) (main_cell (get_main_segment main_seg)) kSegmentSize) e"

definition write_back_block :: "nat \<Rightarrow> engine \<Rightarrow> engine option" where
  "write_back_block b e =
     (case find_back_block b e of None \<Rightarrow> None
      | Some (bb, created, e1) \<Rightarrow>
          Some (if created then copy_segment (b div kBlocksPerSegment) (bb div kBlocksPerSegment) e1
                else copy_block b bb e1))"

definition write_back_segment :: "nat \<Rightarrow> engine \<Rightarrow> engine option" where
  "write_back_segment s e =
     (if \<not> bs_test s (segment_dirty e) then Some e
      else case find_back_segment s e of None \<Rightarrow> None
      | Some (b, created, e1) \<Rightarrow>
          let start_block_id = s * kBlocksPerSegment;
              stop_block_id = min (nr_blocks e1) (start_block_id + kBlocksPerSegment)
          in Some (if created \<and> get_segment_state (eimg e1) s \<noteq> SS_Initial then copy_segment s b e1
             else fold (\<lambda>blk. copy_block blk (b * kBlocksPerSegment + (blk - start_block_id)))
                    (scan_range start_block_id stop_block_id (block_dirty e1)) e1))"

definition write_back_parallel :: "nat \<Rightarrow> nat \<Rightarrow> engine \<Rightarrow> engine option" where
  "write_back_parallel n tid e =
     map_option (map_nv nv_fence)
       (if mode e = FMODE_WBINVD
        then foldM write_back_segment (filter (\<lambda>s. s mod n = tid) [0..<nr_segments e]) e
        else foldM (\<lambda>i e. foldM write_back_block (flush_blocks e i) e) (my_buckets tid n) e)"

definition clear_dirty_bits :: "engine \<Rightarrow> engine" where
  "clear_dirty_bits e = fold (\<lambda>b e.
     e\<lparr>block_dirty := bs_clear_all b (block_dirty e),
       segment_dirty := bs_clear_all (b div kBlocksPerSegment) (segment_dirty e)\<rparr>) (all_buckets e) e"

definition note_snapshot :: "engine \<Rightarrow> engine" where
  "note_snapshot e = (if has_snapshot e then e
     else (map_img (set_attributes kAttributeHasSnapshot) e)\<lparr>has_snapshot := True\<rparr>)"

definition reset_buckets :: "engine \<Rightarrow> engine" where
  "reset_buckets e = e\<lparr>flush_blocks := (\<lambda>_. [])\<rparr>"

text \<open>The leader's part before the flush.\<close>

definition checkpoint_begin :: "nat \<Rightarrow> engine \<Rightarrow> engine" where
  "checkpoint_begin leader e =
     (let e1 = determine_flush_mode (address_buffer_clear_all leader e);
          thread_busy = (cleaner_st e1 \<noteq> WB_IDLE)
      in if mode e1 = FMODE_NO_ACTION then e1
         else e1\<lparr>checkpoint_in_progress := True,
                 skip_copy_on_write := \<not> (mode e1 = FMODE_WBINVD \<or> thread_busy)
                                       \<and> nr_segments e1 = nr_back_segments e1\<rparr>)"

definition checkpoint_flush_blocks :: "nat \<Rightarrow> engine \<Rightarrow> engine option" where
  "checkpoint_flush_blocks n e =
     (case commit_layout_state SS_Main e of None \<Rightarrow> None | Some e1 \<Rightarrow>
      (case foldM (write_back_parallel n) [0..<n] e1 of None \<Rightarrow> None | Some e2 \<Rightarrow>
       (case commit_layout_state SS_Back e2 of None \<Rightarrow> None | Some e3 \<Rightarrow>
        Some ((reset_buckets (clear_dirty_bits (note_snapshot e3)))\<lparr>checkpoint_in_progress := False\<rparr>))))"

definition checkpoint_wbinvd :: "engine \<Rightarrow> engine option" where
  "checkpoint_wbinvd e =
     (case commit_layout_state SS_Main e of None \<Rightarrow> None | Some e1 \<Rightarrow>
      (let e2 = e1\<lparr>segment_dirty := bs_clear_region 0 (nr_segments e1) (segment_dirty e1)\<rparr>;
           e3 = (note_snapshot e2)\<lparr>cleaner_st := WB_STARTED\<rparr>
       in Some ((reset_buckets e3)\<lparr>checkpoint_in_progress := False\<rparr>)))"

definition checkpoint :: "nat \<Rightarrow> nat \<Rightarrow> engine \<Rightarrow> engine option" where
  "checkpoint leader n e =
     (let e1 = checkpoint_begin leader e in
      if mode e1 = FMODE_NO_ACTION then Some e1
      else let e2 = fold (flush_parallel n) [0..<n] e1 in
        if mode e2 = FMODE_USE_FLUSH_BLOCKS then checkpoint_flush_blocks n e2
        else checkpoint_wbinvd e2)"

subsection \<open>The cleaner thread\<close>

definition cleaner_step :: "engine \<Rightarrow> engine option" where
  "cleaner_step e = (case cleaner_st e of
       WB_STARTED \<Rightarrow> Some (e\<lparr>cleaner_segment := 0, cleaner_st := WB_RUNNING\<rparr>)
     | WB_RUNNING \<Rightarrow>
         if checkpoint_in_progress e then Some e
         else (case lazy_write_back (cleaner_segment e) False e of None \<Rightarrow> None
               | Some (e1, _) \<Rightarrow>
                   (let e2 = e1\<lparr>cleaner_segment := cleaner_segment e1 + 1\<rparr> in
                    Some (if cleaner_segment e2 = nr_segments e2 then e2\<lparr>cleaner_st := WB_IDLE\<rparr> else e2)))
     | WB_IDLE \<Rightarrow> Some e)"

definition get_address :: "nat \<Rightarrow> nat" where "get_address offset = get_main_segment 0 + offset"

definition has_background_task :: "engine \<Rightarrow> bool" where
  "has_background_task e = (cleaner_st e \<noteq> WB_IDLE)"

subsection \<open>Basic equivalences\<close>

lemma batch_loop_fold:
  assumes "batch_loop cap f xs pending s = (pending', s')"
  shows "fold f pending' s' = fold f (pending @ xs) s"
  using assms
proof (induction xs arbitrary: pending s)
  case Nil
  then show ?case by simp
next
  case (Cons x xs)
  show ?case
  proof (cases "length (pending @ [x]) = cap")
    case True
    with Cons.prems have "batch_loop cap f xs [] (fold f (pending @ [x]) s) = (pending', s')" by simp
    from Cons.IH [OF this] show ?thesis by simp
  next
    case False
    with Cons.prems have "batch_loop cap f xs (pending @ [x]) s = (pending', s')" by simp
    from Cons.IH [OF this] show ?thesis by simp
  qed
qed

text \<open>Draining in batches applies the copies in the order of the scan.\<close>

lemma batched_fold: "batched cap f xs s = fold f xs s"
  using batch_loop_fold [of cap f xs "[]" s] by (auto simp: batched_def split: prod.split)

lemma round_capacity_props:
  "kSegmentSize dvd round_capacity c" "c \<le> round_capacity c" "kMinContainerSize \<le> round_capacity c"
proof -
  define m where "m = max c kMinContainerSize"
  have "kSegmentSize dvd m - m mod kSegmentSize" by (simp add: dvd_minus_mod)
  then show "kSegmentSize dvd round_capacity c"
    by (simp add: round_capacity_def Let_def m_def [symmetric] mod_eq_0_iff_dvd del: add_diff_assoc2)
  have "m mod kSegmentSize \<le> kSegmentSize" by (rule less_imp_le) simp
  then have "m \<le> m + kSegmentSize - m mod kSegmentSize" by linarith
  then have "m \<le> round_capacity c"
    by (auto simp: round_capacity_def Let_def m_def [symmetric] less_imp_le intro: le_trans [OF le_add1])
  then show "c \<le> round_capacity c" "kMinContainerSize \<le> round_capacity c"
    by (simp_all add: m_def)
qed

lemma hook_loop_fold:
  assumes "kBlockSize dvd ptr"
  shows "hook_loop tid ptr stop e =
    fold (track_block tid) [ptr div kBlockSize..<(stop + (kBlockSize - 1)) div kBlockSize] e"
  using assms
proof (induction tid ptr stop e rule: hook_loop.induct)
  case (1 tid ptr stop e)
  show ?case
  proof (cases "ptr < stop")
    case True
    from 1(2) obtain k where k: "ptr = 256 * k" by (auto simp: geometry elim: dvdE)
    have af: "address_first (track_block t b e) = address_first e" for t b e
      by (simp add: track_block_def Let_def)
    have lt: "k < (stop + 255) div 256" using True k by simp
    have "hook_loop tid (ptr + kBlockSize) stop (hook_routine tid (address_first e + ptr) e)
        = fold (track_block tid) [Suc k..<(stop + 255) div 256] (track_block tid k e)"
      using 1(1) [OF True] by (simp add: k geometry hook_routine_def)
    moreover have "hook_loop tid ptr stop e =
        hook_loop tid (ptr + kBlockSize) stop (hook_routine tid (address_first e + ptr) e)"
      using True by (simp add: hook_loop.simps [of tid ptr])
    ultimately show ?thesis
      using lt by (simp add: k geometry upt_conv_Cons [OF lt])
  next
    case False
    from 1(2) obtain k where k: "ptr = 256 * k" by (auto simp: geometry elim: dvdE)
    have "(stop + 255) div 256 \<le> k" using False k by simp
    moreover have "hook_loop tid ptr stop e = e"
      using False by (simp add: hook_loop.simps [of tid ptr])
    ultimately show ?thesis by (simp add: k geometry)
  qed
qed

lemma hook_routine_range_blocks:
  "hook_routine_range tid addr len e =
    (let delta = addr - address_first e
     in fold (track_block tid) [delta div kBlockSize..<(delta + len + (kBlockSize - 1)) div kBlockSize] e)"
proof -
  have "(d - d mod kBlockSize) div kBlockSize = d div kBlockSize" for d :: nat
    by (metis div_mult_self_is_m kSegmentSize_pos minus_mod_eq_mult_div mult.commute nonzero_mult_div_cancel_left
        div_mult_self1_is_m geometry(4) zero_less_numeral)
  then show ?thesis
    by (simp add: hook_routine_range_def Let_def hook_loop_fold dvd_minus_mod)
qed

lemma all_my_buckets:
  assumes "0 < n"
  shows "set (concat (map (\<lambda>tid. my_buckets tid n) [0..<n])) = {..<kMaxThreads}"
  using assms by (auto simp: my_buckets_def)

text \<open>
  Batching does not change what is copied: collecting the dirty blocks of the scan in a list
  of fixed capacity and draining it whenever it is full, and once more at the end, performs the
  copies of all blocks in the order of the scan.
\<close>

theorem batching_transparent:
  "batched cap f (scan_range start stop b) s = fold f (scan_range start stop b) s"
  by (rule batched_fold)

end
