(* ===== verification/Image_Crash.thy ===== *)
theory Image_Crash
  imports Recovery
begin

text \<open>
  What the engines on \<^verbatim>\<open>CheckpointImage\<close> share: the blocks of a segment, the memory
  a durable image stands for, the cells it depends on, and the commit of a group of segments with
  all the durable images a crash inside it can leave.
\<close>

subsection \<open>Blocks and segments\<close>

lemma block_range: "k * kBlockSize \<le> x \<and> x - k * kBlockSize < kBlockSize \<longleftrightarrow> x div kBlockSize = k"
proof -
  have "k * kBlockSize \<le> x \<and> x - k * kBlockSize < kBlockSize \<longleftrightarrow> k * kBlockSize \<le> x \<and> x < k * kBlockSize + kBlockSize"
    by auto
  then show ?thesis using div_mult_range [of kBlockSize k x] by (simp add: geometry)
qed

text \<open>The blocks that hold a byte of a range.\<close>

lemma range_blocks:
  assumes "0 < len"
  shows "set [d div kBlockSize..<(d + len + (kBlockSize - 1)) div kBlockSize] = (\<lambda>x. x div kBlockSize) ` {d..<d + len}"
proof (intro equalityI subsetI)
  fix k assume "k \<in> set [d div kBlockSize..<(d + len + (kBlockSize - 1)) div kBlockSize]"
  then have k: "d div 256 \<le> k" "k < (d + len + 255) div 256" by (simp_all add: geometry)
  have m: "k * 256 < d + len" using k(2) by (simp add: less_eq_div_iff_mult_less_eq Suc_le_eq [symmetric])
  have l: "d < k * 256 + 256" using k(1) by (simp add: div_less_iff_less_mult less_Suc_eq_le [symmetric])
  define x where "x = max d (k * 256)"
  have "x div 256 = k" "d \<le> x" "x < d + len" using m l assms by (auto simp: x_def max_def intro!: div_nat_eqI)
  then show "k \<in> (\<lambda>x. x div kBlockSize) ` {d..<d + len}" by (force simp: geometry)
next
  fix k assume "k \<in> (\<lambda>x. x div kBlockSize) ` {d..<d + len}"
  then obtain x where x: "d \<le> x" "x < d + len" "k = x div 256" by (auto simp: geometry)
  have "k * 256 \<le> x" unfolding x(3) by simp
  then have "(k + 1) * 256 \<le> d + len + 255" using x(2) by simp
  then have "k + 1 \<le> (d + len + 255) div 256" by (simp add: less_eq_div_iff_mult_less_eq)
  then show "k \<in> set [d div kBlockSize..<(d + len + (kBlockSize - 1)) div kBlockSize]"
    using div_le_mono [OF x(1), of 256] x(3) by (simp add: geometry)
qed

lemma offset_range:
  fixes a addr len :: nat
  assumes "a \<le> addr"
  shows "(\<lambda>x. x - a) ` {addr..<addr + len} = {addr - a..<addr - a + len}"
proof -
  obtain d where d: "addr = a + d" using assms le_Suc_ex by blast
  have "{a + d..<a + d + len} = (+) a ` {d..<d + len}" by (simp add: image_add_atLeastLessThan ac_simps)
  then have "(\<lambda>x. x - a) ` {a + d..<a + d + len} = (\<lambda>x. x - a) ` (+) a ` {d..<d + len}" by (rule arg_cong)
  also have "\<dots> = {d..<d + len}" unfolding image_image add_diff_cancel_left' by simp
  finally show ?thesis by (simp add: d)
qed

lemma segment_of_div: "b div kBlocksPerSegment = s \<longleftrightarrow> s * kBlocksPerSegment \<le> b \<and> b < s * kBlocksPerSegment + kBlocksPerSegment"
  using div_mult_range [of kBlocksPerSegment s b] by (simp add: geometry)

lemma segment_blocks_range:
  assumes "s < ns" and "nb = ns * kBlocksPerSegment"
  shows "min nb (s * kBlocksPerSegment + kBlocksPerSegment) = s * kBlocksPerSegment + kBlocksPerSegment"
proof -
  have "Suc s \<le> ns" using assms(1) by simp
  then have "Suc s * kBlocksPerSegment \<le> nb" unfolding assms(2) by (rule mult_le_mono1)
  then show ?thesis by (simp add: min_def)
qed

lemma scan_segment:
  assumes "s < ns" and "nb = ns * kBlocksPerSegment"
  shows "set (scan_range (s * kBlocksPerSegment) (min nb (s * kBlocksPerSegment + kBlocksPerSegment)) bd)
      = {k. k div kBlocksPerSegment = s \<and> bs_test k bd}"
proof -
  have "64 dvd s * kBlocksPerSegment" "64 dvd s * kBlocksPerSegment + kBlocksPerSegment"
    by (simp_all add: geometry)
  then show ?thesis
    unfolding segment_blocks_range [OF assms] by (auto simp: set_scan_range segment_of_div)
qed

lemma evolves_cong: "evolves P V m m' \<Longrightarrow> P = P' \<Longrightarrow> V = V' \<Longrightarrow> evolves P' V' m m'"
  by simp

subsection \<open>What an image stands for\<close>

definition stands_for :: "nat \<Rightarrow> (nat \<Rightarrow> nat) \<Rightarrow> (nat \<Rightarrow> bool) \<Rightarrow> (iloc \<Rightarrow> nat) \<Rightarrow> bool" where
  "stands_for ns snap live pm \<longleftrightarrow> img_valid pm \<and> pm HNrMain = ns \<and>
     (\<forall>x < ns * kSegmentSize. live (x div kSegmentSize) \<longrightarrow>
        (pst pm (x div kSegmentSize) = SS_Main \<or> pst pm (x div kSegmentSize) = SS_Back) \<and>
        recovered_main pm x = snap x)"

text \<open>The header of an image with identity binding.\<close>

definition header_is :: "nat \<Rightarrow> (iloc \<Rightarrow> nat) \<Rightarrow> bool" where
  "header_is ns pm \<longleftrightarrow> pm HMagic = kMetadataV2Magic \<and> pm HEpoch < 2 ^ 32 \<and> pm HNrMain = ns \<and> pm HNrBack = ns
     \<and> (\<forall>b < ns. pm (B2M b) = b) \<and> ns < kNullSegmentIndex"

lemma bound_identity_upto:
  assumes "\<forall>b < ns. pm (B2M b) = b" and "s < ns"
  shows "bound_upto ns pm s = Some s"
proof -
  have "bound_upto ns pm s \<noteq> None" using assms by (auto simp: bound_upto_None)
  then obtain b where "bound_upto ns pm s = Some b" by blast
  with bound_upto_Some [OF this] assms show ?thesis by auto
qed

lemma stands_forI:
  assumes hd: "header_is ns pm"
    and st: "\<And>s. s < ns \<Longrightarrow> live s \<Longrightarrow> pst pm s = SS_Main \<or> pst pm s = SS_Back"
    and m: "\<And>x. x div kSegmentSize < ns \<Longrightarrow> pst pm (x div kSegmentSize) = SS_Main \<Longrightarrow> pm (MainB x) = snap x"
    and b: "\<And>x. x div kSegmentSize < ns \<Longrightarrow> pst pm (x div kSegmentSize) = SS_Back \<Longrightarrow> pm (BackB x) = snap x"
  shows "stands_for ns snap live pm"
proof -
  have v: "img_valid pm" using hd by (auto simp: img_valid_def header_is_def)
  have "(pst pm (x div kSegmentSize) = SS_Main \<or> pst pm (x div kSegmentSize) = SS_Back) \<and>
        recovered_main pm x = snap x"
    if x: "x < ns * kSegmentSize" and l: "live (x div kSegmentSize)" for x
  proof -
    have s: "x div kSegmentSize < ns" using x by (simp add: div_lt_segments)
    have j: "(x div kSegmentSize) * kSegmentSize + x mod kSegmentSize = x" by simp
    have "bound_upto (pm HNrBack) pm (x div kSegmentSize) = Some (x div kSegmentSize)"
      using hd s bound_identity_upto by (auto simp: header_is_def)
    then have "recovered_main pm x = (if pst pm (x div kSegmentSize) = SS_Back then pm (BackB x) else pm (MainB x))"
      by (simp add: recovered_main_def main_upto_def Let_def j)
    with st [OF s l] m [OF s] b [OF s] show ?thesis by auto
  qed
  with v hd show ?thesis by (auto simp: stands_for_def header_is_def)
qed

text \<open>A restart brings that memory back.\<close>

lemma stands_for_restart:
  assumes "stands_for ns snap live pm"
  obtains im where "restart SS_Back pm = Some im"
    "\<And>x. x < ns * kSegmentSize \<Longrightarrow> live (x div kSegmentSize) \<Longrightarrow> rd im (MainB x) = snap x"
proof -
  have v: "img_valid pm" using assms by (simp add: stands_for_def)
  obtain im1 where re: "restart SS_Back pm = Some (commit_segment_state_update im1)"
    by (rule restart_eq [OF v]) blast
  have "rd (commit_segment_state_update im1) (MainB x) = snap x"
    if "x < ns * kSegmentSize" "live (x div kSegmentSize)" for x
    using recovery_correct(1) [OF v re, of x] assms that by (simp add: stands_for_def)
  with re that show ?thesis by blast
qed

text \<open>The cells a restart depends on.\<close>

fun protected :: "image \<Rightarrow> nat \<Rightarrow> iloc \<Rightarrow> bool" where
  "protected im ns (SegSt c s) = (c = active im \<and> s < ns)"
| "protected im ns (B2M b) = (b < ns)"
| "protected im ns (MainB x) = (x div kSegmentSize < ns \<and> get_segment_state im (x div kSegmentSize) = SS_Main)"
| "protected im ns (BackB x) = (x div kSegmentSize < ns \<and> get_segment_state im (x div kSegmentSize) = SS_Back)"
| "protected im ns HAttr = False"
| "protected im ns HMediaErr = False"
| "protected im ns _ = True"

lemma protected_header:
  assumes "header_is ns (rd im)" and "\<And>l. protected im ns l \<Longrightarrow> pm l = rd im l"
  shows "header_is ns pm" and "s < ns \<Longrightarrow> pst pm s = get_segment_state im s"
proof -
  have e: "pm HEpoch = rd im HEpoch" by (simp add: assms(2))
  show "header_is ns pm" using assms by (auto simp: header_is_def)
  show "s < ns \<Longrightarrow> pst pm s = get_segment_state im s"
    by (simp add: pst_def e get_segment_state_active assms(2) flip: active_def)
qed

lemma stands_for_protected:
  assumes "header_is ns (rd im)"
    and "\<And>s. s < ns \<Longrightarrow> live s \<Longrightarrow> get_segment_state im s = SS_Main \<or> get_segment_state im s = SS_Back"
    and "\<And>x. x div kSegmentSize < ns \<Longrightarrow> get_segment_state im (x div kSegmentSize) = SS_Main \<Longrightarrow> rd im (MainB x) = snap x"
    and "\<And>x. x div kSegmentSize < ns \<Longrightarrow> get_segment_state im (x div kSegmentSize) = SS_Back \<Longrightarrow> rd im (BackB x) = snap x"
    and pm: "\<And>l. protected im ns l \<Longrightarrow> pm l = rd im l"
  shows "stands_for ns snap live pm"
  using protected_header [OF assms(1) pm] assms(2-5) by (intro stands_forI) auto

lemma hdr_synced_quiet:
  assumes "hdr_ok im" and "synced im" and "rd im HNrMain = ns"
    and "\<And>x. x div kSegmentSize < ns \<Longrightarrow> get_segment_state im (x div kSegmentSize) = SS_Main \<Longrightarrow> quiet (nv im) (MainB x)"
    and "\<And>x. x div kSegmentSize < ns \<Longrightarrow> get_segment_state im (x div kSegmentSize) = SS_Back \<Longrightarrow> quiet (nv im) (BackB x)"
    and "protected im ns l"
  shows "quiet (nv im) l"
proof -
  have "quiet (nv im) HMagic" "quiet (nv im) HNrMain" "quiet (nv im) HNrBack" "quiet (nv im) HEpoch"
      "quiet (nv im) (B2M b)" for b
    using assms(1) by (simp_all add: hdr_ok_def)
  note h = this
  have g: "quiet (nv im) (SegSt (active im) s)" if "s < ns" for s
    using assms(2,3) that by (simp add: synced_def upd_ok_def)
  show ?thesis
  proof (cases l)
    case (SegSt c s)
    with assms(6) have "c = active im" "s < ns" by simp_all
    with g SegSt show ?thesis by simp
  next
    case (MainB x)
    show ?thesis unfolding MainB by (rule assms(4)) (use assms(6) MainB in simp_all)
  next
    case (BackB x)
    show ?thesis unfolding BackB by (rule assms(5)) (use assms(6) BackB in simp_all)
  qed (use h assms(6) in simp_all)
qed

text \<open>An evolution of the data cells leaves the header alone.\<close>

lemma evolves_image:
  assumes ev: "evolves P V (nv im) m" and V: "\<forall>l. \<not> is_data_cell l \<longrightarrow> V l = None"
    and h: "hdr_ok im" "synced im"
  defines "im' \<equiv> im\<lparr>nv := m\<rparr>"
  shows "hdr_ok im'" "synced im'" "\<not> is_data_cell l \<Longrightarrow> rd im' l = rd im l"
    "get_segment_state im' = get_segment_state im" "active im' = active im"
proof -
  note ev' = evolves_simps [OF ev]
  have n: "rd im' l = cur m l" "nv im' = m" "segment_state_dirty im' = segment_state_dirty im" for l
    by (simp_all add: im'_def rd_def)
  have r: "cur m l = rd im l" if "\<not> is_data_cell l" for l using ev'(1) V that by (simp add: rd_def)
  show a: "active im' = active im" by (simp add: active_def r n)
  show g: "get_segment_state im' = get_segment_state im"
    by (simp add: fun_eq_iff get_segment_state_active a r n)
  have q: "quiet (nv im) l \<Longrightarrow> quiet m l" "settled (nv im) l \<Longrightarrow> settled m l"
    if "\<not> is_data_cell l" for l
    using ev'(3,6) [of l] V that by simp_all
  show "hdr_ok im'" using h(1) q by (simp add: hdr_ok_def r n)
  show "synced im'" using h(2) q by (auto simp: synced_def upd_ok_def r n a g)
  show "\<not> is_data_cell l \<Longrightarrow> rd im' l = rd im l" by (simp add: n r)
qed

subsection \<open>Cells confined to sets of values\<close>

text \<open>
  \<open>confined D m\<close>: whatever happens next short of a store, cell \<open>l\<close> holds, durably or
  not, a value of \<open>D l\<close>; \<open>grows\<close> says the same of the crash points between two memories.
\<close>

definition confined :: "('l \<Rightarrow> 'v set) \<Rightarrow> ('l, 'v) nvm \<Rightarrow> bool" where
  "confined D m \<longleftrightarrow> (\<forall>l. cur m l \<in> D l \<and> dur m l \<subseteq> D l \<and> (\<forall>S. pend m l = Some S \<longrightarrow> S \<subseteq> D l))"

definition grows :: "('l \<Rightarrow> 'v set) \<Rightarrow> ('l, 'v) nvm \<Rightarrow> ('l, 'v) nvm \<Rightarrow> bool" where
  "grows D m m' \<longleftrightarrow> (\<exists>hs. hist m' = hs @ hist m \<and> (\<forall>d \<in> set hs. \<forall>l. d l \<subseteq> D l))"

lemma confined_ops:
  "confined D m \<Longrightarrow> confined D (nv_fence m)" "confined D m \<Longrightarrow> confined D (nv_flush A m)"
  "confined D m \<Longrightarrow> \<forall>l v. f l = Some v \<longrightarrow> v \<in> D l \<Longrightarrow> confined D (nv_nt f m)"
  by (auto simp: confined_def split: option.splits)

lemma grows_ops:
  "confined D m \<Longrightarrow> grows D m (nv_fence m)" "grows D m (nv_flush A m)" "grows D m (nv_nt f m)" "grows D m m"
  by (auto simp: grows_def confined_def)

lemma grows_trans: "grows D m m1 \<Longrightarrow> grows D m1 m2 \<Longrightarrow> grows D m m2"
  unfolding grows_def by (metis Un_iff append_assoc set_append)

lemma confined_safe:
  assumes "crash_safe P m" and "grows D m m'" and "confined D m'" and "\<And>pm. \<forall>l. pm l \<in> D l \<Longrightarrow> P pm"
  shows "crash_safe P m'"
proof -
  obtain hs where hs: "hist m' = hs @ hist m" "\<forall>d \<in> set hs. \<forall>l. d l \<subseteq> D l" using assms(2) by (auto simp: grows_def)
  have sat: "dur_sat P d" if "\<forall>l. d l \<subseteq> D l" for d using assms(4) that unfolding dur_sat_def by blast
  have "dur_sat P (dur m')" by (rule sat) (use assms(3) in \<open>simp add: confined_def\<close>)
  moreover have "\<forall>d \<in> set hs. dur_sat P d" using hs(2) sat by blast
  ultimately show ?thesis using assms(1) by (auto simp: crash_safe_iff hs(1))
qed

lemma confined_quiet: "confined D m \<Longrightarrow> D l = {v} \<Longrightarrow> visible m \<Longrightarrow> quiet m l \<and> cur m l = v"
  by (cases "pend m l") (fastforce simp: confined_def quiet_iff visible_def)+

lemma quiet_confined: "quiet m l \<Longrightarrow> cur m l \<in> D \<Longrightarrow> dur m l \<subseteq> D \<and> (\<forall>S. pend m l = Some S \<longrightarrow> S \<subseteq> D)"
  by (auto simp: quiet_iff)

subsection \<open>Setting the states\<close>

lemma foldM_set_state:
  assumes "state_update im" and "upd_ok im tgt" and "mirrored im tgt"
    and "\<forall>s \<in> set segs. s < rd im HNrMain"
  shows "\<exists>im'. foldM (\<lambda>s. set_segment_state s st) segs im = Some im' \<and>
     upd_ok im' (\<lambda>s. if s \<in> set segs then st else tgt s) \<and>
     mirrored im' (\<lambda>s. if s \<in> set segs then st else tgt s) \<and> main_to_back im' = main_to_back im \<and>
     hist (nv im') = hist (nv im) \<and> same_cells (\<lambda>l. \<forall>s. l \<noteq> SegSt (other (active im)) s) im im'"
  using assms
proof (induction segs arbitrary: im tgt)
  case Nil
  then show ?case by (simp add: same_cells_def)
next
  case (Cons s segs)
  have s: "s < rd im HNrMain" using Cons.prems(4) by simp
  obtain im1 where im1: "set_segment_state s st im = Some im1" "state_update im1" "upd_ok im1 (tgt(s := st))"
      "main_to_back im1 = main_to_back im" "hist (nv im1) = hist (nv im)"
    and fr: "\<And>l. l \<noteq> SegSt (other (active im)) s \<Longrightarrow> rd im1 l = rd im l \<and> dur (nv im1) l = dur (nv im) l
            \<and> pend (nv im1) l = pend (nv im) l"
    by (rule set_segment_state_ok [OF Cons.prems(1,2) s, of st]) blast
  have nm: "rd im1 HNrMain = rd im HNrMain" and act: "active im1 = active im"
    by (simp_all add: fr active_def)
  have sc: "same_cells (\<lambda>l. \<forall>s. l \<noteq> SegSt (other (active im)) s) im im1"
    using fr by (simp add: same_cells_def)
  have mir: "mirrored im1 (tgt(s := st))" by (rule mirrored_set [OF Cons.prems(3,2) s im1(1)])
  obtain im' where im': "foldM (\<lambda>s. set_segment_state s st) segs im1 = Some im'"
     "upd_ok im' (\<lambda>j. if j \<in> set segs then st else (tgt(s := st)) j)"
     "mirrored im' (\<lambda>j. if j \<in> set segs then st else (tgt(s := st)) j)" "main_to_back im' = main_to_back im1"
     "hist (nv im') = hist (nv im1)" "same_cells (\<lambda>l. \<forall>s. l \<noteq> SegSt (other (active im1)) s) im1 im'"
    using Cons.IH [OF im1(2,3) mir] Cons.prems(4) nm by auto
  have t: "(\<lambda>j. if j \<in> set segs then st else (tgt(s := st)) j) = (\<lambda>j. if j \<in> set (s # segs) then st else tgt j)"
    by (auto simp: fun_eq_iff)
  have "same_cells (\<lambda>l. \<forall>s. l \<noteq> SegSt (other (active im)) s) im im'"
    using sc im'(6) unfolding act by (simp add: same_cells_def)
  with im'(1-5) im1 show ?case by (intro exI [of _ im']) (simp add: t)
qed

lemma foldM_set_visible:
  "foldM (\<lambda>s. set_segment_state s st) segs im = Some im' \<Longrightarrow> visible (nv im) \<Longrightarrow> visible (nv im')"
  by (induction segs arbitrary: im) (auto split: option.splits dest: set_segment_state_visible)

definition commit_group :: "nat \<Rightarrow> nat list \<Rightarrow> image \<Rightarrow> image option" where
  "commit_group st segs im =
     map_option commit_segment_state_update (foldM (\<lambda>s. set_segment_state s st) segs (begin_segment_state_update im))"

lemma commit_group_visible: "commit_group st segs im = Some im' \<Longrightarrow> visible (nv im) \<Longrightarrow> visible (nv im')"
  by (auto simp: commit_group_def begin_segment_state_update_def intro!: commit_visible dest: foldM_set_visible)

text \<open>
  A commit of a group of segments: total, new states current and mirrored, all other cells unchanged, and
  every crash image is an old one, or reads all old or all new states.
\<close>

lemma commit_group_ok:
  fixes im :: image
  assumes hdr: "hdr_ok im" and syn: "synced im" and ns: "0 < rd im HNrMain"
    and sg: "\<forall>s \<in> set segs. s < rd im HNrMain"
  obtains im' where "commit_group st segs im = Some im'"
    "hdr_ok im'" "synced im'" "main_to_back im' = main_to_back im"
    "\<And>s. s < rd im HNrMain \<Longrightarrow>
       get_segment_state im' s = (if s \<in> set segs then st else get_segment_state im s)"
    "\<And>l. \<not> is_state_cell l \<Longrightarrow> rd im' l = rd im l"
    "\<And>l. \<not> is_state_cell l \<Longrightarrow> settled (nv im) l \<Longrightarrow> quiet (nv im') l"
    "\<And>pm. pm \<in> crash_images (nv im') \<Longrightarrow>
       (\<exists>d \<in> set (hist (nv im)). \<forall>l. pm l \<in> d l) \<or>
       (\<forall>l. (\<forall>s. l \<noteq> SegSt (other (active im)) s) \<longrightarrow> pm l \<in> dur (nv im) l) \<or>
       (pm HEpoch = rd im HEpoch \<and> (\<forall>s < rd im HNrMain. pst pm s = get_segment_state im s) \<or>
        pm HEpoch = next_epoch (rd im HEpoch) \<and> (\<forall>s < rd im HNrMain. pst pm s = get_segment_state im' s)) \<and>
       (\<forall>l. \<not> is_state_cell l \<longrightarrow> pm l \<in> dur (nv_fence (nv im)) l)"
proof -
  define im0 where "im0 = im"
  let ?tgt = "\<lambda>s. if s \<in> set segs then st else get_segment_state im0 s"
  let ?b = "begin_segment_state_update im0"
  note bo = begin_ok [OF syn [folded im0_def]]
  have b: "rd ?b l = rd im0 l" "nv ?b = nv im0" "active ?b = active im0" "main_to_back ?b = main_to_back im0" for l
    by (simp_all add: begin_segment_state_update_def rd_def active_def)
  obtain im1 where im1: "foldM (\<lambda>s. set_segment_state s st) segs ?b = Some im1"
     "upd_ok im1 ?tgt" "mirrored im1 ?tgt" "main_to_back im1 = main_to_back im0" "hist (nv im1) = hist (nv im0)"
     "same_cells (\<lambda>l. \<forall>s. l \<noteq> SegSt (other (active im0)) s) ?b im1"
    using foldM_set_state [OF bo(3,1,2), of segs st] sg b by (auto simp: im0_def)
  have c: "rd im1 l = rd im0 l" "dur (nv im1) l = dur (nv im0) l" "pend (nv im1) l = pend (nv im0) l"
      "quiet (nv im1) l = quiet (nv im0) l" "settled (nv im1) l = settled (nv im0) l"
    if "\<forall>s. l \<noteq> SegSt (other (active im0)) s" for l
    using im1(6) that same_cells_quiet [OF im1(6), of l] b by (simp_all add: same_cells_def)
  have nm: "rd im1 HNrMain = rd im0 HNrMain" and ep: "rd im1 HEpoch = rd im0 HEpoch" by (simp_all add: c)
  have act: "active im1 = active im0" by (simp add: active_def ep)
  have hdr1: "hdr_ok im1" using hdr by (simp add: hdr_ok_def c im0_def [symmetric])
  have gs1: "get_segment_state im1 s = get_segment_state im0 s" for s
    by (simp add: get_segment_state_active act c)
  define im' where "im' = commit_segment_state_update im1"
  have st_cells: "\<forall>s. l \<noteq> SegSt (other (active im0)) s" if "\<not> is_state_cell l" for l
    using that by (cases l) auto
  have "commit_group st segs im = Some im'"
    using im1(1) by (simp add: commit_group_def im'_def im0_def)
  moreover have "hdr_ok im'" unfolding im'_def by (rule commit_epoch_cells(3) [OF hdr1])
  moreover have "synced im'" unfolding im'_def by (rule commit_synced [OF hdr1 im1(2,3)])
  moreover have "main_to_back im' = main_to_back im" by (simp add: im'_def im1 im0_def)
  moreover have st': "get_segment_state im' s = (if s \<in> set segs then st else get_segment_state im s)"
    if "s < rd im HNrMain" for s
    using commit_states(1) [OF hdr1 im1(2), of s] that nm by (simp add: im'_def im0_def)
  moreover have "rd im' l = rd im l" if "\<not> is_state_cell l" for l
    using commit_frame(1) [OF that, of im1] c(1) [OF st_cells [OF that]] by (simp add: im'_def im0_def)
  moreover have "quiet (nv im') l" if "\<not> is_state_cell l" "settled (nv im) l" for l
    using commit_frame(2) [OF that(1), of im1] c(5) [OF st_cells [OF that(1)]] that(2) by (simp add: im'_def im0_def)
  moreover have "(\<exists>d \<in> set (hist (nv im)). \<forall>l. pm l \<in> d l) \<or>
       (\<forall>l. (\<forall>s. l \<noteq> SegSt (other (active im)) s) \<longrightarrow> pm l \<in> dur (nv im) l) \<or>
       (pm HEpoch = rd im HEpoch \<and> (\<forall>s < rd im HNrMain. pst pm s = get_segment_state im s) \<or>
        pm HEpoch = next_epoch (rd im HEpoch) \<and> (\<forall>s < rd im HNrMain. pst pm s = get_segment_state im' s)) \<and>
       (\<forall>l. \<not> is_state_cell l \<longrightarrow> pm l \<in> dur (nv_fence (nv im)) l)" (is "?H \<or> ?A \<or> ?B \<and> ?C")
    if pm: "pm \<in> crash_images (nv im')" for pm
  proof -
    have z: "0 < rd im1 HNrMain" using ns nm by (simp add: im0_def)
    consider "pm \<in> crash_images (nv im1)" |
      "(pm HEpoch = rd im1 HEpoch \<and> (\<forall>s < rd im1 HNrMain. pst pm s = get_segment_state im1 s) \<or>
      pm HEpoch = next_epoch (rd im1 HEpoch) \<and> (\<forall>s < rd im1 HNrMain. pst pm s = ?tgt s))"
      "(\<forall>l. \<not> is_state_cell l \<longrightarrow> pm l \<in> dur (nv_fence (nv im1)) l)"
      using commit_atomic [OF hdr1 im1(2) pm [unfolded im'_def] z] by blast
    then show ?thesis
    proof cases
      case 1
      then obtain d where d: "d \<in> crash_points (nv im1)" "\<forall>l. pm l \<in> d l" by (auto simp: crash_images_def)
      then consider "d = dur (nv im1)" | "d \<in> set (hist (nv im0))" by (auto simp: crash_points_def im1)
      then show ?thesis
      proof cases
        case 1
        then have ?A using d c(2) by (auto simp: im0_def)
        then show ?thesis by blast
      next
        case 2
        then show ?thesis using d by (auto simp: im0_def)
      qed
    next
      case 2
      have "dur (nv_fence (nv im1)) l = dur (nv_fence (nv im0)) l" if "\<not> is_state_cell l" for l
        using c(2,3) [OF st_cells [OF that]] by (simp split: option.splits)
      then have ?C using 2(2) by (simp add: im0_def)
      moreover have ?B using 2(1) st' nm ep gs1 by (auto simp: im0_def)
      ultimately show ?thesis by blast
    qed
  qed
  ultimately show ?thesis by (rule that)
qed

text \<open>
  Both copies of the states during a commit: when they were durable before it, a crash finds in
  every entry the old or the new state.
\<close>

lemma set_segment_state_dur:
  assumes "set_segment_state s st im = Some im'"
  shows "dur (nv im') (SegSt c j) \<subseteq> dur (nv im) (SegSt c j) \<union> (if j = s then {st} else {})"
  using assms by (auto simp: set_segment_state_def Let_def split: if_splits)

lemma foldM_set_dur:
  assumes "foldM (\<lambda>s. set_segment_state s st) segs im = Some im'"
  shows "dur (nv im') (SegSt c j) \<subseteq> dur (nv im) (SegSt c j) \<union> (if j \<in> set segs then {st} else {})"
  using assms
proof (induction segs arbitrary: im)
  case (Cons s segs)
  then obtain im1 where 1: "set_segment_state s st im = Some im1" "foldM (\<lambda>s. set_segment_state s st) segs im1 = Some im'"
    by (auto split: option.splits)
  show ?case using Cons.IH [OF 1(2)] set_segment_state_dur [OF 1(1), of c j] by (auto split: if_splits)
qed simp

lemma commit_cells:
  assumes hdr: "hdr_ok im" and upd: "upd_ok im tgt" and s: "s < rd im HNrMain" and c: "c < 2"
    and other: "dur (nv im) (SegSt (other (active im)) s) \<subseteq> {get_segment_state im s, tgt s}"
  shows "pm \<in> crash_images (nv (commit_segment_state_update im)) \<Longrightarrow>
      (\<exists>d \<in> set (hist (nv im)). \<forall>l. pm l \<in> d l) \<or> pm (SegSt c s) \<in> {get_segment_state im s, tgt s}"
    and "dur (nv (commit_segment_state_update im)) (SegSt c s) \<subseteq> {get_segment_state im s, tgt s}"
proof -
  let ?a = "active im" and ?o = "other (active im)"
  define m0 where "m0 = nv_flush (dirty_flush ?o (valid_dirty im)) (nv im)"
  define m1 where "m1 = nv_fence m0"
  define m2 where "m2 = nv_nt [HEpoch \<mapsto> next_epoch (rd im HEpoch)] m1"
  define m3 where "m3 = nv_fence m2"
  define m4 where "m4 = nv_nt (dirty_copy m3 ?o (valid_dirty im)) m3"
  have bi: "next_epoch (rd im HEpoch) mod 2 = ?o"
    using hdr by (simp add: active_def hdr_ok_def next_epoch_parity)
  have nv4: "nv (commit_segment_state_update im) = m4"
    by (simp add: commit_segment_state_update_eq Let_def bi m0_def m1_def m2_def m3_def m4_def)
  have u: "quiet (nv im) (SegSt ?a s)" "rd im (SegSt ?o s) = tgt s"
      "segment_state_dirty im (s div 64) \<or> settled (nv im) (SegSt ?o s)"
      "rd im (SegSt ?a s) = get_segment_state im s"
    using upd s by (auto simp: upd_ok_def get_segment_state_active)
  have d0: "dur m0 (SegSt c s) \<subseteq> {get_segment_state im s, tgt s}"
  proof (cases "c = ?a")
    case True
    then show ?thesis using u(1,4) by (simp add: m0_def quiet_durable rd_def)
  next
    case False
    then have "c = ?o" using c other_cases [of ?a] by (auto simp: active_def)
    then show ?thesis using other by (simp add: m0_def)
  qed
  have q1: "quiet m1 (SegSt ?a s)" "quiet m1 (SegSt ?o s)"
    using u(1,3) s by (auto simp: m1_def m0_def dirty_flush_def valid_dirty_def quiet_settled)
  have c1: "cur m1 (SegSt ?a s) = get_segment_state im s" "cur m1 (SegSt ?o s) = tgt s"
    using u(2,4) by (simp_all add: m1_def m0_def rd_def)
  have co: "c = ?a \<or> c = ?o" using c other_cases [of ?a] by (auto simp: active_def)
  have d1: "dur m1 (SegSt c s) \<subseteq> {get_segment_state im s, tgt s}"
    using co q1 c1 by (auto simp: quiet_durable)
  then have d2: "dur m2 (SegSt c s) \<subseteq> {get_segment_state im s, tgt s}" by (simp add: m2_def)
  have d3: "dur m3 (SegSt c s) \<subseteq> {get_segment_state im s, tgt s}"
    using d1 by (simp add: m3_def m2_def m1_def)
  have "cur m3 (SegSt ?o s) = tgt s" using c1 by (simp add: m3_def m2_def)
  then have d4: "dur m4 (SegSt c s) \<subseteq> {get_segment_state im s, tgt s}"
    using d3 co by (auto simp: m4_def dirty_copy_def)
  show "(\<exists>d \<in> set (hist (nv im)). \<forall>l. pm l \<in> d l) \<or> pm (SegSt c s) \<in> {get_segment_state im s, tgt s}"
    if pm: "pm \<in> crash_images (nv (commit_segment_state_update im))"
  proof -
    obtain d where d: "d \<in> crash_points m4" "\<forall>l. pm l \<in> d l" using pm by (auto simp: nv4 crash_images_def)
    have "hist m4 = dur m2 # dur m0 # hist (nv im)" by (simp add: m0_def m1_def m2_def m3_def m4_def)
    then consider "d = dur m4" | "d = dur m2" | "d = dur m0" | "d \<in> set (hist (nv im))"
      using d(1) by (auto simp: crash_points_def)
    then show ?thesis using d(2) d0 d2 d4 by cases auto
  qed
  show "dur (nv (commit_segment_state_update im)) (SegSt c s) \<subseteq> {get_segment_state im s, tgt s}"
    unfolding nv4 by (rule d4)
qed

text \<open>
  The commit of a group in one rule: a predicate on durable images is safe if it holds of every
  image with the old header cells, the old data where it was durable, the states of the commit all
  old or all new, and one of the two states in every entry.
\<close>

lemma commit_group_safe:
  assumes hdr: "hdr_ok im" and syn: "synced im" and hd: "header_is ns (rd im)" and ns: "0 < ns"
    and sg: "\<forall>s \<in> set segs. s < ns" and pe: "pend (nv im) = (\<lambda>_. None)" and cr: "crash_safe P (nv im)"
    and P: "\<And>pm g. header_is ns pm \<Longrightarrow> \<forall>l. is_data_cell l \<and> quiet (nv im) l \<longrightarrow> pm l = rd im l \<Longrightarrow>
      g = get_segment_state im \<or> g = (\<lambda>s. if s \<in> set segs then st else get_segment_state im s) \<Longrightarrow>
      \<forall>s < ns. pst pm s = g s \<Longrightarrow>
      \<forall>s < ns. \<forall>c < 2. pm (SegSt c s) = get_segment_state im s \<or> s \<in> set segs \<and> pm (SegSt c s) = st \<Longrightarrow> P pm"
  obtains im' where "commit_group st segs im = Some im'" "hdr_ok im'" "synced im'" "header_is ns (rd im')"
    "main_to_back im' = main_to_back im"
    "\<And>s. s < ns \<Longrightarrow> get_segment_state im' s = (if s \<in> set segs then st else get_segment_state im s)"
    "\<And>l. \<not> is_state_cell l \<Longrightarrow> rd im' l = rd im l"
    "\<And>l. \<not> is_state_cell l \<Longrightarrow> settled (nv im) l \<Longrightarrow> quiet (nv im') l"
    "\<And>s c. s < ns \<Longrightarrow> c < 2 \<Longrightarrow> dur (nv im') (SegSt c s) \<subseteq> {get_segment_state im s, if s \<in> set segs then st else get_segment_state im s}"
    "crash_safe P (nv im')"
proof -
  have nm: "rd im HNrMain = ns" using hd by (simp add: header_is_def)
  let ?new = "\<lambda>s. if s \<in> set segs then st else get_segment_state im s"
  have sg': "\<forall>s \<in> set segs. s < rd im HNrMain" using sg nm by simp
  obtain im' where im': "commit_group st segs im = Some im'"
    "hdr_ok im'" "synced im'" "main_to_back im' = main_to_back im"
    "\<And>s. s < rd im HNrMain \<Longrightarrow> get_segment_state im' s = ?new s"
    "\<And>l. \<not> is_state_cell l \<Longrightarrow> rd im' l = rd im l"
    "\<And>l. \<not> is_state_cell l \<Longrightarrow> settled (nv im) l \<Longrightarrow> quiet (nv im') l"
    and crash: "\<And>pm. pm \<in> crash_images (nv im') \<Longrightarrow>
       (\<exists>d \<in> set (hist (nv im)). \<forall>l. pm l \<in> d l) \<or>
       (\<forall>l. (\<forall>s. l \<noteq> SegSt (other (active im)) s) \<longrightarrow> pm l \<in> dur (nv im) l) \<or>
       (pm HEpoch = rd im HEpoch \<and> (\<forall>s < rd im HNrMain. pst pm s = get_segment_state im s) \<or>
        pm HEpoch = next_epoch (rd im HEpoch) \<and> (\<forall>s < rd im HNrMain. pst pm s = get_segment_state im' s)) \<and>
       (\<forall>l. \<not> is_state_cell l \<longrightarrow> pm l \<in> dur (nv_fence (nv im)) l)"
    by (rule commit_group_ok [OF hdr syn _ sg', where st = st]) (use ns nm in auto)
  have hd': "header_is ns (rd im')"
    using hd im'(2) unfolding header_is_def hdr_ok_def by (simp add: im'(6))
  have durf: "dur (nv_fence (nv im)) = dur (nv im)" by (simp add: fun_eq_iff pe)
  have dq: "pm l = rd im l" if "pm l \<in> dur (nv im) l" "quiet (nv im) l" for pm l
    using that by (simp add: quiet_durable rd_def)
  have hq: "quiet (nv im) l" if "l \<in> {HMagic, HNrMain, HNrBack, HEpoch} \<union> range B2M" for l
    using that hdr by (auto simp: hdr_ok_def)
  have sq: "quiet (nv im) (SegSt (active im) s)" if "s < ns" for s
    using syn nm that by (simp add: synced_def upd_ok_def)
  obtain im1 where im1: "foldM (\<lambda>s. set_segment_state s st) segs (begin_segment_state_update im) = Some im1"
    "im' = commit_segment_state_update im1"
    using im'(1) by (auto simp: commit_group_def)
  let ?b = "begin_segment_state_update im"
  note bo = begin_ok [OF syn]
  have b: "rd ?b l = rd im l" "nv ?b = nv im" "active ?b = active im" for l
    by (simp_all add: begin_segment_state_update_def rd_def active_def)
  have u: "upd_ok im1 ?new" "hist (nv im1) = hist (nv im)"
     "same_cells (\<lambda>l. \<forall>s. l \<noteq> SegSt (other (active im)) s) ?b im1"
    using foldM_set_state [OF bo(3,1,2), of segs st] sg' im1(1) by (auto simp: b)
  have c: "rd im1 l = rd im l" "quiet (nv im1) l = quiet (nv im) l" if "\<forall>s. l \<noteq> SegSt (other (active im)) s" for l
    using u(3) that same_cells_quiet [OF u(3), of l] b by simp_all
  have act: "active im1 = active im" by (simp add: active_def c)
  have gs: "get_segment_state im1 s = get_segment_state im s" for s by (simp add: get_segment_state_active act c)
  have hdr1: "hdr_ok im1" using hdr by (simp add: hdr_ok_def c)
  have dur1: "dur (nv im1) (SegSt (other (active im1)) s) \<subseteq> {get_segment_state im1 s, ?new s}" if s: "s < ns" for s
  proof -
    have q: "quiet (nv im) (SegSt (other (active im)) s)" "rd im (SegSt (other (active im)) s) = get_segment_state im s"
      using syn nm s pe by (auto simp: synced_def upd_ok_def settled_quiet)
    then show ?thesis
      using foldM_set_dur [OF im1(1), of "other (active im)" s] by (auto simp: act gs b quiet_durable rd_def split: if_splits)
  qed
  have nm1: "rd im1 HNrMain = ns" using nm by (simp add: c)
  note cc = commit_cells [OF hdr1 u(1) _ _ dur1, unfolded nm1]
  have cells: "pm (SegSt c s) = get_segment_state im s \<or> s \<in> set segs \<and> pm (SegSt c s) = st"
    if pm: "pm \<in> crash_images (nv im')" "\<not> (\<exists>d \<in> set (hist (nv im)). \<forall>l. pm l \<in> d l)" and s: "s < ns" and "c < 2" for pm s c
    using cc(1) [OF s \<open>c < 2\<close> s, of pm] pm by (auto simp: im1(2) u(2) gs split: if_splits)
  have durs: "dur (nv im') (SegSt c s) \<subseteq> {get_segment_state im s, ?new s}" if "s < ns" "c < 2" for s c
    using cc(2) [OF that(1,2,1)] by (simp add: im1(2) gs)
  have safe: "crash_safe P (nv im')"
    unfolding crash_safe_def
  proof
    fix pm assume pm: "pm \<in> crash_images (nv im')"
    show "P pm"
    proof (cases "\<exists>d \<in> set (hist (nv im)). \<forall>l. pm l \<in> d l")
      case True
      then have "pm \<in> crash_images (nv im)" by (auto simp: crash_images_def crash_points_def)
      then show ?thesis using cr by (simp add: crash_safe_def)
    next
      case nh: False
      have cl: "\<forall>s < ns. \<forall>c < 2. pm (SegSt c s) = get_segment_state im s \<or> s \<in> set segs \<and> pm (SegSt c s) = st"
        using cells [OF pm nh] by blast
      from crash [OF pm] nh nm
      consider (d) "\<forall>l. (\<forall>s. l \<noteq> SegSt (other (active im)) s) \<longrightarrow> pm l \<in> dur (nv im) l"
        | (o) "pm HEpoch = rd im HEpoch" "\<forall>s < ns. pst pm s = get_segment_state im s" "\<forall>l. \<not> is_state_cell l \<longrightarrow> pm l \<in> dur (nv im) l"
        | (n) "pm HEpoch = next_epoch (rd im HEpoch)" "\<forall>s < ns. pst pm s = get_segment_state im' s"
            "\<forall>l. \<not> is_state_cell l \<longrightarrow> pm l \<in> dur (nv im) l"
        unfolding durf by metis
      then show ?thesis
      proof cases
        case d
        have v: "pm l = rd im l" if "\<forall>s. l \<noteq> SegSt (other (active im)) s" "quiet (nv im) l" for l
          using d that dq by blast
        have "header_is ns pm" using hd by (simp add: header_is_def v hq)
        moreover have "pst pm s = get_segment_state im s" if "s < ns" for s
          using sq [OF that] by (simp add: pst_def get_segment_state_active v hq flip: active_def)
        ultimately show ?thesis by (intro P [OF _ _ disjI1 [OF refl] _ cl]) (auto intro!: v)
      next
        case o
        have v: "pm l = rd im l" if "\<not> is_state_cell l" "quiet (nv im) l" for l using o(3) that dq by blast
        have "header_is ns pm" using hd by (simp add: header_is_def v hq o(1))
        then show ?thesis by (intro P [OF _ _ disjI1 [OF refl] o(2) cl]) (auto intro!: v simp: data_not_state)
      next
        case n
        have v: "pm l = rd im l" if "\<not> is_state_cell l" "quiet (nv im) l" for l using n(3) that dq by blast
        have "header_is ns pm" using hd by (simp add: header_is_def v hq n(1))
        moreover have "\<forall>s < ns. pst pm s = ?new s" using n(2) im'(5) nm by simp
        ultimately show ?thesis by (intro P [OF _ _ disjI2 [OF refl] _ cl]) (auto intro!: v simp: data_not_state)
      qed
    qed
  qed
  show ?thesis by (rule that [OF im'(1-3) hd' im'(4) _ _ _ durs safe]) (use im'(5-7) nm in auto)
qed

subsection \<open>A freshly initialised image\<close>

lemma fold_bind_table_identity:
  assumes "\<And>b. b < n \<Longrightarrow> cur m (B2M b) = b" and "n < kNullSegmentIndex"
  shows "fold (bind_table m) [0..<n] tab = (\<lambda>s. if s < n then s else tab s)"
  using assms
proof (induction n)
  case 0
  then show ?case by simp
next
  case (Suc n)
  then show ?case by (auto simp: bind_table_def fun_eq_iff)
qed

lemma Open_initialize_ok:
  assumes pm: "\<And>x. pm (BackB x) = pm (MainB x)" and n: "ns < kNullSegmentIndex"
  defines "im \<equiv> Open_initialize ns ns (nv_init pm)"
  shows "header_is ns (rd im)" "hdr_ok im" "synced im" "s < ns \<Longrightarrow> get_segment_state im s = SS_Initial"
    "s < ns \<Longrightarrow> main_to_back im s = s" "quiet (nv im) (MainB x)" "quiet (nv im) (BackB x)"
    "rd im (MainB x) = pm (MainB x)" "rd im (BackB x) = pm (MainB x)"
proof -
  define m where "m = nv im"
  have r: "rd im HMagic = kMetadataV2Magic" "rd im HEpoch = 0" "rd im HNrMain = ns" "rd im HNrBack = ns"
    "b < ns \<Longrightarrow> rd im (B2M b) = b" "c < 2 \<Longrightarrow> s < ns \<Longrightarrow> rd im (SegSt c s) = SS_Initial"
    "rd im (MainB x) = pm (MainB x)" "rd im (BackB x) = pm (BackB x)" for b c s x
    by (simp_all add: im_def Open_initialize_def Let_def attach_def rd_def)
  have q: "quiet m l" if "is_header_cell l" for l
    using that by (simp add: m_def im_def Open_initialize_def Let_def attach_def)
  show "header_is ns (rd im)" using n r by (simp add: header_is_def)
  show "hdr_ok im" using r q by (simp add: hdr_ok_def is_header_cell_def flip: m_def)
  have act: "active im = 0" by (simp add: active_def r)
  show gs: "s < ns \<Longrightarrow> get_segment_state im s = SS_Initial" for s by (simp add: get_segment_state_active act r)
  have "\<not> segment_state_dirty im k" for k by (simp add: im_def Open_initialize_def Let_def attach_def)
  then show "synced im"
    using r q gs by (simp add: synced_def upd_ok_def act other_def quiet_settled is_header_cell_def flip: m_def)
  have "main_to_back im = fold (bind_table m) [0..<rd im HNrBack] (\<lambda>_. kNullSegmentIndex)"
    by (simp add: im_def m_def Open_initialize_def Let_def attach_def rd_def)
  then show "s < ns \<Longrightarrow> main_to_back im s = s"
    using fold_bind_table_identity [of ns m "\<lambda>_. kNullSegmentIndex"] n r(4,5) by (simp add: rd_def m_def)
  show "quiet (nv im) (MainB x)" "quiet (nv im) (BackB x)"
    by (simp_all add: im_def Open_initialize_def Let_def attach_def is_header_cell_def quiet_settled)
  show "rd im (MainB x) = pm (MainB x)" "rd im (BackB x) = pm (MainB x)" using r pm by simp_all
qed

end
