(* ===== verification/NvmInst_Phases.thy ===== *)
theory NvmInst_Phases
  imports NvmInst Image_Crash
begin

text \<open>
  The phases of a checkpoint and the copy-on-write of a segment, each as one evolution of the
  persistent memory (\<open>evolves\<close>) or as one update of the segment states. The lemmas are for an
  image in which back segment \<open>s\<close> is bound to main segment \<open>s\<close>, which is how
  \<^verbatim>\<open>Open\<close> initialises it and how it stays when there are as many back as main segments.
\<close>

definition with_nv :: "imem \<Rightarrow> engine \<Rightarrow> engine" where
  "with_nv m e = map_nv (\<lambda>_. m) e"

lemma with_nv_simps [simp]:
  "nv (eimg (with_nv m e)) = m" "with_nv m (with_nv m' e) = with_nv m e"
  "main_to_back (eimg (with_nv m e)) = main_to_back (eimg e)"
  "segment_state_dirty (eimg (with_nv m e)) = segment_state_dirty (eimg e)"
  "state_update (eimg (with_nv m e)) = state_update (eimg e)"
  "flush_blocks (with_nv m e) = flush_blocks e" "mode (with_nv m e) = mode e"
  "nr_segments (with_nv m e) = nr_segments e" "capacity (with_nv m e) = capacity e"
  "block_dirty (with_nv m e) = block_dirty e" "segment_dirty (with_nv m e) = segment_dirty e"
  by (simp_all add: with_nv_def map_nv_def map_img_def nv_upd_def)

lemma map_nv_with: "map_nv f e = with_nv (f (nv (eimg e))) e"
  by (simp add: with_nv_def map_nv_def map_img_def nv_upd_def)

lemma with_nv_id: "with_nv (nv (eimg e)) e = e"
  by (simp add: with_nv_def map_nv_def map_img_def nv_upd_def)

lemma fold_map_nv: "fold (\<lambda>x. map_nv (F x)) xs e = with_nv (fold F xs (nv (eimg e))) e"
  by (induction xs arbitrary: e) (simp_all add: map_nv_with with_nv_id)

subsection \<open>Block copies\<close>

text \<open>The back bytes of the blocks in \<open>K\<close>, with the main bytes they receive.\<close>

fun mirror_map :: "imem \<Rightarrow> (nat \<Rightarrow> bool) \<Rightarrow> iloc \<rightharpoonup> nat" where
  "mirror_map m K (BackB x) = (if K (x div kBlockSize) then Some (cur m (MainB x)) else None)"
| "mirror_map m K _ = None"

lemma mirror_map_None: "mirror_map m K l = None \<longleftrightarrow> (\<forall>x. l = BackB x \<longrightarrow> \<not> K (x div kBlockSize))"
  by (cases l) auto

lemma mirror_map_empty [simp]: "mirror_map m (\<lambda>_. False) = Map.empty"
proof
  show "mirror_map m (\<lambda>_. False) l = None" for l by (cases l) auto
qed

lemma mirror_map_add:
  assumes "\<And>x. cur m' (MainB x) = cur m (MainB x)"
  shows "mirror_map m K ++ mirror_map m' K' = mirror_map m (\<lambda>k. K k \<or> K' k)"
proof
  fix l show "(mirror_map m K ++ mirror_map m' K') l = mirror_map m (\<lambda>k. K k \<or> K' k) l"
    using assms by (cases l) (auto simp: map_add_def)
qed

lemma NonTemporalCopy_block:
  "NonTemporalCopy (back_at (k * kBlockSize)) (main_cell (k * kBlockSize)) kBlockSize m
     = nv_nt (mirror_map m (\<lambda>j. j = k)) m"
proof -
  have "(\<lambda>l. case back_at (k * kBlockSize) l of Some i \<Rightarrow>
          if i < kBlockSize then Some (cur m (main_cell (k * kBlockSize) i)) else None | None \<Rightarrow> None)
      = mirror_map m (\<lambda>j. j = k)"
  proof
    fix l
    show "(case back_at (k * kBlockSize) l of Some i \<Rightarrow>
          if i < kBlockSize then Some (cur m (main_cell (k * kBlockSize) i)) else None | None \<Rightarrow> None)
      = mirror_map m (\<lambda>j. j = k) l"
      using block_range [of k] by (cases l) (auto simp: main_cell_def)
  qed
  then show ?thesis by (simp add: NonTemporalCopy_def)
qed

lemma evolves_copies:
  "evolves (\<lambda>_. False) (mirror_map m (\<lambda>k. k \<in> set ks)) m
     (fold (\<lambda>k. NonTemporalCopy (back_at (k * kBlockSize)) (main_cell (k * kBlockSize)) kBlockSize) ks m)"
proof (induction ks arbitrary: m)
  case Nil
  then show ?case by (simp add: evolves_refl)
next
  case (Cons k ks)
  define m1 where "m1 = nv_nt (mirror_map m (\<lambda>j. j = k)) m"
  have c: "cur m1 (MainB x) = cur m (MainB x)" for x by (simp add: m1_def)
  have "evolves (\<lambda>_. False) (mirror_map m (\<lambda>j. j = k)) m m1"
    unfolding m1_def by (rule evolves_nt)
  from evolves_trans [OF this Cons.IH [of m1]] show ?case
    by (simp add: NonTemporalCopy_block m1_def [symmetric] mirror_map_add [OF c])
qed

subsection \<open>The flush phase\<close>

definition bucket_cell :: "engine \<Rightarrow> nat list \<Rightarrow> iloc \<Rightarrow> bool" where
  "bucket_cell e is l \<longleftrightarrow> (\<exists>i \<in> set is. \<exists>b \<in> set (flush_blocks e i). in_block b l)"

lemma flush_bucket_with:
  "flush_bucket i e = with_nv (nv_flush (bucket_cell e [i]) (nv (eimg e))) e"
  unfolding flush_bucket_def flush_block_def fold_map_nv nv_flush_fold
  by (rule arg_cong [of _ _ "\<lambda>P. with_nv (nv_flush P _) e"]) (auto simp: bucket_cell_def fun_eq_iff)

lemma flush_buckets_with:
  "fold flush_bucket is e = with_nv (nv_flush (bucket_cell e is) (nv (eimg e))) e"
proof (induction "is" arbitrary: e)
  case Nil
  have "bucket_cell e [] = (\<lambda>_. False)" by (simp add: bucket_cell_def fun_eq_iff)
  then show ?case by (simp add: with_nv_id)
next
  case (Cons i "is")
  let ?e1 = "with_nv (nv_flush (bucket_cell e [i]) (nv (eimg e))) e"
  have u: "(\<lambda>l. bucket_cell e is l \<or> bucket_cell e [i] l) = bucket_cell e (i # is)"
    by (auto simp: bucket_cell_def fun_eq_iff)
  have "bucket_cell ?e1 is = bucket_cell e is" by (simp add: bucket_cell_def fun_eq_iff)
  then show ?case
    unfolding fold_simps flush_bucket_with [of i e] Cons.IH by (simp add: nv_flush_flush u)
qed

definition flushed :: "engine \<Rightarrow> nat \<Rightarrow> nat list \<Rightarrow> iloc \<Rightarrow> bool" where
  "flushed e n tids l \<longleftrightarrow> (if mode e = FMODE_WBINVD then 0 \<in> set tids
     else \<exists>tid \<in> set tids. bucket_cell e (my_buckets tid n) l)"

lemma flush_parallel_evolves:
  "\<exists>m'. flush_parallel n tid e = with_nv m' e \<and> pend m' = (\<lambda>_. None) \<and>
     evolves (flushed e n [tid]) Map.empty (nv (eimg e)) m'"
proof -
  let ?B = "\<lambda>l. if mode e = FMODE_WBINVD then tid = 0 else bucket_cell e (my_buckets tid n) l"
  have B: "flushed e n [tid] = ?B" by (auto simp: flushed_def fun_eq_iff)
  have "flush_parallel n tid e = with_nv (nv_fence (nv_flush ?B (nv (eimg e)))) e"
    by (cases "tid = 0") (simp_all add: flush_parallel_def Let_def map_nv_with flush_buckets_with)
  moreover have "evolves ?B Map.empty (nv (eimg e)) (nv_fence (nv_flush ?B (nv (eimg e))))"
    by (rule evolves_cong [OF evolves_trans [OF evolves_flush evolves_fence]]) auto
  ultimately show ?thesis unfolding B by (intro exI conjI) simp_all
qed

lemma flush_parallels_evolve:
  "\<exists>m'. fold (flush_parallel n) tids e = with_nv m' e \<and> (tids \<noteq> [] \<longrightarrow> pend m' = (\<lambda>_. None)) \<and>
     evolves (flushed e n tids) Map.empty (nv (eimg e)) m'"
proof (induction tids arbitrary: e)
  case Nil
  have "flushed e n [] = (\<lambda>_. False)" by (simp add: flushed_def fun_eq_iff)
  then show ?case using evolves_refl [of "nv (eimg e)"] by (intro exI [of _ "nv (eimg e)"]) (simp add: with_nv_id)
next
  case (Cons tid tids)
  obtain m1 where m1: "flush_parallel n tid e = with_nv m1 e" "pend m1 = (\<lambda>_. None)"
      "evolves (flushed e n [tid]) Map.empty (nv (eimg e)) m1"
    using flush_parallel_evolves by blast
  obtain m2 where m2: "fold (flush_parallel n) tids (with_nv m1 e) = with_nv m2 (with_nv m1 e)"
      "tids \<noteq> [] \<longrightarrow> pend m2 = (\<lambda>_. None)" "evolves (flushed (with_nv m1 e) n tids) Map.empty m1 m2"
    using Cons.IH [of "with_nv m1 e"] by auto
  have "(\<lambda>l. flushed e n [tid] l \<or> flushed (with_nv m1 e) n tids l) = flushed e n (tid # tids)"
    by (auto simp: flushed_def bucket_cell_def fun_eq_iff)
  then have ev: "evolves (flushed e n (tid # tids)) Map.empty (nv (eimg e)) m2"
    using evolves_trans [OF m1(3) m2(3)] by simp
  have pe: "pend m2 = (\<lambda>_. None)" if "tids = []"
    using m2(1) m1(2) that by (metis fold_simps(1) with_nv_simps(1))
  show ?case
    using m1(1) m2(1,2) pe ev by (intro exI [of _ m2]) auto
qed

lemma flush_phase:
  assumes "0 < n"
  obtains m' where "fold (flush_parallel n) [0..<n] e = with_nv m' e" "pend m' = (\<lambda>_. None)"
    "evolves (\<lambda>l. mode e = FMODE_WBINVD \<or> (\<exists>b \<in> set (all_buckets e). in_block b l)) Map.empty (nv (eimg e)) m'"
proof -
  have "flushed e n [0..<n] = (\<lambda>l. mode e = FMODE_WBINVD \<or> (\<exists>b \<in> set (all_buckets e). in_block b l))"
    using assms mod_less_divisor [OF assms]
    by (fastforce simp: flushed_def bucket_cell_def my_buckets_def all_buckets_def fun_eq_iff)
  then show ?thesis
    using flush_parallels_evolve [of n "[0..<n]" e] assms that by auto
qed

subsection \<open>The write-back phase\<close>

definition bound_identity :: "engine \<Rightarrow> bool" where
  "bound_identity e \<longleftrightarrow> (\<forall>s < nr_segments e. main_to_back (eimg e) s = s \<and> s \<noteq> kNullSegmentIndex)"

lemma bound_identity_with [simp]: "bound_identity (with_nv m e) = bound_identity e"
  by (simp add: bound_identity_def)

lemma find_back_bound:
  assumes "bound_identity e" and "s < nr_segments e"
  shows "find_back_segment s e = Some (s, False, e)"
  using assms by (simp add: find_back_segment_def get_main_to_back_def bound_identity_def Let_def)

lemma write_back_block_bound:
  assumes "bound_identity e" and "b div kBlocksPerSegment < nr_segments e"
  shows "write_back_block b e = Some (with_nv (nv_nt (mirror_map (nv (eimg e)) (\<lambda>k. k = b)) (nv (eimg e))) e)"
  by (simp add: write_back_block_def find_back_block_def find_back_bound [OF assms] copy_block_def
      get_back_block_def get_main_block_def map_nv_with NonTemporalCopy_block)

lemma write_back_blocks:
  assumes "bound_identity e" and "\<forall>b \<in> set bs. b div kBlocksPerSegment < nr_segments e"
  shows "\<exists>m'. foldM write_back_block bs e = Some (with_nv m' e) \<and>
    evolves (\<lambda>_. False) (mirror_map (nv (eimg e)) (\<lambda>k. k \<in> set bs)) (nv (eimg e)) m'"
  using assms
proof (induction bs arbitrary: e)
  case Nil
  then show ?case by (intro exI [of _ "nv (eimg e)"]) (simp add: with_nv_id evolves_refl)
next
  case (Cons b bs)
  define m1 where "m1 = nv_nt (mirror_map (nv (eimg e)) (\<lambda>k. k = b)) (nv (eimg e))"
  have c: "cur m1 (MainB x) = cur (nv (eimg e)) (MainB x)" for x by (simp add: m1_def)
  have st: "write_back_block b e = Some (with_nv m1 e)"
    using Cons.prems by (simp add: write_back_block_bound m1_def)
  obtain m2 where m2: "foldM write_back_block bs (with_nv m1 e) = Some (with_nv m2 (with_nv m1 e))"
      "evolves (\<lambda>_. False) (mirror_map m1 (\<lambda>k. k \<in> set bs)) m1 m2"
    using Cons.IH [of "with_nv m1 e"] Cons.prems by auto
  have "evolves (\<lambda>_. False) (mirror_map (nv (eimg e)) (\<lambda>k. k = b)) (nv (eimg e)) m1"
    unfolding m1_def by (rule evolves_nt)
  from evolves_trans [OF this m2(2)] st m2(1) show ?case
    by (intro exI [of _ m2]) (simp add: mirror_map_add [OF c])
qed

definition buckets_of :: "engine \<Rightarrow> nat list \<Rightarrow> nat \<Rightarrow> bool" where
  "buckets_of e is k \<longleftrightarrow> (\<exists>i \<in> set is. k \<in> set (flush_blocks e i))"

lemma write_back_buckets:
  assumes "bound_identity e" and "\<forall>i. \<forall>b \<in> set (flush_blocks e i). b div kBlocksPerSegment < nr_segments e"
  shows "\<exists>m'. foldM (\<lambda>i e. foldM write_back_block (flush_blocks e i) e) is e = Some (with_nv m' e) \<and>
    evolves (\<lambda>_. False) (mirror_map (nv (eimg e)) (buckets_of e is)) (nv (eimg e)) m'"
  using assms
proof (induction "is" arbitrary: e)
  case Nil
  have "buckets_of e [] = (\<lambda>_. False)" by (simp add: buckets_of_def fun_eq_iff)
  then show ?case by (intro exI [of _ "nv (eimg e)"]) (simp add: with_nv_id evolves_refl)
next
  case (Cons i "is")
  obtain m1 where m1: "foldM write_back_block (flush_blocks e i) e = Some (with_nv m1 e)"
      "evolves (\<lambda>_. False) (mirror_map (nv (eimg e)) (\<lambda>k. k \<in> set (flush_blocks e i))) (nv (eimg e)) m1"
    using write_back_blocks [of e "flush_blocks e i"] Cons.prems by auto
  have c: "cur m1 (MainB x) = cur (nv (eimg e)) (MainB x)" for x
    using evolves_simps(1) [OF m1(2), of "MainB x"] by simp
  obtain m2 where m2: "foldM (\<lambda>i e. foldM write_back_block (flush_blocks e i) e) is (with_nv m1 e) = Some (with_nv m2 e)"
      "evolves (\<lambda>_. False) (mirror_map m1 (buckets_of (with_nv m1 e) is)) m1 m2"
    using Cons.IH [of "with_nv m1 e"] Cons.prems by auto
  have "(\<lambda>k. k \<in> set (flush_blocks e i) \<or> buckets_of (with_nv m1 e) is k) = buckets_of e (i # is)"
    by (auto simp: buckets_of_def fun_eq_iff)
  then have "evolves (\<lambda>_. False) (mirror_map (nv (eimg e)) (buckets_of e (i # is))) (nv (eimg e)) m2"
    using evolves_trans [OF m1(2) m2(2)] by (simp add: mirror_map_add [OF c])
  with m1(1) m2(1) show ?case by auto
qed

lemma write_back_parallels:
  assumes "bound_identity e" and "\<forall>i. \<forall>b \<in> set (flush_blocks e i). b div kBlocksPerSegment < nr_segments e"
    and "mode e = FMODE_USE_FLUSH_BLOCKS"
  shows "\<exists>m'. foldM (write_back_parallel n) tids e = Some (with_nv m' e) \<and>
    (tids \<noteq> [] \<longrightarrow> pend m' = (\<lambda>_. None)) \<and>
    evolves (\<lambda>_. False) (mirror_map (nv (eimg e)) (\<lambda>k. \<exists>tid \<in> set tids. buckets_of e (my_buckets tid n) k))
      (nv (eimg e)) m'"
  using assms
proof (induction tids arbitrary: e)
  case Nil
  then show ?case by (intro exI [of _ "nv (eimg e)"]) (simp add: with_nv_id evolves_refl)
next
  case (Cons tid tids)
  let ?V = "mirror_map (nv (eimg e)) (buckets_of e (my_buckets tid n))"
  obtain m0 where m0: "foldM (\<lambda>i e. foldM write_back_block (flush_blocks e i) e) (my_buckets tid n) e = Some (with_nv m0 e)"
      "evolves (\<lambda>_. False) ?V (nv (eimg e)) m0"
    using write_back_buckets [OF Cons.prems(1,2)] by blast
  define m1 where "m1 = nv_fence m0"
  have st: "write_back_parallel n tid e = Some (with_nv m1 e)"
    using m0(1) Cons.prems(3) by (simp add: write_back_parallel_def map_nv_with m1_def)
  have ev1: "evolves (\<lambda>_. False) ?V (nv (eimg e)) m1"
    using evolves_trans [OF m0(2) evolves_fence] by (simp add: m1_def)
  have c: "cur m1 (MainB x) = cur (nv (eimg e)) (MainB x)" for x
    using evolves_simps(1) [OF ev1, of "MainB x"] by simp
  let ?K = "\<lambda>k. \<exists>tid \<in> set tids. buckets_of (with_nv m1 e) (my_buckets tid n) k"
  obtain m2 where m2: "foldM (write_back_parallel n) tids (with_nv m1 e) = Some (with_nv m2 (with_nv m1 e))"
      "tids \<noteq> [] \<longrightarrow> pend m2 = (\<lambda>_. None)" "evolves (\<lambda>_. False) (mirror_map m1 ?K) m1 m2"
    using Cons.IH [of "with_nv m1 e"] Cons.prems by auto
  have "(\<lambda>k. buckets_of e (my_buckets tid n) k \<or> ?K k)
      = (\<lambda>k. \<exists>tid \<in> set (tid # tids). buckets_of e (my_buckets tid n) k)"
    by (auto simp: buckets_of_def fun_eq_iff)
  then have ev: "evolves (\<lambda>_. False)
      (mirror_map (nv (eimg e)) (\<lambda>k. \<exists>tid \<in> set (tid # tids). buckets_of e (my_buckets tid n) k)) (nv (eimg e)) m2"
    using evolves_trans [OF ev1 m2(3)] by (simp add: mirror_map_add [OF c])
  have "pend m2 = (\<lambda>_. None)"
  proof (cases "tids = []")
    case True
    then have "with_nv m1 e = with_nv m2 e" using m2(1) by simp
    then have "m2 = m1" by (metis with_nv_simps(1))
    then show ?thesis by (simp add: m1_def)
  qed (use m2(2) in simp)
  then show ?case using st m2(1) ev by (intro exI [of _ m2]) simp
qed

lemma write_back_phase:
  assumes "0 < n" and "bound_identity e"
    and "\<forall>i. \<forall>b \<in> set (flush_blocks e i). b div kBlocksPerSegment < nr_segments e"
    and "mode e = FMODE_USE_FLUSH_BLOCKS"
  obtains m' where "foldM (write_back_parallel n) [0..<n] e = Some (with_nv m' e)" "pend m' = (\<lambda>_. None)"
    "evolves (\<lambda>_. False) (mirror_map (nv (eimg e)) (\<lambda>k. k \<in> set (all_buckets e))) (nv (eimg e)) m'"
proof -
  have "(\<lambda>k. \<exists>tid \<in> set [0..<n]. buckets_of e (my_buckets tid n) k) = (\<lambda>k. k \<in> set (all_buckets e))"
    using mod_less_divisor [OF assms(1)]
    by (fastforce simp: buckets_of_def my_buckets_def all_buckets_def fun_eq_iff)
  then show ?thesis
    using write_back_parallels [OF assms(2-4), of n "[0..<n]"] assms(1) that by auto
qed

subsection \<open>Setting the states\<close>

lemma foldM_set_state_e:
  "foldM (set_state_e st) segs e =
     map_option (\<lambda>im. e\<lparr>eimg := im\<rparr>) (foldM (\<lambda>s. set_segment_state s st) segs (eimg e))"
  by (induction segs arbitrary: e) (auto simp: set_state_e_def split: option.splits)

definition layout_segments :: "engine \<Rightarrow> nat list" where
  "layout_segments e = (if mode e = FMODE_WBINVD then scan_range 0 (nr_segments e) (segment_dirty e)
                  else map (\<lambda>b. b div kBlocksPerSegment) (all_buckets e))"

lemma commit_layout_visible:
  assumes "commit_layout_state st e = Some e'" and "visible (nv (eimg e))"
  shows "visible (nv (eimg e'))"
proof -
  have "nv (begin_segment_state_update im) = nv im" for im by (simp add: begin_segment_state_update_def)
  then show ?thesis
    using assms
    by (auto simp: commit_layout_state_def Let_def foldM_set_state_e map_img_def
      intro!: commit_visible dest!: foldM_set_visible split: if_splits)
qed

text \<open>
  A commit of the layout: total, new states current and mirrored, all other cells unchanged, and
  every crash image is an old one, or reads all old or all new states.
\<close>

lemma commit_layout_group:
  "commit_layout_state st e = map_option (\<lambda>im. e\<lparr>eimg := im\<rparr>) (commit_group st (layout_segments e) (eimg e))"
  by (simp add: commit_layout_state_def Let_def foldM_set_state_e map_img_def commit_group_def layout_segments_def
      option.map_comp comp_def)

lemma commit_layout:
  assumes hdr: "hdr_ok (eimg e)" and syn: "synced (eimg e)" and ns: "0 < rd (eimg e) HNrMain"
    and segs: "\<forall>s \<in> set (layout_segments e). s < rd (eimg e) HNrMain"
  obtains im' where "commit_layout_state st e = Some (e\<lparr>eimg := im'\<rparr>)"
    "hdr_ok im'" "synced im'" "main_to_back im' = main_to_back (eimg e)"
    "\<And>s. s < rd (eimg e) HNrMain \<Longrightarrow>
       get_segment_state im' s = (if s \<in> set (layout_segments e) then st else get_segment_state (eimg e) s)"
    "\<And>l. \<not> is_state_cell l \<Longrightarrow> rd im' l = rd (eimg e) l"
    "\<And>l. \<not> is_state_cell l \<Longrightarrow> settled (nv (eimg e)) l \<Longrightarrow> quiet (nv im') l"
    "\<And>pm. pm \<in> crash_images (nv im') \<Longrightarrow>
       (\<exists>d \<in> set (hist (nv (eimg e))). \<forall>l. pm l \<in> d l) \<or>
       (\<forall>l. (\<forall>s. l \<noteq> SegSt (other (active (eimg e))) s) \<longrightarrow> pm l \<in> dur (nv (eimg e)) l) \<or>
       (pm HEpoch = rd (eimg e) HEpoch \<and> (\<forall>s < rd (eimg e) HNrMain. pst pm s = get_segment_state (eimg e) s) \<or>
        pm HEpoch = next_epoch (rd (eimg e) HEpoch) \<and> (\<forall>s < rd (eimg e) HNrMain. pst pm s = get_segment_state im' s)) \<and>
       (\<forall>l. \<not> is_state_cell l \<longrightarrow> pm l \<in> dur (nv_fence (nv (eimg e))) l)"
proof -
  obtain im' where "commit_group st (layout_segments e) (eimg e) = Some im'"
    "hdr_ok im'" "synced im'" "main_to_back im' = main_to_back (eimg e)"
    and g: "\<And>s. s < rd (eimg e) HNrMain \<Longrightarrow>
       get_segment_state im' s = (if s \<in> set (layout_segments e) then st else get_segment_state (eimg e) s)"
    "\<And>l. \<not> is_state_cell l \<Longrightarrow> rd im' l = rd (eimg e) l"
    "\<And>l. \<not> is_state_cell l \<Longrightarrow> settled (nv (eimg e)) l \<Longrightarrow> quiet (nv im') l"
    "\<And>pm. pm \<in> crash_images (nv im') \<Longrightarrow>
       (\<exists>d \<in> set (hist (nv (eimg e))). \<forall>l. pm l \<in> d l) \<or>
       (\<forall>l. (\<forall>s. l \<noteq> SegSt (other (active (eimg e))) s) \<longrightarrow> pm l \<in> dur (nv (eimg e)) l) \<or>
       (pm HEpoch = rd (eimg e) HEpoch \<and> (\<forall>s < rd (eimg e) HNrMain. pst pm s = get_segment_state (eimg e) s) \<or>
        pm HEpoch = next_epoch (rd (eimg e) HEpoch) \<and> (\<forall>s < rd (eimg e) HNrMain. pst pm s = get_segment_state im' s)) \<and>
       (\<forall>l. \<not> is_state_cell l \<longrightarrow> pm l \<in> dur (nv_fence (nv (eimg e))) l)"
    by (rule commit_group_ok [OF hdr syn ns segs, where st = st]) blast
  then show ?thesis by (intro that [OF _ _ _ _ g]) (simp_all add: commit_layout_group)
qed

subsection \<open>Copy-on-write of one segment\<close>

lemma lazy_write_back_skip:
  assumes "bound_identity e" and "s < nr_segments e" and "get_segment_state (eimg e) s \<noteq> SS_Main"
    and "held e = None"
  shows "lazy_write_back s on_demand e =
    Some (if on_demand then e\<lparr>segment_dirty := bs_set s (segment_dirty e)\<rparr> else e, False)"
  using assms by (simp add: lazy_write_back_def Let_def get_main_to_back_def bound_identity_def)

lemma lazy_write_back_main:
  assumes "bound_identity e" and s: "s < nr_segments e" and "get_segment_state (eimg e) s = SS_Main"
    and nb: "nr_blocks e = nr_segments e * kBlocksPerSegment" and cap: "capacity e = nr_segments e * kSegmentSize"
  obtains m1 where
    "evolves (\<lambda>_. False) (mirror_map (nv (eimg e)) (\<lambda>k. k div kBlocksPerSegment = s \<and> bs_test k (block_dirty e)))
       (nv (eimg e)) m1" "pend m1 = (\<lambda>_. None)"
    "lazy_write_back s on_demand e = Some (e\<lparr>eimg := set_segment_state_atomic s SS_Back (eimg (with_nv m1 e)),
        block_dirty := bs_clear_region (s * kBlocksPerSegment) (s * kBlocksPerSegment + kBlocksPerSegment) (block_dirty e),
        segment_dirty := (if on_demand then bs_set s (segment_dirty e) else segment_dirty e), held := None\<rparr>, True)"
proof -
  define ks where "ks = scan_range (s * kBlocksPerSegment)
    (min (nr_blocks e) (s * kBlocksPerSegment + kBlocksPerSegment)) (block_dirty e)"
  have ks: "set ks = {k. k div kBlocksPerSegment = s \<and> bs_test k (block_dirty e)}"
    unfolding ks_def by (rule scan_segment [OF s nb])
  let ?C = "\<lambda>k. NonTemporalCopy (back_at (k * kBlockSize)) (main_cell (k * kBlockSize)) kBlockSize"
  define m0 where "m0 = fold ?C ks (nv (eimg e))"
  define m1 where "m1 = nv_fence m0"
  let ?e = "e\<lparr>held := Some (s mod kSegmentLocks)\<rparr>"
  have b0: "main_to_back (eimg e) s = s" "s \<noteq> kNullSegmentIndex"
    using assms(1) s by (auto simp: bound_identity_def)
  have cd: "copy_delta (capacity e) kBlockSize (capacity e) (k * kBlockSize) = map_nv (?C k)" for k
    by (simp add: copy_delta_def fun_eq_iff)
  have e2: "batched kAddressListCapacity (\<lambda>k. copy_delta (capacity e) kBlockSize (capacity e) (k * kBlockSize))
      (scan_range (s * kBlocksPerSegment) (s * kBlocksPerSegment + kBlocksPerSegment) (block_dirty e)) ?e = with_nv m0 ?e"
    unfolding batched_fold cd fold_map_nv by (simp add: m0_def ks_def segment_blocks_range [OF s nb])
  have e3: "map_nv nv_fence (with_nv m0 ?e) = with_nv m1 ?e"
    by (simp add: map_nv_with m1_def)
  have e4: "with_nv m1 ?e = e\<lparr>eimg := eimg (with_nv m1 e), held := Some (s mod kSegmentLocks)\<rparr>"
    by (simp add: with_nv_def map_nv_def map_img_def)
  have "evolves (\<lambda>_. False) (mirror_map (nv (eimg e)) (\<lambda>k. k \<in> set ks)) (nv (eimg e)) m0"
    unfolding m0_def by (rule evolves_copies)
  from evolves_trans [OF this evolves_fence]
  have "evolves (\<lambda>_. False) (mirror_map (nv (eimg e)) (\<lambda>k. k div kBlocksPerSegment = s \<and> bs_test k (block_dirty e)))
       (nv (eimg e)) m1"
    by (simp add: m1_def ks)
  moreover have "pend m1 = (\<lambda>_. None)" by (simp add: m1_def)
  moreover have "lazy_write_back s on_demand e = Some (e\<lparr>eimg := set_segment_state_atomic s SS_Back (eimg (with_nv m1 e)),
        block_dirty := bs_clear_region (s * kBlocksPerSegment) (s * kBlocksPerSegment + kBlocksPerSegment) (block_dirty e),
        segment_dirty := (if on_demand then bs_set s (segment_dirty e) else segment_dirty e), held := None\<rparr>, True)"
    using assms(3) b0
    by (simp add: lazy_write_back_def Let_def get_main_to_back_def segment_blocks_range [OF s nb] e2 e3 e4)
  ultimately show ?thesis by (rule that)
qed

end
