(* ===== verification/NvmInst_Crash.thy ===== *)
theory NvmInst_Crash
  imports NvmInst_Phases
begin

text \<open>
  Crash consistency of \<^verbatim>\<open>NvmInstEngine\<close>. The invariant of the engine relates the
  dirty bits, the buckets and the segment states to what is durable in the main and the back
  memory; every hook, store, cleaner round and checkpoint preserves it, and every durable image a
  crash can leave stands for the memory of the last checkpoint.
\<close>

subsection \<open>The invariant\<close>

definition st :: "engine \<Rightarrow> nat \<Rightarrow> nat" where "st e s = get_segment_state (eimg e) s"
definition sdirty :: "engine \<Rightarrow> nat \<Rightarrow> bool" where "sdirty e s = bs_test s (segment_dirty e)"
definition bdirty :: "engine \<Rightarrow> nat \<Rightarrow> bool" where "bdirty e k = bs_test k (block_dirty e)"

definition seg :: "nat \<Rightarrow> nat" where "seg k = k div kBlocksPerSegment"

definition buffered :: "engine \<Rightarrow> nat \<Rightarrow> bool" where
  "buffered e k \<longleftrightarrow> (\<exists>t < kMaxThreads. \<exists>a \<in> set (address_buffer e t).
     in_range e a \<and> (a - address_first e) div kBlockSize = k)"

definition tracked :: "engine \<Rightarrow> nat \<Rightarrow> bool" where
  "tracked e k \<longleftrightarrow> bdirty e k \<or> buffered e k"

definition base_inv :: "engine \<Rightarrow> bool" where
  "base_inv e \<longleftrightarrow> 0 < nr_segments e \<and> 64 dvd nr_segments e
     \<and> nr_blocks e = nr_segments e * kBlocksPerSegment \<and> capacity e = nr_segments e * kSegmentSize
     \<and> nr_back_segments e = nr_segments e \<and> header_is (nr_segments e) (rd (eimg e))
     \<and> (\<forall>s < nr_segments e. main_to_back (eimg e) s = s)
     \<and> hdr_ok (eimg e) \<and> synced (eimg e) \<and> visible (nv (eimg e)) \<and> held e = None \<and> \<not> checkpoint_in_progress e"

definition data_inv :: "engine \<Rightarrow> (nat \<Rightarrow> nat) \<Rightarrow> bool" where
  "data_inv e snap \<longleftrightarrow> (\<forall>x. x div kSegmentSize < nr_segments e \<longrightarrow>
     (\<not> tracked e (x div kBlockSize) \<longrightarrow>
        quiet (nv (eimg e)) (MainB x) \<and> quiet (nv (eimg e)) (BackB x) \<and> rd (eimg e) (MainB x) = rd (eimg e) (BackB x)) \<and>
     (st e (x div kSegmentSize) = SS_Main \<longrightarrow> quiet (nv (eimg e)) (MainB x) \<and> rd (eimg e) (MainB x) = snap x) \<and>
     (st e (x div kSegmentSize) = SS_Back \<longrightarrow> quiet (nv (eimg e)) (BackB x) \<and> rd (eimg e) (BackB x) = snap x))"

definition state_inv :: "engine \<Rightarrow> (nat \<Rightarrow> bool) \<Rightarrow> bool" where
  "state_inv e live \<longleftrightarrow> (\<forall>s < nr_segments e.
     (st e s = SS_Initial \<or> st e s = SS_Main \<or> st e s = SS_Back) \<and> (live s \<longleftrightarrow> st e s \<noteq> SS_Initial) \<and>
     (st e s = SS_Main \<longrightarrow> \<not> sdirty e s \<and> \<not> skip_copy_on_write e \<and> cleaner_st e \<noteq> WB_IDLE \<and>
        (cleaner_st e = WB_RUNNING \<longrightarrow> cleaner_segment e \<le> s))) \<and>
     (cleaner_st e = WB_RUNNING \<longrightarrow> cleaner_segment e < nr_segments e)"

definition track_inv :: "engine \<Rightarrow> nat set \<Rightarrow> bool" where
  "track_inv e H \<longleftrightarrow> (\<forall>s. sdirty e s \<longrightarrow> s < nr_segments e) \<and>
     (\<forall>k. bdirty e k \<longrightarrow> seg k < nr_segments e \<and> (sdirty e (seg k) \<or> st e (seg k) = SS_Main)) \<and>
     (\<forall>k. buffered e k \<longrightarrow> sdirty e (seg k)) \<and>
     (\<forall>t. \<forall>k \<in> set (flush_blocks e t). bdirty e k \<and> sdirty e (seg k) \<and> t < kMaxThreads) \<and>
     (\<forall>k. bdirty e k \<and> sdirty e (seg k) \<longrightarrow>
        k \<in> set (all_buckets e) \<or> (\<exists>t < kMaxThreads. kMaxFlushBlocks \<le> length (flush_blocks e t))) \<and>
     (\<forall>k \<in> H. tracked e k \<and> sdirty e (seg k))"

definition inv :: "engine \<Rightarrow> nat set \<Rightarrow> (nat \<Rightarrow> nat) \<Rightarrow> (nat \<Rightarrow> bool) \<Rightarrow> bool" where
  "inv e H snap live \<longleftrightarrow> base_inv e \<and> data_inv e snap \<and> state_inv e live \<and> track_inv e H"

definition crash_ok :: "engine \<Rightarrow> (nat \<Rightarrow> nat) \<Rightarrow> (nat \<Rightarrow> bool) \<Rightarrow> bool" where
  "crash_ok e snap live \<longleftrightarrow> crash_safe (stands_for (nr_segments e) snap live) (nv (eimg e))"

lemma seg_block: "seg (x div kBlockSize) = x div kSegmentSize"
  by (simp add: seg_def segment_of_block)

lemma all_buckets_iff:
  "(\<forall>t. \<forall>k \<in> set (flush_blocks e t). t < kMaxThreads) \<Longrightarrow> k \<in> set (all_buckets e) \<longleftrightarrow> (\<exists>t. k \<in> set (flush_blocks e t))"
  by (fastforce simp: all_buckets_def)

lemma inv_base:
  assumes "inv e H snap live"
  shows "0 < nr_segments e" "64 dvd nr_segments e" "nr_blocks e = nr_segments e * kBlocksPerSegment"
    "capacity e = nr_segments e * kSegmentSize" "nr_back_segments e = nr_segments e"
    "header_is (nr_segments e) (rd (eimg e))" "hdr_ok (eimg e)" "synced (eimg e)" "held e = None"
    "\<not> checkpoint_in_progress e" "bound_identity e" "rd (eimg e) HNrMain = nr_segments e"
    "visible (nv (eimg e))"
  using assms by (simp_all add: inv_def base_inv_def bound_identity_def header_is_def)

lemma inv_data:
  assumes "inv e H snap live" and "x div kSegmentSize < nr_segments e"
  shows "\<not> tracked e (x div kBlockSize) \<Longrightarrow> quiet (nv (eimg e)) (MainB x)"
    "\<not> tracked e (x div kBlockSize) \<Longrightarrow> quiet (nv (eimg e)) (BackB x)"
    "\<not> tracked e (x div kBlockSize) \<Longrightarrow> rd (eimg e) (BackB x) = rd (eimg e) (MainB x)"
    "st e (x div kSegmentSize) = SS_Main \<Longrightarrow> quiet (nv (eimg e)) (MainB x)"
    "st e (x div kSegmentSize) = SS_Main \<Longrightarrow> rd (eimg e) (MainB x) = snap x"
    "st e (x div kSegmentSize) = SS_Back \<Longrightarrow> quiet (nv (eimg e)) (BackB x)"
    "st e (x div kSegmentSize) = SS_Back \<Longrightarrow> rd (eimg e) (BackB x) = snap x"
  using assms by (simp_all add: inv_def data_inv_def)

lemma inv_state:
  assumes "inv e H snap live" and "s < nr_segments e"
  shows "st e s = SS_Initial \<or> st e s = SS_Main \<or> st e s = SS_Back" "live s \<longleftrightarrow> st e s \<noteq> SS_Initial"
    "st e s = SS_Main \<Longrightarrow> \<not> sdirty e s" "st e s = SS_Main \<Longrightarrow> \<not> skip_copy_on_write e"
    "st e s = SS_Main \<Longrightarrow> cleaner_st e \<noteq> WB_IDLE"
    "st e s = SS_Main \<Longrightarrow> cleaner_st e = WB_RUNNING \<Longrightarrow> cleaner_segment e \<le> s"
    "cleaner_st e = WB_RUNNING \<Longrightarrow> cleaner_segment e < nr_segments e"
  using assms by (simp_all add: inv_def state_inv_def)

lemma inv_track:
  assumes "inv e H snap live"
  shows "sdirty e s \<Longrightarrow> s < nr_segments e"
    "bdirty e k \<Longrightarrow> seg k < nr_segments e" "bdirty e k \<Longrightarrow> sdirty e (seg k) \<or> st e (seg k) = SS_Main"
    "buffered e k \<Longrightarrow> sdirty e (seg k)" "k \<in> set (flush_blocks e t) \<Longrightarrow> bdirty e k"
    "k \<in> set (flush_blocks e t) \<Longrightarrow> sdirty e (seg k)" "k \<in> set (flush_blocks e t) \<Longrightarrow> t < kMaxThreads"
    "bdirty e k \<Longrightarrow> sdirty e (seg k) \<Longrightarrow> k \<in> set (all_buckets e) \<or>
       (\<exists>t < kMaxThreads. kMaxFlushBlocks \<le> length (flush_blocks e t))"
    "k \<in> H \<Longrightarrow> tracked e k" "k \<in> H \<Longrightarrow> sdirty e (seg k)"
  using assms by (auto simp: inv_def track_inv_def)

lemma inv_stands_for:
  assumes i: "inv e H snap live" and pm: "\<And>l. protected (eimg e) (nr_segments e) l \<Longrightarrow> pm l = rd (eimg e) l"
  shows "stands_for (nr_segments e) snap live pm"
proof (rule stands_for_protected [OF inv_base(6) [OF i] _ _ _ pm])
  show "get_segment_state (eimg e) s = SS_Main \<or> get_segment_state (eimg e) s = SS_Back"
    if "s < nr_segments e" "live s" for s
    using inv_state(1,2) [OF i that(1)] that(2) by (auto simp: st_def)
qed (use inv_data(5,7) [OF i] in \<open>simp_all add: st_def\<close>)

lemma inv_protected_quiet:
  assumes "inv e H snap live" and "protected (eimg e) (nr_segments e) l"
  shows "quiet (nv (eimg e)) l"
proof (rule hdr_synced_quiet [OF inv_base(7,8,12) [OF assms(1)] _ _ assms(2)])
  fix x assume x: "x div kSegmentSize < nr_segments e"
  show "get_segment_state (eimg e) (x div kSegmentSize) = SS_Main \<Longrightarrow> quiet (nv (eimg e)) (MainB x)"
    using inv_data(4) [OF assms(1) x] by (simp add: st_def)
  show "get_segment_state (eimg e) (x div kSegmentSize) = SS_Back \<Longrightarrow> quiet (nv (eimg e)) (BackB x)"
    using inv_data(6) [OF assms(1) x] by (simp add: st_def)
qed

text \<open>Dropping the crash points of earlier operations.\<close>

definition start_op :: "engine \<Rightarrow> engine" where
  "start_op e = map_nv nv_begin e"

lemma start_op_simps [simp]:
  "nr_segments (start_op e) = nr_segments e" "hist (nv (eimg (start_op e))) = []"
  "address_first (start_op e) = address_first e" "capacity (start_op e) = capacity e"
  by (simp_all add: start_op_def map_nv_def)

lemma start_op_inv:
  assumes "inv e H snap live"
  shows "inv (start_op e) H snap live" and "crash_ok (start_op e) snap live"
proof -
  have r: "rd (eimg (start_op e)) = rd (eimg e)" "quiet (nv (eimg (start_op e))) l = quiet (nv (eimg e)) l"
    "settled (nv (eimg (start_op e))) l = settled (nv (eimg e)) l"
    "segment_state_dirty (eimg (start_op e)) = segment_state_dirty (eimg e)" for l
    by (simp_all add: start_op_def map_nv_def rd_def fun_eq_iff)
  have g: "get_segment_state (eimg (start_op e)) = get_segment_state (eimg e)"
    "active (eimg (start_op e)) = active (eimg e)"
    by (simp_all add: fun_eq_iff get_segment_state_def active_def r)
  have s: "st (start_op e) = st e" by (simp add: st_def g fun_eq_iff)
  have t: "tracked (start_op e) = tracked e" "buffered (start_op e) = buffered e" "bdirty (start_op e) = bdirty e"
    "sdirty (start_op e) = sdirty e" "all_buckets (start_op e) = all_buckets e"
    by (simp_all add: tracked_def buffered_def bdirty_def sdirty_def in_range_def all_buckets_def
        start_op_def map_nv_def fun_eq_iff)
  have f: "nr_blocks (start_op e) = nr_blocks e" "nr_back_segments (start_op e) = nr_back_segments e"
    "main_to_back (eimg (start_op e)) = main_to_back (eimg e)" "held (start_op e) = held e"
    "checkpoint_in_progress (start_op e) = checkpoint_in_progress e" "flush_blocks (start_op e) = flush_blocks e"
    "cleaner_st (start_op e) = cleaner_st e" "cleaner_segment (start_op e) = cleaner_segment e"
    "skip_copy_on_write (start_op e) = skip_copy_on_write e"
    by (simp_all add: start_op_def map_nv_def)
  have "hdr_ok (eimg (start_op e)) = hdr_ok (eimg e)" "synced (eimg (start_op e)) = synced (eimg e)"
    by (simp_all add: hdr_ok_def synced_def upd_ok_def r g)
  moreover have "visible (nv (eimg (start_op e))) = visible (nv (eimg e))" by (simp add: start_op_def map_nv_def)
  ultimately show i: "inv (start_op e) H snap live"
    using assms by (simp add: inv_def base_inv_def data_inv_def state_inv_def track_inv_def r g s t f)
  have "keeps (protected (eimg e) (nr_segments e)) (nv (eimg (start_op e))) (nv (eimg (start_op e)))"
    using inv_protected_quiet [OF assms] r(2) by (intro keeps_refl) simp
  have "dur_sat (stands_for (nr_segments e) snap live) (dur (nv (eimg (start_op e))))"
    unfolding dur_sat_def
  proof (intro allI impI)
    fix pm assume pm: "\<forall>l. pm l \<in> dur (nv (eimg (start_op e))) l"
    have "pm l = rd (eimg e) l" if "protected (eimg e) (nr_segments e) l" for l
      using inv_protected_quiet [OF assms that] spec [OF pm, of l]
      by (simp add: start_op_def map_nv_def quiet_iff rd_def)
    then show "stands_for (nr_segments e) snap live pm" by (rule inv_stands_for [OF assms])
  qed
  then show "crash_ok (start_op e) snap live" by (simp add: crash_ok_def crash_safe_iff)
qed

subsection \<open>Changes of the tracking state only\<close>

lemma data_inv_mono:
  assumes "data_inv e snap" and "eimg e' = eimg e" and "nr_segments e' = nr_segments e"
    and "\<And>k. tracked e k \<Longrightarrow> tracked e' k"
  shows "data_inv e' snap"
  using assms unfolding data_inv_def st_def by metis

text \<open>The invariant after an update of dirty bits, buckets and buffers.\<close>

lemma inv_tracking:
  assumes i: "inv e H snap live"
    and im: "eimg e' = eimg e" "nr_segments e' = nr_segments e" "nr_blocks e' = nr_blocks e" "capacity e' = capacity e"
      "nr_back_segments e' = nr_back_segments e" "held e' = held e" "checkpoint_in_progress e' = checkpoint_in_progress e"
      "skip_copy_on_write e' = skip_copy_on_write e" "cleaner_st e' = cleaner_st e" "cleaner_segment e' = cleaner_segment e"
    and tr: "\<And>k. tracked e k \<Longrightarrow> tracked e' k"
    and sd: "\<And>s. sdirty e' s \<Longrightarrow> sdirty e s \<or> s < nr_segments e \<and> st e s \<noteq> SS_Main"
    and ti: "track_inv e' H'"
  shows "inv e' H' snap live" and "crash_ok e snap live \<Longrightarrow> crash_ok e' snap live"
proof -
  have s: "st e' = st e" by (simp add: st_def im fun_eq_iff)
  have b: "base_inv e'" using i by (simp add: inv_def base_inv_def im)
  have d: "data_inv e' snap" using i by (intro data_inv_mono [OF _ im(1,2) tr]) (simp_all add: inv_def)
  have t: "state_inv e' live"
    unfolding state_inv_def s im
  proof (intro conjI allI impI)
    fix r assume r: "r < nr_segments e"
    note si = inv_state [OF i r]
    show "st e r = SS_Initial \<or> st e r = SS_Main \<or> st e r = SS_Back" "live r = (st e r \<noteq> SS_Initial)"
      by (rule si)+
    assume m: "st e r = SS_Main"
    show "\<not> sdirty e' r" using sd [of r] si(3) m by blast
    show "\<not> skip_copy_on_write e" "cleaner_st e \<noteq> WB_IDLE" using si m by simp_all
    assume "cleaner_st e = WB_RUNNING"
    then show "cleaner_segment e \<le> r" using si m by simp
  next
    assume "cleaner_st e = WB_RUNNING"
    then show "cleaner_segment e < nr_segments e" using i by (simp add: inv_def state_inv_def)
  qed
  show "inv e' H' snap live" using b d t ti by (simp add: inv_def)
  show "crash_ok e snap live \<Longrightarrow> crash_ok e' snap live" by (simp add: crash_ok_def im)
qed

lemma track_invI:
  assumes "\<And>s. sdirty e s \<Longrightarrow> s < nr_segments e" and "\<And>k. bdirty e k \<Longrightarrow> seg k < nr_segments e"
    and "\<And>k. bdirty e k \<Longrightarrow> sdirty e (seg k) \<or> st e (seg k) = SS_Main"
    and "\<And>k. buffered e k \<Longrightarrow> sdirty e (seg k)"
    and "\<And>t k. k \<in> set (flush_blocks e t) \<Longrightarrow> bdirty e k \<and> sdirty e (seg k) \<and> t < kMaxThreads"
    and "\<And>k. bdirty e k \<Longrightarrow> sdirty e (seg k) \<Longrightarrow>
      k \<in> set (all_buckets e) \<or> (\<exists>t < kMaxThreads. kMaxFlushBlocks \<le> length (flush_blocks e t))"
    and "\<And>k. k \<in> H \<Longrightarrow> tracked e k \<and> sdirty e (seg k)"
  shows "track_inv e H"
  using assms by (simp add: track_inv_def)

lemma set_sdirty_inv:
  fixes e :: engine and s :: nat
  assumes i: "inv e H snap live" and s: "s < nr_segments e" and nm: "st e s \<noteq> SS_Main"
  defines "e' \<equiv> e\<lparr>segment_dirty := bs_set s (segment_dirty e)\<rparr>"
  shows "inv e' H snap live" and "crash_ok e snap live \<Longrightarrow> crash_ok e' snap live"
proof -
  have sd: "sdirty e' r = (r = s \<or> sdirty e r)" for r by (simp add: e'_def sdirty_def)
  have same: "bdirty e' = bdirty e" "buffered e' = buffered e" "tracked e' = tracked e" "st e' = st e"
    "flush_blocks e' = flush_blocks e" "all_buckets e' = all_buckets e" "nr_segments e' = nr_segments e"
    by (simp_all add: e'_def bdirty_def buffered_def tracked_def st_def in_range_def all_buckets_def fun_eq_iff)
  note t = inv_track [OF i]
  have "track_inv e' H"
  proof (rule track_invI)
    fix k assume "bdirty e' k" "sdirty e' (seg k)"
    then have "bdirty e k" "sdirty e (seg k)" using t(3) [of k] nm by (auto simp: same sd)
    then show "k \<in> set (all_buckets e') \<or> (\<exists>t < kMaxThreads. kMaxFlushBlocks \<le> length (flush_blocks e' t))"
      using t(8) by (simp add: same)
  qed (use t s in \<open>auto simp: same sd\<close>)
  note r = inv_tracking [OF i _ _ _ _ _ _ _ _ _ _ _ _ this]
  show "inv e' H snap live" by (rule r) (use s nm in \<open>auto simp: same sd, simp_all add: e'_def\<close>)
  show "crash_ok e snap live \<Longrightarrow> crash_ok e' snap live" by (simp add: crash_ok_def e'_def)
qed

lemma track_block_simps [simp]:
  "eimg (track_block tid k e) = eimg e" "nr_segments (track_block tid k e) = nr_segments e"
  "address_first (track_block tid k e) = address_first e" "capacity (track_block tid k e) = capacity e"
  "segment_dirty (track_block tid k e) = segment_dirty e" "address_buffer (track_block tid k e) = address_buffer e"
  "nr_blocks (track_block tid k e) = nr_blocks e" "nr_back_segments (track_block tid k e) = nr_back_segments e"
  "held (track_block tid k e) = held e" "checkpoint_in_progress (track_block tid k e) = checkpoint_in_progress e"
  "skip_copy_on_write (track_block tid k e) = skip_copy_on_write e" "cleaner_st (track_block tid k e) = cleaner_st e"
  "cleaner_segment (track_block tid k e) = cleaner_segment e"
  by (simp_all add: track_block_def Let_def)

lemma bdirty_track_block [simp]: "bdirty (track_block tid k e) j \<longleftrightarrow> j = k \<or> bdirty e j"
  by (auto simp: bdirty_def track_block_def Let_def)

lemma track_block_inv:
  assumes i: "inv e H snap live" and tid: "tid < kMaxThreads" and k: "sdirty e (seg k)"
  defines "e' \<equiv> track_block tid k e"
  shows "inv e' (insert k H) snap live" and "crash_ok e snap live \<Longrightarrow> crash_ok e' snap live"
proof -
  have same: "sdirty e' = sdirty e" "buffered e' = buffered e" "st e' = st e" "nr_segments e' = nr_segments e"
    by (simp_all add: e'_def sdirty_def buffered_def st_def in_range_def fun_eq_iff)
  have bd: "bdirty e' j = (j = k \<or> bdirty e j)" for j by (simp add: e'_def)
  have tr: "tracked e' j = (j = k \<or> tracked e j)" for j by (auto simp: tracked_def same bd)
  note t = inv_track [OF i]
  have fb: "flush_blocks e' r = flush_blocks e r @
      (if r = tid \<and> \<not> bdirty e k \<and> length (flush_blocks e tid) \<noteq> kMaxFlushBlocks then [k] else [])" for r
    by (auto simp: e'_def track_block_def bdirty_def Let_def)
  have "track_inv e' (insert k H)"
  proof (rule track_invI)
    fix j assume j: "bdirty e' j" "sdirty e' (seg j)"
    show "j \<in> set (all_buckets e') \<or> (\<exists>t < kMaxThreads. kMaxFlushBlocks \<le> length (flush_blocks e' t))"
    proof (cases "bdirty e j")
      case True
      then consider r where "r < kMaxThreads" "j \<in> set (flush_blocks e r)" |
        r where "r < kMaxThreads" "kMaxFlushBlocks \<le> length (flush_blocks e r)"
        using t(8) [OF True] j(2) by (auto simp: same all_buckets_def)
      then show ?thesis
      proof cases
        case (1 r)
        then show ?thesis by (auto simp: all_buckets_def fb)
      next
        case (2 r)
        then show ?thesis by (intro disjI2 exI [of _ r]) (simp add: fb)
      qed
    next
      case False
      then have "j = k" using j by (simp add: bd)
      show ?thesis
      proof (cases "length (flush_blocks e tid) = kMaxFlushBlocks")
        case True
        then show ?thesis using tid by (intro disjI2 exI [of _ tid]) (simp add: fb)
      next
        case nf: False
        have "j \<in> set (flush_blocks e' tid)" using False nf \<open>j = k\<close> by (simp add: fb)
        then show ?thesis using tid by (auto simp: all_buckets_def)
      qed
    qed
  next
    fix r j assume "j \<in> set (flush_blocks e' r)"
    then consider "j \<in> set (flush_blocks e r)" | "j = k" "r = tid" by (auto simp: fb split: if_splits)
    then show "bdirty e' j \<and> sdirty e' (seg j) \<and> r < kMaxThreads"
      using t(5,6,7) [of j r] k tid by cases (simp_all add: bd same)
  next
    show "j \<in> insert k H \<Longrightarrow> tracked e' j \<and> sdirty e' (seg j)" for j
      using t(9,10) [of j] k by (auto simp: tr same)
  qed (use t(1,2,3,4) k in \<open>auto simp: same bd dest: t(1)\<close>)
  note r = inv_tracking [OF i _ _ _ _ _ _ _ _ _ _ _ _ this]
  show "inv e' (insert k H) snap live" by (rule r) (simp_all add: tr same, simp_all add: e'_def)
  show "crash_ok e snap live \<Longrightarrow> crash_ok e' snap live" by (simp add: crash_ok_def e'_def)
qed

subsection \<open>Draining the address buffers\<close>

lemma hook_buffered_inv:
  assumes i: "inv e H snap live" and tid: "tid < kMaxThreads"
    and a: "in_range e a \<Longrightarrow> sdirty e (seg ((a - address_first e) div kBlockSize))"
  shows "inv (hook_buffered tid a e) H snap live"
    and "crash_ok e snap live \<Longrightarrow> crash_ok (hook_buffered tid a e) snap live"
proof -
  have sub: "inv e' (insert k H) snap live \<Longrightarrow> inv e' H snap live" for e' k
    by (simp add: inv_def track_inv_def)
  show "inv (hook_buffered tid a e) H snap live"
    using track_block_inv(1) [OF i tid a] i sub by (auto simp: hook_buffered_def hook_routine_def)
  show "crash_ok e snap live \<Longrightarrow> crash_ok (hook_buffered tid a e) snap live"
    using track_block_inv(2) [OF i tid a] by (simp add: hook_buffered_def hook_routine_def)
qed

lemma hook_buffered_simps [simp]:
  "nr_segments (hook_buffered tid a e) = nr_segments e" "address_first (hook_buffered tid a e) = address_first e"
  "capacity (hook_buffered tid a e) = capacity e" "segment_dirty (hook_buffered tid a e) = segment_dirty e"
  "address_buffer (hook_buffered tid a e) = address_buffer e" "eimg (hook_buffered tid a e) = eimg e"
  "cleaner_st (hook_buffered tid a e) = cleaner_st e" "nr_back_segments (hook_buffered tid a e) = nr_back_segments e"
  "checkpoint_in_progress (hook_buffered tid a e) = checkpoint_in_progress e"
  by (simp_all add: hook_buffered_def hook_routine_def)

lemma bdirty_hook_buffered:
  "bdirty (hook_buffered tid a e) k \<longleftrightarrow> bdirty e k \<or> in_range e a \<and> (a - address_first e) div kBlockSize = k"
  by (auto simp: hook_buffered_def hook_routine_def)

lemma hook_buffered_fold:
  assumes "inv e H snap live" and "tid < kMaxThreads"
    and "\<forall>a \<in> set as. in_range e a \<longrightarrow> sdirty e (seg ((a - address_first e) div kBlockSize))"
  defines "e' \<equiv> fold (hook_buffered tid) as e"
  shows "inv e' H snap live" and "crash_ok e snap live \<Longrightarrow> crash_ok e' snap live"
    and "bdirty e' k \<longleftrightarrow> bdirty e k \<or> (\<exists>a \<in> set as. in_range e a \<and> (a - address_first e) div kBlockSize = k)"
    and "nr_segments e' = nr_segments e" "address_first e' = address_first e" "capacity e' = capacity e"
    "segment_dirty e' = segment_dirty e" "address_buffer e' = address_buffer e" "eimg e' = eimg e"
    "cleaner_st e' = cleaner_st e" "nr_back_segments e' = nr_back_segments e"
    "checkpoint_in_progress e' = checkpoint_in_progress e"
proof -
  have "inv e' H snap live \<and> (crash_ok e snap live \<longrightarrow> crash_ok e' snap live) \<and>
    (\<forall>k. bdirty e' k \<longleftrightarrow> bdirty e k \<or> (\<exists>a \<in> set as. in_range e a \<and> (a - address_first e) div kBlockSize = k)) \<and>
    nr_segments e' = nr_segments e \<and> address_first e' = address_first e \<and> capacity e' = capacity e \<and>
    segment_dirty e' = segment_dirty e \<and> address_buffer e' = address_buffer e \<and> eimg e' = eimg e \<and>
    cleaner_st e' = cleaner_st e \<and> nr_back_segments e' = nr_back_segments e \<and>
    checkpoint_in_progress e' = checkpoint_in_progress e"
    unfolding e'_def using assms(1-3)
  proof (induction as arbitrary: e)
    case Nil
    then show ?case by simp
  next
    case (Cons a as)
    let ?e1 = "hook_buffered tid a e"
    have i1: "inv ?e1 H snap live" "crash_ok e snap live \<Longrightarrow> crash_ok ?e1 snap live"
      using hook_buffered_inv [OF Cons.prems(1,2), of a] Cons.prems(3) by simp_all
    have r: "in_range ?e1 b = in_range e b" for b by (simp add: in_range_def)
    have "\<forall>b \<in> set as. in_range ?e1 b \<longrightarrow> sdirty ?e1 (seg ((b - address_first ?e1) div kBlockSize))"
      using Cons.prems(3) by (simp add: r sdirty_def)
    from Cons.IH [OF i1(1) Cons.prems(2) this] show ?case
      using i1(2) by (auto simp: r bdirty_hook_buffered)
  qed
  then show "inv e' H snap live" "crash_ok e snap live \<Longrightarrow> crash_ok e' snap live"
    "bdirty e' k \<longleftrightarrow> bdirty e k \<or> (\<exists>a \<in> set as. in_range e a \<and> (a - address_first e) div kBlockSize = k)"
    "nr_segments e' = nr_segments e" "address_first e' = address_first e" "capacity e' = capacity e"
    "segment_dirty e' = segment_dirty e" "address_buffer e' = address_buffer e" "eimg e' = eimg e"
    "cleaner_st e' = cleaner_st e" "nr_back_segments e' = nr_back_segments e"
    "checkpoint_in_progress e' = checkpoint_in_progress e"
    by blast+
qed

lemma address_buffer_clear_inv:
  assumes i: "inv e H snap live" and tid: "tid < kMaxThreads" and j: "j < kMaxThreads"
  defines "e' \<equiv> address_buffer_clear tid j e"
  shows "inv e' H snap live" and "crash_ok e snap live \<Longrightarrow> crash_ok e' snap live"
    and "address_buffer e' = (address_buffer e)(j := [])" "sdirty e' = sdirty e" "eimg e' = eimg e"
    "nr_segments e' = nr_segments e" "cleaner_st e' = cleaner_st e"
    "address_first e' = address_first e" "capacity e' = capacity e"
proof -
  define e1 where "e1 = fold (hook_buffered tid) (address_buffer e j) e"
  have c: "\<forall>a \<in> set (address_buffer e j). in_range e a \<longrightarrow> sdirty e (seg ((a - address_first e) div kBlockSize))"
  proof (intro ballI impI)
    fix a assume "a \<in> set (address_buffer e j)" "in_range e a"
    then have "buffered e ((a - address_first e) div kBlockSize)" using j by (auto simp: buffered_def)
    then show "sdirty e (seg ((a - address_first e) div kBlockSize))" by (rule inv_track(4) [OF i])
  qed
  note f = hook_buffered_fold [OF i tid c, folded e1_def]
  have e': "e' = e1\<lparr>address_buffer := (address_buffer e1)(j := [])\<rparr>"
    by (simp add: e'_def e1_def address_buffer_clear_def Let_def)
  show "address_buffer e' = (address_buffer e)(j := [])" "eimg e' = eimg e" "nr_segments e' = nr_segments e"
    "cleaner_st e' = cleaner_st e" "address_first e' = address_first e" "capacity e' = capacity e"
    using f(4-12) by (simp_all add: e')
  have sd: "sdirty e' = sdirty e1" by (simp add: e' sdirty_def fun_eq_iff)
  show "sdirty e' = sdirty e" by (simp add: sd f(7) sdirty_def fun_eq_iff)
  have bd: "bdirty e' = bdirty e1" by (simp add: e' bdirty_def fun_eq_iff)
  have r: "in_range e' = in_range e" "in_range e1 = in_range e" "address_first e' = address_first e"
    using f(5,6) by (simp_all add: e' in_range_def fun_eq_iff)
  have ab: "address_buffer e' = (address_buffer e1)(j := [])" by (simp add: e')
  have bu: "buffered e' k \<Longrightarrow> buffered e1 k" for k
    by (auto simp: buffered_def r ab f(5) split: if_splits)
  have tr: "tracked e1 k \<Longrightarrow> tracked e' k" for k
  proof -
    assume "tracked e1 k"
    then consider "bdirty e1 k" | t a where "t < kMaxThreads" "a \<in> set (address_buffer e t)" "in_range e a"
        "(a - address_first e) div kBlockSize = k"
      by (auto simp: tracked_def buffered_def r f(5,8))
    then show ?thesis
    proof cases
      case 1
      then show ?thesis by (simp add: tracked_def bd)
    next
      case (2 t a)
      show ?thesis
      proof (cases "t = j")
        case True
        then have "bdirty e1 k" using 2 f(3) by auto
        then show ?thesis by (simp add: tracked_def bd)
      next
        case False
        then have "a \<in> set (address_buffer e' t)" using 2 by (simp add: e' f(8))
        then have "buffered e' k" using 2 by (auto simp: buffered_def r)
        then show ?thesis by (simp add: tracked_def)
      qed
    qed
  qed
  note t = inv_track [OF f(1)]
  have same: "nr_segments e' = nr_segments e1" "st e' = st e1" "flush_blocks e' = flush_blocks e1" "all_buckets e' = all_buckets e1"
    by (simp_all add: e' st_def all_buckets_def fun_eq_iff)
  have "track_inv e' H"
  proof (rule track_invI)
    show "k \<in> H \<Longrightarrow> tracked e' k \<and> sdirty e' (seg k)" for k using t(9,10) [of k] tr by (simp add: sd)
    show "buffered e' k \<Longrightarrow> sdirty e' (seg k)" for k using t(4) [OF bu, of k] by (simp add: sd)
    show "k \<in> set (flush_blocks e' r) \<Longrightarrow> bdirty e' k \<and> sdirty e' (seg k) \<and> r < kMaxThreads" for k r
      using t(5-7) by (simp add: sd bd same)
  qed (use t(1,2,3,8) in \<open>auto simp: sd bd same\<close>)
  note q = inv_tracking [OF f(1) _ _ _ _ _ _ _ _ _ _ tr _ this]
  show "inv e' H snap live" by (rule q) (simp_all add: sd, simp_all add: e')
  show "crash_ok e snap live \<Longrightarrow> crash_ok e' snap live" using f(2) by (simp add: crash_ok_def e')
qed

lemma address_buffer_clear_all_inv:
  assumes i: "inv e H snap live" and tid: "tid < kMaxThreads"
  defines "e' \<equiv> address_buffer_clear_all tid e"
  shows "inv e' H snap live" "crash_ok e snap live \<Longrightarrow> crash_ok e' snap live" "\<not> buffered e' k"
    "eimg e' = eimg e" "nr_segments e' = nr_segments e" "cleaner_st e' = cleaner_st e" "sdirty e' = sdirty e"
proof -
  have "inv (fold (address_buffer_clear tid) js e) H snap live \<and>
      (crash_ok e snap live \<longrightarrow> crash_ok (fold (address_buffer_clear tid) js e) snap live) \<and>
      (\<forall>t. address_buffer (fold (address_buffer_clear tid) js e) t = (if t \<in> set js then [] else address_buffer e t)) \<and>
      eimg (fold (address_buffer_clear tid) js e) = eimg e \<and>
      nr_segments (fold (address_buffer_clear tid) js e) = nr_segments e \<and>
      cleaner_st (fold (address_buffer_clear tid) js e) = cleaner_st e \<and>
      sdirty (fold (address_buffer_clear tid) js e) = sdirty e"
    if "\<forall>j \<in> set js. j < kMaxThreads" for js
    using that i
  proof (induction js arbitrary: e)
    case Nil
    then show ?case by simp
  next
    case (Cons j js)
    have j: "j < kMaxThreads" using Cons.prems by simp
    note c = address_buffer_clear_inv [OF Cons.prems(2) tid j]
    from Cons.IH [OF _ c(1)] Cons.prems(1) show ?case using c(2-) by (auto simp: fun_eq_iff)
  qed
  from this [of "[0..<kMaxThreads]"]
  show "inv e' H snap live" "crash_ok e snap live \<Longrightarrow> crash_ok e' snap live" "\<not> buffered e' k"
    "eimg e' = eimg e" "nr_segments e' = nr_segments e" "cleaner_st e' = cleaner_st e" "sdirty e' = sdirty e"
    by (simp_all add: e'_def address_buffer_clear_all_def buffered_def)
qed

subsection \<open>Copy-on-write and the cleaner\<close>

lemma evolves_header:
  assumes ev: "evolves P V (nv (eimg e)) m" and V: "\<forall>l. \<not> is_data_cell l \<longrightarrow> V l = None"
    and h: "hdr_ok (eimg e)" "synced (eimg e)"
  shows "hdr_ok (eimg (with_nv m e))" "synced (eimg (with_nv m e))"
    "\<not> is_data_cell l \<Longrightarrow> rd (eimg (with_nv m e)) l = rd (eimg e) l"
    "get_segment_state (eimg (with_nv m e)) = get_segment_state (eimg e)"
    "active (eimg (with_nv m e)) = active (eimg e)"
proof -
  have w: "eimg (with_nv m e) = (eimg e)\<lparr>nv := m\<rparr>" by (simp add: with_nv_def map_nv_def nv_upd_def)
  show "hdr_ok (eimg (with_nv m e))" "synced (eimg (with_nv m e))"
    "\<not> is_data_cell l \<Longrightarrow> rd (eimg (with_nv m e)) l = rd (eimg e) l"
    "get_segment_state (eimg (with_nv m e)) = get_segment_state (eimg e)"
    "active (eimg (with_nv m e)) = active (eimg e)"
    using evolves_image [OF ev V h] unfolding w by blast+
qed

lemma mirror_map_header: "\<not> is_data_cell l \<Longrightarrow> mirror_map m K l = None"
  by (cases l) auto

lemma rd_with_nv [simp]: "rd (eimg (with_nv m e)) l = cur m l"
  by (simp add: rd_def)

text \<open>Writing back a segment in state \<^verbatim>\<open>SS_Main\<close>.\<close>

lemma write_back_main_inv:
  assumes i: "inv e H snap live" and s: "s < nr_segments e" and mn: "st e s = SS_Main"
    and ev: "evolves (\<lambda>_. False) (mirror_map (nv (eimg e)) (\<lambda>k. k div kBlocksPerSegment = s \<and> bs_test k (block_dirty e)))
       (nv (eimg e)) m1" and pe: "pend m1 = (\<lambda>_. None)"
  defines "e' \<equiv> e\<lparr>eimg := set_segment_state_atomic s SS_Back (eimg (with_nv m1 e)),
        block_dirty := bs_clear_region (s * kBlocksPerSegment) (s * kBlocksPerSegment + kBlocksPerSegment) (block_dirty e)\<rparr>"
  shows "inv e' H snap live" and "crash_ok e snap live \<Longrightarrow> crash_ok e' snap live"
    and "st e' = (st e)(s := SS_Back)"
proof -
  let ?m = "nv (eimg e)" and ?im1 = "eimg (with_nv m1 e)" and ?ns = "nr_segments e"
  let ?V = "mirror_map ?m (\<lambda>k. k div kBlocksPerSegment = s \<and> bs_test k (block_dirty e))"
  note b = inv_base [OF i] and d = inv_data [OF i] and t = inv_track [OF i] and sv = inv_state [OF i]
  have mh: "\<forall>l. \<not> is_data_cell l \<longrightarrow> ?V l = None" by (simp add: mirror_map_header)
  note h = evolves_header [OF ev mh b(7,8)]
  have nm1: "rd ?im1 HNrMain = ?ns" using h(3) b(12) by (simp add: rd_def)
  then have s1: "s < rd ?im1 HNrMain" using s by simp
  note ok = set_segment_state_atomic_ok [OF h(1,2) s1, where st = SS_Back]
  have im': "eimg e' = set_segment_state_atomic s SS_Back ?im1" by (simp add: e'_def)
  show st': "st e' = (st e)(s := SS_Back)"
    by (simp add: fun_eq_iff st_def im' ok(3) h(4))
  have nsd: "\<not> sdirty e s" using sv(3) [OF s mn] .
  have blk: "seg (x div kBlockSize) = x div kSegmentSize" for x by (rule seg_block)
  have Vx: "?V (BackB x) = (if x div kSegmentSize = s \<and> bdirty e (x div kBlockSize) then Some (cur ?m (MainB x)) else None)" for x
    using blk [of x] by (simp add: seg_def bdirty_def)
  have cell: "rd (eimg e') l = cur m1 l" "settled m1 l \<Longrightarrow> quiet (nv (eimg e')) l" if "is_data_cell l" for l
  proof -
    have ns: "\<forall>c j. l \<noteq> SegSt c j" using that by auto
    show "rd (eimg e') l = cur m1 l" using set_segment_state_atomic_frame(4) [of l s SS_Back ?im1] ns by (simp add: im')
    show "settled m1 l \<Longrightarrow> quiet (nv (eimg e')) l"
      using set_segment_state_atomic_frame(5) [of l ?im1 s SS_Back] ns by (simp add: im')
  qed
  note ev' = evolves_simps [OF ev]
  have mainc: "rd (eimg e') (MainB x) = rd (eimg e) (MainB x)" "quiet ?m (MainB x) \<Longrightarrow> quiet (nv (eimg e')) (MainB x)" for x
    using cell [of "MainB x"] ev'(1,3) [of "MainB x"] by (simp_all add: rd_def quiet_settled)
  have backc: "rd (eimg e') (BackB x) = rd (eimg e) (BackB x)" "quiet ?m (BackB x) \<Longrightarrow> quiet (nv (eimg e')) (BackB x)"
    if "\<not> (x div kSegmentSize = s \<and> bdirty e (x div kBlockSize))" for x
  proof -
    have "?V (BackB x) = None" unfolding Vx if_not_P [OF that] by (rule refl)
    then show "rd (eimg e') (BackB x) = rd (eimg e) (BackB x)" "quiet ?m (BackB x) \<Longrightarrow> quiet (nv (eimg e')) (BackB x)"
      using cell [of "BackB x"] ev'(1,3) [of "BackB x"] by (simp_all add: rd_def quiet_settled)
  qed
  have copied: "rd (eimg e') (BackB x) = rd (eimg e) (MainB x) \<and> quiet (nv (eimg e')) (BackB x)"
    if "x div kSegmentSize = s" for x
  proof (cases "bdirty e (x div kBlockSize)")
    case True
    then have "?V (BackB x) = Some (cur ?m (MainB x))" using that by (simp only: Vx) simp
    then show ?thesis using cell [of "BackB x"] ev'(2,5) by (simp add: rd_def)
  next
    case False
    have "\<not> buffered e (x div kBlockSize)" using t(4) [of "x div kBlockSize"] nsd that by (auto simp: blk)
    with False have "\<not> tracked e (x div kBlockSize)" by (simp add: tracked_def)
    then show ?thesis using d(2,3) [of x] that s backc [of x] False by simp
  qed
  have bd': "bdirty e' k \<longleftrightarrow> bdirty e k \<and> seg k \<noteq> s" for k
  proof -
    have "s * kBlocksPerSegment div 64 \<le> k div 64 \<and> k div 64 < (s * kBlocksPerSegment + kBlocksPerSegment) div 64
        \<longleftrightarrow> k div 64 div 128 = s"
      using div_mult_range [of 128 s "k div 64"] by (simp add: geometry mult.commute [of 128])
    then show ?thesis
      by (simp add: e'_def bdirty_def bs_test_clear_region seg_def geometry div_mult2_eq [symmetric])
  qed
  have bu': "buffered e' = buffered e" by (simp add: e'_def buffered_def in_range_def fun_eq_iff)
  have sd': "sdirty e' = sdirty e" by (simp add: e'_def sdirty_def fun_eq_iff)
  have tr': "tracked e' k \<longleftrightarrow> tracked e k \<and> seg k \<noteq> s" for k
    using t(4) [of k] nsd by (auto simp: tracked_def bd' bu')
  have flds: "nr_segments e' = ?ns" "flush_blocks e' = flush_blocks e" "all_buckets e' = all_buckets e"
    "skip_copy_on_write e' = skip_copy_on_write e" "cleaner_st e' = cleaner_st e" "cleaner_segment e' = cleaner_segment e"
    by (simp_all add: e'_def all_buckets_def)
  have hd': "header_is ?ns (rd (eimg e'))"
  proof -
    have "rd (eimg e') l = rd (eimg e) l" if "\<forall>c. l \<noteq> SegSt c s" "\<not> is_data_cell l" for l
      using set_segment_state_atomic_frame(4) [of l s SS_Back ?im1] h(3) [OF that(2)] that(1) by (simp add: im')
    then show ?thesis using b(6) by (simp add: header_is_def)
  qed
  have "base_inv e'"
    using i hd' ok(1,2) set_segment_state_atomic_frame(1) [of s SS_Back ?im1]
      set_segment_state_atomic_visible [of ?im1] evolves_visible [OF ev b(13)]
    by (simp add: inv_def base_inv_def im' flds) (simp add: e'_def)
  moreover have "data_inv e' snap"
    unfolding data_inv_def flds
  proof (intro allI impI conjI)
    fix x assume x: "x div kSegmentSize < ?ns"
    let ?k = "x div kBlockSize"
    { assume nt: "\<not> tracked e' ?k"
      have c: "quiet ?m (MainB x)" using d(1,4) [OF x] nt mn by (auto simp: tr' blk)
      have "rd (eimg e') (BackB x) = rd (eimg e') (MainB x) \<and> quiet (nv (eimg e')) (BackB x)"
      proof (cases "x div kSegmentSize = s")
        case True
        then show ?thesis using copied by (simp add: mainc)
      next
        case False
        then have "\<not> tracked e ?k" using nt by (simp add: tr' blk)
        then show ?thesis using d(2,3) [OF x] backc False by (simp add: mainc)
      qed
      with c show "quiet (nv (eimg e')) (MainB x)" "quiet (nv (eimg e')) (BackB x)"
          "rd (eimg e') (MainB x) = rd (eimg e') (BackB x)"
        by (simp_all add: mainc) }
    { assume "st e' (x div kSegmentSize) = SS_Main"
      then have "st e (x div kSegmentSize) = SS_Main" by (simp add: st' split: if_splits)
      then show "quiet (nv (eimg e')) (MainB x)" "rd (eimg e') (MainB x) = snap x"
        using d(4,5) [OF x] by (simp_all add: mainc) }
    { assume bk: "st e' (x div kSegmentSize) = SS_Back"
      have "quiet (nv (eimg e')) (BackB x) \<and> rd (eimg e') (BackB x) = snap x"
      proof (cases "x div kSegmentSize = s")
        case True
        then show ?thesis using copied d(5) [OF x] mn by simp
      next
        case False
        then show ?thesis using bk d(6,7) [OF x] backc [of x] by (simp add: st')
      qed
      then show "quiet (nv (eimg e')) (BackB x)" "rd (eimg e') (BackB x) = snap x" by simp_all }
  qed
  moreover have "state_inv e' live"
    unfolding state_inv_def flds st' sd'
  proof (intro conjI allI impI)
    fix r assume r: "r < ?ns"
    note sr = sv [OF r]
    show "((st e)(s := SS_Back)) r = SS_Initial \<or> ((st e)(s := SS_Back)) r = SS_Main \<or> ((st e)(s := SS_Back)) r = SS_Back"
      using sr(1) by simp
    show "live r = (((st e)(s := SS_Back)) r \<noteq> SS_Initial)" using sr(2) mn by auto
    assume "((st e)(s := SS_Back)) r = SS_Main"
    then have m: "st e r = SS_Main" by (simp split: if_splits)
    show "\<not> sdirty e r" "\<not> skip_copy_on_write e" "cleaner_st e \<noteq> WB_IDLE" using sr m by simp_all
    assume "cleaner_st e = WB_RUNNING"
    then show "cleaner_segment e \<le> r" using sr m by simp
  next
    assume "cleaner_st e = WB_RUNNING"
    then show "cleaner_segment e < ?ns" by (rule sv(7) [OF s])
  qed
  moreover have "track_inv e' H"
  proof (rule track_invI)
    fix k
    show "bdirty e' k \<Longrightarrow> sdirty e' (seg k) \<or> st e' (seg k) = SS_Main" using t(3) [of k] by (simp add: bd' sd' st')
    show "k \<in> H \<Longrightarrow> tracked e' k \<and> sdirty e' (seg k)" using t(9,10) [of k] nsd by (auto simp: tr' sd')
    show "buffered e' k \<Longrightarrow> sdirty e' (seg k)" using t(4) by (simp add: bu' sd')
    show "bdirty e' k \<Longrightarrow> sdirty e' (seg k) \<Longrightarrow> k \<in> set (all_buckets e') \<or>
       (\<exists>t < kMaxThreads. kMaxFlushBlocks \<le> length (flush_blocks e' t))"
      using t(8) [of k] by (simp add: bd' sd' flds)
    show "bdirty e' k \<Longrightarrow> seg k < nr_segments e'" using t(2) [of k] by (simp add: bd' flds)
  next
    fix r k assume "k \<in> set (flush_blocks e' r)"
    then have k: "k \<in> set (flush_blocks e r)" by (simp add: flds)
    then have "seg k \<noteq> s" using t(6) nsd by auto
    then show "bdirty e' k \<and> sdirty e' (seg k) \<and> r < kMaxThreads" using t(5-7) [OF k] by (simp add: bd' sd')
  qed (use t(1) in \<open>simp add: sd' flds\<close>)
  ultimately show "inv e' H snap live" by (simp add: inv_def)
  assume cr: "crash_ok e snap live"
  have prot: "?V l = None" if "protected (eimg e) ?ns l" for l
    using that mn by (cases l) (auto simp: Vx st_def simp del: mirror_map.simps(1))
  have kp: "keeps (protected (eimg e) ?ns) ?m m1"
    using inv_protected_quiet [OF i] prot by (intro evolves_keeps [OF ev]) simp
  have cs1: "crash_safe (stands_for ?ns snap live) m1"
    using cr unfolding crash_ok_def
    by (intro keeps_crash_safe [OF kp]) (auto intro: inv_stands_for [OF i] simp: rd_def)
  have durf: "dur (nv_fence m1) = dur m1" by (simp add: fun_eq_iff pe)
  have kd: "dur m1 l = {rd (eimg e) l}" if "protected (eimg e) ?ns l" for l
    using keepsD [OF kp that] by (simp add: quiet_durable rd_def)
  show "crash_ok e' snap live"
    unfolding crash_ok_def crash_safe_def flds im'
  proof
    fix pm assume pm: "pm \<in> crash_images (nv (set_segment_state_atomic s SS_Back ?im1))"
    from set_segment_state_atomic_crash [OF h(1,2) pm] nm1
    consider "pm \<in> crash_images m1" |
      "pm HEpoch = rd ?im1 HEpoch" "\<forall>j < ?ns. pst pm j = st e j \<or> j = s \<and> pst pm j = SS_Back"
      "\<forall>l. \<not> is_state_cell l \<longrightarrow> pm l \<in> dur m1 l"
      by (auto simp: h(4) st_def durf)
    then show "stands_for ?ns snap live pm"
    proof cases
      case 1
      then show ?thesis using cs1 by (simp add: crash_safe_def)
    next
      case 2
      have hd: "pm l = rd (eimg e) l" if "protected (eimg e) ?ns l" "\<not> is_state_cell l" for l
        using 2(3) kd [OF that(1)] that(2) by (metis singletonD)
      have "pm HEpoch = rd (eimg e) HEpoch" using 2(1) h(3) by (simp add: rd_def)
      then have hp: "header_is ?ns pm" using b(6) hd by (simp add: header_is_def)
      show ?thesis
      proof (rule stands_forI [OF hp])
        fix r assume r: "r < ?ns" "live r"
        then have "st e r = SS_Main \<or> st e r = SS_Back" using sv(1,2) [OF r(1)] by blast
        then show "pst pm r = SS_Main \<or> pst pm r = SS_Back" using spec [OF 2(2), of r] r(1) by auto
      next
        fix x assume x: "x div kSegmentSize < ?ns" and p: "pst pm (x div kSegmentSize) = SS_Main"
        then have "st e (x div kSegmentSize) = SS_Main" using spec [OF 2(2), of "x div kSegmentSize"] by auto
        then show "pm (MainB x) = snap x" using hd [of "MainB x"] x d(5) [OF x] by (simp add: st_def)
      next
        fix x assume x: "x div kSegmentSize < ?ns" and p: "pst pm (x div kSegmentSize) = SS_Back"
        show "pm (BackB x) = snap x"
        proof (cases "x div kSegmentSize = s")
          case True
          have "settled m1 (BackB x) \<and> cur m1 (BackB x) = rd (eimg e) (MainB x)"
          proof (cases "?V (BackB x)")
            case None
            then have "\<not> bdirty e (x div kBlockSize)" using True by (simp add: Vx del: mirror_map.simps split: if_splits)
            moreover have "\<not> buffered e (x div kBlockSize)" using t(4) [of "x div kBlockSize"] nsd True by (auto simp: blk)
            ultimately have "\<not> tracked e (x div kBlockSize)" by (simp add: tracked_def)
            then show ?thesis using d(2,3) [OF x] ev'(1,3) [of "BackB x"] None by (simp add: rd_def quiet_settled)
          next
            case (Some v)
            then have "v = cur ?m (MainB x)" by (simp add: Vx del: mirror_map.simps split: if_splits)
            with Some ev'(2,5) show ?thesis by (simp add: rd_def)
          qed
          then have "dur m1 (BackB x) = {rd (eimg e) (MainB x)}"
            using quiet_durable [OF settled_quiet, of m1 "BackB x"] by (simp add: pe)
          moreover have "pm (BackB x) \<in> dur m1 (BackB x)" using 2(3) by simp
          ultimately show ?thesis using d(5) [OF x] True mn by simp
        next
          case False
          then have "st e (x div kSegmentSize) = SS_Back"
            using spec [OF 2(2), of "x div kSegmentSize"] x p by auto
          then show ?thesis using hd [of "BackB x"] x d(7) [OF x] by (simp add: st_def)
        qed
      qed
    qed
  qed
qed

end
