(* ===== verification/NvmInst_Steps.thy ===== *)
theory NvmInst_Steps
  imports NvmInst_Crash
begin

text \<open>
  Each operation of the running engine keeps the invariant and the crash safety: hooks, guarded
  stores, rounds of the cleaner and the two kinds of checkpoint.
\<close>

subsection \<open>Copy-on-write hooks\<close>

definition keeps_fields :: "engine \<Rightarrow> engine \<Rightarrow> bool" where
  "keeps_fields e e' \<longleftrightarrow> nr_segments e' = nr_segments e \<and> address_first e' = address_first e \<and>
     capacity e' = capacity e \<and> address_buffer e' = address_buffer e \<and> (\<forall>s. sdirty e s \<longrightarrow> sdirty e' s)"

lemma inv_subset: "inv e H snap live \<Longrightarrow> H' \<subseteq> H \<Longrightarrow> inv e H' snap live"
  unfolding inv_def track_inv_def by blast

lemma lazy_write_back_ok:
  assumes i: "inv e H snap live" and s: "s < nr_segments e" and od: "on_demand \<Longrightarrow> \<not> sdirty e s"
  obtains e' r where "lazy_write_back s on_demand e = Some (e', r)" "inv e' H snap live"
    "crash_ok e snap live \<Longrightarrow> crash_ok e' snap live" "keeps_fields e e'" "st e' s \<noteq> SS_Main"
    "on_demand \<Longrightarrow> sdirty e' s" "\<And>r. st e' r = SS_Main \<Longrightarrow> st e r = SS_Main"
    "cleaner_st e' = cleaner_st e" "cleaner_segment e' = cleaner_segment e"
proof (cases "st e s = SS_Main")
  case False
  then have sk: "lazy_write_back s on_demand e =
      Some (if on_demand then e\<lparr>segment_dirty := bs_set s (segment_dirty e)\<rparr> else e, False)"
    using lazy_write_back_skip [OF inv_base(11) [OF i] s] inv_base(9) [OF i] by (simp add: st_def)
  note sd = set_sdirty_inv [OF i s False]
  show ?thesis
  proof (cases on_demand)
    case True
    show ?thesis
      by (rule that [of "e\<lparr>segment_dirty := bs_set s (segment_dirty e)\<rparr>" False])
        (use sk True sd False in \<open>simp_all add: keeps_fields_def sdirty_def st_def\<close>)
  next
    case nod: False
    show ?thesis
      by (rule that [of e False]) (use sk nod i False in \<open>simp_all add: keeps_fields_def\<close>)
  qed
next
  case True
  then have mn: "get_segment_state (eimg e) s = SS_Main" by (simp add: st_def)
  obtain m1 where m1:
    "evolves (\<lambda>_. False) (mirror_map (nv (eimg e)) (\<lambda>k. k div kBlocksPerSegment = s \<and> bs_test k (block_dirty e)))
       (nv (eimg e)) m1" "pend m1 = (\<lambda>_. None)"
    "lazy_write_back s on_demand e = Some (e\<lparr>eimg := set_segment_state_atomic s SS_Back (eimg (with_nv m1 e)),
        block_dirty := bs_clear_region (s * kBlocksPerSegment) (s * kBlocksPerSegment + kBlocksPerSegment) (block_dirty e),
        segment_dirty := (if on_demand then bs_set s (segment_dirty e) else segment_dirty e), held := None\<rparr>, True)"
    by (rule lazy_write_back_main [OF inv_base(11) [OF i] s mn inv_base(3,4) [OF i]])
  define e1 where "e1 = e\<lparr>eimg := set_segment_state_atomic s SS_Back (eimg (with_nv m1 e)),
        block_dirty := bs_clear_region (s * kBlocksPerSegment) (s * kBlocksPerSegment + kBlocksPerSegment) (block_dirty e)\<rparr>"
  note w = write_back_main_inv [OF i s True m1(1,2), folded e1_def]
  have s1: "s < nr_segments e1" "st e1 s \<noteq> SS_Main" using s w(3) by (simp_all add: e1_def)
  have hl: "held e1 = None" using inv_base(9) [OF i] by (simp add: e1_def)
  note sd = set_sdirty_inv [OF w(1) s1]
  define e2 where "e2 = (if on_demand then e1\<lparr>segment_dirty := bs_set s (segment_dirty e1)\<rparr> else e1)"
  have eq: "lazy_write_back s on_demand e = Some (e2, True)"
    using m1(3) inv_base(9) [OF i] by (cases e) (simp add: e2_def e1_def)
  have st2: "st e2 = (st e)(s := SS_Back)" using w(3) by (simp add: e2_def st_def fun_eq_iff)
  have kf: "keeps_fields e e2" by (simp add: keeps_fields_def e2_def e1_def sdirty_def)
  show ?thesis
  proof (rule that [OF eq])
    show "inv e2 H snap live" using sd(1) w(1) by (simp add: e2_def)
    show "crash_ok e2 snap live" if "crash_ok e snap live"
      using sd(2) w(2) [OF that] by (simp add: e2_def)
    show "st e2 s \<noteq> SS_Main" "\<And>r. st e2 r = SS_Main \<Longrightarrow> st e r = SS_Main"
      by (auto simp: st2 split: if_splits)
    show "cleaner_st e2 = cleaner_st e" "cleaner_segment e2 = cleaner_segment e" by (simp_all add: e2_def e1_def)
    show "sdirty e2 s" if on_demand using that by (simp add: e2_def sdirty_def)
  qed (rule kf)
qed

lemma cow_segment_ok:
  assumes i: "inv e H snap live" and s: "s < nr_segments e"
  obtains e' where "cow_segment s e = Some e'" "inv e' H snap live"
    "crash_ok e snap live \<Longrightarrow> crash_ok e' snap live" "keeps_fields e e'" "sdirty e' s"
proof (cases "sdirty e s")
  case True
  show ?thesis by (rule that [of e]) (use True i in \<open>simp_all add: cow_segment_def sdirty_def keeps_fields_def\<close>)
next
  case False
  show ?thesis
  proof (cases "skip_copy_on_write e")
    case True
    then have nm: "st e s \<noteq> SS_Main" using inv_state(4) [OF i s] by blast
    note sd = set_sdirty_inv [OF i s nm]
    show ?thesis
      by (rule that [of "e\<lparr>segment_dirty := bs_set s (segment_dirty e)\<rparr>"])
        (use sd True False in \<open>simp_all add: cow_segment_def sdirty_def keeps_fields_def\<close>)
  next
    case nsk: False
    obtain e' r where l: "lazy_write_back s True e = Some (e', r)" "inv e' H snap live"
      "crash_ok e snap live \<Longrightarrow> crash_ok e' snap live" "keeps_fields e e'" "st e' s \<noteq> SS_Main"
      "True \<Longrightarrow> sdirty e' s"
      by (rule lazy_write_back_ok [OF i s, of True]) (use False in auto)
    show ?thesis
      by (rule that [of e']) (use l False nsk in \<open>simp_all add: cow_segment_def sdirty_def\<close>)
  qed
qed

lemma cow_segments_ok:
  assumes "inv e H snap live" and "\<forall>s \<in> set ss. s < nr_segments e"
  shows "\<exists>e'. foldM cow_segment ss e = Some e' \<and> inv e' H snap live \<and>
    (crash_ok e snap live \<longrightarrow> crash_ok e' snap live) \<and> keeps_fields e e' \<and> (\<forall>s \<in> set ss. sdirty e' s)"
  using assms
proof (induction ss arbitrary: e)
  case Nil
  then show ?case by (simp add: keeps_fields_def)
next
  case (Cons s ss)
  have s: "s < nr_segments e" using Cons.prems(2) by simp
  obtain e1 where e1: "cow_segment s e = Some e1" "inv e1 H snap live"
    "crash_ok e snap live \<Longrightarrow> crash_ok e1 snap live" "keeps_fields e e1" "sdirty e1 s"
    by (rule cow_segment_ok [OF Cons.prems(1) s]) blast
  have "\<forall>s \<in> set ss. s < nr_segments e1" using Cons.prems(2) e1(4) by (simp add: keeps_fields_def)
  from Cons.IH [OF e1(2) this] obtain e2 where e2: "foldM cow_segment ss e1 = Some e2" "inv e2 H snap live"
    "crash_ok e1 snap live \<longrightarrow> crash_ok e2 snap live" "keeps_fields e1 e2" "\<forall>s \<in> set ss. sdirty e2 s"
    by blast
  have "sdirty e2 s" using e1(5) e2(4) by (simp add: keeps_fields_def)
  moreover have "keeps_fields e e2" using e1(4) e2(4) by (simp add: keeps_fields_def)
  ultimately show ?case using e1 e2 by auto
qed

subsection \<open>The instrumentation entry points\<close>

definition block_of :: "engine \<Rightarrow> nat \<Rightarrow> nat" where
  "block_of e a = (a - address_first e) div kBlockSize"

text \<open>The blocks a hook on \<open>len\<close> bytes at \<open>addr\<close> covers.\<close>

definition blocks_of :: "engine \<Rightarrow> nat \<Rightarrow> nat \<Rightarrow> nat set" where
  "blocks_of e addr len = {k. (addr - address_first e) div kBlockSize \<le> k \<and>
     k < (addr - address_first e + len + (kBlockSize - 1)) div kBlockSize}"

lemma seg_block_of: "seg (block_of e a) = (a - address_first e) div kSegmentSize"
  by (simp add: block_of_def seg_block)

lemma in_range_seg:
  assumes "in_range e a" and "capacity e = nr_segments e * kSegmentSize"
  shows "(a - address_first e) div kSegmentSize < nr_segments e"
  using assms by (auto simp: in_range_def div_lt_mult_iff)

lemma append_buffer_inv:
  assumes i: "inv e H snap live" and tid: "tid < kMaxThreads" and a: "in_range e a" "sdirty e (seg (block_of e a))"
  defines "e' \<equiv> e\<lparr>address_buffer := (address_buffer e)(tid := address_buffer e tid @ [a])\<rparr>"
  shows "inv e' (insert (block_of e a) H) snap live" and "crash_ok e snap live \<Longrightarrow> crash_ok e' snap live"
proof -
  have r: "in_range e' = in_range e" by (simp add: e'_def in_range_def fun_eq_iff)
  have bu: "buffered e' k \<longleftrightarrow> k = block_of e a \<or> buffered e k" for k
  proof -
    have "(\<exists>t < kMaxThreads. \<exists>b \<in> set (address_buffer e' t). in_range e b \<and> (b - address_first e) div kBlockSize = k)
      \<longleftrightarrow> k = block_of e a \<or> (\<exists>t < kMaxThreads. \<exists>b \<in> set (address_buffer e t). in_range e b \<and> (b - address_first e) div kBlockSize = k)"
    proof
      assume "k = block_of e a \<or> (\<exists>t < kMaxThreads. \<exists>b \<in> set (address_buffer e t). in_range e b \<and> (b - address_first e) div kBlockSize = k)"
      then consider "k = block_of e a" | t b where "t < kMaxThreads" "b \<in> set (address_buffer e t)" "in_range e b"
        "(b - address_first e) div kBlockSize = k" by blast
      then show "\<exists>t < kMaxThreads. \<exists>b \<in> set (address_buffer e' t). in_range e b \<and> (b - address_first e) div kBlockSize = k"
      proof cases
        case 1
        have "a \<in> set (address_buffer e' tid)" by (simp add: e'_def)
        then show ?thesis using 1 a(1) tid by (auto simp: block_of_def)
      next
        case (2 t b)
        then have "b \<in> set (address_buffer e' t)" by (cases "t = tid") (simp_all add: e'_def)
        then show ?thesis using 2 by blast
      qed
    qed (auto simp: e'_def block_of_def split: if_splits)
    then show ?thesis by (simp add: buffered_def r) (simp add: e'_def)
  qed
  have same: "sdirty e' = sdirty e" "bdirty e' = bdirty e" "st e' = st e" "nr_segments e' = nr_segments e"
    "flush_blocks e' = flush_blocks e" "all_buckets e' = all_buckets e"
    by (simp_all add: e'_def sdirty_def bdirty_def st_def all_buckets_def fun_eq_iff)
  have tr: "tracked e' k \<longleftrightarrow> k = block_of e a \<or> tracked e k" for k by (auto simp: tracked_def bu same)
  note t = inv_track [OF i]
  have "track_inv e' (insert (block_of e a) H)"
  proof (rule track_invI)
    fix k
    show "buffered e' k \<Longrightarrow> sdirty e' (seg k)" using t(4) [of k] a(2) by (auto simp: bu same)
    show "k \<in> insert (block_of e a) H \<Longrightarrow> tracked e' k \<and> sdirty e' (seg k)"
      using t(9,10) [of k] a(2) by (auto simp: tr same)
    show "bdirty e' k \<Longrightarrow> sdirty e' (seg k) \<Longrightarrow> k \<in> set (all_buckets e') \<or>
       (\<exists>t < kMaxThreads. kMaxFlushBlocks \<le> length (flush_blocks e' t))" using t(8) [of k] by (simp add: same)
    show "bdirty e' k \<Longrightarrow> sdirty e' (seg k) \<or> st e' (seg k) = SS_Main" using t(3) by (simp add: same)
    show "bdirty e' k \<Longrightarrow> seg k < nr_segments e'" using t(2) by (simp add: same)
  next
    show "k \<in> set (flush_blocks e' r) \<Longrightarrow> bdirty e' k \<and> sdirty e' (seg k) \<and> r < kMaxThreads" for k r
      using t(5-7) [of k r] by (simp add: same)
  qed (use t(1) in \<open>simp add: same\<close>)
  note q = inv_tracking [OF i _ _ _ _ _ _ _ _ _ _ _ _ this]
  show "inv e' (insert (block_of e a) H) snap live" by (rule q) (simp_all add: tr same, simp_all add: e'_def)
  show "crash_ok e snap live \<Longrightarrow> crash_ok e' snap live" by (simp add: crash_ok_def e'_def)
qed

lemma registry_cow_ok:
  assumes i: "inv e H snap live"
  obtains e' where "registry_cow a e = Some e'" "inv e' H snap live"
    "crash_ok e snap live \<Longrightarrow> crash_ok e' snap live" "keeps_fields e e'"
    "in_range e a \<Longrightarrow> sdirty e' (seg (block_of e a))"
proof (cases "in_range e a")
  case True
  obtain e' where "cow_segment ((a - address_first e) div kSegmentSize) e = Some e'" "inv e' H snap live"
    "crash_ok e snap live \<Longrightarrow> crash_ok e' snap live" "keeps_fields e e'"
    "sdirty e' ((a - address_first e) div kSegmentSize)"
    by (rule cow_segment_ok [OF i in_range_seg [OF True inv_base(4) [OF i]]]) blast
  with True show ?thesis
    by (intro that [of e']) (simp_all add: registry_cow_def hook_copy_on_write_routine_def seg_block_of)
next
  case False
  then show ?thesis using i by (intro that [of e]) (simp_all add: registry_cow_def keeps_fields_def)
qed

text \<open>An address outside the pool changes nothing that is tracked.\<close>

lemma append_foreign_inv:
  fixes tid :: nat
  assumes i: "inv e H snap live" and a: "\<not> in_range e a"
  defines "e' \<equiv> e\<lparr>address_buffer := (address_buffer e)(tid := address_buffer e tid @ [a])\<rparr>"
  shows "inv e' H snap live" and "crash_ok e snap live \<Longrightarrow> crash_ok e' snap live"
proof -
  have r: "in_range e' = in_range e" by (simp add: e'_def in_range_def fun_eq_iff)
  have b: "(\<exists>x \<in> set (address_buffer e' t). in_range e x \<and> Q x) = (\<exists>x \<in> set (address_buffer e t). in_range e x \<and> Q x)" for t Q
    using a by (auto simp: e'_def)
  have bu: "buffered e' = buffered e" by (simp add: buffered_def r b fun_eq_iff) (simp add: e'_def)
  have same: "sdirty e' = sdirty e" "bdirty e' = bdirty e" "st e' = st e" "nr_segments e' = nr_segments e"
    "flush_blocks e' = flush_blocks e" "all_buckets e' = all_buckets e" "tracked e' = tracked e"
    by (simp_all add: e'_def sdirty_def bdirty_def st_def all_buckets_def tracked_def fun_eq_iff bu [unfolded e'_def])
  have "track_inv e' H" using i by (simp add: inv_def track_inv_def same bu)
  note q = inv_tracking [OF i _ _ _ _ _ _ _ _ _ _ _ _ this]
  show "inv e' H snap live" by (rule q) (simp_all add: same, simp_all add: e'_def)
  show "crash_ok e snap live \<Longrightarrow> crash_ok e' snap live" by (simp add: crash_ok_def e'_def)
qed

lemma hook_rt_store_ok:
  assumes i: "inv e H snap live" and tid: "tid < kMaxThreads"
  obtains e' where "hook_rt_store tid a e = Some e'"
    "inv e' (if in_range e a then insert (block_of e a) H else H) snap live"
    "crash_ok e snap live \<Longrightarrow> crash_ok e' snap live"
    "nr_segments e' = nr_segments e" "address_first e' = address_first e" "capacity e' = capacity e"
proof -
  let ?H = "if in_range e a then insert (block_of e a) H else H"
  obtain e1 where e1: "registry_cow a e = Some e1" "inv e1 H snap live"
    "crash_ok e snap live \<Longrightarrow> crash_ok e1 snap live" "keeps_fields e e1"
    "in_range e a \<Longrightarrow> sdirty e1 (seg (block_of e a))"
    by (rule registry_cow_ok [OF i]) blast
  have f1: "nr_segments e1 = nr_segments e" "address_first e1 = address_first e" "capacity e1 = capacity e"
    using e1(4) by (simp_all add: keeps_fields_def)
  have r: "in_range e1 a = in_range e a" "block_of e1 a = block_of e a"
    using f1 by (simp_all add: in_range_def block_of_def)
  define e2 where "e2 = e1\<lparr>address_buffer := (address_buffer e1)(tid := address_buffer e1 tid @ [a])\<rparr>"
  have i2: "inv e2 ?H snap live" "crash_ok e1 snap live \<Longrightarrow> crash_ok e2 snap live"
    using append_buffer_inv [OF e1(2) tid, of a] append_foreign_inv [OF e1(2), of a tid] e1(5)
    by (auto simp: e2_def r)
  define e3 where "e3 = (if length (address_buffer e2 tid) = kNumBufferedAddresses then address_buffer_clear tid tid e2 else e2)"
  note c = address_buffer_clear_inv [OF i2(1) tid tid]
  show ?thesis
  proof (rule that [of e3])
    show "hook_rt_store tid a e = Some e3"
      using e1(1) by (simp add: hook_rt_store_def e2_def e3_def Let_def)
    show "inv e3 ?H snap live"
      unfolding e3_def by (cases "length (address_buffer e2 tid) = kNumBufferedAddresses") (simp_all only: c(1) i2(1) if_True if_False simp_thms)
    show "crash_ok e3 snap live" if "crash_ok e snap live"
      using c(2) i2(2) e1(3) [OF that] by (simp add: e3_def)
    show "nr_segments e3 = nr_segments e" "address_first e3 = address_first e" "capacity e3 = capacity e"
      using c(6,8,9) f1 by (simp_all add: e3_def e2_def)
  qed
qed

lemma track_blocks_inv:
  assumes "inv e H snap live" and "tid < kMaxThreads" and "\<forall>k \<in> set ks. sdirty e (seg k)"
  shows "inv (fold (track_block tid) ks e) (H \<union> set ks) snap live \<and>
    (crash_ok e snap live \<longrightarrow> crash_ok (fold (track_block tid) ks e) snap live) \<and>
    nr_segments (fold (track_block tid) ks e) = nr_segments e \<and>
    address_first (fold (track_block tid) ks e) = address_first e \<and>
    capacity (fold (track_block tid) ks e) = capacity e"
  using assms
proof (induction ks arbitrary: e H)
  case Nil
  then show ?case by simp
next
  case (Cons k ks)
  have k: "sdirty e (seg k)" using Cons.prems(3) by simp
  note b = track_block_inv [OF Cons.prems(1,2) k]
  have "\<forall>k' \<in> set ks. sdirty (track_block tid k e) (seg k')" using Cons.prems(3) by (simp add: sdirty_def)
  from Cons.IH [OF b(1) Cons.prems(2) this] show ?case using b(2) by auto
qed

lemma range_segment:
  assumes k: "d div kBlockSize \<le> k" "k < (d + len + (kBlockSize - 1)) div kBlockSize"
  shows "d div kSegmentSize \<le> seg k" and "seg k < (d + len + (kSegmentSize - 1)) div kSegmentSize"
proof -
  have "d div kBlockSize div kBlocksPerSegment \<le> seg k" unfolding seg_def by (rule div_le_mono [OF k(1)])
  then show "d div kSegmentSize \<le> seg k" by (simp add: segment_of_block)
  have "Suc k \<le> (d + len + (kBlockSize - 1)) div kBlockSize" using k(2) by simp
  then have "Suc k * 256 \<le> d + len + 255" by (simp add: geometry less_eq_div_iff_mult_less_eq)
  then have "k * 256 < d + len" by simp
  moreover have "seg k * 2097152 \<le> k * 256"
  proof -
    have "seg k * 8192 \<le> k" by (simp add: seg_def geometry)
    then show ?thesis by simp
  qed
  ultimately have "Suc (seg k) * 2097152 \<le> d + len + 2097151" by simp
  then have "Suc (seg k) \<le> (d + len + 2097151) div 2097152" by (simp add: less_eq_div_iff_mult_less_eq)
  then show "seg k < (d + len + (kSegmentSize - 1)) div kSegmentSize" by (simp add: geometry)
qed

lemma one_block: "0 < len \<Longrightarrow> r + len \<le> 256 \<Longrightarrow> (256 * q + r + len + 255) div 256 = Suc q" for q :: nat
  by (rule div_nat_eqI) simp_all

text \<open>The range must lie in the pool, as the instrumentation passes the operands of a store.\<close>

lemma hook_rt_range_store_ok:
  assumes i: "inv e H snap live" and tid: "tid < kMaxThreads"
    and rng: "address_first e \<le> addr" "addr + len \<le> address_first e + capacity e" "0 < len"
    and al: "kBlockSize dvd address_first e"
  obtains e' where "hook_rt_range_store tid addr len e = Some e'" "inv e' (H \<union> blocks_of e addr len) snap live"
    "crash_ok e snap live \<Longrightarrow> crash_ok e' snap live"
    "nr_segments e' = nr_segments e" "address_first e' = address_first e" "capacity e' = capacity e"
proof -
  define d where "d = addr - address_first e"
  have ir: "in_range e addr" using rng by (simp add: in_range_def)
  have md: "addr mod kBlockSize = d mod kBlockSize"
  proof -
    obtain q where "address_first e = kBlockSize * q" using al by (auto elim: dvdE)
    then have "addr = d + kBlockSize * q" using rng(1) by (simp add: d_def)
    then show ?thesis by simp
  qed
  show ?thesis
  proof (cases "addr mod kBlockSize + len \<le> kBlockSize")
    case True
    then have "d mod 256 + len \<le> 256" using md by (simp add: geometry)
    then have "(d + len + 255) div 256 = Suc (d div 256)"
      using one_block [OF rng(3), of "d mod 256" "d div 256"] by simp
    then have bl: "blocks_of e addr len = {block_of e addr}"
      by (auto simp: blocks_of_def block_of_def geometry simp flip: d_def)
    obtain e' where e': "hook_rt_store tid addr e = Some e'"
      "inv e' (if in_range e addr then insert (block_of e addr) H else H) snap live"
      "crash_ok e snap live \<Longrightarrow> crash_ok e' snap live"
      "nr_segments e' = nr_segments e" "address_first e' = address_first e" "capacity e' = capacity e"
      by (rule hook_rt_store_ok [OF i tid, of addr]) blast
    show ?thesis
      by (rule that [of e']) (use e' True ir in \<open>simp_all add: hook_rt_range_store_def bl\<close>)
  next
    case False
    let ?ss = "[d div kSegmentSize..<(d + len + (kSegmentSize - 1)) div kSegmentSize]"
    let ?ks = "[d div kBlockSize..<(d + len + (kBlockSize - 1)) div kBlockSize]"
    have "d + len \<le> nr_segments e * kSegmentSize" using rng(1,2) inv_base(4) [OF i] by (simp add: d_def)
    then have "(d + len + (kSegmentSize - 1)) div kSegmentSize \<le> nr_segments e"
      by (simp add: geometry less_Suc_eq_le [symmetric] div_less_iff_less_mult)
    then have "\<forall>s \<in> set ?ss. s < nr_segments e" by auto
    from cow_segments_ok [OF i this] obtain e1 where e1: "foldM cow_segment ?ss e = Some e1" "inv e1 H snap live"
      "crash_ok e snap live \<longrightarrow> crash_ok e1 snap live" "keeps_fields e e1" "\<forall>s \<in> set ?ss. sdirty e1 s"
      by blast
    have "\<forall>k \<in> set ?ks. sdirty e1 (seg k)"
    proof
      fix k assume "k \<in> set ?ks"
      then have "seg k \<in> set ?ss" using range_segment [of d k len] by simp
      with e1(5) show "sdirty e1 (seg k)" by blast
    qed
    note tb = track_blocks_inv [OF e1(2) tid this]
    have bl: "blocks_of e addr len = set ?ks" by (auto simp: blocks_of_def d_def)
    have eq: "hook_rt_range_store tid addr len e = Some (fold (track_block tid) ?ks e1)"
      using False ir e1(1,4)
      by (simp add: hook_rt_range_store_def hook_copy_on_write_routine_range_def hook_routine_range_blocks Let_def
          keeps_fields_def d_def)
    have kf: "nr_segments e1 = nr_segments e" "address_first e1 = address_first e" "capacity e1 = capacity e"
      using e1(4) by (simp_all add: keeps_fields_def)
    show ?thesis
    proof (rule that [OF eq])
      show "inv (fold (track_block tid) ?ks e1) (H \<union> blocks_of e addr len) snap live"
        unfolding bl using tb by (rule conjunct1)
      show "crash_ok (fold (track_block tid) ?ks e1) snap live" if "crash_ok e snap live"
        using tb e1(3) that by blast
    qed (use tb kf in simp_all)
  qed
qed

subsection \<open>Stores by the program\<close>

text \<open>A store is covered when its block has been hooked since the last checkpoint.\<close>

definition store_byte :: "nat \<Rightarrow> nat \<Rightarrow> engine \<Rightarrow> engine" where
  "store_byte x v e = map_nv (nv_store [MainB x \<mapsto> v]) e"

lemma store_byte_inv:
  fixes v :: nat
  assumes i: "inv e H snap live" and x: "x div kBlockSize \<in> H"
  defines "e' \<equiv> store_byte x v e"
  shows "inv e' H snap live" and "crash_ok e snap live \<Longrightarrow> crash_ok e' snap live"
    and "nr_segments e' = nr_segments e" "address_first e' = address_first e" "capacity e' = capacity e"
proof -
  let ?m = "nv (eimg e)"
  note t = inv_track [OF i]
  have sd: "sdirty e (x div kSegmentSize)" using t(10) [OF x] by (simp add: seg_block)
  have sn: "x div kSegmentSize < nr_segments e" by (rule t(1) [OF sd])
  have nm: "st e (x div kSegmentSize) \<noteq> SS_Main" using inv_state(3) [OF i sn] sd by blast
  have tx: "tracked e (x div kBlockSize)" by (rule t(9) [OF x])
  have e': "eimg e' = nv_upd (nv_store [MainB x \<mapsto> v]) (eimg e)" by (simp add: e'_def store_byte_def map_nv_def)
  have c: "rd (eimg e') l = rd (eimg e) l" "quiet (nv (eimg e')) l = quiet ?m l" "settled (nv (eimg e')) l = settled ?m l"
      "dur (nv (eimg e')) l = dur ?m l"
    if "l \<noteq> MainB x" for l
    using that by (simp_all add: e' rd_def)
  have g: "active (eimg e') = active (eimg e)" by (simp add: active_def c)
  have gs: "get_segment_state (eimg e') = get_segment_state (eimg e)"
    by (simp add: fun_eq_iff get_segment_state_active g c)
  have f: "nr_segments e' = nr_segments e" "nr_blocks e' = nr_blocks e" "capacity e' = capacity e"
    "nr_back_segments e' = nr_back_segments e" "main_to_back (eimg e') = main_to_back (eimg e)" "held e' = held e"
    "checkpoint_in_progress e' = checkpoint_in_progress e" "flush_blocks e' = flush_blocks e"
    "cleaner_st e' = cleaner_st e" "cleaner_segment e' = cleaner_segment e" "skip_copy_on_write e' = skip_copy_on_write e"
    "segment_state_dirty (eimg e') = segment_state_dirty (eimg e)" "address_first e' = address_first e"
    by (simp_all add: e'_def store_byte_def map_nv_def)
  have "st e' = st e" by (simp add: st_def gs fun_eq_iff)
  moreover have "sdirty e' = sdirty e" "bdirty e' = bdirty e" "buffered e' = buffered e"
    "tracked e' = tracked e" "all_buckets e' = all_buckets e"
    by (simp_all add: sdirty_def bdirty_def buffered_def tracked_def in_range_def all_buckets_def fun_eq_iff
        e'_def store_byte_def map_nv_def)
  ultimately have s: "st e' = st e" "sdirty e' = sdirty e" "bdirty e' = bdirty e" "buffered e' = buffered e"
    "tracked e' = tracked e" "all_buckets e' = all_buckets e" by blast+
  have h: "hdr_ok (eimg e') = hdr_ok (eimg e)" "synced (eimg e') = synced (eimg e)"
    by (simp_all add: hdr_ok_def synced_def upd_ok_def c g gs f)
  have "header_is (nr_segments e) (rd (eimg e')) = header_is (nr_segments e) (rd (eimg e))"
    by (simp add: header_is_def c)
  moreover have "visible (nv (eimg e'))" using inv_base(13) [OF i] by (simp add: e')
  ultimately have "base_inv e'" using i by (simp add: inv_def base_inv_def f h)
  moreover have "data_inv e' snap"
    unfolding data_inv_def f s
  proof (intro allI impI)
    fix y assume y: "y div kSegmentSize < nr_segments e"
    note d = inv_data [OF i y]
    show "(\<not> tracked e (y div kBlockSize) \<longrightarrow>
        quiet (nv (eimg e')) (MainB y) \<and> quiet (nv (eimg e')) (BackB y) \<and> rd (eimg e') (MainB y) = rd (eimg e') (BackB y)) \<and>
     (st e (y div kSegmentSize) = SS_Main \<longrightarrow> quiet (nv (eimg e')) (MainB y) \<and> rd (eimg e') (MainB y) = snap y) \<and>
     (st e (y div kSegmentSize) = SS_Back \<longrightarrow> quiet (nv (eimg e')) (BackB y) \<and> rd (eimg e') (BackB y) = snap y)"
      using d tx nm by (cases "y = x") (simp_all add: c)
  qed
  moreover have "state_inv e' live" using i by (simp add: inv_def state_inv_def s f)
  moreover have "track_inv e' H" using i by (simp add: inv_def track_inv_def s f)
  ultimately show "inv e' H snap live" by (simp add: inv_def)
  assume cr: "crash_ok e snap live"
  have ns: "\<not> protected (eimg e) (nr_segments e) (MainB x)" using nm by (simp add: st_def)
  have "keeps (protected (eimg e) (nr_segments e)) ?m (nv (eimg e'))"
    unfolding e' nv_upd_simps
    by (rule keepsI [where hs = "[]"]) (use inv_protected_quiet [OF i] ns in \<open>auto split: option.splits\<close>)
  from keeps_crash_safe [OF this] cr show "crash_ok e' snap live"
    unfolding crash_ok_def f using inv_stands_for [OF i] by (simp add: rd_def)
qed (simp_all add: e'_def store_byte_def map_nv_def)

subsection \<open>The cleaner\<close>

lemma cleaner_step_ok:
  assumes i: "inv e H snap live"
  obtains e' where "cleaner_step e = Some e'" "inv e' H snap live" "crash_ok e snap live \<Longrightarrow> crash_ok e' snap live"
    "nr_segments e' = nr_segments e" "address_first e' = address_first e" "capacity e' = capacity e"
proof (cases "cleaner_st e")
  case WB_STARTED
  define e' where "e' = e\<lparr>cleaner_segment := 0, cleaner_st := WB_RUNNING\<rparr>"
  have s: "st e' = st e" "sdirty e' = sdirty e" "bdirty e' = bdirty e" "buffered e' = buffered e"
    "tracked e' = tracked e" "all_buckets e' = all_buckets e"
    by (simp_all add: e'_def st_def sdirty_def bdirty_def buffered_def tracked_def in_range_def all_buckets_def fun_eq_iff)
  have "base_inv e'" "data_inv e' snap" "track_inv e' H"
    using i by (simp_all add: inv_def base_inv_def data_inv_def track_inv_def s) (simp_all add: e'_def)
  moreover have "state_inv e' live"
    using i WB_STARTED inv_base(1) [OF i] by (simp add: inv_def state_inv_def s) (simp add: e'_def)
  ultimately have "inv e' H snap live" by (simp add: inv_def)
  then show ?thesis
    by (intro that [of e']) (simp_all add: cleaner_step_def WB_STARTED e'_def crash_ok_def)
next
  case WB_RUNNING
  have k: "cleaner_segment e < nr_segments e" using i WB_RUNNING by (simp add: inv_def state_inv_def)
  obtain e1 r where e1: "lazy_write_back (cleaner_segment e) False e = Some (e1, r)" "inv e1 H snap live"
    "crash_ok e snap live \<Longrightarrow> crash_ok e1 snap live" "keeps_fields e e1" "st e1 (cleaner_segment e) \<noteq> SS_Main"
    "\<And>r. st e1 r = SS_Main \<Longrightarrow> st e r = SS_Main"
    "cleaner_st e1 = cleaner_st e" "cleaner_segment e1 = cleaner_segment e"
    by (rule lazy_write_back_ok [OF i k, of False]) auto
  have n1: "nr_segments e1 = nr_segments e" "address_first e1 = address_first e" "capacity e1 = capacity e"
    using e1(4) by (simp_all add: keeps_fields_def)
  define e2 where "e2 = e1\<lparr>cleaner_segment := cleaner_segment e1 + 1\<rparr>"
  define e3 where "e3 = (if cleaner_segment e2 = nr_segments e2 then e2\<lparr>cleaner_st := WB_IDLE\<rparr> else e2)"
  have eq: "cleaner_step e = Some e3"
    using e1(1) inv_base(10) [OF i] by (simp add: cleaner_step_def WB_RUNNING e3_def e2_def Let_def)
  have im3: "eimg e3 = eimg e1" "nr_segments e3 = nr_segments e1" "address_first e3 = address_first e1" "capacity e3 = capacity e1"
    "flush_blocks e3 = flush_blocks e1"
    "skip_copy_on_write e3 = skip_copy_on_write e1" "cleaner_segment e3 = cleaner_segment e + 1"
    "cleaner_st e3 = (if cleaner_segment e + 1 = nr_segments e1 then WB_IDLE else WB_RUNNING)"
    using WB_RUNNING e1(7,8) by (simp_all add: e3_def e2_def)
  have s: "st e3 = st e1" "sdirty e3 = sdirty e1" "bdirty e3 = bdirty e1" "buffered e3 = buffered e1"
    "tracked e3 = tracked e1" "all_buckets e3 = all_buckets e1"
    by (simp_all add: e3_def e2_def st_def sdirty_def bdirty_def buffered_def tracked_def in_range_def all_buckets_def fun_eq_iff)
  have "base_inv e3" using e1(2) by (simp add: inv_def base_inv_def e3_def e2_def)
  moreover have "data_inv e3 snap" using e1(2) by (simp add: inv_def data_inv_def s im3)
  moreover have "track_inv e3 H" using e1(2) by (simp add: inv_def track_inv_def s im3)
  moreover have "state_inv e3 live"
    unfolding state_inv_def s im3
  proof (intro conjI allI impI)
    fix j assume j: "j < nr_segments e1"
    note si = inv_state [OF e1(2) j]
    show "st e1 j = SS_Initial \<or> st e1 j = SS_Main \<or> st e1 j = SS_Back" "live j = (st e1 j \<noteq> SS_Initial)" by (rule si)+
    assume m: "st e1 j = SS_Main"
    have "cleaner_segment e \<le> j" using si(6) m e1(7,8) WB_RUNNING by simp
    moreover have "j \<noteq> cleaner_segment e" using e1(5) m by auto
    ultimately have lt: "cleaner_segment e + 1 \<le> j" by simp
    then show "(if cleaner_segment e + 1 = nr_segments e1 then WB_IDLE else WB_RUNNING) \<noteq> WB_IDLE" using j by simp
    show "cleaner_segment e + 1 \<le> j" by (rule lt)
    show "\<not> sdirty e1 j" "\<not> skip_copy_on_write e1" using si m by simp_all
  next
    assume "(if cleaner_segment e + 1 = nr_segments e1 then WB_IDLE else WB_RUNNING) = WB_RUNNING"
    then show "cleaner_segment e + 1 < nr_segments e1" using k n1 by (simp split: if_splits)
  qed
  ultimately have "inv e3 H snap live" by (simp add: inv_def)
  then show ?thesis
    using e1(3) n1 by (intro that [OF eq]) (simp_all add: crash_ok_def im3)
next
  case WB_IDLE
  then show ?thesis using i by (intro that [of e]) (simp_all add: cleaner_step_def)
qed

end
