(* ===== verification/NvmInst_Checkpoint.thy ===== *)
theory NvmInst_Checkpoint
  imports NvmInst_Steps
begin

text \<open>
  The checkpoint of \<^verbatim>\<open>NvmInstEngine\<close> in its two modes. Up to the first commit both
  modes are the same argument; after it the image stands for the memory as it is.
\<close>

subsection \<open>Up to the commit\<close>

definition new_snap :: "engine \<Rightarrow> nat \<Rightarrow> nat" where
  "new_snap e x = rd (eimg e) (MainB x)"

definition new_live :: "engine \<Rightarrow> (nat \<Rightarrow> bool) \<Rightarrow> nat \<Rightarrow> bool" where
  "new_live e live s \<longleftrightarrow> live s \<or> s \<in> set (layout_segments e)"

text \<open>What holds when all participants have flushed.\<close>

definition flushed_inv :: "engine \<Rightarrow> (nat \<Rightarrow> nat) \<Rightarrow> (nat \<Rightarrow> bool) \<Rightarrow> bool" where
  "flushed_inv e snap live \<longleftrightarrow> inv (e\<lparr>checkpoint_in_progress := False, skip_copy_on_write := False\<rparr>) {} snap live \<and>
     (\<forall>k. \<not> buffered e k) \<and> pend (nv (eimg e)) = (\<lambda>_. None) \<and>
     (\<forall>x. x div kSegmentSize < nr_segments e \<longrightarrow> quiet (nv (eimg e)) (MainB x)) \<and>
     (\<forall>s \<in> set (layout_segments e). sdirty e s) \<and>
     (\<forall>k. bdirty e k \<and> sdirty e (seg k) \<longrightarrow> seg k \<in> set (layout_segments e) \<and>
        (mode e = FMODE_WBINVD \<or> k \<in> set (all_buckets e)))"

lemma inv_flags:
  "st (e\<lparr>checkpoint_in_progress := p, skip_copy_on_write := q\<rparr>) = st e"
  "sdirty (e\<lparr>checkpoint_in_progress := p, skip_copy_on_write := q\<rparr>) = sdirty e"
  "bdirty (e\<lparr>checkpoint_in_progress := p, skip_copy_on_write := q\<rparr>) = bdirty e"
  "buffered (e\<lparr>checkpoint_in_progress := p, skip_copy_on_write := q\<rparr>) = buffered e"
  "tracked (e\<lparr>checkpoint_in_progress := p, skip_copy_on_write := q\<rparr>) = tracked e"
  "all_buckets (e\<lparr>checkpoint_in_progress := p, skip_copy_on_write := q\<rparr>) = all_buckets e"
  by (simp_all add: st_def sdirty_def bdirty_def buffered_def tracked_def in_range_def all_buckets_def fun_eq_iff)

text \<open>The facts about \<open>e\<close> itself.\<close>

lemma flushed_facts:
  assumes f: "flushed_inv e snap live"
  shows "0 < nr_segments e" "64 dvd nr_segments e" "header_is (nr_segments e) (rd (eimg e))"
    "hdr_ok (eimg e)" "synced (eimg e)" "bound_identity e" "rd (eimg e) HNrMain = nr_segments e"
    "x div kSegmentSize < nr_segments e \<Longrightarrow> \<not> bdirty e (x div kBlockSize) \<Longrightarrow> quiet (nv (eimg e)) (BackB x)"
    "x div kSegmentSize < nr_segments e \<Longrightarrow> \<not> bdirty e (x div kBlockSize) \<Longrightarrow> rd (eimg e) (BackB x) = rd (eimg e) (MainB x)"
    "x div kSegmentSize < nr_segments e \<Longrightarrow> st e (x div kSegmentSize) = SS_Main \<Longrightarrow> rd (eimg e) (MainB x) = snap x"
    "x div kSegmentSize < nr_segments e \<Longrightarrow> st e (x div kSegmentSize) = SS_Back \<Longrightarrow> quiet (nv (eimg e)) (BackB x)"
    "x div kSegmentSize < nr_segments e \<Longrightarrow> st e (x div kSegmentSize) = SS_Back \<Longrightarrow> rd (eimg e) (BackB x) = snap x"
    "s < nr_segments e \<Longrightarrow> st e s = SS_Initial \<or> st e s = SS_Main \<or> st e s = SS_Back"
    "s < nr_segments e \<Longrightarrow> live s \<longleftrightarrow> st e s \<noteq> SS_Initial"
    "s < nr_segments e \<Longrightarrow> st e s = SS_Main \<Longrightarrow> \<not> sdirty e s"
    "s < nr_segments e \<Longrightarrow> st e s = SS_Main \<Longrightarrow> cleaner_st e \<noteq> WB_IDLE"
    "s < nr_segments e \<Longrightarrow> st e s = SS_Main \<Longrightarrow> cleaner_st e = WB_RUNNING \<Longrightarrow> cleaner_segment e \<le> s"
    "cleaner_st e = WB_RUNNING \<Longrightarrow> cleaner_segment e < nr_segments e"
    "sdirty e s \<Longrightarrow> s < nr_segments e" "bdirty e k \<Longrightarrow> seg k < nr_segments e"
    "bdirty e k \<Longrightarrow> sdirty e (seg k) \<or> st e (seg k) = SS_Main"
    "\<not> buffered e k" "pend (nv (eimg e)) = (\<lambda>_. None)"
    "x div kSegmentSize < nr_segments e \<Longrightarrow> quiet (nv (eimg e)) (MainB x)"
    "s \<in> set (layout_segments e) \<Longrightarrow> sdirty e s"
    "bdirty e k \<Longrightarrow> sdirty e (seg k) \<Longrightarrow> seg k \<in> set (layout_segments e)"
    "bdirty e k \<Longrightarrow> sdirty e (seg k) \<Longrightarrow> mode e = FMODE_WBINVD \<or> k \<in> set (all_buckets e)"
    "visible (nv (eimg e))"
proof -
  let ?e = "e\<lparr>checkpoint_in_progress := False, skip_copy_on_write := False\<rparr>"
  have i: "inv ?e {} snap live" and bu: "\<And>k. \<not> buffered e k" using f by (simp_all add: flushed_inv_def)
  have tr: "tracked e k = bdirty e k" for k using bu by (simp add: tracked_def)
  show "0 < nr_segments e" "64 dvd nr_segments e" "header_is (nr_segments e) (rd (eimg e))"
    "hdr_ok (eimg e)" "synced (eimg e)" "bound_identity e" "rd (eimg e) HNrMain = nr_segments e"
    "visible (nv (eimg e))"
    using inv_base [OF i] by (simp_all add: bound_identity_def)
  show "cleaner_st e = WB_RUNNING \<Longrightarrow> cleaner_segment e < nr_segments e" using i by (simp add: inv_def state_inv_def)
  show "sdirty e s \<Longrightarrow> s < nr_segments e" "bdirty e k \<Longrightarrow> seg k < nr_segments e"
    "bdirty e k \<Longrightarrow> sdirty e (seg k) \<or> st e (seg k) = SS_Main"
    using inv_track(1-3) [OF i] by (simp_all add: inv_flags)
  show "\<not> buffered e k" "pend (nv (eimg e)) = (\<lambda>_. None)"
    "x div kSegmentSize < nr_segments e \<Longrightarrow> quiet (nv (eimg e)) (MainB x)"
    "s \<in> set (layout_segments e) \<Longrightarrow> sdirty e s"
    "bdirty e k \<Longrightarrow> sdirty e (seg k) \<Longrightarrow> seg k \<in> set (layout_segments e)"
    "bdirty e k \<Longrightarrow> sdirty e (seg k) \<Longrightarrow> mode e = FMODE_WBINVD \<or> k \<in> set (all_buckets e)"
    using f by (simp_all add: flushed_inv_def)
  { assume "s < nr_segments e"
    then have s: "s < nr_segments ?e" by simp
    show "st e s = SS_Initial \<or> st e s = SS_Main \<or> st e s = SS_Back" "live s \<longleftrightarrow> st e s \<noteq> SS_Initial"
      "st e s = SS_Main \<Longrightarrow> \<not> sdirty e s" "st e s = SS_Main \<Longrightarrow> cleaner_st e \<noteq> WB_IDLE"
      "st e s = SS_Main \<Longrightarrow> cleaner_st e = WB_RUNNING \<Longrightarrow> cleaner_segment e \<le> s"
      using inv_state(1,2,3,5,6) [OF i s] by (simp_all add: inv_flags) }
  { assume "x div kSegmentSize < nr_segments e"
    then have x: "x div kSegmentSize < nr_segments ?e" by simp
    show "\<not> bdirty e (x div kBlockSize) \<Longrightarrow> quiet (nv (eimg e)) (BackB x)"
      "\<not> bdirty e (x div kBlockSize) \<Longrightarrow> rd (eimg e) (BackB x) = rd (eimg e) (MainB x)"
      "st e (x div kSegmentSize) = SS_Main \<Longrightarrow> rd (eimg e) (MainB x) = snap x"
      "st e (x div kSegmentSize) = SS_Back \<Longrightarrow> quiet (nv (eimg e)) (BackB x)"
      "st e (x div kSegmentSize) = SS_Back \<Longrightarrow> rd (eimg e) (BackB x) = snap x"
      using inv_data(2,3,5,6,7) [OF i x] by (simp_all add: inv_flags tr) }
qed

text \<open>A block outside the committed segments is clean unless its segment is in state \<^verbatim>\<open>SS_Main\<close>.\<close>

lemma flushed_clean:
  assumes f: "flushed_inv e snap live" and x: "x div kSegmentSize < nr_segments e"
    and ns: "x div kSegmentSize \<notin> set (layout_segments e)" and nm: "st e (x div kSegmentSize) \<noteq> SS_Main"
  shows "\<not> bdirty e (x div kBlockSize)"
  using flushed_facts(21,26) [OF f, of "x div kBlockSize"] ns nm by (auto simp: seg_block)

lemma commit_main:
  assumes f: "flushed_inv e snap live"
    and cr: "crash_safe (stands_for (nr_segments e) snap live) (nv (eimg e))"
  defines "P \<equiv> \<lambda>pm. stands_for (nr_segments e) snap live pm \<or>
      stands_for (nr_segments e) (new_snap e) (new_live e live) pm"
  obtains e' where "commit_layout_state SS_Main e = Some e'" "e' = e\<lparr>eimg := eimg e'\<rparr>"
    "hdr_ok (eimg e')" "synced (eimg e')" "header_is (nr_segments e) (rd (eimg e'))"
    "main_to_back (eimg e') = main_to_back (eimg e)"
    "\<And>s. s < nr_segments e \<Longrightarrow> st e' s = (if s \<in> set (layout_segments e) then SS_Main else st e s)"
    "\<And>l. is_data_cell l \<Longrightarrow> rd (eimg e') l = rd (eimg e) l"
    "\<And>l. is_data_cell l \<Longrightarrow> quiet (nv (eimg e)) l \<Longrightarrow> quiet (nv (eimg e')) l"
    "crash_safe P (nv (eimg e'))"
proof -
  let ?ns = "nr_segments e" and ?im = "eimg e"
  note F = flushed_facts [OF f]
  have segs: "\<forall>s \<in> set (layout_segments e). s < rd ?im HNrMain" using F(19,25) by (auto simp: F(7))
  obtain im' where im': "commit_layout_state SS_Main e = Some (e\<lparr>eimg := im'\<rparr>)"
    "hdr_ok im'" "synced im'" "main_to_back im' = main_to_back ?im"
    "\<And>s. s < rd ?im HNrMain \<Longrightarrow>
       get_segment_state im' s = (if s \<in> set (layout_segments e) then SS_Main else get_segment_state ?im s)"
    "\<And>l. \<not> is_state_cell l \<Longrightarrow> rd im' l = rd ?im l"
    "\<And>l. \<not> is_state_cell l \<Longrightarrow> settled (nv ?im) l \<Longrightarrow> quiet (nv im') l"
    and crash: "\<And>pm. pm \<in> crash_images (nv im') \<Longrightarrow>
       (\<exists>d \<in> set (hist (nv ?im)). \<forall>l. pm l \<in> d l) \<or>
       (\<forall>l. (\<forall>s. l \<noteq> SegSt (other (active ?im)) s) \<longrightarrow> pm l \<in> dur (nv ?im) l) \<or>
       (pm HEpoch = rd ?im HEpoch \<and> (\<forall>s < rd ?im HNrMain. pst pm s = get_segment_state ?im s) \<or>
        pm HEpoch = next_epoch (rd ?im HEpoch) \<and> (\<forall>s < rd ?im HNrMain. pst pm s = get_segment_state im' s)) \<and>
       (\<forall>l. \<not> is_state_cell l \<longrightarrow> pm l \<in> dur (nv_fence (nv ?im)) l)"
    by (rule commit_layout [OF F(4,5) _ segs, where st = SS_Main]) (use F(1,7) in auto)
  have hd': "header_is ?ns (rd im')"
    using F(3) im'(2) unfolding header_is_def hdr_ok_def by (simp add: im'(6))
  have dq: "pm l = rd ?im l" if "pm l \<in> dur (nv ?im) l" "quiet (nv ?im) l" for pm l
    using that by (simp add: quiet_durable rd_def)
  have durf: "dur (nv_fence (nv ?im)) = dur (nv ?im)" by (simp add: fun_eq_iff F(23))
  have hq: "quiet (nv ?im) l" if "l \<in> {HMagic, HNrMain, HNrBack, HEpoch} \<union> range B2M" for l
    using that F(4) by (auto simp: hdr_ok_def)
  have sq: "quiet (nv ?im) (SegSt (active ?im) s)" if "s < ?ns" for s
    using F(5,7) that by (simp add: synced_def upd_ok_def)
  have new: "stands_for ?ns (new_snap e) (new_live e live) pm"
    if hp: "header_is ?ns pm" and ps: "\<And>s. s < ?ns \<Longrightarrow> pst pm s = (if s \<in> set (layout_segments e) then SS_Main else st e s)"
      and pd: "\<And>l. is_data_cell l \<Longrightarrow> quiet (nv ?im) l \<Longrightarrow> pm l = rd ?im l" for pm
  proof (rule stands_forI [OF hp])
    fix s assume "s < ?ns" "new_live e live s"
    then show "pst pm s = SS_Main \<or> pst pm s = SS_Back" using ps F(13,14) by (auto simp: new_live_def)
  next
    fix x assume "x div kSegmentSize < ?ns"
    then show "pm (MainB x) = new_snap e x" using pd [of "MainB x"] F(24) by (simp add: new_snap_def)
  next
    fix x assume x: "x div kSegmentSize < ?ns" and b: "pst pm (x div kSegmentSize) = SS_Back"
    then have nb: "x div kSegmentSize \<notin> set (layout_segments e)" "st e (x div kSegmentSize) = SS_Back"
      using ps [OF x] by (auto split: if_splits)
    then have "\<not> bdirty e (x div kBlockSize)" using flushed_clean [OF f x] by simp
    then have "quiet (nv ?im) (BackB x)" "rd ?im (BackB x) = rd ?im (MainB x)" using F(8,9) x by blast+
    then show "pm (BackB x) = new_snap e x" using pd [of "BackB x"] by (simp add: new_snap_def)
  qed
  have old: "stands_for ?ns snap live pm"
    if hp: "header_is ?ns pm" and ps: "\<And>s. s < ?ns \<Longrightarrow> pst pm s = st e s"
      and pd: "\<And>l. is_data_cell l \<Longrightarrow> quiet (nv ?im) l \<Longrightarrow> pm l = rd ?im l" for pm
  proof (rule stands_forI [OF hp])
    fix s assume "s < ?ns" "live s"
    then show "pst pm s = SS_Main \<or> pst pm s = SS_Back" using ps F(13,14) by auto
  next
    fix x assume x: "x div kSegmentSize < ?ns" and b: "pst pm (x div kSegmentSize) = SS_Main"
    then show "pm (MainB x) = snap x" using ps [OF x] F(10,24) [OF x] pd [of "MainB x"] by simp
  next
    fix x assume x: "x div kSegmentSize < ?ns" and b: "pst pm (x div kSegmentSize) = SS_Back"
    then show "pm (BackB x) = snap x" using ps [OF x] F(11,12) [OF x] pd [of "BackB x"] by simp
  qed
  have cP: "crash_safe P (nv im')"
    unfolding crash_safe_def
  proof
    fix pm assume "pm \<in> crash_images (nv im')"
    from crash [OF this] F(7)
    consider (h) d where "d \<in> set (hist (nv ?im))" "\<forall>l. pm l \<in> d l"
      | (d) "\<forall>l. (\<forall>s. l \<noteq> SegSt (other (active ?im)) s) \<longrightarrow> pm l \<in> dur (nv ?im) l"
      | (o) "pm HEpoch = rd ?im HEpoch" "\<forall>s < ?ns. pst pm s = st e s" "\<forall>l. \<not> is_state_cell l \<longrightarrow> pm l \<in> dur (nv ?im) l"
      | (n) "pm HEpoch = next_epoch (rd ?im HEpoch)" "\<forall>s < ?ns. pst pm s = get_segment_state im' s"
          "\<forall>l. \<not> is_state_cell l \<longrightarrow> pm l \<in> dur (nv ?im) l"
      unfolding durf st_def by metis
    then show "P pm"
    proof cases
      case (h d)
      then have "pm \<in> crash_images (nv ?im)" by (auto simp: crash_images_def crash_points_def)
      then show ?thesis using cr by (simp add: crash_safe_def P_def)
    next
      case d
      have v: "pm l = rd ?im l" if "\<forall>s. l \<noteq> SegSt (other (active ?im)) s" "quiet (nv ?im) l" for l
        using d that dq by blast
      have "header_is ?ns pm" using F(3) by (simp add: header_is_def v hq)
      moreover have "pst pm s = st e s" if "s < ?ns" for s
        using sq [OF that] by (simp add: pst_def st_def get_segment_state_active v hq flip: active_def)
      ultimately have "stands_for ?ns snap live pm" by (rule old) (auto intro: v)
      then show ?thesis by (simp add: P_def)
    next
      case o
      have v: "pm l = rd ?im l" if "\<not> is_state_cell l" "quiet (nv ?im) l" for l
        using o(3) that dq by blast
      have "header_is ?ns pm" using F(3) by (simp add: header_is_def v hq o(1))
      then have "stands_for ?ns snap live pm"
        by (rule old) (use o(2) in \<open>auto intro!: v simp: data_not_state\<close>)
      then show ?thesis by (simp add: P_def)
    next
      case n
      have v: "pm l = rd ?im l" if "\<not> is_state_cell l" "quiet (nv ?im) l" for l
        using n(3) that dq by blast
      have "header_is ?ns pm" using F(3) by (simp add: header_is_def v hq n(1))
      then have "stands_for ?ns (new_snap e) (new_live e live) pm"
        by (rule new) (use n(2) im'(5) in \<open>auto intro!: v simp: data_not_state F(7) st_def\<close>)
      then show ?thesis by (simp add: P_def)
    qed
  qed
  show ?thesis
    by (rule that [OF im'(1)])
      (use im'(2-7) hd' cP F(7) in \<open>auto simp: st_def data_not_state quiet_settled\<close>)
qed

subsection \<open>The flush\<close>

lemma with_nv_fields [simp]:
  "nr_blocks (with_nv m e) = nr_blocks e" "nr_back_segments (with_nv m e) = nr_back_segments e"
  "held (with_nv m e) = held e" "checkpoint_in_progress (with_nv m e) = checkpoint_in_progress e"
  "skip_copy_on_write (with_nv m e) = skip_copy_on_write e" "cleaner_st (with_nv m e) = cleaner_st e"
  "cleaner_segment (with_nv m e) = cleaner_segment e" "address_first (with_nv m e) = address_first e"
  "has_snapshot (with_nv m e) = has_snapshot e" "address_buffer (with_nv m e) = address_buffer e"
  "bdirty (with_nv m e) = bdirty e" "sdirty (with_nv m e) = sdirty e" "all_buckets (with_nv m e) = all_buckets e"
  "buffered (with_nv m e) = buffered e" "tracked (with_nv m e) = tracked e"
  "layout_segments (with_nv m e) = layout_segments e"
  by (simp_all add: with_nv_def map_nv_def bdirty_def sdirty_def all_buckets_def buffered_def tracked_def
      in_range_def layout_segments_def fun_eq_iff)

text \<open>Write-backs and fences keep the invariant.\<close>

lemma evolves_inv:
  assumes i: "inv e H snap live" and ev: "evolves P Map.empty (nv (eimg e)) m"
  shows "inv (with_nv m e) H snap live" and "crash_ok e snap live \<Longrightarrow> crash_ok (with_nv m e) snap live"
    and "st (with_nv m e) = st e"
proof -
  note b = inv_base [OF i] and v = evolves_simps [OF ev]
  have V: "\<forall>l. \<not> is_data_cell l \<longrightarrow> Map.empty l = (None :: nat option)" by simp
  note h = evolves_header [OF ev V b(7,8)]
  have c: "cur m l = rd (eimg e) l" for l using v(1) by (simp add: rd_def)
  show s: "st (with_nv m e) = st e" by (simp add: st_def h(4) fun_eq_iff)
  have q: "quiet (nv (eimg e)) l \<Longrightarrow> quiet m l" for l using v(6) by simp
  have "base_inv (with_nv m e)"
    using i h(1,2) evolves_visible [OF ev b(13)] by (simp add: inv_def base_inv_def c header_is_def)
  moreover have "data_inv (with_nv m e) snap"
    using i q unfolding inv_def data_inv_def by (simp add: s c)
  moreover have "state_inv (with_nv m e) live" using i by (simp add: inv_def state_inv_def s)
  moreover have "track_inv (with_nv m e) H" using i by (simp add: inv_def track_inv_def s)
  ultimately show "inv (with_nv m e) H snap live" by (simp add: inv_def)
  assume cr: "crash_ok e snap live"
  have kp: "keeps (protected (eimg e) (nr_segments e)) (nv (eimg e)) m"
    using inv_protected_quiet [OF i] by (intro evolves_keeps [OF ev]) simp
  show "crash_ok (with_nv m e) snap live"
    using cr unfolding crash_ok_def with_nv_simps
    by (intro keeps_crash_safe [OF kp]) (auto intro: inv_stands_for [OF i] simp: rd_def)
qed

lemma set_layout_segments:
  assumes "64 dvd nr_segments e" and "\<And>s. sdirty e s \<Longrightarrow> s < nr_segments e"
  shows "set (layout_segments e) =
    (if mode e = FMODE_WBINVD then {s. sdirty e s} else seg ` set (all_buckets e))"
  using assms by (auto simp: layout_segments_def set_scan_range sdirty_def seg_def)

lemma determine_mode:
  assumes "e' = determine_flush_mode e"
  shows "mode e' = FMODE_NO_ACTION \<longleftrightarrow> (\<forall>t < kMaxThreads. flush_blocks e t = [])"
    and "mode e' = FMODE_USE_FLUSH_BLOCKS \<Longrightarrow> t < kMaxThreads \<Longrightarrow> length (flush_blocks e t) < kMaxFlushBlocks"
    and "e' = e\<lparr>mode := mode e'\<rparr>"
  by (auto simp: assms determine_flush_mode_def Let_def list_all_iff list_ex_iff not_le split: if_splits)

lemma checkpoint_begin_flush:
  assumes i: "inv e H snap live" and cr: "crash_ok e snap live" and tid: "leader < kMaxThreads" and n: "0 < n"
    and md: "mode (checkpoint_begin leader e) \<noteq> FMODE_NO_ACTION"
  obtains e2 where "fold (flush_parallel n) [0..<n] (checkpoint_begin leader e) = e2"
    "flushed_inv e2 snap live" "crash_safe (stands_for (nr_segments e2) snap live) (nv (eimg e2))"
    "new_snap e2 = new_snap e" "nr_segments e2 = nr_segments e" "checkpoint_in_progress e2"
    "skip_copy_on_write e2 \<longrightarrow> mode e2 \<noteq> FMODE_WBINVD \<and> cleaner_st e2 = WB_IDLE"
    "mode e2 = mode (checkpoint_begin leader e)"
    "address_first e2 = address_first (checkpoint_begin leader e)" "capacity e2 = capacity (checkpoint_begin leader e)"
    "bdirty e2 = bdirty (address_buffer_clear_all leader e)" "sdirty e2 = sdirty (address_buffer_clear_all leader e)"
proof -
  define e0 where "e0 = address_buffer_clear_all leader e"
  define e1 where "e1 = checkpoint_begin leader e"
  define md where "md = mode (determine_flush_mode e0)"
  define e1' where "e1' = e0\<lparr>mode := md, skip_copy_on_write := False\<rparr>"
  note a = address_buffer_clear_all_inv [OF i tid, folded e0_def]
  note dm = determine_mode [OF refl, of e0]
  have e0m: "determine_flush_mode e0 = e0\<lparr>mode := md\<rparr>" using dm(3) by (simp add: md_def)
  have mda: "md \<noteq> FMODE_NO_ACTION" "mode e1 = md"
    using assms(5) by (auto simp: checkpoint_begin_def Let_def e0_def [symmetric] e0m e1_def split: if_splits)
  obtain sk where e1: "e1 = e0\<lparr>mode := md, checkpoint_in_progress := True, skip_copy_on_write := sk\<rparr>"
    and sk: "sk \<longrightarrow> md \<noteq> FMODE_WBINVD \<and> cleaner_st e0 = WB_IDLE"
  proof -
    have "e1 = e0\<lparr>mode := md, checkpoint_in_progress := True,
        skip_copy_on_write := \<not> (md = FMODE_WBINVD \<or> cleaner_st e0 \<noteq> WB_IDLE) \<and> nr_segments e0 = nr_back_segments e0\<rparr>"
      using mda(1) by (simp add: e1_def checkpoint_begin_def Let_def e0_def [symmetric] e0m)
    then show ?thesis by (rule that) blast
  qed
  have s1: "st e1' = st e0" "sdirty e1' = sdirty e0" "bdirty e1' = bdirty e0" "buffered e1' = buffered e0"
    "tracked e1' = tracked e0" "all_buckets e1' = all_buckets e0"
    by (simp_all add: e1'_def st_def sdirty_def bdirty_def buffered_def tracked_def in_range_def all_buckets_def fun_eq_iff)
  have i1: "inv e1' H snap live"
    using a(1) unfolding inv_def base_inv_def data_inv_def state_inv_def track_inv_def s1
    by (simp add: e1'_def)
  have cr1: "crash_ok e1' snap live" using a(2) [OF cr] by (simp add: crash_ok_def e1'_def)
  obtain m where m: "fold (flush_parallel n) [0..<n] e1 = with_nv m e1" "pend m = (\<lambda>_. None)"
    "evolves (\<lambda>l. mode e1 = FMODE_WBINVD \<or> (\<exists>b \<in> set (all_buckets e1). in_block b l)) Map.empty (nv (eimg e1)) m"
    by (rule flush_phase [OF n])
  have same: "eimg e1 = eimg e1'" "all_buckets e1 = all_buckets e1'" "mode e1 = md" "mode e1' = md"
    "layout_segments e1 = layout_segments e1'" "sdirty e1 = sdirty e1'" "bdirty e1 = bdirty e1'" "buffered e1 = buffered e1'"
    "nr_segments e1 = nr_segments e1'" "nr_segments e1' = nr_segments e" "flush_blocks e1' = flush_blocks e0"
    using a(5) by (simp_all add: e1 e1'_def all_buckets_def layout_segments_def sdirty_def bdirty_def buffered_def
        in_range_def fun_eq_iff)
  define e2 where "e2 = with_nv m e1"
  have ev: "evolves (\<lambda>l. md = FMODE_WBINVD \<or> (\<exists>b \<in> set (all_buckets e1'). in_block b l)) Map.empty (nv (eimg e1')) m"
    using m(3) by (simp add: same)
  note i2 = evolves_inv [OF i1 ev]
  note t = inv_track [OF i1]
  have "e2\<lparr>checkpoint_in_progress := False, skip_copy_on_write := False\<rparr> = with_nv m e1'"
    using inv_base(10) [OF i1] by (cases e0) (simp add: e2_def e1 e1'_def with_nv_def map_nv_def map_img_def)
  then have inv2: "inv (e2\<lparr>checkpoint_in_progress := False, skip_copy_on_write := False\<rparr>) {} snap live"
    using inv_subset [OF i2(1)] by simp
  have ls: "set (layout_segments e1') =
    (if md = FMODE_WBINVD then {s. sdirty e1' s} else seg ` set (all_buckets e1'))"
    using set_layout_segments [OF inv_base(2) [OF i1] t(1)] by (simp add: same)
  have full: "md \<noteq> FMODE_WBINVD \<Longrightarrow> bdirty e1' k \<Longrightarrow> sdirty e1' (seg k) \<Longrightarrow> k \<in> set (all_buckets e1')" for k
  proof -
    assume "md \<noteq> FMODE_WBINVD" and k: "bdirty e1' k" "sdirty e1' (seg k)"
    then have "md = FMODE_USE_FLUSH_BLOCKS" using mda(1) by (cases md) auto
    then have "length (flush_blocks e1' r) < kMaxFlushBlocks" if "r < kMaxThreads" for r
      using dm(2) that by (simp add: md_def same)
    then show ?thesis using t(8) [OF k] by (auto simp: not_le [symmetric])
  qed
  have nbuf: "\<not> buffered e1' k" for k using a(3) by (simp add: s1)
  have "flushed_inv e2 snap live"
    unfolding flushed_inv_def
  proof (intro conjI allI impI ballI)
    show "inv (e2\<lparr>checkpoint_in_progress := False, skip_copy_on_write := False\<rparr>) {} snap live" by (rule inv2)
    show "\<not> buffered e2 k" for k using nbuf by (simp add: e2_def same)
    show "pend (nv (eimg e2)) = (\<lambda>_. None)" by (simp add: e2_def m(2))
    show "sdirty e2 s" if "s \<in> set (layout_segments e2)" for s
    proof -
      have sl: "s \<in> set (layout_segments e1')" using that by (simp add: e2_def same)
      show ?thesis
      proof (cases "md = FMODE_WBINVD")
        case True
        then show ?thesis using sl by (simp add: ls e2_def same)
      next
        case False
        then obtain k where "k \<in> set (all_buckets e1')" "s = seg k" using sl by (auto simp: ls)
        then show ?thesis using t(6) by (auto simp: e2_def same all_buckets_def)
      qed
    qed
    show "seg k \<in> set (layout_segments e2)" "mode e2 = FMODE_WBINVD \<or> k \<in> set (all_buckets e2)"
      if "bdirty e2 k \<and> sdirty e2 (seg k)" for k
      using that full [of k] by (cases "md = FMODE_WBINVD"; simp add: e2_def same ls)+
    show "quiet (nv (eimg e2)) (MainB x)" if x: "x div kSegmentSize < nr_segments e2" for x
    proof -
      have x1: "x div kSegmentSize < nr_segments e1'" using x by (simp add: e2_def same)
      let ?k = "x div kBlockSize"
      note d = inv_data [OF i1 x1]
      have "settled m (MainB x)"
      proof (cases "tracked e1' ?k")
        case False
        then show ?thesis using d(1) evolves_simps(3) [OF ev] by (simp add: quiet_settled)
      next
        case True
        then have bk: "bdirty e1' ?k" using nbuf by (simp add: tracked_def)
        show ?thesis
        proof (cases "sdirty e1' (seg ?k)")
          case sdk: True
          have "md = FMODE_WBINVD \<or> (\<exists>b \<in> set (all_buckets e1'). in_block b (MainB x))"
            using full [OF _ bk sdk] by auto
          then show ?thesis using evolves_simps(4) [OF ev] by blast
        next
          case nsd: False
          then have "st e1' (x div kSegmentSize) = SS_Main" using t(3) [OF bk] by (simp add: seg_block)
          then show ?thesis using d(4) evolves_simps(3) [OF ev] by (simp add: quiet_settled)
        qed
      qed
      then show ?thesis by (simp add: e2_def settled_quiet m(2))
    qed
  qed
  moreover have "crash_safe (stands_for (nr_segments e2) snap live) (nv (eimg e2))"
    using i2(2) [OF cr1] by (simp add: crash_ok_def e2_def same)
  moreover have "new_snap e2 = new_snap e"
  proof
    fix x
    have "cur m (MainB x) = cur (nv (eimg e1')) (MainB x)" using evolves_simps(1) [OF ev] by simp
    also have "\<dots> = cur (nv (eimg e)) (MainB x)" using a(4) by (simp add: e1'_def)
    finally show "new_snap e2 x = new_snap e x" by (simp add: new_snap_def e2_def rd_def)
  qed
  ultimately show ?thesis
    using m(1) sk by (intro that [of e2])
      (simp_all add: e1_def [symmetric] e2_def same s1 flip: e0_def, simp_all add: e1)
qed

subsection \<open>The attribute word\<close>

definition attr_step :: "engine \<Rightarrow> imem \<Rightarrow> bool" where
  "attr_step e m \<longleftrightarrow>
     (\<forall>l. l \<noteq> HAttr \<longrightarrow> cur m l = rd (eimg e) l \<and> (settled (nv (eimg e)) l \<longrightarrow> settled m l) \<and>
        (quiet (nv (eimg e)) l \<longrightarrow> quiet m l)) \<and> (visible (nv (eimg e)) \<longrightarrow> visible m) \<and>
     (\<forall>A. (\<forall>l. A l \<longrightarrow> quiet (nv (eimg e)) l) \<and> \<not> A HAttr \<longrightarrow> keeps A (nv (eimg e)) m)"

lemma note_snapshot_ok:
  obtains m where "note_snapshot e = (with_nv m e)\<lparr>has_snapshot := True\<rparr>" "attr_step e m"
proof (cases "has_snapshot e")
  case True
  show ?thesis
    by (rule that [of "nv (eimg e)"])
      (use True in \<open>simp_all add: note_snapshot_def with_nv_id rd_def keeps_refl attr_step_def\<close>)
next
  case False
  define m where "m = nv_fence (nv_nt [HAttr \<mapsto> kAttributeHasSnapshot] (nv (eimg e)))"
  have ev: "evolves (\<lambda>_. False) [HAttr \<mapsto> kAttributeHasSnapshot] (nv (eimg e)) m"
    using evolves_trans [OF evolves_nt evolves_fence] by (simp add: m_def)
  note v = evolves_simps [OF ev]
  show ?thesis
  proof (rule that [of m])
    show "note_snapshot e = (with_nv m e)\<lparr>has_snapshot := True\<rparr>"
      using False by (simp add: note_snapshot_def set_attributes_def m_def with_nv_def map_nv_def map_img_def nv_upd_def)
    have "keeps A (nv (eimg e)) m" if "\<forall>l. A l \<longrightarrow> quiet (nv (eimg e)) l" "\<not> A HAttr" for A
      using that by (intro evolves_keeps [OF ev]) auto
    then show "attr_step e m" unfolding attr_step_def using v(1,3,6) evolves_visible [OF ev] by (simp add: rd_def)
  qed
qed

lemma attr_stepD:
  assumes "attr_step e m" and "l \<noteq> HAttr"
  shows "cur m l = rd (eimg e) l" "settled (nv (eimg e)) l \<Longrightarrow> settled m l" "quiet (nv (eimg e)) l \<Longrightarrow> quiet m l"
  using assms by (simp_all add: attr_step_def)

lemma attr_step_visible: "attr_step e m \<Longrightarrow> visible (nv (eimg e)) \<Longrightarrow> visible m"
  by (simp add: attr_step_def)

lemma attr_step_keeps:
  "attr_step e m \<Longrightarrow> \<forall>l. A l \<longrightarrow> quiet (nv (eimg e)) l \<Longrightarrow> \<not> A HAttr \<Longrightarrow> keeps A (nv (eimg e)) m"
  by (simp add: attr_step_def)

text \<open>A change of the attribute word only, seen from the header.\<close>

lemma attr_change:
  assumes at: "attr_step e m" and h: "hdr_ok (eimg e)" "synced (eimg e)" "header_is ns (rd (eimg e))"
  shows "hdr_ok (eimg (with_nv m e))" "synced (eimg (with_nv m e))" "header_is ns (rd (eimg (with_nv m e)))"
    "get_segment_state (eimg (with_nv m e)) = get_segment_state (eimg e)" "active (eimg (with_nv m e)) = active (eimg e)"
proof -
  note c = attr_stepD(1) [OF at] and st = attr_stepD(2) [OF at] and q = attr_stepD(3) [OF at]
  show a: "active (eimg (with_nv m e)) = active (eimg e)" by (simp add: active_def c)
  show g: "get_segment_state (eimg (with_nv m e)) = get_segment_state (eimg e)"
    by (simp add: fun_eq_iff get_segment_state_active a c)
  show "hdr_ok (eimg (with_nv m e))" using h(1) q by (simp add: hdr_ok_def c)
  show "synced (eimg (with_nv m e))" using h(2) q st by (auto simp: synced_def upd_ok_def c a g)
  show "header_is ns (rd (eimg (with_nv m e)))" using h(3) by (simp add: header_is_def c)
qed

subsection \<open>The checkpoint by a whole-cache write-back\<close>

lemma flushed_base:
  assumes f: "flushed_inv e snap live" and "eimg e' = im" and "hdr_ok im" and "synced im"
    and "header_is (nr_segments e) (rd im)" and "main_to_back im = main_to_back (eimg e)" and "visible (nv im)"
    and "nr_segments e' = nr_segments e" "nr_blocks e' = nr_blocks e" "capacity e' = capacity e"
      "nr_back_segments e' = nr_back_segments e" "held e' = held e" "\<not> checkpoint_in_progress e'"
  shows "base_inv e'"
  using assms by (simp add: flushed_inv_def inv_def base_inv_def)

lemma checkpoint_wbinvd_ok:
  assumes f: "flushed_inv e snap live" and md: "mode e = FMODE_WBINVD"
    and cr: "crash_safe (stands_for (nr_segments e) snap live) (nv (eimg e))" and sk: "\<not> skip_copy_on_write e"
  defines "P \<equiv> \<lambda>pm. stands_for (nr_segments e) snap live pm \<or>
      stands_for (nr_segments e) (new_snap e) (new_live e live) pm"
  obtains e' where "checkpoint_wbinvd e = Some e'" "inv e' {} (new_snap e) (new_live e live)"
    "crash_safe P (nv (eimg e'))" "nr_segments e' = nr_segments e" "address_first e' = address_first e"
    "capacity e' = capacity e"
proof -
  let ?ns = "nr_segments e"
  note F = flushed_facts [OF f]
  have segs: "set (layout_segments e) = {s. sdirty e s}"
    using set_layout_segments [OF F(2,19)] md by simp
  obtain e1 where e1: "commit_layout_state SS_Main e = Some e1" "e1 = e\<lparr>eimg := eimg e1\<rparr>"
    "hdr_ok (eimg e1)" "synced (eimg e1)" "header_is ?ns (rd (eimg e1))"
    "main_to_back (eimg e1) = main_to_back (eimg e)"
    "\<And>s. s < ?ns \<Longrightarrow> st e1 s = (if s \<in> set (layout_segments e) then SS_Main else st e s)"
    "\<And>l. is_data_cell l \<Longrightarrow> rd (eimg e1) l = rd (eimg e) l"
    "\<And>l. is_data_cell l \<Longrightarrow> quiet (nv (eimg e)) l \<Longrightarrow> quiet (nv (eimg e1)) l"
    "crash_safe P (nv (eimg e1))"
    unfolding P_def by (rule commit_main [OF f cr]) blast
  have fl: "nr_segments e1 = ?ns" "segment_dirty e1 = segment_dirty e" "block_dirty e1 = block_dirty e"
    "address_first e1 = address_first e" "capacity e1 = capacity e" "nr_blocks e1 = nr_blocks e"
    "nr_back_segments e1 = nr_back_segments e" "held e1 = held e" "address_buffer e1 = address_buffer e"
    "skip_copy_on_write e1 = skip_copy_on_write e"
    by (subst e1(2); simp)+
  define e2 where "e2 = e1\<lparr>segment_dirty := bs_clear_region 0 ?ns (segment_dirty e1)\<rparr>"
  have f2: "nr_segments e2 = ?ns" "block_dirty e2 = block_dirty e" "address_first e2 = address_first e"
    "capacity e2 = capacity e" "nr_blocks e2 = nr_blocks e" "nr_back_segments e2 = nr_back_segments e"
    "held e2 = held e" "address_buffer e2 = address_buffer e" "skip_copy_on_write e2 = skip_copy_on_write e"
    "main_to_back (eimg e2) = main_to_back (eimg e)" "segment_dirty e2 = bs_clear_region 0 ?ns (segment_dirty e)"
    by (simp_all add: e2_def fl e1(6))
  obtain m where m: "note_snapshot e2 = (with_nv m e2)\<lparr>has_snapshot := True\<rparr>" "attr_step e2 m"
    by (rule note_snapshot_ok [of e2]) blast
  define e' where "e' = (reset_buckets ((note_snapshot e2)\<lparr>cleaner_st := WB_STARTED\<rparr>))\<lparr>checkpoint_in_progress := False\<rparr>"
  have eq: "checkpoint_wbinvd e = Some e'"
    by (simp add: checkpoint_wbinvd_def e1(1) Let_def e'_def e2_def fl)
  have im2: "eimg e2 = eimg e1" by (simp add: e2_def)
  have im': "eimg e' = eimg (with_nv m e2)" by (simp add: e'_def m(1) reset_buckets_def)
  have c': "rd (eimg e') l = rd (eimg e) l" "quiet (nv (eimg e)) l \<Longrightarrow> quiet (nv (eimg e')) l" if "is_data_cell l" for l
    using that attr_stepD(1,3) [OF m(2), of l] e1(8,9) [of l] by (cases l; simp add: im' im2)+
  have ac': "hdr_ok (eimg e')" "synced (eimg e')" "header_is ?ns (rd (eimg e'))"
    "get_segment_state (eimg e') = get_segment_state (eimg e1)"
    using attr_change [OF m(2), unfolded im2, OF e1(3,4,5)] by (simp_all add: im' im2)
  have st': "st e' s = (if sdirty e s then SS_Main else st e s)" if "s < ?ns" for s
    using e1(7) [OF that] by (simp add: st_def ac'(4) segs)
  have g: "nr_segments e' = ?ns" "flush_blocks e' = (\<lambda>_. [])" "cleaner_st e' = WB_STARTED"
    "skip_copy_on_write e' = skip_copy_on_write e" "address_first e' = address_first e" "capacity e' = capacity e"
    "nr_blocks e' = nr_blocks e" "nr_back_segments e' = nr_back_segments e" "held e' = held e"
    "\<not> checkpoint_in_progress e'" "main_to_back (eimg e') = main_to_back (eimg e)"
    by (simp_all add: e'_def m(1) reset_buckets_def f2)
  have sd': "\<not> sdirty e' s" for s
    using F(19) [of s] bs_test_clear_region_aligned [OF F(2), of s "segment_dirty e"]
    by (auto simp: e'_def m(1) reset_buckets_def f2 sdirty_def)
  have bd': "bdirty e' = bdirty e"
    by (simp add: e'_def m(1) reset_buckets_def f2 bdirty_def fun_eq_iff)
  have bu': "\<not> buffered e' k" for k
    using F(22) [of k] by (simp add: buffered_def in_range_def g(5,6)) (simp add: e'_def m(1) reset_buckets_def f2)
  have tr': "tracked e' = bdirty e" by (simp add: tracked_def bd' bu' fun_eq_iff)
  have "visible m"
    using attr_step_visible [OF m(2)] commit_layout_visible [OF e1(1) F(28)] by (simp add: im2)
  then have "base_inv e'" by (intro flushed_base [OF f refl]) (use ac' g in \<open>simp_all add: im'\<close>)
  moreover have "data_inv e' (new_snap e)"
    unfolding data_inv_def g tr'
  proof (intro allI impI)
    fix x assume x: "x div kSegmentSize < ?ns"
    have M: "quiet (nv (eimg e')) (MainB x)" "rd (eimg e') (MainB x) = new_snap e x"
      using c' [of "MainB x"] F(24) [OF x] by (simp_all add: new_snap_def)
    have B: "quiet (nv (eimg e')) (BackB x)" "rd (eimg e') (BackB x) = new_snap e x" if "\<not> bdirty e (x div kBlockSize)"
      using c' [of "BackB x"] F(8,9) [OF x that] by (simp_all add: new_snap_def)
    have "\<not> bdirty e (x div kBlockSize)" if "st e' (x div kSegmentSize) = SS_Back"
    proof -
      have "\<not> sdirty e (x div kSegmentSize)" "st e (x div kSegmentSize) = SS_Back"
        using that st' [OF x] by (simp_all split: if_splits)
      then show ?thesis using flushed_clean [OF f x] segs by simp
    qed
    with M B show "(\<not> bdirty e (x div kBlockSize) \<longrightarrow>
        quiet (nv (eimg e')) (MainB x) \<and> quiet (nv (eimg e')) (BackB x) \<and> rd (eimg e') (MainB x) = rd (eimg e') (BackB x)) \<and>
     (st e' (x div kSegmentSize) = SS_Main \<longrightarrow> quiet (nv (eimg e')) (MainB x) \<and> rd (eimg e') (MainB x) = new_snap e x) \<and>
     (st e' (x div kSegmentSize) = SS_Back \<longrightarrow> quiet (nv (eimg e')) (BackB x) \<and> rd (eimg e') (BackB x) = new_snap e x)"
      by simp
  qed
  moreover have "state_inv e' (new_live e live)"
    using F(13,14) sk sd' unfolding state_inv_def g by (auto simp: st' new_live_def segs)
  moreover have "track_inv e' {}"
  proof (rule track_invI)
    show "bdirty e' k \<Longrightarrow> sdirty e' (seg k) \<or> st e' (seg k) = SS_Main" for k
      using F(20,21) [of k] by (auto simp: bd' st')
  qed (use F(20) sd' in \<open>simp_all add: bd' bu' g\<close>)
  ultimately have inv': "inv e' {} (new_snap e) (new_live e live)" by (simp add: inv_def)
  have "crash_safe P (nv (eimg e'))"
  proof -
    have e1i: "quiet (nv (eimg e1)) l" if "protected (eimg e1) ?ns l" for l
    proof (rule hdr_synced_quiet [OF e1(3,4) _ _ _ that])
      show "rd (eimg e1) HNrMain = ?ns" using e1(5) by (simp add: header_is_def)
      fix x assume x: "x div kSegmentSize < ?ns"
      show "quiet (nv (eimg e1)) (MainB x)" using e1(9) F(24) [OF x] by simp
      assume "get_segment_state (eimg e1) (x div kSegmentSize) = SS_Back"
      then have "st e (x div kSegmentSize) = SS_Back" using e1(7) [OF x] by (simp add: st_def split: if_splits)
      then show "quiet (nv (eimg e1)) (BackB x)" using e1(9) F(11) [OF x] by simp
    qed
    have "keeps (protected (eimg e1) ?ns) (nv (eimg e1)) m" 
      using attr_step_keeps [OF m(2), of "protected (eimg e1) ?ns"] e1i by (simp add: im2)
    from keeps_crash_safe [OF this e1(10)] show ?thesis
    proof -
      have "P pm" if pm: "\<And>l. protected (eimg e1) ?ns l \<Longrightarrow> pm l = cur (nv (eimg e1)) l" for pm
      proof -
        have pm': "protected (eimg e1) ?ns l \<Longrightarrow> pm l = rd (eimg e1) l" for l using pm by (simp add: rd_def)
        have "stands_for ?ns (new_snap e) (new_live e live) pm"
        proof (rule stands_for_protected [OF e1(5) _ _ _ pm'])
          fix s assume s: "s < ?ns" "new_live e live s"
          then show "get_segment_state (eimg e1) s = SS_Main \<or> get_segment_state (eimg e1) s = SS_Back"
            using F(13,14) [OF s(1)] e1(7) [OF s(1)] by (auto simp: new_live_def st_def)
        next
          fix x assume x: "x div kSegmentSize < ?ns"
          show "rd (eimg e1) (MainB x) = new_snap e x" by (simp add: e1(8) new_snap_def)
        next
          fix x assume x: "x div kSegmentSize < ?ns" and "get_segment_state (eimg e1) (x div kSegmentSize) = SS_Back"
          then have b: "\<not> sdirty e (x div kSegmentSize)" "st e (x div kSegmentSize) = SS_Back"
            using e1(7) [OF x] by (simp_all add: st_def segs split: if_splits)
          then have "\<not> bdirty e (x div kBlockSize)" using flushed_clean [OF f x] segs by simp
          then show "rd (eimg e1) (BackB x) = new_snap e x" using F(9) [OF x] by (simp add: e1(8) new_snap_def)
        qed
        then show ?thesis by (simp add: P_def)
      qed
      then show ?thesis using keeps_crash_safe [OF \<open>keeps _ _ m\<close> e1(10)] by (simp add: im')
    qed
  qed
  then show ?thesis using eq inv' g by (intro that [of e']) simp_all
qed

subsection \<open>The checkpoint by flushing blocks\<close>

text \<open>
  \<open>new_image ns B d\<close>: what the write-back phase and the second commit rely on. \<open>B\<close> are
  the segments whose back memory is the new snapshot.
\<close>

definition new_image :: "nat \<Rightarrow> (nat \<Rightarrow> nat) \<Rightarrow> (nat \<Rightarrow> bool) \<Rightarrow> (nat \<Rightarrow> bool) \<Rightarrow> imem \<Rightarrow> bool" where
  "new_image ns snap live B m \<longleftrightarrow> (\<forall>x. x div kSegmentSize < ns \<longrightarrow>
     quiet m (MainB x) \<and> cur m (MainB x) = snap x \<and>
     (B (x div kSegmentSize) \<longrightarrow> quiet m (BackB x) \<and> cur m (BackB x) = snap x))"

lemma new_imageD:
  assumes "new_image ns snap live B m" and "x div kSegmentSize < ns"
  shows "quiet m (MainB x)" "cur m (MainB x) = snap x"
    "B (x div kSegmentSize) \<Longrightarrow> quiet m (BackB x)" "B (x div kSegmentSize) \<Longrightarrow> cur m (BackB x) = snap x"
  using assms by (simp_all add: new_image_def)

lemma new_image_stands:
  assumes ni: "new_image ns snap live B m" and hd: "header_is ns pm"
    and st: "\<And>s. s < ns \<Longrightarrow> live s \<Longrightarrow> pst pm s = SS_Main \<or> pst pm s = SS_Back"
    and B: "\<And>s. s < ns \<Longrightarrow> pst pm s = SS_Back \<Longrightarrow> B s"
    and pd: "\<And>l. is_data_cell l \<Longrightarrow> quiet m l \<Longrightarrow> pm l = cur m l"
  shows "stands_for ns snap live pm"
proof (rule stands_forI [OF hd st])
  fix x assume x: "x div kSegmentSize < ns"
  show "pm (MainB x) = snap x" using ni x pd [of "MainB x"] by (simp add: new_image_def)
  show "pm (BackB x) = snap x" if "pst pm (x div kSegmentSize) = SS_Back"
    using ni x pd [of "BackB x"] B [OF x that] by (simp add: new_image_def)
qed

lemma commit_back:
  assumes h: "hdr_ok (eimg e)" "synced (eimg e)" "header_is ns (rd (eimg e))" "nr_segments e = ns" "0 < ns"
    and pe: "pend (nv (eimg e)) = (\<lambda>_. None)"
    and ni: "new_image ns snap live B (nv (eimg e))"
    and lv: "\<And>s. s < ns \<Longrightarrow> live s \<Longrightarrow> st e s = SS_Main \<or> st e s = SS_Back"
    and segs: "\<forall>s \<in> set (layout_segments e). s < ns \<and> B s" and bk: "\<And>s. s < ns \<Longrightarrow> st e s = SS_Back \<Longrightarrow> B s"
    and cr: "crash_safe P (nv (eimg e))" and P: "\<And>pm. stands_for ns snap live pm \<Longrightarrow> P pm"
  obtains im' where "commit_layout_state SS_Back e = Some (e\<lparr>eimg := im'\<rparr>)"
    "hdr_ok im'" "synced im'" "header_is ns (rd im')" "main_to_back im' = main_to_back (eimg e)"
    "\<And>s. s < ns \<Longrightarrow> get_segment_state im' s = (if s \<in> set (layout_segments e) then SS_Back else st e s)"
    "\<And>l. is_data_cell l \<Longrightarrow> rd im' l = rd (eimg e) l"
    "\<And>l. is_data_cell l \<Longrightarrow> quiet (nv (eimg e)) l \<Longrightarrow> quiet (nv im') l"
    "crash_safe P (nv im')"
proof -
  let ?im = "eimg e"
  have nm: "rd ?im HNrMain = ns" using h(3) by (simp add: header_is_def)
  obtain im' where im': "commit_layout_state SS_Back e = Some (e\<lparr>eimg := im'\<rparr>)"
    "hdr_ok im'" "synced im'" "main_to_back im' = main_to_back ?im"
    "\<And>s. s < rd ?im HNrMain \<Longrightarrow>
       get_segment_state im' s = (if s \<in> set (layout_segments e) then SS_Back else get_segment_state ?im s)"
    "\<And>l. \<not> is_state_cell l \<Longrightarrow> rd im' l = rd ?im l"
    "\<And>l. \<not> is_state_cell l \<Longrightarrow> settled (nv ?im) l \<Longrightarrow> quiet (nv im') l"
    and crash: "\<And>pm. pm \<in> crash_images (nv im') \<Longrightarrow>
       (\<exists>d \<in> set (hist (nv ?im)). \<forall>l. pm l \<in> d l) \<or>
       (\<forall>l. (\<forall>s. l \<noteq> SegSt (other (active ?im)) s) \<longrightarrow> pm l \<in> dur (nv ?im) l) \<or>
       (pm HEpoch = rd ?im HEpoch \<and> (\<forall>s < rd ?im HNrMain. pst pm s = get_segment_state ?im s) \<or>
        pm HEpoch = next_epoch (rd ?im HEpoch) \<and> (\<forall>s < rd ?im HNrMain. pst pm s = get_segment_state im' s)) \<and>
       (\<forall>l. \<not> is_state_cell l \<longrightarrow> pm l \<in> dur (nv_fence (nv ?im)) l)"
    by (rule commit_layout [OF h(1,2), where st = SS_Back]) (use segs nm h(5) in auto)
  have hd': "header_is ns (rd im')"
    using h(3) im'(2) unfolding header_is_def hdr_ok_def by (simp add: im'(6))
  have dq: "pm l = cur (nv ?im) l" if "pm l \<in> dur (nv ?im) l" "quiet (nv ?im) l" for pm l
    using that by (simp add: quiet_durable)
  have durf: "dur (nv_fence (nv ?im)) = dur (nv ?im)" by (simp add: fun_eq_iff pe)
  have hq: "quiet (nv ?im) l" if "l \<in> {HMagic, HNrMain, HNrBack, HEpoch} \<union> range B2M" for l
    using that h(1) by (auto simp: hdr_ok_def)
  have sq: "quiet (nv ?im) (SegSt (active ?im) s)" if "s < ns" for s
    using h(2) nm that by (simp add: synced_def upd_ok_def)
  have st': "get_segment_state im' s = (if s \<in> set (layout_segments e) then SS_Back else st e s)" if "s < ns" for s
    using im'(5) [of s] that nm by (simp add: st_def)
  have cP: "crash_safe P (nv im')"
    unfolding crash_safe_def
  proof
    fix pm assume "pm \<in> crash_images (nv im')"
    from crash [OF this] nm
    consider (h) d where "d \<in> set (hist (nv ?im))" "\<forall>l. pm l \<in> d l"
      | (d) "\<forall>l. (\<forall>s. l \<noteq> SegSt (other (active ?im)) s) \<longrightarrow> pm l \<in> dur (nv ?im) l"
      | (o) "pm HEpoch = rd ?im HEpoch" "\<forall>s < ns. pst pm s = st e s" "\<forall>l. \<not> is_state_cell l \<longrightarrow> pm l \<in> dur (nv ?im) l"
      | (n) "pm HEpoch = next_epoch (rd ?im HEpoch)" "\<forall>s < ns. pst pm s = get_segment_state im' s"
          "\<forall>l. \<not> is_state_cell l \<longrightarrow> pm l \<in> dur (nv ?im) l"
      unfolding durf st_def by metis
    then show "P pm"
    proof cases
      case (h d)
      then have "pm \<in> crash_images (nv ?im)" by (auto simp: crash_images_def crash_points_def)
      then show ?thesis using cr by (simp add: crash_safe_def)
    next
      case d
      have v: "pm l = cur (nv ?im) l" if "\<forall>s. l \<noteq> SegSt (other (active ?im)) s" "quiet (nv ?im) l" for l
        using d that dq by blast
      have "header_is ns pm" using h(3) by (simp add: header_is_def v hq rd_def)
      moreover have "pst pm s = st e s" if "s < ns" for s
        using sq [OF that] by (simp add: pst_def st_def get_segment_state_active v hq flip: active_def rd_def)
      ultimately show ?thesis
        by (intro P new_image_stands [OF ni]) (use lv bk in \<open>auto intro: v\<close>)
    next
      case o
      have v: "pm l = cur (nv ?im) l" if "\<not> is_state_cell l" "quiet (nv ?im) l" for l
        using o(3) that dq by blast
      have "header_is ns pm" using h(3) by (simp add: header_is_def v hq o(1) rd_def)
      then show ?thesis
        by (intro P new_image_stands [OF ni]) (use lv bk o(2) in \<open>auto intro!: v simp: data_not_state\<close>)
    next
      case n
      have v: "pm l = cur (nv ?im) l" if "\<not> is_state_cell l" "quiet (nv ?im) l" for l
        using n(3) that dq by blast
      have "header_is ns pm" using h(3) by (simp add: header_is_def v hq n(1) rd_def)
      then show ?thesis
        by (intro P new_image_stands [OF ni])
          (use lv bk segs n(2) st' in \<open>auto intro!: v simp: data_not_state split: if_splits\<close>)
    qed
  qed
  show ?thesis
    by (rule that [OF im'(1)]) (use im'(2-7) hd' cP st' in \<open>auto simp: data_not_state quiet_settled\<close>)
qed

lemma clear_dirty_bits_simps:
  fixes e :: engine
  defines "e' \<equiv> clear_dirty_bits e"
  shows "bs_test k (block_dirty e') \<longleftrightarrow> bs_test k (block_dirty e) \<and> (\<forall>b \<in> set (all_buckets e). k div 64 \<noteq> b div 64)"
    and "bs_test s (segment_dirty e') \<longleftrightarrow> bs_test s (segment_dirty e) \<and> (\<forall>b \<in> set (all_buckets e). s div 64 \<noteq> seg b div 64)"
    and "e' = e\<lparr>block_dirty := block_dirty e', segment_dirty := segment_dirty e'\<rparr>"
proof -
  define f where "f = (\<lambda>b e :: engine. e\<lparr>block_dirty := bs_clear_all b (block_dirty e),
       segment_dirty := bs_clear_all (b div kBlocksPerSegment) (segment_dirty e)\<rparr>)"
  have e': "e' = fold f (all_buckets e) e" by (simp add: e'_def clear_dirty_bits_def f_def)
  have "(bs_test k (block_dirty (fold f bs e)) \<longleftrightarrow> bs_test k (block_dirty e) \<and> (\<forall>b \<in> set bs. k div 64 \<noteq> b div 64)) \<and>
    (bs_test s (segment_dirty (fold f bs e)) \<longleftrightarrow> bs_test s (segment_dirty e) \<and> (\<forall>b \<in> set bs. s div 64 \<noteq> seg b div 64)) \<and>
    fold f bs e = e\<lparr>block_dirty := block_dirty (fold f bs e), segment_dirty := segment_dirty (fold f bs e)\<rparr>" for bs
  proof (induction bs arbitrary: e)
    case Nil
    then show ?case by simp
  next
    case (Cons b bs)
    have "fold f (b # bs) e = (f b e)\<lparr>block_dirty := block_dirty (fold f (b # bs) e), segment_dirty := segment_dirty (fold f (b # bs) e)\<rparr>"
      using Cons.IH [of "f b e"] by simp
    also have "\<dots> = e\<lparr>block_dirty := block_dirty (fold f (b # bs) e), segment_dirty := segment_dirty (fold f (b # bs) e)\<rparr>"
      by (simp add: f_def)
    finally show ?case using Cons.IH [of "f b e"] by (auto simp: f_def seg_def)
  qed
  from this [of "all_buckets e"] show
    "bs_test k (block_dirty e') \<longleftrightarrow> bs_test k (block_dirty e) \<and> (\<forall>b \<in> set (all_buckets e). k div 64 \<noteq> b div 64)"
    "bs_test s (segment_dirty e') \<longleftrightarrow> bs_test s (segment_dirty e) \<and> (\<forall>b \<in> set (all_buckets e). s div 64 \<noteq> seg b div 64)"
    "e' = e\<lparr>block_dirty := block_dirty e', segment_dirty := segment_dirty e'\<rparr>"
    unfolding e' by blast+
qed

text \<open>64 neighbouring blocks lie in one segment.\<close>

lemma same_word_same_segment: "k div 64 = b div 64 \<Longrightarrow> seg k = seg b"
proof -
  assume "k div 64 = b div 64"
  then have "k div 64 div 128 = b div 64 div 128" by simp
  then show ?thesis by (simp add: seg_def geometry div_mult2_eq [symmetric])
qed

lemma checkpoint_flush_blocks_ok:
  assumes f: "flushed_inv e snap live" and md: "mode e = FMODE_USE_FLUSH_BLOCKS" and n: "0 < n"
    and cr: "crash_safe (stands_for (nr_segments e) snap live) (nv (eimg e))"
    and sk: "skip_copy_on_write e \<longrightarrow> cleaner_st e = WB_IDLE"
  defines "P \<equiv> \<lambda>pm. stands_for (nr_segments e) snap live pm \<or>
      stands_for (nr_segments e) (new_snap e) (new_live e live) pm"
  obtains e' where "checkpoint_flush_blocks n e = Some e'" "inv e' {} (new_snap e) (new_live e live)"
    "crash_safe P (nv (eimg e'))" "nr_segments e' = nr_segments e" "address_first e' = address_first e"
    "capacity e' = capacity e"
proof -
  let ?ns = "nr_segments e" and ?S = "set (layout_segments e)"
  note F = flushed_facts [OF f]
  have segs: "?S = seg ` set (all_buckets e)" using set_layout_segments [OF F(2,19)] md by simp
  have fi: "inv (e\<lparr>checkpoint_in_progress := False, skip_copy_on_write := False\<rparr>) {} snap live"
    using f by (simp add: flushed_inv_def)
  have fbt: "t < kMaxThreads \<and> bdirty e b \<and> sdirty e (seg b)" if "b \<in> set (flush_blocks e t)" for b t
    using inv_track(5,6,7) [OF fi, of b t] that by (simp add: inv_flags)
  have ab: "k \<in> set (all_buckets e) \<longleftrightarrow> (\<exists>t. k \<in> set (flush_blocks e t))" for k
    using fbt by (intro all_buckets_iff) blast
  have SK: "s \<in> ?S \<Longrightarrow> s < ?ns" for s using F(19,25) by blast
  obtain e1 where e1: "commit_layout_state SS_Main e = Some e1" "e1 = e\<lparr>eimg := eimg e1\<rparr>"
    "hdr_ok (eimg e1)" "synced (eimg e1)" "header_is ?ns (rd (eimg e1))"
    "main_to_back (eimg e1) = main_to_back (eimg e)"
    "\<And>s. s < ?ns \<Longrightarrow> st e1 s = (if s \<in> ?S then SS_Main else st e s)"
    "\<And>l. is_data_cell l \<Longrightarrow> rd (eimg e1) l = rd (eimg e) l"
    "\<And>l. is_data_cell l \<Longrightarrow> quiet (nv (eimg e)) l \<Longrightarrow> quiet (nv (eimg e1)) l"
    "crash_safe P (nv (eimg e1))"
    unfolding P_def by (rule commit_main [OF f cr]) blast
  have fl0: "nr_segments e1 = ?ns" "flush_blocks e1 = flush_blocks e" "mode e1 = mode e"
    "segment_dirty e1 = segment_dirty e" "block_dirty e1 = block_dirty e" "address_first e1 = address_first e"
    "capacity e1 = capacity e" "nr_blocks e1 = nr_blocks e" "nr_back_segments e1 = nr_back_segments e"
    "held e1 = held e" "address_buffer e1 = address_buffer e" "skip_copy_on_write e1 = skip_copy_on_write e"
    "cleaner_st e1 = cleaner_st e" "cleaner_segment e1 = cleaner_segment e"
    by (subst e1(2); simp)+
  have fl: "nr_segments e1 = ?ns" "flush_blocks e1 = flush_blocks e" "mode e1 = mode e"
    "bound_identity e1 = bound_identity e" "all_buckets e1 = all_buckets e" "layout_segments e1 = layout_segments e"
    by (simp_all add: fl0 bound_identity_def e1(6) all_buckets_def layout_segments_def)
  have wb: "bound_identity e1" "\<forall>i. \<forall>b \<in> set (flush_blocks e1 i). b div kBlocksPerSegment < nr_segments e1"
    "mode e1 = FMODE_USE_FLUSH_BLOCKS"
    using fbt F(6,20) md by (auto simp: fl seg_def)
  obtain m where m: "foldM (write_back_parallel n) [0..<n] e1 = Some (with_nv m e1)" "pend m = (\<lambda>_. None)"
    "evolves (\<lambda>_. False) (mirror_map (nv (eimg e1)) (\<lambda>k. k \<in> set (all_buckets e))) (nv (eimg e1)) m"
    by (rule write_back_phase [OF n wb, unfolded fl(5)]) blast
  define e2 where "e2 = with_nv m e1"
  let ?V = "mirror_map (nv (eimg e1)) (\<lambda>k. k \<in> set (all_buckets e))"
  note v = evolves_simps [OF m(3)]
  have mh: "\<forall>l. \<not> is_data_cell l \<longrightarrow> ?V l = None" by (simp add: mirror_map_header)
  note h2 = evolves_header [OF m(3) mh e1(3,4)]
  have hd2: "header_is ?ns (rd (eimg e2))" using e1(5) h2(3) unfolding e2_def header_is_def by simp
  have st2: "st e2 s = (if s \<in> ?S then SS_Main else st e s)" if "s < ?ns" for s
    using e1(7) [OF that] by (simp add: st_def e2_def h2(4))
  let ?B = "\<lambda>s. s \<in> ?S \<or> st e s = SS_Back"
  have cl: "\<not> bdirty e (x div kBlockSize)" if "x div kSegmentSize < ?ns" "x div kBlockSize \<notin> set (all_buckets e)" "?B (x div kSegmentSize)" for x
  proof
    assume b: "bdirty e (x div kBlockSize)"
    have "x div kSegmentSize \<in> ?S"
    proof (rule ccontr)
      assume "x div kSegmentSize \<notin> ?S"
      then show False using flushed_clean [OF f that(1)] that(3) b by simp
    qed
    then have "sdirty e (seg (x div kBlockSize))" using F(25) by (simp add: seg_block)
    with b F(27) md that(2) show False by auto
  qed
  have Vx: "?V (BackB x) = (if x div kBlockSize \<in> set (all_buckets e) then Some (cur (nv (eimg e1)) (MainB x)) else None)" for x
    by simp
  have ms: "cur (nv (eimg e1)) (MainB x) = new_snap e x" for x
    using e1(8) [of "MainB x"] by (simp add: new_snap_def rd_def)
  have bs: "quiet (nv (eimg e1)) (BackB x)" "cur (nv (eimg e1)) (BackB x) = new_snap e x"
    if "x div kSegmentSize < ?ns" "\<not> bdirty e (x div kBlockSize)" for x
    using e1(8,9) [of "BackB x"] F(8,9) [OF that] by (simp_all add: new_snap_def rd_def)
  have ni: "new_image ?ns (new_snap e) (new_live e live) ?B (nv (eimg e2))"
    unfolding new_image_def
  proof (intro allI impI)
    fix x assume x: "x div kSegmentSize < ?ns"
    have M: "quiet m (MainB x) \<and> cur m (MainB x) = new_snap e x"
      using e1(9) [of "MainB x"] F(24) [OF x] v(1,6) [of "MainB x"] ms by simp
    have B: "quiet m (BackB x) \<and> cur m (BackB x) = new_snap e x" if "?B (x div kSegmentSize)"
    proof (cases "x div kBlockSize \<in> set (all_buckets e)")
      case True
      then have "?V (BackB x) = Some (new_snap e x)" by (simp add: ms)
      then show ?thesis using v(2,5) settled_quiet [of m "BackB x"] m(2) by simp
    next
      case False
      then have "?V (BackB x) = None" by simp
      then show ?thesis using v(1,6) [of "BackB x"] bs [OF x cl [OF x False that]] by simp
    qed
    show "quiet (nv (eimg e2)) (MainB x) \<and> cur (nv (eimg e2)) (MainB x) = new_snap e x \<and>
       (?B (x div kSegmentSize) \<longrightarrow> quiet (nv (eimg e2)) (BackB x) \<and> cur (nv (eimg e2)) (BackB x) = new_snap e x)"
      using M B by (simp add: e2_def)
  qed
  have lv: "st e1 s = SS_Main \<or> st e1 s = SS_Back" if "s < ?ns" "new_live e live s" for s
    using F(13,14) [OF that(1)] e1(7) [OF that(1)] that(2) by (auto simp: new_live_def)
  have nb: "x div kSegmentSize \<notin> ?S \<and> st e (x div kSegmentSize) = SS_Back"
    if "x div kSegmentSize < ?ns" "st e1 (x div kSegmentSize) = SS_Back" for x
    using e1(7) [OF that(1)] that(2) by (auto split: if_splits)
  have backs: "\<not> bdirty e (x div kBlockSize)" if "x div kSegmentSize < ?ns" "st e1 (x div kSegmentSize) = SS_Back" for x
    using nb [OF that] flushed_clean [OF f that(1)] by simp
  have cr2: "crash_safe P (nv (eimg e2))"
  proof -
    have e1i: "quiet (nv (eimg e1)) l" if "protected (eimg e1) ?ns l" for l
    proof (rule hdr_synced_quiet [OF e1(3,4) _ _ _ that])
      show "rd (eimg e1) HNrMain = ?ns" using e1(5) by (simp add: header_is_def)
      fix x assume x: "x div kSegmentSize < ?ns"
      show "quiet (nv (eimg e1)) (MainB x)" using e1(9) F(24) [OF x] by simp
      assume "get_segment_state (eimg e1) (x div kSegmentSize) = SS_Back"
      then show "quiet (nv (eimg e1)) (BackB x)" using bs(1) [OF x] backs [OF x] by (simp add: st_def)
    qed
    have pv: "?V l = None" if "protected (eimg e1) ?ns l" for l
    proof (cases l)
      case (BackB x)
      then have x: "x div kSegmentSize < ?ns" "st e1 (x div kSegmentSize) = SS_Back" using that by (simp_all add: st_def)
      have "x div kBlockSize \<notin> set (all_buckets e)"
      proof
        assume "x div kBlockSize \<in> set (all_buckets e)"
        then have "seg (x div kBlockSize) \<in> ?S" by (simp add: segs)
        then show False using nb [OF x] by (simp add: seg_block)
      qed
      then show ?thesis by (simp add: BackB)
    qed simp_all
    have kp: "keeps (protected (eimg e1) ?ns) (nv (eimg e1)) m"
      using e1i pv by (intro evolves_keeps [OF m(3)]) simp
    have "P pm" if pm: "\<And>l. protected (eimg e1) ?ns l \<Longrightarrow> pm l = cur (nv (eimg e1)) l" for pm
    proof -
      have "stands_for ?ns (new_snap e) (new_live e live) pm"
      proof (rule stands_for_protected [OF e1(5)])
        show "protected (eimg e1) ?ns l \<Longrightarrow> pm l = rd (eimg e1) l" for l using pm by (simp add: rd_def)
        show "s < ?ns \<Longrightarrow> new_live e live s \<Longrightarrow> get_segment_state (eimg e1) s = SS_Main \<or> get_segment_state (eimg e1) s = SS_Back" for s
          using lv by (simp add: st_def)
        show "rd (eimg e1) (MainB x) = new_snap e x" for x using ms by (simp add: rd_def)
        show "rd (eimg e1) (BackB x) = new_snap e x"
          if "x div kSegmentSize < ?ns" "get_segment_state (eimg e1) (x div kSegmentSize) = SS_Back" for x
          using bs(2) [OF that(1)] backs [OF that(1)] that(2) by (simp add: st_def rd_def)
      qed
      then show ?thesis by (simp add: P_def)
    qed
    from keeps_crash_safe [OF kp e1(10) this] show ?thesis by (simp add: e2_def)
  qed
  have l2: "layout_segments e2 = layout_segments e" by (simp add: e2_def fl)
  obtain im3 where im3: "commit_layout_state SS_Back e2 = Some (e2\<lparr>eimg := im3\<rparr>)"
    "hdr_ok im3" "synced im3" "header_is ?ns (rd im3)" "main_to_back im3 = main_to_back (eimg e2)"
    "\<And>s. s < ?ns \<Longrightarrow> get_segment_state im3 s = (if s \<in> set (layout_segments e2) then SS_Back else st e2 s)"
    "\<And>l. is_data_cell l \<Longrightarrow> rd im3 l = rd (eimg e2) l"
    "\<And>l. is_data_cell l \<Longrightarrow> quiet (nv (eimg e2)) l \<Longrightarrow> quiet (nv im3) l" "crash_safe P (nv im3)"
  proof (rule commit_back [of e2 ?ns "new_snap e" "new_live e live" ?B P])
    show "hdr_ok (eimg e2)" "synced (eimg e2)" "header_is ?ns (rd (eimg e2))" "nr_segments e2 = ?ns" "0 < ?ns"
      "pend (nv (eimg e2)) = (\<lambda>_. None)"
      using h2(1,2) hd2 F(1) m(2) by (simp_all add: e2_def fl)
    show "new_image ?ns (new_snap e) (new_live e live) ?B (nv (eimg e2))" by (rule ni)
    show "s < ?ns \<Longrightarrow> new_live e live s \<Longrightarrow> st e2 s = SS_Main \<or> st e2 s = SS_Back" for s
      using lv st2 e1(7) by auto
    show "\<forall>s \<in> set (layout_segments e2). s < ?ns \<and> ?B s" using SK by (simp add: l2)
    show "s < ?ns \<Longrightarrow> st e2 s = SS_Back \<Longrightarrow> ?B s" for s using st2 by (auto split: if_splits)
    show "crash_safe P (nv (eimg e2))" by (rule cr2)
    show "stands_for ?ns (new_snap e) (new_live e live) pm \<Longrightarrow> P pm" for pm by (simp add: P_def)
  qed blast
  define e3 where "e3 = e2\<lparr>eimg := im3\<rparr>"
  have f3: "nr_segments e3 = ?ns" "address_first e3 = address_first e" "capacity e3 = capacity e"
    "nr_blocks e3 = nr_blocks e" "nr_back_segments e3 = nr_back_segments e" "held e3 = held e"
    "address_buffer e3 = address_buffer e" "skip_copy_on_write e3 = skip_copy_on_write e" "cleaner_st e3 = cleaner_st e"
    "cleaner_segment e3 = cleaner_segment e" "segment_dirty e3 = segment_dirty e" "block_dirty e3 = block_dirty e"
    "all_buckets e3 = all_buckets e" "eimg e3 = im3" "main_to_back im3 = main_to_back (eimg e)"
    by (simp_all add: e3_def e2_def fl0 all_buckets_def im3(5) e1(6))
  obtain m4 where m4: "note_snapshot e3 = (with_nv m4 e3)\<lparr>has_snapshot := True\<rparr>" "attr_step e3 m4"
    by (rule note_snapshot_ok [of e3]) blast
  define e4 where "e4 = note_snapshot e3"
  define e5 where "e5 = clear_dirty_bits e4"
  define e' where "e' = (reset_buckets e5)\<lparr>checkpoint_in_progress := False\<rparr>"
  have eq: "checkpoint_flush_blocks n e = Some e'"
    by (simp add: checkpoint_flush_blocks_def e1(1) m(1) im3(1) e'_def e5_def e4_def e3_def flip: e2_def)
  have f4: "nr_segments e4 = ?ns" "address_first e4 = address_first e" "capacity e4 = capacity e"
    "nr_blocks e4 = nr_blocks e" "nr_back_segments e4 = nr_back_segments e" "held e4 = held e"
    "address_buffer e4 = address_buffer e" "skip_copy_on_write e4 = skip_copy_on_write e" "cleaner_st e4 = cleaner_st e"
    "cleaner_segment e4 = cleaner_segment e" "segment_dirty e4 = segment_dirty e" "block_dirty e4 = block_dirty e"
    "all_buckets e4 = all_buckets e" "eimg e4 = eimg (with_nv m4 e3)" "main_to_back (eimg e4) = main_to_back (eimg e)"
  proof -
    have "all_buckets e4 = all_buckets (with_nv m4 e3)" by (simp add: e4_def m4(1) all_buckets_def)
    then show "all_buckets e4 = all_buckets e" by (simp add: f3)
  qed (simp_all add: e4_def m4(1) f3)
  note cd = clear_dirty_bits_simps [where e = e4, folded e5_def]
  obtain bd5 sd5 where e5: "e5 = e4\<lparr>block_dirty := bd5, segment_dirty := sd5\<rparr>" using cd(3) by blast
  have g: "nr_segments e' = ?ns" "flush_blocks e' = (\<lambda>_. [])" "cleaner_st e' = cleaner_st e" "cleaner_segment e' = cleaner_segment e"
    "skip_copy_on_write e' = skip_copy_on_write e" "address_first e' = address_first e" "capacity e' = capacity e"
    "nr_blocks e' = nr_blocks e" "nr_back_segments e' = nr_back_segments e" "held e' = held e"
    "\<not> checkpoint_in_progress e'" "main_to_back (eimg e') = main_to_back (eimg e)" "eimg e' = eimg e4"
    "address_buffer e' = address_buffer e"
    by (simp_all add: e'_def reset_buckets_def e5 f4 f3)
  have bd': "bdirty e' k \<longleftrightarrow> bdirty e k \<and> (\<forall>b \<in> set (all_buckets e). k div 64 \<noteq> b div 64)" for k
    using cd(1) [of k] by (simp add: e'_def reset_buckets_def bdirty_def f4)
  have sd': "sdirty e' s \<longleftrightarrow> sdirty e s \<and> (\<forall>b \<in> set (all_buckets e). s div 64 \<noteq> seg b div 64)" for s
    using cd(2) [of s] by (simp add: e'_def reset_buckets_def sdirty_def f4)
  have bu': "\<not> buffered e' k" for k
    using F(22) [of k] by (simp add: buffered_def in_range_def g)
  have tr': "tracked e' = bdirty e'" by (simp add: tracked_def bu' fun_eq_iff)
  have ac: "hdr_ok (eimg e')" "synced (eimg e')" "header_is ?ns (rd (eimg e'))"
    "get_segment_state (eimg e') = get_segment_state im3"
    using attr_change [OF m4(2), unfolded f3, OF im3(2,3,4)] by (simp_all add: g f4 f3)
  have c': "rd (eimg e') l = cur (nv (eimg e2)) l" "quiet (nv (eimg e2)) l \<Longrightarrow> quiet (nv (eimg e')) l" if "is_data_cell l" for l
    using that attr_stepD(1,3) [OF m4(2), of l] im3(7,8) [of l] by (cases l; simp add: g f4 f3 rd_def)+
  have st': "st e' s = (if s \<in> ?S then SS_Back else st e s)" if "s < ?ns" for s
    using im3(6) [OF that] st2 [OF that] by (simp add: st_def ac(4) l2)
  have clean': "sdirty e (seg k) \<Longrightarrow> \<not> bdirty e' k" for k
    using F(27) [of k] md by (auto simp: bd')
  have "visible (nv (eimg e2))"
    using evolves_visible [OF m(3)] commit_layout_visible [OF e1(1) F(28)] by (simp add: e2_def)
  then have "visible m4"
    using attr_step_visible [OF m4(2)] commit_layout_visible [OF im3(1)] by (simp add: f3)
  then have "base_inv e'" by (intro flushed_base [OF f refl]) (use ac g in \<open>simp_all add: f4\<close>)
  moreover have "data_inv e' (new_snap e)"
    unfolding data_inv_def g(1) tr'
  proof (intro allI impI)
    fix x assume x: "x div kSegmentSize < ?ns"
    let ?k = "x div kBlockSize"
    have N: "quiet (nv (eimg e2)) (MainB x)" "cur (nv (eimg e2)) (MainB x) = new_snap e x"
      "?B (x div kSegmentSize) \<Longrightarrow> quiet (nv (eimg e2)) (BackB x)" "?B (x div kSegmentSize) \<Longrightarrow> cur (nv (eimg e2)) (BackB x) = new_snap e x"
      using new_imageD [OF ni x] by blast+
    have M: "quiet (nv (eimg e')) (MainB x)" "rd (eimg e') (MainB x) = new_snap e x" using c' [of "MainB x"] N by simp_all
    have B: "quiet (nv (eimg e')) (BackB x) \<and> rd (eimg e') (BackB x) = new_snap e x" if "?B (x div kSegmentSize)"
      using c' [of "BackB x"] N(3,4) [OF that] by simp
    have "quiet (nv (eimg e')) (BackB x) \<and> rd (eimg e') (BackB x) = new_snap e x" if nt: "\<not> bdirty e' ?k"
    proof (cases "?B (x div kSegmentSize)")
      case False
      have "\<not> bdirty e ?k"
      proof
        assume "bdirty e ?k"
        then obtain b where b: "b \<in> set (all_buckets e)" "?k div 64 = b div 64" using nt unfolding bd' by blast
        have "seg b \<in> ?S" unfolding segs using b(1) by (rule imageI)
        then have "seg ?k \<in> ?S" unfolding same_word_same_segment [OF b(2)] .
        then show False using False by (simp add: seg_block)
      qed
      then have b: "quiet (nv (eimg e1)) (BackB x)" "cur (nv (eimg e1)) (BackB x) = new_snap e x" using bs [OF x] by simp_all
      have "?k \<notin> set (all_buckets e)"
      proof
        assume "?k \<in> set (all_buckets e)"
        then have "seg ?k \<in> ?S" unfolding segs by (rule imageI)
        then show False using False by (simp add: seg_block)
      qed
      then have "?V (BackB x) = None" by simp
      then have "quiet (nv (eimg e2)) (BackB x)" "cur (nv (eimg e2)) (BackB x) = new_snap e x"
        using v(1,6) [of "BackB x"] b by (simp_all add: e2_def)
      then show ?thesis using c' [of "BackB x"] by simp
    qed (rule B)
    with M B show "(\<not> bdirty e' (x div kBlockSize) \<longrightarrow>
        quiet (nv (eimg e')) (MainB x) \<and> quiet (nv (eimg e')) (BackB x) \<and> rd (eimg e') (MainB x) = rd (eimg e') (BackB x)) \<and>
     (st e' (x div kSegmentSize) = SS_Main \<longrightarrow> quiet (nv (eimg e')) (MainB x) \<and> rd (eimg e') (MainB x) = new_snap e x) \<and>
     (st e' (x div kSegmentSize) = SS_Back \<longrightarrow> quiet (nv (eimg e')) (BackB x) \<and> rd (eimg e') (BackB x) = new_snap e x)"
      using st' [OF x] by (auto split: if_splits)
  qed
  moreover have "state_inv e' (new_live e live)"
    unfolding state_inv_def g
  proof (intro conjI allI impI)
    fix s assume s: "s < ?ns"
    show "st e' s = SS_Initial \<or> st e' s = SS_Main \<or> st e' s = SS_Back" using F(13) [OF s] by (simp add: st' [OF s])
    show "new_live e live s = (st e' s \<noteq> SS_Initial)" using F(14) [OF s] by (auto simp: st' [OF s] new_live_def)
    assume "st e' s = SS_Main"
    then have mn: "st e s = SS_Main" by (simp add: st' [OF s] split: if_splits)
    show "\<not> sdirty e' s" using F(15) [OF s mn] by (simp add: sd')
    show "\<not> skip_copy_on_write e" "cleaner_st e \<noteq> WB_IDLE" using F(16) [OF s mn] sk by auto
    assume "cleaner_st e = WB_RUNNING"
    then show "cleaner_segment e \<le> s" by (rule F(17) [OF s mn])
  next
    assume "cleaner_st e = WB_RUNNING"
    then show "cleaner_segment e < ?ns" by (rule F(18))
  qed
  moreover have "track_inv e' {}"
  proof (rule track_invI)
    fix k assume b: "bdirty e' k"
    then have bk: "bdirty e k" by (simp add: bd')
    then show sk: "seg k < nr_segments e'" using F(20) by (simp add: g)
    have nsd: "\<not> sdirty e (seg k)" using clean' b by blast
    then have "st e (seg k) = SS_Main" using F(21) [OF bk] by blast
    moreover have "seg k \<notin> ?S" using F(25) nsd by blast
    ultimately show "sdirty e' (seg k) \<or> st e' (seg k) = SS_Main" using st' sk by (simp add: g)
    show "sdirty e' (seg k) \<Longrightarrow> k \<in> set (all_buckets e') \<or>
       (\<exists>t < kMaxThreads. kMaxFlushBlocks \<le> length (flush_blocks e' t))" using nsd by (simp add: sd')
  next
    show "sdirty e' s \<Longrightarrow> s < nr_segments e'" for s using F(19) by (simp add: sd' g)
  qed (use bu' g in simp_all)
  ultimately have inv': "inv e' {} (new_snap e) (new_live e live)" by (simp add: inv_def)
  have "crash_safe P (nv (eimg e'))"
  proof -
    have pq: "quiet (nv im3) l" if "protected im3 ?ns l" for l
    proof (rule hdr_synced_quiet [OF im3(2,3) _ _ _ that])
      show "rd im3 HNrMain = ?ns" using im3(4) by (simp add: header_is_def)
      fix x assume x: "x div kSegmentSize < ?ns"
      show "quiet (nv im3) (MainB x)" using im3(8) [of "MainB x"] ni x by (simp add: new_image_def)
      assume "get_segment_state im3 (x div kSegmentSize) = SS_Back"
      then have "?B (x div kSegmentSize)" using im3(6) [OF x] st2 [OF x] by (auto simp: l2 split: if_splits)
      then show "quiet (nv im3) (BackB x)" using im3(8) [of "BackB x"] new_imageD(3) [OF ni x] by (simp only: is_data_cell.simps)
    qed
    have kp: "keeps (protected im3 ?ns) (nv im3) m4"
      using attr_step_keeps [OF m4(2), of "protected im3 ?ns"] pq by (simp add: f3)
    have "P pm" if pm: "\<And>l. protected im3 ?ns l \<Longrightarrow> pm l = cur (nv im3) l" for pm
    proof -
      have "stands_for ?ns (new_snap e) (new_live e live) pm"
      proof (rule stands_for_protected [OF im3(4)])
        show "protected im3 ?ns l \<Longrightarrow> pm l = rd im3 l" for l using pm by (simp add: rd_def)
        show "s < ?ns \<Longrightarrow> new_live e live s \<Longrightarrow> get_segment_state im3 s = SS_Main \<or> get_segment_state im3 s = SS_Back" for s
          using lv [of s] im3(6) [of s] st2 [of s] e1(7) [of s] by (auto simp: l2)
        show "rd im3 (MainB x) = new_snap e x" if "x div kSegmentSize < ?ns" for x
          using ni that im3(7) [of "MainB x"] by (simp add: new_image_def rd_def)
        show "rd im3 (BackB x) = new_snap e x"
          if "x div kSegmentSize < ?ns" "get_segment_state im3 (x div kSegmentSize) = SS_Back" for x
        proof -
          have "?B (x div kSegmentSize)" using im3(6) [OF that(1)] st2 [OF that(1)] that(2) by (auto simp: l2 split: if_splits)
          then show ?thesis using new_imageD(4) [OF ni that(1)] im3(7) [of "BackB x"] by (simp only: is_data_cell.simps rd_def)
        qed
      qed
      then show ?thesis by (simp add: P_def)
    qed
    from keeps_crash_safe [OF kp im3(9) this] show ?thesis by (simp add: g f4)
  qed
  then show ?thesis using eq inv' g by (intro that [of e']) simp_all
qed

end
