(* ===== verification/Engine_Spec.thy ===== *)
theory Engine_Spec
  imports Nvm
begin

text \<open>
  The contract between a checkpoint engine and the programs that use it
  (\<^verbatim>\<open>runtime/include/internal/engine.h\<close>), independent of how the engine keeps its
  copies. A ghost value records what the program has announced to write and what the last
  completed checkpoint holds. Every engine of the development is shown to satisfy the contract by
  an interpretation of the locale, and its theorems are instances of the ones proved here.
\<close>

text \<open>Runs of allowed operations, with the ghost value carried along.\<close>

inductive runs ::
  "('op \<Rightarrow> 'e \<Rightarrow> 'e option) \<Rightarrow> ('op \<Rightarrow> 'e \<Rightarrow> 'g \<Rightarrow> bool) \<Rightarrow> ('op \<Rightarrow> 'e \<Rightarrow> 'g \<Rightarrow> 'g) \<Rightarrow>
   'e \<Rightarrow> 'g \<Rightarrow> 'e \<Rightarrow> 'g \<Rightarrow> bool"
  for step allowed observe e0 g0 where
  start: "runs step allowed observe e0 g0 e0 g0"
| more: "runs step allowed observe e0 g0 e g \<Longrightarrow> allowed ev e g \<Longrightarrow> step ev e = Some e' \<Longrightarrow>
    runs step allowed observe e0 g0 e' (observe ev e g)"

inductive_cases runs_lastE: "runs step allowed observe e0 g0 e g"

text \<open>
  The laws: in a good state an allowed operation completes without exiting, leads to a good
  state, and every durable image a crash inside it can leave recovers either what was recorded
  before the operation or what is recorded after it.
\<close>

locale snapshot_engine =
  fixes step :: "'op \<Rightarrow> 'e \<Rightarrow> 'e option"
    and allowed :: "'op \<Rightarrow> 'e \<Rightarrow> 'g \<Rightarrow> bool"
    and observe :: "'op \<Rightarrow> 'e \<Rightarrow> 'g \<Rightarrow> 'g"
    and good :: "'e \<Rightarrow> 'g \<Rightarrow> bool"
    and images :: "'e \<Rightarrow> 'i set"
    and recovers :: "'e \<Rightarrow> 'i \<Rightarrow> 'g \<Rightarrow> bool"
  assumes step_ok: "good e g \<Longrightarrow> allowed ev e g \<Longrightarrow>
    \<exists>e'. step ev e = Some e' \<and> good e' (observe ev e g) \<and>
      (\<forall>pm \<in> images e'. recovers e pm g \<or> recovers e pm (observe ev e g))"
begin

lemma runs_good:
  assumes "runs step allowed observe e0 g0 e g" and "good e0 g0"
  shows "good e g"
  using assms
proof (induction rule: runs.induct)
  case (more e g ev e')
  then show ?case using step_ok [of e g ev] by auto
qed

lemma crash_recovers:
  assumes "good e0 g0" and "runs step allowed observe e0 g0 e g" and "allowed ev e g"
    and "step ev e = Some e'" and "pm \<in> images e'"
  shows "recovers e pm g \<or> recovers e pm (observe ev e g)"
  using step_ok [OF runs_good [OF assms(2,1)] assms(3)] assms(4,5) by auto

lemma progress:
  assumes "good e0 g0" and "runs step allowed observe e0 g0 e g" and "allowed ev e g"
  shows "\<exists>e'. step ev e = Some e' \<and> runs step allowed observe e0 g0 e' (observe ev e g)"
  using step_ok [OF runs_good [OF assms(2,1)] assms(3)] runs.more [OF assms(2,3)] by blast

text \<open>A property of the state that the invariant gives holds all along a run.\<close>

lemma runs_invariant:
  assumes "good e0 g0" and "runs step allowed observe e0 g0 e g" and "\<And>e g. good e g \<Longrightarrow> P e g"
  shows "P e g"
  using assms(3) [OF runs_good [OF assms(2,1)]] .

end

text \<open>
  Engines whose recovery restores a good state. A restart may itself crash and be repeated:
  \<open>reboots pm e\<close> reaches \<open>e\<close> from the durable image \<open>pm\<close> by one or more attempts.
  A life alternates runs with crashes, each followed by such a restart; the ghost value after a
  crash is the one recorded before or after the interrupted operation.
\<close>

inductive reboots :: "('e \<Rightarrow> 'i set) \<Rightarrow> ('i \<Rightarrow> 'e option) \<Rightarrow> 'i \<Rightarrow> 'e \<Rightarrow> bool"
  for images reopen where
  up: "reopen pm = Some e \<Longrightarrow> reboots images reopen pm e"
| again: "reopen pm = Some e1 \<Longrightarrow> pm' \<in> images e1 \<Longrightarrow> reboots images reopen pm' e \<Longrightarrow> reboots images reopen pm e"

inductive lives ::
  "('op \<Rightarrow> 'e \<Rightarrow> 'e option) \<Rightarrow> ('op \<Rightarrow> 'e \<Rightarrow> 'g \<Rightarrow> bool) \<Rightarrow> ('op \<Rightarrow> 'e \<Rightarrow> 'g \<Rightarrow> 'g) \<Rightarrow>
   ('e \<Rightarrow> 'i set) \<Rightarrow> ('e \<Rightarrow> 'i \<Rightarrow> 'g \<Rightarrow> bool) \<Rightarrow> ('i \<Rightarrow> 'e option) \<Rightarrow> ('g \<Rightarrow> 'g) \<Rightarrow>
   'e \<Rightarrow> 'g \<Rightarrow> 'e \<Rightarrow> 'g \<Rightarrow> bool"
  for step allowed observe images recovers reopen renew e0 g0 where
  born: "lives step allowed observe images recovers reopen renew e0 g0 e0 g0"
| operate: "lives step allowed observe images recovers reopen renew e0 g0 e g \<Longrightarrow> allowed ev e g \<Longrightarrow>
    step ev e = Some e' \<Longrightarrow> lives step allowed observe images recovers reopen renew e0 g0 e' (observe ev e g)"
| crash: "lives step allowed observe images recovers reopen renew e0 g0 e g \<Longrightarrow> allowed ev e g \<Longrightarrow>
    step ev e = Some e' \<Longrightarrow> pm \<in> images e' \<Longrightarrow> g' = g \<or> g' = observe ev e g \<Longrightarrow> recovers e pm g' \<Longrightarrow>
    reboots images reopen pm e2 \<Longrightarrow> lives step allowed observe images recovers reopen renew e0 g0 e2 (renew g')"

locale restartable_engine = snapshot_engine step allowed observe good images recovers
  for step :: "'op \<Rightarrow> 'e \<Rightarrow> 'e option" and allowed observe and good :: "'e \<Rightarrow> 'g \<Rightarrow> bool"
    and images :: "'e \<Rightarrow> 'i set" and recovers +
  fixes reopen :: "'i \<Rightarrow> 'e option" and renew :: "'g \<Rightarrow> 'g"
  assumes reopen_ok: "good e g \<Longrightarrow> recovers e pm g' \<Longrightarrow>
      \<exists>e2. reopen pm = Some e2 \<and> good e2 (renew g') \<and> (\<forall>pm' \<in> images e2. recovers e2 pm' (renew g'))"
    and renew_renew: "renew (renew g) = renew g"
begin

lemma reboots_good:
  assumes "reboots images reopen pm e2" and "good e g" and "recovers e pm g'"
  shows "good e2 (renew g')"
  using assms
proof (induction arbitrary: e g g' rule: reboots.induct)
  case (up pm e2)
  show ?case using reopen_ok [OF up.prems] up.hyps by auto
next
  case (again pm e1 pm' e2)
  then have "good e1 (renew g')" "recovers e1 pm' (renew g')"
    using reopen_ok [OF again.prems] by auto
  from again.IH [OF this] show ?case by (simp add: renew_renew)
qed

lemma lives_good:
  assumes "lives step allowed observe images recovers reopen renew e0 g0 e g" and "good e0 g0"
  shows "good e g"
  using assms
proof (induction rule: lives.induct)
  case (operate e g ev e')
  then show ?case using step_ok [of e g ev] by auto
next
  case (crash e g ev e' pm g' e2)
  show ?case by (rule reboots_good [OF crash.hyps(7) crash.IH [OF crash.prems] crash.hyps(6)])
qed

text \<open>After any life, an operation interrupted by a crash is followed by a good state again.\<close>

lemma crash_reopens:
  assumes "good e0 g0" and "lives step allowed observe images recovers reopen renew e0 g0 e g"
    and "allowed ev e g" and "step ev e = Some e'" and "pm \<in> images e'"
  obtains g' e2 where "g' = g \<or> g' = observe ev e g" "reopen pm = Some e2" "good e2 (renew g')"
    "lives step allowed observe images recovers reopen renew e0 g0 e2 (renew g')"
proof -
  have good: "good e g" by (rule lives_good [OF assms(2,1)])
  then obtain g' where g': "g' = g \<or> g' = observe ev e g" "recovers e pm g'"
    using step_ok [OF good assms(3)] assms(4,5) by auto
  obtain e2 where e2: "reopen pm = Some e2" "good e2 (renew g')"
    using reopen_ok [OF good g'(2)] by blast
  show ?thesis
    by (rule that [OF g'(1) e2]) (rule lives.crash [OF assms(2-5) g'], rule reboots.up, rule e2(1))
qed

end

text \<open>
  A weaker contract, for engines whose recovery must not be interrupted: a life in which every
  restart completes at the first attempt.
\<close>

inductive lives_once ::
  "('op \<Rightarrow> 'e \<Rightarrow> 'e option) \<Rightarrow> ('op \<Rightarrow> 'e \<Rightarrow> 'g \<Rightarrow> bool) \<Rightarrow> ('op \<Rightarrow> 'e \<Rightarrow> 'g \<Rightarrow> 'g) \<Rightarrow>
   ('e \<Rightarrow> 'i set) \<Rightarrow> ('e \<Rightarrow> 'i \<Rightarrow> 'g \<Rightarrow> bool) \<Rightarrow> ('i \<Rightarrow> 'e option) \<Rightarrow> ('g \<Rightarrow> 'g) \<Rightarrow>
   'e \<Rightarrow> 'g \<Rightarrow> 'e \<Rightarrow> 'g \<Rightarrow> bool"
  for step allowed observe images recovers reopen renew e0 g0 where
  born_once: "lives_once step allowed observe images recovers reopen renew e0 g0 e0 g0"
| operate_once: "lives_once step allowed observe images recovers reopen renew e0 g0 e g \<Longrightarrow> allowed ev e g \<Longrightarrow>
    step ev e = Some e' \<Longrightarrow> lives_once step allowed observe images recovers reopen renew e0 g0 e' (observe ev e g)"
| crash_once: "lives_once step allowed observe images recovers reopen renew e0 g0 e g \<Longrightarrow> allowed ev e g \<Longrightarrow>
    step ev e = Some e' \<Longrightarrow> pm \<in> images e' \<Longrightarrow> g' = g \<or> g' = observe ev e g \<Longrightarrow> recovers e pm g' \<Longrightarrow>
    reopen pm = Some e2 \<Longrightarrow> lives_once step allowed observe images recovers reopen renew e0 g0 e2 (renew g')"

locale reopenable_engine = snapshot_engine step allowed observe good images recovers
  for step :: "'op \<Rightarrow> 'e \<Rightarrow> 'e option" and allowed observe and good :: "'e \<Rightarrow> 'g \<Rightarrow> bool"
    and images :: "'e \<Rightarrow> 'i set" and recovers +
  fixes reopen :: "'i \<Rightarrow> 'e option" and renew :: "'g \<Rightarrow> 'g"
  assumes reopens: "good e g \<Longrightarrow> recovers e pm g' \<Longrightarrow> \<exists>e2. reopen pm = Some e2 \<and> good e2 (renew g')"
begin

lemma lives_once_good:
  assumes "lives_once step allowed observe images recovers reopen renew e0 g0 e g" and "good e0 g0"
  shows "good e g"
  using assms
proof (induction rule: lives_once.induct)
  case (operate_once e g ev e')
  then show ?case using step_ok [of e g ev] by auto
next
  case (crash_once e g ev e' pm g' e2)
  show ?case using reopens [OF crash_once.IH [OF crash_once.prems] crash_once.hyps(6)] crash_once.hyps(7) by simp
qed

lemma crash_reopens_once:
  assumes "good e0 g0" and "lives_once step allowed observe images recovers reopen renew e0 g0 e g"
    and "allowed ev e g" and "step ev e = Some e'" and "pm \<in> images e'"
  obtains g' e2 where "g' = g \<or> g' = observe ev e g" "reopen pm = Some e2" "good e2 (renew g')"
    "lives_once step allowed observe images recovers reopen renew e0 g0 e2 (renew g')"
proof -
  have good: "good e g" by (rule lives_once_good [OF assms(2,1)])
  then obtain g' where g': "g' = g \<or> g' = observe ev e g" "recovers e pm g'"
    using step_ok [OF good assms(3)] assms(4,5) by auto
  obtain e2 where e2: "reopen pm = Some e2" "good e2 (renew g')"
    using reopens [OF good g'(2)] by blast
  show ?thesis
    by (rule that [OF g'(1) e2]) (rule lives_once.crash_once [OF assms(2-5) g' e2(1)])
qed

end

text \<open>Surviving crashes inside recovery is the stronger contract.\<close>

sublocale restartable_engine \<subseteq> reopenable_engine
  by unfold_locales (use reopen_ok in blast)

end
