(* ===== verification/NvmInst_Run.thy ===== *)
theory NvmInst_Run
  imports NvmInst_Checkpoint Engine_Spec
begin

text \<open>
  Runs of the engine: any interleaving of hooks, covered stores, cleaner rounds and checkpoints
  from a freshly created pool. No operation stops the process, and whatever durable image a crash
  leaves, at any point of any operation, a restart brings back the memory of the last checkpoint
  (during a checkpoint: of the last or of this one).
\<close>

subsection \<open>The whole checkpoint\<close>

lemma crash_safe_imp: "crash_safe P m \<Longrightarrow> (\<And>pm. P pm \<Longrightarrow> Q pm) \<Longrightarrow> crash_safe Q m"
  by (simp add: crash_safe_def)

lemma checkpoint_ok:
  assumes i: "inv e H snap live" and cr: "crash_ok e snap live" and tid: "leader < kMaxThreads" and n: "0 < n"
  obtains e' live' where "checkpoint leader n e = Some e'" "inv e' {} (new_snap e) live'"
    "\<And>s. live s \<Longrightarrow> live' s" "\<And>k. k \<in> H \<Longrightarrow> live' (seg k)"
    "crash_safe (\<lambda>pm. stands_for (nr_segments e) snap live pm \<or> stands_for (nr_segments e) (new_snap e) live' pm) (nv (eimg e'))"
    "nr_segments e' = nr_segments e" "address_first e' = address_first e" "capacity e' = capacity e"
proof -
  define e0 where "e0 = address_buffer_clear_all leader e"
  note a = address_buffer_clear_all_inv [OF i tid, folded e0_def]
  note dm = determine_mode [OF refl, of e0]
  have af: "address_first e0 = address_first e" "capacity e0 = capacity e"
  proof -
    have "address_first (address_buffer_clear leader j e) = address_first e \<and> capacity (address_buffer_clear leader j e) = capacity e" for j e
    proof -
      have "address_first (fold (hook_buffered leader) as e) = address_first e \<and> capacity (fold (hook_buffered leader) as e) = capacity e" for as e
        by (induction as arbitrary: e) simp_all
      then show ?thesis by (simp add: address_buffer_clear_def Let_def)
    qed
    then have "address_first (fold (address_buffer_clear leader) js e) = address_first e \<and>
        capacity (fold (address_buffer_clear leader) js e) = capacity e" for js
      by (induction js arbitrary: e) simp_all
    then show "address_first e0 = address_first e" "capacity e0 = capacity e"
      by (simp_all add: e0_def address_buffer_clear_all_def)
  qed
  note t = inv_track [OF a(1)]
  show ?thesis
  proof (cases "mode (checkpoint_begin leader e) = FMODE_NO_ACTION")
    case True
    define e' where "e' = determine_flush_mode e0"
    have e': "checkpoint_begin leader e = e'" "mode e' = FMODE_NO_ACTION"
      using True by (simp_all add: checkpoint_begin_def Let_def e0_def [symmetric] e'_def split: if_splits)
    have md: "e' = e0\<lparr>mode := FMODE_NO_ACTION\<rparr>" using dm(3) e'(2) by (simp add: e'_def)
    have fb: "flush_blocks e0 r = []" if "r < kMaxThreads" for r using dm(1) e'(2) that by (simp add: e'_def)
    have none: "\<not> (bdirty e0 k \<and> sdirty e0 (seg k))" for k
      using t(8) [of k] fb by (auto simp: all_buckets_def geometry)
    have h: "k \<notin> H" for k using t(9,10) [of k] none [of k] a(3) [of k] by (auto simp: tracked_def)
    have s: "st e' = st e0" "sdirty e' = sdirty e0" "bdirty e' = bdirty e0" "buffered e' = buffered e0"
      "tracked e' = tracked e0" "all_buckets e' = all_buckets e0"
      by (simp_all add: md st_def sdirty_def bdirty_def buffered_def tracked_def in_range_def all_buckets_def fun_eq_iff)
    have "track_inv e' {}" using a(1) by (simp add: inv_def track_inv_def s) (simp add: md)
    note q = inv_tracking [OF a(1) _ _ _ _ _ _ _ _ _ _ _ _ this]
    have i': "inv e' {} snap live" by (rule q) (simp_all add: s, simp_all add: md)
    have eq_snap: "new_snap e x = snap x" if x: "x div kSegmentSize < nr_segments e'" "st e' (x div kSegmentSize) \<noteq> SS_Initial" for x
    proof -
      have im: "rd (eimg e') = rd (eimg e)" using a(4) by (simp add: md)
      note d = inv_data [OF i' x(1)]
      show ?thesis
      proof (cases "st e' (x div kSegmentSize) = SS_Main")
        case True
        then show ?thesis using d(5) by (simp add: new_snap_def im)
      next
        case False
        then have bk: "st e' (x div kSegmentSize) = SS_Back" using inv_state(1) [OF i' x(1)] x(2) by blast
        have "\<not> bdirty e0 (x div kBlockSize)"
          using none [of "x div kBlockSize"] t(3) [of "x div kBlockSize"] False by (auto simp: seg_block s)
        then have "\<not> tracked e' (x div kBlockSize)" using a(3) by (simp add: s tracked_def)
        then show ?thesis using d(3,7) bk by (simp add: new_snap_def im)
      qed
    qed
    have "data_inv e' (new_snap e)"
      unfolding data_inv_def
    proof (intro allI impI)
      fix x assume x: "x div kSegmentSize < nr_segments e'"
      show "(\<not> tracked e' (x div kBlockSize) \<longrightarrow>
        quiet (nv (eimg e')) (MainB x) \<and> quiet (nv (eimg e')) (BackB x) \<and> rd (eimg e') (MainB x) = rd (eimg e') (BackB x)) \<and>
     (st e' (x div kSegmentSize) = SS_Main \<longrightarrow> quiet (nv (eimg e')) (MainB x) \<and> rd (eimg e') (MainB x) = new_snap e x) \<and>
     (st e' (x div kSegmentSize) = SS_Back \<longrightarrow> quiet (nv (eimg e')) (BackB x) \<and> rd (eimg e') (BackB x) = new_snap e x)"
        using inv_data [OF i' x] eq_snap [OF x] by simp
    qed
    then have "inv e' {} (new_snap e) live" using i' by (simp add: inv_def)
    moreover have "checkpoint leader n e = Some e'" using e' by (simp add: checkpoint_def)
    moreover have "crash_safe (\<lambda>pm. stands_for (nr_segments e) snap live pm \<or> stands_for (nr_segments e) (new_snap e) live pm) (nv (eimg e'))"
      using a(2) [OF cr] a(4,5) by (simp add: crash_ok_def crash_safe_def md)
    ultimately show ?thesis using h a(5) af by (intro that [of e' live]) (simp_all add: md)
  next
    case False
    obtain e2 where e2: "fold (flush_parallel n) [0..<n] (checkpoint_begin leader e) = e2"
      "flushed_inv e2 snap live" "crash_safe (stands_for (nr_segments e2) snap live) (nv (eimg e2))"
      "new_snap e2 = new_snap e" "nr_segments e2 = nr_segments e" "checkpoint_in_progress e2"
      "skip_copy_on_write e2 \<longrightarrow> mode e2 \<noteq> FMODE_WBINVD \<and> cleaner_st e2 = WB_IDLE"
      "mode e2 = mode (checkpoint_begin leader e)"
      "address_first e2 = address_first (checkpoint_begin leader e)" "capacity e2 = capacity (checkpoint_begin leader e)"
      "bdirty e2 = bdirty e0" "sdirty e2 = sdirty e0"
      unfolding e0_def by (rule checkpoint_begin_flush [OF i cr tid n False]) blast
    have cb: "address_first (checkpoint_begin leader e) = address_first e" "capacity (checkpoint_begin leader e) = capacity e"
      using af dm(3) by (auto simp: checkpoint_begin_def Let_def e0_def [symmetric] split: if_splits)
         (metis engine.select_convs(5,6) engine.surjective engine.update_convs(15))+
    define live' where "live' = new_live e2 live"
    have hk: "live' (seg k)" if "k \<in> H" for k
    proof -
      have "bdirty e2 k" "sdirty e2 (seg k)" using t(9,10) [OF that] a(3) by (simp_all add: e2 tracked_def)
      then have "seg k \<in> set (layout_segments e2)" using flushed_facts(26) [OF e2(2)] by blast
      then show ?thesis by (simp add: live'_def new_live_def)
    qed
    have lv: "live s \<Longrightarrow> live' s" for s by (simp add: live'_def new_live_def)
    have ck: "checkpoint leader n e = (if mode e2 = FMODE_USE_FLUSH_BLOCKS then checkpoint_flush_blocks n e2 else checkpoint_wbinvd e2)"
      using False e2(1) by (simp add: checkpoint_def Let_def)
    show ?thesis
    proof (cases "mode e2 = FMODE_USE_FLUSH_BLOCKS")
      case True
      obtain e' where e': "checkpoint_flush_blocks n e2 = Some e'" "inv e' {} (new_snap e2) (new_live e2 live)"
        "crash_safe (\<lambda>pm. stands_for (nr_segments e2) snap live pm \<or>
           stands_for (nr_segments e2) (new_snap e2) (new_live e2 live) pm) (nv (eimg e'))"
        "nr_segments e' = nr_segments e2" "address_first e' = address_first e2" "capacity e' = capacity e2"
        by (rule checkpoint_flush_blocks_ok [OF e2(2) True n e2(3)]) (use e2(7) in blast)+
      show ?thesis
        by (rule that [of e' live']) (use True ck e' e2(4,5,9,10) cb lv hk in \<open>simp_all add: live'_def\<close>)
    next
      case nf: False
      have wb: "mode e2 = FMODE_WBINVD" using nf False e2(8) by (cases "mode e2") auto
      have sk: "\<not> skip_copy_on_write e2" using e2(7) wb by blast
      obtain e' where e': "checkpoint_wbinvd e2 = Some e'" "inv e' {} (new_snap e2) (new_live e2 live)"
        "crash_safe (\<lambda>pm. stands_for (nr_segments e2) snap live pm \<or>
           stands_for (nr_segments e2) (new_snap e2) (new_live e2 live) pm) (nv (eimg e'))"
        "nr_segments e' = nr_segments e2" "address_first e' = address_first e2" "capacity e' = capacity e2"
        by (rule checkpoint_wbinvd_ok [OF e2(2) wb e2(3) sk]) blast
      show ?thesis
        by (rule that [of e' live']) (use nf ck e' e2(4,5,9,10) cb lv hk in \<open>simp_all add: live'_def\<close>)
    qed
  qed
qed

subsection \<open>A freshly created pool\<close>

lemma create_engine_inv:
  assumes cap: "ns = round_capacity user_capacity div kSegmentSize" and al: "64 dvd ns" and n: "ns < kNullSegmentIndex"
    and pm: "\<And>x. pm (BackB x) = pm (MainB x)"
    and e: "create_engine user_capacity ns base (nv_init pm) = Some e"
  shows "inv e {} snap (\<lambda>_. False)" "nr_segments e = ns" "address_first e = base" "capacity e = ns * kSegmentSize"
proof -
  obtain sd where sd: "bs_allocate ns bs_new = Some sd" by (simp add: bs_allocate_def bs_new_def)
  obtain bd where bd: "bs_allocate (round_capacity user_capacity div kBlockSize) bs_new = Some bd"
    by (simp add: bs_allocate_def bs_new_def)
  have rc: "round_capacity user_capacity = ns * kSegmentSize"
    using round_capacity_props(1) [of user_capacity] by (simp add: cap)
  have pos: "0 < ns"
  proof (rule ccontr)
    assume "\<not> 0 < ns"
    then show False using round_capacity_props(3) [of user_capacity] by (simp add: rc geometry)
  qed
  have nb: "ns * kSegmentSize div kBlockSize = ns * kBlocksPerSegment" by (simp add: geometry)
  define im where "im = Open_initialize ns ns (nv_init pm)"
  have e': "e = \<lparr>eimg = im, nr_segments = ns, nr_back_segments = ns, nr_blocks = ns * kBlocksPerSegment,
      capacity = ns * kSegmentSize, address_first = base, has_snapshot = False, skip_copy_on_write = False,
           segment_dirty = sd, block_dirty = bd, cleaner_st = WB_IDLE, cleaner_segment = 0,
           checkpoint_in_progress = False, flush_blocks = (\<lambda>_. []), mode = FMODE_NO_ACTION,
           next_back_id = 0, held = None, address_buffer = (\<lambda>_. [])\<rparr>"
    using e sd bd by (simp add: create_engine_def new_engine_def Let_def rc nb im_def)
  note o = Open_initialize_ok [OF pm n, folded im_def]
  have d: "\<not> sdirty e s" "\<not> bdirty e k" "\<not> buffered e k" for s k
    using bs_allocate_new [OF sd] bs_allocate_new [OF bd] by (simp_all add: e' sdirty_def bdirty_def buffered_def)
  have st: "st e s = SS_Initial" if "s < ns" for s using o(4) that by (simp add: st_def e')
  have "visible (nv im)" by (simp add: im_def Open_initialize_def Let_def attach_def)
  then have "base_inv e" using pos al o by (simp add: base_inv_def e')
  moreover have "data_inv e snap"
    using o(6-9) st by (simp add: data_inv_def) (simp add: e')
  moreover have "state_inv e (\<lambda>_. False)" using st by (simp add: state_inv_def) (simp add: e')
  moreover have "track_inv e {}" using d by (simp add: track_inv_def) (simp add: e')
  ultimately show "inv e {} snap (\<lambda>_. False)" by (simp add: inv_def)
  show "nr_segments e = ns" "address_first e = base" "capacity e = ns * kSegmentSize" by (simp_all add: e')
qed

subsection \<open>Runs\<close>

text \<open>
  \<open>Write x v\<close> is a store of the program to offset \<open>x\<close> of the pool; the other events are
  calls into the runtime.
\<close>

datatype event =
    Hook nat nat
  | Range_hook nat nat nat
  | Write nat nat
  | Cleaner
  | Checkpoint nat nat

fun perform :: "event \<Rightarrow> engine \<Rightarrow> engine option" where
  "perform (Hook tid addr) e = hook_rt_store tid addr e"
| "perform (Range_hook tid addr len) e = hook_rt_range_store tid addr len e"
| "perform (Write x v) e = Some (store_byte x v e)"
| "perform Cleaner e = cleaner_step e"
| "perform (Checkpoint leader n) e = checkpoint leader n e"

text \<open>
  What the instrumented program guarantees: thread ids below the limit, ranges inside the pool,
  and no store to a block without a hook since the last checkpoint.
\<close>

fun allowed :: "event \<Rightarrow> engine \<Rightarrow> nat set \<Rightarrow> bool" where
  "allowed (Hook tid addr) e H = (tid < kMaxThreads)"
| "allowed (Range_hook tid addr len) e H = (tid < kMaxThreads \<and> 0 < len \<and> address_first e \<le> addr \<and>
     addr + len \<le> address_first e + capacity e)"
| "allowed (Write x v) e H = (x div kBlockSize \<in> H)"
| "allowed Cleaner e H = True"
| "allowed (Checkpoint leader n) e H = (leader < kMaxThreads \<and> 0 < n)"

text \<open>
  The ghost state of a run: the blocks hooked since the last checkpoint, the memory at the last
  checkpoint, and the segments hooked before it.
\<close>

type_synonym ghost = "nat set \<times> (nat \<Rightarrow> nat) \<times> nat set"

fun observe :: "event \<Rightarrow> engine \<Rightarrow> ghost \<Rightarrow> ghost" where
  "observe (Hook tid addr) e (H, snap, W) = ((if in_range e addr then insert (block_of e addr) H else H), snap, W)"
| "observe (Range_hook tid addr len) e (H, snap, W) = (H \<union> blocks_of e addr len, snap, W)"
| "observe (Checkpoint leader n) e (H, snap, W) = ({}, new_snap e, W \<union> seg ` H)"
| "observe _ e G = G"

definition reach :: "engine \<Rightarrow> engine \<Rightarrow> ghost \<Rightarrow> bool" where
  "reach e0 e G \<longleftrightarrow> runs (\<lambda>ev e. perform ev (start_op e)) (\<lambda>ev e G. allowed ev e (fst G)) observe
     e0 ({}, (\<lambda>_. 0), {}) e G"

lemma reach_start: "reach e0 e0 ({}, (\<lambda>_. 0), {})"
  by (simp add: reach_def runs.start)

lemma reach_step: "reach e0 e G \<Longrightarrow> allowed ev e (fst G) \<Longrightarrow> perform ev (start_op e) = Some e' \<Longrightarrow>
    reach e0 e' (observe ev e G)"
  unfolding reach_def by (rule runs.more)

definition fresh :: "engine \<Rightarrow> bool" where
  "fresh e \<longleftrightarrow> (\<exists>user_capacity base pm ns. ns = round_capacity user_capacity div kSegmentSize \<and>
     64 dvd ns \<and> ns < kNullSegmentIndex \<and> kBlockSize dvd base \<and> (\<forall>x. pm (BackB x) = pm (MainB x)) \<and>
     create_engine user_capacity ns base (nv_init pm) = Some e)"

definition run_inv :: "engine \<Rightarrow> ghost \<Rightarrow> bool" where
  "run_inv e G \<longleftrightarrow> (case G of (H, snap, W) \<Rightarrow> \<exists>live. inv e H snap live \<and> (\<forall>s \<in> W. live s) \<and>
     kBlockSize dvd address_first e)"

text \<open>The memory of a checkpoint, on the segments it covers.\<close>

definition remembers :: "nat \<Rightarrow> (nat \<Rightarrow> nat) \<Rightarrow> nat set \<Rightarrow> (iloc \<Rightarrow> nat) \<Rightarrow> bool" where
  "remembers ns snap W pm \<longleftrightarrow> stands_for ns snap (\<lambda>s. s \<in> W) pm"

lemma stands_for_mono: "stands_for ns snap live pm \<Longrightarrow> (\<And>s. live' s \<Longrightarrow> live s) \<Longrightarrow> stands_for ns snap live' pm"
  by (simp add: stands_for_def)

lemma start_op_more [simp]:
  "block_of (start_op e) a = block_of e a" "blocks_of (start_op e) a l = blocks_of e a l"
  "in_range (start_op e) a = in_range e a" "new_snap (start_op e) = new_snap e"
  by (simp_all add: block_of_def blocks_of_def in_range_def new_snap_def fun_eq_iff)
    (simp add: start_op_def map_nv_def rd_def)

text \<open>One event: it completes, keeps the invariant, and is safe at each of its crash points.\<close>

lemma perform_ok:
  assumes r: "run_inv e (H, snap, W)" and al: "allowed ev e H"
  obtains e' H' snap' W' where "perform ev (start_op e) = Some e'" "observe ev e (H, snap, W) = (H', snap', W')"
    "run_inv e' (H', snap', W')" "nr_segments e' = nr_segments e"
    "crash_safe (\<lambda>pm. remembers (nr_segments e) snap W pm \<or> remembers (nr_segments e) snap' W' pm) (nv (eimg e'))"
proof -
  obtain live where i: "inv e H snap live" and W: "\<forall>s \<in> W. live s" and ba: "kBlockSize dvd address_first e"
    using r by (auto simp: run_inv_def)
  note i' = start_op_inv [OF i]
  have safe: "crash_safe (remembers (nr_segments e) snap W) m"
    if "crash_safe (stands_for (nr_segments e) snap live) m" for m
    by (rule crash_safe_imp [OF that]) (use W in \<open>auto simp: remembers_def elim: stands_for_mono\<close>)
  show ?thesis
  proof (cases ev)
    case (Hook tid a)
    then have tid: "tid < kMaxThreads" using al by simp
    obtain e' where "hook_rt_store tid a (start_op e) = Some e'"
      "inv e' (if in_range (start_op e) a then insert (block_of (start_op e) a) H else H) snap live"
      "crash_ok (start_op e) snap live \<Longrightarrow> crash_ok e' snap live"
      "nr_segments e' = nr_segments (start_op e)" "address_first e' = address_first (start_op e)" "capacity e' = capacity (start_op e)"
      by (rule hook_rt_store_ok [OF i'(1) tid, of a]) blast
    then show ?thesis
      using W ba i'(2) by (intro that [of e' "if in_range e a then insert (block_of e a) H else H" snap W])
        (auto simp: Hook run_inv_def crash_ok_def intro!: safe)
  next
    case (Range_hook tid a l)
    then have tid: "tid < kMaxThreads" and rg: "address_first (start_op e) \<le> a"
      "a + l \<le> address_first (start_op e) + capacity (start_op e)" "0 < l" and ba': "kBlockSize dvd address_first (start_op e)"
      using al ba by simp_all
    obtain e' where "hook_rt_range_store tid a l (start_op e) = Some e'" "inv e' (H \<union> blocks_of (start_op e) a l) snap live"
      "crash_ok (start_op e) snap live \<Longrightarrow> crash_ok e' snap live"
      "nr_segments e' = nr_segments (start_op e)" "address_first e' = address_first (start_op e)" "capacity e' = capacity (start_op e)"
      by (rule hook_rt_range_store_ok [OF i'(1) tid rg ba']) blast
    then show ?thesis
      using W ba i'(2) by (intro that [of e' "H \<union> blocks_of e a l" snap W])
        (auto simp: Range_hook run_inv_def crash_ok_def intro!: safe)
  next
    case (Write x v)
    then have x: "x div kBlockSize \<in> H" using al by simp
    note w = store_byte_inv [OF i'(1) x, of v]
    show ?thesis
      using W ba i'(2) w by (intro that [of "store_byte x v (start_op e)" H snap W])
        (auto simp: Write run_inv_def crash_ok_def intro!: safe)
  next
    case Cleaner
    obtain e' where "cleaner_step (start_op e) = Some e'" "inv e' H snap live"
      "crash_ok (start_op e) snap live \<Longrightarrow> crash_ok e' snap live"
      "nr_segments e' = nr_segments (start_op e)" "address_first e' = address_first (start_op e)" "capacity e' = capacity (start_op e)"
      by (rule cleaner_step_ok [OF i'(1)]) blast
    then show ?thesis
      using W ba i'(2) by (intro that [of e' H snap W]) (auto simp: Cleaner run_inv_def crash_ok_def intro!: safe)
  next
    case (Checkpoint leader n)
    then have c: "leader < kMaxThreads" "0 < n" using al by simp_all
    obtain e' live' where e': "checkpoint leader n (start_op e) = Some e'" "inv e' {} (new_snap (start_op e)) live'"
      "\<And>s. live s \<Longrightarrow> live' s" "\<And>k. k \<in> H \<Longrightarrow> live' (seg k)"
      "crash_safe (\<lambda>pm. stands_for (nr_segments (start_op e)) snap live pm \<or>
         stands_for (nr_segments (start_op e)) (new_snap (start_op e)) live' pm) (nv (eimg e'))"
      "nr_segments e' = nr_segments (start_op e)" "address_first e' = address_first (start_op e)" "capacity e' = capacity (start_op e)"
      by (rule checkpoint_ok [OF i' c]) blast
    have W': "\<forall>s \<in> W \<union> seg ` H. live' s" using W e'(3,4) by blast
    show ?thesis
    proof (rule that [of e' "{}" "new_snap e" "W \<union> seg ` H"])
      show "run_inv e' ({}, new_snap e, W \<union> seg ` H)" using e'(2,7) W' ba by (auto simp: run_inv_def)
      show "crash_safe (\<lambda>pm. remembers (nr_segments e) snap W pm \<or>
          remembers (nr_segments e) (new_snap e) (W \<union> seg ` H) pm) (nv (eimg e'))"
      proof (rule crash_safe_imp [OF e'(5)])
        fix pm assume "stands_for (nr_segments (start_op e)) snap live pm \<or>
          stands_for (nr_segments (start_op e)) (new_snap (start_op e)) live' pm"
        then show "remembers (nr_segments e) snap W pm \<or> remembers (nr_segments e) (new_snap e) (W \<union> seg ` H) pm"
        proof
          assume "stands_for (nr_segments (start_op e)) snap live pm"
          from stands_for_mono [OF this, of "\<lambda>s. s \<in> W"] W show ?thesis by (simp add: remembers_def)
        next
          assume "stands_for (nr_segments (start_op e)) (new_snap (start_op e)) live' pm"
          from stands_for_mono [OF this, of "\<lambda>s. s \<in> W \<union> seg ` H"] W' show ?thesis
            unfolding remembers_def by simp
        qed
      qed
    qed (use e' in \<open>simp_all add: Checkpoint\<close>)
  qed
qed

text \<open>The engine satisfies the contract.\<close>

interpretation nvm_inst: snapshot_engine "\<lambda>ev e. perform ev (start_op e)" "\<lambda>ev e G. allowed ev e (fst G)"
  observe run_inv "\<lambda>e. crash_images (nv (eimg e))"
  "\<lambda>e pm G. remembers (nr_segments e) (fst (snd G)) (snd (snd G)) pm"
proof
  fix e and G :: ghost and ev
  assume r: "run_inv e G" and al: "allowed ev e (fst G)"
  obtain H snap W where G: "G = (H, snap, W)" by (cases G) auto
  obtain e' H' snap' W' where "perform ev (start_op e) = Some e'" "observe ev e (H, snap, W) = (H', snap', W')"
    "run_inv e' (H', snap', W')"
    "crash_safe (\<lambda>pm. remembers (nr_segments e) snap W pm \<or> remembers (nr_segments e) snap' W' pm) (nv (eimg e'))"
    by (rule perform_ok [of e H snap W ev]) (use r al G in auto)
  then show "\<exists>e'. perform ev (start_op e) = Some e' \<and> run_inv e' (observe ev e G) \<and>
      (\<forall>pm \<in> crash_images (nv (eimg e')). remembers (nr_segments e) (fst (snd G)) (snd (snd G)) pm \<or>
         remembers (nr_segments e) (fst (snd (observe ev e G))) (snd (snd (observe ev e G))) pm)"
    by (auto simp: G crash_safe_def)
qed

lemma fresh_good: "fresh e0 \<Longrightarrow> run_inv e0 ({}, (\<lambda>_. 0), {})"
  unfolding fresh_def run_inv_def prod.case
  using create_engine_inv(1,3) by blast

lemma reach_inv:
  assumes "reach e0 e G" and "fresh e0"
  shows "run_inv e G"
  using nvm_inst.runs_good [OF assms(1) [unfolded reach_def] fresh_good [OF assms(2)]] .

subsection \<open>Crash consistency\<close>

lemma remembers_restart:
  assumes "remembers ns snap W pm"
  obtains im where "restart SS_Back pm = Some im"
    "\<And>x. x < ns * kSegmentSize \<Longrightarrow> x div kSegmentSize \<in> W \<Longrightarrow> rd im (MainB x) = snap x"
  using stands_for_restart [OF assms [unfolded remembers_def]] by blast

lemma crash_consistency:
  assumes f: "fresh e0" and r: "reach e0 e (H, snap, W)" and al: "allowed ev e H"
    and p: "perform ev (start_op e) = Some e'" and o: "observe ev e (H, snap, W) = (H', snap', W')"
    and pm: "pm \<in> crash_images (nv (eimg e'))"
  obtains im where "restart SS_Back pm = Some im"
    "(\<forall>x < nr_segments e * kSegmentSize. x div kSegmentSize \<in> W \<longrightarrow> rd im (MainB x) = snap x) \<or>
     (\<forall>x < nr_segments e * kSegmentSize. x div kSegmentSize \<in> W' \<longrightarrow> rd im (MainB x) = snap' x)"
proof -
  have "remembers (nr_segments e) snap W pm \<or> remembers (nr_segments e) snap' W' pm"
    using nvm_inst.crash_recovers [OF fresh_good [OF f] r [unfolded reach_def] _ p pm] al o by simp
  then show ?thesis
  proof
    assume "remembers (nr_segments e) snap W pm"
    then show ?thesis by (rule remembers_restart) (use that in blast)
  next
    assume "remembers (nr_segments e) snap' W' pm"
    then show ?thesis by (rule remembers_restart) (use that in blast)
  qed
qed

text \<open>A pool of 64 segments, for the concrete runs below.\<close>

definition demo_pool :: engine where
  "demo_pool = the (create_engine 134217728 64 0 (nv_init (\<lambda>_. 0)))"

lemma round_demo: "round_capacity 134217728 div kSegmentSize = 64"
  unfolding round_capacity_def Let_def geometry by simp

lemma demo_create: "create_engine 134217728 64 0 (nv_init (\<lambda>_. 0)) = Some demo_pool"
  by (simp add: demo_pool_def create_engine_def new_engine_def Let_def round_demo bs_allocate_def bs_new_def)

lemma demo_fresh: "fresh demo_pool"
  unfolding fresh_def
  by (rule exI [of _ 134217728], rule exI [of _ 0], rule exI [of _ "\<lambda>_. 0"], rule exI [of _ 64])
    (simp add: round_demo demo_create, simp add: geometry)

lemma demo_fields: "nr_segments demo_pool = 64" "address_first demo_pool = 0" "capacity demo_pool = 134217728"
proof -
  note c = create_engine_inv [OF round_demo [symmetric] _ _ _ demo_create]
  show "nr_segments demo_pool = 64" "address_first demo_pool = 0" "capacity demo_pool = 134217728"
    using c(2-4) by (simp_all add: geometry)
qed

text \<open>The program hooks offset 5, stores 7 there and takes a checkpoint.\<close>

lemma demo_run:
  obtains e1 e2 e3 where "perform (Hook 0 5) (start_op demo_pool) = Some e1"
    "perform (Write 5 7) (start_op e1) = Some e2" "perform (Checkpoint 0 1) (start_op e2) = Some e3"
    "reach demo_pool e3 ({}, new_snap e2, {0})" "new_snap e2 5 = 7" "nr_segments e3 = 64"
proof -
  have r0: "reach demo_pool demo_pool ({}, \<lambda>_. 0, {})" by (rule reach_start)
  have h: "observe (Hook 0 5) demo_pool ({}, \<lambda>_. 0, {}) = ({0}, \<lambda>_. 0, {})"
    by (simp add: in_range_def block_of_def demo_fields geometry)
  have i0: "run_inv demo_pool ({}, \<lambda>_. 0, {})" by (rule reach_inv [OF r0 demo_fresh])
  obtain e1 where e1: "perform (Hook 0 5) (start_op demo_pool) = Some e1" "nr_segments e1 = nr_segments demo_pool"
    by (rule perform_ok [OF i0, of "Hook 0 5"]) (auto simp: geometry)
  have r1: "reach demo_pool e1 ({0}, \<lambda>_. 0, {})"
    using reach_step [OF r0 _ e1(1)] h by (simp add: geometry)
  define e2 where "e2 = store_byte 5 7 (start_op e1)"
  have e2: "perform (Write 5 7) (start_op e1) = Some e2" by (simp add: e2_def)
  have r2: "reach demo_pool e2 ({0}, \<lambda>_. 0, {})"
    using reach_step [OF r1 _ e2] by (simp add: geometry)
  obtain e3 where e3: "perform (Checkpoint 0 1) (start_op e2) = Some e3" "nr_segments e3 = nr_segments e2"
    by (rule perform_ok [OF reach_inv [OF r2 demo_fresh], of "Checkpoint 0 1"]) (auto simp: geometry)
  have "reach demo_pool e3 ({}, new_snap e2, {0})"
    using reach_step [OF r2 _ e3(1)] by (simp add: geometry seg_def)
  moreover have "new_snap e2 5 = 7" by (simp add: e2_def new_snap_def store_byte_def map_nv_def rd_def)
  moreover have "nr_segments e3 = 64" using e3(2) e1(2) by (simp add: e2_def store_byte_def map_nv_def demo_fields)
  ultimately show ?thesis using e1(1) e2 e3(1) that by blast
qed


lemma reach_visible:
  assumes "reach e0 e G" and "fresh e0"
  shows "visible (nv (eimg e))"
  using reach_inv [OF assms] inv_base(13) by (cases G) (auto simp: run_inv_def)






text \<open>
  The range hook tracks exactly the blocks that hold a byte of the range, in increasing
  order, whatever the alignment of its ends.
\<close>

lemma hook_routine_range_exact:
  assumes "0 < len" and "address_first e \<le> addr"
  shows "\<exists>bs. hook_routine_range tid addr len e = fold (track_block tid) bs e \<and> sorted bs \<and> distinct bs \<and>
    set bs = (\<lambda>a. (a - address_first e) div kBlockSize) ` {addr..<addr + len}"
proof -
  define d where "d = addr - address_first e"
  define bs where "bs = [d div kBlockSize..<(d + len + (kBlockSize - 1)) div kBlockSize]"
  have "set bs = (\<lambda>x. x div kBlockSize) ` {d..<d + len}" unfolding bs_def by (rule range_blocks [OF assms(1)])
  also have "{d..<d + len} = (\<lambda>a. a - address_first e) ` {addr..<addr + len}"
    unfolding d_def by (rule offset_range [OF assms(2), symmetric])
  finally have "set bs = (\<lambda>a. (a - address_first e) div kBlockSize) ` {addr..<addr + len}"
    by (simp add: image_image)
  moreover have "hook_routine_range tid addr len e = fold (track_block tid) bs e"
    by (simp add: hook_routine_range_blocks d_def bs_def Let_def)
  ultimately show ?thesis by (intro exI [of _ bs]) (simp add: bs_def)
qed

end
