(* ===== verification/Hybrid.thy ===== *)
theory Hybrid
  imports Image_Crash
begin

text \<open>
  \<^verbatim>\<open>HybridInstEngine\<close> (\<^verbatim>\<open>runtime/src/engines/hybrid_inst_engine.cpp\<close>): the
  engine that keeps the working memory in DRAM and writes the dirty blocks of a checkpoint to the
  main and to the back memory in turns, by the parity of an epoch of its own. Built with
  \<^verbatim>\<open>USE_SYNCHRONOUS_CHECKPOINT\<close>, as the source has it: no write-back thread, and the
  other side is brought up to date inside the checkpoints. The threads of a phase run one after
  the other; \<open>None\<close> is the process having called \<^verbatim>\<open>exit\<close>. The names are those of the
  source, as in \<open>NvmInst\<close>, which this theory does not use.
\<close>

subsection \<open>State\<close>

datatype flush_mode = FMODE_NO_ACTION | FMODE_USE_FLUSH_BLOCKS | FMODE_WBINVD

datatype write_back_state = WB_STARTING | WB_RUNNING | WB_EXITING | WB_IDLE

text \<open>
  \<open>work\<close> is \<^verbatim>\<open>working_memory\<close> by offsets; \<open>segment_dirty p\<close> and
  \<open>block_dirty p\<close> are the bit sets of epoch parity \<open>p\<close>.
\<close>

record engine =
  eimg :: image
  work :: "nat \<Rightarrow> nat"
  nr_segments :: nat
  nr_blocks :: nat
  capacity :: nat
  address_first :: nat
  has_snapshot :: bool
  segment_dirty :: "nat \<Rightarrow> bitset"
  block_dirty :: "nat \<Rightarrow> bitset"
  wb_state :: write_back_state
  checkpoint_in_progress :: bool
  flush_blocks :: "nat \<Rightarrow> nat list"
  mode :: flush_mode
  prev_mode :: flush_mode
  next_back :: nat
  epoch :: nat
  address_buffer :: "nat \<Rightarrow> nat list"

definition map_img :: "(image \<Rightarrow> image) \<Rightarrow> engine \<Rightarrow> engine" where
  "map_img f e = e\<lparr>eimg := f (eimg e)\<rparr>"

definition map_nv :: "(imem \<Rightarrow> imem) \<Rightarrow> engine \<Rightarrow> engine" where
  "map_nv f e = map_img (nv_upd f) e"

subsection \<open>Opening\<close>

definition round_capacity :: "nat \<Rightarrow> nat" where
  "round_capacity c0 =
     (let c = max c0 kMinContainerSize in
      if c mod kSegmentSize \<noteq> 0 then c - c mod kSegmentSize + kSegmentSize else c)"

text \<open>
  \<open>mode0\<close> is what \<^verbatim>\<open>flush_mode\<close> happens to hold: the constructor leaves it, and
  \<^verbatim>\<open>prev_flush_mode\<close>, uninitialised. The working memory is fresh, that is zero.
\<close>

definition new_engine :: "flush_mode \<Rightarrow> image \<Rightarrow> nat \<Rightarrow> nat \<Rightarrow> nat \<Rightarrow> nat \<Rightarrow> engine option" where
  "new_engine mode0 im ns nblk cap base =
     (case (bs_allocate ns bs_new, bs_allocate nblk bs_new) of
        (Some sd, Some bd) \<Rightarrow> Some
          \<lparr>eimg = im, work = (\<lambda>_. 0), nr_segments = ns, nr_blocks = nblk, capacity = cap, address_first = base,
           has_snapshot = False, segment_dirty = (\<lambda>_. sd), block_dirty = (\<lambda>_. bd), wb_state = WB_IDLE,
           checkpoint_in_progress = False, flush_blocks = (\<lambda>_. []), mode = mode0, prev_mode = mode0,
           next_back = 0, epoch = 1, address_buffer = (\<lambda>_. [])\<rparr>
      | _ \<Rightarrow> None)"

definition create_engine :: "flush_mode \<Rightarrow> nat \<Rightarrow> nat \<Rightarrow> nat \<Rightarrow> imem \<Rightarrow> engine option" where
  "create_engine mode0 user_capacity nbs base m =
     (let cap = round_capacity user_capacity; ns = cap div kSegmentSize
      in new_engine mode0 (Open_initialize ns nbs m) ns (cap div kBlockSize) cap base)"

definition exist_snapshot :: "image \<Rightarrow> bool" where
  "exist_snapshot im = bit (get_attributes im) (4 :: nat)"

text \<open>The copy of one segment into the working memory; write elimination makes no difference in DRAM.\<close>

definition load_segment :: "nat \<Rightarrow> engine \<Rightarrow> engine" where
  "load_segment s e =
     (if get_segment_state (eimg e) s \<noteq> SS_Initial
      then e\<lparr>work := (\<lambda>x. if get_main_segment s \<le> x \<and> x < get_main_segment s + kSegmentSize
                        then rd (eimg e) (MainB x) else work e x)\<rparr>
      else e)"

definition prepare_working_memory :: "engine \<Rightarrow> engine" where
  "prepare_working_memory e = fold load_segment [0..<nr_segments e] e"

definition open_engine :: "flush_mode \<Rightarrow> nat \<Rightarrow> imem \<Rightarrow> engine option" where
  "open_engine mode0 base m =
     (case Open_existing m of None \<Rightarrow> None
      | Some im0 \<Rightarrow>
          (let ns = get_nr_main_segments im0 in
           case new_engine mode0 im0 ns (ns * kBlocksPerSegment) (ns * kSegmentSize) base of None \<Rightarrow> None
           | Some e0 \<Rightarrow>
               (case recovery SS_Main im0 of None \<Rightarrow> None
                | Some im \<Rightarrow>
                    (let e1 = prepare_working_memory (e0\<lparr>eimg := im\<rparr>)
                     in Some (e1\<lparr>has_snapshot := exist_snapshot (eimg e1)\<rparr>)))))"

text \<open>\<^verbatim>\<open>create\<close> says that a new pool is made; the number of back segments comes from the options.\<close>

definition Open :: "bool \<Rightarrow> flush_mode \<Rightarrow> nat \<Rightarrow> nat \<Rightarrow> nat \<Rightarrow> imem \<Rightarrow> engine option" where
  "Open create mode0 user_capacity nbs base m =
     (if create then create_engine mode0 user_capacity nbs base m else open_engine mode0 base m)"

subsection \<open>Back segments\<close>

definition advance_next_back_segment :: "engine \<Rightarrow> engine" where
  "advance_next_back_segment e = e\<lparr>next_back := (next_back e + 1) mod get_nr_back_segments (eimg e)\<rparr>"

definition bind_next :: "nat \<Rightarrow> engine \<Rightarrow> engine" where
  "bind_next segment_id e = advance_next_back_segment (map_img (bind_back_segment segment_id (next_back e)) e)"

text \<open>The search loop; the first argument is \<^verbatim>\<open>kNumBackSegments - loop_count\<close>.\<close>

fun allocate_loop :: "nat \<Rightarrow> nat \<Rightarrow> engine \<Rightarrow> engine" where
  "allocate_loop 0 segment_id e = e"
| "allocate_loop (Suc n) segment_id e =
     (let main_segment = get_back_to_main (eimg e) (next_back e) in
      if main_segment = kNullSegmentIndex then bind_next segment_id e
      else if bs_test main_segment (segment_dirty e (epoch e))
      then allocate_loop n segment_id (advance_next_back_segment e)
      else bind_next segment_id e)"

definition allocate_back_segment :: "nat \<Rightarrow> engine \<Rightarrow> engine" where
  "allocate_back_segment segment_id e = allocate_loop (get_nr_back_segments (eimg e)) segment_id e"

definition find_back_segment :: "nat \<Rightarrow> engine \<Rightarrow> (nat \<times> bool \<times> engine) option" where
  "find_back_segment segment_id e =
     (let b = get_main_to_back (eimg e) segment_id in
      if b \<noteq> kNullSegmentIndex then Some (b, False, e)
      else let e1 = allocate_back_segment segment_id e;
               b1 = get_main_to_back (eimg e1) segment_id
           in if b1 = kNullSegmentIndex then None else Some (b1, True, e1))"

definition find_back_block :: "nat \<Rightarrow> engine \<Rightarrow> (nat \<times> bool \<times> engine) option" where
  "find_back_block block_id e =
     (case find_back_segment (block_id div kBlocksPerSegment) e of None \<Rightarrow> None
      | Some (b, created, e1) \<Rightarrow> Some (b * kBlocksPerSegment + block_id mod kBlocksPerSegment, created, e1))"

subsection \<open>Dirty tracking\<close>

definition record_block :: "nat \<Rightarrow> nat \<Rightarrow> engine \<Rightarrow> engine" where
  "record_block tid block_id e =
     (let e1 = e\<lparr>block_dirty := (block_dirty e)(epoch e := bs_set block_id (block_dirty e (epoch e)))\<rparr> in
      if length (flush_blocks e1 tid) \<noteq> kMaxFlushBlocks
      then e1\<lparr>flush_blocks := (flush_blocks e1)(tid := flush_blocks e1 tid @ [block_id])\<rparr>
      else e1)"

definition mark_segment :: "nat \<Rightarrow> engine \<Rightarrow> engine" where
  "mark_segment segment_id e =
     (if bs_test segment_id (segment_dirty e (epoch e)) then e
      else e\<lparr>segment_dirty := (segment_dirty e)(epoch e := bs_set segment_id (segment_dirty e (epoch e)))\<rparr>)"

definition hook_routine :: "nat \<Rightarrow> nat \<Rightarrow> engine \<Rightarrow> engine" where
  "hook_routine tid addr e =
     (let delta = addr - address_first e; block_id = delta div kBlockSize in
      if bs_test block_id (block_dirty e (epoch e)) then e
      else mark_segment (delta div kSegmentSize) (record_block tid block_id e))"

text \<open>
  The loop of the range hook, from \<open>delta\<close> to \<open>stop\<close>; \<open>last_seg\<close> is
  \<^verbatim>\<open>last_segment_id\<close>, \<open>None\<close> its initial \<^verbatim>\<open>UINT64_MAX\<close>.
\<close>

function hook_loop :: "nat \<Rightarrow> nat option \<Rightarrow> nat \<Rightarrow> nat \<Rightarrow> engine \<Rightarrow> engine" where
  "hook_loop tid last_seg delta stop e =
     (if delta < stop
      then let block_id = delta div kBlockSize; segment_id = delta div kSegmentSize in
        if bs_test block_id (block_dirty e (epoch e)) then hook_loop tid last_seg (delta + kBlockSize) stop e
        else let e1 = record_block tid block_id e in
          if Some segment_id \<noteq> last_seg
          then hook_loop tid (Some segment_id) (delta + kBlockSize) stop (mark_segment segment_id e1)
          else hook_loop tid last_seg (delta + kBlockSize) stop e1
      else e)"
  by pat_completeness auto
termination
  by (relation "measure (\<lambda>(tid, last_seg, delta, stop, e). stop - delta)") (auto simp: geometry)

declare hook_loop.simps [simp del]

definition hook_routine_range :: "nat \<Rightarrow> nat \<Rightarrow> nat \<Rightarrow> engine \<Rightarrow> engine" where
  "hook_routine_range tid addr len e =
     (let offset = addr - address_first e
      in hook_loop tid None (offset - offset mod kBlockSize) (offset + len) e)"

definition kNumBufferedAddresses :: nat where "kNumBufferedAddresses = 504"

definition in_range :: "engine \<Rightarrow> nat \<Rightarrow> bool" where
  "in_range e addr \<longleftrightarrow> address_first e \<le> addr \<and> addr < address_first e + capacity e"

definition hook_buffered :: "nat \<Rightarrow> nat \<Rightarrow> engine \<Rightarrow> engine" where
  "hook_buffered tid addr e = (if in_range e addr then hook_routine tid addr e else e)"

definition address_buffer_clear :: "nat \<Rightarrow> nat \<Rightarrow> engine \<Rightarrow> engine" where
  "address_buffer_clear tid i e =
     (let e1 = fold (hook_buffered tid) (address_buffer e i) e
      in e1\<lparr>address_buffer := (address_buffer e1)(i := [])\<rparr>)"

definition address_buffer_clear_all :: "nat \<Rightarrow> engine \<Rightarrow> engine" where
  "address_buffer_clear_all tid e = fold (address_buffer_clear tid) [0..<kMaxThreads] e"

definition hook_rt_store :: "nat \<Rightarrow> nat \<Rightarrow> engine \<Rightarrow> engine" where
  "hook_rt_store tid addr e =
     (let e1 = e\<lparr>address_buffer := (address_buffer e)(tid := address_buffer e tid @ [addr])\<rparr>
      in if length (address_buffer e1 tid) = kNumBufferedAddresses then address_buffer_clear tid tid e1 else e1)"

definition hook_rt_range_store :: "nat \<Rightarrow> nat \<Rightarrow> nat \<Rightarrow> engine \<Rightarrow> engine" where
  "hook_rt_range_store tid addr len e =
     (if addr mod kBlockSize + len \<le> kBlockSize then hook_rt_store tid addr e
      else if in_range e addr then hook_routine_range tid addr len e
      else e)"

subsection \<open>Copies from the working memory\<close>

text \<open>\<^verbatim>\<open>NonTemporalCopy256\<close> and the copy with write elimination, from DRAM at offset \<open>src\<close>.\<close>

definition dram_copy :: "(iloc \<Rightarrow> nat option) \<Rightarrow> nat \<Rightarrow> nat \<Rightarrow> engine \<Rightarrow> engine" where
  "dram_copy at src len e = map_nv (nv_nt (\<lambda>l. case at l of
       Some i \<Rightarrow> if i < len then Some (work e (src + i)) else None
     | None \<Rightarrow> None)) e"

definition dram_line_differs :: "(nat \<Rightarrow> iloc) \<Rightarrow> nat \<Rightarrow> engine \<Rightarrow> nat \<Rightarrow> bool" where
  "dram_line_differs dst src e i =
     list_ex (\<lambda>k. rd (eimg e) (dst (i - i mod 64 + k)) \<noteq> work e (src + (i - i mod 64 + k))) [0..<64]"

definition dram_copy_eliminating :: "(iloc \<Rightarrow> nat option) \<Rightarrow> (nat \<Rightarrow> iloc) \<Rightarrow> nat \<Rightarrow> nat \<Rightarrow> engine \<Rightarrow> engine" where
  "dram_copy_eliminating at dst src len e = map_nv (nv_nt (\<lambda>l. case at l of
       Some i \<Rightarrow> if i < len \<and> dram_line_differs dst src e i then Some (work e (src + i)) else None
     | None \<Rightarrow> None)) e"

text \<open>The words the scans look at: two bit sets combined word by word.\<close>

definition bs_minus :: "bitset \<Rightarrow> bitset \<Rightarrow> bitset" where
  "bs_minus a b = a\<lparr>buf := (\<lambda>i. buf a i AND NOT (buf b i))\<rparr>"

definition bs_union :: "bitset \<Rightarrow> bitset \<Rightarrow> bitset" where
  "bs_union a b = a\<lparr>buf := (\<lambda>i. buf a i OR buf b i)\<rparr>"

text \<open>\<^verbatim>\<open>apply_nvm_to_nvm_parallel\<close>: the blocks of the previous checkpoint, to the other side.\<close>

definition update_block :: "nat \<Rightarrow> nat \<Rightarrow> nat \<Rightarrow> engine \<Rightarrow> engine" where
  "update_block main_id back_id block_id e =
     (let work_addr = get_main_block block_id;
          back_addr = get_back_segment back_id + (get_main_block block_id - get_main_segment main_id);
          main_addr = get_main_block block_id
      in if epoch e \<noteq> 0 then dram_copy_eliminating (back_at back_addr) (back_cell back_addr) work_addr kBlockSize e
         else dram_copy_eliminating (main_at main_addr) (main_cell main_addr) work_addr kBlockSize e)"

definition update_segment :: "nat \<Rightarrow> engine \<Rightarrow> engine" where
  "update_segment main_id e =
     (let p = 1 - epoch e in
      if \<not> bs_test main_id (segment_dirty e p) then e
      else
        let start_block_id = main_id * kBlocksPerSegment;
            stop_block_id = min (nr_blocks e) (start_block_id + kBlocksPerSegment);
            back_id = get_main_to_back (eimg e) main_id
        in if back_id = kNullSegmentIndex then e
           else fold (update_block main_id back_id)
                  (scan_range start_block_id stop_block_id (bs_minus (block_dirty e p) (block_dirty e (1 - p)))) e)"

definition apply_nvm_to_nvm_parallel :: "nat \<Rightarrow> nat \<Rightarrow> engine \<Rightarrow> engine" where
  "apply_nvm_to_nvm_parallel n tid e = fold update_segment (share n tid (nr_segments e)) e"

text \<open>\<^verbatim>\<open>apply_dram_to_back_parallel\<close>.\<close>

definition work_to_back :: "nat \<Rightarrow> nat \<Rightarrow> nat \<Rightarrow> engine \<Rightarrow> engine" where
  "work_to_back back_addr work_addr len e = dram_copy (back_at back_addr) work_addr len e"

definition work_to_main :: "nat \<Rightarrow> nat \<Rightarrow> nat \<Rightarrow> engine \<Rightarrow> engine" where
  "work_to_main main_addr work_addr len e = dram_copy (main_at main_addr) work_addr len e"

definition back_from_work_segment :: "nat \<Rightarrow> engine \<Rightarrow> engine option" where
  "back_from_work_segment main_id e =
     (if \<not> bs_test main_id (segment_dirty e (epoch e)) then Some e
      else case find_back_segment main_id e of None \<Rightarrow> None
      | Some (back_id, created, e1) \<Rightarrow>
          let start_block_id = main_id * kBlocksPerSegment;
              stop_block_id = min (nr_blocks e1) (start_block_id + kBlocksPerSegment)
          in Some (if created \<and> get_segment_state (eimg e1) main_id \<noteq> SS_Initial
             then work_to_back (get_back_segment back_id) (get_main_segment main_id) kSegmentSize e1
             else fold (\<lambda>b. work_to_back (get_back_segment back_id + (get_main_block b - get_main_segment main_id))
                             (get_main_block b) kBlockSize)
                    (scan_range start_block_id stop_block_id (block_dirty e1 (epoch e1))) e1))"

definition back_from_work_block :: "nat \<Rightarrow> engine \<Rightarrow> engine option" where
  "back_from_work_block block_id e =
     (case find_back_block block_id e of None \<Rightarrow> None
      | Some (back_block_id, created, e1) \<Rightarrow>
          let main_id = block_id div kBlocksPerSegment in
          Some (if created \<and> get_segment_state (eimg e1) main_id \<noteq> SS_Initial
                then work_to_back (get_back_segment (back_block_id div kBlocksPerSegment)) (get_main_segment main_id) kSegmentSize e1
                else work_to_back (get_back_block back_block_id) (get_main_block block_id) kBlockSize e1))"

definition apply_dram_to_back_parallel :: "nat \<Rightarrow> nat \<Rightarrow> engine \<Rightarrow> engine option" where
  "apply_dram_to_back_parallel n tid e =
     map_option (map_nv nv_fence)
       (if mode e = FMODE_WBINVD then foldM back_from_work_segment (share n tid (nr_segments e)) e
        else if tid = 0 then foldM (\<lambda>id e. foldM back_from_work_block (flush_blocks e id) e) [0..<kMaxThreads] e
        else Some e)"

text \<open>
  \<^verbatim>\<open>apply_dram_to_main_parallel\<close>. A segment in state \<^verbatim>\<open>SS_Main\<close> without a
  back segment gets one; the copy that follows goes from the new back segment to the main segment.
\<close>

definition reserve_back :: "nat \<Rightarrow> engine \<Rightarrow> engine option" where
  "reserve_back main_id e =
     (if get_segment_state (eimg e) main_id = SS_Main
      then case find_back_segment main_id e of None \<Rightarrow> None
        | Some (back_id, created, e1) \<Rightarrow>
            Some (if created
              then map_img (set_segment_state_atomic main_id SS_Back)
                     (map_nv (NonTemporalCopy (main_at (get_main_segment main_id)) (back_cell (get_back_segment back_id)) kSegmentSize) e1)
              else e1)
      else Some e)"

definition main_from_work_segment :: "nat \<Rightarrow> engine \<Rightarrow> engine option" where
  "main_from_work_segment main_id e =
     (if \<not> bs_test main_id (segment_dirty e (epoch e)) then Some e
      else case reserve_back main_id e of None \<Rightarrow> None
      | Some e1 \<Rightarrow>
          let start_block_id = main_id * kBlocksPerSegment;
              stop_block_id = min (nr_blocks e1) (start_block_id + kBlocksPerSegment)
          in Some (fold (\<lambda>b. work_to_main (get_main_block b) (get_main_block b) kBlockSize)
                     (scan_range start_block_id stop_block_id (block_dirty e1 (epoch e1))) e1))"

definition main_from_work_block :: "nat \<Rightarrow> engine \<Rightarrow> engine option" where
  "main_from_work_block block_id e =
     (case reserve_back (block_id div kBlocksPerSegment) e of None \<Rightarrow> None
      | Some e1 \<Rightarrow> Some (work_to_main (get_main_block block_id) (get_main_block block_id) kBlockSize e1))"

definition apply_dram_to_main_parallel :: "nat \<Rightarrow> nat \<Rightarrow> engine \<Rightarrow> engine option" where
  "apply_dram_to_main_parallel n tid e =
     map_option (map_nv nv_fence)
       (if mode e = FMODE_WBINVD then foldM main_from_work_segment (share n tid (nr_segments e)) e
        else foldM (\<lambda>id e. foldM main_from_work_block (flush_blocks e id) e) (share n tid kMaxThreads) e)"

subsection \<open>Checkpoint\<close>

definition count_blocks :: "nat \<Rightarrow> nat \<times> bool \<times> bool \<Rightarrow> nat \<times> bool \<times> bool" where
  "count_blocks n = (\<lambda>(total, all_empty, has_full).
     (let total' = total + n in (total', all_empty \<and> n = 0, has_full \<or> total' \<ge> kMaxFlushBlocks)))"

definition determine_flush_mode :: "engine \<Rightarrow> engine" where
  "determine_flush_mode e =
     (let (total, all_empty, has_full) =
            fold count_blocks (map (\<lambda>i. length (flush_blocks e i)) [0..<kMaxThreads]) (0, True, False)
      in e\<lparr>prev_mode := mode e,
           mode := if all_empty then FMODE_NO_ACTION else if has_full then FMODE_WBINVD else FMODE_USE_FLUSH_BLOCKS\<rparr>)"

definition layout_segments :: "engine \<Rightarrow> nat list" where
  "layout_segments e = scan_range 0 (nr_segments e) (bs_union (segment_dirty e (epoch e)) (segment_dirty e (1 - epoch e)))"

definition set_state_e :: "nat \<Rightarrow> nat \<Rightarrow> engine \<Rightarrow> engine option" where
  "set_state_e st s e = map_option (\<lambda>im. e\<lparr>eimg := im\<rparr>) (set_segment_state s st (eimg e))"

definition commit_layout_state :: "nat \<Rightarrow> engine \<Rightarrow> engine option" where
  "commit_layout_state st e =
     map_option (map_img commit_segment_state_update)
       (foldM (set_state_e st) (layout_segments e) (map_img begin_segment_state_update e))"

definition clear_segment_bits :: "nat \<Rightarrow> engine \<Rightarrow> engine" where
  "clear_segment_bits s e =
     (let p = 1 - epoch e in
      if \<not> bs_test s (segment_dirty e p) then e
      else
        let start_block_id = s * kBlocksPerSegment;
            stop_block_id = min (nr_blocks e) (start_block_id + kBlocksPerSegment)
        in e\<lparr>block_dirty := (block_dirty e)(p := bs_clear_region start_block_id stop_block_id (block_dirty e p)),
             segment_dirty := (segment_dirty e)(p := bs_clear s (segment_dirty e p))\<rparr>)"

definition clear_dirty_bits_last_epoch :: "engine \<Rightarrow> engine" where
  "clear_dirty_bits_last_epoch e = fold clear_segment_bits [0..<nr_segments e] e"

definition note_snapshot :: "engine \<Rightarrow> engine" where
  "note_snapshot e = (if has_snapshot e then e
     else (map_img (set_attributes kAttributeHasSnapshot) e)\<lparr>has_snapshot := True\<rparr>)"

definition finish_checkpoint :: "engine \<Rightarrow> engine" where
  "finish_checkpoint e = e\<lparr>flush_blocks := (\<lambda>_. []), checkpoint_in_progress := False, epoch := 1 - epoch e\<rparr>"

definition target_state :: "engine \<Rightarrow> nat" where
  "target_state e = (if epoch e \<noteq> 0 then SS_Back else SS_Main)"

text \<open>One thread before the barrier: the blocks of the last epoch, then those of this one.\<close>

definition first_phase :: "nat \<Rightarrow> nat \<Rightarrow> engine \<Rightarrow> engine option" where
  "first_phase n tid e =
     (let e1 = (if prev_mode e = FMODE_WBINVD then apply_nvm_to_nvm_parallel n tid e else e)
      in if epoch e1 \<noteq> 0 then apply_dram_to_back_parallel n tid e1 else apply_dram_to_main_parallel n tid e1)"

definition second_phase :: "nat \<Rightarrow> nat \<Rightarrow> engine \<Rightarrow> engine option" where
  "second_phase n tid e =
     (if epoch e \<noteq> 0 then apply_dram_to_main_parallel n tid e else apply_dram_to_back_parallel n tid e)"

definition checkpoint_wbinvd :: "engine \<Rightarrow> engine option" where
  "checkpoint_wbinvd e =
     map_option (\<lambda>e1. finish_checkpoint ((note_snapshot (clear_dirty_bits_last_epoch e1))\<lparr>wb_state := WB_STARTING\<rparr>))
       (commit_layout_state (target_state e) e)"

definition checkpoint_flush_blocks :: "nat \<Rightarrow> engine \<Rightarrow> engine option" where
  "checkpoint_flush_blocks n e =
     (case commit_layout_state (target_state e) e of None \<Rightarrow> None
      | Some e1 \<Rightarrow> map_option (\<lambda>e2. finish_checkpoint (note_snapshot (clear_dirty_bits_last_epoch e2)))
                     (foldM (second_phase n) [0..<n] e1))"

text \<open>The leader before the latch, and all threads up to the barrier after the copies.\<close>

definition begin_checkpoint :: "nat \<Rightarrow> engine \<Rightarrow> engine" where
  "begin_checkpoint leader e = determine_flush_mode (address_buffer_clear_all leader e)"

definition flushed :: "nat \<Rightarrow> engine \<Rightarrow> engine option" where
  "flushed n e = foldM (first_phase n) [0..<n] (e\<lparr>checkpoint_in_progress := True\<rparr>)"

definition checkpoint :: "nat \<Rightarrow> nat \<Rightarrow> engine \<Rightarrow> engine option" where
  "checkpoint leader n e =
     (let e1 = begin_checkpoint leader e in
      if mode e1 = FMODE_NO_ACTION then Some e1
      else case flushed n e1 of None \<Rightarrow> None
        | Some e2 \<Rightarrow> if mode e2 = FMODE_WBINVD then checkpoint_wbinvd e2 else checkpoint_flush_blocks n e2)"

definition get_address :: "engine \<Rightarrow> nat \<Rightarrow> nat" where "get_address e offset = address_first e + offset"

definition get_capacity :: "engine \<Rightarrow> nat" where "get_capacity e = capacity e"

end
