(* ===== verification/Hybrid_Phases.thy ===== *)
theory Hybrid_Phases
  imports Hybrid
begin

text \<open>
  The copies of a checkpoint of \<^verbatim>\<open>HybridInstEngine\<close>, each phase as one change of one
  side of the image: the blocks of a set receive the bytes of the working memory, everything else
  stays. The lemmas are for an image in which back segment \<open>s\<close> is bound to main segment \<open>s\<close>.
\<close>

definition with_nv :: "imem \<Rightarrow> engine \<Rightarrow> engine" where
  "with_nv m e = map_nv (\<lambda>_. m) e"

lemma h_with_nv_simps [simp]:
  "nv (eimg (with_nv m e)) = m" "with_nv m (with_nv m' e) = with_nv m e"
  "main_to_back (eimg (with_nv m e)) = main_to_back (eimg e)"
  "segment_state_dirty (eimg (with_nv m e)) = segment_state_dirty (eimg e)"
  "work (with_nv m e) = work e" "nr_segments (with_nv m e) = nr_segments e" "nr_blocks (with_nv m e) = nr_blocks e"
  "capacity (with_nv m e) = capacity e" "address_first (with_nv m e) = address_first e"
  "has_snapshot (with_nv m e) = has_snapshot e" "segment_dirty (with_nv m e) = segment_dirty e"
  "block_dirty (with_nv m e) = block_dirty e" "flush_blocks (with_nv m e) = flush_blocks e"
  "mode (with_nv m e) = mode e" "prev_mode (with_nv m e) = prev_mode e" "epoch (with_nv m e) = epoch e"
  "address_buffer (with_nv m e) = address_buffer e"
  by (simp_all add: with_nv_def map_nv_def map_img_def nv_upd_def)

lemma h_map_nv_with: "map_nv f e = with_nv (f (nv (eimg e))) e"
  by (simp add: with_nv_def map_nv_def map_img_def nv_upd_def)

lemma h_with_nv_id: "with_nv (nv (eimg e)) e = e"
  by (simp add: with_nv_def map_nv_def map_img_def nv_upd_def)

lemma eimg_with_nv: "eimg (with_nv m e) = (eimg e)\<lparr>nv := m\<rparr>"
  by (simp add: with_nv_def map_nv_def map_img_def nv_upd_def)

subsection \<open>Writes to one side\<close>

text \<open>The cells of side \<open>p\<close>, the back memory for odd epochs; the blocks in \<open>K\<close> with their new bytes.\<close>

fun side_cell :: "nat \<Rightarrow> nat \<Rightarrow> iloc" where
  "side_cell p x = (if p = 0 then MainB x else BackB x)"

fun side_map :: "nat \<Rightarrow> (nat \<Rightarrow> nat) \<Rightarrow> (nat \<Rightarrow> bool) \<Rightarrow> iloc \<rightharpoonup> nat" where
  "side_map p W K (MainB x) = (if p = 0 \<and> K (x div kBlockSize) then Some (W x) else None)"
| "side_map p W K (BackB x) = (if p \<noteq> 0 \<and> K (x div kBlockSize) then Some (W x) else None)"
| "side_map p W K _ = None"

lemma side_map_none [simp]: "side_map p W (\<lambda>_. False) l = None"
  by (cases l) auto

lemma side_map_header: "\<not> is_data_cell l \<Longrightarrow> side_map p W K l = None"
  by (cases l) auto

lemma side_map_Some: "side_map p W K l = Some v \<longleftrightarrow> (\<exists>x. l = side_cell p x \<and> K (x div kBlockSize) \<and> v = W x)"
  by (cases l) auto

text \<open>
  \<open>overwrites V m m'\<close>: the cells of \<open>V\<close> have received their values, with fences in
  between or not; whatever sets confine the old cells and the new values confine every crash point.
\<close>

definition overwrites :: "('l \<rightharpoonup> 'v) \<Rightarrow> ('l, 'v) nvm \<Rightarrow> ('l, 'v) nvm \<Rightarrow> bool" where
  "overwrites V m m' \<longleftrightarrow>
     (\<forall>l. cur m' l = (case V l of Some v \<Rightarrow> v | None \<Rightarrow> cur m l)) \<and>
     (\<forall>l. settled m l \<longrightarrow> settled m' l) \<and> (visible m \<longrightarrow> visible m') \<and>
     (\<forall>D. confined D m \<and> (\<forall>l v. V l = Some v \<longrightarrow> v \<in> D l) \<longrightarrow> confined D m' \<and> grows D m m')"

lemma overwritesD:
  assumes "overwrites V m m'"
  shows "cur m' l = (case V l of Some v \<Rightarrow> v | None \<Rightarrow> cur m l)"
    and "settled m l \<Longrightarrow> settled m' l" and "visible m \<Longrightarrow> visible m'"
    and "confined D m \<Longrightarrow> (\<And>l v. V l = Some v \<Longrightarrow> v \<in> D l) \<Longrightarrow> confined D m' \<and> grows D m m'"
  using assms by (auto simp: overwrites_def)

lemma overwrites_sub:
  assumes "\<And>l v. V' l = Some v \<Longrightarrow> V l = Some v" and "\<And>l v. V l = Some v \<Longrightarrow> V' l = None \<Longrightarrow> cur m l = v"
  shows "overwrites V m (nv_nt V' m)"
  unfolding overwrites_def
proof (intro conjI allI impI)
  show "cur (nv_nt V' m) l = (case V l of Some v \<Rightarrow> v | None \<Rightarrow> cur m l)" for l
    using assms [of l] by (cases "V' l"; cases "V l") auto
  show "settled (nv_nt V' m) l" if "settled m l" for l using that by (cases "V' l") auto
  show "visible (nv_nt V' m)" if "visible m" using that by simp
  show "confined D (nv_nt V' m)" if "confined D m \<and> (\<forall>l v. V l = Some v \<longrightarrow> v \<in> D l)" for D
    using that assms(1) by (intro confined_ops) auto
  show "grows D m (nv_nt V' m)" for D by (rule grows_ops)
qed

lemma overwrites_fence: "(\<And>l. V l = None) \<Longrightarrow> overwrites V m (nv_fence m)"
  by (auto simp: overwrites_def confined_ops grows_ops)

lemma overwrites_refl: "(\<And>l. V l = None) \<Longrightarrow> overwrites V m m"
  by (auto simp: overwrites_def grows_ops)

lemma overwrites_trans:
  assumes 1: "overwrites V m m1" and 2: "overwrites V' m1 m2"
    and c: "\<And>l a b. V l = Some a \<Longrightarrow> V' l = Some b \<Longrightarrow> a = b"
  shows "overwrites (V ++ V') m m2"
  unfolding overwrites_def
proof (intro conjI allI impI)
  show "cur m2 l = (case (V ++ V') l of Some v \<Rightarrow> v | None \<Rightarrow> cur m l)" for l
    using overwritesD(1) [OF 1, of l] overwritesD(1) [OF 2, of l] by (cases "V' l") (auto simp: map_add_def)
  show "settled m2 l" if "settled m l" for l using overwritesD(2) [OF 2 overwritesD(2) [OF 1 that]] .
  show "visible m2" if "visible m" using overwritesD(3) [OF 2 overwritesD(3) [OF 1 that]] .
  fix D assume D: "confined D m \<and> (\<forall>l v. (V ++ V') l = Some v \<longrightarrow> v \<in> D l)"
  have K': "V' l = Some v \<Longrightarrow> v \<in> D l" for l v using D by (auto simp: map_add_def)
  have K: "V l = Some v \<Longrightarrow> v \<in> D l" for l v
    using D c [of l v] K' by (cases "V' l") (auto simp: map_add_def)
  have a: "confined D m1 \<and> grows D m m1" by (rule overwritesD(4) [OF 1]) (use D K in auto)
  have b: "confined D m2 \<and> grows D m1 m2" by (rule overwritesD(4) [OF 2]) (use a K' in auto)
  show "confined D m2" "grows D m m2" using a b grows_trans by blast+
qed

abbreviation writes :: "nat \<Rightarrow> (nat \<Rightarrow> nat) \<Rightarrow> (nat \<Rightarrow> bool) \<Rightarrow> imem \<Rightarrow> imem \<Rightarrow> bool" where
  "writes p W K \<equiv> overwrites (side_map p W K)"

lemma writes_refl: "writes p W (\<lambda>_. False) m m"
  by (rule overwrites_refl) simp

lemma writes_trans:
  assumes "writes p W K m m1" and "writes p W K' m1 m2"
  shows "writes p W (\<lambda>k. K k \<or> K' k) m m2"
proof -
  have "side_map p W K ++ side_map p W K' = side_map p W (\<lambda>k. K k \<or> K' k)"
  proof
    show "(side_map p W K ++ side_map p W K') l = side_map p W (\<lambda>k. K k \<or> K' k) l" for l
      by (cases l) (auto simp: map_add_def)
  qed
  moreover have "overwrites (side_map p W K ++ side_map p W K') m m2"
    by (rule overwrites_trans [OF assms]) (auto simp: side_map_Some split: if_splits)
  ultimately show ?thesis by simp
qed

lemma writes_cong: "writes p W K m m' \<Longrightarrow> (\<And>k. K k = K' k) \<Longrightarrow> writes p W K' m m'"
  using ext [of K K'] by simp

subsection \<open>Steps that write\<close>

text \<open>A step that only writes blocks, whatever the persistent memory holds.\<close>

definition writer :: "(engine \<Rightarrow> engine option) \<Rightarrow> nat \<Rightarrow> (nat \<Rightarrow> bool) \<Rightarrow> engine \<Rightarrow> bool" where
  "writer f p K e \<longleftrightarrow> (\<forall>m. \<exists>m'. f (with_nv m e) = Some (with_nv m' e) \<and> writes p (work e) K m m')"

lemma writerE:
  assumes "writer f p K e"
  obtains m' where "f (with_nv m e) = Some (with_nv m' e)" "writes p (work e) K m m'"
  using assms unfolding writer_def by blast

lemma writer_with [simp]: "writer f p K (with_nv m e) = writer f p K e"
  by (simp add: writer_def)

lemma writer_id: "writer Some p (\<lambda>_. False) e"
  unfolding writer_def using writes_refl by blast

lemma writer_fence: "writer (\<lambda>e. Some (map_nv nv_fence e)) p (\<lambda>_. False) e"
  unfolding writer_def h_map_nv_with h_with_nv_simps by (intro allI exI conjI, rule refl, rule overwrites_fence) simp

lemma writer_cong: "writer f p K e \<Longrightarrow> (\<And>k. K k = K' k) \<Longrightarrow> writer f p K' e"
  using ext [of K K'] by simp

lemma writer_skip:
  assumes "\<And>m. f (with_nv m e) = Some (with_nv m e)" and "\<And>k. \<not> K k"
  shows "writer f p K e"
proof -
  have "K = (\<lambda>_. False)" using assms(2) by (simp add: fun_eq_iff)
  then show ?thesis using assms(1) writes_refl unfolding writer_def by blast
qed

lemma writer_bind:
  assumes "writer f p K e" and "writer g p K' e"
  shows "writer (\<lambda>e. Option.bind (f e) g) p (\<lambda>k. K k \<or> K' k) e"
  unfolding writer_def
proof
  fix m
  obtain m1 where 1: "f (with_nv m e) = Some (with_nv m1 e)" "writes p (work e) K m m1"
    by (rule writerE [OF assms(1)])
  obtain m2 where 2: "g (with_nv m1 e) = Some (with_nv m2 e)" "writes p (work e) K' m1 m2"
    by (rule writerE [OF assms(2)])
  show "\<exists>m'. Option.bind (f (with_nv m e)) g = Some (with_nv m' e) \<and> writes p (work e) (\<lambda>k. K k \<or> K' k) m m'"
    using 1 2 writes_trans [OF 1(2) 2(2)] by auto
qed

lemma writer_foldM:
  assumes "\<forall>x \<in> set xs. writer (f x) p (K x) e"
  shows "writer (foldM f xs) p (\<lambda>k. \<exists>x \<in> set xs. K x k) e"
  using assms
proof (induction xs)
  case Nil
  then show ?case using writer_id [of p e] by (simp add: writer_def)
next
  case (Cons x xs)
  have "foldM f (x # xs) = (\<lambda>e. Option.bind (f x e) (foldM f xs))"
    by (auto simp: fun_eq_iff split: option.splits)
  moreover have "writer (\<lambda>e. Option.bind (f x e) (foldM f xs)) p (\<lambda>k. K x k \<or> (\<exists>y \<in> set xs. K y k)) e"
    by (rule writer_bind) (use Cons in auto)
  ultimately show ?case by (simp add: bex_simps)
qed

lemma fold_Some: "Some (fold f xs e) = foldM (\<lambda>x e. Some (f x e)) xs e"
  by (induction xs arbitrary: e) auto

lemma writer_fold:
  assumes "\<forall>x \<in> set xs. writer (\<lambda>e. Some (f x e)) p (K x) e"
  shows "writer (\<lambda>e. Some (fold f xs e)) p (\<lambda>k. \<exists>x \<in> set xs. K x k) e"
  unfolding fold_Some using writer_foldM [OF assms] .

subsection \<open>The copies\<close>

definition bound_identity :: "engine \<Rightarrow> bool" where
  "bound_identity e \<longleftrightarrow> (\<forall>s < nr_segments e. main_to_back (eimg e) s = s) \<and> nr_segments e < kNullSegmentIndex"

lemma h_bound_with [simp]: "bound_identity (with_nv m e) = bound_identity e"
  by (simp add: bound_identity_def)

lemma h_find_bound:
  assumes "bound_identity e" and "s < nr_segments e"
  shows "find_back_segment s e = Some (s, False, e)"
  using assms by (auto simp: find_back_segment_def get_main_to_back_def bound_identity_def Let_def)

lemma block_cells:
  "(case back_at (k * kBlockSize) l of Some i \<Rightarrow> if i < kBlockSize then Some (W (k * kBlockSize + i)) else None | None \<Rightarrow> None)
     = side_map 1 W (\<lambda>j. j = k) l"
  "(case main_at (k * kBlockSize) l of Some i \<Rightarrow> if i < kBlockSize then Some (W (k * kBlockSize + i)) else None | None \<Rightarrow> None)
     = side_map 0 W (\<lambda>j. j = k) l"
  using block_range [of k] by (cases l; auto)+

lemma block_in_segment:
  assumes "k div kBlocksPerSegment = s"
  shows "get_back_segment s + (get_main_block k - get_main_segment s) = k * kBlockSize"
proof -
  have "s * kBlocksPerSegment \<le> k" using assms by (simp add: segment_of_div)
  then have "s * kBlocksPerSegment * kBlockSize \<le> k * kBlockSize" by (rule mult_le_mono1)
  moreover have "s * kBlocksPerSegment * kBlockSize = s * kSegmentSize" by (simp add: geometry)
  ultimately show ?thesis by (simp add: get_back_segment_def get_main_block_def get_main_segment_def)
qed

lemma writer_work_to_back: "writer (\<lambda>e. Some (work_to_back (k * kBlockSize) (k * kBlockSize) kBlockSize e)) 1 (\<lambda>j. j = k) e"
  unfolding writer_def
proof (intro allI exI conjI)
  show "Some (work_to_back (k * kBlockSize) (k * kBlockSize) kBlockSize (with_nv m e))
      = Some (with_nv (nv_nt (side_map 1 (work e) (\<lambda>j. j = k)) m) e)" for m
    by (simp add: work_to_back_def dram_copy_def h_map_nv_with block_cells)
  show "writes 1 (work e) (\<lambda>j. j = k) m (nv_nt (side_map 1 (work e) (\<lambda>j. j = k)) m)" for m
    by (rule overwrites_sub) auto
qed

lemma writer_work_to_main: "writer (\<lambda>e. Some (work_to_main (k * kBlockSize) (k * kBlockSize) kBlockSize e)) 0 (\<lambda>j. j = k) e"
  unfolding writer_def
proof (intro allI exI conjI)
  show "Some (work_to_main (k * kBlockSize) (k * kBlockSize) kBlockSize (with_nv m e))
      = Some (with_nv (nv_nt (side_map 0 (work e) (\<lambda>j. j = k)) m) e)" for m
    by (simp add: work_to_main_def dram_copy_def h_map_nv_with block_cells)
  show "writes 0 (work e) (\<lambda>j. j = k) m (nv_nt (side_map 0 (work e) (\<lambda>j. j = k)) m)" for m
    by (rule overwrites_sub) auto
qed

text \<open>Write elimination leaves out only lines that agree already.\<close>

lemma dram_line_agrees: "\<not> dram_line_differs dst src e i \<Longrightarrow> rd (eimg e) (dst i) = work e (src + i)"
  by (auto simp: dram_line_differs_def list_ex_iff dest!: bspec [of _ _ "i mod 64"])

lemma writer_eliminating_at:
  assumes cells: "\<And>l W. (case at l of Some i \<Rightarrow> if i < kBlockSize then Some (W (a + i)) else None | None \<Rightarrow> None) = side_map p W K l"
    and dst: "\<And>l i. at l = Some i \<Longrightarrow> dst i = l"
  shows "writer (\<lambda>e. Some (dram_copy_eliminating at dst a kBlockSize e)) p K e"
  unfolding writer_def
proof
  fix m
  let ?V = "\<lambda>l. case at l of Some i \<Rightarrow> if i < kBlockSize \<and> dram_line_differs dst a (with_nv m e) i
       then Some (work e (a + i)) else None | None \<Rightarrow> None"
  have "writes p (work e) K m (nv_nt ?V m)"
  proof (rule overwrites_sub)
    fix l v
    show "?V l = Some v \<Longrightarrow> side_map p (work e) K l = Some v"
      unfolding cells [symmetric] by (auto split: option.splits if_splits)
    show "cur m l = v" if s: "side_map p (work e) K l = Some v" "?V l = None"
    proof -
      obtain i where i: "at l = Some i" "i < kBlockSize" "v = work e (a + i)"
        using s(1) unfolding cells [symmetric] by (auto split: option.splits if_splits)
      then have "\<not> dram_line_differs dst a (with_nv m e) i" using s(2) by (auto split: if_splits)
      from dram_line_agrees [OF this] show ?thesis using i dst [OF i(1)] by (simp add: rd_def)
    qed
  qed
  then show "\<exists>m'. Some (dram_copy_eliminating at dst a kBlockSize (with_nv m e)) = Some (with_nv m' e) \<and>
      writes p (work e) K m m'"
    unfolding dram_copy_eliminating_def h_map_nv_with h_with_nv_simps by blast
qed

lemma writer_update_block:
  assumes "k div kBlocksPerSegment = s" and "epoch e = p" and "p < 2"
  shows "writer (\<lambda>e. Some (update_block s s k e)) p (\<lambda>j. j = k) e"
proof -
  note a = block_in_segment [OF assms(1), unfolded get_main_block_def]
  have c: "writer (\<lambda>e. Some (dram_copy_eliminating (back_at (k * kBlockSize)) (back_cell (k * kBlockSize)) (k * kBlockSize) kBlockSize e)) 1 (\<lambda>j. j = k) e"
    "writer (\<lambda>e. Some (dram_copy_eliminating (main_at (k * kBlockSize)) (main_cell (k * kBlockSize)) (k * kBlockSize) kBlockSize e)) 0 (\<lambda>j. j = k) e"
    by (rule writer_eliminating_at; rule block_cells at_cells; assumption?)+
  show ?thesis
  proof (cases "p = 0")
    case True
    then show ?thesis using c(2) assms(2) by (simp add: writer_def update_block_def Let_def a get_main_block_def)
  next
    case False
    then have "p = 1" using assms(3) by simp
    then show ?thesis using c(1) assms(2) by (simp add: writer_def update_block_def Let_def a get_main_block_def)
  qed
qed

subsection \<open>The phases\<close>

text \<open>\<open>K\<close>: the dirty blocks of an epoch parity; \<open>blocks_ok\<close> ties the three ways they are kept together.\<close>

definition bd :: "engine \<Rightarrow> nat \<Rightarrow> nat \<Rightarrow> bool" where "bd e q k = bs_test k (block_dirty e q)"
definition sd :: "engine \<Rightarrow> nat \<Rightarrow> nat \<Rightarrow> bool" where "sd e q s = bs_test s (segment_dirty e q)"
definition seg :: "nat \<Rightarrow> nat" where "seg k = k div kBlocksPerSegment"

definition all_buckets :: "engine \<Rightarrow> nat list" where
  "all_buckets e = concat (map (flush_blocks e) [0..<kMaxThreads])"

lemma bd_with [simp]: "bd (with_nv m e) = bd e" "sd (with_nv m e) = sd e" "all_buckets (with_nv m e) = all_buckets e"
  by (simp_all add: bd_def sd_def all_buckets_def fun_eq_iff)

definition layout_ok :: "engine \<Rightarrow> bool" where
  "layout_ok e \<longleftrightarrow> bound_identity e \<and> nr_blocks e = nr_segments e * kBlocksPerSegment \<and> epoch e < 2 \<and>
     (\<forall>q < 2. \<forall>k. bd e q k \<longrightarrow> seg k < nr_segments e \<and> sd e q (seg k)) \<and>
     (\<forall>q < 2. \<forall>s. sd e q s \<longrightarrow> s < nr_segments e) \<and>
     (\<forall>t. \<forall>k \<in> set (flush_blocks e t). bd e (epoch e) k \<and> t < kMaxThreads)"

lemma layout_ok_with [simp]: "layout_ok (with_nv m e) = layout_ok e"
  by (simp add: layout_ok_def)

lemma layout_okD:
  assumes "layout_ok e"
  shows "bound_identity e" "nr_blocks e = nr_segments e * kBlocksPerSegment" "epoch e < 2"
    "q < 2 \<Longrightarrow> bd e q k \<Longrightarrow> seg k < nr_segments e" "q < 2 \<Longrightarrow> bd e q k \<Longrightarrow> sd e q (seg k)"
    "q < 2 \<Longrightarrow> sd e q s \<Longrightarrow> s < nr_segments e" "k \<in> set (flush_blocks e t) \<Longrightarrow> bd e (epoch e) k"
    "k \<in> set (flush_blocks e t) \<Longrightarrow> t < kMaxThreads"
  using assms by (auto simp: layout_ok_def)

lemma one_minus: "p < 2 \<Longrightarrow> 1 - p < (2 :: nat)" "p < 2 \<Longrightarrow> 1 - (1 - p) = (p :: nat)" "p < 2 \<Longrightarrow> 1 - p \<noteq> (p :: nat)"
  by presburger+

lemma bs_test_minus [simp]: "bs_test k (bs_minus a b) \<longleftrightarrow> bs_test k a \<and> \<not> bs_test k b"
  by (simp add: bs_test_bit bs_minus_def bit_and_iff bit_not_iff)

lemma bs_test_union [simp]: "bs_test k (bs_union a b) \<longleftrightarrow> bs_test k a \<or> bs_test k b"
  by (simp add: bs_test_bit bs_union_def bit_or_iff)

lemma writer_update_segment:
  assumes l: "layout_ok e" and s: "s < nr_segments e"
  shows "writer (\<lambda>e. Some (update_segment s e)) (epoch e)
    (\<lambda>k. seg k = s \<and> bd e (1 - epoch e) k \<and> \<not> bd e (epoch e) k) e"
proof -
  note L = layout_okD [OF l]
  let ?p = "epoch e"
  have b: "get_main_to_back (eimg (with_nv m e)) s = s" "s \<noteq> kNullSegmentIndex" for m
    using L(1) s by (auto simp: bound_identity_def get_main_to_back_def)
  define ks where "ks = scan_range (s * kBlocksPerSegment) (min (nr_blocks e) (s * kBlocksPerSegment + kBlocksPerSegment))
    (bs_minus (block_dirty e (1 - ?p)) (block_dirty e (1 - (1 - ?p))))"
  have ks: "set ks = {k. seg k = s \<and> bd e (1 - ?p) k \<and> \<not> bd e ?p k}"
    unfolding ks_def scan_segment [OF s L(2)] using one_minus(2) [OF L(3)] by (auto simp: seg_def bd_def)
  have w: "writer (\<lambda>e. Some (fold (update_block s s) ks e)) ?p (\<lambda>k. \<exists>j \<in> set ks. k = j) e"
    by (rule writer_fold) (use ks L(3) in \<open>auto intro!: writer_update_block simp: seg_def\<close>)
  show ?thesis
  proof (cases "sd e (1 - ?p) s")
    case True
    then have "update_segment s (with_nv m e) = fold (update_block s s) ks (with_nv m e)" for m
      using b by (simp add: update_segment_def Let_def sd_def ks_def)
    with w ks show ?thesis unfolding writer_def by simp
  next
    case False
    then have "update_segment s (with_nv m e) = with_nv m e" for m
      by (simp add: update_segment_def Let_def sd_def)
    moreover have "\<not> (seg k = s \<and> bd e (1 - ?p) k)" for k using L(5) [OF one_minus(1) [OF L(3)]] False by auto
    ultimately show ?thesis by (intro writer_skip) auto
  qed
qed

lemma writer_back_segment:
  assumes l: "layout_ok e" and s: "s < nr_segments e"
  shows "writer (back_from_work_segment s) 1 (\<lambda>k. seg k = s \<and> bd e (epoch e) k) e"
proof -
  note L = layout_okD [OF l]
  define ks where "ks = scan_range (s * kBlocksPerSegment) (min (nr_blocks e) (s * kBlocksPerSegment + kBlocksPerSegment))
    (block_dirty e (epoch e))"
  have ks: "set ks = {k. seg k = s \<and> bd e (epoch e) k}"
    unfolding ks_def scan_segment [OF s L(2)] by (auto simp: seg_def bd_def)
  let ?f = "\<lambda>b. work_to_back (get_back_segment s + (get_main_block b - get_main_segment s)) (get_main_block b) kBlockSize"
  have w: "writer (\<lambda>e. Some (fold ?f ks e)) 1 (\<lambda>k. \<exists>j \<in> set ks. k = j) e"
  proof (rule writer_fold, rule ballI)
    fix k assume "k \<in> set ks"
    then have "k div kBlocksPerSegment = s" by (simp add: ks seg_def)
    from block_in_segment [OF this] writer_work_to_back [of k e]
    show "writer (\<lambda>e. Some (?f k e)) 1 (\<lambda>j. j = k) e" by (simp add: get_main_block_def)
  qed
  show ?thesis
  proof (cases "sd e (epoch e) s")
    case True
    then have "back_from_work_segment s (with_nv m e) = Some (fold ?f ks (with_nv m e))" for m
      using h_find_bound [of "with_nv m e" s] L(1) s
      by (simp add: back_from_work_segment_def Let_def sd_def ks_def)
    with w ks show ?thesis unfolding writer_def by simp
  next
    case False
    then have "back_from_work_segment s (with_nv m e) = Some (with_nv m e)" for m
      by (simp add: back_from_work_segment_def sd_def)
    moreover have "\<not> (seg k = s \<and> bd e (epoch e) k)" for k using L(5) [OF L(3)] False by auto
    ultimately show ?thesis by (intro writer_skip) auto
  qed
qed

lemma reserve_bound:
  assumes "bound_identity e" and "s < nr_segments e"
  shows "reserve_back s e = Some e"
  using h_find_bound [OF assms] by (simp add: reserve_back_def)

lemma writer_main_segment:
  assumes l: "layout_ok e" and s: "s < nr_segments e"
  shows "writer (main_from_work_segment s) 0 (\<lambda>k. seg k = s \<and> bd e (epoch e) k) e"
proof -
  note L = layout_okD [OF l]
  define ks where "ks = scan_range (s * kBlocksPerSegment) (min (nr_blocks e) (s * kBlocksPerSegment + kBlocksPerSegment))
    (block_dirty e (epoch e))"
  have ks: "set ks = {k. seg k = s \<and> bd e (epoch e) k}"
    unfolding ks_def scan_segment [OF s L(2)] by (auto simp: seg_def bd_def)
  let ?f = "\<lambda>b. work_to_main (get_main_block b) (get_main_block b) kBlockSize"
  have w: "writer (\<lambda>e. Some (fold ?f ks e)) 0 (\<lambda>k. \<exists>j \<in> set ks. k = j) e"
    by (rule writer_fold) (use writer_work_to_main in \<open>simp add: get_main_block_def\<close>)
  show ?thesis
  proof (cases "sd e (epoch e) s")
    case True
    then have "main_from_work_segment s (with_nv m e) = Some (fold ?f ks (with_nv m e))" for m
      using reserve_bound [of "with_nv m e" s] L(1) s
      by (simp add: main_from_work_segment_def Let_def sd_def ks_def)
    with w ks show ?thesis unfolding writer_def by simp
  next
    case False
    then have "main_from_work_segment s (with_nv m e) = Some (with_nv m e)" for m
      by (simp add: main_from_work_segment_def sd_def)
    moreover have "\<not> (seg k = s \<and> bd e (epoch e) k)" for k using L(5) [OF L(3)] False by auto
    ultimately show ?thesis by (intro writer_skip) auto
  qed
qed

lemma writer_back_block:
  assumes "bound_identity e" and "seg k < nr_segments e"
  shows "writer (back_from_work_block k) 1 (\<lambda>j. j = k) e"
proof -
  have "seg k * kBlocksPerSegment + k mod kBlocksPerSegment = k" by (simp add: seg_def)
  then have "back_from_work_block k (with_nv m e) = Some (work_to_back (k * kBlockSize) (k * kBlockSize) kBlockSize (with_nv m e))" for m
    using h_find_bound [of "with_nv m e" "seg k"] assms
    by (simp add: back_from_work_block_def find_back_block_def Let_def get_back_block_def get_main_block_def flip: seg_def)
  then show ?thesis using writer_work_to_back [of k e] unfolding writer_def by simp
qed

lemma writer_main_block:
  assumes "bound_identity e" and "seg k < nr_segments e"
  shows "writer (main_from_work_block k) 0 (\<lambda>j. j = k) e"
proof -
  have "main_from_work_block k (with_nv m e) = Some (work_to_main (k * kBlockSize) (k * kBlockSize) kBlockSize (with_nv m e))" for m
    using reserve_bound [of "with_nv m e" "seg k"] assms
    by (simp add: main_from_work_block_def get_main_block_def flip: seg_def)
  then show ?thesis using writer_work_to_main [of k e] unfolding writer_def by simp
qed


text \<open>The blocks one thread of a phase writes.\<close>

definition to_back :: "nat \<Rightarrow> nat \<Rightarrow> engine \<Rightarrow> nat \<Rightarrow> bool" where
  "to_back n tid e k \<longleftrightarrow>
     (if mode e = FMODE_WBINVD then seg k \<in> set (share n tid (nr_segments e)) \<and> bd e (epoch e) k
      else tid = 0 \<and> k \<in> set (all_buckets e))"

definition to_main :: "nat \<Rightarrow> nat \<Rightarrow> engine \<Rightarrow> nat \<Rightarrow> bool" where
  "to_main n tid e k \<longleftrightarrow>
     (if mode e = FMODE_WBINVD then seg k \<in> set (share n tid (nr_segments e)) \<and> bd e (epoch e) k
      else \<exists>i \<in> set (share n tid kMaxThreads). k \<in> set (flush_blocks e i))"

lemma share_less: "i \<in> set (share n tid l) \<Longrightarrow> i < l"
  by (simp add: share_def)

lemma bucket_block:
  assumes "layout_ok e" and "k \<in> set (flush_blocks e i)"
  shows "seg k < nr_segments e"
  using layout_okD(4) [OF assms(1) layout_okD(3) [OF assms(1)]] layout_okD(7) [OF assms] by blast

lemma writer_apply:
  assumes "writer f p K e"
  shows "writer (\<lambda>e. map_option (map_nv nv_fence) (f e)) p K e"
proof -
  have "writer (\<lambda>e. Option.bind (f e) (\<lambda>e. Some (map_nv nv_fence e))) p (\<lambda>k. K k \<or> False) e"
    by (rule writer_bind [OF assms writer_fence])
  moreover have "Option.bind (f e) (\<lambda>e. Some (map_nv nv_fence e)) = map_option (map_nv nv_fence) (f e)" for e
    by (cases "f e") auto
  ultimately show ?thesis by simp
qed

lemma writer_buckets:
  assumes "\<And>i k. i \<in> set is \<Longrightarrow> k \<in> set (flush_blocks e i) \<Longrightarrow> writer (g k) p (\<lambda>j. j = k) e"
  shows "writer (foldM (\<lambda>id e. foldM g (flush_blocks e id) e) is) p (\<lambda>k. \<exists>i \<in> set is. k \<in> set (flush_blocks e i)) e"
proof (rule writer_foldM, rule ballI)
  fix i assume i: "i \<in> set is"
  have "writer (foldM g (flush_blocks e i)) p (\<lambda>k. \<exists>j \<in> set (flush_blocks e i). k = j) e"
    by (rule writer_foldM) (use assms [OF i] in blast)
  then show "writer (\<lambda>e. foldM g (flush_blocks e i) e) p (\<lambda>k. k \<in> set (flush_blocks e i)) e"
    unfolding writer_def by simp
qed

lemma writer_to_back:
  assumes l: "layout_ok e"
  shows "writer (apply_dram_to_back_parallel n tid) 1 (to_back n tid e) e"
proof -
  note L = layout_okD [OF l]
  have s: "writer (foldM back_from_work_segment (share n tid (nr_segments e))) 1
      (\<lambda>k. \<exists>s \<in> set (share n tid (nr_segments e)). seg k = s \<and> bd e (epoch e) k) e"
    by (rule writer_foldM) (use writer_back_segment [OF l] share_less in blast)
  have b: "writer (foldM (\<lambda>id e. foldM back_from_work_block (flush_blocks e id) e) [0..<kMaxThreads]) 1
      (\<lambda>k. \<exists>i \<in> set [0..<kMaxThreads]. k \<in> set (flush_blocks e i)) e"
    by (rule writer_buckets, rule writer_back_block [OF L(1)]) (use bucket_block [OF l] in blast)
  have "writer (\<lambda>e. if mode e = FMODE_WBINVD then foldM back_from_work_segment (share n tid (nr_segments e)) e
        else if tid = 0 then foldM (\<lambda>id e. foldM back_from_work_block (flush_blocks e id) e) [0..<kMaxThreads] e
        else Some e) 1 (to_back n tid e) e"
  proof (cases "mode e = FMODE_WBINVD")
    case True
    then show ?thesis using s unfolding writer_def by (simp add: to_back_def [abs_def])
  next
    case False
    show ?thesis
    proof (cases "tid = 0")
      case True
      with False show ?thesis using b unfolding writer_def by (simp add: to_back_def [abs_def] all_buckets_def)
    next
      case nz: False
      show ?thesis by (rule writer_skip) (use False nz in \<open>auto simp: to_back_def\<close>)
    qed
  qed
  from writer_apply [OF this] show ?thesis
    by (simp add: apply_dram_to_back_parallel_def [abs_def])
qed

lemma writer_to_main:
  assumes l: "layout_ok e"
  shows "writer (apply_dram_to_main_parallel n tid) 0 (to_main n tid e) e"
proof -
  note L = layout_okD [OF l]
  have s: "writer (foldM main_from_work_segment (share n tid (nr_segments e))) 0
      (\<lambda>k. \<exists>s \<in> set (share n tid (nr_segments e)). seg k = s \<and> bd e (epoch e) k) e"
    by (rule writer_foldM) (use writer_main_segment [OF l] share_less in blast)
  have b: "writer (foldM (\<lambda>id e. foldM main_from_work_block (flush_blocks e id) e) (share n tid kMaxThreads)) 0
      (\<lambda>k. \<exists>i \<in> set (share n tid kMaxThreads). k \<in> set (flush_blocks e i)) e"
    by (rule writer_buckets, rule writer_main_block [OF L(1)]) (use bucket_block [OF l] in blast)
  have "writer (\<lambda>e. if mode e = FMODE_WBINVD then foldM main_from_work_segment (share n tid (nr_segments e)) e
        else foldM (\<lambda>id e. foldM main_from_work_block (flush_blocks e id) e) (share n tid kMaxThreads) e) 0 (to_main n tid e) e"
  proof (cases "mode e = FMODE_WBINVD")
    case True
    then show ?thesis using s unfolding writer_def by (simp add: to_main_def [abs_def])
  next
    case False
    then show ?thesis using b unfolding writer_def by (simp add: to_main_def [abs_def])
  qed
  from writer_apply [OF this] show ?thesis
    by (simp add: apply_dram_to_main_parallel_def [abs_def])
qed

lemma writer_update:
  assumes l: "layout_ok e"
  shows "writer (\<lambda>e. Some (apply_nvm_to_nvm_parallel n tid e)) (epoch e)
    (\<lambda>k. seg k \<in> set (share n tid (nr_segments e)) \<and> bd e (1 - epoch e) k \<and> \<not> bd e (epoch e) k) e"
proof -
  have "writer (\<lambda>e. Some (fold update_segment (share n tid (nr_segments e)) e)) (epoch e)
    (\<lambda>k. \<exists>s \<in> set (share n tid (nr_segments e)). seg k = s \<and> bd e (1 - epoch e) k \<and> \<not> bd e (epoch e) k) e"
  proof -
    have "writer (\<lambda>x. Some (fold update_segment (share n tid (nr_segments e)) x)) (epoch e)
      (\<lambda>k. \<exists>s \<in> set (share n tid (nr_segments e)). seg k = s \<and> bd e (1 - epoch e) k \<and> \<not> bd e (epoch e) k) e"
      by (rule writer_fold) (use writer_update_segment [OF l] share_less in blast)
    then show ?thesis unfolding writer_def by simp
  qed
  then show ?thesis by (simp add: apply_nvm_to_nvm_parallel_def [abs_def])
qed

definition one_side :: "nat \<Rightarrow> nat \<Rightarrow> nat \<Rightarrow> engine \<Rightarrow> nat \<Rightarrow> bool" where
  "one_side p n tid e = (if p \<noteq> 0 then to_back n tid e else to_main n tid e)"

lemma writer_side:
  assumes l: "layout_ok e" and p: "p < 2"
  shows "writer (if p \<noteq> 0 then apply_dram_to_back_parallel n tid else apply_dram_to_main_parallel n tid) p
    (one_side p n tid e) e"
proof -
  have "p = 0 \<or> p = 1" using p by auto
  then show ?thesis using writer_to_back [OF l] writer_to_main [OF l] by (auto simp: one_side_def)
qed

lemma writer_first_phase:
  assumes l: "layout_ok e"
  shows "writer (first_phase n tid) (epoch e)
    (\<lambda>k. (prev_mode e = FMODE_WBINVD \<and> seg k \<in> set (share n tid (nr_segments e)) \<and> bd e (1 - epoch e) k \<and> \<not> bd e (epoch e) k)
       \<or> one_side (epoch e) n tid e k) e"
proof -
  let ?p = "epoch e"
  let ?K = "\<lambda>k. prev_mode e = FMODE_WBINVD \<and> seg k \<in> set (share n tid (nr_segments e)) \<and> bd e (1 - ?p) k \<and> \<not> bd e ?p k"
  let ?f = "\<lambda>e. Some (if prev_mode e = FMODE_WBINVD then apply_nvm_to_nvm_parallel n tid e else e)"
  let ?g = "if ?p \<noteq> 0 then apply_dram_to_back_parallel n tid else apply_dram_to_main_parallel n tid"
  have f: "writer ?f ?p ?K e"
  proof (cases "prev_mode e = FMODE_WBINVD")
    case True
    then show ?thesis using writer_update [OF l, of n tid] unfolding writer_def by simp
  next
    case False
    then show ?thesis by (intro writer_skip) auto
  qed
  have w: "writer (\<lambda>e. Option.bind (?f e) ?g) ?p (\<lambda>k. ?K k \<or> one_side ?p n tid e k) e"
    by (rule writer_bind [OF f writer_side [OF l layout_okD(3) [OF l]]])
  have e: "epoch (the (?f (with_nv m e))) = ?p" for m
  proof -
    obtain m' where "?f (with_nv m e) = Some (with_nv m' e)" by (rule writerE [OF f])
    then show ?thesis by simp
  qed
  have "first_phase n tid (with_nv m e) = Option.bind (?f (with_nv m e)) ?g" for m
    using e [of m] by (simp add: first_phase_def Let_def)
  then show ?thesis using w unfolding writer_def by simp
qed

text \<open>All threads together.\<close>

lemma shares_all:
  assumes "0 < n"
  shows "(\<exists>tid \<in> set [0..<n]. i \<in> set (share n tid l)) \<longleftrightarrow> i < l"
  using set_shares [OF assms, of l] by (auto simp: set_eq_iff)

lemma one_side_all:
  assumes l: "layout_ok e" and n: "0 < n"
    and full: "mode e \<noteq> FMODE_WBINVD \<Longrightarrow> bd e (epoch e) k \<Longrightarrow> k \<in> set (all_buckets e)"
  shows "(\<exists>tid \<in> set [0..<n]. one_side p n tid e k) \<longleftrightarrow> bd e (epoch e) k"
proof -
  note L = layout_okD [OF l]
  have s: "(\<exists>tid \<in> set [0..<n]. seg k \<in> set (share n tid (nr_segments e)) \<and> bd e (epoch e) k) \<longleftrightarrow> bd e (epoch e) k"
    using shares_all [OF n, of "seg k" "nr_segments e"] L(4) [OF L(3)] by blast
  have b: "(\<exists>tid \<in> set [0..<n]. \<exists>i \<in> set (share n tid kMaxThreads). k \<in> set (flush_blocks e i)) \<longleftrightarrow> k \<in> set (all_buckets e)"
  proof -
    have "(\<exists>tid \<in> set [0..<n]. \<exists>i \<in> set (share n tid kMaxThreads). k \<in> set (flush_blocks e i)) \<longleftrightarrow>
        (\<exists>i. (\<exists>tid \<in> set [0..<n]. i \<in> set (share n tid kMaxThreads)) \<and> k \<in> set (flush_blocks e i))" by blast
    also have "\<dots> \<longleftrightarrow> k \<in> set (all_buckets e)" unfolding shares_all [OF n] by (auto simp: all_buckets_def)
    finally show ?thesis .
  qed
  have z: "(\<exists>tid \<in> set [0..<n]. tid = 0 \<and> k \<in> set (all_buckets e)) \<longleftrightarrow> k \<in> set (all_buckets e)"
    using n by auto
  have bk: "k \<in> set (all_buckets e) \<Longrightarrow> bd e (epoch e) k"
    using L(7) by (auto simp: all_buckets_def)
  show ?thesis
  proof (cases "mode e = FMODE_WBINVD")
    case True
    then have "one_side p n tid e k \<longleftrightarrow> seg k \<in> set (share n tid (nr_segments e)) \<and> bd e (epoch e) k" for tid
      by (simp add: one_side_def to_back_def to_main_def)
    with s show ?thesis by (simp only:)
  next
    case False
    with full bk have k: "k \<in> set (all_buckets e) \<longleftrightarrow> bd e (epoch e) k" by blast
    show ?thesis
    proof (cases "p = 0")
      case True
      with False have "one_side p n tid e k \<longleftrightarrow> (\<exists>i \<in> set (share n tid kMaxThreads). k \<in> set (flush_blocks e i))" for tid
        by (simp add: one_side_def to_main_def)
      with b k show ?thesis by (simp only:)
    next
      case nz: False
      with False have "one_side p n tid e k \<longleftrightarrow> tid = 0 \<and> k \<in> set (all_buckets e)" for tid
        by (simp add: one_side_def to_back_def)
      with z k show ?thesis by (simp only:)
    qed
  qed
qed

lemma foldM_post:
  assumes "foldM f xs e = Some e'" and "xs \<noteq> []" and "\<And>x e e'. f x e = Some e' \<Longrightarrow> Q e'"
  shows "Q e'"
  using assms(1,2)
proof (induction xs arbitrary: e)
  case (Cons x xs)
  then show ?case using assms(3) by (cases xs) (auto split: option.splits)
qed simp

lemma apply_fenced:
  "apply_dram_to_back_parallel n tid e = Some e' \<Longrightarrow> pend (nv (eimg e')) = (\<lambda>_. None)"
  "apply_dram_to_main_parallel n tid e = Some e' \<Longrightarrow> pend (nv (eimg e')) = (\<lambda>_. None)"
  by (auto simp: apply_dram_to_back_parallel_def apply_dram_to_main_parallel_def h_map_nv_with
      simp del: option.map_comp split: if_splits)

lemma first_phase_all:
  assumes l: "layout_ok e" and n: "0 < n"
    and full: "\<And>k. mode e \<noteq> FMODE_WBINVD \<Longrightarrow> bd e (epoch e) k \<Longrightarrow> k \<in> set (all_buckets e)"
  obtains m where "foldM (first_phase n) [0..<n] e = Some (with_nv m e)" "pend m = (\<lambda>_. None)"
    "writes (epoch e) (work e)
       (\<lambda>k. bd e (epoch e) k \<or> prev_mode e = FMODE_WBINVD \<and> bd e (1 - epoch e) k) (nv (eimg e)) m"
proof -
  note L = layout_okD [OF l]
  let ?p = "epoch e"
  let ?K = "\<lambda>tid k. (prev_mode e = FMODE_WBINVD \<and> seg k \<in> set (share n tid (nr_segments e)) \<and> bd e (1 - ?p) k \<and> \<not> bd e ?p k)
       \<or> one_side ?p n tid e k"
  have "writer (foldM (first_phase n) [0..<n]) ?p (\<lambda>k. \<exists>tid \<in> set [0..<n]. ?K tid k) e"
    by (rule writer_foldM) (use writer_first_phase [OF l] in blast)
  moreover have "(\<exists>tid \<in> set [0..<n]. ?K tid k) = (bd e ?p k \<or> prev_mode e = FMODE_WBINVD \<and> bd e (1 - ?p) k)" for k
    using one_side_all [OF l n full, of k ?p] shares_all [OF n, of "seg k" "nr_segments e"]
      L(4) [OF one_minus(1) [OF L(3)], of k] by blast
  ultimately have w: "writer (foldM (first_phase n) [0..<n]) ?p
      (\<lambda>k. bd e ?p k \<or> prev_mode e = FMODE_WBINVD \<and> bd e (1 - ?p) k) e"
    by (rule writer_cong)
  obtain m where m: "foldM (first_phase n) [0..<n] (with_nv (nv (eimg e)) e) = Some (with_nv m e)"
    "writes ?p (work e) (\<lambda>k. bd e ?p k \<or> prev_mode e = FMODE_WBINVD \<and> bd e (1 - ?p) k) (nv (eimg e)) m"
    by (rule writerE [OF w])
  have "pend (nv (eimg (with_nv m e))) = (\<lambda>_. None)"
    by (rule foldM_post [OF m(1)]) (use n apply_fenced in \<open>auto simp: first_phase_def Let_def split: if_splits\<close>)
  with m show ?thesis by (intro that [of m]) (simp_all add: h_with_nv_id)
qed

lemma second_phase_all:
  assumes l: "layout_ok e" and n: "0 < n"
    and full: "\<And>k. mode e \<noteq> FMODE_WBINVD \<Longrightarrow> bd e (epoch e) k \<Longrightarrow> k \<in> set (all_buckets e)"
  obtains m where "foldM (second_phase n) [0..<n] e = Some (with_nv m e)" "pend m = (\<lambda>_. None)"
    "writes (1 - epoch e) (work e) (bd e (epoch e)) (nv (eimg e)) m"
proof -
  note L = layout_okD [OF l]
  let ?q = "1 - epoch e"
  have q: "(?q \<noteq> 0) = (epoch e = 0)" using L(3) by auto
  have w1: "writer (second_phase n tid) ?q (one_side ?q n tid e) e" for tid
  proof -
    let ?g = "if ?q \<noteq> 0 then apply_dram_to_back_parallel n tid else apply_dram_to_main_parallel n tid"
    have "second_phase n tid (with_nv m e) = ?g (with_nv m e)" for m by (simp add: second_phase_def q)
    then show ?thesis
      using writer_side [OF l one_minus(1) [OF L(3)], of n tid] by (simp only: writer_def simp_thms)
  qed
  have "writer (foldM (second_phase n) [0..<n]) ?q (\<lambda>k. \<exists>tid \<in> set [0..<n]. one_side ?q n tid e k) e"
    by (rule writer_foldM) (use w1 in blast)
  then have w: "writer (foldM (second_phase n) [0..<n]) ?q (bd e (epoch e)) e"
    by (rule writer_cong) (rule one_side_all [OF l n full])
  obtain m where m: "foldM (second_phase n) [0..<n] (with_nv (nv (eimg e)) e) = Some (with_nv m e)"
    "writes ?q (work e) (bd e (epoch e)) (nv (eimg e)) m"
    by (rule writerE [OF w])
  have "pend (nv (eimg (with_nv m e))) = (\<lambda>_. None)"
    by (rule foldM_post [OF m(1)]) (use n apply_fenced in \<open>auto simp: second_phase_def split: if_splits\<close>)
  with m show ?thesis by (intro that [of m]) (simp_all add: h_with_nv_id)
qed

end
