(* ===== verification/Hybrid_Track.thy ===== *)
theory Hybrid_Track
  imports Hybrid_Phases
begin

text \<open>
  The hooks of \<^verbatim>\<open>HybridInstEngine\<close>: whatever route an address takes (one block, a
  range, a buffer that is drained later), the effect is that a set of blocks is tracked in the bit
  sets and buckets of the current epoch and nothing else changes.
\<close>

definition same_rest :: "engine \<Rightarrow> engine \<Rightarrow> bool" where
  "same_rest e e' \<longleftrightarrow> e'\<lparr>segment_dirty := segment_dirty e, block_dirty := block_dirty e,
     flush_blocks := flush_blocks e, address_buffer := address_buffer e\<rparr> = e"

lemma same_restD:
  assumes "same_rest e e'"
  shows "eimg e' = eimg e" "work e' = work e" "nr_segments e' = nr_segments e" "nr_blocks e' = nr_blocks e"
    "capacity e' = capacity e" "address_first e' = address_first e" "has_snapshot e' = has_snapshot e"
    "mode e' = mode e" "prev_mode e' = prev_mode e" "epoch e' = epoch e"
    "checkpoint_in_progress e' = checkpoint_in_progress e"
  using assms unfolding same_rest_def by (cases e; cases e'; simp)+

lemma same_rest_refl: "same_rest e e"
  by (simp add: same_rest_def)

lemma same_rest_trans:
  assumes "same_rest e e1" and "same_rest e1 e2"
  shows "same_rest e e2"
  using assms unfolding same_rest_def by (cases e; cases e1; cases e2; simp)

definition full :: "engine \<Rightarrow> bool" where
  "full e \<longleftrightarrow> (\<exists>t < kMaxThreads. kMaxFlushBlocks \<le> length (flush_blocks e t))"

definition bucketed :: "engine \<Rightarrow> nat \<Rightarrow> bool" where
  "bucketed e k \<longleftrightarrow> k \<in> set (all_buckets e) \<or> full e"

text \<open>\<open>tracks B e e'\<close>: from \<open>e\<close> to \<open>e'\<close> the blocks \<open>B\<close> have been tracked.\<close>

definition tracks :: "nat set \<Rightarrow> engine \<Rightarrow> engine \<Rightarrow> bool" where
  "tracks B e e' \<longleftrightarrow> same_rest e e' \<and>
     (\<forall>q < 2. \<forall>k. bd e' q k \<longleftrightarrow> bd e q k \<or> q = epoch e \<and> k \<in> B) \<and>
     (\<forall>q < 2. \<forall>s. sd e' q s \<longleftrightarrow> sd e q s \<or> q = epoch e \<and> s \<in> seg ` B) \<and>
     (\<forall>t. \<forall>k \<in> set (flush_blocks e' t). k \<in> set (flush_blocks e t) \<or> k \<in> B \<and> t < kMaxThreads) \<and>
     (\<forall>k. bucketed e k \<longrightarrow> bucketed e' k) \<and> (\<forall>k \<in> B. bd e (epoch e) k \<or> bucketed e' k)"

lemma tracksD:
  assumes "tracks B e e'"
  shows "same_rest e e'"
    "q < 2 \<Longrightarrow> bd e' q k \<longleftrightarrow> bd e q k \<or> q = epoch e \<and> k \<in> B"
    "q < 2 \<Longrightarrow> sd e' q s \<longleftrightarrow> sd e q s \<or> q = epoch e \<and> s \<in> seg ` B"
    "k \<in> set (flush_blocks e' t) \<Longrightarrow> k \<in> set (flush_blocks e t) \<or> k \<in> B \<and> t < kMaxThreads"
    "bucketed e k \<Longrightarrow> bucketed e' k" "k \<in> B \<Longrightarrow> bd e (epoch e) k \<or> bucketed e' k"
  using assms by (simp_all add: tracks_def)

lemma tracks_refl: "tracks {} e e"
  by (simp add: tracks_def same_rest_refl)

lemma tracks_trans:
  assumes 1: "tracks B e e1" and 2: "tracks B' e1 e2" and p: "epoch e < 2"
  shows "tracks (B \<union> B') e e2"
proof -
  note a = tracksD [OF 1] and b = tracksD [OF 2]
  have ep: "epoch e1 = epoch e" by (rule same_restD(10) [OF a(1)])
  show ?thesis
    unfolding tracks_def
  proof (intro conjI allI impI ballI)
    show "same_rest e e2" by (rule same_rest_trans [OF a(1) b(1)])
    show "bd e2 q k \<longleftrightarrow> bd e q k \<or> q = epoch e \<and> k \<in> B \<union> B'" if "q < 2" for q k
      using a(2) [OF that] b(2) [OF that] ep by auto
    show "sd e2 q s \<longleftrightarrow> sd e q s \<or> q = epoch e \<and> s \<in> seg ` (B \<union> B')" if "q < 2" for q s
      using a(3) [OF that] b(3) [OF that] ep by auto
    show "k \<in> set (flush_blocks e t) \<or> k \<in> B \<union> B' \<and> t < kMaxThreads" if "k \<in> set (flush_blocks e2 t)" for t k
      using a(4) b(4) [OF that] by blast
    show "bucketed e k \<Longrightarrow> bucketed e2 k" for k using a(5) b(5) by blast
    show "bd e (epoch e) k \<or> bucketed e2 k" if k: "k \<in> B \<union> B'" for k
    proof (cases "k \<in> B")
      case True
      then show ?thesis using a(6) b(5) by blast
    next
      case False
      then have "bd e1 (epoch e) k \<or> bucketed e2 k" using b(6) k ep by auto
      then show ?thesis using a(2) [OF p, of k] False by blast
    qed
  qed
qed

subsection \<open>One block\<close>

text \<open>The segment of a dirty block is dirty.\<close>

definition dirty_ok :: "engine \<Rightarrow> bool" where
  "dirty_ok e \<longleftrightarrow> epoch e < 2 \<and> (\<forall>k. bd e (epoch e) k \<longrightarrow> sd e (epoch e) (seg k))"

lemma tracks_dirty_ok: "tracks B e e' \<Longrightarrow> dirty_ok e \<Longrightarrow> dirty_ok e'"
  using tracksD(2,3) [of B e e' "epoch e"] same_restD(10) [of e e'] tracksD(1) [of B e e']
  by (auto simp: dirty_ok_def)

definition touch :: "nat \<Rightarrow> nat \<Rightarrow> engine \<Rightarrow> engine" where
  "touch tid k e = (if bs_test k (block_dirty e (epoch e)) then e else mark_segment (seg k) (record_block tid k e))"

lemma record_block_simps [simp]:
  "segment_dirty (record_block tid k e) = segment_dirty e" "epoch (record_block tid k e) = epoch e"
  "block_dirty (record_block tid k e) = (block_dirty e)(epoch e := bs_set k (block_dirty e (epoch e)))"
  "address_buffer (record_block tid k e) = address_buffer e"
  by (simp_all add: record_block_def Let_def)

lemma mark_segment_simps [simp]:
  "block_dirty (mark_segment s e) = block_dirty e" "epoch (mark_segment s e) = epoch e"
  "flush_blocks (mark_segment s e) = flush_blocks e" "address_buffer (mark_segment s e) = address_buffer e"
  by (simp_all add: mark_segment_def)

lemma mark_segment_done: "sd e (epoch e) s \<Longrightarrow> mark_segment s e = e"
  by (simp add: mark_segment_def sd_def)

lemma sd_mark_segment: "sd (mark_segment s e) q r \<longleftrightarrow> sd e q r \<or> q = epoch e \<and> r = s"
  by (auto simp: mark_segment_def sd_def)

lemma same_rest_touch: "same_rest e (touch tid k e)"
  by (simp add: same_rest_def touch_def mark_segment_def record_block_def Let_def)

lemma touch_tracks:
  assumes d: "dirty_ok e" and t: "tid < kMaxThreads"
  shows "tracks {k} e (touch tid k e)"
proof (cases "bs_test k (block_dirty e (epoch e))")
  case True
  then have "bd e (epoch e) k" by (simp add: bd_def)
  then show ?thesis using d True by (auto simp: tracks_def touch_def same_rest_refl dirty_ok_def)
next
  case False
  let ?e = "touch tid k e"
  have e: "?e = mark_segment (seg k) (record_block tid k e)" using False by (simp add: touch_def)
  have fb: "flush_blocks ?e r = flush_blocks e r @
      (if r = tid \<and> length (flush_blocks e tid) \<noteq> kMaxFlushBlocks then [k] else [])" for r
    by (auto simp: e record_block_def Let_def)
  have up: "bucketed e j \<Longrightarrow> bucketed ?e j" for j
    by (fastforce simp: bucketed_def full_def all_buckets_def fb)
  have k: "bucketed ?e k"
    by (cases "length (flush_blocks e tid) = kMaxFlushBlocks")
      (use t in \<open>auto simp: bucketed_def full_def all_buckets_def fb intro!: exI [of _ tid] bexI [of _ tid]\<close>)
  have "bd ?e q j \<longleftrightarrow> bd e q j \<or> q = epoch e \<and> j = k" for q j
    by (auto simp: e bd_def)
  moreover have "sd ?e q s \<longleftrightarrow> sd e q s \<or> q = epoch e \<and> s = seg k" for q s
    by (simp add: e sd_mark_segment) (simp add: sd_def)
  ultimately show ?thesis
    using same_rest_touch [of e tid k] up k t by (auto simp: tracks_def fb)
qed

lemma touches_tracks:
  assumes "dirty_ok e" and "tid < kMaxThreads"
  shows "tracks (set ks) e (fold (touch tid) ks e) \<and> address_buffer (fold (touch tid) ks e) = address_buffer e"
  using assms(1)
proof (induction ks arbitrary: e)
  case Nil
  then show ?case by (simp add: tracks_refl)
next
  case (Cons k ks)
  note t = touch_tracks [OF Cons.prems assms(2), of k]
  have p: "epoch e < 2" using Cons.prems by (simp add: dirty_ok_def)
  have "address_buffer (touch tid k e) = address_buffer e" by (simp add: touch_def)
  with tracks_trans [OF t _ p] Cons.IH [OF tracks_dirty_ok [OF t Cons.prems]] show ?case by simp
qed

subsection \<open>The hooks\<close>

definition block_at :: "engine \<Rightarrow> nat \<Rightarrow> nat" where
  "block_at e addr = (addr - address_first e) div kBlockSize"

definition blocks_in :: "engine \<Rightarrow> nat \<Rightarrow> nat \<Rightarrow> nat set" where
  "blocks_in e addr len = block_at e ` {addr..<addr + len}"

lemma hook_routine_touch: "hook_routine tid addr e = touch tid (block_at e addr) e"
proof -
  have "(addr - address_first e) div kSegmentSize = seg (block_at e addr)"
    by (simp add: seg_def block_at_def segment_of_block)
  then show ?thesis by (simp add: hook_routine_def touch_def Let_def block_at_def)
qed

lemma hook_loop_touch:
  assumes "\<forall>s. last_seg = Some s \<longrightarrow> sd e (epoch e) s" and "d = k * kBlockSize"
  shows "hook_loop tid last_seg d stop e = fold (touch tid) [k..<(stop + (kBlockSize - 1)) div kBlockSize] e"
  using assms
proof (induction tid last_seg d stop e arbitrary: k rule: hook_loop.induct)
  case (1 tid last_seg d stop e)
  let ?N = "(stop + (kBlockSize - 1)) div kBlockSize"
  have lt: "d < stop \<longleftrightarrow> k < ?N" unfolding 1(5) by (auto simp: geometry)
  show ?case
  proof (cases "d < stop")
    case False
    then have z: "[k..<?N] = []" using lt by simp
    show ?thesis unfolding z using False by (subst hook_loop.simps) simp
  next
    case True
    have dv: "d div kBlockSize = k" "d div kSegmentSize = seg k" "d + kBlockSize = Suc k * kBlockSize"
      using segment_of_block [of d] 1(5) by (simp_all add: seg_def geometry)
    have up: "[k..<?N] = k # [Suc k..<?N]" using True lt by (simp add: upt_conv_Cons)
    show ?thesis
    proof (cases "bs_test k (block_dirty e (epoch e))")
      case b: True
      have "hook_loop tid last_seg (d + kBlockSize) stop e = fold (touch tid) [Suc k..<?N] e"
        by (rule 1(1) [OF True refl refl _ 1(4)]) (use b dv in simp_all)
      then show ?thesis
        unfolding up using True b by (subst hook_loop.simps) (simp add: dv(1,2) touch_def)
    next
      case nb: False
      let ?e1 = "record_block tid k e"
      have t: "touch tid k e = mark_segment (seg k) ?e1" using nb by (simp add: touch_def)
      show ?thesis
      proof (cases "Some (seg k) \<noteq> last_seg")
        case n: True
        have "hook_loop tid (Some (seg k)) (d + kBlockSize) stop (mark_segment (seg k) ?e1)
            = fold (touch tid) [Suc k..<?N] (mark_segment (seg k) ?e1)"
          by (rule 1(2) [OF True refl refl _ refl, unfolded dv(1,2)]) (use n nb dv in \<open>simp_all add: sd_mark_segment\<close>)
        then show ?thesis
          unfolding up using True nb n by (subst hook_loop.simps) (simp add: dv(1,2) t Let_def)
      next
        case l: False
        have m: "sd ?e1 (epoch ?e1) (seg k)" using 1(4) l by (simp add: sd_def)
        have "hook_loop tid last_seg (d + kBlockSize) stop ?e1 = fold (touch tid) [Suc k..<?N] ?e1"
          by (rule 1(3) [OF True refl refl _ refl, unfolded dv(1,2)]) (use l nb dv 1(4) in \<open>simp_all add: sd_def\<close>)
        then show ?thesis
          unfolding up using True nb l by (subst hook_loop.simps) (simp add: dv(1,2) t mark_segment_done [OF m] Let_def)
      qed
    qed
  qed
qed


lemma hook_range_tracks:
  assumes d: "dirty_ok e" and t: "tid < kMaxThreads" and len: "0 < len" and a: "address_first e \<le> addr"
  shows "tracks (blocks_in e addr len) e (hook_routine_range tid addr len e) \<and>
    address_buffer (hook_routine_range tid addr len e) = address_buffer e"
proof -
  let ?d = "addr - address_first e"
  let ?ks = "[?d div kBlockSize..<(?d + len + (kBlockSize - 1)) div kBlockSize]"
  have "hook_routine_range tid addr len e = fold (touch tid) ?ks e"
    unfolding hook_routine_range_def Let_def
    by (rule hook_loop_touch) (simp_all add: minus_mod_eq_div_mult)
  moreover have "set ?ks = blocks_in e addr len"
  proof -
    have "{?d..<?d + len} = (\<lambda>a. a - address_first e) ` {addr..<addr + len}"
      by (rule offset_range [OF a, symmetric])
    then show ?thesis unfolding range_blocks [OF len] by (simp add: blocks_in_def block_at_def image_image)
  qed
  ultimately show ?thesis using touches_tracks [OF d t, of ?ks] by simp
qed

subsection \<open>The address buffers\<close>

definition buffer_blocks :: "engine \<Rightarrow> nat \<Rightarrow> nat set" where
  "buffer_blocks e t = block_at e ` {a \<in> set (address_buffer e t). in_range e a}"

definition h_buffered :: "engine \<Rightarrow> nat \<Rightarrow> bool" where
  "h_buffered e k \<longleftrightarrow> (\<exists>t < kMaxThreads. k \<in> buffer_blocks e t)"

definition h_tracked :: "engine \<Rightarrow> nat \<Rightarrow> bool" where
  "h_tracked e k \<longleftrightarrow> bd e (epoch e) k \<or> h_buffered e k"

lemma same_rest_place: "same_rest e e' \<Longrightarrow> block_at e' = block_at e \<and> in_range e' = in_range e"
  by (simp add: block_at_def in_range_def fun_eq_iff same_restD)

lemma drain_touch:
  "fold (hook_buffered tid) as e = fold (touch tid) (map (block_at e) (filter (in_range e) as)) e"
proof (induction as arbitrary: e)
  case Nil
  then show ?case by simp
next
  case (Cons a as)
  have "block_at (touch tid k e) = block_at e" "in_range (touch tid k e) = in_range e" for k
    using same_rest_place [OF same_rest_touch [of e tid k]] by simp_all
  then show ?case using Cons.IH by (simp add: hook_buffered_def hook_routine_touch)
qed

lemma tracks_buffer: "tracks B e e' \<Longrightarrow> tracks B e (e'\<lparr>address_buffer := f\<rparr>)"
  by (simp add: tracks_def same_rest_def bd_def sd_def bucketed_def full_def all_buckets_def)

lemma clear_tracks:
  assumes "dirty_ok e" and "tid < kMaxThreads"
  shows "tracks (buffer_blocks e j) e (address_buffer_clear tid j e)"
    and "address_buffer (address_buffer_clear tid j e) = (address_buffer e)(j := [])"
proof -
  let ?e1 = "fold (hook_buffered tid) (address_buffer e j) e"
  have t: "tracks (buffer_blocks e j) e ?e1 \<and> address_buffer ?e1 = address_buffer e"
    using touches_tracks [OF assms, of "map (block_at e) (filter (in_range e) (address_buffer e j))"]
    by (simp add: drain_touch buffer_blocks_def)
  then show "tracks (buffer_blocks e j) e (address_buffer_clear tid j e)"
    unfolding address_buffer_clear_def Let_def using tracks_buffer by blast
  show "address_buffer (address_buffer_clear tid j e) = (address_buffer e)(j := [])"
    using t by (simp add: address_buffer_clear_def Let_def)
qed

lemma clear_tracked:
  assumes d: "dirty_ok e" and t: "tid < kMaxThreads" and j: "j < kMaxThreads"
  shows "h_tracked (address_buffer_clear tid j e) k \<longleftrightarrow> h_tracked e k"
proof -
  let ?e = "address_buffer_clear tid j e"
  note c = clear_tracks [OF d t, of j]
  note r = tracksD(1) [OF c(1)]
  have p: "epoch e < 2" using d by (simp add: dirty_ok_def)
  have "buffer_blocks ?e i = (if i = j then {} else buffer_blocks e i)" for i
    using same_rest_place [OF r] by (simp add: buffer_blocks_def c(2))
  then have "h_buffered ?e k \<longleftrightarrow> (\<exists>i < kMaxThreads. i \<noteq> j \<and> k \<in> buffer_blocks e i)"
    by (auto simp: h_buffered_def)
  moreover have "bd ?e (epoch ?e) k \<longleftrightarrow> bd e (epoch e) k \<or> k \<in> buffer_blocks e j"
    using tracksD(2) [OF c(1) p] same_restD(10) [OF r] by simp
  ultimately show ?thesis using j by (auto simp: h_tracked_def h_buffered_def)
qed

lemma drain_tracks:
  assumes "dirty_ok e" and "tid < kMaxThreads" and "\<forall>j \<in> set js. j < kMaxThreads"
  shows "tracks (\<Union>j \<in> set js. buffer_blocks e j) e (fold (address_buffer_clear tid) js e) \<and>
    address_buffer (fold (address_buffer_clear tid) js e) = (\<lambda>t. if t \<in> set js then [] else address_buffer e t) \<and>
    (\<forall>k. h_tracked (fold (address_buffer_clear tid) js e) k \<longleftrightarrow> h_tracked e k)"
  using assms(1,3)
proof (induction js arbitrary: e)
  case Nil
  then show ?case by (simp add: tracks_refl)
next
  case (Cons j js)
  let ?e1 = "address_buffer_clear tid j e"
  have j: "j < kMaxThreads" using Cons.prems(2) by simp
  note c = clear_tracks [OF Cons.prems(1) assms(2), of j]
  have p: "epoch e < 2" using Cons.prems by (simp add: dirty_ok_def)
  have d: "dirty_ok ?e1" by (rule tracks_dirty_ok [OF c(1) Cons.prems(1)])
  have b: "buffer_blocks ?e1 i = (if i = j then {} else buffer_blocks e i)" for i
    using same_rest_place [OF tracksD(1) [OF c(1)]] by (simp add: buffer_blocks_def c(2))
  have IH: "tracks (\<Union>i \<in> set js. buffer_blocks ?e1 i) ?e1 (fold (address_buffer_clear tid) js ?e1)"
    "address_buffer (fold (address_buffer_clear tid) js ?e1) = (\<lambda>t. if t \<in> set js then [] else address_buffer ?e1 t)"
    "h_tracked (fold (address_buffer_clear tid) js ?e1) k \<longleftrightarrow> h_tracked ?e1 k" for k
    using Cons.IH [OF d] Cons.prems(2) by simp_all
  have "buffer_blocks e j \<union> (\<Union>i \<in> set js. buffer_blocks ?e1 i) = (\<Union>i \<in> set (j # js). buffer_blocks e i)"
    by (auto simp: b split: if_splits)
  moreover have "tracks (buffer_blocks e j \<union> (\<Union>i \<in> set js. buffer_blocks ?e1 i)) e (fold (address_buffer_clear tid) js ?e1)"
    by (rule tracks_trans [OF c(1) IH(1) p])
  ultimately show ?case
    using IH(2,3) c(2) clear_tracked [OF Cons.prems(1) assms(2) j] by (auto simp: fun_eq_iff)
qed

lemma drain_all:
  assumes "dirty_ok e" and "tid < kMaxThreads"
  shows "tracks (Collect (h_buffered e)) e (address_buffer_clear_all tid e)"
    and "h_tracked (address_buffer_clear_all tid e) k \<longleftrightarrow> h_tracked e k"
    and "\<not> h_buffered (address_buffer_clear_all tid e) k"
proof -
  note d = drain_tracks [OF assms, of "[0..<kMaxThreads]"]
  have "(\<Union>j \<in> set [0..<kMaxThreads]. buffer_blocks e j) = Collect (h_buffered e)"
    by (force simp: h_buffered_def)
  then show "tracks (Collect (h_buffered e)) e (address_buffer_clear_all tid e)"
    "h_tracked (address_buffer_clear_all tid e) k \<longleftrightarrow> h_tracked e k"
    using d by (simp_all add: address_buffer_clear_all_def)
  have "address_buffer (address_buffer_clear_all tid e) t = []" if "t < kMaxThreads" for t
    using d that by (simp add: address_buffer_clear_all_def)
  then show "\<not> h_buffered (address_buffer_clear_all tid e) k"
    by (auto simp: h_buffered_def buffer_blocks_def)
qed

end
