(* ===== verification/Hybrid_Crash.thy ===== *)
theory Hybrid_Crash
  imports Hybrid_Track
begin

text \<open>
  The invariant of \<^verbatim>\<open>HybridInstEngine\<close> between operations, what it promises of the
  durable images, and the checkpoint: the memory of the program becomes the memory every later
  restart brings back, and, where no segment is overwritten in the side its state points to, a
  crash inside the checkpoint keeps the old or the new memory as a whole.
\<close>

subsection \<open>What a durable image brings back\<close>

text \<open>
  After \<^verbatim>\<open>recovery(SS_Main)\<close> the segments that are still in their initial state are
  not loaded: their memory is zero.
\<close>

definition h_stands :: "nat \<Rightarrow> (nat \<Rightarrow> nat) \<Rightarrow> (iloc \<Rightarrow> nat) \<Rightarrow> bool" where
  "h_stands ns snap pm \<longleftrightarrow> header_is ns pm \<and> (\<forall>x. x div kSegmentSize < ns \<longrightarrow>
     recovered_main pm x = snap x \<and>
     (rec_states SS_Main ns pm (x div kSegmentSize) = SS_Initial \<longrightarrow> snap x = 0))"

lemma header_is_valid: "header_is ns pm \<Longrightarrow> img_valid pm"
  by (auto simp: header_is_def img_valid_def)

lemma recovered_bound:
  assumes hd: "header_is ns pm" and s: "x div kSegmentSize < ns"
  shows "recovered_main pm x = (if pst pm (x div kSegmentSize) = SS_Back then pm (BackB x) else pm (MainB x))"
proof -
  have j: "(x div kSegmentSize) * kSegmentSize + x mod kSegmentSize = x" by simp
  have "bound_upto (pm HNrBack) pm (x div kSegmentSize) = Some (x div kSegmentSize)"
    using hd s bound_identity_upto by (auto simp: header_is_def)
  then show ?thesis by (simp add: recovered_main_def main_upto_def Let_def j)
qed

lemma h_rec_states_bound:
  assumes hd: "header_is ns pm" and "s < n" and "n \<le> ns"
  shows "rec_states t n pm s =
    (if pst pm s \<noteq> SS_Initial \<and> pst pm s \<noteq> t then t else pm (SegSt (other (pm HEpoch mod 2)) s))"
  using assms(2,3)
proof (induction n)
  case (Suc n)
  have b: "pm (B2M n) = n" "n \<noteq> kNullSegmentIndex" using hd Suc.prems by (auto simp: header_is_def)
  have skip: "rec_states t k pm s = pm (SegSt (other (pm HEpoch mod 2)) s)" if "k \<le> s" for k
    using that
  proof (induction k)
    case (Suc k)
    then have "pm (B2M k) = k" using hd Suc.prems \<open>s < Suc n\<close> \<open>Suc n \<le> ns\<close> by (auto simp: header_is_def)
    with Suc show ?case by simp
  qed simp
  show ?case
  proof (cases "s = n")
    case True
    then show ?thesis using b skip [of n] by simp
  next
    case False
    then show ?thesis using b Suc by simp
  qed
qed simp

lemma h_standsI:
  assumes hd: "header_is ns pm"
    and r: "\<And>x. x div kSegmentSize < ns \<Longrightarrow>
      (if pst pm (x div kSegmentSize) = SS_Back then pm (BackB x) else pm (MainB x)) = snap x"
    and i: "\<And>x. x div kSegmentSize < ns \<Longrightarrow> pst pm (x div kSegmentSize) = SS_Initial \<or> pst pm (x div kSegmentSize) = SS_Main \<Longrightarrow>
      pm (SegSt (other (pm HEpoch mod 2)) (x div kSegmentSize)) = SS_Initial \<Longrightarrow> snap x = 0"
  shows "h_stands ns snap pm"
  unfolding h_stands_def
proof (intro conjI allI impI hd)
  fix x assume x: "x div kSegmentSize < ns"
  show "recovered_main pm x = snap x" using recovered_bound [OF hd x] r [OF x] by simp
  assume "rec_states SS_Main ns pm (x div kSegmentSize) = SS_Initial"
  then show "snap x = 0"
    using h_rec_states_bound [OF hd x order_refl, of SS_Main] i [OF x] by (auto split: if_splits)
qed

lemma prepare_loads:
  "eimg (fold load_segment [0..<n] e) = eimg e \<and> nr_segments (fold load_segment [0..<n] e) = nr_segments e \<and>
   address_first (fold load_segment [0..<n] e) = address_first e \<and>
   work (fold load_segment [0..<n] e) x =
     (if x div kSegmentSize < n \<and> get_segment_state (eimg e) (x div kSegmentSize) \<noteq> SS_Initial
      then rd (eimg e) (MainB x) else work e x)"
proof (induction n)
  case (Suc n)
  have "get_main_segment n \<le> x \<and> x < get_main_segment n + kSegmentSize \<longleftrightarrow> x div kSegmentSize = n"
    using div_mult_range [OF kSegmentSize_pos, of n x] by (simp add: get_main_segment_def)
  with Suc show ?case by (auto simp: load_segment_def)
qed simp

lemma reopen_work:
  assumes hd: "header_is ns pm"
  shows "\<exists>e. open_engine mode0 base (nv_init pm) = Some e \<and> nr_segments e = ns \<and> address_first e = base \<and>
    (\<forall>x < ns * kSegmentSize. work e x =
       (if rec_states SS_Main ns pm (x div kSegmentSize) = SS_Initial then 0 else recovered_main pm x))"
proof -
  note v = header_is_valid [OF hd]
  obtain im1 where re: "restart SS_Main pm = Some (commit_segment_state_update im1)"
    by (rule restart_eq [OF v]) blast
  define im where "im = commit_segment_state_update im1"
  note rc = recovery_correct [OF v re, folded im_def]
  obtain im0 where im0: "Open_existing (nv_init pm) = Some im0" "recovery SS_Main im0 = Some im"
    using re by (auto simp: restart_def im_def split: option.splits)
  have ns: "get_nr_main_segments im0 = ns"
    using im0(1) hd by (auto simp: Open_existing_def get_nr_main_segments_def attach_def rd_def header_is_def split: if_splits)
  obtain sd bd where al: "bs_allocate ns bs_new = Some sd" "bs_allocate (ns * kBlocksPerSegment) bs_new = Some bd"
    by (simp add: bs_allocate_def bs_new_def)
  obtain e0 where e0: "new_engine mode0 im0 ns (ns * kBlocksPerSegment) (ns * kSegmentSize) base = Some e0"
    "nr_segments e0 = ns" "address_first e0 = base" "work e0 = (\<lambda>_. 0)"
    using al by (simp add: new_engine_def)
  define e1 where "e1 = prepare_working_memory (e0\<lparr>eimg := im\<rparr>)"
  note p = prepare_loads [of ns "e0\<lparr>eimg := im\<rparr>"]
  have e1: "e1 = fold load_segment [0..<ns] (e0\<lparr>eimg := im\<rparr>)" using e0 by (simp add: e1_def prepare_working_memory_def)
  have "open_engine mode0 base (nv_init pm) = Some (e1\<lparr>has_snapshot := exist_snapshot (eimg e1)\<rparr>)"
    using im0 e0(1) by (simp add: open_engine_def ns Let_def e1_def)
  moreover have "work e1 x = (if rec_states SS_Main ns pm (x div kSegmentSize) = SS_Initial then 0 else recovered_main pm x)"
    if x: "x < ns * kSegmentSize" for x
  proof -
    have s: "x div kSegmentSize < ns" using x by (simp add: div_lt_segments)
    have nm: "pm HNrMain = ns" "pm HNrBack = ns" using hd by (simp_all add: header_is_def)
    have "rd im (MainB x) = recovered_main pm x" using rc(1) [of x] x nm by simp
    moreover have "get_segment_state im (x div kSegmentSize) = rec_states SS_Main ns pm (x div kSegmentSize)"
      using rc(8) [of "x div kSegmentSize"] nm s by simp
    ultimately show ?thesis using p [of x] s e0(4) by (simp add: e1)
  qed
  ultimately show ?thesis using p e0 by (auto simp: e1)
qed

lemma h_stands_reopen:
  assumes h: "h_stands ns snap pm"
  shows "\<exists>e. open_engine mode0 base (nv_init pm) = Some e \<and> nr_segments e = ns \<and> address_first e = base \<and>
    (\<forall>x < ns * kSegmentSize. work e x = snap x)"
  using reopen_work [of ns pm mode0 base] h unfolding h_stands_def by (fastforce simp: div_lt_segments)

subsection \<open>Overwritten data cells\<close>

lemma overwrites_image:
  assumes ow: "overwrites V (nv im) m" and V: "\<forall>l. V l \<noteq> None \<longrightarrow> is_data_cell l \<or> l = HAttr"
    and h: "hdr_ok im" "synced im" and p: "pend m = (\<lambda>_. None)"
  defines "im' \<equiv> im\<lparr>nv := m\<rparr>"
  shows "hdr_ok im'" "synced im'" "header_is ns (rd im) \<Longrightarrow> header_is ns (rd im')"
    "get_segment_state im' = get_segment_state im" "active im' = active im"
    "settled (nv im) l \<Longrightarrow> quiet m l"
proof -
  have n: "rd im' l = cur m l" "nv im' = m" "segment_state_dirty im' = segment_state_dirty im" for l
    by (simp_all add: im'_def rd_def)
  have r: "cur m l = rd im l" if "\<not> is_data_cell l" "l \<noteq> HAttr" for l
  proof -
    have "V l = None" using V that by blast
    then show ?thesis using overwritesD(1) [OF ow, of l] by (simp add: rd_def)
  qed
  show q: "settled (nv im) l \<Longrightarrow> quiet m l" for l
    by (rule settled_quiet) (simp_all add: p overwritesD(2) [OF ow])
  have qq: "quiet (nv im) l \<Longrightarrow> quiet m l" for l by (rule q) (rule quiet_settled)
  show a: "active im' = active im" by (simp add: active_def r n)
  show g: "get_segment_state im' = get_segment_state im"
    by (simp add: fun_eq_iff get_segment_state_active a r n)
  show "hdr_ok im'" using h(1) qq by (simp add: hdr_ok_def r n)
  have sq: "settled (nv im) l \<Longrightarrow> settled m l" for l by (rule overwritesD(2) [OF ow])
  show "synced im'" using h(2) by (auto simp: synced_def upd_ok_def r n a g intro!: qq sq)
  show "header_is ns (rd im) \<Longrightarrow> header_is ns (rd im')" by (simp add: header_is_def r n)
qed


subsection \<open>The invariant\<close>

definition hst :: "engine \<Rightarrow> nat \<Rightarrow> nat" where "hst e s = get_segment_state (eimg e) s"

text \<open>The state that says that side \<open>p\<close> holds the checkpoint.\<close>

definition side_state :: "nat \<Rightarrow> nat" where "side_state p = (if p \<noteq> 0 then SS_Back else SS_Main)"

lemma target_side: "target_state e = side_state (epoch e)"
  by (simp add: target_state_def side_state_def)

text \<open>Blocks of the last checkpoint still to be copied to the side of this epoch.\<close>

definition stale :: "engine \<Rightarrow> nat \<Rightarrow> bool" where
  "stale e k \<longleftrightarrow> mode e = FMODE_WBINVD \<and> bd e (1 - epoch e) k"

definition h_base :: "engine \<Rightarrow> bool" where
  "h_base e \<longleftrightarrow> 0 < nr_segments e \<and> 64 dvd nr_segments e \<and> layout_ok e
     \<and> capacity e = nr_segments e * kSegmentSize \<and> kBlockSize dvd address_first e
     \<and> header_is (nr_segments e) (rd (eimg e)) \<and> hdr_ok (eimg e) \<and> synced (eimg e)
     \<and> visible (nv (eimg e)) \<and> pend (nv (eimg e)) = (\<lambda>_. None)"

definition h_data :: "engine \<Rightarrow> (nat \<Rightarrow> nat) \<Rightarrow> bool" where
  "h_data e snap \<longleftrightarrow> (\<forall>x. x div kSegmentSize < nr_segments e \<longrightarrow>
     quiet (nv (eimg e)) (MainB x) \<and> quiet (nv (eimg e)) (BackB x) \<and>
     rd (eimg e) (side_cell (1 - epoch e) x) = snap x \<and>
     (\<not> stale e (x div kBlockSize) \<longrightarrow> rd (eimg e) (side_cell (epoch e) x) = snap x) \<and>
     (\<not> h_tracked e (x div kBlockSize) \<longrightarrow> work e x = snap x) \<and>
     (hst e (x div kSegmentSize) = SS_Initial \<longrightarrow> snap x = 0))"

definition h_states :: "engine \<Rightarrow> bool" where
  "h_states e \<longleftrightarrow> (\<forall>s < nr_segments e.
     (hst e s = SS_Initial \<or> hst e s = SS_Main \<or> hst e s = SS_Back) \<and>
     (sd e (1 - epoch e) s \<longrightarrow> hst e s = side_state (1 - epoch e)))"

definition h_track :: "engine \<Rightarrow> nat set \<Rightarrow> bool" where
  "h_track e H \<longleftrightarrow> (\<forall>k. bd e (epoch e) k \<longrightarrow> bucketed e k) \<and> (\<forall>k. h_tracked e k \<longleftrightarrow> k \<in> H) \<and>
     (\<forall>s. sd e (epoch e) s \<longrightarrow> (\<exists>k. bd e (epoch e) k \<and> seg k = s))"

definition hinv :: "engine \<Rightarrow> nat set \<Rightarrow> (nat \<Rightarrow> nat) \<Rightarrow> bool" where
  "hinv e H snap \<longleftrightarrow> h_base e \<and> h_data e snap \<and> h_states e \<and> h_track e H"

lemma hinv_base:
  assumes "hinv e H snap"
  shows "0 < nr_segments e" "64 dvd nr_segments e" "layout_ok e" "capacity e = nr_segments e * kSegmentSize"
    "kBlockSize dvd address_first e" "header_is (nr_segments e) (rd (eimg e))" "hdr_ok (eimg e)" "synced (eimg e)"
    "visible (nv (eimg e))" "pend (nv (eimg e)) = (\<lambda>_. None)" "epoch e < 2" "dirty_ok e"
proof -
  have b: "h_base e" using assms by (simp add: hinv_def)
  then show "0 < nr_segments e" "64 dvd nr_segments e" "capacity e = nr_segments e * kSegmentSize"
    "kBlockSize dvd address_first e" "header_is (nr_segments e) (rd (eimg e))" "hdr_ok (eimg e)" "synced (eimg e)"
    "visible (nv (eimg e))" "pend (nv (eimg e)) = (\<lambda>_. None)" and l: "layout_ok e"
    by (simp_all add: h_base_def)
  show "epoch e < 2" by (rule layout_okD(3) [OF l])
  then show "dirty_ok e" using layout_okD(5) [OF l] by (simp add: dirty_ok_def)
qed

lemma hinv_data:
  assumes "hinv e H snap" and "x div kSegmentSize < nr_segments e"
  shows "quiet (nv (eimg e)) (MainB x)" "quiet (nv (eimg e)) (BackB x)"
    "rd (eimg e) (side_cell (1 - epoch e) x) = snap x"
    "\<not> stale e (x div kBlockSize) \<Longrightarrow> rd (eimg e) (side_cell (epoch e) x) = snap x"
    "\<not> h_tracked e (x div kBlockSize) \<Longrightarrow> work e x = snap x"
    "hst e (x div kSegmentSize) = SS_Initial \<Longrightarrow> snap x = 0"
  using assms by (simp_all add: hinv_def h_data_def del: side_cell.simps)

lemma hinv_states:
  assumes "hinv e H snap" and "s < nr_segments e"
  shows "hst e s = SS_Initial \<or> hst e s = SS_Main \<or> hst e s = SS_Back"
    "sd e (1 - epoch e) s \<Longrightarrow> hst e s = side_state (1 - epoch e)"
  using assms by (simp_all add: hinv_def h_states_def)

lemma hinv_track:
  assumes "hinv e H snap"
  shows "bd e (epoch e) k \<Longrightarrow> bucketed e k" "h_tracked e k \<longleftrightarrow> k \<in> H"
    "sd e (epoch e) s \<Longrightarrow> \<exists>k. bd e (epoch e) k \<and> seg k = s"
  using assms by (simp_all add: hinv_def h_track_def)

lemma seg_of_byte: "seg (x div kBlockSize) = x div kSegmentSize"
  by (simp add: seg_def segment_of_block)

text \<open>A segment that is stale on one side has its checkpoint on the other.\<close>

lemma stale_state:
  assumes i: "hinv e H snap" and st: "stale e k"
  shows "seg k < nr_segments e" "hst e (seg k) = side_state (1 - epoch e)"
proof -
  note L = layout_okD [OF hinv_base(3) [OF i]]
  have b: "bd e (1 - epoch e) k" using st by (simp add: stale_def)
  show s: "seg k < nr_segments e" by (rule L(4) [OF one_minus(1) [OF L(3)] b])
  show "hst e (seg k) = side_state (1 - epoch e)"
    by (rule hinv_states(2) [OF i s L(5) [OF one_minus(1) [OF L(3)] b]])
qed

lemma side_state_simps: "SS_Main \<noteq> SS_Back" "SS_Initial \<noteq> SS_Main" "SS_Initial \<noteq> SS_Back"
  "side_state p \<noteq> SS_Initial" "side_state p = SS_Main \<or> side_state p = SS_Back"
  by (simp_all add: side_state_def SS_Main_def SS_Back_def SS_Initial_def)

lemma side_pair: "p < 2 \<Longrightarrow> (side_cell p x = MainB x \<and> side_cell (1 - p) x = BackB x \<and> side_state p = SS_Main \<and> side_state (1 - p) = SS_Back)
    \<or> (side_cell p x = BackB x \<and> side_cell (1 - p) x = MainB x \<and> side_state p = SS_Back \<and> side_state (1 - p) = SS_Main)"
  by (cases p) (auto simp: side_state_def)

text \<open>
  While the blocks \<open>K\<close> of the side of this epoch are being written, an image still stands for
  the last checkpoint if no segment of these blocks has its checkpoint on that side.
\<close>

definition off_side :: "engine \<Rightarrow> nat \<Rightarrow> bool" where
  "off_side e s \<longleftrightarrow> hst e s \<noteq> side_state (epoch e) \<and> (epoch e = 0 \<longrightarrow> hst e s \<noteq> SS_Initial)"

lemma stale_off_side:
  assumes "hinv e H snap" and "stale e k"
  shows "off_side e (seg k)"
  using stale_state(2) [OF assms] hinv_base(11) [OF assms(1)] side_state_simps(1,4)
  by (auto simp: off_side_def side_state_def)

lemma hinv_header:
  assumes i: "hinv e H snap" and q: "\<And>l. quiet (nv (eimg e)) l \<Longrightarrow> \<not> is_data_cell l \<Longrightarrow> pm l = rd (eimg e) l"
  shows "header_is (nr_segments e) pm"
    and "s < nr_segments e \<Longrightarrow> pst pm s = hst e s" "s < nr_segments e \<Longrightarrow> pm (SegSt (other (pm HEpoch mod 2)) s) = hst e s"
proof -
  note b = hinv_base [OF i]
  have nm: "rd (eimg e) HNrMain = nr_segments e" using b(6) by (simp add: header_is_def)
  have hq: "pm HEpoch = rd (eimg e) HEpoch" "pm HMagic = rd (eimg e) HMagic" "pm HNrMain = rd (eimg e) HNrMain"
    "pm HNrBack = rd (eimg e) HNrBack" "pm (B2M j) = rd (eimg e) (B2M j)" for j
    using b(7) by (simp_all add: q hdr_ok_def)
  show "header_is (nr_segments e) pm" using b(6) by (simp add: header_is_def hq)
  assume s: "s < nr_segments e"
  then have u: "quiet (nv (eimg e)) (SegSt (active (eimg e)) s)" "settled (nv (eimg e)) (SegSt (other (active (eimg e))) s)"
    "rd (eimg e) (SegSt (other (active (eimg e))) s) = hst e s"
    using b(8) nm by (auto simp: synced_def upd_ok_def hst_def)
  have uo: "quiet (nv (eimg e)) (SegSt (other (active (eimg e))) s)"
    by (rule settled_quiet) (simp_all add: b(10) u(2))
  show "pst pm s = hst e s" "pm (SegSt (other (pm HEpoch mod 2)) s) = hst e s"
    using q [OF u(1)] q [OF uo] u(3) by (simp_all add: pst_def hq hst_def get_segment_state_active active_def)
qed

lemma stands_writing:
  assumes i: "hinv e H snap" and K: "\<And>k. K k \<Longrightarrow> off_side e (seg k)"
    and q: "\<And>l. quiet (nv (eimg e)) l \<Longrightarrow> (\<And>x. K (x div kBlockSize) \<Longrightarrow> l \<noteq> side_cell (epoch e) x) \<Longrightarrow> pm l = rd (eimg e) l"
  shows "h_stands (nr_segments e) snap pm"
proof (rule h_standsI)
  note b = hinv_base [OF i]
  have "pm l = rd (eimg e) l" if "quiet (nv (eimg e)) l" "\<not> is_data_cell l" for l
    using that by (intro q) (auto split: if_splits)
  note h = hinv_header [OF i this]
  show "header_is (nr_segments e) pm" using h(1) by blast
  fix x assume x: "x div kSegmentSize < nr_segments e"
  note d = hinv_data [OF i x]
  let ?s = "x div kSegmentSize" and ?k = "x div kBlockSize"
  have pp: "epoch e = 0 \<or> epoch e = 1" using b(11) by auto
  have o: "pm (side_cell (1 - epoch e) x) = snap x"
    unfolding d(3) [symmetric] by (rule q) (use d(1,2) pp in auto)
  have c: "pm (side_cell (epoch e) x) = snap x" if "\<not> K ?k" "\<not> stale e ?k"
    unfolding d(4) [OF that(2), symmetric] by (rule q) (use d(1,2) that(1) in auto)
  have st: "pst pm ?s = hst e ?s" using h(2) x by blast
  show "(if pst pm ?s = SS_Back then pm (BackB x) else pm (MainB x)) = snap x"
  proof (cases "K ?k \<or> stale e ?k")
    case True
    then have "off_side e ?s" using K [of ?k] stale_off_side [OF i, of ?k] by (auto simp: seg_of_byte)
    then show ?thesis
      using o pp hinv_states(1) [OF i x] unfolding st off_side_def by (auto simp: side_state_def side_state_simps(1))
  next
    case False
    then show ?thesis using o c pp by auto
  qed
  show "pm (SegSt (other (pm HEpoch mod 2)) ?s) = SS_Initial \<Longrightarrow> snap x = 0"
    using d(6) h(3) [OF _ _ x] by auto
qed

text \<open>At rest, every durable image stands for the memory of the last checkpoint.\<close>

lemma hinv_stands:
  assumes i: "hinv e H snap" and pm: "\<forall>l. pm l \<in> dur (nv (eimg e)) l"
  shows "h_stands (nr_segments e) snap pm"
proof (rule stands_writing [OF i, of "\<lambda>_. False"])
  show "pm l = rd (eimg e) l" if "quiet (nv (eimg e)) l" for l
    using pm quiet_durable [OF that] by (metis rd_def singletonD)
qed simp

text \<open>Tracking more blocks keeps the invariant.\<close>

lemma hinv_tracks:
  assumes i: "hinv e H snap" and t: "tracks B e e'" and B: "\<And>k. k \<in> B \<Longrightarrow> seg k < nr_segments e"
    and up: "H \<subseteq> H'" and H: "\<And>k. h_tracked e' k \<longleftrightarrow> k \<in> H'"
  shows "hinv e' H' snap"
proof -
  note b = hinv_base [OF i] and r = same_restD [OF tracksD(1) [OF t]] and T = tracksD [OF t]
  note L = layout_okD [OF b(3)]
  have lay: "layout_ok e'"
    unfolding layout_ok_def
  proof (intro conjI allI impI ballI)
    show "bound_identity e'" using L(1) r by (simp add: bound_identity_def)
    show "nr_blocks e' = nr_segments e' * kBlocksPerSegment" "epoch e' < 2" using L(2,3) r by simp_all
    fix q :: nat assume q: "q < 2"
    show "seg k < nr_segments e'" if "bd e' q k" for k
      using that T(2) [OF q] L(4) [OF q] B r by auto
    show "sd e' q (seg k)" if "bd e' q k" for k
      using that T(2) [OF q] T(3) [OF q] L(5) [OF q] by auto
    show "s < nr_segments e'" if "sd e' q s" for s
      using that T(3) [OF q] L(6) [OF q] B r by auto
  next
    fix s k assume k: "k \<in> set (flush_blocks e' s)"
    then show "bd e' (epoch e') k" using T(4) [OF k] L(7) T(2) [OF L(3)] r by auto
    show "s < kMaxThreads" using T(4) [OF k] L(8) by blast
  qed
  have o: "bd e' (1 - epoch e) = bd e (1 - epoch e)" "sd e' (1 - epoch e) = sd e (1 - epoch e)"
    using T(2,3) [OF one_minus(1) [OF b(11)]] one_minus(3) [OF b(11)] by (auto simp: fun_eq_iff)
  have st: "stale e' = stale e" "hst e' = hst e" using r o by (simp_all add: stale_def hst_def fun_eq_iff)
  have "h_base e'" using i lay r by (simp add: hinv_def h_base_def)
  moreover have "h_data e' snap"
    unfolding h_data_def using hinv_data [OF i] up H hinv_track(2) [OF i] by (simp add: r st del: side_cell.simps) blast
  moreover have "h_states e'" using hinv_states [OF i] unfolding h_states_def r o st by blast
  moreover have "h_track e' H'"
    unfolding h_track_def
  proof (intro conjI allI impI ballI)
    show "bucketed e' k" if "bd e' (epoch e') k" for k
      using that T(2) [OF b(11)] T(5,6) hinv_track(1) [OF i] r by auto
    show "h_tracked e' k \<longleftrightarrow> k \<in> H'" for k by (rule H)
    show "\<exists>k. bd e' (epoch e') k \<and> seg k = s" if "sd e' (epoch e') s" for s
      using that T(2,3) [OF b(11)] hinv_track(3) [OF i, of s] r by auto
  qed
  ultimately show ?thesis by (simp add: hinv_def)
qed

end
