(* ===== verification/Hybrid_Checkpoint.thy ===== *)
theory Hybrid_Checkpoint
  imports Hybrid_Crash
begin

text \<open>
  The checkpoint of \<^verbatim>\<open>HybridInstEngine\<close> step by step: draining the buffers and choosing
  the mode, the copies to the side of the epoch, the commit of the segment states, and the copies
  to the other side. \<open>safe_when G\<close> carries crash consistency along, for checkpoints that
  overwrite no segment in place (\<open>G\<close>).
\<close>

subsection \<open>Choosing the mode\<close>

lemma count_blocks_step: "count_blocks n (t, a, f) = (t + n, a \<and> n = 0, f \<or> t + n \<ge> kMaxFlushBlocks)"
  by (simp add: count_blocks_def Let_def)

lemma count_blocks_fold:
  "fst (snd (fold count_blocks ns (t, a, f))) \<longleftrightarrow> a \<and> (\<forall>n \<in> set ns. n = 0)"
  "\<not> snd (snd (fold count_blocks ns (t, a, f))) \<Longrightarrow> \<not> f \<and> (\<forall>n \<in> set ns. n < kMaxFlushBlocks)"
proof (induction ns arbitrary: t a f)
  case (Cons n ns)
  { case 1 show ?case using Cons.IH(1) by (auto simp: count_blocks_step) }
  { case 2
    then have "\<not> snd (snd (fold count_blocks ns (t + n, a \<and> n = 0, f \<or> t + n \<ge> kMaxFlushBlocks)))"
      by (simp add: count_blocks_step)
    from Cons.IH(2) [OF this] show ?case by auto }
qed simp_all

lemma h_determine_mode:
  fixes e :: engine
  obtains M where "determine_flush_mode e = e\<lparr>prev_mode := mode e, mode := M\<rparr>"
    "M = FMODE_NO_ACTION \<longleftrightarrow> (\<forall>t < kMaxThreads. flush_blocks e t = [])"
    "M = FMODE_USE_FLUSH_BLOCKS \<Longrightarrow> \<not> full e"
proof -
  let ?r = "fold count_blocks (map (\<lambda>i. length (flush_blocks e i)) [0..<kMaxThreads]) (0, True, False)"
  obtain t a f where r: "?r = (t, a, f)" by (cases ?r) auto
  have a: "a \<longleftrightarrow> (\<forall>t < kMaxThreads. flush_blocks e t = [])"
    using count_blocks_fold(1) [of "map (\<lambda>i. length (flush_blocks e i)) [0..<kMaxThreads]" 0 True False] r by auto
  have f: "\<not> f \<Longrightarrow> \<not> full e"
    using count_blocks_fold(2) [of "map (\<lambda>i. length (flush_blocks e i)) [0..<kMaxThreads]" 0 True False] r
    by (force simp: full_def not_le)
  show ?thesis
    by (rule that [of "if a then FMODE_NO_ACTION else if f then FMODE_WBINVD else FMODE_USE_FLUSH_BLOCKS"])
      (use r a f in \<open>auto simp: determine_flush_mode_def Let_def split: if_splits\<close>)
qed

lemma buffered_seg:
  assumes "capacity e = nr_segments e * kSegmentSize" and "h_buffered e k"
  shows "seg k < nr_segments e"
proof -
  obtain a where a: "in_range e a" "block_at e a = k" using assms(2) by (auto simp: h_buffered_def buffer_blocks_def)
  then have "(a - address_first e) div kSegmentSize < nr_segments e"
    using assms(1) by (auto simp: in_range_def div_lt_mult_iff)
  then show ?thesis using a(2) seg_of_byte [of "a - address_first e"] by (simp add: block_at_def)
qed

lemma drained:
  assumes i: "hinv e H snap" and t: "tid < kMaxThreads"
  defines "e0 \<equiv> address_buffer_clear_all tid e"
  shows "hinv e0 H snap" "\<not> h_buffered e0 k" "h_tracked e0 k \<longleftrightarrow> h_tracked e k" "same_rest e e0"
proof -
  note b = hinv_base [OF i]
  note d = drain_all [OF b(12) t, folded e0_def]
  show "\<not> h_buffered e0 k" "h_tracked e0 k \<longleftrightarrow> h_tracked e k" by (rule d(3), rule d(2))
  show "same_rest e e0" by (rule tracksD(1) [OF d(1)])
  show "hinv e0 H snap"
    by (rule hinv_tracks [OF i d(1) _ order_refl]) (use buffered_seg [OF b(4)] d(2) hinv_track(2) [OF i] in simp_all)
qed

text \<open>The invariant does not look at values outside the pool, nor at the bookkeeping of the modes.\<close>

lemma hinv_cong:
  assumes "hinv e H snap" and "\<And>x. x div kSegmentSize < nr_segments e \<Longrightarrow> snap' x = snap x"
  shows "hinv e H snap'"
  using assms by (simp add: hinv_def h_data_def del: side_cell.simps)

lemma hinv_mode:
  assumes i: "hinv e H snap" and m: "\<And>k. \<not> stale e k" "M \<noteq> FMODE_WBINVD"
  shows "hinv (e\<lparr>prev_mode := P, mode := M\<rparr>) H snap"
proof -
  let ?e = "e\<lparr>prev_mode := P, mode := M\<rparr>"
  have s: "bd ?e = bd e" "sd ?e = sd e" "all_buckets ?e = all_buckets e" "hst ?e = hst e" "h_tracked ?e = h_tracked e"
    "bucketed ?e = bucketed e" "stale ?e = (\<lambda>_. False)" "bound_identity ?e = bound_identity e"
    using m(2) by (simp_all add: bd_def sd_def all_buckets_def hst_def h_tracked_def h_buffered_def buffer_blocks_def
        block_at_def in_range_def bucketed_def full_def stale_def bound_identity_def fun_eq_iff)
  have l: "layout_ok ?e = layout_ok e" by (simp add: layout_ok_def s)
  show ?thesis
    using i m(1) by (simp add: hinv_def h_base_def h_data_def h_states_def h_track_def s l del: side_cell.simps)
qed

subsection \<open>The first copies\<close>

definition to_copy :: "engine \<Rightarrow> nat \<Rightarrow> bool" where
  "to_copy e k \<longleftrightarrow> bd e (epoch e) k \<or> stale e k"

text \<open>No segment is overwritten on the side that holds its checkpoint.\<close>

definition in_turn :: "engine \<Rightarrow> bool" where
  "in_turn e \<longleftrightarrow> (\<forall>k. bd e (epoch e) k \<longrightarrow> off_side e (seg k))"

definition started :: "flush_mode \<Rightarrow> engine \<Rightarrow> engine" where
  "started M e = e\<lparr>prev_mode := mode e, mode := M, checkpoint_in_progress := True\<rparr>"

lemma started_simps [simp]:
  "eimg (started M e) = eimg e" "work (started M e) = work e" "nr_segments (started M e) = nr_segments e"
  "nr_blocks (started M e) = nr_blocks e" "capacity (started M e) = capacity e" "address_first (started M e) = address_first e"
  "segment_dirty (started M e) = segment_dirty e" "block_dirty (started M e) = block_dirty e" "epoch (started M e) = epoch e"
  "flush_blocks (started M e) = flush_blocks e" "address_buffer (started M e) = address_buffer e"
  "mode (started M e) = M" "prev_mode (started M e) = mode e"
  by (simp_all add: started_def)

lemma started_sets [simp]: "bd (started M e) = bd e" "sd (started M e) = sd e" "all_buckets (started M e) = all_buckets e"
  by (simp_all add: bd_def sd_def all_buckets_def fun_eq_iff)

lemma started_layout [simp]: "layout_ok (started M e) = layout_ok e" "bound_identity (started M e) = bound_identity e"
  by (simp_all add: layout_ok_def bound_identity_def)

definition mem_ok :: "nat \<Rightarrow> nat \<Rightarrow> (nat \<Rightarrow> nat) \<Rightarrow> (nat \<Rightarrow> nat) \<Rightarrow> imem \<Rightarrow> bool" where
  "mem_ok ns p W snap m \<longleftrightarrow> (\<forall>x. x div kSegmentSize < ns \<longrightarrow> quiet m (MainB x) \<and> quiet m (BackB x) \<and>
     cur m (side_cell p x) = W x \<and> cur m (side_cell (1 - p) x) = snap x)"

lemma first_copies:
  assumes i: "hinv e H snap" and nb: "\<And>k. \<not> h_buffered e k" and n: "0 < n"
    and M: "M \<noteq> FMODE_NO_ACTION" "M = FMODE_USE_FLUSH_BLOCKS \<Longrightarrow> \<not> full e"
  obtains m where "foldM (first_phase n) [0..<n] (started M e) = Some (with_nv m (started M e))"
    "pend m = (\<lambda>_. None)" "writes (epoch e) (work e) (to_copy e) (nv (eimg e)) m"
    "mem_ok (nr_segments e) (epoch e) (work e) snap m"
    "in_turn e \<and> crash_safe (h_stands (nr_segments e) snap) (nv (eimg e)) \<longrightarrow> crash_safe (h_stands (nr_segments e) snap) m"
proof -
  note b = hinv_base [OF i]
  let ?c = "started M e" and ?p = "epoch e" and ?m0 = "nv (eimg e)"
  have full: "k \<in> set (all_buckets ?c)" if "mode ?c \<noteq> FMODE_WBINVD" "bd ?c (epoch ?c) k" for k
  proof -
    have "M = FMODE_USE_FLUSH_BLOCKS" using that(1) M(1) by (cases M) auto
    then show ?thesis using hinv_track(1) [OF i, of k] that(2) M(2) by (simp add: bucketed_def)
  qed
  have l: "layout_ok ?c" using b(3) by simp
  obtain m where m: "foldM (first_phase n) [0..<n] ?c = Some (with_nv m ?c)" "pend m = (\<lambda>_. None)"
    "writes (epoch ?c) (work ?c) (\<lambda>k. bd ?c (epoch ?c) k \<or> prev_mode ?c = FMODE_WBINVD \<and> bd ?c (1 - epoch ?c) k)
       (nv (eimg ?c)) m"
    by (rule first_phase_all [OF l n]) (use full in blast)+
  have w: "writes ?p (work e) (to_copy e) ?m0 m"
    using m(3) by (simp add: to_copy_def [abs_def] stale_def)
  have pp: "?p = 0 \<or> ?p = 1" using b(11) by auto
  have ok: "mem_ok (nr_segments e) ?p (work e) snap m"
    unfolding mem_ok_def
  proof (intro allI impI conjI)
    fix x assume x: "x div kSegmentSize < nr_segments e"
    note d = hinv_data [OF i x]
    show "quiet m (MainB x)" "quiet m (BackB x)"
      by (rule settled_quiet, simp add: m(2), rule overwritesD(2) [OF w quiet_settled], rule d(1) d(2))+
    show "cur m (side_cell (1 - ?p) x) = snap x"
      using overwritesD(1) [OF w, of "side_cell (1 - ?p) x"] d(3) pp by (auto simp: rd_def)
    show "cur m (side_cell ?p x) = work e x"
    proof (cases "to_copy e (x div kBlockSize)")
      case True
      then show ?thesis using overwritesD(1) [OF w, of "side_cell ?p x"] pp by auto
    next
      case False
      then have "\<not> h_tracked e (x div kBlockSize)" "\<not> stale e (x div kBlockSize)"
        using nb by (simp_all add: to_copy_def h_tracked_def)
      then show ?thesis using overwritesD(1) [OF w, of "side_cell ?p x"] False d(4,5) pp by (auto simp: rd_def)
    qed
  qed
  have safe: "crash_safe (h_stands (nr_segments e) snap) m"
    if t: "in_turn e" and cr: "crash_safe (h_stands (nr_segments e) snap) ?m0"
  proof -
    define D where "D l = (if quiet ?m0 l then insert (cur ?m0 l) {v. side_map ?p (work e) (to_copy e) l = Some v} else UNIV)" for l
    have "confined D ?m0" unfolding confined_def D_def using quiet_confined [of ?m0] by auto
    then have c: "confined D m \<and> grows D ?m0 m" by (rule overwritesD(4) [OF w]) (simp add: D_def)
    show ?thesis
    proof (rule confined_safe [OF cr])
      fix pm assume pm: "\<forall>l. pm l \<in> D l"
      show "h_stands (nr_segments e) snap pm"
      proof (rule stands_writing [OF i, of "to_copy e"])
        show "off_side e (seg k)" if "to_copy e k" for k
          using that t stale_off_side [OF i] by (auto simp: to_copy_def in_turn_def)
        fix l assume l: "quiet ?m0 l" "\<And>x. to_copy e (x div kBlockSize) \<Longrightarrow> l \<noteq> side_cell ?p x"
        have "side_map ?p (work e) (to_copy e) l \<noteq> Some v" for v
          using l(2) by (auto simp: side_map_Some simp del: side_cell.simps)
        then show "pm l = rd (eimg e) l" using spec [OF pm, of l] l(1) by (simp add: D_def rd_def)
      qed
    qed (use c in auto)
  qed
  show ?thesis by (rule that [OF m(1,2) w ok]) (use safe in blast)
qed


subsection \<open>The commit\<close>

definition new_state :: "engine \<Rightarrow> nat \<Rightarrow> nat" where
  "new_state e s = (if sd e (epoch e) s \<or> sd e (1 - epoch e) s then side_state (epoch e) else hst e s)"

lemma h_foldM_set_state_e:
  "foldM (set_state_e st) segs e = map_option (\<lambda>im. e\<lparr>eimg := im\<rparr>) (foldM (\<lambda>s. set_segment_state s st) segs (eimg e))"
proof (induction segs arbitrary: e)
  case (Cons s segs)
  show ?case
    by (cases "set_segment_state s st (eimg e)")
      (simp_all add: set_state_e_def [of st s e] Cons.IH option.map_comp comp_def)
qed simp

lemma h_commit_layout_group:
  "commit_layout_state st e = map_option (\<lambda>im. e\<lparr>eimg := im\<rparr>) (commit_group st (layout_segments e) (eimg e))"
proof -
  have l: "layout_segments (map_img f e) = layout_segments e" for f by (simp add: layout_segments_def map_img_def)
  show ?thesis
    by (simp add: commit_layout_state_def commit_group_def h_foldM_set_state_e l option.map_comp comp_def map_img_def)
qed

lemma layout_set:
  assumes "layout_ok e" and "64 dvd nr_segments e"
  shows "s \<in> set (layout_segments e) \<longleftrightarrow> sd e (epoch e) s \<or> sd e (1 - epoch e) s"
  using set_scan_range [of 0 "nr_segments e"] assms(2) layout_okD(6) [OF assms(1)] layout_okD(3) [OF assms(1)]
    one_minus(1) [OF layout_okD(3) [OF assms(1)]]
  by (auto simp: layout_segments_def sd_def)

text \<open>With the new states an image stands for the new memory.\<close>

lemma stands_new:
  assumes i: "hinv e H snap" and nb: "\<And>k. \<not> h_buffered e k" and t: "in_turn e"
    and hd: "header_is (nr_segments e) pm"
    and st: "\<And>s. s < nr_segments e \<Longrightarrow> pst pm s = new_state e s"
    and os: "\<And>s. s < nr_segments e \<Longrightarrow> pm (SegSt (other (pm HEpoch mod 2)) s) \<in> {hst e s, new_state e s}"
    and p: "\<And>x. x div kSegmentSize < nr_segments e \<Longrightarrow> pm (side_cell (epoch e) x) = work e x"
    and q: "\<And>x. x div kSegmentSize < nr_segments e \<Longrightarrow> \<not> bd e (epoch e) (x div kBlockSize) \<Longrightarrow> pm (side_cell (1 - epoch e) x) = snap x"
  shows "h_stands (nr_segments e) (work e) pm"
proof (rule h_standsI [OF hd])
  note b = hinv_base [OF i] and ss = side_state_simps
  fix x assume x: "x div kSegmentSize < nr_segments e"
  let ?s = "x div kSegmentSize" and ?k = "x div kBlockSize"
  note d = hinv_data [OF i x]
  have clean: "work e x = snap x \<and> \<not> bd e (epoch e) ?k" if "new_state e ?s \<noteq> side_state (epoch e)"
  proof -
    have "\<not> sd e (epoch e) (seg ?k)" using that by (auto simp: new_state_def seg_of_byte split: if_splits)
    then have "\<not> bd e (epoch e) ?k" using layout_okD(5) [OF b(3,11)] by blast
    then show ?thesis using nb d(5) by (simp add: h_tracked_def)
  qed
  show "(if pst pm ?s = SS_Back then pm (BackB x) else pm (MainB x)) = work e x"
  proof (cases "new_state e ?s = side_state (epoch e)")
    case True
    then show ?thesis using st [OF x] p [OF x] side_pair [OF b(11), of x] ss(1) by (auto simp del: side_cell.simps)
  next
    case False
    then show ?thesis using clean [OF False] p [OF x] q [OF x] side_pair [OF b(11), of x] by (auto simp del: side_cell.simps)
  qed
  assume pst: "pst pm ?s = SS_Initial \<or> pst pm ?s = SS_Main" and ini: "pm (SegSt (other (pm HEpoch mod 2)) ?s) = SS_Initial"
  show "work e x = 0"
  proof (cases "new_state e ?s = side_state (epoch e)")
    case True
    then have o: "hst e ?s = SS_Initial" and m: "side_state (epoch e) = SS_Main"
      using os [OF x] st [OF x] pst ini ss(4) [of "epoch e"] by auto
    then have ep: "epoch e = 0" using ss(1) by (auto simp: side_state_def split: if_splits)
    have "\<not> sd e (1 - epoch e) ?s" using hinv_states(2) [OF i x] o ss(4) by metis
    then have "sd e (epoch e) ?s" using True o ss(4) by (metis new_state_def)
    then obtain k where "bd e (epoch e) k" "seg k = ?s" using hinv_track(3) [OF i] by blast
    then show ?thesis using t o ep by (auto simp: in_turn_def off_side_def)
  next
    case False
    then have "hst e ?s = SS_Initial" using os [OF x] ini by (auto simp: new_state_def split: if_splits)
    then show ?thesis using clean [OF False] d(6) by simp
  qed
qed

text \<open>With the old states and the new bytes on the side of the epoch it still stands for the old memory.\<close>

lemma stands_old:
  assumes i: "hinv e H snap" and nb: "\<And>k. \<not> h_buffered e k" and t: "in_turn e"
    and hd: "header_is (nr_segments e) pm"
    and st: "\<And>s. s < nr_segments e \<Longrightarrow> pst pm s = hst e s"
    and os: "\<And>s. s < nr_segments e \<Longrightarrow> pm (SegSt (other (pm HEpoch mod 2)) s) \<in> {hst e s, new_state e s}"
    and p: "\<And>x. x div kSegmentSize < nr_segments e \<Longrightarrow> pm (side_cell (epoch e) x) = work e x"
    and q: "\<And>x. x div kSegmentSize < nr_segments e \<Longrightarrow> pm (side_cell (1 - epoch e) x) = snap x"
  shows "h_stands (nr_segments e) snap pm"
proof (rule h_standsI [OF hd])
  note b = hinv_base [OF i] and ss = side_state_simps
  fix x assume x: "x div kSegmentSize < nr_segments e"
  let ?s = "x div kSegmentSize" and ?k = "x div kBlockSize"
  note d = hinv_data [OF i x]
  have pp: "epoch e = 0 \<or> epoch e = 1" using b(11) by auto
  show "(if pst pm ?s = SS_Back then pm (BackB x) else pm (MainB x)) = snap x"
  proof (cases "bd e (epoch e) ?k")
    case True
    then have "off_side e ?s" using t by (auto simp: in_turn_def seg_of_byte [symmetric])
    then show ?thesis
      using q [OF x] pp hinv_states(1) [OF i x] st [OF x] by (auto simp: off_side_def side_state_def ss)
  next
    case False
    then have "work e x = snap x" using nb d(5) by (simp add: h_tracked_def)
    then show ?thesis using p [OF x] q [OF x] pp by auto
  qed
  assume "pm (SegSt (other (pm HEpoch mod 2)) ?s) = SS_Initial"
  then have "hst e ?s = SS_Initial"
    using os [OF x] ss(4) [of "epoch e"] by (auto simp: new_state_def split: if_splits)
  then show "snap x = 0" by (rule d(6))
qed


definition commit_good :: "engine \<Rightarrow> (nat \<Rightarrow> nat) \<Rightarrow> image \<Rightarrow> bool" where
  "commit_good e snap im \<longleftrightarrow> hdr_ok im \<and> synced im \<and> header_is (nr_segments e) (rd im) \<and>
     main_to_back im = main_to_back (eimg e) \<and> visible (nv im) \<and>
     (\<forall>s < nr_segments e. get_segment_state im s = new_state e s) \<and>
     mem_ok (nr_segments e) (epoch e) (work e) snap (nv im) \<and>
     (\<forall>s < nr_segments e. \<forall>c < 2. dur (nv im) (SegSt c s) \<subseteq> {hst e s, new_state e s}) \<and>
     (in_turn e \<longrightarrow> crash_safe (\<lambda>pm. h_stands (nr_segments e) snap pm \<or> h_stands (nr_segments e) (work e) pm) (nv im))"

lemma commit_step:
  fixes M :: flush_mode
  assumes i: "hinv e H snap" and nb: "\<And>k. \<not> h_buffered e k"
    and pe: "pend m = (\<lambda>_. None)" and w: "writes (epoch e) (work e) (to_copy e) (nv (eimg e)) m"
    and ok: "mem_ok (nr_segments e) (epoch e) (work e) snap m"
    and cr: "in_turn e \<Longrightarrow> crash_safe (h_stands (nr_segments e) snap) m"
  defines "c \<equiv> with_nv m (started M e)"
  obtains im where "commit_layout_state (target_state c) c = Some (c\<lparr>eimg := im\<rparr>)" "commit_good e snap im"
proof -
  note b = hinv_base [OF i]
  let ?ns = "nr_segments e" and ?p = "epoch e" and ?im = "(eimg e)\<lparr>nv := m\<rparr>"
  have pp: "?p = 0 \<or> ?p = 1" using b(11) by auto
  have cs: "eimg c = ?im" "layout_segments c = layout_segments e" "target_state c = side_state ?p"
    by (simp_all add: c_def eimg_with_nv layout_segments_def target_side)
  have V: "\<forall>l. side_map ?p (work e) (to_copy e) l \<noteq> None \<longrightarrow> is_data_cell l \<or> l = HAttr"
    by (metis side_map_header)
  note o = overwrites_image [OF w V b(7,8) pe]
  have rd: "rd ?im l = cur m l" for l by (simp add: rd_def)
  have sg: "s \<in> set (layout_segments e) \<longleftrightarrow> sd e ?p s \<or> sd e (1 - ?p) s" for s by (rule layout_set [OF b(3,2)])
  have sl: "\<forall>s \<in> set (layout_segments e). s < ?ns"
    using sg layout_okD(6) [OF b(3,11)] layout_okD(6) [OF b(3) one_minus(1) [OF b(11)]] by blast
  have g: "get_segment_state ?im s = hst e s" for s using o(4) by (simp add: hst_def)
  have new: "(\<lambda>s. if s \<in> set (layout_segments e) then side_state ?p else get_segment_state ?im s) = new_state e"
    by (simp add: fun_eq_iff new_state_def sg g)
  have dq: "quiet m (side_cell ?p x)" "quiet m (side_cell (1 - ?p) x)" if "x div kSegmentSize < ?ns" for x
    using ok that pp by (auto simp: mem_ok_def)
  let ?P = "\<lambda>pm. in_turn e \<longrightarrow> h_stands ?ns snap pm \<or> h_stands ?ns (work e) pm"
  have P: "?P pm" if hd: "header_is ?ns pm" and q: "\<forall>l. is_data_cell l \<and> quiet (nv ?im) l \<longrightarrow> pm l = rd ?im l"
    and g0: "g' = get_segment_state ?im \<or> g' = (\<lambda>s. if s \<in> set (layout_segments e) then side_state ?p else get_segment_state ?im s)"
    and st: "\<forall>s < ?ns. pst pm s = g' s"
    and cl: "\<forall>s < ?ns. \<forall>c < 2. pm (SegSt c s) = get_segment_state ?im s \<or> s \<in> set (layout_segments e) \<and> pm (SegSt c s) = side_state ?p"
    for pm g'
  proof
    assume t: "in_turn e"
    have os: "pm (SegSt (other (pm HEpoch mod 2)) s) \<in> {hst e s, new_state e s}" if "s < ?ns" for s
    proof -
      have "other (pm HEpoch mod 2) < 2" by simp
      from mp [OF spec [OF mp [OF spec [OF cl, of s] that]] this] show ?thesis by (auto simp: g new_state_def sg)
    qed
    have d: "pm (side_cell ?p x) = work e x" "pm (side_cell (1 - ?p) x) = snap x" if "x div kSegmentSize < ?ns" for x
      using q dq [OF that] ok that pp by (auto simp: mem_ok_def rd)
    show "h_stands ?ns snap pm \<or> h_stands ?ns (work e) pm"
    proof (cases "g' = get_segment_state ?im")
      case True
      have "h_stands ?ns snap pm"
        by (rule stands_old [OF i nb t hd _ os d]) (use st True g in auto)
      then show ?thesis ..
    next
      case False
      then have "g' = new_state e" using g0 new by simp
      then have "h_stands ?ns (work e) pm"
        by (intro stands_new [OF i nb t hd _ os d]) (use st in auto)
      then show ?thesis ..
    qed
  qed
  have crP: "crash_safe ?P (nv ?im)" using cr by (auto simp: crash_safe_def)
  have pi: "pend (nv ?im) = (\<lambda>_. None)" by (simp add: pe)
  obtain im where im: "commit_group (side_state ?p) (layout_segments e) ?im = Some im" "hdr_ok im" "synced im"
    "header_is ?ns (rd im)" "main_to_back im = main_to_back ?im"
    "\<And>s. s < ?ns \<Longrightarrow> get_segment_state im s = (if s \<in> set (layout_segments e) then side_state ?p else get_segment_state ?im s)"
    "\<And>l. \<not> is_state_cell l \<Longrightarrow> rd im l = rd ?im l"
    "\<And>l. \<not> is_state_cell l \<Longrightarrow> settled (nv ?im) l \<Longrightarrow> quiet (nv im) l"
    "\<And>s c. s < ?ns \<Longrightarrow> c < 2 \<Longrightarrow> dur (nv im) (SegSt c s) \<subseteq>
       {get_segment_state ?im s, if s \<in> set (layout_segments e) then side_state ?p else get_segment_state ?im s}"
    "crash_safe ?P (nv im)"
    by (rule commit_group_safe [OF o(1,2) o(3) [OF b(6)] b(1) sl pi crP P]) blast+
  have st: "(if s \<in> set (layout_segments e) then side_state ?p else get_segment_state ?im s) = new_state e s" for s
    using new by (simp add: fun_eq_iff)
  have vis: "visible (nv im)"
    by (rule commit_group_visible [OF im(1)]) (use overwritesD(3) [OF w b(9)] in simp)
  have mem: "mem_ok ?ns ?p (work e) snap (nv im)"
    unfolding mem_ok_def
  proof (intro allI impI)
    fix x assume x: "x div kSegmentSize < ?ns"
    have n: "\<not> is_state_cell (MainB x)" "\<not> is_state_cell (BackB x)" by simp_all
    have "cur (nv im) l = cur m l" if "\<not> is_state_cell l" for l using im(7) [OF that] by (simp add: rd_def)
    moreover have "quiet (nv im) l" if "\<not> is_state_cell l" "quiet m l" for l
      by (rule im(8)) (use that quiet_settled in simp_all)
    ultimately show "quiet (nv im) (MainB x) \<and> quiet (nv im) (BackB x) \<and>
        cur (nv im) (side_cell ?p x) = work e x \<and> cur (nv im) (side_cell (1 - ?p) x) = snap x"
      using ok x n pp by (auto simp: mem_ok_def)
  qed
  have "commit_good e snap im"
    unfolding commit_good_def
  proof (intro conjI allI impI)
    show "get_segment_state im s = new_state e s" if "s < ?ns" for s using im(6) [OF that] st by simp
    show "dur (nv im) (SegSt c s) \<subseteq> {hst e s, new_state e s}" if "s < ?ns" "c < 2" for s c
      using im(9) [OF that] by (simp only: st) (simp only: g)
    show "crash_safe (\<lambda>pm. h_stands ?ns snap pm \<or> h_stands ?ns (work e) pm) (nv im)" if "in_turn e"
      using im(10) that by (simp add: crash_safe_def)
  qed (use im vis mem in simp_all)
  moreover have "commit_layout_state (target_state c) c = Some (c\<lparr>eimg := im\<rparr>)"
    using im(1) by (simp add: h_commit_layout_group cs)
  ultimately show ?thesis by (rule that [rotated])
qed


subsection \<open>Clearing the bits and the attribute\<close>

lemma clear_segment_bits_sets:
  assumes l: "layout_ok e" and s: "s < nr_segments e" and q: "q < 2"
  shows "bd (clear_segment_bits s e) q k \<longleftrightarrow> bd e q k \<and> \<not> (q = 1 - epoch e \<and> seg k = s)"
    "sd (clear_segment_bits s e) q r \<longleftrightarrow> sd e q r \<and> \<not> (q = 1 - epoch e \<and> r = s)"
proof -
  note L = layout_okD [OF l]
  let ?p = "1 - epoch e"
  have cl: "bs_test k (bs_clear_region (s * kBlocksPerSegment) (min (nr_blocks e) (s * kBlocksPerSegment + kBlocksPerSegment)) b)
      \<longleftrightarrow> bs_test k b \<and> seg k \<noteq> s" for k b
  proof -
    have "s * kBlocksPerSegment div 64 \<le> k div 64 \<and> k div 64 < (s * kBlocksPerSegment + kBlocksPerSegment) div 64
        \<longleftrightarrow> k div 64 div 128 = s"
      using div_mult_range [of 128 s "k div 64"] by (simp add: geometry mult.commute [of 128])
    then show ?thesis
      unfolding segment_blocks_range [OF s L(2)]
      by (simp add: bs_test_clear_region seg_def geometry div_mult2_eq [symmetric])
  qed
  show "bd (clear_segment_bits s e) q k \<longleftrightarrow> bd e q k \<and> \<not> (q = 1 - epoch e \<and> seg k = s)"
    "sd (clear_segment_bits s e) q r \<longleftrightarrow> sd e q r \<and> \<not> (q = 1 - epoch e \<and> r = s)"
    using L(5) [OF one_minus(1) [OF L(3)], of k] by (auto simp: clear_segment_bits_def Let_def bd_def sd_def cl)
qed

lemma clear_segment_bits_rest: "same_rest e (clear_segment_bits s e)"
  "flush_blocks (clear_segment_bits s e) = flush_blocks e" "address_buffer (clear_segment_bits s e) = address_buffer e"
  by (simp_all add: same_rest_def clear_segment_bits_def Let_def)

lemma clear_bits:
  assumes l: "layout_ok e"
  defines "e' \<equiv> clear_dirty_bits_last_epoch e"
  shows "same_rest e e'" "flush_blocks e' = flush_blocks e" "address_buffer e' = address_buffer e"
    "bd e' (epoch e) = bd e (epoch e)" "sd e' (epoch e) = sd e (epoch e)"
    "\<not> bd e' (1 - epoch e) k" "\<not> sd e' (1 - epoch e) s"
proof -
  note L = layout_okD [OF l]
  have main: "layout_ok (fold clear_segment_bits ss e) \<and> same_rest e (fold clear_segment_bits ss e) \<and>
      flush_blocks (fold clear_segment_bits ss e) = flush_blocks e \<and>
      address_buffer (fold clear_segment_bits ss e) = address_buffer e \<and>
      (\<forall>q < 2. \<forall>k. bd (fold clear_segment_bits ss e) q k \<longleftrightarrow> bd e q k \<and> \<not> (q = 1 - epoch e \<and> seg k \<in> set ss)) \<and>
      (\<forall>q < 2. \<forall>s. sd (fold clear_segment_bits ss e) q s \<longleftrightarrow> sd e q s \<and> \<not> (q = 1 - epoch e \<and> s \<in> set ss))"
    if "\<forall>s \<in> set ss. s < nr_segments e" for ss
    using that l
  proof (induction ss arbitrary: e)
    case Nil
    then show ?case by (simp add: same_rest_refl)
  next
    case (Cons s ss)
    let ?e1 = "clear_segment_bits s e"
    have s: "s < nr_segments e" using Cons.prems by simp
    note c = clear_segment_bits_sets [OF Cons.prems(2) s] and r = clear_segment_bits_rest [where e = e and s = s]
    note R = same_restD [OF r(1)] and K = layout_okD [OF Cons.prems(2)]
    have "layout_ok ?e1"
      unfolding layout_ok_def
    proof (intro conjI allI impI ballI)
      show "bound_identity ?e1" using K(1) R by (simp add: bound_identity_def)
      show "nr_blocks ?e1 = nr_segments ?e1 * kBlocksPerSegment" "epoch ?e1 < 2" using K(2,3) R by simp_all
      fix q :: nat assume q: "q < 2"
      show "seg k < nr_segments ?e1" if "bd ?e1 q k" for k using that c(1) [OF q] K(4) [OF q] R by auto
      show "sd ?e1 q (seg k)" if "bd ?e1 q k" for k using that c [OF q] K(5) [OF q] by auto
      show "t < nr_segments ?e1" if "sd ?e1 q t" for t using that c(2) [OF q] K(6) [OF q] R by auto
    next
      fix t k assume "k \<in> set (flush_blocks ?e1 t)"
      then have k: "k \<in> set (flush_blocks e t)" by (simp add: r)
      show "bd ?e1 (epoch ?e1) k" using K(7) [OF k] c(1) [OF K(3)] one_minus(3) [OF K(3)] R by auto
      show "t < kMaxThreads" by (rule K(8) [OF k])
    qed
    from Cons.IH [OF _ this] Cons.prems(1) R(3)
    have ih: "layout_ok (fold clear_segment_bits ss ?e1)" "same_rest ?e1 (fold clear_segment_bits ss ?e1)"
      "flush_blocks (fold clear_segment_bits ss ?e1) = flush_blocks ?e1"
      "address_buffer (fold clear_segment_bits ss ?e1) = address_buffer ?e1"
      "\<And>q k. q < 2 \<Longrightarrow> bd (fold clear_segment_bits ss ?e1) q k \<longleftrightarrow> bd ?e1 q k \<and> \<not> (q = 1 - epoch ?e1 \<and> seg k \<in> set ss)"
      "\<And>q s. q < 2 \<Longrightarrow> sd (fold clear_segment_bits ss ?e1) q s \<longleftrightarrow> sd ?e1 q s \<and> \<not> (q = 1 - epoch ?e1 \<and> s \<in> set ss)"
      by simp_all
    show ?case using ih same_rest_trans [OF r(1) ih(2)] by (auto simp: r R(10) c)
  qed
  note m = main [of "[0..<nr_segments e]", folded clear_dirty_bits_last_epoch_def e'_def]
  show "same_rest e e'" "flush_blocks e' = flush_blocks e" "address_buffer e' = address_buffer e" using m by simp_all
  show "bd e' (epoch e) = bd e (epoch e)" "sd e' (epoch e) = sd e (epoch e)"
    using m L(3) one_minus(3) [OF L(3)] by (auto simp: fun_eq_iff)
  show "\<not> bd e' (1 - epoch e) k" "\<not> sd e' (1 - epoch e) s"
    using m one_minus(1) [OF L(3)] L(4,6) [OF one_minus(1) [OF L(3)]] by auto
qed

lemma h_note_snapshot:
  obtains m V where "note_snapshot e = (with_nv m e)\<lparr>has_snapshot := True\<rparr>" "overwrites V (nv (eimg e)) m"
    "\<forall>l. V l \<noteq> None \<longrightarrow> l = HAttr" "pend (nv (eimg e)) = (\<lambda>_. None) \<longrightarrow> pend m = (\<lambda>_. None)"
proof (cases "has_snapshot e")
  case True
  show ?thesis
    by (rule that [of "nv (eimg e)" Map.empty])
      (use True in \<open>simp_all add: note_snapshot_def h_with_nv_id overwrites_refl\<close>)
next
  case False
  let ?V = "[HAttr \<mapsto> kAttributeHasSnapshot]"
  define m where "m = nv_fence (nv_nt ?V (nv (eimg e)))"
  have "overwrites (?V ++ Map.empty) (nv (eimg e)) m"
    unfolding m_def by (rule overwrites_trans [OF overwrites_sub overwrites_fence]) auto
  then show ?thesis
    by (intro that [of m ?V])
      (use False in \<open>auto simp: note_snapshot_def set_attributes_def m_def with_nv_def map_nv_def map_img_def nv_upd_def split: if_splits\<close>)
qed


subsection \<open>After the commit\<close>

text \<open>The fields of the engine when a checkpoint is over.\<close>

definition finished :: "engine \<Rightarrow> image \<Rightarrow> imem \<Rightarrow> flush_mode \<Rightarrow> engine \<Rightarrow> bool" where
  "finished e im m M e' \<longleftrightarrow> eimg e' = im\<lparr>nv := m\<rparr> \<and> work e' = work e \<and> nr_segments e' = nr_segments e \<and>
     nr_blocks e' = nr_blocks e \<and> capacity e' = capacity e \<and> address_first e' = address_first e \<and>
     address_buffer e' = address_buffer e \<and>
     epoch e' = 1 - epoch e \<and> mode e' = M \<and> flush_blocks e' = (\<lambda>_. []) \<and>
     bd e' (1 - epoch e) = (\<lambda>_. False) \<and> sd e' (1 - epoch e) = (\<lambda>_. False) \<and>
     bd e' (epoch e) = bd e (epoch e) \<and> sd e' (epoch e) = sd e (epoch e)"

text \<open>The bytes written after the commit: those of the other side, and the attribute.\<close>

definition tail_map :: "engine \<Rightarrow> (iloc \<rightharpoonup> nat) \<Rightarrow> flush_mode \<Rightarrow> bool" where
  "tail_map e V M \<longleftrightarrow>
     (\<forall>l v. V l = Some v \<longrightarrow> l = HAttr \<or>
        (\<exists>x. l = side_cell (1 - epoch e) x \<and> bd e (epoch e) (x div kBlockSize) \<and> v = work e x)) \<and>
     (M \<noteq> FMODE_WBINVD \<longrightarrow> (\<forall>x. bd e (epoch e) (x div kBlockSize) \<longrightarrow> V (side_cell (1 - epoch e) x) = Some (work e x)))"

lemma tail_mapD:
  assumes "tail_map e V M"
  shows "V l = Some v \<Longrightarrow> l = HAttr \<or>
        (\<exists>x. l = side_cell (1 - epoch e) x \<and> bd e (epoch e) (x div kBlockSize) \<and> v = work e x)"
    "M \<noteq> FMODE_WBINVD \<Longrightarrow> bd e (epoch e) (x div kBlockSize) \<Longrightarrow> V (side_cell (1 - epoch e) x) = Some (work e x)"
  using assms unfolding tail_map_def by blast+

definition wrapped :: "engine \<Rightarrow> (nat \<Rightarrow> nat) \<Rightarrow> image \<Rightarrow> (iloc \<rightharpoonup> nat) \<Rightarrow> imem \<Rightarrow> flush_mode \<Rightarrow> bool" where
  "wrapped e snap im V m M \<longleftrightarrow> commit_good e snap im \<and> overwrites V (nv im) m \<and> pend m = (\<lambda>_. None) \<and> tail_map e V M"

lemma wrappedD:
  assumes "wrapped e snap im V m M"
  shows "commit_good e snap im" "overwrites V (nv im) m" "pend m = (\<lambda>_. None)" "tail_map e V M"
  using assms by (simp_all add: wrapped_def)

lemma tail_cells:
  assumes t: "wrapped e snap im V m M" and p: "epoch e < 2" and x: "x div kSegmentSize < nr_segments e"
  shows "cur m (side_cell (epoch e) x) = work e x"
    "\<not> bd e (epoch e) (x div kBlockSize) \<Longrightarrow> cur m (side_cell (1 - epoch e) x) = snap x"
    "M \<noteq> FMODE_WBINVD \<Longrightarrow> bd e (epoch e) (x div kBlockSize) \<Longrightarrow> cur m (side_cell (1 - epoch e) x) = work e x"
proof -
  note cg = wrappedD(1) [OF t] and ow = wrappedD(2) [OF t] and V = wrappedD(4) [OF t]
  have mo: "cur (nv im) (side_cell (epoch e) x) = work e x" "cur (nv im) (side_cell (1 - epoch e) x) = snap x"
    using cg x by (auto simp: commit_good_def mem_ok_def simp del: side_cell.simps)
  have pp: "epoch e = 0 \<or> epoch e = 1" using p by auto
  have "V (side_cell (epoch e) x) = None"
  proof (rule ccontr)
    assume "V (side_cell (epoch e) x) \<noteq> None"
    then obtain v where "V (side_cell (epoch e) x) = Some v" by blast
    from tail_mapD(1) [OF V this] show False using pp by auto
  qed
  then show "cur m (side_cell (epoch e) x) = work e x" using overwritesD(1) [OF ow] mo(1) by simp
  { assume nb: "\<not> bd e (epoch e) (x div kBlockSize)"
    have "V (side_cell (1 - epoch e) x) = None"
    proof (rule ccontr)
      assume "V (side_cell (1 - epoch e) x) \<noteq> None"
      then obtain v where "V (side_cell (1 - epoch e) x) = Some v" by blast
      from tail_mapD(1) [OF V this] show False using pp nb by auto
    qed
    then show "cur m (side_cell (1 - epoch e) x) = snap x" using overwritesD(1) [OF ow] mo(2) by simp }
  assume "M \<noteq> FMODE_WBINVD" "bd e (epoch e) (x div kBlockSize)"
  from tail_mapD(2) [OF V this] show "cur m (side_cell (1 - epoch e) x) = work e x" using overwritesD(1) [OF ow] by simp
qed

lemma tail_image:
  assumes t: "wrapped e snap im V m M"
  shows "hdr_ok (im\<lparr>nv := m\<rparr>)" "synced (im\<lparr>nv := m\<rparr>)" "header_is (nr_segments e) (rd (im\<lparr>nv := m\<rparr>))" "visible m"
    "s < nr_segments e \<Longrightarrow> get_segment_state (im\<lparr>nv := m\<rparr>) s = new_state e s"
    "x div kSegmentSize < nr_segments e \<Longrightarrow> quiet m (MainB x) \<and> quiet m (BackB x)"
proof -
  note cg = wrappedD(1) [OF t, unfolded commit_good_def] and ow = wrappedD(2) [OF t]
  have "\<forall>l. V l \<noteq> None \<longrightarrow> is_data_cell l \<or> l = HAttr"
    using tail_mapD(1) [OF wrappedD(4) [OF t]] by (fastforce split: if_splits)
  note o = overwrites_image [OF ow this _ _ wrappedD(3) [OF t]]
  show "hdr_ok (im\<lparr>nv := m\<rparr>)" "synced (im\<lparr>nv := m\<rparr>)" "header_is (nr_segments e) (rd (im\<lparr>nv := m\<rparr>))"
    using o(1-3) cg by blast+
  show "visible m" using overwritesD(3) [OF ow] cg by blast
  show "s < nr_segments e \<Longrightarrow> get_segment_state (im\<lparr>nv := m\<rparr>) s = new_state e s" using o(4) cg by simp
  assume x: "x div kSegmentSize < nr_segments e"
  have "quiet (nv im) (MainB x)" "quiet (nv im) (BackB x)" using cg by (simp_all add: mem_ok_def x)
  then show "quiet m (MainB x) \<and> quiet m (BackB x)" using o(6) [OF _ _ quiet_settled] cg by simp
qed

lemma finished_inv:
  assumes i: "hinv e H snap" and nb: "\<And>k. \<not> h_buffered e k" and t: "wrapped e snap im V m M" and f: "finished e im m M e'"
  shows "hinv e' {} (work e)"
proof -
  note b = hinv_base [OF i] and L = layout_okD [OF hinv_base(3) [OF i]]
  note F = f [unfolded finished_def] and ti = tail_image [OF t]
  let ?p = "epoch e"
  have F': "eimg e' = im\<lparr>nv := m\<rparr>" "nr_segments e' = nr_segments e" "epoch e' = 1 - ?p" "1 - epoch e' = ?p"
    "bd e' (1 - ?p) = (\<lambda>_. False)" "sd e' (1 - ?p) = (\<lambda>_. False)" "bd e' ?p = bd e ?p" "sd e' ?p = sd e ?p"
    using F one_minus(2) [OF L(3)] by simp_all
  have q2: "q = ?p \<or> q = 1 - ?p" if "q < 2" for q using that L(3) by auto
  have st: "hst e' s = new_state e s" if "s < nr_segments e" for s using ti(5) [OF that] F' by (simp add: hst_def)
  have rd: "rd (eimg e') l = cur m l" for l using F' by (simp add: rd_def)
  have lay: "layout_ok e'"
    unfolding layout_ok_def
  proof (intro conjI allI impI ballI)
    show "bound_identity e'" using L(1) F' wrappedD(1) [OF t] by (simp add: bound_identity_def commit_good_def)
    show "nr_blocks e' = nr_segments e' * kBlocksPerSegment" using L(2) F by simp
    show "epoch e' < 2" using F' by simp
    fix q :: nat assume q: "q < 2"
    show "seg k < nr_segments e'" if "bd e' q k" for k using that q2 [OF q] F' L(4) [OF L(3)] by auto
    show "sd e' q (seg k)" if "bd e' q k" for k using that q2 [OF q] F' L(5) [OF L(3)] by auto
    show "s < nr_segments e'" if "sd e' q s" for s using that q2 [OF q] F' L(6) [OF L(3)] by auto
  next
    fix s k assume "k \<in> set (flush_blocks e' s)"
    then show "bd e' (epoch e') k" "s < kMaxThreads" using F by simp_all
  qed
  have "h_base e'" using b lay ti(1-4) F wrappedD(3) [OF t] by (simp add: h_base_def)
  moreover have "h_data e' (work e)"
    unfolding h_data_def F'(2)
  proof (intro allI impI)
    fix x assume x: "x div kSegmentSize < nr_segments e"
    let ?k = "x div kBlockSize"
    note d = hinv_data [OF i x] and c = tail_cells [OF t L(3) x]
    have clean: "work e x = snap x" if "\<not> bd e ?p ?k" using d(5) nb that by (simp add: h_tracked_def)
    have "rd (eimg e') (side_cell (epoch e') x) = work e x" if "\<not> stale e' ?k"
    proof (cases "bd e ?p ?k")
      case True
      then have "M \<noteq> FMODE_WBINVD" using that F F' by (simp add: stale_def)
      from c(3) [OF this True] show ?thesis unfolding rd F'(3) .
    next
      case False
      from c(2) [OF False] clean [OF False] show ?thesis unfolding rd F'(3) by simp
    qed
    moreover have "work e x = 0" if "hst e' (x div kSegmentSize) = SS_Initial"
    proof -
      have n: "new_state e (x div kSegmentSize) = SS_Initial" using st [OF x] that by simp
      then have ns: "\<not> sd e ?p (seg ?k)" and o: "hst e (x div kSegmentSize) = SS_Initial"
        using side_state_simps(4) by (auto simp: new_state_def seg_of_byte split: if_splits)
      then have "\<not> bd e ?p ?k" using L(5) [OF L(3)] by blast
      then show ?thesis using clean d(6) o by simp
    qed
    moreover have "quiet (nv (eimg e')) (MainB x)" "quiet (nv (eimg e')) (BackB x)" using ti(6) [OF x] F' by simp_all
    moreover have "rd (eimg e') (side_cell (1 - epoch e') x) = work e x" using c(1) unfolding rd F'(4) .
    moreover have "work e' x = work e x" using F by simp
    ultimately show "quiet (nv (eimg e')) (MainB x) \<and> quiet (nv (eimg e')) (BackB x) \<and>
     rd (eimg e') (side_cell (1 - epoch e') x) = work e x \<and>
     (\<not> stale e' ?k \<longrightarrow> rd (eimg e') (side_cell (epoch e') x) = work e x) \<and>
     (\<not> h_tracked e' ?k \<longrightarrow> work e' x = work e x) \<and>
     (hst e' (x div kSegmentSize) = SS_Initial \<longrightarrow> work e x = 0)" by blast
  qed
  moreover have "h_states e'"
    unfolding h_states_def F'(2)
  proof (intro allI impI conjI)
    fix s assume s: "s < nr_segments e"
    show "hst e' s = SS_Initial \<or> hst e' s = SS_Main \<or> hst e' s = SS_Back"
      using st [OF s] hinv_states(1) [OF i s] by (auto simp: new_state_def side_state_def)
    show "hst e' s = side_state (1 - epoch e')" if "sd e' (1 - epoch e') s"
      using that st [OF s] unfolding F'(4,8) by (simp add: new_state_def)
  qed
  moreover have "h_track e' {}"
  proof -
    have "h_buffered e' = h_buffered e"
      using F by (simp add: h_buffered_def buffer_blocks_def block_at_def in_range_def fun_eq_iff)
    then show ?thesis using nb unfolding h_track_def h_tracked_def F'(3,5,6) by simp
  qed
  ultimately show ?thesis by (simp add: hinv_def)
qed

lemma finished_safe:
  assumes i: "hinv e H snap" and nb: "\<And>k. \<not> h_buffered e k" and t: "wrapped e snap im V m M" and it: "in_turn e"
  shows "crash_safe (\<lambda>pm. h_stands (nr_segments e) snap pm \<or> h_stands (nr_segments e) (work e) pm) m"
proof -
  note b = hinv_base [OF i] and L = layout_okD [OF hinv_base(3) [OF i]]
  note cg = wrappedD(1) [OF t, unfolded commit_good_def]
  let ?p = "epoch e" and ?ns = "nr_segments e"
  have V1: "V l = Some v \<Longrightarrow> l = HAttr \<or> (\<exists>x. l = side_cell (1 - ?p) x \<and> bd e ?p (x div kBlockSize) \<and> v = work e x)" for l v
    by (rule tail_mapD(1) [OF wrappedD(4) [OF t]])
  define D where "D l = (case l of
      SegSt c s \<Rightarrow> if c < 2 \<and> s < ?ns then (if quiet (nv im) l then {rd im l} else {hst e s, new_state e s}) else UNIV
    | _ \<Rightarrow> if l \<noteq> HAttr \<and> quiet (nv im) l then insert (rd im l) {v. V l = Some v} else UNIV)" for l
  have nm: "rd im HNrMain = ?ns" using cg by (simp add: header_is_def)
  have so: "quiet (nv im) (SegSt (active im) s)" "settled (nv im) (SegSt (other (active im)) s)"
    "rd im (SegSt (other (active im)) s) = new_state e s" if "s < ?ns" for s
    using cg nm that by (auto simp: synced_def upd_ok_def)
  have a2: "c = active im \<or> c = other (active im)" if "c < 2" for c
    using that other_cases [of "active im"] by (auto simp: active_def)
  have "confined D (nv im)"
    unfolding confined_def
  proof (intro allI)
    fix l
    show "cur (nv im) l \<in> D l \<and> dur (nv im) l \<subseteq> D l \<and> (\<forall>S. pend (nv im) l = Some S \<longrightarrow> S \<subseteq> D l)"
    proof (cases "quiet (nv im) l")
      case True
      then have "rd im l \<in> D l" by (auto simp: D_def split: iloc.splits)
      then show ?thesis using quiet_confined [OF True, of "D l"] by (simp add: rd_def)
    next
      case False
      show ?thesis
      proof (cases "\<exists>c s. l = SegSt c s \<and> c < 2 \<and> s < ?ns")
        case True
        then obtain c s where l: "l = SegSt c s" "c < 2" "s < ?ns" by blast
        then have c: "c = other (active im)" using a2 [OF l(2)] so(1) [OF l(3)] False by auto
        have "dur (nv im) l \<subseteq> {hst e s, new_state e s}" using cg l by blast
        moreover have "cur (nv im) l = new_state e s" "settled (nv im) l"
          using so(2,3) [OF l(3)] by (simp_all add: l c rd_def)
        ultimately show ?thesis using l False by (auto simp: D_def settled_iff)
      next
        case n: False
        then have "D l = UNIV" using False by (auto simp: D_def split: iloc.splits)
        then show ?thesis by simp
      qed
    qed
  qed
  moreover have "v \<in> D l" if "V l = Some v" for l v
    using V1 [OF that] that by (auto simp: D_def split: if_splits iloc.splits)
  ultimately have c: "confined D m \<and> grows D (nv im) m" by (rule overwritesD(4) [OF wrappedD(2) [OF t]])
  show ?thesis
  proof (rule confined_safe)
    show "crash_safe (\<lambda>pm. h_stands ?ns snap pm \<or> h_stands ?ns (work e) pm) (nv im)" using cg it by blast
    fix pm assume "\<forall>l. pm l \<in> D l"
    then have pm: "pm l \<in> D l" for l by blast
    have hq: "pm l = rd im l" if "l \<in> {HMagic, HEpoch, HNrMain, HNrBack} \<union> range B2M" for l
      using pm [of l] V1 [of l] that cg by (fastforce simp: D_def hdr_ok_def split: if_splits)
    have hd: "header_is ?ns pm" using cg by (simp add: header_is_def hq)
    have act: "active im = pm HEpoch mod 2" by (simp add: active_def hq)
    have "h_stands ?ns (work e) pm"
    proof (rule stands_new [OF i nb it hd])
      fix s assume s: "s < ?ns"
      have "pm (SegSt (active im) s) = rd im (SegSt (active im) s)"
        using pm [of "SegSt (active im) s"] so(1) [OF s] s by (simp add: D_def active_def)
      then show "pst pm s = new_state e s"
        using cg s by (simp add: pst_def get_segment_state_active flip: act)
      show "pm (SegSt (other (pm HEpoch mod 2)) s) \<in> {hst e s, new_state e s}"
        using pm [of "SegSt (other (active im)) s"] so(3) [OF s] s by (auto simp: D_def act split: if_splits)
    next
      fix x assume x: "x div kSegmentSize < ?ns"
      have mo: "quiet (nv im) (MainB x)" "quiet (nv im) (BackB x)" "rd im (side_cell ?p x) = work e x"
          "rd im (side_cell (1 - ?p) x) = snap x"
        using cg x by (auto simp: mem_ok_def rd_def simp del: side_cell.simps)
      have pp: "?p = 0 \<or> ?p = 1" using L(3) by auto
      have r: "pm l = rd im l" if "l = MainB x \<or> l = BackB x" "\<not> (l = side_cell (1 - ?p) x \<and> bd e ?p (x div kBlockSize))" for l
      proof -
        have "V l \<noteq> Some v" for v
        proof
          assume "V l = Some v"
          from V1 [OF this] show False using that pp by auto
        qed
        moreover have "pm l \<in> insert (rd im l) {v. V l = Some v}" using pm [of l] that(1) mo(1,2) by (auto simp: D_def)
        ultimately show ?thesis by simp
      qed
      show "pm (side_cell ?p x) = work e x" unfolding mo(3) [symmetric] by (rule r) (use pp in auto)
      show "pm (side_cell (1 - ?p) x) = snap x" if "\<not> bd e ?p (x div kBlockSize)"
        unfolding mo(4) [symmetric] by (rule r) (use that in auto)
    qed
    then show "h_stands ?ns snap pm \<or> h_stands ?ns (work e) pm" ..
  qed (use c in auto)
qed


subsection \<open>The whole checkpoint\<close>

text \<open>Starting an operation and fencing when nothing is in flight change no cell.\<close>

lemma hinv_dur:
  assumes i: "hinv e H snap" and m: "cur m = cur (nv (eimg e))" "dur m = dur (nv (eimg e))" "pend m = pend (nv (eimg e))"
  shows "hinv (with_nv m e) H snap"
proof -
  let ?e = "with_nv m e"
  have r: "rd (eimg ?e) = rd (eimg e)" by (simp add: rd_def fun_eq_iff m(1))
  have q: "quiet m l = quiet (nv (eimg e)) l" "settled m l = settled (nv (eimg e)) l" "visible m = visible (nv (eimg e))" for l
    by (simp_all add: quiet_iff settled_iff visible_def m)
  have a: "active (eimg ?e) = active (eimg e)" by (simp add: active_def r)
  have g: "get_segment_state (eimg ?e) = get_segment_state (eimg e)"
    by (simp add: fun_eq_iff get_segment_state_active a r)
  have h: "hdr_ok (eimg ?e) = hdr_ok (eimg e)" "synced (eimg ?e) = synced (eimg e)" "hst ?e = hst e"
    by (simp_all add: hdr_ok_def synced_def upd_ok_def r q a g hst_def fun_eq_iff)
  have s: "h_tracked ?e = h_tracked e" "stale ?e = stale e" "bucketed ?e = bucketed e"
    by (simp_all add: h_tracked_def h_buffered_def buffer_blocks_def block_at_def in_range_def stale_def bucketed_def full_def
        fun_eq_iff)
  show ?thesis
    using i by (simp add: hinv_def h_base_def h_data_def h_states_def h_track_def r q h s m(3) del: side_cell.simps)
qed

lemma crash_safe_idle_fence:
  assumes "pend m = (\<lambda>_. None)"
  shows "crash_safe P (nv_fence m) = crash_safe P m"
proof -
  have "dur (nv_fence m) = dur m" by (simp add: fun_eq_iff assms)
  then show ?thesis by (auto simp: crash_safe_iff)
qed

text \<open>The last steps, for both modes: \<open>c\<close> is the engine after the commit and the copies to the other side.\<close>

lemma finish_steps:
  fixes c :: engine and W :: write_back_state
  assumes i: "hinv e H snap" and cg: "commit_good e snap im"
    and ow: "writes (1 - epoch e) (work e) K (nv im) m"
    and K: "\<And>k. K k \<Longrightarrow> bd e (epoch e) k" "\<And>k. M \<noteq> FMODE_WBINVD \<Longrightarrow> bd e (epoch e) k \<Longrightarrow> K k"
    and c: "c = (started M e)\<lparr>eimg := im\<lparr>nv := m\<rparr>\<rparr>"
  defines "e' \<equiv> map_nv nv_fence (finish_checkpoint ((note_snapshot (clear_dirty_bits_last_epoch c))\<lparr>wb_state := W\<rparr>))"
  obtains V m' where "wrapped e snap im V m' M" "finished e im m' M e'" "nv (eimg e') = m'"
proof -
  note b = hinv_base [OF i] and L = layout_okD [OF hinv_base(3) [OF i]]
  let ?V = "side_map (1 - epoch e) (work e) K"
  have cf: "eimg c = im\<lparr>nv := m\<rparr>" "nr_segments c = nr_segments e" "work c = work e" "nr_blocks c = nr_blocks e"
    "capacity c = capacity e" "address_first c = address_first e" "epoch c = epoch e" "mode c = M" "address_buffer c = address_buffer e"
    "block_dirty c = block_dirty e" "segment_dirty c = segment_dirty e" "flush_blocks c = flush_blocks e"
    by (simp_all add: c)
  have cb: "bd c = bd e" "sd c = sd e" by (simp_all add: bd_def sd_def fun_eq_iff cf)
  have lc: "layout_ok c"
    using b(3) cg by (simp add: layout_ok_def cf cb bound_identity_def commit_good_def)
  define d where "d = clear_dirty_bits_last_epoch c"
  note cl = clear_bits [OF lc, folded d_def]
  note D = same_restD [OF cl(1)]
  have db: "bd d (epoch e) = bd e (epoch e)" "sd d (epoch e) = sd e (epoch e)"
    "bd d (1 - epoch e) = (\<lambda>_. False)" "sd d (1 - epoch e) = (\<lambda>_. False)"
    using cl(4-7) by (simp_all add: cf cb fun_eq_iff)
  obtain m1 A where n: "note_snapshot d = (with_nv m1 d)\<lparr>has_snapshot := True\<rparr>" "overwrites A (nv (eimg d)) m1"
    "\<forall>l. A l \<noteq> None \<longrightarrow> l = HAttr"
    by (rule h_note_snapshot [of d]) blast
  have dn: "nv (eimg d) = m" "eimg d = im\<lparr>nv := m\<rparr>" using D(1) by (simp_all add: cf)
  have VA: "a = b" if "?V l = Some a" "A l = Some b" for l a b
  proof -
    have "l = HAttr" using n(3) that(2) by simp
    then show ?thesis using that(1) by simp
  qed
  define m' where "m' = nv_fence m1"
  have "overwrites (?V ++ A) (nv im) m1" by (rule overwrites_trans [OF ow n(2) [unfolded dn(1)]]) (rule VA)
  then have "overwrites ((?V ++ A) ++ Map.empty) (nv im) m'"
    unfolding m'_def by (rule overwrites_trans) (simp_all add: overwrites_fence)
  then have o: "overwrites (?V ++ A) (nv im) m'" by simp
  have tm: "tail_map e (?V ++ A) M"
    unfolding tail_map_def
  proof (intro conjI allI impI)
    fix l v assume l: "(?V ++ A) l = Some v"
    show "l = HAttr \<or> (\<exists>x. l = side_cell (1 - epoch e) x \<and> bd e (epoch e) (x div kBlockSize) \<and> v = work e x)"
    proof (cases "A l")
      case None
      then have "?V l = Some v" using l by (auto simp: map_add_def)
      then show ?thesis using K(1) by (auto simp: side_map_Some simp del: side_cell.simps)
    qed (use n(3) in auto)
  next
    fix x assume M: "M \<noteq> FMODE_WBINVD" and k: "bd e (epoch e) (x div kBlockSize)"
    have "side_cell (1 - epoch e) x \<noteq> HAttr" by simp
    then have "A (side_cell (1 - epoch e) x) = None" using n(3) by blast
    moreover have "?V (side_cell (1 - epoch e) x) = Some (work e x)"
      using K(2) [OF M k] by (auto simp: side_map_Some simp del: side_cell.simps)
    ultimately show "(?V ++ A) (side_cell (1 - epoch e) x) = Some (work e x)" by (simp add: map_add_def)
  qed
  have e': "e' = map_nv nv_fence (finish_checkpoint ((with_nv m1 d)\<lparr>has_snapshot := True, wb_state := W\<rparr>))"
    by (simp add: e'_def d_def [symmetric] n(1))
  have im': "eimg e' = im\<lparr>nv := m'\<rparr>"
    by (simp add: e' finish_checkpoint_def map_nv_def map_img_def nv_upd_def eimg_with_nv dn(2) m'_def)
  have fl: "work e' = work d" "nr_segments e' = nr_segments d" "nr_blocks e' = nr_blocks d" "capacity e' = capacity d"
    "address_first e' = address_first d" "address_buffer e' = address_buffer d" "epoch e' = 1 - epoch d" "mode e' = mode d" "flush_blocks e' = (\<lambda>_. [])"
    "bd e' = bd d" "sd e' = sd d"
    by (simp_all add: e' finish_checkpoint_def map_nv_def map_img_def bd_def sd_def fun_eq_iff)
  have "finished e im m' M e'"
    unfolding finished_def im' fl using D db cl(3) by (simp add: cf)
  moreover have "wrapped e snap im (?V ++ A) m' M"
    using cg o tm by (simp add: wrapped_def m'_def)
  moreover have "nv (eimg e') = m'" by (simp add: im')
  ultimately show ?thesis using that by blast
qed

text \<open>What a checkpoint does to the states and the parity, besides keeping the invariant.\<close>

definition turned :: "engine \<Rightarrow> nat set \<Rightarrow> engine \<Rightarrow> bool" where
  "turned e H e' \<longleftrightarrow> epoch e' = 1 - epoch e \<and>
     (\<forall>s < nr_segments e. hst e' s = (if s \<in> seg ` H \<or> sd e (1 - epoch e) s then side_state (epoch e) else hst e s)) \<and>
     (\<forall>s. sd e' (1 - epoch e') s \<longleftrightarrow> s \<in> seg ` H)"

lemma checkpoint_complete:
  assumes i: "hinv e H snap" and tid: "leader < kMaxThreads" and n: "0 < n"
    and pending: "mode e = FMODE_WBINVD \<Longrightarrow> H \<noteq> {}"
    and cr: "crash_safe (h_stands (nr_segments e) snap) (nv (eimg e))"
  obtains e' where "map_option (map_nv nv_fence) (checkpoint leader n e) = Some e'" "hinv e' {} (work e)"
    "nr_segments e' = nr_segments e" "address_first e' = address_first e"
    "H \<noteq> {} \<longrightarrow> turned e H e'"
    "(\<forall>k \<in> H. off_side e (seg k)) \<longrightarrow>
       crash_safe (\<lambda>pm. h_stands (nr_segments e) snap pm \<or> h_stands (nr_segments e) (work e) pm) (nv (eimg e'))"
proof -
  note fin = that
  define e0 where "e0 = address_buffer_clear_all leader e"
  note d = drained [OF i tid, folded e0_def]
  note R = same_restD [OF d(4)] and b = hinv_base [OF d(1)]
  obtain M where M: "determine_flush_mode e0 = e0\<lparr>prev_mode := mode e0, mode := M\<rparr>"
    "M = FMODE_NO_ACTION \<longleftrightarrow> (\<forall>t < kMaxThreads. flush_blocks e0 t = [])" "M = FMODE_USE_FLUSH_BLOCKS \<Longrightarrow> \<not> full e0"
    by (rule h_determine_mode [of e0]) blast
  have ck: "checkpoint leader n e =
     (if M = FMODE_NO_ACTION then Some (e0\<lparr>prev_mode := mode e0, mode := M\<rparr>)
      else case foldM (first_phase n) [0..<n] (started M e0) of None \<Rightarrow> None
        | Some e2 \<Rightarrow> if mode e2 = FMODE_WBINVD then checkpoint_wbinvd e2 else checkpoint_flush_blocks n e2)"
    by (simp add: checkpoint_def begin_checkpoint_def flushed_def Let_def M(1) started_def flip: e0_def)
  have bH: "bd e0 (epoch e) k \<longleftrightarrow> k \<in> H" for k
    using hinv_track(2) [OF d(1), of k] d(2) [of k] R by (simp add: h_tracked_def)
  have it: "in_turn e0" if "\<forall>k \<in> H. off_side e (seg k)"
    using that bH R by (simp add: in_turn_def off_side_def hst_def)
  have sH: "sd e0 (epoch e) s \<longleftrightarrow> s \<in> seg ` H" for s
    using hinv_track(3) [OF d(1), of s] layout_okD(5) [OF b(3,11)] bH R by auto
  have so: "sd e0 (1 - epoch e) s \<longleftrightarrow> sd e (1 - epoch e) s" for s
  proof -
    have "1 - epoch e < 2" "1 - epoch e \<noteq> epoch e" using one_minus(1,3) [OF hinv_base(11) [OF i]] by simp_all
    then show ?thesis using tracksD(3) [OF drain_all(1) [OF hinv_base(12) [OF i] tid]] by (simp add: e0_def)
  qed
  show ?thesis
  proof (cases "M = FMODE_NO_ACTION")
    case True
    let ?e1 = "e0\<lparr>prev_mode := mode e0, mode := M\<rparr>"
    have fb: "flush_blocks e0 t = []" if "t < kMaxThreads" for t using M(2) True that by blast
    have "\<not> bucketed e0 k" for k
      using fb by (auto simp: bucketed_def full_def all_buckets_def kMaxFlushBlocks_def)
    then have nt: "\<not> h_tracked e0 k" for k
      using hinv_track(1) [OF d(1)] d(2) by (auto simp: h_tracked_def)
    then have emp: "H = {}" using hinv_track(2) [OF d(1)] by auto
    then have "mode e0 \<noteq> FMODE_WBINVD" using pending R by auto
    then have ns: "\<not> stale e0 k" for k by (simp add: stale_def)
    have same: "work e x = snap x" if "x div kSegmentSize < nr_segments ?e1" for x
    proof -
      have "x div kSegmentSize < nr_segments e0" using that by simp
      then show ?thesis using hinv_data(5) [OF d(1) _ nt] R(2) by simp
    qed
    have i1: "hinv ?e1 H (work e)"
      by (rule hinv_cong [OF hinv_mode [OF d(1) ns]]) (use True same in simp_all)
    define e' where "e' = map_nv nv_fence ?e1"
    have pe: "pend (nv (eimg ?e1)) = (\<lambda>_. None)" using b(10) by simp
    have "hinv e' H (work e)"
      unfolding e'_def h_map_nv_with by (rule hinv_dur [OF i1]) (simp_all add: fun_eq_iff pe [simplified])
    then have "hinv e' {} (work e)" by (simp add: emp)
    moreover have "crash_safe (h_stands (nr_segments e) snap) (nv (eimg e'))"
      using cr R(1) crash_safe_idle_fence [OF pe] by (simp add: e'_def h_map_nv_with)
    then have "crash_safe (\<lambda>pm. h_stands (nr_segments e) snap pm \<or> h_stands (nr_segments e) (work e) pm) (nv (eimg e'))"
      by (simp add: crash_safe_def)
    ultimately show ?thesis
      using True R emp by (intro that [of e']) (simp_all add: ck e'_def h_map_nv_with)
  next
    case na: False
    obtain m where m: "foldM (first_phase n) [0..<n] (started M e0) = Some (with_nv m (started M e0))"
      "pend m = (\<lambda>_. None)" "writes (epoch e0) (work e0) (to_copy e0) (nv (eimg e0)) m"
      "mem_ok (nr_segments e0) (epoch e0) (work e0) snap m"
      "in_turn e0 \<and> crash_safe (h_stands (nr_segments e0) snap) (nv (eimg e0)) \<longrightarrow> crash_safe (h_stands (nr_segments e0) snap) m"
      by (rule first_copies [OF d(1,2) n na M(3)]) blast
    have cr0: "crash_safe (h_stands (nr_segments e0) snap) (nv (eimg e0))" using cr R by simp
    let ?c = "with_nv m (started M e0)"
    obtain im where im: "commit_layout_state (target_state ?c) ?c = Some (?c\<lparr>eimg := im\<rparr>)" "commit_good e0 snap im"
      by (rule commit_step [OF d(1,2) m(2-4)]) (use m(5) cr0 in blast)+
    have cim: "?c\<lparr>eimg := im\<rparr> = (started M e0)\<lparr>eimg := im\<rparr>" by (simp add: with_nv_def map_nv_def map_img_def)
    define c2 where "c2 = ?c\<lparr>eimg := im\<rparr>"
    have c2: "c2 = (started M e0)\<lparr>eimg := im\<lparr>nv := nv im\<rparr>\<rparr>" "mode ?c = M"
      by (simp_all add: c2_def with_nv_def map_nv_def map_img_def)
    have conclude: thesis
      if e': "map_option (map_nv nv_fence) (checkpoint leader n e) = Some e'" and w: "wrapped e0 snap im V m' M"
        and f: "finished e0 im m' M e'" and nv: "nv (eimg e') = m'" for e' V m'
    proof (rule fin [OF e'])
      show "hinv e' {} (work e)" using finished_inv [OF d(1,2) w f] R by simp
      show "nr_segments e' = nr_segments e" "address_first e' = address_first e" using f R by (simp_all add: finished_def)
      show "H \<noteq> {} \<longrightarrow> turned e H e'"
        unfolding turned_def
      proof (intro impI conjI allI)
        show "epoch e' = 1 - epoch e" using f R by (simp add: finished_def)
        then have "1 - epoch e' = epoch e" using one_minus(2) [OF hinv_base(11) [OF i]] by simp
        then show "sd e' (1 - epoch e') s \<longleftrightarrow> s \<in> seg ` H" for s using f sH R by (simp add: finished_def)
        show "hst e' s = (if s \<in> seg ` H \<or> sd e (1 - epoch e) s then side_state (epoch e) else hst e s)"
          if "s < nr_segments e" for s
          using tail_image(5) [OF w, of s] f that sH so R by (simp add: finished_def hst_def new_state_def)
      qed
      show "(\<forall>k \<in> H. off_side e (seg k)) \<longrightarrow>
          crash_safe (\<lambda>pm. h_stands (nr_segments e) snap pm \<or> h_stands (nr_segments e) (work e) pm) (nv (eimg e'))"
        using finished_safe [OF d(1,2) w it] R by (simp add: nv)
    qed
    show ?thesis
    proof (cases "M = FMODE_WBINVD")
      case True
      have ow: "writes (1 - epoch e0) (work e0) (\<lambda>_. False) (nv im) (nv im)" by (rule writes_refl)
      obtain V m' where f: "wrapped e0 snap im V m' M"
        "finished e0 im m' M (map_nv nv_fence (finish_checkpoint ((note_snapshot (clear_dirty_bits_last_epoch c2))\<lparr>wb_state := WB_STARTING\<rparr>)))"
        "nv (eimg (map_nv nv_fence (finish_checkpoint ((note_snapshot (clear_dirty_bits_last_epoch c2))\<lparr>wb_state := WB_STARTING\<rparr>)))) = m'"
        by (rule finish_steps [OF d(1) im(2) ow _ _ c2(1)]) (use True in blast)+
      show ?thesis
        by (rule conclude [OF _ f])
          (use na True m(1) im(1) c2(2) in \<open>simp add: ck checkpoint_wbinvd_def c2_def\<close>)
    next
      case False
      then have fm: "M = FMODE_USE_FLUSH_BLOCKS" using na by (cases M) auto
      have cf: "bd c2 = bd e0" "sd c2 = sd e0" "all_buckets c2 = all_buckets e0" "epoch c2 = epoch e0" "work c2 = work e0" "mode c2 = M"
        "nr_segments c2 = nr_segments e0" "nr_blocks c2 = nr_blocks e0" "flush_blocks c2 = flush_blocks e0" "eimg c2 = im"
        by (simp_all add: c2(1) bd_def sd_def all_buckets_def fun_eq_iff)
      have lc: "layout_ok c2"
        using b(3) im(2) by (simp add: layout_ok_def cf bound_identity_def commit_good_def)
      have full: "k \<in> set (all_buckets c2)" if "bd c2 (epoch c2) k" for k
        using that hinv_track(1) [OF d(1), of k] M(3) [OF fm] by (simp add: cf bucketed_def)
      obtain m3 where m3: "foldM (second_phase n) [0..<n] c2 = Some (with_nv m3 c2)"
        "writes (1 - epoch c2) (work c2) (bd c2 (epoch c2)) (nv (eimg c2)) m3"
        by (rule second_phase_all [OF lc n]) (use full in blast)+
      have c3: "with_nv m3 c2 = (started M e0)\<lparr>eimg := im\<lparr>nv := m3\<rparr>\<rparr>"
        by (simp add: c2(1) with_nv_def map_nv_def map_img_def nv_upd_def)
      have ow: "writes (1 - epoch e0) (work e0) (bd e0 (epoch e0)) (nv im) m3" using m3(2) by (simp add: cf)
      let ?f = "note_snapshot (clear_dirty_bits_last_epoch (with_nv m3 c2))"
      obtain V m' where f: "wrapped e0 snap im V m' M"
        "finished e0 im m' M (map_nv nv_fence (finish_checkpoint (?f\<lparr>wb_state := wb_state ?f\<rparr>)))"
        "nv (eimg (map_nv nv_fence (finish_checkpoint (?f\<lparr>wb_state := wb_state ?f\<rparr>)))) = m'"
        by (rule finish_steps [OF d(1) im(2) ow _ _ c3]) blast+
      show ?thesis
        by (rule conclude [OF _ f])
          (use na False m(1) im(1) c2(2) m3(1) in \<open>simp add: ck checkpoint_flush_blocks_def flip: c2_def\<close>)
    qed
  qed
qed

end
