(* ===== verification/Hybrid_Run.thy ===== *)
theory Hybrid_Run
  imports Hybrid_Checkpoint Engine_Spec
begin

text \<open>
  Runs of \<^verbatim>\<open>HybridInstEngine\<close>: hooks, stores of the program into the working
  memory, and checkpoints taken through \<^verbatim>\<open>MemoryPool::checkpoint\<close> (a fence before
  and after). Between operations the durable image always brings back the last checkpoint. Inside
  a checkpoint this holds when no segment is overwritten on the side that holds its checkpoint,
  which the alternation of the sides does not guarantee.
\<close>

subsection \<open>Events\<close>

datatype event =
    Hook nat nat
  | Range_hook nat nat nat
  | Write nat nat
  | Checkpoint nat nat

definition h_begin :: "engine \<Rightarrow> engine" where "h_begin e = map_nv nv_begin e"

definition store_work :: "nat \<Rightarrow> nat \<Rightarrow> engine \<Rightarrow> engine" where
  "store_work x v e = e\<lparr>work := (work e)(x := v)\<rparr>"

definition pooled_checkpoint :: "nat \<Rightarrow> nat \<Rightarrow> engine \<Rightarrow> engine option" where
  "pooled_checkpoint leader n e = map_option (map_nv nv_fence) (checkpoint leader n (map_nv nv_fence e))"

fun perform :: "event \<Rightarrow> engine \<Rightarrow> engine option" where
  "perform (Hook tid addr) e = Some (hook_rt_store tid addr e)"
| "perform (Range_hook tid addr len) e = Some (hook_rt_range_store tid addr len e)"
| "perform (Write x v) e = Some (store_work x v e)"
| "perform (Checkpoint leader n) e = pooled_checkpoint leader n e"

text \<open>
  The ghost value: the blocks hooked since the last checkpoint and the memory at the last
  checkpoint. A store is allowed to hooked blocks only; a checkpoint with nothing to write is not
  allowed after one that used \<^verbatim>\<open>FMODE_WBINVD\<close>, whose pending copies it would forget.
\<close>

type_synonym ghost = "nat set \<times> (nat \<Rightarrow> nat)"

fun allowed :: "event \<Rightarrow> engine \<Rightarrow> ghost \<Rightarrow> bool" where
  "allowed (Hook tid addr) e G = (tid < kMaxThreads)"
| "allowed (Range_hook tid addr len) e G = (tid < kMaxThreads \<and> 0 < len \<and> address_first e \<le> addr \<and>
     addr + len \<le> address_first e + capacity e)"
| "allowed (Write x v) e G = (x div kBlockSize \<in> fst G)"
| "allowed (Checkpoint leader n) e G = (leader < kMaxThreads \<and> 0 < n \<and> (mode e = FMODE_WBINVD \<longrightarrow> fst G \<noteq> {}))"

fun observe :: "event \<Rightarrow> engine \<Rightarrow> ghost \<Rightarrow> ghost" where
  "observe (Hook tid addr) e (H, snap) = ((if in_range e addr then insert (block_at e addr) H else H), snap)"
| "observe (Range_hook tid addr len) e (H, snap) = (H \<union> blocks_in e addr len, snap)"
| "observe (Write x v) e G = G"
| "observe (Checkpoint leader n) e (H, snap) = ({}, work e)"

definition rest_images :: "engine \<Rightarrow> (iloc \<Rightarrow> nat) set" where
  "rest_images e = {pm. \<forall>l. pm l \<in> dur (nv (eimg e)) l}"

text \<open>A checkpoint of the blocks hooked so far overwrites no segment on the side of its checkpoint.\<close>

definition turn_ok :: "event \<Rightarrow> engine \<Rightarrow> ghost \<Rightarrow> bool" where
  "turn_ok ev e G \<longleftrightarrow> (case ev of Checkpoint leader n \<Rightarrow> \<forall>k \<in> fst G. off_side e (seg k) | _ \<Rightarrow> True)"

subsection \<open>The hooks\<close>

lemma buffer_append:
  assumes i: "hinv e H snap" and t: "tid < kMaxThreads"
  shows "hinv (e\<lparr>address_buffer := (address_buffer e)(tid := address_buffer e tid @ [a])\<rparr>)
    (if in_range e a then insert (block_at e a) H else H) snap"
proof -
  let ?e = "e\<lparr>address_buffer := (address_buffer e)(tid := address_buffer e tid @ [a])\<rparr>"
  let ?H = "if in_range e a then insert (block_at e a) H else H"
  have pl: "block_at ?e = block_at e" "in_range ?e = in_range e" "bd ?e = bd e"
    by (simp_all add: block_at_def in_range_def bd_def fun_eq_iff)
  have bb: "buffer_blocks ?e r = buffer_blocks e r \<union> (if r = tid \<and> in_range e a then {block_at e a} else {})" for r
    by (auto simp: buffer_blocks_def pl)
  have "h_buffered ?e k \<longleftrightarrow> h_buffered e k \<or> in_range e a \<and> k = block_at e a" for k
    using t by (auto simp: h_buffered_def bb split: if_splits)
  then have tr: "h_tracked ?e k \<longleftrightarrow> k \<in> ?H" for k
    using hinv_track(2) [OF i, of k] by (auto simp: h_tracked_def pl)
  show ?thesis
    by (rule hinv_tracks [OF i tracks_buffer [OF tracks_refl] _ _ tr]) auto
qed

lemma hook_store_ok:
  assumes i: "hinv e H snap" and t: "tid < kMaxThreads"
  shows "hinv (hook_rt_store tid a e) (if in_range e a then insert (block_at e a) H else H) snap"
    and "\<exists>B. tracks B e (hook_rt_store tid a e)" "eimg (hook_rt_store tid a e) = eimg e" "nr_segments (hook_rt_store tid a e) = nr_segments e"
proof -
  define e1 where "e1 = e\<lparr>address_buffer := (address_buffer e)(tid := address_buffer e tid @ [a])\<rparr>"
  define H' where "H' = (if in_range e a then insert (block_at e a) H else H)"
  have i1: "hinv e1 H' snap" unfolding e1_def H'_def by (rule buffer_append [OF i t])
  have h: "hook_rt_store tid a e = (if length (address_buffer e1 tid) = kNumBufferedAddresses
      then address_buffer_clear tid tid e1 else e1)"
    by (simp add: hook_rt_store_def Let_def e1_def)
  note b = hinv_base [OF i1]
  note c = clear_tracks(1) [OF b(12) t, of tid]
  have "hinv (address_buffer_clear tid tid e1) H' snap"
  proof (rule hinv_tracks [OF i1 c _ order_refl])
    show "seg k < nr_segments e1" if "k \<in> buffer_blocks e1 tid" for k
      by (rule buffered_seg [OF b(4)]) (use that t in \<open>auto simp: h_buffered_def\<close>)
    show "h_tracked (address_buffer_clear tid tid e1) k \<longleftrightarrow> k \<in> H'" for k
      using clear_tracked [OF b(12) t t] hinv_track(2) [OF i1] by simp
  qed
  then show "hinv (hook_rt_store tid a e) (if in_range e a then insert (block_at e a) H else H) snap"
    using i1 unfolding H'_def [symmetric] by (simp add: h)
  have t1: "tracks {} e e1" unfolding e1_def by (rule tracks_buffer [OF tracks_refl])
  show "\<exists>B. tracks B e (hook_rt_store tid a e)"
    using t1 tracks_trans [OF t1 c hinv_base(11) [OF i]] by (auto simp: h)
  have "eimg e1 = eimg e" "nr_segments e1 = nr_segments e" by (simp_all add: e1_def)
  then show "eimg (hook_rt_store tid a e) = eimg e" "nr_segments (hook_rt_store tid a e) = nr_segments e"
    using same_restD(1,3) [OF tracksD(1) [OF c]] by (simp_all add: h)
qed

lemma same_block:
  assumes "0 < len" and "first \<le> addr" and "kBlockSize dvd first" and "addr mod kBlockSize + len \<le> kBlockSize"
  shows "(\<lambda>a. (a - first) div kBlockSize) ` {addr..<addr + len} = {(addr - first) div kBlockSize}"
proof -
  obtain q where q: "first = kBlockSize * q" using assms(3) by (auto elim: dvdE)
  define d where "d = addr - first"
  have a: "addr = d + kBlockSize * q" using assms(2) q by (simp add: d_def)
  have m: "d mod 256 + len \<le> 256" using assms(4) unfolding a by (simp add: geometry)
  have c: "(a - first) div kBlockSize = d div kBlockSize" if "a \<in> {addr..<addr + len}" for a
  proof -
    define j where "j = a - addr"
    have j: "a = addr + j" "j < len" using that by (auto simp: j_def)
    have "a - first = d + j" unfolding j(1) a q by simp
    moreover have "d = d div 256 * 256 + d mod 256" by simp
    ultimately have e: "a - first = d div 256 * 256 + (d mod 256 + j)" by linarith
    have q: "(A * 256 + (r + j)) div 256 = A" if "r + j < 256" for A r :: nat using that by simp
    have "(d div 256 * 256 + (d mod 256 + j)) div 256 = d div 256" by (rule q) (use m j(2) in linarith)
    then show ?thesis unfolding e geometry by simp
  qed
  have "(\<lambda>a. (a - first) div kBlockSize) ` {addr..<addr + len} = (\<lambda>_. d div kBlockSize) ` {addr..<addr + len}"
    by (rule image_cong) (simp_all only: c)
  then show ?thesis using assms(1) by (simp add: image_constant_conv d_def)
qed

lemma hook_range_ok:
  assumes i: "hinv e H snap" and t: "tid < kMaxThreads" and len: "0 < len"
    and r: "address_first e \<le> addr" "addr + len \<le> address_first e + capacity e"
  shows "hinv (hook_rt_range_store tid addr len e) (H \<union> blocks_in e addr len) snap"
    and "eimg (hook_rt_range_store tid addr len e) = eimg e"
    "nr_segments (hook_rt_range_store tid addr len e) = nr_segments e"
proof -
  note b = hinv_base [OF i]
  have ir: "in_range e addr" using len r by (simp add: in_range_def)
  have "hinv (hook_rt_range_store tid addr len e) (H \<union> blocks_in e addr len) snap \<and>
    eimg (hook_rt_range_store tid addr len e) = eimg e \<and> nr_segments (hook_rt_range_store tid addr len e) = nr_segments e"
  proof (cases "addr mod kBlockSize + len \<le> kBlockSize")
    case True
    have "blocks_in e addr len = {block_at e addr}"
      using same_block [OF len r(1) b(5) True] by (simp add: blocks_in_def block_at_def)
    then show ?thesis using True ir hook_store_ok [OF i t, of addr] by (simp add: hook_rt_range_store_def)
  next
    case False
    let ?e = "hook_routine_range tid addr len e"
    have c: "tracks (blocks_in e addr len) e ?e" "address_buffer ?e = address_buffer e"
      using hook_range_tracks [OF b(12) t len r(1)] by simp_all
    note R = same_restD [OF tracksD(1) [OF c(1)]]
    have pl: "h_buffered ?e = h_buffered e"
      using same_rest_place [OF tracksD(1) [OF c(1)]] c(2) by (simp add: h_buffered_def buffer_blocks_def fun_eq_iff)
    have "hinv ?e (H \<union> blocks_in e addr len) snap"
    proof (rule hinv_tracks [OF i c(1)])
      fix k assume "k \<in> blocks_in e addr len"
      then obtain a where a: "addr \<le> a" "a < addr + len" "k = block_at e a" by (auto simp: blocks_in_def)
      then have "(a - address_first e) div kSegmentSize < nr_segments e"
        using r b(4) by (auto simp: div_lt_mult_iff)
      then show "seg k < nr_segments e" using a(3) seg_of_byte [of "a - address_first e"] by (simp add: block_at_def)
    next
      show "h_tracked ?e k \<longleftrightarrow> k \<in> H \<union> blocks_in e addr len" for k
        using tracksD(2) [OF c(1) b(11)] hinv_track(2) [OF i, of k] R(10) by (auto simp: h_tracked_def pl)
    qed simp
    then show ?thesis using False ir R(1,3) by (simp add: hook_rt_range_store_def)
  qed
  then show "hinv (hook_rt_range_store tid addr len e) (H \<union> blocks_in e addr len) snap"
    "eimg (hook_rt_range_store tid addr len e) = eimg e"
    "nr_segments (hook_rt_range_store tid addr len e) = nr_segments e" by simp_all
qed

lemma store_work_ok:
  assumes "hinv e H snap" and "x div kBlockSize \<in> H"
  shows "hinv (store_work x v e) H snap"
proof -
  let ?e = "store_work x v e"
  have s: "eimg ?e = eimg e" "nr_segments ?e = nr_segments e" "nr_blocks ?e = nr_blocks e" "capacity ?e = capacity e"
    "address_first ?e = address_first e" "epoch ?e = epoch e" "mode ?e = mode e" "flush_blocks ?e = flush_blocks e"
    "bd ?e = bd e" "sd ?e = sd e" "hst ?e = hst e" "address_buffer ?e = address_buffer e"
    by (simp_all add: store_work_def bd_def sd_def hst_def fun_eq_iff)
  have p: "h_tracked ?e = h_tracked e" "stale ?e = stale e" "bucketed ?e = bucketed e" "layout_ok ?e = layout_ok e"
    by (simp_all add: h_tracked_def h_buffered_def buffer_blocks_def block_at_def in_range_def stale_def bucketed_def full_def
        all_buckets_def layout_ok_def bound_identity_def s fun_eq_iff)
  have "work ?e y = work e y" if "\<not> h_tracked e (y div kBlockSize)" for y
    using that assms(2) hinv_track(2) [OF assms(1)] by (auto simp: store_work_def)
  then show ?thesis
    using assms(1) by (simp add: hinv_def h_base_def h_data_def h_states_def h_track_def s p del: side_cell.simps)
qed

subsection \<open>One event\<close>

lemma h_begin_ok:
  assumes i: "hinv e H snap"
  shows "hinv (h_begin e) H snap" "crash_safe (h_stands (nr_segments e) snap) (nv (eimg (h_begin e)))"
    "nr_segments (h_begin e) = nr_segments e" "block_at (h_begin e) = block_at e" "in_range (h_begin e) = in_range e"
    "work (h_begin e) = work e" "mode (h_begin e) = mode e" "capacity (h_begin e) = capacity e"
    "address_first (h_begin e) = address_first e" "hst (h_begin e) = hst e" "epoch (h_begin e) = epoch e"
    "sd (h_begin e) = sd e"
proof -
  show "hinv (h_begin e) H snap"
    unfolding h_begin_def h_map_nv_with by (rule hinv_dur [OF i]) simp_all
  have "dur_sat (h_stands (nr_segments e) snap) (dur (nv (eimg e)))"
    unfolding dur_sat_def using hinv_stands [OF i] by blast
  then show "crash_safe (h_stands (nr_segments e) snap) (nv (eimg (h_begin e)))"
    by (simp add: crash_safe_iff h_begin_def h_map_nv_with)
  show "nr_segments (h_begin e) = nr_segments e" "block_at (h_begin e) = block_at e" "in_range (h_begin e) = in_range e"
    "work (h_begin e) = work e" "mode (h_begin e) = mode e" "capacity (h_begin e) = capacity e"
    "address_first (h_begin e) = address_first e" "hst (h_begin e) = hst e" "epoch (h_begin e) = epoch e"
    "sd (h_begin e) = sd e"
    by (simp_all add: h_begin_def h_map_nv_with block_at_def in_range_def hst_def get_segment_state_def rd_def sd_def fun_eq_iff)
qed


lemma h_fence_ok:
  assumes i: "hinv e H snap"
  shows "hinv (map_nv nv_fence e) H snap" "nv (eimg (map_nv nv_fence e)) = nv_fence (nv (eimg e))"
    "crash_safe P (nv (eimg (map_nv nv_fence e))) = crash_safe P (nv (eimg e))"
    "nr_segments (map_nv nv_fence e) = nr_segments e" "work (map_nv nv_fence e) = work e"
    "mode (map_nv nv_fence e) = mode e" "address_first (map_nv nv_fence e) = address_first e"
    "off_side (map_nv nv_fence e) = off_side e" "hst (map_nv nv_fence e) = hst e"
    "epoch (map_nv nv_fence e) = epoch e" "sd (map_nv nv_fence e) = sd e"
proof -
  have pe: "pend (nv (eimg e)) = (\<lambda>_. None)" by (rule hinv_base(10) [OF i])
  show "hinv (map_nv nv_fence e) H snap"
    unfolding h_map_nv_with by (rule hinv_dur [OF i]) (simp_all add: fun_eq_iff pe)
  show "nv (eimg (map_nv nv_fence e)) = nv_fence (nv (eimg e))" by (simp add: h_map_nv_with)
  show "crash_safe P (nv (eimg (map_nv nv_fence e))) = crash_safe P (nv (eimg e))"
    using crash_safe_idle_fence [OF pe] by (simp add: h_map_nv_with)
  show "nr_segments (map_nv nv_fence e) = nr_segments e" "work (map_nv nv_fence e) = work e"
    "mode (map_nv nv_fence e) = mode e" "address_first (map_nv nv_fence e) = address_first e"
    "off_side (map_nv nv_fence e) = off_side e" "hst (map_nv nv_fence e) = hst e"
    "epoch (map_nv nv_fence e) = epoch e" "sd (map_nv nv_fence e) = sd e"
    by (simp_all add: h_map_nv_with off_side_def hst_def get_segment_state_def rd_def fun_eq_iff)
qed

lemma pooled_checkpoint_ok:
  assumes i: "hinv e H snap" and l: "leader < kMaxThreads" "0 < n" and p: "mode e = FMODE_WBINVD \<Longrightarrow> H \<noteq> {}"
  obtains e' where "pooled_checkpoint leader n (h_begin e) = Some e'" "hinv e' {} (work e)"
    "nr_segments e' = nr_segments e" "address_first e' = address_first e" "H \<noteq> {} \<longrightarrow> turned e H e'"
    "(\<forall>k \<in> H. off_side e (seg k)) \<longrightarrow>
       crash_safe (\<lambda>pm. h_stands (nr_segments e) snap pm \<or> h_stands (nr_segments e) (work e) pm) (nv (eimg e'))"
proof -
  note b = h_begin_ok [OF i]
  note f = h_fence_ok [OF b(1)]
  let ?e = "map_nv nv_fence (h_begin e)"
  have cr: "crash_safe (h_stands (nr_segments ?e) snap) (nv (eimg ?e))" using b(2,3) f(3,4) by simp
  have o: "off_side ?e = off_side e" unfolding f(8) by (simp add: off_side_def b fun_eq_iff)
  obtain e' where e': "map_option (map_nv nv_fence) (checkpoint leader n ?e) = Some e'" "hinv e' {} (work ?e)"
    "nr_segments e' = nr_segments ?e" "address_first e' = address_first ?e"
    "H \<noteq> {} \<longrightarrow> turned ?e H e'"
    "(\<forall>k \<in> H. off_side ?e (seg k)) \<longrightarrow>
       crash_safe (\<lambda>pm. h_stands (nr_segments ?e) snap pm \<or> h_stands (nr_segments ?e) (work ?e) pm) (nv (eimg e'))"
    by (rule checkpoint_complete [OF f(1) l _ cr]) (use p b f in auto)
  have t: "turned ?e H e' = turned e H e'"
    by (simp only: turned_def f(4,9,10,11) b(3,10,11,12))
  show ?thesis
    by (rule that [of e']) (use e' in \<open>simp_all add: pooled_checkpoint_def t o f(4,5,7) b(3,6,9)\<close>)
qed

lemma h_perform_ok:
  assumes i: "hinv e H snap" and al: "allowed ev e (H, snap)"
  obtains e' H' snap' where "perform ev (h_begin e) = Some e'" "observe ev e (H, snap) = (H', snap')" "hinv e' H' snap'"
    "nr_segments e' = nr_segments e"
    "turn_ok ev e (H, snap) \<longrightarrow>
       crash_safe (\<lambda>pm. h_stands (nr_segments e) snap pm \<or> h_stands (nr_segments e) snap' pm) (nv (eimg e'))"
proof -
  note b = h_begin_ok [OF i]
  have cr: "crash_safe (\<lambda>pm. h_stands (nr_segments e) snap pm \<or> h_stands (nr_segments e) snap pm) (nv (eimg (h_begin e)))"
    using b(2) by simp
  have pl: "blocks_in (h_begin e) a l = blocks_in e a l" for a l by (simp add: blocks_in_def b(4))
  show ?thesis
  proof (cases ev)
    case (Hook t a)
    then have t: "t < kMaxThreads" using al by simp
    show ?thesis
      by (rule that [of "hook_rt_store t a (h_begin e)" "if in_range e a then insert (block_at e a) H else H" snap])
        (use hook_store_ok [OF b(1) t, of a, unfolded b(4,5)] cr in \<open>simp_all add: Hook b\<close>)
  next
    case (Range_hook t a l)
    then have r: "t < kMaxThreads" "0 < l" "address_first (h_begin e) \<le> a"
      "a + l \<le> address_first (h_begin e) + capacity (h_begin e)" using al by (simp_all add: b)
    show ?thesis
      by (rule that [of "hook_rt_range_store t a l (h_begin e)" "H \<union> blocks_in e a l" snap])
        (use hook_range_ok [OF b(1) r] cr in \<open>simp_all add: Range_hook b pl\<close>)
  next
    case (Write x v)
    then have x: "x div kBlockSize \<in> H" using al by simp
    show ?thesis
      by (rule that [of "store_work x v (h_begin e)" H snap])
        (use store_work_ok [OF b(1) x, of v] cr in \<open>simp_all add: Write b\<close>, simp_all add: store_work_def b)
  next
    case (Checkpoint leader n)
    then have l: "leader < kMaxThreads" "0 < n" "mode e = FMODE_WBINVD \<Longrightarrow> H \<noteq> {}" using al by simp_all
    obtain e' where e': "pooled_checkpoint leader n (h_begin e) = Some e'" "hinv e' {} (work e)" "nr_segments e' = nr_segments e"
      "(\<forall>k \<in> H. off_side e (seg k)) \<longrightarrow>
         crash_safe (\<lambda>pm. h_stands (nr_segments e) snap pm \<or> h_stands (nr_segments e) (work e) pm) (nv (eimg e'))"
      by (rule pooled_checkpoint_ok [OF i l]) blast+
    show ?thesis
      by (rule that [of e' "{}" "work e"]) (use e' in \<open>simp_all add: Checkpoint turn_ok_def\<close>)
  qed
qed

text \<open>At rest the engine satisfies the contract for every run.\<close>

interpretation hybrid: snapshot_engine "\<lambda>ev e. perform ev (h_begin e)" allowed observe
  "\<lambda>e G. hinv e (fst G) (snd G)" rest_images "\<lambda>e pm G. h_stands (nr_segments e) (snd G) pm"
proof
  fix e and G :: ghost and ev
  assume g: "hinv e (fst G) (snd G)" and al: "allowed ev e G"
  obtain H snap where G: "G = (H, snap)" by (cases G)
  obtain e' H' snap' where e': "perform ev (h_begin e) = Some e'" "observe ev e (H, snap) = (H', snap')" "hinv e' H' snap'"
    "nr_segments e' = nr_segments e"
    by (rule h_perform_ok [of e H snap ev]) (use g al G in auto)
  have "h_stands (nr_segments e) snap' pm" if "pm \<in> rest_images e'" for pm
    using hinv_stands [OF e'(3)] that e'(4) by (simp add: rest_images_def)
  with e' show "\<exists>e'. perform ev (h_begin e) = Some e' \<and> hinv e' (fst (observe ev e G)) (snd (observe ev e G)) \<and>
      (\<forall>pm \<in> rest_images e'. h_stands (nr_segments e) (snd G) pm \<or> h_stands (nr_segments e) (snd (observe ev e G)) pm)"
    by (auto simp: G)
qed

text \<open>It satisfies it at every crash point when the checkpoints of the run are in turn.\<close>

interpretation hybrid_in_turn: snapshot_engine "\<lambda>ev e. perform ev (h_begin e)" "\<lambda>ev e G. allowed ev e G \<and> turn_ok ev e G"
  observe "\<lambda>e G. hinv e (fst G) (snd G)" "\<lambda>e. crash_images (nv (eimg e))" "\<lambda>e pm G. h_stands (nr_segments e) (snd G) pm"
proof
  fix e and G :: ghost and ev
  assume g: "hinv e (fst G) (snd G)" and al: "allowed ev e G \<and> turn_ok ev e G"
  obtain H snap where G: "G = (H, snap)" by (cases G)
  obtain e' H' snap' where e': "perform ev (h_begin e) = Some e'" "observe ev e (H, snap) = (H', snap')" "hinv e' H' snap'"
    "turn_ok ev e (H, snap) \<longrightarrow>
       crash_safe (\<lambda>pm. h_stands (nr_segments e) snap pm \<or> h_stands (nr_segments e) snap' pm) (nv (eimg e'))"
    by (rule h_perform_ok [of e H snap ev]) (use g al G in auto)
  then show "\<exists>e'. perform ev (h_begin e) = Some e' \<and> hinv e' (fst (observe ev e G)) (snd (observe ev e G)) \<and>
      (\<forall>pm \<in> crash_images (nv (eimg e')). h_stands (nr_segments e) (snd G) pm \<or> h_stands (nr_segments e) (snd (observe ev e G)) pm)"
    using al by (auto simp: G crash_safe_def)
qed


subsection \<open>A freshly created pool\<close>

text \<open>
  \<open>mode0\<close>, the uninitialised \<^verbatim>\<open>flush_mode\<close>, must not happen to be
  \<^verbatim>\<open>FMODE_WBINVD\<close>; the file system gives a new file zeroed pages.
\<close>

definition h_fresh :: "engine \<Rightarrow> bool" where
  "h_fresh e \<longleftrightarrow> (\<exists>mode0 user_capacity base pm ns. ns = round_capacity user_capacity div kSegmentSize \<and>
     64 dvd ns \<and> ns < kNullSegmentIndex \<and> kBlockSize dvd base \<and> (\<forall>x. pm (MainB x) = 0 \<and> pm (BackB x) = 0) \<and>
     mode0 \<noteq> FMODE_WBINVD \<and> create_engine mode0 user_capacity ns base (nv_init pm) = Some e)"

lemma h_round_capacity: "kSegmentSize dvd round_capacity c" "0 < round_capacity c"
proof -
  define m where "m = max c kMinContainerSize"
  have d: "kSegmentSize dvd m - m mod kSegmentSize" by (simp add: dvd_minus_mod)
  then show "kSegmentSize dvd round_capacity c"
    by (simp add: round_capacity_def Let_def m_def [symmetric] mod_eq_0_iff_dvd del: add_diff_assoc2)
  have "0 < m" by (simp add: m_def kMinContainerSize_def geometry)
  moreover have "m mod kSegmentSize < m + kSegmentSize" by (simp add: trans_less_add2)
  ultimately show "0 < round_capacity c" by (simp add: round_capacity_def Let_def flip: m_def)
qed

lemma h_fresh_inv:
  assumes "h_fresh e"
  shows "hinv e {} (\<lambda>_. 0)"
proof -
  obtain mode0 c base pm ns where ns: "ns = round_capacity c div kSegmentSize" and al: "64 dvd ns" "ns < kNullSegmentIndex"
    and base: "kBlockSize dvd base" and pm: "\<And>x. pm (MainB x) = 0" "\<And>x. pm (BackB x) = 0" and m0: "mode0 \<noteq> FMODE_WBINVD"
    and e: "create_engine mode0 c ns base (nv_init pm) = Some e"
    using assms unfolding h_fresh_def by blast
  have rc: "round_capacity c = ns * kSegmentSize" using h_round_capacity(1) [of c] by (simp add: ns)
  then have pos: "0 < ns" using h_round_capacity(2) [of c] by (cases ns) auto
  have nb: "ns * kSegmentSize div kBlockSize = ns * kBlocksPerSegment" by (simp add: geometry)
  obtain sd0 bd0 where al0: "bs_allocate ns bs_new = Some sd0" "bs_allocate (ns * kBlocksPerSegment) bs_new = Some bd0"
    by (simp add: bs_allocate_def bs_new_def)
  define im where "im = Open_initialize ns ns (nv_init pm)"
  have e': "e = \<lparr>eimg = im, work = (\<lambda>_. 0), nr_segments = ns, nr_blocks = ns * kBlocksPerSegment, capacity = ns * kSegmentSize,
      address_first = base, has_snapshot = False, segment_dirty = (\<lambda>_. sd0), block_dirty = (\<lambda>_. bd0), wb_state = WB_IDLE,
      checkpoint_in_progress = False, flush_blocks = (\<lambda>_. []), mode = mode0, prev_mode = mode0,
      next_back = 0, epoch = 1, address_buffer = (\<lambda>_. [])\<rparr>"
    using e al0 by (simp add: create_engine_def new_engine_def Let_def rc nb im_def)
  have z: "pm (BackB x) = pm (MainB x)" for x using pm by simp
  note o = Open_initialize_ok [OF z al(2), folded im_def]
  have d: "\<not> bd e q k" "\<not> sd e q s" "\<not> h_buffered e k" for q k s
    using bs_allocate_new [OF al0(1)] bs_allocate_new [OF al0(2)]
    by (simp_all add: e' bd_def sd_def h_buffered_def buffer_blocks_def)
  have v: "visible (nv im)" "pend (nv im) = (\<lambda>_. None)" by (simp_all add: im_def Open_initialize_def Let_def attach_def)
  have f: "eimg e = im" "work e = (\<lambda>_. 0)" "nr_segments e = ns" "nr_blocks e = ns * kBlocksPerSegment"
    "capacity e = ns * kSegmentSize" "address_first e = base" "flush_blocks e = (\<lambda>_. [])" "mode e = mode0" "epoch e = 1"
    by (simp_all add: e')
  have "layout_ok e" using d o(5) al(2) by (simp add: layout_ok_def bound_identity_def f)
  then have "h_base e" using pos al base o(1-3) v by (simp add: h_base_def f)
  moreover have "h_data e (\<lambda>_. 0)" using o(6-9) pm by (simp add: h_data_def f)
  moreover have "h_states e" using o(4) d by (simp add: h_states_def hst_def f)
  moreover have "h_track e {}" using d by (simp add: h_track_def h_tracked_def)
  ultimately show ?thesis by (simp add: hinv_def)
qed

definition h_reach :: "engine \<Rightarrow> engine \<Rightarrow> ghost \<Rightarrow> bool" where
  "h_reach e0 e G \<longleftrightarrow> runs (\<lambda>ev e. perform ev (h_begin e)) allowed observe e0 ({}, (\<lambda>_. 0)) e G"

lemma h_reach_start: "h_reach e0 e0 ({}, \<lambda>_. 0)"
  by (simp add: h_reach_def runs.start)

lemma h_reach_step: "h_reach e0 e G \<Longrightarrow> allowed ev e G \<Longrightarrow> perform ev (h_begin e) = Some e' \<Longrightarrow> h_reach e0 e' (observe ev e G)"
  unfolding h_reach_def by (rule runs.more)

lemma h_reach_inv: "h_fresh e0 \<Longrightarrow> h_reach e0 e (H, snap) \<Longrightarrow> hinv e H snap"
  using hybrid.runs_good [of e0 "({}, \<lambda>_. 0)" e "(H, snap)"] h_fresh_inv by (simp add: h_reach_def)


subsection \<open>Properties\<close>

text \<open>A pool of 64 segments.\<close>

definition demo_hybrid :: engine where
  "demo_hybrid = the (create_engine FMODE_NO_ACTION 134217728 64 0 (nv_init (\<lambda>_. 0)))"

lemma demo_hybrid_fresh: "h_fresh demo_hybrid"
  and demo_hybrid_fields: "nr_segments demo_hybrid = 64" "address_first demo_hybrid = 0" "capacity demo_hybrid = 134217728"
    "epoch demo_hybrid = 1" "work demo_hybrid = (\<lambda>_. 0)" "mode demo_hybrid = FMODE_NO_ACTION"
    "eimg demo_hybrid = Open_initialize 64 64 (nv_init (\<lambda>_. 0))" "sd demo_hybrid p s \<longleftrightarrow> False"
proof -
  have r: "round_capacity 134217728 = 134217728" "134217728 div kSegmentSize = 64"
    unfolding round_capacity_def Let_def geometry by simp_all
  have c: "create_engine FMODE_NO_ACTION 134217728 64 0 (nv_init (\<lambda>_. 0)) = Some demo_hybrid"
    by (simp add: demo_hybrid_def create_engine_def new_engine_def Let_def r bs_allocate_def bs_new_def)
  then show "h_fresh demo_hybrid"
    unfolding h_fresh_def
    by (intro exI [of _ FMODE_NO_ACTION] exI [of _ 134217728] exI [of _ 0] exI [of _ "\<lambda>_. 0"] exI [of _ 64])
      (simp add: r, simp add: geometry)
  show "nr_segments demo_hybrid = 64" "address_first demo_hybrid = 0" "capacity demo_hybrid = 134217728"
    "epoch demo_hybrid = 1" "work demo_hybrid = (\<lambda>_. 0)" "mode demo_hybrid = FMODE_NO_ACTION"
    "eimg demo_hybrid = Open_initialize 64 64 (nv_init (\<lambda>_. 0))" "sd demo_hybrid p s \<longleftrightarrow> False"
    by (simp_all add: demo_hybrid_def create_engine_def new_engine_def Let_def r bs_allocate_def bs_new_def sd_def bs_test_def)
qed

lemma demo_hybrid_initial: "s < 64 \<Longrightarrow> hst demo_hybrid s = SS_Initial"
  using Open_initialize_ok(4) [of "\<lambda>_. 0" 64 s] by (simp add: hst_def demo_hybrid_fields kNullSegmentIndex_def)

text \<open>One round of a program that hooks offsets, stores there and takes a checkpoint.\<close>

lemma hook_write:
  assumes r: "h_reach e0 e (H, snap)" and f: "h_fresh e0" and a: "address_first e = 0" and x: "x < capacity e"
  obtains e' where "h_reach e0 e' (insert (x div kBlockSize) H, snap)" "work e' = (work e)(x := v)"
    "address_first e' = 0" "capacity e' = capacity e" "nr_segments e' = nr_segments e" "epoch e' = epoch e" "hst e' = hst e"
    "sd e' (1 - epoch e) = sd e (1 - epoch e)" "mode e' = mode e"
proof -
  note i = h_reach_inv [OF f r]
  note b = h_begin_ok [OF i]
  define e1 where "e1 = hook_rt_store 0 x (h_begin e)"
  have z: "(0 :: nat) < kMaxThreads" by (simp add: geometry)
  have p1: "perform (Hook 0 x) (h_begin e) = Some e1" by (simp add: e1_def)
  have ir: "in_range e x" "block_at e x = x div kBlockSize" using a x by (simp_all add: in_range_def block_at_def)
  have r1: "h_reach e0 e1 (insert (x div kBlockSize) H, snap)"
    using h_reach_step [OF r _ p1] z ir by simp
  obtain B where t: "tracks B (h_begin e) e1" using hook_store_ok(2) [OF b(1) z, of x] by (auto simp: e1_def)
  note R = same_restD [OF tracksD(1) [OF t]]
  have s1: "work e1 = work e" "address_first e1 = 0" "capacity e1 = capacity e" "nr_segments e1 = nr_segments e"
    "epoch e1 = epoch e" "hst e1 = hst e" "mode e1 = mode e"
    using R b a by (simp_all add: hst_def fun_eq_iff)
  have "1 - epoch e < 2" "1 - epoch e \<noteq> epoch (h_begin e)" using one_minus(1,3) [OF hinv_base(11) [OF i]] b(11) by simp_all
  then have s2: "sd e1 (1 - epoch e) = sd e (1 - epoch e)"
    using tracksD(3) [OF t] b(12) by (simp add: fun_eq_iff del: One_nat_def)
  note i1 = h_reach_inv [OF f r1]
  note b1 = h_begin_ok [OF i1]
  define e2 where "e2 = store_work x v (h_begin e1)"
  have p2: "perform (Write x v) (h_begin e1) = Some e2" by (simp add: e2_def)
  have r2: "h_reach e0 e2 (insert (x div kBlockSize) H, snap)" using h_reach_step [OF r1 _ p2] by simp
  have s3: "work e2 = (work e1)(x := v)" "address_first e2 = address_first e1" "capacity e2 = capacity e1"
    "nr_segments e2 = nr_segments e1" "epoch e2 = epoch e1" "hst e2 = hst e1" "sd e2 = sd e1" "mode e2 = mode e1"
  proof -
    have "hst e2 = hst (h_begin e1)" "sd e2 = sd (h_begin e1)" by (simp_all add: e2_def store_work_def hst_def sd_def fun_eq_iff)
    then show "hst e2 = hst e1" "sd e2 = sd e1" using b1 by simp_all
  qed (simp_all add: e2_def store_work_def b1)
  show ?thesis by (rule that [OF r2]) (use s1 s2 s3 in simp_all)
qed

lemma take_checkpoint:
  assumes r: "h_reach e0 e (H, snap)" and f: "h_fresh e0" and a: "address_first e = 0" and H: "H \<noteq> {}"
  obtains e' where "h_reach e0 e' ({}, work e)" "perform (Checkpoint 0 1) (h_begin e) = Some e'" "turned e H e'"
    "address_first e' = 0" "capacity e' = capacity e" "nr_segments e' = nr_segments e"
    "\<And>x. x < capacity e \<Longrightarrow> work e' x = work e x"
proof -
  note i = h_reach_inv [OF f r]
  have l: "(0 :: nat) < kMaxThreads" "(0 :: nat) < 1" by (simp_all add: geometry)
  obtain e' where e': "pooled_checkpoint 0 1 (h_begin e) = Some e'" "hinv e' {} (work e)" "nr_segments e' = nr_segments e"
    "address_first e' = address_first e" "H \<noteq> {} \<longrightarrow> turned e H e'"
    by (rule pooled_checkpoint_ok [OF i l]) (use H in blast)+
  have p: "perform (Checkpoint 0 1) (h_begin e) = Some e'" using e'(1) by simp
  have "h_reach e0 e' ({}, work e)" using h_reach_step [OF r _ p] l H by simp
  moreover have "capacity e' = capacity e" using hinv_base(4) [OF i] hinv_base(4) [OF e'(2)] e'(3) by simp
  moreover have "work e' x = work e x" if "x < capacity e" for x
    using hinv_data(5) [OF e'(2), of x] hinv_track(2) [OF e'(2)] that hinv_base(4) [OF i] e'(3)
    by (simp add: div_lt_segments)
  ultimately show ?thesis using e' p H a by (intro that [of e']) simp_all
qed





end
