(* ===== verification/Hybrid_Faults.thy ===== *)
theory Hybrid_Faults
  imports Hybrid_Run
begin

text \<open>
  What the alternation of the sides of \<^verbatim>\<open>HybridInstEngine\<close> does not give: a segment
  left out of a checkpoint can come to be written on the side that holds its checkpoint, and the
  branch that reserves a back segment copies in the wrong direction.
\<close>

subsection \<open>Writing in place\<close>

lemma flushed_image:
  assumes i: "hinv e H snap" and l: "leader < kMaxThreads" "0 < n" and H: "H \<noteq> {}"
  obtains e1 pm where "flushed n (begin_checkpoint leader e) = Some e1" "pm \<in> crash_images (nv (eimg e1))"
    "header_is (nr_segments e) pm" "\<And>s. s < nr_segments e \<Longrightarrow> pst pm s = hst e s"
    "\<And>s. s < nr_segments e \<Longrightarrow> pm (SegSt (other (pm HEpoch mod 2)) s) = hst e s"
    "\<And>x. x div kSegmentSize < nr_segments e \<Longrightarrow> pm (side_cell (epoch e) x) = work e x"
    "\<And>x. x div kSegmentSize < nr_segments e \<Longrightarrow> pm (side_cell (1 - epoch e) x) = snap x"
proof -
  define e0 where "e0 = address_buffer_clear_all leader e"
  note d = drained [OF i l(1), folded e0_def]
  note R = same_restD [OF d(4)] and b = hinv_base [OF d(1)]
  obtain M where M: "determine_flush_mode e0 = e0\<lparr>prev_mode := mode e0, mode := M\<rparr>"
    "M = FMODE_NO_ACTION \<longleftrightarrow> (\<forall>t < kMaxThreads. flush_blocks e0 t = [])" "M = FMODE_USE_FLUSH_BLOCKS \<Longrightarrow> \<not> full e0"
    by (rule h_determine_mode [of e0]) blast
  have na: "M \<noteq> FMODE_NO_ACTION"
  proof
    assume "M = FMODE_NO_ACTION"
    then have fb: "flush_blocks e0 t = []" if "t < kMaxThreads" for t using M(2) that by blast
    have "\<not> bucketed e0 k" for k using fb by (auto simp: bucketed_def full_def all_buckets_def kMaxFlushBlocks_def)
    then have "\<not> h_tracked e0 k" for k using hinv_track(1) [OF d(1)] d(2) by (auto simp: h_tracked_def)
    then show False using H hinv_track(2) [OF d(1)] by auto
  qed
  obtain m where m: "foldM (first_phase n) [0..<n] (started M e0) = Some (with_nv m (started M e0))"
    "pend m = (\<lambda>_. None)" "writes (epoch e0) (work e0) (to_copy e0) (nv (eimg e0)) m"
    "mem_ok (nr_segments e0) (epoch e0) (work e0) snap m"
    by (rule first_copies [OF d(1,2) l(2) na M(3)]) blast
  have f: "flushed n (begin_checkpoint leader e) = Some (with_nv m (started M e0))"
    using m(1) by (simp add: flushed_def begin_checkpoint_def M(1) started_def flip: e0_def)
  have vis: "visible m" using overwritesD(3) [OF m(3) b(9)] .
  have V: "\<forall>l. side_map (epoch e0) (work e0) (to_copy e0) l \<noteq> None \<longrightarrow> is_data_cell l \<or> l = HAttr"
    by (metis side_map_header)
  note o = overwrites_image [OF m(3) V b(7,8) m(2)]
  have c: "cur m l = rd (eimg e0) l" if "\<not> is_data_cell l" for l
    using that overwritesD(1) [OF m(3), of l] by (auto simp: rd_def split: option.splits simp: side_map_Some)
  note h = hinv_header [OF d(1) c]
  show ?thesis
  proof (rule that [OF f, of "cur m"])
    show "cur m \<in> crash_images (nv (eimg (with_nv m (started M e0))))"
      using visible_crash_image [OF vis] by (simp add: with_nv_def map_nv_def map_img_def nv_upd_def)
    show "header_is (nr_segments e) (cur m)" "s < nr_segments e \<Longrightarrow> pst (cur m) s = hst e s"
      "s < nr_segments e \<Longrightarrow> cur m (SegSt (other (cur m HEpoch mod 2)) s) = hst e s" for s
      using h R by (simp_all add: hst_def)
    show "cur m (side_cell (epoch e) x) = work e x" "cur m (side_cell (1 - epoch e) x) = snap x"
      if "x div kSegmentSize < nr_segments e" for x
      using m(4) that R by (simp_all add: mem_ok_def del: side_cell.simps)
  qed
qed

text \<open>
  C6. Writing in place: if a checkpoint has to write two segments of which one has its
  last checkpoint on the side being written and the other on the other side, then a crash after the
  copies and before the commit loses both checkpoints. Reopening the pool succeeds, but it loads the
  new memory of the first segment and the last checkpoint of the second.
\<close>

theorem hybrid_overwrites_in_place:
  assumes "h_fresh e0" and "h_reach e0 e (H, snap)" and "leader < kMaxThreads" and "0 < n"
    and "x div kSegmentSize < nr_segments e" and "x div kBlockSize \<in> H" and "hst e (x div kSegmentSize) = side_state (epoch e)"
    and "y div kSegmentSize < nr_segments e" and "y div kBlockSize \<in> H" and "hst e (y div kSegmentSize) = side_state (1 - epoch e)"
  shows "\<exists>e1 pm e2. flushed n (begin_checkpoint leader (map_nv nv_fence (h_begin e))) = Some e1 \<and>
    pm \<in> crash_images (nv (eimg e1)) \<and> open_engine mode0 base (nv_init pm) = Some e2 \<and>
    work e2 x = work e x \<and> work e2 y = snap y"
proof -
  note i = h_reach_inv [OF assms(1,2)]
  note b = h_begin_ok [OF i]
  note f = h_fence_ok [OF b(1)]
  let ?e = "map_nv nv_fence (h_begin e)"
  obtain e1 pm where e1: "flushed n (begin_checkpoint leader ?e) = Some e1" "pm \<in> crash_images (nv (eimg e1))"
    "header_is (nr_segments ?e) pm" "\<And>s. s < nr_segments ?e \<Longrightarrow> pst pm s = hst ?e s"
    "\<And>s. s < nr_segments ?e \<Longrightarrow> pm (SegSt (other (pm HEpoch mod 2)) s) = hst ?e s"
    "\<And>x. x div kSegmentSize < nr_segments ?e \<Longrightarrow> pm (side_cell (epoch ?e) x) = work ?e x"
    "\<And>x. x div kSegmentSize < nr_segments ?e \<Longrightarrow> pm (side_cell (1 - epoch ?e) x) = snap x"
    by (rule flushed_image [OF f(1) assms(3,4)]) (use assms(6) in blast)+
  have hd: "header_is (nr_segments e) pm" using e1(3) by (simp add: f b)
  note E = e1(4-7) [unfolded f(4,5,9,10) b(3,6,10,11)]
  obtain e2 where e2: "open_engine mode0 base (nv_init pm) = Some e2"
    "\<forall>x < nr_segments e * kSegmentSize. work e2 x =
       (if rec_states SS_Main (nr_segments e) pm (x div kSegmentSize) = SS_Initial then 0 else recovered_main pm x)"
    using reopen_work [OF hd] by blast
  have l: "work e2 z = pm (side_cell p z)"
    if z: "z div kSegmentSize < nr_segments e" and p: "p < 2" and st: "hst e (z div kSegmentSize) = side_state p" for z p
  proof -
    have zz: "z < nr_segments e * kSegmentSize" using z by (simp add: div_lt_segments)
    have "rec_states SS_Main (nr_segments e) pm (z div kSegmentSize) \<noteq> SS_Initial"
      using h_rec_states_bound [OF hd z order_refl, of SS_Main] E(2) [OF z] st side_state_simps by (auto split: if_splits)
    moreover have "recovered_main pm z = pm (side_cell p z)"
      using recovered_bound [OF hd z] E(1) [OF z] st p by (auto simp: side_state_def SS_Main_def SS_Back_def less_2_cases_iff)
    ultimately show ?thesis using e2(2) zz by simp
  qed
  have p: "epoch e < 2" "1 - epoch e < 2" using hinv_base(11) [OF i] one_minus(1) [OF hinv_base(11) [OF i]] by simp_all
  have "work e2 x = work e x" using l [OF assms(5) p(1) assms(7)] E(3) [OF assms(5)] by simp
  moreover have "work e2 y = snap y" using l [OF assms(8) p(2) assms(10)] E(4) [OF assms(8)] by simp
  ultimately show ?thesis using e1(1,2) e2(1) by blast
qed

text \<open>One round of a program: hook an offset, store there, take a checkpoint.\<close>

lemma one_round:
  assumes r: "h_reach e0 e ({}, snap)" and f: "h_fresh e0" and a: "address_first e = 0" and x: "x < capacity e"
  obtains e' where "h_reach e0 e' ({}, (work e)(x := v))" "address_first e' = 0" "capacity e' = capacity e"
    "nr_segments e' = nr_segments e" "epoch e' = 1 - epoch e" "\<And>y. y < capacity e \<Longrightarrow> work e' y = ((work e)(x := v)) y"
    "\<And>s. s < nr_segments e \<Longrightarrow> hst e' s =
       (if s = x div kSegmentSize \<or> sd e (1 - epoch e) s then side_state (epoch e) else hst e s)"
    "\<And>s. sd e' (1 - epoch e') s \<longleftrightarrow> s = x div kSegmentSize"
proof -
  note fin = that
  obtain e1 where e1: "h_reach e0 e1 (insert (x div kBlockSize) {}, snap)" "work e1 = (work e)(x := v)"
    "address_first e1 = 0" "capacity e1 = capacity e" "nr_segments e1 = nr_segments e" "epoch e1 = epoch e" "hst e1 = hst e"
    "sd e1 (1 - epoch e) = sd e (1 - epoch e)"
    by (rule hook_write [OF r f a x, of v]) blast
  obtain e' where e': "h_reach e0 e' ({}, work e1)" "turned e1 (insert (x div kBlockSize) {}) e'"
    "address_first e' = 0" "capacity e' = capacity e1" "nr_segments e' = nr_segments e1"
    "\<And>x. x < capacity e1 \<Longrightarrow> work e' x = work e1 x"
    by (rule take_checkpoint [OF e1(1) f e1(3)]) auto
  note t = e'(2) [unfolded turned_def e1(5-8), simplified image_insert image_empty seg_of_byte, simplified]
  show ?thesis
    by (rule fin [of e']) (use e' e1 t in \<open>auto simp: seg_of_byte\<close>)
qed

theorem hybrid_overwrites_in_place_witness:
  "\<exists>e snap e1 pm e2. h_reach demo_hybrid e ({0, 8192}, snap) \<and>
     flushed 1 (begin_checkpoint 0 (map_nv nv_fence (h_begin e))) = Some e1 \<and> pm \<in> crash_images (nv (eimg e1)) \<and>
     open_engine FMODE_NO_ACTION 4096 (nv_init pm) = Some e2 \<and>
     snap 5 = 1 \<and> work e 5 = 3 \<and> work e2 5 = 3 \<and> snap 2097152 = 2 \<and> work e 2097152 = 4 \<and> work e2 2097152 = 2"
proof -
  note D = demo_hybrid_fields
  have g: "(5 :: nat) div kSegmentSize = 0" "(2097152 :: nat) div kSegmentSize = 1" "(5 :: nat) div kBlockSize = 0"
    "(2097152 :: nat) div kBlockSize = 8192" by (simp_all add: geometry)
  obtain a where a: "h_reach demo_hybrid a ({}, (work demo_hybrid)(5 := 1))" "address_first a = 0" "capacity a = 134217728"
    "nr_segments a = 64" "epoch a = 0" "\<And>y. y < 134217728 \<Longrightarrow> work a y = ((work demo_hybrid)(5 := 1)) y"
    "\<And>s. sd a 1 s \<longleftrightarrow> s = 0" "hst a 0 = SS_Back"
    by (rule one_round [OF h_reach_start demo_hybrid_fresh D(2), of 5 1]) (simp_all add: D g side_state_def)
  obtain b where b: "h_reach demo_hybrid b ({}, (work a)(2097152 := 2))" "address_first b = 0" "capacity b = 134217728"
    "nr_segments b = 64" "epoch b = 1" "\<And>y. y < 134217728 \<Longrightarrow> work b y = ((work a)(2097152 := 2)) y"
    "\<And>s. sd b 0 s \<longleftrightarrow> s = 1" "hst b 0 = SS_Main"
    by (rule one_round [OF a(1) demo_hybrid_fresh a(2), of 2097152 2]) (simp_all add: a [simplified] g side_state_def)
  obtain c where c: "h_reach demo_hybrid c ({}, (work b)(2097152 := 2))" "address_first c = 0" "capacity c = 134217728"
    "nr_segments c = 64" "epoch c = 0" "\<And>y. y < 134217728 \<Longrightarrow> work c y = ((work b)(2097152 := 2)) y"
    "hst c 0 = SS_Main" "hst c 1 = SS_Back"
    by (rule one_round [OF b(1) demo_hybrid_fresh b(2), of 2097152 2]) (simp_all add: b [simplified] g side_state_def)
  obtain d where d: "h_reach demo_hybrid d ({0}, (work b)(2097152 := 2))" "work d = (work c)(5 := 3)"
    "address_first d = 0" "capacity d = 134217728" "nr_segments d = 64" "epoch d = 0" "hst d = hst c"
    by (rule hook_write [OF c(1) demo_hybrid_fresh c(2), of 5 3]) (simp_all add: c g)
  obtain e where e: "h_reach demo_hybrid e ({0, 8192}, (work b)(2097152 := 2))" "work e = (work d)(2097152 := 4)"
    "nr_segments e = 64" "epoch e = 0" "hst e = hst c"
    by (rule hook_write [OF d(1) demo_hybrid_fresh d(3), of 2097152 4]) (simp_all add: d g insert_commute)
  have z: "(0 :: nat) < kMaxThreads" "(0 :: nat) < 1" by (simp_all add: geometry)
  have x: "(5 :: nat) div kSegmentSize < nr_segments e" "(5 :: nat) div kBlockSize \<in> {0, 8192 :: nat}"
    "hst e (5 div kSegmentSize) = side_state (epoch e)" by (simp_all add: g e c side_state_def)
  have y: "(2097152 :: nat) div kSegmentSize < nr_segments e" "(2097152 :: nat) div kBlockSize \<in> {0, 8192 :: nat}"
    "hst e (2097152 div kSegmentSize) = side_state (1 - epoch e)" unfolding g e(3-5) c(8) by (simp_all add: side_state_def)
  obtain e1 pm e2 where "flushed 1 (begin_checkpoint 0 (map_nv nv_fence (h_begin e))) = Some e1"
    "pm \<in> crash_images (nv (eimg e1))" "open_engine FMODE_NO_ACTION 4096 (nv_init pm) = Some e2"
    "work e2 5 = work e 5" "work e2 2097152 = ((work b)(2097152 := 2)) 2097152"
    using hybrid_overwrites_in_place [OF demo_hybrid_fresh e(1) z x y, of FMODE_NO_ACTION 4096] by blast
  moreover have "((work b)(2097152 := 2)) 5 = 1" "work e 5 = 3" "work e 2097152 = 4"
    using a(6) [of 5] b(6) [of 5] by (simp_all add: e(2) d(2))
  ultimately show ?thesis
    using e(1) by (intro exI [of _ e] exI [of _ "(work b)(2097152 := 2)"] exI [of _ e1] exI [of _ pm] exI [of _ e2] conjI) simp_all
qed

subsection \<open>Reserving a back segment\<close>

text \<open>
  C7. A segment in state \<^verbatim>\<open>SS_Main\<close> that has no back segment is to get one
  before its main memory is overwritten. What the code copies is the new, still unwritten back
  segment over the main memory that holds the checkpoint, and it then declares the back segment to be
  the checkpoint: all of the segment's checkpoint is gone.
\<close>

theorem hybrid_reserve_reversed:
  assumes "get_segment_state (eimg e) s = SS_Main" and "get_main_to_back (eimg e) s = kNullSegmentIndex"
    and "get_back_to_main (eimg e) (next_back e) = kNullSegmentIndex \<or>
      \<not> bs_test (get_back_to_main (eimg e) (next_back e)) (segment_dirty e (epoch e))"
    and "0 < get_nr_back_segments (eimg e)" and "next_back e \<noteq> kNullSegmentIndex"
  shows "\<exists>e'. reserve_back s e = Some e' \<and> get_main_to_back (eimg e') s = next_back e \<and>
    get_segment_state (eimg e') s = SS_Back \<and>
    (\<forall>i < kSegmentSize. rd (eimg e') (MainB (s * kSegmentSize + i)) = rd (eimg e) (BackB (next_back e * kSegmentSize + i)))"
proof -
  define e1 where "e1 = bind_next s e"
  obtain k where k: "get_nr_back_segments (eimg e) = Suc k" using assms(4) by (cases "get_nr_back_segments (eimg e)") auto
  have al: "allocate_back_segment s e = e1"
    using assms(3) by (auto simp: allocate_back_segment_def k e1_def Let_def)
  have e1: "get_main_to_back (eimg e1) s = next_back e" "get_segment_state (eimg e1) s = SS_Main"
    "\<And>l. \<forall>b. l \<noteq> B2M b \<Longrightarrow> rd (eimg e1) l = rd (eimg e) l"
    using assms(1) by (auto simp: e1_def bind_next_def advance_next_back_segment_def map_img_def bind_back_segment_def Let_def
        get_main_to_back_def get_segment_state_def rd_def nv_upd_def)
  have fb: "find_back_segment s e = Some (next_back e, True, e1)"
    using assms(2,5) e1(1) by (simp add: find_back_segment_def al Let_def)
  define e' where "e' = map_img (set_segment_state_atomic s SS_Back)
    (map_nv (NonTemporalCopy (main_at (get_main_segment s)) (back_cell (get_back_segment (next_back e))) kSegmentSize) e1)"
  have rb: "reserve_back s e = Some e'" using assms(1) by (simp add: reserve_back_def fb e'_def)
  show ?thesis
  proof (intro exI [of _ e'] conjI allI impI rb)
    show "get_main_to_back (eimg e') s = next_back e"
      using e1(1) by (simp add: e'_def map_img_def map_nv_def set_segment_state_atomic_frame(1) get_main_to_back_def nv_upd_def)
    show "get_segment_state (eimg e') s = SS_Back"
      by (simp add: e'_def map_img_def map_nv_def set_segment_state_atomic_def Let_def get_segment_state_def rd_def nv_upd_def other_def
          NonTemporalCopy_def)
    show "rd (eimg e') (MainB (s * kSegmentSize + i)) = rd (eimg e) (BackB (next_back e * kSegmentSize + i))" if "i < kSegmentSize" for i
    proof -
      have n: "\<forall>c. MainB (s * kSegmentSize + i) \<noteq> SegSt c s" by simp
      show ?thesis
        unfolding e'_def map_img_def map_nv_def
        using that e1(3) [of "BackB (next_back e * kSegmentSize + i)"]
        by (simp add: set_segment_state_atomic_frame(4) [OF n]) (simp add: get_main_segment_def get_back_segment_def
            back_cell_def NonTemporalCopy_def rd_def nv_upd_def)
    qed
  qed
qed

text \<open>A pool of 64 segments and one back segment, the second segment holding a 9 and its checkpoint in main memory.\<close>

definition demo_one_back :: engine where
  "demo_one_back = map_img (set_segment_state_atomic 1 SS_Main)
     (the (create_engine FMODE_NO_ACTION 134217728 1 0 (nv_init ((\<lambda>_. 0)(MainB 2097152 := 9)))))"

theorem hybrid_reserve_reversed_witness:
  "rd (eimg demo_one_back) (MainB 2097152) = 9 \<and>
   (\<exists>e'. reserve_back 1 demo_one_back = Some e' \<and> get_segment_state (eimg e') 1 = SS_Back \<and> rd (eimg e') (MainB 2097152) = 0)"
proof -
  have r: "round_capacity 134217728 = 134217728" "134217728 div kSegmentSize = 64"
    unfolding round_capacity_def Let_def geometry by simp_all
  have i: "0 < kSegmentSize" "1 * kSegmentSize + 0 = 2097152" by (simp_all add: geometry)
  define im where "im = Open_initialize 64 1 (nv_init ((\<lambda>_. 0)(MainB 2097152 := 9)))"
  have d: "eimg demo_one_back = set_segment_state_atomic 1 SS_Main im" "next_back demo_one_back = 0"
    "\<not> bs_test b (segment_dirty demo_one_back p)" for b p
    by (simp_all add: demo_one_back_def create_engine_def new_engine_def Let_def r bs_allocate_def bs_new_def map_img_def im_def bs_test_def)
  have m: "rd im (MainB 2097152) = 9" "rd im (BackB 0) = 0" "rd im HNrBack = 1" "main_to_back im 1 = kNullSegmentIndex"
    by (simp_all add: im_def Open_initialize_def Let_def attach_def rd_def bind_table_def upt_rec kNullSegmentIndex_def)
  have c: "rd (eimg demo_one_back) (MainB 2097152) = 9" "rd (eimg demo_one_back) (BackB 0) = 0"
    "rd (eimg demo_one_back) HNrBack = 1" "main_to_back (eimg demo_one_back) 1 = kNullSegmentIndex"
    using m by (simp_all add: d set_segment_state_atomic_frame del: One_nat_def)
  have st: "get_segment_state (eimg demo_one_back) 1 = SS_Main"
    by (simp add: d set_segment_state_atomic_def Let_def get_segment_state_def rd_def nv_upd_def other_def)
  have "\<exists>e'. reserve_back 1 demo_one_back = Some e' \<and> get_main_to_back (eimg e') 1 = next_back demo_one_back \<and>
    get_segment_state (eimg e') 1 = SS_Back \<and>
    (\<forall>i < kSegmentSize. rd (eimg e') (MainB (1 * kSegmentSize + i)) =
       rd (eimg demo_one_back) (BackB (next_back demo_one_back * kSegmentSize + i)))"
    by (rule hybrid_reserve_reversed)
      (use st c d in \<open>simp_all add: get_main_to_back_def get_nr_back_segments_def kNullSegmentIndex_def del: One_nat_def\<close>)
  then show ?thesis using i c(1,2) d(2) by (metis add_0 mult_0)
qed

end
