(* ===== verification/Hybrid_Shape.thy ===== *)
theory Hybrid_Shape
  imports Hybrid_Run
begin

text \<open>
  The arrays of \<^verbatim>\<open>HybridInstEngine\<close>: the buckets of dirty blocks and the
  buffers of hooked addresses have fixed sizes in the source, and no operation writes past them.
\<close>

subsection \<open>Which operations touch the arrays\<close>

definition arrays :: "engine \<Rightarrow> (nat \<Rightarrow> nat list) \<times> (nat \<Rightarrow> nat list)" where
  "arrays e = (address_buffer e, flush_blocks e)"

lemma arrays_fold: "(\<And>x e. arrays (f x e) = arrays e) \<Longrightarrow> arrays (fold f xs e) = arrays e"
  by (induction xs arbitrary: e) simp_all

lemma arrays_foldM: "(\<And>x e e'. f x e = Some e' \<Longrightarrow> arrays e' = arrays e) \<Longrightarrow> foldM f xs e = Some e' \<Longrightarrow> arrays e' = arrays e"
proof (induction xs arbitrary: e)
  case (Cons x xs)
  then show ?case by (auto split: option.splits)
qed simp

lemma arrays_copies [simp]: "arrays (map_img f e) = arrays e" "arrays (map_nv g e) = arrays e"
  "arrays (dram_copy at s l e) = arrays e" "arrays (dram_copy_eliminating at d s l e) = arrays e"
  "arrays (work_to_back b s l e) = arrays e" "arrays (work_to_main b s l e) = arrays e"
  "arrays (advance_next_back_segment e) = arrays e" "arrays (bind_next k e) = arrays e"
  "arrays (note_snapshot e) = arrays e"
  by (simp_all add: arrays_def map_img_def map_nv_def dram_copy_def dram_copy_eliminating_def work_to_back_def work_to_main_def
      advance_next_back_segment_def bind_next_def note_snapshot_def)

lemma arrays_allocate [simp]: "arrays (allocate_loop n s e) = arrays e"
  by (induction n arbitrary: e) (simp_all add: Let_def)

lemma arrays_find_back: "find_back_segment s e = Some (b, c, e') \<Longrightarrow> arrays e' = arrays e"
  "find_back_block k e = Some (b, c, e') \<Longrightarrow> arrays e' = arrays e"
proof -
  show s: "arrays e' = arrays e" if "find_back_segment s e = Some (b, c, e')" for s b c
    using that by (auto simp: find_back_segment_def allocate_back_segment_def Let_def split: if_splits)
  show "find_back_block k e = Some (b, c, e') \<Longrightarrow> arrays e' = arrays e"
    using s by (auto simp: find_back_block_def split: option.splits)
qed

lemma arrays_update: "arrays (update_segment s e) = arrays e"
  by (auto simp: update_segment_def update_block_def Let_def intro!: arrays_fold)

lemma arrays_back_copy: "back_from_work_segment s e = Some e' \<Longrightarrow> arrays e' = arrays e" "back_from_work_block k e = Some e' \<Longrightarrow> arrays e' = arrays e"
  by (auto simp: back_from_work_segment_def back_from_work_block_def Let_def arrays_fold split: if_splits option.splits
      dest!: arrays_find_back)

lemma arrays_reserve: "reserve_back s e = Some e' \<Longrightarrow> arrays e' = arrays e"
  by (auto simp: reserve_back_def split: if_splits option.splits dest!: arrays_find_back)

lemma arrays_main_copy: "main_from_work_segment s e = Some e' \<Longrightarrow> arrays e' = arrays e" "main_from_work_block k e = Some e' \<Longrightarrow> arrays e' = arrays e"
  by (auto simp: main_from_work_segment_def main_from_work_block_def Let_def arrays_fold split: if_splits option.splits
      dest!: arrays_reserve)

lemma arrays_apply: "apply_dram_to_back_parallel n t e = Some e' \<Longrightarrow> arrays e' = arrays e"
  "apply_dram_to_main_parallel n t e = Some e' \<Longrightarrow> arrays e' = arrays e" "arrays (apply_nvm_to_nvm_parallel n t e) = arrays e"
proof -
  have f: "foldM (\<lambda>id e. foldM back_from_work_block (flush_blocks e id) e) ids e = Some e' \<Longrightarrow> arrays e' = arrays e"
    "foldM (\<lambda>id e. foldM main_from_work_block (flush_blocks e id) e) ids e = Some e' \<Longrightarrow> arrays e' = arrays e"
    "foldM back_from_work_segment ids e = Some e' \<Longrightarrow> arrays e' = arrays e"
    "foldM main_from_work_segment ids e = Some e' \<Longrightarrow> arrays e' = arrays e" for ids e'
    by (erule arrays_foldM [rotated], erule arrays_foldM [rotated], erule arrays_back_copy)
      (erule arrays_foldM [rotated], erule arrays_foldM [rotated], erule arrays_main_copy,
       (erule arrays_foldM [rotated], erule arrays_back_copy), (erule arrays_foldM [rotated], erule arrays_main_copy))
  show "apply_dram_to_back_parallel n t e = Some e' \<Longrightarrow> arrays e' = arrays e"
    by (auto simp: apply_dram_to_back_parallel_def split: if_splits dest: f)
  show "apply_dram_to_main_parallel n t e = Some e' \<Longrightarrow> arrays e' = arrays e"
    by (auto simp: apply_dram_to_main_parallel_def split: if_splits dest: f)
  show "arrays (apply_nvm_to_nvm_parallel n t e) = arrays e"
    by (simp add: apply_nvm_to_nvm_parallel_def arrays_fold arrays_update)
qed

lemma arrays_phases: "first_phase n t e = Some e' \<Longrightarrow> arrays e' = arrays e" "second_phase n t e = Some e' \<Longrightarrow> arrays e' = arrays e"
  by (auto simp: first_phase_def second_phase_def Let_def arrays_apply(3) split: if_splits dest: arrays_apply(1,2))

lemma arrays_commit: "commit_layout_state st e = Some e' \<Longrightarrow> arrays e' = arrays e"
proof -
  have "arrays e2 = arrays e1" if "foldM (set_state_e st) ss e1 = Some e2" for e1 e2 ss
    by (rule arrays_foldM [OF _ that]) (auto simp: set_state_e_def arrays_def)
  then show "commit_layout_state st e = Some e' \<Longrightarrow> arrays e' = arrays e"
    by (fastforce simp: commit_layout_state_def)
qed

lemma arrays_clear_bits [simp]: "arrays (clear_dirty_bits_last_epoch e) = arrays e"
  unfolding clear_dirty_bits_last_epoch_def by (rule arrays_fold) (simp add: clear_segment_bits_def Let_def arrays_def)

lemma arrays_checkpoint:
  assumes "checkpoint leader n e = Some e'"
  shows "address_buffer e' = address_buffer (address_buffer_clear_all leader e)"
    and "flush_blocks e' = flush_blocks (address_buffer_clear_all leader e) \<or> flush_blocks e' = (\<lambda>_. [])"
proof -
  have b: "arrays (begin_checkpoint leader e) = arrays (address_buffer_clear_all leader e)"
    by (simp add: begin_checkpoint_def determine_flush_mode_def arrays_def split_beta)
  have f: "arrays e2 = arrays (begin_checkpoint leader e)" if "flushed n (begin_checkpoint leader e) = Some e2" for e2
    using arrays_foldM [OF arrays_phases(1) that [unfolded flushed_def]] by (simp add: arrays_def)
  have w: "address_buffer e' = address_buffer e2 \<and> flush_blocks e' = (\<lambda>_. [])"
    if "checkpoint_wbinvd e2 = Some e' \<or> checkpoint_flush_blocks n e2 = Some e'" for e2
  proof -
    have "arrays e4 = arrays e3" if "foldM (second_phase n) ts e3 = Some e4" for e3 e4 ts
      by (rule arrays_foldM [OF arrays_phases(2) that])
    then show ?thesis
      using that arrays_commit arrays_clear_bits arrays_copies(9) unfolding checkpoint_wbinvd_def checkpoint_flush_blocks_def
      by (fastforce simp: arrays_def finish_checkpoint_def split: option.splits)
  qed
  have w': "address_buffer e' = address_buffer e2" "flush_blocks e' = (\<lambda>_. [])"
    if "checkpoint_wbinvd e2 = Some e' \<or> checkpoint_flush_blocks n e2 = Some e'" for e2
    using w [OF that] by simp_all
  have "address_buffer e' = address_buffer (begin_checkpoint leader e) \<and>
      (flush_blocks e' = flush_blocks (begin_checkpoint leader e) \<or> flush_blocks e' = (\<lambda>_. []))"
  proof (cases "mode (begin_checkpoint leader e) = FMODE_NO_ACTION")
    case False
    then obtain e2 where e2: "flushed n (begin_checkpoint leader e) = Some e2"
      "checkpoint_wbinvd e2 = Some e' \<or> checkpoint_flush_blocks n e2 = Some e'"
      using assms by (auto simp: checkpoint_def Let_def split: if_splits option.splits)
    then show ?thesis using w' [OF e2(2)] f [OF e2(1)] by (simp add: arrays_def)
  qed (use assms in \<open>simp add: checkpoint_def Let_def\<close>)
  then show "address_buffer e' = address_buffer (address_buffer_clear_all leader e)"
    "flush_blocks e' = flush_blocks (address_buffer_clear_all leader e) \<or> flush_blocks e' = (\<lambda>_. [])"
    using b by (auto simp: arrays_def)
qed

subsection \<open>The sizes\<close>

definition buckets_fit :: "engine \<Rightarrow> bool" where
  "buckets_fit e \<longleftrightarrow> (\<forall>t. length (flush_blocks e t) \<le> kMaxFlushBlocks)"

lemma hook_buckets: "buckets_fit e \<Longrightarrow> buckets_fit (record_block tid k e)" "buckets_fit (mark_segment s e) = buckets_fit e"
  "address_buffer (record_block tid k e) = address_buffer e" "address_buffer (mark_segment s e) = address_buffer e"
  by (auto simp: buckets_fit_def record_block_def mark_segment_def Let_def Suc_le_eq order_le_neq_trans)

lemma hook_routine_fits: "buckets_fit e \<Longrightarrow> buckets_fit (hook_routine tid a e)" "address_buffer (hook_routine tid a e) = address_buffer e"
  by (simp_all add: hook_routine_def Let_def hook_buckets)

lemma hook_loop_fits: "buckets_fit e \<Longrightarrow> buckets_fit (hook_loop tid ls d stop e) \<and> address_buffer (hook_loop tid ls d stop e) = address_buffer e"
proof (induction tid ls d stop e rule: hook_loop.induct)
  case (1 tid ls d stop e)
  then show ?case
    by (subst (1 2) hook_loop.simps) (simp add: Let_def hook_buckets)
qed

lemma drain_fits: "buckets_fit e \<Longrightarrow> buckets_fit (fold (hook_buffered tid) as e) \<and> address_buffer (fold (hook_buffered tid) as e) = address_buffer e"
  by (induction as arbitrary: e) (simp_all add: hook_buffered_def hook_routine_fits)

lemma clear_fits: "buckets_fit e \<Longrightarrow> buckets_fit (address_buffer_clear tid i e) \<and>
    address_buffer (address_buffer_clear tid i e) = (address_buffer e)(i := [])"
  using drain_fits [of e tid "address_buffer e i"] by (simp add: address_buffer_clear_def Let_def buckets_fit_def)

lemma clear_all_fits: "buckets_fit e \<Longrightarrow> buckets_fit (fold (address_buffer_clear tid) is e) \<and>
    address_buffer (fold (address_buffer_clear tid) is e) = (\<lambda>t. if t \<in> set is then [] else address_buffer e t)"
proof (induction "is" arbitrary: e)
  case (Cons i "is")
  then show ?case using clear_fits [of e tid i] by (auto simp: fun_eq_iff)
qed (simp add: fun_eq_iff)

definition arrays_fit :: "engine \<Rightarrow> bool" where
  "arrays_fit e \<longleftrightarrow> buckets_fit e \<and> (\<forall>t. length (address_buffer e t) < kNumBufferedAddresses)"

lemma store_fits:
  assumes f: "arrays_fit e"
  shows "arrays_fit (hook_rt_store tid a e)"
proof -
  let ?e = "e\<lparr>address_buffer := (address_buffer e)(tid := address_buffer e tid @ [a])\<rparr>"
  have b: "buckets_fit ?e" using f by (simp add: arrays_fit_def buckets_fit_def)
  have l: "length (address_buffer e t) < kNumBufferedAddresses" for t using f by (simp add: arrays_fit_def)
  have "Suc (length (address_buffer e tid)) \<le> kNumBufferedAddresses" using l [of tid] by simp
  moreover have "(0 :: nat) < kNumBufferedAddresses" by (simp add: kNumBufferedAddresses_def)
  ultimately show ?thesis
    using clear_fits [OF b, of tid tid] b l by (auto simp: hook_rt_store_def Let_def arrays_fit_def)
qed

lemma perform_fits:
  assumes f: "arrays_fit e" and p: "perform ev (h_begin e) = Some e'"
  shows "arrays_fit e'"
proof -
  have a: "arrays_fit (h_begin e)" "arrays_fit (map_nv nv_fence (h_begin e))"
    using f arrays_copies(2) by (simp_all add: h_begin_def arrays_fit_def buckets_fit_def arrays_def)
  show ?thesis
  proof (cases ev)
    case (Hook t x)
    then show ?thesis using p store_fits [OF a(1)] by auto
  next
    case (Range_hook t x l)
    then show ?thesis
      using p store_fits [OF a(1)] a(1) hook_loop_fits
      by (auto simp: hook_rt_range_store_def hook_routine_range_def Let_def arrays_fit_def)
  next
    case (Write x v)
    then show ?thesis using p a(1) by (auto simp: store_work_def arrays_fit_def buckets_fit_def)
  next
    case (Checkpoint leader n)
    let ?e = "map_nv nv_fence (h_begin e)"
    obtain e1 where e1: "checkpoint leader n ?e = Some e1" "e' = map_nv nv_fence e1"
      using p Checkpoint by (auto simp: pooled_checkpoint_def)
    have b: "buckets_fit ?e" using a(2) by (simp add: arrays_fit_def)
    note c = clear_all_fits [OF b, of leader "[0..<kMaxThreads]", folded address_buffer_clear_all_def]
    have "arrays_fit e1"
      using arrays_checkpoint [OF e1(1)] c a(2) by (auto simp: arrays_fit_def buckets_fit_def kNumBufferedAddresses_def)
    then show ?thesis using arrays_copies(2) [of nv_fence e1] by (simp add: e1(2) arrays_fit_def buckets_fit_def arrays_def)
  qed
qed



end
