(* ===== verification/Image_Properties.thy ===== *)
theory Image_Properties
  imports Recovery
begin

text \<open>
  What \<^verbatim>\<open>CheckpointImage\<close> promises its engines: a batch of
  \<^verbatim>\<open>set_segment_state\<close> calls between \<^verbatim>\<open>begin_segment_state_update\<close> and
  \<^verbatim>\<open>commit_segment_state_update\<close> is one transaction, the single-segment update is
  atomic by itself, and \<^verbatim>\<open>recovery\<close> rebuilds the memory a durable image stands for,
  again after a crash inside it.
\<close>

subsection \<open>A concrete durable image\<close>

text \<open>One main and one back segment in state \<open>st\<close>; main bytes are 3, back bytes 5.\<close>

fun demo_cells :: "nat \<Rightarrow> iloc \<Rightarrow> nat" where
  "demo_cells st HMagic = kMetadataV2Magic"
| "demo_cells st HNrMain = 1"
| "demo_cells st HNrBack = 1"
| "demo_cells st (SegSt _ _) = st"
| "demo_cells st (MainB _) = 3"
| "demo_cells st (BackB _) = 5"
| "demo_cells st _ = 0"

definition demo_image :: image where
  "demo_image = attach (nv_init (demo_cells SS_Initial))"

lemma demo_rd: "rd demo_image l = demo_cells SS_Initial l"
  by (simp add: demo_image_def attach_def rd_def)

lemma demo_quiet: "quiet (nv demo_image) l" "settled (nv demo_image) l"
  by (simp_all add: demo_image_def attach_def quiet_settled)

lemma demo_image_ok: "hdr_ok demo_image" "synced demo_image" "hist (nv demo_image) = []"
  "visible (nv demo_image)"
  by (simp_all add: hdr_ok_def synced_def upd_ok_def demo_rd demo_quiet get_segment_state_def)
    (simp_all add: demo_image_def attach_def)

lemma demo_img_valid: "img_valid (demo_cells st)"
  by (simp add: img_valid_def geometry)

subsection \<open>The transaction of a batch of segment states\<close>

definition set_states :: "(nat \<times> nat) list \<Rightarrow> image \<Rightarrow> image option" where
  "set_states ups = foldM (\<lambda>(s, st). set_segment_state s st) ups"

definition update_states :: "image \<Rightarrow> (nat \<times> nat) list \<Rightarrow> image option" where
  "update_states im ups =
     (case set_states ups (begin_segment_state_update im) of
        None \<Rightarrow> None | Some im1 \<Rightarrow> Some (commit_segment_state_update im1))"

text \<open>The specification: a map from segments to states, updated pointwise.\<close>

definition apply_states :: "(nat \<times> nat) list \<Rightarrow> (nat \<Rightarrow> nat) \<Rightarrow> (nat \<Rightarrow> nat)" where
  "apply_states ups f = fold (\<lambda>(s, st) f. f(s := st)) ups f"

lemma set_states_ok:
  assumes "state_update im" and "upd_ok im tgt" and "mirrored im tgt"
    and "\<forall>(s, st) \<in> set ups. s < rd im HNrMain"
  shows "\<exists>im'. set_states ups im = Some im' \<and> upd_ok im' (apply_states ups tgt) \<and>
     mirrored im' (apply_states ups tgt) \<and> hist (nv im') = hist (nv im) \<and>
     same_cells (\<lambda>l. \<forall>s. l \<noteq> SegSt (other (active im)) s) im im'"
  using assms
proof (induction ups arbitrary: im tgt)
  case Nil
  then show ?case by (simp add: same_cells_def set_states_def apply_states_def)
next
  case (Cons u ups)
  obtain s st where u: "u = (s, st)" by (cases u) auto
  have s: "s < rd im HNrMain" using Cons.prems(4) u by simp
  obtain im1 where im1: "set_segment_state s st im = Some im1" "state_update im1" "upd_ok im1 (tgt(s := st))"
      "hist (nv im1) = hist (nv im)"
    and fr: "\<And>l. l \<noteq> SegSt (other (active im)) s \<Longrightarrow> rd im1 l = rd im l \<and> dur (nv im1) l = dur (nv im) l
            \<and> pend (nv im1) l = pend (nv im) l"
    by (rule set_segment_state_ok [OF Cons.prems(1,2) s, of st]) blast
  have nm: "rd im1 HNrMain = rd im HNrMain" and act: "active im1 = active im"
    by (simp_all add: fr active_def)
  have sc: "same_cells (\<lambda>l. \<forall>s. l \<noteq> SegSt (other (active im)) s) im im1"
    using fr by (simp add: same_cells_def)
  have mir: "mirrored im1 (tgt(s := st))" by (rule mirrored_set [OF Cons.prems(3,2) s im1(1)])
  have up: "\<forall>(s, st) \<in> set ups. s < rd im1 HNrMain" using Cons.prems(4) nm by simp
  obtain im' where im': "set_states ups im1 = Some im'" "upd_ok im' (apply_states ups (tgt(s := st)))"
     "mirrored im' (apply_states ups (tgt(s := st)))" "hist (nv im') = hist (nv im1)"
     "same_cells (\<lambda>l. \<forall>s. l \<noteq> SegSt (other (active im1)) s) im1 im'"
    using Cons.IH [OF im1(2,3) mir up] by blast
  have "same_cells (\<lambda>l. \<forall>s. l \<noteq> SegSt (other (active im)) s) im im'"
    using sc im'(5) unfolding act by (simp add: same_cells_def)
  with im' im1 show ?case by (intro exI [of _ im']) (simp add: u set_states_def apply_states_def)
qed

lemma begin_frame:
  "nv (begin_segment_state_update im) = nv im" "active (begin_segment_state_update im) = active im"
  "rd (begin_segment_state_update im) = rd im" "hdr_ok (begin_segment_state_update im) = hdr_ok im"
  "get_segment_state (begin_segment_state_update im) = get_segment_state im"
  by (simp_all add: begin_segment_state_update_def active_def rd_def hdr_ok_def get_segment_state_def fun_eq_iff)

lemma update_states_ok:
  assumes hdr: "hdr_ok im" and syn: "synced im" and h: "hist (nv im) = []"
    and up: "\<forall>(s, st) \<in> set ups. s < rd im HNrMain"
  obtains im' where "update_states im ups = Some im'" "hdr_ok im'" "synced im'"
    "\<And>s. s < rd im HNrMain \<Longrightarrow> get_segment_state im' s = apply_states ups (get_segment_state im) s"
    "\<And>pm. pm \<in> crash_images (nv im') \<Longrightarrow>
       (\<forall>s < rd im HNrMain. pst pm s = get_segment_state im s) \<or>
       (\<forall>s < rd im HNrMain. pst pm s = apply_states ups (get_segment_state im) s)"
proof -
  let ?new = "apply_states ups (get_segment_state im)"
  define im0 where "im0 = begin_segment_state_update im"
  note b = begin_frame [of im, folded im0_def]
  obtain im1 where im1: "set_states ups im0 = Some im1" "upd_ok im1 ?new" "mirrored im1 ?new"
     "hist (nv im1) = []" "same_cells (\<lambda>l. \<forall>s. l \<noteq> SegSt (other (active im0)) s) im0 im1"
    using set_states_ok [OF begin_ok(3,1,2) [OF syn], folded im0_def, of ups] up h b by auto
  have c0: "cur (nv im1) l = cur (nv im) l \<and> dur (nv im1) l = dur (nv im) l \<and> pend (nv im1) l = pend (nv im) l"
    if "\<And>s. l \<noteq> SegSt (other (active im)) s" for l
    using im1(5) that b by (simp add: same_cells_def rd_def)
  have c: "rd im1 l = rd im l" "dur (nv im1) l = dur (nv im) l" "quiet (nv im1) l = quiet (nv im) l"
    if "\<And>s. l \<noteq> SegSt (other (active im)) s" for l
    using c0 [OF that] by (simp_all add: rd_def quiet_iff)
  have act: "active im1 = active im" by (simp add: active_def c)
  have nm: "rd im1 HNrMain = rd im HNrMain" by (simp add: c)
  have hdr1: "hdr_ok im1" using hdr by (simp add: hdr_ok_def c)
  have gs: "get_segment_state im1 s = get_segment_state im s" for s
    by (simp add: get_segment_state_active act c)
  have old: "pst pm s = get_segment_state im s" if "pm \<in> crash_images (nv im1)" "s < rd im HNrMain" for pm s
  proof -
    have d: "pm l \<in> dur (nv im1) l" for l using that(1) im1(4) by (simp add: crash_images_def crash_points_def)
    have "quiet (nv im) HEpoch" using hdr by (simp add: hdr_ok_def)
    then have "dur (nv im1) HEpoch = {rd im HEpoch}" by (simp add: c quiet_iff rd_def)
    then have e: "pm HEpoch mod 2 = active im" using d [of HEpoch] by (simp add: active_def)
    have "quiet (nv im) (SegSt (active im) s)" using syn that(2) by (simp add: synced_def upd_ok_def)
    then have "dur (nv im1) (SegSt (active im) s) = {rd im (SegSt (active im) s)}" by (simp add: c quiet_iff rd_def)
    then show ?thesis using d [of "SegSt (active im) s"] by (simp add: pst_def e get_segment_state_active)
  qed
  show ?thesis
  proof (rule that [of "commit_segment_state_update im1"])
    show "update_states im ups = Some (commit_segment_state_update im1)"
      by (simp add: update_states_def im0_def [symmetric] im1(1))
    show "hdr_ok (commit_segment_state_update im1)" by (rule commit_epoch_cells(3) [OF hdr1])
    show "synced (commit_segment_state_update im1)" by (rule commit_synced [OF hdr1 im1(2,3)])
    show "get_segment_state (commit_segment_state_update im1) s = ?new s" if "s < rd im HNrMain" for s
      by (rule commit_states(1) [OF hdr1 im1(2)]) (simp add: nm that)
    fix pm assume pm: "pm \<in> crash_images (nv (commit_segment_state_update im1))"
    show "(\<forall>s < rd im HNrMain. pst pm s = get_segment_state im s) \<or> (\<forall>s < rd im HNrMain. pst pm s = ?new s)"
      using commit_atomic [OF hdr1 im1(2) pm] old nm gs by (metis (no_types, lifting))
  qed
qed

text \<open>
  C26. The segment-state update is a transaction: whatever states are set between
  \<^verbatim>\<open>begin\<close> and \<^verbatim>\<open>commit\<close>, nothing exits, afterwards the current states are
  the old ones with the assignments applied in order and both copies agree, and after a crash
  anywhere inside the states read from the durable image are all old or all new.
\<close>

theorem segment_state_transaction:
  assumes "hdr_ok im" and "synced im" and "hist (nv im) = []"
    and "\<forall>(s, st) \<in> set ups. s < rd im HNrMain"
  shows "\<exists>im'. update_states im ups = Some im' \<and> hdr_ok im' \<and> synced im' \<and>
    (\<forall>s < rd im HNrMain. get_segment_state im' s = apply_states ups (get_segment_state im) s) \<and>
    (\<forall>pm \<in> crash_images (nv im').
       (\<forall>s < rd im HNrMain. pst pm s = get_segment_state im s) \<or>
       (\<forall>s < rd im HNrMain. pst pm s = apply_states ups (get_segment_state im) s))"
  by (rule update_states_ok [OF assms]) blast

theorem segment_state_transaction_witness:
  "\<exists>im'. update_states demo_image [(0, SS_Main), (0, SS_Back)] = Some im' \<and> get_segment_state im' 0 = SS_Back"
proof -
  have "\<forall>(s, st) \<in> set [(0, SS_Main), (0, SS_Back)]. s < rd demo_image HNrMain" by (simp add: demo_rd)
  from segment_state_transaction [OF demo_image_ok(1-3) this] show ?thesis
    by (auto simp: demo_rd apply_states_def)
qed

text \<open>
  \<^verbatim>\<open>set_segment_state_atomic\<close> changes one segment's state, keeps both copies in
  step, and a crash inside it reads the old or the new state of that segment and the old state of
  every other one, under an unchanged epoch.
\<close>

theorem single_state_update_atomic:
  assumes "hdr_ok im" and "synced im" and "hist (nv im) = []" and "s < rd im HNrMain"
  shows "synced (set_segment_state_atomic s st im) \<and>
    get_segment_state (set_segment_state_atomic s st im) = (get_segment_state im)(s := st) \<and>
    (\<forall>pm \<in> crash_images (nv (set_segment_state_atomic s st im)). pm HEpoch = rd im HEpoch \<and>
      (\<forall>j < rd im HNrMain. pst pm j = get_segment_state im j \<or> j = s \<and> pst pm j = st))"
proof (intro conjI ballI)
  show "synced (set_segment_state_atomic s st im)"
    "get_segment_state (set_segment_state_atomic s st im) = (get_segment_state im)(s := st)"
    using set_segment_state_atomic_ok [OF assms(1,2,4)] by blast+
  fix pm assume pm: "pm \<in> crash_images (nv (set_segment_state_atomic s st im))"
  have q: "dur (nv im) HEpoch = {rd im HEpoch}"
    "j < rd im HNrMain \<Longrightarrow> dur (nv im) (SegSt (active im) j) = {get_segment_state im j}" for j
    using assms(1,2) by (auto simp: hdr_ok_def synced_def upd_ok_def quiet_iff rd_def get_segment_state_active)
  have old: "pm HEpoch = rd im HEpoch \<and> (\<forall>j < rd im HNrMain. pst pm j = get_segment_state im j)"
    if "pm \<in> crash_images (nv im)"
  proof -
    have d: "pm l \<in> dur (nv im) l" for l
      using that assms(3) by (simp add: crash_images_def crash_points_def)
    have "pm HEpoch = rd im HEpoch" using d [of HEpoch] q(1) by simp
    then have "pst pm j = pm (SegSt (active im) j)" for j by (simp add: pst_def active_def)
    then show ?thesis using d q(2) \<open>pm HEpoch = _\<close> by (metis singletonD)
  qed
  show "pm HEpoch = rd im HEpoch" and "\<forall>j < rd im HNrMain. pst pm j = get_segment_state im j \<or> j = s \<and> pst pm j = st"
    using set_segment_state_atomic_crash [OF assms(1,2) pm] old by blast+
qed

theorem single_state_update_atomic_witness:
  "get_segment_state (set_segment_state_atomic 0 SS_Main demo_image) 0 = SS_Main"
  using single_state_update_atomic [OF demo_image_ok(1-3), of 0 SS_Main] by (simp add: demo_rd)

subsection \<open>Recovery\<close>

lemma rec_states_bound:
  assumes "img_valid pm" and "b < n" and "n \<le> pm HNrBack" and "pm (B2M b) = s" and "s \<noteq> kNullSegmentIndex"
    and "pst pm s \<noteq> SS_Initial" and "pst pm s \<noteq> t"
  shows "rec_states t n pm s = t"
  using assms(2,3)
proof (induction n)
  case 0
  then show ?case by simp
next
  case (Suc n)
  have one: "pm (B2M n) = s \<longleftrightarrow> n = b"
    using assms(1,4,5) Suc.prems by (auto simp: img_valid_def)
  show ?case
    using Suc assms(4-7) one by (cases "n = b") auto
qed

lemma rec_states_same: "pst pm s = t \<Longrightarrow> rec_states t n pm s = pm (SegSt (other (pm HEpoch mod 2)) s)"
  by (induction n) auto

lemma recover_segment_visible:
  assumes "recover_segment t b im = Some im'" and "visible (nv im)"
  shows "visible (nv im')"
proof -
  have cp: "visible (nv (copy_main_to_back s n im))" "visible (nv (copy_back_to_main s n im))" for s n
    using assms(2) by (simp_all add: copy_main_to_back_def copy_back_to_main_def NonTemporalCopyWithWriteElimination_def)
  show ?thesis
    using assms cp by (auto simp: recover_segment_eq Let_def split: if_splits dest: set_segment_state_visible)
qed

lemma recover_segments_visible:
  "foldM (recover_segment t) bs im = Some im' \<Longrightarrow> visible (nv im) \<Longrightarrow> visible (nv im')"
  by (induction bs arbitrary: im) (auto split: option.splits dest: recover_segment_visible)

lemma restart_visible:
  assumes "restart t pm = Some im"
  shows "visible (nv im)"
proof -
  have "visible (nv (begin_segment_state_update (attach (nv_init pm))))"
    by (simp add: begin_segment_state_update_def attach_def)
  then show ?thesis
    using assms by (auto simp: restart_def Open_existing_def recovery_def split: if_splits option.splits
        intro!: commit_visible dest: recover_segments_visible)
qed

lemma commit_keeps:
  assumes "\<And>l. A l \<Longrightarrow> quiet (nv im) l \<and> \<not> is_state_cell l"
  shows "keeps A (nv im) (nv (commit_segment_state_update im))"
proof -
  define V where "V = [HEpoch \<mapsto> next_epoch (rd im HEpoch)]"
  define m1 where "m1 = nv_fence (nv_nt V (nv_fence (nv_flush
      (dirty_flush (next_epoch (rd im HEpoch) mod 2) (valid_dirty im)) (nv im))))"
  define W where "W = dirty_copy m1 (next_epoch (rd im HEpoch) mod 2) (valid_dirty im)"
  have eq: "nv (commit_segment_state_update im) = nv_nt W m1"
    by (simp add: commit_segment_state_update_eq Let_def W_def m1_def V_def)
  have VW: "V l = None" "W l = None" if "A l" for l
    using assms [OF that] by (cases l; simp add: V_def W_def dirty_copy_def)+
  have "keeps A (nv im) m1"
    unfolding m1_def
    by (rule evolves_keeps [OF evolves_trans [OF evolves_trans [OF evolves_trans
          [OF evolves_flush evolves_fence] evolves_nt] evolves_fence]])
      (use assms VW in \<open>simp add: map_add_def\<close>)
  moreover have "keeps A m1 (nv_nt W m1)"
    by (rule evolves_keeps [OF evolves_nt]) (use VW keepsD [OF calculation] in simp)
  ultimately show ?thesis unfolding eq by (rule keeps_trans)
qed

lemma recovery_crash_header:
  assumes val: "img_valid pm" and re: "restart t pm = Some im" and pm': "pm' \<in> crash_images (nv im)"
  shows "pm' HNrMain = pm HNrMain"
proof -
  obtain im1 where im1: "restart t pm = Some (commit_segment_state_update im1)" "rec_hdr t pm (pm HNrBack) im1"
    by (rule restart_eq [OF val])
  then have q: "quiet (nv im1) HNrMain" "cur (nv im1) HNrMain = pm HNrMain" and h: "hist (nv im1) = []"
    by (auto simp: rec_hdr_def rd_def)
  have "keeps (\<lambda>l. l = HNrMain) (nv im1) (nv (commit_segment_state_update im1))"
    by (rule commit_keeps) (simp add: q)
  moreover have "crash_safe (\<lambda>pm'. pm' HNrMain = pm HNrMain) (nv im1)"
    using quiet_durable [OF q(1)] q(2) h by (auto simp: crash_safe_iff dur_sat_def dest: spec [of _ HNrMain])
  ultimately have "crash_safe (\<lambda>pm'. pm' HNrMain = pm HNrMain) (nv (commit_segment_state_update im1))"
    by (rule keeps_crash_safe) (simp add: q)
  then show ?thesis using pm' im1(1) re by (simp add: crash_safe_def)
qed

text \<open>
  C27. Recovery of a well-formed durable image succeeds, whatever the target state, and makes the
  checkpointed memory visible: a bound segment in state \<^verbatim>\<open>SS_Main\<close> keeps its main
  memory, one in state \<^verbatim>\<open>SS_Back\<close> gets its back memory; afterwards main and back
  memory agree byte for byte, both durable. A segment that was not in the target state is in it
  then; one that was keeps what the other copy of the state array said.
\<close>

theorem recovery_restores:
  assumes "img_valid pm" and "b < pm HNrBack" and "pm (B2M b) = s" and "s \<noteq> kNullSegmentIndex"
    and "pst pm s = SS_Main \<or> pst pm s = SS_Back" and "i < kSegmentSize"
  shows "\<exists>im. restart t pm = Some im \<and>
    rd im (MainB (s * kSegmentSize + i)) =
      (if pst pm s = SS_Main then pm (MainB (s * kSegmentSize + i)) else pm (BackB (b * kSegmentSize + i))) \<and>
    rd im (BackB (b * kSegmentSize + i)) = rd im (MainB (s * kSegmentSize + i)) \<and>
    quiet (nv im) (MainB (s * kSegmentSize + i)) \<and> quiet (nv im) (BackB (b * kSegmentSize + i)) \<and>
    get_segment_state im s = (if pst pm s = t then pm (SegSt (other (pm HEpoch mod 2)) s) else t)"
proof -
  obtain im where re: "restart t pm = Some im" by (rule restart_eq [OF assms(1)]) blast
  note rc = recovery_correct [OF assms(1) re]
  have s: "s < pm HNrMain" using assms(1-4) by (auto simp: img_valid_def)
  have dm: "(s * kSegmentSize + i) div kSegmentSize = s" "(s * kSegmentSize + i) mod kSegmentSize = i"
    using assms(6) by simp_all
  have x: "s * kSegmentSize + i < pm HNrMain * kSegmentSize" using s dm by (simp add: div_lt_segments)
  have bu: "bound_upto (pm HNrBack) pm s = Some b" using bound_unique [OF assms(1) _ assms(2)] assms(3,4) by simp
  have "rd im (MainB (s * kSegmentSize + i)) =
      (if pst pm s = SS_Main then pm (MainB (s * kSegmentSize + i)) else pm (BackB (b * kSegmentSize + i)))"
    using assms(5) rc(1) [OF x] assms(6)
    by (auto simp: recovered_main_def main_upto_def Let_def dm bu simp del: mod_mult_self1 mod_mult_self2 mod_mult_self3 mod_mult_self4)
  moreover have "rd im (BackB (b * kSegmentSize + i)) = rd im (MainB (s * kSegmentSize + i))"
    using recovery_main_eq_back [OF assms(1) re assms(2-6)] by simp
  moreover have "get_segment_state im s = (if pst pm s = t then pm (SegSt (other (pm HEpoch mod 2)) s) else t)"
    using rc(8) [OF s] rec_states_bound [OF assms(1,2) order_refl assms(3,4)] rec_states_same [of pm s t] assms(5) by auto
  ultimately show ?thesis using re rc(3) by simp
qed

theorem recovery_restores_witness:
  "\<exists>im. restart SS_Back (demo_cells SS_Back) = Some im \<and> rd im (MainB 7) = 5 \<and> rd im (BackB 7) = 5"
proof -
  have "pst (demo_cells SS_Back) 0 = SS_Back" by (simp add: pst_def)
  then show ?thesis
    using recovery_restores [OF demo_img_valid [of SS_Back], of 0 0 7 SS_Back] by (auto simp: geometry)
qed

text \<open>
  C28. Recovery survives its own crashes: from any image a crash inside it leaves, recovering
  again, with any target state, succeeds and produces the same memory on every segment that had
  a checkpointed copy.
\<close>

theorem recovery_idempotent:
  assumes "img_valid pm" and "restart t pm = Some im" and "pm' \<in> crash_images (nv im)"
    and "x < pm HNrMain * kSegmentSize"
    and "pst pm (x div kSegmentSize) = SS_Main \<or> pst pm (x div kSegmentSize) = SS_Back"
  shows "img_valid pm' \<and> (\<exists>im'. restart t' pm' = Some im' \<and> rd im' (MainB x) = rd im (MainB x))"
proof -
  have v: "img_valid pm'" and m: "recovered_main pm' x = recovered_main pm x"
    by (rule recovery_crash [OF assms])+
  obtain im' where im': "restart t' pm' = Some im'" by (rule restart_eq [OF v]) blast
  have "x < pm' HNrMain * kSegmentSize" using recovery_crash_header [OF assms(1-3)] assms(4) by simp
  then show ?thesis
    using v m im' recovery_correct(1) [OF v im'] recovery_correct(1) [OF assms(1,2,4)] by simp
qed

theorem recovery_idempotent_witness:
  "\<exists>im im'. restart SS_Back (demo_cells SS_Main) = Some im \<and> restart SS_Main (cur (nv im)) = Some im' \<and>
     rd im' (MainB 7) = rd im (MainB 7)"
proof -
  obtain im where im: "restart SS_Back (demo_cells SS_Main) = Some im"
    by (rule restart_eq [OF demo_img_valid]) blast
  have "pst (demo_cells SS_Main) (7 div kSegmentSize) = SS_Main" by (simp add: pst_def)
  then show ?thesis
    using recovery_idempotent [OF demo_img_valid im visible_crash_image [OF restart_visible [OF im]], of 7 SS_Main] im
    by (auto simp: geometry)
qed


end
