(* ===== verification/UndoLog.thy ===== *)
theory UndoLog
  imports Common
begin

text \<open>
  \<^verbatim>\<open>engines/undolog_engine.h\<close> and \<^verbatim>\<open>engines/undolog_engine.cpp\<close>: the
  engine that saves the old contents of a block in a log before the block is first written after
  a checkpoint. Opening, recovery, the hooks and the checkpoint, as they run when one thread at a
  time is inside a hook; the threads of a checkpoint run their shares in the order of their
  numbers. Locations are the fields of \<^verbatim>\<open>HeapHeader\<close>, the fields and payload bytes of
  the log entry at a byte offset of the log, and the data bytes.
\<close>

definition kHeapHeaderMagic :: nat where "kHeapHeaderMagic = 0x6f6f0404"
definition kLogEntryMagic :: nat where "kLogEntryMagic = 0x7a7a2020"
definition sizeof_LogEntry :: nat where "sizeof_LogEntry = 64"

lemmas undolog_constants [geometry] = kHeapHeaderMagic_def kLogEntryMagic_def sizeof_LogEntry_def

datatype uloc =
    UMagic | UAttr | UNrBlocks | ULogCap | ULogHead | ULogOff | UDataOff
  | EMagic nat | EOff nat | ESize nat | EPay nat nat
  | Data nat

type_synonym umem = "(uloc, nat) nvm"

datatype flush_mode = FMODE_NO_ACTION | FMODE_USE_FLUSH_BLOCKS | FMODE_WBINVD

record ulog =
  unv :: umem
  nr_blocks :: nat
  block_dirty :: bitset
  log_head :: nat
  address_first :: nat
  has_snapshot :: bool
  flush_blocks :: "nat \<Rightarrow> nat list"
  mode :: flush_mode

definition urd :: "ulog \<Rightarrow> uloc \<Rightarrow> nat" where
  "urd e l = cur (unv e) l"

definition u_nv :: "(umem \<Rightarrow> umem) \<Rightarrow> ulog \<Rightarrow> ulog" where
  "u_nv f e = e\<lparr>unv := f (unv e)\<rparr>"

lemma u_nv_simps [simp]:
  "unv (u_nv f e) = f (unv e)" "nr_blocks (u_nv f e) = nr_blocks e" "block_dirty (u_nv f e) = block_dirty e"
  "log_head (u_nv f e) = log_head e" "address_first (u_nv f e) = address_first e"
  "has_snapshot (u_nv f e) = has_snapshot e" "flush_blocks (u_nv f e) = flush_blocks e" "mode (u_nv f e) = mode e"
  by (simp_all add: u_nv_def)

subsection \<open>Opening and recovery\<close>

fun is_uheader :: "uloc \<Rightarrow> bool" where
  "is_uheader (EMagic _) = False" | "is_uheader (EOff _) = False" | "is_uheader (ESize _) = False"
| "is_uheader (EPay _ _) = False" | "is_uheader (Data _) = False" | "is_uheader _ = True"

definition block_count :: "nat \<Rightarrow> nat" where
  "block_count user_capacity = (let c = max user_capacity kMinContainerSize in
     c div kBlockSize + (if c mod kBlockSize \<noteq> 0 then 1 else 0))"

definition format :: "nat \<Rightarrow> umem \<Rightarrow> umem" where
  "format blocks m0 =
     (let cap = blocks * kBlockSize;
          m1 = nv_store (\<lambda>l. if is_uheader l then Some 0 else None) m0;
          m2 = nv_store [UMagic \<mapsto> kHeapHeaderMagic, UNrBlocks \<mapsto> blocks, UDataOff \<mapsto> kHugePageSize,
                 ULogOff \<mapsto> kHugePageSize + cap, ULogCap \<mapsto> cap] m1
      in nv_fence (nv_flush is_uheader m2))"

definition start_engine :: "nat \<Rightarrow> nat \<Rightarrow> bool \<Rightarrow> umem \<Rightarrow> ulog option" where
  "start_engine blocks base snapshot m =
     (case bs_allocate blocks bs_new of None \<Rightarrow> None | Some bd \<Rightarrow>
        Some \<lparr>unv = m, nr_blocks = blocks, block_dirty = bd, log_head = 0,
          address_first = base + cur m UDataOff, has_snapshot = snapshot, flush_blocks = (\<lambda>_. []),
          mode = FMODE_NO_ACTION\<rparr>)"

definition create_engine :: "nat \<Rightarrow> nat \<Rightarrow> umem \<Rightarrow> ulog option" where
  "create_engine user_capacity base m0 =
     (let blocks = block_count user_capacity in start_engine blocks base False (format blocks m0))"

fun data_at :: "nat \<Rightarrow> uloc \<Rightarrow> nat option" where
  "data_at base (Data x) = (if base \<le> x then Some (x - base) else None)"
| "data_at base _ = None"

text \<open>
  The loop of \<^verbatim>\<open>recover\<close>. \<open>Some None\<close> is the exit on a broken entry; \<open>None\<close>
  is a loop that never ends, possible when a size wraps the cursor's increment to zero.
\<close>

partial_function (option) recover_loop :: "nat \<Rightarrow> umem \<Rightarrow> umem option option" where
  "recover_loop cursor m =
     (if cursor < cur m ULogHead then
        if cur m (EMagic cursor) \<noteq> kLogEntryMagic then Some None
        else recover_loop (cursor + RoundUp ((sizeof_LogEntry + cur m (ESize cursor)) mod 2 ^ 64) kCacheLineSize)
               (NonTemporalCopy (data_at (cur m (EOff cursor))) (EPay cursor) (cur m (ESize cursor)) m)
      else Some (Some m))"

definition recover :: "umem \<Rightarrow> umem option option" where
  "recover m = (case recover_loop 0 m of None \<Rightarrow> None | Some None \<Rightarrow> Some None
     | Some (Some m1) \<Rightarrow> Some (Some (nv_fence (nv_nt [ULogHead \<mapsto> 0] (nv_fence m1)))))"

definition exist_snapshot :: "umem \<Rightarrow> bool" where
  "exist_snapshot m = bit (cur m UAttr) 4"

text \<open>Opening an existing file; \<open>None\<close> is a null pointer, an exit or a recovery that hangs.\<close>

definition open_engine :: "nat \<Rightarrow> umem \<Rightarrow> ulog option" where
  "open_engine base m =
     (if cur m UMagic \<noteq> kHeapHeaderMagic then None
      else case recover m of Some (Some m1) \<Rightarrow> start_engine (cur m UNrBlocks) base (exist_snapshot m1) m1
        | _ \<Rightarrow> None)"

subsection \<open>Hooks\<close>

definition get_capacity :: "ulog \<Rightarrow> nat" where "get_capacity e = nr_blocks e * kBlockSize"

definition get_address :: "nat \<Rightarrow> ulog \<Rightarrow> nat" where "get_address offset e = address_first e + offset"

definition in_range :: "ulog \<Rightarrow> nat \<Rightarrow> bool" where
  "in_range e addr \<longleftrightarrow> address_first e \<le> addr \<and> addr < address_first e + get_capacity e"

fun entry_line :: "nat \<Rightarrow> uloc \<Rightarrow> bool" where
  "entry_line c (EMagic c') = (c' = c)" | "entry_line c (EOff c') = (c' = c)" | "entry_line c (ESize c') = (c' = c)"
| "entry_line c _ = False"

fun payload_at :: "nat \<Rightarrow> uloc \<Rightarrow> nat option" where
  "payload_at c (EPay c' i) = (if c' = c then Some i else None)"
| "payload_at c _ = None"

text \<open>The fields, the payload and the fence that make the entry at \<open>pos\<close> durable.\<close>

definition write_entry :: "nat \<Rightarrow> nat \<Rightarrow> umem \<Rightarrow> umem" where
  "write_entry pos block_id m =
     (let m1 = nv_store [EMagic pos \<mapsto> kLogEntryMagic, EOff pos \<mapsto> block_id * kBlockSize, ESize pos \<mapsto> kBlockSize] m;
          m2 = nv_flush (entry_line pos) m1
      in nv_fence (NonTemporalCopy (payload_at pos) (\<lambda>i. Data (cur m2 (EOff pos) + i)) (cur m2 (ESize pos)) m2))"

text \<open>
  The loop that publishes the entry by a compare-and-swap of the log head from \<open>pos\<close> to
  \<open>stop\<close>. With no other thread in a hook it succeeds at once or never; the second is
  \<open>None\<close>.
\<close>

definition publish :: "nat \<Rightarrow> nat \<Rightarrow> umem \<Rightarrow> umem option" where
  "publish pos stop m =
     (if \<not> cur m ULogHead < stop then Some m
      else if cur m ULogHead = pos
      then Some (nv_fence (nv_flush is_uheader (nv_store [ULogHead \<mapsto> stop] m)))
      else None)"

definition log_size :: nat where
  "log_size = sizeof_LogEntry + RoundUp kBlockSize kCacheLineSize"

definition append_bucket :: "nat \<Rightarrow> nat \<Rightarrow> ulog \<Rightarrow> ulog" where
  "append_bucket tid block_id e =
     (if length (flush_blocks e tid) \<noteq> kMaxFlushBlocks
      then e\<lparr>flush_blocks := (flush_blocks e)(tid := flush_blocks e tid @ [block_id])\<rparr> else e)"

definition hook_routine :: "nat \<Rightarrow> nat \<Rightarrow> ulog \<Rightarrow> ulog option" where
  "hook_routine tid addr e =
     (let delta = addr - address_first e; block_id = delta div kBlockSize
      in if bs_test block_id (block_dirty e) then Some e
      else let pos = log_head e; e1 = e\<lparr>log_head := pos + log_size\<rparr>
        in if cur (unv e1) ULogCap \<le> pos + log_size then None
        else case publish pos (pos + log_size) (write_entry pos block_id (unv e1)) of None \<Rightarrow> None
          | Some m \<Rightarrow> Some (append_bucket tid block_id
              (e1\<lparr>unv := m, block_dirty := bs_set block_id (block_dirty e1)\<rparr>)))"

text \<open>The blocks the range hook visits: \<^verbatim>\<open>for (ptr = delta & ~kBlockMask; ptr < delta + len; ptr += kBlockSize)\<close>.\<close>

definition range_blocks :: "nat \<Rightarrow> nat \<Rightarrow> nat list" where
  "range_blocks delta len = [delta div kBlockSize..<(delta + len + (kBlockSize - 1)) div kBlockSize]"

definition hook_routine_range :: "nat \<Rightarrow> nat \<Rightarrow> nat \<Rightarrow> ulog \<Rightarrow> ulog option" where
  "hook_routine_range tid addr len e =
     foldM (\<lambda>b e. hook_routine tid (address_first e + b * kBlockSize) e)
       (range_blocks (addr - address_first e) len) e"

definition hook_rt_store :: "nat \<Rightarrow> nat \<Rightarrow> ulog \<Rightarrow> ulog option" where
  "hook_rt_store tid addr e = (if in_range e addr then hook_routine tid addr e else Some e)"

definition hook_rt_range_store :: "nat \<Rightarrow> nat \<Rightarrow> nat \<Rightarrow> ulog \<Rightarrow> ulog option" where
  "hook_rt_range_store tid addr len e =
     (if addr mod kBlockSize + len \<le> kBlockSize then hook_rt_store tid addr e
      else if in_range e addr then hook_routine_range tid addr len e else Some e)"

subsection \<open>Checkpoint\<close>

definition decide_mode :: "ulog \<Rightarrow> flush_mode" where
  "decide_mode e =
     (if \<forall>i \<in> set [0..<kMaxThreads]. flush_blocks e i = [] then FMODE_NO_ACTION
      else if \<exists>i \<in> set [0..<kMaxThreads]. length (flush_blocks e i) = kMaxFlushBlocks then FMODE_WBINVD
      else FMODE_USE_FLUSH_BLOCKS)"

fun in_data_block :: "nat \<Rightarrow> uloc \<Rightarrow> bool" where
  "in_data_block b (Data x) = (x div kBlockSize = b)"
| "in_data_block b _ = False"

definition flush_parallel :: "nat \<Rightarrow> nat \<Rightarrow> ulog \<Rightarrow> ulog" where
  "flush_parallel n tid e =
     u_nv nv_fence
       (if mode e = FMODE_WBINVD
        then (if tid = 0 then u_nv (nv_flush (\<lambda>_. True)) e else e)
        else u_nv (fold (\<lambda>i. fold (\<lambda>b. nv_flush (in_data_block b)) (flush_blocks e i)) (share n tid kMaxThreads)) e)"

definition clear_bucket :: "nat \<Rightarrow> ulog \<Rightarrow> ulog" where
  "clear_bucket i e = e\<lparr>flush_blocks := (flush_blocks e)(i := [])\<rparr>"

definition clear_bits :: "nat list \<Rightarrow> ulog \<Rightarrow> ulog" where
  "clear_bits ids e = e\<lparr>block_dirty := fold bs_clear_all ids (block_dirty e)\<rparr>"

definition clear_dirty_bits_parallel :: "nat \<Rightarrow> nat \<Rightarrow> ulog \<Rightarrow> ulog" where
  "clear_dirty_bits_parallel n tid e =
     (if mode e = FMODE_WBINVD
      then fold clear_bucket (share n tid kMaxThreads)
             (clear_bits (map (\<lambda>i. i * kBitWidth) (share n tid (nr_words (nr_blocks e)))) e)
      else fold (\<lambda>i e. clear_bucket i (clear_bits (flush_blocks e i) e)) (share n tid kMaxThreads) e)"

text \<open>The leader's part: the snapshot attribute, then the log head.\<close>

definition commit_log :: "ulog \<Rightarrow> ulog" where
  "commit_log e =
     (let e1 = (if has_snapshot e then e
                else (u_nv (nv_nt [UAttr \<mapsto> kAttributeHasSnapshot]) e)\<lparr>has_snapshot := True\<rparr>)
      in (u_nv (\<lambda>m. nv_fence (nv_nt [ULogHead \<mapsto> 0] m)) e1)\<lparr>log_head := 0\<rparr>)"

definition checkpoint :: "nat \<Rightarrow> ulog \<Rightarrow> ulog" where
  "checkpoint n e =
     (let e1 = e\<lparr>mode := decide_mode e\<rparr> in
      if mode e1 = FMODE_NO_ACTION then e1
      else commit_log (fold (clear_dirty_bits_parallel n) [0..<n] (fold (flush_parallel n) [0..<n] e1)))"

end
