(* ===== verification/UndoLog_Crash.thy ===== *)
theory UndoLog_Crash
  imports UndoLog Engine_Spec
begin

text \<open>
  Crash consistency of the undo log: what a durable image stands for, recovery from it, and the
  invariant the hooks and the checkpoint keep.
\<close>

subsection \<open>What an image stands for\<close>

definition ent :: "nat \<Rightarrow> nat" where "ent k = k * log_size"

lemma log_size_320 [geometry]: "log_size = 320"
  by (simp add: log_size_def sizeof_LogEntry_def RoundUp_def geometry)

lemma ent_inject [simp]: "ent k = ent j \<longleftrightarrow> k = j" "ent k < ent j \<longleftrightarrow> k < j" "ent (Suc k) = ent k + log_size"
  by (simp_all add: ent_def geometry)

definition entry_ok :: "(nat \<Rightarrow> nat) \<Rightarrow> (uloc \<Rightarrow> nat) \<Rightarrow> nat \<Rightarrow> nat \<Rightarrow> bool" where
  "entry_ok snap v k b \<longleftrightarrow> v (EMagic (ent k)) = kLogEntryMagic \<and> v (EOff (ent k)) = b * kBlockSize \<and>
     v (ESize (ent k)) = kBlockSize \<and> (\<forall>i < kBlockSize. v (EPay (ent k) i) = snap (b * kBlockSize + i))"

definition log_ok :: "(nat \<Rightarrow> nat) \<Rightarrow> (uloc \<Rightarrow> nat) \<Rightarrow> nat list \<Rightarrow> bool" where
  "log_ok snap v es \<longleftrightarrow> (\<forall>k < length es. entry_ok snap v k (es ! k))"

definition clean_ok :: "nat \<Rightarrow> (nat \<Rightarrow> nat) \<Rightarrow> (uloc \<Rightarrow> nat) \<Rightarrow> nat list \<Rightarrow> bool" where
  "clean_ok blocks snap v es \<longleftrightarrow>
     (\<forall>x < blocks * kBlockSize. x div kBlockSize \<notin> set es \<longrightarrow> v (Data x) = snap x)"

definition stands_for :: "nat \<Rightarrow> (nat \<Rightarrow> nat) \<Rightarrow> (uloc \<Rightarrow> nat) \<Rightarrow> bool" where
  "stands_for blocks snap pm \<longleftrightarrow> pm UMagic = kHeapHeaderMagic \<and> pm UNrBlocks = blocks \<and>
     pm ULogCap = blocks * kBlockSize \<and> pm UDataOff = kHugePageSize \<and>
     (\<exists>es. pm ULogHead = ent (length es) \<and> log_ok snap pm es \<and> clean_ok blocks snap pm es)"

text \<open>The cells that an image with the entries \<open>es\<close> depends on, the log head apart.\<close>

fun kept :: "nat \<Rightarrow> nat list \<Rightarrow> uloc \<Rightarrow> bool" where
  "kept blocks es (EMagic c) = (\<exists>k < length es. c = ent k)"
| "kept blocks es (EOff c) = (\<exists>k < length es. c = ent k)"
| "kept blocks es (ESize c) = (\<exists>k < length es. c = ent k)"
| "kept blocks es (EPay c i) = (\<exists>k < length es. c = ent k \<and> i < kBlockSize)"
| "kept blocks es (Data x) = (x < blocks * kBlockSize \<and> x div kBlockSize \<notin> set es)"
| "kept blocks es ULogHead = False"
| "kept blocks es UAttr = False"
| "kept blocks es _ = True"

lemma kept_entry:
  assumes "k < length es"
  shows "kept blocks es (EMagic (ent k))" "kept blocks es (EOff (ent k))" "kept blocks es (ESize (ent k))"
    "i < kBlockSize \<Longrightarrow> kept blocks es (EPay (ent k) i)"
  using assms by auto

lemma log_ok_cong:
  assumes "log_ok snap v es" and "\<And>l. kept blocks es l \<Longrightarrow> v' l = v l"
  shows "log_ok snap v' es"
  using assms(1) assms(2) [OF kept_entry(1)] assms(2) [OF kept_entry(2)] assms(2) [OF kept_entry(3)]
    assms(2) [OF kept_entry(4)]
  by (simp add: log_ok_def entry_ok_def)

lemma clean_ok_cong:
  "clean_ok blocks snap v es \<Longrightarrow> (\<And>l. kept blocks es l \<Longrightarrow> v' l = v l) \<Longrightarrow> clean_ok blocks snap v' es"
  by (simp add: clean_ok_def)

lemma u_stands_forI:
  assumes "\<And>l. kept blocks es l \<Longrightarrow> pm l = v l" and "pm ULogHead = ent (length es)"
    and "v UMagic = kHeapHeaderMagic" "v UNrBlocks = blocks" "v ULogCap = blocks * kBlockSize" "v UDataOff = kHugePageSize"
    and "log_ok snap v es" and "clean_ok blocks snap v es"
  shows "stands_for blocks snap pm"
  unfolding stands_for_def
  using assms(2-6) log_ok_cong [OF assms(7,1)] clean_ok_cong [OF assms(8,1)]
    assms(1) [of UMagic] assms(1) [of UNrBlocks] assms(1) [of ULogCap] assms(1) [of UDataOff] by auto

subsection \<open>Recovery\<close>

fun restored :: "(nat \<Rightarrow> nat) \<Rightarrow> nat list \<Rightarrow> uloc \<rightharpoonup> nat" where
  "restored snap bs (Data x) = (if x div kBlockSize \<in> set bs then Some (snap x) else None)"
| "restored snap bs _ = None"

lemma restored_Nil [simp]: "restored snap [] = Map.empty"
proof
  fix l show "restored snap [] l = None" by (cases l) auto
qed

lemma restored_Cons: "restored snap [b] ++ restored snap bs = restored snap (b # bs)"
proof
  fix l show "(restored snap [b] ++ restored snap bs) l = restored snap (b # bs) l"
    by (cases l) (auto simp: map_add_def)
qed

lemma restore_entry:
  assumes "entry_ok snap (cur m) k b"
  shows "NonTemporalCopy (data_at (cur m (EOff (ent k)))) (EPay (ent k)) (cur m (ESize (ent k))) m
    = nv_nt (restored snap [b]) m"
proof -
  have "(case data_at (b * kBlockSize) l of Some i \<Rightarrow> if i < kBlockSize then Some (cur m (EPay (ent k) i)) else None
        | None \<Rightarrow> None) = restored snap [b] l" for l
  proof (cases l)
    case (Data x)
    then show ?thesis
      using assms block_offset_conv [of b x] by (auto simp: entry_ok_def)
  qed simp_all
  then show ?thesis
    using assms by (simp add: entry_ok_def NonTemporalCopy_def)
qed

lemma recover_loop_ok:
  assumes "cur m ULogHead = ent (length es)" and "log_ok snap (cur m) es" and "k \<le> length es"
  shows "\<exists>m'. recover_loop (ent k) m = Some (Some m') \<and> evolves (\<lambda>_. False) (restored snap (drop k es)) m m'"
  using assms
proof (induction "length es - k" arbitrary: k m)
  case 0
  then have "k = length es" by simp
  moreover from this have "drop k es = []" by simp
  ultimately show ?case using 0 evolves_refl [of m] by (intro exI [of _ m]) (simp add: recover_loop.simps [of "ent (length es)"])
next
  case (Suc d)
  then have k: "k < length es" by simp
  define m1 where "m1 = nv_nt (restored snap [es ! k]) m"
  have e: "entry_ok snap (cur m) k (es ! k)" using Suc.prems(2) k by (simp add: log_ok_def)
  have c: "cur m1 l = cur m l" if "\<And>x. l \<noteq> Data x" for l
    using that by (cases l) (auto simp: m1_def)
  have "recover_loop (ent k) m = recover_loop (ent k + log_size) m1"
    using e k Suc.prems(1) restore_entry [OF e]
    by (simp add: recover_loop.simps [of "ent k"] m1_def entry_ok_def)
      (simp add: log_size_def sizeof_LogEntry_def RoundUp_def geometry)
  then have step: "recover_loop (ent k) m = recover_loop (ent (Suc k)) m1" by simp
  have "log_ok snap (cur m1) es" using Suc.prems(2) c by (simp add: log_ok_def entry_ok_def)
  moreover have "cur m1 ULogHead = ent (length es)" using Suc.prems(1) c by simp
  moreover have arith: "d = length es - Suc k" "Suc k \<le> length es" using Suc.hyps(2) k by simp_all
  ultimately obtain m' where m': "recover_loop (ent (Suc k)) m1 = Some (Some m')"
    "evolves (\<lambda>_. False) (restored snap (drop (Suc k) es)) m1 m'"
    using Suc.hyps(1) [of "Suc k" m1] arith k by blast
  have "evolves (\<lambda>_. False \<or> False) (restored snap [es ! k] ++ restored snap (drop (Suc k) es)) m m'"
    by (rule evolves_trans [OF _ m'(2)]) (simp add: m1_def evolves_nt)
  then have "evolves (\<lambda>_. False) (restored snap (drop k es)) m m'"
    by (simp add: restored_Cons Cons_nth_drop_Suc [OF k])
  with step m'(1) show ?case by simp
qed


text \<open>
  Recovery of an image that stands for a snapshot ends, restores it durably and empties the log;
  and every crash point inside it stands for the same snapshot.
\<close>

lemma recover_ok:
  assumes "stands_for blocks snap pm"
  obtains m where "recover (nv_init pm) = Some (Some m)" "cur m ULogHead = 0" "\<And>l. quiet m l"
    "\<And>x. x < blocks * kBlockSize \<Longrightarrow> cur m (Data x) = snap x"
    "\<And>l. l \<noteq> ULogHead \<Longrightarrow> (\<And>x. l \<noteq> Data x) \<Longrightarrow> cur m l = pm l"
    "visible m" "crash_safe (stands_for blocks snap) m"
proof -
  obtain es where es: "pm ULogHead = ent (length es)" "log_ok snap pm es" "clean_ok blocks snap pm es"
    and hd: "pm UMagic = kHeapHeaderMagic" "pm UNrBlocks = blocks" "pm ULogCap = blocks * kBlockSize" "pm UDataOff = kHugePageSize"
    using assms by (auto simp: stands_for_def)
  let ?V = "restored snap es"
  obtain m1 where m1: "recover_loop (ent 0) (nv_init pm) = Some (Some m1)" "evolves (\<lambda>_. False) (restored snap (drop 0 es)) (nv_init pm) m1"
    using recover_loop_ok [of "nv_init pm" es snap 0] es(1,2) by auto
  have ev: "evolves (\<lambda>_. False) ?V (nv_init pm) m1" using m1(2) by simp
  define m2 where "m2 = nv_fence m1"
  define m where "m = nv_fence (nv_nt [ULogHead \<mapsto> 0] m2)"
  note s = evolves_simps [OF ev]
  have V0: "?V l = None" if "\<And>x. l \<noteq> Data x" for l using that by (cases l) auto
  have c1: "cur m1 l = (case ?V l of Some v \<Rightarrow> v | None \<Rightarrow> pm l)" for l
    using s(1) [of l] s(2) [of l] by (cases "?V l") auto
  have set1: "settled m1 l" for l using s(3) [of l] by (simp add: quiet_settled)
  have q2: "quiet m2 l" for l using set1 by (simp add: m2_def)
  have kV: "?V l = None" if "kept blocks es l" for l using that by (cases l) auto
  have kk: "keeps (\<lambda>l. kept blocks es l \<or> l = ULogHead) (nv_init pm) m1"
    by (rule evolves_keeps [OF ev]) (use kV in auto)
  have "keeps (\<lambda>l. kept blocks es l \<or> l = ULogHead) (nv_init pm) m2"
    unfolding m2_def by (rule keeps_trans [OF kk evolves_keeps [OF evolves_fence]])
      (simp add: keepsD [OF kk])
  moreover have "crash_safe (stands_for blocks snap) (nv_init pm)"
    using assms by (simp add: crash_safe_iff dur_sat_def ext) (metis ext)
  ultimately have safe2: "crash_safe (stands_for blocks snap) m2"
  proof (rule keeps_crash_safe)
    fix pm' assume "\<And>l. kept blocks es l \<or> l = ULogHead \<Longrightarrow> pm' l = cur (nv_init pm) l"
    then show "stands_for blocks snap pm'"
      using es hd by (intro u_stands_forI [of blocks es pm' pm]) auto
  qed
  have c2: "cur m2 l = cur m1 l" for l by (simp add: m2_def)
  have dat: "cur m1 (Data x) = snap x" if "x < blocks * kBlockSize" for x
    using es(3) that by (simp add: c1 clean_ok_def)
  have oth: "cur m1 l = pm l" if "\<And>x. l \<noteq> Data x" for l using c1 [of l] V0 [OF that] by simp
  have safe: "crash_safe (stands_for blocks snap) m"
    unfolding m_def
  proof (rule crash_safe_switch(1) [where A = "\<lambda>l. l \<noteq> ULogHead", OF safe2])
    fix pm' :: "uloc \<Rightarrow> nat"
    assume a: "\<And>l. l \<noteq> ULogHead \<Longrightarrow> pm' l = cur m2 l" "pm' ULogHead = cur m2 ULogHead \<or> pm' ULogHead = 0"
    have d: "pm' (Data x) = snap x" if "x < blocks * kBlockSize" for x using a(1) [of "Data x"] dat [OF that] by (simp add: c2)
    have o: "pm' l = pm l" if "\<And>x. l \<noteq> Data x" "l \<noteq> ULogHead" for l using a(1) [OF that(2)] oth [OF that(1)] by (simp add: c2)
    have "log_ok snap pm' es" using es(2) by (simp add: log_ok_def entry_ok_def o)
    moreover have "clean_ok blocks snap pm' bs" for bs using d by (simp add: clean_ok_def)
    moreover have "pm' ULogHead = ent (length es) \<or> pm' ULogHead = ent (length [])"
      using a(2) oth [of ULogHead] es(1) by (auto simp: c2 ent_def)
    moreover have "log_ok snap pm' []" by (simp add: log_ok_def)
    ultimately show "stands_for blocks snap pm'" using hd by (auto simp: stands_for_def o)
  qed (use q2 in auto)
  have "recover (nv_init pm) = Some (Some m)" using m1(1) by (simp add: recover_def ent_def m_def m2_def)
  moreover have "visible m" using evolves_visible [OF ev] by (simp add: m_def m2_def)
  moreover have "quiet m l" for l
    by (cases "l = ULogHead") (use q2 in \<open>auto simp: m_def quiet_settled\<close>)
  moreover have "cur m ULogHead = 0" "l \<noteq> ULogHead \<Longrightarrow> cur m l = cur m1 l" for l by (simp_all add: m_def c2)
  ultimately show ?thesis using safe dat oth by (intro that [of m]) auto
qed


subsection \<open>The invariant\<close>

definition log_inv :: "ulog \<Rightarrow> nat list \<Rightarrow> (nat \<Rightarrow> nat) \<Rightarrow> bool" where
  "log_inv e es snap \<longleftrightarrow> log_head e = ent (length es) \<and> urd e ULogHead = log_head e \<and>
     urd e UMagic = kHeapHeaderMagic \<and> urd e UNrBlocks = nr_blocks e \<and>
     urd e ULogCap = nr_blocks e * kBlockSize \<and> urd e UDataOff = kHugePageSize \<and>
     quiet (unv e) ULogHead \<and> (\<forall>l. kept (nr_blocks e) es l \<longrightarrow> quiet (unv e) l) \<and>
     log_ok snap (urd e) es \<and> clean_ok (nr_blocks e) snap (urd e) es \<and> visible (unv e)"

definition none_full :: "ulog \<Rightarrow> bool" where
  "none_full e \<longleftrightarrow> (\<forall>i < kMaxThreads. length (flush_blocks e i) \<noteq> kMaxFlushBlocks)"

definition track_inv :: "ulog \<Rightarrow> nat list \<Rightarrow> bool" where
  "track_inv e es \<longleftrightarrow> distinct es \<and> set es \<subseteq> {..<nr_blocks e} \<and>
     (\<forall>b. bs_test b (block_dirty e) \<longleftrightarrow> b \<in> set es) \<and>
     (none_full e \<longrightarrow> set es \<subseteq> (\<Union>i<kMaxThreads. set (flush_blocks e i))) \<and>
     (\<forall>i < kMaxThreads. set (flush_blocks e i) \<subseteq> set es)"

definition uinv :: "ulog \<Rightarrow> nat set \<Rightarrow> (nat \<Rightarrow> nat) \<Rightarrow> bool" where
  "uinv e H snap \<longleftrightarrow> kBlockSize dvd address_first e \<and> (\<exists>es. set es = H \<and> log_inv e es snap \<and> track_inv e es)"

definition fixed :: "nat \<Rightarrow> nat list \<Rightarrow> uloc \<Rightarrow> bool" where
  "fixed blocks es l \<longleftrightarrow> kept blocks es l \<or> l = ULogHead"

lemma log_inv_quiet: "log_inv e es snap \<Longrightarrow> fixed (nr_blocks e) es l \<Longrightarrow> quiet (unv e) l"
  by (auto simp: log_inv_def fixed_def)

lemma log_inv_stands:
  assumes "log_inv e es snap" and "\<And>l. fixed (nr_blocks e) es l \<Longrightarrow> pm l = urd e l"
  shows "stands_for (nr_blocks e) snap pm"
  using assms by (intro u_stands_forI [of "nr_blocks e" es pm "urd e"]) (auto simp: log_inv_def fixed_def)

lemma log_inv_keeps:
  assumes "log_inv e es snap" and "keeps (fixed (nr_blocks e) es) (unv e) m"
    and "crash_safe (stands_for (nr_blocks e) snap) (unv e)"
  shows "crash_safe (stands_for (nr_blocks e) snap) m"
  by (rule keeps_crash_safe [OF assms(2,3)]) (rule log_inv_stands [OF assms(1)], simp add: urd_def)

lemma log_inv_start:
  assumes "log_inv e es snap"
  shows "log_inv (u_nv nv_begin e) es snap"
    and "crash_safe (stands_for (nr_blocks e) snap) (unv (u_nv nv_begin e))"
proof -
  have "urd (u_nv nv_begin e) = urd e" by (simp add: urd_def fun_eq_iff)
  then show "log_inv (u_nv nv_begin e) es snap" using assms by (simp add: log_inv_def)
  have "dur_sat (stands_for (nr_blocks e) snap) (dur (unv e))"
    unfolding dur_sat_def
  proof (intro allI impI)
    fix pm assume pm: "\<forall>l. pm l \<in> dur (unv e) l"
    have "pm l = urd e l" if "fixed (nr_blocks e) es l" for l
      using spec [OF pm, of l] quiet_durable [OF log_inv_quiet [OF assms that]] by (simp add: urd_def)
    then show "stands_for (nr_blocks e) snap pm" by (rule log_inv_stands [OF assms])
  qed
  then show "crash_safe (stands_for (nr_blocks e) snap) (unv (u_nv nv_begin e))"
    by (simp add: crash_safe_begin)
qed

subsection \<open>A store of the program\<close>

definition store_byte :: "nat \<Rightarrow> nat \<Rightarrow> ulog \<Rightarrow> ulog" where
  "store_byte x v e = u_nv (nv_store [Data x \<mapsto> v]) e"

lemma store_byte_ok:
  assumes i: "uinv e H snap" and x: "x div kBlockSize \<in> H"
  shows "uinv (store_byte x v e) H snap"
    and "crash_safe (stands_for (nr_blocks e) snap) (unv e) \<Longrightarrow>
      crash_safe (stands_for (nr_blocks e) snap) (unv (store_byte x v e))"
proof -
  obtain es where es: "set es = H" "log_inv e es snap" "track_inv e es" "kBlockSize dvd address_first e"
    using i by (auto simp: uinv_def)
  have f: "\<not> fixed (nr_blocks e) es (Data x)" using x es(1) by (simp add: fixed_def)
  then have k: "keeps (fixed (nr_blocks e) es) (unv e) (unv (store_byte x v e))"
    unfolding store_byte_def u_nv_simps by (intro keeps_store) (auto simp: log_inv_quiet [OF es(2)])
  show "crash_safe (stands_for (nr_blocks e) snap) (unv e) \<Longrightarrow>
      crash_safe (stands_for (nr_blocks e) snap) (unv (store_byte x v e))"
    by (rule log_inv_keeps [OF es(2) k])
  have c: "urd (store_byte x v e) l = urd e l" if "l \<noteq> Data x" for l
    using that by (simp add: store_byte_def urd_def)
  have q: "quiet (unv (store_byte x v e)) l" if "fixed (nr_blocks e) es l" for l
    using keepsD [OF k that] by simp
  have "log_inv (store_byte x v e) es snap"
    using es(2) q c x es(1) unfolding log_inv_def
    by (auto simp: fixed_def log_ok_def entry_ok_def clean_ok_def store_byte_def urd_def)
  then show "uinv (store_byte x v e) H snap"
    using es by (auto simp: uinv_def track_inv_def none_full_def store_byte_def)
qed


subsection \<open>The hooks\<close>

text \<open>Appending the entry of a clean block: durable before it is published.\<close>

lemma write_entry_ok:
  assumes es: "log_inv e es snap" and b: "b < nr_blocks e" "b \<notin> set es"
  defines "m \<equiv> write_entry (ent (length es)) b (unv e)"
  shows "keeps (fixed (nr_blocks e) es) (unv e) m"
    and "kept (nr_blocks e) (es @ [b]) l \<Longrightarrow> quiet m l"
    and "log_ok snap (cur m) (es @ [b])" and "visible m"
    and "\<And>l. fixed (nr_blocks e) es l \<Longrightarrow> cur m l = urd e l"
proof -
  let ?p = "ent (length es)"
  define F where "F = [EMagic ?p \<mapsto> kLogEntryMagic, EOff ?p \<mapsto> b * kBlockSize, ESize ?p \<mapsto> kBlockSize]"
  define m2 where "m2 = nv_flush (entry_line ?p) (nv_store F (unv e))"
  define V where "V = (\<lambda>l. case payload_at ?p l of Some i \<Rightarrow> if i < kBlockSize
      then Some (cur m2 (Data (b * kBlockSize + i))) else None | None \<Rightarrow> None)"
  have off: "cur m2 (EOff ?p) = b * kBlockSize" "cur m2 (ESize ?p) = kBlockSize" by (simp_all add: m2_def F_def)
  have m: "m = nv_fence (nv_nt V m2)"
    unfolding m_def write_entry_def Let_def F_def [symmetric] m2_def [symmetric] NonTemporalCopy_def off V_def ..
  have FV: "F l = None \<and> V l = None" if "fixed (nr_blocks e) es l" for l
    using that by (cases l) (auto simp: F_def V_def fixed_def)
  have k1: "keeps (fixed (nr_blocks e) es) (unv e) (nv_store F (unv e))"
    by (rule keeps_store) (use FV log_inv_quiet [OF es] in simp)
  have k2: "keeps (fixed (nr_blocks e) es) (unv e) m"
    unfolding m m2_def
    by (rule keeps_trans [OF k1 evolves_keeps [OF evolves_trans [OF evolves_trans [OF evolves_flush evolves_nt] evolves_fence]]])
      (use FV keepsD [OF k1] in \<open>simp add: map_add_def\<close>)
  then show "keeps (fixed (nr_blocks e) es) (unv e) m" .
  show c: "cur m l = urd e l" if "fixed (nr_blocks e) es l" for l
    using keepsD [OF k2 that] by (simp add: urd_def)
  have q: "quiet m l" if "fixed (nr_blocks e) es l" for l using keepsD [OF k2 that] by simp
  have new: "quiet m (EMagic ?p)" "quiet m (EOff ?p)" "quiet m (ESize ?p)" "i < kBlockSize \<Longrightarrow> quiet m (EPay ?p i)" for i
    by (simp_all add: m m2_def V_def)
  have dv: "cur (unv e) (Data (b * kBlockSize + i)) = snap (b * kBlockSize + i)" if "i < kBlockSize" for i
  proof -
    have "(b * kBlockSize + i) div kBlockSize = b" using that by (simp add: geometry)
    moreover have "b * kBlockSize + i < nr_blocks e * kBlockSize"
      using calculation b(1) by (simp add: div_lt_mult_iff [symmetric] geometry)
    ultimately show ?thesis using es b(2) by (simp add: log_inv_def clean_ok_def urd_def)
  qed
  show "quiet m l" if "kept (nr_blocks e) (es @ [b]) l"
  proof (cases "kept (nr_blocks e) es l")
    case True
    then show ?thesis by (intro q) (simp add: fixed_def)
  next
    case False
    then show ?thesis using that new by (cases l) (auto simp: less_Suc_eq)
  qed
  have "entry_ok snap (cur m) (length es) b"
    using dv by (simp add: entry_ok_def m V_def) (simp add: m2_def F_def)
  moreover have "entry_ok snap (cur m) k (es ! k)" if "k < length es" for k
    using es that c kept_entry [OF that, of "nr_blocks e"] by (simp add: log_inv_def log_ok_def entry_ok_def fixed_def)
  ultimately show "log_ok snap (cur m) (es @ [b])"
    by (auto simp: log_ok_def nth_append less_Suc_eq)
  show "visible m" using es by (simp add: m m2_def log_inv_def)
qed

lemma hook_routine_ok:
  assumes i: "uinv e H snap" and tid: "tid < kMaxThreads" and b: "block = (addr - address_first e) div kBlockSize"
    and bn: "block < nr_blocks e" and room: "block \<in> H \<or> log_head e + log_size < get_capacity e"
  obtains e' where "hook_routine tid addr e = Some e'" "uinv e' (insert block H) snap"
    "crash_safe (stands_for (nr_blocks e) snap) (unv e) \<longrightarrow> crash_safe (stands_for (nr_blocks e) snap) (unv e')"
    "nr_blocks e' = nr_blocks e" "address_first e' = address_first e"
    "log_head e' = (if block \<in> H then log_head e else log_head e + log_size)"
proof -
  obtain es where es: "set es = H" "log_inv e es snap" "track_inv e es" "kBlockSize dvd address_first e"
    using i by (auto simp: uinv_def)
  have bt: "bs_test block (block_dirty e) \<longleftrightarrow> block \<in> H" using es by (simp add: track_inv_def)
  show ?thesis
  proof (cases "block \<in> H")
    case True
    then show ?thesis using i bt by (intro that [of e]) (auto simp: hook_routine_def b [symmetric] insert_absorb)
  next
    case False
    let ?p = "log_head e"
    have p: "?p = ent (length es)" "cur (unv e) ULogHead = ?p" "cur (unv e) ULogCap = get_capacity e"
      using es(2) by (simp_all add: log_inv_def urd_def get_capacity_def)
    define m where "m = write_entry ?p block (unv e)"
    note w = write_entry_ok [OF es(2) bn, folded p(1), folded m_def]
    have bn2: "block \<notin> set es" using False es(1) by simp
    note w = w [OF bn2]
    define m' where "m' = nv_fence (nv_flush is_uheader (nv_store [ULogHead \<mapsto> ?p + log_size] m))"
    define e' where "e' = append_bucket tid block (e\<lparr>log_head := ?p + log_size, unv := m', block_dirty := bs_set block (block_dirty e)\<rparr>)"
    have hd: "cur m ULogHead = ?p" using w(5) [of ULogHead] p(2) by (simp add: fixed_def urd_def)
    have pub: "publish ?p (?p + log_size) m = Some m'" by (simp add: publish_def hd m'_def geometry)
    have run: "hook_routine tid addr e = Some e'"
      using False bt room pub p(3) by (simp add: hook_routine_def b [symmetric] Let_def m_def e'_def)
    have f: "unv e' = m'" "nr_blocks e' = nr_blocks e" "address_first e' = address_first e" "log_head e' = ?p + log_size"
      "block_dirty e' = bs_set block (block_dirty e)"
      by (simp_all add: e'_def append_bucket_def)
    have kn: "\<not> kept n x ULogHead" for n x by simp
    have qm': "quiet m' l" if "quiet m l \<or> l = ULogHead" for l
      using that by (cases "l = ULogHead") (auto simp: m'_def quiet_settled)
    have cm': "cur m' l = cur m l" if "l \<noteq> ULogHead" for l using that by (simp add: m'_def)
    have hdr: "urd e' UMagic = kHeapHeaderMagic" "urd e' UNrBlocks = nr_blocks e" "urd e' ULogCap = nr_blocks e * kBlockSize"
      "urd e' UDataOff = kHugePageSize"
      using es(2) w(5) [of UMagic] w(5) [of UNrBlocks] w(5) [of ULogCap] w(5) [of UDataOff]
      by (simp_all add: f urd_def cm' fixed_def log_inv_def)
    have lk: "log_ok snap (urd e') (es @ [block])"
      using w(3) by (simp add: log_ok_def entry_ok_def urd_def f cm')
    have co: "clean_ok (nr_blocks e) snap (cur m) es"
      using es(2) w(5) by (simp add: log_inv_def clean_ok_def fixed_def)
    then have ck: "clean_ok (nr_blocks e) snap (urd e') (es @ [block])"
      by (simp add: clean_ok_def urd_def f cm')
    have li: "log_inv e' (es @ [block]) snap"
      using hdr lk ck w(2,4) qm' p(1)
      by (auto simp: log_inv_def f) (simp_all add: urd_def f m'_def)
    have nf: "none_full e' \<Longrightarrow> none_full e"
      by (auto simp: none_full_def e'_def append_bucket_def split: if_splits)
    have fb: "set (flush_blocks e' i) \<subseteq> insert block (set (flush_blocks e i))"
      "set (flush_blocks e i) \<subseteq> set (flush_blocks e' i)" for i
      by (auto simp: e'_def append_bucket_def)
    have nb: "block \<in> set (flush_blocks e' tid)" if "none_full e'"
      using that nf [OF that] tid by (auto simp: none_full_def e'_def append_bucket_def split: if_splits)
    have ti: "track_inv e' (es @ [block])"
      unfolding track_inv_def
    proof (intro conjI impI allI)
      show "distinct (es @ [block])" using es(3) bn2 by (simp add: track_inv_def)
      show "set (es @ [block]) \<subseteq> {..<nr_blocks e'}" using es(3) bn by (simp add: track_inv_def f)
      show "bs_test c (block_dirty e') \<longleftrightarrow> c \<in> set (es @ [block])" for c
        using es(3) by (auto simp: track_inv_def f)
      show "set (es @ [block]) \<subseteq> (\<Union>i<kMaxThreads. set (flush_blocks e' i))" if nfe: "none_full e'"
      proof -
        have "set es \<subseteq> (\<Union>i<kMaxThreads. set (flush_blocks e i))" using es(3) nf [OF nfe] by (simp add: track_inv_def)
        also have "\<dots> \<subseteq> (\<Union>i<kMaxThreads. set (flush_blocks e' i))" using fb(2) by blast
        finally show ?thesis using nb [OF nfe] tid by auto
      qed
      show "set (flush_blocks e' i) \<subseteq> set (es @ [block])" if "i < kMaxThreads" for i
      proof -
        have "set (flush_blocks e i) \<subseteq> set es" using es(3) that by (simp add: track_inv_def)
        then show ?thesis using fb(1) [of i] by auto
      qed
    qed
    have safe: "crash_safe (stands_for (nr_blocks e) snap) m'" if c: "crash_safe (stands_for (nr_blocks e) snap) (unv e)"
      unfolding m'_def
    proof (rule crash_safe_switch(2) [where A = "\<lambda>l. kept (nr_blocks e) es l \<or> kept (nr_blocks e) (es @ [block]) l"])
      show "crash_safe (stands_for (nr_blocks e) snap) m" by (rule log_inv_keeps [OF es(2) w(1) c])
      show "quiet m l \<and> l \<noteq> ULogHead" if "kept (nr_blocks e) es l \<or> kept (nr_blocks e) (es @ [block]) l" for l
        using that w(2) keepsD [OF w(1), of l] by (auto simp: fixed_def)
      show "quiet m ULogHead" using keepsD [OF w(1), of ULogHead] by (simp add: fixed_def)
      fix pm assume a: "\<And>l. kept (nr_blocks e) es l \<or> kept (nr_blocks e) (es @ [block]) l \<Longrightarrow> pm l = cur m l"
        "pm ULogHead = cur m ULogHead \<or> pm ULogHead = ?p + log_size"
      have ck': "clean_ok (nr_blocks e) snap (cur m) (es @ [block])" using co by (simp add: clean_ok_def)
      have lo: "log_ok snap (cur m) es" using w(3) by (auto simp: log_ok_def nth_append split: if_splits)
      have h: "cur m UMagic = kHeapHeaderMagic" "cur m UNrBlocks = nr_blocks e" "cur m ULogCap = nr_blocks e * kBlockSize"
        "cur m UDataOff = kHugePageSize"
        using hdr by (simp_all add: urd_def f cm')
      from a(2) show "stands_for (nr_blocks e) snap pm"
      proof
        assume "pm ULogHead = cur m ULogHead"
        with a(1) h lo co hd p(1) show ?thesis by (intro u_stands_forI [of _ es pm "cur m"]) auto
      next
        assume "pm ULogHead = ?p + log_size"
        with a(1) h w(3) ck' p(1) show ?thesis by (intro u_stands_forI [of _ "es @ [block]" pm "cur m"]) auto
      qed
    qed simp
    have "uinv e' (insert block H) snap"
      using li ti es(1,4) unfolding uinv_def by (intro conjI exI [of _ "es @ [block]"]) (auto simp: f)
    then show ?thesis using run safe f False by (intro that [of e']) auto
  qed
qed


text \<open>Log space the clean blocks of a list need.\<close>

definition log_need :: "nat set \<Rightarrow> nat list \<Rightarrow> nat" where
  "log_need H bs = log_size * length (filter (\<lambda>b. b \<notin> H) bs)"

lemma hook_blocks_ok:
  assumes "uinv e H snap" and tid: "tid < kMaxThreads" and "\<forall>b \<in> set bs. b < nr_blocks e" and "distinct bs"
    and "log_head e + log_need H bs < get_capacity e"
  shows "\<exists>e'. foldM (\<lambda>b e. hook_routine tid (address_first e + b * kBlockSize) e) bs e = Some e' \<and>
    uinv e' (H \<union> set bs) snap \<and>
    (crash_safe (stands_for (nr_blocks e) snap) (unv e) \<longrightarrow> crash_safe (stands_for (nr_blocks e) snap) (unv e')) \<and>
    nr_blocks e' = nr_blocks e \<and> address_first e' = address_first e"
  using assms(1,3-5)
proof (induction bs arbitrary: e H)
  case Nil
  then show ?case by simp
next
  case (Cons b bs)
  have blk: "b = (address_first e + b * kBlockSize - address_first e) div kBlockSize" by (simp add: geometry)
  have bn: "b < nr_blocks e" using Cons.prems(2) by simp
  have room: "b \<in> H \<or> log_head e + log_size < get_capacity e"
    using Cons.prems(4) by (cases "b \<in> H") (simp_all add: log_need_def)
  obtain e1 where e1: "hook_routine tid (address_first e + b * kBlockSize) e = Some e1" "uinv e1 (insert b H) snap"
    "crash_safe (stands_for (nr_blocks e) snap) (unv e) \<longrightarrow> crash_safe (stands_for (nr_blocks e) snap) (unv e1)"
    "nr_blocks e1 = nr_blocks e" "address_first e1 = address_first e"
    "log_head e1 = (if b \<in> H then log_head e else log_head e + log_size)"
    by (rule hook_routine_ok [OF Cons.prems(1) tid blk bn room])
  have "filter (\<lambda>c. c \<notin> insert b H) bs = filter (\<lambda>c. c \<notin> H) bs"
    using Cons.prems(3) by (auto intro!: filter_cong)
  then have "log_head e1 + log_need (insert b H) bs < get_capacity e1"
    using Cons.prems(4) e1(4,6) by (auto simp: log_need_def get_capacity_def split: if_splits)
  then obtain e' where "foldM (\<lambda>b e. hook_routine tid (address_first e + b * kBlockSize) e) bs e1 = Some e'"
    "uinv e' (insert b H \<union> set bs) snap"
    "crash_safe (stands_for (nr_blocks e1) snap) (unv e1) \<longrightarrow> crash_safe (stands_for (nr_blocks e1) snap) (unv e')"
    "nr_blocks e' = nr_blocks e1" "address_first e' = address_first e1"
    using Cons.IH [OF e1(2)] Cons.prems(2,3) e1(4) by auto
  then show ?case using e1 by auto
qed

definition block_of :: "ulog \<Rightarrow> nat \<Rightarrow> nat" where
  "block_of e addr = (addr - address_first e) div kBlockSize"

definition blocks_of :: "ulog \<Rightarrow> nat \<Rightarrow> nat \<Rightarrow> nat list" where
  "blocks_of e addr len = range_blocks (addr - address_first e) len"

lemma in_range_block: "in_range e addr \<Longrightarrow> block_of e addr < nr_blocks e"
  by (auto simp: in_range_def block_of_def get_capacity_def div_lt_mult_iff geometry)

lemma range_blocks_single:
  "0 < len \<Longrightarrow> d mod kBlockSize + len \<le> kBlockSize \<Longrightarrow> range_blocks d len = [d div kBlockSize]"
  unfolding range_blocks_def by (subst block_span_single) simp_all

lemma u_hook_rt_store_ok:
  assumes i: "uinv e H snap" and tid: "tid < kMaxThreads"
    and room: "in_range e addr \<longrightarrow> block_of e addr \<in> H \<or> log_head e + log_size < get_capacity e"
  obtains e' where "hook_rt_store tid addr e = Some e'"
    "uinv e' (if in_range e addr then insert (block_of e addr) H else H) snap"
    "crash_safe (stands_for (nr_blocks e) snap) (unv e) \<longrightarrow> crash_safe (stands_for (nr_blocks e) snap) (unv e')"
    "nr_blocks e' = nr_blocks e" "address_first e' = address_first e"
proof (cases "in_range e addr")
  case True
  obtain e' where "hook_routine tid addr e = Some e'" "uinv e' (insert (block_of e addr) H) snap"
    "crash_safe (stands_for (nr_blocks e) snap) (unv e) \<longrightarrow> crash_safe (stands_for (nr_blocks e) snap) (unv e')"
    "nr_blocks e' = nr_blocks e" "address_first e' = address_first e"
    by (rule hook_routine_ok [OF i tid block_of_def in_range_block [OF True]]) (use room True in blast)+
  then show ?thesis using True by (intro that [of e']) (auto simp: hook_rt_store_def)
next
  case False
  then show ?thesis using i by (intro that [of e]) (auto simp: hook_rt_store_def)
qed

lemma u_hook_rt_range_store_ok:
  assumes i: "uinv e H snap" and tid: "tid < kMaxThreads" and len: "0 < len"
    and lo: "address_first e \<le> addr" and hi: "addr + len \<le> address_first e + get_capacity e"
    and room: "log_head e + log_need H (blocks_of e addr len) < get_capacity e"
  obtains e' where "hook_rt_range_store tid addr len e = Some e'" "uinv e' (H \<union> set (blocks_of e addr len)) snap"
    "crash_safe (stands_for (nr_blocks e) snap) (unv e) \<longrightarrow> crash_safe (stands_for (nr_blocks e) snap) (unv e')"
    "nr_blocks e' = nr_blocks e" "address_first e' = address_first e"
proof -
  have al: "addr mod kBlockSize = (addr - address_first e) mod kBlockSize"
    using i lo by (intro aligned_mod) (auto simp: uinv_def)
  have ir: "in_range e addr" using lo hi len by (simp add: in_range_def)
  show ?thesis
  proof (cases "addr mod kBlockSize + len \<le> kBlockSize")
    case True
    then have bs: "blocks_of e addr len = [block_of e addr]"
      unfolding blocks_of_def block_of_def by (intro range_blocks_single len) (simp add: al)
    have "block_of e addr \<in> H \<or> log_head e + log_size < get_capacity e"
      using room by (cases "block_of e addr \<in> H") (simp_all add: bs log_need_def)
    then obtain e' where "hook_rt_store tid addr e = Some e'"
      "uinv e' (if in_range e addr then insert (block_of e addr) H else H) snap"
      "crash_safe (stands_for (nr_blocks e) snap) (unv e) \<longrightarrow> crash_safe (stands_for (nr_blocks e) snap) (unv e')"
      "nr_blocks e' = nr_blocks e" "address_first e' = address_first e"
      using u_hook_rt_store_ok [OF i tid, of addr] by blast
    then show ?thesis using True ir by (intro that [of e']) (auto simp: hook_rt_range_store_def bs)
  next
    case False
    have bn: "\<forall>b \<in> set (blocks_of e addr len). b < nr_blocks e"
      unfolding blocks_of_def range_blocks_def
      by (rule block_span_blocks) (use hi lo in \<open>simp add: get_capacity_def\<close>)

    have "distinct (blocks_of e addr len)" by (simp add: blocks_of_def range_blocks_def)
    from hook_blocks_ok [OF i tid bn this room] obtain e' where
      e': "hook_routine_range tid addr len e = Some e'" "uinv e' (H \<union> set (blocks_of e addr len)) snap"
      "crash_safe (stands_for (nr_blocks e) snap) (unv e) \<longrightarrow> crash_safe (stands_for (nr_blocks e) snap) (unv e')"
      "nr_blocks e' = nr_blocks e" "address_first e' = address_first e"
      by (auto simp: hook_routine_range_def blocks_of_def)
    have "hook_rt_range_store tid addr len e = Some e'" using False ir e'(1) by (simp add: hook_rt_range_store_def)
    with e' show ?thesis by (intro that [of e']) auto
  qed
qed

end
