(* ===== verification/UndoLog_Run.thy ===== *)
theory UndoLog_Run
  imports UndoLog_Crash
begin

text \<open>
  The checkpoint of the undo-log engine, its life under repeated crashes and restarts, and the
  theorems about it, obtained from the engine contract.
\<close>

subsection \<open>Phases of the checkpoint\<close>

definition flushed :: "nat \<Rightarrow> ulog \<Rightarrow> nat \<Rightarrow> uloc \<Rightarrow> bool" where
  "flushed n e tid l \<longleftrightarrow> (if mode e = FMODE_WBINVD then tid = 0
     else \<exists>i \<in> set (share n tid kMaxThreads). \<exists>b \<in> set (flush_blocks e i). in_data_block b l)"

lemma flush_parallel_eq:
  "flush_parallel n tid e = e\<lparr>unv := nv_fence (nv_flush (flushed n e tid) (unv e))\<rparr>"
proof (cases "mode e = FMODE_WBINVD")
  case True
  then have "flushed n e tid = (\<lambda>l. tid = 0)" by (simp add: flushed_def fun_eq_iff)
  with True show ?thesis by (simp add: flush_parallel_def u_nv_def)
next
  case False
  have "flushed n e tid = (\<lambda>l. \<exists>i \<in> set (share n tid kMaxThreads). \<exists>b \<in> set (flush_blocks e i). in_data_block b l)"
    using False by (simp add: flushed_def fun_eq_iff)
  with False show ?thesis by (simp add: flush_parallel_def u_nv_def nv_flush_fold')
qed

lemma flush_parallels:
  "\<exists>m. fold (flush_parallel n) tids e = e\<lparr>unv := m\<rparr> \<and>
     evolves (\<lambda>l. \<exists>tid \<in> set tids. flushed n e tid l) Map.empty (unv e) m \<and>
     (tids \<noteq> [] \<longrightarrow> (\<forall>l. settled m l \<longrightarrow> quiet m l))"
proof (induction tids arbitrary: e)
  case Nil
  have "e = e\<lparr>unv := unv e\<rparr>" by simp
  then show ?case using evolves_refl [of "unv e"] by (intro exI [of _ "unv e"]) simp
next
  case (Cons tid tids)
  define m1 where "m1 = nv_fence (nv_flush (flushed n e tid) (unv e))"
  have e1: "evolves (\<lambda>l. flushed n e tid l \<or> False) (Map.empty ++ Map.empty) (unv e) m1"
    unfolding m1_def by (rule evolves_trans [OF evolves_flush evolves_fence])
  have f: "flushed n (e\<lparr>unv := m1\<rparr>) = flushed n e" by (simp add: flushed_def fun_eq_iff)
  obtain m where m: "fold (flush_parallel n) tids (e\<lparr>unv := m1\<rparr>) = e\<lparr>unv := m\<rparr>"
    "evolves (\<lambda>l. \<exists>tid \<in> set tids. flushed n e tid l) Map.empty m1 m"
    "tids \<noteq> [] \<longrightarrow> (\<forall>l. settled m l \<longrightarrow> quiet m l)"
    using Cons.IH [of "e\<lparr>unv := m1\<rparr>"] f by auto
  have "tids = [] \<Longrightarrow> m = m1" using m(1) by (cases e) simp
  then have "\<forall>l. settled m l \<longrightarrow> quiet m l" using m(3) by (cases "tids = []") (auto simp: m1_def)
  moreover have "evolves (\<lambda>l. \<exists>t \<in> set (tid # tids). flushed n e t l) Map.empty (unv e) m"
    using evolves_trans [OF e1 m(2)] by simp
  moreover have "fold (flush_parallel n) (tid # tids) e = fold (flush_parallel n) tids (e\<lparr>unv := m1\<rparr>)"
    by (simp add: flush_parallel_eq [of n tid e] m1_def)
  ultimately show ?case using m(1) by (intro exI [of _ m]) simp
qed

lemma u_flush_phase:
  assumes "0 < n"
  obtains m where "fold (flush_parallel n) [0..<n] e = e\<lparr>unv := m\<rparr>"
    "evolves (\<lambda>l. mode e = FMODE_WBINVD \<or> (\<exists>i < kMaxThreads. \<exists>b \<in> set (flush_blocks e i). in_data_block b l))
       Map.empty (unv e) m" "\<And>l. settled m l \<Longrightarrow> quiet m l"
proof -
  have "(\<lambda>l. \<exists>tid \<in> set [0..<n]. flushed n e tid l) =
      (\<lambda>l. mode e = FMODE_WBINVD \<or> (\<exists>i < kMaxThreads. \<exists>b \<in> set (flush_blocks e i). in_data_block b l))"
  proof
    fix l
    have "(\<exists>tid \<in> {..<n}. \<exists>i \<in> set (share n tid kMaxThreads). P i) \<longleftrightarrow> (\<exists>i < kMaxThreads. P i)" for P
      using assms by (auto simp: share_def)
    then show "(\<exists>tid \<in> set [0..<n]. flushed n e tid l) =
      (mode e = FMODE_WBINVD \<or> (\<exists>i < kMaxThreads. \<exists>b \<in> set (flush_blocks e i). in_data_block b l))"
      using assms by (cases "mode e = FMODE_WBINVD") (auto simp: flushed_def atLeast0LessThan)
  qed
  with flush_parallels [of n "[0..<n]" e] assms that show ?thesis by auto
qed

text \<open>Clearing touches the bit set and the buckets only.\<close>

definition cleared :: "ulog \<Rightarrow> ulog \<Rightarrow> bool" where
  "cleared e e' \<longleftrightarrow> unv e' = unv e \<and> nr_blocks e' = nr_blocks e \<and> log_head e' = log_head e \<and>
     address_first e' = address_first e \<and> has_snapshot e' = has_snapshot e \<and> mode e' = mode e"

definition bucket_step :: "nat \<Rightarrow> ulog \<Rightarrow> ulog" where
  "bucket_step i e = clear_bucket i (clear_bits (flush_blocks e i) e)"

lemma bucket_step_simps [simp]:
  "flush_blocks (bucket_step i e) = (flush_blocks e)(i := [])"
  "block_dirty (bucket_step i e) = fold bs_clear_all (flush_blocks e i) (block_dirty e)"
  "cleared e (bucket_step i e)"
  by (simp_all add: bucket_step_def clear_bucket_def clear_bits_def cleared_def)

lemma cleared_refl [simp]: "cleared e e"
  by (simp add: cleared_def)

lemma cleared_trans: "cleared e e1 \<Longrightarrow> cleared e1 e2 \<Longrightarrow> cleared e e2"
  by (simp add: cleared_def)

lemma cleared_fold:
  assumes "\<And>x e. cleared e (f x e)"
  shows "cleared e (fold f xs e)"
  by (induction xs arbitrary: e) (auto intro: cleared_trans assms)

lemma bucket_steps:
  assumes "distinct is"
  shows "flush_blocks (fold bucket_step is e) = (\<lambda>i. if i \<in> set is then [] else flush_blocks e i) \<and>
    block_dirty (fold bucket_step is e) = fold bs_clear_all (concat (map (flush_blocks e) is)) (block_dirty e)"
  using assms
proof (induction "is" arbitrary: e)
  case (Cons i "is")
  have "map (flush_blocks (bucket_step i e)) is = map (flush_blocks e) is" using Cons.prems by auto
  note ih = Cons.IH [of "bucket_step i e", unfolded this]
  show ?case using ih Cons.prems by (auto simp: fun_eq_iff)
qed simp

lemma bucket_steps_cleared: "cleared e (fold bucket_step is e)"
  by (rule cleared_fold) simp

lemma clear_buckets [simp]:
  "flush_blocks (fold clear_bucket is e) = (\<lambda>i. if i \<in> set is then [] else flush_blocks e i)"
  "block_dirty (fold clear_bucket is e) = block_dirty e" "cleared e (fold clear_bucket is e)"
  by (induction "is" arbitrary: e) (auto simp: clear_bucket_def fun_eq_iff cleared_def)

lemma bs_test_fold_clear_all:
  "bs_test j (fold bs_clear_all ids b) \<longleftrightarrow> bs_test j b \<and> (\<forall>i \<in> set ids. j div 64 \<noteq> i div 64)"
  by (induction ids arbitrary: b) auto

lemma clear_parallel_cleared: "cleared e (clear_dirty_bits_parallel n tid e)"
proof -
  have "cleared e (fold clear_bucket is (clear_bits ids e))" for "is" ids
    by (rule cleared_trans [OF _ clear_buckets(3)]) (simp add: clear_bits_def cleared_def)
  moreover have "cleared e (fold (\<lambda>i e. clear_bucket i (clear_bits (flush_blocks e i) e)) is e)" for "is"
    using bucket_steps_cleared [of e "is"] by (simp add: bucket_step_def [abs_def])
  ultimately show ?thesis by (simp add: clear_dirty_bits_parallel_def)
qed

text \<open>All threads together, in either mode.\<close>

lemma clear_parallels_buckets:
  assumes "mode e \<noteq> FMODE_WBINVD"
  shows "fold (clear_dirty_bits_parallel n) tids e = fold bucket_step (concat (map (\<lambda>tid. share n tid kMaxThreads) tids)) e"
  using assms
proof (induction tids arbitrary: e)
  case (Cons tid tids)
  have "clear_dirty_bits_parallel n tid e = fold bucket_step (share n tid kMaxThreads) e"
    using Cons.prems by (simp add: clear_dirty_bits_parallel_def bucket_step_def [abs_def])
  moreover have "mode (fold bucket_step (share n tid kMaxThreads) e) = mode e"
    using bucket_steps_cleared [of e] by (simp add: cleared_def)
  ultimately show ?case using Cons.IH Cons.prems by simp
qed simp

lemma clear_parallels_wbinvd:
  assumes "mode e = FMODE_WBINVD"
  shows "flush_blocks (fold (clear_dirty_bits_parallel n) tids e) =
      (\<lambda>i. if i \<in> set (concat (map (\<lambda>tid. share n tid kMaxThreads) tids)) then [] else flush_blocks e i) \<and>
    (bs_test j (block_dirty (fold (clear_dirty_bits_parallel n) tids e)) \<longleftrightarrow> bs_test j (block_dirty e) \<and>
      j div 64 \<notin> set (concat (map (\<lambda>tid. share n tid (nr_words (nr_blocks e))) tids)))"
  using assms
proof (induction tids arbitrary: e)
  case (Cons tid tids)
  define e1 where "e1 = clear_dirty_bits_parallel n tid e"
  have f: "mode e1 = FMODE_WBINVD" "nr_blocks e1 = nr_blocks e"
    using clear_parallel_cleared [of e n tid] Cons.prems by (simp_all add: cleared_def e1_def)
  have fb: "flush_blocks e1 = (\<lambda>i. if i \<in> set (share n tid kMaxThreads) then [] else flush_blocks e i)"
    using Cons.prems by (auto simp: e1_def clear_dirty_bits_parallel_def clear_bits_def fun_eq_iff)
  have bd: "bs_test j (block_dirty e1) \<longleftrightarrow> bs_test j (block_dirty e) \<and> j div 64 \<notin> set (share n tid (nr_words (nr_blocks e)))"
    using Cons.prems
    by (auto simp: e1_def clear_dirty_bits_parallel_def clear_bits_def bs_test_fold_clear_all geometry)
  show ?case using Cons.IH [OF f(1)] fb bd f(2) by (auto simp: e1_def [symmetric] fun_eq_iff)
qed simp

lemma clear_phase:
  assumes n: "0 < n" and t: "track_inv e es" and md: "mode e = decide_mode e"
  defines "e' \<equiv> fold (clear_dirty_bits_parallel n) [0..<n] e"
  shows "cleared e e'" and "i < kMaxThreads \<Longrightarrow> flush_blocks e' i = []" and "\<not> bs_test b (block_dirty e')"
proof -
  show "cleared e e'" unfolding e'_def by (rule cleared_fold) (rule clear_parallel_cleared)
  note sh = set_shares [OF n]
  have es: "b < nr_blocks e" "b \<in> set es" if "bs_test b (block_dirty e)"
    using t that by (auto simp: track_inv_def)
  have "(i < kMaxThreads \<longrightarrow> flush_blocks e' i = []) \<and> \<not> bs_test b (block_dirty e')"
  proof (cases "mode e = FMODE_WBINVD")
    case True
    note c = clear_parallels_wbinvd [OF True, of n "[0..<n]" b, folded e'_def]
    have "b div 64 < nr_words (nr_blocks e)" if "bs_test b (block_dirty e)"
      by (rule word_index_in_bounds) (rule es(1) [OF that])
    then show ?thesis using c by (auto simp only: sh lessThan_iff if_True)
  next
    case False
    note c = clear_parallels_buckets [OF False, of n "[0..<n]", folded e'_def]
    note s = bucket_steps [OF distinct_shares [of n kMaxThreads n], of e, folded c]
    have "none_full e" using False md by (auto simp: decide_mode_def none_full_def geometry split: if_splits)
    then have "\<exists>i < kMaxThreads. b \<in> set (flush_blocks e i)" if "bs_test b (block_dirty e)"
      using t es(2) [OF that] by (auto simp: track_inv_def)
    then have w: "\<exists>i \<in> set (concat (map (\<lambda>tid. share n tid kMaxThreads) [0..<n])). b \<in> set (flush_blocks e i)"
      if "bs_test b (block_dirty e)" using that unfolding sh by auto
    have "set (concat (map (flush_blocks e) is)) = (\<Union>i \<in> set is. set (flush_blocks e i))" for "is" by simp
    then have "\<not> bs_test b (block_dirty e')"
      using w unfolding s [THEN conjunct2] bs_test_fold_clear_all by (metis UN_I)
    then show ?thesis by (simp add: s [THEN conjunct1] sh del: set_concat)
  qed
  then show "i < kMaxThreads \<Longrightarrow> flush_blocks e' i = []" and "\<not> bs_test b (block_dirty e')" by blast+
qed


subsection \<open>The checkpoint\<close>

definition new_snap :: "ulog \<Rightarrow> nat \<Rightarrow> nat" where "new_snap e x = urd e (Data x)"

lemma uinv_no_action:
  assumes "uinv e H snap" and "decide_mode e = FMODE_NO_ACTION"
  shows "H = {}"
proof -
  obtain es where es: "set es = H" "track_inv e es" using assms(1) by (auto simp: uinv_def)
  have fb: "flush_blocks e i = []" if "i < kMaxThreads" for i
    using assms(2) that by (auto simp: decide_mode_def split: if_splits)
  then have "none_full e" by (simp add: none_full_def geometry)
  then show ?thesis using es fb by (auto simp: track_inv_def)
qed

lemma uinv_clean:
  assumes "uinv e H snap" and "x < get_capacity e" and "x div kBlockSize \<notin> H"
  shows "urd e (Data x) = snap x" and "quiet (unv e) (Data x)"
  using assms by (auto simp: uinv_def log_inv_def clean_ok_def get_capacity_def)

lemma uinv_snap_cong:
  assumes "uinv e {} snap" and "\<And>x. x < get_capacity e \<Longrightarrow> snap x = snap' x"
  shows "uinv e {} snap'"
  using assms by (auto simp: uinv_def log_inv_def clean_ok_def log_ok_def get_capacity_def)

lemma u_checkpoint_ok:
  assumes i: "uinv e H snap" and n: "0 < n" and safe: "crash_safe (stands_for (nr_blocks e) snap) (unv e)"
  defines "e' \<equiv> checkpoint n e"
  shows "uinv e' {} (new_snap e)" and "nr_blocks e' = nr_blocks e" and "address_first e' = address_first e"
    and "crash_safe (\<lambda>pm. stands_for (nr_blocks e) snap pm \<or> stands_for (nr_blocks e) (new_snap e) pm) (unv e')"
    and "urd e' (Data x) = urd e (Data x)"
proof -
  have "uinv e' {} (new_snap e) \<and> nr_blocks e' = nr_blocks e \<and> address_first e' = address_first e \<and>
    crash_safe (\<lambda>pm. stands_for (nr_blocks e) snap pm \<or> stands_for (nr_blocks e) (new_snap e) pm) (unv e') \<and>
    (\<forall>x. urd e' (Data x) = urd e (Data x))"
  proof (cases "decide_mode e = FMODE_NO_ACTION")
    case True
    then have e': "e' = e\<lparr>mode := FMODE_NO_ACTION\<rparr>" by (simp add: e'_def checkpoint_def)
    have H: "H = {}" by (rule uinv_no_action [OF i True])
    have "uinv e {} (new_snap e)"
      by (rule uinv_snap_cong [OF i [unfolded H]]) (simp add: uinv_clean(1) [OF i, symmetric] H new_snap_def)
    then have "uinv e' {} (new_snap e)"
      by (simp add: e' uinv_def log_inv_def track_inv_def none_full_def urd_def [abs_def])
    moreover have "crash_safe (\<lambda>pm. stands_for (nr_blocks e) snap pm \<or> stands_for (nr_blocks e) (new_snap e) pm) (unv e')"
      using safe by (auto simp: e' crash_safe_def)
    ultimately show ?thesis by (simp add: e' urd_def)
  next
    case False
    define e1 where "e1 = e\<lparr>mode := decide_mode e\<rparr>"
    have dm: "decide_mode e1 = decide_mode e" by (simp add: e1_def decide_mode_def)
    obtain es where es: "set es = H" "log_inv e es snap" "track_inv e es" "kBlockSize dvd address_first e"
      using i by (auto simp: uinv_def)
    obtain m where m: "fold (flush_parallel n) [0..<n] e1 = e1\<lparr>unv := m\<rparr>"
      "evolves (\<lambda>l. mode e1 = FMODE_WBINVD \<or> (\<exists>i < kMaxThreads. \<exists>b \<in> set (flush_blocks e1 i). in_data_block b l))
       Map.empty (unv e1) m" "\<And>l. settled m l \<Longrightarrow> quiet m l"
      by (rule u_flush_phase [OF n]) blast
    define e2 where "e2 = e1\<lparr>unv := m\<rparr>"
    define e3 where "e3 = fold (clear_dirty_bits_parallel n) [0..<n] e2"
    have ti: "track_inv e2 es" using es(3) by (simp add: e2_def e1_def track_inv_def none_full_def)
    have md: "mode e2 = decide_mode e2" by (simp add: e2_def e1_def decide_mode_def)
    note cl = clear_phase [OF n ti md, folded e3_def]
    have f3: "unv e3 = m" "nr_blocks e3 = nr_blocks e" "address_first e3 = address_first e"
      using cl(1) by (simp_all add: cleared_def e2_def e1_def)
    define attr where "attr = (if has_snapshot e3 then Map.empty else [UAttr \<mapsto> kAttributeHasSnapshot])"
    define m4 where "m4 = nv_nt attr m"
    have e': "unv e' = nv_fence (nv_nt [ULogHead \<mapsto> 0] m4)" "log_head e' = 0" "nr_blocks e' = nr_blocks e"
      "address_first e' = address_first e" "block_dirty e' = block_dirty e3" "flush_blocks e' = flush_blocks e3"
      using False dm f3
      by (simp_all add: e'_def checkpoint_def Let_def e1_def [symmetric] m(1) e2_def [symmetric] e3_def [symmetric]
          commit_log_def m4_def attr_def) (simp_all add: e1_def nv_nt_def fun_eq_iff)
    have c4: "cur m4 l = urd e l" if "l \<noteq> UAttr" for l
      using evolves_simps(1) [OF m(2), of l] that by (simp add: m4_def attr_def e1_def urd_def)
    have km: "keeps (fixed (nr_blocks e) es) (unv e) m"
      using evolves_keeps [OF m(2), of "fixed (nr_blocks e) es"] log_inv_quiet [OF es(2)] by (simp add: e1_def)
    have "attr l = None" if "fixed (nr_blocks e) es l" for l using that by (auto simp: attr_def fixed_def)
    then have k4: "keeps (fixed (nr_blocks e) es) (unv e) m4"
      unfolding m4_def by (intro keeps_trans [OF km evolves_keeps [OF evolves_nt]]) (simp add: keepsD [OF km])
    have dq: "quiet m4 (Data x)" if x: "x < nr_blocks e * kBlockSize" for x
    proof -
      have "settled m (Data x)"
      proof (cases "x div kBlockSize \<in> H")
        case True
        show ?thesis
        proof (rule evolves_simps(4) [OF m(2)], rule disjCI)
          assume no: "\<not> (\<exists>i < kMaxThreads. \<exists>b \<in> set (flush_blocks e1 i). in_data_block b (Data x))"
          have "\<not> none_full e" using es(1,3) True no by (auto simp: track_inv_def e1_def)
          then show "mode e1 = FMODE_WBINVD" using False by (auto simp: e1_def decide_mode_def none_full_def split: if_splits)
        qed
      next
        case False
        then show ?thesis
          using evolves_simps(3) [OF m(2)] uinv_clean(2) [OF i _ False] x by (simp add: e1_def get_capacity_def quiet_settled)
      qed
      then show ?thesis using m(3) by (simp add: m4_def attr_def)
    qed
    let ?A = "\<lambda>l. kept (nr_blocks e) es l \<or> (\<exists>x < nr_blocks e * kBlockSize. l = Data x)"
    have qA: "quiet m4 l \<and> l \<noteq> ULogHead" if "?A l" for l
      using that dq keepsD [OF k4, of l] by (auto simp: fixed_def)
    have qh: "quiet m4 ULogHead" using keepsD [OF k4, of ULogHead] by (simp add: fixed_def)
    have hd: "urd e UMagic = kHeapHeaderMagic" "urd e UNrBlocks = nr_blocks e" "urd e ULogCap = nr_blocks e * kBlockSize"
      "urd e UDataOff = kHugePageSize" "urd e ULogHead = ent (length es)"
      using es(2) by (simp_all add: log_inv_def)
    have safe': "crash_safe (\<lambda>pm. stands_for (nr_blocks e) snap pm \<or> stands_for (nr_blocks e) (new_snap e) pm) (unv e')"
      unfolding e'(1)
    proof (rule crash_safe_switch(1) [where A = ?A])
      show "crash_safe (\<lambda>pm. stands_for (nr_blocks e) snap pm \<or> stands_for (nr_blocks e) (new_snap e) pm) m4"
        using log_inv_keeps [OF es(2) k4 safe] by (auto simp: crash_safe_def)
      fix pm assume a: "\<And>l. ?A l \<Longrightarrow> pm l = cur m4 l" "pm ULogHead = cur m4 ULogHead \<or> pm ULogHead = 0"
      from a(2) show "stands_for (nr_blocks e) snap pm \<or> stands_for (nr_blocks e) (new_snap e) pm"
      proof
        assume h: "pm ULogHead = cur m4 ULogHead"
        have "pm l = urd e l" if "fixed (nr_blocks e) es l" for l
          using that a(1) [of l] h c4 [of l] c4 [of ULogHead] by (cases l) (auto simp: fixed_def)
        then have "stands_for (nr_blocks e) snap pm" by (rule log_inv_stands [OF es(2)])
        then show ?thesis ..
      next
        assume h: "pm ULogHead = 0"
        have "pm l = urd e l" if "kept (nr_blocks e) [] l" for l
          using that a(1) [of l] c4 [of l] by (cases l) auto
        then have "stands_for (nr_blocks e) (new_snap e) pm"
          by (rule u_stands_forI) (use h hd in \<open>auto simp: ent_def log_ok_def clean_ok_def new_snap_def\<close>)
        then show ?thesis ..
      qed
    qed (use qA qh in auto)
    have cur': "urd e' l = urd e l" if "l \<noteq> UAttr" "l \<noteq> ULogHead" for l
      using that by (simp add: urd_def e'(1)) (simp add: c4 urd_def [symmetric])
    have q': "quiet (unv e') l" if "kept (nr_blocks e) [] l" for l
    proof -
      have "quiet m4 l \<and> l \<noteq> ULogHead" by (rule qA) (use that in \<open>cases l; auto\<close>)
      then show ?thesis by (simp add: e'(1) quiet_settled)
    qed
    have vis: "visible (unv e')"
      using es(2) evolves_visible [OF m(2)] by (simp add: e'(1) m4_def log_inv_def e1_def)
    have "log_inv e' [] (new_snap e)"
      unfolding log_inv_def
      using hd cur' q' vis by (auto simp: e' ent_def log_ok_def clean_ok_def new_snap_def) (simp add: urd_def e'(1))
    moreover have "track_inv e' []"
      using cl(2,3) by (simp add: track_inv_def e')
    ultimately have "uinv e' {} (new_snap e)" using es(4) e'(4) by (auto simp: uinv_def)
    then show ?thesis using e' safe' cur' by simp
  qed
  then show "uinv e' {} (new_snap e)" and "nr_blocks e' = nr_blocks e" and "address_first e' = address_first e"
    and "crash_safe (\<lambda>pm. stands_for (nr_blocks e) snap pm \<or> stands_for (nr_blocks e) (new_snap e) pm) (unv e')"
    and "urd e' (Data x) = urd e (Data x)" by blast+
qed


subsection \<open>Opening\<close>

lemma start_engine_eq:
  "start_engine blocks base snapshot m = Some \<lparr>unv = m, nr_blocks = blocks,
     block_dirty = bs_new\<lparr>nr_bits := blocks, is_allocated := True\<rparr>, log_head = 0, address_first = base + cur m UDataOff,
     has_snapshot = snapshot, flush_blocks = (\<lambda>_. []), mode = FMODE_NO_ACTION\<rparr>"
  by (simp add: start_engine_def bs_allocate_def bs_new_def)

lemma started_inv:
  assumes "start_engine blocks base snapshot m = Some e" and "kBlockSize dvd base" and "\<And>l. quiet m l" and "visible m"
    and "cur m UMagic = kHeapHeaderMagic" "cur m UNrBlocks = blocks" "cur m ULogCap = blocks * kBlockSize"
    "cur m UDataOff = kHugePageSize" "cur m ULogHead = 0"
    and "\<And>x. x < blocks * kBlockSize \<Longrightarrow> cur m (Data x) = snap x"
  shows "uinv e {} snap" and "nr_blocks e = blocks" and "unv e = m"
proof -
  have "kBlockSize dvd base + kHugePageSize" using assms(2) by (intro dvd_add) (simp_all add: geometry)
  moreover have "\<not> bs_test b (bs_new\<lparr>nr_bits := blocks, is_allocated := True\<rparr>)" for b
    by (simp add: bs_test_bit bs_new_def)
  ultimately show "uinv e {} snap"
    using assms by (auto simp: start_engine_eq uinv_def log_inv_def track_inv_def urd_def ent_def log_ok_def clean_ok_def)
  show "nr_blocks e = blocks" and "unv e = m" using assms(1) by (auto simp: start_engine_eq)
qed

lemma open_ok:
  assumes "stands_for blocks snap pm" and "kBlockSize dvd base"
  shows "\<exists>e. open_engine base (nv_init pm) = Some e \<and> uinv e {} snap \<and> nr_blocks e = blocks \<and>
     crash_safe (stands_for blocks snap) (unv e)"
proof -
  obtain m where m: "recover (nv_init pm) = Some (Some m)" "cur m ULogHead = 0" "\<And>l. quiet m l"
    "\<And>x. x < blocks * kBlockSize \<Longrightarrow> cur m (Data x) = snap x"
    "\<And>l. l \<noteq> ULogHead \<Longrightarrow> (\<And>x. l \<noteq> Data x) \<Longrightarrow> cur m l = pm l"
    "visible m" "crash_safe (stands_for blocks snap) m"
    by (rule recover_ok [OF assms(1)]) blast
  have h: "pm UMagic = kHeapHeaderMagic" "pm UNrBlocks = blocks" "pm ULogCap = blocks * kBlockSize" "pm UDataOff = kHugePageSize"
    using assms(1) by (auto simp: stands_for_def)
  obtain e where e: "start_engine blocks base (exist_snapshot m) m = Some e" by (simp add: start_engine_eq)
  note st = started_inv [OF e assms(2) m(3,6) _ _ _ _ m(2,4)]
  have "open_engine base (nv_init pm) = Some e" using h m(1) e by (simp add: open_engine_def)
  with st m(5,7) h show ?thesis by (intro exI [of _ e]) auto
qed

lemma create_ok:
  assumes "create_engine cap base (nv_init pm) = Some e" and "kBlockSize dvd base"
  shows "uinv e {} (\<lambda>x. pm (Data x))" and "nr_blocks e = block_count cap" and "unv e = format (block_count cap) (nv_init pm)"
proof -
  let ?m = "format (block_count cap) (nv_init pm)"
  have f: "start_engine (block_count cap) base False ?m = Some e"
    using assms(1) by (simp add: create_engine_def Let_def)
  have q: "quiet ?m l" for l
    unfolding format_def Let_def quiet_fence settled_flush by (cases l) (simp_all add: quiet_settled)
  have c: "cur ?m UMagic = kHeapHeaderMagic" "cur ?m UNrBlocks = block_count cap" "cur ?m ULogCap = block_count cap * kBlockSize"
    "cur ?m UDataOff = kHugePageSize" "cur ?m ULogHead = 0" "cur ?m (Data x) = pm (Data x)" "visible ?m" for x
    by (simp_all add: format_def Let_def)
  show "uinv e {} (\<lambda>x. pm (Data x))" "nr_blocks e = block_count cap" "unv e = ?m"
    using started_inv [OF f assms(2) q c(7,1-5)] c(6) by auto
qed

subsection \<open>Runs, crashes and restarts\<close>

datatype event = Hook nat nat | Range_hook nat nat nat | Write nat nat | Checkpoint nat

fun perform :: "event \<Rightarrow> ulog \<Rightarrow> ulog option" where
  "perform (Hook tid addr) e = hook_rt_store tid addr e"
| "perform (Range_hook tid addr len) e = hook_rt_range_store tid addr len e"
| "perform (Write x v) e = Some (store_byte x v e)"
| "perform (Checkpoint n) e = Some (checkpoint n e)"

type_synonym ghost = "nat set \<times> (nat \<Rightarrow> nat)"

text \<open>
  Operations the program may perform: as for the default engine, and with room in the log for the
  blocks a hook newly covers.
\<close>

fun allowed :: "event \<Rightarrow> ulog \<Rightarrow> ghost \<Rightarrow> bool" where
  "allowed (Hook tid addr) e (H, snap) = (tid < kMaxThreads \<and>
     (in_range e addr \<longrightarrow> block_of e addr \<in> H \<or> log_head e + log_size < get_capacity e))"
| "allowed (Range_hook tid addr len) e (H, snap) = (tid < kMaxThreads \<and> 0 < len \<and> address_first e \<le> addr \<and>
     addr + len \<le> address_first e + get_capacity e \<and> log_head e + log_need H (blocks_of e addr len) < get_capacity e)"
| "allowed (Write x v) e (H, snap) = (x div kBlockSize \<in> H)"
| "allowed (Checkpoint n) e (H, snap) = (0 < n)"

fun observe :: "event \<Rightarrow> ulog \<Rightarrow> ghost \<Rightarrow> ghost" where
  "observe (Hook tid addr) e (H, snap) = (if in_range e addr then insert (block_of e addr) H else H, snap)"
| "observe (Range_hook tid addr len) e (H, snap) = (H \<union> set (blocks_of e addr len), snap)"
| "observe (Write x v) e G = G"
| "observe (Checkpoint n) e (H, snap) = ({}, new_snap e)"

definition step :: "event \<Rightarrow> ulog \<Rightarrow> ulog option" where
  "step ev e = perform ev (u_nv nv_begin e)"

definition good :: "ulog \<Rightarrow> ghost \<Rightarrow> bool" where "good e g = uinv e (fst g) (snd g)"

definition recovers :: "ulog \<Rightarrow> (uloc \<Rightarrow> nat) \<Rightarrow> ghost \<Rightarrow> bool" where
  "recovers e pm g = stands_for (nr_blocks e) (snd g) pm"

definition renew :: "ghost \<Rightarrow> ghost" where "renew g = ({}, snd g)"

lemma start_inv:
  assumes "uinv e H snap"
  shows "uinv (u_nv nv_begin e) H snap" and "crash_safe (stands_for (nr_blocks e) snap) (unv (u_nv nv_begin e))"
proof -
  obtain es where es: "set es = H" "log_inv e es snap" "track_inv e es" "kBlockSize dvd address_first e"
    using assms by (auto simp: uinv_def)
  then have "log_inv (u_nv nv_begin e) es snap" "track_inv (u_nv nv_begin e) es"
    using log_inv_start(1) by (auto simp: track_inv_def none_full_def)
  then show "uinv (u_nv nv_begin e) H snap" using es by (auto simp: uinv_def)
  show "crash_safe (stands_for (nr_blocks e) snap) (unv (u_nv nv_begin e))" by (rule log_inv_start(2) [OF es(2)])
qed

lemma u_begin_frame [simp]:
  "block_of (u_nv nv_begin e) = block_of e" "blocks_of (u_nv nv_begin e) = blocks_of e" "in_range (u_nv nv_begin e) = in_range e"
  "get_capacity (u_nv nv_begin e) = get_capacity e" "new_snap (u_nv nv_begin e) = new_snap e"
  by (simp_all add: fun_eq_iff block_of_def blocks_of_def in_range_def get_capacity_def new_snap_def urd_def)

lemma step_safe:
  assumes "good e g" and "allowed ev e g"
  shows "\<exists>e'. step ev e = Some e' \<and> good e' (observe ev e g) \<and>
      (\<forall>pm \<in> crash_images (unv e'). recovers e pm g \<or> recovers e pm (observe ev e g))"
proof -
  obtain H snap where g: "g = (H, snap)" by (cases g) auto
  let ?e = "u_nv nv_begin e"
  have i: "uinv ?e H snap" and s: "crash_safe (stands_for (nr_blocks e) snap) (unv ?e)"
    using start_inv [of e H snap] assms(1) by (simp_all add: g good_def)
  show ?thesis
  proof (cases ev)
    case (Hook tid addr)
    then have "tid < kMaxThreads" "in_range ?e addr \<longrightarrow> block_of ?e addr \<in> H \<or> log_head ?e + log_size < get_capacity ?e"
      using assms(2) by (simp_all add: g)
    then obtain e' where "hook_rt_store tid addr ?e = Some e'"
      "uinv e' (if in_range ?e addr then insert (block_of ?e addr) H else H) snap"
      "crash_safe (stands_for (nr_blocks ?e) snap) (unv ?e) \<longrightarrow> crash_safe (stands_for (nr_blocks ?e) snap) (unv e')"
      by (rule u_hook_rt_store_ok [OF i]) blast
    then show ?thesis using s
      by (auto simp: Hook g good_def step_def recovers_def crash_safe_def)
  next
    case (Range_hook tid addr len)
    then have "tid < kMaxThreads" "0 < len" "address_first ?e \<le> addr" "addr + len \<le> address_first ?e + get_capacity ?e"
      "log_head ?e + log_need H (blocks_of ?e addr len) < get_capacity ?e"
      using assms(2) by (simp_all add: g)
    then obtain e' where "hook_rt_range_store tid addr len ?e = Some e'" "uinv e' (H \<union> set (blocks_of ?e addr len)) snap"
      "crash_safe (stands_for (nr_blocks ?e) snap) (unv ?e) \<longrightarrow> crash_safe (stands_for (nr_blocks ?e) snap) (unv e')"
      by (rule u_hook_rt_range_store_ok [OF i]) blast
    then show ?thesis using s
      by (auto simp: Range_hook g good_def step_def recovers_def crash_safe_def)
  next
    case (Write x v)
    then have "x div kBlockSize \<in> H" using assms(2) by (simp add: g)
    then show ?thesis using store_byte_ok [OF i, of x v] s
      by (auto simp: Write g good_def step_def recovers_def crash_safe_def)
  next
    case (Checkpoint n)
    then have "0 < n" using assms(2) by (simp add: g)
    then show ?thesis using u_checkpoint_ok(1,4) [OF i, of n] s
      by (auto simp: Checkpoint g good_def step_def recovers_def crash_safe_def)
  qed
qed

interpretation undolog: restartable_engine step allowed observe good "\<lambda>e. crash_images (unv e)" recovers
  "\<lambda>pm. open_engine (k * kPageSize) (nv_init pm)" renew for k
proof
  show "good e g \<Longrightarrow> allowed ev e g \<Longrightarrow> \<exists>e'. step ev e = Some e' \<and> good e' (observe ev e g) \<and>
      (\<forall>pm \<in> crash_images (unv e'). recovers e pm g \<or> recovers e pm (observe ev e g))" for e g ev
    by (rule step_safe)
  fix e g pm g'
  assume "recovers e pm g'"
  moreover have "kBlockSize dvd k * kPageSize" by (simp add: geometry dvd_mult)
  ultimately show "\<exists>e2. open_engine (k * kPageSize) (nv_init pm) = Some e2 \<and> good e2 (renew g') \<and>
      (\<forall>pm' \<in> crash_images (unv e2). recovers e2 pm' (renew g'))"
    using open_ok [of "nr_blocks e" "snd g'" pm "k * kPageSize"]
    by (auto simp: recovers_def good_def renew_def crash_safe_def)
qed (simp add: renew_def)


subsection \<open>Properties\<close>

definition life :: "nat \<Rightarrow> ulog \<Rightarrow> ghost \<Rightarrow> ulog \<Rightarrow> ghost \<Rightarrow> bool" where
  "life k = lives step allowed observe (\<lambda>e. crash_images (unv e)) recovers (\<lambda>pm. open_engine (k * kPageSize) (nv_init pm)) renew"

text \<open>A new pool at page \<open>k\<close> on a file with the contents \<open>pm\<close>, and the ghost value it starts with.\<close>

definition created :: "nat \<Rightarrow> nat \<Rightarrow> (uloc \<Rightarrow> nat) \<Rightarrow> ulog \<Rightarrow> ghost \<Rightarrow> bool" where
  "created k cap pm e g \<longleftrightarrow> create_engine cap (k * kPageSize) (nv_init pm) = Some e \<and> g = ({}, \<lambda>x. pm (Data x))"

lemma created_good: "created k cap pm e g \<Longrightarrow> good e g"
  using create_ok(1) [of cap "k * kPageSize" pm e] by (simp add: created_def good_def geometry dvd_mult)

lemma life_good: "created k cap pm e0 g0 \<Longrightarrow> life k e0 g0 e g \<Longrightarrow> good e g"
  using undolog.lives_good [where k = k] created_good by (simp add: life_def)

lemma good_log_head:
  assumes "good e (H, snap)"
  shows "log_head e = log_size * card H" and "bs_test b (block_dirty e) \<longleftrightarrow> b \<in> H"
    and "urd e ULogCap = get_capacity e" and "urd e ULogHead = log_head e" and "visible (unv e)"
  using assms distinct_card
  by (fastforce simp: good_def uinv_def log_inv_def track_inv_def ent_def get_capacity_def)+

definition demo_pool :: ulog where
  "demo_pool = the (create_engine 0 0 (nv_init (\<lambda>l. case l of Data _ \<Rightarrow> 3 | _ \<Rightarrow> 0)))"

lemma demo_created: "created 0 0 (\<lambda>l. case l of Data _ \<Rightarrow> 3 | _ \<Rightarrow> 0) demo_pool ({}, \<lambda>x. 3)"
  by (simp add: created_def demo_pool_def create_engine_def Let_def start_engine_eq)

lemma u_demo_fields: "nr_blocks demo_pool = 65536" "address_first demo_pool = kHugePageSize" "get_capacity demo_pool = 16777216"
  "log_head demo_pool = 0"
  by (simp_all add: demo_pool_def create_engine_def Let_def start_engine_eq format_def block_count_def
      get_capacity_def geometry)

text \<open>The program hooks offset 5.\<close>

lemma u_demo_run:
  obtains e where "step (Hook 0 (kHugePageSize + 5)) demo_pool = Some e" "life 0 demo_pool ({}, \<lambda>x. 3) e ({0}, \<lambda>x. 3)"
    "get_capacity e = 16777216"
proof -
  have b: "life 0 demo_pool ({}, \<lambda>x. 3) demo_pool ({}, \<lambda>x. 3)" by (simp add: life_def lives.born)
  have a: "allowed (Hook 0 (kHugePageSize + 5)) demo_pool ({}, \<lambda>x. 3)"
    by (simp add: u_demo_fields geometry)
  have o: "observe (Hook 0 (kHugePageSize + 5)) demo_pool ({}, \<lambda>x. 3) = ({0}, \<lambda>x. 3)"
    by (simp add: in_range_def block_of_def u_demo_fields geometry)
  obtain e where e: "step (Hook 0 (kHugePageSize + 5)) demo_pool = Some e"
    using step_safe [OF created_good [OF demo_created] a] by blast
  have "life 0 demo_pool ({}, \<lambda>x. 3) e ({0}, \<lambda>x. 3)"
    using lives.operate [OF b [unfolded life_def] a e] o by (simp add: life_def)
  moreover have "nr_blocks e = 65536"
  proof -
    have i: "uinv (u_nv nv_begin demo_pool) {} (\<lambda>x. 3)"
      using start_inv(1) created_good [OF demo_created] by (simp add: good_def)
    have h: "perform (Hook 0 (kHugePageSize + 5)) (u_nv nv_begin demo_pool) = Some e" using e by (simp add: step_def)
    obtain e' where "hook_rt_store 0 (kHugePageSize + 5) (u_nv nv_begin demo_pool) = Some e'"
      "nr_blocks e' = nr_blocks (u_nv nv_begin demo_pool)"
      by (rule u_hook_rt_store_ok [OF i, of 0 "kHugePageSize + 5"]) (auto simp: u_demo_fields geometry)
    with h show ?thesis by (simp add: u_demo_fields)
  qed
  ultimately show ?thesis using that e by (simp add: get_capacity_def geometry)
qed



text \<open>
  Progress of the undo-log engine: in every state of a life an operation the log has room for
  completes, and the life goes on.
\<close>

theorem undolog_progress:
  assumes "created k cap pm0 e0 g0" and "life k e0 g0 e g" and "allowed ev e g"
  shows "\<exists>e'. step ev e = Some e' \<and> life k e0 g0 e' (observe ev e g)"
proof -
  obtain e' where e': "step ev e = Some e'"
    using step_safe [OF life_good [OF assms(1,2)] assms(3)] by blast
  with lives.operate [OF assms(2) [unfolded life_def] assms(3) e'] show ?thesis by (simp add: life_def)
qed

theorem undolog_progress_witness:
  "\<exists>e'. step (Hook 0 (kHugePageSize + 5)) demo_pool = Some e' \<and> life 0 demo_pool ({}, \<lambda>x. 3) e' ({0}, \<lambda>x. 3)"
proof -
  have a: "allowed (Hook 0 (kHugePageSize + 5)) demo_pool ({}, \<lambda>x. 3)" by (simp add: u_demo_fields geometry)
  have o: "observe (Hook 0 (kHugePageSize + 5)) demo_pool ({}, \<lambda>x. 3) = ({0}, \<lambda>x. 3)"
    by (simp add: in_range_def block_of_def u_demo_fields geometry)
  have "life 0 demo_pool ({}, \<lambda>x. 3) demo_pool ({}, \<lambda>x. 3)" by (simp add: life_def lives.born)
  from undolog_progress [OF demo_created this a] show ?thesis by (simp only: o)
qed

text \<open>
  The store hook of the undo-log engine stops the process exactly when its block is not yet
  in the log and the log is full: a log of the size of the data holds fewer than four blocks in
  five, so a program that touches all of its pool between two checkpoints is stopped.
\<close>

theorem undolog_log_full:
  assumes "created k cap pm0 e0 g0" and "life k e0 g0 e (H, snap)" and "in_range e addr"
  shows "hook_rt_store tid addr e = None \<longleftrightarrow>
    block_of e addr \<notin> H \<and> nr_blocks e * 256 \<le> 320 * (card H + 1)"
proof -
  note g = good_log_head [OF life_good [OF assms(1,2)]]
  have "publish (log_head e) (log_head e + log_size) (write_entry (log_head e) b (unv e)) \<noteq> None" for b
    using g(4) by (simp add: publish_def write_entry_def Let_def urd_def)
  then obtain m where m: "publish (log_head e) (log_head e + log_size)
      (write_entry (log_head e) ((addr - address_first e) div kBlockSize) (unv e)) = Some m" by blast
  show ?thesis
    using g(1,3) g(2) [of "block_of e addr"] assms(3) m
    by (auto simp: hook_rt_store_def hook_routine_def block_of_def Let_def urd_def get_capacity_def geometry)
qed

theorem undolog_log_full_witness:
  "hook_rt_store 0 (kHugePageSize + 5) demo_pool \<noteq> None"
proof -
  have "life 0 demo_pool ({}, \<lambda>x. 3) demo_pool ({}, \<lambda>x. 3)" by (simp add: life_def lives.born)
  moreover have "in_range demo_pool (kHugePageSize + 5)" by (simp add: in_range_def u_demo_fields geometry)
  ultimately show ?thesis using undolog_log_full [OF demo_created, of demo_pool "{}" "\<lambda>x. 3"] by (simp add: u_demo_fields)
qed

end
