(* ===== verification/Lmc.thy ===== *)
theory Lmc
  imports Common
begin

text \<open>
  \<^verbatim>\<open>engines/lmc_engine.h\<close> and \<^verbatim>\<open>engines/lmc_engine.cpp\<close>: the engine that
  keeps a working and a shadow copy of every block and an 8-bit tag per block; a tag equal to the
  current epoch says that the shadow holds the block's contents at the last checkpoint. As in the
  undo log, hooks run one at a time and the threads of a checkpoint one after the other.
\<close>

definition kHeapHeaderMagic :: nat where "kHeapHeaderMagic = 0x6f6f0303"
definition kEpochMax :: nat where "kEpochMax = 255"

lemmas lmc_constants [geometry] = kHeapHeaderMagic_def kEpochMax_def

datatype lloc =
    LMagic | LAttr | LNrBlocks | LWorkOff | LShadowOff | LEpoch
  | LTag nat | Work nat | Shadow nat

type_synonym lmem = "(lloc, nat) nvm"

datatype flush_mode = FMODE_NO_ACTION | FMODE_USE_FLUSH_BLOCKS | FMODE_WBINVD

record lmc =
  lnv :: lmem
  nr_blocks :: nat
  address_first :: nat
  has_snapshot :: bool
  flush_blocks :: "nat \<Rightarrow> nat list"
  mode :: flush_mode

definition lrd :: "lmc \<Rightarrow> lloc \<Rightarrow> nat" where
  "lrd e l = cur (lnv e) l"

definition l_nv :: "(lmem \<Rightarrow> lmem) \<Rightarrow> lmc \<Rightarrow> lmc" where
  "l_nv f e = e\<lparr>lnv := f (lnv e)\<rparr>"

lemma l_nv_simps [simp]:
  "lnv (l_nv f e) = f (lnv e)" "nr_blocks (l_nv f e) = nr_blocks e" "address_first (l_nv f e) = address_first e"
  "has_snapshot (l_nv f e) = has_snapshot e" "flush_blocks (l_nv f e) = flush_blocks e" "mode (l_nv f e) = mode e"
  by (simp_all add: l_nv_def)

definition get_capacity :: "lmc \<Rightarrow> nat" where "get_capacity e = nr_blocks e * kBlockSize"

definition get_address :: "nat \<Rightarrow> lmc \<Rightarrow> nat" where "get_address offset e = address_first e + offset"

subsection \<open>The epoch\<close>

text \<open>\<^verbatim>\<open>memset\<close> and \<^verbatim>\<open>FlushRegion\<close> of the tags of \<open>n\<close> blocks.\<close>

fun tag_below :: "nat \<Rightarrow> lloc \<Rightarrow> bool" where
  "tag_below n (LTag i) = (i < n)"
| "tag_below n _ = False"

text \<open>The cache lines of the header and of a tag.\<close>

fun header_line :: "lloc \<Rightarrow> bool" where
  "header_line (LTag _) = False" | "header_line (Work _) = False" | "header_line (Shadow _) = False"
| "header_line _ = True"

fun tag_line :: "nat \<Rightarrow> lloc \<Rightarrow> bool" where
  "tag_line b (LTag i) = (i div 64 = b div 64)"
| "tag_line b _ = False"

definition set_epoch :: "nat \<Rightarrow> lmem \<Rightarrow> lmem" where
  "set_epoch v m = nv_fence (nv_flush header_line (nv_store [LEpoch \<mapsto> v] m))"

definition clear_tags :: "nat \<Rightarrow> lmem \<Rightarrow> lmem" where
  "clear_tags n m = nv_fence (nv_flush (tag_below n) (nv_store (\<lambda>l. if tag_below n l then Some 0 else None) m))"

definition advance_current_epoch :: "nat \<Rightarrow> lmem \<Rightarrow> lmem" where
  "advance_current_epoch n m =
     (if cur m LEpoch = kEpochMax then set_epoch 1 (clear_tags n m)
      else set_epoch (cur m LEpoch + 1) m)"

subsection \<open>Opening and recovery\<close>

fun is_lheader :: "nat \<Rightarrow> lloc \<Rightarrow> bool" where
  "is_lheader n (LTag i) = (i < n)" | "is_lheader n (Work _) = False" | "is_lheader n (Shadow _) = False"
| "is_lheader n _ = True"

definition block_count :: "nat \<Rightarrow> nat" where
  "block_count user_capacity = (let c = max user_capacity kMinContainerSize in
     c div kBlockSize + (if c mod kBlockSize \<noteq> 0 then 1 else 0))"

definition work_offset :: "nat \<Rightarrow> nat" where
  "work_offset blocks = RoundUp (64 + blocks) kHugePageSize"

definition format :: "nat \<Rightarrow> lmem \<Rightarrow> lmem" where
  "format blocks m0 =
     (let m1 = nv_store (\<lambda>l. if is_lheader blocks l then Some 0 else None) m0;
          m2 = nv_store [LMagic \<mapsto> kHeapHeaderMagic, LEpoch \<mapsto> 1, LNrBlocks \<mapsto> blocks,
                 LWorkOff \<mapsto> work_offset blocks, LShadowOff \<mapsto> work_offset blocks + blocks * kBlockSize] m1
      in nv_fence (nv_flush (is_lheader blocks) m2))"

definition start_engine :: "nat \<Rightarrow> nat \<Rightarrow> bool \<Rightarrow> lmem \<Rightarrow> lmc" where
  "start_engine blocks base snapshot m =
     \<lparr>lnv = m, nr_blocks = blocks, address_first = base + cur m LWorkOff, has_snapshot = snapshot,
      flush_blocks = (\<lambda>_. []), mode = FMODE_NO_ACTION\<rparr>"

definition create_engine :: "nat \<Rightarrow> nat \<Rightarrow> lmem \<Rightarrow> lmc" where
  "create_engine user_capacity base m0 =
     (let blocks = block_count user_capacity in start_engine blocks base False (format blocks m0))"

fun work_at :: "nat \<Rightarrow> lloc \<Rightarrow> nat option" where
  "work_at base (Work x) = (if base \<le> x then Some (x - base) else None)"
| "work_at base _ = None"

fun shadow_at :: "nat \<Rightarrow> lloc \<Rightarrow> nat option" where
  "shadow_at base (Shadow x) = (if base \<le> x then Some (x - base) else None)"
| "shadow_at base _ = None"

definition recover_block :: "nat \<Rightarrow> lmem \<Rightarrow> lmem" where
  "recover_block i m =
     (if cur m (LTag i) = cur m LEpoch
      then NonTemporalCopy (work_at (i * kBlockSize)) (\<lambda>j. Shadow (i * kBlockSize + j)) kBlockSize m else m)"

definition recover :: "nat \<Rightarrow> lmem \<Rightarrow> lmem" where
  "recover blocks m = advance_current_epoch blocks (nv_fence (fold recover_block [0..<blocks] m))"

definition exist_snapshot :: "lmem \<Rightarrow> bool" where
  "exist_snapshot m = bit (cur m LAttr) 4"

definition open_engine :: "nat \<Rightarrow> lmem \<Rightarrow> lmc option" where
  "open_engine base m =
     (if cur m LMagic \<noteq> kHeapHeaderMagic then None
      else let m1 = recover (cur m LNrBlocks) m in Some (start_engine (cur m LNrBlocks) base (exist_snapshot m1) m1))"

subsection \<open>Hooks\<close>

definition in_range :: "lmc \<Rightarrow> nat \<Rightarrow> bool" where
  "in_range e addr \<longleftrightarrow> address_first e \<le> addr \<and> addr < address_first e + get_capacity e"

definition append_bucket :: "nat \<Rightarrow> nat \<Rightarrow> lmc \<Rightarrow> lmc" where
  "append_bucket tid block_id e =
     (if length (flush_blocks e tid) \<noteq> kMaxFlushBlocks
      then e\<lparr>flush_blocks := (flush_blocks e)(tid := flush_blocks e tid @ [block_id])\<rparr> else e)"

text \<open>The old contents to the shadow, a fence, then the tag.\<close>

definition save_block :: "nat \<Rightarrow> lmem \<Rightarrow> lmem" where
  "save_block block_id m =
     (let m1 = nv_fence (NonTemporalCopy (shadow_at (block_id * kBlockSize)) (\<lambda>j. Work (block_id * kBlockSize + j)) kBlockSize m);
          m2 = nv_store [LTag block_id \<mapsto> cur m1 LEpoch] m1
      in nv_fence (nv_flush (tag_line block_id) m2))"

definition hook_routine :: "nat \<Rightarrow> nat \<Rightarrow> lmc \<Rightarrow> lmc" where
  "hook_routine tid addr e =
     (let delta = addr - address_first e; block_id = delta div kBlockSize
      in if lrd e (LTag block_id) = lrd e LEpoch then e
      else append_bucket tid block_id (l_nv (save_block block_id) e))"

definition range_blocks :: "nat \<Rightarrow> nat \<Rightarrow> nat list" where
  "range_blocks delta len = [delta div kBlockSize..<(delta + len + (kBlockSize - 1)) div kBlockSize]"

definition hook_routine_range :: "nat \<Rightarrow> nat \<Rightarrow> nat \<Rightarrow> lmc \<Rightarrow> lmc" where
  "hook_routine_range tid addr len e =
     fold (\<lambda>b e. hook_routine tid (address_first e + b * kBlockSize) e) (range_blocks (addr - address_first e) len) e"

definition hook_rt_store :: "nat \<Rightarrow> nat \<Rightarrow> lmc \<Rightarrow> lmc" where
  "hook_rt_store tid addr e = (if in_range e addr then hook_routine tid addr e else e)"

definition hook_rt_range_store :: "nat \<Rightarrow> nat \<Rightarrow> nat \<Rightarrow> lmc \<Rightarrow> lmc" where
  "hook_rt_range_store tid addr len e =
     (if addr mod kBlockSize + len \<le> kBlockSize then hook_rt_store tid addr e
      else if in_range e addr then hook_routine_range tid addr len e else e)"

subsection \<open>Checkpoint\<close>

definition decide_mode :: "lmc \<Rightarrow> flush_mode" where
  "decide_mode e =
     (if \<forall>i \<in> set [0..<kMaxThreads]. flush_blocks e i = [] then FMODE_NO_ACTION
      else if \<exists>i \<in> set [0..<kMaxThreads]. length (flush_blocks e i) = kMaxFlushBlocks then FMODE_WBINVD
      else FMODE_USE_FLUSH_BLOCKS)"

fun in_work_block :: "nat \<Rightarrow> lloc \<Rightarrow> bool" where
  "in_work_block b (Work x) = (x div kBlockSize = b)"
| "in_work_block b _ = False"

definition flush_parallel :: "nat \<Rightarrow> nat \<Rightarrow> lmc \<Rightarrow> lmc" where
  "flush_parallel n tid e =
     l_nv nv_fence
       (if mode e = FMODE_WBINVD
        then (if tid = 0 then l_nv (nv_flush (\<lambda>_. True)) e else e)
        else l_nv (fold (\<lambda>i. fold (\<lambda>b. nv_flush (in_work_block b)) (flush_blocks e i)) (share n tid kMaxThreads)) e)"

definition note_snapshot :: "lmc \<Rightarrow> lmc" where
  "note_snapshot e =
     (if has_snapshot e then e
      else (l_nv (\<lambda>m. nv_fence (nv_nt [LAttr \<mapsto> kAttributeHasSnapshot] m)) e)\<lparr>has_snapshot := True\<rparr>)"

definition checkpoint :: "nat \<Rightarrow> lmc \<Rightarrow> lmc" where
  "checkpoint n e =
     (let e1 = e\<lparr>mode := decide_mode e\<rparr> in
      if mode e1 = FMODE_NO_ACTION then e1
      else let e2 = note_snapshot (fold (flush_parallel n) [0..<n] e1);
               e3 = l_nv (advance_current_epoch (nr_blocks e2)) e2
           in e3\<lparr>flush_blocks := (\<lambda>i. if i < kMaxThreads then [] else flush_blocks e3 i)\<rparr>)"

end
