(* ===== verification/Lmc_Run.thy ===== *)
theory Lmc_Run
  imports Lmc Engine_Spec
begin

text \<open>
  Crash consistency of the shadow-copy engine: what a durable image stands for, recovery, the
  invariant of hooks and checkpoints, its life under repeated crashes, and the one checkpoint in
  255 that is not crash-atomic.
\<close>

subsection \<open>What an image stands for\<close>

definition tags_ok :: "nat \<Rightarrow> (lloc \<Rightarrow> nat) \<Rightarrow> bool" where
  "tags_ok blocks v \<longleftrightarrow> 1 \<le> v LEpoch \<and> v LEpoch \<le> kEpochMax \<and> (\<forall>i < blocks. v (LTag i) \<le> v LEpoch)"

definition content :: "(lloc \<Rightarrow> nat) \<Rightarrow> nat \<Rightarrow> nat" where
  "content v x = (if v (LTag (x div kBlockSize)) = v LEpoch then v (Shadow x) else v (Work x))"

definition l_header :: "nat \<Rightarrow> (lloc \<Rightarrow> nat) \<Rightarrow> bool" where
  "l_header blocks v \<longleftrightarrow> v LMagic = kHeapHeaderMagic \<and> v LNrBlocks = blocks \<and> v LWorkOff = work_offset blocks \<and>
     v LShadowOff = work_offset blocks + blocks * kBlockSize"

definition l_stands :: "nat \<Rightarrow> (nat \<Rightarrow> nat) \<Rightarrow> (lloc \<Rightarrow> nat) \<Rightarrow> bool" where
  "l_stands blocks snap pm \<longleftrightarrow> l_header blocks pm \<and> tags_ok blocks pm \<and>
     (\<forall>x < blocks * kBlockSize. content pm x = snap x)"

text \<open>The cells that matter besides the epoch while the tags are those of \<open>v\<close>.\<close>

fun l_kept :: "nat \<Rightarrow> (lloc \<Rightarrow> nat) \<Rightarrow> lloc \<Rightarrow> bool" where
  "l_kept blocks v (LTag i) = (i < blocks)"
| "l_kept blocks v (Work x) = (x < blocks * kBlockSize \<and> v (LTag (x div kBlockSize)) \<noteq> v LEpoch)"
| "l_kept blocks v (Shadow x) = (x < blocks * kBlockSize \<and> v (LTag (x div kBlockSize)) = v LEpoch)"
| "l_kept blocks v LEpoch = False"
| "l_kept blocks v LAttr = False"
| "l_kept blocks v _ = True"

lemma block_in_range: "x < blocks * kBlockSize \<Longrightarrow> x div kBlockSize < blocks"
  by (simp add: div_lt_mult_iff geometry)

lemma l_stands_cong:
  assumes "l_stands blocks snap v" and "\<And>l. l_kept blocks v l \<Longrightarrow> pm l = v l" and "pm LEpoch = v LEpoch"
  shows "l_stands blocks snap pm"
proof -
  have t: "pm (LTag i) = v (LTag i)" if "i < blocks" for i using assms(2) [of "LTag i"] that by simp
  have "content pm x = content v x" if "x < blocks * kBlockSize" for x
    using assms(2) [of "Work x"] assms(2) [of "Shadow x"] t [OF block_in_range [OF that]] assms(3) that
    by (auto simp: content_def)
  then show ?thesis
    using assms(1) assms(2) [of LMagic] assms(2) [of LNrBlocks] assms(2) [of LWorkOff] assms(2) [of LShadowOff] t assms(3)
    by (simp add: l_stands_def l_header_def tags_ok_def)
qed

definition l_fixed :: "nat \<Rightarrow> (lloc \<Rightarrow> nat) \<Rightarrow> lloc \<Rightarrow> bool" where
  "l_fixed blocks v l \<longleftrightarrow> l_kept blocks v l \<or> l = LEpoch"

text \<open>A memory all of whose relevant cells are durable stands for its contents at every point.\<close>

lemma l_keeps_safe:
  assumes "l_stands blocks snap (cur m)" and "keeps (l_fixed blocks (cur m)) m m'" and "crash_safe (l_stands blocks snap) m"
  shows "crash_safe (l_stands blocks snap) m'"
  by (rule keeps_crash_safe [OF assms(2,3)]) (rule l_stands_cong [OF assms(1)], auto simp: l_fixed_def)

lemma l_begin_safe:
  assumes "l_stands blocks snap (cur m)" and "\<And>l. l_fixed blocks (cur m) l \<Longrightarrow> quiet m l"
  shows "crash_safe (l_stands blocks snap) (nv_begin m)"
  unfolding crash_safe_begin dur_sat_def
proof (intro allI impI)
  fix pm assume pm: "\<forall>l. pm l \<in> dur m l"
  have "pm l = cur m l" if "l_fixed blocks (cur m) l" for l
    using spec [OF pm, of l] quiet_durable [OF assms(2) [OF that]] by simp
  then show "l_stands blocks snap pm" by (intro l_stands_cong [OF assms(1)]) (auto simp: l_fixed_def)
qed

subsection \<open>Advancing the epoch\<close>

lemma set_epoch_simps [simp]:
  "cur (set_epoch v m) l = (if l = LEpoch then v else cur m l)"
  "quiet (set_epoch v m) l \<longleftrightarrow> header_line l \<or> settled m l"
  "visible m \<Longrightarrow> visible (set_epoch v m)"
  by (cases l; simp add: set_epoch_def)+

lemma clear_tags_simps [simp]:
  "cur (clear_tags n m) l = (if tag_below n l then 0 else cur m l)"
  "quiet (clear_tags n m) l \<longleftrightarrow> tag_below n l \<or> settled m l"
  "visible m \<Longrightarrow> visible (clear_tags n m)"
  by (cases "tag_below n l"; simp add: clear_tags_def)+

lemma set_epoch_safe:
  assumes "crash_safe P m" and "\<And>l. A l \<Longrightarrow> quiet m l \<and> l \<noteq> LEpoch" and "quiet m LEpoch"
    and "\<And>pm. (\<And>l. A l \<Longrightarrow> pm l = cur m l) \<Longrightarrow> pm LEpoch = cur m LEpoch \<or> pm LEpoch = v \<Longrightarrow> P pm"
  shows "crash_safe P (set_epoch v m)"
  unfolding set_epoch_def by (rule crash_safe_switch(2) [OF assms]) simp_all

text \<open>With the working copy durable: the next epoch makes it the snapshot.\<close>

definition work_ok :: "nat \<Rightarrow> lmem \<Rightarrow> bool" where
  "work_ok blocks m \<longleftrightarrow> l_header blocks (cur m) \<and> tags_ok blocks (cur m) \<and> visible m \<and> quiet m LEpoch \<and>
     quiet m LMagic \<and> quiet m LNrBlocks \<and> quiet m LWorkOff \<and> quiet m LShadowOff \<and>
     (\<forall>i < blocks. quiet m (LTag i)) \<and> (\<forall>x < blocks * kBlockSize. quiet m (Work x) \<and>
       (cur m (LTag (x div kBlockSize)) = cur m LEpoch \<longrightarrow> quiet m (Shadow x)))"

fun work_cell :: "nat \<Rightarrow> lloc \<Rightarrow> bool" where
  "work_cell blocks (LTag i) = (i < blocks)"
| "work_cell blocks (Work x) = (x < blocks * kBlockSize)"
| "work_cell blocks (Shadow x) = False"
| "work_cell blocks LEpoch = False"
| "work_cell blocks LAttr = False"
| "work_cell blocks _ = True"

lemma advance_small:
  assumes w: "work_ok blocks m" and e: "cur m LEpoch < kEpochMax"
    and safe: "crash_safe P m" and old: "\<And>pm. l_stands blocks (content (cur m)) pm \<Longrightarrow> P pm"
    and cur_snap: "\<And>pm. l_stands blocks (\<lambda>x. cur m (Work x)) pm \<Longrightarrow> P pm"
  shows "crash_safe P (advance_current_epoch blocks m)"
proof -
  have eq: "advance_current_epoch blocks m = set_epoch (cur m LEpoch + 1) m"
    using e by (simp add: advance_current_epoch_def)
  let ?A = "\<lambda>l. work_cell blocks l \<or> l_kept blocks (cur m) l"
  show ?thesis
    unfolding eq
  proof (rule set_epoch_safe [where A = ?A, OF safe])
    show "quiet m l \<and> l \<noteq> LEpoch" if "?A l" for l
      using w that by (cases l) (auto simp: work_ok_def)
    show "quiet m LEpoch" using w by (simp add: work_ok_def)
    fix pm assume a: "\<And>l. ?A l \<Longrightarrow> pm l = cur m l" "pm LEpoch = cur m LEpoch \<or> pm LEpoch = cur m LEpoch + 1"
    have here: "l_stands blocks (content (cur m)) (cur m)" using w by (simp add: l_stands_def work_ok_def)
    from a(2) show "P pm"
    proof
      assume "pm LEpoch = cur m LEpoch"
      then show "P pm" using a(1) by (intro old l_stands_cong [OF here]) auto
    next
      assume h: "pm LEpoch = cur m LEpoch + 1"
      have t: "pm (LTag i) = cur m (LTag i)" if "i < blocks" for i using a(1) [of "LTag i"] that by simp
      have tw: "cur m (LTag i) \<le> cur m LEpoch" if "i < blocks" for i using w that by (simp add: work_ok_def tags_ok_def)
      have "l_header blocks pm" using w a(1) [of LMagic] a(1) [of LNrBlocks] a(1) [of LWorkOff] a(1) [of LShadowOff]
        by (simp add: work_ok_def l_header_def)
      moreover have "tags_ok blocks pm" using e h t tw by (simp add: tags_ok_def le_SucI)
      moreover have "content pm x = cur m (Work x)" if x: "x < blocks * kBlockSize" for x
        using a(1) [of "Work x"] x h t [OF block_in_range [OF x]] tw [OF block_in_range [OF x]] by (simp add: content_def)
      ultimately have "l_stands blocks (\<lambda>x. cur m (Work x)) pm" by (simp add: l_stands_def)
      then show "P pm" by (rule cur_snap)
    qed
  qed
qed

lemma advance_final:
  assumes w: "work_ok blocks m"
  defines "m' \<equiv> advance_current_epoch blocks m"
  shows "l_header blocks (cur m')" and "tags_ok blocks (cur m')" and "visible m'"
    and "i < blocks \<Longrightarrow> cur m' (LTag i) \<noteq> cur m' LEpoch" and "cur m' (Work x) = cur m (Work x)"
    and "l_fixed blocks (cur m') l \<Longrightarrow> quiet m' l" and "cur m' LAttr = cur m LAttr"
proof -
  have t: "cur m (LTag i) \<le> cur m LEpoch" if "i < blocks" for i using w that by (simp add: work_ok_def tags_ok_def)
  have e: "1 \<le> cur m LEpoch" "cur m LEpoch \<le> kEpochMax" using w by (simp_all add: work_ok_def tags_ok_def)
  show tg: "i < blocks \<Longrightarrow> cur m' (LTag i) \<noteq> cur m' LEpoch" for i
    using t [of i] by (auto simp: m'_def advance_current_epoch_def)
  show "l_header blocks (cur m')" "visible m'" "cur m' (Work x) = cur m (Work x)" "cur m' LAttr = cur m LAttr"
    using w by (auto simp: m'_def advance_current_epoch_def l_header_def work_ok_def)
  show "tags_ok blocks (cur m')"
    using t e by (auto simp: m'_def advance_current_epoch_def tags_ok_def le_SucI geometry)
  show "quiet m' l" if "l_fixed blocks (cur m') l"
    using that w tg block_in_range by (cases l) (auto simp: l_fixed_def m'_def advance_current_epoch_def work_ok_def quiet_settled)
qed

subsection \<open>Recovery\<close>

fun l_restored :: "(lloc \<Rightarrow> nat) \<Rightarrow> nat \<Rightarrow> lloc \<rightharpoonup> nat" where
  "l_restored v k (Work x) =
     (if x div kBlockSize < k \<and> v (LTag (x div kBlockSize)) = v LEpoch then Some (v (Shadow x)) else None)"
| "l_restored v k _ = None"

lemma recover_block_eq:
  assumes "cur m (LTag k) = cur m LEpoch"
  shows "recover_block k m = nv_nt (\<lambda>l. case l of Work x \<Rightarrow> if x div kBlockSize = k then Some (cur m (Shadow x)) else None | _ \<Rightarrow> None) m"
proof -
  have "(case work_at (k * kBlockSize) l of Some i \<Rightarrow> if i < kBlockSize then Some (cur m (Shadow (k * kBlockSize + i))) else None
        | None \<Rightarrow> None) = (case l of Work x \<Rightarrow> if x div kBlockSize = k then Some (cur m (Shadow x)) else None | _ \<Rightarrow> None)" for l
  proof (cases l)
    case (Work x)
    then show ?thesis using block_offset_conv [of k x] by auto
  qed simp_all
  then show ?thesis using assms by (simp add: recover_block_def NonTemporalCopy_def)
qed

lemma recover_blocks:
  "evolves (\<lambda>_. False) (l_restored (cur m) k) m (fold recover_block [0..<k] m)"
proof (induction k)
  case 0
  have "l_restored (cur m) 0 l = None" for l by (cases l) simp_all
  then have "l_restored (cur m) 0 = Map.empty" by (rule ext)
  then show ?case using evolves_refl by simp
next
  case (Suc k)
  define m1 where "m1 = fold recover_block [0..<k] m"
  have same: "cur m1 (LTag i) = cur m (LTag i)" "cur m1 LEpoch = cur m LEpoch" "cur m1 (Shadow x) = cur m (Shadow x)" for i x
    using evolves_simps(1) [OF Suc] by (simp_all add: m1_def)
  show ?case
  proof (cases "cur m (LTag k) = cur m LEpoch")
    case True
    define V where "V = (\<lambda>l. case l of Work x \<Rightarrow> if x div kBlockSize = k then Some (cur m1 (Shadow x)) else None | _ \<Rightarrow> None)"
    have "recover_block k m1 = nv_nt V m1" unfolding V_def by (rule recover_block_eq) (simp add: same True)
    moreover have "(l_restored (cur m) k ++ V) l = l_restored (cur m) (Suc k) l" for l
      using True same by (cases l) (auto simp: V_def map_add_def less_Suc_eq)
    then have "l_restored (cur m) k ++ V = l_restored (cur m) (Suc k)" by (rule ext)
    ultimately show ?thesis using evolves_trans [OF Suc [folded m1_def] evolves_nt [of V]] by (simp add: m1_def [symmetric])
  next
    case False
    have "l_restored (cur m) k l = l_restored (cur m) (Suc k) l" for l
      using False by (cases l) (auto simp: less_Suc_eq)
    then have "l_restored (cur m) k = l_restored (cur m) (Suc k)" by (rule ext)
    moreover have "recover_block k m1 = m1" using False same by (simp add: recover_block_def)
    ultimately show ?thesis using Suc by (simp add: m1_def [symmetric])
  qed
qed

lemma advance_wrap:
  assumes w: "work_ok blocks m" and e: "cur m LEpoch = kEpochMax"
    and same: "\<And>x. x < blocks * kBlockSize \<Longrightarrow> cur m (Work x) = snap x \<and> content (cur m) x = snap x"
    and safe: "crash_safe (l_stands blocks snap) m"
  shows "crash_safe (l_stands blocks snap) (advance_current_epoch blocks m)"
proof -
  have h: "l_header blocks (cur m)" "tags_ok blocks (cur m)" using w by (simp_all add: work_ok_def)
  let ?A = "\<lambda>l. l_fixed blocks (cur m) l \<or> work_cell blocks l"
  have q: "quiet m l" if "?A l" for l
    using that w by (cases l) (auto simp: work_ok_def l_fixed_def)
  have stands: "l_stands blocks snap pm"
    if a: "\<And>l. ?A l \<Longrightarrow> \<not> tag_below blocks l \<Longrightarrow> l \<noteq> LEpoch \<Longrightarrow> pm l = cur m l"
      "\<And>i. i < blocks \<Longrightarrow> pm (LTag i) = cur m (LTag i) \<or> pm (LTag i) = 0"
      "pm LEpoch = kEpochMax \<or> pm LEpoch = 1 \<and> (\<forall>i < blocks. pm (LTag i) = 0)" for pm
  proof -
    have "l_header blocks pm" using h(1) a(1) [of LMagic] a(1) [of LNrBlocks] a(1) [of LWorkOff] a(1) [of LShadowOff]
      by (simp add: l_header_def)
    moreover have "tags_ok blocks pm" unfolding tags_ok_def
    proof (intro conjI allI impI)
      show "1 \<le> pm LEpoch" "pm LEpoch \<le> kEpochMax" using a(3) by (auto simp: geometry)
      fix i assume "i < blocks"
      then show "pm (LTag i) \<le> pm LEpoch" using a(2) [of i] a(3) h(2) e by (auto simp: tags_ok_def)
    qed
    moreover have "content pm x = snap x" if x: "x < blocks * kBlockSize" for x
    proof -
      have wx: "pm (Work x) = snap x" using a(1) [of "Work x"] x same by simp
      have "pm (Shadow x) = snap x" if "cur m (LTag (x div kBlockSize)) = kEpochMax"
        using a(1) [of "Shadow x"] x that e same [OF x] by (simp add: l_fixed_def content_def)
      then show ?thesis using wx a(2) [OF block_in_range [OF x]] a(3) block_in_range [OF x]
        by (auto simp: content_def geometry)
    qed
    ultimately show ?thesis by (simp add: l_stands_def)
  qed
  let ?m1 = "clear_tags blocks m"
  have 1: "crash_safe (l_stands blocks snap) ?m1"
    unfolding clear_tags_def
  proof (rule crash_safe_stores [where A = ?A, OF safe])
    fix pm assume a: "\<And>l. ?A l \<Longrightarrow> pm l = cur m l \<or> (if tag_below blocks l then Some 0 else None) = Some (pm l)"
    show "l_stands blocks snap pm"
    proof (rule stands)
      show "pm l = cur m l" if "?A l" "\<not> tag_below blocks l" "l \<noteq> LEpoch" for l using a [of l] that by auto
      show "pm (LTag i) = cur m (LTag i) \<or> pm (LTag i) = 0" if "i < blocks" for i using a [of "LTag i"] that by auto
      show "pm LEpoch = kEpochMax \<or> pm LEpoch = 1 \<and> (\<forall>i < blocks. pm (LTag i) = 0)"
        using a [of LEpoch] e by (simp add: l_fixed_def)
    qed
  qed (use q in \<open>auto split: if_splits\<close>)
  have "crash_safe (l_stands blocks snap) (set_epoch 1 ?m1)"
  proof (rule set_epoch_safe [where A = "\<lambda>l. ?A l \<and> l \<noteq> LEpoch", OF 1])
    show "quiet ?m1 l \<and> l \<noteq> LEpoch" if "?A l \<and> l \<noteq> LEpoch" for l
      using q [of l] that by (auto simp: quiet_settled)
    show "quiet ?m1 LEpoch" using q [of LEpoch] by (auto simp: quiet_settled l_fixed_def)
    fix pm assume a: "\<And>l. ?A l \<and> l \<noteq> LEpoch \<Longrightarrow> pm l = cur ?m1 l" "pm LEpoch = cur ?m1 LEpoch \<or> pm LEpoch = 1"
    have t: "pm (LTag i) = 0" if "i < blocks" for i using a(1) [of "LTag i"] that by simp
    show "l_stands blocks snap pm"
    proof (rule stands)
      show "pm l = cur m l" if "?A l" "\<not> tag_below blocks l" "l \<noteq> LEpoch" for l using a(1) [of l] that by simp
      show "pm (LTag i) = cur m (LTag i) \<or> pm (LTag i) = 0" if "i < blocks" for i using t [OF that] by simp
      have "\<forall>i < blocks. pm (LTag i) = 0" using t by blast
      then show "pm LEpoch = kEpochMax \<or> pm LEpoch = 1 \<and> (\<forall>i < blocks. pm (LTag i) = 0)"
        using a(2) e by simp
    qed
  qed
  then show ?thesis using e by (simp add: advance_current_epoch_def)
qed

lemma l_recover_ok:
  assumes "l_stands blocks snap pm"
  defines "m' \<equiv> recover blocks (nv_init pm)"
  shows "crash_safe (l_stands blocks snap) m'" and "l_header blocks (cur m')" and "tags_ok blocks (cur m')" and "visible m'"
    and "i < blocks \<Longrightarrow> cur m' (LTag i) \<noteq> cur m' LEpoch" and "x < blocks * kBlockSize \<Longrightarrow> cur m' (Work x) = snap x"
    and "l_fixed blocks (cur m') l \<Longrightarrow> quiet m' l" and "cur m' LAttr = pm LAttr"
proof -
  define m1 where "m1 = fold recover_block [0..<blocks] (nv_init pm)"
  have ev: "evolves (\<lambda>_. False) (l_restored pm blocks) (nv_init pm) m1"
    using recover_blocks [of "nv_init pm" blocks] by (simp add: m1_def)
  have c: "cur m1 l = pm l" if "l_restored pm blocks l = None" for l using evolves_simps(1) [OF ev that] by simp
  have same: "cur m1 (LTag i) = pm (LTag i)" "cur m1 LEpoch = pm LEpoch" "cur m1 (Shadow x) = pm (Shadow x)"
    "cur m1 LMagic = pm LMagic" "cur m1 LNrBlocks = pm LNrBlocks" "cur m1 LWorkOff = pm LWorkOff"
    "cur m1 LShadowOff = pm LShadowOff" "cur m1 LAttr = pm LAttr" for i x
    by (rule c, simp)+
  have st: "l_header blocks pm" "tags_ok blocks pm" "\<And>x. x < blocks * kBlockSize \<Longrightarrow> content pm x = snap x"
    using assms(1) by (auto simp: l_stands_def)
  have w1: "cur m1 (Work x) = snap x" if x: "x < blocks * kBlockSize" for x
  proof (cases "pm (LTag (x div kBlockSize)) = pm LEpoch")
    case True
    then have "l_restored pm blocks (Work x) = Some (pm (Shadow x))" using block_in_range [OF x] by simp
    from evolves_simps(2) [OF ev this] show ?thesis using st(3) [OF x] True by (simp add: content_def)
  next
    case False
    then show ?thesis using c [of "Work x"] st(3) [OF x] by (simp add: content_def)
  qed
  define m2 where "m2 = nv_fence m1"
  have q2: "quiet m2 l" for l using evolves_simps(3) [OF ev, of l] by (simp add: m2_def quiet_settled)
  have v2: "visible m2" using evolves_visible [OF ev] by (simp add: m2_def)
  have wok: "work_ok blocks m2"
    using st q2 v2 by (simp add: work_ok_def m2_def l_header_def tags_ok_def same)
  have ct: "content (cur m2) x = snap x" if x: "x < blocks * kBlockSize" for x
    using st(3) [OF x] w1 [OF x] by (simp add: content_def m2_def same split: if_splits)
  have "crash_safe (l_stands blocks snap) (nv_init pm)"
    unfolding crash_safe_iff dur_sat_def using assms(1) by (simp add: fun_eq_iff [symmetric])
  moreover have "keeps (l_fixed blocks pm) (nv_init pm) m2"
  proof (rule evolves_keeps)
    show "evolves (\<lambda>l. False \<or> False) (l_restored pm blocks ++ Map.empty) (nv_init pm) m2"
      unfolding m2_def by (rule evolves_trans [OF ev evolves_fence])
    show "quiet (nv_init pm) l \<and> (l_restored pm blocks ++ Map.empty) l = None" if "l_fixed blocks pm l" for l
      using that by (cases l) (auto simp: l_fixed_def)
  qed
  ultimately have s2: "crash_safe (l_stands blocks snap) m2"
    using assms(1) l_keeps_safe [of blocks snap "nv_init pm" m2] by simp
  have m': "m' = advance_current_epoch blocks m2" by (simp add: m'_def recover_def m1_def m2_def)
  show "crash_safe (l_stands blocks snap) m'"
  proof (cases "cur m2 LEpoch = kEpochMax")
    case True
    show ?thesis unfolding m' by (rule advance_wrap [OF wok True _ s2]) (simp add: ct, simp add: m2_def w1)
  next
    case False
    then have lt: "cur m2 LEpoch < kEpochMax" using wok by (simp add: work_ok_def tags_ok_def)
    have cong: "l_stands blocks f pm' \<Longrightarrow> (\<And>x. x < blocks * kBlockSize \<Longrightarrow> f x = snap x) \<Longrightarrow> l_stands blocks snap pm'" for f pm'
      by (simp add: l_stands_def)
    show ?thesis unfolding m'
      by (rule advance_small [OF wok lt s2]) (erule cong, simp add: ct, erule cong, simp add: m2_def w1)
  qed
  show "l_header blocks (cur m')" and "tags_ok blocks (cur m')" and "visible m'"
    and "i < blocks \<Longrightarrow> cur m' (LTag i) \<noteq> cur m' LEpoch" and "x < blocks * kBlockSize \<Longrightarrow> cur m' (Work x) = snap x"
    and "l_fixed blocks (cur m') l \<Longrightarrow> quiet m' l" and "cur m' LAttr = pm LAttr"
    unfolding m' using advance_final [OF wok] w1 [of x] same(8) by (simp_all add: m2_def)
qed

subsection \<open>The invariant\<close>

definition l_none_full :: "lmc \<Rightarrow> bool" where
  "l_none_full e \<longleftrightarrow> (\<forall>i < kMaxThreads. length (flush_blocks e i) \<noteq> kMaxFlushBlocks)"

text \<open>
  \<open>H\<close> are the blocks the program announced to write since the last checkpoint, whose contents
  were \<open>snap\<close>.
\<close>

definition linv :: "lmc \<Rightarrow> nat set \<Rightarrow> (nat \<Rightarrow> nat) \<Rightarrow> bool" where
  "linv e H snap \<longleftrightarrow> l_stands (nr_blocks e) snap (lrd e) \<and> visible (lnv e) \<and>
     (\<forall>l. l_fixed (nr_blocks e) (lrd e) l \<longrightarrow> quiet (lnv e) l) \<and>
     (\<forall>b. b \<in> H \<longleftrightarrow> b < nr_blocks e \<and> lrd e (LTag b) = lrd e LEpoch) \<and>
     (l_none_full e \<longrightarrow> (\<forall>b \<in> H. \<exists>i < kMaxThreads. b \<in> set (flush_blocks e i))) \<and> kBlockSize dvd address_first e"

lemma linvD:
  assumes "linv e H snap"
  shows "l_stands (nr_blocks e) snap (cur (lnv e))" "visible (lnv e)" "l_fixed (nr_blocks e) (cur (lnv e)) l \<Longrightarrow> quiet (lnv e) l"
    "b \<in> H \<longleftrightarrow> b < nr_blocks e \<and> lrd e (LTag b) = lrd e LEpoch" "kBlockSize dvd address_first e"
    "l_none_full e \<Longrightarrow> b \<in> H \<Longrightarrow> \<exists>i < kMaxThreads. b \<in> set (flush_blocks e i)"
    "l_header (nr_blocks e) (cur (lnv e))" "tags_ok (nr_blocks e) (cur (lnv e))"
    "x < nr_blocks e * kBlockSize \<Longrightarrow> content (cur (lnv e)) x = snap x"
  using assms by (simp_all add: linv_def lrd_def [abs_def] l_stands_def)

lemma lrd_simps [simp]:
  "lrd (e\<lparr>lnv := m\<rparr>) = cur m" "lrd (e\<lparr>flush_blocks := F\<rparr>) = lrd e" "lrd (e\<lparr>mode := md\<rparr>) = lrd e"
  "lrd (l_nv f e) = cur (f (lnv e))" "lrd (e\<lparr>has_snapshot := s\<rparr>) = lrd e"
  by (simp_all add: lrd_def [abs_def] fun_eq_iff)

text \<open>A program's store to an announced block.\<close>

definition l_store_byte :: "nat \<Rightarrow> nat \<Rightarrow> lmc \<Rightarrow> lmc" where
  "l_store_byte x v e = l_nv (nv_store [Work x \<mapsto> v]) e"

lemma l_same_values:
  assumes i: "linv e H snap" and k: "keeps (l_fixed (nr_blocks e) (lrd e)) (lnv e) m" and v: "visible m"
    and t: "\<And>j. cur m (LTag j) = lrd e (LTag j)"
  shows "linv (e\<lparr>lnv := m\<rparr>) H snap" and "crash_safe (l_stands (nr_blocks e) snap) (lnv e) \<Longrightarrow> crash_safe (l_stands (nr_blocks e) snap) m"
proof -
  note d = linvD [OF i]
  have c: "quiet m l \<and> cur m l = lrd e l" if "l_fixed (nr_blocks e) (lrd e) l" for l
    using keepsD [OF k that] by (simp add: lrd_def)
  have ep: "cur m LEpoch = lrd e LEpoch" using c [of LEpoch] by (simp add: l_fixed_def)
  have fx: "l_fixed (nr_blocks e) (cur m) l \<longleftrightarrow> l_fixed (nr_blocks e) (lrd e) l" for l
    using t ep by (cases l) (simp_all add: l_fixed_def)
  have st: "l_stands (nr_blocks e) snap (lrd e)" using d(1) by (simp add: lrd_def [abs_def])
  have "l_stands (nr_blocks e) snap (cur m)"
    by (rule l_stands_cong [OF st]) (simp_all add: c ep l_fixed_def)
  then show "linv (e\<lparr>lnv := m\<rparr>) H snap"
    using i c v t ep fx by (simp add: linv_def l_none_full_def)
  show "crash_safe (l_stands (nr_blocks e) snap) (lnv e) \<Longrightarrow> crash_safe (l_stands (nr_blocks e) snap) m"
    using l_keeps_safe [OF d(1)] k by (simp add: lrd_def [abs_def])
qed

lemma l_store_byte_ok:
  assumes i: "linv e H snap" and x: "x div kBlockSize \<in> H"
  shows "linv (l_store_byte x v e) H snap"
    and "crash_safe (l_stands (nr_blocks e) snap) (lnv e) \<Longrightarrow> crash_safe (l_stands (nr_blocks e) snap) (lnv (l_store_byte x v e))"
proof -
  have "keeps (l_fixed (nr_blocks e) (lrd e)) (lnv e) (nv_store [Work x \<mapsto> v] (lnv e))"
  proof (rule keeps_store)
    fix l assume l: "l_fixed (nr_blocks e) (lrd e) l"
    then have "l \<noteq> Work x" using linvD(4) [OF i, of "x div kBlockSize"] x by (auto simp: l_fixed_def)
    then show "quiet (lnv e) l \<and> [Work x \<mapsto> v] l = None" using linvD(3) [OF i] l by (simp add: lrd_def [abs_def])
  qed
  from l_same_values [OF i this] linvD(2) [OF i]
  show "linv (l_store_byte x v e) H snap"
    "crash_safe (l_stands (nr_blocks e) snap) (lnv e) \<Longrightarrow> crash_safe (l_stands (nr_blocks e) snap) (lnv (l_store_byte x v e))"
    by (simp_all add: l_store_byte_def l_nv_def lrd_def)
qed

subsection \<open>Hooks\<close>

fun shadow_of :: "(lloc \<Rightarrow> nat) \<Rightarrow> nat \<Rightarrow> lloc \<rightharpoonup> nat" where
  "shadow_of v b (Shadow x) = (if x div kBlockSize = b then Some (v (Work x)) else None)"
| "shadow_of v b _ = None"

lemma save_block_eq:
  "save_block b m = nv_fence (nv_flush (tag_line b) (nv_store [LTag b \<mapsto> cur m LEpoch] (nv_fence (nv_nt (shadow_of (cur m) b) m))))"
proof -
  have "(case shadow_at (b * kBlockSize) l of Some i \<Rightarrow> if i < kBlockSize then Some (cur m (Work (b * kBlockSize + i))) else None
        | None \<Rightarrow> None) = shadow_of (cur m) b l" for l
  proof (cases l)
    case (Shadow x)
    then show ?thesis using block_offset_conv [of b x] by auto
  qed simp_all
  then show ?thesis by (simp add: save_block_def NonTemporalCopy_def Let_def)
qed

lemma save_block_ok:
  assumes i: "linv e H snap" and b: "b < nr_blocks e" "lrd e (LTag b) \<noteq> lrd e LEpoch"
  defines "m \<equiv> save_block b (lnv e)"
  shows "l_stands (nr_blocks e) snap (cur m)" and "visible m" and "l_fixed (nr_blocks e) (cur m) l \<Longrightarrow> quiet m l"
    and "cur m (LTag j) = (if j = b then lrd e LEpoch else lrd e (LTag j))" and "cur m LEpoch = lrd e LEpoch"
    and "cur m (Work x) = lrd e (Work x)"
    and "crash_safe (l_stands (nr_blocks e) snap) (lnv e) \<Longrightarrow> crash_safe (l_stands (nr_blocks e) snap) m"
proof -
  note d = linvD [OF i]
  let ?v = "cur (lnv e)"
  define m1 where "m1 = nv_fence (nv_nt (shadow_of ?v b) (lnv e))"
  have ev: "evolves (\<lambda>l. False \<or> False) (shadow_of ?v b ++ Map.empty) (lnv e) m1"
    unfolding m1_def by (rule evolves_trans [OF evolves_nt evolves_fence])
  have none: "shadow_of ?v b l = None" if "l_fixed (nr_blocks e) ?v l" for l
    using that b(2) by (cases l) (auto simp: l_fixed_def lrd_def)
  have k1: "keeps (l_fixed (nr_blocks e) ?v) (lnv e) m1"
    by (rule evolves_keeps [OF ev]) (simp add: d(3) none)
  have c1: "cur m1 l = (case shadow_of ?v b l of Some v \<Rightarrow> v | None \<Rightarrow> ?v l)" for l by (simp add: m1_def)
  have qs: "quiet m1 (Shadow x)" if "x div kBlockSize = b" for x using that by (simp add: m1_def)
  have meq: "m = nv_fence (nv_flush (tag_line b) (nv_store [LTag b \<mapsto> ?v LEpoch] m1))"
    by (simp add: m_def save_block_eq m1_def)
  let ?A = "\<lambda>l. (l_fixed (nr_blocks e) ?v l \<and> l \<noteq> LTag b) \<or> (\<exists>x. l = Shadow x \<and> x div kBlockSize = b)"
  have qA: "quiet m1 l \<and> l \<noteq> LTag b" if "?A l" for l
    using that keepsD [OF k1, of l] qs by auto
  have new: "l_stands (nr_blocks e) snap pm"
    if a: "\<And>l. ?A l \<Longrightarrow> pm l = cur m1 l" "pm (LTag b) = ?v LEpoch" for pm
  proof -
    have t: "pm (LTag j) = (if j = b then ?v LEpoch else ?v (LTag j))" if "j < nr_blocks e" for j
      using a that by (simp add: l_fixed_def c1)
    have ep: "pm LEpoch = ?v LEpoch" using a(1) [of LEpoch] by (simp add: l_fixed_def c1)
    have "l_header (nr_blocks e) pm"
      using d(7) a(1) [of LMagic] a(1) [of LNrBlocks] a(1) [of LWorkOff] a(1) [of LShadowOff]
      by (simp add: l_header_def l_fixed_def c1)
    moreover have "tags_ok (nr_blocks e) pm" using d(8) t ep by (simp add: tags_ok_def)
    moreover have "content pm x = snap x" if x: "x < nr_blocks e * kBlockSize" for x
    proof (cases "x div kBlockSize = b")
      case True
      then show ?thesis
        using d(9) [OF x] a t [OF block_in_range [OF x]] ep b(2) by (simp add: content_def c1 lrd_def)
    next
      case False
      have "content pm x = content ?v x"
        using False a(1) [of "Shadow x"] a(1) [of "Work x"] t [OF block_in_range [OF x]] ep x
        by (auto simp: content_def l_fixed_def c1)
      then show ?thesis using d(9) [OF x] by simp
    qed
    ultimately show ?thesis by (simp add: l_stands_def)
  qed
  have cm: "cur m l = (if l = LTag b then ?v LEpoch else cur m1 l)" for l by (simp add: meq)
  show "l_stands (nr_blocks e) snap (cur m)" by (rule new) (auto simp: cm)
  show "visible m" using d(2) by (simp add: meq m1_def)
  show tg: "cur m (LTag j) = (if j = b then lrd e LEpoch else lrd e (LTag j))" "cur m LEpoch = lrd e LEpoch"
    "cur m (Work x) = lrd e (Work x)" for j x
    by (simp_all add: cm c1 lrd_def)
  show "quiet m l" if l: "l_fixed (nr_blocks e) (cur m) l"
  proof (cases "l = LTag b")
    case False
    have "?A l" using l False tg b(2) by (cases l) (auto simp: l_fixed_def lrd_def split: if_splits)
    then show ?thesis using qA False by (simp add: meq quiet_settled)
  qed (simp add: meq)
  assume s: "crash_safe (l_stands (nr_blocks e) snap) (lnv e)"
  show "crash_safe (l_stands (nr_blocks e) snap) m"
    unfolding meq
  proof (rule crash_safe_switch(2) [where A = ?A])
    show "crash_safe (l_stands (nr_blocks e) snap) m1" by (rule l_keeps_safe [OF d(1) k1 s])
    show "quiet m1 (LTag b)" using keepsD [OF k1, of "LTag b"] b(1) by (simp add: l_fixed_def)
    fix pm assume a: "\<And>l. ?A l \<Longrightarrow> pm l = cur m1 l" "pm (LTag b) = cur m1 (LTag b) \<or> pm (LTag b) = ?v LEpoch"
    from a(2) show "l_stands (nr_blocks e) snap pm"
    proof
      assume "pm (LTag b) = cur m1 (LTag b)"
      then have "pm l = ?v l" if "l_fixed (nr_blocks e) ?v l" for l
        using a(1) [of l] that keepsD [OF k1 that] by (cases "l = LTag b") auto
      then show ?thesis by (intro l_stands_cong [OF d(1)]) (simp_all add: l_fixed_def)
    next
      assume "pm (LTag b) = ?v LEpoch"
      then show ?thesis by (intro new a(1))
    qed
  qed (use qA in auto)
qed

definition block_of :: "lmc \<Rightarrow> nat \<Rightarrow> nat" where
  "block_of e addr = (addr - address_first e) div kBlockSize"

definition blocks_of :: "lmc \<Rightarrow> nat \<Rightarrow> nat \<Rightarrow> nat list" where
  "blocks_of e addr len = range_blocks (addr - address_first e) len"

text \<open>What a hook guarantees when it announces the blocks \<open>B\<close>.\<close>

definition announced :: "lmc \<Rightarrow> nat set \<Rightarrow> (nat \<Rightarrow> nat) \<Rightarrow> lmc \<Rightarrow> nat set \<Rightarrow> bool" where
  "announced e H snap e' B \<longleftrightarrow> linv e' (H \<union> B) snap \<and>
     (crash_safe (l_stands (nr_blocks e) snap) (lnv e) \<longrightarrow> crash_safe (l_stands (nr_blocks e) snap) (lnv e')) \<and>
     nr_blocks e' = nr_blocks e \<and> address_first e' = address_first e \<and> lrd e' LEpoch = lrd e LEpoch \<and>
     (\<forall>x. lrd e' (Work x) = lrd e (Work x))"

lemma announced_refl: "linv e H snap \<Longrightarrow> announced e H snap e {}"
  by (simp add: announced_def)

lemma append_bucket_simps [simp]:
  "lnv (append_bucket tid b e) = lnv e" "nr_blocks (append_bucket tid b e) = nr_blocks e"
  "address_first (append_bucket tid b e) = address_first e" "lrd (append_bucket tid b e) = lrd e"
  by (simp_all add: append_bucket_def)

lemma append_bucket_cover:
  assumes "\<forall>c \<in> H. l_none_full e \<longrightarrow> (\<exists>i < kMaxThreads. c \<in> set (flush_blocks e i))"
    and "tid < kMaxThreads" and "l_none_full (append_bucket tid b e)" and "c \<in> insert b H"
  shows "\<exists>i < kMaxThreads. c \<in> set (flush_blocks (append_bucket tid b e) i)"
proof -
  have ne: "length (flush_blocks e tid) \<noteq> kMaxFlushBlocks"
    using assms(2,3) by (auto simp: append_bucket_def l_none_full_def split: if_splits)
  show ?thesis
  proof (cases "l_none_full e")
    case True
    show ?thesis
    proof (cases "c = b")
      case True
      with assms(2) ne show ?thesis by (intro exI [of _ tid]) (simp add: append_bucket_def)
    next
      case False
      then obtain i where "i < kMaxThreads" "c \<in> set (flush_blocks e i)" using assms(1,4) \<open>l_none_full e\<close> by auto
      then show ?thesis by (intro exI [of _ i]) (auto simp: append_bucket_def)
    qed
  next
    case False
    then obtain i where i: "i < kMaxThreads" "length (flush_blocks e i) = kMaxFlushBlocks" by (auto simp: l_none_full_def)
    then have "i \<noteq> tid" using ne by blast
    then have "flush_blocks (append_bucket tid b e) i = flush_blocks e i" by (simp add: append_bucket_def)
    then show ?thesis using assms(3) i by (auto simp: l_none_full_def)
  qed
qed

lemma l_hook_routine_ok:
  assumes i: "linv e H snap" and tid: "tid < kMaxThreads" and b: "block_of e addr < nr_blocks e"
  shows "announced e H snap (hook_routine tid addr e) {block_of e addr}"
proof (cases "lrd e (LTag (block_of e addr)) = lrd e LEpoch")
  case True
  then have "block_of e addr \<in> H" using linvD(4) [OF i] b by simp
  then have "insert (block_of e addr) H = H" by blast
  with True i show ?thesis by (simp add: announced_def hook_routine_def block_of_def Let_def)
next
  case False
  define m where "m = save_block (block_of e addr) (lnv e)"
  note s = save_block_ok [OF i b False, folded m_def]
  have e': "hook_routine tid addr e = append_bucket tid (block_of e addr) (e\<lparr>lnv := m\<rparr>)"
    using False by (simp add: hook_routine_def block_of_def Let_def l_nv_def m_def)
  have h: "\<forall>c. c \<in> insert (block_of e addr) H \<longleftrightarrow> c < nr_blocks e \<and> cur m (LTag c) = cur m LEpoch"
    using linvD(4) [OF i] s(4,5) b by auto
  have cov: "\<forall>c \<in> H. l_none_full (e\<lparr>lnv := m\<rparr>) \<longrightarrow> (\<exists>i < kMaxThreads. c \<in> set (flush_blocks (e\<lparr>lnv := m\<rparr>) i))"
    using linvD(6) [OF i] by (simp add: l_none_full_def)
  let ?e = "append_bucket tid (block_of e addr) (e\<lparr>lnv := m\<rparr>)"
  have cov': "l_none_full ?e \<longrightarrow> (\<forall>c \<in> insert (block_of e addr) H. \<exists>i < kMaxThreads. c \<in> set (flush_blocks ?e i))"
    using append_bucket_cover [OF cov tid] by blast
  have st: "l_stands (nr_blocks ?e) snap (lrd ?e)" "visible (lnv ?e)" "kBlockSize dvd address_first ?e"
    using s(1,2) linvD(5) [OF i] by simp_all
  have q: "\<forall>l. l_fixed (nr_blocks ?e) (lrd ?e) l \<longrightarrow> quiet (lnv ?e) l" using s(3) by simp
  have h': "\<forall>c. c \<in> insert (block_of e addr) H \<longleftrightarrow> c < nr_blocks ?e \<and> lrd ?e (LTag c) = lrd ?e LEpoch"
    using h by simp
  have "linv ?e (insert (block_of e addr) H) snap"
    unfolding linv_def by (intro conjI st q h' cov')
  then show ?thesis using s(5,6,7) by (simp add: announced_def e')
qed

lemma announced_trans:
  assumes "announced e H snap e1 B" and "announced e1 (H \<union> B) snap e2 C"
  shows "announced e H snap e2 (B \<union> C)"
  using assms by (simp add: announced_def Un_assoc)

lemma l_hook_blocks_ok:
  assumes "linv e H snap" and "tid < kMaxThreads" and "\<forall>b \<in> set bs. b < nr_blocks e"
  shows "announced e H snap (fold (\<lambda>b e. hook_routine tid (address_first e + b * kBlockSize) e) bs e) (set bs)"
  using assms(1,3)
proof (induction bs arbitrary: e H)
  case Nil
  then show ?case by (simp add: announced_refl)
next
  case (Cons b bs)
  let ?e1 = "hook_routine tid (address_first e + b * kBlockSize) e"
  have bo: "block_of e (address_first e + b * kBlockSize) = b" by (simp add: block_of_def geometry)
  have a1: "announced e H snap ?e1 {b}" using l_hook_routine_ok [OF Cons.prems(1) assms(2), of "address_first e + b * kBlockSize"] bo Cons.prems(2) by simp
  then have "linv ?e1 (H \<union> {b}) snap" "\<forall>c \<in> set bs. c < nr_blocks ?e1" using Cons.prems(2) by (simp_all add: announced_def)
  from announced_trans [OF a1 Cons.IH [OF this]] show ?case by simp
qed

lemma l_hook_rt_store_ok:
  assumes i: "linv e H snap" and tid: "tid < kMaxThreads"
  shows "announced e H snap (hook_rt_store tid addr e) (if in_range e addr then {block_of e addr} else {})"
proof (cases "in_range e addr")
  case True
  then have "block_of e addr < nr_blocks e"
    by (auto simp: in_range_def block_of_def get_capacity_def div_lt_mult_iff geometry)
  from l_hook_routine_ok [OF i tid this] True show ?thesis by (simp add: hook_rt_store_def)
qed (simp add: hook_rt_store_def announced_refl i)

lemma l_hook_rt_range_store_ok:
  assumes i: "linv e H snap" and tid: "tid < kMaxThreads" and len: "0 < len"
    and lo: "address_first e \<le> addr" and hi: "addr + len \<le> address_first e + get_capacity e"
  shows "announced e H snap (hook_rt_range_store tid addr len e) (set (blocks_of e addr len))"
proof -
  have al: "addr mod kBlockSize = (addr - address_first e) mod kBlockSize"
    by (rule aligned_mod [OF linvD(5) [OF i] lo])
  have ir: "in_range e addr" using lo hi len by (simp add: in_range_def)
  show ?thesis
  proof (cases "addr mod kBlockSize + len \<le> kBlockSize")
    case True
    then have "range_blocks (addr - address_first e) len = [block_of e addr]"
      unfolding range_blocks_def block_of_def by (subst block_span_single) (simp_all add: len al)
    then show ?thesis using l_hook_rt_store_ok [OF i tid, of addr] ir True
      by (simp add: hook_rt_range_store_def blocks_of_def)
  next
    case False
    have "\<forall>b \<in> set (blocks_of e addr len). b < nr_blocks e"
      unfolding blocks_of_def range_blocks_def
      by (rule block_span_blocks) (use hi lo in \<open>simp add: get_capacity_def\<close>)
    from l_hook_blocks_ok [OF i tid this] show ?thesis
      using False ir by (simp add: hook_rt_range_store_def hook_routine_range_def blocks_of_def)
  qed
qed

subsection \<open>Checkpoint\<close>

definition l_flushed :: "nat \<Rightarrow> lmc \<Rightarrow> nat \<Rightarrow> lloc \<Rightarrow> bool" where
  "l_flushed n e tid l \<longleftrightarrow> (if mode e = FMODE_WBINVD then tid = 0
     else \<exists>i \<in> set (share n tid kMaxThreads). \<exists>b \<in> set (flush_blocks e i). in_work_block b l)"

lemma l_flush_parallel_eq:
  "flush_parallel n tid e = e\<lparr>lnv := nv_fence (nv_flush (l_flushed n e tid) (lnv e))\<rparr>"
proof (cases "mode e = FMODE_WBINVD")
  case True
  then have "l_flushed n e tid = (\<lambda>l. tid = 0)" by (simp add: l_flushed_def fun_eq_iff)
  with True show ?thesis by (simp add: flush_parallel_def l_nv_def)
next
  case False
  have "l_flushed n e tid = (\<lambda>l. \<exists>i \<in> set (share n tid kMaxThreads). \<exists>b \<in> set (flush_blocks e i). in_work_block b l)"
    using False by (simp add: l_flushed_def fun_eq_iff)
  with False show ?thesis by (simp add: flush_parallel_def l_nv_def nv_flush_fold')
qed

lemma l_flush_parallels:
  "fold (flush_parallel n) tids e = e\<lparr>lnv := fold (\<lambda>tid m. nv_fence (nv_flush (l_flushed n e tid) m)) tids (lnv e)\<rparr>"
proof (induction tids arbitrary: e)
  case (Cons tid tids)
  have "l_flushed n (e\<lparr>lnv := m\<rparr>) = l_flushed n e" for m by (simp add: l_flushed_def fun_eq_iff)
  with Cons.IH show ?case by (simp add: l_flush_parallel_eq [of n tid e])
qed simp

lemma l_flushed_any:
  assumes "0 < n"
  shows "(\<exists>tid \<in> set [0..<n]. l_flushed n e tid l) \<longleftrightarrow>
    mode e = FMODE_WBINVD \<or> (\<exists>i < kMaxThreads. \<exists>b \<in> set (flush_blocks e i). in_work_block b l)"
proof -
  have "(\<exists>tid \<in> {..<n}. \<exists>i \<in> set (share n tid kMaxThreads). P i) \<longleftrightarrow> (\<exists>i < kMaxThreads. P i)" for P
    using assms by (auto simp: share_def)
  then show ?thesis
    using assms by (cases "mode e = FMODE_WBINVD") (auto simp: l_flushed_def atLeast0LessThan)
qed

lemma l_flush_phase:
  assumes "0 < n"
  obtains m where "fold (flush_parallel n) [0..<n] e = e\<lparr>lnv := m\<rparr>"
    "evolves (\<lambda>l. mode e = FMODE_WBINVD \<or> (\<exists>i < kMaxThreads. \<exists>b \<in> set (flush_blocks e i). in_work_block b l))
       Map.empty (lnv e) m" "\<forall>l. settled m l \<longrightarrow> quiet m l"
proof -
  have ne: "[0..<n] \<noteq> []" using assms by simp
  note f = flush_threads [of "[0..<n]" "l_flushed n e" "lnv e"]
  show ?thesis
    by (rule that [OF l_flush_parallels f [THEN conjunct1, unfolded l_flushed_any [OF assms]] mp [OF f [THEN conjunct2] ne]])
qed

definition l_new_snap :: "lmc \<Rightarrow> nat \<Rightarrow> nat" where "l_new_snap e x = lrd e (Work x)"

lemma l_no_action:
  assumes "linv e H snap" and "decide_mode e = FMODE_NO_ACTION"
  shows "H = {}"
proof -
  have fb: "flush_blocks e i = []" if "i < kMaxThreads" for i
    using assms(2) that by (auto simp: decide_mode_def split: if_splits)
  then have "l_none_full e" by (simp add: l_none_full_def geometry)
  then show ?thesis using linvD(6) [OF assms(1)] fb by fastforce
qed

lemma l_clean:
  assumes "linv e H snap" and "x < get_capacity e" and "x div kBlockSize \<notin> H"
  shows "lrd e (Work x) = snap x" and "quiet (lnv e) (Work x)"
proof -
  have x: "x < nr_blocks e * kBlockSize" using assms(2) by (simp add: get_capacity_def)
  have t: "cur (lnv e) (LTag (x div kBlockSize)) \<noteq> cur (lnv e) LEpoch"
    using linvD(4) [OF assms(1), of "x div kBlockSize"] block_in_range [OF x] assms(3) by (simp add: lrd_def)
  show "lrd e (Work x) = snap x" using linvD(9) [OF assms(1) x] t by (simp add: content_def lrd_def)
  show "quiet (lnv e) (Work x)" using linvD(3) [OF assms(1), of "Work x"] t x by (simp add: l_fixed_def)
qed

lemma linv_snap_cong:
  "linv e H snap \<Longrightarrow> (\<And>x. x < get_capacity e \<Longrightarrow> snap x = snap' x) \<Longrightarrow> linv e H snap'"
  by (simp add: linv_def l_stands_def get_capacity_def)

text \<open>The state before the epoch advances: the working copy is durable and the old image stands.\<close>

lemma l_before_advance:
  assumes i: "linv e H snap" and n: "0 < n" and md: "decide_mode e \<noteq> FMODE_NO_ACTION"
  obtains m where "checkpoint n e = e\<lparr>mode := decide_mode e, lnv := advance_current_epoch (nr_blocks e) m, has_snapshot := True,
      flush_blocks := (\<lambda>i. if i < kMaxThreads then [] else flush_blocks e i)\<rparr>"
    "work_ok (nr_blocks e) m" "\<forall>l. l \<noteq> LAttr \<longrightarrow> cur m l = lrd e l" "keeps (l_fixed (nr_blocks e) (lrd e)) (lnv e) m"
proof -
  note d = linvD [OF i]
  define e1 where "e1 = e\<lparr>mode := decide_mode e\<rparr>"
  obtain m where m: "fold (flush_parallel n) [0..<n] e1 = e1\<lparr>lnv := m\<rparr>"
    "evolves (\<lambda>l. mode e1 = FMODE_WBINVD \<or> (\<exists>i < kMaxThreads. \<exists>b \<in> set (flush_blocks e1 i). in_work_block b l))
       Map.empty (lnv e1) m" "\<forall>l. settled m l \<longrightarrow> quiet m l"
    by (rule l_flush_phase [OF n]) blast
  define V where "V = (if has_snapshot e then Map.empty else [LAttr \<mapsto> kAttributeHasSnapshot])"
  define m4 where "m4 = (if has_snapshot e then m else nv_fence (nv_nt V m))"
  have ns: "note_snapshot (e1\<lparr>lnv := m\<rparr>) = e1\<lparr>lnv := m4, has_snapshot := True\<rparr>"
    by (simp add: note_snapshot_def m4_def V_def e1_def l_nv_def)
  have V: "V l = None" if "l \<noteq> LAttr" for l using that by (simp add: V_def)
  have ev4: "evolves (\<lambda>_. False \<or> False) (V ++ Map.empty) m m4"
  proof (cases "has_snapshot e")
    case True
    then show ?thesis using evolves_refl by (simp add: m4_def V_def)
  next
    case False
    then show ?thesis using evolves_trans [OF evolves_nt evolves_fence, of V m] by (simp add: m4_def)
  qed
  have c: "cur m4 l = lrd e l" if "l \<noteq> LAttr" for l
    using evolves_simps(1) [OF ev4, of l] evolves_simps(1) [OF m(2), of l] V [OF that] by (simp add: e1_def lrd_def)
  have k1: "keeps (l_fixed (nr_blocks e) (lrd e)) (lnv e) m"
    using evolves_keeps [OF m(2), of "l_fixed (nr_blocks e) (lrd e)"] d(3) by (simp add: e1_def lrd_def [abs_def])
  have "V l = None" if "l_fixed (nr_blocks e) (lrd e) l" for l
    using that by (intro V) (auto simp: l_fixed_def)
  then have "keeps (l_fixed (nr_blocks e) (lrd e)) m m4"
    by (intro evolves_keeps [OF ev4]) (simp add: keepsD [OF k1])
  with k1 have k4: "keeps (l_fixed (nr_blocks e) (lrd e)) (lnv e) m4" by (rule keeps_trans)
  have "quiet m (Work x)" if x: "x < nr_blocks e * kBlockSize" for x
  proof -
    have "settled m (Work x)"
    proof (cases "x div kBlockSize \<in> H")
      case True
      show ?thesis
      proof (rule evolves_simps(4) [OF m(2)], rule disjCI)
        assume no: "\<not> (\<exists>i < kMaxThreads. \<exists>b \<in> set (flush_blocks e1 i). in_work_block b (Work x))"
        have "\<not> l_none_full e" using d(6) [OF _ True] no by (auto simp: e1_def)
        then show "mode e1 = FMODE_WBINVD" using md by (auto simp: e1_def decide_mode_def l_none_full_def split: if_splits)
      qed
    next
      case False
      then show ?thesis
        using evolves_simps(3) [OF m(2)] l_clean(2) [OF i _ False] x by (simp add: e1_def get_capacity_def quiet_settled)
    qed
    then show ?thesis using m(3) by simp
  qed
  then have qw: "quiet m4 (Work x)" if "x < nr_blocks e * kBlockSize" for x
    using evolves_simps(6) [OF ev4, of "Work x"] that V [of "Work x"] by simp
  have vis: "visible m4" using evolves_visible [OF ev4 evolves_visible [OF m(2)]] d(2) by (simp add: e1_def)
  have qf: "quiet m4 l" if "l_fixed (nr_blocks e) (lrd e) l" for l using keepsD [OF k4 that] by simp
  have "work_ok (nr_blocks e) m4"
    unfolding work_ok_def
  proof (intro conjI allI impI vis)
    show "l_header (nr_blocks e) (cur m4)" "tags_ok (nr_blocks e) (cur m4)"
      using d(7,8) by (simp_all add: l_header_def tags_ok_def c lrd_def)
    fix x assume x: "x < nr_blocks e * kBlockSize"
    show "quiet m4 (Work x)" by (rule qw [OF x])
    assume "cur m4 (LTag (x div kBlockSize)) = cur m4 LEpoch"
    then show "quiet m4 (Shadow x)" using x by (intro qf) (simp add: l_fixed_def c)
  qed (simp_all add: qf l_fixed_def)
  moreover have "checkpoint n e = e\<lparr>mode := decide_mode e, lnv := advance_current_epoch (nr_blocks e) m4, has_snapshot := True,
      flush_blocks := (\<lambda>i. if i < kMaxThreads then [] else flush_blocks e i)\<rparr>"
    using md by (simp add: checkpoint_def Let_def e1_def [symmetric] m(1) ns) (simp add: e1_def l_nv_def fun_eq_iff)
  ultimately show ?thesis using that c k4 by blast
qed

lemma l_checkpoint_ok:
  assumes i: "linv e H snap" and n: "0 < n"
  defines "e' \<equiv> checkpoint n e"
  shows "linv e' {} (l_new_snap e)" and "nr_blocks e' = nr_blocks e" and "address_first e' = address_first e"
    and "lrd e' (Work x) = lrd e (Work x)"
    and "lrd e LEpoch \<noteq> kEpochMax \<Longrightarrow> crash_safe (l_stands (nr_blocks e) snap) (lnv e) \<Longrightarrow>
      crash_safe (\<lambda>pm. l_stands (nr_blocks e) snap pm \<or> l_stands (nr_blocks e) (l_new_snap e) pm) (lnv e')"
    and "decide_mode e \<noteq> FMODE_NO_ACTION \<Longrightarrow> lrd e' LEpoch = (if lrd e LEpoch = kEpochMax then 1 else lrd e LEpoch + 1)"
proof -
  let ?P = "\<lambda>pm. l_stands (nr_blocks e) snap pm \<or> l_stands (nr_blocks e) (l_new_snap e) pm"
  have "linv e' {} (l_new_snap e) \<and> nr_blocks e' = nr_blocks e \<and> address_first e' = address_first e \<and>
    (\<forall>x. lrd e' (Work x) = lrd e (Work x)) \<and>
    (lrd e LEpoch \<noteq> kEpochMax \<longrightarrow> crash_safe (l_stands (nr_blocks e) snap) (lnv e) \<longrightarrow> crash_safe ?P (lnv e')) \<and>
    (decide_mode e \<noteq> FMODE_NO_ACTION \<longrightarrow> lrd e' LEpoch = (if lrd e LEpoch = kEpochMax then 1 else lrd e LEpoch + 1))"
  proof (cases "decide_mode e = FMODE_NO_ACTION")
    case True
    then have e': "e' = e\<lparr>mode := FMODE_NO_ACTION\<rparr>" by (simp add: e'_def checkpoint_def)
    have H: "H = {}" by (rule l_no_action [OF i True])
    have "linv e {} (l_new_snap e)"
      by (rule linv_snap_cong [OF i [unfolded H]]) (simp add: l_clean(1) [OF i, symmetric] H l_new_snap_def)
    then have "linv e' {} (l_new_snap e)" by (simp add: e' linv_def l_none_full_def)
    then show ?thesis using True by (auto simp: e' crash_safe_def)
  next
    case False
    obtain m where m: "checkpoint n e = e\<lparr>mode := decide_mode e, lnv := advance_current_epoch (nr_blocks e) m, has_snapshot := True,
        flush_blocks := (\<lambda>i. if i < kMaxThreads then [] else flush_blocks e i)\<rparr>"
      "work_ok (nr_blocks e) m" "\<forall>l. l \<noteq> LAttr \<longrightarrow> cur m l = lrd e l" "keeps (l_fixed (nr_blocks e) (lrd e)) (lnv e) m"
      by (rule l_before_advance [OF i n False]) blast
    note a = advance_final [OF m(2)]
    have lm: "lnv e' = advance_current_epoch (nr_blocks e) m" "nr_blocks e' = nr_blocks e" "address_first e' = address_first e"
      "flush_blocks e' = (\<lambda>i. if i < kMaxThreads then [] else flush_blocks e i)"
      by (simp_all add: e'_def m(1))
    have rd: "lrd e' = cur (advance_current_epoch (nr_blocks e) m)" by (simp add: lrd_def [abs_def] lm)
    have w: "lrd e' (Work x) = lrd e (Work x)" for x using a(5) m(3) by (simp add: rd)
    have "content (lrd e') x = l_new_snap e x" if "x < nr_blocks e * kBlockSize" for x
      using a(4) [OF block_in_range [OF that]] w by (simp add: content_def rd l_new_snap_def)
    then have "l_stands (nr_blocks e) (l_new_snap e) (lrd e')" using a(1,2) by (simp add: l_stands_def rd)
    moreover have "\<forall>b. b \<in> {} \<longleftrightarrow> b < nr_blocks e \<and> lrd e' (LTag b) = lrd e' LEpoch" using a(4) by (auto simp: rd)
    ultimately have "linv e' {} (l_new_snap e)"
      using a(3,6) linvD(5) [OF i] by (simp add: linv_def lm rd)
    moreover have "crash_safe ?P (lnv e')"
      if ep: "lrd e LEpoch \<noteq> kEpochMax" and s: "crash_safe (l_stands (nr_blocks e) snap) (lnv e)"
      unfolding lm(1)
    proof (rule advance_small [OF m(2)])
      show "cur m LEpoch < kEpochMax" using ep m(2,3) by (auto simp: work_ok_def tags_ok_def)
      have "crash_safe (l_stands (nr_blocks e) snap) m"
        by (rule l_keeps_safe [OF linvD(1) [OF i] _ s]) (use m(4) in \<open>simp add: lrd_def [abs_def]\<close>)
      then show "crash_safe ?P m" by (auto simp: crash_safe_def)
      have "content (cur m) x = snap x" if "x < nr_blocks e * kBlockSize" for x
        using linvD(9) [OF i that] m(3) by (simp add: content_def lrd_def split: if_splits)
      then show "?P pm" if "l_stands (nr_blocks e) (content (cur m)) pm" for pm
        using that by (simp add: l_stands_def)
      show "?P pm" if "l_stands (nr_blocks e) (\<lambda>x. cur m (Work x)) pm" for pm
        using that m(3) by (simp add: l_stands_def l_new_snap_def)
    qed
    moreover have "lrd e' LEpoch = (if lrd e LEpoch = kEpochMax then 1 else lrd e LEpoch + 1)"
      using m(3) by (simp add: rd advance_current_epoch_def)
    ultimately show ?thesis using w lm(2,3) by blast
  qed
  then show "linv e' {} (l_new_snap e)" and "nr_blocks e' = nr_blocks e" and "address_first e' = address_first e"
    and "lrd e' (Work x) = lrd e (Work x)"
    and "lrd e LEpoch \<noteq> kEpochMax \<Longrightarrow> crash_safe (l_stands (nr_blocks e) snap) (lnv e) \<Longrightarrow> crash_safe ?P (lnv e')"
    and "decide_mode e \<noteq> FMODE_NO_ACTION \<Longrightarrow> lrd e' LEpoch = (if lrd e LEpoch = kEpochMax then 1 else lrd e LEpoch + 1)"
    by blast+
qed

end
