(* ===== verification/Lmc_Life.thy ===== *)
theory Lmc_Life
  imports Lmc_Run
begin

text \<open>
  The life of the shadow-copy engine under repeated crashes and restarts, and the theorems about
  it, obtained from the engine contract.
\<close>

subsection \<open>Opening\<close>

lemma l_format:
  "cur (format blocks (nv_init pm)) LMagic = kHeapHeaderMagic" "cur (format blocks (nv_init pm)) LEpoch = 1"
  "cur (format blocks (nv_init pm)) LNrBlocks = blocks" "cur (format blocks (nv_init pm)) LWorkOff = work_offset blocks"
  "cur (format blocks (nv_init pm)) LShadowOff = work_offset blocks + blocks * kBlockSize"
  "i < blocks \<Longrightarrow> cur (format blocks (nv_init pm)) (LTag i) = 0"
  "cur (format blocks (nv_init pm)) (Work x) = pm (Work x)" "visible (format blocks (nv_init pm))"
  by (simp_all add: format_def Let_def)

lemma l_format_quiet: "quiet (format blocks (nv_init pm)) l"
proof (cases "is_lheader blocks l")
  case False
  then show ?thesis unfolding format_def Let_def quiet_fence settled_flush
    by (cases l) (simp_all add: quiet_settled)
qed (simp add: format_def Let_def)

lemma kBlockSize_dvd_work_offset: "kBlockSize dvd work_offset blocks"
proof -
  have "kHugePageSize dvd n - n mod kHugePageSize + kHugePageSize" for n
    by (intro dvd_add dvd_minus_mod) simp
  moreover have "kBlockSize dvd kHugePageSize" "kBlockSize dvd 2 ^ 64" by (simp_all add: geometry)
  ultimately have "kBlockSize dvd (n - n mod kHugePageSize + kHugePageSize) mod 2 ^ 64" for n
    by (meson dvd_mod dvd_trans)
  moreover have "n mod kHugePageSize = 0 \<Longrightarrow> kBlockSize dvd n" for n
    using \<open>kBlockSize dvd kHugePageSize\<close> by (meson dvd_trans mod_0_imp_dvd)
  ultimately show ?thesis by (simp add: work_offset_def RoundUp_def Let_def)
qed

lemma l_started:
  assumes "l_header blocks (cur m)" and "tags_ok blocks (cur m)" and "visible m" and "kBlockSize dvd base"
    and "\<And>i. i < blocks \<Longrightarrow> cur m (LTag i) \<noteq> cur m LEpoch" and "\<And>x. x < blocks * kBlockSize \<Longrightarrow> cur m (Work x) = snap x"
    and "\<And>l. l_fixed blocks (cur m) l \<Longrightarrow> quiet m l"
  shows "linv (start_engine blocks base s m) {} snap" and "nr_blocks (start_engine blocks base s m) = blocks"
    and "lnv (start_engine blocks base s m) = m"
proof -
  have "content (cur m) x = snap x" if "x < blocks * kBlockSize" for x
    using assms(5) [OF block_in_range [OF that]] assms(6) [OF that] by (simp add: content_def)
  moreover have "kBlockSize dvd base + cur m LWorkOff"
    using assms(1,4) kBlockSize_dvd_work_offset [of blocks] by (simp add: l_header_def)
  ultimately show "linv (start_engine blocks base s m) {} snap"
    using assms(1-3,5,7) by (auto simp: linv_def start_engine_def lrd_def [abs_def] l_stands_def)
qed (simp_all add: start_engine_def)

lemma l_open_ok:
  assumes "l_stands blocks snap pm" and "kBlockSize dvd base"
  shows "\<exists>e. open_engine base (nv_init pm) = Some e \<and> linv e {} snap \<and> nr_blocks e = blocks \<and>
     crash_safe (l_stands blocks snap) (lnv e)"
proof -
  have h: "pm LMagic = kHeapHeaderMagic" "pm LNrBlocks = blocks"
    using assms(1) by (auto simp: l_stands_def l_header_def)
  note r = l_recover_ok [OF assms(1)]
  define m where "m = recover blocks (nv_init pm)"
  have "open_engine base (nv_init pm) = Some (start_engine blocks base (exist_snapshot m) m)"
    using h by (simp add: open_engine_def Let_def m_def)
  with l_started [OF r(2,3,4) assms(2) r(5,6,7)] r(1) show ?thesis
    by (intro exI [of _ "start_engine blocks base (exist_snapshot m) m"]) (simp add: m_def)
qed

lemma l_create_ok:
  assumes "kBlockSize dvd base"
  shows "linv (create_engine cap base (nv_init pm)) {} (\<lambda>x. pm (Work x))"
    and "nr_blocks (create_engine cap base (nv_init pm)) = block_count cap"
proof -
  have "linv (start_engine (block_count cap) base False (format (block_count cap) (nv_init pm))) {} (\<lambda>x. pm (Work x))"
    by (rule l_started [OF _ _ _ assms]) (simp_all add: l_format l_format_quiet l_header_def tags_ok_def kEpochMax_def)
  then show "linv (create_engine cap base (nv_init pm)) {} (\<lambda>x. pm (Work x))"
    and "nr_blocks (create_engine cap base (nv_init pm)) = block_count cap"
    by (simp_all add: create_engine_def Let_def start_engine_def)
qed

subsection \<open>Runs, crashes and restarts\<close>

text \<open>\<open>Calm\<close> is a checkpoint that no crash interrupts.\<close>

datatype event = Hook nat nat | Range_hook nat nat nat | Write nat nat | Checkpoint nat | Calm nat

fun perform :: "event \<Rightarrow> lmc \<Rightarrow> lmc" where
  "perform (Hook tid addr) e = hook_rt_store tid addr e"
| "perform (Range_hook tid addr len) e = hook_rt_range_store tid addr len e"
| "perform (Write x v) e = l_store_byte x v e"
| "perform (Checkpoint n) e = checkpoint n e"
| "perform (Calm n) e = l_nv nv_begin (checkpoint n e)"

type_synonym ghost = "nat set \<times> (nat \<Rightarrow> nat)"

text \<open>A checkpoint may be interrupted by a crash unless it is the one that wraps the epoch around.\<close>

fun allowed :: "event \<Rightarrow> lmc \<Rightarrow> ghost \<Rightarrow> bool" where
  "allowed (Hook tid addr) e g = (tid < kMaxThreads)"
| "allowed (Range_hook tid addr len) e g = (tid < kMaxThreads \<and> 0 < len \<and> address_first e \<le> addr \<and>
     addr + len \<le> address_first e + get_capacity e)"
| "allowed (Write x v) e g = (x div kBlockSize \<in> fst g)"
| "allowed (Checkpoint n) e g = (0 < n \<and> lrd e LEpoch \<noteq> kEpochMax)"
| "allowed (Calm n) e g = (0 < n)"

fun observe :: "event \<Rightarrow> lmc \<Rightarrow> ghost \<Rightarrow> ghost" where
  "observe (Hook tid addr) e (H, snap) = (H \<union> (if in_range e addr then {block_of e addr} else {}), snap)"
| "observe (Range_hook tid addr len) e (H, snap) = (H \<union> set (blocks_of e addr len), snap)"
| "observe (Write x v) e g = g"
| "observe (Checkpoint n) e (H, snap) = ({}, l_new_snap e)"
| "observe (Calm n) e (H, snap) = ({}, l_new_snap e)"

definition step :: "event \<Rightarrow> lmc \<Rightarrow> lmc option" where
  "step ev e = Some (perform ev (l_nv nv_begin e))"

definition good :: "lmc \<Rightarrow> ghost \<Rightarrow> bool" where "good e g = linv e (fst g) (snd g)"

definition recovers :: "lmc \<Rightarrow> (lloc \<Rightarrow> nat) \<Rightarrow> ghost \<Rightarrow> bool" where
  "recovers e pm g = l_stands (nr_blocks e) (snd g) pm"

definition renew :: "ghost \<Rightarrow> ghost" where "renew g = ({}, snd g)"

lemma l_begin_inv:
  assumes "linv e H snap"
  shows "linv (l_nv nv_begin e) H snap" and "crash_safe (l_stands (nr_blocks e) snap) (nv_begin (lnv e))"
  using assms l_begin_safe [OF linvD(1) [OF assms] linvD(3) [OF assms]]
  by (simp_all add: linv_def l_none_full_def lrd_def [abs_def])

lemma l_begin_frame [simp]:
  "block_of (l_nv nv_begin e) = block_of e" "blocks_of (l_nv nv_begin e) = blocks_of e" "in_range (l_nv nv_begin e) = in_range e"
  "get_capacity (l_nv nv_begin e) = get_capacity e" "l_new_snap (l_nv nv_begin e) = l_new_snap e"
  by (simp_all add: fun_eq_iff block_of_def blocks_of_def in_range_def get_capacity_def l_new_snap_def lrd_def)

lemma l_step_safe:
  assumes "good e g" and "allowed ev e g"
  shows "\<exists>e'. step ev e = Some e' \<and> good e' (observe ev e g) \<and> nr_blocks e' = nr_blocks e \<and> address_first e' = address_first e \<and>
      (\<forall>pm \<in> crash_images (lnv e'). recovers e pm g \<or> recovers e pm (observe ev e g))"
proof -
  obtain H snap where g: "g = (H, snap)" by (cases g) auto
  let ?e = "l_nv nv_begin e"
  have i: "linv ?e H snap" and s: "crash_safe (l_stands (nr_blocks e) snap) (nv_begin (lnv e))"
    using l_begin_inv [of e H snap] assms(1) by (simp_all add: g good_def)
  show ?thesis
  proof (cases ev)
    case (Hook tid addr)
    with l_hook_rt_store_ok [OF i, of tid addr] assms(2) s show ?thesis
      by (simp add: step_def announced_def good_def g recovers_def crash_safe_def split: if_splits)
  next
    case (Range_hook tid addr len)
    with l_hook_rt_range_store_ok [OF i, of tid len addr] assms(2) s show ?thesis
      by (simp add: step_def announced_def good_def g recovers_def crash_safe_def)
  next
    case (Write x v)
    with l_store_byte_ok [OF i, of x v] assms(2) s show ?thesis
      by (simp add: step_def good_def g recovers_def crash_safe_def) (simp add: l_store_byte_def)
  next
    case (Checkpoint n)
    with l_checkpoint_ok(1,2,3,5) [OF i, of n] assms(2) s show ?thesis
      by (simp add: step_def good_def g recovers_def crash_safe_def lrd_def)
  next
    case (Calm n)
    note c = l_checkpoint_ok(1,2,3) [OF i, of n]
    have "linv (l_nv nv_begin (checkpoint n ?e)) {} (l_new_snap e)"
      "crash_safe (l_stands (nr_blocks e) (l_new_snap e)) (nv_begin (lnv (checkpoint n ?e)))"
      using l_begin_inv [OF c(1)] c(2) assms(2) Calm by simp_all
    with Calm c assms(2) show ?thesis by (simp add: step_def good_def g recovers_def crash_safe_def)
  qed
qed

interpretation lmc: restartable_engine step allowed observe good "\<lambda>e. crash_images (lnv e)" recovers
  "\<lambda>pm. open_engine (k * kPageSize) (nv_init pm)" renew for k
proof
  show "good e g \<Longrightarrow> allowed ev e g \<Longrightarrow> \<exists>e'. step ev e = Some e' \<and> good e' (observe ev e g) \<and>
      (\<forall>pm \<in> crash_images (lnv e'). recovers e pm g \<or> recovers e pm (observe ev e g))" for e g ev
    using l_step_safe [of e g ev] by blast
  fix e g pm g'
  assume "recovers e pm g'"
  moreover have "kBlockSize dvd k * kPageSize" by (simp add: geometry dvd_mult)
  ultimately show "\<exists>e2. open_engine (k * kPageSize) (nv_init pm) = Some e2 \<and> good e2 (renew g') \<and>
      (\<forall>pm' \<in> crash_images (lnv e2). recovers e2 pm' (renew g'))"
    using l_open_ok [of "nr_blocks e" "snd g'" pm "k * kPageSize"]
    by (auto simp: recovers_def good_def renew_def crash_safe_def)
qed (simp add: renew_def)

subsection \<open>Properties\<close>

definition life :: "nat \<Rightarrow> lmc \<Rightarrow> ghost \<Rightarrow> lmc \<Rightarrow> ghost \<Rightarrow> bool" where
  "life k = lives step allowed observe (\<lambda>e. crash_images (lnv e)) recovers (\<lambda>pm. open_engine (k * kPageSize) (nv_init pm)) renew"

text \<open>A new pool at page \<open>k\<close> on a file with the contents \<open>pm\<close>, and the ghost value it starts with.\<close>

definition created :: "nat \<Rightarrow> nat \<Rightarrow> (lloc \<Rightarrow> nat) \<Rightarrow> lmc \<Rightarrow> ghost \<Rightarrow> bool" where
  "created k cap pm e g \<longleftrightarrow> e = create_engine cap (k * kPageSize) (nv_init pm) \<and> g = ({}, \<lambda>x. pm (Work x))"

lemma l_created_good: "created k cap pm e g \<Longrightarrow> good e g"
  using l_create_ok(1) [of "k * kPageSize" cap pm] by (simp add: created_def good_def geometry dvd_mult)

lemma l_life_good: "created k cap pm e0 g0 \<Longrightarrow> life k e0 g0 e g \<Longrightarrow> good e g"
  using lmc.lives_good [where k = k] l_created_good by (simp add: life_def)

lemma l_life_step:
  "life k e0 g0 e g \<Longrightarrow> allowed ev e g \<Longrightarrow> step ev e = Some e' \<Longrightarrow> life k e0 g0 e' (observe ev e g)"
  unfolding life_def by (rule lives.operate)

definition l_demo :: lmc where
  "l_demo = create_engine 0 0 (nv_init (\<lambda>l. case l of Work _ \<Rightarrow> 3 | _ \<Rightarrow> 0))"

lemma l_demo_created: "created 0 0 (\<lambda>l. case l of Work _ \<Rightarrow> 3 | _ \<Rightarrow> 0) l_demo ({}, \<lambda>x. 3)"
  by (simp add: created_def l_demo_def)

lemma l_demo_fields: "nr_blocks l_demo = 65536" "lrd l_demo LEpoch = 1" "lrd l_demo (Work x) = 3"
  by (simp_all add: l_demo_def create_engine_def start_engine_def Let_def lrd_def l_format block_count_def geometry)

text \<open>One checkpoint of a demo pool: a hook of block 0, then the checkpoint.\<close>

definition at_epoch :: "nat \<Rightarrow> lmc \<Rightarrow> (nat \<Rightarrow> nat) \<Rightarrow> bool" where
  "at_epoch k e snap \<longleftrightarrow> life 0 l_demo ({}, \<lambda>x. 3) e ({}, snap) \<and> lrd e LEpoch = k \<and> nr_blocks e = 65536 \<and>
     (\<forall>x. lrd e (Work x) = 3) \<and> snap 0 = 3 \<and> snap 256 = 3"

lemma l_hook_step:
  assumes "good e (H, snap)" and "nr_blocks e = 65536" and "b < 65536"
  obtains e' where "step (Hook 0 (address_first e + b * kBlockSize)) e = Some e'"
    "observe (Hook 0 (address_first e + b * kBlockSize)) e (H, snap) = (insert b H, snap)"
    "nr_blocks e' = 65536" "lrd e' LEpoch = lrd e LEpoch" "\<forall>x. lrd e' (Work x) = lrd e (Work x)"
    "address_first e' = address_first e"
proof -
  have i: "linv (l_nv nv_begin e) H snap" using l_begin_inv(1) assms(1) by (simp add: good_def)
  note a = l_hook_rt_store_ok [OF i, of 0 "address_first e + b * kBlockSize"]
  show ?thesis
    by (rule that [of "hook_rt_store 0 (address_first e + b * kBlockSize) (l_nv nv_begin e)"])
      (use a assms(2,3) in \<open>simp_all add: step_def announced_def in_range_def block_of_def get_capacity_def geometry lrd_def\<close>)
qed

lemma l_next_epoch:
  assumes "at_epoch k e snap" and "k \<noteq> kEpochMax"
  shows "\<exists>e' snap'. at_epoch (Suc k) e' snap'"
proof -
  have l: "life 0 l_demo ({}, \<lambda>x. 3) e ({}, snap)" and f: "lrd e LEpoch = k" "nr_blocks e = 65536" "\<forall>x. lrd e (Work x) = 3"
    using assms(1) by (simp_all add: at_epoch_def)
  obtain e1 where e1: "step (Hook 0 (address_first e + 0 * kBlockSize)) e = Some e1"
    "observe (Hook 0 (address_first e + 0 * kBlockSize)) e ({}, snap) = ({0}, snap)"
    "nr_blocks e1 = 65536" "lrd e1 LEpoch = lrd e LEpoch" "\<forall>x. lrd e1 (Work x) = lrd e (Work x)"
    by (rule l_hook_step [OF l_life_good [OF l_demo_created l] f(2), of 0]) simp_all
  have l1: "life 0 l_demo ({}, \<lambda>x. 3) e1 ({0}, snap)" using l_life_step [OF l _ e1(1)] e1(2) by (simp add: geometry)
  define e2 where "e2 = l_nv nv_begin (checkpoint 1 (l_nv nv_begin e1))"
  have i: "linv (l_nv nv_begin e1) {0} snap"
    using l_begin_inv(1) l_life_good [OF l_demo_created l1] by (simp add: good_def)
  have "decide_mode (l_nv nv_begin e1) \<noteq> FMODE_NO_ACTION" using l_no_action [OF i] by blast
  with l_checkpoint_ok(2,4,6) [OF i, of 1] e1 f assms(2)
  have c: "nr_blocks e2 = 65536" "lrd e2 LEpoch = Suc k" "\<forall>x. lrd e2 (Work x) = 3"
    by (simp_all add: e2_def lrd_def)
  have "life 0 l_demo ({}, \<lambda>x. 3) e2 ({}, l_new_snap e1)"
    using l_life_step [OF l1, of "Calm 1" e2] by (simp add: step_def e2_def)
  then have "at_epoch (Suc k) e2 (l_new_snap e1)" using c e1(5) f(3) by (simp add: at_epoch_def l_new_snap_def)
  then show ?thesis by blast
qed

lemma l_every_epoch: "k < 255 \<Longrightarrow> \<exists>e snap. at_epoch (Suc k) e snap"
proof (induction k)
  case 0
  have "at_epoch 1 l_demo (\<lambda>x. 3)"
    by (simp add: at_epoch_def life_def lives.born l_demo_fields)
  then show ?case by auto
next
  case (Suc k)
  then obtain e snap where "at_epoch (Suc k) e snap" by auto
  then show ?case using l_next_epoch [of "Suc k"] Suc.prems by (simp add: geometry)
qed

text \<open>
  C10. The shadow-copy engine survives any number of crashes outside the checkpoints that wrap the
  epoch around: after any life of a new pool, in which operations may be interrupted by crashes
  and restarts by further crashes, every durable image a crash inside the next operation can leave
  is recovered, and all of the data is then what it was at the last checkpoint or, if the
  operation is a checkpoint, at this one.
\<close>

theorem lmc_survives_crashes:
  assumes "created k cap pm0 e0 g0" and "life k e0 g0 e (H, snap)" and "allowed ev e (H, snap)"
    and "step ev e = Some e'" and "observe ev e (H, snap) = (H', snap')" and "pm \<in> crash_images (lnv e')"
  shows "\<exists>e2. open_engine (k * kPageSize) (nv_init pm) = Some e2 \<and>
    ((\<forall>x < get_capacity e. lrd e2 (Work x) = snap x) \<or> (\<forall>x < get_capacity e. lrd e2 (Work x) = snap' x))"
proof -
  have "good e (H, snap)" by (rule l_life_good [OF assms(1,2)])
  then obtain g' where g': "g' = (H, snap) \<or> g' = (H', snap')" "recovers e pm g'"
    using l_step_safe [OF _ assms(3)] assms(4-6) by fastforce
  have al: "kBlockSize dvd k * kPageSize" by (simp add: geometry dvd_mult)
  obtain e2 where e2: "open_engine (k * kPageSize) (nv_init pm) = Some e2" "linv e2 {} (snd g')" "nr_blocks e2 = nr_blocks e"
    using l_open_ok [OF g'(2) [unfolded recovers_def] al] by blast
  have "lrd e2 (Work x) = snd g' x" if "x < get_capacity e" for x
    using l_clean(1) [OF e2(2)] that e2(3) by (simp add: get_capacity_def)
  then show ?thesis using e2(1) g'(1) by auto
qed

lemma l_two_blocks:
  assumes "at_epoch k e snap"
  obtains e' where "life 0 l_demo ({}, \<lambda>x. 3) e' ({0, 1}, snap)" "lrd e' (Work 0) = 9" "lrd e' (Work 256) = 9"
    "nr_blocks e' = 65536" "lrd e' LEpoch = k"
proof -
  have l: "life 0 l_demo ({}, \<lambda>x. 3) e ({}, snap)" and f: "lrd e LEpoch = k" "nr_blocks e = 65536" "\<forall>x. lrd e (Work x) = 3"
    using assms(1) by (simp_all add: at_epoch_def)
  obtain e1 where e1: "step (Hook 0 (address_first e + 0 * kBlockSize)) e = Some e1"
    "observe (Hook 0 (address_first e + 0 * kBlockSize)) e ({}, snap) = ({0}, snap)"
    "nr_blocks e1 = 65536" "lrd e1 LEpoch = lrd e LEpoch"
    by (rule l_hook_step [OF l_life_good [OF l_demo_created l] f(2), of 0]) simp_all
  have l1: "life 0 l_demo ({}, \<lambda>x. 3) e1 ({0}, snap)" using l_life_step [OF l _ e1(1)] e1(2) by (simp add: geometry)
  obtain e2 where e2: "step (Hook 0 (address_first e1 + 1 * kBlockSize)) e1 = Some e2"
    "observe (Hook 0 (address_first e1 + 1 * kBlockSize)) e1 ({0}, snap) = ({1, 0}, snap)"
    "nr_blocks e2 = 65536" "lrd e2 LEpoch = lrd e1 LEpoch"
    by (rule l_hook_step [OF l_life_good [OF l_demo_created l1] e1(3), of 1]) simp_all
  have l2: "life 0 l_demo ({}, \<lambda>x. 3) e2 ({1, 0}, snap)" using l_life_step [OF l1 _ e2(1)] e2(2) by (simp add: geometry)
  define e3 where "e3 = l_store_byte 0 9 (l_nv nv_begin e2)"
  define e4 where "e4 = l_store_byte 256 9 (l_nv nv_begin e3)"
  have l3: "life 0 l_demo ({}, \<lambda>x. 3) e3 ({1, 0}, snap)"
    using l_life_step [OF l2, of "Write 0 9" e3] by (simp add: step_def e3_def)
  have l4: "life 0 l_demo ({}, \<lambda>x. 3) e4 ({1, 0}, snap)"
    using l_life_step [OF l3, of "Write 256 9" e4] by (simp add: step_def e4_def geometry)
  have "{0, 1} = {1, 0 :: nat}" by blast
  with l4 show ?thesis
    by (intro that [of e4]) (simp_all add: e4_def e3_def l_store_byte_def lrd_def e2(3,4) e1(4) f(1) e1(4) [unfolded lrd_def]
        e2(4) [unfolded lrd_def] f(1) [unfolded lrd_def])
qed

theorem lmc_survives_crashes_witness:
  "\<exists>e snap e' pm e2. life 0 l_demo ({}, \<lambda>x. 3) e ({0, 1}, snap) \<and> lrd e (Work 0) = 9 \<and> step (Checkpoint 2) e = Some e' \<and>
     pm \<in> crash_images (lnv e') \<and> open_engine 0 (nv_init pm) = Some e2 \<and> (lrd e2 (Work 0) = 3 \<or> lrd e2 (Work 0) = 9)"
proof -
  have "at_epoch 1 l_demo (\<lambda>x. 3)"
    by (simp add: at_epoch_def life_def lives.born l_demo_fields)
  then obtain e where e: "life 0 l_demo ({}, \<lambda>x. 3) e ({0, 1}, \<lambda>x. 3)" "lrd e (Work 0) = 9" "nr_blocks e = 65536" "lrd e LEpoch = 1"
    by (rule l_two_blocks)
  define e' where "e' = checkpoint 2 (l_nv nv_begin e)"
  have a: "allowed (Checkpoint 2) e ({0, 1}, \<lambda>x. 3)" "step (Checkpoint 2) e = Some e'"
    by (simp_all add: e(4) geometry step_def e'_def)
  have "linv (l_nv nv_begin e) {0, 1} (\<lambda>x. 3)"
    using l_begin_inv(1) l_life_good [OF l_demo_created e(1)] by (simp add: good_def)
  then have "visible (lnv e')" using linvD(2) [OF l_checkpoint_ok(1)] by (simp add: e'_def)
  then have pm: "cur (lnv e') \<in> crash_images (lnv e')" by (rule visible_crash_image)
  have "get_capacity e = 16777216" using e(3) by (simp add: get_capacity_def geometry)
  with lmc_survives_crashes [OF l_demo_created e(1) a _ pm] e(2)
  obtain e2 where "open_engine 0 (nv_init (cur (lnv e'))) = Some e2" "lrd e2 (Work 0) = 3 \<or> lrd e2 (Work 0) = 9"
    by (force simp: l_new_snap_def)
  then show ?thesis using e(1,2) a(2) pm by blast
qed

text \<open>
  C11. The checkpoint that wraps the epoch around is not atomic: when the 8-bit epoch is 255 and two
  bytes of different announced blocks were written, there is a point in the checkpoint at which a
  crash leaves a pool that recovers the new contents of one and the old contents of the other,
  because the tags are zeroed without any order while the epoch is still 255.
\<close>

theorem lmc_wrap_tears:
  assumes "created k cap pm0 e0 g0" and "life k e0 g0 e (H, snap)" and "lrd e LEpoch = kEpochMax" and "0 < n"
    and "x < get_capacity e" "x div kBlockSize \<in> H" and "y < get_capacity e" "y div kBlockSize \<in> H"
    and "x div kBlockSize \<noteq> y div kBlockSize"
  shows "\<exists>pm \<in> crash_images (lnv (checkpoint n (l_nv nv_begin e))). \<exists>e2. open_engine (k * kPageSize) (nv_init pm) = Some e2 \<and>
    lrd e2 (Work x) = lrd e (Work x) \<and> lrd e2 (Work y) = snap y"
proof -
  let ?e = "l_nv nv_begin e"
  have i: "linv ?e H snap" using l_begin_inv(1) l_life_good [OF assms(1,2)] by (simp add: good_def)
  have nd: "decide_mode ?e \<noteq> FMODE_NO_ACTION" using l_no_action [OF i] assms(6) by blast
  obtain m where
    m: "lnv (checkpoint n ?e) = advance_current_epoch (nr_blocks e) m" "work_ok (nr_blocks e) m" "\<forall>l. l \<noteq> LAttr \<longrightarrow> cur m l = lrd e l"
    by (rule l_before_advance [OF i assms(4) nd], rule that) (simp_all add: lrd_def)
  define pm where "pm = (cur m)(LTag (x div kBlockSize) := 0)"
  let ?s = "nv_store (\<lambda>l. if tag_below (nr_blocks e) l then Some 0 else None) m"
  have "dur ?s \<in> crash_points (lnv (checkpoint n ?e))"
    using m(1,3) assms(3) by (simp add: advance_current_epoch_def set_epoch_def clear_tags_def crash_points_def)
  moreover have "pm l \<in> dur ?s l" for l
  proof -
    have "cur m l \<in> dur m l" using m(2) by (simp add: work_ok_def visible_def)
    moreover have xb: "x div kBlockSize < nr_blocks e" by (rule block_in_range) (use assms(5) in \<open>simp add: get_capacity_def\<close>)
    ultimately show ?thesis by (auto simp: pm_def)
  qed
  ultimately have im: "pm \<in> crash_images (lnv (checkpoint n ?e))" unfolding crash_images_def by blast
  have "l_stands (nr_blocks e) (content pm) pm"
    using m(2) by (simp add: l_stands_def work_ok_def pm_def l_header_def tags_ok_def)
  from l_open_ok [OF this, of "k * kPageSize"] obtain e2 where
    e2: "open_engine (k * kPageSize) (nv_init pm) = Some e2" "linv e2 {} (content pm)" "nr_blocks e2 = nr_blocks e"
    by (auto simp: geometry dvd_mult)
  have w: "lrd e2 (Work z) = content pm z" if "z < get_capacity e" for z
    using l_clean(1) [OF e2(2)] that e2(3) by (simp add: get_capacity_def)
  have ep: "pm LEpoch = kEpochMax" using m(3) assms(3) by (simp add: pm_def)
  have "content pm x = lrd e (Work x)" using m(3) ep by (simp add: content_def) (simp add: pm_def geometry)
  moreover have "lrd e (LTag (y div kBlockSize)) = kEpochMax" using linvD(4) [OF i] assms(3,8) by (simp add: lrd_def)
  then have "content pm y = snap y"
    using linvD(9) [OF i, of y] assms(3,7,9) m(3) ep by (simp add: content_def get_capacity_def lrd_def) (simp add: pm_def)
  ultimately show ?thesis using w [OF assms(5)] w [OF assms(7)] e2(1) im by auto
qed

theorem lmc_wrap_tears_witness:
  "\<exists>e snap pm e2. life 0 l_demo ({}, \<lambda>x. 3) e ({0, 1}, snap) \<and> lrd e (Work 0) = 9 \<and> lrd e (Work 256) = 9 \<and>
     pm \<in> crash_images (lnv (checkpoint 2 (l_nv nv_begin e))) \<and> open_engine 0 (nv_init pm) = Some e2 \<and>
     lrd e2 (Work 0) = 9 \<and> lrd e2 (Work 256) = 3"
proof -
  obtain e0 snap where a: "at_epoch 255 e0 snap" using l_every_epoch [of 254] by auto
  then obtain e where e: "life 0 l_demo ({}, \<lambda>x. 3) e ({0, 1}, snap)" "lrd e (Work 0) = 9" "lrd e (Work 256) = 9"
    "nr_blocks e = 65536" "lrd e LEpoch = 255" by (rule l_two_blocks)
  have "snap 256 = 3" using a by (simp add: at_epoch_def)
  with lmc_wrap_tears [OF l_demo_created e(1), of 2 0 256] e(2-5)
  obtain pm e2 where "pm \<in> crash_images (lnv (checkpoint 2 (l_nv nv_begin e)))" "open_engine 0 (nv_init pm) = Some e2"
    "lrd e2 (Work 0) = 9" "lrd e2 (Work 256) = 3"
    by (auto simp: get_capacity_def geometry)
  with e(1-3) show ?thesis by blast
qed

end
