(* ===== verification/Crc.thy ===== *)
theory Crc
  imports Prelude
begin

text \<open>
  \<^verbatim>\<open>CalculateCRC32\<close> of \<^verbatim>\<open>runtime/src/common.cpp\<close>: the table, the byte loop,
  and its equivalence with the bit-serial division by the polynomial \<open>0x04c11db7\<close>.
\<close>

definition crc32_table :: "u32 list" where
  "crc32_table = [
     0x00000000, 0x04c11db7, 0x09823b6e, 0x0d4326d9, 0x130476dc, 0x17c56b6b, 0x1a864db2, 0x1e475005,
     0x2608edb8, 0x22c9f00f, 0x2f8ad6d6, 0x2b4bcb61, 0x350c9b64, 0x31cd86d3, 0x3c8ea00a, 0x384fbdbd,
     0x4c11db70, 0x48d0c6c7, 0x4593e01e, 0x4152fda9, 0x5f15adac, 0x5bd4b01b, 0x569796c2, 0x52568b75,
     0x6a1936c8, 0x6ed82b7f, 0x639b0da6, 0x675a1011, 0x791d4014, 0x7ddc5da3, 0x709f7b7a, 0x745e66cd,
     0x9823b6e0, 0x9ce2ab57, 0x91a18d8e, 0x95609039, 0x8b27c03c, 0x8fe6dd8b, 0x82a5fb52, 0x8664e6e5,
     0xbe2b5b58, 0xbaea46ef, 0xb7a96036, 0xb3687d81, 0xad2f2d84, 0xa9ee3033, 0xa4ad16ea, 0xa06c0b5d,
     0xd4326d90, 0xd0f37027, 0xddb056fe, 0xd9714b49, 0xc7361b4c, 0xc3f706fb, 0xceb42022, 0xca753d95,
     0xf23a8028, 0xf6fb9d9f, 0xfbb8bb46, 0xff79a6f1, 0xe13ef6f4, 0xe5ffeb43, 0xe8bccd9a, 0xec7dd02d,
     0x34867077, 0x30476dc0, 0x3d044b19, 0x39c556ae, 0x278206ab, 0x23431b1c, 0x2e003dc5, 0x2ac12072,
     0x128e9dcf, 0x164f8078, 0x1b0ca6a1, 0x1fcdbb16, 0x018aeb13, 0x054bf6a4, 0x0808d07d, 0x0cc9cdca,
     0x7897ab07, 0x7c56b6b0, 0x71159069, 0x75d48dde, 0x6b93dddb, 0x6f52c06c, 0x6211e6b5, 0x66d0fb02,
     0x5e9f46bf, 0x5a5e5b08, 0x571d7dd1, 0x53dc6066, 0x4d9b3063, 0x495a2dd4, 0x44190b0d, 0x40d816ba,
     0xaca5c697, 0xa864db20, 0xa527fdf9, 0xa1e6e04e, 0xbfa1b04b, 0xbb60adfc, 0xb6238b25, 0xb2e29692,
     0x8aad2b2f, 0x8e6c3698, 0x832f1041, 0x87ee0df6, 0x99a95df3, 0x9d684044, 0x902b669d, 0x94ea7b2a,
     0xe0b41de7, 0xe4750050, 0xe9362689, 0xedf73b3e, 0xf3b06b3b, 0xf771768c, 0xfa325055, 0xfef34de2,
     0xc6bcf05f, 0xc27dede8, 0xcf3ecb31, 0xcbffd686, 0xd5b88683, 0xd1799b34, 0xdc3abded, 0xd8fba05a,
     0x690ce0ee, 0x6dcdfd59, 0x608edb80, 0x644fc637, 0x7a089632, 0x7ec98b85, 0x738aad5c, 0x774bb0eb,
     0x4f040d56, 0x4bc510e1, 0x46863638, 0x42472b8f, 0x5c007b8a, 0x58c1663d, 0x558240e4, 0x51435d53,
     0x251d3b9e, 0x21dc2629, 0x2c9f00f0, 0x285e1d47, 0x36194d42, 0x32d850f5, 0x3f9b762c, 0x3b5a6b9b,
     0x0315d626, 0x07d4cb91, 0x0a97ed48, 0x0e56f0ff, 0x1011a0fa, 0x14d0bd4d, 0x19939b94, 0x1d528623,
     0xf12f560e, 0xf5ee4bb9, 0xf8ad6d60, 0xfc6c70d7, 0xe22b20d2, 0xe6ea3d65, 0xeba91bbc, 0xef68060b,
     0xd727bbb6, 0xd3e6a601, 0xdea580d8, 0xda649d6f, 0xc423cd6a, 0xc0e2d0dd, 0xcda1f604, 0xc960ebb3,
     0xbd3e8d7e, 0xb9ff90c9, 0xb4bcb610, 0xb07daba7, 0xae3afba2, 0xaafbe615, 0xa7b8c0cc, 0xa379dd7b,
     0x9b3660c6, 0x9ff77d71, 0x92b45ba8, 0x9675461f, 0x8832161a, 0x8cf30bad, 0x81b02d74, 0x857130c3,
     0x5d8a9099, 0x594b8d2e, 0x5408abf7, 0x50c9b640, 0x4e8ee645, 0x4a4ffbf2, 0x470cdd2b, 0x43cdc09c,
     0x7b827d21, 0x7f436096, 0x7200464f, 0x76c15bf8, 0x68860bfd, 0x6c47164a, 0x61043093, 0x65c52d24,
     0x119b4be9, 0x155a565e, 0x18197087, 0x1cd86d30, 0x029f3d35, 0x065e2082, 0x0b1d065b, 0x0fdc1bec,
     0x3793a651, 0x3352bbe6, 0x3e119d3f, 0x3ad08088, 0x2497d08d, 0x2056cd3a, 0x2d15ebe3, 0x29d4f654,
     0xc5a92679, 0xc1683bce, 0xcc2b1d17, 0xc8ea00a0, 0xd6ad50a5, 0xd26c4d12, 0xdf2f6bcb, 0xdbee767c,
     0xe3a1cbc1, 0xe760d676, 0xea23f0af, 0xeee2ed18, 0xf0a5bd1d, 0xf464a0aa, 0xf9278673, 0xfde69bc4,
     0x89b8fd09, 0x8d79e0be, 0x803ac667, 0x84fbdbd0, 0x9abc8bd5, 0x9e7d9662, 0x933eb0bb, 0x97ffad0c,
     0xafb010b1, 0xab710d06, 0xa6322bdf, 0xa2f33668, 0xbcb4666d, 0xb8757bda, 0xb5365d03, 0xb1f740b4]"

text \<open>One round of the \<^verbatim>\<open>while (len--)\<close> loop.\<close>

definition crc32_byte :: "u32 \<Rightarrow> u8 \<Rightarrow> u32" where
  "crc32_byte crc b =
     push_bit 8 crc XOR (crc32_table ! unat ((drop_bit 24 crc XOR ucast b) AND 255))"

fun CalculateCRC32 :: "u8 list \<Rightarrow> u32 \<Rightarrow> u32" where
  "CalculateCRC32 [] crc = crc"
| "CalculateCRC32 (b # buf) crc = CalculateCRC32 buf (crc32_byte crc b)"

subsection \<open>The bit-serial reference\<close>

definition crc_shift :: "u32 \<Rightarrow> u32" where
  "crc_shift c = push_bit 1 c XOR (if bit c 31 then 0x04c11db7 else 0)"

definition crc_serial_byte :: "u32 \<Rightarrow> u8 \<Rightarrow> u32" where
  "crc_serial_byte crc b = (crc_shift ^^ 8) (crc XOR push_bit 24 (ucast b))"

fun crc_serial :: "u8 list \<Rightarrow> u32 \<Rightarrow> u32" where
  "crc_serial [] crc = crc"
| "crc_serial (b # buf) crc = crc_serial buf (crc_serial_byte crc b)"

lemma crc_shift_xor: "crc_shift (a XOR b) = crc_shift a XOR crc_shift b"
  by (rule bit_eqI) (auto simp: crc_shift_def bit_simps)

lemma crc_shift_funpow_xor: "(crc_shift ^^ n) (a XOR b) = (crc_shift ^^ n) a XOR (crc_shift ^^ n) b"
  by (induction n) (simp_all add: crc_shift_xor)


text \<open>A word whose top byte is zero is only shifted.\<close>

lemma crc_shift_low:
  assumes "n \<le> 8" and "\<And>i. 24 \<le> i \<Longrightarrow> \<not> bit c i"
  shows "(crc_shift ^^ n) c = push_bit n c"
  using assms(1)
proof (induction n)
  case 0
  then show ?case by simp
next
  case (Suc n)
  then have "\<not> bit (push_bit n c) 31"
    using assms(2) [of "31 - n"] by (auto simp: bit_simps)
  then have "crc_shift (push_bit n c) = push_bit (Suc n) c"
    by (simp only: crc_shift_def if_False xor.right_neutral push_bit_push_bit) simp
  with Suc show ?case by simp
qed

lemma crc32_table_step:
  "crc32_table = concat (map (\<lambda>t. [crc_shift t, crc_shift t XOR 0x04c11db7]) (take 128 crc32_table))"
  by (simp add: crc32_table_def crc_shift_def)


lemma nth_concat_pairs:
  "i < length xs \<Longrightarrow> concat (map (\<lambda>t. [f t, g t]) xs) ! (2 * i) = f (xs ! i) \<and>
     concat (map (\<lambda>t. [f t, g t]) xs) ! (2 * i + 1) = g (xs ! i)"
proof (induction xs arbitrary: i)
  case Nil
  then show ?case by simp
next
  case (Cons x xs)
  then show ?case by (cases i) auto
qed

lemma length_crc32_table [simp]: "length crc32_table = 256"
  by (simp add: crc32_table_def)

lemma crc32_table_double:
  assumes "i < 128"
  shows "crc32_table ! (2 * i) = crc_shift (crc32_table ! i)"
    and "crc32_table ! (2 * i + 1) = crc_shift (crc32_table ! i) XOR 0x04c11db7"
  using nth_concat_pairs [of i "take 128 crc32_table" crc_shift "\<lambda>t. crc_shift t XOR 0x04c11db7"]
    assms crc32_table_step by simp_all

text \<open>The entry of \<open>i\<close> is the remainder of eight shifts of \<open>i\<close> in the top byte.\<close>

definition crc_top :: "nat \<Rightarrow> u32" where
  "crc_top i = (crc_shift ^^ 8) (push_bit 24 (of_nat i))"

lemma crc_top_double:
  assumes "i < 128"
  shows "crc_top (2 * i) = crc_shift (crc_top i)"
proof -
  have "take_bit 7 (of_nat i :: u32) = of_nat i"
    using assms by (simp add: take_bit_of_nat take_bit_nat_eq_self)
  then have "\<not> bit (of_nat i :: u32) 7"
    by (metis bit_take_bit_iff less_irrefl)
  then have "\<not> bit (push_bit 24 (of_nat i) :: u32) 31"
    by (simp only: bit_push_bit_iff) simp
  then have "crc_shift (push_bit 24 (of_nat i)) = push_bit 24 (push_bit 1 (of_nat i))"
    by (simp only: crc_shift_def if_False xor.right_neutral push_bit_push_bit add.commute)
  also have "push_bit 1 (of_nat i :: u32) = of_nat (2 * i)"
    by simp
  finally have "crc_shift (push_bit 24 (of_nat i)) = push_bit 24 (of_nat (2 * i))" .
  then show ?thesis
    by (metis crc_top_def funpow_swap1)
qed

lemma crc_shift_8:
  "(crc_shift ^^ 8) c = crc_shift (crc_shift (crc_shift (crc_shift
     (crc_shift (crc_shift (crc_shift (crc_shift c)))))))"
  by (simp add: eval_nat_numeral)

lemma crc_top_one: "(crc_shift ^^ 8) (push_bit 24 1) = 0x04c11db7"
  by (simp add: crc_shift_8 crc_shift_def)

lemma crc_top_odd:
  assumes "i < 128"
  shows "crc_top (2 * i + 1) = crc_shift (crc_top i) XOR 0x04c11db7"
proof -
  have "(of_nat (2 * i + 1) :: u32) = of_nat (2 * i) XOR 1"
    by (simp add: even_xor_iff xor_one_eq)
  then have "push_bit 24 (of_nat (2 * i + 1) :: u32) = push_bit 24 (of_nat (2 * i)) XOR push_bit 24 1"
    by (simp only: push_bit_xor)
  then have "crc_top (2 * i + 1) = crc_top (2 * i) XOR (crc_shift ^^ 8) (push_bit 24 1)"
    by (simp only: crc_top_def crc_shift_funpow_xor)
  then show ?thesis
    by (simp only: crc_top_double [OF assms] crc_top_one)
qed

lemma crc32_table_top: "i < 256 \<Longrightarrow> crc32_table ! i = crc_top i"
proof (induction i rule: less_induct)
  case (less i)
  show ?case
  proof (cases "i = 0")
    case True
    then show ?thesis by (simp add: crc32_table_def crc_top_def crc_shift_8 crc_shift_def)
  next
    case False
    then have "crc32_table ! (i div 2) = crc_top (i div 2)"
      using less by simp
    moreover have "i div 2 < 128" using less.prems by simp
    moreover have "i = 2 * (i div 2) \<or> i = 2 * (i div 2) + 1" by presburger
    ultimately show ?thesis
      by (metis crc32_table_double crc_top_double crc_top_odd)
  qed
qed

lemma crc32_byte_serial: "crc32_byte crc b = crc_serial_byte crc b"
proof -
  define x :: u32 where "x = crc XOR push_bit 24 (ucast b)"
  define lo :: u32 where "lo = x AND mask 24"
  have top: "unat (drop_bit 24 x) < 256"
  proof -
    have "unat (drop_bit 24 x) = drop_bit 24 (unat x)"
      by (rule unat_drop_bit_eq)
    also have "\<dots> = unat x div 2 ^ 24"
      by (rule drop_bit_eq_div)
    finally have "unat (drop_bit 24 x) = unat x div 2 ^ 24" .
    moreover have "unat x < 2 ^ LENGTH(32)" by (rule unsigned_less)
    ultimately show ?thesis by (simp add: less_mult_imp_div_less)
  qed
  have split: "x = push_bit 24 (drop_bit 24 x) XOR lo"
    unfolding lo_def by (rule bit_eqI) (auto simp: bit_simps)
  have idx: "(drop_bit 24 crc XOR ucast b) AND 255 = drop_bit 24 x"
  proof (rule bit_eqI)
    fix n
    have m: "(255 :: u32) = mask 8" by (simp add: mask_eq_exp_minus_1)
    show "bit ((drop_bit 24 crc XOR ucast b) AND (255 :: u32)) n = bit (drop_bit 24 x) n"
      unfolding x_def using bit_imp_le_length [of crc "24 + n"]
      by (auto simp: m bit_simps)
  qed
  have low: "(crc_shift ^^ 8) lo = push_bit 8 lo"
    by (rule crc_shift_low) (auto simp: lo_def bit_simps)
  have shift: "push_bit 8 lo = push_bit 8 crc"
    unfolding lo_def x_def by (rule bit_eqI) (auto simp: bit_simps)
  have "(crc_shift ^^ 8) x = (crc_shift ^^ 8) (push_bit 24 (drop_bit 24 x)) XOR push_bit 8 crc"
    by (subst split) (simp only: crc_shift_funpow_xor low shift)
  also have "(crc_shift ^^ 8) (push_bit 24 (drop_bit 24 x)) = crc32_table ! unat (drop_bit 24 x)"
    using crc32_table_top [OF top] by (simp add: crc_top_def)
  finally show ?thesis
    unfolding crc32_byte_def crc_serial_byte_def idx x_def [symmetric] by (simp only: xor.commute)
qed

lemma CalculateCRC32_append:
  "CalculateCRC32 (xs @ ys) crc = CalculateCRC32 ys (CalculateCRC32 xs crc)"
  by (induction xs arbitrary: crc) auto

text \<open>
  C31. The table-driven CRC is the bit-serial one: for every buffer and start value the byte loop
  computes the remainder of the division by the polynomial \<open>0x04c11db7\<close>, most significant
  bit first.
\<close>

theorem CalculateCRC32_serial: "CalculateCRC32 buf crc = crc_serial buf crc"
  by (induction buf arbitrary: crc) (simp_all add: crc32_byte_serial)

end
