(* ===== verification/SizeClass.thy ===== *)
theory SizeClass
  imports Common
begin

text \<open>
  \<^verbatim>\<open>src/lrmalloc_util.cpp\<close> and
  \<^verbatim>\<open>include/internal/allocators/lrmalloc_util.h\<close>: the size classes of the allocator,
  the table that maps a request to its class, and the bins of the per-thread caches.
\<close>

definition kSuperBlockShift :: nat where "kSuperBlockShift = 16"
definition kSuperBlockSize :: nat where "kSuperBlockSize = 2 ^ kSuperBlockShift"
definition kMaxSizeClasses :: nat where "kMaxSizeClasses = 40"
definition kMaxSize :: nat where "kMaxSize = 2 ^ 13 + 2 ^ 11 * 3"

lemmas sb_constants [geometry] = kSuperBlockShift_def kSuperBlockSize_def kMaxSizeClasses_def kMaxSize_def

subsection \<open>The table of size classes\<close>

text \<open>
  A row of the macro \<^verbatim>\<open>SIZE_CLASSES\<close>: its index, group, delta and multiple, and
  whether it makes an entry. The columns \<^verbatim>\<open>psz\<close>, \<^verbatim>\<open>pgs\<close> and
  \<^verbatim>\<open>lg_delta_lookup\<close> are not used by the macros that expand it.
\<close>

datatype sc_bin = Bin | NoBin

datatype sc_row = SC (sc_index: nat) (lg_grp: nat) (lg_delta: nat) (ndelta: nat) (bin: sc_bin)

definition classes_below_96 :: "sc_row list" where
  "classes_below_96 =
    [SC 0 3 3 0 Bin, SC 1 3 3 1 Bin, SC 2 3 3 2 Bin, SC 3 3 3 3 Bin,
     SC 4 5 3 1 Bin, SC 5 5 3 2 Bin, SC 6 5 3 3 Bin, SC 7 5 3 4 Bin,
     SC 8 6 4 1 Bin, SC 9 6 4 2 Bin, SC 10 6 4 3 Bin, SC 11 6 4 4 Bin,
     SC 12 7 5 1 Bin, SC 13 7 5 2 Bin, SC 14 7 5 3 Bin, SC 15 7 5 4 Bin,
     SC 16 8 6 1 Bin, SC 17 8 6 2 Bin, SC 18 8 6 3 Bin, SC 19 8 6 4 Bin,
     SC 20 9 7 1 Bin, SC 21 9 7 2 Bin, SC 22 9 7 3 Bin, SC 23 9 7 4 Bin,
     SC 24 10 8 1 Bin, SC 25 10 8 2 Bin, SC 26 10 8 3 Bin, SC 27 10 8 4 Bin,
     SC 28 11 9 1 Bin, SC 29 11 9 2 Bin, SC 30 11 9 3 Bin, SC 31 11 9 4 Bin,
     SC 32 12 10 1 Bin, SC 33 12 10 2 Bin, SC 34 12 10 3 Bin, SC 35 12 10 4 Bin,
     SC 36 13 11 1 Bin, SC 37 13 11 2 Bin, SC 38 13 11 3 Bin, SC 39 13 11 4 NoBin,
     SC 40 14 12 1 NoBin, SC 41 14 12 2 NoBin, SC 42 14 12 3 NoBin, SC 43 14 12 4 NoBin,
     SC 44 15 13 1 NoBin, SC 45 15 13 2 NoBin, SC 46 15 13 3 NoBin, SC 47 15 13 4 NoBin,
     SC 48 16 14 1 NoBin, SC 49 16 14 2 NoBin, SC 50 16 14 3 NoBin, SC 51 16 14 4 NoBin,
     SC 52 17 15 1 NoBin, SC 53 17 15 2 NoBin, SC 54 17 15 3 NoBin, SC 55 17 15 4 NoBin,
     SC 56 18 16 1 NoBin, SC 57 18 16 2 NoBin, SC 58 18 16 3 NoBin, SC 59 18 16 4 NoBin,
     SC 60 19 17 1 NoBin, SC 61 19 17 2 NoBin, SC 62 19 17 3 NoBin, SC 63 19 17 4 NoBin,
     SC 64 20 18 1 NoBin, SC 65 20 18 2 NoBin, SC 66 20 18 3 NoBin, SC 67 20 18 4 NoBin,
     SC 68 21 19 1 NoBin, SC 69 21 19 2 NoBin, SC 70 21 19 3 NoBin, SC 71 21 19 4 NoBin,
     SC 72 22 20 1 NoBin, SC 73 22 20 2 NoBin, SC 74 22 20 3 NoBin, SC 75 22 20 4 NoBin,
     SC 76 23 21 1 NoBin, SC 77 23 21 2 NoBin, SC 78 23 21 3 NoBin, SC 79 23 21 4 NoBin,
     SC 80 24 22 1 NoBin, SC 81 24 22 2 NoBin, SC 82 24 22 3 NoBin, SC 83 24 22 4 NoBin,
     SC 84 25 23 1 NoBin, SC 85 25 23 2 NoBin, SC 86 25 23 3 NoBin, SC 87 25 23 4 NoBin,
     SC 88 26 24 1 NoBin, SC 89 26 24 2 NoBin, SC 90 26 24 3 NoBin, SC 91 26 24 4 NoBin,
     SC 92 27 25 1 NoBin, SC 93 27 25 2 NoBin, SC 94 27 25 3 NoBin, SC 95 27 25 4 NoBin]"

definition classes_below_192 :: "sc_row list" where
  "classes_below_192 =
    [SC 96 28 26 1 NoBin, SC 97 28 26 2 NoBin, SC 98 28 26 3 NoBin, SC 99 28 26 4 NoBin,
     SC 100 29 27 1 NoBin, SC 101 29 27 2 NoBin, SC 102 29 27 3 NoBin, SC 103 29 27 4 NoBin,
     SC 104 30 28 1 NoBin, SC 105 30 28 2 NoBin, SC 106 30 28 3 NoBin, SC 107 30 28 4 NoBin,
     SC 108 31 29 1 NoBin, SC 109 31 29 2 NoBin, SC 110 31 29 3 NoBin, SC 111 31 29 4 NoBin,
     SC 112 32 30 1 NoBin, SC 113 32 30 2 NoBin, SC 114 32 30 3 NoBin, SC 115 32 30 4 NoBin,
     SC 116 33 31 1 NoBin, SC 117 33 31 2 NoBin, SC 118 33 31 3 NoBin, SC 119 33 31 4 NoBin,
     SC 120 34 32 1 NoBin, SC 121 34 32 2 NoBin, SC 122 34 32 3 NoBin, SC 123 34 32 4 NoBin,
     SC 124 35 33 1 NoBin, SC 125 35 33 2 NoBin, SC 126 35 33 3 NoBin, SC 127 35 33 4 NoBin,
     SC 128 36 34 1 NoBin, SC 129 36 34 2 NoBin, SC 130 36 34 3 NoBin, SC 131 36 34 4 NoBin,
     SC 132 37 35 1 NoBin, SC 133 37 35 2 NoBin, SC 134 37 35 3 NoBin, SC 135 37 35 4 NoBin,
     SC 136 38 36 1 NoBin, SC 137 38 36 2 NoBin, SC 138 38 36 3 NoBin, SC 139 38 36 4 NoBin,
     SC 140 39 37 1 NoBin, SC 141 39 37 2 NoBin, SC 142 39 37 3 NoBin, SC 143 39 37 4 NoBin,
     SC 144 40 38 1 NoBin, SC 145 40 38 2 NoBin, SC 146 40 38 3 NoBin, SC 147 40 38 4 NoBin,
     SC 148 41 39 1 NoBin, SC 149 41 39 2 NoBin, SC 150 41 39 3 NoBin, SC 151 41 39 4 NoBin,
     SC 152 42 40 1 NoBin, SC 153 42 40 2 NoBin, SC 154 42 40 3 NoBin, SC 155 42 40 4 NoBin,
     SC 156 43 41 1 NoBin, SC 157 43 41 2 NoBin, SC 158 43 41 3 NoBin, SC 159 43 41 4 NoBin,
     SC 160 44 42 1 NoBin, SC 161 44 42 2 NoBin, SC 162 44 42 3 NoBin, SC 163 44 42 4 NoBin,
     SC 164 45 43 1 NoBin, SC 165 45 43 2 NoBin, SC 166 45 43 3 NoBin, SC 167 45 43 4 NoBin,
     SC 168 46 44 1 NoBin, SC 169 46 44 2 NoBin, SC 170 46 44 3 NoBin, SC 171 46 44 4 NoBin,
     SC 172 47 45 1 NoBin, SC 173 47 45 2 NoBin, SC 174 47 45 3 NoBin, SC 175 47 45 4 NoBin,
     SC 176 48 46 1 NoBin, SC 177 48 46 2 NoBin, SC 178 48 46 3 NoBin, SC 179 48 46 4 NoBin,
     SC 180 49 47 1 NoBin, SC 181 49 47 2 NoBin, SC 182 49 47 3 NoBin, SC 183 49 47 4 NoBin,
     SC 184 50 48 1 NoBin, SC 185 50 48 2 NoBin, SC 186 50 48 3 NoBin, SC 187 50 48 4 NoBin,
     SC 188 51 49 1 NoBin, SC 189 51 49 2 NoBin, SC 190 51 49 3 NoBin, SC 191 51 49 4 NoBin]"

definition classes_from_192 :: "sc_row list" where
  "classes_from_192 =
    [SC 192 52 50 1 NoBin, SC 193 52 50 2 NoBin, SC 194 52 50 3 NoBin, SC 195 52 50 4 NoBin,
     SC 196 53 51 1 NoBin, SC 197 53 51 2 NoBin, SC 198 53 51 3 NoBin, SC 199 53 51 4 NoBin,
     SC 200 54 52 1 NoBin, SC 201 54 52 2 NoBin, SC 202 54 52 3 NoBin, SC 203 54 52 4 NoBin,
     SC 204 55 53 1 NoBin, SC 205 55 53 2 NoBin, SC 206 55 53 3 NoBin, SC 207 55 53 4 NoBin,
     SC 208 56 54 1 NoBin, SC 209 56 54 2 NoBin, SC 210 56 54 3 NoBin, SC 211 56 54 4 NoBin,
     SC 212 57 55 1 NoBin, SC 213 57 55 2 NoBin, SC 214 57 55 3 NoBin, SC 215 57 55 4 NoBin,
     SC 216 58 56 1 NoBin, SC 217 58 56 2 NoBin, SC 218 58 56 3 NoBin, SC 219 58 56 4 NoBin,
     SC 220 59 57 1 NoBin, SC 221 59 57 2 NoBin, SC 222 59 57 3 NoBin, SC 223 59 57 4 NoBin,
     SC 224 60 58 1 NoBin, SC 225 60 58 2 NoBin, SC 226 60 58 3 NoBin, SC 227 60 58 4 NoBin,
     SC 228 61 59 1 NoBin, SC 229 61 59 2 NoBin, SC 230 61 59 3 NoBin, SC 231 61 59 4 NoBin,
     SC 232 62 60 1 NoBin, SC 233 62 60 2 NoBin, SC 234 62 60 3 NoBin]"

definition SIZE_CLASSES :: "sc_row list" where
  "SIZE_CLASSES = classes_below_96 @ classes_below_192 @ classes_from_192"

record sc_entry =
  block_size :: nat
  sb_size :: nat
  block_num :: nat
  cache_block_num :: nat

definition make_entry :: "nat \<Rightarrow> sc_entry" where
  "make_entry bs = \<lparr>block_size = bs, sb_size = kSuperBlockSize, block_num = kSuperBlockSize div bs,
     cache_block_num = kSuperBlockSize div bs\<rparr>"

fun expand_row :: "sc_row \<Rightarrow> sc_entry list" where
  "expand_row (SC i g d n Bin) = [make_entry (2 ^ g + n * 2 ^ d)]"
| "expand_row (SC i g d n NoBin) = []"

definition size_classes :: "sc_entry list" where
  "size_classes = \<lparr>block_size = 0, sb_size = 0, block_num = 0, cache_block_num = 0\<rparr> # concat (map expand_row SIZE_CLASSES)"

definition get_entry :: "nat \<Rightarrow> sc_entry" where "get_entry idx = size_classes ! idx"

subsection \<open>The lookup table\<close>

text \<open>\<^verbatim>\<open>while (size_idx <= block_size) size_class_lookup[size_idx++] = entry_idx\<close>\<close>

function fill_lookup :: "nat \<Rightarrow> nat \<Rightarrow> nat \<times> (nat \<Rightarrow> nat) \<Rightarrow> nat \<times> (nat \<Rightarrow> nat)" where
  "fill_lookup entry_idx bs (size_idx, table) =
     (if size_idx \<le> bs then fill_lookup entry_idx bs (Suc size_idx, table(size_idx := entry_idx)) else (size_idx, table))"
  by pat_completeness auto
termination by (relation "measure (\<lambda>(e, bs, i, t). Suc bs - i)") auto

declare fill_lookup.simps [simp del]

definition size_class_lookup :: "nat \<Rightarrow> nat" where
  "size_class_lookup = snd (fold (\<lambda>e. fill_lookup e (block_size (get_entry e))) [1..<kMaxSizeClasses] (0, \<lambda>_. 0))"

lemma fill_lookup_eq:
  "fill_lookup e bs (i, t) = (max i (Suc bs), \<lambda>k. if i \<le> k \<and> k \<le> bs then e else t k)"
proof (induction "Suc bs - i" arbitrary: i t)
  case 0
  then show ?case by (subst fill_lookup.simps) (auto simp: fun_eq_iff)
next
  case (Suc d)
  then have "d = Suc bs - Suc i" "i \<le> bs" by auto
  with Suc.hyps(1) [of "Suc i" "t(i := e)"] show ?case
    by (subst fill_lookup.simps) (auto simp: fun_eq_iff)
qed

lemma block_sizes:
  "map block_size size_classes = [0, 8, 16, 24, 32, 40, 48, 56, 64, 80, 96, 112, 128, 160, 192, 224, 256, 320, 384, 448, 512,
     640, 768, 896, 1024, 1280, 1536, 1792, 2048, 2560, 3072, 3584, 4096, 5120, 6144, 7168, 8192, 10240, 12288, 14336]"
  by (simp add: size_classes_def SIZE_CLASSES_def classes_below_96_def classes_below_192_def classes_from_192_def make_entry_def geometry)

abbreviation bsz :: "nat \<Rightarrow> nat" where "bsz c \<equiv> block_size (get_entry c)"

lemma length_size_classes: "length size_classes = 40"
  using arg_cong [OF block_sizes, of length] by simp

lemma bsz_nth: "c < 40 \<Longrightarrow> bsz c = map block_size size_classes ! c"
  by (simp add: get_entry_def length_size_classes)

text \<open>Statements about every class follow by evaluation on the table.\<close>

lemma bsz_facts: "\<forall>c < 40. (0 < c \<longrightarrow> 8 \<le> bsz c) \<and> bsz c \<le> kMaxSize \<and> 8 dvd bsz c"
proof -
  have "list_all (\<lambda>c. (0 < c \<longrightarrow> 8 \<le> map block_size size_classes ! c) \<and> map block_size size_classes ! c \<le> kMaxSize \<and>
     8 dvd map block_size size_classes ! c) [0..<40]"
    unfolding block_sizes by (simp add: upt_rec kMaxSize_def)
  then show ?thesis by (simp add: bsz_nth list_all_iff)
qed

lemma bsz_step: "\<forall>c < 39. bsz c < bsz (Suc c) \<and> 4 * bsz (Suc c) \<le> 5 * bsz c + 32"
proof -
  have "list_all (\<lambda>c. map block_size size_classes ! c < map block_size size_classes ! Suc c \<and>
     4 * map block_size size_classes ! Suc c \<le> 5 * map block_size size_classes ! c + 32) [0..<39]"
    unfolding block_sizes by (simp add: upt_rec)
  then show ?thesis by (simp add: bsz_nth list_all_iff)
qed


lemma bsz_pred: "1 < k \<Longrightarrow> k < 40 \<Longrightarrow> bsz (k - 1) < bsz k \<and> 4 * bsz k \<le> 5 * bsz (k - 1) + 32"
  using bsz_step by (cases k) simp_all

lemma bsz_last: "bsz 39 = kMaxSize"
  by (simp add: bsz_nth block_sizes kMaxSize_def)

lemma entry_facts:
  assumes "0 < c" and "c < 40"
  shows "sb_size (get_entry c) = kSuperBlockSize" and "block_num (get_entry c) = kSuperBlockSize div bsz c"
    and "cache_block_num (get_entry c) = block_num (get_entry c)"
proof -
  have "e = make_entry (block_size e)" if "e \<in> set (expand_row r)" for e r
    using that by (cases r rule: expand_row.cases) (simp_all add: make_entry_def)
  then have "\<forall>e \<in> set size_classes. e = make_entry (block_size e) \<or> e = size_classes ! 0"
    by (auto simp: size_classes_def)
  moreover have c: "get_entry c \<in> set size_classes" using assms by (simp add: get_entry_def length_size_classes)
  moreover have "get_entry c \<noteq> size_classes ! 0"
    using bsz_facts assms by (auto simp: size_classes_def)
  ultimately have "get_entry c = make_entry (bsz c)" by blast
  then have "sb_size (get_entry c) = sb_size (make_entry (bsz c))" "block_num (get_entry c) = block_num (make_entry (bsz c))"
    "cache_block_num (get_entry c) = cache_block_num (make_entry (bsz c))" by simp_all
  then show "sb_size (get_entry c) = kSuperBlockSize" "block_num (get_entry c) = kSuperBlockSize div bsz c"
    "cache_block_num (get_entry c) = block_num (get_entry c)" by (simp_all add: make_entry_def)
qed

text \<open>After \<open>k - 1\<close> entries the table is right for every size up to the last of them.\<close>

lemma lookup_prefix:
  assumes "1 \<le> k" and "k \<le> 40"
  shows "\<exists>t. fold (\<lambda>e. fill_lookup e (bsz e)) [1..<k] (0, \<lambda>_. 0) = (if k = 1 then 0 else Suc (bsz (k - 1)), t) \<and>
    (\<forall>s. k \<noteq> 1 \<and> s \<le> bsz (k - 1) \<longrightarrow> 1 \<le> t s \<and> t s < k \<and> s \<le> bsz (t s) \<and> (t s = 1 \<or> bsz (t s - 1) < s))"
  using assms
proof (induction k rule: nat_induct_at_least)
  case base
  then show ?case by simp
next
  case (Suc k)
  then obtain t where t: "fold (\<lambda>e. fill_lookup e (bsz e)) [1..<k] (0, \<lambda>_. 0) = (if k = 1 then 0 else Suc (bsz (k - 1)), t)"
    "\<forall>s. k \<noteq> 1 \<and> s \<le> bsz (k - 1) \<longrightarrow> 1 \<le> t s \<and> t s < k \<and> s \<le> bsz (t s) \<and> (t s = 1 \<or> bsz (t s - 1) < s)" by auto
  define i where "i = (if k = 1 then 0 else Suc (bsz (k - 1)))"
  have le: "i \<le> Suc (bsz k)"
    using bsz_pred [of k] Suc.prems Suc.hyps by (cases "k = 1") (auto simp: i_def)
  define t' where "t' = (\<lambda>s. if i \<le> s \<and> s \<le> bsz k then k else t s)"
  have "fold (\<lambda>e. fill_lookup e (bsz e)) [1..<Suc k] (0, \<lambda>_. 0) = fill_lookup k (bsz k) (i, t)"
    using t(1) Suc.hyps by (simp add: i_def)
  also have "\<dots> = (Suc (bsz k), t')" using le by (simp add: fill_lookup_eq t'_def)
  finally have "fold (\<lambda>e. fill_lookup e (bsz e)) [1..<Suc k] (0, \<lambda>_. 0) = (Suc (bsz k), t')" .
  moreover have "1 \<le> t' s \<and> t' s < Suc k \<and> s \<le> bsz (t' s) \<and> (t' s = 1 \<or> bsz (t' s - 1) < s)" if "s \<le> bsz k" for s
  proof (cases "i \<le> s")
    case True
    then show ?thesis using that Suc.hyps by (auto simp: t'_def i_def split: if_splits)
  next
    case False
    then have "k \<noteq> 1 \<and> s \<le> bsz (k - 1)" by (auto simp: i_def split: if_splits)
    from t(2) [rule_format, OF this] False show ?thesis by (simp add: t'_def)
  qed
  ultimately show ?case using Suc.hyps by (intro exI [of _ t']) simp
qed

lemma lookup_ok:
  assumes "s \<le> kMaxSize"
  shows "1 \<le> size_class_lookup s" and "size_class_lookup s < kMaxSizeClasses" and "s \<le> bsz (size_class_lookup s)"
    and "size_class_lookup s = 1 \<or> bsz (size_class_lookup s - 1) < s"
proof -
  obtain t where "fold (\<lambda>e. fill_lookup e (bsz e)) [1..<40] (0, \<lambda>_. 0) = (Suc (bsz 39), t)"
    "\<forall>s. s \<le> bsz 39 \<longrightarrow> 1 \<le> t s \<and> t s < 40 \<and> s \<le> bsz (t s) \<and> (t s = 1 \<or> bsz (t s - 1) < s)"
    using lookup_prefix [of 40] by auto
  then have "1 \<le> size_class_lookup s \<and> size_class_lookup s < kMaxSizeClasses \<and> s \<le> bsz (size_class_lookup s) \<and>
    (size_class_lookup s = 1 \<or> bsz (size_class_lookup s - 1) < s)"
    using assms by (simp add: size_class_lookup_def bsz_last kMaxSizeClasses_def)
  then show "1 \<le> size_class_lookup s" and "size_class_lookup s < kMaxSizeClasses" and "s \<le> bsz (size_class_lookup s)"
    and "size_class_lookup s = 1 \<or> bsz (size_class_lookup s - 1) < s" by blast+
qed

lemma bsz_mono: "c \<le> d \<Longrightarrow> d < 40 \<Longrightarrow> bsz c \<le> bsz d"
proof (induction d rule: nat_induct_at_least)
  case (Suc d)
  then show ?case using bsz_step [rule_format, of d] by simp
qed simp

text \<open>
  C32. The lookup table returns, for every size the small allocator serves, the smallest size class
  that can hold it, and the block is at most a quarter plus eight bytes larger than the request.
\<close>

theorem size_class_lookup_best:
  assumes "s \<le> kMaxSize"
  shows "1 \<le> size_class_lookup s \<and> size_class_lookup s < kMaxSizeClasses \<and> s \<le> block_size (get_entry (size_class_lookup s)) \<and>
    (\<forall>c. 1 \<le> c \<and> c < kMaxSizeClasses \<and> s \<le> block_size (get_entry c) \<longrightarrow> size_class_lookup s \<le> c) \<and>
    4 * block_size (get_entry (size_class_lookup s)) \<le> 5 * s + 32"
proof -
  define c where "c = size_class_lookup s"
  note l = lookup_ok [OF assms, folded c_def]
  have "c \<le> d" if "1 \<le> d" "d < kMaxSizeClasses" "s \<le> bsz d" for d
  proof (rule ccontr)
    assume "\<not> c \<le> d"
    then have "bsz d \<le> bsz (c - 1)" using bsz_mono [of d "c - 1"] l(2) by (simp add: kMaxSizeClasses_def)
    then show False using l(4) that \<open>\<not> c \<le> d\<close> by auto
  qed
  moreover have "4 * bsz c \<le> 5 * s + 32"
  proof (cases "c = 1")
    case True
    then show ?thesis by (simp add: bsz_nth block_sizes)
  next
    case False
    then show ?thesis using l bsz_pred [of c] by (simp add: kMaxSizeClasses_def)
  qed
  ultimately show ?thesis using l(1-3) by (auto simp: c_def)
qed

theorem size_class_lookup_best_witness:
  "size_class_lookup 100 < kMaxSizeClasses \<and> 100 \<le> block_size (get_entry (size_class_lookup 100))"
  using size_class_lookup_best [of 100] by (simp add: kMaxSize_def)

end
