(* ===== verification/Pptr.thy ===== *)
theory Pptr
  imports Prelude
begin

text \<open>
  \<^verbatim>\<open>include/internal/pptr.h\<close>: pointers stored as the distance from their own
  location, in the upper 48 bits of a 64-bit word, under a 16-bit pattern that tells the sign and
  leaves the low byte to the stamp of the atomic variant. A pointer is its address as a 64-bit
  word, the null pointer is 0, and a stored pointer is the word at the location \<open>p\<close>.
\<close>

definition kPPtrPatternPositive :: u64 where "kPPtrPatternPositive = 0xb000"
definition kPPtrPatternNegative :: u64 where "kPPtrPatternNegative = 0xb100"
definition kPPtrReservedShift :: nat where "kPPtrReservedShift = 16"
definition kPPtrReservedMask :: u64 where "kPPtrReservedMask = 0xfe00"

lemmas pptr_constants = kPPtrPatternPositive_def kPPtrPatternNegative_def kPPtrReservedShift_def kPPtrReservedMask_def

definition is_null_pptr :: "u64 \<Rightarrow> bool" where
  "is_null_pptr off \<longleftrightarrow> off AND NOT 0xff = kPPtrPatternPositive"

definition is_valid_pptr :: "u64 \<Rightarrow> bool" where
  "is_valid_pptr off \<longleftrightarrow> off AND kPPtrReservedMask = kPPtrPatternPositive"

definition to_pptr_off :: "u64 \<Rightarrow> u64 \<Rightarrow> u64" where
  "to_pptr_off v p =
     (if v = 0 then kPPtrPatternPositive
      else if p < v then push_bit kPPtrReservedShift (v - p) OR kPPtrPatternPositive
      else push_bit kPPtrReservedShift (p - v) OR kPPtrPatternNegative)"

definition from_pptr_off :: "u64 \<Rightarrow> u64 \<Rightarrow> u64" where
  "from_pptr_off off p =
     (if \<not> is_valid_pptr off \<or> is_null_pptr off then 0
      else if off AND 0x0100 \<noteq> 0 then p - drop_bit kPPtrReservedShift off
      else p + drop_bit kPPtrReservedShift off)"

subsection \<open>Plain and atomic pointers\<close>

text \<open>
  Copying a stored pointer from location \<open>q\<close> to location \<open>p\<close> goes through the address
  it denotes. The atomic variant has the same representation.
\<close>

definition pptr_copy :: "u64 \<Rightarrow> u64 \<Rightarrow> u64 \<Rightarrow> u64" where
  "pptr_copy off q p = to_pptr_off (from_pptr_off off q) p"

definition pptr_is_null :: "u64 \<Rightarrow> bool" where "pptr_is_null off \<longleftrightarrow> off = kPPtrPatternPositive"

definition pptr_eq :: "u64 \<Rightarrow> u64 \<Rightarrow> u64 \<Rightarrow> u64 \<Rightarrow> bool" where
  "pptr_eq off p off' p' \<longleftrightarrow> from_pptr_off off p = from_pptr_off off' p'"

text \<open>
  \<^verbatim>\<open>compare_exchange\<close> on the word \<open>off\<close> at location \<open>p\<close>: whether it
  succeeded, the word afterwards, and what \<^verbatim>\<open>expected\<close> (and the expected stamp) become.
\<close>

definition pptr_cas :: "u64 \<Rightarrow> u64 \<Rightarrow> u64 \<Rightarrow> u64 \<Rightarrow> bool \<times> u64 \<times> u64" where
  "pptr_cas p expected desired off =
     (let old_off = to_pptr_off expected p; new_off = to_pptr_off desired p
      in if off = old_off then (True, new_off, expected)
         else (False, off, if is_null_pptr off then 0 else from_pptr_off off p))"

definition stamped_load :: "u64 \<Rightarrow> u64 \<Rightarrow> u64 \<times> u8" where
  "stamped_load off p = (from_pptr_off off p, ucast (off AND 0xff))"

definition stamped_cas :: "u64 \<Rightarrow> u64 \<Rightarrow> u64 \<Rightarrow> u8 \<Rightarrow> u8 \<Rightarrow> u64 \<Rightarrow> bool \<times> u64 \<times> u64 \<times> u8" where
  "stamped_cas p expected desired expected_stamp desired_stamp off =
     (let old_off = to_pptr_off expected p OR ucast expected_stamp;
          new_off = to_pptr_off desired p OR ucast desired_stamp
      in if off = old_off then (True, new_off, expected, expected_stamp)
         else if is_null_pptr off then (False, off, 0, expected_stamp)
         else (False, off, from_pptr_off off p, ucast (off AND 0xff)))"

subsection \<open>Bits of a stored pointer\<close>

lemma push_and_low:
  fixes d m :: u64
  assumes "take_bit 16 m = m"
  shows "push_bit 16 d AND m = 0"
proof (rule bit_word_eqI)
  fix n assume "n < LENGTH(64)"
  have "bit m n \<Longrightarrow> n < 16" using assms by (metis bit_take_bit_iff)
  then show "bit (push_bit 16 d AND m) n = bit (0 :: u64) n" by (auto simp: bit_and_iff bit_push_bit_iff)
qed

lemma drop_push:
  fixes d :: u64
  assumes "d < 2 ^ 48"
  shows "drop_bit 16 (push_bit 16 d) = d"
proof (rule bit_word_eqI)
  fix n assume "n < LENGTH(64)"
  have "take_bit 48 d = d" using less_mask_eq [OF assms] by (simp add: take_bit_eq_mask)
  then have "bit d n \<Longrightarrow> n < 48" by (metis bit_take_bit_iff)
  then show "bit (drop_bit 16 (push_bit 16 d)) n = bit d n"
    using bit_imp_le_length [of d n] by (auto simp: bit_drop_bit_eq bit_push_bit_iff)
qed


lemma stamp_low: "take_bit 8 (ucast (s :: u8) :: u64) = ucast s"
  by (rule bit_word_eqI) (auto simp: bit_simps dest: bit_imp_le_length)

lemma masks: "(mask 8 :: u64) = 0xff" "(mask 16 :: u64) = 0xffff"
  by (simp_all add: mask_eq_decr_exp)

text \<open>A stored pointer: a distance below \<open>2 ^ 48\<close>, the pattern of its sign, and a stamp.\<close>

lemma low_and:
  fixes x m :: u64
  assumes "take_bit 8 x = x" and "0xff AND m = 0"
  shows "x AND m = 0"
proof -
  have "x AND m = (x AND 0xff) AND m" using assms(1) by (simp add: take_bit_eq_mask masks)
  also have "\<dots> = x AND (0xff AND m)" by (rule and.assoc)
  finally show ?thesis using assms(2) by simp
qed

lemma keeps_high:
  fixes x m :: u64
  assumes "x AND m = 0"
  shows "x AND NOT m = x"
proof -
  have "x = (x AND m) OR (x AND NOT m)" by (simp add: bit.conj_disj_distrib [symmetric])
  then show ?thesis using assms by simp
qed

lemma stored_fields:
  fixes d pat :: u64 and s :: u8
  assumes "d < 2 ^ 48" and "pat = 0xb000 \<or> pat = 0xb100"
  defines "w \<equiv> (push_bit 16 d OR pat) OR ucast s"
  shows "drop_bit 16 w = d" and "w AND 0xfe00 = 0xb000" and "w AND 0x100 = pat AND 0x100"
    and "w AND 0xff = ucast s" and "w AND NOT 0xff = push_bit 16 d OR pat"
proof -
  let ?u = "ucast s :: u64"
  have u16: "drop_bit 16 ?u = 0" by (rule bit_word_eqI) (auto simp: bit_simps dest: bit_imp_le_length)
  have p16: "drop_bit 16 pat = 0" using assms(2) by auto
  show "drop_bit 16 w = d" by (simp add: w_def drop_bit_or drop_push [OF assms(1)] u16 p16)
  note z = push_and_low [of "0xfe00" d] push_and_low [of "0x100" d] push_and_low [of "0xff" d]
  show "w AND 0xfe00 = 0xb000" "w AND 0x100 = pat AND 0x100" "w AND 0xff = ucast s"
    using assms(2) z low_and [OF stamp_low, of "0xfe00" s] low_and [OF stamp_low, of "0x100" s] stamp_low [of s]
    by (auto simp: w_def bit.conj_disj_distrib2 take_bit_eq_mask masks)
  have "push_bit 16 d AND NOT 0xff = push_bit 16 d"
    by (rule keeps_high) (use z(3) in simp)
  then show "w AND NOT 0xff = push_bit 16 d OR pat"
    using assms(2) low_and [OF stamp_low, of "NOT 0xff" s] by (auto simp: w_def bit.conj_disj_distrib2)
qed

text \<open>The distance between two addresses below \<open>2 ^ 48\<close>.\<close>

lemma distance:
  fixes v p :: u64
  assumes "v < 2 ^ 48" and "p \<le> v"
  shows "v - p < 2 ^ 48"
  using assms by unat_arith

lemma ucast_stamp [simp]: "ucast (ucast (s :: u8) :: u64) = s"
  by (rule bit_word_eqI) (auto simp: bit_simps)

text \<open>Storing a pointer with a stamp and reading both back.\<close>

lemma stored_round_trip:
  assumes "v < 2 ^ 48" and "p < 2 ^ 48"
  shows "from_pptr_off (to_pptr_off v p OR ucast s) p = v" and "(to_pptr_off v p OR ucast s) AND 0xff = (ucast (s :: u8) :: u64)"
    and "is_null_pptr (to_pptr_off v p OR ucast s) \<longleftrightarrow> v = 0"
proof -
  consider "v = 0" | "v \<noteq> 0" "p < v" | "v \<noteq> 0" "v \<le> p" by (metis not_le)
  then have "from_pptr_off (to_pptr_off v p OR ucast s) p = v \<and> (to_pptr_off v p OR ucast s) AND 0xff = ucast s \<and>
    (is_null_pptr (to_pptr_off v p OR ucast s) \<longleftrightarrow> v = 0)"
  proof cases
    case 1
    have "(0xb000 OR ucast s :: u64) AND NOT 0xff = 0xb000" "(0xb000 OR ucast s :: u64) AND 0xff = ucast s"
      using stored_fields(4,5) [of 0 "0xb000" s] by simp_all
    with 1 show ?thesis by (simp add: to_pptr_off_def from_pptr_off_def is_null_pptr_def pptr_constants)
  next
    case 2
    then have "v - p < 2 ^ 48" using distance [OF assms(1)] by simp
    define w where "w = (push_bit 16 (v - p) OR 0xb000) OR ucast s"
    have f: "drop_bit 16 w = v - p" "w AND 0xfe00 = 0xb000" "w AND 0x100 = 0" "w AND 0xff = ucast s"
      "w AND NOT 0xff = push_bit 16 (v - p) OR 0xb000"
      using stored_fields [OF \<open>v - p < 2 ^ 48\<close>, of "0xb000" s, folded w_def] by simp_all
    have w: "to_pptr_off v p OR ucast s = w" using 2 by (simp add: to_pptr_off_def w_def pptr_constants)
    have "v - p \<noteq> 0" using 2 by simp
    have "drop_bit 16 (push_bit 16 (v - p) OR 0xb000) = v - p"
      using stored_fields(1) [OF \<open>v - p < 2 ^ 48\<close>, of "0xb000" 0] by simp
    then have nn: "push_bit 16 (v - p) OR 0xb000 \<noteq> 0xb000" using \<open>v - p \<noteq> 0\<close> by (intro notI) simp
    from 2 f nn show ?thesis by (simp add: w from_pptr_off_def is_null_pptr_def is_valid_pptr_def pptr_constants)
  next
    case 3
    then have "p - v < 2 ^ 48" using distance [OF assms(2)] by simp
    define w where "w = (push_bit 16 (p - v) OR 0xb100) OR ucast s"
    have f: "drop_bit 16 w = p - v" "w AND 0xfe00 = 0xb000" "w AND 0x100 = 0x100" "w AND 0xff = ucast s"
      "w AND NOT 0xff = push_bit 16 (p - v) OR 0xb100"
      using stored_fields [OF \<open>p - v < 2 ^ 48\<close>, of "0xb100" s, folded w_def] by simp_all
    have w: "to_pptr_off v p OR ucast s = w" using 3 by (auto simp: to_pptr_off_def w_def pptr_constants)
    have nn: "push_bit 16 (p - v) OR 0xb100 \<noteq> 0xb000"
    proof
      assume "push_bit 16 (p - v) OR 0xb100 = 0xb000"
      with stored_fields(3) [OF \<open>p - v < 2 ^ 48\<close>, of "0xb100" 0] show False by simp
    qed
    from 3 f nn show ?thesis by (simp add: w from_pptr_off_def is_null_pptr_def is_valid_pptr_def pptr_constants)
  qed
  then show "from_pptr_off (to_pptr_off v p OR ucast s) p = v" and "(to_pptr_off v p OR ucast s) AND 0xff = (ucast s :: u64)"
    and "is_null_pptr (to_pptr_off v p OR ucast s) \<longleftrightarrow> v = 0" by blast+
qed


lemma stored_injective:
  assumes "v < 2 ^ 48" "v' < 2 ^ 48" "p < 2 ^ 48"
  shows "to_pptr_off v p OR ucast (s :: u8) = to_pptr_off v' p OR ucast (s' :: u8) \<longleftrightarrow> v = v' \<and> s = s'"
proof
  assume eq: "to_pptr_off v p OR ucast s = to_pptr_off v' p OR ucast s'"
  then have "v = v'" using stored_round_trip(1) [OF assms(1,3), of s] stored_round_trip(1) [OF assms(2,3), of s'] by simp
  moreover have "(ucast s :: u64) = ucast s'"
    using eq stored_round_trip(2) [OF assms(1,3), of s] stored_round_trip(2) [OF assms(2,3), of s'] by simp
  then have "ucast (ucast s :: u64) = (ucast (ucast s' :: u64) :: u8)" by simp
  then have "s = s'" by simp
  ultimately show "v = v' \<and> s = s'" ..
qed simp

text \<open>
  C36. A stored pointer denotes the address it was made from, whatever the stamp next to it, when
  addresses fit 48 bits; and a pool mapped elsewhere still denotes the moved target.
\<close>

theorem pptr_round_trip:
  assumes "v < 2 ^ 48" and "p < 2 ^ 48"
  shows "stamped_load (to_pptr_off v p OR ucast s) p = (v, s) \<and> from_pptr_off (to_pptr_off v p) p = v \<and>
    (v \<noteq> 0 \<longrightarrow> from_pptr_off (to_pptr_off v p) (p + shift) = v + shift) \<and>
    (q < 2 ^ 48 \<longrightarrow> from_pptr_off (pptr_copy (to_pptr_off v p) p q) q = v)"
proof -
  have ld: "stamped_load (to_pptr_off v p OR ucast s) p = (v, s)"
    using stored_round_trip(1,2) [OF assms, of s] by (simp add: stamped_load_def)
  have rt: "from_pptr_off (to_pptr_off v p) p = v" using stored_round_trip(1) [OF assms, of 0] by simp
  have mv: "from_pptr_off off (p + shift) = from_pptr_off off p + shift" if "from_pptr_off off p \<noteq> 0" for off
    using that by (simp add: from_pptr_off_def split: if_splits)
  have "from_pptr_off (pptr_copy (to_pptr_off v p) p q) q = v" if "q < 2 ^ 48"
    using stored_round_trip(1) [OF assms(1) that, of 0] by (simp add: pptr_copy_def rt)
  then show ?thesis using ld rt mv [of "to_pptr_off v p"] by auto
qed

theorem pptr_round_trip_witness:
  "stamped_load (to_pptr_off 0x1000 0x2000 OR ucast (7 :: u8)) 0x2000 = (0x1000, 7)"
  using pptr_round_trip [of "0x1000" "0x2000" 7] by simp

text \<open>
  The stamped compare-and-swap succeeds exactly when the word holds the expected pointer and
  the expected stamp, and then it holds the desired ones; otherwise the word is unchanged and the
  caller learns the pointer it holds, and the stamp as well unless that pointer is null: then the
  expected stamp stays what it was.
\<close>

theorem stamped_cas_correct:
  assumes "v < 2 ^ 48" "e < 2 ^ 48" "n < 2 ^ 48" "p < 2 ^ 48"
  shows "stamped_cas p e n es ns (to_pptr_off v p OR ucast s) =
    (if v = e \<and> s = es then (True, to_pptr_off n p OR ucast ns, e, es)
     else (False, to_pptr_off v p OR ucast s, v, if v = 0 then es else s))"
  using stored_injective [OF assms(1,2,4), of s es] stored_round_trip [OF assms(1,4), of s]
  by (auto simp: stamped_cas_def Let_def)

theorem stamped_cas_correct_witness:
  "stamped_cas 0x2000 0x1000 0 5 6 (to_pptr_off 0 0x2000 OR ucast (9 :: u8)) = (False, to_pptr_off 0 0x2000 OR ucast (9 :: u8), 0, 5)"
  using stamped_cas_correct [of 0 "0x1000" 0 "0x2000" 5 6 9] by simp

end
