(* ===== verification/LrMalloc.thy ===== *)
theory LrMalloc
  imports SizeClass Pptr "HOL-Library.Monad_Syntax"
begin

text \<open>
  \<^verbatim>\<open>allocators/lrmalloc_allocator.h\<close> and
  \<^verbatim>\<open>allocators/lrmalloc_allocator.cpp\<close>: the allocator of the pool. Superblocks of
  64 KiB are cut into blocks of one sz class; free blocks are linked through their first word,
  free superblocks through their descriptors; every thread keeps a cache of blocks per sz class.

  The operations run one at a time: a compare-and-swap whose expected value was loaded just before
  succeeds (\<open>stamped_cas_correct\<close> says what it then does), so its retry loop is not written
  out; the one loop that may retry on its own, in \<^verbatim>\<open>alloc_small_sb\<close>, is. Pointers
  are addresses, with 0 for null, which \<open>pptr_round_trip\<close> justifies; pointers to
  descriptors are their index in the descriptor array. \<open>None\<close> is the process stopping: a
  failed \<^verbatim>\<open>assert\<close>, an \<^verbatim>\<open>exit\<close> or a null pointer that is followed.
\<close>

definition kMinAllocateSuperBlockSize :: nat where "kMinAllocateSuperBlockSize = 2 * 2 ^ 20"
definition kMetadataHeaderMagic :: nat where "kMetadataHeaderMagic = 0xc3c3c3c3"
definition kDescriptorSize :: nat where "kDescriptorSize = kCacheLineSize"
definition kMaxRoots :: nat where "kMaxRoots = 1024"

text \<open>\<^verbatim>\<open>sizeof(Metadata)\<close>: a cache line, the heaps (a cache line each) and the roots.\<close>

definition sizeof_Metadata :: nat where
  "sizeof_Metadata = kCacheLineSize + kMaxSizeClasses * kCacheLineSize + kMaxRoots * 8"

lemmas lr_constants [geometry] = kMinAllocateSuperBlockSize_def kMetadataHeaderMagic_def kDescriptorSize_def
  kMaxRoots_def sizeof_Metadata_def

subsection \<open>State\<close>

datatype sb_state = SB_INVALID | SB_EMPTY | SB_PARTIAL | SB_FULL

record anchor =
  avail :: nat
  count :: nat
  state :: sb_state

record descriptor =
  next_free :: "nat option"
  next_partial :: "nat option"
  anchor :: anchor
  superblock :: nat
  heap :: "nat option"
  desc_block_size :: nat
  max_count :: nat

text \<open>The constructor \<^verbatim>\<open>Descriptor()\<close>.\<close>

definition Descriptor :: descriptor where
  "Descriptor = \<lparr>next_free = None, next_partial = None, anchor = \<lparr>avail = 0, count = 0, state = SB_INVALID\<rparr>,
     superblock = 0, heap = None, desc_block_size = 0, max_count = 0\<rparr>"

text \<open>\<^verbatim>\<open>atomic_stamped_pptr<Descriptor>\<close>: a pointer and its stamp.\<close>

type_synonym head = "nat option \<times> u8"

record bin =
  block :: nat
  bin_num :: nat

definition empty_bin :: bin where "empty_bin = \<lparr>block = 0, bin_num = 0\<rparr>"

record lralloc =
  magic :: nat
  avail_sb :: head
  descs :: "nat \<Rightarrow> descriptor"
  first_sb :: nat
  bulk_tail :: nat
  partial_list :: "nat \<Rightarrow> head"
  roots :: "nat \<Rightarrow> nat"
  mem :: "nat \<Rightarrow> nat"
  address_limit :: nat
  caches :: "nat \<Rightarrow> nat \<Rightarrow> bin"

definition ensure :: "bool \<Rightarrow> unit option" where "ensure b = (if b then Some () else None)"

lemma ensure_bind [simp]: "(ensure b \<bind> f = Some x) \<longleftrightarrow> b \<and> f () = Some x"
  by (simp add: ensure_def)

lemma ensure_True [simp]: "ensure True \<bind> f = f ()"
  by (simp add: ensure_def)

definition set_desc :: "nat \<Rightarrow> (descriptor \<Rightarrow> descriptor) \<Rightarrow> lralloc \<Rightarrow> lralloc" where
  "set_desc d f a = a\<lparr>descs := (descs a)(d := f (descs a d))\<rparr>"

definition set_bin :: "nat \<Rightarrow> nat \<Rightarrow> bin \<Rightarrow> lralloc \<Rightarrow> lralloc" where
  "set_bin tid sc b a = a\<lparr>caches := (caches a)(tid := (caches a tid)(sc := b))\<rparr>"

definition lookup_desc :: "lralloc \<Rightarrow> nat \<Rightarrow> nat" where
  "lookup_desc a sb = (sb - first_sb a) div 2 ^ kSuperBlockShift"

definition lookup_sb :: "lralloc \<Rightarrow> nat \<Rightarrow> nat" where
  "lookup_sb a d = first_sb a + d * 2 ^ kSuperBlockShift"

subsection \<open>Superblocks\<close>

datatype errno = EINVAL | ENOMEM | EAGAIN

text \<open>The alignment is one the caller passes as a constant; \<open>& (alignment - 1)\<close> is the remainder. The
  sums are of 64 bits, so a huge request wraps around.\<close>

definition is_power_of_two :: "u64 \<Rightarrow> bool" where
  "is_power_of_two x \<longleftrightarrow> x AND (NOT x + 1) = x"

definition bulk_allocate :: "nat \<Rightarrow> nat \<Rightarrow> lralloc \<Rightarrow> errno + (nat \<times> lralloc)" where
  "bulk_allocate alignment sz a =
     (if \<not> is_power_of_two (word_of_nat alignment) \<or> alignment < 8 then Inl EINVAL
      else let aln_adj = bulk_tail a mod alignment;
               res = (if aln_adj \<noteq> 0 then (bulk_tail a + (alignment - aln_adj)) mod 2 ^ 64 else bulk_tail a);
               new_tail = (res + sz) mod 2 ^ 64
           in if new_tail > address_limit a then Inl ENOMEM else Inr (res, a\<lparr>bulk_tail := new_tail\<rparr>))"

text \<open>Descriptors of \<open>count\<close> superblocks from \<open>sb\<close> on, chained and put before the free ones.\<close>

definition chain_step :: "nat \<Rightarrow> nat \<times> lralloc \<Rightarrow> nat \<times> lralloc" where
  "chain_step i = (\<lambda>(d, a). (d + 1, set_desc (d + 1) (\<lambda>_. Descriptor) (set_desc d (next_free_update (\<lambda>_. Some (d + 1))) a)))"

definition fill_sb_list :: "nat \<Rightarrow> nat \<Rightarrow> lralloc \<Rightarrow> lralloc" where
  "fill_sb_list sb n a =
     (let desc_start = lookup_desc a sb;
          (d, a1) = fold chain_step [1..<n] (desc_start, set_desc desc_start (\<lambda>_. Descriptor) a);
          (old_head, old_stamp) = avail_sb a1;
          a2 = set_desc d (next_free_update (\<lambda>_. old_head)) a1
      in a2\<lparr>avail_sb := (Some desc_start, old_stamp + 1)\<rparr>)"

text \<open>The stamped compare-and-swap on a head of descriptors, as in \<open>stamped_cas_correct\<close>.\<close>

definition head_cas :: "head \<Rightarrow> nat option \<Rightarrow> nat option \<Rightarrow> u8 \<Rightarrow> u8 \<Rightarrow> bool \<times> head \<times> nat option \<times> u8" where
  "head_cas h expected desired expected_stamp desired_stamp =
     (if h = (expected, expected_stamp) then (True, (desired, desired_stamp), expected, expected_stamp)
      else (False, h, fst h, if fst h = None then expected_stamp else snd h))"

partial_function (option) alloc_small_loop :: "nat option \<Rightarrow> u8 \<Rightarrow> lralloc \<Rightarrow> (nat \<times> lralloc) option" where
  "alloc_small_loop old_desc old_stamp a =
     (case old_desc of
        Some d \<Rightarrow>
          (case head_cas (avail_sb a) old_desc (next_free (descs a d)) old_stamp (old_stamp + 1) of
             (success, h, expected, stamp) \<Rightarrow>
               if success then Some (lookup_sb a d, a\<lparr>avail_sb := h\<rparr>) else alloc_small_loop expected stamp a)
      | None \<Rightarrow>
          (case bulk_allocate kPageSize kMinAllocateSuperBlockSize a of
             Inl e \<Rightarrow> (if e = ENOMEM then None else alloc_small_loop None old_stamp a)
           | Inr (sb_base, a1) \<Rightarrow>
               alloc_small_loop (Some (lookup_desc a1 sb_base)) old_stamp
                 (fill_sb_list sb_base (kMinAllocateSuperBlockSize div kSuperBlockSize) a1)))"

definition alloc_small_sb :: "nat \<Rightarrow> lralloc \<Rightarrow> (nat \<times> lralloc) option" where
  "alloc_small_sb sz a =
     do { ensure (sz = kSuperBlockSize); alloc_small_loop (fst (avail_sb a)) (snd (avail_sb a)) a }"

definition retire_small_sb :: "nat \<Rightarrow> nat \<Rightarrow> lralloc \<Rightarrow> lralloc option" where
  "retire_small_sb sb sz a =
     do { ensure (sz = kSuperBlockSize);
          let d = lookup_desc a sb;
          let a1 = set_desc d (\<lambda>_. Descriptor) a;
          let (old_head, old_stamp) = avail_sb a1;
          Some ((set_desc d (next_free_update (\<lambda>_. old_head)) a1)\<lparr>avail_sb := (Some d, old_stamp + 1)\<rparr>) }"

text \<open>
  A large block: a run of free superblocks at the head of the list that follow one another, or
  fresh memory. \<open>run_ok\<close> is the loop that checks the run, \<open>Some\<close> its last descriptor.
\<close>

fun run_ok :: "nat \<Rightarrow> nat \<Rightarrow> lralloc \<Rightarrow> nat option" where
  "run_ok 0 d a = Some d"
| "run_ok (Suc n) d a = (if next_free (descs a d) \<noteq> Some (d + 1) then None else run_ok n (d + 1) a)"

definition alloc_large_fresh :: "nat \<Rightarrow> lralloc \<Rightarrow> nat \<times> lralloc" where
  "alloc_large_fresh sz a =
     (case bulk_allocate kPageSize sz a of Inl _ \<Rightarrow> (0, a) | Inr r \<Rightarrow> r)"

definition alloc_large_sb :: "nat \<Rightarrow> lralloc \<Rightarrow> nat \<times> lralloc" where
  "alloc_large_sb sz a =
     (case avail_sb a of
        (None, _) \<Rightarrow> alloc_large_fresh sz a
      | (Some desc_start, old_stamp) \<Rightarrow>
          (case run_ok (sz div kSuperBlockSize - 1) desc_start a of
             None \<Rightarrow> alloc_large_fresh sz a
           | Some d \<Rightarrow> (lookup_sb a desc_start, a\<lparr>avail_sb := (next_free (descs a d), old_stamp + 1)\<rparr>)))"

definition retire_large_sb :: "nat \<Rightarrow> nat \<Rightarrow> lralloc \<Rightarrow> lralloc option" where
  "retire_large_sb sb sz a =
     do { ensure (sz mod kSuperBlockSize = 0); Some (fill_sb_list sb (sz div kSuperBlockSize) a) }"

subsection \<open>Partial superblocks\<close>

definition heap_push_partial :: "nat \<Rightarrow> lralloc \<Rightarrow> lralloc option" where
  "heap_push_partial d a =
     (case heap (descs a d) of
        None \<Rightarrow> None
      | Some h \<Rightarrow>
          (let (old_head, old_stamp) = partial_list a h in
           do { ensure (old_head \<noteq> Some d);
                Some ((set_desc d (next_partial_update (\<lambda>_. old_head)) a)
                  \<lparr>partial_list := (partial_list a)(h := (Some d, old_stamp + 1))\<rparr>) }))"

definition heap_pop_partial :: "nat \<Rightarrow> lralloc \<Rightarrow> nat option \<times> lralloc" where
  "heap_pop_partial h a =
     (case partial_list a h of
        (None, _) \<Rightarrow> (None, a)
      | (Some d, old_stamp) \<Rightarrow>
          (Some d, a\<lparr>partial_list := (partial_list a)(h := (next_partial (descs a d), old_stamp + 1))\<rparr>))"

subsection \<open>Caches\<close>

definition push_block :: "nat \<Rightarrow> nat \<Rightarrow> nat \<Rightarrow> lralloc \<Rightarrow> lralloc" where
  "push_block tid sc new_block a =
     (let b = caches a tid sc
      in set_bin tid sc \<lparr>block = new_block, bin_num = bin_num b + 1\<rparr> (a\<lparr>mem := (mem a)(new_block := block b)\<rparr>))"

definition pop_block :: "nat \<Rightarrow> nat \<Rightarrow> lralloc \<Rightarrow> (nat \<times> lralloc) option" where
  "pop_block tid sc a =
     (let b = caches a tid sc in
      do { ensure (bin_num b > 0);
           Some (block b, set_bin tid sc \<lparr>block = mem a (block b), bin_num = bin_num b - 1\<rparr> a) })"

definition push_list :: "nat \<Rightarrow> nat \<Rightarrow> nat \<Rightarrow> nat \<Rightarrow> lralloc \<Rightarrow> lralloc option" where
  "push_list tid sc head n a =
     do { ensure (bin_num (caches a tid sc) = 0); Some (set_bin tid sc \<lparr>block = head, bin_num = n\<rparr> a) }"

definition pop_list :: "nat \<Rightarrow> nat \<Rightarrow> nat \<Rightarrow> nat \<Rightarrow> lralloc \<Rightarrow> lralloc option" where
  "pop_list tid sc head n a =
     (let b = caches a tid sc in
      do { ensure (bin_num b \<ge> n); Some (set_bin tid sc \<lparr>block = head, bin_num = bin_num b - n\<rparr> a) })"

definition get_chunk_index :: "nat \<Rightarrow> nat \<Rightarrow> nat \<Rightarrow> nat option" where
  "get_chunk_index sb blk sc =
     do { ensure (sb \<le> blk \<and> blk < sb + sb_size (get_entry sc)); Some ((blk - sb) div block_size (get_entry sc)) }"

subsection \<open>Filling and flushing a cache\<close>

definition init_descriptor :: "nat \<Rightarrow> nat \<Rightarrow> nat \<Rightarrow> nat \<Rightarrow> descriptor \<Rightarrow> descriptor" where
  "init_descriptor h bs n sb d = d\<lparr>heap := Some h, desc_block_size := bs mod 2 ^ 32, max_count := n, superblock := sb\<rparr>"

definition link_blocks :: "nat \<Rightarrow> nat \<Rightarrow> nat \<Rightarrow> lralloc \<Rightarrow> lralloc" where
  "link_blocks sb bs n a =
     fold (\<lambda>idx a. a\<lparr>mem := (mem a)(sb + idx * bs := sb + (idx + 1) * bs)\<rparr>) [0..<n - 1] a"

definition malloc_from_new_sb :: "nat \<Rightarrow> nat \<Rightarrow> lralloc \<Rightarrow> (nat \<times> lralloc) option" where
  "malloc_from_new_sb tid sc a =
     (let entry = get_entry sc in
      do { (sb, a1) \<leftarrow> alloc_small_sb (sb_size entry) a;
           ensure (sb \<noteq> 0);
           let d = lookup_desc a1 sb;
           let a2 = set_desc d (\<lambda>_. init_descriptor sc (block_size entry) (block_num entry) sb Descriptor) a1;
           let a3 = link_blocks sb (block_size entry) (block_num entry) a2;
           a4 \<leftarrow> push_list tid sc sb (block_num entry) a3;
           let a5 = set_desc d (anchor_update (\<lambda>_. \<lparr>avail = block_num entry, count = 0, state = SB_FULL\<rparr>)) a4;
           Some (block_num entry, a5) })"

text \<open>An empty superblock found in the partial list is retired and the next one tried.\<close>

partial_function (option) malloc_from_partial :: "nat \<Rightarrow> nat \<Rightarrow> lralloc \<Rightarrow> (nat \<times> lralloc) option" where
  "malloc_from_partial tid sc a =
     (case heap_pop_partial sc a of
        (None, _) \<Rightarrow> Some (0, a)
      | (Some d, a1) \<Rightarrow>
          (let desc = descs a1 d; old = anchor desc in
           if heap desc = None then None
           else if state old = SB_EMPTY
           then Option.bind (retire_small_sb (superblock desc) (sb_size (get_entry sc)) a1) (\<lambda>a2. malloc_from_partial tid sc a2)
           else if state old \<noteq> SB_PARTIAL \<or> \<not> avail old < max_count desc then None
           else (let a2 = set_desc d (anchor_update (\<lambda>_. \<lparr>avail = max_count desc, count = 0, state = SB_FULL\<rparr>)) a1 in
                 Option.bind (push_list tid sc (superblock desc + avail old * desc_block_size desc) (count old) a2)
                   (\<lambda>a3. Some (count old, a3)))))"

definition fill_cache :: "nat \<Rightarrow> nat \<Rightarrow> lralloc \<Rightarrow> lralloc option" where
  "fill_cache tid sc a =
     do { (n, a1) \<leftarrow> malloc_from_partial tid sc a;
          (n', a2) \<leftarrow> (if n = 0 then malloc_from_new_sb tid sc a1 else Some (n, a1));
          ensure (n' > 0 \<and> n' \<le> cache_block_num (get_entry sc));
          Some a2 }"

text \<open>
  The run of cached blocks from \<open>tail\<close> on that lie in the same superblock: its length and its
  last block.
\<close>

function cached_run :: "(nat \<Rightarrow> nat) \<Rightarrow> nat \<Rightarrow> nat \<Rightarrow> nat \<Rightarrow> nat \<Rightarrow> nat \<Rightarrow> nat \<times> nat" where
  "cached_run m sb sz n block_count tail =
     (if block_count < n
      then let p = m tail in
        if p < sb \<or> sb + sz \<le> p then (block_count, tail) else cached_run m sb sz n (block_count + 1) p
      else (block_count, tail))"
  by pat_completeness auto
termination by (relation "measure (\<lambda>(m, sb, sz, n, k, t). n - k)") auto

declare cached_run.simps [simp del]

text \<open>The anchor after \<open>n\<close> blocks, the first with index \<open>idx\<close>, came back.\<close>

definition returned_anchor :: "nat \<Rightarrow> nat \<Rightarrow> nat \<Rightarrow> nat \<Rightarrow> anchor \<Rightarrow> anchor option" where
  "returned_anchor idx n max_cnt blocks old =
     do { ensure (idx < blocks);
          ensure (count old < max_cnt);
          if count old + n = max_cnt
          then Some \<lparr>avail = idx, count = max_cnt - 1, state = SB_EMPTY\<rparr>
          else do { ensure (count old + n < blocks);
                    Some \<lparr>avail = idx, count = count old + n, state = (if state old = SB_FULL then SB_PARTIAL else state old)\<rparr> } }"

text \<open>One round of \<^verbatim>\<open>flush_cache\<close>: a run of blocks goes back to its superblock.\<close>

definition flush_run :: "nat \<Rightarrow> nat \<Rightarrow> lralloc \<Rightarrow> lralloc option" where
  "flush_run tid sc a =
     (let entry = get_entry sc;
          head = block (caches a tid sc);
          d = lookup_desc a head;
          desc = descs a d;
          sb = superblock desc;
          (n, tail) = cached_run (mem a) sb (sb_size entry) (bin_num (caches a tid sc)) 1 head
      in do { a1 \<leftarrow> pop_list tid sc (mem a tail) n a;
              idx \<leftarrow> get_chunk_index sb head sc;
              let old = anchor desc;
              let a2 = a1\<lparr>mem := (mem a1)(tail := sb + avail old * block_size entry)\<rparr>;
              new \<leftarrow> returned_anchor idx n (max_count desc) (block_num entry) old;
              let a3 = set_desc d (anchor_update (\<lambda>_. new)) a2;
              if state old = SB_FULL
              then (if state new = SB_EMPTY then retire_small_sb sb kSuperBlockSize a3 else heap_push_partial d a3)
              else Some a3 })"

partial_function (option) flush_cache :: "nat \<Rightarrow> nat \<Rightarrow> lralloc \<Rightarrow> lralloc option" where
  "flush_cache tid sc a =
     (if bin_num (caches a tid sc) > 0
      then Option.bind (flush_run tid sc a) (\<lambda>a1. flush_cache tid sc a1) else Some a)"

subsection \<open>The allocator interface\<close>

definition pmalloc_large :: "nat \<Rightarrow> lralloc \<Rightarrow> nat \<times> lralloc" where
  "pmalloc_large sz a =
     (let rounded_size = RoundUp sz kSuperBlockSize;
          (p, a1) = alloc_large_sb rounded_size a
      in if p = 0 then (0, a1)
         else (p, set_desc (lookup_desc a1 p)
                (\<lambda>d. (init_descriptor 0 rounded_size 1 p d)\<lparr>anchor := \<lparr>avail = 0, count = 0, state = SB_FULL\<rparr>\<rparr>) a1))"

definition pmalloc :: "nat \<Rightarrow> nat \<Rightarrow> lralloc \<Rightarrow> (nat \<times> lralloc) option" where
  "pmalloc tid sz a =
     (if sz > kMaxSize then Some (pmalloc_large sz a)
      else let sc = size_class_lookup sz in
        do { a1 \<leftarrow> (if bin_num (caches a tid sc) = 0 then fill_cache tid sc a else Some a); pop_block tid sc a1 })"

definition pfree :: "nat \<Rightarrow> nat \<Rightarrow> lralloc \<Rightarrow> lralloc option" where
  "pfree tid ptr a =
     (if ptr = 0 then Some a
      else let desc = descs a (lookup_desc a ptr) in
        case heap desc of
          None \<Rightarrow> None
        | Some sc \<Rightarrow>
            if sc = 0 then retire_large_sb (superblock desc) (desc_block_size desc) a
            else do { a1 \<leftarrow> (if bin_num (caches a tid sc) \<ge> cache_block_num (get_entry sc) then flush_cache tid sc a else Some a);
                      Some (push_block tid sc ptr a1) })"

definition set_root :: "nat \<Rightarrow> nat \<Rightarrow> lralloc \<Rightarrow> lralloc option" where
  "set_root index object a = do { ensure (index < kMaxRoots); Some (a\<lparr>roots := (roots a)(index := object)\<rparr>) }"

definition get_root :: "nat \<Rightarrow> lralloc \<Rightarrow> nat option" where
  "get_root index a = do { ensure (index < kMaxRoots); Some (roots a index) }"

subsection \<open>Opening\<close>

definition first_sb_offset :: "nat \<Rightarrow> nat" where
  "first_sb_offset capacity =
     RoundUp sizeof_Metadata kPageSize + RoundUp (capacity div kSuperBlockSize * kDescriptorSize) kPageSize"

text \<open>\<open>ds\<close> and \<open>m\<close> are what the file holds in the descriptor array and in the superblocks.\<close>

definition setup_metadata :: "nat \<Rightarrow> nat \<Rightarrow> (nat \<Rightarrow> descriptor) \<Rightarrow> (nat \<Rightarrow> nat) \<Rightarrow> lralloc option" where
  "setup_metadata base capacity ds m =
     (let a = \<lparr>magic = 0, avail_sb = (None, 0), descs = ds, first_sb = base + first_sb_offset capacity,
               bulk_tail = base + first_sb_offset capacity, partial_list = (\<lambda>_. (None, 0)), roots = (\<lambda>_. 0), mem = m,
               address_limit = base + capacity, caches = (\<lambda>_ _. empty_bin)\<rparr>
      in case bulk_allocate kPageSize kMinAllocateSuperBlockSize a of
           Inl _ \<Rightarrow> None
         | Inr (new_sb, a1) \<Rightarrow>
             Some ((fill_sb_list (new_sb + kSuperBlockSize) (kMinAllocateSuperBlockSize div kSuperBlockSize - 1) a1)
               \<lparr>magic := kMetadataHeaderMagic\<rparr>))"

text \<open>
  Opening a pool with a snapshot finds the metadata of the snapshot; the caches, which live in
  DRAM, start empty.
\<close>

definition open_allocator :: "nat \<Rightarrow> nat \<Rightarrow> lralloc option \<Rightarrow> (nat \<Rightarrow> descriptor) \<Rightarrow> (nat \<Rightarrow> nat) \<Rightarrow> lralloc option" where
  "open_allocator base capacity snapshot ds m =
     (case snapshot of Some a \<Rightarrow> Some (a\<lparr>caches := (\<lambda>_ _. empty_bin)\<rparr>) | None \<Rightarrow> setup_metadata base capacity ds m)"

end
