(* ===== verification/LrMalloc_Inv.thy ===== *)
theory LrMalloc_Inv
  imports LrMalloc
begin

text \<open>
  The invariant of the allocator: what every superblock is used for, who owns every block, and
  how the lists in memory represent this. A ghost record names the lists.
\<close>

subsection \<open>Lists in memory\<close>

text \<open>A list of descriptors, and a list of blocks whose last link does not matter.\<close>

fun chain :: "(nat \<Rightarrow> nat option) \<Rightarrow> nat option \<Rightarrow> nat list \<Rightarrow> bool" where
  "chain nx p [] \<longleftrightarrow> p = None"
| "chain nx p (d # ds) \<longleftrightarrow> p = Some d \<and> chain nx (nx d) ds"

fun linked :: "(nat \<Rightarrow> nat) \<Rightarrow> nat list \<Rightarrow> bool" where
  "linked m (x # y # zs) \<longleftrightarrow> m x = y \<and> linked m (y # zs)"
| "linked m _ \<longleftrightarrow> True"

lemma chain_cong: "chain nx p ds \<Longrightarrow> (\<And>d. d \<in> set ds \<Longrightarrow> nx' d = nx d) \<Longrightarrow> chain nx' p ds"
  by (induction ds arbitrary: p) auto

lemma chain_None [simp]: "chain nx None ds \<longleftrightarrow> ds = []"
  by (cases ds) auto

lemma chain_Some: "chain nx (Some d) ds \<longleftrightarrow> (\<exists>rest. ds = d # rest \<and> chain nx (nx d) rest)"
  by (cases ds) auto

lemma linked_cong: "linked m xs \<Longrightarrow> (\<And>x. x \<in> set xs \<Longrightarrow> m' x = m x) \<Longrightarrow> linked m' xs"
  by (induction m xs rule: linked.induct) auto

lemma linked_Cons: "linked m (x # xs) \<longleftrightarrow> (xs = [] \<or> m x = hd xs \<and> linked m xs)"
  by (cases xs) auto

lemma linked_append:
  "linked m (xs @ ys) \<longleftrightarrow> linked m xs \<and> linked m ys \<and> (xs \<noteq> [] \<and> ys \<noteq> [] \<longrightarrow> m (last xs) = hd ys)"
  by (induction m xs rule: linked.induct) (auto simp: linked_Cons)

subsection \<open>Ghost state\<close>

datatype sb_use = Unused | Small nat | Part nat

datatype place = Free | Cached nat nat | Live

record view =
  nsb :: nat
  use_of :: "nat \<Rightarrow> sb_use option"
  large_of :: "nat \<Rightarrow> nat option"
  own :: "nat \<Rightarrow> place option"
  frees :: "nat list"
  parts :: "nat \<Rightarrow> nat list"
  fblk :: "nat \<Rightarrow> nat list"
  cblk :: "nat \<Rightarrow> nat \<Rightarrow> nat list"

definition sbi :: "nat \<Rightarrow> nat \<Rightarrow> nat" where "sbi f x = (x - f) div 65536"

abbreviation bnum :: "nat \<Rightarrow> nat" where "bnum sc \<equiv> block_num (get_entry sc)"

definition in_block :: "nat \<Rightarrow> nat \<Rightarrow> nat \<Rightarrow> nat \<Rightarrow> bool" where
  "in_block f d sc x \<longleftrightarrow> (\<exists>i < bnum sc. x = f + d * 65536 + i * bsz sc)"

text \<open>Addresses of the pool fit the 48 bits of a stored pointer (\<open>pptr_round_trip\<close>).\<close>

definition base_ok :: "lralloc \<Rightarrow> view \<Rightarrow> bool" where
  "base_ok a g \<longleftrightarrow> 0 < first_sb a \<and> kPageSize dvd first_sb a \<and> bulk_tail a = first_sb a + nsb g * 65536 \<and>
     bulk_tail a \<le> address_limit a \<and> address_limit a < 2 ^ 48"

definition spaces_ok :: "view \<Rightarrow> bool" where
  "spaces_ok g \<longleftrightarrow> (\<forall>d. use_of g d \<noteq> None \<longrightarrow> d < nsb g) \<and>
     (\<forall>d n. large_of g d = Some n \<longrightarrow> 0 < n \<and> (\<forall>k. d \<le> k \<and> k < d + n \<longrightarrow> use_of g k = Some (Part d)))"

definition frees_ok :: "lralloc \<Rightarrow> view \<Rightarrow> bool" where
  "frees_ok a g \<longleftrightarrow> chain (\<lambda>d. next_free (descs a d)) (fst (avail_sb a)) (frees g) \<and> distinct (frees g) \<and>
     set (frees g) = {d. use_of g d = Some Unused}"

definition parts_ok :: "lralloc \<Rightarrow> view \<Rightarrow> bool" where
  "parts_ok a g \<longleftrightarrow> (\<forall>sc. chain (\<lambda>d. next_partial (descs a d)) (fst (partial_list a sc)) (parts g sc) \<and> distinct (parts g sc) \<and>
     set (parts g sc) = {d. use_of g d = Some (Small sc) \<and> state (anchor (descs a d)) \<noteq> SB_FULL})"

text \<open>The descriptor of a superblock of class \<open>sc\<close>, whose free blocks are \<open>xs\<close>.\<close>

definition desc_ok :: "nat \<Rightarrow> descriptor \<Rightarrow> nat \<Rightarrow> nat \<Rightarrow> nat list \<Rightarrow> bool" where
  "desc_ok f dsc d sc xs \<longleftrightarrow> 1 \<le> sc \<and> sc < 40 \<and> heap dsc = Some sc \<and> desc_block_size dsc = bsz sc \<and> max_count dsc = bnum sc \<and>
     superblock dsc = f + d * 65536 \<and>
     (case state (anchor dsc) of
        SB_FULL \<Rightarrow> count (anchor dsc) = 0 \<and> xs = []
      | SB_PARTIAL \<Rightarrow> xs \<noteq> [] \<and> count (anchor dsc) = length xs \<and> length xs < bnum sc \<and> avail (anchor dsc) < bnum sc \<and>
          hd xs = f + d * 65536 + avail (anchor dsc) * bsz sc
      | SB_EMPTY \<Rightarrow> length xs = bnum sc
      | SB_INVALID \<Rightarrow> False)"

definition smalls_ok :: "lralloc \<Rightarrow> view \<Rightarrow> bool" where
  "smalls_ok a g \<longleftrightarrow> (\<forall>d sc. use_of g d = Some (Small sc) \<longrightarrow>
     desc_ok (first_sb a) (descs a d) d sc (fblk g d) \<and> distinct (fblk g d) \<and> linked (mem a) (fblk g d) \<and>
     set (fblk g d) = {x. own g x = Some Free \<and> sbi (first_sb a) x = d})"

definition larges_ok :: "lralloc \<Rightarrow> view \<Rightarrow> bool" where
  "larges_ok a g \<longleftrightarrow> (\<forall>d n. large_of g d = Some n \<longrightarrow> heap (descs a d) = Some 0 \<and>
     superblock (descs a d) = first_sb a + d * 65536 \<and> desc_block_size (descs a d) = n * 65536 mod 2 ^ 32)"

definition bins_ok :: "lralloc \<Rightarrow> view \<Rightarrow> bool" where
  "bins_ok a g \<longleftrightarrow> (\<forall>t sc. distinct (cblk g t sc) \<and> linked (mem a) (cblk g t sc) \<and>
     bin_num (caches a t sc) = length (cblk g t sc) \<and> (cblk g t sc \<noteq> [] \<longrightarrow> block (caches a t sc) = hd (cblk g t sc)) \<and>
     set (cblk g t sc) = {x. own g x = Some (Cached t sc)})"

definition own_ok :: "nat \<Rightarrow> view \<Rightarrow> bool" where
  "own_ok f g \<longleftrightarrow> (\<forall>x pl. own g x = Some pl \<longrightarrow>
     (\<exists>sc. use_of g (sbi f x) = Some (Small sc) \<and> in_block f (sbi f x) sc x \<and> (\<forall>t c. pl = Cached t c \<longrightarrow> c = sc)))"

definition ainv :: "lralloc \<Rightarrow> view \<Rightarrow> bool" where
  "ainv a g \<longleftrightarrow> base_ok a g \<and> spaces_ok g \<and> frees_ok a g \<and> parts_ok a g \<and> smalls_ok a g \<and> larges_ok a g \<and> bins_ok a g \<and>
     own_ok (first_sb a) g"

lemma ainvD:
  assumes "ainv a g"
  shows "base_ok a g" "spaces_ok g" "frees_ok a g" "parts_ok a g" "smalls_ok a g" "larges_ok a g" "bins_ok a g" "own_ok (first_sb a) g"
  using assms by (simp_all add: ainv_def)

subsection \<open>Geometry of blocks\<close>

lemma class_geometry:
  assumes "1 \<le> sc" and "sc < 40"
  shows "8 \<le> bsz sc" and "0 < bnum sc" and "bnum sc * bsz sc \<le> 65536" and "bsz sc < 2 ^ 32"
    and "sb_size (get_entry sc) = 65536" and "cache_block_num (get_entry sc) = bnum sc"
proof -
  have b: "8 \<le> bsz sc" "bsz sc \<le> 14336" using bsz_facts assms by (auto simp: kMaxSize_def)
  note e = entry_facts [of sc]
  show "8 \<le> bsz sc" "bsz sc < 2 ^ 32" using b by simp_all
  show "sb_size (get_entry sc) = 65536" "cache_block_num (get_entry sc) = bnum sc" using e assms by (simp_all add: geometry)
  have n: "bnum sc = 65536 div bsz sc" using e(2) assms by (simp add: geometry)
  show "0 < bnum sc" using b by (simp add: n div_greater_zero_iff)
  show "bnum sc * bsz sc \<le> 65536" unfolding n by (rule div_times_less_eq_dividend)
qed

lemma block_end:
  assumes "1 \<le> sc" and "sc < 40" and "i < bnum sc"
  shows "i * bsz sc + bsz sc \<le> 65536"
proof -
  have "Suc i * bsz sc \<le> bnum sc * bsz sc" using assms(3) by (intro mult_le_mono1) simp
  then show ?thesis using class_geometry(3) [OF assms(1,2)] by simp
qed

lemma in_block_bounds:
  assumes "1 \<le> sc" and "sc < 40" and "in_block f d sc x"
  shows "f + d * 65536 \<le> x" and "x + bsz sc \<le> f + d * 65536 + 65536" and "sbi f x = d"
proof -
  obtain i where i: "i < bnum sc" "x = f + d * 65536 + i * bsz sc" using assms(3) by (auto simp: in_block_def)
  note e = block_end [OF assms(1,2) i(1)] class_geometry(1) [OF assms(1,2)]
  show "f + d * 65536 \<le> x" "x + bsz sc \<le> f + d * 65536 + 65536" using i e by simp_all
  have "(x - f) div 65536 = d" by (rule div_nat_eqI) (use i e in simp_all)
  then show "sbi f x = d" by (simp add: sbi_def)
qed

lemma finite_blocks: "finite {x. in_block f d sc x}" "card {x. in_block f d sc x} \<le> bnum sc"
proof -
  have eq: "{x. in_block f d sc x} = (\<lambda>i. f + d * 65536 + i * bsz sc) ` {..<bnum sc}"
    by (auto simp: in_block_def)
  show "finite {x. in_block f d sc x}" "card {x. in_block f d sc x} \<le> bnum sc"
    unfolding eq using card_image_le [of "{..<bnum sc}"] by auto
qed

lemma blocks_bound:
  assumes "distinct xs" and "\<And>x. x \<in> set xs \<Longrightarrow> in_block f d sc x"
  shows "length xs \<le> bnum sc"
proof -
  have "card (set xs) \<le> card {x. in_block f d sc x}"
    by (rule card_mono [OF finite_blocks(1)]) (use assms(2) in auto)
  then show ?thesis using finite_blocks(2) [of f d sc] distinct_card [OF assms(1)] by simp
qed

text \<open>A superblock all of whose blocks are on its free list has no block anywhere else.\<close>

lemma all_free:
  assumes "distinct xs" and "\<And>x. x \<in> set xs \<Longrightarrow> in_block f d sc x" and "length xs = bnum sc" and "in_block f d sc y"
  shows "y \<in> set xs"
proof (rule ccontr)
  assume "y \<notin> set xs"
  then have "length (y # xs) \<le> bnum sc" using assms by (intro blocks_bound [of _ f d]) auto
  then show False using assms(3) by simp
qed

lemma own_okD:
  "own_ok f g \<Longrightarrow> own g x = Some pl \<Longrightarrow>
    \<exists>sc. use_of g (sbi f x) = Some (Small sc) \<and> in_block f (sbi f x) sc x \<and> (\<forall>t c. pl = Cached t c \<longrightarrow> c = sc)"
  by (simp add: own_ok_def)

lemma own_class:
  assumes "ainv a g" and "own g x = Some pl"
  obtains sc where "use_of g (sbi (first_sb a) x) = Some (Small sc)" "in_block (first_sb a) (sbi (first_sb a) x) sc x"
    "1 \<le> sc" "sc < 40" "\<forall>t c. pl = Cached t c \<longrightarrow> c = sc"
proof -
  obtain sc where sc: "use_of g (sbi (first_sb a) x) = Some (Small sc)" "in_block (first_sb a) (sbi (first_sb a) x) sc x"
    "\<forall>t c. pl = Cached t c \<longrightarrow> c = sc"
    using own_okD [OF ainvD(8) [OF assms(1)] assms(2)] by blast
  moreover have "1 \<le> sc" "sc < 40" using ainvD(5) [OF assms(1)] sc(1) by (auto simp: smalls_ok_def desc_ok_def)
  ultimately show ?thesis using that by blast
qed

lemma small_ok:
  assumes "ainv a g" and "use_of g d = Some (Small sc)"
  shows "desc_ok (first_sb a) (descs a d) d sc (fblk g d)" and "distinct (fblk g d)" and "linked (mem a) (fblk g d)"
    and "x \<in> set (fblk g d) \<longleftrightarrow> own g x = Some Free \<and> sbi (first_sb a) x = d"
    and "x \<in> set (fblk g d) \<Longrightarrow> in_block (first_sb a) d sc x"
proof -
  show "desc_ok (first_sb a) (descs a d) d sc (fblk g d)" "distinct (fblk g d)" "linked (mem a) (fblk g d)"
    and f: "x \<in> set (fblk g d) \<longleftrightarrow> own g x = Some Free \<and> sbi (first_sb a) x = d"
    using ainvD(5) [OF assms(1)] assms(2) by (auto simp: smalls_ok_def)
  assume "x \<in> set (fblk g d)"
  then have "own g x = Some Free" "sbi (first_sb a) x = d" using f by simp_all
  with own_okD [OF ainvD(8) [OF assms(1)], of x Free] assms(2) show "in_block (first_sb a) d sc x" by auto
qed

subsection \<open>Moving single blocks\<close>

lemma bin_facts:
  assumes "ainv a g"
  shows "distinct (cblk g t sc)" "linked (mem a) (cblk g t sc)" "bin_num (caches a t sc) = length (cblk g t sc)"
    "cblk g t sc \<noteq> [] \<Longrightarrow> block (caches a t sc) = hd (cblk g t sc)"
    "x \<in> set (cblk g t sc) \<longleftrightarrow> own g x = Some (Cached t sc)"
  using ainvD(7) [OF assms] by (auto simp: bins_ok_def)

text \<open>
  A change of the links of blocks nobody lists, of the bins and of the owners keeps the other
  parts of the invariant.
\<close>

lemma ainv_blocksI:
  assumes i: "ainv a g"
    and g': "nsb g' = nsb g" "use_of g' = use_of g" "large_of g' = large_of g" "frees g' = frees g" "parts g' = parts g"
    and a': "avail_sb a' = avail_sb a" "descs a' = descs a" "first_sb a' = first_sb a" "bulk_tail a' = bulk_tail a"
      "partial_list a' = partial_list a" "address_limit a' = address_limit a"
    and s: "smalls_ok a' g'" and b: "bins_ok a' g'" and o: "own_ok (first_sb a) g'"
  shows "ainv a' g'"
  using i s b o
  by (simp add: ainv_def base_ok_def spaces_ok_def frees_ok_def parts_ok_def larges_ok_def g' a')

lemma own_ok_moved:
  assumes "own_ok f g" and "use_of g' = use_of g"
    and "\<And>x pl. own g' x = Some pl \<Longrightarrow> \<exists>pl'. own g x = Some pl' \<and>
      (pl = pl' \<or> (\<forall>t c. pl = Cached t c \<longrightarrow> use_of g (sbi f x) = Some (Small c)))"
  shows "own_ok f g'"
  unfolding own_ok_def
proof (intro allI impI)
  fix x pl assume "own g' x = Some pl"
  then obtain pl' where pl': "own g x = Some pl'" "pl = pl' \<or> (\<forall>t c. pl = Cached t c \<longrightarrow> use_of g (sbi f x) = Some (Small c))"
    using assms(3) by blast
  obtain sc where "use_of g (sbi f x) = Some (Small sc)" "in_block f (sbi f x) sc x" "\<forall>t c. pl' = Cached t c \<longrightarrow> c = sc"
    using own_okD [OF assms(1) pl'(1)] by blast
  with pl'(2) show "\<exists>sc. use_of g' (sbi f x) = Some (Small sc) \<and> in_block f (sbi f x) sc x \<and> (\<forall>t c. pl = Cached t c \<longrightarrow> c = sc)"
    by (auto simp: assms(2))
qed

definition g_pop :: "nat \<Rightarrow> nat \<Rightarrow> view \<Rightarrow> view" where
  "g_pop t sc g = g\<lparr>own := (own g)(hd (cblk g t sc) \<mapsto> Live), cblk := (cblk g)(t := (cblk g t)(sc := tl (cblk g t sc)))\<rparr>"

definition g_push :: "nat \<Rightarrow> nat \<Rightarrow> nat \<Rightarrow> view \<Rightarrow> view" where
  "g_push t sc x g = g\<lparr>own := (own g)(x \<mapsto> Cached t sc), cblk := (cblk g)(t := (cblk g t)(sc := x # cblk g t sc))\<rparr>"

lemma pop_block_ok:
  assumes i: "ainv a g" and ne: "cblk g t sc = x # xs"
  obtains a' where "pop_block t sc a = Some (x, a')" "ainv a' (g_pop t sc g)" "mem a' = mem a" "first_sb a' = first_sb a"
proof -
  define g' where "g' = g_pop t sc g"
  have g'_def: "g' = g\<lparr>own := (own g)(x \<mapsto> Live), cblk := (cblk g)(t := (cblk g t)(sc := xs))\<rparr>"
    using ne by (simp add: g'_def g_pop_def)
  note b = bin_facts [OF i, where t = t and sc = sc, unfolded ne]
  define a' where "a' = set_bin t sc \<lparr>block = mem a x, bin_num = length xs\<rparr> a"
  have p: "pop_block t sc a = Some (x, a')" using b(3,4) by (simp add: pop_block_def a'_def)
  have ox: "own g x = Some (Cached t sc)" using b(5) [of x] by simp
  have fld: "avail_sb a' = avail_sb a" "descs a' = descs a" "first_sb a' = first_sb a" "bulk_tail a' = bulk_tail a"
    "partial_list a' = partial_list a" "address_limit a' = address_limit a" "mem a' = mem a"
    "caches a' = (caches a)(t := (caches a t)(sc := \<lparr>block = mem a x, bin_num = length xs\<rparr>))"
    by (simp_all add: a'_def set_bin_def)
  have "ainv a' g'"
  proof (rule ainv_blocksI [OF i])
    have "fblk g' = fblk g" "use_of g' = use_of g" by (simp_all add: g'_def)
    moreover have "own g' y = Some Free \<longleftrightarrow> own g y = Some Free" for y using ox by (simp add: g'_def)
    ultimately show "smalls_ok a' g'" using ainvD(5) [OF i] by (simp add: smalls_ok_def fld)
    show "bins_ok a' g'"
      unfolding bins_ok_def
    proof (intro allI)
      fix t' sc'
      note b' = bin_facts [OF i, where t = t' and sc = sc']
      show "distinct (cblk g' t' sc') \<and> linked (mem a') (cblk g' t' sc') \<and>
       bin_num (caches a' t' sc') = length (cblk g' t' sc') \<and> (cblk g' t' sc' \<noteq> [] \<longrightarrow> block (caches a' t' sc') = hd (cblk g' t' sc')) \<and>
       set (cblk g' t' sc') = {x. own g' x = Some (Cached t' sc')}"
      proof (cases "t' = t \<and> sc' = sc")
        case True
        have "set xs = {y. own g' y = Some (Cached t sc)}"
          using b(1,5) by (auto simp: g'_def)
        with True b(1,2) show ?thesis by (auto simp: fld g'_def linked_Cons)
      next
        case False
        then have "cblk g' t' sc' = cblk g t' sc'" "caches a' t' sc' = caches a t' sc'" by (auto simp: g'_def fld)
        moreover have "{y. own g' y = Some (Cached t' sc')} = {y. own g y = Some (Cached t' sc')}"
          using False ox by (auto simp: g'_def)
        ultimately show ?thesis using b' by (auto simp: fld)
      qed
    qed
    show "own_ok (first_sb a) g'"
      by (rule own_ok_moved [OF ainvD(8) [OF i]]) (use ox in \<open>auto simp: g'_def split: if_splits\<close>)
  qed (simp_all add: g'_def fld)
  then show ?thesis using that p fld ne by (simp add: g'_def g_pop_def)
qed

lemma push_block_ok:
  assumes i: "ainv a g" and live: "own g x = Some Live" and sc: "use_of g (sbi (first_sb a) x) = Some (Small sc)"
  shows "ainv (push_block t sc x a) (g_push t sc x g)" and "y \<noteq> x \<Longrightarrow> mem (push_block t sc x a) y = mem a y"
    and "first_sb (push_block t sc x a) = first_sb a"
proof -
  define g' where "g' = g_push t sc x g"
  note g'_def = g'_def [unfolded g_push_def]
  note b = bin_facts [OF i, where t = t and sc = sc]
  define a' where "a' = push_block t sc x a"
  have fld: "avail_sb a' = avail_sb a" "descs a' = descs a" "first_sb a' = first_sb a" "bulk_tail a' = bulk_tail a"
    "partial_list a' = partial_list a" "address_limit a' = address_limit a" "mem a' = (mem a)(x := block (caches a t sc))"
    "caches a' = (caches a)(t := (caches a t)(sc := \<lparr>block = x, bin_num = Suc (length (cblk g t sc))\<rparr>))"
    using b(3) by (simp_all add: a'_def push_block_def set_bin_def Let_def)
  have notin: "x \<notin> set (cblk g t' sc')" for t' sc' using bin_facts(5) [OF i] live by simp
  have lk: "linked (mem a') xs" if "linked (mem a) xs" "x \<notin> set xs" for xs
    by (rule linked_cong [OF that(1)]) (use that(2) in \<open>auto simp: fld\<close>)
  have "ainv a' g'"
  proof (rule ainv_blocksI [OF i])
    have same: "fblk g' = fblk g" "use_of g' = use_of g" by (simp_all add: g'_def)
    have "own g' y = Some Free \<longleftrightarrow> own g y = Some Free" for y using live by (simp add: g'_def)
    moreover have "linked (mem a') (fblk g d)" if "use_of g d = Some (Small c)" for d c
      by (rule lk [OF small_ok(3) [OF i that]]) (use small_ok(4) [OF i that, of x] live in simp)
    ultimately show "smalls_ok a' g'" using ainvD(5) [OF i] by (simp add: smalls_ok_def fld(2,3) same)
    show "bins_ok a' g'"
      unfolding bins_ok_def
    proof (intro allI)
      fix t' sc'
      note b' = bin_facts [OF i, where t = t' and sc = sc']
      show "distinct (cblk g' t' sc') \<and> linked (mem a') (cblk g' t' sc') \<and>
       bin_num (caches a' t' sc') = length (cblk g' t' sc') \<and> (cblk g' t' sc' \<noteq> [] \<longrightarrow> block (caches a' t' sc') = hd (cblk g' t' sc')) \<and>
       set (cblk g' t' sc') = {x. own g' x = Some (Cached t' sc')}"
      proof (cases "t' = t \<and> sc' = sc")
        case True
        have "linked (mem a') (x # cblk g t sc)"
          using b(4) lk [OF b(2) notin] by (auto simp: linked_Cons fld(7))
        moreover have "set (x # cblk g t sc) = {y. own g' y = Some (Cached t sc)}" using b(5) by (auto simp: g'_def)
        ultimately show ?thesis using True b(1) notin by (simp add: fld(8) g'_def)
      next
        case False
        then have c: "cblk g' t' sc' = cblk g t' sc'" "caches a' t' sc' = caches a t' sc'" by (auto simp: g'_def fld(8))
        have "{y. own g' y = Some (Cached t' sc')} = {y. own g y = Some (Cached t' sc')}"
          using False live by (auto simp: g'_def)
        then show ?thesis using b'(1,3,4,5) lk [OF b'(2) notin] by (auto simp: c)
      qed
    qed
    show "own_ok (first_sb a) g'"
      by (rule own_ok_moved [OF ainvD(8) [OF i]]) (use live sc in \<open>auto simp: g'_def split: if_splits\<close>)
  qed (simp_all add: g'_def fld)
  then show "ainv (push_block t sc x a) (g_push t sc x g)" by (simp add: a'_def g'_def g_push_def)
  show "y \<noteq> x \<Longrightarrow> mem (push_block t sc x a) y = mem a y" "first_sb (push_block t sc x a) = first_sb a"
    using fld by (simp_all add: a'_def)
qed

subsection \<open>Unaccounted superblocks\<close>

text \<open>
  A superblock that is between two uses belongs to no list: \<open>use_of\<close> is \<open>None\<close>. Its
  descriptor and its memory may change freely.
\<close>

lemma set_desc_simps [simp]:
  "avail_sb (set_desc d f a) = avail_sb a" "first_sb (set_desc d f a) = first_sb a" "bulk_tail (set_desc d f a) = bulk_tail a"
  "partial_list (set_desc d f a) = partial_list a" "address_limit (set_desc d f a) = address_limit a" "mem (set_desc d f a) = mem a"
  "caches (set_desc d f a) = caches a" "descs (set_desc d f a) = (descs a)(d := f (descs a d))" "roots (set_desc d f a) = roots a"
  by (simp_all add: set_desc_def)

lemma set_bin_simps [simp]:
  "avail_sb (set_bin t sc b a) = avail_sb a" "first_sb (set_bin t sc b a) = first_sb a" "bulk_tail (set_bin t sc b a) = bulk_tail a"
  "partial_list (set_bin t sc b a) = partial_list a" "address_limit (set_bin t sc b a) = address_limit a" "mem (set_bin t sc b a) = mem a"
  "descs (set_bin t sc b a) = descs a" "roots (set_bin t sc b a) = roots a" "caches (set_bin t sc b a) = (caches a)(t := (caches a t)(sc := b))"
  by (simp_all add: set_bin_def)

lemma large_used:
  assumes "ainv a g" and "large_of g d = Some n"
  shows "use_of g d = Some (Part d)"
proof -
  have "0 < n \<and> (\<forall>k. d \<le> k \<and> k < d + n \<longrightarrow> use_of g k = Some (Part d))"
    using ainvD(2) [OF assms(1)] assms(2) by (simp add: spaces_ok_def)
  then show ?thesis by simp
qed

lemma ainv_descs:
  assumes i: "ainv a g" and a': "avail_sb a' = avail_sb a" "first_sb a' = first_sb a" "bulk_tail a' = bulk_tail a"
      "partial_list a' = partial_list a" "address_limit a' = address_limit a" "mem a' = mem a" "caches a' = caches a"
    and d: "\<And>d. use_of g d \<noteq> None \<Longrightarrow> descs a' d = descs a d"
  shows "ainv a' g"
proof -
  have "frees_ok a' g"
    using ainvD(3) [OF i] chain_cong [of "\<lambda>d. next_free (descs a d)" "fst (avail_sb a)" "frees g" "\<lambda>d. next_free (descs a' d)"]
    by (auto simp: frees_ok_def a' d)
  moreover have "parts_ok a' g"
    unfolding parts_ok_def
  proof (intro allI conjI)
    fix sc
    have p: "chain (\<lambda>d. next_partial (descs a d)) (fst (partial_list a sc)) (parts g sc)" "distinct (parts g sc)"
      "set (parts g sc) = {d. use_of g d = Some (Small sc) \<and> state (anchor (descs a d)) \<noteq> SB_FULL}"
      using ainvD(4) [OF i] by (auto simp: parts_ok_def)
    show "chain (\<lambda>d. next_partial (descs a' d)) (fst (partial_list a' sc)) (parts g sc)"
      unfolding a' by (rule chain_cong [OF p(1)]) (use p(3) d in auto)
    show "distinct (parts g sc)" by (rule p(2))
    show "set (parts g sc) = {d. use_of g d = Some (Small sc) \<and> state (anchor (descs a' d)) \<noteq> SB_FULL}"
      using p(3) d by auto
  qed
  moreover have "smalls_ok a' g" using ainvD(5) [OF i] d by (simp add: smalls_ok_def a')
  moreover have "larges_ok a' g" using ainvD(6) [OF i] d large_used [OF i] by (simp add: larges_ok_def a')
  ultimately show ?thesis
    using ainvD(1,2,7,8) [OF i] by (simp add: ainv_def base_ok_def bins_ok_def a')
qed

lemma set_desc_unused: "ainv a g \<Longrightarrow> use_of g d = None \<Longrightarrow> ainv (set_desc d f a) g"
  by (rule ainv_descs) auto

lemma smalls_ok_frame:
  assumes i: "ainv a g" and f: "first_sb a' = first_sb a"
    and s: "\<And>d sc. use_of g' d = Some (Small sc) \<Longrightarrow> use_of g d = Some (Small sc) \<and> descs a' d = descs a d \<and> fblk g' d = fblk g d \<and>
      (\<forall>x. sbi (first_sb a) x = d \<longrightarrow> (own g' x = Some Free \<longleftrightarrow> own g x = Some Free)) \<and> (\<forall>x \<in> set (fblk g d). mem a' x = mem a x)"
  shows "smalls_ok a' g'"
  unfolding smalls_ok_def
proof (intro allI impI)
  fix d sc assume d: "use_of g' d = Some (Small sc)"
  note q = s [OF d]
  note k = small_ok(1,2,3) [OF i q [THEN conjunct1]]
  have st: "set (fblk g d) = {x. own g x = Some Free \<and> sbi (first_sb a) x = d}"
    using ainvD(5) [OF i] q by (simp add: smalls_ok_def)
  have "linked (mem a') (fblk g d)" by (rule linked_cong [OF k(3)]) (use q in simp)
  with q k st show "desc_ok (first_sb a') (descs a' d) d sc (fblk g' d) \<and> distinct (fblk g' d) \<and> linked (mem a') (fblk g' d) \<and>
      set (fblk g' d) = {x. own g' x = Some Free \<and> sbi (first_sb a') x = d}"
    by (auto simp: f)
qed

text \<open>Stores to cells that are no links: to the blocks of the program or to unaccounted memory.\<close>

lemma ainv_mem:
  assumes i: "ainv a g" and m: "\<And>x pl. own g x = Some pl \<Longrightarrow> pl \<noteq> Live \<Longrightarrow> m x = mem a x"
  shows "ainv (a\<lparr>mem := m\<rparr>) g"
proof -
  have "smalls_ok (a\<lparr>mem := m\<rparr>) g"
    by (rule smalls_ok_frame [OF i]) (simp_all add: small_ok(4) [OF i] m)
  moreover have "linked m (cblk g t sc)" for t sc
    by (rule linked_cong [OF bin_facts(2) [OF i]]) (simp add: bin_facts(5) [OF i] m)
  then have "bins_ok (a\<lparr>mem := m\<rparr>) g" using ainvD(7) [OF i] by (simp add: bins_ok_def)
  ultimately show ?thesis
    using ainvD [OF i] by (simp add: ainv_def base_ok_def frees_ok_def parts_ok_def larges_ok_def)
qed

lemma no_owner:
  assumes "ainv a g" and "use_of g (sbi (first_sb a) x) = None"
  shows "own g x = None"
  using own_okD [OF ainvD(8) [OF assms(1)], of x] assms(2) by (cases "own g x") auto

text \<open>Giving an unaccounted superblock to the free list, and taking the first free one.\<close>

lemma push_free_ok:
  assumes i: "ainv a g" and d: "use_of g d = None" "d < nsb g"
  shows "ainv ((set_desc d (next_free_update (\<lambda>_. fst (avail_sb a))) a)\<lparr>avail_sb := (Some d, s)\<rparr>)
    (g\<lparr>use_of := (use_of g)(d \<mapsto> Unused), frees := d # frees g\<rparr>)"
    (is "ainv ?a ?g")
proof -
  have i1: "ainv (set_desc d (next_free_update (\<lambda>_. fst (avail_sb a))) a) g" by (rule set_desc_unused [OF i d(1)])
  have nf: "d \<notin> set (frees g)" using ainvD(3) [OF i] d by (auto simp: frees_ok_def)
  have "frees_ok ?a ?g"
  proof -
    have "chain (\<lambda>e. next_free (descs ?a e)) (fst (avail_sb a)) (frees g)"
      by (rule chain_cong [of "\<lambda>e. next_free (descs a e)"]) (use ainvD(3) [OF i] nf in \<open>auto simp: frees_ok_def\<close>)
    then show ?thesis using ainvD(3) [OF i] nf by (auto simp: frees_ok_def)
  qed
  moreover have "spaces_ok ?g" using ainvD(2) [OF i] d by (auto simp: spaces_ok_def)
  moreover have "parts_ok ?a ?g"
    using ainvD(4) [OF i1] d(1) unfolding parts_ok_def by (auto simp: fun_upd_def)
  moreover have "smalls_ok ?a ?g" by (rule smalls_ok_frame [OF i]) (auto simp: d(1) split: if_splits)
  moreover have "larges_ok ?a ?g" using ainvD(6) [OF i1] by (simp add: larges_ok_def)
  moreover have "own_ok (first_sb ?a) ?g"
    using own_okD [OF ainvD(8) [OF i]] d(1) unfolding own_ok_def by fastforce
  moreover have "base_ok ?a ?g" "bins_ok ?a ?g" using ainvD(1,7) [OF i1] by (simp_all add: base_ok_def bins_ok_def)
  ultimately show ?thesis by (simp add: ainv_def)
qed

lemma pop_free_ok:
  assumes i: "ainv a g" and f: "frees g = d # ds"
  shows "ainv (a\<lparr>avail_sb := (next_free (descs a d), s)\<rparr>) (g\<lparr>use_of := (use_of g)(d := None), frees := ds\<rparr>)"
    (is "ainv ?a ?g")
    and "use_of g d = Some Unused" and "fst (avail_sb a) = Some d"
proof -
  have fo: "chain (\<lambda>d. next_free (descs a d)) (fst (avail_sb a)) (d # ds)" "distinct (d # ds)" "set (d # ds) = {d. use_of g d = Some Unused}"
    using ainvD(3) [OF i] by (auto simp: frees_ok_def f)
  show u: "use_of g d = Some Unused" using fo(3) by auto
  show "fst (avail_sb a) = Some d" using fo(1) by simp
  have "frees_ok ?a ?g" using fo by (auto simp: frees_ok_def)
  moreover have "spaces_ok ?g" using ainvD(2) [OF i] u by (auto simp: spaces_ok_def)
  moreover have "parts_ok ?a ?g" using ainvD(4) [OF i] u unfolding parts_ok_def by auto
  moreover have "smalls_ok ?a ?g" by (rule smalls_ok_frame [OF i]) (auto split: if_splits)
  moreover have "larges_ok ?a ?g" using ainvD(6) [OF i] by (simp add: larges_ok_def)
  moreover have "own_ok (first_sb ?a) ?g"
    using own_okD [OF ainvD(8) [OF i]] u unfolding own_ok_def by fastforce
  moreover have "base_ok ?a ?g" "bins_ok ?a ?g" using ainvD(1,7) [OF i] by (simp_all add: base_ok_def bins_ok_def)
  ultimately show "ainv ?a ?g" by (simp add: ainv_def)
qed

end
