(* ===== verification/LrMalloc_Ops.thy ===== *)
theory LrMalloc_Ops
  imports LrMalloc_Inv
begin

text \<open>Every operation of the allocator keeps its invariant.\<close>

subsection \<open>Superblocks\<close>

lemma address_of_desc [simp]: "lookup_desc a (first_sb a + d * 65536) = d"
  by (simp add: lookup_desc_def geometry)

lemma lookup_sb_eq: "lookup_sb a d = first_sb a + d * 65536"
  by (simp add: lookup_sb_def geometry)

lemma lookup_desc_eq: "lookup_desc a x = sbi (first_sb a) x"
  by (simp add: lookup_desc_def sbi_def geometry)

text \<open>Descriptors \<open>d\<close> to \<open>d + k - 1\<close>, each linked to the next and the last to \<open>nx\<close>.\<close>

fun g_fill :: "nat \<Rightarrow> nat \<Rightarrow> view \<Rightarrow> view" where
  "g_fill d 0 g = g"
| "g_fill d (Suc k) g = (let g1 = g_fill (d + 1) k g in g1\<lparr>use_of := (use_of g1)(d \<mapsto> Unused), frees := d # frees g1\<rparr>)"

lemma g_fill_simps [simp]:
  "frees (g_fill d k g) = [d..<d + k] @ frees g" "use_of (g_fill d k g) = (\<lambda>e. if d \<le> e \<and> e < d + k then Some Unused else use_of g e)"
  "nsb (g_fill d k g) = nsb g" "own (g_fill d k g) = own g" "large_of (g_fill d k g) = large_of g" "parts (g_fill d k g) = parts g"
  "fblk (g_fill d k g) = fblk g" "cblk (g_fill d k g) = cblk g"
proof (induction k arbitrary: d)
  case (Suc k)
  {
    case 1
    show ?case using Suc(1) [of "d + 1"] by (simp add: Let_def upt_conv_Cons)
  next
    case 2
    show ?case using Suc(2) [of "d + 1"] by (auto simp: Let_def fun_eq_iff)
  next
    case 3 show ?case using Suc(3) [of "d + 1"] by (simp add: Let_def)
  next
    case 4 show ?case using Suc(4) [of "d + 1"] by (simp add: Let_def)
  next
    case 5 show ?case using Suc(5) [of "d + 1"] by (simp add: Let_def)
  next
    case 6 show ?case using Suc(6) [of "d + 1"] by (simp add: Let_def)
  next
    case 7 show ?case using Suc(7) [of "d + 1"] by (simp add: Let_def)
  next
    case 8 show ?case using Suc(8) [of "d + 1"] by (simp add: Let_def)
  }
qed (auto simp: fun_eq_iff)

lemma chain_steps:
  "fold chain_step [1..<Suc k] (d, a) =
     (d + k, a\<lparr>descs := (\<lambda>e. if d < e \<and> e < d + k then Descriptor\<lparr>next_free := Some (e + 1)\<rparr>
        else if e = d + k \<and> 0 < k then Descriptor
        else if e = d \<and> 0 < k then (descs a d)\<lparr>next_free := Some (d + 1)\<rparr> else descs a e)\<rparr>)"
proof (induction k)
  case 0
  have "(\<lambda>e. if d < e \<and> e < d + 0 then Descriptor\<lparr>next_free := Some (e + 1)\<rparr> else if e = d + 0 \<and> 0 < (0::nat) then Descriptor
        else if e = d \<and> 0 < (0::nat) then (descs a d)\<lparr>next_free := Some (d + 1)\<rparr> else descs a e) = descs a" by (auto simp: fun_eq_iff)
  then show ?case by simp
next
  case (Suc k)
  then show ?case by (auto simp: chain_step_def set_desc_def fun_eq_iff)
qed

lemma fill_sb_list_eq:
  assumes "k = max 1 n"
  shows "fill_sb_list (first_sb a + d * 65536) n a =
    a\<lparr>descs := (\<lambda>e. if d \<le> e \<and> e < d + k then Descriptor\<lparr>next_free := (if e = d + k - 1 then fst (avail_sb a) else Some (e + 1))\<rparr> else descs a e),
      avail_sb := (Some d, snd (avail_sb a) + 1)\<rparr>"
proof -
  have "k \<noteq> 0" using assms by simp
  then obtain k' where k': "k = Suc k'" by (cases k) auto
  have n: "[1..<n] = [1..<Suc k']" using assms k' by (cases "n = 0") auto
  obtain h s where h: "avail_sb a = (h, s)" by (cases "avail_sb a")
  have "fold chain_step [1..<n] (d, set_desc d (\<lambda>_. Descriptor) a) = (d + k', a\<lparr>descs := (\<lambda>e.
      if d \<le> e \<and> e < d + k' then Descriptor\<lparr>next_free := Some (e + 1)\<rparr> else if e = d + k' then Descriptor else descs a e)\<rparr>)"
    unfolding n chain_steps by (auto simp: set_desc_def fun_eq_iff)
  then show ?thesis
    by (simp add: fill_sb_list_def Let_def h k' set_desc_def fun_eq_iff)
qed

text \<open>The whole list at once is the same as pushing the superblocks one by one from the last.\<close>

lemma fill_ok:
  assumes i: "ainv a g" and u: "\<And>e. d \<le> e \<Longrightarrow> e < d + max 1 n \<Longrightarrow> use_of g e = None \<and> e < nsb g"
  shows "ainv (fill_sb_list (first_sb a + d * 65536) n a) (g_fill d (max 1 n) g)"
proof -
  define k where "k = max 1 n"
  let ?a = "fill_sb_list (first_sb a + d * 65536) n a"
  let ?g = "g_fill d k g"
  note eq = fill_sb_list_eq [OF k_def, of a d]
  have kp: "0 < k" by (simp add: k_def)
  have un: "use_of g e = None" "e < nsb g" if "d \<le> e" "e < d + k" for e using u [of e] that by (simp_all add: k_def)
  have used: "descs ?a e = descs a e" if "use_of g e \<noteq> None" for e using un(1) [of e] that by (auto simp: eq)
  have fo: "chain (\<lambda>d. next_free (descs a d)) (fst (avail_sb a)) (frees g)" "distinct (frees g)" "set (frees g) = {d. use_of g d = Some Unused}"
    using ainvD(3) [OF i] by (auto simp: frees_ok_def)
  have old: "chain (\<lambda>e. next_free (descs ?a e)) (fst (avail_sb a)) (frees g)"
    by (rule chain_cong [OF fo(1)]) (use fo(3) used in auto)
  have new: "chain (\<lambda>e. next_free (descs ?a e)) (Some e) ([e..<d + k] @ frees g)" if "d \<le> e" "e < d + k" for e
    using that
  proof (induction "d + k - e" arbitrary: e)
    case (Suc j)
    show ?case
    proof (cases "Suc e < d + k")
      case True
      then have "chain (\<lambda>e. next_free (descs ?a e)) (Some (Suc e)) ([Suc e..<d + k] @ frees g)"
        using Suc.hyps(1) [of "Suc e"] Suc.hyps(2) Suc.prems by simp
      moreover have "next_free (descs ?a e) = Some (Suc e)" using Suc.prems True by (auto simp: eq)
      ultimately show ?thesis using Suc.prems True by (simp add: upt_conv_Cons)
    next
      case False
      then have "e = d + k - 1" "[e..<d + k] = [e]" using Suc.prems by (auto simp: upt_conv_Cons)
      then show ?thesis using old Suc.prems by (simp add: eq)
    qed
  qed simp
  have "frees_ok ?a ?g"
    using new [of d] kp fo(2,3) un by (auto simp: frees_ok_def eq)
  moreover have "spaces_ok ?g" using ainvD(2) [OF i] un unfolding spaces_ok_def by (fastforce split: if_splits)
  moreover have "parts_ok ?a ?g"
    unfolding parts_ok_def
  proof (intro allI conjI)
    fix sc
    have p: "chain (\<lambda>d. next_partial (descs a d)) (fst (partial_list a sc)) (parts g sc)" "distinct (parts g sc)"
      "set (parts g sc) = {d. use_of g d = Some (Small sc) \<and> state (anchor (descs a d)) \<noteq> SB_FULL}"
      using ainvD(4) [OF i] by (auto simp: parts_ok_def)
    have l: "partial_list ?a = partial_list a" by (simp add: eq)
    show "chain (\<lambda>d. next_partial (descs ?a d)) (fst (partial_list ?a sc)) (parts ?g sc)"
      unfolding l g_fill_simps by (rule chain_cong [OF p(1)]) (use p(3) used in auto)
    show "distinct (parts ?g sc)" using p(2) by simp
    show "set (parts ?g sc) = {d. use_of ?g d = Some (Small sc) \<and> state (anchor (descs ?a d)) \<noteq> SB_FULL}"
      using p(3) used un by auto
  qed
  moreover have "smalls_ok ?a ?g"
    by (rule smalls_ok_frame [OF i]) (use un used in \<open>auto simp: eq split: if_splits\<close>)
  moreover have "larges_ok ?a ?g" using ainvD(6) [OF i] used large_used [OF i] by (simp add: larges_ok_def) (simp add: eq)
  moreover have "own_ok (first_sb ?a) ?g"
    using own_okD [OF ainvD(8) [OF i]] un(1) unfolding own_ok_def by (fastforce simp: eq)
  moreover have "base_ok ?a ?g" "bins_ok ?a ?g" using ainvD(1,7) [OF i] by (simp_all add: base_ok_def bins_ok_def eq)
  ultimately show ?thesis by (simp add: ainv_def k_def)
qed

text \<open>Fresh memory: the superblocks behind the old end are unaccounted.\<close>

lemma is_power_of_two_page: "is_power_of_two (word_of_nat kPageSize)"
  by (simp add: is_power_of_two_def geometry)

lemma bulk_eq:
  assumes i: "ainv a g" and "n * 65536 = sz" and "sz \<le> 2 ^ 63"
  shows "bulk_allocate kPageSize sz a =
    (if bulk_tail a + sz > address_limit a then Inl ENOMEM
     else Inr (first_sb a + nsb g * 65536, a\<lparr>bulk_tail := bulk_tail a + sz\<rparr>))"
proof -
  have b: "bulk_tail a = first_sb a + nsb g * 65536" "kPageSize dvd first_sb a" using ainvD(1) [OF i] by (simp_all add: base_ok_def)
  have "kPageSize dvd nsb g * 65536" by (intro dvd_mult) (simp add: geometry)
  then have "kPageSize dvd bulk_tail a" using b by simp
  then have "bulk_tail a mod kPageSize = 0" by (rule dvd_imp_mod_0)
  moreover have "bulk_tail a + sz < 2 ^ 64" using ainvD(1) [OF i] assms(3) by (simp add: base_ok_def)
  ultimately show ?thesis using is_power_of_two_page b(1) by (simp add: bulk_allocate_def Let_def kPageSize_def)
qed

lemma bulk_ok:
  assumes i: "ainv a g" and sz: "n * 65536 = sz" and room: "bulk_tail a + sz \<le> address_limit a"
  shows "ainv (a\<lparr>bulk_tail := bulk_tail a + sz\<rparr>) (g\<lparr>nsb := nsb g + n\<rparr>)"
    and "nsb g \<le> e \<Longrightarrow> use_of g e = None"
proof -
  show none: "nsb g \<le> e \<Longrightarrow> use_of g e = None" for e using ainvD(2) [OF i] by (auto simp: spaces_ok_def not_less [symmetric])
  show "ainv (a\<lparr>bulk_tail := bulk_tail a + sz\<rparr>) (g\<lparr>nsb := nsb g + n\<rparr>)"
    using ainvD [OF i] sz room
    by (auto simp: ainv_def base_ok_def spaces_ok_def frees_ok_def parts_ok_def smalls_ok_def larges_ok_def bins_ok_def own_ok_def
        add_mult_distrib)
qed

text \<open>The parts of the state and of the ghost state that moving free superblocks leaves alone.\<close>

definition a_same :: "lralloc \<Rightarrow> lralloc \<Rightarrow> bool" where
  "a_same a a' \<longleftrightarrow> first_sb a' = first_sb a \<and> mem a' = mem a \<and> caches a' = caches a \<and> partial_list a' = partial_list a \<and>
     address_limit a' = address_limit a \<and> roots a' = roots a"

definition carries :: "view \<Rightarrow> view \<Rightarrow> bool" where
  "carries g g' \<longleftrightarrow> own g' = own g \<and> large_of g' = large_of g \<and> parts g' = parts g \<and> fblk g' = fblk g \<and> cblk g' = cblk g \<and>
     (\<forall>e u. u \<noteq> Unused \<longrightarrow> (use_of g' e = Some u \<longleftrightarrow> use_of g e = Some u))"

lemma a_same_refl [simp]: "a_same a a"
  and carries_refl [simp]: "carries g g"
  by (simp_all add: a_same_def carries_def)

lemma a_same_trans: "a_same a a1 \<Longrightarrow> a_same a1 a2 \<Longrightarrow> a_same a a2"
  and carries_trans: "carries g g1 \<Longrightarrow> carries g1 g2 \<Longrightarrow> carries g g2"
  by (simp_all add: a_same_def carries_def)

lemma take_free:
  assumes i: "ainv a g" and f: "avail_sb a = (Some d, s)"
  shows "alloc_small_loop (Some d) s a = Some (first_sb a + d * 65536, a\<lparr>avail_sb := (next_free (descs a d), s + 1)\<rparr>)"
    and "\<exists>g'. ainv (a\<lparr>avail_sb := (next_free (descs a d), s')\<rparr>) g' \<and> use_of g' d = None \<and> d < nsb g' \<and> carries g g'"
proof -
  show "alloc_small_loop (Some d) s a = Some (first_sb a + d * 65536, a\<lparr>avail_sb := (next_free (descs a d), s + 1)\<rparr>)"
    by (subst alloc_small_loop.simps) (simp add: head_cas_def f lookup_sb_eq)
  have "chain (\<lambda>d. next_free (descs a d)) (Some d) (frees g)" using ainvD(3) [OF i] f by (simp add: frees_ok_def)
  then obtain ds where ds: "frees g = d # ds" by (auto simp: chain_Some)
  note p = pop_free_ok [OF i ds]
  have "d < nsb g" using ainvD(2) [OF i] p(2) by (auto simp: spaces_ok_def)
  then show "\<exists>g'. ainv (a\<lparr>avail_sb := (next_free (descs a d), s')\<rparr>) g' \<and> use_of g' d = None \<and> d < nsb g' \<and> carries g g'"
    using p(1) [of s'] p(2) by (intro exI [of _ "g\<lparr>use_of := (use_of g)(d := None), frees := ds\<rparr>"]) (auto simp: carries_def)
qed

text \<open>There is a free superblock, or fresh memory for some.\<close>

definition has_room :: "lralloc \<Rightarrow> bool" where
  "has_room a \<longleftrightarrow> fst (avail_sb a) \<noteq> None \<or> bulk_tail a + kMinAllocateSuperBlockSize \<le> address_limit a"

lemma alloc_small_sb_ok:
  assumes i: "ainv a g" and r: "has_room a"
  obtains d a' g' where "alloc_small_sb kSuperBlockSize a = Some (first_sb a + d * 65536, a')" "ainv a' g'" "use_of g' d = None"
    "d < nsb g'" "carries g g'" "a_same a a'"
proof (cases "avail_sb a")
  case (Pair h s)
  show ?thesis
  proof (cases h)
    case (Some d)
    note t = take_free [OF i Pair [unfolded Some]]
    from t(2) obtain g' where "ainv (a\<lparr>avail_sb := (next_free (descs a d), s + 1)\<rparr>) g'" "use_of g' d = None" "d < nsb g'" "carries g g'"
      by blast
    then show ?thesis using t(1) Pair Some
      by (intro that [of d "a\<lparr>avail_sb := (next_free (descs a d), s + 1)\<rparr>" g'])
        (simp_all add: alloc_small_sb_def a_same_def)
  next
    case None
    then have room: "bulk_tail a + 32 * 65536 \<le> address_limit a" using r Pair by (simp add: has_room_def geometry)
    define a1 where "a1 = a\<lparr>bulk_tail := bulk_tail a + 32 * 65536\<rparr>"
    define g1 where "g1 = g\<lparr>nsb := nsb g + 32\<rparr>"
    have b: "bulk_allocate kPageSize kMinAllocateSuperBlockSize a = Inr (first_sb a + nsb g * 65536, a1)"
      using bulk_eq [OF i, of 32 "32 * 65536"] room by (simp add: a1_def kMinAllocateSuperBlockSize_def)
    have i1: "ainv a1 g1" and none: "use_of g e = None" if "nsb g \<le> e" for e
      using bulk_ok [OF i _ room, of 32] that by (simp_all add: a1_def g1_def)
    have i1: "ainv a1 g1" using bulk_ok(1) [OF i _ room, of 32] by (simp add: a1_def g1_def)
    define a2 where "a2 = fill_sb_list (first_sb a + nsb g * 65536) 32 a1"
    define g2 where "g2 = g_fill (nsb g) 32 g1"
    have i2: "ainv a2 g2"
      using fill_ok [OF i1, of "nsb g" 32] none by (simp add: a2_def g2_def g1_def) (simp add: a1_def)
    have a2: "avail_sb a2 = (Some (nsb g), s + 1)" "first_sb a2 = first_sb a" "a_same a a2"
      using fill_sb_list_eq [of 32 32 a1 "nsb g"] Pair by (simp_all add: a2_def a1_def a_same_def)
    have "carries g g2" using none by (auto simp: carries_def g2_def g1_def)
    have l: "lookup_desc a1 (first_sb a + nsb g * 65536) = nsb g" using address_of_desc [of a1] by (simp add: a1_def)
    have c: "kMinAllocateSuperBlockSize div kSuperBlockSize = 32" by (simp add: geometry)
    have "alloc_small_loop None s a = alloc_small_loop (Some (nsb g)) s a2"
      using l by (subst alloc_small_loop.simps) (simp add: b a2_def c)
    also have "\<dots> = alloc_small_loop (Some (nsb g)) (s + 1) a2"
      by (subst alloc_small_loop.simps) (simp add: head_cas_def a2(1))
    also have "\<dots> = Some (first_sb a2 + nsb g * 65536, a2\<lparr>avail_sb := (next_free (descs a2 (nsb g)), s + 1 + 1)\<rparr>)"
      by (rule take_free(1) [OF i2 a2(1)])
    finally have e: "alloc_small_sb kSuperBlockSize a =
        Some (first_sb a + nsb g * 65536, a2\<lparr>avail_sb := (next_free (descs a2 (nsb g)), s + 1 + 1)\<rparr>)"
      by (simp add: alloc_small_sb_def Pair None a2(2))
    obtain g3 where "ainv (a2\<lparr>avail_sb := (next_free (descs a2 (nsb g)), s + 1 + 1)\<rparr>) g3" "use_of g3 (nsb g) = None"
      "nsb g < nsb g3" "carries g2 g3"
      using take_free(2) [OF i2 a2(1), of "s + 1 + 1"] by blast
    then show ?thesis
      using carries_trans [OF \<open>carries g g2\<close>] a2(3) by (intro that [OF e]) (auto simp: a_same_def)
  qed
qed

text \<open>Without room a small allocation does not return.\<close>

lemma alloc_small_sb_None:
  assumes i: "ainv a g" and r: "\<not> has_room a"
  shows "alloc_small_sb kSuperBlockSize a = None"
proof -
  have "bulk_allocate kPageSize kMinAllocateSuperBlockSize a = Inl ENOMEM"
    using bulk_eq [OF i, of 32 "32 * 65536"] r by (simp add: has_room_def kMinAllocateSuperBlockSize_def)
  then show ?thesis using r
    by (simp add: alloc_small_sb_def has_room_def) (subst alloc_small_loop.simps, simp)
qed

lemma retire_small_sb_eq:
  "retire_small_sb sb kSuperBlockSize a = Some ((set_desc (lookup_desc a sb) (next_free_update (\<lambda>_. fst (avail_sb a)))
     (set_desc (lookup_desc a sb) (\<lambda>_. Descriptor) a))\<lparr>avail_sb := (Some (lookup_desc a sb), snd (avail_sb a) + 1)\<rparr>)"
  by (simp add: retire_small_sb_def Let_def split: prod.splits)

lemma retire_small_ok:
  assumes i: "ainv a g" and d: "use_of g d = None" "d < nsb g"
  obtains a' where "retire_small_sb (first_sb a + d * 65536) kSuperBlockSize a = Some a'"
    "ainv a' (g\<lparr>use_of := (use_of g)(d \<mapsto> Unused), frees := d # frees g\<rparr>)" "a_same a a'"
proof -
  have i1: "ainv (set_desc d (\<lambda>_. Descriptor) a) g" by (rule set_desc_unused [OF i d(1)])
  show ?thesis
    by (rule that [OF retire_small_sb_eq]) (use push_free_ok [OF i1 d] in \<open>simp_all add: a_same_def\<close>)
qed

subsection \<open>Superblocks of a size class\<close>

text \<open>
  Rules for the two halves of the invariant that change: what a step has to show when it changes
  one superblock \<open>d\<close>, and when it changes one cache.
\<close>

lemma smalls_ok_one:
  assumes i: "ainv a g" and f: "first_sb a' = first_sb a"
    and one: "\<And>sc. use_of g' d = Some (Small sc) \<Longrightarrow> desc_ok (first_sb a) (descs a' d) d sc (fblk g' d) \<and> distinct (fblk g' d) \<and>
      linked (mem a') (fblk g' d) \<and> set (fblk g' d) = {x. own g' x = Some Free \<and> sbi (first_sb a) x = d}"
    and other: "\<And>e sc. e \<noteq> d \<Longrightarrow> use_of g' e = Some (Small sc) \<Longrightarrow> use_of g e = Some (Small sc) \<and> descs a' e = descs a e \<and>
      fblk g' e = fblk g e"
    and own: "\<And>x. sbi (first_sb a) x \<noteq> d \<Longrightarrow> own g' x = Some Free \<longleftrightarrow> own g x = Some Free"
    and mem: "\<And>x. sbi (first_sb a) x \<noteq> d \<Longrightarrow> mem a' x = mem a x"
  shows "smalls_ok a' g'"
  unfolding smalls_ok_def
proof (intro allI impI)
  fix e sc assume e: "use_of g' e = Some (Small sc)"
  show "desc_ok (first_sb a') (descs a' e) e sc (fblk g' e) \<and> distinct (fblk g' e) \<and> linked (mem a') (fblk g' e) \<and>
      set (fblk g' e) = {x. own g' x = Some Free \<and> sbi (first_sb a') x = e}"
  proof (cases "e = d")
    case True
    then show ?thesis using one e f by simp
  next
    case False
    note o = other [OF False e]
    note k = small_ok(1,2,3) [OF i o [THEN conjunct1]]
    have st: "set (fblk g e) = {x. own g x = Some Free \<and> sbi (first_sb a) x = e}"
      using ainvD(5) [OF i] o by (simp add: smalls_ok_def)
    have "linked (mem a') (fblk g e)" by (rule linked_cong [OF k(3)]) (use st mem False in auto)
    with o k st own False show ?thesis by (auto simp: f)
  qed
qed

lemma bins_ok_one:
  assumes i: "ainv a g"
    and one: "distinct (cblk g' t sc) \<and> linked (mem a') (cblk g' t sc) \<and>
      bin_num (caches a' t sc) = length (cblk g' t sc) \<and> (cblk g' t sc \<noteq> [] \<longrightarrow> block (caches a' t sc) = hd (cblk g' t sc)) \<and>
      set (cblk g' t sc) = {x. own g' x = Some (Cached t sc)}"
    and other: "\<And>t' c. (t', c) \<noteq> (t, sc) \<Longrightarrow> cblk g' t' c = cblk g t' c \<and> caches a' t' c = caches a t' c \<and>
      (\<forall>x. own g' x = Some (Cached t' c) \<longleftrightarrow> own g x = Some (Cached t' c))"
    and mem: "\<And>x t' c. own g x = Some (Cached t' c) \<Longrightarrow> (t', c) \<noteq> (t, sc) \<Longrightarrow> mem a' x = mem a x"
  shows "bins_ok a' g'"
  unfolding bins_ok_def
proof (intro allI)
  fix t' c
  show "distinct (cblk g' t' c) \<and> linked (mem a') (cblk g' t' c) \<and>
      bin_num (caches a' t' c) = length (cblk g' t' c) \<and> (cblk g' t' c \<noteq> [] \<longrightarrow> block (caches a' t' c) = hd (cblk g' t' c)) \<and>
      set (cblk g' t' c) = {x. own g' x = Some (Cached t' c)}"
  proof (cases "(t', c) = (t, sc)")
    case True
    then show ?thesis using one by simp
  next
    case False
    note b = bin_facts [OF i, where t = t' and sc = c]
    have "linked (mem a') (cblk g t' c)" by (rule linked_cong [OF b(2)]) (use b(5) mem False in blast)
    then show ?thesis using other [OF False] b by auto
  qed
qed

text \<open>A new superblock, all of its blocks in the cache of thread \<open>t\<close>.\<close>

definition all_blocks :: "nat \<Rightarrow> nat \<Rightarrow> nat \<Rightarrow> nat list" where
  "all_blocks f d sc = map (\<lambda>i. f + d * 65536 + i * bsz sc) [0..<bnum sc]"

lemma set_all_blocks: "set (all_blocks f d sc) = {x. in_block f d sc x}"
  by (auto simp: all_blocks_def in_block_def)

lemma distinct_all_blocks: "1 \<le> sc \<Longrightarrow> sc < 40 \<Longrightarrow> distinct (all_blocks f d sc)"
  using class_geometry(1) [of sc] by (auto simp: all_blocks_def distinct_map inj_on_def)

definition g_adopt :: "nat \<Rightarrow> nat \<Rightarrow> nat \<Rightarrow> nat \<Rightarrow> view \<Rightarrow> view" where
  "g_adopt f t sc d g = g\<lparr>use_of := (use_of g)(d \<mapsto> Small sc), fblk := (fblk g)(d := []),
     own := (\<lambda>x. if in_block f d sc x then Some (Cached t sc) else own g x),
     cblk := (cblk g)(t := (cblk g t)(sc := all_blocks f d sc))\<rparr>"

lemma adopt_ok:
  assumes i: "ainv a g" and d: "use_of g d = None" "d < nsb g" and sc: "1 \<le> sc" "sc < 40" and e: "cblk g t sc = []"
    and dsc: "desc_ok (first_sb a) (descs a d) d sc []" "state (anchor (descs a d)) = SB_FULL"
    and l: "linked (mem a) (all_blocks (first_sb a) d sc)"
  shows "ainv (set_bin t sc \<lparr>block = first_sb a + d * 65536, bin_num = bnum sc\<rparr> a) (g_adopt (first_sb a) t sc d g)"
    (is "ainv ?a ?g")
proof -
  have sb: "sbi (first_sb a) x = d" if "in_block (first_sb a) d sc x" for x using in_block_bounds(3) [OF sc that] .
  have no: "own g x = None" if "sbi (first_sb a) x = d" for x using no_owner [OF i] that d by simp
  have "frees_ok ?a ?g" using ainvD(3) [OF i] d by (auto simp: frees_ok_def g_adopt_def)
  moreover have "spaces_ok ?g" using ainvD(2) [OF i] d by (auto simp: spaces_ok_def g_adopt_def)
  moreover have "parts_ok ?a ?g"
    using ainvD(4) [OF i] d dsc(2) unfolding parts_ok_def by (auto simp: g_adopt_def)
  moreover have "smalls_ok ?a ?g"
  proof (rule smalls_ok_one [OF i, where d = d])
    fix c assume "use_of ?g d = Some (Small c)"
    then have c: "c = sc" by (simp add: g_adopt_def)
    have "\<not> (own ?g x = Some Free \<and> sbi (first_sb a) x = d)" for x using no [of x] by (auto simp: g_adopt_def split: if_splits)
    then have "{x. own ?g x = Some Free \<and> sbi (first_sb a) x = d} = {}" by blast
    then show "desc_ok (first_sb a) (descs ?a d) d c (fblk ?g d) \<and> distinct (fblk ?g d) \<and>
      linked (mem ?a) (fblk ?g d) \<and> set (fblk ?g d) = {x. own ?g x = Some Free \<and> sbi (first_sb a) x = d}"
      using dsc(1) c by (simp add: g_adopt_def)
  next
    fix x assume "sbi (first_sb a) x \<noteq> d"
    then have "\<not> in_block (first_sb a) d sc x" using sb by blast
    then show "own ?g x = Some Free \<longleftrightarrow> own g x = Some Free" by (simp add: g_adopt_def)
  qed (simp_all add: g_adopt_def)
  moreover have "larges_ok ?a ?g" using ainvD(6) [OF i] by (simp add: larges_ok_def g_adopt_def)
  moreover have "bins_ok ?a ?g"
  proof (rule bins_ok_one [OF i, where t = t and sc = sc])
    have ne: "all_blocks (first_sb a) d sc \<noteq> []" "hd (all_blocks (first_sb a) d sc) = first_sb a + d * 65536"
      using class_geometry(2) [OF sc] by (simp_all add: all_blocks_def hd_map)
    have "own g x \<noteq> Some (Cached t sc)" for x using bin_facts(5) [OF i, of x t sc] e by simp
    then have "set (cblk ?g t sc) = {x. own ?g x = Some (Cached t sc)}"
      by (simp add: g_adopt_def set_all_blocks)
    moreover have "length (all_blocks (first_sb a) d sc) = bnum sc" by (simp add: all_blocks_def)
    ultimately show "distinct (cblk ?g t sc) \<and> linked (mem ?a) (cblk ?g t sc) \<and>
      bin_num (caches ?a t sc) = length (cblk ?g t sc) \<and> (cblk ?g t sc \<noteq> [] \<longrightarrow> block (caches ?a t sc) = hd (cblk ?g t sc)) \<and>
      set (cblk ?g t sc) = {x. own ?g x = Some (Cached t sc)}"
      using distinct_all_blocks [OF sc] l ne(2) by (simp add: g_adopt_def)
  qed (use no sb in \<open>auto simp: g_adopt_def split: if_splits\<close>)
  moreover have "own_ok (first_sb ?a) ?g"
    unfolding own_ok_def
  proof (intro allI impI)
    fix x pl assume x: "own ?g x = Some pl"
    show "\<exists>c. use_of ?g (sbi (first_sb ?a) x) = Some (Small c) \<and> in_block (first_sb ?a) (sbi (first_sb ?a) x) c x \<and>
        (\<forall>t c'. pl = Cached t c' \<longrightarrow> c' = c)"
    proof (cases "in_block (first_sb a) d sc x")
      case True
      then show ?thesis using x sb by (auto simp: g_adopt_def)
    next
      case False
      then have "own g x = Some pl" using x by (simp add: g_adopt_def)
      with own_okD [OF ainvD(8) [OF i] this] no [of x] show ?thesis by (auto simp: g_adopt_def)
    qed
  qed
  moreover have "base_ok ?a ?g" using ainvD(1) [OF i] by (simp add: base_ok_def g_adopt_def)
  ultimately show ?thesis by (simp add: ainv_def)
qed

lemma link_blocks_eq:
  "link_blocks sb bs n a = a\<lparr>mem := mem (link_blocks sb bs n a)\<rparr>"
  "(\<And>i. i < n - 1 \<Longrightarrow> x \<noteq> sb + i * bs) \<Longrightarrow> mem (link_blocks sb bs n a) x = mem a x"
  "0 < bs \<Longrightarrow> i < n - 1 \<Longrightarrow> mem (link_blocks sb bs n a) (sb + i * bs) = sb + (i + 1) * bs"
proof -
  define F where "F = (\<lambda>k. fold (\<lambda>idx a. a\<lparr>mem := (mem a)(sb + idx * bs := sb + (idx + 1) * bs)\<rparr>) [0..<k] a)"
  have eq: "link_blocks sb bs n a = F (n - 1)" by (simp add: link_blocks_def F_def)
  have ex: "\<exists>m. F k = a\<lparr>mem := m\<rparr>" for k
  proof (induction k)
    case 0
    show ?case by (rule exI [of _ "mem a"]) (simp add: F_def)
  next
    case (Suc k)
    then obtain m where m: "F k = a\<lparr>mem := m\<rparr>" ..
    have "F (Suc k) = (F k)\<lparr>mem := (mem (F k))(sb + k * bs := sb + (k + 1) * bs)\<rparr>" by (simp add: F_def)
    then have "F (Suc k) = a\<lparr>mem := m(sb + k * bs := sb + (k + 1) * bs)\<rparr>" unfolding m by simp
    then show ?case by blast
  qed
  have "F k = a\<lparr>mem := mem (F k)\<rparr>" for k using ex [of k] by auto
  then show "link_blocks sb bs n a = a\<lparr>mem := mem (link_blocks sb bs n a)\<rparr>" unfolding eq by blast
  have "(\<forall>i < k. x \<noteq> sb + i * bs) \<longrightarrow> mem (F k) x = mem a x" for k by (induction k) (simp_all add: F_def)
  then show "(\<And>i. i < n - 1 \<Longrightarrow> x \<noteq> sb + i * bs) \<Longrightarrow> mem (link_blocks sb bs n a) x = mem a x" unfolding eq by blast
  assume bs: "0 < bs"
  have "i < k \<longrightarrow> mem (F k) (sb + i * bs) = sb + (i + 1) * bs" for k
    using bs by (induction k) (auto simp: F_def less_Suc_eq)
  then show "i < n - 1 \<Longrightarrow> mem (link_blocks sb bs n a) (sb + i * bs) = sb + (i + 1) * bs" unfolding eq by blast
qed

lemma linked_upt:
  assumes "\<And>i. i < n - 1 \<Longrightarrow> m (F i) = F (i + 1)"
  shows "linked m (map F [0..<n])"
  using assms
proof (induction n)
  case (Suc n)
  have "linked m (map F [0..<n])" using Suc by simp
  moreover have "m (last (map F [0..<n])) = F n" if "0 < n" using Suc.prems [of "n - 1"] that by (simp add: last_map)
  ultimately show ?case by (cases "n = 0") (simp_all add: linked_append del: map_map)
qed simp

subsection \<open>Live memory\<close>

text \<open>The blocks the program holds, with their usable size, and their cells.\<close>

definition live_size :: "nat \<Rightarrow> view \<Rightarrow> nat \<Rightarrow> nat option" where
  "live_size f g p =
     (if own g p = Some Live
      then (case use_of g (sbi f p) of Some (Small sc) \<Rightarrow> Some (bsz sc) | _ \<Rightarrow> None)
      else (case large_of g (sbi f p) of Some n \<Rightarrow> if p = f + sbi f p * 65536 then Some (n * 65536) else None | None \<Rightarrow> None))"

definition live_cells :: "nat \<Rightarrow> view \<Rightarrow> nat set" where
  "live_cells f g = {x. \<exists>p u. live_size f g p = Some u \<and> p \<le> x \<and> x < p + u}"

lemma live_size_cong:
  assumes "\<And>x. own g' x = Some Live \<longleftrightarrow> own g x = Some Live" and "\<And>x. own g x = Some Live \<Longrightarrow> use_of g' (sbi f x) = use_of g (sbi f x)"
    and "large_of g' = large_of g"
  shows "live_size f g' = live_size f g"
  using assms(1,3) assms(2) by (auto simp: live_size_def fun_eq_iff)

lemma sbi_offset: "f + d * 65536 \<le> x \<Longrightarrow> x < f + d * 65536 + 65536 \<Longrightarrow> sbi f x = d"
  unfolding sbi_def by (rule div_nat_eqI) simp_all

lemma sbi_run:
  assumes "f + d * 65536 \<le> x" and "x < f + d * 65536 + n * 65536"
  shows "d \<le> sbi f x \<and> sbi f x < d + n"
proof -
  have "d * 65536 \<le> x - f" "x - f < (d + n) * 65536" using assms by (simp_all add: add_mult_distrib)
  then show ?thesis unfolding sbi_def by (simp add: less_eq_div_iff_mult_less_eq div_less_iff_less_mult)
qed

text \<open>A live cell lies in a live block of its superblock, or in a superblock of a large block.\<close>

lemma live_cell_cases:
  assumes i: "ainv a g" and x: "live_size (first_sb a) g p = Some u" "p \<le> x" "x < p + u"
  shows "(\<exists>sc. own g p = Some Live \<and> use_of g (sbi (first_sb a) x) = Some (Small sc) \<and> in_block (first_sb a) (sbi (first_sb a) x) sc p \<and>
      1 \<le> sc \<and> sc < 40 \<and> u = bsz sc) \<or>
    (own g p \<noteq> Some Live \<and> use_of g (sbi (first_sb a) x) = Some (Part (sbi (first_sb a) p)))"
proof (cases "own g p = Some Live")
  case True
  obtain sc where sc: "use_of g (sbi (first_sb a) p) = Some (Small sc)" "in_block (first_sb a) (sbi (first_sb a) p) sc p" "1 \<le> sc" "sc < 40"
    using own_class [OF i True] by blast
  have u: "u = bsz sc" using x(1) sc(1) True by (simp add: live_size_def)
  have "sbi (first_sb a) x = sbi (first_sb a) p"
    by (rule sbi_offset) (use in_block_bounds(1,2) [OF sc(3,4,2)] x(2,3) u in simp_all)
  then show ?thesis using sc u True by simp
next
  case False
  then obtain n where n: "large_of g (sbi (first_sb a) p) = Some n" "p = first_sb a + sbi (first_sb a) p * 65536" "u = n * 65536"
    using x(1) by (auto simp: live_size_def split: option.splits if_splits)
  have "sbi (first_sb a) p \<le> sbi (first_sb a) x \<and> sbi (first_sb a) x < sbi (first_sb a) p + n"
    by (rule sbi_run) (use x(2,3) n(2,3) in simp_all)
  then show ?thesis using ainvD(2) [OF i] n(1) False by (auto simp: spaces_ok_def)
qed

lemma block_unique:
  assumes sc: "1 \<le> sc" "sc < 40" and "in_block f d sc p" and "in_block f d sc q" and "p \<le> x" "x < p + bsz sc" "q \<le> x" "x < q + bsz sc"
  shows "p = q"
proof -
  obtain i j where ij: "p = f + d * 65536 + i * bsz sc" "q = f + d * 65536 + j * bsz sc" using assms(3,4) by (auto simp: in_block_def)
  have "i = (x - (f + d * 65536)) div bsz sc" if "p = f + d * 65536 + i * bsz sc" "p \<le> x" "x < p + bsz sc" for p i
    by (rule div_nat_eqI [symmetric]) (use that in \<open>simp_all add: algebra_simps\<close>)
  from this [OF ij(1) assms(5,6)] this [OF ij(2) assms(7,8)] show ?thesis using ij by simp
qed

text \<open>The first cell of a block that is not live, and unaccounted memory, are not live.\<close>

lemma not_live:
  assumes i: "ainv a g"
    and y: "(\<exists>pl. own g y = Some pl \<and> pl \<noteq> Live) \<or> use_of g (sbi (first_sb a) y) = None"
  shows "y \<notin> live_cells (first_sb a) g"
proof
  assume "y \<in> live_cells (first_sb a) g"
  then obtain p u where p: "live_size (first_sb a) g p = Some u" "p \<le> y" "y < p + u" by (auto simp: live_cells_def)
  from y show False
  proof
    assume "use_of g (sbi (first_sb a) y) = None"
    then show False using live_cell_cases [OF i p] by simp
  next
    assume "\<exists>pl. own g y = Some pl \<and> pl \<noteq> Live"
    then obtain pl where pl: "own g y = Some pl" "pl \<noteq> Live" by blast
    obtain sc where sc: "use_of g (sbi (first_sb a) y) = Some (Small sc)" "in_block (first_sb a) (sbi (first_sb a) y) sc y" "1 \<le> sc" "sc < 40"
      using own_class [OF i pl(1)] by blast
    from live_cell_cases [OF i p] sc(1) have q: "own g p = Some Live" "in_block (first_sb a) (sbi (first_sb a) y) sc p" "u = bsz sc" by auto
    have "p = y"
      by (rule block_unique [OF sc(3,4) q(2) sc(2), of y]) (use p q(3) class_geometry(1) [OF sc(3,4)] in simp_all)
    then show False using q(1) pl by simp
  qed
qed

text \<open>What a step that does not touch the program's blocks owes its caller.\<close>

definition quiet_step :: "lralloc \<Rightarrow> view \<Rightarrow> lralloc \<Rightarrow> view \<Rightarrow> bool" where
  "quiet_step a g a' g' \<longleftrightarrow> ainv a' g' \<and> first_sb a' = first_sb a \<and> address_limit a' = address_limit a \<and> roots a' = roots a \<and>
     live_size (first_sb a) g' = live_size (first_sb a) g \<and> (\<forall>x \<in> live_cells (first_sb a) g. mem a' x = mem a x)"

lemma quiet_step_refl: "ainv a g \<Longrightarrow> quiet_step a g a g"
  by (simp add: quiet_step_def)

lemma quiet_step_trans:
  assumes "quiet_step a g a1 g1" and "quiet_step a1 g1 a2 g2"
  shows "quiet_step a g a2 g2"
proof -
  have "live_cells (first_sb a) g1 = live_cells (first_sb a) g" using assms(1) by (simp add: quiet_step_def live_cells_def)
  then show ?thesis using assms by (simp add: quiet_step_def)
qed

lemma quiet_stepI:
  assumes "ainv a' g'" and "first_sb a' = first_sb a" "address_limit a' = address_limit a" "roots a' = roots a"
    and "\<And>x. own g' x = Some Live \<longleftrightarrow> own g x = Some Live"
    and "\<And>x. own g x = Some Live \<Longrightarrow> use_of g' (sbi (first_sb a) x) = use_of g (sbi (first_sb a) x)"
    and "large_of g' = large_of g" and "\<And>x. x \<in> live_cells (first_sb a) g \<Longrightarrow> mem a' x = mem a x"
  shows "quiet_step a g a' g'"
  using assms(1-4,8) live_size_cong [of g' g, OF assms(5,6,7)] by (simp add: quiet_step_def)

lemma carries_quiet:
  assumes i: "ainv a g" and "ainv a' g'" and "carries g g'" and "a_same a a'"
  shows "quiet_step a g a' g'"
proof (rule quiet_stepI)
  fix x assume "own g x = Some Live"
  then obtain sc where "use_of g (sbi (first_sb a) x) = Some (Small sc)" using own_class [OF i] by blast
  then show "use_of g' (sbi (first_sb a) x) = use_of g (sbi (first_sb a) x)" using assms(3) by (simp add: carries_def)
qed (use assms in \<open>simp_all add: carries_def a_same_def\<close>)

subsection \<open>Filling a cache\<close>

lemma malloc_from_new_sb_ok:
  assumes i: "ainv a g" and r: "has_room a" and sc: "1 \<le> sc" "sc < 40" and e: "cblk g t sc = []"
  obtains a' g' where "malloc_from_new_sb t sc a = Some (bnum sc, a')" "quiet_step a g a' g'" "length (cblk g' t sc) = bnum sc"
proof -
  obtain d a1 g1 where a1: "alloc_small_sb kSuperBlockSize a = Some (first_sb a + d * 65536, a1)" "ainv a1 g1" "use_of g1 d = None"
    "d < nsb g1" "carries g g1" "a_same a a1"
    by (rule alloc_small_sb_ok [OF i r])
  note q1 = carries_quiet [OF i a1(2,5,6)]
  note cg = class_geometry [OF sc]
  have f: "first_sb a1 = first_sb a" using a1(6) by (simp add: a_same_def)
  define sb where "sb = first_sb a + d * 65536"
  have sb0: "sb \<noteq> 0" using ainvD(1) [OF i] by (simp add: sb_def base_ok_def)
  have ld: "lookup_desc a1 sb = d" using address_of_desc [of a1 d] by (simp add: sb_def f)
  have bs: "bsz sc mod 2 ^ 32 = bsz sc" using cg(4) by (rule mod_less)
  define D where "D = init_descriptor sc (bsz sc) (bnum sc) sb Descriptor"
  define D' where "D' = D\<lparr>anchor := \<lparr>avail = bnum sc, count = 0, state = SB_FULL\<rparr>\<rparr>"
  define m where "m = mem (link_blocks sb (bsz sc) (bnum sc) (set_desc d (\<lambda>_. D) a1))"
  note lk = link_blocks_eq [where sb = sb and bs = "bsz sc" and n = "bnum sc" and a = "set_desc d (\<lambda>_. D) a1", folded m_def]
  have in_sb: "sbi (first_sb a) (sb + k * bsz sc) = d" if "k < bnum sc" for k
    by (rule in_block_bounds(3) [OF sc]) (use that in \<open>auto simp: in_block_def sb_def\<close>)
  define a2 where "a2 = (set_desc d (\<lambda>_. D') a1)\<lparr>mem := m\<rparr>"
  have i2: "ainv a2 g1"
    unfolding a2_def
  proof (rule ainv_mem [OF set_desc_unused [OF a1(2,3)]])
    fix x pl assume x: "own g1 x = Some pl"
    then have "sbi (first_sb a) x \<noteq> d" using no_owner [OF a1(2), of x] a1(3) f by auto
    then have "m x = mem (set_desc d (\<lambda>_. D) a1) x" by (intro lk(2)) (use in_sb in auto)
    then show "m x = mem (set_desc d (\<lambda>_. D') a1) x" by simp
  qed
  have e1: "cblk g1 t sc = []" using a1(5) e by (simp add: carries_def)
  have "linked m (map (\<lambda>i. sb + i * bsz sc) [0..<bnum sc])"
    by (rule linked_upt) (use lk(3) cg(1) in simp)
  then have ln: "linked (mem a2) (all_blocks (first_sb a2) d sc)" by (simp add: a2_def f all_blocks_def sb_def)
  have dsc: "desc_ok (first_sb a2) (descs a2 d) d sc []" "state (anchor (descs a2 d)) = SB_FULL"
    using sc bs by (simp_all add: a2_def D'_def D_def desc_ok_def init_descriptor_def f sb_def)
  define a3 where "a3 = set_bin t sc \<lparr>block = sb, bin_num = bnum sc\<rparr> a2"
  define g3 where "g3 = g_adopt (first_sb a2) t sc d g1"
  have i3: "ainv a3 g3"
    using adopt_ok [OF i2 a1(3,4) sc e1 dsc ln] by (simp add: a3_def g3_def a2_def f sb_def)
  have nl: "own g1 x \<noteq> Some Live" if "sbi (first_sb a) x = d" for x
    using no_owner [OF a1(2), of x] a1(3) f that by auto
  have ib: "sbi (first_sb a) x = d" if "in_block (first_sb a) d sc x" for x by (rule in_block_bounds(3) [OF sc that])
  have "quiet_step a1 g1 a3 g3"
  proof (rule quiet_stepI [OF i3])
    show "own g3 x = Some Live \<longleftrightarrow> own g1 x = Some Live" for x
      using nl [OF ib] by (auto simp: g3_def g_adopt_def a2_def f)
    show "use_of g3 (sbi (first_sb a1) x) = use_of g1 (sbi (first_sb a1) x)" if "own g1 x = Some Live" for x
    proof -
      have "sbi (first_sb a) x \<noteq> d" using nl that by blast
      then show ?thesis by (simp add: g3_def g_adopt_def f)
    qed
    fix x assume "x \<in> live_cells (first_sb a1) g1"
    then have "sbi (first_sb a) x \<noteq> d" using not_live [OF a1(2), of x] a1(3) f by auto
    then have "m x = mem (set_desc d (\<lambda>_. D) a1) x" by (intro lk(2)) (use in_sb in auto)
    then show "mem a3 x = mem a1 x" by (simp add: a3_def a2_def)
  qed (simp_all add: a3_def a2_def g3_def g_adopt_def)
  with q1 have q: "quiet_step a g a3 g3" by (rule quiet_step_trans)
  have emp: "bin_num (caches a1 t sc) = 0" using bin_facts(3) [OF a1(2), of t sc] e1 by simp
  have cs: "caches (link_blocks sb (bsz sc) (bnum sc) (set_desc d (\<lambda>_. D) a1)) = caches a1" by (subst lk(1)) simp
  have "malloc_from_new_sb t sc a = Some (bnum sc, a3)"
  proof -
    have "set_desc d (anchor_update (\<lambda>_. \<lparr>avail = bnum sc, count = 0, state = SB_FULL\<rparr>))
        (set_bin t sc \<lparr>block = sb, bin_num = bnum sc\<rparr> (link_blocks sb (bsz sc) (bnum sc) (set_desc d (\<lambda>_. D) a1))) = a3"
      by (subst lk(1)) (simp add: a3_def a2_def D'_def set_bin_def set_desc_def)
    then show ?thesis
      using a1(1) sb0 ld emp entry_facts(1) [of sc] sc
      by (simp add: malloc_from_new_sb_def sb_def [symmetric] push_list_def D_def [symmetric] cs)
  qed
  moreover have "length (cblk g3 t sc) = bnum sc" by (simp add: g3_def g_adopt_def all_blocks_def)
  ultimately show ?thesis using that q by blast
qed

text \<open>The first superblock of a partial list, in use, gives all its free blocks to the cache.\<close>

definition g_take :: "nat \<Rightarrow> nat \<Rightarrow> nat \<Rightarrow> view \<Rightarrow> view" where
  "g_take t sc d g = g\<lparr>parts := (parts g)(sc := tl (parts g sc)), fblk := (fblk g)(d := []),
     own := (\<lambda>x. if x \<in> set (fblk g d) then Some (Cached t sc) else own g x),
     cblk := (cblk g)(t := (cblk g t)(sc := fblk g d))\<rparr>"

lemma first_partial:
  assumes i: "ainv a g" and h: "partial_list a sc = (Some d, s)"
  obtains ds where "parts g sc = d # ds" "use_of g d = Some (Small sc)" "d \<notin> set ds" "state (anchor (descs a d)) \<noteq> SB_FULL"
    "chain (\<lambda>d. next_partial (descs a d)) (next_partial (descs a d)) ds"
    "set ds = {e. e \<noteq> d \<and> use_of g e = Some (Small sc) \<and> state (anchor (descs a e)) \<noteq> SB_FULL}" "distinct ds"
proof -
  have p: "chain (\<lambda>d. next_partial (descs a d)) (Some d) (parts g sc)" "distinct (parts g sc)"
    "set (parts g sc) = {d. use_of g d = Some (Small sc) \<and> state (anchor (descs a d)) \<noteq> SB_FULL}"
    using spec [OF ainvD(4) [OF i, unfolded parts_ok_def], of sc] h by auto
  then obtain ds where ds: "parts g sc = d # ds" "chain (\<lambda>d. next_partial (descs a d)) (next_partial (descs a d)) ds"
    by (auto simp: chain_Some)
  have "d \<in> set (parts g sc)" using ds(1) by simp
  then have "use_of g d = Some (Small sc) \<and> state (anchor (descs a d)) \<noteq> SB_FULL" using p(3) by blast
  moreover have "set ds = {e. e \<noteq> d \<and> use_of g e = Some (Small sc) \<and> state (anchor (descs a e)) \<noteq> SB_FULL}"
    using p(2,3) ds(1) by auto
  ultimately show ?thesis using that p(2) ds by simp
qed

lemma take_partial_ok:
  assumes i: "ainv a g" and h: "partial_list a sc = (Some d, s)" and st: "state (anchor (descs a d)) = SB_PARTIAL"
    and e: "cblk g t sc = []" and D: "D = (descs a d)\<lparr>anchor := \<lparr>avail = bnum sc, count = 0, state = SB_FULL\<rparr>\<rparr>"
  defines "a' \<equiv> set_bin t sc \<lparr>block = hd (fblk g d), bin_num = length (fblk g d)\<rparr>
      (set_desc d (\<lambda>_. D) (a\<lparr>partial_list := (partial_list a)(sc := (next_partial (descs a d), s + 1))\<rparr>))"
  shows "ainv a' (g_take t sc d g)"
proof -
  let ?g = "g_take t sc d g"
  obtain ds where ds: "parts g sc = d # ds" "use_of g d = Some (Small sc)" "d \<notin> set ds"
    "chain (\<lambda>d. next_partial (descs a d)) (next_partial (descs a d)) ds"
    "set ds = {e. e \<noteq> d \<and> use_of g e = Some (Small sc) \<and> state (anchor (descs a e)) \<noteq> SB_FULL}" "distinct ds"
    by (rule first_partial [OF i h])
  note k = small_ok [OF i ds(2)]
  have sc: "1 \<le> sc" "sc < 40" and dk: "fblk g d \<noteq> []" using k(1) st by (auto simp: desc_ok_def)
  have ow: "own g x = Some Free" "sbi (first_sb a) x = d" if "x \<in> set (fblk g d)" for x using k(4) [of x] that by simp_all
  have fld: "first_sb a' = first_sb a" "mem a' = mem a" "descs a' = (descs a)(d := D)" "avail_sb a' = avail_sb a"
    "bulk_tail a' = bulk_tail a" "address_limit a' = address_limit a"
    "partial_list a' = (partial_list a)(sc := (next_partial (descs a d), s + 1))"
    "caches a' = (caches a)(t := (caches a t)(sc := \<lparr>block = hd (fblk g d), bin_num = length (fblk g d)\<rparr>))"
    by (simp_all add: a'_def)
  have gf: "use_of ?g = use_of g" "large_of ?g = large_of g" "nsb ?g = nsb g" "frees ?g = frees g" "parts ?g = (parts g)(sc := ds)"
    "fblk ?g = (fblk g)(d := [])" "own ?g x = (if x \<in> set (fblk g d) then Some (Cached t sc) else own g x)"
    "cblk ?g = (cblk g)(t := (cblk g t)(sc := fblk g d))" for x
    using ds(1) by (simp_all add: g_take_def)
  have D': "next_free D = next_free (descs a d)" "next_partial D = next_partial (descs a d)" "state (anchor D) = SB_FULL"
    by (simp_all add: D)
  have "frees_ok a' ?g"
    using ainvD(3) [OF i] chain_cong [of "\<lambda>e. next_free (descs a e)" _ _ "\<lambda>e. next_free (descs a' e)"] D'(1)
    by (auto simp: frees_ok_def fld gf)
  moreover have "parts_ok a' ?g"
    unfolding parts_ok_def
  proof (intro allI conjI)
    fix c
    have p: "chain (\<lambda>d. next_partial (descs a d)) (fst (partial_list a c)) (parts g c)" "distinct (parts g c)"
      "set (parts g c) = {d. use_of g d = Some (Small c) \<and> state (anchor (descs a d)) \<noteq> SB_FULL}"
      using spec [OF ainvD(4) [OF i, unfolded parts_ok_def], of c] by auto
    have np: "next_partial (descs a' e) = next_partial (descs a e)" for e using D'(2) by (simp add: fld)
    have "chain (\<lambda>d. next_partial (descs a d)) (fst (partial_list a' c)) (parts ?g c)"
      using p(1) ds(4) by (simp add: fld gf)
    then show "chain (\<lambda>d. next_partial (descs a' d)) (fst (partial_list a' c)) (parts ?g c)" by (simp add: np)
    show "distinct (parts ?g c)" using p(2) ds(6) by (simp add: gf)
    show "set (parts ?g c) = {d. use_of ?g d = Some (Small c) \<and> state (anchor (descs a' d)) \<noteq> SB_FULL}"
      using p(3) ds(2,5) D'(3) by (auto simp: fld gf)
  qed
  moreover have "smalls_ok a' ?g"
  proof (rule smalls_ok_one [OF i, where d = d])
    fix c assume "use_of ?g d = Some (Small c)"
    then have c: "c = sc" using ds(2) by (simp add: gf)
    have "{x. own ?g x = Some Free \<and> sbi (first_sb a) x = d} = {}" using k(4) by (auto simp: gf split: if_splits)
    then show "desc_ok (first_sb a) (descs a' d) d c (fblk ?g d) \<and> distinct (fblk ?g d) \<and>
      linked (mem a') (fblk ?g d) \<and> set (fblk ?g d) = {x. own ?g x = Some Free \<and> sbi (first_sb a) x = d}"
      using k(1) c D by (simp add: gf fld desc_ok_def)
  next
    fix x assume "sbi (first_sb a) x \<noteq> d"
    then have "x \<notin> set (fblk g d)" using ow(2) by blast
    then show "own ?g x = Some Free \<longleftrightarrow> own g x = Some Free" by (simp add: gf)
  qed (simp_all add: gf fld)
  moreover have "larges_ok a' ?g"
    using ainvD(6) [OF i] large_used [OF i] ds(2) by (fastforce simp: larges_ok_def gf fld)
  moreover have "bins_ok a' ?g"
  proof (rule bins_ok_one [OF i, where t = t and sc = sc])
    have none: "own g x \<noteq> Some (Cached t sc)" for x using bin_facts(5) [OF i, of x t sc] e by simp
    then have "set (cblk ?g t sc) = {x. own ?g x = Some (Cached t sc)}" by (simp add: gf)
    then show "distinct (cblk ?g t sc) \<and> linked (mem a') (cblk ?g t sc) \<and>
      bin_num (caches a' t sc) = length (cblk ?g t sc) \<and> (cblk ?g t sc \<noteq> [] \<longrightarrow> block (caches a' t sc) = hd (cblk ?g t sc)) \<and>
      set (cblk ?g t sc) = {x. own ?g x = Some (Cached t sc)}"
      using k(2,3) by (simp add: gf fld)
    fix t' c assume "(t', c) \<noteq> (t, sc)"
    moreover have "own g x = Some (Cached t' c) \<Longrightarrow> x \<notin> set (fblk g d)" for x using ow(1) [of x] by auto
    ultimately show "cblk ?g t' c = cblk g t' c \<and> caches a' t' c = caches a t' c \<and>
      (\<forall>x. own ?g x = Some (Cached t' c) \<longleftrightarrow> own g x = Some (Cached t' c))"
      by (auto simp: gf fld)
  qed (simp add: fld)
  moreover have "own_ok (first_sb a') ?g"
    unfolding fld(1)
  proof (rule own_ok_moved [OF ainvD(8) [OF i]])
    fix x pl assume x: "own ?g x = Some pl"
    show "\<exists>pl'. own g x = Some pl' \<and> (pl = pl' \<or> (\<forall>t c. pl = Cached t c \<longrightarrow> use_of g (sbi (first_sb a) x) = Some (Small c)))"
      using x ow [of x] ds(2) by (cases "x \<in> set (fblk g d)") (auto simp: gf)
  qed (simp add: gf)
  moreover have "base_ok a' ?g" "spaces_ok ?g" using ainvD(1,2) [OF i] by (simp_all add: base_ok_def spaces_ok_def gf fld)
  ultimately show ?thesis by (simp add: ainv_def)
qed

text \<open>
  A superblock all of whose blocks are free leaves the accounts; \<open>ps\<close> are the partial lists
  without it.
\<close>

definition g_detach :: "nat \<Rightarrow> nat \<Rightarrow> (nat \<Rightarrow> nat list) \<Rightarrow> view \<Rightarrow> view" where
  "g_detach f d ps g = g\<lparr>use_of := (use_of g)(d := None), own := (\<lambda>x. if sbi f x = d then None else own g x), parts := ps\<rparr>"

lemma detach_ok:
  assumes i: "ainv a g" and d: "use_of g d = Some (Small sc)"
    and free: "\<And>x pl. own g x = Some pl \<Longrightarrow> sbi (first_sb a) x = d \<Longrightarrow> pl = Free"
    and p: "\<And>c. chain (\<lambda>e. next_partial (descs a e)) (fst (pl c)) (ps c)" "\<And>c. distinct (ps c)"
      "\<And>c. set (ps c) = set (parts g c) - {d}"
  shows "ainv (a\<lparr>partial_list := pl\<rparr>) (g_detach (first_sb a) d ps g)" (is "ainv ?a ?g")
    and "quiet_step a g (a\<lparr>partial_list := pl\<rparr>) (g_detach (first_sb a) d ps g)"
proof -
  have "frees_ok ?a ?g" using ainvD(3) [OF i] d by (auto simp: frees_ok_def g_detach_def)
  moreover have "spaces_ok ?g" using ainvD(2) [OF i] d by (auto simp: spaces_ok_def g_detach_def)
  moreover have "parts_ok ?a ?g"
    unfolding parts_ok_def
  proof (intro allI conjI)
    fix c
    show "chain (\<lambda>d. next_partial (descs ?a d)) (fst (partial_list ?a c)) (parts ?g c)" "distinct (parts ?g c)"
      using p(1,2) by (simp_all add: g_detach_def)
    have "set (parts g c) = {d. use_of g d = Some (Small c) \<and> state (anchor (descs a d)) \<noteq> SB_FULL}"
      using spec [OF ainvD(4) [OF i, unfolded parts_ok_def], of c] by auto
    then show "set (parts ?g c) = {d. use_of ?g d = Some (Small c) \<and> state (anchor (descs ?a d)) \<noteq> SB_FULL}"
      using p(3) by (auto simp: g_detach_def)
  qed
  moreover have "smalls_ok ?a ?g"
    by (rule smalls_ok_one [OF i, where d = d]) (auto simp: g_detach_def split: if_splits)
  moreover have "larges_ok ?a ?g" using ainvD(6) [OF i] by (simp add: larges_ok_def g_detach_def)
  moreover have "bins_ok ?a ?g"
  proof -
    have "own ?g x = Some (Cached t c) \<longleftrightarrow> own g x = Some (Cached t c)" for x t c
      using free [of x] by (auto simp: g_detach_def)
    then show ?thesis using ainvD(7) [OF i] by (simp add: bins_ok_def) (simp add: g_detach_def)
  qed
  moreover have "own_ok (first_sb ?a) ?g"
    using own_okD [OF ainvD(8) [OF i]] unfolding own_ok_def by (auto simp: g_detach_def split: if_splits)
  moreover have "base_ok ?a ?g" using ainvD(1) [OF i] by (simp add: base_ok_def g_detach_def)
  ultimately show i': "ainv ?a ?g" by (simp add: ainv_def)
  show "quiet_step a g ?a ?g"
    by (rule quiet_stepI [OF i']) (use free in \<open>auto simp: g_detach_def\<close>)
qed

lemma empty_all_free:
  assumes i: "ainv a g" and d: "use_of g d = Some (Small sc)" and l: "length (fblk g d) = bnum sc"
    and x: "own g x = Some pl" "sbi (first_sb a) x = d"
  shows "pl = Free"
proof -
  note k = small_ok [OF i d]
  obtain c where "use_of g d = Some (Small c)" "in_block (first_sb a) d c x" using own_okD [OF ainvD(8) [OF i] x(1)] x(2) by blast
  then have "x \<in> set (fblk g d)" using all_free [OF k(2) k(5) l] d by simp
  then show ?thesis using k(4) [of x] x(1) by simp
qed

lemma heap_pop_partial_eq:
  "partial_list a h = (Some d, s) \<Longrightarrow>
    heap_pop_partial h a = (Some d, a\<lparr>partial_list := (partial_list a)(h := (next_partial (descs a d), s + 1))\<rparr>)"
  "partial_list a h = (None, s) \<Longrightarrow> heap_pop_partial h a = (None, a)"
  by (simp_all add: heap_pop_partial_def)

lemma malloc_from_partial_ok:
  assumes "ainv a g" and sc: "1 \<le> sc" "sc < 40" and "cblk g t sc = []"
  shows "\<exists>n a' g'. malloc_from_partial t sc a = Some (n, a') \<and> quiet_step a g a' g' \<and> length (cblk g' t sc) = n \<and> n \<le> bnum sc \<and>
    (has_room a \<longrightarrow> has_room a')"
  using assms(1,4)
proof (induction "length (parts g sc)" arbitrary: a g)
  case 0
  then have "parts g sc = []" by simp
  then have "fst (partial_list a sc) = None" using spec [OF ainvD(4) [OF 0(2), unfolded parts_ok_def], of sc] by simp
  then obtain s where "partial_list a sc = (None, s)" by (metis prod.collapse)
  then have "malloc_from_partial t sc a = Some (0, a)"
    by (subst malloc_from_partial.simps) (simp add: heap_pop_partial_eq(2))
  then show ?case using 0 quiet_step_refl by fastforce
next
  case (Suc k)
  note i = Suc.prems(1)
  obtain d s where h: "partial_list a sc = (Some d, s)"
    using spec [OF ainvD(4) [OF i, unfolded parts_ok_def], of sc] Suc.hyps(2) by (cases "partial_list a sc"; cases "parts g sc") auto
  obtain ds where ds: "parts g sc = d # ds" "use_of g d = Some (Small sc)" "d \<notin> set ds" "state (anchor (descs a d)) \<noteq> SB_FULL"
    "chain (\<lambda>d. next_partial (descs a d)) (next_partial (descs a d)) ds" "distinct ds"
    by (rule first_partial [OF i h])
  note sm = small_ok [OF i ds(2)]
  let ?desc = "descs a d"
  have D: "heap ?desc = Some sc" "superblock ?desc = first_sb a + d * 65536" "max_count ?desc = bnum sc" "desc_block_size ?desc = bsz sc"
    using sm(1) by (auto simp: desc_ok_def)
  let ?pl = "(partial_list a)(sc := (next_partial ?desc, s + 1))"
  have st: "state (anchor ?desc) = SB_EMPTY \<or> state (anchor ?desc) = SB_PARTIAL"
    using sm(1) ds(4) by (auto simp: desc_ok_def split: sb_state.splits)
  show ?case
  proof (cases "state (anchor ?desc) = SB_EMPTY")
    case True
    then have "length (fblk g d) = bnum sc" using sm(1) by (simp add: desc_ok_def)
    note fr = empty_all_free [OF i ds(2) this]
    define g1 where "g1 = g_detach (first_sb a) d ((parts g)(sc := ds)) g"
    define a1 where "a1 = a\<lparr>partial_list := ?pl\<rparr>"
    have other: "d \<notin> set (parts g c)" if "c \<noteq> sc" for c
      using spec [OF ainvD(4) [OF i, unfolded parts_ok_def], of c] ds(2) that by auto
    have q1: "quiet_step a g a1 g1"
      unfolding a1_def g1_def
    proof (rule detach_ok(2) [OF i ds(2)])
      show "pl = Free" if "own g x = Some pl" "sbi (first_sb a) x = d" for x pl by (rule fr [OF that])
      fix c
      have p: "chain (\<lambda>d. next_partial (descs a d)) (fst (partial_list a c)) (parts g c)" "distinct (parts g c)"
        using spec [OF ainvD(4) [OF i, unfolded parts_ok_def], of c] by auto
      show "chain (\<lambda>e. next_partial (descs a e)) (fst (?pl c)) (((parts g)(sc := ds)) c)" using p ds(5) by simp
      show "distinct (((parts g)(sc := ds)) c)" using p ds(6) by simp
      show "set (((parts g)(sc := ds)) c) = set (parts g c) - {d}" using other [of c] ds(1,3) by auto
    qed
    have i1: "ainv a1 g1" and f1: "first_sb a1 = first_sb a" using q1 by (simp_all add: quiet_step_def)
    have d1: "use_of g1 d = None" "d < nsb g1" using ainvD(2) [OF i] ds(2) by (simp_all add: g1_def g_detach_def spaces_ok_def)
    obtain a2 where a2: "retire_small_sb (first_sb a1 + d * 65536) kSuperBlockSize a1 = Some a2"
      "ainv a2 (g1\<lparr>use_of := (use_of g1)(d \<mapsto> Unused), frees := d # frees g1\<rparr>)" "a_same a1 a2"
      by (rule retire_small_ok [OF i1 d1])
    define g2 where "g2 = g1\<lparr>use_of := (use_of g1)(d \<mapsto> Unused), frees := d # frees g1\<rparr>"
    have q2: "quiet_step a1 g1 a2 g2"
      by (rule carries_quiet [OF i1]) (use a2 d1(1) in \<open>auto simp: g2_def carries_def\<close>)
    note i2 = a2(2) [folded g2_def]
    have pr: "parts g2 sc = ds" "cblk g2 t sc = []" using Suc.prems(2) by (simp_all add: g2_def g1_def g_detach_def)
    have room2: "has_room a2"
      using ainvD(3) [OF i2] by (auto simp: has_room_def frees_ok_def g2_def)
    obtain n a' g' where ih: "malloc_from_partial t sc a2 = Some (n, a')" "quiet_step a2 g2 a' g'" "length (cblk g' t sc) = n" "n \<le> bnum sc"
      "has_room a2 \<longrightarrow> has_room a'"
      using Suc.hyps(1) [OF _ i2 pr(2)] pr(1) ds(1) Suc.hyps(2) by auto
    have "malloc_from_partial t sc a = malloc_from_partial t sc a2"
      using a2(1) True D entry_facts(1) [of sc] sc
      by (subst malloc_from_partial.simps) (simp add: heap_pop_partial_eq(1) [OF h] a1_def Let_def)
    then show ?thesis using ih room2 quiet_step_trans [OF q1 quiet_step_trans [OF q2 ih(2)]] by auto
  next
    case False
    then have pa: "state (anchor ?desc) = SB_PARTIAL" using st by simp
    then have av: "count (anchor ?desc) = length (fblk g d)" "avail (anchor ?desc) < bnum sc"
      "hd (fblk g d) = first_sb a + d * 65536 + avail (anchor ?desc) * bsz sc" "length (fblk g d) < bnum sc"
      using sm(1) by (simp_all add: desc_ok_def)
    define a1 where "a1 = set_bin t sc \<lparr>block = hd (fblk g d), bin_num = length (fblk g d)\<rparr>
      (set_desc d (\<lambda>_. ?desc\<lparr>anchor := \<lparr>avail = bnum sc, count = 0, state = SB_FULL\<rparr>\<rparr>) (a\<lparr>partial_list := ?pl\<rparr>))"
    have i1: "ainv a1 (g_take t sc d g)" unfolding a1_def by (rule take_partial_ok [OF i h pa Suc.prems(2)]) simp
    have lv: "own g x \<noteq> Some Live" if "x \<in> set (fblk g d)" for x using sm(4) [of x] that by simp
    have q: "quiet_step a g a1 (g_take t sc d g)"
      by (rule quiet_stepI [OF i1]) (use lv in \<open>auto simp: a1_def g_take_def\<close>)
    have emp: "bin_num (caches a t sc) = 0" using bin_facts(3) [OF i, of t sc] Suc.prems(2) by simp
    have "malloc_from_partial t sc a = Some (length (fblk g d), a1)"
      using pa D av emp by (subst malloc_from_partial.simps)
        (simp add: heap_pop_partial_eq(1) [OF h] Let_def push_list_def a1_def set_desc_def set_bin_def)
    moreover have "has_room a1 = has_room a" by (simp add: has_room_def a1_def)
    ultimately show ?thesis using q av(4) by (intro exI [of _ "length (fblk g d)"] exI [of _ a1] exI [of _ "g_take t sc d g"]) (simp add: g_take_def)
  qed
qed

lemma fill_cache_ok:
  assumes i: "ainv a g" and r: "has_room a \<or> fill_cache t sc a \<noteq> None" and sc: "1 \<le> sc" "sc < 40" and e: "cblk g t sc = []"
  obtains a' g' where "fill_cache t sc a = Some a'" "quiet_step a g a' g'" "cblk g' t sc \<noteq> []"
proof -
  obtain n a1 g1 where 1: "malloc_from_partial t sc a = Some (n, a1)" "quiet_step a g a1 g1" "length (cblk g1 t sc) = n" "n \<le> bnum sc"
    "has_room a \<longrightarrow> has_room a1"
    using malloc_from_partial_ok [OF i sc e] by blast
  have i1: "ainv a1 g1" using 1(2) by (simp add: quiet_step_def)
  note cg = class_geometry [OF sc]
  show ?thesis
  proof (cases "n = 0")
    case False
    then have "fill_cache t sc a = Some a1" using 1(1,4) cg(6) by (simp add: fill_cache_def)
    then show ?thesis using that 1(2,3) False by fastforce
  next
    case True
    then have e1: "cblk g1 t sc = []" using 1(3) by simp
    have "has_room a1"
    proof (rule ccontr)
      assume nr: "\<not> has_room a1"
      have "sb_size (get_entry sc) = kSuperBlockSize" using entry_facts(1) [of sc] sc by simp
      then have "malloc_from_new_sb t sc a1 = None" using alloc_small_sb_None [OF i1 nr] by (simp add: malloc_from_new_sb_def)
      then have "fill_cache t sc a = None" using 1(1) True by (simp add: fill_cache_def)
      then show False using r nr 1(5) by simp
    qed
    from malloc_from_new_sb_ok [OF i1 this sc e1] obtain a2 g2 where
      2: "malloc_from_new_sb t sc a1 = Some (bnum sc, a2)" "quiet_step a1 g1 a2 g2" "length (cblk g2 t sc) = bnum sc" by blast
    have "fill_cache t sc a = Some a2" using 1(1) 2(1) True cg(2,6) by (simp add: fill_cache_def)
    moreover have "cblk g2 t sc \<noteq> []" using 2(3) cg(2) by auto
    ultimately show ?thesis using that quiet_step_trans [OF 1(2) 2(2)] by blast
  qed
qed

subsection \<open>Flushing a cache\<close>

text \<open>The run of cached blocks of one superblock is a prefix of the cache.\<close>

lemma cached_run_ok:
  assumes "linked m xs" and "n = length xs" and "0 < k" "k \<le> n"
    and "tail = xs ! (k - 1)" and "\<And>i. i < k \<Longrightarrow> sb \<le> xs ! i \<and> xs ! i < sb + sz"
  shows "\<exists>j. k \<le> j \<and> j \<le> n \<and> cached_run m sb sz n k tail = (j, xs ! (j - 1)) \<and> (\<forall>i < j. sb \<le> xs ! i \<and> xs ! i < sb + sz)"
  using assms(3-6)
proof (induction "n - k" arbitrary: k tail)
  case 0
  then show ?case by (intro exI [of _ k]) (subst cached_run.simps, simp)
next
  case (Suc d)
  then have kn: "k < n" by simp
  have nth: "m (xs ! (k - 1)) = xs ! k"
  proof -
    have "linked m (take k xs @ drop k xs)" using assms(1) by simp
    then have "m (last (take k xs)) = hd (drop k xs)"
      unfolding linked_append using kn Suc.prems(1) assms(2) by auto
    moreover have "last (take k xs) = xs ! (k - 1)" using kn Suc.prems(1) assms(2) by (subst last_conv_nth) auto
    ultimately show ?thesis using kn assms(2) by (simp add: hd_drop_conv_nth)
  qed
  show ?case
  proof (cases "xs ! k < sb \<or> sb + sz \<le> xs ! k")
    case True
    then show ?thesis using Suc.prems kn nth by (intro exI [of _ k]) (subst cached_run.simps, simp add: Let_def)
  next
    case False
    then have al: "sb \<le> xs ! i \<and> xs ! i < sb + sz" if "i < k + 1" for i using Suc.prems(4) [of i] that by (cases "i = k") auto
    have ar: "d = n - (k + 1)" "0 < k + 1" "k + 1 \<le> n" "xs ! k = xs ! (k + 1 - 1)" using Suc.hyps(2) kn by simp_all
    obtain j where j: "k + 1 \<le> j" "j \<le> n" "cached_run m sb sz n (k + 1) (xs ! k) = (j, xs ! (j - 1))"
      "\<forall>i < j. sb \<le> xs ! i \<and> xs ! i < sb + sz"
      using Suc.hyps(1) [OF ar al] by auto
    have "cached_run m sb sz n k tail = cached_run m sb sz n (k + 1) (xs ! k)"
      by (subst cached_run.simps) (simp only: kn nth Suc.prems(3) Let_def False if_True if_False)
    with j show ?thesis by (intro exI [of _ j]) simp
  qed
qed

text \<open>The cache lets the run go; its blocks have no owner for a moment.\<close>

definition g_drop :: "nat \<Rightarrow> nat \<Rightarrow> nat \<Rightarrow> view \<Rightarrow> view" where
  "g_drop t sc n g = g\<lparr>own := (\<lambda>x. if x \<in> set (take n (cblk g t sc)) then None else own g x),
     cblk := (cblk g)(t := (cblk g t)(sc := drop n (cblk g t sc)))\<rparr>"

lemma drop_run_ok:
  assumes i: "ainv a g" and n: "n \<le> length (cblk g t sc)" and h: "n < length (cblk g t sc) \<longrightarrow> h = cblk g t sc ! n"
  defines "a' \<equiv> set_bin t sc \<lparr>block = h, bin_num = length (cblk g t sc) - n\<rparr> a"
  shows "ainv a' (g_drop t sc n g)"
proof -
  let ?g = "g_drop t sc n g"
  note b = bin_facts [OF i, where t = t and sc = sc]
  have cs: "own g x = Some (Cached t sc)" if "x \<in> set (take n (cblk g t sc))" for x using b(5) [of x] set_take_subset that by fastforce
  show ?thesis
  proof (rule ainv_blocksI [OF i])
    show "smalls_ok a' ?g"
      by (rule smalls_ok_frame [OF i]) (use cs in \<open>auto simp: g_drop_def a'_def\<close>)
    show "bins_ok a' ?g"
    proof (rule bins_ok_one [OF i, where t = t and sc = sc])
      have sp: "take n (cblk g t sc) @ drop n (cblk g t sc) = cblk g t sc" by simp
      have "linked (mem a) (take n (cblk g t sc) @ drop n (cblk g t sc))" "distinct (take n (cblk g t sc) @ drop n (cblk g t sc))"
        using b(1,2) by simp_all
      then have l: "linked (mem a) (drop n (cblk g t sc))" "distinct (drop n (cblk g t sc))"
        "set (take n (cblk g t sc)) \<inter> set (drop n (cblk g t sc)) = {}"
        unfolding linked_append distinct_append by blast+
      have "set (cblk g t sc) = set (take n (cblk g t sc)) \<union> set (drop n (cblk g t sc))" by (metis set_append sp)
      then have "set (drop n (cblk g t sc)) = {x. own ?g x = Some (Cached t sc)}" using l(3) b(5) by (auto simp: g_drop_def)
      then show "distinct (cblk ?g t sc) \<and> linked (mem a') (cblk ?g t sc) \<and>
        bin_num (caches a' t sc) = length (cblk ?g t sc) \<and> (cblk ?g t sc \<noteq> [] \<longrightarrow> block (caches a' t sc) = hd (cblk ?g t sc)) \<and>
        set (cblk ?g t sc) = {x. own ?g x = Some (Cached t sc)}"
        using l(1,2) h by (simp add: g_drop_def a'_def hd_drop_conv_nth)
      show "cblk ?g t' c = cblk g t' c \<and> caches a' t' c = caches a t' c \<and>
        (\<forall>x. own ?g x = Some (Cached t' c) \<longleftrightarrow> own g x = Some (Cached t' c))" if "(t', c) \<noteq> (t, sc)" for t' c
        using that cs by (auto simp: g_drop_def a'_def)
    qed (simp add: a'_def)
    show "own_ok (first_sb a) ?g"
      by (rule own_ok_moved [OF ainvD(8) [OF i]]) (auto simp: g_drop_def split: if_splits)
  qed (simp_all add: g_drop_def a'_def)
qed

text \<open>The run goes to the front of the free list of its superblock.\<close>

definition g_return :: "nat \<Rightarrow> nat list \<Rightarrow> (nat \<Rightarrow> nat list) \<Rightarrow> view \<Rightarrow> view" where
  "g_return d run ps g = g\<lparr>own := (\<lambda>x. if x \<in> set run then Some Free else own g x),
     fblk := (fblk g)(d := run @ fblk g d), parts := ps\<rparr>"

lemma give_back_ok:
  assumes i: "ainv a g" and d: "use_of g d = Some (Small sc)"
    and run: "run \<noteq> []" "distinct run" "linked (mem a) run" "\<And>x. x \<in> set run \<Longrightarrow> in_block (first_sb a) d sc x \<and> own g x = None"
    and w: "fblk g d \<noteq> [] \<longrightarrow> w = hd (fblk g d)"
    and D: "desc_ok (first_sb a) D d sc (run @ fblk g d)" "state (anchor D) \<noteq> SB_FULL" "next_free D = next_free (descs a d)"
    and ps: "\<And>c. chain (\<lambda>e. next_partial (((descs a)(d := D)) e)) (fst (pl c)) (ps c)" "\<And>c. distinct (ps c)"
      "\<And>c. set (ps c) = set (parts g c) \<union> (if c = sc then {d} else {})"
  defines "a' \<equiv> (set_desc d (\<lambda>_. D) (a\<lparr>mem := (mem a)(last run := w)\<rparr>))\<lparr>partial_list := pl\<rparr>"
  shows "ainv a' (g_return d run ps g)"
proof -
  let ?g = "g_return d run ps g"
  note k = small_ok [OF i d]
  have sc: "1 \<le> sc" "sc < 40" using k(1) by (simp_all add: desc_ok_def)
  have rs: "sbi (first_sb a) x = d" "own g x = None" if "x \<in> set run" for x
    using run(4) [OF that] in_block_bounds(3) [OF sc] by blast+
  have lr: "last run \<in> set run" using run(1) by simp
  have lk: "linked (mem a') xs" if "linked (mem a) xs" "last run \<notin> set xs" for xs
    by (rule linked_cong [OF that(1)]) (use that(2) in \<open>auto simp: a'_def\<close>)
  have fld: "first_sb a' = first_sb a" "descs a' = (descs a)(d := D)" "avail_sb a' = avail_sb a" "caches a' = caches a"
    "bulk_tail a' = bulk_tail a" "address_limit a' = address_limit a" "partial_list a' = pl" "mem a' = (mem a)(last run := w)"
    by (simp_all add: a'_def)
  have gf: "use_of ?g = use_of g" "large_of ?g = large_of g" "nsb ?g = nsb g" "frees ?g = frees g" "parts ?g = ps" "cblk ?g = cblk g"
    "fblk ?g = (fblk g)(d := run @ fblk g d)" "own ?g x = (if x \<in> set run then Some Free else own g x)" for x
    by (simp_all add: g_return_def)
  have fr: "x \<in> set (fblk g d) \<Longrightarrow> x \<notin> set run" for x using k(4) [of x] rs(2) [of x] by auto
  have "frees_ok a' ?g"
    using ainvD(3) [OF i] chain_cong [of "\<lambda>e. next_free (descs a e)" _ _ "\<lambda>e. next_free (descs a' e)"] D(3)
    by (auto simp: frees_ok_def fld(2,3) gf)
  moreover have "parts_ok a' ?g"
    unfolding parts_ok_def
  proof (intro allI conjI)
    fix c
    have p: "set (parts g c) = {d. use_of g d = Some (Small c) \<and> state (anchor (descs a d)) \<noteq> SB_FULL}"
      using spec [OF ainvD(4) [OF i, unfolded parts_ok_def], of c] by auto
    show "chain (\<lambda>d. next_partial (descs a' d)) (fst (partial_list a' c)) (parts ?g c)" "distinct (parts ?g c)"
      using ps(1,2) by (simp_all add: fld gf)
    show "set (parts ?g c) = {d. use_of ?g d = Some (Small c) \<and> state (anchor (descs a' d)) \<noteq> SB_FULL}"
      using p ps(3) [of c] d D(2) by (auto simp: fld gf split: if_splits)
  qed
  moreover have "smalls_ok a' ?g"
  proof (rule smalls_ok_one [OF i, where d = d])
    fix c assume "use_of ?g d = Some (Small c)"
    then have c: "c = sc" using d by (simp add: gf)
    have "distinct (run @ fblk g d)" using run(2) k(2) fr by auto
    moreover have "linked (mem a') (run @ fblk g d)"
    proof -
      obtain ys y where ys: "run = ys @ [y]" using run(1) by (metis append_butlast_last_id)
      have "linked (mem a) (ys @ [y])" using run(3) ys by simp
      then have "linked (mem a) ys" "ys \<noteq> [] \<longrightarrow> mem a (last ys) = y" by (simp_all add: linked_append)
      moreover have "y \<notin> set ys" using run(2) ys by simp
      then have "last ys \<noteq> y" if "ys \<noteq> []" using that by (metis last_in_set)
      ultimately have "linked (mem a') run"
        using lk [of ys] \<open>y \<notin> set ys\<close> by (auto simp: ys linked_append fld(8))
      moreover have "linked (mem a') (fblk g d)" using lk [OF k(3)] fr lr by blast
      ultimately show ?thesis using w by (simp add: linked_append fld(8))
    qed
    moreover have "set (run @ fblk g d) = {x. own ?g x = Some Free \<and> sbi (first_sb a) x = d}"
      using k(4) rs(1) by (auto simp: gf)
    ultimately show "desc_ok (first_sb a) (descs a' d) d c (fblk ?g d) \<and> distinct (fblk ?g d) \<and>
      linked (mem a') (fblk ?g d) \<and> set (fblk ?g d) = {x. own ?g x = Some Free \<and> sbi (first_sb a) x = d}"
      using D(1) c by (simp add: gf fld(2))
  next
    fix x assume "sbi (first_sb a) x \<noteq> d"
    then have "x \<notin> set run" using rs(1) by blast
    then show "own ?g x = Some Free \<longleftrightarrow> own g x = Some Free" "mem a' x = mem a x" using lr by (auto simp: gf fld(8))
  qed (simp_all add: gf fld(1,2))
  moreover have "larges_ok a' ?g"
    using ainvD(6) [OF i] large_used [OF i] d by (fastforce simp: larges_ok_def gf fld(1,2))
  moreover have "bins_ok a' ?g"
  proof -
    have no: "last run \<notin> set (cblk g t c)" for t c using bin_facts(5) [OF i, of "last run" t c] rs(2) [OF lr] by simp
    have "own ?g x = Some (Cached t c) \<longleftrightarrow> own g x = Some (Cached t c)" for x t c using rs(2) [of x] by (auto simp: gf)
    then show ?thesis
      using bin_facts [OF i] lk no by (auto simp: bins_ok_def gf(6) fld(4))
  qed
  moreover have "own_ok (first_sb a') ?g"
    unfolding own_ok_def
  proof (intro allI impI)
    fix x q assume x: "own ?g x = Some q"
    show "\<exists>c. use_of ?g (sbi (first_sb a') x) = Some (Small c) \<and> in_block (first_sb a') (sbi (first_sb a') x) c x \<and>
        (\<forall>t c'. q = Cached t c' \<longrightarrow> c' = c)"
    proof (cases "x \<in> set run")
      case True
      then show ?thesis using x rs(1) [OF True] run(4) [OF True] d by (auto simp: gf fld(1))
    next
      case False
      then have "own g x = Some q" using x by (simp add: gf)
      from own_okD [OF ainvD(8) [OF i] this] show ?thesis by (simp add: gf fld(1))
    qed
  qed
  moreover have "base_ok a' ?g" "spaces_ok ?g" using ainvD(1,2) [OF i] by (simp_all add: base_ok_def spaces_ok_def gf fld)
  ultimately show ?thesis by (simp add: ainv_def)
qed

end
