(* ===== verification/LrMalloc_Calls.thy ===== *)
theory LrMalloc_Calls
  imports LrMalloc_Ops
begin

text \<open>Flushing a cache, large blocks and the calls of the allocator, over the steps of LrMalloc_Ops.\<close>

subsection \<open>Flushing a cache, continued\<close>

text \<open>The facts about the run that one round of the flush returns.\<close>

lemma flush_facts:
  assumes i: "ainv a g" and ne: "cblk g t sc \<noteq> []"
  defines "xs \<equiv> cblk g t sc"
  obtains d j idx where "d = sbi (first_sb a) (hd xs)" "use_of g d = Some (Small sc)" "1 \<le> sc" "sc < 40" "0 < j" "j \<le> length xs"
    "cached_run (mem a) (first_sb a + d * 65536) 65536 (length xs) 1 (hd xs) = (j, last (take j xs))"
    "\<forall>x \<in> set (take j xs). in_block (first_sb a) d sc x \<and> own g x = Some (Cached t sc)"
    "j < length xs \<longrightarrow> mem a (last (take j xs)) = xs ! j" "linked (mem a) (take j xs)" "distinct (take j xs)"
    "idx < bnum sc" "hd xs = first_sb a + d * 65536 + idx * bsz sc" "hd (take j xs) = hd xs"
proof -
  note b = bin_facts [OF i, where t = t and sc = sc, folded xs_def]
  have nx: "xs \<noteq> []" using ne by (simp add: xs_def)
  have own: "own g x = Some (Cached t sc)" if "x \<in> set xs" for x using b(5) that by simp
  have ow: "use_of g (sbi (first_sb a) x) = Some (Small sc) \<and> in_block (first_sb a) (sbi (first_sb a) x) sc x" if "x \<in> set xs" for x
    using own_okD [OF ainvD(8) [OF i] own [OF that]] by auto
  define d where "d = sbi (first_sb a) (hd xs)"
  have hd: "use_of g d = Some (Small sc)" "in_block (first_sb a) d sc (hd xs)" using ow [of "hd xs"] nx by (simp_all add: d_def)
  have sc: "1 \<le> sc" "sc < 40" using small_ok(1) [OF i hd(1)] by (simp_all add: desc_ok_def)
  note ib = in_block_bounds [OF sc]
  have h0: "first_sb a + d * 65536 \<le> hd xs" "hd xs < first_sb a + d * 65536 + 65536"
    using ib(1,2) [OF hd(2)] class_geometry(1) [OF sc] by simp_all
  have "\<And>k. k < 1 \<Longrightarrow> first_sb a + d * 65536 \<le> xs ! k \<and> xs ! k < first_sb a + d * 65536 + 65536"
    using h0 nx by (simp add: hd_conv_nth)
  then obtain j where j: "1 \<le> j" "j \<le> length xs"
    "cached_run (mem a) (first_sb a + d * 65536) 65536 (length xs) 1 (hd xs) = (j, xs ! (j - 1))"
    "\<forall>k < j. first_sb a + d * 65536 \<le> xs ! k \<and> xs ! k < first_sb a + d * 65536 + 65536"
    using cached_run_ok [OF b(2) refl, of 1 "hd xs" "first_sb a + d * 65536" 65536] nx by (auto simp: hd_conv_nth Suc_le_eq)
  have l: "last (take j xs) = xs ! (j - 1)" using j(1,2) nx by (subst last_conv_nth) auto
  have sp: "linked (mem a) (take j xs @ drop j xs)" using b(2) by simp
  have mine: "in_block (first_sb a) d sc x \<and> own g x = Some (Cached t sc)" if x: "x \<in> set (take j xs)" for x
  proof -
    obtain k where "k < length (take j xs)" "x = take j xs ! k" using x by (metis in_set_conv_nth)
    then have k: "k < j" "x = xs ! k" by simp_all
    then have xx: "x \<in> set xs" using j(2) by simp
    have "sbi (first_sb a) x = d" by (rule sbi_offset) (use j(4) k in auto)
    then show ?thesis using ow [OF xx] own [OF xx] by simp
  qed
  obtain idx where idx: "idx < bnum sc" "hd xs = first_sb a + d * 65536 + idx * bsz sc" using hd(2) by (auto simp: in_block_def)
  show ?thesis
  proof (rule that [of d j idx])
    show "0 < j" "j \<le> length xs" using j(1,2) by simp_all
    show "cached_run (mem a) (first_sb a + d * 65536) 65536 (length xs) 1 (hd xs) = (j, last (take j xs))" using j(3) l by simp
    show "\<forall>x \<in> set (take j xs). in_block (first_sb a) d sc x \<and> own g x = Some (Cached t sc)" using mine by blast
    show "j < length xs \<longrightarrow> mem a (last (take j xs)) = xs ! j"
      using sp j(1) nx unfolding linked_append by (simp add: hd_drop_conv_nth)
    show "linked (mem a) (take j xs)" using sp unfolding linked_append by blast
    show "distinct (take j xs)" using b(1) by simp
    show "hd (take j xs) = hd xs" using j(1) by simp
  qed (use d_def hd(1) sc idx in simp_all)
qed

lemma flush_run_ok:
  assumes i: "ainv a g" and ne: "cblk g t sc \<noteq> []"
  obtains a' g' j where "flush_run t sc a = Some a'" "quiet_step a g a' g'" "cblk g' t sc = drop j (cblk g t sc)" "0 < j"
    "has_room a \<longrightarrow> has_room a'"
    "\<forall>x. own g x = Some Live \<longrightarrow> own g' x = Some Live \<and> use_of g' (sbi (first_sb a) x) = use_of g (sbi (first_sb a) x)"
proof -
  define xs where "xs = cblk g t sc"
  obtain d j idx where f: "d = sbi (first_sb a) (hd xs)" "use_of g d = Some (Small sc)" "1 \<le> sc" "sc < 40" "0 < j" "j \<le> length xs"
    "cached_run (mem a) (first_sb a + d * 65536) 65536 (length xs) 1 (hd xs) = (j, last (take j xs))"
    "\<forall>x \<in> set (take j xs). in_block (first_sb a) d sc x \<and> own g x = Some (Cached t sc)"
    "j < length xs \<longrightarrow> mem a (last (take j xs)) = xs ! j" "linked (mem a) (take j xs)" "distinct (take j xs)"
    "idx < bnum sc" "hd xs = first_sb a + d * 65536 + idx * bsz sc" "hd (take j xs) = hd xs"
    unfolding xs_def by (rule flush_facts [OF i ne])
  note b = bin_facts [OF i, where t = t and sc = sc, folded xs_def]
  note k = small_ok [OF i f(2)]
  note cg = class_geometry [OF f(3,4)]
  define run where "run = take j xs"
  define sb where "sb = first_sb a + d * 65536"
  let ?desc = "descs a d"
  define old where "old = anchor ?desc"
  have nr: "run \<noteq> []" using f(5,6) by (auto simp: run_def)
  have rin: "in_block (first_sb a) d sc x" "own g x = Some (Cached t sc)" if "x \<in> set run" for x using f(8) that by (simp_all add: run_def)
  have D: "heap ?desc = Some sc" "superblock ?desc = sb" "max_count ?desc = bnum sc" "desc_block_size ?desc = bsz sc"
    using k(1) by (simp_all add: desc_ok_def sb_def)
  have nf: "x \<notin> set (fblk g d)" if "x \<in> set run" for x using k(4) [of x] rin(2) [OF that] by simp
  have len: "length (run @ fblk g d) \<le> bnum sc"
    by (rule blocks_bound [of _ "first_sb a" d]) (use f(11) k(2,5) nf rin(1) in \<open>auto simp: run_def\<close>)
  have st: "state old = SB_FULL \<and> count old = 0 \<and> fblk g d = [] \<or>
      state old = SB_PARTIAL \<and> fblk g d \<noteq> [] \<and> count old = length (fblk g d) \<and> hd (fblk g d) = sb + avail old * bsz sc"
    using k(1) len nr f(5,6) unfolding old_def sb_def desc_ok_def
    by (cases "state (anchor ?desc)") (auto simp: run_def)
  have lj: "length run = j" using f(6) by (simp add: run_def)
  have cnt: "count old = length (fblk g d)" "count old < bnum sc" "count old + j \<le> bnum sc"
  proof -
    show c: "count old = length (fblk g d)" using st by auto
    show "count old + j \<le> bnum sc" using len c lj by simp
    then show "count old < bnum sc" using f(5) by linarith
  qed
  define new where "new = (if count old + j = bnum sc then \<lparr>avail = idx, count = bnum sc - 1, state = SB_EMPTY\<rparr>
    else \<lparr>avail = idx, count = count old + j, state = SB_PARTIAL\<rparr>)"
  have ra: "returned_anchor idx j (max_count ?desc) (bnum sc) old = Some new"
    using st cnt f(12) by (auto simp: returned_anchor_def new_def D(3))
  define a1 where "a1 = set_bin t sc \<lparr>block = mem a (last run), bin_num = length xs - j\<rparr> a"
  define g1 where "g1 = g_drop t sc j g"
  have i1: "ainv a1 g1"
    using drop_run_ok [OF i, of j t sc "mem a (last run)"] f(6,9) by (simp add: a1_def g1_def xs_def run_def)
  define w where "w = sb + avail old * bsz sc"
  define a3 where "a3 = set_desc d (anchor_update (\<lambda>_. new)) (a1\<lparr>mem := (mem a1)(last run := w)\<rparr>)"
  have hx: "block (caches a t sc) = hd xs" "bin_num (caches a t sc) = length xs" using b(3,4) ne by (simp_all add: xs_def)
  have ci: "get_chunk_index sb (hd xs) sc = Some idx"
  proof -
    have "idx * bsz sc + bsz sc \<le> 65536" by (rule block_end [OF f(3,4,12)])
    then show ?thesis using f(13) cg(1,5) by (simp add: get_chunk_index_def sb_def)
  qed
  have fr: "flush_run t sc a = (if state old = SB_FULL
      then (if state new = SB_EMPTY then retire_small_sb sb kSuperBlockSize a3 else heap_push_partial d a3) else Some a3)"
  proof -
    have ld: "lookup_desc a (hd xs) = d" using f(1) by (simp add: lookup_desc_eq)
    have cr: "cached_run (mem a) sb (sb_size (get_entry sc)) (length xs) 1 (hd xs) = (j, last run)" using f(7) cg(5) by (simp add: sb_def run_def)
    have pl: "pop_list t sc (mem a (last run)) j a = Some a1" using hx f(6) by (simp add: pop_list_def a1_def)
    show ?thesis
      unfolding flush_run_def Let_def hx ld D(2) cr
      by (simp add: pl ci old_def ra [unfolded old_def] a3_def w_def)
  qed
  have g1: "own g1 x = (if x \<in> set run then None else own g x)" "use_of g1 = use_of g" "fblk g1 = fblk g" "parts g1 = parts g"
    "large_of g1 = large_of g" "cblk g1 t sc = drop j xs" "nsb g1 = nsb g" "frees g1 = frees g" for x
    by (simp_all add: g1_def g_drop_def xs_def run_def)
  have a1: "mem a1 = mem a" "first_sb a1 = first_sb a" "descs a1 = descs a" "partial_list a1 = partial_list a" "roots a1 = roots a"
    "address_limit a1 = address_limit a" "avail_sb a1 = avail_sb a" "bulk_tail a1 = bulk_tail a" by (simp_all add: a1_def)
  have pa: "chain (\<lambda>e. next_partial (descs a e)) (fst (partial_list a c)) (parts g c)" "distinct (parts g c)"
    "set (parts g c) = {d. use_of g d = Some (Small c) \<and> state (anchor (descs a d)) \<noteq> SB_FULL}" for c
    using spec [OF ainvD(4) [OF i, unfolded parts_ok_def], of c] by auto
  have desc: "desc_ok (first_sb a) ((descs a d)\<lparr>anchor := new\<rparr>) d sc (run @ fblk g d)"
    using D f(3,4,12,13,14) cnt len lj nr by (auto simp: desc_ok_def new_def sb_def run_def)
  have snew: "state new \<noteq> SB_FULL" by (simp add: new_def)
  have gb: "ainv ((set_desc d (\<lambda>_. E) (a1\<lparr>mem := (mem a1)(last run := w)\<rparr>))\<lparr>partial_list := pl\<rparr>) (g_return d run ps g1)"
    if E: "desc_ok (first_sb a) E d sc (run @ fblk g d)" "state (anchor E) \<noteq> SB_FULL" "next_free E = next_free (descs a d)"
      and ps: "\<And>c. chain (\<lambda>e. next_partial (((descs a)(d := E)) e)) (fst (pl c)) (ps c)" "\<And>c. distinct (ps c)"
      "\<And>c. set (ps c) = set (parts g c) \<union> (if c = sc then {d} else {})" for E pl ps
  proof (rule give_back_ok [OF i1, where sc = sc])
    show "use_of g1 d = Some (Small sc)" using f(2) by (simp add: g1)
    show "linked (mem a1) run" "distinct run" using f(10,11) by (simp_all add: a1 run_def)
    show "in_block (first_sb a1) d sc x \<and> own g1 x = None" if "x \<in> set run" for x using rin(1) [OF that] that by (simp add: a1 g1)
    show "fblk g1 d \<noteq> [] \<longrightarrow> w = hd (fblk g1 d)" using st by (auto simp: g1 w_def)
  qed (use E ps nr in \<open>simp_all add: a1 g1\<close>)
  have lrun: "own g (last run) = Some (Cached t sc)" using rin(2) nr by simp
  have nl: "x \<in> live_cells (first_sb a) g \<Longrightarrow> x \<noteq> last run" for x using not_live [OF i, of "last run"] lrun by auto
  have live: "own (g_return d run ps g1) x = Some Live \<longleftrightarrow> own g x = Some Live" for x ps
    using rin(2) [of x] by (auto simp: g_return_def g1)
  have qs: "quiet_step a g a' (g_return d run ps g1)"
    if "ainv a' (g_return d run ps g1)" "first_sb a' = first_sb a" "address_limit a' = address_limit a" "roots a' = roots a"
      "mem a' = (mem a)(last run := w)" for a' ps
    by (rule quiet_stepI [OF that(1-4) live]) (use nl that(5) in \<open>simp_all add: g_return_def g1\<close>)
  consider (part) "state old = SB_PARTIAL" | (full) "state old = SB_FULL" "state new \<noteq> SB_EMPTY" | (empty) "state old = SB_FULL" "state new = SB_EMPTY"
    using st by auto
  then show ?thesis
  proof cases
    case part
    have dp: "d \<in> set (parts g sc)" using pa(3) [of sc] f(2) part by (simp add: old_def)
    have e3: "a3 = (set_desc d (\<lambda>_. (descs a d)\<lparr>anchor := new\<rparr>) (a1\<lparr>mem := (mem a1)(last run := w)\<rparr>))\<lparr>partial_list := partial_list a\<rparr>"
      by (simp add: a3_def set_desc_def a1)
    have i3: "ainv a3 (g_return d run (parts g) g1)"
      unfolding e3
    proof (rule gb [OF desc])
      show "chain (\<lambda>e. next_partial (((descs a)(d := (descs a d)\<lparr>anchor := new\<rparr>)) e)) (fst (partial_list a c)) (parts g c)" for c
        by (rule chain_cong [OF pa(1)]) simp
      show "set (parts g c) = set (parts g c) \<union> (if c = sc then {d} else {})" for c using dp by auto
    qed (use snew pa(2) in simp_all)
    have "flush_run t sc a = Some a3" using fr part by simp
    then show ?thesis
    proof (rule that [OF _ qs [OF i3], of j])
      show "\<forall>x. own g x = Some Live \<longrightarrow> own (g_return d run (parts g) g1) x = Some Live \<and>
          use_of (g_return d run (parts g) g1) (sbi (first_sb a) x) = use_of g (sbi (first_sb a) x)"
        using live by (simp add: g_return_def g1)
    qed (use f(5) in \<open>simp_all add: a3_def a1 g_return_def g1 xs_def has_room_def\<close>)
  next
    case full
    have dn: "d \<notin> set (parts g c)" for c using pa(3) [of c] f(2) full(1) by (auto simp: old_def)
    obtain h s where h: "partial_list a sc = (h, s)" by (cases "partial_list a sc")
    have hd: "h \<noteq> Some d" using pa(1) [of sc] dn [of sc] h by (cases "parts g sc") auto
    define E where "E = (descs a d)\<lparr>anchor := new, next_partial := h\<rparr>"
    define pl where "pl = (partial_list a)(sc := (Some d, s + 1))"
    define a4 where "a4 = (set_desc d (\<lambda>_. E) (a1\<lparr>mem := (mem a1)(last run := w)\<rparr>))\<lparr>partial_list := pl\<rparr>"
    have hp: "heap_push_partial d a3 = Some a4"
      using D(1) h hd by (simp add: heap_push_partial_def a3_def a1 a4_def E_def pl_def) (simp add: set_desc_def a1)
    have "ainv a4 (g_return d run ((parts g)(sc := d # parts g sc)) g1)"
      unfolding a4_def
    proof (rule gb)
      show "desc_ok (first_sb a) E d sc (run @ fblk g d)"
        using desc by (cases "state new") (simp_all add: E_def desc_ok_def)
      show "state (anchor E) \<noteq> SB_FULL" "next_free E = next_free (descs a d)" using snew by (simp_all add: E_def)
      have ch: "chain (\<lambda>e. next_partial (((descs a)(d := E)) e)) (fst (partial_list a c)) (parts g c)" for c
        by (rule chain_cong [OF pa(1)]) (use dn in auto)
      fix c
      show "chain (\<lambda>e. next_partial (((descs a)(d := E)) e)) (fst (pl c)) (((parts g)(sc := d # parts g sc)) c)"
        using ch [of sc] ch [of c] h by (auto simp: pl_def E_def)
      show "distinct (((parts g)(sc := d # parts g sc)) c)" using pa(2) dn by simp
      show "set (((parts g)(sc := d # parts g sc)) c) = set (parts g c) \<union> (if c = sc then {d} else {})" by auto
    qed
    then have q: "quiet_step a g a4 (g_return d run ((parts g)(sc := d # parts g sc)) g1)"
      by (rule qs) (simp_all add: a4_def a1)
    have "flush_run t sc a = Some a4" using fr full hp by simp
    then show ?thesis
    proof (rule that [OF _ q, of j])
      show "\<forall>x. own g x = Some Live \<longrightarrow> own (g_return d run ((parts g)(sc := d # parts g sc)) g1) x = Some Live \<and>
          use_of (g_return d run ((parts g)(sc := d # parts g sc)) g1) (sbi (first_sb a) x) = use_of g (sbi (first_sb a) x)"
        using live by (simp add: g_return_def g1)
    qed (use f(5) in \<open>simp_all add: a4_def a1 g_return_def g1 xs_def has_room_def\<close>)
  next
    case empty
    then have full_run: "length run = bnum sc" and nofree: "fblk g d = []" using st cnt lj by (auto simp: new_def split: if_splits)
    have dn: "d \<notin> set (parts g c)" for c using pa(3) [of c] f(2) empty(1) by (auto simp: old_def)
    define g2 where "g2 = g_detach (first_sb a1) d (parts g1) g1"
    have none: "sbi (first_sb a) x = d \<Longrightarrow> own g1 x = None" for x
    proof (rule ccontr)
      assume x: "sbi (first_sb a) x = d" "own g1 x \<noteq> None"
      then obtain q where q: "own g x = Some q" "x \<notin> set run" by (auto simp: g1 split: if_splits)
      have "in_block (first_sb a) d sc x" using own_okD [OF ainvD(8) [OF i] q(1)] x(1) f(2) by auto
      then have "x \<in> set run" using all_free [OF _ rin(1) full_run] f(11) by (simp add: run_def)
      then show False using q(2) by simp
    qed
    have q2: "quiet_step a1 g1 (a1\<lparr>partial_list := partial_list a1\<rparr>) g2"
      unfolding g2_def
    proof (rule detach_ok(2) [OF i1])
      show "use_of g1 d = Some (Small sc)" using f(2) by (simp add: g1)
      show "q = Free" if "own g1 x = Some q" "sbi (first_sb a1) x = d" for x q using none [of x] that by (simp add: a1)
    qed (use pa dn in \<open>simp_all add: a1 g1\<close>)
    then have i2: "ainv a1 g2" by (simp add: quiet_step_def)
    have u2: "use_of g2 d = None" "d < nsb g2" using ainvD(2) [OF i] f(2) by (simp_all add: g2_def g_detach_def g1 spaces_ok_def)
    have "ainv (a1\<lparr>mem := (mem a1)(last run := w)\<rparr>) g2"
    proof (rule ainv_mem [OF i2])
      fix x q assume "own g2 x = Some q"
      moreover have "sbi (first_sb a) (last run) = d" using in_block_bounds(3) [OF f(3,4) rin(1)] nr by simp
      ultimately have "x \<noteq> last run" by (auto simp: g2_def g_detach_def a1)
      then show "((mem a1)(last run := w)) x = mem a1 x" by simp
    qed
    then have i3: "ainv a3 g2" unfolding a3_def by (rule set_desc_unused) (rule u2(1))
    have f3: "first_sb a3 = first_sb a" by (simp add: a3_def a1)
    obtain a4 where a4: "retire_small_sb sb kSuperBlockSize a3 = Some a4"
      "ainv a4 (g2\<lparr>use_of := (use_of g2)(d \<mapsto> Unused), frees := d # frees g2\<rparr>)" "a_same a3 a4"
      using retire_small_ok [OF i3 u2] f3 unfolding sb_def by metis
    define g4 where "g4 = g2\<lparr>use_of := (use_of g2)(d \<mapsto> Unused), frees := d # frees g2\<rparr>"
    have own4: "own g4 x = (if x \<in> set run then None else own g x)" for x
      using none [of x] by (auto simp: g4_def g2_def g_detach_def g1 a1 split: if_splits)
    have us4: "use_of g4 e = use_of g e" if "e \<noteq> d" for e using that by (simp add: g4_def g2_def g_detach_def g1)
    have rest4: "large_of g4 = large_of g" "cblk g4 t sc = drop j xs" by (simp_all add: g4_def g2_def g_detach_def g1)
    have q: "quiet_step a g a4 g4"
    proof (rule quiet_stepI)
      show "ainv a4 g4" using a4(2) by (simp add: g4_def)
      show "own g4 x = Some Live \<longleftrightarrow> own g x = Some Live" for x using rin(2) [of x] by (auto simp: own4)
      show "use_of g4 (sbi (first_sb a) x) = use_of g (sbi (first_sb a) x)" if "own g x = Some Live" for x
      proof -
        have "own g1 x = Some Live" using that rin(2) [of x] by (auto simp: g1)
        then have "sbi (first_sb a) x \<noteq> d" using none [of x] by auto
        then show ?thesis by (rule us4)
      qed
      show "mem a4 x = mem a x" if "x \<in> live_cells (first_sb a) g" for x
        using a4(3) nl [OF that] by (simp add: a_same_def a3_def a1)
    qed (use a4(3) rest4 in \<open>simp_all add: a_same_def a3_def a1\<close>)
    have room: "has_room a4" using ainvD(3) [OF a4(2)] by (auto simp: has_room_def frees_ok_def)
    have fe: "flush_run t sc a = Some a4" using fr empty a4(1) by simp
    show ?thesis
    proof (rule that [OF fe q, of j])
      show "cblk g4 t sc = drop j (cblk g t sc)" using rest4 by (simp add: xs_def)
      show "0 < j" by (rule f(5))
      show "has_room a \<longrightarrow> has_room a4" using room by simp
      show "\<forall>x. own g x = Some Live \<longrightarrow> own g4 x = Some Live \<and> use_of g4 (sbi (first_sb a) x) = use_of g (sbi (first_sb a) x)"
      proof (intro allI impI)
        fix x assume x: "own g x = Some Live"
        then have "x \<notin> set run" using rin(2) [of x] by auto
        then have "sbi (first_sb a) x \<noteq> d" using none [of x] x by (auto simp: g1)
        then show "own g4 x = Some Live \<and> use_of g4 (sbi (first_sb a) x) = use_of g (sbi (first_sb a) x)"
          using x us4 \<open>x \<notin> set run\<close> by (simp add: own4)
      qed
    qed
  qed
qed

lemma flush_cache_ok:
  assumes "ainv a g"
  shows "\<exists>a' g'. flush_cache t sc a = Some a' \<and> quiet_step a g a' g' \<and> (has_room a \<longrightarrow> has_room a') \<and> bin_num (caches a' t sc) = 0 \<and>
    (\<forall>x. own g x = Some Live \<longrightarrow> own g' x = Some Live \<and> use_of g' (sbi (first_sb a) x) = use_of g (sbi (first_sb a) x))"
  using assms
proof (induction "length (cblk g t sc)" arbitrary: a g rule: less_induct)
  case less
  note i = less.prems
  have n: "bin_num (caches a t sc) = length (cblk g t sc)" by (rule bin_facts(3) [OF i])
  show ?case
  proof (cases "cblk g t sc = []")
    case True
    then have "flush_cache t sc a = Some a" using n by (subst flush_cache.simps) simp
    moreover have "bin_num (caches a t sc) = 0" using n True by simp
    ultimately show ?thesis using quiet_step_refl [OF i] by blast
  next
    case False
    obtain a1 g1 j where 1: "flush_run t sc a = Some a1" "quiet_step a g a1 g1" "cblk g1 t sc = drop j (cblk g t sc)" "0 < j"
      "has_room a \<longrightarrow> has_room a1"
      "\<forall>x. own g x = Some Live \<longrightarrow> own g1 x = Some Live \<and> use_of g1 (sbi (first_sb a) x) = use_of g (sbi (first_sb a) x)"
      by (rule flush_run_ok [OF i False])
    have i1: "ainv a1 g1" and f1: "first_sb a1 = first_sb a" using 1(2) by (simp_all add: quiet_step_def)
    have "length (cblk g1 t sc) < length (cblk g t sc)" using 1(3,4) False by simp
    from less.hyps [OF this i1] obtain a2 g2 where 2: "flush_cache t sc a1 = Some a2" "quiet_step a1 g1 a2 g2" "has_room a1 \<longrightarrow> has_room a2" "bin_num (caches a2 t sc) = 0"
      "\<forall>x. own g1 x = Some Live \<longrightarrow> own g2 x = Some Live \<and> use_of g2 (sbi (first_sb a1) x) = use_of g1 (sbi (first_sb a1) x)" by blast
    have "flush_cache t sc a = Some a2" using n False 1(1) 2(1) by (subst flush_cache.simps) simp
    then show ?thesis using quiet_step_trans [OF 1(2) 2(2)] 1(5,6) 2(3-5) f1 by (intro exI [of _ a2] exI [of _ g2]) auto
  qed
qed

subsection \<open>Large blocks\<close>

lemma run_ok_chain:
  assumes "chain (\<lambda>e. next_free (descs a e)) (Some d) fs" and "run_ok m d a = Some e"
  shows "e = d + m \<and> (\<exists>rest. fs = [d..<d + Suc m] @ rest)"
  using assms
proof (induction m arbitrary: d fs)
  case 0
  then show ?case by (auto simp: chain_Some)
next
  case (Suc m)
  then obtain ds where ds: "fs = d # ds" "chain (\<lambda>e. next_free (descs a e)) (next_free (descs a d)) ds" by (auto simp: chain_Some)
  have n: "next_free (descs a d) = Some (d + 1)" "run_ok m (d + 1) a = Some e"
    using Suc.prems(2) by (simp_all split: if_splits)
  have "chain (\<lambda>e. next_free (descs a e)) (Some (d + 1)) ds" using ds(2) n(1) by simp
  from Suc.IH [OF this n(2)] obtain rest where "e = d + 1 + m" "ds = [d + 1..<d + 1 + Suc m] @ rest" by blast
  moreover have "[d..<d + Suc (Suc m)] = d # [d + 1..<d + 1 + Suc m]" by (simp add: upt_conv_Cons)
  ultimately show ?case using ds(1) by simp
qed

lemma pop_run:
  assumes "ainv a g" and "frees g = [d..<d + Suc m] @ rest"
  shows "\<exists>g'. ainv (a\<lparr>avail_sb := (next_free (descs a (d + m)), s)\<rparr>) g' \<and> carries g g' \<and> nsb g' = nsb g \<and>
    (\<forall>k. use_of g' k = (if d \<le> k \<and> k < d + Suc m then None else use_of g k))"
  using assms
proof (induction m arbitrary: a g d)
  case 0
  then have f: "frees g = d # rest" by simp
  note p = pop_free_ok [OF 0(1) f]
  show ?case
    by (rule exI [of _ "g\<lparr>use_of := (use_of g)(d := None), frees := rest\<rparr>"]) (use p(1) [of s] p(2) in \<open>auto simp: carries_def\<close>)
next
  case (Suc m)
  have f: "frees g = d # ([d + 1..<d + 1 + Suc m] @ rest)" using Suc.prems(2) by (simp add: upt_conv_Cons)
  note p = pop_free_ok [OF Suc.prems(1) f]
  define g1 where "g1 = g\<lparr>use_of := (use_of g)(d := None), frees := [d + 1..<d + 1 + Suc m] @ rest\<rparr>"
  have i1: "ainv (a\<lparr>avail_sb := (next_free (descs a d), s)\<rparr>) g1" using p(1) [of s] by (simp add: g1_def)
  from Suc.IH [OF i1, of "d + 1"] obtain g2 where g2: "ainv (a\<lparr>avail_sb := (next_free (descs a (d + 1 + m)), s)\<rparr>) g2" "carries g1 g2"
    "nsb g2 = nsb g1" "\<forall>k. use_of g2 k = (if d + 1 \<le> k \<and> k < d + 1 + Suc m then None else use_of g1 k)"
    by (auto simp: g1_def)
  have "carries g g1" using p(2) by (auto simp: carries_def g1_def)
  then have "carries g g2" using g2(2) carries_trans by blast
  then show ?case using g2 by (intro exI [of _ g2]) (auto simp: g1_def)
qed

text \<open>\<open>n\<close> superblocks in a row, from the free list or from fresh memory.\<close>

lemma alloc_large_sb_ok:
  assumes i: "ainv a g" and sz: "sz = n * 65536" "0 < n" "sz \<le> 2 ^ 63"
  shows "alloc_large_sb sz a = (0, a) \<or>
    (\<exists>d a' g'. alloc_large_sb sz a = (first_sb a + d * 65536, a') \<and> ainv a' g' \<and> (\<forall>k. d \<le> k \<and> k < d + n \<longrightarrow> use_of g' k = None \<and> k < nsb g') \<and>
      carries g g' \<and> a_same a a')"
proof -
  have sd: "sz div kSuperBlockSize - 1 = n - 1" using sz(1) by (simp add: geometry)
  have fresh: "alloc_large_fresh sz a = (0, a) \<or>
    (\<exists>d a' g'. alloc_large_fresh sz a = (first_sb a + d * 65536, a') \<and> ainv a' g' \<and> (\<forall>k. d \<le> k \<and> k < d + n \<longrightarrow> use_of g' k = None \<and> k < nsb g') \<and>
      carries g g' \<and> a_same a a')"
  proof (cases "bulk_tail a + sz > address_limit a")
    case True
    then show ?thesis using bulk_eq [OF i sz(1) [symmetric] sz(3)] by (simp add: alloc_large_fresh_def)
  next
    case False
    define a1 where "a1 = a\<lparr>bulk_tail := bulk_tail a + sz\<rparr>"
    define g1 where "g1 = g\<lparr>nsb := nsb g + n\<rparr>"
    have r: "bulk_tail a + sz \<le> address_limit a" using False by simp
    note b = bulk_ok [OF i sz(1) [symmetric] r]
    have "alloc_large_fresh sz a = (first_sb a + nsb g * 65536, a1)"
      using bulk_eq [OF i sz(1) [symmetric] sz(3)] False by (simp add: alloc_large_fresh_def a1_def)
    moreover have "ainv a1 g1" using b(1) by (simp add: a1_def g1_def)
    moreover have "\<forall>k. nsb g \<le> k \<and> k < nsb g + n \<longrightarrow> use_of g1 k = None \<and> k < nsb g1" using b(2) by (simp add: g1_def)
    moreover have "carries g g1" "a_same a a1" by (simp_all add: carries_def a_same_def g1_def a1_def)
    ultimately show ?thesis by blast
  qed
  obtain h s where h: "avail_sb a = (h, s)" by (cases "avail_sb a")
  show ?thesis
  proof (cases h)
    case None
    then show ?thesis using fresh h by (simp add: alloc_large_sb_def)
  next
    case (Some d)
    show ?thesis
    proof (cases "run_ok (n - 1) d a")
      case None
      then show ?thesis using fresh h Some sd by (simp add: alloc_large_sb_def)
    next
      case e: (Some e)
      have "chain (\<lambda>d. next_free (descs a d)) (Some d) (frees g)" using ainvD(3) [OF i] h Some by (simp add: frees_ok_def)
      from run_ok_chain [OF this e] obtain rest where r: "e = d + (n - 1)" "frees g = [d..<d + Suc (n - 1)] @ rest" by blast
      define a1 where "a1 = a\<lparr>avail_sb := (next_free (descs a (d + (n - 1))), s + 1)\<rparr>"
      obtain g1 where g1: "ainv a1 g1" "carries g g1" "nsb g1 = nsb g"
        "\<forall>k. use_of g1 k = (if d \<le> k \<and> k < d + Suc (n - 1) then None else use_of g k)"
        using pop_run [OF i r(2), of "s + 1"] by (auto simp: a1_def)
      have "k < nsb g" if "d \<le> k" "k < d + n" for k
      proof -
        have "k \<in> set (frees g)" using r(2) that by auto
        then show ?thesis using ainvD(2,3) [OF i] by (auto simp: frees_ok_def spaces_ok_def)
      qed
      then have "\<forall>k. d \<le> k \<and> k < d + n \<longrightarrow> use_of g1 k = None \<and> k < nsb g1" using g1(3,4) by auto
      moreover have "alloc_large_sb sz a = (first_sb a + d * 65536, a1)"
        using h Some e sd r(1) by (simp add: alloc_large_sb_def lookup_sb_eq a1_def)
      moreover have "a_same a a1" by (simp add: a_same_def a1_def)
      ultimately show ?thesis using g1(1,2) by blast
    qed
  qed
qed

definition g_large :: "nat \<Rightarrow> nat \<Rightarrow> view \<Rightarrow> view" where
  "g_large d n g = g\<lparr>use_of := (\<lambda>k. if d \<le> k \<and> k < d + n then Some (Part d) else use_of g k), large_of := (large_of g)(d \<mapsto> n)\<rparr>"

lemma adopt_large_ok:
  assumes i: "ainv a g" and n: "0 < n" and u: "\<And>k. d \<le> k \<Longrightarrow> k < d + n \<Longrightarrow> use_of g k = None \<and> k < nsb g"
    and E: "heap E = Some 0" "superblock E = first_sb a + d * 65536" "desc_block_size E = n * 65536 mod 2 ^ 32"
  shows "ainv (set_desc d (\<lambda>_. E) a) (g_large d n g)"
    and "live_size (first_sb a) (g_large d n g) = (live_size (first_sb a) g)(first_sb a + d * 65536 \<mapsto> n * 65536)"
    and "live_size (first_sb a) g (first_sb a + d * 65536) = None"
proof -
  let ?a = "set_desc d (\<lambda>_. E) a" and ?g = "g_large d n g"
  have ud: "use_of g d = None" using u [of d] n by simp
  have i1: "ainv ?a g" by (rule set_desc_unused [OF i ud])
  have gf: "own ?g = own g" "fblk ?g = fblk g" "cblk ?g = cblk g" "parts ?g = parts g" "frees ?g = frees g" "nsb ?g = nsb g"
    "use_of ?g = (\<lambda>k. if d \<le> k \<and> k < d + n then Some (Part d) else use_of g k)" "large_of ?g = (large_of g)(d \<mapsto> n)"
    by (simp_all add: g_large_def)
  have same: "use_of ?g k = Some w \<longleftrightarrow> use_of g k = Some w" if "\<And>d. w \<noteq> Part d" for k w
    using that u [of k] by (auto simp: gf)
  have "spaces_ok ?g"
    unfolding spaces_ok_def
  proof (intro conjI allI impI)
    fix k assume "use_of ?g k \<noteq> None"
    then show "k < nsb ?g" using u [of k] ainvD(2) [OF i] by (auto simp: gf spaces_ok_def split: if_splits)
  next
    fix e m assume em: "large_of ?g e = Some m"
    then show "0 < m" using n ainvD(2) [OF i] by (auto simp: gf spaces_ok_def split: if_splits)
    fix k assume k: "e \<le> k \<and> k < e + m"
    show "use_of ?g k = Some (Part e)"
    proof (cases "e = d")
      case True
      then have "m = n" using em by (simp add: gf(8))
      then show ?thesis using True k by (simp add: g_large_def)
    next
      case False
      then have "use_of g k = Some (Part e)" using em k ainvD(2) [OF i] by (simp add: gf spaces_ok_def)
      then show ?thesis using u [of k] by (auto simp: gf)
    qed
  qed
  moreover have "frees_ok ?a ?g" using ainvD(3) [OF i1] same [of Unused] by (simp add: frees_ok_def gf(5))
  moreover have "parts_ok ?a ?g" using ainvD(4) [OF i1] same [of "Small _"] by (simp add: parts_ok_def gf(4))
  moreover have "smalls_ok ?a ?g" using ainvD(5) [OF i1] same [of "Small _"] by (simp add: smalls_ok_def gf(1,2))
  moreover have "larges_ok ?a ?g" using ainvD(6) [OF i] E by (simp add: larges_ok_def gf(8))
  moreover have "own_ok (first_sb ?a) ?g" using ainvD(8) [OF i1] same [of "Small _"] by (simp add: own_ok_def gf(1))
  moreover have "base_ok ?a ?g" "bins_ok ?a ?g" using ainvD(1,7) [OF i1] by (simp_all add: base_ok_def bins_ok_def gf(1,3,6))
  ultimately show "ainv ?a ?g" by (simp add: ainv_def)
  let ?f = "first_sb a" and ?p = "first_sb a + d * 65536"
  have sp: "sbi ?f ?p = d" by (rule sbi_offset) simp_all
  have np: "own g ?p = None" by (rule no_owner [OF i]) (simp add: sp ud)
  have nl: "large_of g d = None" using large_used [OF i, of d] ud by (cases "large_of g d") auto
  show "live_size ?f g ?p = None" using np nl sp by (simp add: live_size_def)
  show "live_size ?f ?g = (live_size ?f g)(?p \<mapsto> n * 65536)"
  proof (rule ext)
    fix x
    show "live_size ?f ?g x = ((live_size ?f g)(?p \<mapsto> n * 65536)) x"
    proof (cases "own g x = Some Live")
      case True
      then obtain sc where "use_of g (sbi ?f x) = Some (Small sc)" using own_class [OF i True] by blast
      moreover from this have "use_of ?g (sbi ?f x) = Some (Small sc)" using same [of "Small sc"] by simp
      ultimately show ?thesis using True np by (auto simp: live_size_def gf(1))
    next
      case False
      then show ?thesis using np nl sp by (auto simp: live_size_def gf(1,8))
    qed
  qed
qed

text \<open>What a call owes its caller: the live blocks change as stated, the contents of the kept ones do not.\<close>

definition call_step :: "lralloc \<Rightarrow> view \<Rightarrow> lralloc \<Rightarrow> view \<Rightarrow> (nat \<Rightarrow> nat option) \<Rightarrow> bool" where
  "call_step a g a' g' L \<longleftrightarrow> ainv a' g' \<and> first_sb a' = first_sb a \<and> address_limit a' = address_limit a \<and> roots a' = roots a \<and>
     live_size (first_sb a) g' = L \<and>
     (\<forall>p u x. live_size (first_sb a) g p = Some u \<and> L p = Some u \<and> p \<le> x \<and> x < p + u \<longrightarrow> mem a' x = mem a x)"

lemma quiet_call: "quiet_step a g a' g' \<Longrightarrow> call_step a g a' g' (live_size (first_sb a) g)"
  by (auto simp: quiet_step_def call_step_def live_cells_def)

text \<open>A quiet step before a call does not change what the call does.\<close>

lemma quiet_then_call:
  assumes "quiet_step a g a1 g1" and "call_step a1 g1 a2 g2 L"
  shows "call_step a g a2 g2 L"
  using assms unfolding quiet_step_def call_step_def live_cells_def by fastforce

lemma round_large:
  assumes "0 < sz" and "sz < 2 ^ 63"
  obtains n where "RoundUp sz kSuperBlockSize = n * 65536" "0 < n" "sz \<le> n * 65536" "n * 65536 \<le> 2 ^ 63"
proof -
  have k: "kSuperBlockSize = 65536" by (simp add: geometry)
  have le: "sz + 65536 \<le> 2 ^ 64" using assms(2) by simp
  note r = RoundUp_least [of 65536 sz]
  obtain n where n: "RoundUp sz 65536 = n * 65536" using r(1) le by (metis dvd_def mult.commute zero_less_numeral)
  have "sz \<le> n * 65536" using r(2) le n by simp
  moreover have "RoundUp sz 65536 \<le> 2 ^ 63" by (rule r(4)) (use assms(2) le in simp_all)
  ultimately show ?thesis using that [of n] assms(1) n by (simp add: k)
qed

lemma pmalloc_large_ok:
  assumes i: "ainv a g" and sz: "0 < sz" "sz < 2 ^ 63"
  shows "pmalloc_large sz a = (0, a) \<or>
    (\<exists>p n a' g'. pmalloc_large sz a = (p, a') \<and> 0 < p \<and> sz \<le> n * 65536 \<and> live_size (first_sb a) g p = None \<and>
      call_step a g a' g' ((live_size (first_sb a) g)(p \<mapsto> n * 65536)))"
proof -
  obtain n where n: "RoundUp sz kSuperBlockSize = n * 65536" "0 < n" "sz \<le> n * 65536" "n * 65536 \<le> 2 ^ 63"
    by (rule round_large [OF sz])
  from alloc_large_sb_ok [OF i refl n(2,4)] show ?thesis
  proof (elim disjE exE conjE)
    assume "alloc_large_sb (n * 65536) a = (0, a)"
    then show ?thesis using n(1) by (simp add: pmalloc_large_def)
  next
    fix d a1 g1
    assume d: "alloc_large_sb (n * 65536) a = (first_sb a + d * 65536, a1)" "ainv a1 g1"
      "\<forall>k. d \<le> k \<and> k < d + n \<longrightarrow> use_of g1 k = None \<and> k < nsb g1" "carries g g1" "a_same a a1"
    define p where "p = first_sb a + d * 65536"
    have p0: "0 < p" using ainvD(1) [OF i] by (simp add: p_def base_ok_def)
    have f: "first_sb a1 = first_sb a" using d(5) by (simp add: a_same_def)
    define E where "E = (init_descriptor 0 (n * 65536) 1 p (descs a1 d))\<lparr>anchor := \<lparr>avail = 0, count = 0, state = SB_FULL\<rparr>\<rparr>"
    define a2 where "a2 = set_desc d (\<lambda>_. E) a1"
    have q: "quiet_step a g a1 g1" by (rule carries_quiet [OF i d(2,4,5)])
    have l1: "live_size (first_sb a) g1 = live_size (first_sb a) g" using q by (simp add: quiet_step_def)
    have E: "heap E = Some 0" "superblock E = first_sb a1 + d * 65536" "desc_block_size E = n * 65536 mod 2 ^ 32"
      by (simp_all add: E_def init_descriptor_def p_def f)
    have u: "\<And>k. d \<le> k \<Longrightarrow> k < d + n \<Longrightarrow> use_of g1 k = None \<and> k < nsb g1" using d(3) by blast
    note al = adopt_large_ok [OF d(2) n(2) u E, folded a2_def, unfolded f, folded p_def, unfolded l1]
    have "call_step a1 g1 a2 (g_large d n g1) ((live_size (first_sb a) g)(p \<mapsto> n * 65536))"
      using al(1,2) by (simp add: call_step_def f) (simp add: a2_def f)
    then have c: "call_step a g a2 (g_large d n g1) ((live_size (first_sb a) g)(p \<mapsto> n * 65536))" by (rule quiet_then_call [OF q])
    have "lookup_desc a1 p = d" using address_of_desc [of a1 d] by (simp add: p_def f)
    then have "pmalloc_large sz a = (p, a2)"
      using d(1) p0 n(1) by (simp add: pmalloc_large_def p_def [symmetric] a2_def E_def set_desc_def)
    then show ?thesis using p0 n(3) al(3) c by blast
  qed
qed

lemma pmalloc_small_ok:
  assumes i: "ainv a g" and r: "has_room a \<or> pmalloc t sz a \<noteq> None" and sz: "sz \<le> kMaxSize"
  obtains p u a' g' where "pmalloc t sz a = Some (p, a')" "0 < p" "sz \<le> u" "live_size (first_sb a) g p = None"
    "call_step a g a' g' ((live_size (first_sb a) g)(p \<mapsto> u))"
proof -
  define sc where "sc = size_class_lookup sz"
  note l = lookup_ok [OF sz, folded sc_def]
  have sc: "1 \<le> sc" "sc < 40" using l(1,2) by (simp_all add: kMaxSizeClasses_def)
  obtain a1 g1 where 1: "(if bin_num (caches a t sc) = 0 then fill_cache t sc a else Some a) = Some a1" "quiet_step a g a1 g1" "cblk g1 t sc \<noteq> []"
  proof (cases "bin_num (caches a t sc) = 0")
    case True
    then have "cblk g t sc = []" using bin_facts(3) [OF i, of t sc] by simp
    moreover have "has_room a \<or> fill_cache t sc a \<noteq> None"
      using r sz True by (auto simp: pmalloc_def sc_def [symmetric] Let_def)
    ultimately obtain a1 g1 where "fill_cache t sc a = Some a1" "quiet_step a g a1 g1" "cblk g1 t sc \<noteq> []"
      using fill_cache_ok [OF i _ sc] by metis
    then show ?thesis using that True by simp
  next
    case False
    then have "cblk g t sc \<noteq> []" using bin_facts(3) [OF i, of t sc] by auto
    then show ?thesis using that [of a g] False quiet_step_refl [OF i] by simp
  qed
  have i1: "ainv a1 g1" and f1: "first_sb a1 = first_sb a" and l1: "live_size (first_sb a) g1 = live_size (first_sb a) g"
    using 1(2) by (simp_all add: quiet_step_def)
  obtain p xs where px: "cblk g1 t sc = p # xs" using 1(3) by (cases "cblk g1 t sc") auto
  obtain a2 where a2: "pop_block t sc a1 = Some (p, a2)" "ainv a2 (g_pop t sc g1)" "mem a2 = mem a1" "first_sb a2 = first_sb a1"
    by (rule pop_block_ok [OF i1 px])
  have own: "own g1 p = Some (Cached t sc)" using bin_facts(5) [OF i1, of p t sc] px by simp
  obtain sc' where sc': "use_of g1 (sbi (first_sb a1) p) = Some (Small sc')" "in_block (first_sb a1) (sbi (first_sb a1) p) sc' p" "sc' = sc"
    using own_class [OF i1 own] by blast
  have np: "live_size (first_sb a) g1 p = None"
  proof -
    have "large_of g1 (sbi (first_sb a) p) = None" using large_used [OF i1] sc'(1) f1 by (cases "large_of g1 (sbi (first_sb a) p)") fastforce+
    then show ?thesis using own by (simp add: live_size_def)
  qed
  have gp: "own (g_pop t sc g1) = (own g1)(p \<mapsto> Live)" "use_of (g_pop t sc g1) = use_of g1" "large_of (g_pop t sc g1) = large_of g1"
    using px by (simp_all add: g_pop_def)
  have ls: "live_size (first_sb a) (g_pop t sc g1) = (live_size (first_sb a) g1)(p \<mapsto> bsz sc)"
    using sc'(1,3) f1 by (auto simp: live_size_def gp fun_eq_iff)
  have rest: "address_limit a2 = address_limit a1" "roots a2 = roots a1" using a2(1) by (auto simp: pop_block_def Let_def)
  have "call_step a1 g1 a2 (g_pop t sc g1) ((live_size (first_sb a) g1)(p \<mapsto> bsz sc))"
    using a2 ls rest by (simp add: call_step_def f1)
  then have c: "call_step a g a2 (g_pop t sc g1) ((live_size (first_sb a) g)(p \<mapsto> bsz sc))"
    unfolding l1 by (rule quiet_then_call [OF 1(2)])
  have "pmalloc t sz a = Some (p, a2)" using sz 1(1) a2(1) by (simp add: pmalloc_def sc_def [symmetric] Let_def)
  moreover have "0 < p" using in_block_bounds(1) [OF sc, of "first_sb a1"] sc' ainvD(1) [OF i1] by (force simp: base_ok_def)
  ultimately show ?thesis using l(3) np l1 c by (intro that) simp_all
qed

subsection \<open>Freeing\<close>

definition g_unlarge :: "nat \<Rightarrow> nat \<Rightarrow> view \<Rightarrow> view" where
  "g_unlarge d n g = g\<lparr>use_of := (\<lambda>k. if d \<le> k \<and> k < d + n then None else use_of g k), large_of := (large_of g)(d := None)\<rparr>"

lemma large_range:
  assumes "ainv a g" and "large_of g d = Some n" and "d \<le> k" "k < d + n"
  shows "use_of g k = Some (Part d)"
  using ainvD(2) [OF assms(1)] assms(2-4) by (simp add: spaces_ok_def)

lemma drop_large_ok:
  assumes i: "ainv a g" and n: "large_of g d = Some n"
  shows "ainv a (g_unlarge d n g)"
proof -
  let ?g = "g_unlarge d n g"
  note r = large_range [OF i n]
  have gf: "own ?g = own g" "fblk ?g = fblk g" "cblk ?g = cblk g" "parts ?g = parts g" "frees ?g = frees g" "nsb ?g = nsb g"
    "use_of ?g = (\<lambda>k. if d \<le> k \<and> k < d + n then None else use_of g k)" "large_of ?g = (large_of g)(d := None)"
    by (simp_all add: g_unlarge_def)
  have same: "use_of ?g k = Some w \<longleftrightarrow> use_of g k = Some w" if "\<And>d. w \<noteq> Part d" for k w
    using that r [of k] by (auto simp: gf)
  have "spaces_ok ?g"
    unfolding spaces_ok_def
  proof (intro conjI allI impI)
    fix k assume "use_of ?g k \<noteq> None"
    then show "k < nsb ?g" using ainvD(2) [OF i] by (auto simp: gf spaces_ok_def split: if_splits)
  next
    fix e m assume em: "large_of ?g e = Some m"
    then have e: "large_of g e = Some m" "e \<noteq> d" by (auto simp: gf split: if_splits)
    then show "0 < m" using ainvD(2) [OF i] by (simp add: spaces_ok_def)
    fix k assume "e \<le> k \<and> k < e + m"
    then have "use_of g k = Some (Part e)" using large_range [OF i e(1)] by simp
    then show "use_of ?g k = Some (Part e)" using r [of k] e(2) by (auto simp: gf)
  qed
  moreover have "frees_ok a ?g" using ainvD(3) [OF i] same [of Unused] by (simp add: frees_ok_def gf(5))
  moreover have "parts_ok a ?g" using ainvD(4) [OF i] same [of "Small _"] by (simp add: parts_ok_def gf(4))
  moreover have "smalls_ok a ?g" using ainvD(5) [OF i] same [of "Small _"] by (simp add: smalls_ok_def gf(1,2))
  moreover have "larges_ok a ?g" using ainvD(6) [OF i] by (simp add: larges_ok_def gf(8))
  moreover have "own_ok (first_sb a) ?g" using ainvD(8) [OF i] same [of "Small _"] by (simp add: own_ok_def gf(1))
  moreover have "base_ok a ?g" "bins_ok a ?g" using ainvD(1,7) [OF i] by (simp_all add: base_ok_def bins_ok_def gf(1,3,6))
  ultimately show ?thesis by (simp add: ainv_def)
qed

lemma pfree_large_ok:
  assumes i: "ainv a g" and p: "large_of g d = Some n" "p = first_sb a + d * 65536"
  obtains a' g' where "retire_large_sb (superblock (descs a d)) (desc_block_size (descs a d)) a = Some a'"
    "call_step a g a' g' ((live_size (first_sb a) g)(p := None))"
proof -
  define c where "c = max 1 (n mod 65536)"
  define g1 where "g1 = g_unlarge d n g"
  have i1: "ainv a g1" unfolding g1_def by (rule drop_large_ok [OF i p(1)])
  have n0: "0 < n" using ainvD(2) [OF i] p(1) by (simp add: spaces_ok_def)
  have cn: "c \<le> n" using n0 by (simp add: c_def)
  have D: "superblock (descs a d) = p" "desc_block_size (descs a d) = n * 65536 mod 2 ^ 32"
    using ainvD(6) [OF i] p by (simp_all add: larges_ok_def)
  have md: "n * 65536 mod 4294967296 = (n mod 65536) * 65536" using mult_mod_left [of n 65536 65536] by simp
  define a' where "a' = fill_sb_list p (n mod 65536) a"
  have rt: "retire_large_sb (superblock (descs a d)) (desc_block_size (descs a d)) a = Some a'"
    by (simp add: retire_large_sb_def D md a'_def geometry)
  have i2: "ainv a' (g_fill d c g1)"
    unfolding a'_def p(2) c_def
  proof (rule fill_ok [OF i1])
    fix e assume e: "d \<le> e" "e < d + max 1 (n mod 65536)"
    then have "e < d + n" using cn by (simp add: c_def)
    then have "use_of g e = Some (Part d)" by (rule large_range [OF i p(1) e(1)])
    then have "e < nsb g" using ainvD(2) [OF i] by (simp add: spaces_ok_def)
    then show "use_of g1 e = None \<and> e < nsb g1" using e(1) \<open>e < d + n\<close> by (simp add: g1_def g_unlarge_def)
  qed
  have fl: "a' = a\<lparr>descs := descs a', avail_sb := avail_sb a'\<rparr>"
    unfolding a'_def p(2) by (subst (1 2 3) fill_sb_list_eq [OF refl]) simp
  have fx: "first_sb a' = first_sb a" "address_limit a' = address_limit a" "roots a' = roots a" "mem a' = mem a"
    by (subst fl, simp)+
  have own: "own g p = None"
  proof (rule ccontr)
    assume "own g p \<noteq> None"
    then obtain q where q: "own g p = Some q" by blast
    obtain sc where "use_of g (sbi (first_sb a) p) = Some (Small sc)" using own_okD [OF ainvD(8) [OF i] q] by blast
    moreover have "sbi (first_sb a) p = d" by (rule sbi_offset) (simp_all add: p(2))
    ultimately show False using large_used [OF i p(1)] by simp
  qed
  have "live_size (first_sb a) (g_fill d c g1) = (live_size (first_sb a) g)(p := None)"
  proof (rule ext)
    fix x
    show "live_size (first_sb a) (g_fill d c g1) x = ((live_size (first_sb a) g)(p := None)) x"
    proof (cases "own g x = Some Live")
      case True
      then obtain sc where sc: "use_of g (sbi (first_sb a) x) = Some (Small sc)" using own_class [OF i True] by blast
      have "\<not> (d \<le> sbi (first_sb a) x \<and> sbi (first_sb a) x < d + n)" using large_range [OF i p(1)] sc by auto
      then have "use_of (g_fill d c g1) (sbi (first_sb a) x) = Some (Small sc)" using cn sc by (auto simp: g1_def g_unlarge_def)
      moreover have "x \<noteq> p" using True own by auto
      ultimately show ?thesis using True sc by (simp add: live_size_def) (simp add: g1_def g_unlarge_def)
    next
      case False
      then show ?thesis using own by (auto simp: live_size_def g1_def g_unlarge_def p(2) split: option.splits)
    qed
  qed
  then have "call_step a g a' (g_fill d c g1) ((live_size (first_sb a) g)(p := None))"
    unfolding call_step_def using i2 fx by (intro conjI allI impI) (simp_all only:)
  with rt show ?thesis by (rule that)
qed

lemma pfree_small_ok:
  assumes i: "ainv a g" and p: "own g p = Some Live" "use_of g (sbi (first_sb a) p) = Some (Small sc)"
  obtains a' g' where "pfree t p a = Some a'" "call_step a g a' g' ((live_size (first_sb a) g)(p := None))" "has_room a \<longrightarrow> has_room a'"
proof -
  note k = small_ok(1) [OF i p(2)]
  have sc: "heap (descs a (sbi (first_sb a) p)) = Some sc" "1 \<le> sc" "sc < 40" using k by (simp_all add: desc_ok_def)
  have p0: "p \<noteq> 0"
  proof -
    have "in_block (first_sb a) (sbi (first_sb a) p) sc p" using own_okD [OF ainvD(8) [OF i] p(1)] p(2) by auto
    then show ?thesis using in_block_bounds(1) [OF sc(2,3)] ainvD(1) [OF i] by (force simp: base_ok_def)
  qed
  obtain a1 g1 where 1: "(if bin_num (caches a t sc) \<ge> cache_block_num (get_entry sc) then flush_cache t sc a else Some a) = Some a1"
    "quiet_step a g a1 g1" "own g1 p = Some Live" "use_of g1 (sbi (first_sb a) p) = Some (Small sc)" "has_room a \<longrightarrow> has_room a1"
  proof (cases "bin_num (caches a t sc) \<ge> cache_block_num (get_entry sc)")
    case True
    then show ?thesis using that flush_cache_ok [OF i, of t sc] p by auto
  next
    case False
    then show ?thesis using that [of a g] quiet_step_refl [OF i] p by simp
  qed
  have i1: "ainv a1 g1" and f1: "first_sb a1 = first_sb a" and l1: "live_size (first_sb a) g1 = live_size (first_sb a) g"
    using 1(2) by (simp_all add: quiet_step_def)
  have u1: "use_of g1 (sbi (first_sb a1) p) = Some (Small sc)" using 1(4) f1 by simp
  define a2 where "a2 = push_block t sc p a1"
  define g2 where "g2 = g_push t sc p g1"
  note pb = push_block_ok [OF i1 1(3) u1, where t = t, folded a2_def g2_def]
  have gp: "own g2 = (own g1)(p \<mapsto> Cached t sc)" "use_of g2 = use_of g1" "large_of g2 = large_of g1" by (simp_all add: g2_def g_push_def)
  have "large_of g1 (sbi (first_sb a) p) = None" using large_used [OF i1] 1(4) by (cases "large_of g1 (sbi (first_sb a) p)") fastforce+
  then have ls: "live_size (first_sb a) g2 = (live_size (first_sb a) g1)(p := None)"
    by (auto simp: live_size_def gp fun_eq_iff)
  have nl: "p \<notin> live_cells (first_sb a2) g2" by (rule not_live [OF pb(1)]) (simp add: gp)
  have rest: "address_limit a2 = address_limit a1" "roots a2 = roots a1" by (simp_all add: a2_def push_block_def Let_def)
  have "call_step a1 g1 a2 g2 ((live_size (first_sb a) g1)(p := None))"
    unfolding call_step_def f1
  proof (intro conjI allI impI)
    fix q u x assume q: "live_size (first_sb a) g1 q = Some u \<and> ((live_size (first_sb a) g1)(p := None)) q = Some u \<and> q \<le> x \<and> x < q + u"
    then have "q \<noteq> p" "live_size (first_sb a2) g2 q = Some u" using ls pb(3) f1 by (auto split: if_splits)
    then have "x \<in> live_cells (first_sb a2) g2" using q unfolding live_cells_def by blast
    then have "x \<noteq> p" using nl by blast
    then show "mem a2 x = mem a1 x" by (rule pb(2))
  qed (use pb ls rest f1 in simp_all)
  then have c: "call_step a g a2 g2 ((live_size (first_sb a) g)(p := None))" unfolding l1 by (rule quiet_then_call [OF 1(2)])
  have "pfree t p a = Some a2"
    using p0 sc 1(1) by (simp add: pfree_def lookup_desc_eq a2_def)
  moreover have "has_room a2 = has_room a1" by (simp add: has_room_def a2_def push_block_def Let_def)
  ultimately show ?thesis using that c 1(5) by simp
qed

lemma pfree_ok:
  assumes i: "ainv a g" and p: "live_size (first_sb a) g p = Some u"
  obtains a' g' where "pfree t p a = Some a'" "call_step a g a' g' ((live_size (first_sb a) g)(p := None))"
proof (cases "own g p = Some Live")
  case True
  then obtain sc where sc: "use_of g (sbi (first_sb a) p) = Some (Small sc)" using own_class [OF i True] by blast
  obtain a' g' where "pfree t p a = Some a'" "call_step a g a' g' ((live_size (first_sb a) g)(p := None))"
    by (rule pfree_small_ok [OF i True sc, where t = t])
  then show ?thesis by (rule that)
next
  case False
  define d where "d = sbi (first_sb a) p"
  have "large_of g d \<noteq> None" "p = first_sb a + d * 65536"
    using p False by (simp_all add: live_size_def d_def [symmetric] split: option.splits if_splits)
  then obtain n where n: "large_of g d = Some n" "p = first_sb a + d * 65536" by blast
  obtain a' g' where a': "retire_large_sb (superblock (descs a d)) (desc_block_size (descs a d)) a = Some a'"
    "call_step a g a' g' ((live_size (first_sb a) g)(p := None))"
    by (rule pfree_large_ok [OF i n])
  have "p \<noteq> 0" using ainvD(1) [OF i] n(2) by (simp add: base_ok_def)
  moreover have "heap (descs a d) = Some 0" using ainvD(6) [OF i] n(1) by (simp add: larges_ok_def)
  ultimately have "pfree t p a = Some a'" using a'(1) by (simp add: pfree_def lookup_desc_eq d_def [symmetric])
  then show ?thesis using that a'(2) by blast
qed

subsection \<open>Stores of the program\<close>

definition poke :: "nat \<Rightarrow> nat \<Rightarrow> lralloc \<Rightarrow> lralloc" where "poke x v a = a\<lparr>mem := (mem a)(x := v)\<rparr>"

lemma poke_ok:
  assumes i: "ainv a g" and x: "x \<in> live_cells (first_sb a) g"
  shows "ainv (poke x v a) g"
  unfolding poke_def
proof (rule ainv_mem [OF i])
  fix y pl assume "own g y = Some pl" "pl \<noteq> Live"
  then have "y \<notin> live_cells (first_sb a) g" using not_live [OF i, of y] by blast
  then show "((mem a)(x := v)) y = mem a y" using x by auto
qed

subsection \<open>Blocks\<close>

lemma live_disjoint:
  assumes i: "ainv a g" and p: "live_size (first_sb a) g p = Some u" "p \<le> x" "x < p + u"
    and q: "live_size (first_sb a) g q = Some w" "q \<le> x" "x < q + w"
  shows "p = q"
proof -
  have s: "own g y = Some Live \<or> y = first_sb a + sbi (first_sb a) y * 65536" if "live_size (first_sb a) g y = Some r" for y r
    using that by (simp add: live_size_def split: option.splits if_splits)
  from live_cell_cases [OF i p] show ?thesis
  proof (elim disjE exE conjE)
    fix sc
    assume 1: "own g p = Some Live" "use_of g (sbi (first_sb a) x) = Some (Small sc)" "in_block (first_sb a) (sbi (first_sb a) x) sc p"
      "1 \<le> sc" "sc < 40" "u = bsz sc"
    then have 2: "in_block (first_sb a) (sbi (first_sb a) x) sc q" "w = bsz sc" using live_cell_cases [OF i q] by auto
    show ?thesis by (rule block_unique [OF 1(4,5,3) 2(1)]) (use p q 1(6) 2(2) in simp_all)
  next
    assume 1: "own g p \<noteq> Some Live" "use_of g (sbi (first_sb a) x) = Some (Part (sbi (first_sb a) p))"
    then have 2: "own g q \<noteq> Some Live" "sbi (first_sb a) p = sbi (first_sb a) q" using live_cell_cases [OF i q] by auto
    have "p = first_sb a + sbi (first_sb a) p * 65536" using s [OF p(1)] 1(1) by blast
    moreover have "q = first_sb a + sbi (first_sb a) q * 65536" using s [OF q(1)] 2(1) by blast
    ultimately show ?thesis unfolding 2(2) by (rule trans_sym)
  qed
qed

lemma live_bounds:
  assumes i: "ainv a g" and p: "live_size (first_sb a) g p = Some u"
  shows "first_sb a \<le> p" and "p + u \<le> bulk_tail a" and "8 dvd p" and "0 < u" and "8 dvd u"
proof -
  have b: "bulk_tail a = first_sb a + nsb g * 65536" "8 dvd first_sb a" "0 < first_sb a"
    using ainvD(1) [OF i] dvd_trans [of 8 kPageSize "first_sb a"] by (auto simp: base_ok_def geometry)
  have end_: "(d + n) * 65536 \<le> nsb g * 65536" if "\<And>k. d \<le> k \<Longrightarrow> k < d + n \<Longrightarrow> use_of g k \<noteq> None" "0 < n" for d n
  proof -
    have "use_of g (d + n - 1) \<noteq> None" using that(2) by (intro that(1)) simp_all
    then have "d + n - 1 < nsb g" using ainvD(2) [OF i] by (simp add: spaces_ok_def)
    then show ?thesis by (intro mult_le_mono1) simp
  qed
  define d where "d = sbi (first_sb a) p"
  have "first_sb a \<le> p \<and> p + u \<le> bulk_tail a \<and> 8 dvd p \<and> 0 < u \<and> 8 dvd u"
  proof (cases "own g p = Some Live")
    case True
    obtain sc where sc: "use_of g d = Some (Small sc)" "in_block (first_sb a) d sc p" "1 \<le> sc" "sc < 40"
      using own_class [OF i True] by (auto simp: d_def)
    have u: "u = bsz sc" using p sc(1) True by (simp add: live_size_def d_def)
    note ib = in_block_bounds(1,2) [OF sc(3,4,2)]
    have e: "(d + 1) * 65536 \<le> nsb g * 65536" by (rule end_) (use sc(1) in \<open>auto simp: le_less_Suc_eq\<close>)
    obtain k where k: "p = first_sb a + d * 65536 + k * bsz sc" using sc(2) by (auto simp: in_block_def)
    have bz: "8 dvd bsz sc" "8 \<le> bsz sc" using bsz_facts sc(3,4) by simp_all
    have "8 dvd d * 65536" by (rule dvd_mult) simp
    moreover have "8 dvd k * bsz sc" using bz(1) by (rule dvd_mult)
    ultimately have "8 dvd p" unfolding k using b(2) by (intro dvd_add)
    then show ?thesis using ib e b u bz by (simp add: add_mult_distrib)
  next
    case False
    then have "large_of g d \<noteq> None \<and> p = first_sb a + d * 65536 \<and> u = the (large_of g d) * 65536"
      using p by (simp add: live_size_def d_def [symmetric] split: option.splits if_splits)
    then obtain n where n: "large_of g d = Some n" "p = first_sb a + d * 65536" "u = n * 65536" by auto
    have n0: "0 < n" using ainvD(2) [OF i] n(1) by (simp add: spaces_ok_def)
    have "(d + n) * 65536 \<le> nsb g * 65536" by (rule end_) (use large_range [OF i n(1)] n0 in simp_all)
    moreover have "8 dvd p" unfolding n(2) using b(2) by (intro dvd_add dvd_mult) simp_all
    moreover have "8 dvd u" unfolding n(3) by (rule dvd_mult) simp
    ultimately show ?thesis using n(2,3) n0 b by (simp add: add_mult_distrib)
  qed
  then show "first_sb a \<le> p" and "p + u \<le> bulk_tail a" and "8 dvd p" and "0 < u" and "8 dvd u" by blast+
qed

subsection \<open>Opening\<close>

text \<open>Reopening loses the blocks in the caches, and nothing else.\<close>

definition g_reopen :: "view \<Rightarrow> view" where
  "g_reopen g = g\<lparr>own := (\<lambda>x. case own g x of Some (Cached t c) \<Rightarrow> None | q \<Rightarrow> q), cblk := (\<lambda>_ _. [])\<rparr>"

lemma reopen_ok:
  assumes i: "ainv a g"
  shows "call_step a g (a\<lparr>caches := (\<lambda>_ _. empty_bin)\<rparr>) (g_reopen g) (live_size (first_sb a) g)" (is "call_step a g ?a ?g _")
proof -
  have own: "own ?g x = Some q \<longleftrightarrow> own g x = Some q \<and> (\<forall>t c. q \<noteq> Cached t c)" for x q
    by (auto simp: g_reopen_def split: option.splits place.splits)
  have gf: "fblk ?g = fblk g" "use_of ?g = use_of g" "cblk ?g = (\<lambda>_ _. [])" "large_of ?g = large_of g" by (simp_all add: g_reopen_def)
  have "ainv ?a ?g"
  proof (rule ainv_blocksI [OF i])
    show "smalls_ok ?a ?g" using ainvD(5) [OF i] own [of _ Free] by (simp add: smalls_ok_def gf)
    show "bins_ok ?a ?g" using own by (simp add: bins_ok_def gf empty_bin_def)
    show "own_ok (first_sb a) ?g" by (rule own_ok_moved [OF ainvD(8) [OF i]]) (use own gf in auto)
  qed (simp_all add: g_reopen_def)
  moreover have "live_size (first_sb a) ?g = live_size (first_sb a) g"
    by (rule live_size_cong) (use own [of _ Live] gf in simp_all)
  ultimately show ?thesis by (simp add: call_step_def)
qed

definition g_new :: view where
  "g_new = \<lparr>nsb = 0, use_of = (\<lambda>_. None), large_of = (\<lambda>_. None), own = (\<lambda>_. None), frees = [], parts = (\<lambda>_. []),
     fblk = (\<lambda>_. []), cblk = (\<lambda>_ _. [])\<rparr>"

lemma setup_metadata_ok:
  assumes b: "0 < base" "kPageSize dvd base" "base + capacity < 2 ^ 48"
    and room: "first_sb_offset capacity + kMinAllocateSuperBlockSize \<le> capacity"
  obtains a g where "setup_metadata base capacity ds m = Some a" "ainv a g" "live_size (first_sb a) g = Map.empty"
    "first_sb a = base + first_sb_offset capacity" "address_limit a = base + capacity" "mem a = m" "magic a = kMetadataHeaderMagic"
    "roots a = (\<lambda>_. 0)" "has_room a"
proof -
  define a0 where "a0 = \<lparr>magic = 0, avail_sb = (None, 0), descs = ds, first_sb = base + first_sb_offset capacity,
    bulk_tail = base + first_sb_offset capacity, partial_list = (\<lambda>_. (None, 0)), roots = (\<lambda>_. 0), mem = m,
    address_limit = base + capacity, caches = (\<lambda>_ _. empty_bin)\<rparr>"
  have "kPageSize dvd first_sb_offset capacity"
  proof -
    have "capacity div kSuperBlockSize * kDescriptorSize \<le> capacity"
    proof -
      have "capacity div 65536 * 64 \<le> capacity div 65536 * 65536" by simp
      also have "\<dots> \<le> capacity" by (rule div_times_less_eq_dividend)
      finally show ?thesis by (simp add: geometry)
    qed
    then have "capacity div kSuperBlockSize * kDescriptorSize + kPageSize \<le> 2 ^ 64" using b(3) by (simp add: geometry)
    then have "kPageSize dvd RoundUp (capacity div kSuperBlockSize * kDescriptorSize) kPageSize"
      by (intro RoundUp_least(1)) (simp_all add: geometry)
    moreover have "kPageSize dvd RoundUp sizeof_Metadata kPageSize" by (rule RoundUp_least(1)) (simp_all add: geometry)
    ultimately show ?thesis unfolding first_sb_offset_def by (rule dvd_add [rotated])
  qed
  then have i0: "ainv a0 g_new"
    using b room by (auto simp: ainv_def base_ok_def spaces_ok_def frees_ok_def parts_ok_def smalls_ok_def larges_ok_def bins_ok_def
        own_ok_def a0_def g_new_def empty_bin_def)
  have sz: "32 * 65536 = kMinAllocateSuperBlockSize" by (simp add: geometry)
  have room0: "bulk_tail a0 + kMinAllocateSuperBlockSize \<le> address_limit a0" using room by (simp add: a0_def)
  have k63: "kMinAllocateSuperBlockSize \<le> 2 ^ 63" by (simp add: geometry)
  define a1 where "a1 = a0\<lparr>bulk_tail := bulk_tail a0 + kMinAllocateSuperBlockSize\<rparr>"
  have b1: "bulk_allocate kPageSize kMinAllocateSuperBlockSize a0 = Inr (first_sb a0, a1)"
    using bulk_eq [OF i0 sz k63] room0 by (simp add: a1_def) (simp add: g_new_def)
  define g1 where "g1 = g_new\<lparr>nsb := 32\<rparr>"
  have i1: "ainv a1 g1" using bulk_ok(1) [OF i0 sz room0] by (simp add: a1_def g1_def) (simp add: g_new_def)
  define a2 where "a2 = fill_sb_list (first_sb a1 + 1 * 65536) 31 a1"
  have i2: "ainv a2 (g_fill 1 31 g1)"
    using fill_ok [OF i1, of 1 31] unfolding a2_def by (simp add: g1_def) (simp add: g_new_def)
  define a where "a = a2\<lparr>magic := kMetadataHeaderMagic\<rparr>"
  have i: "ainv a (g_fill 1 31 g1)"
    using i2 by (simp add: a_def ainv_def base_ok_def frees_ok_def parts_ok_def smalls_ok_def larges_ok_def bins_ok_def)
  have f: "first_sb a0 = base + first_sb_offset capacity" by (simp add: a0_def)
  have s: "setup_metadata base capacity ds m = Some a"
    using b1 by (simp add: setup_metadata_def a0_def [symmetric] Let_def a_def a2_def a1_def geometry)
  have l: "live_size (first_sb a) (g_fill 1 31 g1) = Map.empty" by (simp add: live_size_def g1_def g_new_def fun_eq_iff)
  have e2: "first_sb a2 = first_sb a0" "address_limit a2 = address_limit a0" "mem a2 = mem a0" "roots a2 = roots a0" "fst (avail_sb a2) = Some 1"
    using fill_sb_list_eq [of 31 31 a1 1] by (simp_all add: a2_def a1_def)
  show ?thesis
    by (rule that [OF s i l]) (use e2 in \<open>simp_all add: a_def a0_def has_room_def\<close>)
qed

text \<open>The usual sizes leave room for the metadata and the first superblocks.\<close>

lemma setup_room:
  assumes "16 * 2 ^ 20 \<le> capacity" and "capacity < 2 ^ 48"
  shows "first_sb_offset capacity + kMinAllocateSuperBlockSize \<le> capacity"
proof -
  have d: "capacity div 65536 * 64 \<le> capacity div 1024"
  proof -
    have "capacity div 65536 * 64 * 1024 \<le> capacity" using div_times_less_eq_dividend [of capacity 65536] by simp
    then show ?thesis by (simp add: less_eq_div_iff_mult_less_eq)
  qed
  have "capacity div 1024 \<le> capacity" by simp
  then have "RoundUp (capacity div 65536 * 64) 4096 < capacity div 65536 * 64 + 4096"
    using d assms(2) by (intro RoundUp_least(3)) simp_all
  moreover have "RoundUp 45120 4096 \<le> 49152" by (simp add: RoundUp_def)
  moreover have "1024 * (capacity div 1024) \<le> capacity" by simp
  ultimately have "RoundUp 45120 4096 + RoundUp (capacity div 65536 * 64) 4096 + 2097152 \<le> capacity"
    using d assms(1) by simp
  then show ?thesis by (simp add: first_sb_offset_def geometry RoundUp_def)
qed

end
