(* ===== verification/Heap_Spec.thy ===== *)
theory Heap_Spec
  imports Prelude
begin

text \<open>
  What a program may rely on when it uses a heap: the contract of an allocator as a locale, the
  program as a run of calls that keeps to the rules (it frees and writes only what it holds), and
  what follows for every such run.
\<close>

type_synonym blocks = "nat \<Rightarrow> nat option"

definition cells :: "blocks \<Rightarrow> nat set" where
  "cells L = {x. \<exists>p n. L p = Some n \<and> p \<le> x \<and> x < p + n}"

lemma cells_iff: "x \<in> cells L \<longleftrightarrow> (\<exists>p n. L p = Some n \<and> p \<le> x \<and> x < p + n)"
  by (simp add: cells_def)

text \<open>
  The run of a program: the state of the heap, the blocks it holds with the sizes it asked for,
  and what it last stored where. A heap may be reopened at any time.
\<close>

inductive client ::
  "(nat \<Rightarrow> nat \<Rightarrow> 's \<Rightarrow> (nat \<times> 's) option) \<Rightarrow> (nat \<Rightarrow> nat \<Rightarrow> 's \<Rightarrow> 's option) \<Rightarrow> (nat \<Rightarrow> nat \<Rightarrow> 's \<Rightarrow> 's) \<Rightarrow> ('s \<Rightarrow> 's option) \<Rightarrow>
    's \<Rightarrow> 's \<Rightarrow> blocks \<Rightarrow> (nat \<Rightarrow> nat option) \<Rightarrow> bool" for malloc free store reopen s0 where
  start: "client malloc free store reopen s0 s0 Map.empty Map.empty"
| malloc: "client malloc free store reopen s0 s L C \<Longrightarrow> n < 2 ^ 63 \<Longrightarrow> malloc t n s = Some (p, s') \<Longrightarrow> p \<noteq> 0 \<Longrightarrow>
    client malloc free store reopen s0 s' (L(p \<mapsto> n)) C"
| malloc_fails: "client malloc free store reopen s0 s L C \<Longrightarrow> n < 2 ^ 63 \<Longrightarrow> malloc t n s = Some (0, s') \<Longrightarrow>
    client malloc free store reopen s0 s' L C"
| free: "client malloc free store reopen s0 s L C \<Longrightarrow> L p = Some n \<Longrightarrow> free t p s = Some s' \<Longrightarrow>
    client malloc free store reopen s0 s' (L(p := None)) (C |` cells (L(p := None)))"
| store: "client malloc free store reopen s0 s L C \<Longrightarrow> x \<in> cells L \<Longrightarrow>
    client malloc free store reopen s0 (store x v s) L (C(x \<mapsto> v))"
| reopen: "client malloc free store reopen s0 s L C \<Longrightarrow> reopen s = Some s' \<Longrightarrow> client malloc free store reopen s0 s' L C"

inductive_cases client_startE: "client malloc free store reopen s0 s0 L C"

text \<open>
  The contract. \<open>holds s U\<close> says that in the state \<open>s\<close> the program holds exactly the blocks
  \<open>U\<close>, given with their usable sizes, between the addresses \<open>lo\<close> and \<open>hi\<close>.
\<close>

locale heap_allocator =
  fixes malloc :: "nat \<Rightarrow> nat \<Rightarrow> 's \<Rightarrow> (nat \<times> 's) option"
    and free :: "nat \<Rightarrow> nat \<Rightarrow> 's \<Rightarrow> 's option"
    and store :: "nat \<Rightarrow> nat \<Rightarrow> 's \<Rightarrow> 's"
    and reopen :: "'s \<Rightarrow> 's option"
    and peek :: "'s \<Rightarrow> nat \<Rightarrow> nat"
    and holds :: "'s \<Rightarrow> blocks \<Rightarrow> bool"
    and lo hi :: nat
  assumes disjoint: "holds s U \<Longrightarrow> U p = Some u \<Longrightarrow> U q = Some w \<Longrightarrow> p \<le> x \<Longrightarrow> x < p + u \<Longrightarrow> q \<le> x \<Longrightarrow> x < q + w \<Longrightarrow> p = q"
    and bounds: "holds s U \<Longrightarrow> U p = Some u \<Longrightarrow> 0 < u \<and> lo \<le> p \<and> p + u \<le> hi \<and> 8 dvd p"
    and malloc_null: "holds s U \<Longrightarrow> n < 2 ^ 63 \<Longrightarrow> malloc t n s = Some (0, s') \<Longrightarrow> holds s' U \<and> (\<forall>x \<in> cells U. peek s' x = peek s x)"
    and malloc_block: "holds s U \<Longrightarrow> n < 2 ^ 63 \<Longrightarrow> malloc t n s = Some (p, s') \<Longrightarrow> p \<noteq> 0 \<Longrightarrow>
      U p = None \<and> (\<exists>u \<ge> n. holds s' (U(p \<mapsto> u))) \<and> (\<forall>x \<in> cells U. peek s' x = peek s x)"
    and free_block: "holds s U \<Longrightarrow> U p = Some u \<Longrightarrow>
      \<exists>s'. free t p s = Some s' \<and> holds s' (U(p := None)) \<and> (\<forall>x \<in> cells (U(p := None)). peek s' x = peek s x)"
    and store_cell: "holds s U \<Longrightarrow> x \<in> cells U \<Longrightarrow> holds (store x v s) U \<and> peek (store x v s) = (peek s)(x := v)"
    and reopen_keeps: "holds s U \<Longrightarrow> \<exists>s'. reopen s = Some s' \<and> holds s' U \<and> (\<forall>x \<in> cells U. peek s' x = peek s x)"
begin

text \<open>The blocks of the program, with the sizes it asked for, lie inside the usable ones.\<close>

definition within :: "blocks \<Rightarrow> blocks \<Rightarrow> bool" where
  "within L U \<longleftrightarrow> dom L = dom U \<and> (\<forall>p n u. L p = Some n \<longrightarrow> U p = Some u \<longrightarrow> n \<le> u)"

lemma within_block:
  assumes "within L U" and "L p = Some n"
  obtains u where "U p = Some u" "n \<le> u"
proof -
  have "p \<in> dom U" using assms by (auto simp: within_def)
  then obtain u where "U p = Some u" by blast
  then show ?thesis using that assms by (auto simp: within_def)
qed

lemma within_cells: "within L U \<Longrightarrow> cells L \<subseteq> cells U"
  unfolding within_def cells_def
  by (auto simp: dom_def set_eq_iff) (metis add_left_mono le_less_trans less_le_trans option.collapse option.discI)

lemma within_insert: "within L U \<Longrightarrow> n \<le> u \<Longrightarrow> within (L(p \<mapsto> n)) (U(p \<mapsto> u))"
  and within_remove: "within L U \<Longrightarrow> within (L(p := None)) (U(p := None))"
  by (auto simp: within_def)

definition tracks :: "'s \<Rightarrow> blocks \<Rightarrow> (nat \<Rightarrow> nat option) \<Rightarrow> bool" where
  "tracks s L C \<longleftrightarrow> (\<exists>U. holds s U \<and> within L U) \<and> dom C \<subseteq> cells L \<and> (\<forall>x v. C x = Some v \<longrightarrow> peek s x = v)"

text \<open>A step that keeps the contents of the cells that remain.\<close>

lemma tracksI:
  assumes "tracks s L C" and "holds s' U'" "within L' U'" and "C' \<subseteq>\<^sub>m C" "dom C' \<subseteq> cells L'"
    and "\<And>x. x \<in> cells L' \<Longrightarrow> x \<in> dom C' \<Longrightarrow> peek s' x = peek s x"
  shows "tracks s' L' C'"
proof -
  have "peek s' x = v" if c: "C' x = Some v" for x v
  proof -
    have "C x = Some v" using assms(4) c by (metis domI map_le_def)
    moreover have "peek s' x = peek s x" using assms(5,6) c by blast
    ultimately show ?thesis using assms(1) by (simp add: tracks_def)
  qed
  then show ?thesis using assms(2,3,5) unfolding tracks_def by blast
qed

lemma client_tracks:
  assumes "client malloc free store reopen s0 s L C" and "holds s0 Map.empty"
  shows "tracks s L C"
  using assms
proof (induction rule: client.induct)
  case start
  then show ?case by (auto simp: tracks_def within_def)
next
  case (malloc s L C n t p s')
  then have tr: "tracks s L C" by blast
  then obtain U where U: "holds s U" "within L U" by (auto simp: tracks_def)
  from malloc_block [OF U(1) malloc.hyps(2,3,4)] obtain u where u: "U p = None" "n \<le> u" "holds s' (U(p \<mapsto> u))"
    "\<forall>x \<in> cells U. peek s' x = peek s x" by blast
  have Lp: "L p = None" using u(1) U(2) by (auto simp: within_def)
  have sub: "cells L \<subseteq> cells (L(p \<mapsto> n))" unfolding cells_def using Lp by fastforce
  have d: "dom C \<subseteq> cells L" using tr by (simp add: tracks_def)
  show ?case
    by (rule tracksI [OF tr u(3) within_insert [OF U(2) u(2)] map_le_refl])
      (use d sub u(4) within_cells [OF U(2)] in blast)+
next
  case (malloc_fails s L C n t s')
  then have tr: "tracks s L C" by blast
  then obtain U where U: "holds s U" "within L U" by (auto simp: tracks_def)
  note m = malloc_null [OF U(1) malloc_fails.hyps(2,3)]
  show ?case
    by (rule tracksI [OF tr m [THEN conjunct1] U(2) map_le_refl])
      (use tr m within_cells [OF U(2)] in \<open>auto simp: tracks_def\<close>)
next
  case (free s L C p n t s')
  then have tr: "tracks s L C" by blast
  then obtain U where U: "holds s U" "within L U" by (auto simp: tracks_def)
  obtain u where u: "U p = Some u" by (rule within_block [OF U(2) free.hyps(2)])
  from free_block [OF U(1) u, of t] free.hyps(3) have f: "holds s' (U(p := None))" "\<forall>x \<in> cells (U(p := None)). peek s' x = peek s x" by auto
  note w = within_remove [OF U(2), of p]
  show ?case
    by (rule tracksI [OF tr f(1) w]) (use f(2) within_cells [OF w] in \<open>auto simp: map_le_def\<close>)
next
  case (store s L C x v)
  then have tr: "tracks s L C" by blast
  then obtain U where U: "holds s U" "within L U" by (auto simp: tracks_def)
  have "x \<in> cells U" using store.hyps(2) within_cells [OF U(2)] by blast
  note st = store_cell [OF U(1) this, of v]
  show ?case
    using tr st U(2) store.hyps(2) unfolding tracks_def by auto
next
  case (reopen s L C s')
  then have tr: "tracks s L C" by blast
  then obtain U where U: "holds s U" "within L U" by (auto simp: tracks_def)
  from reopen_keeps [OF U(1)] reopen.hyps(2) have r: "holds s' U" "\<forall>x \<in> cells U. peek s' x = peek s x" by auto
  show ?case
    by (rule tracksI [OF tr r(1) U(2) map_le_refl]) (use tr r(2) within_cells [OF U(2)] in \<open>auto simp: tracks_def\<close>)
qed

theorem client_safe:
  assumes "client malloc free store reopen s0 s L C" and "holds s0 Map.empty"
  shows "(\<forall>p q n m x. L p = Some n \<and> L q = Some m \<and> p \<le> x \<and> x < p + n \<and> q \<le> x \<and> x < q + m \<longrightarrow> p = q) \<and>
    (\<forall>p n. L p = Some n \<longrightarrow> lo \<le> p \<and> p + n \<le> hi \<and> 8 dvd p) \<and> (\<forall>x v. C x = Some v \<longrightarrow> x \<in> cells L \<and> peek s x = v)"
proof -
  have tr: "tracks s L C" by (rule client_tracks [OF assms])
  then obtain U where U: "holds s U" "within L U" by (auto simp: tracks_def)
  have use: "\<exists>u. U p = Some u \<and> n \<le> u" if "L p = Some n" for p n using within_block [OF U(2) that] by blast
  have "p = q" if h: "L p = Some n" "L q = Some m" "p \<le> x" "x < p + n" "q \<le> x" "x < q + m" for p q n m x
  proof -
    obtain u where u: "U p = Some u" "n \<le> u" using use [OF h(1)] by blast
    obtain w where w: "U q = Some w" "m \<le> w" using use [OF h(2)] by blast
    show ?thesis by (rule disjoint [OF U(1) u(1) w(1) h(3) _ h(5)]) (use h u(2) w(2) in simp_all)
  qed
  moreover have "lo \<le> p \<and> p + n \<le> hi \<and> 8 dvd p" if h: "L p = Some n" for p n
  proof -
    obtain u where u: "U p = Some u" "n \<le> u" using use [OF h] by blast
    then show ?thesis using bounds [OF U(1) u(1)] by simp
  qed
  moreover have "x \<in> cells L \<and> peek s x = v" if "C x = Some v" for x v using tr that by (auto simp: tracks_def)
  ultimately show ?thesis by blast
qed

theorem client_free_total:
  assumes "client malloc free store reopen s0 s L C" and "holds s0 Map.empty" and "L p = Some n"
  shows "\<exists>s'. free t p s = Some s'"
proof -
  obtain U where U: "holds s U" "within L U" using client_tracks [OF assms(1,2)] by (auto simp: tracks_def)
  obtain u where "U p = Some u" by (rule within_block [OF U(2) assms(3)])
  then show ?thesis using free_block [OF U(1)] by blast
qed

theorem client_reopen_total:
  assumes "client malloc free store reopen s0 s L C" and "holds s0 Map.empty"
  shows "\<exists>s'. reopen s = Some s'"
  using client_tracks [OF assms] reopen_keeps unfolding tracks_def by blast

end

end
