(* ===== verification/LrMalloc_Run.thy ===== *)
theory LrMalloc_Run
  imports LrMalloc_Calls Heap_Spec
begin

text \<open>The allocator fulfils the contract of a heap, and what that gives the programs that use a pool.\<close>

subsection \<open>The contract\<close>

text \<open>
  The program holds the blocks \<open>U\<close> when some accounting of the superblocks and blocks that is
  consistent with the memory says so; \<open>lo\<close> is the first superblock, \<open>hi\<close> the end of the pool.
\<close>

definition lr_holds :: "nat \<Rightarrow> nat \<Rightarrow> lralloc \<Rightarrow> blocks \<Rightarrow> bool" where
  "lr_holds lo hi a U \<longleftrightarrow> first_sb a = lo \<and> address_limit a = hi \<and> (\<exists>g. ainv a g \<and> live_size lo g = U)"

lemma cells_live: "cells (live_size f g) = live_cells f g"
  by (simp add: cells_def live_cells_def)

lemma holds_call:
  assumes "call_step a g a' g' U'" and "first_sb a = lo" "address_limit a = hi"
  shows "lr_holds lo hi a' U'" and "U' = live_size lo g \<Longrightarrow> \<forall>x \<in> cells U'. mem a' x = mem a x"
    and "(\<And>p u. U' p = Some u \<Longrightarrow> p \<noteq> q \<Longrightarrow> live_size lo g p = Some u) \<Longrightarrow> U' q = None \<Longrightarrow> \<forall>x \<in> cells U'. mem a' x = mem a x"
    and "U' = (live_size lo g)(q \<mapsto> w) \<Longrightarrow> live_size lo g q = None \<Longrightarrow> \<forall>x \<in> cells (live_size lo g). mem a' x = mem a x"
proof -
  have c: "ainv a' g'" "first_sb a' = lo" "address_limit a' = hi" "live_size lo g' = U'"
    "\<And>p u x. live_size lo g p = Some u \<Longrightarrow> U' p = Some u \<Longrightarrow> p \<le> x \<Longrightarrow> x < p + u \<Longrightarrow> mem a' x = mem a x"
    using assms by (auto simp: call_step_def)
  show "lr_holds lo hi a' U'" using c(1-4) by (auto simp: lr_holds_def)
  show "U' = live_size lo g \<Longrightarrow> \<forall>x \<in> cells U'. mem a' x = mem a x" using c(5) by (auto simp: cells_iff)
  show "\<forall>x \<in> cells U'. mem a' x = mem a x"
    if "\<And>p u. U' p = Some u \<Longrightarrow> p \<noteq> q \<Longrightarrow> live_size lo g p = Some u" "U' q = None"
  proof
    fix x assume "x \<in> cells U'"
    then obtain p u where p: "U' p = Some u" "p \<le> x" "x < p + u" by (auto simp: cells_iff)
    moreover have "p \<noteq> q" using p(1) that(2) by auto
    ultimately show "mem a' x = mem a x" using c(5) [OF that(1)] by blast
  qed
  show "\<forall>x \<in> cells (live_size lo g). mem a' x = mem a x" if "U' = (live_size lo g)(q \<mapsto> w)" "live_size lo g q = None"
  proof
    fix x assume "x \<in> cells (live_size lo g)"
    then obtain p u where p: "live_size lo g p = Some u" "p \<le> x" "x < p + u" by (auto simp: cells_iff)
    moreover from p(1) that have "U' p = Some u" by auto
    ultimately show "mem a' x = mem a x" using c(5) by blast
  qed
qed

lemma pmalloc_cases:
  assumes i: "ainv a g" and n: "n < 2 ^ 63" and m: "pmalloc t n a = Some (p, a')"
  shows "(p = 0 \<and> a' = a) \<or> (0 < p \<and> live_size (first_sb a) g p = None \<and>
    (\<exists>u \<ge> n. \<exists>g'. call_step a g a' g' ((live_size (first_sb a) g)(p \<mapsto> u))))"
proof (cases "n \<le> kMaxSize")
  case True
  obtain p1 u a1 g1 where 1: "pmalloc t n a = Some (p1, a1)" "0 < p1" "n \<le> u" "live_size (first_sb a) g p1 = None"
    "call_step a g a1 g1 ((live_size (first_sb a) g)(p1 \<mapsto> u))"
    by (rule pmalloc_small_ok [OF i _ True, where t = t]) (use m in simp_all)
  then show ?thesis using m by auto
next
  case False
  then have "pmalloc_large n a = (p, a')" "0 < n" using m by (simp_all add: pmalloc_def)
  with pmalloc_large_ok [OF i _ n] show ?thesis by auto
qed

lemma open_snapshot: "open_allocator base capacity (Some a) ds m = Some (a\<lparr>caches := (\<lambda>_ _. empty_bin)\<rparr>)"
  by (simp add: open_allocator_def)

interpretation lr: heap_allocator pmalloc pfree poke "\<lambda>a. open_allocator base capacity (Some a) ds m" mem "lr_holds lo hi" lo hi
  for base capacity ds m lo hi
proof unfold_locales
  fix s U p u q w x
  assume h: "lr_holds lo hi s U" "U p = Some u" "U q = Some w" "p \<le> x" "x < p + u" "q \<le> x" "x < q + w"
  then obtain g where "ainv s g" "live_size (first_sb s) g = U" by (auto simp: lr_holds_def)
  with h show "p = q" by (metis live_disjoint)
next
  fix s U p u assume h: "lr_holds lo hi s U" "U p = Some u"
  then obtain g where g: "ainv s g" "live_size (first_sb s) g = U" "first_sb s = lo" "address_limit s = hi" by (auto simp: lr_holds_def)
  have p: "live_size (first_sb s) g p = Some u" using g(2) h(2) by simp
  have "bulk_tail s \<le> hi" using ainvD(1) [OF g(1)] g(4) by (simp add: base_ok_def)
  then show "0 < u \<and> lo \<le> p \<and> p + u \<le> hi \<and> 8 dvd p" using live_bounds [OF g(1) p] g(3) by simp
next
  fix s U n t s' assume h: "lr_holds lo hi s U" "n < 2 ^ 63" "pmalloc t n s = Some (0, s')"
  then obtain g where g: "ainv s g" by (auto simp: lr_holds_def)
  have "s' = s" using pmalloc_cases [OF g h(2,3)] by simp
  with h show "lr_holds lo hi s' U \<and> (\<forall>x \<in> cells U. mem s' x = mem s x)" by simp
next
  fix s U n t p s' assume h: "lr_holds lo hi s U" "n < 2 ^ 63" "pmalloc t n s = Some (p, s')" "p \<noteq> 0"
  then obtain g where g: "ainv s g" "live_size lo g = U" "first_sb s = lo" "address_limit s = hi" by (auto simp: lr_holds_def)
  from pmalloc_cases [OF g(1) h(2,3)] h(4) g(2,3) obtain u g' where u: "U p = None" "n \<le> u" "call_step s g s' g' ((live_size lo g)(p \<mapsto> u))"
    by auto
  have "\<forall>x \<in> cells U. mem s' x = mem s x" using holds_call(4) [OF u(3) g(3,4) refl] u(1) g(2) by simp
  then show "U p = None \<and> (\<exists>u \<ge> n. lr_holds lo hi s' (U(p \<mapsto> u))) \<and> (\<forall>x \<in> cells U. mem s' x = mem s x)"
    using u holds_call(1) [OF u(3) g(3,4)] g(2) by blast
next
  fix s U p u t assume h: "lr_holds lo hi s U" "U p = Some u"
  then obtain g where g: "ainv s g" "live_size lo g = U" "first_sb s = lo" "address_limit s = hi" by (auto simp: lr_holds_def)
  have p: "live_size (first_sb s) g p = Some u" using g h(2) by simp
  obtain s' g' where f: "pfree t p s = Some s'" "call_step s g s' g' ((live_size (first_sb s) g)(p := None))"
    by (rule pfree_ok [OF g(1) p])
  have f2: "call_step s g s' g' (U(p := None))" using f(2) g(2,3) by simp
  have "\<forall>x \<in> cells (U(p := None)). mem s' x = mem s x"
    by (rule holds_call(3) [OF f2 g(3,4), of p]) (auto simp: g(2) split: if_splits)
  then show "\<exists>s'. pfree t p s = Some s' \<and> lr_holds lo hi s' (U(p := None)) \<and> (\<forall>x \<in> cells (U(p := None)). mem s' x = mem s x)"
    using f(1) holds_call(1) [OF f2 g(3,4)] by blast
next
  fix s U x v assume h: "lr_holds lo hi s U" "x \<in> cells U"
  then obtain g where g: "ainv s g" "live_size lo g = U" "first_sb s = lo" "address_limit s = hi" by (auto simp: lr_holds_def)
  have "ainv (poke x v s) g" by (rule poke_ok [OF g(1)]) (use h(2) g(2,3) in \<open>simp add: cells_live [symmetric]\<close>)
  with g show "lr_holds lo hi (poke x v s) U \<and> mem (poke x v s) = (mem s)(x := v)" by (auto simp: lr_holds_def poke_def)
next
  fix s U assume h: "lr_holds lo hi s U"
  then obtain g where g: "ainv s g" "live_size lo g = U" "first_sb s = lo" "address_limit s = hi" by (auto simp: lr_holds_def)
  have "lr_holds lo hi (s\<lparr>caches := (\<lambda>_ _. empty_bin)\<rparr>) U"
    using holds_call(1) [OF reopen_ok [OF g(1)] g(3,4)] g(2,3) by simp
  then show "\<exists>s'. open_allocator base capacity (Some s) ds m = Some s' \<and> lr_holds lo hi s' U \<and> (\<forall>x \<in> cells U. mem s' x = mem s x)"
    by (simp add: open_snapshot)
qed

subsection \<open>Programs on a pool\<close>

text \<open>A program that opened a new pool of \<open>capacity\<close> bytes at \<open>base\<close>.\<close>

definition pool_ok :: "nat \<Rightarrow> nat \<Rightarrow> bool" where
  "pool_ok base capacity \<longleftrightarrow> 0 < base \<and> kPageSize dvd base \<and> kMinContainerSize \<le> capacity \<and> base + capacity < 2 ^ 48"

definition program :: "nat \<Rightarrow> nat \<Rightarrow> (nat \<Rightarrow> descriptor) \<Rightarrow> (nat \<Rightarrow> nat) \<Rightarrow> lralloc \<Rightarrow> blocks \<Rightarrow> (nat \<Rightarrow> nat option) \<Rightarrow> bool" where
  "program base capacity ds m a L C \<longleftrightarrow> (\<exists>a0. open_allocator base capacity None ds m = Some a0 \<and>
     client pmalloc pfree poke (\<lambda>a. open_allocator base capacity (Some a) ds m) a0 a L C)"

lemma pool_room: "pool_ok base capacity \<Longrightarrow> first_sb_offset capacity + kMinAllocateSuperBlockSize \<le> capacity"
  by (rule setup_room) (simp_all add: pool_ok_def kMinContainerSize_def)

lemma new_pool:
  assumes "pool_ok base capacity"
  obtains a where "open_allocator base capacity None ds m = Some a" "lr_holds (base + first_sb_offset capacity) (base + capacity) a Map.empty"
    "has_room a" "mem a = m"
proof -
  obtain a g where a: "setup_metadata base capacity ds m = Some a" "ainv a g" "live_size (first_sb a) g = Map.empty"
    "first_sb a = base + first_sb_offset capacity" "address_limit a = base + capacity" "has_room a" "mem a = m"
    by (rule setup_metadata_ok [OF _ _ _ pool_room [OF assms], of base ds m]) (use assms in \<open>simp_all add: pool_ok_def\<close>)
  show ?thesis by (rule that [of a]) (use a in \<open>auto simp: open_allocator_def lr_holds_def\<close>)
qed

lemma programD:
  assumes "pool_ok base capacity" and "program base capacity ds m a L C"
  obtains a0 where "client pmalloc pfree poke (\<lambda>a. open_allocator base capacity (Some a) ds m) a0 a L C"
    "lr_holds (base + first_sb_offset capacity) (base + capacity) a0 Map.empty"
proof -
  obtain a1 where 1: "open_allocator base capacity None ds m = Some a1" "lr_holds (base + first_sb_offset capacity) (base + capacity) a1 Map.empty"
    by (rule new_pool [OF assms(1)])
  from assms(2) 1(1) have "client pmalloc pfree poke (\<lambda>a. open_allocator base capacity (Some a) ds m) a1 a L C"
    by (simp add: program_def)
  then show ?thesis using that 1(2) by blast
qed

lemma program_ainv:
  assumes "pool_ok base capacity" and "program base capacity ds m a L C"
  obtains g where "ainv a g" "first_sb a = base + first_sb_offset capacity" "address_limit a = base + capacity"
proof -
  obtain a0 where a0: "client pmalloc pfree poke (\<lambda>a. open_allocator base capacity (Some a) ds m) a0 a L C"
    "lr_holds (base + first_sb_offset capacity) (base + capacity) a0 Map.empty" by (rule programD [OF assms])
  from lr.client_tracks [OF a0] show ?thesis using that by (auto simp: lr.tracks_def lr_holds_def)
qed

lemma program_block:
  assumes "pool_ok base capacity" and "program base capacity ds m a L C" and "L p = Some n"
  shows "first_sb a \<le> p" and "p < bulk_tail a"
proof -
  obtain a0 where a0: "client pmalloc pfree poke (\<lambda>a. open_allocator base capacity (Some a) ds m) a0 a L C"
    "lr_holds (base + first_sb_offset capacity) (base + capacity) a0 Map.empty" by (rule programD [OF assms(1,2)])
  from lr.client_tracks [OF a0] obtain U where U: "lr_holds (base + first_sb_offset capacity) (base + capacity) a U" "lr.within L U"
    by (auto simp: lr.tracks_def)
  obtain u where u: "U p = Some u" by (rule lr.within_block [OF U(2) assms(3)])
  obtain g where g: "ainv a g" "live_size (first_sb a) g p = Some u" using U(1) u by (auto simp: lr_holds_def)
  show "first_sb a \<le> p" "p < bulk_tail a" using live_bounds(1,2,4) [OF g] by simp_all
qed

lemma program_start: "open_allocator base capacity None ds m = Some a \<Longrightarrow> program base capacity ds m a Map.empty Map.empty"
  unfolding program_def using client.start [of pmalloc pfree poke "\<lambda>a. open_allocator base capacity (Some a) ds m" a] by blast

lemma program_malloc:
  assumes "program base capacity ds m a L C" and "n < 2 ^ 63" "pmalloc t n a = Some (p, a')" "p \<noteq> 0"
  shows "program base capacity ds m a' (L(p \<mapsto> n)) C"
  using assms(1) client.malloc [where malloc = pmalloc and free = pfree and store = poke and t = t and n = n and s = a and p = p and s' = a']
    assms(2-4) unfolding program_def by blast

lemma program_store:
  assumes "program base capacity ds m a L C" and "x \<in> cells L"
  shows "program base capacity ds m (poke x v a) L (C(x \<mapsto> v))"
  using assms(1) client.store [where malloc = pmalloc and free = pfree and store = poke and s = a and x = x and v = v] assms(2)
  unfolding program_def by blast

lemma program_reopen:
  assumes "program base capacity ds m a L C" and "open_allocator base capacity (Some a) ds m = Some a'"
  shows "program base capacity ds m a' L C"
  using assms(1) client.reopen [where malloc = pmalloc and free = pfree and store = poke and s = a and s' = a'
      and reopen = "\<lambda>a. open_allocator base capacity (Some a) ds m"] assms(2)
  unfolding program_def by blast

text \<open>A concrete program: it asks for a block and stores into its first cell.\<close>

lemma example_program:
  obtains a p where "program 4096 (2 ^ 24) (\<lambda>_. Descriptor) (\<lambda>_. 0) a [p \<mapsto> 100] [p \<mapsto> 7]"
proof -
  have ok: "pool_ok 4096 (2 ^ 24)" by (simp add: pool_ok_def geometry)
  obtain a0 where a0: "open_allocator 4096 (2 ^ 24) None (\<lambda>_. Descriptor) (\<lambda>_. 0) = Some a0"
    "lr_holds (4096 + first_sb_offset (2 ^ 24)) (4096 + 2 ^ 24) a0 Map.empty" "has_room a0" by (rule new_pool [OF ok])
  then obtain g where g: "ainv a0 g" by (auto simp: lr_holds_def)
  obtain p u a1 g1 where 1: "pmalloc 0 100 a0 = Some (p, a1)" "0 < p"
    by (rule pmalloc_small_ok [OF g, where t = 0 and sz = 100]) (use a0(3) in \<open>simp_all add: kMaxSize_def\<close>)
  have "program 4096 (2 ^ 24) (\<lambda>_. Descriptor) (\<lambda>_. 0) a1 (Map.empty(p \<mapsto> 100)) Map.empty"
    by (rule program_malloc [OF program_start [OF a0(1)] _ 1(1)]) (use 1(2) in simp_all)
  then have "program 4096 (2 ^ 24) (\<lambda>_. Descriptor) (\<lambda>_. 0) (poke p 7 a1) (Map.empty(p \<mapsto> 100)) (Map.empty(p \<mapsto> 7))"
    by (rule program_store) (simp add: cells_iff)
  then show ?thesis by (rule that)
qed

text \<open>
  C12. Whatever a program does with a new pool, closing and reopening it included: the blocks it
  holds never overlap, they lie behind the metadata and inside the pool, are aligned to 8 bytes, and
  every cell of them holds what the program last stored there.
\<close>

theorem lrmalloc_safe:
  assumes "pool_ok base capacity" and "program base capacity ds m a L C"
  shows "(\<forall>p q n k x. L p = Some n \<and> L q = Some k \<and> p \<le> x \<and> x < p + n \<and> q \<le> x \<and> x < q + k \<longrightarrow> p = q) \<and>
    (\<forall>p n. L p = Some n \<longrightarrow> base + first_sb_offset capacity \<le> p \<and> p + n \<le> base + capacity \<and> 8 dvd p) \<and>
    (\<forall>x v. C x = Some v \<longrightarrow> x \<in> cells L \<and> mem a x = v)"
proof -
  obtain a0 where a0: "client pmalloc pfree poke (\<lambda>a. open_allocator base capacity (Some a) ds m) a0 a L C"
    "lr_holds (base + first_sb_offset capacity) (base + capacity) a0 Map.empty" by (rule programD [OF assms])
  show ?thesis by (rule lr.client_safe [OF a0])
qed

theorem lrmalloc_safe_witness:
  "\<exists>a p. program 4096 (2 ^ 24) (\<lambda>_. Descriptor) (\<lambda>_. 0) a [p \<mapsto> 100] [p \<mapsto> 7] \<and> mem a p = 7 \<and> p + 100 \<le> 4096 + 2 ^ 24"
proof -
  have ok: "pool_ok 4096 (2 ^ 24)" by (simp add: pool_ok_def geometry)
  obtain a p where p: "program 4096 (2 ^ 24) (\<lambda>_. Descriptor) (\<lambda>_. 0) a [p \<mapsto> 100] [p \<mapsto> 7]" by (rule example_program)
  have "p + 100 \<le> 4096 + 2 ^ 24" using lrmalloc_safe [OF ok p, THEN conjunct2, THEN conjunct1, rule_format, of p 100] by simp
  moreover have "mem a p = 7" using lrmalloc_safe [OF ok p, THEN conjunct2, THEN conjunct2, rule_format, of p 7] by simp
  ultimately show ?thesis using p by blast
qed

text \<open>
  C13. No call of a program that keeps to the rules stops it while there is room: a small request
  returns a block of at least its size when a superblock is free or fresh memory is left, a large
  request returns a block or null, freeing a held block and reopening the pool always return.
\<close>

theorem lrmalloc_progress:
  assumes "pool_ok base capacity" and "program base capacity ds m a L C"
  shows "(sz \<le> kMaxSize \<and> has_room a \<longrightarrow> (\<exists>p a'. pmalloc t sz a = Some (p, a') \<and> 0 < p \<and> program base capacity ds m a' (L(p \<mapsto> sz)) C)) \<and>
    (kMaxSize < sz \<and> sz < 2 ^ 63 \<longrightarrow> (\<exists>r. pmalloc t sz a = Some r)) \<and>
    (\<forall>p. L p \<noteq> None \<longrightarrow> (\<exists>a'. pfree t p a = Some a')) \<and> pfree t 0 a = Some a \<and>
    (\<exists>a'. open_allocator base capacity (Some a) ds m = Some a' \<and> program base capacity ds m a' L C)"
proof (intro conjI allI impI)
  obtain a0 where a0: "client pmalloc pfree poke (\<lambda>a. open_allocator base capacity (Some a) ds m) a0 a L C"
    "lr_holds (base + first_sb_offset capacity) (base + capacity) a0 Map.empty" by (rule programD [OF assms])
  obtain g where g: "ainv a g" by (rule program_ainv [OF assms])
  {
    assume s: "sz \<le> kMaxSize \<and> has_room a"
    obtain p u a' g' where p: "pmalloc t sz a = Some (p, a')" "0 < p"
      by (rule pmalloc_small_ok [OF g, where t = t and sz = sz]) (use s in simp_all)
    have "sz < 2 ^ 63" using s by (simp add: kMaxSize_def)
    then have "program base capacity ds m a' (L(p \<mapsto> sz)) C" using program_malloc [OF assms(2) _ p(1)] p(2) by simp
    with p show "\<exists>p a'. pmalloc t sz a = Some (p, a') \<and> 0 < p \<and> program base capacity ds m a' (L(p \<mapsto> sz)) C" by blast
  }
  show "\<exists>r. pmalloc t sz a = Some r" if "kMaxSize < sz \<and> sz < 2 ^ 63" using that by (simp add: pmalloc_def)
  show "\<exists>a'. pfree t p a = Some a'" if "L p \<noteq> None" for p using lr.client_free_total [OF a0] that by blast
  show "pfree t 0 a = Some a" by (simp add: pfree_def)
  obtain a' where "open_allocator base capacity (Some a) ds m = Some a'" using lr.client_reopen_total [OF a0] by blast
  then show "\<exists>a'. open_allocator base capacity (Some a) ds m = Some a' \<and> program base capacity ds m a' L C"
    using program_reopen [OF assms(2)] by blast
qed

theorem lrmalloc_progress_witness:
  "\<exists>a p. program 4096 (2 ^ 24) (\<lambda>_. Descriptor) (\<lambda>_. 0) a [p \<mapsto> 100] [p \<mapsto> 7] \<and> (\<exists>a'. pfree 0 p a = Some a')"
proof -
  have ok: "pool_ok 4096 (2 ^ 24)" by (simp add: pool_ok_def geometry)
  obtain a p where p: "program 4096 (2 ^ 24) (\<lambda>_. Descriptor) (\<lambda>_. 0) a [p \<mapsto> 100] [p \<mapsto> 7]" by (rule example_program)
  have "\<exists>a'. pfree 0 p a = Some a'" using lrmalloc_progress [OF ok p, of 0 0] by simp
  with p show ?thesis by blast
qed

text \<open>
  C33. The retry loops of the allocator end: \<^verbatim>\<open>flush_cache\<close> returns with an empty cache,
  and \<^verbatim>\<open>malloc_from_partial\<close>, called with one, returns how many blocks it took.
\<close>

theorem lrmalloc_loops_end:
  assumes "pool_ok base capacity" and "program base capacity ds m a L C" and "1 \<le> sc" "sc < kMaxSizeClasses"
  shows "(\<exists>a'. flush_cache t sc a = Some a' \<and> bin_num (caches a' t sc) = 0) \<and>
    (bin_num (caches a t sc) = 0 \<longrightarrow> (\<exists>n a'. malloc_from_partial t sc a = Some (n, a') \<and> n \<le> block_num (get_entry sc) \<and>
      bin_num (caches a' t sc) = n))"
proof -
  obtain g where g: "ainv a g" by (rule program_ainv [OF assms(1,2)])
  have sc: "sc < 40" using assms(4) by (simp add: kMaxSizeClasses_def)
  have "\<exists>n a'. malloc_from_partial t sc a = Some (n, a') \<and> n \<le> bnum sc \<and> bin_num (caches a' t sc) = n" if "bin_num (caches a t sc) = 0"
  proof -
    have "cblk g t sc = []" using bin_facts(3) [OF g, of t sc] that by simp
    from malloc_from_partial_ok [OF g assms(3) sc this] obtain n a' g' where
      n: "malloc_from_partial t sc a = Some (n, a')" "ainv a' g'" "length (cblk g' t sc) = n" "n \<le> bnum sc"
      by (auto simp: quiet_step_def)
    then show ?thesis using bin_facts(3) [OF n(2), of t sc] by auto
  qed
  then show ?thesis using flush_cache_ok [OF g, of t sc] by blast
qed

theorem lrmalloc_loops_end_witness:
  "\<exists>a p. program 4096 (2 ^ 24) (\<lambda>_. Descriptor) (\<lambda>_. 0) a [p \<mapsto> 100] [p \<mapsto> 7] \<and> (\<exists>a'. flush_cache 0 1 a = Some a')"
proof -
  have ok: "pool_ok 4096 (2 ^ 24)" by (simp add: pool_ok_def geometry)
  obtain a p where p: "program 4096 (2 ^ 24) (\<lambda>_. Descriptor) (\<lambda>_. 0) a [p \<mapsto> 100] [p \<mapsto> 7]" by (rule example_program)
  have "\<exists>a'. flush_cache 0 1 a = Some a'" using lrmalloc_loops_end [OF ok p, of 1 0] by (auto simp: kMaxSizeClasses_def)
  with p show ?thesis by blast
qed

text \<open>
  C34. A small request does not return when its cache is empty, its class has no partial superblock,
  no superblock is free and less than 2 MiB of fresh memory is left: \<^verbatim>\<open>alloc_small_sb\<close>
  asserts that memory is left and, compiled without assertions, retries for ever.
\<close>

theorem lrmalloc_exhausted:
  assumes "lr_holds lo hi a U" and "sz \<le> kMaxSize" and "bin_num (caches a t (size_class_lookup sz)) = 0"
    and "fst (partial_list a (size_class_lookup sz)) = None" and "fst (avail_sb a) = None"
    and "address_limit a < bulk_tail a + kMinAllocateSuperBlockSize"
  shows "pmalloc t sz a = None"
proof -
  obtain g where g: "ainv a g" using assms(1) by (auto simp: lr_holds_def)
  define sc where "sc = size_class_lookup sz"
  note l = lookup_ok [OF assms(2), folded sc_def]
  have "\<not> has_room a" using assms(5,6) by (simp add: has_room_def)
  then have "alloc_small_sb kSuperBlockSize a = None" by (rule alloc_small_sb_None [OF g])
  moreover have "sb_size (get_entry sc) = kSuperBlockSize" using entry_facts(1) [of sc] l(1,2) by (simp add: kMaxSizeClasses_def)
  ultimately have "malloc_from_new_sb t sc a = None" by (simp add: malloc_from_new_sb_def)
  moreover have "malloc_from_partial t sc a = Some (0, a)"
  proof -
    obtain s where "partial_list a sc = (None, s)" using assms(4) by (cases "partial_list a sc") (auto simp: sc_def)
    then show ?thesis by (subst malloc_from_partial.simps) (simp add: heap_pop_partial_eq(2))
  qed
  ultimately have "fill_cache t sc a = None" by (simp add: fill_cache_def)
  then show ?thesis using assms(2,3) by (simp add: pmalloc_def sc_def [symmetric] Let_def)
qed

text \<open>A pool whose first superblock lies at its end.\<close>

definition full_pool :: lralloc where
  "full_pool = \<lparr>magic = kMetadataHeaderMagic, avail_sb = (None, 0), descs = (\<lambda>_. Descriptor), first_sb = 65536, bulk_tail = 65536,
     partial_list = (\<lambda>_. (None, 0)), roots = (\<lambda>_. 0), mem = (\<lambda>_. 0), address_limit = 65536, caches = (\<lambda>_ _. empty_bin)\<rparr>"

lemma full_pool_holds: "lr_holds 65536 65536 full_pool Map.empty"
proof -
  have "ainv full_pool g_new"
    by (auto simp: ainv_def base_ok_def spaces_ok_def frees_ok_def parts_ok_def smalls_ok_def larges_ok_def bins_ok_def
        own_ok_def full_pool_def g_new_def empty_bin_def geometry)
  moreover have "live_size 65536 g_new = Map.empty" by (simp add: live_size_def g_new_def fun_eq_iff)
  ultimately show ?thesis by (auto simp: lr_holds_def full_pool_def)
qed

theorem lrmalloc_exhausted_witness: "pmalloc 0 100 full_pool = None"
  by (rule lrmalloc_exhausted [OF full_pool_holds]) (simp_all add: full_pool_def empty_bin_def geometry)

text \<open>
  C35. A huge request wraps the address of the end of fresh memory around: instead of null, the
  allocator returns the old end and moves it backwards, over superblocks that are in use.
\<close>

theorem lrmalloc_overflow:
  assumes "pool_ok base capacity" and "program base capacity ds m a L C" and "sz = n * kSuperBlockSize" and "sz < 2 ^ 64"
    and "2 ^ 64 \<le> bulk_tail a + sz"
  shows "\<exists>a'. pmalloc t sz a = Some (bulk_tail a, a') \<and> bulk_tail a' = bulk_tail a + sz - 2 ^ 64 \<and> bulk_tail a' < bulk_tail a"
proof -
  obtain g where g: "ainv a g" by (rule program_ainv [OF assms(1,2)])
  have b: "kPageSize dvd first_sb a" "bulk_tail a = first_sb a + nsb g * 65536" "bulk_tail a \<le> address_limit a" "address_limit a < 2 ^ 48"
    "0 < first_sb a" using ainvD(1) [OF g] by (simp_all add: base_ok_def)
  have sz: "sz = n * 65536" using assms(3) by (simp add: geometry)
  have big: "2 ^ 64 - 2 ^ 48 < sz" using assms(5) b(3,4) by simp
  have "kPageSize dvd nsb g * 65536" by (intro dvd_mult) (simp add: geometry)
  then have al: "bulk_tail a mod kPageSize = 0" using b(1,2) by simp
  have md: "(bulk_tail a + sz) mod 2 ^ 64 = bulk_tail a + sz - 2 ^ 64"
    using assms(4,5) b(3,4) by (simp add: mod_nat_eqI)
  have le: "bulk_tail a + sz - 2 ^ 64 \<le> address_limit a" using assms(4) b(3) by simp
  define a1 where "a1 = a\<lparr>bulk_tail := bulk_tail a + sz - 2 ^ 64\<rparr>"
  have bulk: "bulk_allocate kPageSize sz a = Inr (bulk_tail a, a1)"
    using is_power_of_two_page al md le by (simp add: bulk_allocate_def Let_def kPageSize_def a1_def)
  have no_run: "run_ok (n - 1) d a = None" if "fst (avail_sb a) = Some d" for d
  proof (rule ccontr)
    assume "run_ok (n - 1) d a \<noteq> None"
    then obtain e where e: "run_ok (n - 1) d a = Some e" by blast
    have "chain (\<lambda>d. next_free (descs a d)) (Some d) (frees g)" using ainvD(3) [OF g] that by (simp add: frees_ok_def)
    from run_ok_chain [OF this e] obtain rest where "frees g = [d..<d + Suc (n - 1)] @ rest" by blast
    then have "d + (n - 1) \<in> set (frees g)" by simp
    then have "d + (n - 1) < nsb g" using ainvD(2,3) [OF g] by (auto simp: frees_ok_def spaces_ok_def)
    then have "n * 65536 \<le> nsb g * 65536" by (intro mult_le_mono1) simp
    then show False using b(2-4) big sz by simp
  qed
  have "alloc_large_sb sz a = (bulk_tail a, a1)"
  proof (cases "avail_sb a")
    case (Pair h s)
    have sd: "sz div kSuperBlockSize - 1 = n - 1" using sz by (simp add: geometry)
    show ?thesis using no_run bulk Pair sd by (cases h) (simp_all add: alloc_large_sb_def alloc_large_fresh_def)
  qed
  moreover have "RoundUp sz kSuperBlockSize = sz" using sz by (simp add: RoundUp_def geometry)
  ultimately have p: "pmalloc_large sz a = (bulk_tail a, set_desc (lookup_desc a1 (bulk_tail a))
      (\<lambda>d. (init_descriptor 0 sz 1 (bulk_tail a) d)\<lparr>anchor := \<lparr>avail = 0, count = 0, state = SB_FULL\<rparr>\<rparr>) a1)"
    using b(2,5) by (simp add: pmalloc_large_def)
  moreover have "kMaxSize < sz" using big by (simp add: kMaxSize_def)
  ultimately show ?thesis using assms(4,5) by (simp add: pmalloc_def a1_def)
qed

theorem lrmalloc_overflow_witness:
  "\<exists>a a'. program 65536 (2 ^ 24) (\<lambda>_. Descriptor) (\<lambda>_. 0) a Map.empty Map.empty \<and>
     pmalloc 0 (2 ^ 64 - 65536) a = Some (bulk_tail a, a') \<and> bulk_tail a' < bulk_tail a"
proof -
  have ok: "pool_ok 65536 (2 ^ 24)" by (simp add: pool_ok_def geometry)
  obtain a where a: "open_allocator 65536 (2 ^ 24) None (\<lambda>_. Descriptor) (\<lambda>_. 0) = Some a" by (rule new_pool [OF ok])
  note p = program_start [OF a]
  obtain g where "ainv a g" "first_sb a = 65536 + first_sb_offset (2 ^ 24)" by (rule program_ainv [OF ok p])
  then have "65536 \<le> bulk_tail a" using ainvD(1) [of a g] by (simp add: base_ok_def)
  then have "\<exists>a'. pmalloc 0 (2 ^ 64 - 65536) a = Some (bulk_tail a, a') \<and> bulk_tail a' = bulk_tail a + (2 ^ 64 - 65536) - 2 ^ 64 \<and>
      bulk_tail a' < bulk_tail a"
    by (intro lrmalloc_overflow [OF ok p, where n = "2 ^ 48 - 1"]) (simp_all add: geometry)
  with p show ?thesis by blast
qed

text \<open>
  Every superblock that was ever handed out has its descriptor between the metadata and the
  first superblock, and its memory inside the pool.
\<close>

theorem lrmalloc_descriptors_fit:
  assumes "pool_ok base capacity" and "program base capacity ds m a L C" and "d = lookup_desc a x" and "first_sb a \<le> x" "x < bulk_tail a"
  shows "base + RoundUp sizeof_Metadata kPageSize + (d + 1) * kDescriptorSize \<le> first_sb a \<and>
    lookup_sb a d \<le> x \<and> lookup_sb a d + kSuperBlockSize \<le> base + capacity"
proof -
  obtain g where g: "ainv a g" "first_sb a = base + first_sb_offset capacity" "address_limit a = base + capacity"
    by (rule program_ainv [OF assms(1,2)])
  have b: "bulk_tail a = first_sb a + nsb g * 65536" "bulk_tail a \<le> base + capacity" "capacity < 2 ^ 48"
    using ainvD(1) [OF g(1)] g(3) by (simp_all add: base_ok_def)
  have d: "d = (x - first_sb a) div 65536" using assms(3) by (simp add: lookup_desc_def geometry)
  have dn: "d < nsb g" unfolding d using assms(4,5) b(1) by (simp add: div_less_iff_less_mult)
  have le: "(d + 1) * 65536 \<le> nsb g * 65536" using dn by (intro mult_le_mono1) simp
  have "nsb g * 65536 \<le> capacity" using b(1,2) g(2) by simp
  then have n: "nsb g \<le> capacity div 65536" by (simp add: less_eq_div_iff_mult_less_eq)
  have "(d + 1) * 64 \<le> capacity div 65536 * 64" using dn n by (intro mult_le_mono1) simp
  also have "\<dots> \<le> RoundUp (capacity div 65536 * 64) 4096"
  proof (rule RoundUp_least(2))
    have "capacity div 65536 * 64 \<le> capacity" using div_times_less_eq_dividend [of capacity 65536] by simp
    then show "capacity div 65536 * 64 + 4096 \<le> 2 ^ 64" using b(3) by simp
  qed simp
  finally have "base + RoundUp sizeof_Metadata kPageSize + (d + 1) * kDescriptorSize \<le> first_sb a"
    by (simp add: g(2) first_sb_offset_def geometry)
  moreover have "lookup_sb a d \<le> x"
    using div_times_less_eq_dividend [of "x - first_sb a" 65536] assms(4) by (simp add: lookup_sb_eq d)
  moreover have "lookup_sb a d + kSuperBlockSize \<le> base + capacity" using le b(1,2) by (simp add: lookup_sb_eq geometry)
  ultimately show ?thesis by blast
qed

theorem lrmalloc_descriptors_fit_witness:
  "\<exists>a p. program 4096 (2 ^ 24) (\<lambda>_. Descriptor) (\<lambda>_. 0) a [p \<mapsto> 100] [p \<mapsto> 7] \<and> lookup_sb a (lookup_desc a p) \<le> p"
proof -
  have ok: "pool_ok 4096 (2 ^ 24)" by (simp add: pool_ok_def geometry)
  obtain a p where p: "program 4096 (2 ^ 24) (\<lambda>_. Descriptor) (\<lambda>_. 0) a [p \<mapsto> 100] [p \<mapsto> 7]" by (rule example_program)
  have "first_sb a \<le> p" "p < bulk_tail a" using program_block [OF ok p, of p 100] by simp_all
  from lrmalloc_descriptors_fit [OF ok p refl this] p show ?thesis by blast
qed

end
