(* ===== verification/Metadata.thy ===== *)
theory Metadata
  imports Common Crc Pptr
begin

text \<open>
  \<^verbatim>\<open>metadata.h\<close> and \<^verbatim>\<open>metadata.cpp\<close>: the header of a pool that keeps its
  data twice, as main data the program works on and as back data, and says which of the two is
  consistent. The engines of \<open>DirtyBit\<close> and \<open>MProtect\<close> build on it. The second half of the
  theory is what a checkpoint and a recovery of such a pool guarantee, whatever tells the engine
  which parts were written.
\<close>

definition kMainData :: nat where "kMainData = 0x1"
definition kBackData :: nat where "kBackData = 0x2"

lemmas metadata_constants [geometry] = kMainData_def kBackData_def

text \<open>
  The header with its fields, then the two copies of the data. The stored pointers to the data are
  position-independent; the model holds what they point to as a distance from the header.
\<close>

datatype vloc =
    VMagic | VChecksum | VAttr | VConsistent | VCapacity | VMainData | VBackData
  | Main nat | Back nat

type_synonym vmem = "(vloc, nat) nvm"

fun in_header :: "vloc \<Rightarrow> bool" where
  "in_header (Main _) = False" | "in_header (Back _) = False" | "in_header _ = True"

definition set_consistent_data :: "nat \<Rightarrow> vmem \<Rightarrow> vmem" where
  "set_consistent_data consistent m = nv_fence (nv_nt [VConsistent \<mapsto> consistent] m)"

definition set_attributes :: "nat \<Rightarrow> vmem \<Rightarrow> vmem" where
  "set_attributes attributes m = nv_fence (nv_nt [VAttr \<mapsto> attributes] m)"

definition GetLayoutSize :: "nat \<Rightarrow> nat" where
  "GetLayoutSize capacity = kHugePageSize + 2 * capacity"

text \<open>The bytes of the header at address \<open>addr\<close>, in the little-endian order of the machine.\<close>

definition bytes :: "nat \<Rightarrow> nat \<Rightarrow> u8 list" where
  "bytes n v = map (\<lambda>i. word_of_nat (v div 256 ^ i)) [0..<n]"

definition header_bytes :: "nat \<Rightarrow> (vloc \<Rightarrow> nat) \<Rightarrow> u8 list" where
  "header_bytes addr v =
     bytes 4 (v VMagic) @ bytes 4 (v VChecksum) @ bytes 4 (v VAttr) @ bytes 4 (v VConsistent) @ bytes 8 (v VCapacity) @
     bytes 8 (unat (to_pptr_off (word_of_nat (addr + v VMainData)) (word_of_nat (addr + 24)))) @
     bytes 8 (unat (to_pptr_off (word_of_nat (addr + v VBackData)) (word_of_nat (addr + 32)))) @ bytes 24 0"

text \<open>\<^verbatim>\<open>MetadataV1::Open\<close> for a new pool and for an existing one.\<close>

definition create_metadata :: "nat \<Rightarrow> nat \<Rightarrow> vmem \<Rightarrow> vmem option" where
  "create_metadata addr capacity m0 =
     (if addr = 0 \<or> capacity = 0 then None
      else let m1 = nv_store (\<lambda>l. if in_header l then Some 0 else None) m0;
               m2 = nv_store [VMagic \<mapsto> kMetadataV1Magic, VCapacity \<mapsto> capacity, VConsistent \<mapsto> kBackData,
                      VMainData \<mapsto> kHugePageSize, VBackData \<mapsto> kHugePageSize + capacity] m1;
               m3 = nv_fence (nv_flush in_header m2);
               checksum = unat (CalculateCRC32 (header_bytes addr (cur m3)) 0)
           in Some (nv_fence (nv_nt [VChecksum \<mapsto> checksum] m3)))"

definition open_metadata :: "nat \<Rightarrow> vmem \<Rightarrow> vmem option" where
  "open_metadata addr m = (if addr = 0 \<or> cur m VMagic \<noteq> kMetadataV1Magic then None else Some m)"

fun main_at :: "vloc \<Rightarrow> nat option" where
  "main_at (Main x) = Some x" | "main_at _ = None"

fun back_at :: "vloc \<Rightarrow> nat option" where
  "back_at (Back x) = Some x" | "back_at _ = None"

text \<open>
  The copies count in an \<^verbatim>\<open>int\<close>, which overflows once the capacity reaches
  \<open>2 ^ 31\<close>; the behaviour is then undefined. No fence follows the copies.
\<close>

definition recover_data :: "vmem \<Rightarrow> vmem option" where
  "recover_data m =
     (if 2 ^ 31 \<le> cur m VCapacity then None
      else Some (if cur m VConsistent = kMainData
        then set_consistent_data kBackData (NonTemporalCopyWithWriteElimination back_at Back Main (cur m VCapacity) m)
        else NonTemporalCopyWithWriteElimination main_at Main Back (cur m VCapacity) m))"

definition has_snapshot_flag :: "(vloc \<Rightarrow> nat) \<Rightarrow> bool" where
  "has_snapshot_flag v \<longleftrightarrow> bit (v VAttr) 4"

subsection \<open>What a durable image stands for\<close>

definition v_stands :: "nat \<Rightarrow> (nat \<Rightarrow> nat) \<Rightarrow> (vloc \<Rightarrow> nat) \<Rightarrow> bool" where
  "v_stands cap snap pm \<longleftrightarrow> pm VMagic = kMetadataV1Magic \<and> pm VCapacity = cap \<and>
     pm VMainData = kHugePageSize \<and> pm VBackData = kHugePageSize + cap \<and> (pm VConsistent = kMainData \<or> pm VConsistent = kBackData) \<and>
     (\<forall>x < cap. (if pm VConsistent = kMainData then pm (Main x) else pm (Back x)) = snap x)"

text \<open>The cells whose values decide it, for a header that names \<open>c\<close> as consistent.\<close>

fun v_kept :: "nat \<Rightarrow> nat \<Rightarrow> vloc \<Rightarrow> bool" where
  "v_kept cap c VMagic = True" | "v_kept cap c VCapacity = True" | "v_kept cap c VConsistent = True"
| "v_kept cap c VMainData = True" | "v_kept cap c VBackData = True"
| "v_kept cap c (Main x) = (x < cap \<and> c = kMainData)" | "v_kept cap c (Back x) = (x < cap \<and> c \<noteq> kMainData)"
| "v_kept cap c _ = False"

lemma v_stands_cong:
  assumes "v_stands cap snap v" and "\<And>l. v_kept cap (v VConsistent) l \<Longrightarrow> pm l = v l"
  shows "v_stands cap snap pm"
proof -
  have "pm VMagic = v VMagic" "pm VCapacity = v VCapacity" "pm VConsistent = v VConsistent"
    "pm VMainData = v VMainData" "pm VBackData = v VBackData"
    using assms(2) by simp_all
  then show ?thesis
    using assms(1) assms(2) [of "Main _"] assms(2) [of "Back _"] by (auto simp: v_stands_def split: if_splits)
qed

lemma v_keeps_safe:
  assumes "v_stands cap snap (cur m)" and "keeps (v_kept cap (cur m VConsistent)) m m'" and "crash_safe P m"
    and "\<And>pm. v_stands cap snap pm \<Longrightarrow> P pm"
  shows "crash_safe P m'"
  by (rule keeps_crash_safe [OF assms(2,3)]) (rule assms(4), rule v_stands_cong [OF assms(1)])

lemma v_begin_safe:
  assumes "v_stands cap snap (cur m)" and "\<And>l. v_kept cap (cur m VConsistent) l \<Longrightarrow> quiet m l"
  shows "crash_safe (v_stands cap snap) (nv_begin m)"
  unfolding crash_safe_begin dur_sat_def
proof (intro allI impI)
  fix pm assume pm: "\<forall>l. pm l \<in> dur m l"
  have "pm l = cur m l" if "v_kept cap (cur m VConsistent) l" for l
    using spec [OF pm, of l] quiet_durable [OF assms(2) [OF that]] by simp
  then show "v_stands cap snap pm" by (intro v_stands_cong [OF assms(1)]) auto
qed

subsection \<open>Between checkpoints\<close>

text \<open>
  The back data is the snapshot, durable and marked consistent; the main data agrees with it, and
  is at least on its way to the medium, outside the written cells \<open>D\<close>.
\<close>

definition mirrors :: "nat \<Rightarrow> (nat \<Rightarrow> nat) \<Rightarrow> nat set \<Rightarrow> vmem \<Rightarrow> bool" where
  "mirrors cap snap D m \<longleftrightarrow> v_stands cap snap (cur m) \<and> cur m VConsistent = kBackData \<and> visible m \<and>
     (\<forall>l. v_kept cap kBackData l \<longrightarrow> quiet m l) \<and>
     (\<forall>x < cap. x \<notin> D \<longrightarrow> cur m (Main x) = snap x \<and> settled m (Main x))"

lemma mirrorsD:
  assumes "mirrors cap snap D m"
  shows "v_stands cap snap (cur m)" "cur m VConsistent = kBackData" "visible m" "v_kept cap kBackData l \<Longrightarrow> quiet m l"
    "x < cap \<Longrightarrow> x \<notin> D \<Longrightarrow> cur m (Main x) = snap x" "x < cap \<Longrightarrow> x \<notin> D \<Longrightarrow> settled m (Main x)"
    "x < cap \<Longrightarrow> cur m (Back x) = snap x" "x < cap \<Longrightarrow> quiet m (Back x)"
  using assms by (auto simp: mirrors_def v_stands_def geometry)

lemma mirrors_mono: "mirrors cap snap D m \<Longrightarrow> D \<subseteq> D' \<Longrightarrow> mirrors cap snap D' m"
  unfolding mirrors_def by blast

lemma mirrors_cong:
  assumes "mirrors cap snap D m" and "\<And>x. x < cap \<Longrightarrow> snap x = snap' x"
  shows "mirrors cap snap' D m"
proof -
  have "v_stands cap snap' (cur m)" using mirrorsD(1) [OF assms(1)] assms(2) by (simp add: v_stands_def)
  then show ?thesis using assms by (simp add: mirrors_def)
qed

lemma mirrors_begin:
  assumes "mirrors cap snap D m"
  shows "mirrors cap snap D (nv_begin m)" and "crash_safe (v_stands cap snap) (nv_begin m)"
  using assms v_begin_safe [OF mirrorsD(1) [OF assms]] by (simp_all add: mirrors_def)

text \<open>A store of the program.\<close>

lemma mirrors_store:
  assumes i: "mirrors cap snap D m" and x: "x \<in> D"
  shows "mirrors cap snap D (nv_store [Main x \<mapsto> v] m)"
    and "crash_safe (v_stands cap snap) m \<Longrightarrow> crash_safe (v_stands cap snap) (nv_store [Main x \<mapsto> v] m)"
proof -
  note d = mirrorsD [OF i]
  have ne: "l \<noteq> Main x" if "v_kept cap kBackData l" for l using that by (auto simp: geometry)
  have k: "keeps (v_kept cap (cur m VConsistent)) m (nv_store [Main x \<mapsto> v] m)"
    by (rule keeps_store) (use d(2,4) ne in auto)
  have s: "v_stands cap snap (cur (nv_store [Main x \<mapsto> v] m))"
    by (rule v_stands_cong [OF d(1)]) (use d(2) ne in auto)
  show "mirrors cap snap D (nv_store [Main x \<mapsto> v] m)"
    unfolding mirrors_def
  proof (intro conjI allI impI)
    show "quiet (nv_store [Main x \<mapsto> v] m) l" if "v_kept cap kBackData l" for l using d(4) [OF that] ne [OF that] by simp
    show "settled (nv_store [Main x \<mapsto> v] m) (Main y)" if "y < cap" "y \<notin> D" for y
    proof -
      have "y \<noteq> x" using that(2) x by blast
      then show ?thesis using d(6) [OF that] by simp
    qed
  qed (use s d x in auto)
  show "crash_safe (v_stands cap snap) m \<Longrightarrow> crash_safe (v_stands cap snap) (nv_store [Main x \<mapsto> v] m)"
    by (rule v_keeps_safe [OF d(1) k]) auto
qed

subsection \<open>A checkpoint\<close>

text \<open>
  Once the main data is durable the header can be switched to it; then the back data is brought
  up to date, and the header switched back.
\<close>

text \<open>The two switches of the header.\<close>

lemma v_switch_main:
  assumes i: "mirrors cap snap D m" and q: "\<And>x. x < cap \<Longrightarrow> quiet m (Main x)" and s: "crash_safe P m"
    and P: "\<And>pm. v_stands cap snap pm \<or> v_stands cap (\<lambda>x. cur m (Main x)) pm \<Longrightarrow> P pm"
  shows "crash_safe P (set_consistent_data kMainData m)"
  unfolding set_consistent_data_def
proof (rule crash_safe_switch(1) [where A = "\<lambda>l. l \<noteq> VConsistent \<and> (v_kept cap kBackData l \<or> v_kept cap kMainData l)"])
  note d = mirrorsD [OF i]
  show "quiet m l \<and> l \<noteq> VConsistent" if "l \<noteq> VConsistent \<and> (v_kept cap kBackData l \<or> v_kept cap kMainData l)" for l
    using that d(4) [of l] q by (cases l) (auto simp: geometry)
  show "quiet m VConsistent" using d(4) by simp
  fix pm assume a: "\<And>l. l \<noteq> VConsistent \<and> (v_kept cap kBackData l \<or> v_kept cap kMainData l) \<Longrightarrow> pm l = cur m l"
    "pm VConsistent = cur m VConsistent \<or> pm VConsistent = kMainData"
  have "v_stands cap snap pm \<or> v_stands cap (\<lambda>x. cur m (Main x)) pm"
    using a(2) d(1,2) a(1) [of VMagic] a(1) [of VCapacity] a(1) [of VMainData] a(1) [of VBackData]
      a(1) [of "Main _"] a(1) [of "Back _"]
    by (auto simp: v_stands_def geometry)
  then show "P pm" by (rule P)
qed (rule s)

lemma v_switch_back:
  assumes h: "v_stands cap snap (cur m)" and q: "\<And>l. v_kept cap kMainData l \<or> v_kept cap kBackData l \<Longrightarrow> quiet m l"
    and b: "\<And>x. x < cap \<Longrightarrow> cur m (Main x) = snap x \<and> cur m (Back x) = snap x"
    and s: "crash_safe P m" and P: "\<And>pm. v_stands cap snap pm \<Longrightarrow> P pm"
  shows "crash_safe P (set_consistent_data kBackData m)"
  unfolding set_consistent_data_def
proof (rule crash_safe_switch(1) [where A = "\<lambda>l. l \<noteq> VConsistent \<and> (v_kept cap kBackData l \<or> v_kept cap kMainData l)"])
  show "quiet m l \<and> l \<noteq> VConsistent" if "l \<noteq> VConsistent \<and> (v_kept cap kBackData l \<or> v_kept cap kMainData l)" for l
    using that q by blast
  show "quiet m VConsistent" using q by simp
  fix pm assume a: "\<And>l. l \<noteq> VConsistent \<and> (v_kept cap kBackData l \<or> v_kept cap kMainData l) \<Longrightarrow> pm l = cur m l"
    and c: "pm VConsistent = cur m VConsistent \<or> pm VConsistent = kBackData"
  have "pm VConsistent = kMainData \<or> pm VConsistent = kBackData" using c h by (auto simp: v_stands_def)
  then have "v_stands cap snap pm"
    using h b a [of VMagic] a [of VCapacity] a [of VMainData] a [of VBackData]
      a [of "Main _"] a [of "Back _"] by (simp add: v_stands_def geometry)
  then show "P pm" by (rule P)
qed (rule s)

text \<open>
  \<open>m1\<close> is the memory after the flush phase, \<open>m3\<close> the one after the copies.
\<close>

lemma mirror_checkpoint:
  assumes i: "mirrors cap snap D m" and s: "crash_safe (v_stands cap snap) m"
    and e1: "evolves F Map.empty m m1" and q1: "\<And>l. settled m1 l \<Longrightarrow> quiet m1 l" and F: "\<And>x. x < cap \<Longrightarrow> x \<in> D \<Longrightarrow> F (Main x)"
    and m2: "m2 = set_consistent_data kMainData m1"
    and e3: "evolves (\<lambda>_. False) V m2 m3" and q3: "\<And>l. settled m3 l \<Longrightarrow> quiet m3 l"
    and V: "\<And>x. x < cap \<Longrightarrow> x \<in> D \<Longrightarrow> V (Back x) \<noteq> None" "\<And>l w. V l = Some w \<Longrightarrow> \<exists>x. l = Back x \<and> w = cur m (Main x)"
    and m4: "m4 = set_consistent_data kBackData m3"
  shows "mirrors cap (\<lambda>x. cur m (Main x)) {} m4"
    and "crash_safe (\<lambda>pm. v_stands cap snap pm \<or> v_stands cap (\<lambda>x. cur m (Main x)) pm) m4"
    and "cur m4 (Main x) = cur m (Main x)" and "cur m4 VAttr = cur m VAttr"
proof -
  note d = mirrorsD [OF i]
  let ?P = "\<lambda>pm. v_stands cap snap pm \<or> v_stands cap (\<lambda>x. cur m (Main x)) pm"
  let ?new = "\<lambda>x. cur m (Main x)"
  have c1: "cur m1 l = cur m l" for l using evolves_simps(1) [OF e1] by simp
  have qm: "quiet m1 (Main x)" if "x < cap" for x
  proof (rule q1, cases "x \<in> D")
    case True
    then show "settled m1 (Main x)" using evolves_simps(4) [OF e1, of "Main x"] F [OF that] by blast
  next
    case False
    then show "settled m1 (Main x)" using evolves_simps(3) [OF e1, of "Main x"] d(6) [OF that] by blast
  qed
  have qb: "quiet m1 l" if "v_kept cap kBackData l" for l using evolves_simps(6) [OF e1 d(4) [OF that]] by simp
  have eq1: "cur m1 = cur m" using c1 by (rule ext)
  have k1: "keeps (v_kept cap (cur m VConsistent)) m m1" by (rule evolves_keeps [OF e1]) (simp add: d(2,4))
  have s1: "crash_safe ?P m1" by (rule v_keeps_safe [OF d(1) k1]) (use s in \<open>auto intro: crash_safe_mono\<close>)
  have i1: "mirrors cap snap D m1"
    unfolding mirrors_def eq1 using d qb evolves_simps(3) [OF e1] evolves_visible [OF e1] by blast
  have s2: "crash_safe ?P m2"
    unfolding m2 by (rule v_switch_main [OF i1 qm s1]) (auto simp: c1)
  have c2: "cur m2 l = (if l = VConsistent then kMainData else cur m l)" for l by (simp add: m2 set_consistent_data_def c1)
  have q2: "quiet m2 l" if "v_kept cap kMainData l \<or> v_kept cap kBackData l" for l
  proof -
    have "quiet m1 l" using that qb qm by (cases l) auto
    then show ?thesis by (cases "l = VConsistent") (simp_all add: m2 set_consistent_data_def quiet_settled)
  qed
  have st2: "v_stands cap ?new (cur m2)" using d(1) by (simp add: v_stands_def c2)
  have VN: "V l = None" if "\<And>x. l \<noteq> Back x" for l using V(2) [of l] that by (cases "V l") auto
  have k3: "keeps (v_kept cap (cur m2 VConsistent)) m2 m3"
  proof (rule evolves_keeps [OF e3])
    fix l assume "v_kept cap (cur m2 VConsistent) l"
    then have l: "v_kept cap kMainData l" by (simp add: c2)
    then have "\<And>x. l \<noteq> Back x" by auto
    then show "quiet m2 l \<and> V l = None" using q2 l VN by blast
  qed
  have s3: "crash_safe ?P m3" by (rule v_keeps_safe [OF st2 k3 s2]) simp
  have c3: "cur m3 l = cur m2 l" if "\<And>x. l \<noteq> Back x" for l using evolves_simps(1) [OF e3] VN that by blast
  have b3: "cur m3 (Back x) = ?new x" if "x < cap" for x
  proof (cases "V (Back x)")
    case None
    then have "x \<notin> D" using V(1) [OF that] by blast
    then show ?thesis using evolves_simps(1) [OF e3 None] d(5,7) [OF that] by (simp add: c2)
  next
    case (Some w)
    then show ?thesis using evolves_simps(2) [OF e3 Some] V(2) [OF Some] by auto
  qed
  have q3': "quiet m3 l" if "v_kept cap kMainData l \<or> v_kept cap kBackData l" for l
    by (rule q3) (rule evolves_simps(3) [OF e3 quiet_settled [OF q2 [OF that]]])
  have st3: "v_stands cap ?new (cur m3)" using st2 c3 by (simp add: v_stands_def c2)
  show s4: "crash_safe ?P m4"
    unfolding m4 by (rule v_switch_back [OF st3 q3' _ s3]) (use b3 c3 c2 in auto)
  have c4: "cur m4 l = (if l = VConsistent then kBackData else cur m3 l)" for l by (simp add: m4 set_consistent_data_def)
  show "cur m4 (Main x) = cur m (Main x)" "cur m4 VAttr = cur m VAttr" by (simp_all add: c4 c3 c2)
  have q4: "quiet m4 l" if "v_kept cap kMainData l \<or> v_kept cap kBackData l" for l
    using q3' [OF that] by (cases "l = VConsistent") (simp_all add: m4 set_consistent_data_def quiet_settled)
  have "visible m4" using d(3) evolves_visible [OF e1] evolves_visible [OF e3] by (simp add: m2 m4 set_consistent_data_def)
  moreover have "v_stands cap ?new (cur m4)" using st3 b3 by (simp add: v_stands_def c4 geometry)
  moreover have "settled m4 (Main x)" if "x < cap" for x by (rule quiet_settled, rule q4) (simp add: that)
  ultimately show "mirrors cap ?new {} m4" using q4 by (simp add: mirrors_def c4 c3 c2)
qed

text \<open>The attribute is not one of the cells that matter.\<close>

lemma mirrors_attributes:
  assumes i: "mirrors cap snap D m" and s: "crash_safe P m" and P: "\<And>pm. v_stands cap snap pm \<Longrightarrow> P pm"
  shows "mirrors cap snap D (set_attributes v m)" and "crash_safe P (set_attributes v m)"
    and "cur (set_attributes v m) l = (if l = VAttr then v else cur m l)"
proof -
  note d = mirrorsD [OF i]
  have e: "evolves (\<lambda>l. False \<or> False) ([VAttr \<mapsto> v] ++ Map.empty) m (set_attributes v m)"
    unfolding set_attributes_def by (rule evolves_trans [OF evolves_nt evolves_fence])
  show c: "cur (set_attributes v m) l = (if l = VAttr then v else cur m l)" for l by (simp add: set_attributes_def)
  have ne: "l \<noteq> VAttr" if "v_kept cap c l" for l c using that by auto
  have q: "quiet (set_attributes v m) l" if "v_kept cap kBackData l" for l
    by (rule evolves_simps(6) [OF e d(4) [OF that]]) (use ne [OF that] in simp)
  show "mirrors cap snap D (set_attributes v m)"
    unfolding mirrors_def
  proof (intro conjI allI impI)
    show "v_stands cap snap (cur (set_attributes v m))" by (rule v_stands_cong [OF d(1)]) (use c ne in auto)
    show "visible (set_attributes v m)" using evolves_visible [OF e] d(3) by simp
    show "settled (set_attributes v m) (Main x)" if "x < cap" "x \<notin> D" for x
      using evolves_simps(3) [OF e d(6) [OF that]] .
  qed (use d q c in auto)
  have k: "keeps (v_kept cap (cur m VConsistent)) m (set_attributes v m)"
    by (rule evolves_keeps [OF e]) (use d(2,4) ne in auto)
  show "crash_safe P (set_attributes v m)" by (rule v_keeps_safe [OF d(1) k s P])
qed

subsection \<open>Copying parts of the main data to the back data\<close>

text \<open>
  The data is divided into parts of \<open>psize\<close> bytes; the address of the copy of a byte is
  \<^verbatim>\<open>addr + capacity\<close>, which is where the back data is.
\<close>

fun back_part :: "nat \<Rightarrow> nat \<Rightarrow> vloc \<Rightarrow> nat option" where
  "back_part psize p (Back x) = (if p * psize \<le> x then Some (x - p * psize) else None)"
| "back_part psize p _ = None"

definition copy_part :: "nat \<Rightarrow> nat \<Rightarrow> vmem \<Rightarrow> vmem" where
  "copy_part psize p = NonTemporalCopy (back_part psize p) (\<lambda>i. Main (p * psize + i)) psize"

definition part_copies :: "nat \<Rightarrow> nat set \<Rightarrow> (vloc \<Rightarrow> nat) \<Rightarrow> vloc \<rightharpoonup> nat" where
  "part_copies psize A v l = (case l of Back x \<Rightarrow> if x div psize \<in> A then Some (v (Main x)) else None | _ \<Rightarrow> None)"

lemma part_copies_simps [simp]:
  "part_copies psize A v (Back x) = (if x div psize \<in> A then Some (v (Main x)) else None)"
  "(\<And>x. l \<noteq> Back x) \<Longrightarrow> part_copies psize A v l = None"
  "part_copies psize {} v = Map.empty"
  by (auto simp: part_copies_def split: vloc.split)

lemma part_copies_Some: "part_copies psize A v l = Some w \<Longrightarrow> \<exists>x. l = Back x \<and> w = v (Main x)"
  by (cases l) (auto split: if_splits)

lemma div_eq_range: "0 < n \<Longrightarrow> x div n = b \<longleftrightarrow> b * n \<le> x \<and> x - b * n < n" for n :: nat
  by (metis add.commute div_mult_self1_is_m div_nat_eqI le_add_diff_inverse2 less_diff_conv2 mult.commute mult_Suc
      times_div_less_eq_dividend dividend_less_times_div)

lemma copy_part_eq: "0 < psize \<Longrightarrow> copy_part psize p m = nv_nt (part_copies psize {p} (cur m)) m"
  unfolding copy_part_def NonTemporalCopy_def
  by (rule arg_cong [where f = "\<lambda>f. nv_nt f m"]) (auto simp: fun_eq_iff part_copies_def div_eq_range split: vloc.split)

lemma part_copies_add:
  assumes "\<And>x. v' (Main x) = v (Main x)"
  shows "part_copies psize A v ++ part_copies psize B v' = part_copies psize (A \<union> B) v"
  by (rule ext) (use assms in \<open>auto simp: part_copies_def map_add_def split: vloc.split option.split\<close>)

lemma copy_part_evolves: "0 < psize \<Longrightarrow> evolves (\<lambda>_. False) (part_copies psize {p} (cur m)) m (copy_part psize p m)"
  by (simp add: copy_part_eq evolves_nt)

lemma part_copies_main: "evolves P (part_copies psize A v) m m' \<Longrightarrow> cur m' (Main x) = cur m (Main x)"
  by (simp add: evolves_simps(1))

lemma copy_parts_evolve:
  assumes "0 < psize"
  shows "evolves (\<lambda>_. False) (part_copies psize (set ps) (cur m)) m (fold (copy_part psize) ps m)"
proof (induction ps arbitrary: m)
  case Nil
  then show ?case by (simp add: evolves_refl)
next
  case (Cons p ps)
  note e = copy_part_evolves [OF assms, of p m]
  have "part_copies psize {p} (cur m) ++ part_copies psize (set ps) (cur (copy_part psize p m)) = part_copies psize (set (p # ps)) (cur m)"
    using part_copies_add [of "cur (copy_part psize p m)" "cur m"] part_copies_main [OF e] by simp
  then show ?case using evolves_trans [OF e Cons.IH [of "copy_part psize p m"]] by simp
qed

text \<open>The threads of a write-back phase, each copying its parts and fencing.\<close>

lemma copy_threads:
  assumes psize: "0 < psize"
  shows "evolves (\<lambda>_. False) (part_copies psize (\<Union>tid \<in> set tids. set (P tid)) (cur m)) m
      (fold (\<lambda>tid m. nv_fence (fold (copy_part psize) (P tid) m)) tids m) \<and>
    (tids \<noteq> [] \<longrightarrow> (\<forall>l. settled (fold (\<lambda>tid m. nv_fence (fold (copy_part psize) (P tid) m)) tids m) l \<longrightarrow>
       quiet (fold (\<lambda>tid m. nv_fence (fold (copy_part psize) (P tid) m)) tids m) l))"
proof (induction tids arbitrary: m)
  case Nil
  then show ?case by (simp add: evolves_refl)
next
  case (Cons tid tids)
  define m1 where "m1 = nv_fence (fold (copy_part psize) (P tid) m)"
  have e1: "evolves (\<lambda>_. False) (part_copies psize (set (P tid)) (cur m)) m m1"
    unfolding m1_def using evolves_trans [OF copy_parts_evolve [OF psize] evolves_fence] by simp
  have "part_copies psize (set (P tid)) (cur m) ++ part_copies psize (\<Union>tid \<in> set tids. set (P tid)) (cur m1)
      = part_copies psize (\<Union>tid \<in> set (tid # tids). set (P tid)) (cur m)"
    using part_copies_add [of "cur m1" "cur m"] part_copies_main [OF e1] by simp
  then show ?case
    using evolves_trans [OF e1 Cons.IH [of m1, THEN conjunct1]] Cons.IH [of m1, THEN conjunct2]
    by (cases "tids = []") (simp_all add: m1_def [symmetric], simp add: m1_def)
qed

subsection \<open>Creating and recovering\<close>

lemma back_at_cell: "back_at l = Some i \<Longrightarrow> Back i = l" and main_at_cell: "main_at l = Some i \<Longrightarrow> Main i = l"
  by (cases l; simp)+

text \<open>A new file reads as zeros, so the two copies agree.\<close>

lemma mirror_create_ok:
  assumes "addr \<noteq> 0" and "cap \<noteq> 0" and "\<And>x. x < cap \<Longrightarrow> pm (Main x) = pm (Back x)"
  obtains m where "create_metadata addr cap (nv_init pm) = Some m" "mirrors cap (\<lambda>x. pm (Main x)) {} m"
    "cur m VAttr = 0" "\<And>x. cur m (Main x) = pm (Main x)"
proof -
  define m where "m = the (create_metadata addr cap (nv_init pm))"
  have e: "create_metadata addr cap (nv_init pm) = Some m" using assms(1,2) by (simp add: m_def create_metadata_def Let_def)
  have c: "cur m VMagic = kMetadataV1Magic" "cur m VCapacity = cap" "cur m VConsistent = kBackData" "cur m VAttr = 0"
    "cur m VMainData = kHugePageSize" "cur m VBackData = kHugePageSize + cap"
    "cur m (Main x) = pm (Main x)" "cur m (Back x) = pm (Back x)" for x
    using assms(1,2) by (simp_all add: m_def create_metadata_def Let_def)
  have q: "quiet m l" for l using assms(1,2) by (cases l) (simp_all add: m_def create_metadata_def Let_def quiet_settled)
  have "visible m" using assms(1,2) by (simp add: m_def create_metadata_def Let_def)
  with c q assms(3) have "mirrors cap (\<lambda>x. pm (Main x)) {} m"
    by (simp add: mirrors_def v_stands_def quiet_settled geometry)
  with e c show ?thesis by (intro that)
qed

text \<open>Recovery of a memory with nothing in flight, whatever its history.\<close>

lemma mirror_recover_quiet:
  assumes s: "v_stands cap snap (cur m)" and q: "\<And>l. quiet m l" "visible m" and cap: "cap < 2 ^ 31"
  obtains m' where "recover_data m = Some m'" "mirrors cap snap {} m'" "cur m' VAttr = cur m VAttr"
proof (cases "cur m VConsistent = kMainData")
  case True
  let ?m = "NonTemporalCopyWithWriteElimination back_at Back Main cap m"
  let ?m' = "set_consistent_data kBackData ?m"
  have c: "cur ?m l = (case back_at l of Some i \<Rightarrow> if i < cap then cur m (Main i) else cur m l | None \<Rightarrow> cur m l)" for l
    by (simp add: write_elimination_cur back_at_cell split: option.split)
  have t: "settled ?m l" for l by (rule write_elimination_settled(1) [OF back_at_cell]) (simp_all add: q)
  have qq: "quiet ?m' l" for l using t by (cases "l = VConsistent") (simp_all add: set_consistent_data_def)
  have c': "cur ?m' l = (if l = VConsistent then kBackData else cur ?m l)" for l by (simp add: set_consistent_data_def)
  have "visible ?m" using q(2) by (simp add: NonTemporalCopyWithWriteElimination_def)
  then have "visible ?m'" by (simp add: set_consistent_data_def)
  moreover have "kBackData \<noteq> kMainData" by (simp add: geometry)
  ultimately have "mirrors cap snap {} ?m'"
    using s True qq by (simp add: mirrors_def v_stands_def c' c quiet_settled)
  moreover have "recover_data m = Some ?m'" using s True cap by (simp add: recover_data_def v_stands_def)
  ultimately show ?thesis by (intro that [of ?m']) (simp_all add: c' c)
next
  case False
  let ?m = "NonTemporalCopyWithWriteElimination main_at Main Back cap m"
  have c: "cur ?m l = (case main_at l of Some i \<Rightarrow> if i < cap then cur m (Back i) else cur m l | None \<Rightarrow> cur m l)" for l
    by (simp add: write_elimination_cur main_at_cell split: option.split)
  have t: "settled ?m l" for l by (rule write_elimination_settled(1) [OF main_at_cell]) (simp_all add: q)
  have V: "main_at l = None" if "v_kept cap kBackData l" for l using that by (cases l) (auto simp: geometry)
  have b: "cur m VConsistent = kBackData" using s False by (auto simp: v_stands_def)
  have k: "quiet ?m l \<and> cur ?m l = cur m l" if "v_kept cap kBackData l" for l
    using write_elimination_frame [of main_at l cap Main Back m] V [OF that] q(1) [of l] by (simp add: quiet_iff)
  have "visible ?m" using q(2) by (simp add: NonTemporalCopyWithWriteElimination_def)
  then have "mirrors cap snap {} ?m"
    using s False b k t by (simp add: mirrors_def v_stands_def c)
  moreover have "recover_data m = Some ?m" using s False cap by (simp add: recover_data_def v_stands_def)
  ultimately show ?thesis by (intro that [of ?m]) (simp_all add: c)
qed

lemma mirror_recover_ok:
  assumes s: "v_stands cap snap pm" and cap: "cap < 2 ^ 31"
  obtains m where "recover_data (nv_init pm) = Some m" "mirrors cap snap {} m" "cur m VAttr = pm VAttr"
    "pm VConsistent \<noteq> kMainData \<Longrightarrow> crash_safe (v_stands cap snap) m"
proof -
  note fin = that
  obtain m where m: "recover_data (nv_init pm) = Some m" "mirrors cap snap {} m" "cur m VAttr = cur (nv_init pm) VAttr"
    by (rule mirror_recover_quiet [of cap snap "nv_init pm"]) (use s cap in simp_all)
  have "crash_safe (v_stands cap snap) m" if c: "pm VConsistent \<noteq> kMainData"
  proof -
    let ?m = "NonTemporalCopyWithWriteElimination main_at Main Back cap (nv_init pm)"
    have e: "m = ?m" using m(1) s c cap by (simp add: recover_data_def v_stands_def)
    have V: "main_at l = None" if "v_kept cap kBackData l" for l using that by (cases l) (auto simp: geometry)
    have k: "quiet ?m l \<and> cur ?m l = pm l" if "v_kept cap kBackData l" for l
      using write_elimination_frame [of main_at l cap Main Back "nv_init pm"] V [OF that] by (simp add: quiet_iff)
    have "keeps (v_kept cap kBackData) (nv_init pm) ?m"
      by (rule keepsI [where hs = "[]"]) (use k in simp_all)
    moreover have "crash_images (nv_init pm) = {pm}" by (auto simp: crash_images_def crash_points_def)
    then have "crash_safe (v_stands cap snap) (nv_init pm)" using s by (simp add: crash_safe_def)
    moreover have "pm VConsistent = kBackData" using s c by (auto simp: v_stands_def)
    ultimately show ?thesis unfolding e using v_keeps_safe [of cap snap "nv_init pm" ?m] s by simp
  qed
  then show ?thesis using m by (intro fin [of m]) simp_all
qed

subsection \<open>Recovery is not atomic\<close>

text \<open>
  The back data is marked consistent by a store that is not ordered after the copies: a crash
  before the fence can leave the mark and any part of the copies.
\<close>

definition torn :: "nat \<Rightarrow> nat set \<Rightarrow> (vloc \<Rightarrow> nat) \<Rightarrow> vloc \<Rightarrow> nat" where
  "torn cap S pm l = (case l of VConsistent \<Rightarrow> kBackData
     | Back x \<Rightarrow> if x < cap \<and> x \<in> S then pm (Main x) else pm (Back x) | _ \<Rightarrow> pm l)"

lemma torn_image:
  assumes "v_stands cap snap pm" and "pm VConsistent = kMainData" and "cap < 2 ^ 31"
  obtains m where "recover_data (nv_init pm) = Some m" "torn cap S pm \<in> crash_images m"
proof -
  let ?m = "NonTemporalCopyWithWriteElimination back_at Back Main cap (nv_init pm)"
  let ?m1 = "nv_nt [VConsistent \<mapsto> kBackData] ?m"
  have e: "recover_data (nv_init pm) = Some (nv_fence ?m1)"
    using assms by (simp add: recover_data_def v_stands_def set_consistent_data_def)
  have "torn cap S pm l \<in> dur ?m1 l" for l
  proof (cases l)
    case (Back x)
    have "x < cap \<Longrightarrow> \<not> line_differs Back Main (nv_init pm) x \<Longrightarrow> pm (Main x) = pm (Back x)"
      using line_differs_self [of "nv_init pm" Back x Main] by (metis nv_init_simps(1))
    then show ?thesis by (auto simp: Back torn_def NonTemporalCopyWithWriteElimination_def)
  qed (simp_all add: torn_def NonTemporalCopyWithWriteElimination_def)
  moreover have "dur ?m1 \<in> crash_points (nv_fence ?m1)" by (simp add: crash_points_def)
  ultimately have "torn cap S pm \<in> crash_images (nv_fence ?m1)" unfolding crash_images_def by blast
  with e show ?thesis by (rule that)
qed

text \<open>
  C22. A crash during the recovery of a pool whose main data was the consistent one can mix two
  checkpoints: for every set \<open>S\<close> of bytes some durable image it can leave is recovered, by the
  next start, to the main data on \<open>S\<close> and to the older back data everywhere else.
\<close>

theorem mirror_recovery_tears:
  assumes "v_stands cap snap pm" and "pm VConsistent = kMainData" and "cap < 2 ^ 31"
  shows "\<exists>m pm' m2. recover_data (nv_init pm) = Some m \<and> pm' \<in> crash_images m \<and>
    recover_data (nv_init pm') = Some m2 \<and> (\<forall>x < cap. cur m2 (Main x) = (if x \<in> S then pm (Main x) else pm (Back x)))"
proof -
  obtain m where m: "recover_data (nv_init pm) = Some m" "torn cap S pm \<in> crash_images m"
    by (rule torn_image [OF assms])
  have "v_stands cap (\<lambda>x. if x \<in> S then pm (Main x) else pm (Back x)) (torn cap S pm)"
    using assms(1) by (simp add: v_stands_def torn_def geometry)
  then obtain m2 where m2: "recover_data (nv_init (torn cap S pm)) = Some m2"
    "mirrors cap (\<lambda>x. if x \<in> S then pm (Main x) else pm (Back x)) {} m2"
    by (rule mirror_recover_ok [OF _ assms(3)])
  have "cur m2 (Main x) = (if x \<in> S then pm (Main x) else pm (Back x))" if "x < cap" for x
    using mirrorsD(5) [OF m2(2) that] by simp
  with m m2(1) show ?thesis by blast
qed

text \<open>The image after a checkpoint that wrote 9 over two bytes that held 3, each in a page of its own.\<close>

definition half_checkpointed :: "vloc \<Rightarrow> nat" where
  "half_checkpointed l = (case l of VMagic \<Rightarrow> kMetadataV1Magic | VConsistent \<Rightarrow> kMainData
     | VCapacity \<Rightarrow> kMinContainerSize | VMainData \<Rightarrow> kHugePageSize | VBackData \<Rightarrow> kHugePageSize + kMinContainerSize
     | Main x \<Rightarrow> (if x = 0 \<or> x = 4096 then 9 else 3) | Back x \<Rightarrow> 3 | _ \<Rightarrow> 0)"

theorem mirror_recovery_tears_witness:
  "\<exists>m pm' m2. recover_data (nv_init half_checkpointed) = Some m \<and> pm' \<in> crash_images m \<and>
    recover_data (nv_init pm') = Some m2 \<and> cur m2 (Main 0) = 9 \<and> cur m2 (Main 4096) = 3"
proof -
  have "v_stands kMinContainerSize (\<lambda>x. half_checkpointed (Main x)) half_checkpointed"
    by (simp add: v_stands_def half_checkpointed_def)
  from mirror_recovery_tears [OF this, of "{0}"]
  obtain m pm' m2 where w: "recover_data (nv_init half_checkpointed) = Some m" "pm' \<in> crash_images m"
    "recover_data (nv_init pm') = Some m2"
    "\<forall>x < kMinContainerSize. cur m2 (Main x) = (if x \<in> {0} then half_checkpointed (Main x) else half_checkpointed (Back x))"
    by (auto simp: half_checkpointed_def geometry)
  from spec [OF w(4), of 0] spec [OF w(4), of 4096] have "cur m2 (Main 0) = 9" "cur m2 (Main 4096) = 3"
    by (simp_all add: half_checkpointed_def geometry)
  with w(1-3) show ?thesis by blast
qed

end
