(* ===== verification/DirtyBit.thy ===== *)
theory DirtyBit
  imports Metadata Engine_Spec
begin

text \<open>
  \<^verbatim>\<open>engines/dirtybit_engine.cpp\<close>: the engine that learns from the soft-dirty bits of
  the kernel which pages were written since the last checkpoint. This is the build without
  \<^verbatim>\<open>USE_HYBRID_MEMORY\<close>; its MPI operations are in \<open>Mpi_DirtyBit\<close>. The kernel is not part of the repository: it is
  the argument \<open>K\<close> of the definitions, and the theorems name what is documented of it.
\<close>

definition kPTESoftDirtyBit :: u64 where "kPTESoftDirtyBit = push_bit 55 1"

text \<open>
  What the engine uses of the kernel, over a kernel state of any type: reading the entries of a
  range of virtual pages from \<^verbatim>\<open>/proc/self/pagemap\<close>, writing \<^verbatim>\<open>4\<close> to
  \<^verbatim>\<open>/proc/self/clear_refs\<close>, and what a store to a page does to the bits.
\<close>

record 'k kernel =
  read_pagemap :: "'k \<Rightarrow> nat \<Rightarrow> nat \<Rightarrow> u64 list option"
  write_clear_refs :: "'k \<Rightarrow> 'k option"
  touch_page :: "nat \<Rightarrow> 'k \<Rightarrow> 'k"

record dirtybit =
  dnv :: vmem
  nr_pages :: nat
  capacity :: nat
  has_snapshot :: bool
  pte_buffer :: "u64 list"
  address_first :: nat

definition d_nv :: "(vmem \<Rightarrow> vmem) \<Rightarrow> dirtybit \<Rightarrow> dirtybit" where
  "d_nv f e = e\<lparr>dnv := f (dnv e)\<rparr>"

lemma d_nv_simps [simp]:
  "dnv (d_nv f e) = f (dnv e)" "nr_pages (d_nv f e) = nr_pages e" "capacity (d_nv f e) = capacity e"
  "has_snapshot (d_nv f e) = has_snapshot e" "pte_buffer (d_nv f e) = pte_buffer e" "address_first (d_nv f e) = address_first e"
  by (simp_all add: d_nv_def)

subsection \<open>Tracing\<close>

text \<open>A failing system call makes the process exit; so does a read that returns fewer entries.\<close>

definition read_page_map :: "'k kernel \<Rightarrow> 'k \<Rightarrow> dirtybit \<Rightarrow> dirtybit option" where
  "read_page_map K k e =
     (case read_pagemap K k (address_first e div kPageSize) (nr_pages e) of
        None \<Rightarrow> None
      | Some es \<Rightarrow> if length es = nr_pages e then Some (e\<lparr>pte_buffer := es\<rparr>) else None)"

definition reset_page_map :: "'k kernel \<Rightarrow> 'k \<Rightarrow> 'k option" where
  "reset_page_map K k = write_clear_refs K k"

subsection \<open>Opening a pool\<close>

definition start_engine :: "'k kernel \<Rightarrow> 'k \<Rightarrow> nat \<Rightarrow> nat \<Rightarrow> bool \<Rightarrow> vmem \<Rightarrow> (dirtybit \<times> 'k) option" where
  "start_engine K k addr cap snapshot m =
     map_option (\<lambda>k'. (\<lparr>dnv = m, nr_pages = cap div kPageSize, capacity = cap, has_snapshot = snapshot,
         pte_buffer = replicate (cap div kPageSize) 0, address_first = addr + cur m VMainData\<rparr>, k')) (reset_page_map K k)"

definition round_capacity :: "nat \<Rightarrow> nat" where
  "round_capacity wanted =
     (let c = max wanted kMinContainerSize in if c mod kPageSize \<noteq> 0 then (c div kPageSize + 1) * kPageSize else c)"

text \<open>A new file, which reads as zeros, and a file with the contents \<open>pm\<close>, mapped at \<open>addr\<close>.\<close>

definition create_engine :: "'k kernel \<Rightarrow> nat \<Rightarrow> nat \<Rightarrow> 'k \<Rightarrow> (dirtybit \<times> 'k) option" where
  "create_engine K wanted addr k =
     (let cap = round_capacity wanted
      in Option.bind (create_metadata addr cap (nv_init (\<lambda>_. 0))) (start_engine K k addr cap False))"

definition open_engine :: "'k kernel \<Rightarrow> nat \<Rightarrow> 'k \<Rightarrow> (vloc \<Rightarrow> nat) \<Rightarrow> (dirtybit \<times> 'k) option" where
  "open_engine K addr k pm =
     Option.bind (open_metadata addr (nv_init pm)) (\<lambda>m.
       if cur m VCapacity mod kPageSize \<noteq> 0 then None
       else Option.bind (recover_data m) (\<lambda>m. start_engine K k addr (cur m VCapacity) (has_snapshot_flag (cur m)) m))"

text \<open>\<^verbatim>\<open>Open\<close>: \<open>file\<close> is what the path holds, if it exists.\<close>

definition Open ::
  "'k kernel \<Rightarrow> bool \<Rightarrow> bool \<Rightarrow> nat \<Rightarrow> (vloc \<Rightarrow> nat) option \<Rightarrow> nat \<Rightarrow> 'k \<Rightarrow> (dirtybit \<times> 'k) option" where
  "Open K may_create trunc wanted file addr k =
     (if may_create \<and> (trunc \<or> file = None) then create_engine K wanted addr k
      else Option.bind file (open_engine K addr k))"

subsection \<open>Checkpoint\<close>

definition page_dirty :: "dirtybit \<Rightarrow> nat \<Rightarrow> bool" where
  "page_dirty e p \<longleftrightarrow> pte_buffer e ! p AND kPTESoftDirtyBit \<noteq> 0"

definition write_back_parallel :: "nat \<Rightarrow> nat \<Rightarrow> dirtybit \<Rightarrow> dirtybit" where
  "write_back_parallel n tid e =
     d_nv (\<lambda>m. nv_fence (fold (copy_part kPageSize) (filter (page_dirty e) (share n tid (nr_pages e))) m)) e"

definition note_snapshot :: "dirtybit \<Rightarrow> dirtybit" where
  "note_snapshot e = (if has_snapshot e then e else (d_nv (set_attributes kAttributeHasSnapshot) e)\<lparr>has_snapshot := True\<rparr>)"

definition checkpoint :: "'k kernel \<Rightarrow> nat \<Rightarrow> dirtybit \<times> 'k \<Rightarrow> (dirtybit \<times> 'k) option" where
  "checkpoint K n s = (case s of (e, k) \<Rightarrow>
     Option.bind (read_page_map K k e) (\<lambda>e1.
       let e2 = d_nv (\<lambda>m. set_consistent_data kMainData (nv_fence (nv_flush (\<lambda>_. True) m))) e1;
           e3 = fold (write_back_parallel n) [0..<n] e2;
           e4 = d_nv (set_consistent_data kBackData) e3
       in map_option (\<lambda>k'. (note_snapshot e4, k')) (reset_page_map K k)))"

definition exist_snapshot :: "dirtybit \<Rightarrow> bool" where "exist_snapshot e = has_snapshot_flag (cur (dnv e))"
definition get_address :: "nat \<Rightarrow> dirtybit \<Rightarrow> nat" where "get_address offset e = address_first e + offset"
definition get_capacity :: "dirtybit \<Rightarrow> nat" where "get_capacity e = capacity e"

text \<open>A store of the program to its data: the hardware and the kernel mark the page.\<close>

definition store_byte :: "'k kernel \<Rightarrow> nat \<Rightarrow> nat \<Rightarrow> dirtybit \<times> 'k \<Rightarrow> dirtybit \<times> 'k" where
  "store_byte K x v s = (case s of (e, k) \<Rightarrow>
     (d_nv (nv_store [Main x \<mapsto> v]) e, touch_page K (get_address x e div kPageSize) k))"

subsection \<open>The kernel\<close>

text \<open>
  What \<^verbatim>\<open>Documentation/admin-guide/mm/soft-dirty.rst\<close> promises: the calls succeed, the
  entries read are those of the pages asked for, and bit 55 of the entry of a page is set by a
  store to it and stays set until the bits are cleared. That clearing does clear is not needed
  here. \<open>entry\<close> is the page map as a function.
\<close>

definition soft_dirty_kernel :: "'k kernel \<Rightarrow> ('k \<Rightarrow> nat \<Rightarrow> u64) \<Rightarrow> bool" where
  "soft_dirty_kernel K entry \<longleftrightarrow>
     (\<forall>k a n. read_pagemap K k a n = Some (map (entry k) [a..<a + n])) \<and> (\<forall>k. write_clear_refs K k \<noteq> None) \<and>
     (\<forall>k p q. p = q \<or> bit (entry k p) 55 \<longrightarrow> bit (entry (touch_page K q k) p) 55)"

definition marked :: "('k \<Rightarrow> nat \<Rightarrow> u64) \<Rightarrow> 'k \<Rightarrow> dirtybit \<Rightarrow> nat set" where
  "marked entry k e = {x. bit (entry k (get_address x e div kPageSize)) 55}"

definition dinv :: "('k \<Rightarrow> nat \<Rightarrow> u64) \<Rightarrow> dirtybit \<times> 'k \<Rightarrow> (nat \<Rightarrow> nat) \<Rightarrow> bool" where
  "dinv entry s snap \<longleftrightarrow> (case s of (e, k) \<Rightarrow> capacity e = nr_pages e * kPageSize \<and> capacity e < 2 ^ 31 \<and>
     address_first e mod kPageSize = 0 \<and> mirrors (capacity e) snap (marked entry k e) (dnv e))"

lemma dinvD:
  assumes "dinv entry (e, k) snap"
  shows "capacity e = nr_pages e * kPageSize" "capacity e < 2 ^ 31" "address_first e mod kPageSize = 0"
    "mirrors (capacity e) snap (marked entry k e) (dnv e)"
  using assms unfolding dinv_def prod.case by blast+

lemma and_soft_dirty: "w AND kPTESoftDirtyBit \<noteq> 0 \<longleftrightarrow> bit w 55"
  unfolding kPTESoftDirtyBit_def push_bit_of_1 by (rule and_exp_nonzero) simp

lemma soft_dirty_kernelD:
  assumes "soft_dirty_kernel K entry"
  shows "read_pagemap K k a n = Some (map (entry k) [a..<a + n])" "\<exists>k'. write_clear_refs K k = Some k'"
    "p = q \<or> bit (entry k p) 55 \<Longrightarrow> bit (entry (touch_page K q k) p) 55"
  using assms unfolding soft_dirty_kernel_def by blast+

lemma page_of:
  assumes "a mod kPageSize = 0"
  shows "(a + x) div kPageSize = a div kPageSize + x div kPageSize"
  using assms by (auto simp: mod_0_imp_dvd div_plus_div_distrib_dvd_left)

subsection \<open>Opening\<close>

lemma d_start:
  assumes K: "soft_dirty_kernel K entry" and i: "mirrors cap snap {} m" and cap: "cap < 2 ^ 31" "cap mod kPageSize = 0"
    and addr: "addr mod kPageSize = 0"
  obtains e k' where "start_engine K k addr cap b m = Some (e, k')" "dinv entry (e, k') snap" "capacity e = cap" "dnv e = m"
proof -
  obtain k' where k: "write_clear_refs K k = Some k'" using soft_dirty_kernelD(2) [OF K] by blast
  define e where "e = \<lparr>dnv = m, nr_pages = cap div kPageSize, capacity = cap, has_snapshot = b,
         pte_buffer = replicate (cap div kPageSize) 0, address_first = addr + cur m VMainData\<rparr>"
  have e: "start_engine K k addr cap b m = Some (e, k')" by (simp add: start_engine_def reset_page_map_def k e_def)
  have "kHugePageSize mod kPageSize = 0" by (simp add: geometry)
  then have "(addr + cur m VMainData) mod kPageSize = 0"
    using mirrorsD(1) [OF i] addr mod_add_eq [of addr kPageSize kHugePageSize] by (simp add: v_stands_def)
  moreover have "cap = cap div kPageSize * kPageSize" using cap(2) by auto
  ultimately have "dinv entry (e, k') snap"
    using mirrors_mono [OF i, of "marked entry k' e"] cap(1) by (simp add: dinv_def e_def)
  then show ?thesis by (rule that [OF e]) (simp_all add: e_def)
qed

lemma d_create_ok:
  assumes K: "soft_dirty_kernel K entry" and cap: "round_capacity wanted < 2 ^ 31" and addr: "addr \<noteq> 0" "addr mod kPageSize = 0"
  obtains e k' where "create_engine K wanted addr k = Some (e, k')" "dinv entry (e, k') (\<lambda>_. 0)"
    "capacity e = round_capacity wanted"
proof -
  have r: "round_capacity wanted mod kPageSize = 0" "round_capacity wanted \<noteq> 0"
    by (simp_all add: round_capacity_def Let_def geometry) (auto simp: max_def split: if_splits)
  obtain m where m: "create_metadata addr (round_capacity wanted) (nv_init (\<lambda>_. 0)) = Some m" "mirrors (round_capacity wanted) (\<lambda>_. 0) {} m"
    by (rule mirror_create_ok [OF addr(1) r(2), of "\<lambda>_. 0"]) simp_all
  obtain e k' where e: "start_engine K k addr (round_capacity wanted) False m = Some (e, k')" "dinv entry (e, k') (\<lambda>_. 0)"
      "capacity e = round_capacity wanted"
    by (rule d_start [OF K m(2) cap r(1) addr(2)])
  show ?thesis by (rule that [OF _ e(2,3)]) (simp add: create_engine_def m(1) e(1))
qed

lemma d_open_ok:
  assumes K: "soft_dirty_kernel K entry" and s: "v_stands cap snap pm" and cap: "cap < 2 ^ 31" "cap mod kPageSize = 0"
    and addr: "addr \<noteq> 0" "addr mod kPageSize = 0"
  obtains e k' where "open_engine K addr k pm = Some (e, k')" "dinv entry (e, k') snap" "capacity e = cap"
    "\<forall>x < cap. cur (dnv e) (Main x) = snap x"
proof -
  obtain m where m: "recover_data (nv_init pm) = Some m" "mirrors cap snap {} m" by (rule mirror_recover_ok [OF s cap(1)])
  have c: "cur m VCapacity = cap" using mirrorsD(1) [OF m(2)] by (simp add: v_stands_def)
  obtain e k' where e: "start_engine K k addr cap (has_snapshot_flag (cur m)) m = Some (e, k')" "dinv entry (e, k') snap"
      "capacity e = cap" "dnv e = m"
    by (rule d_start [OF K m(2) cap addr(2)])
  show ?thesis
  proof (rule that [OF _ e(2,3)])
    show "open_engine K addr k pm = Some (e, k')"
      using s addr cap(2) by (simp add: open_engine_def open_metadata_def v_stands_def m(1) c e(1))
    show "\<forall>x < cap. cur (dnv e) (Main x) = snap x" using mirrorsD(5) [OF m(2)] by (simp add: e(4))
  qed
qed

subsection \<open>Operations\<close>

lemma d_store_ok:
  assumes K: "soft_dirty_kernel K entry" and i: "dinv entry (e, k) snap" and x: "x < capacity e"
    and s: "crash_safe (v_stands (capacity e) snap) (dnv e)"
  shows "dinv entry (store_byte K x v (e, k)) snap" and "crash_safe (v_stands (capacity e) snap) (dnv (fst (store_byte K x v (e, k))))"
proof -
  let ?k = "touch_page K (get_address x e div kPageSize) k"
  have m: "marked entry k e \<subseteq> marked entry ?k e" "x \<in> marked entry ?k e"
    using soft_dirty_kernelD(3) [OF K] by (auto simp: marked_def)
  have "mirrors (capacity e) snap (marked entry ?k e) (dnv e)"
    by (rule mirrors_mono [OF dinvD(4) [OF i] m(1)])
  note st = mirrors_store [OF this m(2), of v]
  have mk: "marked entry ?k (d_nv f e) = marked entry ?k e" for f by (simp add: marked_def get_address_def)
  show "dinv entry (store_byte K x v (e, k)) snap" using st(1) i by (simp add: dinv_def store_byte_def mk)
  show "crash_safe (v_stands (capacity e) snap) (dnv (fst (store_byte K x v (e, k))))"
    using st(2) [OF s] by (simp add: store_byte_def)
qed

lemma dinv_more:
  assumes i: "dinv entry (e, k) snap" and "\<And>p. bit (entry k p) 55 \<Longrightarrow> bit (entry k' p) 55"
  shows "dinv entry (e, k') snap"
proof -
  have "marked entry k e \<subseteq> marked entry k' e" using assms(2) by (auto simp: marked_def)
  from mirrors_mono [OF dinvD(4) [OF i] this] dinvD(1-3) [OF i] show ?thesis unfolding dinv_def by simp
qed

lemma d_write_backs:
  "fold (write_back_parallel n) tids e = e\<lparr>dnv := fold (\<lambda>tid m.
     nv_fence (fold (copy_part kPageSize) (filter (page_dirty e) (share n tid (nr_pages e))) m)) tids (dnv e)\<rparr>"
proof (induction tids arbitrary: e)
  case (Cons tid tids)
  let ?m = "nv_fence (fold (copy_part kPageSize) (filter (page_dirty e) (share n tid (nr_pages e))) (dnv e))"
  have "page_dirty (e\<lparr>dnv := ?m\<rparr>) = page_dirty e" by (simp add: page_dirty_def fun_eq_iff)
  moreover have "write_back_parallel n tid e = e\<lparr>dnv := ?m\<rparr>" by (simp add: write_back_parallel_def d_nv_def)
  ultimately show ?case using Cons.IH [of "e\<lparr>dnv := ?m\<rparr>"] by simp
qed simp

lemma shares_filter:
  "0 < n \<Longrightarrow> (\<Union>tid \<in> set [0..<n]. set (filter Q (share n tid limit))) = {p. p < limit \<and> Q p}"
  by (auto simp: share_def)

definition main_data :: "dirtybit \<Rightarrow> nat \<Rightarrow> nat" where "main_data e x = cur (dnv e) (Main x)"

lemma d_note:
  assumes i: "mirrors (capacity e) snap D (dnv e)" and s: "crash_safe P (dnv e)" and P: "\<And>pm. v_stands (capacity e) snap pm \<Longrightarrow> P pm"
  shows "mirrors (capacity e) snap D (dnv (note_snapshot e))" and "crash_safe P (dnv (note_snapshot e))"
    and "capacity (note_snapshot e) = capacity e" and "nr_pages (note_snapshot e) = nr_pages e"
    and "address_first (note_snapshot e) = address_first e" and "main_data (note_snapshot e) x = main_data e x"
  using mirrors_attributes [OF i s P] i s by (simp_all add: note_snapshot_def main_data_def)

text \<open>
  A checkpoint, whichever pages the kernel reports, as long as they include the written ones.
\<close>

lemma d_checkpoint_ok:
  assumes K: "soft_dirty_kernel K entry" and i: "dinv entry (e, k) snap" and n: "0 < n"
    and s: "crash_safe (v_stands (capacity e) snap) (dnv e)"
  obtains e' k' where "checkpoint K n (e, k) = Some (e', k')" "dinv entry (e', k') (main_data e)"
    "crash_safe (\<lambda>pm. v_stands (capacity e) snap pm \<or> v_stands (capacity e) (main_data e) pm) (dnv e')"
    "capacity e' = capacity e" "main_data e' = main_data e" "address_first e' = address_first e" "write_clear_refs K k = Some k'"
proof -
  let ?P = "\<lambda>pm. v_stands (capacity e) snap pm \<or> v_stands (capacity e) (main_data e) pm"
  let ?a = "address_first e div kPageSize"
  note iv = dinvD [OF i]
  define e1 where "e1 = e\<lparr>pte_buffer := map (entry k) [?a..<?a + nr_pages e]\<rparr>"
  have e1: "read_page_map K k e = Some e1" using soft_dirty_kernelD(1) [OF K] by (simp add: read_page_map_def e1_def)
  obtain k' where k': "write_clear_refs K k = Some k'" using soft_dirty_kernelD(2) [OF K] by blast
  have pd: "page_dirty e1 p \<longleftrightarrow> bit (entry k (?a + p)) 55" if "p < nr_pages e" for p
    using that by (simp add: page_dirty_def and_soft_dirty e1_def)
  define m1 where "m1 = nv_fence (nv_flush (\<lambda>_. True) (dnv e))"
  define m2 where "m2 = set_consistent_data kMainData m1"
  define m3 where "m3 = fold (\<lambda>tid m. nv_fence (fold (copy_part kPageSize) (filter (page_dirty e1) (share n tid (nr_pages e))) m)) [0..<n] m2"
  define m4 where "m4 = set_consistent_data kBackData m3"
  have pg: "0 < kPageSize" by (simp add: geometry)
  have ev1: "evolves (\<lambda>_. True) Map.empty (dnv e) m1"
    unfolding m1_def using evolves_trans [OF evolves_flush evolves_fence, of "\<lambda>_. True" "dnv e"] by simp
  have cm: "cur m2 (Main x) = main_data e x" for x by (simp add: m2_def m1_def set_consistent_data_def main_data_def)
  note ct = copy_threads [where tids = "[0..<n]" and P = "\<lambda>tid. filter (page_dirty e1) (share n tid (nr_pages e))" and m = m2, OF pg]
  have ev3: "evolves (\<lambda>_. False) (part_copies kPageSize {p. p < nr_pages e \<and> page_dirty e1 p} (cur m2)) m2 m3"
    using ct [THEN conjunct1] by (simp only: shares_filter [OF n] m3_def)
  have q3: "settled m3 l \<Longrightarrow> quiet m3 l" for l using ct n by (simp add: m3_def)
  have V1: "part_copies kPageSize {p. p < nr_pages e \<and> page_dirty e1 p} (cur m2) (Back x) \<noteq> None"
    if "x < capacity e" "x \<in> marked entry k e" for x
  proof -
    have "x div kPageSize < nr_pages e" using that(1) iv(1) by (simp add: div_lt_mult_iff pg)
    then show ?thesis using that(2) pd [of "x div kPageSize"] by (simp add: marked_def get_address_def page_of [OF iv(3)])
  qed
  have V2: "\<exists>x. l = Back x \<and> w = cur (dnv e) (Main x)"
    if "part_copies kPageSize {p. p < nr_pages e \<and> page_dirty e1 p} (cur m2) l = Some w" for l w
    using part_copies_Some [OF that] cm by (simp add: main_data_def)
  have q1: "settled m1 l \<Longrightarrow> quiet m1 l" for l by (simp add: m1_def)
  note ck = mirror_checkpoint [OF iv(4) s ev1 q1 TrueI m2_def ev3 q3 V1 V2 m4_def]
  have mdf: "(\<lambda>x. cur (dnv e) (Main x)) = main_data e" by (simp add: main_data_def fun_eq_iff)
  define e4 where "e4 = e1\<lparr>dnv := m4\<rparr>"
  have c4: "capacity e4 = capacity e" "nr_pages e4 = nr_pages e" "address_first e4 = address_first e" "dnv e4 = m4"
    by (simp_all add: e4_def e1_def)
  have md: "main_data e4 x = main_data e x" for x using ck(3) by (simp add: main_data_def c4)
  have i4: "mirrors (capacity e4) (main_data e) {} (dnv e4)" and s4: "crash_safe ?P (dnv e4)"
    using ck(1,2) by (simp_all add: c4 mdf)
  have P: "v_stands (capacity e4) (main_data e) pm \<Longrightarrow> ?P pm" for pm by (simp add: c4)
  note nt = d_note [OF i4 s4 P]
  have pdc: "page_dirty (d_nv f e1) = page_dirty e1" for f by (simp add: page_dirty_def fun_eq_iff)
  have np: "nr_pages e1 = nr_pages e" "dnv e1 = dnv e" by (simp_all add: e1_def)
  have fo: "fold (write_back_parallel n) [0..<n] (d_nv (\<lambda>m. set_consistent_data kMainData (nv_fence (nv_flush (\<lambda>_. True) m))) e1) = e1\<lparr>dnv := m3\<rparr>"
    unfolding d_write_backs d_nv_simps pdc np m3_def m2_def m1_def by (simp add: d_nv_def)
  have "d_nv (set_consistent_data kBackData) (e1\<lparr>dnv := m3\<rparr>) = e4" by (simp add: d_nv_def e4_def m4_def)
  then have r: "checkpoint K n (e, k) = Some (note_snapshot e4, k')"
    by (simp add: checkpoint_def e1 fo reset_page_map_def k' Let_def)
  have "mirrors (capacity e) (main_data e) (marked entry k' (note_snapshot e4)) (dnv (note_snapshot e4))"
    using mirrors_mono [OF nt(1)] by (simp add: c4)
  then have "dinv entry (note_snapshot e4, k') (main_data e)" using iv nt(3-5) by (simp add: dinv_def c4)
  then show ?thesis by (rule that [OF r _ nt(2)]) (use nt(3,5,6) md k' in \<open>auto simp: c4\<close>)
qed

subsection \<open>Runs, crashes and restarts\<close>

text \<open>
  Besides the stores to the pool, the process may store anywhere else (\<open>Elsewhere\<close>). After a
  crash the file may be mapped at any page, and the kernel is in any state.
\<close>

datatype event = Store nat nat | Elsewhere nat | Checkpoint nat

fun perform :: "'k kernel \<Rightarrow> event \<Rightarrow> dirtybit \<times> 'k \<Rightarrow> (dirtybit \<times> 'k) option" where
  "perform K (Store x v) s = Some (store_byte K x v s)"
| "perform K (Elsewhere q) s = Some (fst s, touch_page K q (snd s))"
| "perform K (Checkpoint n) s = checkpoint K n s"

definition start_op :: "dirtybit \<times> 'k \<Rightarrow> dirtybit \<times> 'k" where "start_op s = (d_nv nv_begin (fst s), snd s)"

definition step :: "'k kernel \<Rightarrow> event \<Rightarrow> dirtybit \<times> 'k \<Rightarrow> (dirtybit \<times> 'k) option" where
  "step K ev s = perform K ev (start_op s)"

fun allowed :: "event \<Rightarrow> dirtybit \<times> 'k \<Rightarrow> (nat \<Rightarrow> nat) \<Rightarrow> bool" where
  "allowed (Store x v) s snap = (x < get_capacity (fst s))"
| "allowed (Elsewhere q) s snap = True"
| "allowed (Checkpoint n) s snap = (0 < n)"

fun observe :: "event \<Rightarrow> dirtybit \<times> 'k \<Rightarrow> (nat \<Rightarrow> nat) \<Rightarrow> nat \<Rightarrow> nat" where
  "observe (Checkpoint n) s snap = main_data (fst s)"
| "observe _ s snap = snap"

type_synonym 'k restart = "nat \<times> 'k \<times> (vloc \<Rightarrow> nat)"

definition images :: "dirtybit \<times> 'k \<Rightarrow> 'k restart set" where
  "images s = {(addr, k, pm). addr \<noteq> 0 \<and> addr mod kPageSize = 0 \<and> pm \<in> crash_images (dnv (fst s))}"

definition good :: "'k kernel \<Rightarrow> ('k \<Rightarrow> nat \<Rightarrow> u64) \<Rightarrow> dirtybit \<times> 'k \<Rightarrow> (nat \<Rightarrow> nat) \<Rightarrow> bool" where
  "good K entry s snap \<longleftrightarrow> soft_dirty_kernel K entry \<and> dinv entry s snap"

definition recovers :: "dirtybit \<times> 'k \<Rightarrow> 'k restart \<Rightarrow> (nat \<Rightarrow> nat) \<Rightarrow> bool" where
  "recovers s r snap = (case r of (addr, k, pm) \<Rightarrow>
     addr \<noteq> 0 \<and> addr mod kPageSize = 0 \<and> v_stands (get_capacity (fst s)) snap pm)"

definition reopen :: "'k kernel \<Rightarrow> 'k restart \<Rightarrow> (dirtybit \<times> 'k) option" where
  "reopen K r = (case r of (addr, k, pm) \<Rightarrow> open_engine K addr k pm)"

lemma d_begin:
  assumes "dinv entry (e, k) snap"
  shows "dinv entry (start_op (e, k)) snap" and "crash_safe (v_stands (capacity e) snap) (nv_begin (dnv e))"
proof -
  have "marked entry k (d_nv f e) = marked entry k e" for f by (simp add: marked_def get_address_def)
  then show "dinv entry (start_op (e, k)) snap" and "crash_safe (v_stands (capacity e) snap) (nv_begin (dnv e))"
    using dinvD [OF assms] mirrors_begin [OF dinvD(4) [OF assms]] by (simp_all add: dinv_def start_op_def)
qed

lemma d_step_ok:
  assumes g: "good K entry s snap" and a: "allowed ev s snap"
  shows "\<exists>s'. step K ev s = Some s' \<and> good K entry s' (observe ev s snap) \<and> get_capacity (fst s') = get_capacity (fst s) \<and>
    (\<forall>pm \<in> images s'. recovers s pm snap \<or> recovers s pm (observe ev s snap))"
proof -
  obtain e k where s: "s = (e, k)" by (cases s)
  have K: "soft_dirty_kernel K entry" and i: "dinv entry (e, k) snap" using g by (simp_all add: good_def s)
  let ?e = "d_nv nv_begin e"
  have b: "dinv entry (?e, k) snap" "crash_safe (v_stands (capacity ?e) snap) (dnv ?e)"
    using d_begin [OF i] by (simp_all add: start_op_def)
  have md: "main_data ?e = main_data e" by (simp add: main_data_def fun_eq_iff)
  show ?thesis
  proof (cases ev)
    case (Store x v)
    then have "x < capacity ?e" using a by (simp add: s get_capacity_def)
    from d_store_ok [OF K b(1) this b(2), of v] Store K show ?thesis
      by (simp add: step_def start_op_def s good_def images_def recovers_def crash_safe_def get_capacity_def)
        (simp add: store_byte_def)
  next
    case (Elsewhere q)
    have "dinv entry (?e, touch_page K q k) snap"
      by (rule dinv_more [OF b(1)]) (rule soft_dirty_kernelD(3) [OF K], simp)
    with Elsewhere K b(2) show ?thesis
      by (simp add: step_def start_op_def s good_def images_def recovers_def crash_safe_def get_capacity_def)
  next
    case (Checkpoint n)
    then have "0 < n" using a by simp
    then obtain e' k' where c: "checkpoint K n (?e, k) = Some (e', k')" "dinv entry (e', k') (main_data ?e)"
      "crash_safe (\<lambda>pm. v_stands (capacity ?e) snap pm \<or> v_stands (capacity ?e) (main_data ?e) pm) (dnv e')"
      "capacity e' = capacity ?e"
      by (rule d_checkpoint_ok [OF K b(1) _ b(2)])
    with Checkpoint K show ?thesis
      by (simp add: step_def start_op_def s good_def images_def recovers_def crash_safe_def get_capacity_def md)
  qed
qed

interpretation dirtybit: reopenable_engine "step K" allowed observe "good K entry" images recovers "reopen K" "\<lambda>snap. snap"
  for K entry
proof
  show "good K entry s snap \<Longrightarrow> allowed ev s snap \<Longrightarrow> \<exists>s'. step K ev s = Some s' \<and> good K entry s' (observe ev s snap) \<and>
      (\<forall>pm \<in> images s'. recovers s pm snap \<or> recovers s pm (observe ev s snap))" for s snap ev
    using d_step_ok [of K entry s snap ev] by blast
  show "\<exists>s2. reopen K r = Some s2 \<and> good K entry s2 snap'" if "good K entry s snap" "recovers s r snap'" for s snap r snap'
  proof -
    obtain e k where s: "s = (e, k)" by (cases s)
    obtain addr k2 pm where r: "r = (addr, k2, pm)" by (cases r)
    have K: "soft_dirty_kernel K entry" and i: "dinv entry (e, k) snap" using that(1) by (simp_all add: good_def s)
    have m: "v_stands (capacity e) snap' pm" "addr \<noteq> 0" "addr mod kPageSize = 0"
      using that(2) by (simp_all add: recovers_def r s get_capacity_def)
    have "capacity e mod kPageSize = 0" using dinvD(1) [OF i] by simp
    then obtain e2 k3 where "open_engine K addr k2 pm = Some (e2, k3)" "dinv entry (e2, k3) snap'"
      by (rule d_open_ok [OF K m(1) dinvD(2) [OF i] _ m(2,3)])
    with K show ?thesis by (simp add: reopen_def r good_def)
  qed
qed

definition life ::
  "'k kernel \<Rightarrow> dirtybit \<times> 'k \<Rightarrow> (nat \<Rightarrow> nat) \<Rightarrow> dirtybit \<times> 'k \<Rightarrow> (nat \<Rightarrow> nat) \<Rightarrow> bool" where
  "life K = lives_once (step K) allowed observe images recovers (reopen K) (\<lambda>snap. snap)"

text \<open>A kernel whose state is the set of the pages stored to since the last clearing.\<close>

definition set_kernel :: "nat set kernel" where
  "set_kernel = \<lparr>read_pagemap = (\<lambda>k a n. Some (map (\<lambda>p. if p \<in> k then kPTESoftDirtyBit else 0) [a..<a + n])),
     write_clear_refs = (\<lambda>_. Some {}), touch_page = insert\<rparr>"

definition set_entry :: "nat set \<Rightarrow> nat \<Rightarrow> u64" where "set_entry k p = (if p \<in> k then kPTESoftDirtyBit else 0)"

lemma set_entry_bit: "bit (set_entry k p) 55 \<longleftrightarrow> p \<in> k"
  by (simp add: set_entry_def kPTESoftDirtyBit_def bit_push_bit_iff)

lemma set_kernel_ok: "soft_dirty_kernel set_kernel set_entry"
  by (simp add: soft_dirty_kernel_def set_entry_bit) (simp add: set_kernel_def set_entry_def)

lemma d_open_new:
  assumes "soft_dirty_kernel K entry" and "round_capacity wanted < 2 ^ 31" and "addr \<noteq> 0" and "addr mod kPageSize = 0"
  obtains s where "Open K True trunc wanted None addr k = Some s" "good K entry s (\<lambda>_. 0)" "get_capacity (fst s) = round_capacity wanted"
proof -
  obtain e k' where "create_engine K wanted addr k = Some (e, k')" "dinv entry (e, k') (\<lambda>_. 0)" "capacity e = round_capacity wanted"
    by (rule d_create_ok [OF assms])
  with assms(1) show ?thesis by (intro that [of "(e, k')"]) (simp_all add: Open_def good_def get_capacity_def)
qed

lemma d_life_good:
  assumes "life K s0 snap0 s snap" and "good K entry s0 snap0"
  shows "good K entry s snap"
  using dirtybit.lives_once_good [where K = K and entry = entry] assms by (simp add: life_def)

lemma good_visible: "good K entry s snap \<Longrightarrow> visible (dnv (fst s))"
  by (cases s) (auto simp: good_def dest: dinvD(4) mirrorsD(3))

lemma d_life_born: "life K s0 snap0 s0 snap0"
  by (simp add: life_def lives_once.born_once)

lemma d_life_step:
  "life K s0 snap0 s snap \<Longrightarrow> allowed ev s snap \<Longrightarrow> step K ev s = Some s' \<Longrightarrow> life K s0 snap0 s' (observe ev s snap)"
  unfolding life_def by (rule lives_once.operate_once)



subsection \<open>Two pools in one process\<close>

text \<open>
  A checkpoint that sees no page marked copies nothing: whatever the program stored, the back
  data stays what it was.
\<close>

lemma d_checkpoint_blind:
  assumes K: "soft_dirty_kernel K entry" and i: "dinv entry (e, k0) snap" and n: "0 < n"
    and clean: "\<And>p. \<not> bit (entry k p) 55"
  obtains e' k' where "checkpoint K n (e, k) = Some (e', k')" "capacity e' = capacity e"
    "mirrors (capacity e) snap UNIV (dnv e')"
proof -
  let ?a = "address_first e div kPageSize"
  define e1 where "e1 = e\<lparr>pte_buffer := map (entry k) [?a..<?a + nr_pages e]\<rparr>"
  have e1: "read_page_map K k e = Some e1" using soft_dirty_kernelD(1) [OF K] by (simp add: read_page_map_def e1_def)
  obtain k' where k': "write_clear_refs K k = Some k'" using soft_dirty_kernelD(2) [OF K] by blast
  have "filter (page_dirty e1) (share n tid (nr_pages e)) = []" for tid
    using clean by (auto simp: page_dirty_def and_soft_dirty e1_def share_def filter_empty_conv)
  moreover have "page_dirty (d_nv f e1) = page_dirty e1" for f by (simp add: page_dirty_def fun_eq_iff)
  ultimately have fo: "fold (write_back_parallel n) [0..<n] (d_nv f e1) = e1\<lparr>dnv := fold (\<lambda>tid. nv_fence) [0..<n] (f (dnv e))\<rparr>" for f
    by (simp add: d_write_backs e1_def d_nv_def)
  have fence: "evolves (\<lambda>_. False) Map.empty m (fold (\<lambda>tid. nv_fence) tids m)" for tids :: "nat list" and m :: vmem
  proof (induction tids arbitrary: m)
    case (Cons tid tids)
    show ?case using evolves_trans [OF evolves_fence Cons.IH [of "nv_fence m"]] by simp
  qed (simp add: evolves_refl)
  have mark: "evolves (\<lambda>l. False \<or> False) ([VConsistent \<mapsto> c] ++ Map.empty) m (set_consistent_data c m)" for c and m :: vmem
    unfolding set_consistent_data_def by (rule evolves_trans [OF evolves_nt evolves_fence])
  define m4 where "m4 = set_consistent_data kBackData (fold (\<lambda>tid. nv_fence) [0..<n]
      (set_consistent_data kMainData (nv_fence (nv_flush (\<lambda>_. True) (dnv e)))))"
  define V where "V = [VConsistent \<mapsto> kBackData]"
  have ev: "evolves (\<lambda>_. True) V (dnv e) m4"
    unfolding m4_def V_def
    using evolves_trans [OF evolves_trans [OF evolves_trans [OF evolves_trans [OF
        evolves_flush [of "\<lambda>_. True" "dnv e"] evolves_fence] mark [of kMainData]] fence [of _ "[0..<n]"]] mark [of kBackData]]
    by simp
  note d = mirrorsD [OF dinvD(4) [OF i]]
  have c: "cur m4 l = cur (dnv e) l" for l
    using evolves_simps(1,2) [OF ev, of l] d(2) by (cases "l = VConsistent") (simp_all add: V_def)
  have q: "quiet m4 l" if "v_kept (capacity e) kBackData l" for l
  proof (cases "l = VConsistent")
    case True
    then show ?thesis by (simp add: m4_def set_consistent_data_def)
  next
    case False
    then show ?thesis using evolves_simps(6) [OF ev d(4) [OF that]] by (simp add: V_def)
  qed
  have i4: "mirrors (capacity e) snap UNIV m4"
    using d(1,2) q evolves_visible [OF ev d(3)] v_stands_cong [OF d(1)] by (simp add: mirrors_def c)
  define e4 where "e4 = e1\<lparr>dnv := m4\<rparr>"
  have c4: "capacity e4 = capacity e" "dnv e4 = m4" by (simp_all add: e4_def e1_def)
  have r: "checkpoint K n (e, k) = Some (note_snapshot e4, k')"
    by (simp add: checkpoint_def e1 fo reset_page_map_def k' Let_def) (simp add: d_nv_def e4_def m4_def)
  have "mirrors (capacity e) snap UNIV (dnv (note_snapshot e4))"
    using d_note(1) [of e4 snap UNIV "\<lambda>_. True"] i4 by (simp add: c4 crash_safe_def)
  moreover have "capacity (note_snapshot e4) = capacity e"
    using d_note(3) [of e4 snap UNIV "\<lambda>_. True"] i4 by (simp add: c4 crash_safe_def)
  ultimately show ?thesis by (intro that [OF r])
qed

text \<open>Clearing is documented to clear the bits of every page of the process.\<close>

definition clears_all :: "'k kernel \<Rightarrow> ('k \<Rightarrow> nat \<Rightarrow> u64) \<Rightarrow> bool" where
  "clears_all K entry \<longleftrightarrow> (\<forall>k k' p. write_clear_refs K k = Some k' \<longrightarrow> \<not> bit (entry k' p) 55)"

text \<open>
  C23. Two soft-dirty pools in one process lose each other's data: \<^verbatim>\<open>clear_refs\<close> clears
  the bits of the whole process, so after a checkpoint of one pool the next checkpoint of the
  other completes without saving anything, and every later crash restores the contents the other
  pool had at its previous checkpoint.
\<close>

theorem dirtybit_pools_interfere:
  assumes "soft_dirty_kernel K entry" and "clears_all K entry"
    and "good K entry (a, k) snap_a" and "good K entry (b, k) snap_b" and "0 < n" and "0 < m"
    and "addr \<noteq> 0" and "addr mod kPageSize = 0"
  shows "\<exists>a' k1 b' k2. checkpoint K n (start_op (a, k)) = Some (a', k1) \<and> checkpoint K m (b, k1) = Some (b', k2) \<and>
    cur (dnv b') \<in> crash_images (dnv (fst (start_op (b', k2)))) \<and>
    (\<forall>pm \<in> crash_images (dnv (fst (start_op (b', k2)))). \<forall>k3. \<exists>s. Open K False False 0 (Some pm) addr k3 = Some s \<and>
       (\<forall>x < get_capacity b. main_data (fst s) x = snap_b x))"
proof -
  have ia: "dinv entry (a, k) snap_a" and ib: "dinv entry (b, k) snap_b" using assms(3,4) by (simp_all add: good_def)
  have ba: "dinv entry (d_nv nv_begin a, k) snap_a" "crash_safe (v_stands (capacity (d_nv nv_begin a)) snap_a) (dnv (d_nv nv_begin a))"
    using d_begin [OF ia] by (simp_all add: start_op_def)
  obtain a' k1 where a': "checkpoint K n (d_nv nv_begin a, k) = Some (a', k1)" "write_clear_refs K k = Some k1"
    by (rule d_checkpoint_ok [OF assms(1) ba(1) assms(5) ba(2)])
  obtain b' k2 where b': "checkpoint K m (b, k1) = Some (b', k2)" "capacity b' = capacity b" "mirrors (capacity b) snap_b UNIV (dnv b')"
    by (rule d_checkpoint_blind [OF assms(1) ib assms(6)]) (use assms(2) a'(2) in \<open>auto simp: clears_all_def\<close>)
  have cap: "capacity b < 2 ^ 31" "capacity b mod kPageSize = 0" using dinvD(1,2) [OF ib] by simp_all
  have "\<exists>s. Open K False False 0 (Some pm) addr k3 = Some s \<and> (\<forall>x < get_capacity b. main_data (fst s) x = snap_b x)"
    if pm: "pm \<in> crash_images (nv_begin (dnv b'))" for pm k3
  proof -
    have "v_stands (capacity b) snap_b pm" using mirrors_begin(2) [OF b'(3)] pm by (simp add: crash_safe_def)
    then obtain e2 k4 where "open_engine K addr k3 pm = Some (e2, k4)" "\<forall>x < capacity b. cur (dnv e2) (Main x) = snap_b x"
      by (rule d_open_ok [where k = k3, OF assms(1) _ cap assms(7,8)])
    then show ?thesis by (intro exI [of _ "(e2, k4)"]) (simp add: Open_def main_data_def get_capacity_def)
  qed
  moreover have "cur (nv_begin (dnv b')) \<in> crash_images (nv_begin (dnv b'))"
    by (rule visible_crash_image) (simp add: mirrorsD(3) [OF b'(3)])
  ultimately show ?thesis using a'(1) b'(1) by (auto simp: start_op_def)
qed

text \<open>Pools at pages 1 and 16384; 9 is stored into the second one, and lost.\<close>

theorem dirtybit_pools_interfere_witness:
  "\<exists>a b k a' k1 b' k2 s. main_data b 5 = 9 \<and> checkpoint set_kernel 1 (start_op (a, k)) = Some (a', k1) \<and>
     checkpoint set_kernel 1 (b, k1) = Some (b', k2) \<and>
     Open set_kernel False False 0 (Some (cur (dnv b'))) 4096 {} = Some s \<and> main_data (fst s) 5 = 0"
proof -
  have c: "round_capacity 0 = kMinContainerSize" by (simp add: round_capacity_def geometry)
  have o: "round_capacity 0 < 2 ^ 31" "(4096 :: nat) \<noteq> 0" "4096 mod kPageSize = 0" "(67108864 :: nat) \<noteq> 0" "67108864 mod kPageSize = 0"
    by (simp_all add: c geometry)
  have pool: "\<exists>e. good set_kernel set_entry (e, UNIV) (\<lambda>_. 0) \<and> get_capacity e = kMinContainerSize"
    if "addr \<noteq> 0" "addr mod kPageSize = 0" for addr
  proof -
    obtain s where s: "good set_kernel set_entry s (\<lambda>_. 0)" "get_capacity (fst s) = round_capacity 0"
      by (rule d_open_new [OF set_kernel_ok o(1) \<open>addr \<noteq> 0\<close> \<open>addr mod kPageSize = 0\<close>])
    obtain e k where "s = (e, k)" by (cases s)
    have "dinv set_entry (e, k) (\<lambda>_. 0)" using s(1) by (simp add: good_def \<open>s = (e, k)\<close>)
    then have "dinv set_entry (e, UNIV) (\<lambda>_. 0)" by (rule dinv_more) (simp add: set_entry_bit)
    then have "good set_kernel set_entry (e, UNIV) (\<lambda>_. 0)" by (simp add: good_def set_kernel_ok)
    with s(2) show ?thesis by (auto simp: c \<open>s = (e, k)\<close>)
  qed
  obtain a where a: "good set_kernel set_entry (a, UNIV) (\<lambda>_. 0)" using pool [OF o(2,3)] by blast
  obtain b0 where b0: "good set_kernel set_entry (b0, UNIV) (\<lambda>_. 0)" "get_capacity b0 = kMinContainerSize"
    using pool [OF o(4,5)] by blast
  have al: "allowed (Store 5 9) (b0, UNIV) (\<lambda>_. 0)" using b0(2) by (simp add: geometry)
  define b where "b = fst (store_byte set_kernel 5 9 (start_op (b0, UNIV)))"
  have "step set_kernel (Store 5 9) (b0, UNIV) = Some (b, UNIV)"
    by (simp add: step_def start_op_def store_byte_def b_def) (simp add: set_kernel_def)
  with d_step_ok [OF b0(1) al] b0(2) have b: "good set_kernel set_entry (b, UNIV) (\<lambda>_. 0)" "get_capacity b = kMinContainerSize"
    by simp_all
  have v: "main_data b 5 = 9" by (simp add: b_def store_byte_def start_op_def main_data_def)
  have cl: "clears_all set_kernel set_entry" by (simp add: clears_all_def set_entry_bit) (simp add: set_kernel_def)
  obtain a' k1 b' k2 where w: "checkpoint set_kernel 1 (start_op (a, UNIV)) = Some (a', k1)"
    "checkpoint set_kernel 1 (b, k1) = Some (b', k2)"
    "cur (dnv b') \<in> crash_images (dnv (fst (start_op (b', k2))))"
    "\<forall>pm \<in> crash_images (dnv (fst (start_op (b', k2)))). \<forall>k3. \<exists>s. Open set_kernel False False 0 (Some pm) 4096 k3 = Some s \<and>
       (\<forall>x < get_capacity b. main_data (fst s) x = 0)"
    using dirtybit_pools_interfere [where n = 1 and m = 1 and addr = 4096, OF set_kernel_ok cl a b(1)] o(3) by auto
  obtain s where "Open set_kernel False False 0 (Some (cur (dnv b'))) 4096 {} = Some s" "main_data (fst s) 5 = 0"
    using bspec [OF w(4,3), THEN spec, of "{}"] b(2) by (auto simp: geometry)
  with w(1,2) v show ?thesis by blast
qed

end
