(* ===== verification/Registry.thy ===== *)
theory Registry
  imports Prelude
begin

text \<open>
  The registry each engine class keeps of its open pools, to find the pool an address belongs to
  (\<^verbatim>\<open>Registry\<close> in \<^verbatim>\<open>nvm_inst_engine.cpp\<close>,
  \<^verbatim>\<open>mprotect_engine.cpp\<close> and the other engines, with the same text). An engine is its
  pointer; \<open>span\<close> gives its \<^verbatim>\<open>address_range\<close>. \<open>engines\<close> is a
  \<^verbatim>\<open>std::set\<close>, that is, a sorted list without repetitions.
\<close>

record registry =
  engines :: "nat list"
  default_engine :: "nat option"

definition new_registry :: registry where
  "new_registry = \<lparr>engines = [], default_engine = None\<rparr>"

definition do_register :: "nat \<Rightarrow> registry \<Rightarrow> registry" where
  "do_register engine r =
     (let r1 = r\<lparr>engines := insort_insert engine (engines r)\<rparr>
      in if default_engine r1 = None then r1\<lparr>default_engine := Some engine\<rparr> else r1)"

definition do_unregister :: "nat \<Rightarrow> registry \<Rightarrow> registry" where
  "do_unregister engine r =
     (let r1 = r\<lparr>engines := remove1 engine (engines r)\<rparr>
      in if default_engine r1 = Some engine then r1\<lparr>default_engine := None\<rparr> else r1)"

definition in_address_range :: "(nat \<Rightarrow> nat \<times> nat) \<Rightarrow> nat \<Rightarrow> nat \<Rightarrow> bool" where
  "in_address_range span addr engine \<longleftrightarrow> fst (span engine) \<le> addr \<and> addr < snd (span engine)"

definition find_engine :: "(nat \<Rightarrow> nat \<times> nat) \<Rightarrow> nat \<Rightarrow> registry \<Rightarrow> nat option" where
  "find_engine span addr r =
     (case default_engine r of
        Some d \<Rightarrow> if in_address_range span addr d then Some d
          else if length (engines r) = 1 then None else List.find (in_address_range span addr) (engines r)
      | None \<Rightarrow> if length (engines r) = 1 then None else List.find (in_address_range span addr) (engines r))"

definition get_unique_engine :: "registry \<Rightarrow> nat option" where
  "get_unique_engine r = (if length (engines r) \<noteq> 1 then None else default_engine r)"

text \<open>
  Every state a program can bring the registry into, by opening and closing pools.
\<close>

datatype reg_op = Register nat | Unregister nat

fun reg_step :: "reg_op \<Rightarrow> registry \<Rightarrow> registry" where
  "reg_step (Register p) r = do_register p r"
| "reg_step (Unregister p) r = do_unregister p r"

definition registered :: "reg_op list \<Rightarrow> registry" where "registered ops = fold reg_step ops new_registry"

lemma registered_inv:
  "sorted (engines (registered ops)) \<and> distinct (engines (registered ops)) \<and>
   set_option (default_engine (registered ops)) \<subseteq> set (engines (registered ops))"
proof (induction ops rule: rev_induct)
  case (snoc op ops)
  then show ?case
    by (cases op; cases "default_engine (registered ops)")
      (auto simp: registered_def do_register_def do_unregister_def Let_def sorted_insort_insert set_insort_insert
        sorted_remove1 distinct_insort_insert)
qed (simp add: registered_def new_registry_def)

text \<open>The pools that are open, in the order of a specification by sets.\<close>

fun open_pools :: "reg_op list \<Rightarrow> nat set" where
  "open_pools [] = {}"
| "open_pools (op # ops) = (case op of Register p \<Rightarrow> insert p (open_pools ops) | Unregister p \<Rightarrow> open_pools ops - {p})"

lemma registered_engines: "set (engines (registered ops)) = open_pools (rev ops)"
proof (induction ops rule: rev_induct)
  case (snoc op ops)
  then show ?case using registered_inv [of ops]
    by (cases op) (auto simp: registered_def do_register_def do_unregister_def Let_def set_insort_insert)
qed (simp add: registered_def new_registry_def)

definition disjoint_ranges :: "(nat \<Rightarrow> nat \<times> nat) \<Rightarrow> nat set \<Rightarrow> bool" where
  "disjoint_ranges span P \<longleftrightarrow> (\<forall>p \<in> P. \<forall>q \<in> P. \<forall>a. in_address_range span a p \<longrightarrow> in_address_range span a q \<longrightarrow> p = q)"

text \<open>
  C25. The registry finds the pool an address belongs to: after any sequence of registrations and
  removals of pools that do not overlap, the lookup returns exactly the open pool whose span
  holds the address, as long as a default pool is set or the number of open pools is not one.
\<close>

theorem registry_finds:
  assumes "disjoint_ranges span (open_pools (rev ops))"
    and "default_engine (registered ops) \<noteq> None \<or> card (open_pools (rev ops)) \<noteq> 1"
  shows "find_engine span addr (registered ops) = Some p \<longleftrightarrow> p \<in> open_pools (rev ops) \<and> in_address_range span addr p"
proof -
  let ?r = "registered ops"
  note inv = registered_inv [of ops]
  have l: "length (engines ?r) = card (open_pools (rev ops))"
    using inv distinct_card [of "engines ?r"] by (simp add: registered_engines)
  have one: "q \<in> open_pools (rev ops) \<Longrightarrow> in_address_range span addr q \<Longrightarrow> in_address_range span addr p \<Longrightarrow>
      p \<in> open_pools (rev ops) \<Longrightarrow> p = q" for p q
    using assms(1) by (auto simp: disjoint_ranges_def)
  have f: "List.find (in_address_range span addr) (engines ?r) = Some p \<longleftrightarrow>
      p \<in> open_pools (rev ops) \<and> in_address_range span addr p"
  proof (cases "List.find (in_address_range span addr) (engines ?r)")
    case None
    then have "\<forall>x \<in> open_pools (rev ops). \<not> in_address_range span addr x"
      by (simp add: find_None_iff registered_engines)
    with None show ?thesis by auto
  next
    case (Some q)
    then have "q \<in> open_pools (rev ops)" "in_address_range span addr q"
      using find_Some_iff [of "in_address_range span addr" "engines ?r" q] nth_mem registered_engines by fastforce+
    with one show ?thesis using Some by auto
  qed
  show ?thesis
  proof (cases "default_engine ?r")
    case None
    then show ?thesis using assms(2) f by (simp add: find_engine_def l)
  next
    case (Some d)
    then have d: "d \<in> open_pools (rev ops)" using inv by (simp add: registered_engines)
    have "card (open_pools (rev ops)) = 1 \<Longrightarrow> open_pools (rev ops) = {d}"
      using d by (metis card_1_singletonE singletonD)
    then show ?thesis using Some one d f by (auto simp: find_engine_def l)
  qed
qed

theorem registry_finds_witness:
  "find_engine (\<lambda>p. (100 * p, 100 * p + 50)) 720 (registered [Register 3, Register 7, Register 5, Unregister 3]) = Some 7"
proof -
  have "disjoint_ranges (\<lambda>p. (100 * p, 100 * p + 50)) (open_pools (rev [Register 3, Register 7, Register 5, Unregister 3]))"
    by (auto simp: disjoint_ranges_def in_address_range_def)
  from registry_finds [OF this, of 720 7] show ?thesis by (simp add: in_address_range_def)
qed

text \<open>
  With two pools open, closing the default one makes the registry blind: no default is set and
  the remaining pool is the only one, so every lookup fails, also of its own addresses.
\<close>

lemma registry_blind:
  assumes "default_engine (registered ops) = Some p" and "open_pools (rev ops) = {p, q}" and "p \<noteq> q"
  shows "open_pools (rev (ops @ [Unregister p])) = {q}" and "find_engine span addr (registered (ops @ [Unregister p])) = None"
proof -
  have "set (engines (registered (ops @ [Unregister p]))) = {q}" "distinct (engines (registered (ops @ [Unregister p])))"
    using registered_engines [of "ops @ [Unregister p]"] registered_inv [of "ops @ [Unregister p]"] assms by auto
  then have "length (engines (registered (ops @ [Unregister p]))) = 1" using distinct_card by fastforce
  moreover have "default_engine (registered (ops @ [Unregister p])) = None"
    using assms(1) by (simp add: registered_def do_unregister_def)
  ultimately show "find_engine span addr (registered (ops @ [Unregister p])) = None" by (simp add: find_engine_def)
  show "open_pools (rev (ops @ [Unregister p])) = {q}" using assms(2,3) by auto
qed

end
