(* ===== verification/MProtect.thy ===== *)
theory MProtect
  imports Metadata Engine_Spec Registry
begin

text \<open>
  \<^verbatim>\<open>engines/mprotect_engine.cpp\<close>: the engine that write-protects the data and learns
  from the faults which regions are written. The kernel's page protection is the argument
  \<open>K\<close> of the definitions; the theorems name what is documented of \<^verbatim>\<open>mprotect\<close>.
\<close>

definition kRegionSize :: nat where "kRegionSize = 4096"
definition kMaxFlushRegions :: nat where "kMaxFlushRegions = 8192"
definition SIGSEGV :: nat where "SIGSEGV = 11"
definition SEGV_ACCERR :: nat where "SEGV_ACCERR = 2"

lemmas mprotect_constants [geometry] = kRegionSize_def kMaxFlushRegions_def SIGSEGV_def SEGV_ACCERR_def

record 'k protection =
  mprotect :: "nat \<Rightarrow> nat \<Rightarrow> bool \<Rightarrow> 'k \<Rightarrow> 'k option"
  can_write :: "'k \<Rightarrow> nat \<Rightarrow> bool"

datatype flush_mode = FMODE_NO_ACTION | FMODE_USE_FLUSH_BLOCKS | FMODE_WBINVD

record mprot =
  pnv :: vmem
  nr_regions :: nat
  capacity :: nat
  has_snapshot :: bool
  address_first :: nat
  region_dirty :: bitset
  flush_regions :: "nat \<Rightarrow> nat list"
  mode :: flush_mode

definition p_nv :: "(vmem \<Rightarrow> vmem) \<Rightarrow> mprot \<Rightarrow> mprot" where
  "p_nv f e = e\<lparr>pnv := f (pnv e)\<rparr>"

lemma p_nv_simps [simp]:
  "pnv (p_nv f e) = f (pnv e)" "nr_regions (p_nv f e) = nr_regions e" "capacity (p_nv f e) = capacity e"
  "has_snapshot (p_nv f e) = has_snapshot e" "address_first (p_nv f e) = address_first e"
  "region_dirty (p_nv f e) = region_dirty e" "flush_regions (p_nv f e) = flush_regions e" "mode (p_nv f e) = mode e"
  by (simp_all add: p_nv_def)

definition get_address :: "nat \<Rightarrow> mprot \<Rightarrow> nat" where "get_address offset e = address_first e + offset"
definition get_capacity :: "mprot \<Rightarrow> nat" where "get_capacity e = nr_regions e * kRegionSize"
definition exist_snapshot :: "mprot \<Rightarrow> bool" where "exist_snapshot e = has_snapshot_flag (cur (pnv e))"

subsection \<open>Protection and faults\<close>

text \<open>A failing \<^verbatim>\<open>mprotect\<close> makes the process exit.\<close>

definition protect_regions :: "'k protection \<Rightarrow> nat \<Rightarrow> nat \<Rightarrow> bool \<Rightarrow> mprot \<Rightarrow> 'k \<Rightarrow> 'k option" where
  "protect_regions K region_id count writable e =
     mprotect K (get_address (region_id * kRegionSize) e) (count * kRegionSize) writable"

definition sigfault_handler :: "'k protection \<Rightarrow> nat \<Rightarrow> nat \<Rightarrow> mprot \<times> 'k \<Rightarrow> (mprot \<times> 'k) option" where
  "sigfault_handler K tid addr s = (case s of (e, k) \<Rightarrow>
     let region_id = (addr - address_first e) div kRegionSize;
         e1 = e\<lparr>region_dirty := bs_set region_id (region_dirty e)\<rparr>
     in map_option (\<lambda>k'. (if length (flush_regions e1 tid) \<noteq> kMaxFlushRegions
            then e1\<lparr>flush_regions := (flush_regions e1)(tid := flush_regions e1 tid @ [region_id])\<rparr> else e1, k'))
          (protect_regions K region_id 1 True e1 k))"

text \<open>
  The handler of the process, for a registry in which \<open>self\<close> is the engine at hand:
  everything but a write to one of the pools is reported and ends the process.
\<close>

definition SegfaultHandlerProc ::
  "'k protection \<Rightarrow> (nat \<Rightarrow> nat \<times> nat) \<Rightarrow> registry \<Rightarrow> nat \<Rightarrow> nat \<Rightarrow> nat \<Rightarrow> nat \<Rightarrow> nat \<Rightarrow> nat \<Rightarrow> mprot \<times> 'k \<Rightarrow>
   (mprot \<times> 'k) option" where
  "SegfaultHandlerProc K span r self nested sig si_code tid addr s =
     (if nested \<noteq> 0 then None
      else if sig \<noteq> SIGSEGV then None
      else if si_code AND SEGV_ACCERR = 0 then None
      else case find_engine span addr r of None \<Rightarrow> None
        | Some engine \<Rightarrow> if engine = self then sigfault_handler K tid addr s else Some s)"

text \<open>
  A store of thread \<open>tid\<close>: if the page is protected the fault is handled and the instruction
  runs again. One that faults again would fault for ever.
\<close>

definition own_span :: "mprot \<Rightarrow> nat \<Rightarrow> nat \<times> nat" where
  "own_span e p = (address_first e, address_first e + capacity e)"

definition store_byte :: "'k protection \<Rightarrow> registry \<Rightarrow> nat \<Rightarrow> nat \<Rightarrow> nat \<Rightarrow> nat \<Rightarrow> mprot \<times> 'k \<Rightarrow> (mprot \<times> 'k) option" where
  "store_byte K r self tid x v s =
     (let addr = get_address x (fst s) in
      Option.bind (if can_write K (snd s) addr then Some s
          else SegfaultHandlerProc K (own_span (fst s)) r self 0 SIGSEGV SEGV_ACCERR tid addr s)
        (\<lambda>(e, k). if can_write K k addr then Some (p_nv (nv_store [Main x \<mapsto> v]) e, k) else None))"

subsection \<open>Opening a pool\<close>

definition start_engine :: "'k protection \<Rightarrow> 'k \<Rightarrow> nat \<Rightarrow> nat \<Rightarrow> bool \<Rightarrow> vmem \<Rightarrow> (mprot \<times> 'k) option" where
  "start_engine K k addr cap snapshot m =
     Option.bind (bs_allocate (cap div kRegionSize) bs_new) (\<lambda>dirty.
       let e = \<lparr>pnv = m, nr_regions = cap div kRegionSize, capacity = cap, has_snapshot = snapshot,
                address_first = addr + cur m VMainData, region_dirty = dirty, flush_regions = (\<lambda>_. []), mode = FMODE_NO_ACTION\<rparr>
       in map_option (Pair e) (protect_regions K 0 (nr_regions e) False e k))"

definition round_capacity :: "nat \<Rightarrow> nat" where
  "round_capacity wanted =
     (let c = max wanted kMinContainerSize in if c mod kRegionSize \<noteq> 0 then (c div kRegionSize + 1) * kRegionSize else c)"

definition create_engine :: "'k protection \<Rightarrow> nat \<Rightarrow> nat \<Rightarrow> 'k \<Rightarrow> (mprot \<times> 'k) option" where
  "create_engine K wanted addr k =
     (let cap = round_capacity wanted
      in Option.bind (create_metadata addr cap (nv_init (\<lambda>_. 0))) (start_engine K k addr cap False))"

definition open_engine :: "'k protection \<Rightarrow> nat \<Rightarrow> 'k \<Rightarrow> (vloc \<Rightarrow> nat) \<Rightarrow> (mprot \<times> 'k) option" where
  "open_engine K addr k pm =
     Option.bind (open_metadata addr (nv_init pm)) (\<lambda>m.
       if cur m VCapacity mod kRegionSize \<noteq> 0 then None
       else Option.bind (recover_data m) (\<lambda>m. start_engine K k addr (cur m VCapacity) (has_snapshot_flag (cur m)) m))"

definition Open ::
  "'k protection \<Rightarrow> bool \<Rightarrow> bool \<Rightarrow> nat \<Rightarrow> (vloc \<Rightarrow> nat) option \<Rightarrow> nat \<Rightarrow> 'k \<Rightarrow> (mprot \<times> 'k) option" where
  "Open K may_create trunc wanted file addr k =
     (if may_create \<and> (trunc \<or> file = None) then create_engine K wanted addr k
      else Option.bind file (open_engine K addr k))"

subsection \<open>Checkpoint\<close>

definition decide_mode :: "mprot \<Rightarrow> flush_mode" where
  "decide_mode e =
     (if \<forall>i \<in> set [0..<kMaxThreads]. flush_regions e i = [] then FMODE_NO_ACTION
      else if \<exists>i \<in> set [0..<kMaxThreads]. length (flush_regions e i) = kMaxFlushRegions then FMODE_WBINVD
      else FMODE_USE_FLUSH_BLOCKS)"

fun in_main_region :: "nat \<Rightarrow> vloc \<Rightarrow> bool" where
  "in_main_region r (Main x) = (x div kRegionSize = r)"
| "in_main_region r _ = False"

definition flush_parallel :: "nat \<Rightarrow> nat \<Rightarrow> mprot \<Rightarrow> mprot" where
  "flush_parallel n tid e =
     p_nv nv_fence
       (if mode e = FMODE_WBINVD
        then (if tid = 0 then p_nv (nv_flush (\<lambda>_. True)) e else e)
        else p_nv (fold (\<lambda>i. fold (\<lambda>r. nv_flush (in_main_region r)) (flush_regions e i)) (share n tid kMaxThreads)) e)"

definition write_back_parallel :: "nat \<Rightarrow> nat \<Rightarrow> mprot \<Rightarrow> mprot" where
  "write_back_parallel n tid e =
     p_nv nv_fence
       (if mode e = FMODE_WBINVD
        then p_nv (fold (copy_part kRegionSize) (filter (\<lambda>r. bs_test r (region_dirty e)) (share n tid (nr_regions e)))) e
        else p_nv (fold (\<lambda>i. fold (copy_part kRegionSize) (flush_regions e i)) (share n tid kMaxThreads)) e)"

definition clear_dirty_bits_parallel :: "nat \<Rightarrow> nat \<Rightarrow> mprot \<Rightarrow> mprot" where
  "clear_dirty_bits_parallel n tid e =
     (if mode e = FMODE_WBINVD
      then e\<lparr>region_dirty := fold (\<lambda>w. bs_clear_all (w * kBitWidth)) (share n tid (nr_words (nr_regions e))) (region_dirty e)\<rparr>
      else e\<lparr>region_dirty := fold (\<lambda>i. fold bs_clear_all (flush_regions e i)) (share n tid kMaxThreads) (region_dirty e)\<rparr>)"

definition note_snapshot :: "mprot \<Rightarrow> mprot" where
  "note_snapshot e = (if has_snapshot e then e else (p_nv (set_attributes kAttributeHasSnapshot) e)\<lparr>has_snapshot := True\<rparr>)"

definition checkpoint :: "'k protection \<Rightarrow> nat \<Rightarrow> mprot \<times> 'k \<Rightarrow> (mprot \<times> 'k) option" where
  "checkpoint K n s = (case s of (e, k) \<Rightarrow>
     let e1 = e\<lparr>mode := decide_mode e\<rparr> in
     if mode e1 = FMODE_NO_ACTION then Some (e1, k)
     else let e2 = p_nv (set_consistent_data kMainData) (fold (flush_parallel n) [0..<n] e1)
          in map_option (\<lambda>k'.
            let e3 = fold (write_back_parallel n) [0..<n] e2;
                e4 = p_nv (set_consistent_data kBackData) (fold (clear_dirty_bits_parallel n) [0..<n] e3)
            in (note_snapshot (e4\<lparr>flush_regions := (\<lambda>i. if i < kMaxThreads then [] else flush_regions e4 i)\<rparr>), k'))
          (protect_regions K 0 (nr_regions e2) False e2 k))"

subsection \<open>The kernel and the invariant\<close>

text \<open>
  What \<^verbatim>\<open>mprotect(2)\<close> promises of a page-aligned range of mapped pages: the call
  succeeds, the pages in it get the protection asked for, and no other page changes.
\<close>

definition protection_works :: "'k protection \<Rightarrow> bool" where
  "protection_works K \<longleftrightarrow> (\<forall>k a len w. a mod kPageSize = 0 \<longrightarrow> (\<exists>k'. mprotect K a (len * kPageSize) w k = Some k' \<and>
     (\<forall>x. can_write K k' x = (if a \<le> x \<and> x < a + len * kPageSize then w else can_write K k x))))"

definition dirty_bytes :: "mprot \<Rightarrow> nat set" where
  "dirty_bytes e = {x. bs_test (x div kRegionSize) (region_dirty e)}"

definition none_full :: "mprot \<Rightarrow> bool" where
  "none_full e \<longleftrightarrow> (\<forall>i < kMaxThreads. length (flush_regions e i) \<noteq> kMaxFlushRegions)"

text \<open>
  A writable byte is in a region marked dirty; every dirty region is in some bucket, unless a
  bucket is full; the buckets hold dirty regions only and stay within their arrays.
\<close>

definition tracked :: "'k protection \<Rightarrow> mprot \<Rightarrow> 'k \<Rightarrow> bool" where
  "tracked K e k \<longleftrightarrow>
     (\<forall>x < capacity e. can_write K k (get_address x e) \<longrightarrow> x \<in> dirty_bytes e) \<and>
     (\<forall>r. bs_test r (region_dirty e) \<longrightarrow> r < nr_regions e) \<and>
     (\<forall>i < kMaxThreads. (\<forall>r \<in> set (flush_regions e i). bs_test r (region_dirty e)) \<and> length (flush_regions e i) \<le> kMaxFlushRegions) \<and>
     (none_full e \<longrightarrow> (\<forall>r. bs_test r (region_dirty e) \<longrightarrow> (\<exists>i < kMaxThreads. r \<in> set (flush_regions e i))))"

definition pinv :: "'k protection \<Rightarrow> mprot \<times> 'k \<Rightarrow> (nat \<Rightarrow> nat) \<Rightarrow> bool" where
  "pinv K s snap \<longleftrightarrow> (case s of (e, k) \<Rightarrow> capacity e = nr_regions e * kRegionSize \<and> capacity e < 2 ^ 31 \<and>
     address_first e mod kPageSize = 0 \<and> mirrors (capacity e) snap (dirty_bytes e) (pnv e) \<and> tracked K e k)"

lemma pinvD:
  assumes "pinv K (e, k) snap"
  shows "capacity e = nr_regions e * kRegionSize" "capacity e < 2 ^ 31" "address_first e mod kPageSize = 0"
    "mirrors (capacity e) snap (dirty_bytes e) (pnv e)" "tracked K e k"
  using assms unfolding pinv_def prod.case by blast+

lemma trackedD:
  assumes "tracked K e k"
  shows "x < capacity e \<Longrightarrow> can_write K k (get_address x e) \<Longrightarrow> x \<in> dirty_bytes e"
    "bs_test r (region_dirty e) \<Longrightarrow> r < nr_regions e"
    "i < kMaxThreads \<Longrightarrow> r \<in> set (flush_regions e i) \<Longrightarrow> bs_test r (region_dirty e)"
    "i < kMaxThreads \<Longrightarrow> length (flush_regions e i) \<le> kMaxFlushRegions"
    "none_full e \<Longrightarrow> bs_test r (region_dirty e) \<Longrightarrow> \<exists>i < kMaxThreads. r \<in> set (flush_regions e i)"
  using assms unfolding tracked_def by blast+

lemma protect_ok:
  assumes K: "protection_works K" and a: "address_first e mod kPageSize = 0"
  obtains k' where "protect_regions K r n w e k = Some k'"
    "\<forall>x. can_write K k' (get_address x e) =
       (if r * kRegionSize \<le> x \<and> x < (r + n) * kRegionSize then w else can_write K k (get_address x e))"
proof -
  have al: "get_address (r * kRegionSize) e mod kPageSize = 0" using a by (auto simp: get_address_def geometry)
  obtain k' where k': "mprotect K (get_address (r * kRegionSize) e) (n * kPageSize) w k = Some k'"
    "\<forall>x. can_write K k' x = (if get_address (r * kRegionSize) e \<le> x \<and> x < get_address (r * kRegionSize) e + n * kPageSize
       then w else can_write K k x)"
    using K [unfolded protection_works_def, rule_format, OF al, of n w k] by blast
  have "kPageSize = kRegionSize" by (simp add: geometry)
  with k' show ?thesis
    by (intro that [of k']) (simp_all add: protect_regions_def get_address_def algebra_simps)
qed

subsection \<open>Opening\<close>

lemma p_start:
  assumes K: "protection_works K" and i: "mirrors cap snap {} m" and cap: "cap < 2 ^ 31" "cap mod kRegionSize = 0"
    and addr: "addr mod kPageSize = 0"
  obtains e k' where "start_engine K k addr cap b m = Some (e, k')" "pinv K (e, k') snap" "capacity e = cap" "pnv e = m"
proof -
  obtain bs where bs: "bs_allocate (cap div kRegionSize) bs_new = Some bs" by (simp add: bs_allocate_def bs_new_def)
  define e where "e = \<lparr>pnv = m, nr_regions = cap div kRegionSize, capacity = cap, has_snapshot = b,
      address_first = addr + cur m VMainData, region_dirty = bs, flush_regions = (\<lambda>_. []), mode = FMODE_NO_ACTION\<rparr>"
  have f: "capacity e = cap" "pnv e = m" by (simp_all add: e_def)
  have "kHugePageSize mod kPageSize = 0" by (simp add: geometry)
  then have al: "address_first e mod kPageSize = 0"
    using mirrorsD(1) [OF i] addr mod_add_eq [of addr kPageSize kHugePageSize] by (simp add: v_stands_def e_def)
  have c: "cap = cap div kRegionSize * kRegionSize" using cap(2) by auto
  obtain k' where k': "protect_regions K 0 (nr_regions e) False e k = Some k'"
    "\<forall>x. can_write K k' (get_address x e) =
       (if 0 * kRegionSize \<le> x \<and> x < (0 + nr_regions e) * kRegionSize then False else can_write K k (get_address x e))"
    by (rule protect_ok [OF K al])
  have ro: "\<not> can_write K k' (get_address x e)" if "x < cap" for x using k'(2) that c by (simp add: e_def)
  have "tracked K e k'"
    using bs_allocate_new [OF bs] ro by (simp add: tracked_def e_def)
  then have "pinv K (e, k') snap"
    using mirrors_mono [OF i, of "dirty_bytes e"] cap(1) al c by (simp add: pinv_def e_def)
  moreover have "start_engine K k addr cap b m = Some (e, k')"
    using k'(1) by (simp add: start_engine_def bs Let_def e_def)
  ultimately show ?thesis using f by (intro that)
qed

lemma p_create_ok:
  assumes K: "protection_works K" and cap: "round_capacity wanted < 2 ^ 31" and addr: "addr \<noteq> 0" "addr mod kPageSize = 0"
  obtains e k' where "create_engine K wanted addr k = Some (e, k')" "pinv K (e, k') (\<lambda>_. 0)"
    "capacity e = round_capacity wanted"
proof -
  have r: "round_capacity wanted mod kRegionSize = 0" "round_capacity wanted \<noteq> 0"
    by (simp_all add: round_capacity_def Let_def geometry) (auto simp: max_def split: if_splits)
  obtain m where m: "create_metadata addr (round_capacity wanted) (nv_init (\<lambda>_. 0)) = Some m" "mirrors (round_capacity wanted) (\<lambda>_. 0) {} m"
    by (rule mirror_create_ok [OF addr(1) r(2), of "\<lambda>_. 0"]) simp_all
  obtain e k' where e: "start_engine K k addr (round_capacity wanted) False m = Some (e, k')" "pinv K (e, k') (\<lambda>_. 0)"
      "capacity e = round_capacity wanted"
    by (rule p_start [OF K m(2) cap r(1) addr(2)])
  show ?thesis by (rule that [OF _ e(2,3)]) (simp add: create_engine_def m(1) e(1))
qed

lemma p_open_ok:
  assumes K: "protection_works K" and s: "v_stands cap snap pm" and cap: "cap < 2 ^ 31" "cap mod kRegionSize = 0"
    and addr: "addr \<noteq> 0" "addr mod kPageSize = 0"
  obtains e k' where "open_engine K addr k pm = Some (e, k')" "pinv K (e, k') snap" "capacity e = cap"
    "\<forall>x < cap. cur (pnv e) (Main x) = snap x"
proof -
  obtain m where m: "recover_data (nv_init pm) = Some m" "mirrors cap snap {} m" by (rule mirror_recover_ok [OF s cap(1)])
  have c: "cur m VCapacity = cap" using mirrorsD(1) [OF m(2)] by (simp add: v_stands_def)
  obtain e k' where e: "start_engine K k addr cap (has_snapshot_flag (cur m)) m = Some (e, k')" "pinv K (e, k') snap"
      "capacity e = cap" "pnv e = m"
    by (rule p_start [OF K m(2) cap addr(2)])
  show ?thesis
  proof (rule that [OF _ e(2,3)])
    show "open_engine K addr k pm = Some (e, k')"
      using s addr cap(2) by (simp add: open_engine_def open_metadata_def v_stands_def m(1) c e(1))
    show "\<forall>x < cap. cur (pnv e) (Main x) = snap x" using mirrorsD(5) [OF m(2)] by (simp add: e(4))
  qed
qed

subsection \<open>Faults and stores\<close>

definition only_pool :: registry where "only_pool = registered [Register 0]"

lemma only_pool_finds: "x < capacity e \<Longrightarrow> find_engine (own_span e) (get_address x e) only_pool = Some 0"
  by (simp add: only_pool_def registered_def do_register_def new_registry_def find_engine_def in_address_range_def
      own_span_def get_address_def Let_def)

text \<open>The handler marks the region, makes it writable and lists it.\<close>

lemma p_fault_ok:
  assumes K: "protection_works K" and i: "pinv K (e, k) snap" and x: "x < capacity e" and tid: "tid < kMaxThreads"
  obtains e' k' where "sigfault_handler K tid (get_address x e) (e, k) = Some (e', k')" "pinv K (e', k') snap"
    "can_write K k' (get_address x e')" "x \<in> dirty_bytes e'" "pnv e' = pnv e" "capacity e' = capacity e" "address_first e' = address_first e"
proof -
  note iv = pinvD [OF i]
  let ?r = "x div kRegionSize"
  have rg: "0 < kRegionSize" by (simp add: geometry)
  have r: "(get_address x e - address_first e) div kRegionSize = ?r" by (simp add: get_address_def)
  have rn: "?r < nr_regions e" using x iv(1) by (simp add: div_lt_mult_iff rg)
  define e1 where "e1 = e\<lparr>region_dirty := bs_set ?r (region_dirty e)\<rparr>"
  have al: "address_first e1 mod kPageSize = 0" using iv(3) by (simp add: e1_def)
  obtain k' where k': "protect_regions K ?r 1 True e1 k = Some k'"
    "\<forall>y. can_write K k' (get_address y e1) =
       (if ?r * kRegionSize \<le> y \<and> y < (?r + 1) * kRegionSize then True else can_write K k (get_address y e1))"
    by (rule protect_ok [where r = ?r and n = 1 and w = True and k = k, OF K al])
  define e' where "e' = (if length (flush_regions e1 tid) \<noteq> kMaxFlushRegions
      then e1\<lparr>flush_regions := (flush_regions e1)(tid := flush_regions e1 tid @ [?r])\<rparr> else e1)"
  have f: "pnv e' = pnv e" "capacity e' = capacity e" "address_first e' = address_first e" "nr_regions e' = nr_regions e"
    "region_dirty e' = bs_set ?r (region_dirty e)" "get_address y e1 = get_address y e" "get_address y e' = get_address y e" for y
    by (simp_all add: e'_def e1_def get_address_def)
  have fr: "flush_regions e' i = (if i = tid \<and> length (flush_regions e tid) \<noteq> kMaxFlushRegions
      then flush_regions e tid @ [?r] else flush_regions e i)" for i
    by (simp add: e'_def e1_def)
  have h: "sigfault_handler K tid (get_address x e) (e, k) = Some (e', k')"
    unfolding sigfault_handler_def prod.case r Let_def e1_def [symmetric] k'(1) by (simp add: e'_def)
  have inr: "?r * kRegionSize \<le> y \<and> y < (?r + 1) * kRegionSize \<longleftrightarrow> y div kRegionSize = ?r" for y
    using div_eq_range [OF rg, of y ?r] by (auto simp: algebra_simps)
  have d: "dirty_bytes e' = dirty_bytes e \<union> {y. y div kRegionSize = ?r}" by (auto simp: dirty_bytes_def f)
  note t = trackedD [OF iv(5)]
  have "tracked K e' k'"
    unfolding tracked_def
  proof (intro conjI allI impI ballI)
    show "y \<in> dirty_bytes e'" if "y < capacity e'" "can_write K k' (get_address y e')" for y
      using k'(2) that t(1) inr by (auto simp: f d split: if_splits)
    show "q < nr_regions e'" if "bs_test q (region_dirty e')" for q using that rn t(2) by (auto simp: f)
    show "bs_test q (region_dirty e')" if "i < kMaxThreads" "q \<in> set (flush_regions e' i)" for i q
      using that t(3) by (auto simp: f fr split: if_splits)
    show "length (flush_regions e' i) \<le> kMaxFlushRegions" if "i < kMaxThreads" for i
      using t(4) [OF that] t(4) [OF tid] by (simp add: fr)
    show "\<exists>i < kMaxThreads. q \<in> set (flush_regions e' i)" if nf: "none_full e'" and q: "bs_test q (region_dirty e')" for q
    proof -
      have nt: "length (flush_regions e tid) \<noteq> kMaxFlushRegions"
        using nf tid by (auto simp: none_full_def fr split: if_splits)
      show ?thesis
      proof (cases "q = ?r")
        case True
        then show ?thesis using nt tid by (intro exI [of _ tid]) (simp add: fr)
      next
        case False
        have "length (flush_regions e i) \<noteq> kMaxFlushRegions" if "i < kMaxThreads" for i
          using nf that nt by (cases "i = tid") (auto simp: none_full_def fr)
        then have "none_full e" by (simp add: none_full_def)
        then obtain i where "i < kMaxThreads" "q \<in> set (flush_regions e i)" using t(5) q False by (auto simp: f)
        then show ?thesis by (intro exI [of _ i]) (auto simp: fr)
      qed
    qed
  qed
  moreover have "mirrors (capacity e) snap (dirty_bytes e') (pnv e)" by (rule mirrors_mono [OF iv(4)]) (simp add: d)
  ultimately have "pinv K (e', k') snap" using iv(1-3) by (simp add: pinv_def f)
  then show ?thesis
    by (rule that [OF h]) (use k'(2) inr [of x] in \<open>simp_all add: f d\<close>)
qed

lemma p_store_ok:
  assumes K: "protection_works K" and i: "pinv K (e, k) snap" and x: "x < capacity e" and tid: "tid < kMaxThreads"
    and s: "crash_safe (v_stands (capacity e) snap) (pnv e)"
  obtains e' k' where "store_byte K only_pool 0 tid x v (e, k) = Some (e', k')" "pinv K (e', k') snap" "capacity e' = capacity e"
    "crash_safe (v_stands (capacity e) snap) (pnv e')" "\<forall>y. cur (pnv e') (Main y) = (if y = x then v else cur (pnv e) (Main y))"
proof -
  obtain e1 k1 where h: "(if can_write K k (get_address x e) then Some (e, k)
        else SegfaultHandlerProc K (own_span e) only_pool 0 0 SIGSEGV SEGV_ACCERR tid (get_address x e) (e, k)) = Some (e1, k1)"
    and e1: "pinv K (e1, k1) snap" "can_write K k1 (get_address x e1)" "x \<in> dirty_bytes e1" "pnv e1 = pnv e"
      "capacity e1 = capacity e" "address_first e1 = address_first e"
  proof (cases "can_write K k (get_address x e)")
    case True
    then show ?thesis using that [of e k] i trackedD(1) [OF pinvD(5) [OF i] x] by simp
  next
    case False
    obtain e1 k1 where f: "sigfault_handler K tid (get_address x e) (e, k) = Some (e1, k1)" "pinv K (e1, k1) snap"
      "can_write K k1 (get_address x e1)" "x \<in> dirty_bytes e1" "pnv e1 = pnv e" "capacity e1 = capacity e" "address_first e1 = address_first e"
      by (rule p_fault_ok [OF K i x tid])
    have "SegfaultHandlerProc K (own_span e) only_pool 0 0 SIGSEGV SEGV_ACCERR tid (get_address x e) (e, k) = Some (e1, k1)"
      by (simp add: SegfaultHandlerProc_def only_pool_finds [OF x] f(1)) (simp add: SEGV_ACCERR_def)
    with False f(2-) show ?thesis by (intro that [of e1 k1]) simp_all
  qed
  have a: "get_address x e1 = get_address x e" by (simp add: get_address_def e1(6))
  define e2 where "e2 = p_nv (nv_store [Main x \<mapsto> v]) e1"
  have r: "store_byte K only_pool 0 tid x v (e, k) = Some (e2, k1)"
    unfolding store_byte_def Let_def fst_conv snd_conv h using e1(2) by (simp add: a e2_def)
  note st = mirrors_store [OF pinvD(4) [OF e1(1)] e1(3), of v]
  have fr: "dirty_bytes (p_nv f e1) = dirty_bytes e1" "tracked K (p_nv f e1) k1 = tracked K e1 k1" for f
    by (simp_all add: dirty_bytes_def tracked_def none_full_def get_address_def)
  have "pinv K (e2, k1) snap" using pinvD [OF e1(1)] st(1) unfolding e2_def pinv_def prod.case fr by simp
  then show ?thesis by (rule that [OF r]) (use st(2) s in \<open>simp_all add: e2_def e1(4,5)\<close>)
qed

subsection \<open>Phases of the checkpoint\<close>

definition p_flushed :: "nat \<Rightarrow> mprot \<Rightarrow> nat \<Rightarrow> vloc \<Rightarrow> bool" where
  "p_flushed n e tid l \<longleftrightarrow> (if mode e = FMODE_WBINVD then tid = 0
     else \<exists>i \<in> set (share n tid kMaxThreads). \<exists>r \<in> set (flush_regions e i). in_main_region r l)"

definition p_copied :: "nat \<Rightarrow> mprot \<Rightarrow> nat \<Rightarrow> nat list" where
  "p_copied n e tid = (if mode e = FMODE_WBINVD then filter (\<lambda>r. bs_test r (region_dirty e)) (share n tid (nr_regions e))
     else concat (map (flush_regions e) (share n tid kMaxThreads)))"

definition p_cleared :: "nat \<Rightarrow> mprot \<Rightarrow> nat \<Rightarrow> nat list" where
  "p_cleared n e tid = (if mode e = FMODE_WBINVD then map (\<lambda>w. w * kBitWidth) (share n tid (nr_words (nr_regions e)))
     else concat (map (flush_regions e) (share n tid kMaxThreads)))"

lemma fold_concat_map: "fold f (concat (map g xs)) = fold (\<lambda>x. fold f (g x)) xs"
  by (induction xs) auto

lemma p_phase:
  assumes "\<And>tid e. A tid e = e\<lparr>pnv := F e tid (pnv e)\<rparr>" and "\<And>e m. F (e\<lparr>pnv := m\<rparr>) = F e"
  shows "fold A tids e = e\<lparr>pnv := fold (F e) tids (pnv e)\<rparr>"
  by (induction tids arbitrary: e) (simp_all add: assms)

lemma p_flush_parallels:
  "fold (flush_parallel n) tids e = e\<lparr>pnv := fold (\<lambda>tid m. nv_fence (nv_flush (p_flushed n e tid) m)) tids (pnv e)\<rparr>"
proof (rule p_phase)
  fix tid e
  show "flush_parallel n tid e = e\<lparr>pnv := nv_fence (nv_flush (p_flushed n e tid) (pnv e))\<rparr>"
  proof (cases "mode e = FMODE_WBINVD")
    case True
    then have "p_flushed n e tid = (\<lambda>l. tid = 0)" by (simp add: p_flushed_def fun_eq_iff)
    with True show ?thesis by (simp add: flush_parallel_def p_nv_def)
  next
    case False
    then have "p_flushed n e tid = (\<lambda>l. \<exists>i \<in> set (share n tid kMaxThreads). \<exists>r \<in> set (flush_regions e i). in_main_region r l)"
      by (simp add: p_flushed_def fun_eq_iff)
    with False show ?thesis by (simp add: flush_parallel_def p_nv_def nv_flush_fold')
  qed
qed (simp add: p_flushed_def fun_eq_iff)

lemma p_write_backs:
  "fold (write_back_parallel n) tids e = e\<lparr>pnv := fold (\<lambda>tid m. nv_fence (fold (copy_part kRegionSize) (p_copied n e tid) m)) tids (pnv e)\<rparr>"
  by (rule p_phase) (simp_all add: write_back_parallel_def p_nv_def p_copied_def fold_concat_map fun_eq_iff)

lemma p_clears:
  "fold (clear_dirty_bits_parallel n) tids e =
     e\<lparr>region_dirty := fold bs_clear_all (concat (map (p_cleared n e) tids)) (region_dirty e)\<rparr>"
proof (induction tids arbitrary: e)
  case (Cons tid tids)
  have "clear_dirty_bits_parallel n tid e = e\<lparr>region_dirty := fold bs_clear_all (p_cleared n e tid) (region_dirty e)\<rparr>"
    by (simp add: clear_dirty_bits_parallel_def p_cleared_def fold_concat_map fold_map o_def)
  moreover have "p_cleared n (e\<lparr>region_dirty := b\<rparr>) = p_cleared n e" for b by (simp add: p_cleared_def fun_eq_iff)
  ultimately show ?case by (simp add: Cons.IH)
qed simp

lemma bs_test_clears: "bs_test j (fold bs_clear_all rs b) \<longleftrightarrow> (\<forall>r \<in> set rs. j div 64 \<noteq> r div 64) \<and> bs_test j b"
  by (induction rs arbitrary: b) auto

text \<open>Together the threads flush, copy and clear every dirty region.\<close>

definition listed :: "mprot \<Rightarrow> nat \<Rightarrow> bool" where "listed e r \<longleftrightarrow> (\<exists>i < kMaxThreads. r \<in> set (flush_regions e i))"

lemma threads_share: "0 < n \<Longrightarrow> (\<exists>tid \<in> {..<n}. \<exists>i \<in> set (share n tid limit). P i) \<longleftrightarrow> (\<exists>i < limit. P i)"
  by (auto simp: share_def)

lemma p_flushed_any:
  assumes "0 < n"
  shows "(\<exists>tid \<in> set [0..<n]. p_flushed n e tid l) \<longleftrightarrow> mode e = FMODE_WBINVD \<or> (\<exists>r. listed e r \<and> in_main_region r l)"
  using assms threads_share [OF assms, of kMaxThreads "\<lambda>i. \<exists>r \<in> set (flush_regions e i). in_main_region r l"]
  by (cases "mode e = FMODE_WBINVD") (auto simp: p_flushed_def atLeast0LessThan listed_def)

lemma p_copied_all:
  assumes "0 < n"
  shows "(\<Union>tid \<in> set [0..<n]. set (p_copied n e tid)) =
    (if mode e = FMODE_WBINVD then {r. r < nr_regions e \<and> bs_test r (region_dirty e)} else {r. listed e r})"
proof (cases "mode e = FMODE_WBINVD")
  case True
  then show ?thesis using assms by (auto simp: p_copied_def share_def)
next
  case False
  have "(\<Union>tid \<in> set [0..<n]. set (p_copied n e tid)) = {r. \<exists>tid \<in> {..<n}. \<exists>i \<in> set (share n tid kMaxThreads). r \<in> set (flush_regions e i)}"
    using False by (auto simp: p_copied_def)
  then show ?thesis using False by (simp add: threads_share [OF assms] listed_def [abs_def])
qed

lemma p_cleared_all:
  assumes n: "0 < n" and r: "if mode e = FMODE_WBINVD then r < nr_regions e else listed e r"
  shows "\<exists>q \<in> set (concat (map (p_cleared n e) [0..<n])). r div 64 = q div 64"
proof (cases "mode e = FMODE_WBINVD")
  case True
  then have "r div 64 < nr_words (nr_regions e)" using r word_index_in_bounds by simp
  then have "r div 64 * kBitWidth \<in> set (p_cleared n e (r div 64 mod n))" using True by (auto simp: p_cleared_def share_def)
  moreover have "r div 64 mod n \<in> set [0..<n]" using n by simp
  ultimately show ?thesis by (intro bexI [of _ "r div 64 * kBitWidth"]) (auto simp: kBitWidth_def)
next
  case False
  then obtain i where "i < kMaxThreads" "r \<in> set (flush_regions e i)" using r by (auto simp: listed_def)
  then have "r \<in> set (p_cleared n e (i mod n))" using False by (auto simp: p_cleared_def share_def)
  moreover have "i mod n \<in> set [0..<n]" using n by simp
  ultimately show ?thesis by auto
qed

subsection \<open>The checkpoint\<close>

definition main_data :: "mprot \<Rightarrow> nat \<Rightarrow> nat" where "main_data e x = cur (pnv e) (Main x)"

lemma p_note:
  assumes i: "mirrors (capacity e) snap D (pnv e)" and s: "crash_safe P (pnv e)" and P: "\<forall>pm. v_stands (capacity e) snap pm \<longrightarrow> P pm"
  shows "mirrors (capacity e) snap D (pnv (note_snapshot e))" and "crash_safe P (pnv (note_snapshot e))"
    and "main_data (note_snapshot e) x = main_data e x"
    and "capacity (note_snapshot e) = capacity e" "nr_regions (note_snapshot e) = nr_regions e"
      "address_first (note_snapshot e) = address_first e" "region_dirty (note_snapshot e) = region_dirty e"
      "flush_regions (note_snapshot e) = flush_regions e"
  using mirrors_attributes [OF i s, of kAttributeHasSnapshot] P i s by (simp_all add: note_snapshot_def main_data_def)

lemma p_nothing_dirty:
  assumes "tracked K e k" and "decide_mode e = FMODE_NO_ACTION"
  shows "dirty_bytes e = {}"
proof -
  have "flush_regions e i = []" if "i < kMaxThreads" for i
    using assms(2) that by (auto simp: decide_mode_def split: if_splits)
  then have "none_full e" "\<not> (\<exists>i < kMaxThreads. r \<in> set (flush_regions e i))" for r
    by (auto simp: none_full_def kMaxFlushRegions_def)
  with trackedD(5) [OF assms(1)] show ?thesis by (auto simp: dirty_bytes_def)
qed

lemma p_all_listed:
  assumes "tracked K e k" and "decide_mode e = FMODE_USE_FLUSH_BLOCKS" and "bs_test r (region_dirty e)"
  shows "listed e r"
proof -
  have "none_full e" using assms(2) by (auto simp: none_full_def decide_mode_def split: if_splits)
  from trackedD(5) [OF assms(1) this assms(3)] show ?thesis by (simp add: listed_def)
qed

lemma p_checkpoint_ok:
  assumes K: "protection_works K" and i: "pinv K (e, k) snap" and n: "0 < n"
    and s: "crash_safe (v_stands (capacity e) snap) (pnv e)"
  obtains e' k' where "checkpoint K n (e, k) = Some (e', k')" "pinv K (e', k') (main_data e)"
    "crash_safe (\<lambda>pm. v_stands (capacity e) snap pm \<or> v_stands (capacity e) (main_data e) pm) (pnv e')"
    "capacity e' = capacity e" "main_data e' = main_data e"
proof (cases "decide_mode e = FMODE_NO_ACTION")
  case True
  note iv = pinvD [OF i]
  let ?e = "e\<lparr>mode := FMODE_NO_ACTION\<rparr>"
  have d: "dirty_bytes e = {}" by (rule p_nothing_dirty [OF iv(5) True])
  have same: "dirty_bytes ?e = dirty_bytes e" "tracked K ?e k = tracked K e k"
    by (simp_all add: dirty_bytes_def tracked_def none_full_def get_address_def)
  have "mirrors (capacity e) (main_data e) {} (pnv e)"
    by (rule mirrors_cong [OF iv(4) [unfolded d]]) (simp add: main_data_def mirrorsD(5) [OF iv(4)] d)
  then have "pinv K (?e, k) (main_data e)" using iv unfolding pinv_def prod.case same by (simp add: d)
  moreover have "crash_safe (\<lambda>pm. v_stands (capacity e) snap pm \<or> v_stands (capacity e) (main_data e) pm) (pnv ?e)"
    using s by (auto simp: crash_safe_def)
  moreover have "checkpoint K n (e, k) = Some (?e, k)" by (simp add: checkpoint_def True)
  ultimately show ?thesis by (intro that [of ?e k]) (simp_all add: main_data_def fun_eq_iff)
next
  case False
  note iv = pinvD [OF i]
  let ?P = "\<lambda>pm. v_stands (capacity e) snap pm \<or> v_stands (capacity e) (main_data e) pm"
  have rg: "0 < kRegionSize" by (simp add: geometry)
  define e1 where "e1 = e\<lparr>mode := decide_mode e\<rparr>"
  have f1: "pnv e1 = pnv e" "nr_regions e1 = nr_regions e" "capacity e1 = capacity e" "address_first e1 = address_first e"
    "region_dirty e1 = region_dirty e" "flush_regions e1 = flush_regions e" "mode e1 = decide_mode e" "listed e1 = listed e"
    by (simp_all add: e1_def listed_def fun_eq_iff)
  define m1 where "m1 = fold (\<lambda>tid m. nv_fence (nv_flush (p_flushed n e1 tid) m)) [0..<n] (pnv e)"
  define m2 where "m2 = set_consistent_data kMainData m1"
  define m3 where "m3 = fold (\<lambda>tid m. nv_fence (fold (copy_part kRegionSize) (p_copied n e1 tid) m)) [0..<n] m2"
  define m4 where "m4 = set_consistent_data kBackData m3"
  define dirty4 where "dirty4 = fold bs_clear_all (concat (map (p_cleared n e1) [0..<n])) (region_dirty e)"
  define A where "A = (if mode e1 = FMODE_WBINVD then {r. r < nr_regions e1 \<and> bs_test r (region_dirty e1)} else {r. listed e1 r})"
  have mode: "mode e1 = FMODE_WBINVD \<or> listed e1 r" if "bs_test r (region_dirty e)" for r
    using p_all_listed [OF iv(5) _ that] False by (cases "decide_mode e") (simp_all add: f1)
  have ev1: "evolves (\<lambda>l. mode e1 = FMODE_WBINVD \<or> (\<exists>r. listed e1 r \<and> in_main_region r l)) Map.empty (pnv e) m1"
    using flush_threads [of "[0..<n]" "p_flushed n e1" "pnv e", THEN conjunct1, unfolded p_flushed_any [OF n]] by (simp only: m1_def)
  have q1: "settled m1 l \<Longrightarrow> quiet m1 l" for l
    using flush_threads [of "[0..<n]" "p_flushed n e1" "pnv e", THEN conjunct2] n by (simp add: m1_def)
  have F: "mode e1 = FMODE_WBINVD \<or> (\<exists>r. listed e1 r \<and> in_main_region r (Main x))" if "x \<in> dirty_bytes e" for x
    using mode [of "x div kRegionSize"] that by (auto simp: dirty_bytes_def)
  note ct = copy_threads [where tids = "[0..<n]" and P = "p_copied n e1" and m = m2, OF rg]
  have ev3: "evolves (\<lambda>_. False) (part_copies kRegionSize A (cur m2)) m2 m3"
    using ct [THEN conjunct1, unfolded p_copied_all [OF n]] by (simp only: m3_def A_def)
  have q3: "settled m3 l \<Longrightarrow> quiet m3 l" for l using ct [THEN conjunct2] n by (simp add: m3_def)
  have cm: "cur m2 (Main x) = cur (pnv e) (Main x)" for x
    using evolves_simps(1) [OF ev1, of "Main x"] by (simp add: m2_def set_consistent_data_def)
  have V1: "part_copies kRegionSize A (cur m2) (Back x) \<noteq> None" if "x < capacity e" "x \<in> dirty_bytes e" for x
    using mode [of "x div kRegionSize"] trackedD(2) [OF iv(5), of "x div kRegionSize"] that(2)
    by (auto simp: A_def dirty_bytes_def f1)
  have V2: "\<exists>x. l = Back x \<and> w = cur (pnv e) (Main x)" if "part_copies kRegionSize A (cur m2) l = Some w" for l w
    using part_copies_Some [OF that] cm by simp
  note ck = mirror_checkpoint [OF iv(4) s ev1 q1 F m2_def ev3 q3 V1 V2 m4_def]
  have mdf: "(\<lambda>x. cur (pnv e) (Main x)) = main_data e" by (simp add: main_data_def fun_eq_iff)
  have clean: "\<not> bs_test r dirty4" for r
  proof
    assume "bs_test r dirty4"
    then have r: "bs_test r (region_dirty e)" "\<forall>q \<in> set (concat (map (p_cleared n e1) [0..<n])). r div 64 \<noteq> q div 64"
      unfolding dirty4_def bs_test_clears by blast+
    have "if mode e1 = FMODE_WBINVD then r < nr_regions e1 else listed e1 r"
      using mode [OF r(1)] trackedD(2) [OF iv(5) r(1)] by (auto simp: f1)
    from p_cleared_all [OF n this] r(2) show False by blast
  qed
  have al: "address_first (e1\<lparr>pnv := m2\<rparr>) mod kPageSize = 0" using iv(3) by (simp add: f1)
  obtain k' where k': "protect_regions K 0 (nr_regions e) False (e1\<lparr>pnv := m2\<rparr>) k = Some k'"
    "\<forall>x. can_write K k' (get_address x (e1\<lparr>pnv := m2\<rparr>)) = (if 0 * kRegionSize \<le> x \<and> x < (0 + nr_regions e) * kRegionSize
       then False else can_write K k (get_address x (e1\<lparr>pnv := m2\<rparr>)))"
    by (rule protect_ok [where r = 0 and n = "nr_regions e" and w = False and k = k, OF K al])
  define e4 where "e4 = e1\<lparr>pnv := m4, region_dirty := dirty4, flush_regions := (\<lambda>i. if i < kMaxThreads then [] else flush_regions e i)\<rparr>"
  have c4: "pnv e4 = m4" "nr_regions e4 = nr_regions e" "capacity e4 = capacity e" "address_first e4 = address_first e"
    "region_dirty e4 = dirty4" "flush_regions e4 = (\<lambda>i. if i < kMaxThreads then [] else flush_regions e i)"
    by (simp_all add: e4_def f1)
  have same: "p_copied n (e1\<lparr>pnv := m\<rparr>) = p_copied n e1" "p_cleared n (e1\<lparr>pnv := m\<rparr>) = p_cleared n e1" for m
    by (simp_all add: p_copied_def p_cleared_def fun_eq_iff)
  have w2: "p_nv (set_consistent_data kMainData) (fold (flush_parallel n) [0..<n] e1) = e1\<lparr>pnv := m2\<rparr>"
    by (simp only: p_flush_parallels) (simp add: p_nv_def m2_def m1_def f1)
  have w3: "fold (write_back_parallel n) [0..<n] (e1\<lparr>pnv := m2\<rparr>) = e1\<lparr>pnv := m3\<rparr>"
    by (simp only: p_write_backs same) (simp add: m3_def)
  have w4: "fold (clear_dirty_bits_parallel n) [0..<n] (e1\<lparr>pnv := m3\<rparr>) = e1\<lparr>pnv := m3, region_dirty := dirty4\<rparr>"
    by (simp only: p_clears same) (simp add: dirty4_def f1)
  have w5: "p_nv (set_consistent_data kBackData) (e1\<lparr>pnv := m3, region_dirty := dirty4\<rparr>) = e1\<lparr>pnv := m4, region_dirty := dirty4\<rparr>"
    by (simp add: p_nv_def m4_def)
  have fr: "flush_regions (e1\<lparr>pnv := m4, region_dirty := dirty4\<rparr>) = flush_regions e" by (simp add: f1)
  have "nr_regions (e1\<lparr>pnv := m2\<rparr>) = nr_regions e" by (simp add: f1)
  then have r: "checkpoint K n (e, k) = Some (note_snapshot e4, k')"
    using False k'(1) unfolding checkpoint_def prod.case Let_def e1_def [symmetric] w2 w3 w4 w5 fr
    by (simp add: f1 e4_def)
  have i4: "mirrors (capacity e4) (main_data e) {} (pnv e4)" and s4: "crash_safe ?P (pnv e4)"
    using ck(1,2) by (simp_all add: c4 mdf)
  have P: "\<forall>pm. v_stands (capacity e4) (main_data e) pm \<longrightarrow> ?P pm" by (simp add: c4)
  note nt = p_note [OF i4 s4 P]
  have ro: "\<not> can_write K k' (get_address x (note_snapshot e4))" if "x < capacity e" for x
  proof -
    have "address_first (note_snapshot e4) = address_first e" by (rule trans [OF nt(6) c4(4)])
    moreover have "address_first (e1\<lparr>pnv := m2\<rparr>) = address_first e" by (simp add: f1)
    ultimately have "get_address x (note_snapshot e4) = get_address x (e1\<lparr>pnv := m2\<rparr>)" unfolding get_address_def by simp
    then show ?thesis using k'(2) that iv(1) by simp
  qed
  have t: "tracked K (note_snapshot e4) k'"
    using ro clean unfolding tracked_def nt(4-8) c4 by simp
  have "dirty_bytes (note_snapshot e4) = {}" using clean by (simp add: dirty_bytes_def nt(7) c4)
  then have "pinv K (note_snapshot e4, k') (main_data e)"
    using nt(1) iv(1-3) t unfolding pinv_def prod.case nt(4-8) c4 by simp
  moreover have "main_data (note_snapshot e4) = main_data e"
    using nt(3) ck(3) by (simp add: c4 fun_eq_iff main_data_def)
  ultimately show ?thesis using nt(4) by (intro that [OF r _ nt(2)]) (simp_all add: c4)
qed

subsection \<open>Runs, crashes and restarts\<close>

datatype event = Store nat nat nat | Checkpoint nat

fun perform :: "'k protection \<Rightarrow> event \<Rightarrow> mprot \<times> 'k \<Rightarrow> (mprot \<times> 'k) option" where
  "perform K (Store tid x v) s = store_byte K only_pool 0 tid x v s"
| "perform K (Checkpoint n) s = checkpoint K n s"

definition start_op :: "mprot \<times> 'k \<Rightarrow> mprot \<times> 'k" where "start_op s = (p_nv nv_begin (fst s), snd s)"

definition step :: "'k protection \<Rightarrow> event \<Rightarrow> mprot \<times> 'k \<Rightarrow> (mprot \<times> 'k) option" where
  "step K ev s = perform K ev (start_op s)"

fun allowed :: "event \<Rightarrow> mprot \<times> 'k \<Rightarrow> (nat \<Rightarrow> nat) \<Rightarrow> bool" where
  "allowed (Store tid x v) s snap = (tid < kMaxThreads \<and> x < get_capacity (fst s))"
| "allowed (Checkpoint n) s snap = (0 < n)"

fun observe :: "event \<Rightarrow> mprot \<times> 'k \<Rightarrow> (nat \<Rightarrow> nat) \<Rightarrow> nat \<Rightarrow> nat" where
  "observe (Checkpoint n) s snap = main_data (fst s)"
| "observe _ s snap = snap"

type_synonym 'k restart = "nat \<times> 'k \<times> (vloc \<Rightarrow> nat)"

definition images :: "mprot \<times> 'k \<Rightarrow> 'k restart set" where
  "images s = {(addr, k, pm). addr \<noteq> 0 \<and> addr mod kPageSize = 0 \<and> pm \<in> crash_images (pnv (fst s))}"

definition good :: "'k protection \<Rightarrow> mprot \<times> 'k \<Rightarrow> (nat \<Rightarrow> nat) \<Rightarrow> bool" where
  "good K s snap \<longleftrightarrow> protection_works K \<and> pinv K s snap"

definition recovers :: "mprot \<times> 'k \<Rightarrow> 'k restart \<Rightarrow> (nat \<Rightarrow> nat) \<Rightarrow> bool" where
  "recovers s r snap = (case r of (addr, k, pm) \<Rightarrow>
     addr \<noteq> 0 \<and> addr mod kPageSize = 0 \<and> v_stands (get_capacity (fst s)) snap pm)"

definition reopen :: "'k protection \<Rightarrow> 'k restart \<Rightarrow> (mprot \<times> 'k) option" where
  "reopen K r = (case r of (addr, k, pm) \<Rightarrow> open_engine K addr k pm)"

lemma p_capacity: "pinv K (e, k) snap \<Longrightarrow> get_capacity e = capacity e"
  by (simp add: pinvD(1) get_capacity_def)

lemma p_begin:
  assumes "pinv K (e, k) snap"
  shows "pinv K (start_op (e, k)) snap" and "crash_safe (v_stands (capacity e) snap) (nv_begin (pnv e))"
proof -
  have same: "dirty_bytes (p_nv f e) = dirty_bytes e" "tracked K (p_nv f e) k = tracked K e k" for f
    by (simp_all add: dirty_bytes_def tracked_def none_full_def get_address_def)
  show "pinv K (start_op (e, k)) snap"
    using pinvD [OF assms] mirrors_begin(1) [OF pinvD(4) [OF assms]]
    unfolding pinv_def start_op_def fst_conv snd_conv prod.case same by simp
  show "crash_safe (v_stands (capacity e) snap) (nv_begin (pnv e))" by (rule mirrors_begin(2) [OF pinvD(4) [OF assms]])
qed

lemma p_step_ok:
  assumes g: "good K s snap" and a: "allowed ev s snap"
  shows "\<exists>s'. step K ev s = Some s' \<and> good K s' (observe ev s snap) \<and> get_capacity (fst s') = get_capacity (fst s) \<and>
    (\<forall>pm \<in> images s'. recovers s pm snap \<or> recovers s pm (observe ev s snap))"
proof -
  obtain e k where s: "s = (e, k)" by (cases s)
  have K: "protection_works K" and i: "pinv K (e, k) snap" using g by (simp_all add: good_def s)
  let ?e = "p_nv nv_begin e"
  have b: "pinv K (?e, k) snap" "crash_safe (v_stands (capacity ?e) snap) (pnv ?e)"
    using p_begin [OF i] by (simp_all add: start_op_def)
  have md: "main_data ?e = main_data e" by (simp add: main_data_def fun_eq_iff)
  note cap = p_capacity [OF i]
  show ?thesis
  proof (cases ev)
    case (Store tid x v)
    then have "x < capacity ?e" "tid < kMaxThreads" using a by (simp_all add: s cap)
    then obtain e' k' where c: "store_byte K only_pool 0 tid x v (?e, k) = Some (e', k')" "pinv K (e', k') snap"
        "capacity e' = capacity ?e" "crash_safe (v_stands (capacity ?e) snap) (pnv e')"
      by (rule p_store_ok [OF K b(1) _ _ b(2)])
    with Store K p_capacity [OF c(2)] show ?thesis
      by (simp add: step_def start_op_def s good_def images_def recovers_def crash_safe_def cap)
  next
    case (Checkpoint n)
    then have "0 < n" using a by simp
    then obtain e' k' where c: "checkpoint K n (?e, k) = Some (e', k')" "pinv K (e', k') (main_data ?e)"
      "crash_safe (\<lambda>pm. v_stands (capacity ?e) snap pm \<or> v_stands (capacity ?e) (main_data ?e) pm) (pnv e')"
      "capacity e' = capacity ?e"
      by (rule p_checkpoint_ok [OF K b(1) _ b(2)])
    with Checkpoint K p_capacity [OF c(2)] show ?thesis
      by (simp add: step_def start_op_def s good_def images_def recovers_def crash_safe_def cap md)
  qed
qed

interpretation mprotect: reopenable_engine "step K" allowed observe "good K" images recovers "reopen K" "\<lambda>snap. snap"
  for K
proof
  show "good K s snap \<Longrightarrow> allowed ev s snap \<Longrightarrow> \<exists>s'. step K ev s = Some s' \<and> good K s' (observe ev s snap) \<and>
      (\<forall>pm \<in> images s'. recovers s pm snap \<or> recovers s pm (observe ev s snap))" for s snap ev
    using p_step_ok [of K s snap ev] by blast
  show "\<exists>s2. reopen K r = Some s2 \<and> good K s2 snap'" if "good K s snap" "recovers s r snap'" for s snap r snap'
  proof -
    obtain e k where s: "s = (e, k)" by (cases s)
    obtain addr k2 pm where r: "r = (addr, k2, pm)" by (cases r)
    have K: "protection_works K" and i: "pinv K (e, k) snap" using that(1) by (simp_all add: good_def s)
    have m: "v_stands (capacity e) snap' pm" "addr \<noteq> 0" "addr mod kPageSize = 0"
      using that(2) by (simp_all add: recovers_def r s p_capacity [OF i])
    have "capacity e mod kRegionSize = 0" using pinvD(1) [OF i] by simp
    then obtain e2 k3 where "open_engine K addr k2 pm = Some (e2, k3)" "pinv K (e2, k3) snap'"
      by (rule p_open_ok [OF K m(1) pinvD(2) [OF i] _ m(2,3)])
    with K show ?thesis by (simp add: reopen_def r good_def)
  qed
qed

definition life ::
  "'k protection \<Rightarrow> mprot \<times> 'k \<Rightarrow> (nat \<Rightarrow> nat) \<Rightarrow> mprot \<times> 'k \<Rightarrow> (nat \<Rightarrow> nat) \<Rightarrow> bool" where
  "life K = lives_once (step K) allowed observe images recovers (reopen K) (\<lambda>snap. snap)"

lemma p_open_new:
  assumes "protection_works K" and "round_capacity wanted < 2 ^ 31" and "addr \<noteq> 0" and "addr mod kPageSize = 0"
  obtains s where "Open K True trunc wanted None addr k = Some s" "good K s (\<lambda>_. 0)" "get_capacity (fst s) = round_capacity wanted"
proof -
  obtain e k' where e: "create_engine K wanted addr k = Some (e, k')" "pinv K (e, k') (\<lambda>_. 0)" "capacity e = round_capacity wanted"
    by (rule p_create_ok [OF assms])
  with assms(1) p_capacity [OF e(2)] show ?thesis by (intro that [of "(e, k')"]) (simp_all add: Open_def good_def)
qed

lemma p_life_good: "life K s0 snap0 s snap \<Longrightarrow> good K s0 snap0 \<Longrightarrow> good K s snap"
  using mprotect.lives_once_good [where K = K] by (simp add: life_def)

lemma p_life_born: "life K s0 snap0 s0 snap0"
  by (simp add: life_def lives_once.born_once)

lemma p_life_step:
  "life K s0 snap0 s snap \<Longrightarrow> allowed ev s snap \<Longrightarrow> step K ev s = Some s' \<Longrightarrow> life K s0 snap0 s' (observe ev s snap)"
  unfolding life_def by (rule lives_once.operate_once)

lemma p_new_life_good:
  assumes "protection_works K" and "round_capacity wanted < 2 ^ 31" and "addr0 \<noteq> 0" and "addr0 mod kPageSize = 0"
    and "Open K True trunc wanted None addr0 k0 = Some s0" and "life K s0 (\<lambda>_. 0) s snap"
  shows "good K s snap"
proof -
  obtain s1 where "Open K True trunc wanted None addr0 k0 = Some s1" "good K s1 (\<lambda>_. 0)"
    by (rule p_open_new [OF assms(1-4)])
  with assms(5) have "good K s0 (\<lambda>_. 0)" by simp
  from p_life_good [OF assms(6) this] show ?thesis .
qed

text \<open>A process whose state is the set of its writable addresses.\<close>

definition set_protection :: "nat set protection" where
  "set_protection = \<lparr>mprotect = (\<lambda>a len w k. Some (if w then k \<union> {a..<a + len} else k - {a..<a + len})), can_write = (\<lambda>k x. x \<in> k)\<rparr>"

lemma set_protection_ok: "protection_works set_protection"
  by (auto simp: protection_works_def set_protection_def)

subsection \<open>Properties\<close>




lemma p_demo:
  obtains s0 s1 where "Open set_protection True False 0 None 4096 {} = Some s0" "step set_protection (Store 1 5 9) s0 = Some s1"
    "life set_protection s0 (\<lambda>_. 0) s1 (\<lambda>_. 0)" "round_capacity 0 < 2 ^ 31" "4096 mod kPageSize = 0"
proof -
  have a: "round_capacity 0 < 2 ^ 31" "(4096 :: nat) \<noteq> 0" "4096 mod kPageSize = 0"
    by (simp_all add: round_capacity_def geometry)
  obtain s0 where s0: "Open set_protection True False 0 None 4096 {} = Some s0" "good set_protection s0 (\<lambda>_. 0)"
      "get_capacity (fst s0) = round_capacity 0"
    by (rule p_open_new [OF set_protection_ok a])
  have al: "allowed (Store 1 5 9) s0 (\<lambda>_. 0)" by (simp add: s0(3) round_capacity_def geometry)
  from p_step_ok [OF s0(2) al] obtain s1 where s1: "step set_protection (Store 1 5 9) s0 = Some s1" by blast
  have "life set_protection s0 (\<lambda>_. 0) s1 (\<lambda>_. 0)" using p_life_step [OF p_life_born al s1] by simp
  then show ?thesis by (rule that [OF s0(1) s1 _ a(1,3)])
qed


text \<open>
  A process with two protected pools dies when it closes the one it opened first and then
  stores to the other: the registry no longer finds the pool, so the handler of the first fault
  reports an unknown address and exits.
\<close>

theorem mprotect_forgotten_pool:
  assumes "default_engine (registered ops) = Some p" and "open_pools (rev ops) = {p, q}" and "p \<noteq> q"
    and "\<not> can_write K k (get_address x e)"
  shows "open_pools (rev (ops @ [Unregister p])) = {q} \<and>
    store_byte K (registered (ops @ [Unregister p])) q tid x v (e, k) = None"
  using registry_blind [OF assms(1-3)] assms(4)
  by (simp add: store_byte_def SegfaultHandlerProc_def Let_def)

theorem mprotect_forgotten_pool_witness:
  "\<exists>e k. Open set_protection True False 0 None 4096 {} = Some (e, k) \<and>
    store_byte set_protection (registered [Register 3, Register 7, Unregister 3]) 7 0 5 9 (e, k) = None"
proof -
  obtain s0 s1 where d: "Open set_protection True False 0 None 4096 {} = Some s0" "round_capacity 0 < 2 ^ 31" "4096 mod kPageSize = 0"
    by (rule p_demo)
  obtain e k where s: "s0 = (e, k)" by (cases s0)
  have "protect_regions set_protection r n False e {} = Some {}" for r n e by (simp add: protect_regions_def set_protection_def)
  then have "k = {}"
    using d(1) by (auto simp: s Open_def create_engine_def start_engine_def Let_def split: bind_splits)
  then have "\<not> can_write set_protection k (get_address 5 e)" by (simp add: set_protection_def)
  from mprotect_forgotten_pool [OF _ _ _ this, of "[Register 3, Register 7]" 3 7 0 9] d(1) show ?thesis
    by (auto simp: s registered_def do_register_def new_registry_def Let_def)
qed

end
