(* ===== verification/Mpi.thy ===== *)
theory Mpi
  imports Nvm
begin

text \<open>
  Collective operations of the processes of an MPI program, each with a pool of its own. The
  collective operations of the library work as in the code: a process runs its part up to an
  \<^verbatim>\<open>MPI_Barrier\<close>, waits there, and goes on with the next part. The MPI library is not
  part of the repository: it is the argument \<open>M\<close> of the definitions.
\<close>

text \<open>
  \<^verbatim>\<open>MPI_Allreduce\<close> with \<^verbatim>\<open>MPI_SUM\<close> and \<^verbatim>\<open>MPI_MIN\<close>,
  \<^verbatim>\<open>MPI_Bcast\<close> from a root, and when a process returns from \<^verbatim>\<open>MPI_Barrier\<close>,
  given how many barriers every process has called.
\<close>

record mpi =
  comm_size :: nat
  allreduce_sum :: "(nat \<Rightarrow> nat) \<Rightarrow> nat"
  allreduce_min :: "(nat \<Rightarrow> nat) \<Rightarrow> nat"
  bcast :: "nat \<Rightarrow> (nat \<Rightarrow> nat) \<Rightarrow> nat"
  barrier_returns :: "(nat \<Rightarrow> nat) \<Rightarrow> nat \<Rightarrow> bool"

text \<open>
  What the MPI standard says of them (version 3.1, sections 5.3, 5.4 and 5.9): a process returns
  from a barrier only after all processes have called it, and does return once they have.
\<close>

definition mpi_standard :: "mpi \<Rightarrow> bool" where
  "mpi_standard M \<longleftrightarrow> 0 < comm_size M \<and>
     (\<forall>v. allreduce_sum M v = sum v {..<comm_size M}) \<and> (\<forall>v. allreduce_min M v = Min (v ` {..<comm_size M})) \<and>
     (\<forall>root v. bcast M root v = v root) \<and>
     (\<forall>called r. barrier_returns M called r \<longleftrightarrow> (\<forall>q < comm_size M. called r \<le> called q))"

lemma mpi_standardD:
  assumes "mpi_standard M"
  shows "0 < comm_size M" "allreduce_sum M v = sum v {..<comm_size M}" "allreduce_min M v = Min (v ` {..<comm_size M})"
    "bcast M root v = v root" "barrier_returns M called r \<longleftrightarrow> (\<forall>q < comm_size M. called r \<le> called q)"
  using assms by (simp_all add: mpi_standard_def)

text \<open>An MPI library for \<open>n\<close> processes.\<close>

definition plain_mpi :: "nat \<Rightarrow> mpi" where
  "plain_mpi n = \<lparr>comm_size = n, allreduce_sum = (\<lambda>v. sum v {..<n}), allreduce_min = (\<lambda>v. Min (v ` {..<n})),
     bcast = (\<lambda>root v. v root), barrier_returns = (\<lambda>called r. \<forall>q < n. called r \<le> called q)\<rparr>"

lemma plain_mpi_ok: "0 < n \<Longrightarrow> mpi_standard (plain_mpi n)" "comm_size (plain_mpi n) = n"
  by (simp_all add: plain_mpi_def mpi_standard_def)

subsection \<open>Parts between barriers\<close>

text \<open>
  A configuration: how many barriers each process has called and returned from, and its state. A
  process that has returned from as many as it called is inside a part, at any point of it.
\<close>

record 's ranks =
  called :: "nat \<Rightarrow> nat"
  returned :: "nat \<Rightarrow> nat"
  local_state :: "nat \<Rightarrow> 's"

definition all_start :: "(nat \<Rightarrow> 's) \<Rightarrow> 's ranks" where
  "all_start s0 = \<lparr>called = (\<lambda>_. 0), returned = (\<lambda>_. 0), local_state = s0\<rparr>"

text \<open>The end of the last part counts as a call too; nothing is waited for there.\<close>

inductive collective :: "mpi \<Rightarrow> (nat \<Rightarrow> 's \<Rightarrow> 's option) list \<Rightarrow> 's ranks \<Rightarrow> 's ranks \<Rightarrow> bool"
  for M :: mpi and parts :: "(nat \<Rightarrow> 's \<Rightarrow> 's option) list" where
  part: "r < comm_size M \<Longrightarrow> returned c r = called c r \<Longrightarrow> called c r < length parts \<Longrightarrow>
    (parts ! called c r) r (local_state c r) = Some s' \<Longrightarrow>
    collective M parts c (c\<lparr>called := (called c)(r := Suc (called c r)), local_state := (local_state c)(r := s')\<rparr>)"
| barrier: "r < comm_size M \<Longrightarrow> called c r = Suc (returned c r) \<Longrightarrow> called c r < length parts \<Longrightarrow>
    barrier_returns M (called c) r \<Longrightarrow>
    collective M parts c (c\<lparr>returned := (returned c)(r := called c r)\<rparr>)"

definition reached :: "mpi \<Rightarrow> (nat \<Rightarrow> 's \<Rightarrow> 's option) list \<Rightarrow> (nat \<Rightarrow> 's) \<Rightarrow> 's ranks \<Rightarrow> bool" where
  "reached M parts s0 c \<longleftrightarrow> (collective M parts)\<^sup>*\<^sup>* (all_start s0) c"

text \<open>
  The durable images a crash in the configuration can leave with a process: those of the part it
  is in, or those of its state while it waits. \<open>mem\<close> is the persistent memory of a state.
\<close>

definition rank_images ::
  "('s \<Rightarrow> ('l, 'v) nvm) \<Rightarrow> (nat \<Rightarrow> 's \<Rightarrow> 's option) list \<Rightarrow> 's ranks \<Rightarrow> nat \<Rightarrow> ('l \<Rightarrow> 'v) set" where
  "rank_images mem parts c r =
     crash_images (nv_begin (mem (local_state c r))) \<union>
     (if returned c r = called c r \<and> called c r < length parts
      then case (parts ! called c r) r (local_state c r) of Some s' \<Rightarrow> crash_images (mem s') | None \<Rightarrow> {}
      else {})"

lemma reached_start: "reached M parts s0 (all_start s0)"
  by (simp add: reached_def)

lemma reached_step: "reached M parts s0 c \<Longrightarrow> collective M parts c c' \<Longrightarrow> reached M parts s0 c'"
  unfolding reached_def by (rule rtranclp.rtrancl_into_rtrancl)

subsection \<open>What barriers give\<close>

definition in_step :: "mpi \<Rightarrow> 's ranks \<Rightarrow> bool" where
  "in_step M c \<longleftrightarrow> (\<forall>r < comm_size M. called c r = returned c r \<or> called c r = Suc (returned c r)) \<and>
     (\<forall>r < comm_size M. \<forall>q < comm_size M. returned c r \<le> called c q)"

lemma in_step_reached:
  assumes M: "mpi_standard M" and c: "reached M parts s0 c"
  shows "in_step M c"
  using c unfolding reached_def
proof (induction rule: rtranclp_induct)
  case base
  show ?case by (simp add: in_step_def all_start_def)
next
  case (step c c')
  from step.hyps(2) show ?case
  proof cases
    case (part r s')
    then show ?thesis using step.IH by (auto simp: in_step_def le_Suc_eq)
  next
    case (barrier r)
    then have "\<forall>q < comm_size M. called c r \<le> called c q" using mpi_standardD(5) [OF M] by simp
    then show ?thesis using step.IH barrier by (auto simp: in_step_def)
  qed
qed

text \<open>
  So at any moment there is a part such that every process is in it, or has ended it, or is about
  to begin it.
\<close>

lemma common_part:
  assumes M: "mpi_standard M" and c: "in_step M c"
  obtains k where "\<And>r. r < comm_size M \<Longrightarrow> returned c r = k \<or> Suc (returned c r) = k \<and> called c r = k"
    "\<exists>r < comm_size M. returned c r = k"
proof -
  define k where "k = Max (returned c ` {..<comm_size M})"
  have n: "finite (returned c ` {..<comm_size M})" "returned c ` {..<comm_size M} \<noteq> {}"
    using mpi_standardD(1) [OF M] by (auto simp: lessThan_empty_iff)
  obtain q where q: "q < comm_size M" "returned c q = k" using Max_in [OF n] by (auto simp: k_def)
  have le: "returned c r \<le> k" if "r < comm_size M" for r using n that by (simp add: k_def)
  have "returned c r = k \<or> Suc (returned c r) = k \<and> called c r = k" if r: "r < comm_size M" for r
    using c q r le [OF r] by (fastforce simp: in_step_def)
  then show ?thesis using q by (intro that [of k]) auto
qed

text \<open>
  The contract of a collective operation: \<open>I r k\<close> holds of process \<open>r\<close> when it begins part
  \<open>k\<close>, and \<open>Q r k\<close> of every durable image it can leave in part \<open>k\<close>.
\<close>

locale collective_parts =
  fixes M :: mpi and parts :: "(nat \<Rightarrow> 's \<Rightarrow> 's option) list" and mem :: "'s \<Rightarrow> ('l, 'v) nvm"
    and I :: "nat \<Rightarrow> nat \<Rightarrow> 's \<Rightarrow> bool" and Q :: "nat \<Rightarrow> nat \<Rightarrow> ('l \<Rightarrow> 'v) \<Rightarrow> bool"
  assumes part_ok: "\<And>r k s. r < comm_size M \<Longrightarrow> k < length parts \<Longrightarrow> I r k s \<Longrightarrow>
      \<exists>s'. (parts ! k) r s = Some s' \<and> I r (Suc k) s' \<and> crash_safe (Q r k) (mem s')"
    and part_rest: "\<And>r k s. r < comm_size M \<Longrightarrow> k < length parts \<Longrightarrow> I r k s \<Longrightarrow> crash_safe (Q r k) (nv_begin (mem s))"
begin

lemma states:
  assumes s0: "\<forall>r < comm_size M. I r 0 (s0 r)" and c: "reached M parts s0 c" and r: "r < comm_size M"
  shows "I r (called c r) (local_state c r) \<and> called c r \<le> length parts \<and>
    (called c r = Suc (returned c r) \<longrightarrow> crash_safe (Q r (returned c r)) (nv_begin (mem (local_state c r))))"
  using c unfolding reached_def
proof (induction rule: rtranclp_induct)
  case base
  show ?case using s0 r by (simp add: all_start_def)
next
  case (step c c')
  from step.hyps(2) show ?case
  proof cases
    case (part q s')
    show ?thesis
    proof (cases "q = r")
      case True
      obtain s'' where s'': "(parts ! called c r) r (local_state c r) = Some s''" "I r (Suc (called c r)) s''"
        "crash_safe (Q r (called c r)) (mem s'')"
        using part_ok [OF r _ conjunct1 [OF step.IH]] part True by auto
      then have "crash_safe (Q r (called c r)) (nv_begin (mem s''))"
        by (simp add: crash_safe_iff)
      then show ?thesis using part True s'' by auto
    qed (use part step.IH in auto)
  next
    case (barrier q)
    then show ?thesis using step.IH by auto
  qed
qed

theorem images_agree:
  assumes standard: "mpi_standard M" and s0: "\<forall>r < comm_size M. I r 0 (s0 r)" and c: "reached M parts s0 c" and parts: "parts \<noteq> []"
  shows "\<exists>k < length parts. \<forall>r < comm_size M. \<forall>pm \<in> rank_images mem parts c r. Q r k pm"
proof -
  note st = states [OF s0 c]
  obtain k where k: "\<And>r. r < comm_size M \<Longrightarrow> returned c r = k \<or> Suc (returned c r) = k \<and> called c r = k"
    "\<exists>r < comm_size M. returned c r = k"
    by (rule common_part [OF standard in_step_reached [OF standard c]]) blast
  have rl: "returned c r < length parts" if "r < comm_size M" for r
    using c unfolding reached_def
    by (induction rule: rtranclp_induct) (use parts that in \<open>auto simp: all_start_def elim!: collective.cases\<close>)
  have kl: "k < length parts" using k(2) rl by auto
  have "Q r k pm" if r: "r < comm_size M" and pm: "pm \<in> rank_images mem parts c r" for r pm
  proof (cases "called c r = k")
    case True
    have i: "I r k (local_state c r)" using st [OF r] True by simp
    obtain s' where s': "(parts ! k) r (local_state c r) = Some s'" "crash_safe (Q r k) (mem s')"
      using part_ok [OF r kl i] by blast
    with part_rest [OF r kl i] pm True show ?thesis
      by (auto simp: rank_images_def crash_safe_def split: if_splits)
  next
    case False
    then have w: "returned c r = k" "called c r = Suc k"
      using k(1) [OF r] in_step_reached [OF standard c] r by (auto simp: in_step_def)
    then show ?thesis using st [OF r] pm by (auto simp: rank_images_def crash_safe_def)
  qed
  with kl show ?thesis by blast
qed

text \<open>No process waits for ever: as long as one has not finished, some process can go on.\<close>

theorem goes_on:
  assumes standard: "mpi_standard M" and s0: "\<forall>r < comm_size M. I r 0 (s0 r)" and c: "reached M parts s0 c"
    and r: "r < comm_size M" "called c r < length parts"
  shows "\<exists>c'. collective M parts c c'"
proof -
  define q where "q = arg_min_on (called c) {..<comm_size M}"
  have q: "q < comm_size M" "\<And>p. p < comm_size M \<Longrightarrow> called c q \<le> called c p"
    using arg_min_if_finite(1) [of "{..<comm_size M}" "called c"] arg_min_least [of "{..<comm_size M}" _ "called c"] r(1)
    by (auto simp: q_def lessThan_empty_iff)
  then have l: "called c q < length parts" using r le_less_trans by blast
  show ?thesis
  proof (cases "called c q = returned c q")
    case True
    obtain s' where "(parts ! called c q) q (local_state c q) = Some s'"
      using part_ok [OF q(1) l conjunct1 [OF states [OF s0 c q(1)]]] by blast
    then show ?thesis using collective.part [of q M c parts s'] q(1) l True by auto
  next
    case False
    then have "called c q = Suc (returned c q)" using in_step_reached [OF standard c] q(1) by (auto simp: in_step_def)
    moreover have "barrier_returns M (called c) q" using mpi_standardD(5) [OF standard] q(2) by simp
    ultimately show ?thesis using collective.barrier [of q M c parts] q(1) l by auto
  qed
qed

end

subsection \<open>Opening in all processes\<close>

text \<open>What all processes return, if all of them succeed.\<close>

definition all_ranks :: "nat \<Rightarrow> (nat \<Rightarrow> 'a option) \<Rightarrow> (nat \<Rightarrow> 'a) option" where
  "all_ranks N f = (if \<forall>r \<in> set [0..<N]. f r \<noteq> None then Some (\<lambda>r. the (f r)) else None)"

text \<open>How many processes want to create their pool; all or none of them must.\<close>

definition create_votes :: "mpi \<Rightarrow> (nat \<Rightarrow> bool) \<Rightarrow> (nat \<Rightarrow> bool) \<Rightarrow> (nat \<Rightarrow> bool) \<Rightarrow> nat" where
  "create_votes M may_create trunc exists =
     allreduce_sum M (\<lambda>r. if may_create r \<and> (trunc r \<or> \<not> exists r) then 1 else 0)"

lemma all_ranksI: "\<forall>r < N. f r = Some (g r) \<Longrightarrow> \<exists>h. all_ranks N f = Some h \<and> (\<forall>r < N. h r = g r)"
  by (simp add: all_ranks_def)

lemma all_ranks_Some: "all_ranks N f = Some h \<Longrightarrow> r < N \<Longrightarrow> f r = Some (h r)"
  by (auto simp: all_ranks_def split: if_splits)

lemma all_ranks_None: "r < N \<Longrightarrow> f r = None \<Longrightarrow> all_ranks N f = None"
  by (auto simp: all_ranks_def)

lemma no_create_votes: "mpi_standard M \<Longrightarrow> (\<And>r. r < comm_size M \<Longrightarrow> \<not> may_create r) \<Longrightarrow> create_votes M may_create trunc exists = 0"
  by (simp add: create_votes_def mpi_standardD(2))

end
