(* ===== verification/Mpi_Mirror.thy ===== *)
theory Mpi_Mirror
  imports Mpi Metadata
begin

text \<open>
  The collective checkpoints and the collective opening of the mirrored pools:
  \<^verbatim>\<open>checkpoint_for_mpi\<close> and \<^verbatim>\<open>OpenForMPI\<close> of
  \<^verbatim>\<open>engines/dirtybit_engine.cpp\<close> and \<^verbatim>\<open>engines/mprotect_engine.cpp\<close>. The
  headers of all pools are switched between two barriers each, so that whichever of the two copies
  process 0 calls consistent, it is the same checkpoint in all pools.
\<close>

subsection \<open>What the images of a part show\<close>

text \<open>
  Which copy the header may name, and what the main and the back data are, as far as it is known.
\<close>

definition v_shows :: "nat \<Rightarrow> nat set \<Rightarrow> (nat \<Rightarrow> nat) option \<Rightarrow> (nat \<Rightarrow> nat) option \<Rightarrow> (vloc \<Rightarrow> nat) \<Rightarrow> bool" where
  "v_shows cap C A B pm \<longleftrightarrow> pm VMagic = kMetadataV1Magic \<and> pm VCapacity = cap \<and>
     pm VMainData = kHugePageSize \<and> pm VBackData = kHugePageSize + cap \<and> pm VConsistent \<in> C \<and>
     (\<forall>f. A = Some f \<longrightarrow> (\<forall>x < cap. pm (Main x) = f x)) \<and> (\<forall>f. B = Some f \<longrightarrow> (\<forall>x < cap. pm (Back x) = f x))"

definition v_part :: "nat \<Rightarrow> (nat \<Rightarrow> nat) \<Rightarrow> (nat \<Rightarrow> nat) \<Rightarrow> nat \<Rightarrow> (vloc \<Rightarrow> nat) \<Rightarrow> bool" where
  "v_part cap old new k =
     (if k = 0 then v_shows cap {kBackData} None (Some old)
      else if k = 1 then v_shows cap {kBackData, kMainData} (Some new) (Some old)
      else if k = 2 then v_shows cap {kMainData} (Some new) None
      else v_shows cap {kMainData, kBackData} (Some new) (Some new))"

text \<open>The cells these predicates read, and a memory in which all of them are durable.\<close>

fun v_cell :: "nat \<Rightarrow> vloc \<Rightarrow> bool" where
  "v_cell cap VMagic = True" | "v_cell cap VCapacity = True" | "v_cell cap VMainData = True" | "v_cell cap VBackData = True"
| "v_cell cap VConsistent = True" | "v_cell cap (Main x) = (x < cap)" | "v_cell cap (Back x) = (x < cap)" | "v_cell cap _ = False"

definition v_ready :: "nat \<Rightarrow> nat \<Rightarrow> (nat \<Rightarrow> nat) \<Rightarrow> (nat \<Rightarrow> nat) \<Rightarrow> vmem \<Rightarrow> bool" where
  "v_ready cap c a b m \<longleftrightarrow> v_shows cap {c} (Some a) (Some b) (cur m) \<and> (\<forall>l. v_cell cap l \<longrightarrow> quiet m l) \<and> visible m"

lemma v_shows_cong:
  assumes "v_shows cap C A B v" and "pm VConsistent \<in> C'"
    and "\<And>l. v_cell cap l \<Longrightarrow> l \<noteq> VConsistent \<Longrightarrow> (\<And>x. l = Main x \<Longrightarrow> A' \<noteq> None) \<Longrightarrow> (\<And>x. l = Back x \<Longrightarrow> B' \<noteq> None) \<Longrightarrow> pm l = v l"
    and "A' = None \<or> A' = A" and "B' = None \<or> B' = B"
  shows "v_shows cap C' A' B' pm"
proof -
  have h: "pm VMagic = v VMagic" "pm VCapacity = v VCapacity" "pm VMainData = v VMainData" "pm VBackData = v VBackData"
    by (rule assms(3); simp)+
  have d: "A' \<noteq> None \<Longrightarrow> x < cap \<Longrightarrow> pm (Main x) = v (Main x)" "B' \<noteq> None \<Longrightarrow> x < cap \<Longrightarrow> pm (Back x) = v (Back x)" for x
    by (rule assms(3); simp)+
  show ?thesis
    using assms(1,2,4,5) d by (auto simp: v_shows_def h)
qed

lemma v_ready_safe:
  assumes r: "v_ready cap c a b m" and C: "c \<in> C" and A: "A = None \<or> A = Some a" and B: "B = None \<or> B = Some b"
  shows "crash_safe (v_shows cap C A B) (nv_begin m)"
  unfolding crash_safe_begin dur_sat_def
proof (intro allI impI)
  fix pm assume pm: "\<forall>l. pm l \<in> dur m l"
  have "pm l = cur m l" if "v_cell cap l" for l
    using r spec [OF pm, of l] quiet_durable [of m l] that by (auto simp: v_ready_def)
  then show "v_shows cap C A B pm"
    using r C by (intro v_shows_cong [where v = "cur m" and C = "{c}", OF _ _ _ A B]) (auto simp: v_ready_def v_shows_def)
qed

lemma v_ready_begin: "v_ready cap c a b (nv_begin m) = v_ready cap c a b m"
  by (simp add: v_ready_def)

lemma v_switch:
  assumes r: "v_ready cap c a b m"
  shows "v_ready cap c' a b (set_consistent_data c' (nv_begin m))"
    and "crash_safe (v_shows cap {c, c'} (Some a) (Some b)) (set_consistent_data c' (nv_begin m))"
proof -
  let ?m = "nv_begin m"
  have q: "v_cell cap l \<Longrightarrow> quiet ?m l" for l using r by (simp add: v_ready_def)
  have s: "v_shows cap {c} (Some a) (Some b) (cur ?m)" using r by (simp add: v_ready_def)
  show "crash_safe (v_shows cap {c, c'} (Some a) (Some b)) (set_consistent_data c' ?m)"
    unfolding set_consistent_data_def
  proof (rule crash_safe_switch(1) [where A = "\<lambda>l. l \<noteq> VConsistent \<and> v_cell cap l"])
    show "crash_safe (v_shows cap {c, c'} (Some a) (Some b)) ?m" by (rule v_ready_safe [OF r]) simp_all
    fix pm assume pm: "\<And>l. l \<noteq> VConsistent \<and> v_cell cap l \<Longrightarrow> pm l = cur ?m l"
      "pm VConsistent = cur ?m VConsistent \<or> pm VConsistent = c'"
    have "cur ?m VConsistent = c" using s by (simp add: v_shows_def)
    then show "v_shows cap {c, c'} (Some a) (Some b) pm"
      using pm by (intro v_shows_cong [OF s]) auto
  qed (use q in auto)
  have "quiet (set_consistent_data c' ?m) l" if "v_cell cap l" for l
    using q [OF that] by (cases "l = VConsistent") (simp_all add: set_consistent_data_def quiet_settled)
  moreover have "visible (set_consistent_data c' ?m)" using r by (simp add: v_ready_def set_consistent_data_def)
  ultimately show "v_ready cap c' a b (set_consistent_data c' ?m)"
    using s by (simp add: v_ready_def v_shows_def set_consistent_data_def)
qed

lemma v_flushed:
  assumes i: "mirrors cap old D m" and e: "evolves F Map.empty (nv_begin m) m1" and q: "\<And>l. settled m1 l \<Longrightarrow> quiet m1 l"
    and F: "\<And>x. x < cap \<Longrightarrow> x \<in> D \<Longrightarrow> F (Main x)"
  shows "v_ready cap kBackData (\<lambda>x. cur m (Main x)) old m1" and "crash_safe (v_shows cap {kBackData} None (Some old)) m1"
    and "crash_safe (v_shows cap {kBackData} None (Some old)) (nv_begin m)"
proof -
  note d = mirrorsD [OF i]
  have c: "cur m1 l = cur m l" for l using evolves_simps(1) [OF e] by simp
  have s: "v_shows cap {kBackData} None (Some old) (cur m)"
    using d(1,2) by (auto simp: v_stands_def v_shows_def geometry)
  have dq: "quiet m1 l" if vc: "v_cell cap l" for l
  proof (cases "v_kept cap kBackData l")
    case True
    then show ?thesis using evolves_simps(6) [OF e, of l] d(4) by simp
  next
    case False
    then obtain x where x: "l = Main x" "x < cap" using vc by (cases l) (auto simp: geometry)
    show ?thesis
      using F [OF x(2)] evolves_simps(3,4) [OF e, of l] d(6) [OF x(2)] x(1) by (intro q) (cases "x \<in> D"; simp)
  qed
  then show "v_ready cap kBackData (\<lambda>x. cur m (Main x)) old m1"
    using s d(3,7) evolves_visible [OF e] by (auto simp: v_ready_def v_shows_def c)
  have k: "keeps (v_kept cap kBackData) (nv_begin m) m1" by (rule evolves_keeps [OF e]) (simp add: d(4))
  have P: "v_shows cap {kBackData} None (Some old) pm" if "\<And>l. v_kept cap kBackData l \<Longrightarrow> pm l = cur m l" for pm
    using that d(2) by (intro v_shows_cong [OF s]) (auto elim!: v_cell.elims simp: geometry)
  show b: "crash_safe (v_shows cap {kBackData} None (Some old)) (nv_begin m)"
    unfolding crash_safe_begin dur_sat_def
  proof (intro allI impI)
    fix pm assume pm: "\<forall>l. pm l \<in> dur m l"
    show "v_shows cap {kBackData} None (Some old) pm"
      by (rule P) (use pm quiet_durable [OF d(4)] in force)
  qed
  show "crash_safe (v_shows cap {kBackData} None (Some old)) m1"
    by (rule keeps_crash_safe [OF k b]) (use P in auto)
qed

lemma v_copied:
  assumes r: "v_ready cap kMainData a b m" and e: "evolves (\<lambda>_. False) V (nv_begin m) m3" and q: "\<And>l. settled m3 l \<Longrightarrow> quiet m3 l"
    and V: "\<And>x. x < cap \<Longrightarrow> a x \<noteq> b x \<Longrightarrow> V (Back x) \<noteq> None" "\<And>l w. V l = Some w \<Longrightarrow> \<exists>x. l = Back x \<and> w = cur m (Main x)"
  shows "v_ready cap kMainData a a m3" and "crash_safe (v_shows cap {kMainData} (Some a) None) m3"
proof -
  have s: "v_shows cap {kMainData} (Some a) (Some b) (cur m)" using r by (simp add: v_ready_def)
  have VN: "V l = None" if "\<And>x. l \<noteq> Back x" for l using V(2) [of l] that by (cases "V l") auto
  have c: "cur m3 l = cur m l" if "\<And>x. l \<noteq> Back x" for l using evolves_simps(1) [OF e VN [OF that]] by simp
  have b: "cur m3 (Back x) = a x" if "x < cap" for x
  proof (cases "V (Back x)")
    case None
    then have "a x = b x" using V(1) [OF that] by blast
    then show ?thesis using evolves_simps(1) [OF e None] s that by (auto simp: v_shows_def)
  next
    case (Some w)
    then show ?thesis using evolves_simps(2) [OF e Some] V(2) [OF Some] s that by (auto simp: v_shows_def)
  qed
  have "quiet m3 l" if "v_cell cap l" for l
    using r that by (intro q evolves_simps(3) [OF e]) (simp add: v_ready_def quiet_settled)
  then show "v_ready cap kMainData a a m3"
    using s b c evolves_visible [OF e] r by (simp add: v_ready_def v_shows_def)
  have k: "keeps (\<lambda>l. v_cell cap l \<and> (\<forall>x. l \<noteq> Back x)) (nv_begin m) m3"
    by (rule evolves_keeps [OF e]) (use r VN in \<open>auto simp: v_ready_def\<close>)
  show "crash_safe (v_shows cap {kMainData} (Some a) None) m3"
    by (rule keeps_crash_safe [OF k v_ready_safe [OF r]])
      (use s in \<open>auto intro!: v_shows_cong [OF s] simp: v_shows_def\<close>)
qed

lemma v_marked:
  assumes r: "v_ready cap kBackData a a m" and n: "m' = nv_begin m \<or> m' = set_attributes v (nv_begin m)"
  shows "crash_safe (v_shows cap {kMainData, kBackData} (Some a) (Some a)) m'" and "mirrors cap a {} m'"
proof -
  have s: "v_shows cap {kBackData} (Some a) (Some a) (cur m)" using r by (simp add: v_ready_def)
  have e: "evolves (\<lambda>l. False \<or> False) ([VAttr \<mapsto> v] ++ Map.empty) (nv_begin m) (set_attributes v (nv_begin m))"
    unfolding set_attributes_def by (rule evolves_trans [OF evolves_nt evolves_fence])
  have va: "l \<noteq> VAttr" if "v_cell cap l" for l using that by auto
  have k: "keeps (v_cell cap) (nv_begin m) m'"
    using n evolves_keeps [OF e, of "v_cell cap"] r va by (auto intro: keeps_refl simp: v_ready_def)
  have b: "crash_safe (v_shows cap {kMainData, kBackData} (Some a) (Some a)) (nv_begin m)"
    by (rule v_ready_safe [OF r]) simp_all
  show "crash_safe (v_shows cap {kMainData, kBackData} (Some a) (Some a)) m'"
    by (rule keeps_crash_safe [OF k b])
      (use s in \<open>auto intro!: v_shows_cong [OF s] simp: v_shows_def\<close>)
  have c: "v_cell cap l \<Longrightarrow> cur m' l = cur m l \<and> quiet m' l" for l using keepsD [OF k] by simp
  have "visible m'" using n r by (auto simp: v_ready_def set_attributes_def)
  moreover have "v_kept cap kBackData l \<Longrightarrow> v_cell cap l" for l by (cases l) (auto simp: geometry)
  ultimately show "mirrors cap a {} m'"
    using s c [of VMagic] c [of VCapacity] c [of VMainData] c [of VBackData] c [of VConsistent] c [of "Main _"] c [of "Back _"] c
    by (auto simp: mirrors_def v_stands_def v_shows_def geometry quiet_settled)
qed

subsection \<open>Recovering with the copy process 0 names\<close>

definition shows_at :: "nat \<Rightarrow> nat \<Rightarrow> (nat \<Rightarrow> nat) \<Rightarrow> (vloc \<Rightarrow> nat) \<Rightarrow> bool" where
  "shows_at cap c f pm \<longleftrightarrow>
     (\<exists>C A B. v_shows cap C A B pm \<and> (c = kMainData \<and> A = Some f \<or> c = kBackData \<and> B = Some f))"

lemma broadcast_stands:
  assumes "shows_at cap c f pm"
  shows "v_stands cap f (cur (set_consistent_data c (nv_init pm)))"
    and "quiet (set_consistent_data c (nv_init pm)) l" "visible (set_consistent_data c (nv_init pm))"
proof -
  have ne: "kMainData \<noteq> kBackData" by (simp add: geometry)
  show "v_stands cap f (cur (set_consistent_data c (nv_init pm)))"
    using assms ne by (auto simp: shows_at_def v_stands_def v_shows_def set_consistent_data_def)
  show "quiet (set_consistent_data c (nv_init pm)) l"
    by (cases "l = VConsistent") (simp_all add: set_consistent_data_def quiet_settled)
qed (simp add: set_consistent_data_def)

lemma mirrors_shows: "mirrors cap f D m \<Longrightarrow> shows_at cap kBackData f (cur m)"
  unfolding shows_at_def by (rule exI [of _ "{kBackData}"], rule exI [of _ None], rule exI [of _ "Some f"])
    (auto simp: mirrors_def v_stands_def v_shows_def geometry)

lemma shows_at_header:
  assumes "shows_at cap c f pm"
  shows "pm VMagic = kMetadataV1Magic" "pm VCapacity = cap"
  using assms by (auto simp: shows_at_def v_shows_def)

text \<open>
  The part a collective checkpoint is in decides which checkpoint the processes recover: whatever
  copy the header of process 0 names, all pools hold the same checkpoint there.
\<close>

lemma v_part_shows:
  assumes "v_part cap old new k pm" and "c \<in> (if k = 0 then {kBackData} else if k = 2 then {kMainData} else {kBackData, kMainData})"
  shows "shows_at cap c (if k = 0 \<or> k = 1 \<and> c = kBackData then old else new) pm"
  using assms by (auto simp: shows_at_def v_part_def split: if_splits)

lemma v_part_agrees:
  assumes v: "\<forall>r < n. v_part (cap r) (old r) (new r) k (pm r)" and n: "0 < n"
  obtains f where "\<forall>r < n. shows_at (cap r) (pm 0 VConsistent) (f r) (pm r)" "f = old \<or> f = new"
proof -
  let ?c = "pm 0 VConsistent"
  have c: "?c \<in> (if k = 0 then {kBackData} else if k = 2 then {kMainData} else {kBackData, kMainData})"
    using spec [OF v, of 0] n by (auto simp: v_part_def v_shows_def split: if_splits)
  show ?thesis
    by (rule that [of "if k = 0 \<or> k = 1 \<and> ?c = kBackData then old else new"])
      (use v v_part_shows [OF _ c] in auto)
qed

subsection \<open>The collective opening of existing pools\<close>

text \<open>
  What the two engines do in \<^verbatim>\<open>OpenForMPI\<close> when the files exist: each process prepares its
  pool, process 0 tells all others which copy its header calls consistent, and each finishes its
  opening with that copy. A process that fails before the broadcast does not take part in it, and
  the call does not succeed in the others either.
\<close>

definition open_together ::
  "mpi \<Rightarrow> (nat \<Rightarrow> (vloc \<Rightarrow> nat) \<Rightarrow> vmem option) \<Rightarrow> (nat \<Rightarrow> 'k \<Rightarrow> nat \<Rightarrow> vmem \<Rightarrow> 's option) \<Rightarrow>
   (nat \<Rightarrow> (vloc \<Rightarrow> nat) option) \<Rightarrow> (nat \<Rightarrow> nat) \<Rightarrow> (nat \<Rightarrow> 'k) \<Rightarrow> (nat \<Rightarrow> 's) option" where
  "open_together M prep fin file addr k =
     Option.bind (all_ranks (comm_size M) (\<lambda>r. Option.bind (file r) (prep (addr r)))) (\<lambda>ms.
       let consistent_data = bcast M 0 (\<lambda>r. cur (ms r) VConsistent)
       in all_ranks (comm_size M) (\<lambda>r. fin (addr r) (k r) consistent_data (ms r)))"

text \<open>
  The contract of the two halves: a file that shows a checkpoint at the copy broadcast is opened
  with that checkpoint, and an opened pool holds it in its back data. \<open>fits\<close> says of a
  capacity and an address what the opening needs of them.
\<close>

locale broadcast_opening =
  fixes prep :: "nat \<Rightarrow> (vloc \<Rightarrow> nat) \<Rightarrow> vmem option" and fin :: "nat \<Rightarrow> 'k \<Rightarrow> nat \<Rightarrow> vmem \<Rightarrow> 's option"
    and mem :: "'s \<Rightarrow> vmem" and opened :: "nat \<Rightarrow> (nat \<Rightarrow> nat) \<Rightarrow> 's \<Rightarrow> bool" and fits :: "nat \<Rightarrow> nat \<Rightarrow> bool"
  assumes prep_ok: "shows_at cap c f pm \<Longrightarrow> fits cap addr \<Longrightarrow> prep addr pm = Some (nv_init pm)"
    and fin_ok: "shows_at cap c f pm \<Longrightarrow> fits cap addr \<Longrightarrow> \<exists>s. fin addr k c (nv_init pm) = Some s \<and> opened cap f s"
    and opened_image: "opened cap f s \<Longrightarrow> \<exists>img \<in> crash_images (mem s). shows_at cap kBackData f img \<and> img VConsistent = kBackData"
begin

lemma together_ok:
  assumes M: "mpi_standard M" and o: "\<forall>r < comm_size M. fits (cap r) (addr r)"
    and s: "\<forall>r < comm_size M. shows_at (cap r) (pm 0 VConsistent) (f r) (pm r)"
  shows "\<exists>ss. open_together M prep fin (\<lambda>r. Some (pm r)) addr k = Some ss \<and> (\<forall>r < comm_size M. opened (cap r) (f r) (ss r))"
proof -
  have p: "prep (addr r) (pm r) = Some (nv_init (pm r))" if "r < comm_size M" for r
    by (rule prep_ok [where cap = "cap r"]) (use s o that in auto)
  obtain ms where ms: "all_ranks (comm_size M) (\<lambda>r. prep (addr r) (pm r)) = Some ms"
      "\<forall>r < comm_size M. ms r = nv_init (pm r)"
    using all_ranksI [of "comm_size M" "\<lambda>r. prep (addr r) (pm r)" "\<lambda>r. nv_init (pm r)"] p by auto
  have c: "bcast M 0 (\<lambda>r. cur (ms r) VConsistent) = pm 0 VConsistent"
    using ms(2) mpi_standardD(1,4) [OF M] by simp
  have "\<exists>s. fin (addr r) (k r) (pm 0 VConsistent) (ms r) = Some s \<and> opened (cap r) (f r) s" if "r < comm_size M" for r
    using fin_ok [of "cap r" "pm 0 VConsistent" "f r" "pm r" "addr r" "k r"] s o that ms(2) by simp
  then obtain g where g: "\<forall>r < comm_size M. fin (addr r) (k r) (pm 0 VConsistent) (ms r) = Some (g r)"
      "\<forall>r < comm_size M. opened (cap r) (f r) (g r)"
    by metis
  obtain ss where ss: "all_ranks (comm_size M) (\<lambda>r. fin (addr r) (k r) (pm 0 VConsistent) (ms r)) = Some ss"
      "\<forall>r < comm_size M. ss r = g r"
    using all_ranksI [OF g(1)] by blast
  then show ?thesis
    using g(2) by (intro exI [of _ ss]) (simp add: open_together_def ms(1) c Let_def)
qed

text \<open>
  A crash that leaves process 0 recovered and the others not: its header names its back data,
  which is the new checkpoint, and theirs still is the old one.
\<close>

lemma together_mixes:
  assumes M: "mpi_standard M" and o: "\<forall>r < comm_size M. fits (cap r) (addr r)"
    and v: "\<forall>r < comm_size M. v_part (cap r) (old r) (new r) 1 (pm r) \<and> pm r VConsistent = kMainData"
  shows "\<exists>s0 img. Option.bind (prep (addr 0) (pm 0)) (fin (addr 0) k0 (bcast M 0 (\<lambda>r. pm r VConsistent))) = Some s0 \<and>
    img \<in> crash_images (mem s0) \<and>
    (\<exists>ss. open_together M prep fin (\<lambda>r. Some (if r = 0 then img else pm r)) addr k = Some ss \<and>
      opened (cap 0) (new 0) (ss 0) \<and> (\<forall>r < comm_size M. r \<noteq> 0 \<longrightarrow> opened (cap r) (old r) (ss r)))"
proof -
  have n: "0 < comm_size M" by (rule mpi_standardD(1) [OF M])
  have sh: "shows_at (cap r) c (if c = kBackData then old r else new r) (pm r)"
    if "r < comm_size M" "c \<in> {kBackData, kMainData}" for r c
    using v_part_shows [of "cap r" "old r" "new r" 1 "pm r" c] v that by simp
  have b: "bcast M 0 (\<lambda>r. pm r VConsistent) = kMainData" using mpi_standardD(4) [OF M] v n by simp
  have "kMainData \<noteq> kBackData" by (simp add: geometry)
  then have s0: "shows_at (cap 0) kMainData (new 0) (pm 0)" using sh [OF n, of kMainData] by simp
  have o0: "fits (cap 0) (addr 0)" using o n by simp
  obtain s where s: "fin (addr 0) k0 kMainData (nv_init (pm 0)) = Some s" "opened (cap 0) (new 0) s"
    using fin_ok [OF s0 o0, of k0] by auto
  obtain img where im: "img \<in> crash_images (mem s)" "shows_at (cap 0) kBackData (new 0) img" "img VConsistent = kBackData"
    using opened_image [OF s(2)] by blast
  define pm' where "pm' = (\<lambda>r. if r = 0 then img else pm r)"
  define f where "f = (\<lambda>r. if r = 0 then new 0 else old r)"
  have "\<forall>r < comm_size M. shows_at (cap r) (pm' 0 VConsistent) (f r) (pm' r)"
    using im(2,3) sh [of _ kBackData] by (simp add: pm'_def f_def)
  from together_ok [OF M o this]
  obtain ss where ss: "open_together M prep fin (\<lambda>r. Some (pm' r)) addr k = Some ss"
      "\<forall>r < comm_size M. opened (cap r) (f r) (ss r)" by blast
  have "opened (cap 0) (new 0) (ss 0) \<and> (\<forall>r < comm_size M. r \<noteq> 0 \<longrightarrow> opened (cap r) (old r) (ss r))"
    using ss(2) n by (auto simp: f_def)
  moreover have "Option.bind (prep (addr 0) (pm 0)) (fin (addr 0) k0 (bcast M 0 (\<lambda>r. pm r VConsistent))) = Some s"
    using prep_ok [OF s0 o0] s(1) by (simp add: b)
  ultimately show ?thesis using im(1) ss(1) unfolding pm'_def by blast
qed

end

end
