(* ===== verification/Mpi_DirtyBit.thy ===== *)
theory Mpi_DirtyBit
  imports Mpi_Mirror DirtyBit
begin

text \<open>
  \<^verbatim>\<open>OpenForMPI\<close> and \<^verbatim>\<open>checkpoint_for_mpi\<close> of
  \<^verbatim>\<open>engines/dirtybit_engine.cpp\<close>.
\<close>

subsection \<open>The collective checkpoint\<close>

text \<open>The parts of \<^verbatim>\<open>checkpoint_for_mpi\<close>, cut where it calls \<^verbatim>\<open>MPI_Barrier\<close>.\<close>

definition persist_part :: "'k kernel \<Rightarrow> dirtybit \<times> 'k \<Rightarrow> (dirtybit \<times> 'k) option" where
  "persist_part K s = (case s of (e, k) \<Rightarrow>
     map_option (\<lambda>e1. (d_nv (\<lambda>m. nv_fence (nv_flush (\<lambda>_. True) m)) e1, k)) (read_page_map K k e))"

definition mark_part :: "nat \<Rightarrow> dirtybit \<times> 'k \<Rightarrow> (dirtybit \<times> 'k) option" where
  "mark_part c s = (case s of (e, k) \<Rightarrow> Some (d_nv (set_consistent_data c) e, k))"

definition copy_back_part :: "nat \<Rightarrow> dirtybit \<times> 'k \<Rightarrow> (dirtybit \<times> 'k) option" where
  "copy_back_part n s = (case s of (e, k) \<Rightarrow> Some (fold (write_back_parallel n) [0..<n] e, k))"

definition finish_part :: "'k kernel \<Rightarrow> dirtybit \<times> 'k \<Rightarrow> (dirtybit \<times> 'k) option" where
  "finish_part K s = (case s of (e, k) \<Rightarrow> map_option (Pair (note_snapshot e)) (reset_page_map K k))"

definition checkpoint_parts :: "'k kernel \<Rightarrow> nat \<Rightarrow> (dirtybit \<times> 'k \<Rightarrow> (dirtybit \<times> 'k) option) list" where
  "checkpoint_parts K n =
     [persist_part K, mark_part kMainData, copy_back_part n, mark_part kBackData, finish_part K]"

text \<open>
  The processes run them with a barrier after each but the last. Process \<open>r\<close> has \<open>n r\<close> threads.
  \<open>start_op\<close> only forgets the crash points of the parts before.
\<close>

definition checkpoint_for_mpi :: "'k kernel \<Rightarrow> (nat \<Rightarrow> nat) \<Rightarrow> (nat \<Rightarrow> dirtybit \<times> 'k \<Rightarrow> (dirtybit \<times> 'k) option) list" where
  "checkpoint_for_mpi K n = map (\<lambda>i r s. (checkpoint_parts K (n r) ! i) (start_op s)) [0..<5]"

lemma checkpoint_parts_nth:
  "checkpoint_parts K n ! 0 = persist_part K" "checkpoint_parts K n ! Suc 0 = mark_part kMainData"
  "checkpoint_parts K n ! 2 = copy_back_part n" "checkpoint_parts K n ! 3 = mark_part kBackData"
  "checkpoint_parts K n ! 4 = finish_part K"
  by (simp_all add: checkpoint_parts_def numeral_2_eq_2 numeral_3_eq_3 eval_nat_numeral(2))

lemma checkpoint_for_mpi_part:
  "k < 5 \<Longrightarrow> (checkpoint_for_mpi K n ! k) r s = (checkpoint_parts K (n r) ! k) (start_op s)"
  "length (checkpoint_for_mpi K n) = 5"
  by (simp_all add: checkpoint_for_mpi_def)

lemma d_nv_comp: "d_nv f (d_nv g e) = d_nv (\<lambda>m. f (g m)) e"
  by (simp add: d_nv_def)


subsection \<open>The invariant of each part\<close>

definition in_place :: "nat \<Rightarrow> dirtybit \<Rightarrow> bool" where
  "in_place cap e \<longleftrightarrow> capacity e = cap \<and> cap = nr_pages e * kPageSize \<and> cap < 2 ^ 31 \<and>
     address_first e mod kPageSize = 0"

definition seen :: "nat \<Rightarrow> (nat \<Rightarrow> nat) \<Rightarrow> (nat \<Rightarrow> nat) \<Rightarrow> dirtybit \<Rightarrow> bool" where
  "seen cap old new e \<longleftrightarrow> (\<forall>x < cap. new x \<noteq> old x \<longrightarrow> page_dirty e (x div kPageSize))"

definition part_inv ::
  "('k \<Rightarrow> nat \<Rightarrow> u64) \<Rightarrow> nat \<Rightarrow> (nat \<Rightarrow> nat) \<Rightarrow> (nat \<Rightarrow> nat) \<Rightarrow> nat \<Rightarrow> dirtybit \<times> 'k \<Rightarrow> bool" where
  "part_inv entry cap old new k s \<longleftrightarrow>
     (if k = 0 then dinv entry s old \<and> in_place cap (fst s) \<and> new = main_data (fst s)
      else if k = 1 then v_ready cap kBackData new old (dnv (fst s)) \<and> in_place cap (fst s) \<and> seen cap old new (fst s)
      else if k = 2 then v_ready cap kMainData new old (dnv (fst s)) \<and> in_place cap (fst s) \<and> seen cap old new (fst s)
      else if k = 3 then v_ready cap kMainData new new (dnv (fst s)) \<and> in_place cap (fst s)
      else if k = 4 then v_ready cap kBackData new new (dnv (fst s)) \<and> in_place cap (fst s)
      else dinv entry s new \<and> in_place cap (fst s))"

lemma in_place_nv [simp]: "in_place cap (d_nv f e) = in_place cap e"
  by (simp add: in_place_def)

lemma seen_nv [simp]: "seen cap old new (d_nv f e) = seen cap old new e"
  by (simp add: seen_def page_dirty_def)

lemma part_inv_start: "0 < k \<Longrightarrow> k < 5 \<Longrightarrow> part_inv entry cap old new k (e, kk) \<Longrightarrow> part_inv entry cap old new k (start_op (e, kk))"
  by (auto simp: part_inv_def start_op_def v_ready_begin)

lemma persist_ok:
  assumes K: "soft_dirty_kernel K entry" and i: "part_inv entry cap old new 0 (e, k)"
  shows "\<exists>s'. persist_part K (start_op (e, k)) = Some s' \<and> part_inv entry cap old new 1 s' \<and>
    crash_safe (v_part cap old new 0) (dnv (fst s'))"
    and "crash_safe (v_part cap old new 0) (nv_begin (dnv e))"
proof -
  have d: "dinv entry (e, k) old" "in_place cap e" "new = main_data e" using i by (simp_all add: part_inv_def)
  note iv = dinvD [OF d(1)]
  have cap: "capacity e = cap" "cap = nr_pages e * kPageSize" using d(2) by (simp_all add: in_place_def)
  let ?a = "address_first e div kPageSize"
  let ?es = "map (entry k) [?a..<?a + nr_pages e]"
  define m1 where "m1 = nv_fence (nv_flush (\<lambda>_. True) (nv_begin (dnv e)))"
  define e1 where "e1 = e\<lparr>pte_buffer := ?es, dnv := m1\<rparr>"
  have r: "persist_part K (start_op (e, k)) = Some (e1, k)"
    using soft_dirty_kernelD(1) [OF K]
    by (simp add: persist_part_def start_op_def read_page_map_def e1_def m1_def d_nv_def)
  have ev: "evolves (\<lambda>_. True) Map.empty (nv_begin (dnv e)) m1"
    unfolding m1_def using evolves_trans [OF evolves_flush evolves_fence, of "\<lambda>_. True" "nv_begin (dnv e)"] by simp
  note fl = v_flushed [OF iv(4) [unfolded cap(1)] ev]
  have md: "(\<lambda>x. cur (dnv e) (Main x)) = new" by (simp add: d(3) main_data_def fun_eq_iff)
  have q: "settled m1 l \<Longrightarrow> quiet m1 l" for l by (simp add: m1_def)
  have vr: "v_ready cap kBackData new old m1" "crash_safe (v_shows cap {kBackData} None (Some old)) m1"
    "crash_safe (v_shows cap {kBackData} None (Some old)) (nv_begin (dnv e))"
    using fl [OF q TrueI] by (simp_all add: md)
  have "page_dirty e1 (x div kPageSize)" if x: "x < cap" "new x \<noteq> old x" for x
  proof -
    have p: "x div kPageSize < nr_pages e" using x(1) cap(2) by (simp add: div_lt_mult_iff geometry)
    have "x \<in> marked entry k e" using mirrorsD(5) [OF iv(4), of x] x cap(1) by (auto simp: d(3) main_data_def)
    then have "bit (entry k (?a + x div kPageSize)) 55"
      by (simp add: marked_def get_address_def page_of [OF iv(3)])
    then show ?thesis using p by (simp add: page_dirty_def and_soft_dirty e1_def)
  qed
  then have "part_inv entry cap old new 1 (e1, k)"
    using vr(1) d(2) by (simp add: part_inv_def seen_def) (simp add: in_place_def e1_def)
  then show "\<exists>s'. persist_part K (start_op (e, k)) = Some s' \<and> part_inv entry cap old new 1 s' \<and>
    crash_safe (v_part cap old new 0) (dnv (fst s'))"
    using r vr(2) by (intro exI [of _ "(e1, k)"]) (simp add: v_part_def [abs_def] e1_def)
  show "crash_safe (v_part cap old new 0) (nv_begin (dnv e))" using vr(3) by (simp add: v_part_def [abs_def])
qed

lemma mark_ok:
  assumes r: "v_ready cap c a b (dnv e)"
  shows "\<exists>s'. mark_part c' (start_op (e, k)) = Some s' \<and> v_ready cap c' a b (dnv (fst s')) \<and>
    in_place cap (fst s') = in_place cap e \<and> seen cap old new (fst s') = seen cap old new e \<and>
    crash_safe (v_shows cap {c, c'} (Some a) (Some b)) (dnv (fst s'))"
  using v_switch [OF r, of c'] by (simp add: mark_part_def start_op_def)

lemma copy_back_ok:
  assumes r: "v_ready cap kMainData new old (dnv e)" and p: "in_place cap e" and s: "seen cap old new e" and n: "0 < n"
  shows "\<exists>s'. copy_back_part n (start_op (e, k)) = Some s' \<and> v_ready cap kMainData new new (dnv (fst s')) \<and>
    in_place cap (fst s') \<and> crash_safe (v_shows cap {kMainData} (Some new) None) (dnv (fst s'))"
proof -
  have pg: "0 < kPageSize" by (simp add: geometry)
  have cap: "cap = nr_pages e * kPageSize" using p by (simp add: in_place_def)
  let ?m = "nv_begin (dnv e)"
  define m3 where "m3 = fold (\<lambda>tid m. nv_fence (fold (copy_part kPageSize) (filter (page_dirty e) (share n tid (nr_pages e))) m)) [0..<n] ?m"
  note ct = copy_threads [where tids = "[0..<n]" and P = "\<lambda>tid. filter (page_dirty e) (share n tid (nr_pages e))" and m = ?m, OF pg]
  have ev: "evolves (\<lambda>_. False) (part_copies kPageSize {p. p < nr_pages e \<and> page_dirty e p} (cur ?m)) ?m m3"
    using ct [THEN conjunct1] by (simp only: shares_filter [OF n] m3_def)
  have q: "settled m3 l \<Longrightarrow> quiet m3 l" for l using ct n by (simp add: m3_def)
  have V1: "part_copies kPageSize {p. p < nr_pages e \<and> page_dirty e p} (cur ?m) (Back x) \<noteq> None" if "x < cap" "new x \<noteq> old x" for x
  proof -
    have "x div kPageSize < nr_pages e" using that(1) cap by (simp add: div_lt_mult_iff pg)
    then show ?thesis using s that by (simp add: seen_def)
  qed
  have V2: "\<exists>x. l = Back x \<and> w = cur (dnv e) (Main x)"
    if "part_copies kPageSize {p. p < nr_pages e \<and> page_dirty e p} (cur ?m) l = Some w" for l w
    using part_copies_Some [OF that] by simp
  have pd: "page_dirty (d_nv f e) = page_dirty e" for f by (simp add: page_dirty_def fun_eq_iff)
  have "copy_back_part n (start_op (e, k)) = Some (e\<lparr>dnv := m3\<rparr>, k)"
    unfolding copy_back_part_def start_op_def prod.case fst_conv snd_conv d_write_backs pd d_nv_simps m3_def
    by (simp add: d_nv_def)
  then show ?thesis
    using v_copied [OF r ev q V1 V2] p by (simp add: in_place_def)
qed

lemma finish_ok:
  assumes K: "soft_dirty_kernel K entry" and r: "v_ready cap kBackData new new (dnv e)" and p: "in_place cap e"
  shows "\<exists>s'. finish_part K (start_op (e, k)) = Some s' \<and> dinv entry s' new \<and> in_place cap (fst s') \<and>
    crash_safe (v_shows cap {kMainData, kBackData} (Some new) (Some new)) (dnv (fst s'))"
proof -
  obtain k' where k': "write_clear_refs K k = Some k'" using soft_dirty_kernelD(2) [OF K] by blast
  define e' where "e' = note_snapshot (d_nv nv_begin e)"
  have h: "finish_part K (start_op (e, k)) = Some (e', k')"
    by (simp add: finish_part_def start_op_def reset_page_map_def k' e'_def)
  have m: "dnv e' = nv_begin (dnv e) \<or> dnv e' = set_attributes kAttributeHasSnapshot (nv_begin (dnv e))"
    by (simp add: e'_def note_snapshot_def)
  have i: "in_place cap e'" using p by (simp add: e'_def note_snapshot_def in_place_def)
  note v = v_marked [OF r m]
  have "dinv entry (e', k') new"
    using mirrors_mono [OF v(2), of "marked entry k' e'"] i unfolding dinv_def prod.case in_place_def by auto
  with h i v(1) show ?thesis by (intro exI [of _ "(e', k')"]) simp
qed

lemma v_ready_part:
  assumes i: "part_inv entry cap old new k s" and k: "0 < k" "k < 5"
  shows "crash_safe (v_part cap old new k) (nv_begin (dnv (fst s)))"
proof -
  consider "k = 1" | "k = 2" | "k = 3" | "k = 4" using k by linarith
  then show ?thesis
  proof cases
    case 1
    then show ?thesis using i v_ready_safe [of cap kBackData new old] by (simp add: part_inv_def v_part_def [abs_def])
  next
    case 2
    then show ?thesis using i v_ready_safe [of cap kMainData new old _ "{kMainData}" "Some new" None] by (simp add: part_inv_def v_part_def [abs_def])
  next
    case 3
    then show ?thesis using i v_ready_safe [of cap kMainData new new] by (simp add: part_inv_def v_part_def [abs_def])
  next
    case 4
    then show ?thesis using i v_ready_safe [of cap kBackData new new] by (simp add: part_inv_def v_part_def [abs_def])
  qed
qed

lemma d_part_ok:
  assumes K: "soft_dirty_kernel K entry" and n: "0 < n r" and k: "k < 5" and i: "part_inv entry cap old new k s"
  shows "\<exists>s'. (checkpoint_for_mpi K n ! k) r s = Some s' \<and> part_inv entry cap old new (Suc k) s' \<and>
    crash_safe (v_part cap old new k) (dnv (fst s'))"
proof -
  obtain e kk where s: "s = (e, kk)" by (cases s)
  consider "k = 0" | "k = 1" | "k = 2" | "k = 3" | "k = 4" using k by linarith
  then show ?thesis
  proof cases
    case 1
    then show ?thesis using persist_ok(1) [OF K] i by (simp add: s checkpoint_for_mpi_part checkpoint_parts_nth)
  next
    case 2
    then have "v_ready cap kBackData new old (dnv e)" "in_place cap e" "seen cap old new e" using i by (simp_all add: s part_inv_def)
    then show ?thesis using mark_ok [of cap kBackData new old e kMainData kk old new] 2
      by (auto simp: s checkpoint_for_mpi_part checkpoint_parts_nth part_inv_def v_part_def [abs_def])
  next
    case 3
    then show ?thesis using copy_back_ok [of cap new old e "n r" kk] i n
      by (auto simp: s checkpoint_for_mpi_part checkpoint_parts_nth part_inv_def v_part_def [abs_def])
  next
    case 4
    then have "v_ready cap kMainData new new (dnv e)" "in_place cap e" using i by (simp_all add: s part_inv_def)
    then show ?thesis using mark_ok [of cap kMainData new new e kBackData kk old new] 4
      by (auto simp: s checkpoint_for_mpi_part checkpoint_parts_nth part_inv_def v_part_def [abs_def])
  next
    case 5
    then show ?thesis using finish_ok [OF K, of cap new e kk] i
      by (auto simp: s checkpoint_for_mpi_part checkpoint_parts_nth part_inv_def v_part_def [abs_def])
  qed
qed

text \<open>
  The contract of the collective checkpoint; what is assumed of the kernel is part of the
  invariant.
\<close>

definition rank_inv ::
  "'k kernel \<Rightarrow> ('k \<Rightarrow> nat \<Rightarrow> u64) \<Rightarrow> (nat \<Rightarrow> nat) \<Rightarrow> (nat \<Rightarrow> nat) \<Rightarrow> (nat \<Rightarrow> nat \<Rightarrow> nat) \<Rightarrow> (nat \<Rightarrow> nat \<Rightarrow> nat) \<Rightarrow>
   nat \<Rightarrow> nat \<Rightarrow> dirtybit \<times> 'k \<Rightarrow> bool" where
  "rank_inv K entry n cap old new r k s \<longleftrightarrow>
     soft_dirty_kernel K entry \<and> 0 < n r \<and> part_inv entry (cap r) (old r) (new r) k s"

interpretation dirty_ranks: collective_parts M "checkpoint_for_mpi K n" "\<lambda>s. dnv (fst s)"
  "rank_inv K entry n cap old new" "\<lambda>r. v_part (cap r) (old r) (new r)"
  for M K n entry cap old new
proof unfold_locales
  fix r k s assume k: "k < length (checkpoint_for_mpi K n)" and i: "rank_inv K entry n cap old new r k s"
  then have k5: "k < 5" and I: "soft_dirty_kernel K entry" "0 < n r" "part_inv entry (cap r) (old r) (new r) k s"
    by (simp_all add: checkpoint_for_mpi_part rank_inv_def)
  show "\<exists>s'. (checkpoint_for_mpi K n ! k) r s = Some s' \<and> rank_inv K entry n cap old new r (Suc k) s' \<and>
      crash_safe (v_part (cap r) (old r) (new r) k) (dnv (fst s'))"
    using d_part_ok [where n = n and r = r, OF I(1,2) k5 I(3)] I by (simp add: rank_inv_def)
  show "crash_safe (v_part (cap r) (old r) (new r) k) (nv_begin (dnv (fst s)))"
  proof (cases "k = 0")
    case True
    then show ?thesis using persist_ok(2) [OF I(1)] I(3) by (cases s) simp
  qed (use v_ready_part [OF I(3)] k5 in simp)
qed

lemma rank_inv_start:
  assumes "good K entry s snap" and "0 < n r" and "cap r = get_capacity (fst s)" and "old r = snap"
    and "new r = main_data (fst s)"
  shows "rank_inv K entry n cap old new r 0 s"
  using assms by (auto simp: rank_inv_def part_inv_def good_def in_place_def get_capacity_def dinv_def)

lemma all_start_inv:
  assumes "\<forall>r < N. good K entry (s0 r) (old r) \<and> 0 < n r"
  shows "\<forall>r < N. rank_inv K entry n (\<lambda>r. get_capacity (fst (s0 r))) old (\<lambda>r. main_data (fst (s0 r))) r 0 (s0 r)"
proof (intro allI impI)
  fix r assume "r < N"
  with assms have "good K entry (s0 r) (old r)" "0 < n r" by blast+
  then show "rank_inv K entry n (\<lambda>r. get_capacity (fst (s0 r))) old (\<lambda>r. main_data (fst (s0 r))) r 0 (s0 r)"
    by (rule rank_inv_start) simp_all
qed

lemma rank_inv_done: "rank_inv K entry n cap old new r 5 s \<Longrightarrow> good K entry s (new r)"
  by (simp add: rank_inv_def part_inv_def good_def)

subsection \<open>The collective opening\<close>

text \<open>The parts before and after the broadcast, for an existing file, and the whole operation.\<close>

definition prepare_engine :: "nat \<Rightarrow> (vloc \<Rightarrow> nat) \<Rightarrow> vmem option" where
  "prepare_engine addr pm = Option.bind (open_metadata addr (nv_init pm)) (\<lambda>m.
     if cur m VCapacity mod kPageSize \<noteq> 0 then None else Some m)"

definition finish_opening :: "'k kernel \<Rightarrow> nat \<Rightarrow> 'k \<Rightarrow> nat \<Rightarrow> vmem \<Rightarrow> (dirtybit \<times> 'k) option" where
  "finish_opening K addr k consistent m = Option.bind (recover_data (set_consistent_data consistent m)) (\<lambda>m.
     start_engine K k addr (cur m VCapacity) (has_snapshot_flag (cur m)) m)"

definition OpenForMPI ::
  "mpi \<Rightarrow> 'k kernel \<Rightarrow> (nat \<Rightarrow> bool) \<Rightarrow> (nat \<Rightarrow> bool) \<Rightarrow> (nat \<Rightarrow> nat) \<Rightarrow> (nat \<Rightarrow> (vloc \<Rightarrow> nat) option) \<Rightarrow>
   (nat \<Rightarrow> nat) \<Rightarrow> (nat \<Rightarrow> 'k) \<Rightarrow> (nat \<Rightarrow> dirtybit \<times> 'k) option" where
  "OpenForMPI M K may_create trunc wanted file addr k =
     (let all_create = create_votes M may_create trunc (\<lambda>r. file r \<noteq> None)
      in if all_create \<noteq> 0 \<and> all_create \<noteq> comm_size M then None
         else if all_create \<noteq> 0 then all_ranks (comm_size M) (\<lambda>r. create_engine K (wanted r) (addr r) (k r))
         else open_together M prepare_engine (finish_opening K) file addr k)"

lemma OpenForMPI_existing:
  "mpi_standard M \<Longrightarrow> OpenForMPI M K (\<lambda>_. False) trunc wanted file addr k = open_together M prepare_engine (finish_opening K) file addr k"
  by (simp add: OpenForMPI_def no_create_votes)

definition opened :: "'k kernel \<Rightarrow> ('k \<Rightarrow> nat \<Rightarrow> u64) \<Rightarrow> nat \<Rightarrow> (nat \<Rightarrow> nat) \<Rightarrow> dirtybit \<times> 'k \<Rightarrow> bool" where
  "opened K entry cap f s \<longleftrightarrow> good K entry s f \<and> get_capacity (fst s) = cap \<and> (\<forall>x < cap. main_data (fst s) x = f x)"

definition openable :: "nat \<Rightarrow> nat \<Rightarrow> bool" where
  "openable cap addr \<longleftrightarrow> cap < 2 ^ 31 \<and> cap mod kPageSize = 0 \<and> addr \<noteq> 0 \<and> addr mod kPageSize = 0"

interpretation dirty_opening: broadcast_opening prepare_engine "finish_opening K" "\<lambda>s. dnv (fst s)" "opened K entry"
  "\<lambda>cap addr. soft_dirty_kernel K entry \<and> openable cap addr"
  for K entry
proof unfold_locales
  fix cap c f pm addr k assume s: "shows_at cap c f pm" and o: "soft_dirty_kernel K entry \<and> openable cap addr"
  show "prepare_engine addr pm = Some (nv_init pm)"
    using o shows_at_header [OF s] by (simp add: prepare_engine_def open_metadata_def openable_def)
  obtain m where m: "recover_data (set_consistent_data c (nv_init pm)) = Some m" "mirrors cap f {} m"
    by (rule mirror_recover_quiet [OF broadcast_stands [OF s]]) (use o in \<open>auto simp: openable_def\<close>)
  have c: "cur m VCapacity = cap" using mirrorsD(1) [OF m(2)] by (simp add: v_stands_def)
  obtain e k' where e: "start_engine K k addr cap (has_snapshot_flag (cur m)) m = Some (e, k')" "dinv entry (e, k') f"
      "capacity e = cap" "dnv e = m"
    by (rule d_start [where K = K and entry = entry and addr = addr and k = k and b = "has_snapshot_flag (cur m)", OF _ m(2)]) (use o in \<open>auto simp: openable_def\<close>)
  show "\<exists>s. finish_opening K addr k c (nv_init pm) = Some s \<and> opened K entry cap f s"
    using e o mirrorsD(5) [OF m(2)]
    by (intro exI [of _ "(e, k')"]) (simp add: finish_opening_def m(1) c opened_def good_def get_capacity_def main_data_def)
next
  fix cap f s assume "opened K entry cap f s"
  then have i: "mirrors cap f (marked entry (snd s) (fst s)) (dnv (fst s))"
    by (cases s) (auto simp: opened_def good_def get_capacity_def dest: dinvD(4))
  show "\<exists>img \<in> crash_images (dnv (fst s)). shows_at cap kBackData f img \<and> img VConsistent = kBackData"
    using visible_crash_image [OF mirrorsD(3) [OF i]] mirrors_shows [OF i] mirrorsD(2) [OF i] by blast
qed

text \<open>Two processes, each with 9 stored into a new pool.\<close>

lemma two_stored:
  obtains s where "good set_kernel set_entry s (\<lambda>_. 0)" "main_data (fst s) 5 = 9" "get_capacity (fst s) = kMinContainerSize"
proof -
  have c: "round_capacity 0 = kMinContainerSize" by (simp add: round_capacity_def geometry)
  have a: "round_capacity 0 < 2 ^ 31" "(4096 :: nat) \<noteq> 0" "4096 mod kPageSize = 0" by (simp_all add: c geometry)
  obtain s0 where s0: "good set_kernel set_entry s0 (\<lambda>_. 0)" "get_capacity (fst s0) = round_capacity 0"
    by (rule d_open_new [where k = "{}", OF set_kernel_ok a])
  have al: "allowed (Store 5 9) s0 (\<lambda>_. 0)" by (simp add: s0(2) c geometry)
  from d_step_ok [OF s0(1) al] obtain s1 where s1: "step set_kernel (Store 5 9) s0 = Some s1"
      "good set_kernel set_entry s1 (\<lambda>_. 0)" "get_capacity (fst s1) = kMinContainerSize"
    using s0(2) by (auto simp: c)
  have "main_data (fst s1) 5 = 9"
    using s1(1) by (auto simp: step_def start_op_def store_byte_def main_data_def)
  with s1 show ?thesis by (intro that)
qed

text \<open>Process 0 has ended its first part, process 1 has not begun.\<close>

lemma one_ahead:
  assumes g: "good set_kernel set_entry s (\<lambda>_. 0)"
  obtains c where "reached (plain_mpi 2) (checkpoint_for_mpi set_kernel (\<lambda>_. 1)) (\<lambda>_. s) c" "called c 0 = 1" "called c 1 = 0"
    "visible (dnv (fst (local_state c 0)))" "local_state c 1 = s"
proof -
  let ?P = "checkpoint_for_mpi set_kernel (\<lambda>_. 1)" and ?c = "all_start (\<lambda>_. s)"
  have "rank_inv set_kernel set_entry (\<lambda>_. 1) (\<lambda>_. get_capacity (fst s)) (\<lambda>_ _. 0) (\<lambda>_. main_data (fst s)) 0 0 s"
    by (rule rank_inv_start [OF g]) simp_all
  then have i0: "part_inv set_entry (get_capacity (fst s)) (\<lambda>_. 0) (main_data (fst s)) 0 s" by (simp add: rank_inv_def)
  obtain s' where s': "(?P ! 0) 0 s = Some s'" "part_inv set_entry (get_capacity (fst s)) (\<lambda>_. 0) (main_data (fst s)) 1 s'"
    using d_part_ok [where r = 0 and k = 0 and n = "\<lambda>_. 1", OF set_kernel_ok _ _ i0] by auto
  define c where "c = ?c\<lparr>called := (called ?c)(0 := Suc (called ?c 0)), local_state := (local_state ?c)(0 := s')\<rparr>"
  have "collective (plain_mpi 2) ?P ?c c"
    unfolding c_def by (rule collective.part) (simp_all add: all_start_def s'(1) [unfolded One_nat_def] plain_mpi_ok(2) checkpoint_for_mpi_part(2))
  then have "reached (plain_mpi 2) ?P (\<lambda>_. s) c" by (rule reached_step [OF reached_start])
  moreover have "called c 0 = 1" "called c 1 = 0" "local_state c 0 = s'" "local_state c 1 = s" by (simp_all add: c_def all_start_def)
  moreover have "visible (dnv (fst s'))" using s'(2) by (simp add: part_inv_def v_ready_def)
  ultimately show ?thesis by (intro that) simp_all
qed

subsection \<open>Crashes of a collective checkpoint\<close>





subsection \<open>Crashes of a collective opening\<close>


text \<open>A page in which the main data is 9 and the back data 0, in each of two processes.\<close>

fun half_done :: "vloc \<Rightarrow> nat" where
  "half_done VMagic = kMetadataV1Magic" | "half_done VCapacity = kPageSize" | "half_done VMainData = kHugePageSize"
| "half_done VBackData = kHugePageSize + kPageSize" | "half_done VConsistent = kMainData" | "half_done (Main x) = 9"
| "half_done l = 0"


end
