(* ===== verification/Mpi_MProtect.thy ===== *)
theory Mpi_MProtect
  imports Mpi_Mirror MProtect
begin

text \<open>
  \<^verbatim>\<open>OpenForMPI\<close> and \<^verbatim>\<open>checkpoint_for_mpi\<close> of
  \<^verbatim>\<open>engines/mprotect_engine.cpp\<close>. Unlike the checkpoint of a program without MPI, the
  collective one goes through all its parts when no region was written, since the other processes
  wait at the barriers.
\<close>

subsection \<open>The collective checkpoint\<close>

definition collective_mode :: "mprot \<Rightarrow> flush_mode" where
  "collective_mode e =
     (if \<exists>i \<in> set [0..<kMaxThreads]. length (flush_regions e i) = kMaxFlushRegions then FMODE_WBINVD
      else FMODE_USE_FLUSH_BLOCKS)"

definition persist_part :: "nat \<Rightarrow> mprot \<times> 'k \<Rightarrow> (mprot \<times> 'k) option" where
  "persist_part n s = (case s of (e, k) \<Rightarrow>
     Some (fold (flush_parallel n) [0..<n] (e\<lparr>mode := collective_mode e\<rparr>), k))"

definition mark_part :: "nat \<Rightarrow> mprot \<times> 'k \<Rightarrow> (mprot \<times> 'k) option" where
  "mark_part c s = (case s of (e, k) \<Rightarrow> Some (p_nv (set_consistent_data c) e, k))"

definition copy_back_part :: "'k protection \<Rightarrow> nat \<Rightarrow> mprot \<times> 'k \<Rightarrow> (mprot \<times> 'k) option" where
  "copy_back_part K n s = (case s of (e, k) \<Rightarrow>
     map_option (Pair (fold (clear_dirty_bits_parallel n) [0..<n] (fold (write_back_parallel n) [0..<n] e)))
       (protect_regions K 0 (nr_regions e) False e k))"

definition finish_part :: "mprot \<times> 'k \<Rightarrow> (mprot \<times> 'k) option" where
  "finish_part s = (case s of (e, k) \<Rightarrow>
     Some (note_snapshot (e\<lparr>flush_regions := (\<lambda>i. if i < kMaxThreads then [] else flush_regions e i)\<rparr>), k))"

definition checkpoint_parts :: "'k protection \<Rightarrow> nat \<Rightarrow> (mprot \<times> 'k \<Rightarrow> (mprot \<times> 'k) option) list" where
  "checkpoint_parts K n =
     [persist_part n, mark_part kMainData, copy_back_part K n, mark_part kBackData, finish_part]"

definition checkpoint_for_mpi :: "'k protection \<Rightarrow> (nat \<Rightarrow> nat) \<Rightarrow> (nat \<Rightarrow> mprot \<times> 'k \<Rightarrow> (mprot \<times> 'k) option) list" where
  "checkpoint_for_mpi K n = map (\<lambda>i r s. (checkpoint_parts K (n r) ! i) (start_op s)) [0..<5]"

lemma p_checkpoint_parts_nth:
  "checkpoint_parts K n ! 0 = persist_part n" "checkpoint_parts K n ! Suc 0 = mark_part kMainData"
  "checkpoint_parts K n ! 2 = copy_back_part K n" "checkpoint_parts K n ! 3 = mark_part kBackData"
  "checkpoint_parts K n ! 4 = finish_part"
  by (simp_all add: checkpoint_parts_def numeral_2_eq_2 numeral_3_eq_3 eval_nat_numeral(2))

lemma p_checkpoint_for_mpi_part:
  "k < 5 \<Longrightarrow> (checkpoint_for_mpi K n ! k) r s = (checkpoint_parts K (n r) ! k) (start_op s)"
  "length (checkpoint_for_mpi K n) = 5"
  by (simp_all add: checkpoint_for_mpi_def)

text \<open>When some region was written, the parts together are the checkpoint without MPI.\<close>

theorem p_parts_are_checkpoint:
  assumes "\<exists>i < kMaxThreads. flush_regions (fst s) i \<noteq> []"
  shows "fold (\<lambda>part s. Option.bind s part) (checkpoint_parts K n) (Some s) = checkpoint K n s"
proof -
  obtain e k where s: "s = (e, k)" by (cases s)
  have m: "decide_mode e = collective_mode e" "collective_mode e \<noteq> FMODE_NO_ACTION"
    using assms by (auto simp: decide_mode_def collective_mode_def s)
  show ?thesis
    by (simp add: s checkpoint_parts_def persist_part_def mark_part_def copy_back_part_def finish_part_def
        checkpoint_def Let_def m map_option_case split: option.split)
qed

subsection \<open>The invariant of each part\<close>

definition in_place :: "nat \<Rightarrow> mprot \<Rightarrow> bool" where
  "in_place cap e \<longleftrightarrow> capacity e = cap \<and> cap = nr_regions e * kRegionSize \<and> cap < 2 ^ 31 \<and> address_first e mod kPageSize = 0"

text \<open>Every changed byte is in a region the threads will copy; or no region is dirty any more.\<close>

definition covered :: "nat \<Rightarrow> (nat \<Rightarrow> nat) \<Rightarrow> (nat \<Rightarrow> nat) \<Rightarrow> mprot \<Rightarrow> bool" where
  "covered cap old new e \<longleftrightarrow> (\<forall>x < cap. new x \<noteq> old x \<longrightarrow> x \<in> dirty_bytes e) \<and>
     (\<forall>r. bs_test r (region_dirty e) \<longrightarrow> mode e = FMODE_WBINVD \<or> listed e r)"

definition all_clean :: "'k protection \<Rightarrow> mprot \<Rightarrow> 'k \<Rightarrow> bool" where
  "all_clean K e k \<longleftrightarrow> (\<forall>r. \<not> bs_test r (region_dirty e)) \<and> (\<forall>x < capacity e. \<not> can_write K k (get_address x e))"

definition part_inv ::
  "'k protection \<Rightarrow> nat \<Rightarrow> (nat \<Rightarrow> nat) \<Rightarrow> (nat \<Rightarrow> nat) \<Rightarrow> nat \<Rightarrow> mprot \<times> 'k \<Rightarrow> bool" where
  "part_inv K cap old new k s \<longleftrightarrow> (case s of (e, kk) \<Rightarrow> in_place cap e \<and>
     (if k = 0 then pinv K s old \<and> new = main_data e
      else if k = 1 then v_ready cap kBackData new old (pnv e) \<and> tracked K e kk \<and> covered cap old new e
      else if k = 2 then v_ready cap kMainData new old (pnv e) \<and> tracked K e kk \<and> covered cap old new e
      else if k = 3 then v_ready cap kMainData new new (pnv e) \<and> all_clean K e kk
      else if k = 4 then v_ready cap kBackData new new (pnv e) \<and> all_clean K e kk
      else pinv K s new))"

lemma p_nv_frames [simp]:
  "in_place cap (p_nv f e) = in_place cap e" "covered cap old new (p_nv f e) = covered cap old new e"
  "tracked K (p_nv f e) k = tracked K e k" "all_clean K (p_nv f e) k = all_clean K e k"
  "dirty_bytes (p_nv f e) = dirty_bytes e" "collective_mode (p_nv f e) = collective_mode e"
  by (simp_all add: in_place_def covered_def tracked_def none_full_def get_address_def dirty_bytes_def listed_def all_clean_def collective_mode_def)

lemma p_mode_covers:
  assumes "tracked K e k" and "bs_test r (region_dirty e)"
  shows "collective_mode e = FMODE_WBINVD \<or> listed e r"
proof (cases "collective_mode e = FMODE_WBINVD")
  case False
  then have "none_full e" by (auto simp: none_full_def collective_mode_def split: if_splits)
  from trackedD(5) [OF assms(1) this assms(2)] show ?thesis by (simp add: listed_def)
qed simp

lemma p_persist_ok:
  assumes i: "part_inv K cap old new 0 (e, k)" and n: "0 < n"
  shows "\<exists>s'. persist_part n (start_op (e, k)) = Some s' \<and> part_inv K cap old new 1 s' \<and>
    crash_safe (v_part cap old new 0) (pnv (fst s'))"
    and "crash_safe (v_part cap old new 0) (nv_begin (pnv e))"
proof -
  have d: "pinv K (e, k) old" "in_place cap e" "new = main_data e" using i by (simp_all add: part_inv_def)
  note iv = pinvD [OF d(1)]
  have cap: "capacity e = cap" using d(2) by (simp add: in_place_def)
  let ?m = "nv_begin (pnv e)"
  define e1 where "e1 = e\<lparr>pnv := ?m, mode := collective_mode e\<rparr>"
  define m1 where "m1 = fold (\<lambda>tid m. nv_fence (nv_flush (p_flushed n e1 tid) m)) [0..<n] ?m"
  have f1: "dirty_bytes e1 = dirty_bytes e" "region_dirty e1 = region_dirty e" "mode e1 = collective_mode e" "listed e1 = listed e"
    "tracked K (e1\<lparr>pnv := m\<rparr>) k = tracked K e k" for m
    by (simp_all add: e1_def dirty_bytes_def listed_def fun_eq_iff tracked_def none_full_def get_address_def)
  have r: "persist_part n (start_op (e, k)) = Some (e1\<lparr>pnv := m1\<rparr>, k)"
    by (simp add: persist_part_def start_op_def p_flush_parallels m1_def e1_def) (simp add: p_nv_def)
  have ev: "evolves (\<lambda>l. mode e1 = FMODE_WBINVD \<or> (\<exists>r. listed e1 r \<and> in_main_region r l)) Map.empty ?m m1"
    using flush_threads [of "[0..<n]" "p_flushed n e1" ?m, THEN conjunct1, unfolded p_flushed_any [OF n]] by (simp only: m1_def)
  have q: "settled m1 l \<Longrightarrow> quiet m1 l" for l
    using flush_threads [of "[0..<n]" "p_flushed n e1" ?m, THEN conjunct2] n by (simp add: m1_def)
  have F: "mode e1 = FMODE_WBINVD \<or> (\<exists>r. listed e1 r \<and> in_main_region r (Main x))" if "x \<in> dirty_bytes e" for x
    using p_mode_covers [OF iv(5), of "x div kRegionSize"] that by (auto simp: dirty_bytes_def f1(3,4))
  have md: "(\<lambda>x. cur (pnv e) (Main x)) = new" by (simp add: d(3) main_data_def fun_eq_iff)
  have vr: "v_ready cap kBackData new old m1" "crash_safe (v_shows cap {kBackData} None (Some old)) m1"
    "crash_safe (v_shows cap {kBackData} None (Some old)) ?m"
    using v_flushed [OF iv(4) [unfolded cap] ev q F] by (simp_all add: md)
  have "covered cap old new (e1\<lparr>pnv := m1\<rparr>)"
    using mirrorsD(5) [OF iv(4)] p_mode_covers [OF iv(5)] d(3) cap
    by (auto simp: covered_def main_data_def f1(1-4) [unfolded e1_def] e1_def dirty_bytes_def listed_def)
  moreover have "in_place cap (e1\<lparr>pnv := m1\<rparr>)" using d(2) by (simp add: in_place_def e1_def)
  ultimately have "part_inv K cap old new 1 (e1\<lparr>pnv := m1\<rparr>, k)"
    using vr(1) iv(5) f1(5) by (simp add: part_inv_def)
  then show "\<exists>s'. persist_part n (start_op (e, k)) = Some s' \<and> part_inv K cap old new 1 s' \<and>
    crash_safe (v_part cap old new 0) (pnv (fst s'))"
    using r vr(2) by (intro exI [of _ "(e1\<lparr>pnv := m1\<rparr>, k)"]) (simp add: v_part_def [abs_def])
  show "crash_safe (v_part cap old new 0) (nv_begin (pnv e))" using vr(3) by (simp add: v_part_def [abs_def])
qed

lemma p_copy_back_ok:
  assumes K: "protection_works K" and i: "part_inv K cap old new 2 (e, k)" and n: "0 < n"
  shows "\<exists>s'. copy_back_part K n (start_op (e, k)) = Some s' \<and> part_inv K cap old new 3 s' \<and>
    crash_safe (v_part cap old new 2) (pnv (fst s'))"
proof -
  have d: "in_place cap e" "v_ready cap kMainData new old (pnv e)" "tracked K e k" "covered cap old new e"
    using i by (simp_all add: part_inv_def)
  have al: "address_first e mod kPageSize = 0" "capacity e = cap" "cap = nr_regions e * kRegionSize" using d(1) by (simp_all add: in_place_def)
  have rg: "0 < kRegionSize" by (simp add: geometry)
  let ?e = "p_nv nv_begin e" and ?m = "nv_begin (pnv e)"
  obtain k' where k': "protect_regions K 0 (nr_regions e) False ?e k = Some k'"
    "\<forall>x. can_write K k' (get_address x ?e) = (if 0 * kRegionSize \<le> x \<and> x < (0 + nr_regions e) * kRegionSize
       then False else can_write K k (get_address x ?e))"
    by (rule protect_ok [where r = 0 and n = "nr_regions e" and w = False and k = k and e = ?e, OF K]) (use al in simp)
  define m3 where "m3 = fold (\<lambda>tid m. nv_fence (fold (copy_part kRegionSize) (p_copied n e tid) m)) [0..<n] ?m"
  define dirty3 where "dirty3 = fold bs_clear_all (concat (map (p_cleared n e) [0..<n])) (region_dirty e)"
  define e3 where "e3 = e\<lparr>pnv := m3, region_dirty := dirty3\<rparr>"
  define A where "A = (if mode e = FMODE_WBINVD then {r. r < nr_regions e \<and> bs_test r (region_dirty e)} else {r. listed e r})"
  have "p_copied n ?e = p_copied n e" "p_cleared n (e\<lparr>pnv := m\<rparr>) = p_cleared n e" for m
    by (simp_all add: p_copied_def p_cleared_def fun_eq_iff)
  then have r: "copy_back_part K n (start_op (e, k)) = Some (e3, k')"
    using k'(1) by (simp add: copy_back_part_def start_op_def p_write_backs p_clears e3_def m3_def dirty3_def) (simp add: p_nv_def)
  note ct = copy_threads [where tids = "[0..<n]" and P = "p_copied n e" and m = ?m, OF rg]
  have ev: "evolves (\<lambda>_. False) (part_copies kRegionSize A (cur ?m)) ?m m3"
    using ct [THEN conjunct1, unfolded p_copied_all [OF n]] by (simp only: m3_def A_def)
  have q: "settled m3 l \<Longrightarrow> quiet m3 l" for l using ct [THEN conjunct2] n by (simp add: m3_def)
  have V1: "part_copies kRegionSize A (cur ?m) (Back x) \<noteq> None" if "x < cap" "new x \<noteq> old x" for x
    using d(4) trackedD(2) [OF d(3), of "x div kRegionSize"] that by (auto simp: covered_def A_def dirty_bytes_def)
  have V2: "\<exists>x. l = Back x \<and> w = cur (pnv e) (Main x)" if "part_copies kRegionSize A (cur ?m) l = Some w" for l w
    using part_copies_Some [OF that] by simp
  have clean: "\<not> bs_test r dirty3" for r
  proof
    assume "bs_test r dirty3"
    then have h: "bs_test r (region_dirty e)" "\<forall>q \<in> set (concat (map (p_cleared n e) [0..<n])). r div 64 \<noteq> q div 64"
      unfolding dirty3_def bs_test_clears by blast+
    have "if mode e = FMODE_WBINVD then r < nr_regions e else listed e r"
      using d(4) trackedD(2) [OF d(3) h(1)] h(1) by (auto simp: covered_def)
    from p_cleared_all [OF n this] h(2) show False by blast
  qed
  have "all_clean K e3 k'"
    using clean k'(2) al(2,3) by (simp add: all_clean_def e3_def get_address_def)
  moreover have "in_place cap e3" using d(1) by (simp add: in_place_def e3_def)
  moreover note v_copied [OF d(2) ev q V1 V2]
  ultimately show ?thesis
    using r by (intro exI [of _ "(e3, k')"]) (simp add: part_inv_def v_part_def [abs_def] e3_def)
qed

lemma p_finish_ok:
  assumes i: "part_inv K cap old new 4 (e, k)"
  shows "\<exists>s'. finish_part (start_op (e, k)) = Some s' \<and> part_inv K cap old new 5 s' \<and>
    crash_safe (v_part cap old new 4) (pnv (fst s'))"
proof -
  have d: "in_place cap e" "v_ready cap kBackData new new (pnv e)" "all_clean K e k" using i by (simp_all add: part_inv_def)
  define e5 where "e5 = note_snapshot ((p_nv nv_begin e)\<lparr>flush_regions := (\<lambda>i. if i < kMaxThreads then [] else flush_regions e i)\<rparr>)"
  have r: "finish_part (start_op (e, k)) = Some (e5, k)" by (simp add: finish_part_def start_op_def e5_def cong: if_cong)
  have f: "capacity e5 = capacity e" "nr_regions e5 = nr_regions e" "address_first e5 = address_first e" "region_dirty e5 = region_dirty e"
    "i < kMaxThreads \<Longrightarrow> flush_regions e5 i = []" for i
    by (simp_all add: e5_def note_snapshot_def)
  have m: "pnv e5 = nv_begin (pnv e) \<or> pnv e5 = set_attributes kAttributeHasSnapshot (nv_begin (pnv e))"
    by (simp add: e5_def note_snapshot_def)
  note v = v_marked [OF d(2) m]
  have "tracked K e5 k" using d(3) by (simp add: tracked_def all_clean_def f get_address_def)
  moreover have "mirrors cap new (dirty_bytes e5) (pnv e5)" by (rule mirrors_mono [OF v(2)]) simp
  ultimately have "part_inv K cap old new 5 (e5, k)" using d(1) by (simp add: part_inv_def pinv_def in_place_def f)
  then show ?thesis using r v(1) by (intro exI [of _ "(e5, k)"]) (simp add: v_part_def [abs_def])
qed

lemma p_mark_ok:
  assumes r: "v_ready cap c a b (pnv e)"
  shows "mark_part c' (start_op (e, k)) = Some (p_nv (\<lambda>m. set_consistent_data c' (nv_begin m)) e, k)"
    and "v_ready cap c' a b (set_consistent_data c' (nv_begin (pnv e)))"
    and "crash_safe (v_shows cap {c, c'} (Some a) (Some b)) (set_consistent_data c' (nv_begin (pnv e)))"
  using v_switch [OF r, of c'] by (simp_all add: mark_part_def start_op_def p_nv_def)

lemma p_ready_part:
  assumes i: "part_inv K cap old new k s" and k: "0 < k" "k < 5"
  shows "crash_safe (v_part cap old new k) (nv_begin (pnv (fst s)))"
proof -
  consider "k = 1" | "k = 2" | "k = 3" | "k = 4" using k by linarith
  then show ?thesis
  proof cases
    case 1
    then show ?thesis using i v_ready_safe [of cap kBackData new old] by (auto simp: part_inv_def v_part_def [abs_def] split: prod.splits)
  next
    case 2
    then show ?thesis using i v_ready_safe [of cap kMainData new old _ "{kMainData}" "Some new" None]
      by (auto simp: part_inv_def v_part_def [abs_def] split: prod.splits)
  next
    case 3
    then show ?thesis using i v_ready_safe [of cap kMainData new new] by (auto simp: part_inv_def v_part_def [abs_def] split: prod.splits)
  next
    case 4
    then show ?thesis using i v_ready_safe [of cap kBackData new new] by (auto simp: part_inv_def v_part_def [abs_def] split: prod.splits)
  qed
qed

lemma p_part_ok:
  assumes K: "protection_works K" and n: "0 < n r" and k: "k < 5" and i: "part_inv K cap old new k s"
  shows "\<exists>s'. (checkpoint_for_mpi K n ! k) r s = Some s' \<and> part_inv K cap old new (Suc k) s' \<and>
    crash_safe (v_part cap old new k) (pnv (fst s'))"
proof -
  obtain e kk where s: "s = (e, kk)" by (cases s)
  consider "k = 0" | "k = 1" | "k = 2" | "k = 3" | "k = 4" using k by linarith
  then show ?thesis
  proof cases
    case 1
    then show ?thesis using p_persist_ok(1) [OF _ n] i by (simp add: s p_checkpoint_for_mpi_part p_checkpoint_parts_nth)
  next
    case 2
    then have d: "v_ready cap kBackData new old (pnv e)" "in_place cap e" "tracked K e kk" "covered cap old new e"
      using i by (simp_all add: s part_inv_def)
    show ?thesis using p_mark_ok(1) [where c' = kMainData and k = kk, OF d(1)] p_mark_ok(2,3) [where c' = kMainData, OF d(1)] d(2-) 2
      by (simp add: s p_checkpoint_for_mpi_part p_checkpoint_parts_nth part_inv_def v_part_def [abs_def])
  next
    case 3
    then show ?thesis using p_copy_back_ok [OF K _ n] i by (simp add: s p_checkpoint_for_mpi_part p_checkpoint_parts_nth)
  next
    case 4
    then have d: "v_ready cap kMainData new new (pnv e)" "in_place cap e" "all_clean K e kk" using i by (simp_all add: s part_inv_def)
    show ?thesis using p_mark_ok(1) [where c' = kBackData and k = kk, OF d(1)] p_mark_ok(2,3) [where c' = kBackData, OF d(1)] d(2-) 4
      by (simp add: s p_checkpoint_for_mpi_part p_checkpoint_parts_nth part_inv_def v_part_def [abs_def])
  next
    case 5
    then show ?thesis using p_finish_ok i by (simp add: s p_checkpoint_for_mpi_part p_checkpoint_parts_nth)
  qed
qed

definition rank_inv ::
  "'k protection \<Rightarrow> (nat \<Rightarrow> nat) \<Rightarrow> (nat \<Rightarrow> nat) \<Rightarrow> (nat \<Rightarrow> nat \<Rightarrow> nat) \<Rightarrow> (nat \<Rightarrow> nat \<Rightarrow> nat) \<Rightarrow>
   nat \<Rightarrow> nat \<Rightarrow> mprot \<times> 'k \<Rightarrow> bool" where
  "rank_inv K n cap old new r k s \<longleftrightarrow> protection_works K \<and> 0 < n r \<and> part_inv K (cap r) (old r) (new r) k s"

interpretation mprotect_ranks: collective_parts M "checkpoint_for_mpi K n" "\<lambda>s. pnv (fst s)"
  "rank_inv K n cap old new" "\<lambda>r. v_part (cap r) (old r) (new r)"
  for M K n cap old new
proof unfold_locales
  fix r k s assume k: "k < length (checkpoint_for_mpi K n)" and i: "rank_inv K n cap old new r k s"
  then have k5: "k < 5" and I: "protection_works K" "0 < n r" "part_inv K (cap r) (old r) (new r) k s"
    by (simp_all add: p_checkpoint_for_mpi_part rank_inv_def)
  show "\<exists>s'. (checkpoint_for_mpi K n ! k) r s = Some s' \<and> rank_inv K n cap old new r (Suc k) s' \<and>
      crash_safe (v_part (cap r) (old r) (new r) k) (pnv (fst s'))"
    using p_part_ok [where n = n and r = r, OF I(1,2) k5 I(3)] I by (simp add: rank_inv_def)
  show "crash_safe (v_part (cap r) (old r) (new r) k) (nv_begin (pnv (fst s)))"
  proof (cases "k = 0")
    case True
    then show ?thesis using p_persist_ok(2) [OF _ I(2)] I(3) by (cases s) simp
  qed (use p_ready_part [OF I(3)] k5 in simp)
qed

lemma p_rank_inv_start:
  assumes "good K s snap" and "0 < n r" and "cap r = get_capacity (fst s)" and "old r = snap" and "new r = main_data (fst s)"
  shows "rank_inv K n cap old new r 0 s"
  using assms by (auto simp: rank_inv_def part_inv_def good_def in_place_def get_capacity_def pinv_def)

lemma p_all_start_inv:
  assumes "\<forall>r < N. good K (s0 r) (old r) \<and> 0 < n r"
  shows "\<forall>r < N. rank_inv K n (\<lambda>r. get_capacity (fst (s0 r))) old (\<lambda>r. main_data (fst (s0 r))) r 0 (s0 r)"
proof (intro allI impI)
  fix r assume "r < N"
  with assms have "good K (s0 r) (old r)" "0 < n r" by blast+
  then show "rank_inv K n (\<lambda>r. get_capacity (fst (s0 r))) old (\<lambda>r. main_data (fst (s0 r))) r 0 (s0 r)"
    by (rule p_rank_inv_start) simp_all
qed

lemma p_rank_inv_done: "rank_inv K n cap old new r 5 s \<Longrightarrow> good K s (new r)"
  by (cases s) (simp add: rank_inv_def part_inv_def good_def)

subsection \<open>The collective opening\<close>

text \<open>
  A new pool. The capacity is rounded up to whole regions in the engine, but the metadata is
  created with the capacity as it was asked for.
\<close>

definition create_for_mpi :: "'k protection \<Rightarrow> nat \<Rightarrow> nat \<Rightarrow> 'k \<Rightarrow> (mprot \<times> 'k) option" where
  "create_for_mpi K wanted addr k =
     (let c = max wanted kMinContainerSize;
          nr = c div kRegionSize + (if c mod kRegionSize \<noteq> 0 then 1 else 0)
      in Option.bind (create_metadata addr c (nv_init (\<lambda>_. 0))) (start_engine K k addr (nr * kRegionSize) False))"

definition prepare_engine :: "nat \<Rightarrow> (vloc \<Rightarrow> nat) \<Rightarrow> vmem option" where
  "prepare_engine addr pm = Option.bind (open_metadata addr (nv_init pm)) (\<lambda>m.
     if cur m VCapacity mod kRegionSize \<noteq> 0 then None else Some m)"

definition finish_opening :: "'k protection \<Rightarrow> nat \<Rightarrow> 'k \<Rightarrow> nat \<Rightarrow> vmem \<Rightarrow> (mprot \<times> 'k) option" where
  "finish_opening K addr k consistent m = Option.bind (recover_data (set_consistent_data consistent m)) (\<lambda>m.
     start_engine K k addr (cur m VCapacity) (has_snapshot_flag (cur m)) m)"

definition OpenForMPI ::
  "mpi \<Rightarrow> 'k protection \<Rightarrow> (nat \<Rightarrow> bool) \<Rightarrow> (nat \<Rightarrow> bool) \<Rightarrow> (nat \<Rightarrow> nat) \<Rightarrow> (nat \<Rightarrow> (vloc \<Rightarrow> nat) option) \<Rightarrow>
   (nat \<Rightarrow> nat) \<Rightarrow> (nat \<Rightarrow> 'k) \<Rightarrow> (nat \<Rightarrow> mprot \<times> 'k) option" where
  "OpenForMPI M K may_create trunc wanted file addr k =
     (let all_create = create_votes M may_create trunc (\<lambda>r. file r \<noteq> None)
      in if all_create \<noteq> 0 \<and> all_create \<noteq> comm_size M then None
         else if all_create \<noteq> 0 then all_ranks (comm_size M) (\<lambda>r. create_for_mpi K (wanted r) (addr r) (k r))
         else open_together M prepare_engine (finish_opening K) file addr k)"

lemma p_OpenForMPI_existing:
  "mpi_standard M \<Longrightarrow> OpenForMPI M K (\<lambda>_. False) trunc wanted file addr k = open_together M prepare_engine (finish_opening K) file addr k"
  by (simp add: OpenForMPI_def no_create_votes)

definition opened :: "'k protection \<Rightarrow> nat \<Rightarrow> (nat \<Rightarrow> nat) \<Rightarrow> mprot \<times> 'k \<Rightarrow> bool" where
  "opened K cap f s \<longleftrightarrow> good K s f \<and> get_capacity (fst s) = cap \<and> (\<forall>x < cap. main_data (fst s) x = f x)"

definition openable :: "nat \<Rightarrow> nat \<Rightarrow> bool" where
  "openable cap addr \<longleftrightarrow> cap < 2 ^ 31 \<and> cap mod kRegionSize = 0 \<and> addr \<noteq> 0 \<and> addr mod kPageSize = 0"

interpretation mprotect_opening: broadcast_opening prepare_engine "finish_opening K" "\<lambda>s. pnv (fst s)" "opened K"
  "\<lambda>cap addr. protection_works K \<and> openable cap addr"
  for K
proof unfold_locales
  fix cap c f pm addr k assume s: "shows_at cap c f pm" and o: "protection_works K \<and> openable cap addr"
  show "prepare_engine addr pm = Some (nv_init pm)"
    using o shows_at_header [OF s] by (simp add: prepare_engine_def open_metadata_def openable_def)
  obtain m where m: "recover_data (set_consistent_data c (nv_init pm)) = Some m" "mirrors cap f {} m"
    by (rule mirror_recover_quiet [OF broadcast_stands [OF s]]) (use o in \<open>auto simp: openable_def\<close>)
  have c: "cur m VCapacity = cap" using mirrorsD(1) [OF m(2)] by (simp add: v_stands_def)
  obtain e k' where e: "start_engine K k addr cap (has_snapshot_flag (cur m)) m = Some (e, k')" "pinv K (e, k') f"
      "capacity e = cap" "pnv e = m"
    by (rule p_start [where K = K and addr = addr and k = k and b = "has_snapshot_flag (cur m)", OF _ m(2)]) (use o in \<open>auto simp: openable_def\<close>)
  show "\<exists>s. finish_opening K addr k c (nv_init pm) = Some s \<and> opened K cap f s"
    using e o mirrorsD(5) [OF m(2)] p_capacity [OF e(2)]
    by (intro exI [of _ "(e, k')"]) (simp add: finish_opening_def m(1) c opened_def good_def main_data_def)
next
  fix cap f s assume a: "opened K cap f s"
  obtain e k where s: "s = (e, k)" by (cases s)
  have i: "pinv K (e, k) f" using a by (simp add: opened_def good_def s)
  have m: "mirrors cap f (dirty_bytes e) (pnv e)" using pinvD(4) [OF i] p_capacity [OF i] a by (simp add: opened_def s)
  show "\<exists>img \<in> crash_images (pnv (fst s)). shows_at cap kBackData f img \<and> img VConsistent = kBackData"
    using visible_crash_image [OF mirrorsD(3) [OF m]] mirrors_shows [OF m] mirrorsD(2) [OF m] by (auto simp: s)
qed

subsection \<open>Properties\<close>



text \<open>And it comes to its end.\<close>

theorem mpi_mprotect_checkpoint_ends:
  assumes "mpi_standard M" and "protection_works K" and "\<forall>r < comm_size M. good K (s0 r) (old r) \<and> 0 < n r"
    and "reached M (checkpoint_for_mpi K n) s0 c"
  shows "if \<exists>r < comm_size M. called c r < length (checkpoint_for_mpi K n) then \<exists>c'. collective M (checkpoint_for_mpi K n) c c'
    else \<forall>r < comm_size M. good K (local_state c r) (main_data (fst (s0 r)))"
proof -
  note i0 = p_all_start_inv [OF assms(3)]
  have "called c r \<le> 5 \<and> (called c r = 5 \<longrightarrow> good K (local_state c r) (main_data (fst (s0 r))))" if "r < comm_size M" for r
    using mprotect_ranks.states [OF i0 assms(4) that] p_rank_inv_done [where s = "local_state c r"]
    by (simp add: p_checkpoint_for_mpi_part) metis
  then show ?thesis
    using mprotect_ranks.goes_on [OF assms(1) i0 assms(4)] by (auto simp: p_checkpoint_for_mpi_part le_less)
qed

text \<open>
  C21. A pool the protection-based engine creates for an MPI program cannot be opened again, with
  MPI or without, if its capacity is not a whole number of regions: its header holds the capacity
  as it was asked for, and the opening refuses that. This is so for every durable image of the new
  pool, so nothing checkpointed to it is ever recovered.
\<close>

theorem mprotect_mpi_unaligned:
  assumes "protection_works K" and "addr0 \<noteq> 0" and "addr0 mod kPageSize = 0"
    and "kMinContainerSize < wanted" and "wanted mod kRegionSize \<noteq> 0"
  shows "\<exists>e k'. create_for_mpi K wanted addr0 k0 = Some (e, k') \<and>
    (\<forall>pm \<in> crash_images (nv_begin (pnv e)). \<forall>addr k trunc.
       Open K False trunc 0 (Some pm) addr k = None \<and> prepare_engine addr pm = None)"
proof -
  have c: "max wanted kMinContainerSize = wanted" "wanted \<noteq> 0" using assms(4) by simp_all
  obtain m where m: "create_metadata addr0 wanted (nv_init (\<lambda>_. 0)) = Some m" "mirrors wanted (\<lambda>_. 0) {} m"
    by (rule mirror_create_ok [OF assms(2) c(2), of "\<lambda>_. 0"]) simp_all
  let ?nr = "wanted div kRegionSize + 1"
  obtain bs where bs: "bs_allocate ?nr bs_new = Some bs" by (simp add: bs_allocate_def bs_new_def)
  define e where "e = \<lparr>pnv = m, nr_regions = ?nr, capacity = ?nr * kRegionSize, has_snapshot = False,
      address_first = addr0 + cur m VMainData, region_dirty = bs, flush_regions = (\<lambda>_. []), mode = FMODE_NO_ACTION\<rparr>"
  have h: "cur m VMainData = kHugePageSize" using mirrorsD(1) [OF m(2)] by (simp add: v_stands_def)
  have "kHugePageSize mod kPageSize = 0" by (simp add: geometry)
  then have al: "address_first e mod kPageSize = 0" using assms(3) mod_add_eq [of addr0 kPageSize kHugePageSize] by (simp add: e_def h)
  obtain k' where k': "protect_regions K 0 ?nr False e k0 = Some k'" by (rule protect_ok [where r = 0 and n = ?nr, OF assms(1) al])
  have "0 < kRegionSize" by (simp add: geometry)
  then have "create_for_mpi K wanted addr0 k0 = Some (e, k')"
    using assms(5) k' bs by (simp add: create_for_mpi_def c(1) Let_def m(1) start_engine_def e_def)
  moreover have "open_engine K addr k pm = None \<and> prepare_engine addr pm = None"
    if pm: "pm \<in> crash_images (nv_begin (pnv e))" for pm addr k
  proof -
    have "v_stands wanted (\<lambda>_. 0) pm" using mirrors_begin(2) [OF m(2)] pm by (simp add: crash_safe_def e_def)
    then have "pm VCapacity = wanted" by (simp add: v_stands_def)
    then show ?thesis using assms(5) by (simp add: open_engine_def prepare_engine_def open_metadata_def)
  qed
  ultimately show ?thesis by (auto simp: Open_def)
qed

text \<open>The least capacity and 100 bytes.\<close>

theorem mprotect_mpi_unaligned_witness:
  "\<exists>e k'. create_for_mpi set_protection (kMinContainerSize + 100) 4096 {} = Some (e, k') \<and>
     cur (pnv e) \<in> crash_images (nv_begin (pnv e)) \<and> Open set_protection False False 0 (Some (cur (pnv e))) 8192 {} = None"
proof -
  let ?w = "kMinContainerSize + 100"
  have a: "(4096 :: nat) \<noteq> 0" "4096 mod kPageSize = 0" "kMinContainerSize < ?w" "?w mod kRegionSize \<noteq> 0"
    by (simp_all add: geometry)
  obtain e k' where e: "create_for_mpi set_protection ?w 4096 {} = Some (e, k')"
      "\<forall>pm \<in> crash_images (nv_begin (pnv e)). \<forall>addr k trunc. Open set_protection False trunc 0 (Some pm) addr k = None"
    using mprotect_mpi_unaligned [OF set_protection_ok a, of "{}"] by blast
  obtain m where m: "create_metadata 4096 ?w (nv_init (\<lambda>_. 0)) = Some m" "mirrors ?w (\<lambda>_. 0) {} m"
    by (rule mirror_create_ok [of 4096 ?w "\<lambda>_. 0"]) simp_all
  have "pnv e = m" using e(1) m(1) by (auto simp: create_for_mpi_def start_engine_def Let_def split: Option.bind_splits)
  then have "cur (pnv e) \<in> crash_images (nv_begin (pnv e))"
    using visible_crash_image [of "nv_begin m"] mirrorsD(3) [OF m(2)] by simp
  with e show ?thesis by blast
qed

end
