(* ===== verification/Barrier.thy ===== *)
theory Barrier
  imports Common
begin

text \<open>
  The threads of a checkpoint: the numbers they get (\<^verbatim>\<open>ThreadInfo\<close> in
  \<^verbatim>\<open>common.cpp\<close>) and the sense-reversing barrier that separates the phases
  (\<^verbatim>\<open>Barrier\<close> in \<^verbatim>\<open>common.h\<close>), as a machine whose threads take
  their atomic steps in any order. The atomic operations are sequentially consistent here, which
  is what the x86 processors the library is written for give them.
\<close>

subsection \<open>Thread numbers\<close>

text \<open>
  \<open>taken\<close> is \<^verbatim>\<open>g_bitmap\<close>. The scan takes the first free number by a
  compare-and-swap; a process with too many threads exits.
\<close>

definition new_thread_id :: "(nat \<Rightarrow> bool) \<Rightarrow> (nat \<times> (nat \<Rightarrow> bool)) option" where
  "new_thread_id taken =
     (case List.find (\<lambda>i. \<not> taken i) [0..<kMaxThreads] of None \<Rightarrow> None | Some i \<Rightarrow> Some (i, taken(i := True)))"

definition release_thread_id :: "nat \<Rightarrow> (nat \<Rightarrow> bool) \<Rightarrow> nat \<Rightarrow> bool" where
  "release_thread_id i taken = taken(i := False)"

lemma new_thread_id_fresh:
  assumes "new_thread_id taken = Some (i, taken')"
  shows "i < kMaxThreads" and "\<not> taken i" and "taken' = taken(i := True)"
  using assms by (auto simp: new_thread_id_def find_Some_iff split: option.splits)

lemma new_thread_id_exits: "new_thread_id taken = None \<longleftrightarrow> (\<forall>i < kMaxThreads. taken i)"
proof -
  have "new_thread_id taken = None \<longleftrightarrow> List.find (\<lambda>i. \<not> taken i) [0..<kMaxThreads] = None"
    by (simp add: new_thread_id_def split: option.split)
  then show ?thesis by (simp add: find_None_iff)
qed

subsection \<open>The barrier\<close>

text \<open>
  Where a thread is: outside, after the reversal of its sense, waiting for the flag, or, as the
  last one to arrive, before the reset of the counter and before the store of the flag. The ghost
  field \<open>rounds\<close> counts the barriers a thread has left.
\<close>

datatype place = Outside | Entered | Waiting | Resetting | Releasing

record barrier =
  counter :: nat
  flag :: int
  local_sense :: "nat \<Rightarrow> int"
  pc :: "nat \<Rightarrow> place"
  rounds :: "nat \<Rightarrow> nat"

definition new_barrier :: barrier where
  "new_barrier = \<lparr>counter = 0, flag = 0, local_sense = (\<lambda>_. 0), pc = (\<lambda>_. Outside), rounds = (\<lambda>_. 0)\<rparr>"

definition leave_barrier :: "nat \<Rightarrow> barrier \<Rightarrow> barrier" where
  "leave_barrier t b = b\<lparr>pc := (pc b)(t := Outside), rounds := (rounds b)(t := rounds b t + 1)\<rparr>"

inductive bstep :: "nat \<Rightarrow> nat \<Rightarrow> barrier \<Rightarrow> barrier \<Rightarrow> bool" for N t where
  enter: "t < N \<Longrightarrow> pc b t = Outside \<Longrightarrow>
    bstep N t b (b\<lparr>local_sense := (local_sense b)(t := 1 - local_sense b t), pc := (pc b)(t := Entered)\<rparr>)"
| arrive: "t < N \<Longrightarrow> pc b t = Entered \<Longrightarrow> arrived = counter b + 1 \<Longrightarrow>
    bstep N t b (b\<lparr>counter := arrived, pc := (pc b)(t := if arrived = N then Resetting else Waiting)\<rparr>)"
| reset: "t < N \<Longrightarrow> pc b t = Resetting \<Longrightarrow> bstep N t b (b\<lparr>counter := 0, pc := (pc b)(t := Releasing)\<rparr>)"
| release: "t < N \<Longrightarrow> pc b t = Releasing \<Longrightarrow> bstep N t b (leave_barrier t (b\<lparr>flag := local_sense b t\<rparr>))"
| pass: "t < N \<Longrightarrow> pc b t = Waiting \<Longrightarrow> flag b = local_sense b t \<Longrightarrow> bstep N t b (leave_barrier t b)"

inductive_simps bstep_at: "bstep N t b b'"

text \<open>The same as a function, and the runs of a schedule.\<close>

definition bnext :: "nat \<Rightarrow> nat \<Rightarrow> barrier \<Rightarrow> barrier option" where
  "bnext N t b =
     (if \<not> t < N then None
      else case pc b t of
        Outside \<Rightarrow> Some (b\<lparr>local_sense := (local_sense b)(t := 1 - local_sense b t), pc := (pc b)(t := Entered)\<rparr>)
      | Entered \<Rightarrow> Some (b\<lparr>counter := counter b + 1, pc := (pc b)(t := if counter b + 1 = N then Resetting else Waiting)\<rparr>)
      | Resetting \<Rightarrow> Some (b\<lparr>counter := 0, pc := (pc b)(t := Releasing)\<rparr>)
      | Releasing \<Rightarrow> Some (leave_barrier t (b\<lparr>flag := local_sense b t\<rparr>))
      | Waiting \<Rightarrow> if flag b = local_sense b t then Some (leave_barrier t b) else None)"

lemma bnext_iff: "bstep N t b b' \<longleftrightarrow> bnext N t b = Some b'"
  unfolding bstep_at bnext_def by (cases "pc b t") auto

fun schedule :: "nat \<Rightarrow> nat list \<Rightarrow> barrier \<Rightarrow> barrier option" where
  "schedule N [] b = Some b"
| "schedule N (t # ts) b = Option.bind (bnext N t b) (schedule N ts)"

inductive bruns :: "nat \<Rightarrow> barrier \<Rightarrow> barrier \<Rightarrow> bool" for N b0 where
  rest: "bruns N b0 b0"
| next_step: "bruns N b0 b \<Longrightarrow> bstep N t b b' \<Longrightarrow> bruns N b0 b'"

lemma bruns_trans: "bruns N b b' \<Longrightarrow> bruns N b0 b \<Longrightarrow> bruns N b0 b'"
  by (induction rule: bruns.induct) (auto intro: bruns.next_step)

lemma schedule_runs: "schedule N ts b = Some b' \<Longrightarrow> bruns N b b'"
proof (induction ts arbitrary: b)
  case Nil
  then show ?case by (simp add: bruns.rest)
next
  case (Cons t ts)
  then obtain b1 where b1: "bnext N t b = Some b1" "schedule N ts b1 = Some b'" by (auto simp: bind_eq_Some_conv)
  have "bruns N b b1" by (rule bruns.next_step [OF bruns.rest]) (rule b1(1) [folded bnext_iff])
  with Cons.IH [OF b1(2)] show ?case by (rule bruns_trans)
qed

text \<open>The barriers a thread has arrived at.\<close>

definition arrivals :: "barrier \<Rightarrow> nat \<Rightarrow> nat" where
  "arrivals b t = rounds b t + (if pc b t = Outside \<or> pc b t = Entered then 0 else 1)"

subsection \<open>The invariant\<close>

text \<open>
  With \<open>p\<close> releases so far: every thread has left \<open>p\<close> barriers, or has left one less
  and is free to pass. The sense of a thread is the parity of the barriers it has entered. At
  most one thread is the last one, and then all the others wait for it.
\<close>

definition senses :: "nat \<Rightarrow> nat \<Rightarrow> barrier \<Rightarrow> bool" where
  "senses N p b \<longleftrightarrow> flag b = of_bool (odd p) \<and>
     (\<forall>t < N. local_sense b t = of_bool (odd (rounds b t + (if pc b t = Outside then 0 else 1))))"

definition in_step :: "nat \<Rightarrow> nat \<Rightarrow> barrier \<Rightarrow> bool" where
  "in_step N p b \<longleftrightarrow> (\<forall>t < N. rounds b t = p \<or> rounds b t + 1 = p \<and> pc b t = Waiting)"

definition waiters :: "nat \<Rightarrow> nat \<Rightarrow> barrier \<Rightarrow> nat set" where
  "waiters N p b = {t. t < N \<and> pc b t = Waiting \<and> rounds b t = p}"

definition gathering :: "nat \<Rightarrow> nat \<Rightarrow> barrier \<Rightarrow> bool" where
  "gathering N p b \<longleftrightarrow> (\<forall>t < N. pc b t \<noteq> Resetting \<and> pc b t \<noteq> Releasing) \<and> counter b = card (waiters N p b) \<and> counter b < N"

definition complete :: "nat \<Rightarrow> nat \<Rightarrow> nat \<Rightarrow> barrier \<Rightarrow> bool" where
  "complete N p t b \<longleftrightarrow> t < N \<and> (pc b t = Resetting \<or> pc b t = Releasing \<and> counter b = 0) \<and> rounds b t = p \<and>
     waiters N p b = {..<N} - {t}"

definition binv :: "nat \<Rightarrow> nat \<Rightarrow> barrier \<Rightarrow> bool" where
  "binv N p b \<longleftrightarrow> senses N p b \<and> in_step N p b \<and> (gathering N p b \<or> (\<exists>t. complete N p t b))"

lemma finite_waiters [simp]: "finite (waiters N p b)"
  by (simp add: waiters_def)

lemma binv_new: "0 < N \<Longrightarrow> binv N 0 new_barrier"
  by (simp add: binv_def senses_def in_step_def gathering_def waiters_def new_barrier_def)

lemma complete_others: "complete N p t b \<Longrightarrow> u < N \<Longrightarrow> u \<noteq> t \<Longrightarrow> pc b u = Waiting \<and> rounds b u = p"
  by (auto simp: complete_def waiters_def)

lemma sensesD: "senses N p b \<Longrightarrow> t < N \<Longrightarrow> local_sense b t = of_bool (odd (rounds b t + (if pc b t = Outside then 0 else 1)))"
  by (simp add: senses_def)

lemma complete_pc: "complete N p t b \<Longrightarrow> pc b t = Resetting \<or> pc b t = Releasing"
  unfolding complete_def by blast

lemma binvD:
  assumes "binv N p b"
  shows "senses N p b" "in_step N p b" "gathering N p b \<or> (\<exists>u. complete N p u b)"
  using assms by (simp_all add: binv_def)

lemma binv_gathering:
  assumes i: "binv N p b" and t: "t < N" and pc: "pc b t = Outside \<or> pc b t = Entered \<or> pc b t = Waiting \<and> rounds b t \<noteq> p"
  shows "gathering N p b"
proof (rule ccontr)
  assume "\<not> gathering N p b"
  then obtain u where u: "complete N p u b" using binvD(3) [OF i] by blast
  show False
  proof (cases "t = u")
    case True
    then have "pc b t = Resetting \<or> pc b t = Releasing" using complete_pc [OF u] by simp
    then show False using pc by auto
  next
    case False
    then show False using complete_others [OF u t False] pc by auto
  qed
qed

lemma binv_last:
  assumes i: "binv N p b" and t: "t < N" and pc: "pc b t = Resetting \<or> pc b t = Releasing"
  shows "complete N p t b"
proof -
  have "\<not> gathering N p b" using t pc by (auto simp: gathering_def)
  then obtain u where u: "complete N p u b" using binvD(3) [OF i] by blast
  have "pc b t \<noteq> Waiting" using pc by auto
  then have "t = u" using complete_others [OF u t] by blast
  with u show ?thesis by simp
qed

lemma binv_enter:
  assumes i: "binv N p b" and t: "t < N" and pc: "pc b t = Outside"
  shows "binv N p (b\<lparr>local_sense := (local_sense b)(t := 1 - local_sense b t), pc := (pc b)(t := Entered)\<rparr>)"
proof -
  let ?b = "b\<lparr>local_sense := (local_sense b)(t := 1 - local_sense b t), pc := (pc b)(t := Entered)\<rparr>"
  have g: "gathering N p b" by (rule binv_gathering [OF i t]) (simp add: pc)
  note s = binvD(1) [OF i] and st = binvD(2) [OF i]
  have "waiters N p ?b = waiters N p b" using pc by (auto simp: waiters_def)
  moreover have "senses N p ?b"
    using s sensesD [OF s t] pc by (auto simp: senses_def)
  moreover have "in_step N p ?b" using st pc t by (auto simp: in_step_def)
  ultimately show ?thesis using g by (auto simp: binv_def gathering_def)
qed

lemma binv_arrive:
  assumes i: "binv N p b" and t: "t < N" and pc: "pc b t = Entered"
  shows "binv N p (b\<lparr>counter := counter b + 1, pc := (pc b)(t := if counter b + 1 = N then Resetting else Waiting)\<rparr>)"
proof -
  let ?b = "b\<lparr>counter := counter b + 1, pc := (pc b)(t := if counter b + 1 = N then Resetting else Waiting)\<rparr>"
  have g: "gathering N p b" by (rule binv_gathering [OF i t]) (simp add: pc)
  note s = binvD(1) [OF i] and st = binvD(2) [OF i]
  have r: "rounds b t = p" using st t pc by (auto simp: in_step_def)
  have s': "senses N p ?b" using s sensesD [OF s t] pc by (auto simp: senses_def)
  have st': "in_step N p ?b" using st r by (auto simp: in_step_def)
  have tw: "t \<notin> waiters N p b" using pc by (simp add: waiters_def)
  show ?thesis
  proof (cases "counter b + 1 = N")
    case True
    have "waiters N p b = {..<N} - {t}"
    proof (rule card_subset_eq)
      show "waiters N p b \<subseteq> {..<N} - {t}" using tw by (auto simp: waiters_def)
      show "card (waiters N p b) = card ({..<N} - {t})" using g True t by (simp add: gathering_def)
    qed simp
    moreover have "waiters N p ?b = waiters N p b" using pc True by (auto simp: waiters_def)
    ultimately have "complete N p t ?b" using True t r by (simp add: complete_def)
    with s' st' show ?thesis by (auto simp: binv_def)
  next
    case False
    have "waiters N p ?b = insert t (waiters N p b)" using pc False t r by (auto simp: waiters_def)
    then have "card (waiters N p ?b) = counter b + 1" using tw g by (simp add: gathering_def)
    then have "gathering N p ?b" using g False by (auto simp: gathering_def)
    with s' st' show ?thesis by (auto simp: binv_def)
  qed
qed

lemma binv_reset:
  assumes i: "binv N p b" and t: "t < N" and pc: "pc b t = Resetting"
  shows "binv N p (b\<lparr>counter := 0, pc := (pc b)(t := Releasing)\<rparr>)"
proof -
  let ?b = "b\<lparr>counter := 0, pc := (pc b)(t := Releasing)\<rparr>"
  have c: "complete N p t b" by (rule binv_last [OF i t]) (simp add: pc)
  note s = binvD(1) [OF i] and st = binvD(2) [OF i]
  have "waiters N p ?b = waiters N p b" using pc by (auto simp: waiters_def)
  then have "complete N p t ?b" using c by (simp add: complete_def)
  moreover have "senses N p ?b" using s sensesD [OF s t] pc by (auto simp: senses_def)
  moreover have "in_step N p ?b" using st pc t by (auto simp: in_step_def)
  ultimately show ?thesis by (auto simp: binv_def)
qed

lemma binv_release:
  assumes i: "binv N p b" and t: "t < N" and pc: "pc b t = Releasing"
  shows "binv N (p + 1) (leave_barrier t (b\<lparr>flag := local_sense b t\<rparr>))"
proof -
  let ?b = "leave_barrier t (b\<lparr>flag := local_sense b t\<rparr>)"
  have c: "complete N p t b" by (rule binv_last [OF i t]) (simp add: pc)
  note s = binvD(1) [OF i]
  have f: "counter ?b = counter b" "local_sense ?b = local_sense b" "pc ?b = (pc b)(t := Outside)"
    "rounds ?b = (rounds b)(t := rounds b t + 1)" "flag ?b = local_sense b t"
    by (simp_all add: leave_barrier_def)
  have r: "rounds b t = p" "counter b = 0" using c pc by (auto simp: complete_def)
  have o: "pc b u = Waiting \<and> rounds b u = p" if "u < N" "u \<noteq> t" for u by (rule complete_others [OF c that])
  have "senses N (p + 1) ?b"
    unfolding senses_def f using sensesD [OF s] t r pc by auto
  moreover have "in_step N (p + 1) ?b" unfolding in_step_def f using o r t by auto
  moreover have "waiters N (p + 1) ?b = {}" unfolding waiters_def f using o by auto
  then have "gathering N (p + 1) ?b" unfolding gathering_def f using o r t by auto
  ultimately show ?thesis by (simp add: binv_def)
qed

lemma binv_pass:
  assumes i: "binv N p b" and t: "t < N" and pc: "pc b t = Waiting" "flag b = local_sense b t"
  shows "rounds b t + 1 = p" and "binv N p (leave_barrier t b)"
proof -
  let ?b = "leave_barrier t b"
  note s = binvD(1) [OF i] and st = binvD(2) [OF i]
  have "odd p \<longleftrightarrow> odd (rounds b t + 1)" using sensesD [OF s t] pc s by (auto simp: senses_def split: if_splits)
  then show r: "rounds b t + 1 = p" using st t by (auto simp: in_step_def)
  have g: "gathering N p b" by (rule binv_gathering [OF i t]) (use pc r in simp)
  have f: "counter ?b = counter b" "local_sense ?b = local_sense b" "pc ?b = (pc b)(t := Outside)"
    "rounds ?b = (rounds b)(t := rounds b t + 1)" "flag ?b = flag b"
    by (simp_all add: leave_barrier_def)
  have "senses N p ?b" unfolding senses_def f using s sensesD [OF s t] pc by (auto simp: senses_def)
  moreover have "in_step N p ?b" unfolding in_step_def f using st r by (auto simp: in_step_def)
  moreover have "waiters N p ?b = waiters N p b" unfolding waiters_def f using r by auto
  then have "gathering N p ?b" using g unfolding gathering_def f by auto
  ultimately show "binv N p ?b" by (simp add: binv_def)
qed

lemma binv_step: "bstep N t b b' \<Longrightarrow> binv N p b \<Longrightarrow> \<exists>p'. binv N p' b'"
  using binv_enter [of N p b t] binv_arrive [of N p b t] binv_reset [of N p b t] binv_release [of N p b t] binv_pass(2) [of N p b t]
  unfolding bstep_at by (elim disjE conjE) auto

lemma binv_runs:
  assumes "bruns N new_barrier b" and "0 < N"
  obtains p where "binv N p b"
proof -
  from assms have "\<exists>p. binv N p b"
  proof (induction rule: bruns.induct)
    case rest
    then show ?case using binv_new by blast
  next
    case (next_step b t b')
    then show ?case using binv_step by blast
  qed
  then show ?thesis using that by blast
qed

subsection \<open>Progress and termination\<close>

text \<open>Steps inside a barrier use up a rank, so they cannot go on for ever without new entries.\<close>

fun rank :: "place \<Rightarrow> nat" where
  "rank Outside = 0" | "rank Waiting = 1" | "rank Releasing = 2" | "rank Resetting = 3" | "rank Entered = 4"

definition total_rank :: "nat \<Rightarrow> barrier \<Rightarrow> nat" where "total_rank N b = (\<Sum>t < N. rank (pc b t))"

lemma total_rank_less:
  assumes "t < N" and "pc b' = (pc b)(t := q)" and "rank q < rank (pc b t)"
  shows "total_rank N b' < total_rank N b"
  unfolding total_rank_def
proof (rule sum_strict_mono_ex1)
  show "\<forall>u \<in> {..<N}. rank (pc b' u) \<le> rank (pc b u)" using assms(2,3) by simp
  show "\<exists>u \<in> {..<N}. rank (pc b' u) < rank (pc b u)" using assms by auto
qed simp

lemma inside_step_rank: "bstep N t b b' \<Longrightarrow> pc b t \<noteq> Outside \<Longrightarrow> total_rank N b' < total_rank N b"
  by (auto simp: bstep_at leave_barrier_def intro!: total_rank_less [of t])

lemma binv_enabled:
  assumes i: "binv N p b" and N: "0 < N" and inside: "\<And>t. t < N \<Longrightarrow> pc b t \<noteq> Outside"
  obtains t b' where "bstep N t b b'" "pc b t \<noteq> Outside"
proof (cases "gathering N p b")
  case False
  then obtain t where "complete N p t b" using i by (auto simp: binv_def)
  then have "t < N" "pc b t = Resetting \<or> pc b t = Releasing" by (auto simp: complete_def)
  then show ?thesis using that [of t] inside by (auto intro: bstep.reset bstep.release)
next
  case True
  show ?thesis
  proof (cases "\<exists>t < N. pc b t = Entered")
    case True
    then show ?thesis using that bstep.arrive inside by metis
  next
    case no: False
    have w: "pc b t = Waiting" if "t < N" for t
      using True no inside [OF that] that by (cases "pc b t") (auto simp: gathering_def)
    have "waiters N p b \<noteq> {..<N}" using True by (auto simp: gathering_def)
    then obtain t where t: "t < N" "rounds b t \<noteq> p" using w by (auto simp: waiters_def)
    then have "rounds b t + 1 = p" using i by (auto simp: binv_def in_step_def)
    then have "flag b = local_sense b t" using i t w sensesD [of N p b t] by (auto simp: binv_def senses_def)
    with t w show ?thesis using that [OF bstep.pass] by auto
  qed
qed

inductive inside_steps :: "nat \<Rightarrow> nat \<Rightarrow> barrier \<Rightarrow> barrier \<Rightarrow> bool" for N where
  none: "inside_steps N 0 b b"
| one_more: "inside_steps N n b b' \<Longrightarrow> bstep N t b' b'' \<Longrightarrow> pc b' t \<noteq> Outside \<Longrightarrow> inside_steps N (Suc n) b b''"

lemma inside_steps_rank: "inside_steps N n b b' \<Longrightarrow> n + total_rank N b' \<le> total_rank N b"
proof (induction rule: inside_steps.induct)
  case (one_more n b b' t b'')
  then show ?case using inside_step_rank [OF one_more.hyps(2,3)] by simp
qed simp

lemma inside_steps_runs: "inside_steps N n b b' \<Longrightarrow> bruns N b0 b \<Longrightarrow> bruns N b0 b'"
  by (induction rule: inside_steps.induct) (auto intro: bruns.next_step)

lemma total_rank_bound: "total_rank N b \<le> 4 * N"
proof -
  have "rank q \<le> 4" for q by (cases q) auto
  then have "total_rank N b \<le> (\<Sum>t < N. 4)" unfolding total_rank_def by (intro sum_mono)
  then show ?thesis by simp
qed

subsection \<open>The latch\<close>

text \<open>
  The second use of the structure: the leader opens the latch, every thread turns its sense and
  spins until the flag has that value. The engines put a barrier between two uses of a latch.
\<close>

definition latch_add :: "nat \<Rightarrow> barrier \<Rightarrow> barrier" where
  "latch_add t b = b\<lparr>flag := 1 - local_sense b t\<rparr>"

definition latch_turn :: "nat \<Rightarrow> barrier \<Rightarrow> barrier" where
  "latch_turn t b = b\<lparr>local_sense := (local_sense b)(t := 1 - local_sense b t)\<rparr>"

definition latch_passes :: "nat \<Rightarrow> barrier \<Rightarrow> bool" where
  "latch_passes t b \<longleftrightarrow> flag b = local_sense b t"

text \<open>
  Between two uses the senses and the flag are equal; then a latch holds every thread until the
  leader opens it, lets all of them pass afterwards, and leaves the senses and the flag equal
  again once all have turned.
\<close>

lemma latch_holds_and_opens:
  assumes "\<forall>t < N. local_sense b t = flag b" and "t < N" and "l < N"
  shows "\<not> latch_passes t (latch_turn t b)" and "latch_passes t (latch_turn t (latch_add l b))"
    and "t \<noteq> l \<Longrightarrow> latch_passes t (latch_add l (latch_turn t b))"
  using assms by (auto simp: latch_passes_def latch_turn_def latch_add_def) presburger

lemma latch_again:
  assumes "\<forall>t < N. local_sense b t = flag b" and "l < N"
  shows "\<forall>t < N. local_sense (fold latch_turn [0..<N] (latch_add l b)) t = flag (fold latch_turn [0..<N] (latch_add l b))"
proof -
  have "flag (fold latch_turn ts c) = flag c" for ts c
    by (induction ts arbitrary: c) (simp_all add: latch_turn_def)
  moreover have "distinct ts \<Longrightarrow> local_sense (fold latch_turn ts c) t = (if t \<in> set ts then 1 - local_sense c t else local_sense c t)" for ts c t
    by (induction ts arbitrary: c) (auto simp: latch_turn_def)
  ultimately show ?thesis using assms by (simp add: latch_add_def)
qed

subsection \<open>Properties\<close>

text \<open>
  C37. The barrier separates the phases of a checkpoint: whatever the order in which the threads
  take their steps, no thread has left more barriers than any other has arrived at.
\<close>

theorem barrier_separates:
  assumes "bruns N new_barrier b" and "t < N" and "u < N"
  shows "rounds b t \<le> arrivals b u"
proof -
  obtain p where i: "binv N p b" by (rule binv_runs [OF assms(1)]) (use assms(2) in simp)
  then have "rounds b t \<le> p" "rounds b u = p \<or> rounds b u + 1 = p \<and> pc b u = Waiting"
    using assms(2,3) by (auto simp: binv_def in_step_def)
  then show ?thesis by (auto simp: arrivals_def)
qed

text \<open>Thread 0 goes in and waits for thread 1, which leaves first.\<close>

lemma two_thread_run:
  "\<exists>b. bruns 2 new_barrier b \<and> rounds b 1 = 1 \<and> rounds b 0 = 0 \<and> pc b 0 = Waiting"
proof -
  have "\<exists>b. schedule 2 [0, 0, 1, 1, 1, 1] new_barrier = Some b \<and> rounds b 1 = 1 \<and> rounds b 0 = 0 \<and> pc b 0 = Waiting"
    by (simp add: bnext_def new_barrier_def leave_barrier_def)
  then show ?thesis using schedule_runs by blast
qed

theorem barrier_separates_witness:
  "\<exists>b. bruns 2 new_barrier b \<and> rounds b 1 = 1 \<and> pc b 0 = Waiting \<and> rounds b 1 \<le> arrivals b 0"
proof -
  obtain b where b: "bruns 2 new_barrier b" "rounds b 1 = 1" "pc b 0 = Waiting" using two_thread_run by blast
  with barrier_separates [OF b(1), of 1 0] show ?thesis by auto
qed

text \<open>
  C38. Every barrier ends: while no further thread enters, at most four steps per thread are
  possible, and as long as all threads are inside one of them is.
\<close>

theorem barrier_completes:
  assumes "bruns N new_barrier b" and "0 < N" and "inside_steps N n b b'"
  shows "n \<le> 4 * N \<and> ((\<exists>t < N. pc b' t = Outside) \<or> (\<exists>t b''. pc b' t \<noteq> Outside \<and> bstep N t b' b''))"
proof -
  have "n \<le> 4 * N" using inside_steps_rank [OF assms(3)] total_rank_bound [of N b] by simp
  moreover obtain p where i: "binv N p b'" by (rule binv_runs [OF inside_steps_runs [OF assms(3,1)] assms(2)])
  then have "(\<exists>t < N. pc b' t = Outside) \<or> (\<exists>t b''. pc b' t \<noteq> Outside \<and> bstep N t b' b'')"
    using binv_enabled [OF i assms(2)] by (metis (no_types))
  ultimately show ?thesis by blast
qed

theorem barrier_completes_witness:
  "\<exists>b. bruns 2 new_barrier b \<and> ((\<exists>t < 2. pc b t = Outside) \<or> (\<exists>t b''. pc b t \<noteq> Outside \<and> bstep 2 t b b''))"
proof -
  obtain b where b: "bruns 2 new_barrier b" using two_thread_run by blast
  with barrier_completes [OF b _ inside_steps.none] show ?thesis by auto
qed


end
