(* ===== verification/Pool.thy ===== *)
theory Pool
  imports Complex_Main LrMalloc
begin

text \<open>
  The interface of the library: \<^verbatim>\<open>crpm.cpp\<close>, and the choice of the engine and of
  the allocator by name in \<^verbatim>\<open>engine.cpp\<close> and \<^verbatim>\<open>allocator.cpp\<close>.
  Engines and allocators are values of any types, reached through a table of their virtual
  functions; \<open>lr_vtable\<close> is the one of \<open>LrMalloc\<close>.
\<close>

subsection \<open>Options\<close>

text \<open>
  \<^verbatim>\<open>MemoryPoolOption\<close> and the C structure \<^verbatim>\<open>crpm_option_t\<close>. A \<^verbatim>\<open>double\<close> is the
  rational number it stands for; the default factor is the one nearest to 0.20.
\<close>

record pool_option =
  create :: bool
  truncat :: bool
  verbose_output :: bool
  pool_capacity :: nat
  shadow_capacity_factor :: rat
  fixed_base_address :: nat
  allocator_name :: string
  engine_name :: string

definition kShadowMemoryCapacityFactor :: rat where
  "kShadowMemoryCapacityFactor = 3602879701896397 / 18014398509481984"

definition default_option :: pool_option where
  "default_option = \<lparr>create = False, truncat = False, verbose_output = False, pool_capacity = 0,
     shadow_capacity_factor = kShadowMemoryCapacityFactor, fixed_base_address = 0,
     allocator_name = ''default'', engine_name = ''default''\<rparr>"

record crpm_option_t =
  c_create :: u32
  c_truncate :: u32
  c_verbose_output :: u32
  c_capacity :: nat
  c_shadow_capacity_factor :: rat
  c_fixed_base_address :: nat
  c_allocator_name :: string
  c_engine_name :: string

text \<open>The copy \<^verbatim>\<open>crpm_open\<close> makes of the C structure.\<close>

definition to_option :: "crpm_option_t \<Rightarrow> pool_option" where
  "to_option c = \<lparr>create = (c_create c \<noteq> 0), truncat = (c_truncate c \<noteq> 0), verbose_output = (c_verbose_output c \<noteq> 0),
     pool_capacity = c_capacity c, shadow_capacity_factor = c_shadow_capacity_factor c,
     fixed_base_address = c_fixed_base_address c, allocator_name = c_allocator_name c, engine_name = c_engine_name c\<rparr>"

text \<open>\<^verbatim>\<open>crpm_init_option\<close>: \<^verbatim>\<open>memset\<close>, then the two names and the factor. A null pointer is \<open>None\<close>.\<close>

definition crpm_init_option :: "crpm_option_t option \<Rightarrow> crpm_option_t option" where
  "crpm_init_option c = map_option (\<lambda>_. \<lparr>c_create = 0, c_truncate = 0, c_verbose_output = 0, c_capacity = 0,
     c_shadow_capacity_factor = kShadowMemoryCapacityFactor, c_fixed_base_address = 0,
     c_allocator_name = ''default'', c_engine_name = ''default''\<rparr>) c"

subsection \<open>Choosing an engine and an allocator\<close>

datatype engine_class =
  NvmInstEngine | HybridInstEngine | SimpleShadowEngine | UndoLogEngine | LmcEngine
| NoopEngine | NvmEngine | MProtectEngine | DirtyBitEngine

datatype allocator_class = HookLRMallocAllocator | TrivialAllocator | LRMallocAllocator

text \<open>The engines compiled into the library: the \<^verbatim>\<open>USE_..._ENGINE\<close> macros.\<close>

record build =
  use_nvm_inst :: bool
  use_hybrid_inst :: bool
  use_simple_shadow :: bool
  use_undolog :: bool
  use_lmc :: bool

definition select_engine :: "bool \<Rightarrow> build \<Rightarrow> string \<Rightarrow> engine_class option" where
  "select_engine process_instrumented bd name =
     (if process_instrumented then
        if use_nvm_inst bd \<and> name = ''default'' then Some NvmInstEngine
        else if use_hybrid_inst bd \<and> name = ''default'' then Some HybridInstEngine
        else if use_simple_shadow bd \<and> name = ''simple'' then Some SimpleShadowEngine
        else if use_undolog bd \<and> name = ''undolog'' then Some UndoLogEngine
        else if use_lmc bd \<and> name = ''lmc'' then Some LmcEngine
        else None
      else
        if name = ''noop'' then Some NoopEngine
        else if name = ''nvm'' then Some NvmEngine
        else if name = ''mprotect'' then Some MProtectEngine
        else if name = ''dirty-bit'' then Some DirtyBitEngine
        else None)"

definition select_allocator :: "bool \<Rightarrow> string \<Rightarrow> allocator_class option" where
  "select_allocator process_instrumented name =
     (if process_instrumented then if name = ''default'' then Some HookLRMallocAllocator else None
      else if name = ''noop'' then Some TrivialAllocator
      else if name = ''default'' then Some LRMallocAllocator
      else None)"

subsection \<open>Pools\<close>

record ('a, 'e) vtable =
  v_pmalloc :: "nat \<Rightarrow> nat \<Rightarrow> 'a \<Rightarrow> (nat \<times> 'a) option"
  v_pfree :: "nat \<Rightarrow> nat \<Rightarrow> 'a \<Rightarrow> 'a option"
  v_set_root :: "nat \<Rightarrow> nat \<Rightarrow> 'a \<Rightarrow> 'a option"
  v_get_root :: "nat \<Rightarrow> 'a \<Rightarrow> nat option"
  v_checkpoint :: "nat \<Rightarrow> 'e \<Rightarrow> 'e option"
  v_wait :: "'e \<Rightarrow> 'e"

record ('a, 'e) pool =
  allocator :: 'a
  engine :: 'e

text \<open>
  \<^verbatim>\<open>MemoryPool::Open\<close>. The opening functions of the classes are arguments; the second
  result is the engines deleted again because no allocator could be opened.
\<close>

definition MemoryPool_Open ::
  "bool \<Rightarrow> build \<Rightarrow> (engine_class \<Rightarrow> pool_option \<Rightarrow> 'e option) \<Rightarrow>
   (allocator_class \<Rightarrow> 'e \<Rightarrow> pool_option \<Rightarrow> 'a option) \<Rightarrow> pool_option \<Rightarrow> ('a, 'e) pool option \<times> 'e list" where
  "MemoryPool_Open instrumented bd op_eng op_alloc opt =
     (case Option.bind (select_engine instrumented bd (engine_name opt)) (\<lambda>c. op_eng c opt) of
        None \<Rightarrow> (None, [])
      | Some e \<Rightarrow>
          (case Option.bind (select_allocator instrumented (allocator_name opt)) (\<lambda>c. op_alloc c e opt) of
             None \<Rightarrow> (None, [e])
           | Some a \<Rightarrow> (Some \<lparr>allocator = a, engine = e\<rparr>, [])))"

definition pool_pmalloc :: "('a, 'e) vtable \<Rightarrow> nat \<Rightarrow> nat \<Rightarrow> ('a, 'e) pool \<Rightarrow> (nat \<times> ('a, 'e) pool) option" where
  "pool_pmalloc V tid sz p = map_option (\<lambda>(r, a). (r, p\<lparr>allocator := a\<rparr>)) (v_pmalloc V tid sz (allocator p))"

definition pool_pfree :: "('a, 'e) vtable \<Rightarrow> nat \<Rightarrow> nat \<Rightarrow> ('a, 'e) pool \<Rightarrow> ('a, 'e) pool option" where
  "pool_pfree V tid ptr p = map_option (\<lambda>a. p\<lparr>allocator := a\<rparr>) (v_pfree V tid ptr (allocator p))"

text \<open>The index of a root is converted to \<^verbatim>\<open>uint8_t\<close>.\<close>

definition uint8 :: "nat \<Rightarrow> nat" where "uint8 i = unat (word_of_nat i :: u8)"

definition pool_set_root :: "('a, 'e) vtable \<Rightarrow> nat \<Rightarrow> nat \<Rightarrow> ('a, 'e) pool \<Rightarrow> ('a, 'e) pool option" where
  "pool_set_root V index object p = map_option (\<lambda>a. p\<lparr>allocator := a\<rparr>) (v_set_root V (uint8 index) object (allocator p))"

definition pool_get_root :: "('a, 'e) vtable \<Rightarrow> nat \<Rightarrow> ('a, 'e) pool \<Rightarrow> nat option" where
  "pool_get_root V index p = v_get_root V (uint8 index) (allocator p)"

text \<open>The fences around the checkpoint do not change the values of the model.\<close>

definition pool_checkpoint :: "('a, 'e) vtable \<Rightarrow> nat \<Rightarrow> ('a, 'e) pool \<Rightarrow> ('a, 'e) pool option" where
  "pool_checkpoint V nr_threads p = map_option (\<lambda>e. p\<lparr>engine := e\<rparr>) (v_checkpoint V nr_threads (engine p))"

definition pool_wait_for_background_task :: "('a, 'e) vtable \<Rightarrow> ('a, 'e) pool \<Rightarrow> ('a, 'e) pool" where
  "pool_wait_for_background_task V p = p\<lparr>engine := v_wait V (engine p)\<rparr>"

subsection \<open>The C interface\<close>

text \<open>
  The pools of the process by their pointers, 0 being the null pointer, and the global pool. A
  call on a null handle goes to the global pool and does nothing if there is none; a call on a
  handle of no pool is undefined, \<open>None\<close>.
\<close>

record ('a, 'e) process =
  pool_at :: "nat \<Rightarrow> ('a, 'e) pool option"
  global_pool :: nat

definition target :: "nat \<Rightarrow> ('a, 'e) process \<Rightarrow> nat" where
  "target h pr = (if h \<noteq> 0 then h else global_pool pr)"

definition on_pool :: "nat \<Rightarrow> (('a, 'e) pool \<Rightarrow> ('a, 'e) pool option) \<Rightarrow> ('a, 'e) process \<Rightarrow> ('a, 'e) process option" where
  "on_pool h f pr =
     (let t = target h pr in
      if t = 0 then Some pr
      else Option.bind (pool_at pr t) (\<lambda>p. map_option (\<lambda>p'. pr\<lparr>pool_at := (pool_at pr)(t \<mapsto> p')\<rparr>) (f p)))"

text \<open>
  \<^verbatim>\<open>crpm_open\<close>, with the opening functions of the classes and the address \<^verbatim>\<open>new\<close> returns
  for the pool as arguments. A null option opens nothing.
\<close>

definition crpm_open ::
  "bool \<Rightarrow> build \<Rightarrow> (engine_class \<Rightarrow> pool_option \<Rightarrow> 'e option) \<Rightarrow> (allocator_class \<Rightarrow> 'e \<Rightarrow> pool_option \<Rightarrow> 'a option) \<Rightarrow>
   nat \<Rightarrow> crpm_option_t option \<Rightarrow> ('a, 'e) process \<Rightarrow> nat \<times> ('a, 'e) process" where
  "crpm_open instrumented bd op_eng op_alloc new_pointer option pr =
     (case option of
        None \<Rightarrow> (0, pr)
      | Some c \<Rightarrow>
          (case fst (MemoryPool_Open instrumented bd op_eng op_alloc (to_option c)) of
             None \<Rightarrow> (0, pr)
           | Some p \<Rightarrow> (new_pointer, pr\<lparr>pool_at := (pool_at pr)(new_pointer \<mapsto> p)\<rparr>)))"

definition crpm_close :: "nat \<Rightarrow> ('a, 'e) process \<Rightarrow> ('a, 'e) process" where
  "crpm_close h pr =
     (if h = 0 then pr
      else pr\<lparr>pool_at := (pool_at pr)(h := None), global_pool := (if global_pool pr = h then 0 else global_pool pr)\<rparr>)"

definition crpm_set_root :: "('a, 'e) vtable \<Rightarrow> nat \<Rightarrow> nat \<Rightarrow> nat \<Rightarrow> ('a, 'e) process \<Rightarrow> ('a, 'e) process option" where
  "crpm_set_root V h index object = on_pool h (pool_set_root V index object)"

definition crpm_get_root :: "('a, 'e) vtable \<Rightarrow> nat \<Rightarrow> nat \<Rightarrow> ('a, 'e) process \<Rightarrow> nat option" where
  "crpm_get_root V h index pr =
     (let t = target h pr in if t = 0 then Some 0 else Option.bind (pool_at pr t) (pool_get_root V index))"

definition crpm_malloc :: "('a, 'e) vtable \<Rightarrow> nat \<Rightarrow> nat \<Rightarrow> nat \<Rightarrow> ('a, 'e) process \<Rightarrow> (nat \<times> ('a, 'e) process) option" where
  "crpm_malloc V tid h sz pr =
     (let t = target h pr in
      if t = 0 then Some (0, pr)
      else Option.bind (pool_at pr t) (\<lambda>p.
        map_option (\<lambda>(r, p'). (r, pr\<lparr>pool_at := (pool_at pr)(t \<mapsto> p')\<rparr>)) (pool_pmalloc V tid sz p)))"

definition crpm_free :: "('a, 'e) vtable \<Rightarrow> nat \<Rightarrow> nat \<Rightarrow> nat \<Rightarrow> ('a, 'e) process \<Rightarrow> ('a, 'e) process option" where
  "crpm_free V tid h ptr = on_pool h (pool_pfree V tid ptr)"

definition crpm_default_malloc :: "('a, 'e) vtable \<Rightarrow> nat \<Rightarrow> nat \<Rightarrow> ('a, 'e) process \<Rightarrow> (nat \<times> ('a, 'e) process) option" where
  "crpm_default_malloc V tid sz pr =
     (if global_pool pr = 0 then Some (0, pr) else crpm_malloc V tid (global_pool pr) sz pr)"

definition crpm_default_free :: "('a, 'e) vtable \<Rightarrow> nat \<Rightarrow> nat \<Rightarrow> ('a, 'e) process \<Rightarrow> ('a, 'e) process option" where
  "crpm_default_free V tid ptr pr =
     (if global_pool pr = 0 then Some pr else crpm_free V tid (global_pool pr) ptr pr)"

definition crpm_checkpoint :: "('a, 'e) vtable \<Rightarrow> nat \<Rightarrow> nat \<Rightarrow> ('a, 'e) process \<Rightarrow> ('a, 'e) process option" where
  "crpm_checkpoint V h nr_threads = on_pool h (pool_checkpoint V nr_threads)"

definition crpm_wait_for_background_task :: "('a, 'e) vtable \<Rightarrow> nat \<Rightarrow> ('a, 'e) process \<Rightarrow> ('a, 'e) process option" where
  "crpm_wait_for_background_task V h = on_pool h (\<lambda>p. Some (pool_wait_for_background_task V p))"

definition crpm_set_default_pool :: "nat \<Rightarrow> ('a, 'e) process \<Rightarrow> ('a, 'e) process" where
  "crpm_set_default_pool h pr = pr\<lparr>global_pool := h\<rparr>"

subsection \<open>Objects, arrays and the standard-library allocator\<close>

text \<open>A product of type \<^verbatim>\<open>size_t\<close>.\<close>

definition size_product :: "nat \<Rightarrow> nat \<Rightarrow> nat" where
  "size_product n sz = unat (word_of_nat n * word_of_nat sz :: u64)"

text \<open>
  The templates of \<^verbatim>\<open>MemoryPool\<close>, with the size of the type and the effect of its constructor
  and destructor at an address as arguments.
\<close>

definition pnew :: "('a, 'e) vtable \<Rightarrow> nat \<Rightarrow> nat \<Rightarrow> (nat \<Rightarrow> ('a, 'e) pool \<Rightarrow> ('a, 'e) pool) \<Rightarrow> ('a, 'e) pool \<Rightarrow> (nat \<times> ('a, 'e) pool) option" where
  "pnew V tid sz ctor p =
     map_option (\<lambda>(q, p'). (q, if q \<noteq> 0 then ctor q p' else p')) (pool_pmalloc V tid sz p)"

definition pnew_array :: "('a, 'e) vtable \<Rightarrow> nat \<Rightarrow> nat \<Rightarrow> (nat \<Rightarrow> ('a, 'e) pool \<Rightarrow> ('a, 'e) pool) \<Rightarrow> nat \<Rightarrow> ('a, 'e) pool \<Rightarrow> (nat \<times> ('a, 'e) pool) option" where
  "pnew_array V tid sz ctor cnt p =
     map_option (\<lambda>(q, p'). (q, if q \<noteq> 0 then fold (\<lambda>i. ctor (q + i * sz)) [0..<cnt] p' else p'))
       (pool_pmalloc V tid (size_product cnt sz) p)"

definition pdelete :: "('a, 'e) vtable \<Rightarrow> nat \<Rightarrow> (nat \<Rightarrow> ('a, 'e) pool \<Rightarrow> ('a, 'e) pool) \<Rightarrow> nat \<Rightarrow> ('a, 'e) pool \<Rightarrow> ('a, 'e) pool option" where
  "pdelete V tid dtor obj p = (if obj = 0 then Some p else pool_pfree V tid obj (dtor obj p))"

definition pdelete_array :: "('a, 'e) vtable \<Rightarrow> nat \<Rightarrow> nat \<Rightarrow> (nat \<Rightarrow> ('a, 'e) pool \<Rightarrow> ('a, 'e) pool) \<Rightarrow> nat \<Rightarrow> nat \<Rightarrow> ('a, 'e) pool \<Rightarrow> ('a, 'e) pool option" where
  "pdelete_array V tid sz dtor obj cnt p =
     (if obj = 0 then Some p else pool_pfree V tid obj (fold (\<lambda>i. dtor (obj + i * sz)) [0..<cnt] p))"

text \<open>\<^verbatim>\<open>Crpm2Allocator\<close>: \<open>Inl ()\<close> is \<^verbatim>\<open>std::bad_alloc\<close>.\<close>

definition crpm2_allocate :: "('a, 'e) vtable \<Rightarrow> nat \<Rightarrow> nat \<Rightarrow> nat \<Rightarrow> ('a, 'e) process \<Rightarrow> ((unit + nat) \<times> ('a, 'e) process) option" where
  "crpm2_allocate V tid sz n pr =
     (if n > (2 ^ 64 - 1) div sz then Some (Inl (), pr)
      else if global_pool pr = 0 then Some (Inl (), pr)
      else map_option (\<lambda>(q, pr'). (if q = 0 then Inl () else Inr q, pr'))
             (crpm_malloc V tid (global_pool pr) (size_product n sz) pr))"

definition crpm2_deallocate :: "('a, 'e) vtable \<Rightarrow> nat \<Rightarrow> nat \<Rightarrow> ('a, 'e) process \<Rightarrow> ('a, 'e) process option" where
  "crpm2_deallocate V tid ptr pr = (if global_pool pr = 0 then Some pr else crpm_free V tid (global_pool pr) ptr pr)"

lemma size_product_exact: "n * sz < 2 ^ 64 \<Longrightarrow> size_product n sz = n * sz"
  by (simp add: size_product_def unat_word_ariths unat_of_nat mod_mult_eq)

lemma size_product_mod: "size_product n sz = n * sz mod 2 ^ 64"
  by (simp add: size_product_def unat_word_ariths unat_of_nat mod_mult_eq)

text \<open>
  Sizes of arrays. An array the standard-library allocator of the code returns was requested
  with its whole size: a count whose product with the size of the type does not fit
  \<^verbatim>\<open>size_t\<close>, a missing pool and a failed allocation are all \<^verbatim>\<open>bad_alloc\<close>.
\<close>

theorem crpm2_allocate_exact:
  assumes "crpm2_allocate V tid sz n pr = Some (Inr q, pr')" and "0 < sz"
  shows "q \<noteq> 0 \<and> n * sz < 2 ^ 64 \<and> crpm_malloc V tid (global_pool pr) (n * sz) pr = Some (q, pr')"
proof -
  have n: "n \<le> (2 ^ 64 - 1) div sz" using assms(1) by (auto simp: crpm2_allocate_def split: if_splits)
  have "n * sz \<le> 2 ^ 64 - 1" using mult_le_mono1 [OF n, of sz] div_times_less_eq_dividend [of "2 ^ 64 - 1" sz] by linarith
  then have lt: "n * sz < 2 ^ 64" by simp
  then show ?thesis using assms n by (auto simp: crpm2_allocate_def size_product_exact split: if_splits)
qed

theorem crpm2_allocate_exact_witness:
  "\<exists>pr'. crpm_malloc \<lparr>v_pmalloc = \<lambda>t n a. Some (4096, a + n), v_pfree = \<lambda>t p a. Some a, v_set_root = \<lambda>i x a. Some a,
        v_get_root = \<lambda>i a. Some 0, v_checkpoint = \<lambda>n e. Some e, v_wait = id\<rparr> 0 8 (5 * 16)
      \<lparr>pool_at = [8 \<mapsto> \<lparr>allocator = 0 :: nat, engine = ()\<rparr>], global_pool = 8\<rparr> = Some (4096, pr')"
proof -
  define V :: "(nat, unit) vtable" where "V = \<lparr>v_pmalloc = \<lambda>t n a. Some (4096, a + n), v_pfree = \<lambda>t p a. Some a,
    v_set_root = \<lambda>i x a. Some a, v_get_root = \<lambda>i a. Some 0, v_checkpoint = \<lambda>n e. Some e, v_wait = id\<rparr>"
  define pr where "pr = \<lparr>pool_at = [8 \<mapsto> \<lparr>allocator = 0 :: nat, engine = ()\<rparr>], global_pool = 8\<rparr>"
  obtain pr' where 1: "crpm2_allocate V 0 16 5 pr = Some (Inr 4096, pr')"
    by (simp add: crpm2_allocate_def crpm_malloc_def Let_def target_def pool_pmalloc_def V_def pr_def)
  show ?thesis using crpm2_allocate_exact [OF 1] by (auto simp: V_def pr_def)
qed

text \<open>
  \<^verbatim>\<open>pnew_array\<close> multiplies without a check: the request wraps, and the constructors run on
  elements that were never allocated.
\<close>

lemma pnew_array_wraps:
  assumes "v_pmalloc V tid 8 (allocator p) = Some (q, a)" and "q \<noteq> 0"
  shows "pnew_array V tid 8 ctor (2 ^ 61 + 1) p =
    Some (q, fold (\<lambda>i. ctor (q + i * 8)) [0..<2 ^ 61 + 1] (p\<lparr>allocator := a\<rparr>))"
proof -
  have "size_product (2 ^ 61 + 1) 8 = 8" by (simp add: size_product_mod)
  then show ?thesis unfolding pnew_array_def pool_pmalloc_def using assms by (simp del: upt_Suc)
qed

subsection \<open>Opening\<close>

lemma select_engine_instrumented:
  "select_engine True bd name \<in> {None, Some NvmInstEngine, Some HybridInstEngine, Some SimpleShadowEngine, Some UndoLogEngine, Some LmcEngine}"
  "select_engine False bd name \<in> {None, Some NoopEngine, Some NvmEngine, Some MProtectEngine, Some DirtyBitEngine}"
  by (simp_all add: select_engine_def)

text \<open>The default names open nothing in a process that is not instrumented.\<close>

lemma default_needs_instrumentation:
  "map_option (\<lambda>c. crpm_open False bd oe oa np (Some c) pr) (crpm_init_option (Some c0)) = Some (0, pr)"
  by (simp add: crpm_open_def MemoryPool_Open_def crpm_init_option_def to_option_def select_engine_def)

lemma MemoryPool_Open_no_leak:
  assumes "MemoryPool_Open instrumented bd oe oa opt = (r, deleted)"
    and "select_engine instrumented bd (engine_name opt) = Some c" and "oe c opt = Some e"
  shows "case r of None \<Rightarrow> deleted = [e] | Some p \<Rightarrow> engine p = e \<and> deleted = []"
  using assms by (auto simp: MemoryPool_Open_def split: option.splits)

subsection \<open>Roots\<close>

text \<open>What a pool needs of the root table of its allocator.\<close>

locale root_table =
  fixes set_rt :: "nat \<Rightarrow> nat \<Rightarrow> 'a \<Rightarrow> 'a option" and get_rt :: "nat \<Rightarrow> 'a \<Rightarrow> nat option" and slots :: nat
  assumes room: "256 \<le> slots"
    and set_get: "i < slots \<Longrightarrow> \<exists>a'. set_rt i x a = Some a' \<and> (\<forall>j < slots. get_rt j a' = (if j = i then Some x else get_rt j a))"
begin

lemma pool_roots:
  fixes V :: "('a, 'e) vtable" and pr :: "('a, 'e) process"
  assumes "v_set_root V = set_rt" and "v_get_root V = get_rt" and "target h pr = t" and "t \<noteq> 0" and "pool_at pr t = Some p"
  shows "\<exists>pr'. crpm_set_root V h index x pr = Some pr' \<and>
    (\<forall>index'. crpm_get_root V h index' pr' = (if index' mod 256 = index mod 256 then Some x else crpm_get_root V h index' pr))"
proof -
  have u: "uint8 i = i mod 256" for i by (simp add: uint8_def unat_of_nat)
  have slot: "i mod 256 < slots" for i using room by (meson mod_less_divisor less_le_trans zero_less_numeral)
  obtain a' where a': "set_rt (index mod 256) x (allocator p) = Some a'"
    "\<forall>j < slots. get_rt j a' = (if j = index mod 256 then Some x else get_rt j (allocator p))"
    using set_get [OF slot] by blast
  define pr' where "pr' = pr\<lparr>pool_at := (pool_at pr)(t \<mapsto> p\<lparr>allocator := a'\<rparr>)\<rparr>"
  have s: "crpm_set_root V h index x pr = Some pr'"
    using assms a'(1) by (simp add: crpm_set_root_def on_pool_def Let_def pool_set_root_def u pr'_def)
  have "target h pr' = t" using assms(3) by (simp add: target_def pr'_def split: if_splits)
  then have "crpm_get_root V h index' pr' = (if index' mod 256 = index mod 256 then Some x else crpm_get_root V h index' pr)" for index'
    using assms a'(2) slot by (simp add: crpm_get_root_def Let_def pool_get_root_def u pr'_def)
  with s show ?thesis by blast
qed

end

definition lr_vtable :: "(nat \<Rightarrow> 'e \<Rightarrow> 'e option) \<Rightarrow> ('e \<Rightarrow> 'e) \<Rightarrow> (lralloc, 'e) vtable" where
  "lr_vtable ckpt wait = \<lparr>v_pmalloc = LrMalloc.pmalloc, v_pfree = LrMalloc.pfree, v_set_root = LrMalloc.set_root,
     v_get_root = LrMalloc.get_root, v_checkpoint = ckpt, v_wait = wait\<rparr>"

interpretation lr_roots: root_table LrMalloc.set_root LrMalloc.get_root kMaxRoots
  by unfold_locales (auto simp: LrMalloc.set_root_def LrMalloc.get_root_def ensure_def kMaxRoots_def)

text \<open>
  C40. Roots through the C interface: a root that is set is the one read back under the same index,
  but only the low eight bits of the index cnt, so indices that differ by a multiple of 256 are
  one root although the allocator has 1024, and no index is rejected.
\<close>

theorem roots_round_trip:
  assumes "target h pr \<noteq> 0" and "pool_at pr (target h pr) \<noteq> None"
  shows "\<exists>pr'. crpm_set_root (lr_vtable ckpt wait) h index x pr = Some pr' \<and>
    (\<forall>index'. crpm_get_root (lr_vtable ckpt wait) h index' pr' =
       (if index' mod 256 = index mod 256 then Some x else crpm_get_root (lr_vtable ckpt wait) h index' pr))"
proof -
  obtain p where p: "pool_at pr (target h pr) = Some p" using assms(2) by blast
  show ?thesis by (rule lr_roots.pool_roots [OF _ _ refl assms(1) p]) (simp_all add: lr_vtable_def)
qed

theorem roots_round_trip_witness:
  "\<exists>(a :: lralloc) pr'. crpm_set_root (lr_vtable (\<lambda>n e. Some e) id) 8 300 7 \<lparr>pool_at = [8 \<mapsto> \<lparr>allocator = a, engine = ()\<rparr>], global_pool = 0\<rparr> = Some pr' \<and>
     crpm_get_root (lr_vtable (\<lambda>n e. Some e) id) 8 44 pr' = Some 7"
proof -
  fix a :: lralloc
  define pr where "pr = \<lparr>pool_at = [8 \<mapsto> \<lparr>allocator = a, engine = ()\<rparr>], global_pool = 0\<rparr>"
  have "target 8 pr \<noteq> 0" "pool_at pr (target 8 pr) \<noteq> None" by (simp_all add: pr_def target_def)
  from roots_round_trip [OF this, of "\<lambda>n e. Some e" id 300 7]
  obtain pr' where "crpm_set_root (lr_vtable (\<lambda>n e. Some e) id) 8 300 7 pr = Some pr'"
    "\<forall>j. crpm_get_root (lr_vtable (\<lambda>n e. Some e) id) 8 j pr' =
       (if j mod 256 = 300 mod 256 then Some 7 else crpm_get_root (lr_vtable (\<lambda>n e. Some e) id) 8 j pr)"
    by blast
  then show ?thesis by (intro exI [of _ a] exI [of _ pr']) (simp add: pr_def)
qed

end
